(* ===== verification/OS_Prelude.thy ===== *)
theory OS_Prelude
  imports Main "HOL-Library.Word" "HOL-Library.Monad_Syntax"
begin

text \<open>
  What every component theory shares: the kernel's error codes
  (\<^verbatim>\<open>kern/include/kern/errno.h\<close>), the treatment of failure, machine words, and the
  generic lemmas.

  Two kinds of failure are kept apart. A C function that returns an error code returns here a
  value of \<open>errno + 'a\<close>: \<open>Inl e\<close> for the code \<open>e\<close>, \<open>Inr x\<close> for 0 with the results
  \<open>x\<close> that the code stores through its pointer arguments. The failure of a \<^verbatim>\<open>KASSERT\<close>, a call
  of \<^verbatim>\<open>panic\<close>, and an access that C leaves undefined (a null pointer, an index past the end of
  an array) stop the kernel: they are the value \<open>None\<close> of an \<open>option\<close> around the whole
  result. So a theorem that concludes \<open>f s = Some r\<close> also says that no assertion fires.
  \<^verbatim>\<open>DEBUGASSERT\<close> is compiled out in \<^verbatim>\<open>kern/include/lib.h\<close> and is left out here.
\<close>

unbundle bit_operations_syntax

named_theorems os_bind \<open>rules that take a \<^theory_text>\<open>do\<close> block over \<open>option\<close> apart\<close>

type_synonym u8 = "8 word"
type_synonym u16 = "16 word"
type_synonym u32 = "32 word"

section \<open>Error codes\<close>

text \<open>
  An error code is its number; the symbolic constants of \<^verbatim>\<open>kern/errno.h\<close> are abbreviations, so
  the simplifier tells two codes apart by arithmetic.
\<close>

datatype errno = Errno (errno_code: nat)

abbreviation ENOSYS :: errno where "ENOSYS \<equiv> Errno 1"
abbreviation ENOMEM :: errno where "ENOMEM \<equiv> Errno 3"
abbreviation EAGAIN :: errno where "EAGAIN \<equiv> Errno 4"
abbreviation EINTR :: errno where "EINTR \<equiv> Errno 5"
abbreviation EFAULT :: errno where "EFAULT \<equiv> Errno 6"
abbreviation ENAMETOOLONG :: errno where "ENAMETOOLONG \<equiv> Errno 7"
abbreviation EINVAL :: errno where "EINVAL \<equiv> Errno 8"
abbreviation EPERM :: errno where "EPERM \<equiv> Errno 9"
abbreviation EACCES :: errno where "EACCES \<equiv> Errno 10"
abbreviation EMPROC :: errno where "EMPROC \<equiv> Errno 11"
abbreviation ENPROC :: errno where "ENPROC \<equiv> Errno 12"
abbreviation ENOEXEC :: errno where "ENOEXEC \<equiv> Errno 13"
abbreviation E2BIG :: errno where "E2BIG \<equiv> Errno 14"
abbreviation ESRCH :: errno where "ESRCH \<equiv> Errno 15"
abbreviation ECHILD :: errno where "ECHILD \<equiv> Errno 16"
abbreviation ENOTDIR :: errno where "ENOTDIR \<equiv> Errno 17"
abbreviation EISDIR :: errno where "EISDIR \<equiv> Errno 18"
abbreviation ENOENT :: errno where "ENOENT \<equiv> Errno 19"
abbreviation ELOOP :: errno where "ELOOP \<equiv> Errno 20"
abbreviation ENOTEMPTY :: errno where "ENOTEMPTY \<equiv> Errno 21"
abbreviation EEXIST :: errno where "EEXIST \<equiv> Errno 22"
abbreviation EMLINK :: errno where "EMLINK \<equiv> Errno 23"
abbreviation EXDEV :: errno where "EXDEV \<equiv> Errno 24"
abbreviation ENODEV :: errno where "ENODEV \<equiv> Errno 25"
abbreviation ENXIO :: errno where "ENXIO \<equiv> Errno 26"
abbreviation EBUSY :: errno where "EBUSY \<equiv> Errno 27"
abbreviation EMFILE :: errno where "EMFILE \<equiv> Errno 28"
abbreviation ENFILE :: errno where "ENFILE \<equiv> Errno 29"
abbreviation EBADF :: errno where "EBADF \<equiv> Errno 30"
abbreviation EIOCTL :: errno where "EIOCTL \<equiv> Errno 31"
abbreviation EIO :: errno where "EIO \<equiv> Errno 32"
abbreviation ESPIPE :: errno where "ESPIPE \<equiv> Errno 33"
abbreviation EPIPE :: errno where "EPIPE \<equiv> Errno 34"
abbreviation EROFS :: errno where "EROFS \<equiv> Errno 35"
abbreviation ENOSPC :: errno where "ENOSPC \<equiv> Errno 36"
abbreviation EDQUOT :: errno where "EDQUOT \<equiv> Errno 37"
abbreviation EFBIG :: errno where "EFBIG \<equiv> Errno 38"
abbreviation EFTYPE :: errno where "EFTYPE \<equiv> Errno 39"
abbreviation EDOM :: errno where "EDOM \<equiv> Errno 40"
abbreviation ERANGE :: errno where "ERANGE \<equiv> Errno 41"
abbreviation EILSEQ :: errno where "EILSEQ \<equiv> Errno 42"
abbreviation ENOTSOCK :: errno where "ENOTSOCK \<equiv> Errno 43"
abbreviation EISSOCK :: errno where "EISSOCK \<equiv> Errno 44"
abbreviation EISCONN :: errno where "EISCONN \<equiv> Errno 45"
abbreviation ENOTCONN :: errno where "ENOTCONN \<equiv> Errno 46"
abbreviation ESHUTDOWN :: errno where "ESHUTDOWN \<equiv> Errno 47"
abbreviation EPFNOSUPPORT :: errno where "EPFNOSUPPORT \<equiv> Errno 48"
abbreviation ESOCKTNOSUPPORT :: errno where "ESOCKTNOSUPPORT \<equiv> Errno 49"
abbreviation EPROTONOSUPPORT :: errno where "EPROTONOSUPPORT \<equiv> Errno 50"
abbreviation EPROTOTYPE :: errno where "EPROTOTYPE \<equiv> Errno 51"
abbreviation EAFNOSUPPORT :: errno where "EAFNOSUPPORT \<equiv> Errno 52"
abbreviation ENOPROTOOPT :: errno where "ENOPROTOOPT \<equiv> Errno 53"
abbreviation EADDRINUSE :: errno where "EADDRINUSE \<equiv> Errno 54"
abbreviation EADDRNOTAVAIL :: errno where "EADDRNOTAVAIL \<equiv> Errno 55"
abbreviation ENETDOWN :: errno where "ENETDOWN \<equiv> Errno 56"
abbreviation ENETUNREACH :: errno where "ENETUNREACH \<equiv> Errno 57"
abbreviation EHOSTDOWN :: errno where "EHOSTDOWN \<equiv> Errno 58"
abbreviation EHOSTUNREACH :: errno where "EHOSTUNREACH \<equiv> Errno 59"
abbreviation ECONNREFUSED :: errno where "ECONNREFUSED \<equiv> Errno 60"
abbreviation ETIMEDOUT :: errno where "ETIMEDOUT \<equiv> Errno 61"
abbreviation ECONNRESET :: errno where "ECONNRESET \<equiv> Errno 62"
abbreviation EMSGSIZE :: errno where "EMSGSIZE \<equiv> Errno 63"
abbreviation ENOTSUP :: errno where "ENOTSUP \<equiv> Errno 64"

section \<open>Assertions, array accesses\<close>

definition kassert :: "bool \<Rightarrow> unit option" where
  "kassert b = (if b then Some () else None)"

definition fetch :: "'a list \<Rightarrow> nat \<Rightarrow> 'a option" where
  "fetch xs i = (if i < length xs then Some (xs ! i) else None)"

definition store :: "'a list \<Rightarrow> nat \<Rightarrow> 'a \<Rightarrow> 'a list option" where
  "store xs i x = (if i < length xs then Some (xs[i := x]) else None)"

lemma kassert_simps [simp]: "kassert True = Some ()" "kassert False = None"
  by (simp_all add: kassert_def)

lemma kassert_eq_Some [simp]: "kassert b = Some u \<longleftrightarrow> b"
  by (simp add: kassert_def)

lemma kassert_eq_None [simp]: "kassert b = None \<longleftrightarrow> \<not> b"
  by (simp add: kassert_def)

lemma kassert_bind [simp]: "b \<Longrightarrow> kassert b \<bind> f = f ()"
  by (simp add: kassert_def)

lemma kassert_bind_eq_Some [os_bind]: "kassert b \<bind> f = Some y \<longleftrightarrow> b \<and> f () = Some y"
  by (simp add: kassert_def)

lemma fetch_in [simp]: "i < length xs \<Longrightarrow> fetch xs i = Some (xs ! i)"
  by (simp add: fetch_def)

lemma fetch_out [simp]: "length xs \<le> i \<Longrightarrow> fetch xs i = None"
  by (simp add: fetch_def)

lemma fetch_eq_Some [os_bind]: "fetch xs i = Some x \<longleftrightarrow> i < length xs \<and> x = xs ! i"
  by (auto simp: fetch_def)

lemma store_in [simp]: "i < length xs \<Longrightarrow> store xs i x = Some (xs[i := x])"
  by (simp add: store_def)

lemma store_out [simp]: "length xs \<le> i \<Longrightarrow> store xs i x = None"
  by (simp add: store_def)

lemma store_eq_Some [os_bind]:
  "store xs i x = Some ys \<longleftrightarrow> i < length xs \<and> ys = xs[i := x]"
  by (auto simp: store_def)

lemmas bind_eq_Some [os_bind] = Option.bind_eq_Some_conv

section \<open>Loops over a range\<close>

text \<open>
  A \<^verbatim>\<open>for\<close> loop whose body may stop the kernel: the body runs on the elements in order and the
  state is threaded through.
\<close>

primrec for_each :: "('a \<Rightarrow> 's \<Rightarrow> 's option) \<Rightarrow> 'a list \<Rightarrow> 's \<Rightarrow> 's option" where
  "for_each f [] s = Some s"
| "for_each f (x # xs) s = f x s \<bind> for_each f xs"

lemma for_each_append: "for_each f (xs @ ys) s = for_each f xs s \<bind> for_each f ys"
  by (induction xs arbitrary: s) (auto split: Option.bind_splits)

lemma for_each_total:
  assumes "\<And>x s. x \<in> set xs \<Longrightarrow> I s \<Longrightarrow> \<exists>s'. f x s = Some s' \<and> I s'" and "I s"
  shows "\<exists>s'. for_each f xs s = Some s' \<and> I s'"
  using assms
proof (induction xs arbitrary: s)
  case (Cons x xs)
  obtain s1 where "f x s = Some s1" and "I s1" using Cons.prems by auto
  moreover from this obtain s2 where "for_each f xs s1 = Some s2" and "I s2"
    using Cons.IH [of s1] Cons.prems(1) by auto
  ultimately show ?case by simp
qed simp

lemma for_each_pure: "for_each (\<lambda>x s. Some (g x s)) xs s = Some (fold g xs s)"
  by (induction xs arbitrary: s) auto

lemma for_each_cong:
  "(\<And>x s. x \<in> set xs \<Longrightarrow> f x s = g x s) \<Longrightarrow> for_each f xs s = for_each g xs s"
  by (induction xs arbitrary: s) (auto intro: Option.bind_cong)

section \<open>Rounding\<close>

text \<open>
  \<^verbatim>\<open>DIVROUNDUP\<close> of \<^verbatim>\<open>lib.h\<close> on 32-bit unsigned operands: the sum wraps around.
\<close>

definition divroundup :: "nat \<Rightarrow> nat \<Rightarrow> nat" where
  "divroundup a b = ((a + b - 1) mod 2 ^ 32) div b"

lemma divroundup_small: "0 < b \<Longrightarrow> a + b \<le> 2 ^ 32 \<Longrightarrow> divroundup a b = (a + b - 1) div b"
  by (simp add: divroundup_def)

lemma divroundup_covers:
  assumes "0 < b" and "a + b \<le> 2 ^ 32"
  shows "a \<le> divroundup a b * b"
proof -
  have "(a + b - 1) mod b < b" using assms(1) by simp
  moreover have "(a + b - 1) div b * b + (a + b - 1) mod b = a + b - 1"
    by (rule div_mult_mod_eq)
  ultimately have "a \<le> (a + b - 1) div b * b" by linarith
  then show ?thesis using assms by (simp add: divroundup_small)
qed

lemma divroundup_tight:
  assumes "0 < b" and "a + b \<le> 2 ^ 32"
  shows "divroundup a b * b < a + b"
proof -
  have "(a + b - 1) div b * b \<le> a + b - 1" by (rule div_times_less_eq_dividend)
  moreover have "a + b - 1 < a + b" using assms(1) by simp
  ultimately have "(a + b - 1) div b * b < a + b" by (rule le_less_trans)
  then show ?thesis using assms by (simp only: divroundup_small)
qed

section \<open>Bits of bytes\<close>

lemma byte_all_bits: "(w :: u8) = 0xff \<longleftrightarrow> (\<forall>j < 8. bit w j)"
proof
  assume "w = 0xff"
  moreover have "bit (0xff :: u8) j" if "j < 8" for j
  proof -
    have "j \<in> {0, 1, 2, 3, 4, 5, 6, 7}" using that by auto
    then show ?thesis by (auto simp: bit_simps)
  qed
  ultimately show "\<forall>j < 8. bit w j" by simp
next
  assume all: "\<forall>j < 8. bit w j"
  have "w = - 1"
    by (rule bit_word_eqI) (use all in \<open>simp add: bit_simps\<close>)
  then show "w = 0xff" by simp
qed

lemma byte_least_clear:
  assumes "(w :: u8) \<noteq> 0xff"
  obtains k where "k < 8" and "\<not> bit w k" and "\<And>j. j < k \<Longrightarrow> bit w j"
proof -
  let ?P = "\<lambda>j. j < 8 \<and> \<not> bit w j"
  have "\<exists>j. ?P j" using assms byte_all_bits [of w] by auto
  then obtain k where k: "?P k" and least: "\<forall>j < k. \<not> ?P j"
    by (rule exists_least_iff [THEN iffD1, THEN exE]) blast
  show thesis
  proof (rule that)
    show "k < 8" "\<not> bit w k" using k by simp_all
    show "bit w j" if "j < k" for j using least k that by auto
  qed
qed

text \<open>The byte with only bit \<open>k\<close> set: \<^verbatim>\<open>((WORD_TYPE)1) << k\<close>.\<close>

definition byte_bit :: "nat \<Rightarrow> u8" where
  "byte_bit k = push_bit k 1"

lemma bit_byte_bit: "bit (byte_bit k) j \<longleftrightarrow> j = k \<and> k < 8"
  unfolding byte_bit_def by (auto simp: bit_simps)

lemma byte_and_mask: "k < 8 \<Longrightarrow> w AND byte_bit k = 0 \<longleftrightarrow> \<not> bit w k"
  by (subst bit_eq_iff) (auto simp: bit_and_iff bit_byte_bit)

lemma byte_or_mask: "bit (w OR byte_bit k) j \<longleftrightarrow> bit w j \<or> (j = k \<and> k < 8)"
  by (simp add: bit_or_iff bit_byte_bit)

lemma byte_clear_mask: "k < 8 \<Longrightarrow> bit (w AND NOT (byte_bit k)) j \<longleftrightarrow> bit w j \<and> j \<noteq> k"
  by (cases "j < 8") (auto simp: bit_and_iff bit_not_iff bit_byte_bit dest: bit_imp_le_length)

section \<open>Lists and least indices\<close>

lemma take_exact: "n = length xs \<Longrightarrow> take n (xs @ ys) = xs"
  by simp

lemma take_drop_remove1:
  "i < length xs \<Longrightarrow> xs ! i = x \<Longrightarrow> x \<notin> set (take i xs) \<Longrightarrow>
     take i xs @ drop (Suc i) xs = remove1 x xs"
proof (induction xs arbitrary: i)
  case (Cons y ys)
  then show ?case by (cases i) auto
qed simp

lemma list_update_same_length [simp]: "length (xs[i := x]) = length xs"
  by simp

lemma nth_list_update_iff: "i < length xs \<Longrightarrow> xs[i := x] ! j = (if j = i then x else xs ! j)"
  by simp

text \<open>The first index from \<open>i\<close>, below \<open>n\<close>, at which \<open>P\<close> holds: the code's search loops.\<close>

function find_from :: "(nat \<Rightarrow> bool) \<Rightarrow> nat \<Rightarrow> nat \<Rightarrow> nat option" where
  "find_from P i n = (if n \<le> i then None else if P i then Some i else find_from P (Suc i) n)"
  by pat_completeness auto
termination
  by (relation "measure (\<lambda>(P, i, n). n - i)") auto

declare find_from.simps [simp del]

lemma find_from_Some:
  "find_from P i n = Some k \<longleftrightarrow> i \<le> k \<and> k < n \<and> P k \<and> (\<forall>j. i \<le> j \<and> j < k \<longrightarrow> \<not> P j)"
proof (induction P i n rule: find_from.induct)
  case (1 P i n)
  show ?case
  proof (cases "n \<le> i")
    case True
    then show ?thesis by (auto simp: find_from.simps [of P i n])
  next
    case False
    show ?thesis
    proof (cases "P i")
      case True
      then show ?thesis using False
        by (auto simp: find_from.simps [of P i n] dest: le_neq_implies_less)
    next
      case nP: False
      then have eq: "find_from P i n = find_from P (Suc i) n"
        using False by (simp add: find_from.simps [of P i n])
      have "Suc i \<le> k \<longleftrightarrow> i \<le> k" if "P k"
        using nP that by (metis Suc_leD not_less_eq_eq le_antisym)
      moreover have "(\<forall>j. Suc i \<le> j \<and> j < k \<longrightarrow> \<not> P j) \<longleftrightarrow> (\<forall>j. i \<le> j \<and> j < k \<longrightarrow> \<not> P j)"
        using nP by (metis Suc_leD le_antisym not_less_eq_eq)
      ultimately show ?thesis using "1.IH" [OF False nP] eq by metis
    qed
  qed
qed

lemma find_from_None: "find_from P i n = None \<longleftrightarrow> (\<forall>j. i \<le> j \<and> j < n \<longrightarrow> \<not> P j)"
proof (induction P i n rule: find_from.induct)
  case (1 P i n)
  then show ?case
    by (cases "P i"; cases "n \<le> i")
      (auto simp: find_from.simps [of P i n] not_less_eq_eq [symmetric] Suc_le_eq
        dest: le_neq_implies_less)
qed

end
