(* ===== verification/Interfaces.thy ===== *)
theory Interfaces
  imports OS_Prelude
begin

text \<open>
  The interfaces between components: what a client calls and what its provider promises. Each is
  a locale whose parameters are the operations; the client's lemmas are proved once inside it,
  and the theory of the provider interprets it on the model of the code.
\<close>

section \<open>Sources of numbers\<close>

text \<open>
  A source hands out the least number of its range that is not in use, and takes numbers back: what the
  process code expects of process numbers.
\<close>

locale id_source =
  fixes wf :: "'m \<Rightarrow> bool"
    and ids used :: "'m \<Rightarrow> nat set"
    and get :: "'m \<Rightarrow> (nat option \<times> 'm) option"
    and put :: "nat \<Rightarrow> 'm \<Rightarrow> 'm option"
  assumes used_ids: "wf m \<Longrightarrow> used m \<subseteq> ids m"
    and get_full: "wf m \<Longrightarrow> used m = ids m \<Longrightarrow> get m = Some (None, m)"
    and get_free: "wf m \<Longrightarrow> used m \<noteq> ids m \<Longrightarrow> \<exists>k m'. get m = Some (Some k, m') \<and> wf m' \<and>
      ids m' = ids m \<and> k \<in> ids m \<and> k \<notin> used m \<and> {j \<in> ids m. j < k} \<subseteq> used m \<and> used m' = insert k (used m)"
    and put_used: "wf m \<Longrightarrow> k \<in> used m \<Longrightarrow>
      \<exists>m'. put k m = Some m' \<and> wf m' \<and> ids m' = ids m \<and> used m' = used m - {k}"
begin

text \<open>A run of requests: None asks for a number, \<open>Some k\<close> gives \<open>k\<close> back. The result lists the numbers
  that are held, the newest first.\<close>

fun run :: "nat option list \<Rightarrow> nat list \<Rightarrow> 'm \<Rightarrow> (nat list \<times> 'm) option" where
  "run [] held m = Some (held, m)"
| "run (None # rs) held m = (case get m of
     None \<Rightarrow> None
   | Some (None, m') \<Rightarrow> run rs held m'
   | Some (Some k, m') \<Rightarrow> run rs (k # held) m')"
| "run (Some k # rs) held m =
    (if k \<in> set held then case put k m of None \<Rightarrow> None | Some m' \<Rightarrow> run rs (remove1 k held) m'
     else run rs held m)"

text \<open>Whatever a client asks for and gives back, the source answers, and the numbers the client holds are
  distinct and are the ones in use.\<close>

lemma run_held:
  "wf m \<Longrightarrow> used m = set held \<Longrightarrow> distinct held \<Longrightarrow>
     \<exists>held' m'. run rs held m = Some (held', m') \<and> wf m' \<and> used m' = set held' \<and> distinct held'"
proof (induction rs held m rule: run.induct)
  case (2 rs held m)
  show ?case
  proof (cases "used m = ids m")
    case True
    then show ?thesis using 2 get_full by simp
  next
    case False
    then obtain k m' where "get m = Some (Some k, m')" "wf m'" "k \<notin> used m" "used m' = insert k (used m)"
      using get_free [OF "2.prems"(1)] by blast
    then show ?thesis using "2.IH"(2) [of "(Some k, m')" "Some k" m' k] "2.prems" by simp
  qed
next
  case (3 k rs held m)
  show ?case
  proof (cases "k \<in> set held")
    case True
    then have "k \<in> used m" using "3.prems"(2) by simp
    then obtain m' where "put k m = Some m'" "wf m'" "used m' = used m - {k}"
      using put_used [OF "3.prems"(1)] by blast
    then show ?thesis using "3.IH"(1) [of m'] True "3.prems" by (simp add: set_remove1_eq)
  next
    case False
    then show ?thesis using 3 by simp
  qed
qed simp

lemma get_put:
  assumes "wf m" and "get m = Some (Some k, m')"
  shows "\<exists>m''. put k m' = Some m'' \<and> wf m'' \<and> used m'' = used m"
proof -
  have "used m \<noteq> ids m" using get_full assms by fastforce
  then have "wf m'" "k \<notin> used m" "used m' = insert k (used m)" using get_free [OF assms(1)] assms(2) by auto
  then show ?thesis using put_used [of m' k] by auto
qed

end

section \<open>Free maps\<close>

text \<open>
  A finite set of numbers from which the client takes the least free one and gives numbers back:
  what the file system expects of its block bitmap.
\<close>

locale free_map =
  fixes wf :: "'m \<Rightarrow> bool"
    and size_of :: "'m \<Rightarrow> nat"
    and used :: "'m \<Rightarrow> nat set"
    and alloc :: "'m \<Rightarrow> (errno + 'm \<times> nat) option"
    and mark :: "'m \<Rightarrow> nat \<Rightarrow> 'm option"
    and unmark :: "'m \<Rightarrow> nat \<Rightarrow> 'm option"
  assumes used_bound: "wf m \<Longrightarrow> used m \<subseteq> {..<size_of m}"
    and alloc_full: "wf m \<Longrightarrow> used m = {..<size_of m} \<Longrightarrow> alloc m = Some (Inl ENOSPC)"
    and alloc_free: "wf m \<Longrightarrow> used m \<noteq> {..<size_of m} \<Longrightarrow>
      \<exists>m' k. alloc m = Some (Inr (m', k)) \<and> wf m' \<and> size_of m' = size_of m \<and>
        k < size_of m \<and> k \<notin> used m \<and> {..<k} \<subseteq> used m \<and> used m' = insert k (used m)"
    and mark_free: "wf m \<Longrightarrow> k < size_of m \<Longrightarrow> k \<notin> used m \<Longrightarrow>
      \<exists>m'. mark m k = Some m' \<and> wf m' \<and> size_of m' = size_of m \<and> used m' = insert k (used m)"
    and unmark_used: "wf m \<Longrightarrow> k \<in> used m \<Longrightarrow>
      \<exists>m'. unmark m k = Some m' \<and> wf m' \<and> size_of m' = size_of m \<and> used m' = used m - {k}"
begin

lemma alloc_returns: "wf m \<Longrightarrow> \<exists>r. alloc m = Some r"
  using alloc_full alloc_free by (cases "used m = {..<size_of m}") blast+

lemma alloc_SomeD:
  assumes "wf m" and "alloc m = Some (Inr (m', k))"
  shows "wf m'" "size_of m' = size_of m" "k < size_of m" "k \<notin> used m"
    "{..<k} \<subseteq> used m" "used m' = insert k (used m)"
  using alloc_full [of m] alloc_free [of m] assms by (cases "used m = {..<size_of m}"; auto)+

lemma alloc_fails_iff: "wf m \<Longrightarrow> alloc m = Some (Inl e) \<longleftrightarrow> used m = {..<size_of m} \<and> e = ENOSPC"
  using alloc_full [of m] alloc_free [of m] by (cases "used m = {..<size_of m}") auto

lemma unmark_alloc:
  assumes "wf m" and "alloc m = Some (Inr (m', k))"
  shows "\<exists>m''. unmark m' k = Some m'' \<and> wf m'' \<and> used m'' = used m"
  using alloc_SomeD [OF assms] unmark_used [of m' k] by auto

text \<open>Freeing a number makes room: the next allocation cannot fail, and takes that number or a
  smaller one.\<close>

lemma alloc_after_unmark:
  assumes "wf m" and "k \<in> used m"
  shows "\<exists>m' m'' j. unmark m k = Some m' \<and> alloc m' = Some (Inr (m'', j)) \<and> j \<le> k"
proof -
  obtain m' where m': "unmark m k = Some m'" "wf m'" "size_of m' = size_of m"
    "used m' = used m - {k}"
    using unmark_used [OF assms] by auto
  moreover have "k < size_of m" using used_bound [OF assms(1)] assms(2) by auto
  ultimately have "used m' \<noteq> {..<size_of m'}" by auto
  then obtain m'' j where a: "alloc m' = Some (Inr (m'', j))" and "{..<j} \<subseteq> used m'"
    using alloc_free [OF m'(2)] by auto
  moreover have "k \<notin> {..<j}" using calculation(2) m'(4) by auto
  then have "j \<le> k" by simp
  ultimately show ?thesis using m'(1) by (intro exI [of _ m'] exI [of _ m''] exI [of _ j]) simp
qed

end

text \<open>A free map is a source of numbers.\<close>

sublocale free_map \<subseteq> src: id_source wf "\<lambda>m. {..<size_of m}" used
    "\<lambda>m. map_option (case_sum (\<lambda>e. (None, m)) (\<lambda>(m', k). (Some k, m'))) (alloc m)" "\<lambda>k m. unmark m k"
proof unfold_locales
  show "wf m \<Longrightarrow> used m \<subseteq> {..<size_of m}" for m by (rule used_bound)
  show "wf m \<Longrightarrow> used m = {..<size_of m} \<Longrightarrow>
      map_option (case_sum (\<lambda>e. (None, m)) (\<lambda>(m', k). (Some k, m'))) (alloc m) = Some (None, m)" for m
    by (simp add: alloc_full)
  show "wf m \<Longrightarrow> used m \<noteq> {..<size_of m} \<Longrightarrow> \<exists>k m'.
      map_option (case_sum (\<lambda>e. (None, m)) (\<lambda>(m', k). (Some k, m'))) (alloc m) = Some (Some k, m') \<and> wf m' \<and>
      {..<size_of m'} = {..<size_of m} \<and> k \<in> {..<size_of m} \<and> k \<notin> used m \<and>
      {j \<in> {..<size_of m}. j < k} \<subseteq> used m \<and> used m' = insert k (used m)" for m
    using alloc_free [of m] by fastforce
  show "wf m \<Longrightarrow> k \<in> used m \<Longrightarrow>
      \<exists>m'. unmark m k = Some m' \<and> wf m' \<and> {..<size_of m'} = {..<size_of m} \<and> used m' = used m - {k}" for m k
    using unmark_used [of m k] by auto
qed

section \<open>Vectors\<close>

text \<open>
  A resizeable array of pointers: what a process expects of its array of threads. \<open>room\<close> bounds
  the lengths at which the provider can still grow.
\<close>

locale vector =
  fixes wf :: "'v \<Rightarrow> bool"
    and elems :: "'v \<Rightarrow> 'a list"
    and num :: "'v \<Rightarrow> nat"
    and room :: nat
    and get :: "'v \<Rightarrow> nat \<Rightarrow> 'a option option"
    and add :: "bool \<Rightarrow> 'v \<Rightarrow> 'a \<Rightarrow> (errno + 'v \<times> nat) option"
    and remove :: "'v \<Rightarrow> nat \<Rightarrow> 'v option"
  assumes num_elems: "wf v \<Longrightarrow> num v = length (elems v)"
    and get_elem: "wf v \<Longrightarrow> i < length (elems v) \<Longrightarrow> get v i = Some (Some (elems v ! i))"
    and add_elem: "wf v \<Longrightarrow> length (elems v) < room \<Longrightarrow>
      \<exists>v'. add True v x = Some (Inr (v', length (elems v))) \<and> wf v' \<and> elems v' = elems v @ [x]"
    and add_nomem: "wf v \<Longrightarrow> length (elems v) < room \<Longrightarrow>
      add False v x = Some (Inl ENOMEM) \<or> add False v x = add True v x"
    and remove_elem: "wf v \<Longrightarrow> i < length (elems v) \<Longrightarrow>
      \<exists>v'. remove v i = Some v' \<and> wf v' \<and>
        elems v' = take i (elems v) @ drop (Suc i) (elems v)"
begin

lemma add_returns: "wf v \<Longrightarrow> length (elems v) < room \<Longrightarrow> \<exists>r. add ok v x = Some r"
  using add_elem add_nomem by (cases ok) fastforce+

lemma add_SomeD:
  assumes "wf v" and "length (elems v) < room" and "add ok v x = Some (Inr (v', i))"
  shows "wf v'" "elems v' = elems v @ [x]" "i = length (elems v)"
  using add_elem [OF assms(1,2), of x] add_nomem [OF assms(1,2), of x] assms(3)
  by (cases ok; auto)+

lemma add_remove:
  assumes "wf v" and "length (elems v) < room" and "add ok v x = Some (Inr (v', i))"
  shows "\<exists>v''. remove v' i = Some v'' \<and> wf v'' \<and> elems v'' = elems v"
  using add_SomeD [OF assms] remove_elem [of v' i] by auto

text \<open>Searching for an element from the front and removing it, as a process does with a
  thread.\<close>

lemma search_hit:
  assumes "wf v" and "x \<in> set (elems v)"
  shows "\<exists>i v'. find_from (\<lambda>i. get v i = Some (Some x)) 0 (num v) = Some i \<and>
    remove v i = Some v' \<and> wf v' \<and> elems v' = remove1 x (elems v)"
proof -
  let ?P = "\<lambda>i. get v i = Some (Some x)"
  have P: "?P i \<longleftrightarrow> elems v ! i = x" if "i < length (elems v)" for i
    using get_elem [OF assms(1) that] by auto
  have "\<exists>i < length (elems v). elems v ! i = x" using assms(2) by (simp add: in_set_conv_nth)
  then have "find_from ?P 0 (num v) \<noteq> None"
    using P by (auto simp: find_from_None num_elems [OF assms(1)])
  then obtain i where i: "find_from ?P 0 (num v) = Some i" by auto
  then have lt: "i < length (elems v)" and hit: "?P i" and first: "\<forall>j < i. \<not> ?P j"
    by (auto simp: find_from_Some num_elems [OF assms(1)])
  obtain v' where v': "remove v i = Some v'" "wf v'"
    "elems v' = take i (elems v) @ drop (Suc i) (elems v)"
    using remove_elem [OF assms(1) lt] by auto
  have "x \<notin> set (take i (elems v))"
    using first P lt by (auto simp: in_set_conv_nth)
  then have "elems v' = remove1 x (elems v)"
    using v'(3) take_drop_remove1 [OF lt] hit P lt by simp
  then show ?thesis using i v' by auto
qed

lemma search_miss:
  assumes "wf v" and "x \<notin> set (elems v)"
  shows "find_from (\<lambda>i. get v i = Some (Some x)) 0 (num v) = None"
  using assms get_elem [OF assms(1)]
  by (auto simp: find_from_None num_elems)

end

section \<open>Lists of threads and processes\<close>

text \<open>
  Doubly ended lists over elements that can be on at most one list: \<open>rep h L U\<close> says that the
  memory \<open>h\<close> holds the lists \<open>L\<close> and that the elements \<open>U\<close> are on none. Wait channels, run
  queues and the list of a process's children use them as queues.
\<close>

locale deque =
  fixes rep :: "'h \<Rightarrow> (nat \<Rightarrow> nat list option) \<Rightarrow> nat set \<Rightarrow> bool"
    and isempty :: "nat \<Rightarrow> 'h \<Rightarrow> bool"
    and addhead addtail :: "nat \<Rightarrow> nat \<Rightarrow> 'h \<Rightarrow> 'h option"
    and remhead remtail :: "nat \<Rightarrow> 'h \<Rightarrow> ('h \<times> nat option) option"
    and remove :: "nat \<Rightarrow> nat \<Rightarrow> 'h \<Rightarrow> 'h option"
  assumes isempty_iff: "rep h L U \<Longrightarrow> L l = Some xs \<Longrightarrow> isempty l h \<longleftrightarrow> xs = []"
    and elems_distinct: "rep h L U \<Longrightarrow> L l = Some xs \<Longrightarrow> distinct xs \<and> set xs \<inter> U = {}"
    and addhead_free: "rep h L U \<Longrightarrow> L l = Some xs \<Longrightarrow> t \<in> U \<Longrightarrow> length xs + 1 < 2 ^ 32 \<Longrightarrow>
      \<exists>h'. addhead l t h = Some h' \<and> rep h' (L(l \<mapsto> t # xs)) (U - {t})"
    and addtail_free: "rep h L U \<Longrightarrow> L l = Some xs \<Longrightarrow> t \<in> U \<Longrightarrow> length xs + 1 < 2 ^ 32 \<Longrightarrow>
      \<exists>h'. addtail l t h = Some h' \<and> rep h' (L(l \<mapsto> xs @ [t])) (U - {t})"
    and remhead_empty: "rep h L U \<Longrightarrow> L l = Some [] \<Longrightarrow> remhead l h = Some (h, None)"
    and remhead_cons: "rep h L U \<Longrightarrow> L l = Some (t # xs) \<Longrightarrow>
      \<exists>h'. remhead l h = Some (h', Some t) \<and> rep h' (L(l \<mapsto> xs)) (insert t U)"
    and remtail_empty: "rep h L U \<Longrightarrow> L l = Some [] \<Longrightarrow> remtail l h = Some (h, None)"
    and remtail_snoc: "rep h L U \<Longrightarrow> L l = Some (xs @ [t]) \<Longrightarrow>
      \<exists>h'. remtail l h = Some (h', Some t) \<and> rep h' (L(l \<mapsto> xs)) (insert t U)"
    and remove_member: "rep h L U \<Longrightarrow> L l = Some (xs @ t # ys) \<Longrightarrow>
      \<exists>h'. remove l t h = Some h' \<and> rep h' (L(l \<mapsto> xs @ ys)) (insert t U)"
begin

text \<open>Elements added at the tail come off the head in the order of their arrival.\<close>

lemma addtail_many:
  assumes "rep h L U" and "L l = Some xs" and "set ts \<subseteq> U" and "distinct ts"
    and "length xs + length ts < 2 ^ 32"
  shows "\<exists>h'. for_each (addtail l) ts h = Some h' \<and> rep h' (L(l \<mapsto> xs @ ts)) (U - set ts)"
  using assms
proof (induction ts arbitrary: h L U xs)
  case Nil
  then show ?case by (simp add: map_upd_triv)
next
  case (Cons t ts)
  obtain h1 where h1: "addtail l t h = Some h1" "rep h1 (L(l \<mapsto> xs @ [t])) (U - {t})"
    using addtail_free [OF Cons.prems(1,2), of t] Cons.prems(3,5) by auto
  have "set ts \<subseteq> U - {t}" using Cons.prems(3,4) by auto
  then obtain h' where h': "for_each (addtail l) ts h1 = Some h'"
    "rep h' (L(l \<mapsto> xs @ [t], l \<mapsto> (xs @ [t]) @ ts)) (U - {t} - set ts)"
    using Cons.IH [OF h1(2) fun_upd_same] Cons.prems(4,5) by fastforce
  have "U - {t} - set ts = U - set (t # ts)" by auto
  then have "rep h' (L(l \<mapsto> xs @ t # ts)) (U - set (t # ts))" using h'(2) by simp
  moreover have "for_each (addtail l) (t # ts) h = Some h'" using h1(1) h'(1) by simp
  ultimately show ?case by blast
qed

primrec drain :: "nat \<Rightarrow> nat \<Rightarrow> 'h \<Rightarrow> ('h \<times> nat list) option" where
  "drain 0 l h = Some (h, [])"
| "drain (Suc n) l h =
    (case remhead l h of
       Some (h1, Some t) \<Rightarrow>
         (case drain n l h1 of Some (h2, ts) \<Rightarrow> Some (h2, t # ts) | None \<Rightarrow> None)
     | _ \<Rightarrow> None)"

lemma drain_order:
  "rep h L U \<Longrightarrow> L l = Some (xs @ ys) \<Longrightarrow>
     \<exists>h'. drain (length xs) l h = Some (h', xs) \<and> rep h' (L(l \<mapsto> ys)) (U \<union> set xs)"
proof (induction xs arbitrary: h L U)
  case Nil
  then show ?case by (simp add: map_upd_triv)
next
  case (Cons x xs)
  obtain h1 where h1: "remhead l h = Some (h1, Some x)" "rep h1 (L(l \<mapsto> xs @ ys)) (insert x U)"
    using remhead_cons [OF Cons.prems(1), of l x "xs @ ys"] Cons.prems(2) by auto
  obtain h' where h': "drain (length xs) l h1 = Some (h', xs)"
    "rep h' (L(l \<mapsto> xs @ ys, l \<mapsto> ys)) (insert x U \<union> set xs)"
    using Cons.IH [OF h1(2) fun_upd_same] by blast
  have "rep h' (L(l \<mapsto> ys)) (U \<union> set (x # xs))" using h'(2) by simp
  moreover have "drain (length (x # xs)) l h = Some (h', x # xs)" using h1(1) h'(1) by simp
  ultimately show ?case by blast
qed

lemma fifo:
  assumes "rep h L U" and "L l = Some []" and "set ts \<subseteq> U" and "distinct ts" and "length ts < 2 ^ 32"
  shows "\<exists>h' h''. for_each (addtail l) ts h = Some h' \<and> drain (length ts) l h' = Some (h'', ts) \<and>
    rep h'' L U"
proof -
  obtain h' where h': "for_each (addtail l) ts h = Some h'" "rep h' (L(l \<mapsto> ts)) (U - set ts)"
    using addtail_many [OF assms(1-4)] assms(5) by auto
  then obtain h'' where "drain (length ts) l h' = Some (h'', ts)"
    "rep h'' (L(l \<mapsto> ts, l \<mapsto> [])) (U - set ts \<union> set ts)"
    using drain_order [OF h'(2), of l ts "[]"] by auto
  moreover have "U - set ts \<union> set ts = U" using assms(3) by auto
  moreover have "L(l \<mapsto> []) = L" using assms(2) by (simp add: map_upd_triv)
  ultimately show ?thesis using h'(1) by auto
qed

lemma addtail_remove:
  assumes "rep h L U" and "L l = Some xs" and "t \<in> U" and "length xs + 1 < 2 ^ 32"
  shows "\<exists>h' h''. addtail l t h = Some h' \<and> remove l t h' = Some h'' \<and> rep h'' L U"
proof -
  obtain h' where h': "addtail l t h = Some h'" "rep h' (L(l \<mapsto> xs @ [t])) (U - {t})"
    using addtail_free [OF assms] by auto
  obtain h'' where "remove l t h' = Some h''"
    "rep h'' (L(l \<mapsto> xs @ [t], l \<mapsto> xs)) (insert t (U - {t}))"
    using remove_member [OF h'(2), of l xs t "[]"] by auto
  moreover have "L(l \<mapsto> xs) = L" using assms(2) by (simp add: map_upd_triv)
  ultimately show ?thesis using h'(1) assms(3) by (auto simp: insert_absorb)
qed

end

end
