(* ===== verification/Bitmap.thy ===== *)
theory Bitmap
  imports Interfaces
begin

text \<open>
  \<^verbatim>\<open>kern/lib/bitmap.c\<close>: the fixed-size bit array with which the file system keeps its free
  map. A bitmap is its size in bits and its bytes (\<^verbatim>\<open>WORD_TYPE\<close> is an unsigned char); the
  operations are the file's functions, byte for byte. The abstraction \<open>bm_set\<close> is the set of
  marked indices. The lemmas show that the leftover bits of the last byte stay set, that the
  operations change exactly one index, that allocation returns the least free index, and that
  no assertion of the file fires where the caller keeps the contract.
\<close>

record bitmap =
  bm_nbits :: nat
  bm_v :: "u8 list"

definition mark_leftover :: "nat \<Rightarrow> nat \<Rightarrow> u8 list \<Rightarrow> u8 list option" where
  "mark_leftover ix j v =
     do { byte \<leftarrow> fetch v ix; store v ix (byte OR byte_bit j) }"

definition bitmap_create :: "bool \<Rightarrow> bool \<Rightarrow> nat \<Rightarrow> bitmap option option" where
  "bitmap_create kmalloc1 kmalloc2 nbits =
    (let words = divroundup nbits 8 in
     if \<not> kmalloc1 then Some None
     else if \<not> kmalloc2 then Some None
     else let v = replicate words 0 in
       if words > nbits div 8 then do {
         let ix = words - 1;
         let overbits = nbits - ix * 8;
         kassert (nbits div 8 = words - 1);
         kassert (0 < overbits \<and> overbits < 8);
         v' \<leftarrow> for_each (mark_leftover ix) [overbits..<8] v;
         Some (Some \<lparr>bm_nbits = nbits, bm_v = v'\<rparr>)
       }
       else Some (Some \<lparr>bm_nbits = nbits, bm_v = v\<rparr>))"

definition bitmap_getdata :: "bitmap \<Rightarrow> u8 list" where
  "bitmap_getdata b = bm_v b"

function bitmap_alloc_from :: "bitmap \<Rightarrow> nat \<Rightarrow> (errno + bitmap \<times> nat) option" where
  "bitmap_alloc_from b ix =
    (if ix < divroundup (bm_nbits b) 8 then do {
       byte \<leftarrow> fetch (bm_v b) ix;
       if byte \<noteq> 0xff then
         (case find_from (\<lambda>offset. byte AND byte_bit offset = 0) 0 8 of
            Some offset \<Rightarrow> do {
              v \<leftarrow> store (bm_v b) ix (byte OR byte_bit offset);
              let index = ix * 8 + offset;
              kassert (index < bm_nbits b);
              Some (Inr (b\<lparr>bm_v := v\<rparr>, index))
            }
          | None \<Rightarrow> None)
       else bitmap_alloc_from b (Suc ix)
     }
     else Some (Inl ENOSPC))"
  by pat_completeness auto
termination
  by (relation "measure (\<lambda>(b, ix). divroundup (bm_nbits b) 8 - ix)") auto

declare bitmap_alloc_from.simps [simp del]

definition bitmap_alloc :: "bitmap \<Rightarrow> (errno + bitmap \<times> nat) option" where
  "bitmap_alloc b = bitmap_alloc_from b 0"

definition bitmap_translate :: "nat \<Rightarrow> nat \<times> u8" where
  "bitmap_translate bitno =
    (let ix = bitno div 8; offset = bitno mod 8 in (ix, byte_bit offset))"

definition bitmap_mark :: "bitmap \<Rightarrow> nat \<Rightarrow> bitmap option" where
  "bitmap_mark b index =
     do {
       kassert (index < bm_nbits b);
       let (ix, mask) = bitmap_translate index;
       byte \<leftarrow> fetch (bm_v b) ix;
       kassert (byte AND mask = 0);
       v \<leftarrow> store (bm_v b) ix (byte OR mask);
       Some (b\<lparr>bm_v := v\<rparr>)
     }"

definition bitmap_unmark :: "bitmap \<Rightarrow> nat \<Rightarrow> bitmap option" where
  "bitmap_unmark b index =
     do {
       kassert (index < bm_nbits b);
       let (ix, mask) = bitmap_translate index;
       byte \<leftarrow> fetch (bm_v b) ix;
       kassert (byte AND mask \<noteq> 0);
       v \<leftarrow> store (bm_v b) ix (byte AND NOT mask);
       Some (b\<lparr>bm_v := v\<rparr>)
     }"

definition bitmap_isset :: "bitmap \<Rightarrow> nat \<Rightarrow> u8 option" where
  "bitmap_isset b index =
     do {
       let (ix, mask) = bitmap_translate index;
       byte \<leftarrow> fetch (bm_v b) ix;
       Some (byte AND mask)
     }"

section \<open>Abstraction and invariant\<close>

definition bm_bit :: "bitmap \<Rightarrow> nat \<Rightarrow> bool" where
  "bm_bit b i = bit (bm_v b ! (i div 8)) (i mod 8)"

definition bm_set :: "bitmap \<Rightarrow> nat set" where
  "bm_set b = {i. i < bm_nbits b \<and> bm_bit b i}"

definition bm_wf :: "bitmap \<Rightarrow> bool" where
  "bm_wf b \<longleftrightarrow> bm_nbits b + 8 \<le> 2 ^ 32 \<and> length (bm_v b) = divroundup (bm_nbits b) 8 \<and>
     (\<forall>i. bm_nbits b \<le> i \<and> i < 8 * length (bm_v b) \<longrightarrow> bm_bit b i)"

lemma index_lt_iff: "i div 8 < n \<longleftrightarrow> i < 8 * (n::nat)"
  by linarith

lemma bm_wf_index:
  assumes "bm_wf b" and "i < bm_nbits b"
  shows "i div 8 < length (bm_v b)"
proof -
  have "bm_nbits b \<le> divroundup (bm_nbits b) 8 * 8"
    using assms(1) by (intro divroundup_covers) (auto simp: bm_wf_def)
  then show ?thesis using assms by (auto simp: bm_wf_def index_lt_iff)
qed

text \<open>Writing one byte so that exactly one bit changes.\<close>

lemma bm_bit_update:
  assumes "ix < length (bm_v b)" and "k < 8"
    and "\<And>j. j < 8 \<Longrightarrow> bit w j = (if j = k then c else bit (bm_v b ! ix) j)"
  shows "bm_bit (b\<lparr>bm_v := (bm_v b)[ix := w]\<rparr>) i = (if i = ix * 8 + k then c else bm_bit b i)"
proof -
  have iff: "i = ix * 8 + k \<longleftrightarrow> i div 8 = ix \<and> i mod 8 = k"
    using assms(2) by (auto simp: div_mult_mod_eq)
  have here: "bit w (i mod 8) = (if i mod 8 = k then c else bit (bm_v b ! ix) (i mod 8))"
    by (rule assms(3)) simp
  show ?thesis
  proof (cases "i div 8 = ix")
    case True
    then show ?thesis using assms(1) here by (simp add: bm_bit_def iff)
  next
    case False
    then show ?thesis by (auto simp: bm_bit_def iff)
  qed
qed

lemma bm_wf_update:
  assumes "bm_wf b" and "\<And>i. bm_nbits b \<le> i \<Longrightarrow> bm_bit (b\<lparr>bm_v := v\<rparr>) i = bm_bit b i"
    and "length v = length (bm_v b)"
  shows "bm_wf (b\<lparr>bm_v := v\<rparr>)"
  using assms by (auto simp: bm_wf_def)

section \<open>Mark, unmark, isset\<close>

lemma div_mod_8: "i div 8 * 8 + i mod 8 = (i::nat)"
  by simp

lemma bitmap_mark_spec:
  assumes "bm_wf b" and "i < bm_nbits b" and "i \<notin> bm_set b"
  shows "\<exists>b'. bitmap_mark b i = Some b' \<and> bm_wf b' \<and> bm_nbits b' = bm_nbits b \<and>
    bm_set b' = insert i (bm_set b)"
proof -
  let ?ix = "i div 8" and ?w = "bm_v b ! (i div 8) OR byte_bit (i mod 8)"
  let ?b' = "b\<lparr>bm_v := (bm_v b)[?ix := ?w]\<rparr>"
  have ix: "?ix < length (bm_v b)" using assms(1,2) by (rule bm_wf_index)
  have clear: "\<not> bit (bm_v b ! ?ix) (i mod 8)" using assms(2,3) by (simp add: bm_set_def bm_bit_def)
  have run: "bitmap_mark b i = Some ?b'"
    using ix clear assms(2) by (simp add: bitmap_mark_def bitmap_translate_def byte_and_mask)
  have bits: "bm_bit ?b' j = (if j = i then True else bm_bit b j)" for j
    using bm_bit_update [OF ix, of "i mod 8" ?w True j]
    by (auto simp: byte_or_mask div_mod_8)
  have "bm_wf ?b'" by (rule bm_wf_update [OF assms(1)]) (use assms(2) in \<open>auto simp: bits\<close>)
  then show ?thesis using run bits assms(2) by (auto simp: bm_set_def)
qed

lemma bitmap_unmark_spec:
  assumes "bm_wf b" and "i \<in> bm_set b"
  shows "\<exists>b'. bitmap_unmark b i = Some b' \<and> bm_wf b' \<and> bm_nbits b' = bm_nbits b \<and>
    bm_set b' = bm_set b - {i}"
proof -
  let ?ix = "i div 8" and ?w = "bm_v b ! (i div 8) AND NOT (byte_bit (i mod 8))"
  let ?b' = "b\<lparr>bm_v := (bm_v b)[?ix := ?w]\<rparr>"
  have i: "i < bm_nbits b" and set: "bit (bm_v b ! ?ix) (i mod 8)"
    using assms(2) by (auto simp: bm_set_def bm_bit_def)
  have ix: "?ix < length (bm_v b)" using assms(1) i by (rule bm_wf_index)
  have run: "bitmap_unmark b i = Some ?b'"
    using ix set i by (simp add: bitmap_unmark_def bitmap_translate_def byte_and_mask)
  have bits: "bm_bit ?b' j = (if j = i then False else bm_bit b j)" for j
    using bm_bit_update [OF ix, of "i mod 8" ?w False j]
    by (auto simp: byte_clear_mask div_mod_8)
  have "bm_wf ?b'" by (rule bm_wf_update [OF assms(1)]) (use i in \<open>auto simp: bits\<close>)
  then show ?thesis using run bits i by (auto simp: bm_set_def)
qed

lemma bitmap_mark_stops: "bm_wf b \<Longrightarrow> bitmap_mark b i = None \<longleftrightarrow> bm_nbits b \<le> i \<or> i \<in> bm_set b"
  by (auto simp: bitmap_mark_def bitmap_translate_def byte_and_mask bm_set_def bm_bit_def
      bm_wf_index not_less kassert_def)

lemma bitmap_unmark_stops: "bm_wf b \<Longrightarrow> bitmap_unmark b i = None \<longleftrightarrow> i \<notin> bm_set b"
  by (auto simp: bitmap_unmark_def bitmap_translate_def byte_and_mask bm_set_def bm_bit_def
      bm_wf_index not_less kassert_def)

lemma bitmap_isset_spec:
  assumes "bm_wf b" and "i < bm_nbits b"
  shows "\<exists>r. bitmap_isset b i = Some r \<and> (r \<noteq> 0 \<longleftrightarrow> i \<in> bm_set b)"
  using bm_wf_index [OF assms] assms(2)
  by (simp add: bitmap_isset_def bitmap_translate_def byte_and_mask bm_set_def bm_bit_def)

section \<open>Allocation\<close>

lemma bitmap_alloc_from_spec:
  assumes "bm_wf b" and "\<And>i. i < 8 * ix \<Longrightarrow> bm_bit b i"
  shows "if \<forall>i < bm_nbits b. bm_bit b i then bitmap_alloc_from b ix = Some (Inl ENOSPC)
    else \<exists>b' k. bitmap_alloc_from b ix = Some (Inr (b', k)) \<and> bm_wf b' \<and>
      bm_nbits b' = bm_nbits b \<and> k < bm_nbits b \<and> \<not> bm_bit b k \<and> (\<forall>i < k. bm_bit b i) \<and>
      bm_set b' = insert k (bm_set b)"
  using assms
proof (induction b ix rule: bitmap_alloc_from.induct)
  case (1 b ix)
  note wf = "1.prems"(1) and below = "1.prems"(2)
  let ?w = "bm_v b ! ix"
  show ?case
  proof (cases "ix < divroundup (bm_nbits b) 8")
    case False
    have "\<forall>i < bm_nbits b. bm_bit b i"
    proof (intro allI impI)
      fix i assume "i < bm_nbits b"
      then have "i div 8 < length (bm_v b)" by (rule bm_wf_index [OF wf])
      then show "bm_bit b i" using False wf by (auto simp: bm_wf_def index_lt_iff intro: below)
    qed
    then show ?thesis using False by (simp add: bitmap_alloc_from.simps [of b ix])
  next
    case True
    then have len: "ix < length (bm_v b)" using wf by (simp add: bm_wf_def)
    have here: "bm_bit b (ix * 8 + j) = bit ?w j" if "j < 8" for j
      using that by (simp add: bm_bit_def)
    show ?thesis
    proof (cases "?w = 0xff")
      case full: True
      have below': "bm_bit b i" if "i < 8 * Suc ix" for i
      proof (cases "i < 8 * ix")
        case False
        with that have "i = ix * 8 + (i - 8 * ix)" and "i - 8 * ix < 8" by auto
        then show ?thesis using here [of "i - 8 * ix"] full byte_all_bits [of ?w] by metis
      qed (rule below)
      have step: "bitmap_alloc_from b ix = bitmap_alloc_from b (Suc ix)"
        using True len full by (simp add: bitmap_alloc_from.simps [of b ix])
      show ?thesis
        using "1.IH" [OF True, of ?w] len full wf below' unfolding step by auto
    next
      case notfull: False
      obtain k where k: "k < 8" "\<not> bit ?w k" and least: "\<And>j. j < k \<Longrightarrow> bit ?w j"
        by (rule byte_least_clear [OF notfull]) (rule that)
      have found: "find_from (\<lambda>offset. ?w AND byte_bit offset = 0) 0 8 = Some k"
        using k least by (auto simp: find_from_Some byte_and_mask)
      let ?i = "ix * 8 + k" and ?v = "(bm_v b)[ix := ?w OR byte_bit k]"
      have clear: "\<not> bm_bit b ?i" using k by (simp add: here)
      have lt: "?i < bm_nbits b"
      proof (rule ccontr)
        assume "\<not> ?i < bm_nbits b"
        moreover have "?i < 8 * length (bm_v b)" using len k(1) by linarith
        ultimately show False using wf clear by (auto simp: bm_wf_def)
      qed
      have run: "bitmap_alloc_from b ix = Some (Inr (b\<lparr>bm_v := ?v\<rparr>, ?i))"
        using True len notfull found lt by (simp add: bitmap_alloc_from.simps [of b ix])
      have bits: "bm_bit (b\<lparr>bm_v := ?v\<rparr>) j = (if j = ?i then True else bm_bit b j)" for j
        by (rule bm_bit_update [OF len k(1)]) (auto simp: byte_or_mask k(1))
      have wf': "bm_wf (b\<lparr>bm_v := ?v\<rparr>)"
        by (rule bm_wf_update [OF wf]) (use lt in \<open>auto simp: bits\<close>)
      have before: "bm_bit b i" if "i < ?i" for i
      proof (cases "i < 8 * ix")
        case False
        with that have eq: "i = ix * 8 + (i - 8 * ix)" and j: "i - 8 * ix < k" by auto
        have "bit ?w (i - 8 * ix)" using j by (rule least)
        then show ?thesis using here [of "i - 8 * ix"] eq j k(1) by auto
      qed (rule below)
      have set': "bm_set (b\<lparr>bm_v := ?v\<rparr>) = insert ?i (bm_set b)"
        using lt by (auto simp: bm_set_def bits)
      show ?thesis using run wf' lt clear before set' by auto
    qed
  qed
qed

lemma bitmap_alloc_full:
  assumes "bm_wf b"
  shows "bitmap_alloc b = Some (Inl ENOSPC) \<longleftrightarrow> bm_set b = {..<bm_nbits b}"
proof -
  have "(\<forall>i < bm_nbits b. bm_bit b i) \<longleftrightarrow> bm_set b = {..<bm_nbits b}"
    by (auto simp: bm_set_def)
  then show ?thesis
    using bitmap_alloc_from_spec [OF assms, of 0] by (auto simp: bitmap_alloc_def split: if_splits)
qed

lemma bitmap_alloc_spec:
  assumes "bm_wf b" and "bm_set b \<noteq> {..<bm_nbits b}"
  shows "\<exists>b' k. bitmap_alloc b = Some (Inr (b', k)) \<and> bm_wf b' \<and> bm_nbits b' = bm_nbits b \<and>
    k < bm_nbits b \<and> k \<notin> bm_set b \<and> {..<k} \<subseteq> bm_set b \<and> bm_set b' = insert k (bm_set b)"
proof -
  have "\<not> (\<forall>i < bm_nbits b. bm_bit b i)" using assms(2) by (auto simp: bm_set_def)
  with bitmap_alloc_from_spec [OF assms(1), of 0] obtain b' k where "bitmap_alloc_from b 0 = Some (Inr (b', k))" "bm_wf b'"
    "bm_nbits b' = bm_nbits b" "k < bm_nbits b" "\<not> bm_bit b k" "\<forall>i < k. bm_bit b i"
    "bm_set b' = insert k (bm_set b)"
    by (simp only: if_False) auto
  then show ?thesis by (auto simp: bitmap_alloc_def bm_set_def)
qed

section \<open>Creation\<close>

lemma mark_leftover_loop:
  assumes "ix < length v" and "k \<le> 8"
  shows "\<exists>v'. for_each (mark_leftover ix) [k..<8] v = Some v' \<and> length v' = length v \<and>
    (\<forall>i. i \<noteq> ix \<longrightarrow> v' ! i = v ! i) \<and> (\<forall>j < 8. bit (v' ! ix) j \<longleftrightarrow> bit (v ! ix) j \<or> k \<le> j)"
  using assms
proof (induction "8 - k" arbitrary: k v)
  case 0
  then show ?case by auto
next
  case (Suc n)
  then have k: "k < 8" by simp
  let ?v = "v[ix := (v ! ix) OR byte_bit k]"
  have "\<exists>v'. for_each (mark_leftover ix) [Suc k..<8] ?v = Some v' \<and> length v' = length ?v \<and>
      (\<forall>i. i \<noteq> ix \<longrightarrow> v' ! i = ?v ! i) \<and>
      (\<forall>j < 8. bit (v' ! ix) j \<longleftrightarrow> bit (?v ! ix) j \<or> Suc k \<le> j)"
    by (rule Suc.hyps(1)) (use Suc k in auto)
  moreover have "mark_leftover ix k v = Some ?v"
    using Suc.prems by (simp add: mark_leftover_def)
  ultimately show ?case
    using k Suc.prems(1) by (auto simp: upt_conv_Cons byte_or_mask Suc_le_eq le_less)
qed

lemma bitmap_create_spec:
  assumes "nbits + 8 \<le> 2 ^ 32"
  shows "\<exists>b. bitmap_create True True nbits = Some (Some b) \<and> bm_wf b \<and> bm_nbits b = nbits \<and>
    bm_set b = {}"
proof -
  let ?words = "divroundup nbits 8" and ?v = "replicate (divroundup nbits 8) (0 :: u8)"
  have words: "?words = (nbits + 7) div 8"
    using assms by (simp add: divroundup_small)
  show ?thesis
  proof (cases "?words > nbits div 8")
    case False
    then have "nbits = 8 * ?words" unfolding words by linarith
    then show ?thesis using False assms
      by (auto simp: bitmap_create_def bm_wf_def bm_set_def bm_bit_def index_lt_iff)
  next
    case True
    let ?ix = "?words - 1" and ?o = "nbits - (?words - 1) * 8"
    have ix: "nbits div 8 = ?ix" "0 < ?o" "?o < 8" "nbits = ?ix * 8 + ?o"
      using True unfolding words by linarith+
    obtain v' where v': "for_each (mark_leftover ?ix) [?o..<8] ?v = Some v'"
      "length v' = ?words" "\<And>i. i \<noteq> ?ix \<Longrightarrow> v' ! i = ?v ! i"
      "\<And>j. j < 8 \<Longrightarrow> bit (v' ! ?ix) j \<longleftrightarrow> bit (?v ! ?ix) j \<or> ?o \<le> j"
      using mark_leftover_loop [of ?ix ?v ?o] True ix(3) by auto
    let ?b = "\<lparr>bm_nbits = nbits, bm_v = v'\<rparr>"
    have run: "bitmap_create True True nbits = Some (Some ?b)"
      using True ix v'(1) by (simp add: bitmap_create_def Let_def)
    have bits: "bm_bit ?b i \<longleftrightarrow> nbits \<le> i" if "i < 8 * ?words" for i
    proof (cases "i div 8 = ?ix")
      case eq: True
      have "nbits \<le> i \<longleftrightarrow> ?o \<le> i mod 8" using eq ix(4) div_mult_mod_eq [of i 8] by linarith
      then show ?thesis using v'(4) [of "i mod 8"] eq True by (simp add: bm_bit_def)
    next
      case False
      then have "i div 8 < ?ix" using that by linarith
      then have "\<not> nbits \<le> i" using ix(1) by linarith
      then show ?thesis using v'(3) [OF False] that by (auto simp: bm_bit_def index_lt_iff)
    qed
    have "nbits < 8 * ?words" using ix(3,4) True by linarith
    then have "bm_wf ?b" "bm_set ?b = {}" using assms v'(2) bits by (auto simp: bm_wf_def bm_set_def)
    then show ?thesis using run by auto
  qed
qed

section \<open>The free map the file system relies on\<close>

interpretation bm: free_map bm_wf bm_nbits bm_set bitmap_alloc bitmap_mark bitmap_unmark
proof unfold_locales
  show "bm_set m \<subseteq> {..<bm_nbits m}" for m by (auto simp: bm_set_def)
qed (simp_all add: bitmap_alloc_full bitmap_alloc_spec bitmap_mark_spec bitmap_unmark_spec)

section \<open>Properties\<close>

text \<open>Bitmap_alloc of a well-formed bitmap never fails an assertion: it returns ENOSPC exactly
  when every bit is set, and otherwise the least clear index, which it sets, changing no other
  bit and leaving the bitmap well-formed.\<close>

theorem bitmap_alloc_least:
  assumes "bm_wf b"
  shows "if bm_set b = {..<bm_nbits b} then bitmap_alloc b = Some (Inl ENOSPC)
    else \<exists>b'. bitmap_alloc b = Some (Inr (b', LEAST k. k \<notin> bm_set b)) \<and> bm_wf b' \<and>
      bm_nbits b' = bm_nbits b \<and> bm_set b' = insert (LEAST k. k \<notin> bm_set b) (bm_set b) \<and>
      (LEAST k. k \<notin> bm_set b) < bm_nbits b"
proof (cases "bm_set b = {..<bm_nbits b}")
  case True
  then show ?thesis using bm.alloc_full [OF assms] by simp
next
  case False
  then obtain b' k where r: "bitmap_alloc b = Some (Inr (b', k))" "bm_wf b'"
    "bm_nbits b' = bm_nbits b" "k < bm_nbits b" "k \<notin> bm_set b" "{..<k} \<subseteq> bm_set b"
    "bm_set b' = insert k (bm_set b)"
    using bm.alloc_free [OF assms] by blast
  have "(LEAST k. k \<notin> bm_set b) = k"
    by (rule Least_equality) (use r(5,6) in \<open>auto simp: not_le [symmetric]\<close>)
  then show ?thesis using False r by auto
qed

theorem bitmap_alloc_least_witness:
  "\<exists>b. bm_wf b \<and> bm_set b = {} \<and> bm_nbits b = 10 \<and>
     (\<exists>b'. bitmap_alloc b = Some (Inr (b', 0)) \<and> bm_wf b' \<and> bm_set b' = {0})"
proof -
  obtain b where b: "bm_wf b" "bm_nbits b = 10" "bm_set b = {}"
    using bitmap_create_spec [of 10] by auto
  have "(LEAST k. k \<notin> bm_set b) = 0" by (rule Least_equality) (auto simp: b(3))
  moreover have "0 \<in> {..<bm_nbits b}" by (simp add: b(2))
  then have "bm_set b \<noteq> {..<bm_nbits b}" by (metis b(3) empty_iff)
  ultimately show ?thesis using bitmap_alloc_least [OF b(1)] b by (intro exI [of _ b]) auto
qed

text \<open>Bitmap_create of any size that leaves room for the rounding gives a well-formed bitmap of
  that size with no bit set; in particular the assertions on the leftover bits hold.\<close>

theorem bitmap_create_empty:
  assumes "nbits + 8 \<le> 2 ^ 32"
  shows "\<exists>b. bitmap_create True True nbits = Some (Some b) \<and> bm_wf b \<and> bm_nbits b = nbits \<and>
    bm_set b = {} \<and> 8 * length (bm_v b) < nbits + 8"
proof -
  obtain b where b: "bitmap_create True True nbits = Some (Some b)" "bm_wf b"
    "bm_nbits b = nbits" "bm_set b = {}"
    using bitmap_create_spec [OF assms] by auto
  moreover have "divroundup nbits 8 * 8 < nbits + 8" using assms by (simp add: divroundup_tight)
  ultimately show ?thesis by (auto simp: bm_wf_def mult.commute)
qed

theorem bitmap_create_empty_witness:
  "\<exists>b. bitmap_create True True 13 = Some (Some b) \<and> bm_wf b \<and> bm_nbits b = 13 \<and> bm_set b = {}
    \<and> bitmap_create True True 13 = Some (Some \<lparr>bm_nbits = 13, bm_v = [0, 0xe0]\<rparr>)"
proof -
  have "bitmap_create True True 13 = Some (Some \<lparr>bm_nbits = 13, bm_v = [0, 0xe0]\<rparr>)"
    by (simp add: bitmap_create_def divroundup_def mark_leftover_def byte_bit_def upt_rec)
      (simp add: numeral_2_eq_2)
  then show ?thesis using bitmap_create_empty [of 13] by auto
qed

text \<open>The rounding of bitmap_create wraps around at 32 bits: for the largest unsigned size it
  allocates no byte at all and still succeeds, so that testing bit 0 of the result reads past
  the end of the array.\<close>

theorem bitmap_create_wraps:
  "\<exists>b. bitmap_create True True (2 ^ 32 - 1) = Some (Some b) \<and> bm_nbits b = 2 ^ 32 - 1 \<and>
    bm_v b = [] \<and> bitmap_isset b 0 = None"
  by (simp add: bitmap_create_def divroundup_def bitmap_isset_def bitmap_translate_def)

end
