(* ===== verification/List_Heap.thy ===== *)
theory List_Heap
  imports Interfaces
begin

text \<open>
  The memory of the kernel's doubly linked lists (\<^verbatim>\<open>struct threadlist\<close>, \<^verbatim>\<open>struct proclist\<close>): a list
  has a head and a tail node of its own, and an element (a thread, a process) has one node
  embedded in it. A node holds the pointers \<^verbatim>\<open>tln_prev\<close>, \<^verbatim>\<open>tln_next\<close> and \<^verbatim>\<open>tln_self\<close>; \<open>None\<close> is
  the null pointer. Lists and elements are named by numbers (their addresses). The theory
  defines what it means for a heap to hold given lists, and proves the two facts about pointer
  surgery on which every list operation rests: linking a node between two neighbours and
  unlinking it.
\<close>

datatype lnode = HeadOf nat | TailOf nat | NodeOf nat

record list_heap =
  prv :: "lnode \<Rightarrow> lnode option"
  nxt :: "lnode \<Rightarrow> lnode option"
  self :: "lnode \<Rightarrow> nat option"
  tl_count :: "nat \<Rightarrow> nat"

definition set_prv :: "lnode \<Rightarrow> lnode option \<Rightarrow> list_heap \<Rightarrow> list_heap" where
  "set_prv n p h = h\<lparr>prv := (prv h)(n := p)\<rparr>"

definition set_nxt :: "lnode \<Rightarrow> lnode option \<Rightarrow> list_heap \<Rightarrow> list_heap" where
  "set_nxt n p h = h\<lparr>nxt := (nxt h)(n := p)\<rparr>"

definition set_self :: "lnode \<Rightarrow> nat option \<Rightarrow> list_heap \<Rightarrow> list_heap" where
  "set_self n t h = h\<lparr>self := (self h)(n := t)\<rparr>"

definition set_count :: "nat \<Rightarrow> nat \<Rightarrow> list_heap \<Rightarrow> list_heap" where
  "set_count l c h = h\<lparr>tl_count := (tl_count h)(l := c)\<rparr>"

lemma heap_sel [simp]:
  "prv (set_prv n p h) = (prv h)(n := p)" "nxt (set_prv n p h) = nxt h"
  "self (set_prv n p h) = self h" "tl_count (set_prv n p h) = tl_count h"
  "prv (set_nxt n p h) = prv h" "nxt (set_nxt n p h) = (nxt h)(n := p)"
  "self (set_nxt n p h) = self h" "tl_count (set_nxt n p h) = tl_count h"
  "prv (set_self n t h) = prv h" "nxt (set_self n t h) = nxt h"
  "self (set_self n t h) = (self h)(n := t)" "tl_count (set_self n t h) = tl_count h"
  "prv (set_count l c h) = prv h" "nxt (set_count l c h) = nxt h"
  "self (set_count l c h) = self h" "tl_count (set_count l c h) = (tl_count h)(l := c)"
  by (simp_all add: set_prv_def set_nxt_def set_self_def set_count_def)

section \<open>Chains of nodes\<close>

fun chain :: "list_heap \<Rightarrow> lnode list \<Rightarrow> bool" where
  "chain h (a # b # ns) = (nxt h a = Some b \<and> prv h b = Some a \<and> chain h (b # ns))"
| "chain h ns = True"

lemma chain_append:
  "chain h (ns @ a # b # ms) \<longleftrightarrow>
     chain h (ns @ [a]) \<and> nxt h a = Some b \<and> prv h b = Some a \<and> chain h (b # ms)"
  by (induction ns rule: induct_list012) auto

text \<open>A chain depends on the forward links of all nodes but the last and on the backward links
  of all nodes but the first.\<close>

lemma chain_cong:
  assumes "\<And>n. n \<in> set (butlast ns) \<Longrightarrow> nxt h' n = nxt h n"
    and "\<And>n. n \<in> set (tl ns) \<Longrightarrow> prv h' n = prv h n"
  shows "chain h' ns = chain h ns"
  using assms
proof (induction ns rule: induct_list012)
  case (3 a b ns)
  have "chain h' (b # ns) = chain h (b # ns)"
  proof (rule "3.IH"(2))
    show "prv h' n = prv h n" if "n \<in> set (tl (b # ns))" for n
      using that "3.prems"(2) by simp
  qed (use "3.prems"(1) in simp)
  then show ?case using "3.prems" by simp
qed simp_all

definition link :: "lnode \<Rightarrow> lnode \<Rightarrow> lnode \<Rightarrow> list_heap \<Rightarrow> list_heap" where
  "link a x b h = set_prv b (Some x) (set_nxt a (Some x) (set_nxt x (Some b) (set_prv x (Some a) h)))"

definition unlink :: "lnode \<Rightarrow> lnode \<Rightarrow> lnode \<Rightarrow> list_heap \<Rightarrow> list_heap" where
  "unlink a x b h = set_nxt x None (set_prv x None (set_prv b (Some a) (set_nxt a (Some b) h)))"

lemma link_frame:
  "n \<notin> {a, x} \<Longrightarrow> nxt (link a x b h) n = nxt h n"
  "n \<notin> {b, x} \<Longrightarrow> prv (link a x b h) n = prv h n"
  "self (link a x b h) = self h" "tl_count (link a x b h) = tl_count h"
  by (simp_all add: link_def)

lemma unlink_frame:
  "n \<notin> {a, x} \<Longrightarrow> nxt (unlink a x b h) n = nxt h n"
  "n \<notin> {b, x} \<Longrightarrow> prv (unlink a x b h) n = prv h n"
  "self (unlink a x b h) = self h" "tl_count (unlink a x b h) = tl_count h"
  by (simp_all add: unlink_def)

lemma chain_link:
  assumes "chain h (ns @ a # b # ms)" and "distinct (ns @ a # b # ms)"
    and "x \<notin> set (ns @ a # b # ms)"
  shows "chain (link a x b h) (ns @ a # x # b # ms)"
proof -
  have c: "chain h (ns @ [a])" "chain h (b # ms)" using assms(1) by (auto simp: chain_append)
  have "chain (link a x b h) (ns @ [a]) = chain h (ns @ [a])"
  proof (rule chain_cong)
    show "nxt (link a x b h) n = nxt h n" if "n \<in> set (butlast (ns @ [a]))" for n
      using that assms(2,3) by (intro link_frame(1)) auto
    show "prv (link a x b h) n = prv h n" if "n \<in> set (tl (ns @ [a]))" for n
      using list.set_sel(2) [of "ns @ [a]" n] that assms(2,3) by (intro link_frame(2)) auto
  qed
  moreover have "chain (link a x b h) (b # ms) = chain h (b # ms)"
  proof (rule chain_cong)
    show "nxt (link a x b h) n = nxt h n" if "n \<in> set (butlast (b # ms))" for n
      using in_set_butlastD [OF that] assms(2,3) by (intro link_frame(1)) auto
    show "prv (link a x b h) n = prv h n" if "n \<in> set (tl (b # ms))" for n
      using that assms(2,3) by (intro link_frame(2)) auto
  qed
  ultimately show ?thesis using c assms(2,3) by (simp add: chain_append link_def)
qed

lemma chain_unlink:
  assumes "chain h (ns @ a # x # b # ms)" and "distinct (ns @ a # x # b # ms)"
  shows "chain (unlink a x b h) (ns @ a # b # ms)"
proof -
  have c: "chain h (ns @ [a])" "chain h (b # ms)" using assms(1) by (auto simp: chain_append)
  have "chain (unlink a x b h) (ns @ [a]) = chain h (ns @ [a])"
  proof (rule chain_cong)
    show "nxt (unlink a x b h) n = nxt h n" if "n \<in> set (butlast (ns @ [a]))" for n
      using that assms(2) by (intro unlink_frame(1)) auto
    show "prv (unlink a x b h) n = prv h n" if "n \<in> set (tl (ns @ [a]))" for n
      using list.set_sel(2) [of "ns @ [a]" n] that assms(2) by (intro unlink_frame(2)) auto
  qed
  moreover have "chain (unlink a x b h) (b # ms) = chain h (b # ms)"
  proof (rule chain_cong)
    show "nxt (unlink a x b h) n = nxt h n" if "n \<in> set (butlast (b # ms))" for n
      using in_set_butlastD [OF that] assms(2) by (intro unlink_frame(1)) auto
    show "prv (unlink a x b h) n = prv h n" if "n \<in> set (tl (b # ms))" for n
      using that assms(2) by (intro unlink_frame(2)) auto
  qed
  ultimately show ?thesis using c assms(2) by (auto simp: chain_append unlink_def)
qed

section \<open>Lists in the heap\<close>

definition nodes :: "nat \<Rightarrow> nat list \<Rightarrow> lnode list" where
  "nodes l xs = HeadOf l # map NodeOf xs @ [TailOf l]"

definition list_rep :: "list_heap \<Rightarrow> nat \<Rightarrow> nat list \<Rightarrow> bool" where
  "list_rep h l xs \<longleftrightarrow> chain h (nodes l xs) \<and> distinct xs \<and>
     prv h (HeadOf l) = None \<and> nxt h (TailOf l) = None \<and>
     self h (HeadOf l) = None \<and> self h (TailOf l) = None \<and>
     (\<forall>x \<in> set xs. self h (NodeOf x) = Some x) \<and>
     tl_count h l = length xs \<and> length xs < 2 ^ 32"

definition unlinked :: "list_heap \<Rightarrow> nat \<Rightarrow> bool" where
  "unlinked h t \<longleftrightarrow> prv h (NodeOf t) = None \<and> nxt h (NodeOf t) = None \<and>
     self h (NodeOf t) = Some t"

text \<open>
  A heap that holds the lists \<open>L\<close> (by their addresses), pairwise disjoint, and the elements \<open>U\<close>
  that are on no list.
\<close>

definition reps :: "list_heap \<Rightarrow> (nat \<Rightarrow> nat list option) \<Rightarrow> nat set \<Rightarrow> bool" where
  "reps h L U \<longleftrightarrow> (\<forall>l xs. L l = Some xs \<longrightarrow> list_rep h l xs) \<and>
     (\<forall>l l' xs ys. L l = Some xs \<longrightarrow> L l' = Some ys \<longrightarrow> l \<noteq> l' \<longrightarrow> set xs \<inter> set ys = {}) \<and>
     (\<forall>t \<in> U. unlinked h t)"

lemma distinct_nodes: "distinct xs \<Longrightarrow> distinct (nodes l xs)"
  by (auto simp: nodes_def distinct_map inj_on_def)

lemma set_nodes: "set (nodes l xs) = {HeadOf l, TailOf l} \<union> NodeOf ` set xs"
  by (auto simp: nodes_def)

text \<open>An element of a list is linked on both sides.\<close>

lemma list_rep_member:
  assumes "list_rep h l xs" and "x \<in> set xs"
  shows "prv h (NodeOf x) \<noteq> None"
proof -
  obtain ys zs where xs: "xs = ys @ x # zs" using assms(2) by (auto dest: split_list)
  obtain ns a where "HeadOf l # map NodeOf ys = ns @ [a]"
    by (metis list.distinct(1) rev_exhaust)
  then have "nodes l xs = ns @ a # NodeOf x # map NodeOf zs @ [TailOf l]"
    by (simp add: nodes_def xs)
  then show ?thesis using assms(1) by (simp add: list_rep_def chain_append)
qed

lemma reps_unlinked_notin: "reps h L U \<Longrightarrow> L l = Some xs \<Longrightarrow> t \<in> U \<Longrightarrow> t \<notin> set xs"
  unfolding reps_def unlinked_def by (metis list_rep_member)

lemma list_rep_cong:
  assumes "\<And>n. n \<in> set (nodes l xs) \<Longrightarrow> nxt h' n = nxt h n \<and> prv h' n = prv h n \<and> self h' n = self h n"
    and "tl_count h' l = tl_count h l"
  shows "list_rep h' l xs = list_rep h l xs"
proof -
  have "chain h' (nodes l xs) = chain h (nodes l xs)"
    using assms(1) by (intro chain_cong) (auto simp: nodes_def dest: in_set_butlastD)
  then show ?thesis using assms by (auto simp: list_rep_def set_nodes)
qed

text \<open>
  Surgery on one list leaves the others alone: the new heap agrees with the old one outside the
  nodes of the list \<open>l\<close> and of the element \<open>t\<close>.
\<close>

lemma reps_update:
  assumes "reps h L U" and "L l = Some xs" and "list_rep h' l xs'"
    and "set xs' \<subseteq> set xs \<union> U" and "\<And>t. t \<in> U' \<Longrightarrow> t \<in> U - set xs' \<or> unlinked h' t"
    and "\<And>n. n \<notin> set (nodes l xs) \<union> set (nodes l xs') \<Longrightarrow>
      nxt h' n = nxt h n \<and> prv h' n = prv h n \<and> self h' n = self h n"
    and "\<And>l'. l' \<noteq> l \<Longrightarrow> tl_count h' l' = tl_count h l'"
  shows "reps h' (L(l \<mapsto> xs')) U'"
proof -
  have other: "set xs' \<inter> set ys = {}" "set xs \<inter> set ys = {}" if "L l' = Some ys" "l' \<noteq> l" for l' ys
  proof -
    show "set xs \<inter> set ys = {}" using assms(1,2) that by (auto simp: reps_def)
    moreover have "U \<inter> set ys = {}" using reps_unlinked_notin [OF assms(1) that(1)] by auto
    ultimately show "set xs' \<inter> set ys = {}" using assms(4) by auto
  qed
  have rep: "list_rep h' l' ys" if "L l' = Some ys" "l' \<noteq> l" for l' ys
  proof -
    have "list_rep h' l' ys = list_rep h l' ys"
    proof (rule list_rep_cong)
      fix n assume "n \<in> set (nodes l' ys)"
      then show "nxt h' n = nxt h n \<and> prv h' n = prv h n \<and> self h' n = self h n"
        using other [OF that] that(2) by (intro assms(6)) (auto simp: set_nodes)
    qed (simp add: assms(7) that)
    then show ?thesis using assms(1) that by (simp add: reps_def)
  qed
  have un: "unlinked h' t" if "t \<in> U'" for t
  proof (cases "unlinked h' t")
    case False
    then have t: "t \<in> U" "t \<notin> set xs'" using assms(5) [OF that] by auto
    have "NodeOf t \<notin> set (nodes l xs) \<union> set (nodes l xs')"
      using t reps_unlinked_notin [OF assms(1,2) t(1)] by (auto simp: set_nodes)
    then show ?thesis using assms(1,6) t(1) by (simp add: reps_def unlinked_def)
  qed simp
  show ?thesis unfolding reps_def
  proof (intro conjI allI impI ballI)
    fix l' ys assume "(L(l \<mapsto> xs')) l' = Some ys"
    then show "list_rep h' l' ys" using assms(3) rep by (auto split: if_splits)
  next
    fix l1 l2 ys zs
    assume "(L(l \<mapsto> xs')) l1 = Some ys" "(L(l \<mapsto> xs')) l2 = Some zs" "l1 \<noteq> l2"
    then show "set ys \<inter> set zs = {}" using other assms(1)
      by (auto simp: reps_def split: if_splits)
  qed (rule un)
qed

lemma nodes_split:
  "HeadOf l # map NodeOf ys @ ns @ map NodeOf zs @ [TailOf l] =
     butlast (HeadOf l # map NodeOf ys) @ last (HeadOf l # map NodeOf ys) # ns @
       hd (map NodeOf zs @ [TailOf l]) # tl (map NodeOf zs @ [TailOf l])"
proof -
  have "HeadOf l # map NodeOf ys = butlast (HeadOf l # map NodeOf ys) @ [last (HeadOf l # map NodeOf ys)]"
    by (rule append_butlast_last_id [symmetric]) simp
  moreover have "map NodeOf zs @ [TailOf l] =
      hd (map NodeOf zs @ [TailOf l]) # tl (map NodeOf zs @ [TailOf l])"
    by (rule list.collapse [symmetric]) simp
  ultimately show ?thesis by (metis append.assoc append_Cons append_Nil)
qed

text \<open>Linking an unlinked element \<open>t\<close> into the list between two neighbours.\<close>

lemma reps_link:
  assumes "reps h L U" and "L l = Some (ys @ zs)" and "t \<in> U"
    and "length (ys @ zs) + 1 < 2 ^ 32"
    and "a = last (HeadOf l # map NodeOf ys)" and "b = hd (map NodeOf zs @ [TailOf l])"
  shows "nxt h a = Some b" "prv h b = Some a"
    "reps (set_count l (length (ys @ zs) + 1) (link a (NodeOf t) b h)) (L(l \<mapsto> ys @ t # zs)) (U - {t})"
proof -
  let ?ns = "butlast (HeadOf l # map NodeOf ys)" and ?ms = "tl (map NodeOf zs @ [TailOf l])"
  have split: "nodes l (ys @ zs) = ?ns @ a # b # ?ms"
    unfolding assms(5,6) nodes_def using nodes_split [of l ys "[]" zs] by simp
  have split': "nodes l (ys @ t # zs) = ?ns @ a # NodeOf t # b # ?ms"
    unfolding assms(5,6) nodes_def using nodes_split [of l ys "[NodeOf t]" zs] by simp
  have rep: "list_rep h l (ys @ zs)" and un: "unlinked h t"
    using assms(1-3) by (auto simp: reps_def)
  have t: "t \<notin> set (ys @ zs)" using reps_unlinked_notin assms(1-3) by blast
  have c: "chain h (?ns @ a # b # ?ms)" using rep by (simp add: list_rep_def split)
  then show "nxt h a = Some b" "prv h b = Some a" by (simp_all add: chain_append)
  have d: "distinct (?ns @ a # b # ?ms)"
    using rep distinct_nodes [of "ys @ zs" l] unfolding split by (simp add: list_rep_def)
  have x: "NodeOf t \<notin> set (?ns @ a # b # ?ms)"
    using t unfolding split [symmetric] by (auto simp: set_nodes)
  let ?h = "set_count l (length (ys @ zs) + 1) (link a (NodeOf t) b h)"
  have ch: "chain ?h (nodes l (ys @ t # zs))"
    using chain_link [OF c d x] unfolding split' by (subst chain_cong [where h = "link a (NodeOf t) b h"]) auto
  have ab: "a \<in> set (nodes l (ys @ zs))" "b \<in> set (nodes l (ys @ zs))" by (simp_all add: split)
  have ends: "HeadOf l \<noteq> b" "TailOf l \<noteq> a"
    unfolding assms(5,6) by (cases zs; auto) (cases ys rule: rev_cases; auto)
  have "list_rep ?h l (ys @ t # zs)"
    using rep un ch t ends assms(4) unfolding list_rep_def
    by (auto simp: link_frame unlinked_def)
  then show "reps ?h (L(l \<mapsto> ys @ t # zs)) (U - {t})"
  proof (rule reps_update [OF assms(1,2)])
    show "set (ys @ t # zs) \<subseteq> set (ys @ zs) \<union> U" using assms(3) by auto
    show "s \<in> U - set (ys @ t # zs) \<or> unlinked ?h s" if "s \<in> U - {t}" for s
      using that reps_unlinked_notin [OF assms(1,2)] by auto
    show "nxt ?h n = nxt h n \<and> prv ?h n = prv h n \<and> self ?h n = self h n"
      if "n \<notin> set (nodes l (ys @ zs)) \<union> set (nodes l (ys @ t # zs))" for n
    proof -
      have "n \<notin> {a, NodeOf t}" "n \<notin> {b, NodeOf t}" using that ab by (auto simp: set_nodes)
      then show ?thesis by (simp add: link_frame)
    qed
    show "tl_count ?h l' = tl_count h l'" if "l' \<noteq> l" for l'
      using that by (simp add: link_frame)
  qed
qed

text \<open>Unlinking an element.\<close>

lemma reps_unlink:
  assumes "reps h L U" and "L l = Some (ys @ t # zs)"
    and "a = last (HeadOf l # map NodeOf ys)" and "b = hd (map NodeOf zs @ [TailOf l])"
  shows "prv h (NodeOf t) = Some a" "nxt h (NodeOf t) = Some b" "self h (NodeOf t) = Some t"
    "reps (set_count l (length (ys @ zs)) (unlink a (NodeOf t) b h)) (L(l \<mapsto> ys @ zs)) (insert t U)"
proof -
  let ?ns = "butlast (HeadOf l # map NodeOf ys)" and ?ms = "tl (map NodeOf zs @ [TailOf l])"
  have split: "nodes l (ys @ zs) = ?ns @ a # b # ?ms"
    unfolding assms(3,4) nodes_def using nodes_split [of l ys "[]" zs] by simp
  have split': "nodes l (ys @ t # zs) = ?ns @ a # NodeOf t # b # ?ms"
    unfolding assms(3,4) nodes_def using nodes_split [of l ys "[NodeOf t]" zs] by simp
  have rep: "list_rep h l (ys @ t # zs)" using assms(1,2) by (auto simp: reps_def)
  then have c: "chain h (?ns @ a # NodeOf t # b # ?ms)" by (simp add: list_rep_def split')
  then show "prv h (NodeOf t) = Some a" "nxt h (NodeOf t) = Some b" by (simp_all add: chain_append)
  show slf: "self h (NodeOf t) = Some t" using rep by (simp add: list_rep_def)
  have d: "distinct (?ns @ a # NodeOf t # b # ?ms)"
    using rep distinct_nodes [of "ys @ t # zs" l] unfolding split' by (simp add: list_rep_def)
  let ?h = "set_count l (length (ys @ zs)) (unlink a (NodeOf t) b h)"
  have ch: "chain ?h (nodes l (ys @ zs))"
    using chain_unlink [OF c d] unfolding split by (subst chain_cong [where h = "unlink a (NodeOf t) b h"]) auto
  have ab: "a \<in> set (nodes l (ys @ zs))" "b \<in> set (nodes l (ys @ zs))" by (simp_all add: split)
  have ends: "HeadOf l \<noteq> b" "TailOf l \<noteq> a"
    unfolding assms(3,4) by (cases zs; auto) (cases ys rule: rev_cases; auto)
  have un: "unlinked ?h t" using slf d by (auto simp: unlinked_def unlink_def)
  have "list_rep ?h l (ys @ zs)"
    using rep ch ends unfolding list_rep_def by (auto simp: unlink_frame)
  then show "reps ?h (L(l \<mapsto> ys @ zs)) (insert t U)"
  proof (rule reps_update [OF assms(1,2)])
    show "s \<in> U - set (ys @ zs) \<or> unlinked ?h s" if "s \<in> insert t U" for s
      using that un reps_unlinked_notin [OF assms(1,2)] by auto
    show "nxt ?h n = nxt h n \<and> prv ?h n = prv h n \<and> self ?h n = self h n"
      if "n \<notin> set (nodes l (ys @ t # zs)) \<union> set (nodes l (ys @ zs))" for n
    proof -
      have "n \<notin> {a, NodeOf t}" "n \<notin> {b, NodeOf t}" using that ab by (auto simp: set_nodes)
      then show ?thesis by (simp add: unlink_frame)
    qed
    show "tl_count ?h l' = tl_count h l'" if "l' \<noteq> l" for l'
      using that by (simp add: unlink_frame)
  qed auto
qed

end
