(* ===== verification/Threadlist.thy ===== *)
theory Threadlist
  imports List_Heap
begin

text \<open>
  \<^verbatim>\<open>kern/thread/threadlist.c\<close>: the doubly linked lists behind wait channels and run queues. Each
  function is translated assignment by assignment over the heap of List_Heap; following a null
  pointer is \<open>None\<close>. The lemmas refine every operation to the one on the abstract list, and say
  that no other list changes; the interpretation hands them to the clients.
\<close>

definition threadlistnode_init :: "lnode \<Rightarrow> nat option \<Rightarrow> list_heap \<Rightarrow> list_heap option" where
  "threadlistnode_init tln t h =
     do {
       kassert (t \<noteq> None);
       let h = set_nxt tln None h;
       let h = set_prv tln None h;
       Some (set_self tln t h)
     }"

definition threadlistnode_cleanup :: "lnode \<Rightarrow> list_heap \<Rightarrow> list_heap option" where
  "threadlistnode_cleanup tln h =
     do {
       kassert (nxt h tln = None);
       kassert (prv h tln = None);
       kassert (self h tln \<noteq> None);
       Some h
     }"

definition threadlist_init :: "nat \<Rightarrow> list_heap \<Rightarrow> list_heap" where
  "threadlist_init l h =
    (let h = set_nxt (HeadOf l) (Some (TailOf l)) h;
         h = set_prv (HeadOf l) None h;
         h = set_nxt (TailOf l) None h;
         h = set_prv (TailOf l) (Some (HeadOf l)) h;
         h = set_self (HeadOf l) None h;
         h = set_self (TailOf l) None h
     in set_count l 0 h)"

definition threadlist_isempty :: "nat \<Rightarrow> list_heap \<Rightarrow> bool" where
  "threadlist_isempty l h = (tl_count h l = 0)"

definition threadlist_cleanup :: "nat \<Rightarrow> list_heap \<Rightarrow> list_heap option" where
  "threadlist_cleanup l h =
     do { kassert (threadlist_isempty l h); kassert (tl_count h l = 0); Some h }"

definition threadlist_insertafternode :: "lnode \<Rightarrow> nat \<Rightarrow> list_heap \<Rightarrow> list_heap option" where
  "threadlist_insertafternode onlist t h =
     do {
       let addee = NodeOf t;
       let h = set_prv addee (Some onlist) h;
       let h = set_nxt addee (nxt h onlist) h;
       p \<leftarrow> prv h addee;
       let h = set_nxt p (Some addee) h;
       n \<leftarrow> nxt h addee;
       Some (set_prv n (Some addee) h)
     }"

definition threadlist_insertbeforenode :: "nat \<Rightarrow> lnode \<Rightarrow> list_heap \<Rightarrow> list_heap option" where
  "threadlist_insertbeforenode t onlist h =
     do {
       let addee = NodeOf t;
       let h = set_prv addee (prv h onlist) h;
       let h = set_nxt addee (Some onlist) h;
       p \<leftarrow> prv h addee;
       let h = set_nxt p (Some addee) h;
       n \<leftarrow> nxt h addee;
       Some (set_prv n (Some addee) h)
     }"

definition threadlist_removenode :: "lnode \<Rightarrow> list_heap \<Rightarrow> list_heap option" where
  "threadlist_removenode tln h =
     do {
       p \<leftarrow> prv h tln;
       let h = set_nxt p (nxt h tln) h;
       n \<leftarrow> nxt h tln;
       let h = set_prv n (prv h tln) h;
       let h = set_prv tln None h;
       Some (set_nxt tln None h)
     }"

text \<open>\<^verbatim>\<open>tl->tl_count++\<close> and \<^verbatim>\<open>tl->tl_count--\<close> on an unsigned counter.\<close>

definition count_inc :: "nat \<Rightarrow> list_heap \<Rightarrow> list_heap" where
  "count_inc l h = set_count l ((tl_count h l + 1) mod 2 ^ 32) h"

definition count_dec :: "nat \<Rightarrow> list_heap \<Rightarrow> list_heap" where
  "count_dec l h = set_count l ((tl_count h l + 2 ^ 32 - 1) mod 2 ^ 32) h"

definition threadlist_addhead :: "nat \<Rightarrow> nat \<Rightarrow> list_heap \<Rightarrow> list_heap option" where
  "threadlist_addhead l t h =
     do { h \<leftarrow> threadlist_insertafternode (HeadOf l) t h; Some (count_inc l h) }"

definition threadlist_addtail :: "nat \<Rightarrow> nat \<Rightarrow> list_heap \<Rightarrow> list_heap option" where
  "threadlist_addtail l t h =
     do { h \<leftarrow> threadlist_insertbeforenode t (TailOf l) h; Some (count_inc l h) }"

definition threadlist_remhead :: "nat \<Rightarrow> list_heap \<Rightarrow> (list_heap \<times> nat option) option" where
  "threadlist_remhead l h =
     do {
       tln \<leftarrow> nxt h (HeadOf l);
       if nxt h tln = None then Some (h, None)
       else do {
         h \<leftarrow> threadlist_removenode tln h;
         let h = count_dec l h;
         Some (h, self h tln)
       }
     }"

definition threadlist_remtail :: "nat \<Rightarrow> list_heap \<Rightarrow> (list_heap \<times> nat option) option" where
  "threadlist_remtail l h =
     do {
       tln \<leftarrow> prv h (TailOf l);
       if prv h tln = None then Some (h, None)
       else do {
         h \<leftarrow> threadlist_removenode tln h;
         let h = count_dec l h;
         Some (h, self h tln)
       }
     }"

definition threadlist_insertafter :: "nat \<Rightarrow> nat \<Rightarrow> nat \<Rightarrow> list_heap \<Rightarrow> list_heap option" where
  "threadlist_insertafter l onlist addee h =
     do { h \<leftarrow> threadlist_insertafternode (NodeOf onlist) addee h; Some (count_inc l h) }"

definition threadlist_insertbefore :: "nat \<Rightarrow> nat \<Rightarrow> nat \<Rightarrow> list_heap \<Rightarrow> list_heap option" where
  "threadlist_insertbefore l addee onlist h =
     do { h \<leftarrow> threadlist_insertbeforenode addee (NodeOf onlist) h; Some (count_inc l h) }"

definition threadlist_remove :: "nat \<Rightarrow> nat \<Rightarrow> list_heap \<Rightarrow> list_heap option" where
  "threadlist_remove l t h =
     do { h \<leftarrow> threadlist_removenode (NodeOf t) h; Some (count_dec l h) }"

section \<open>The pointer surgery\<close>

lemma insertafternode_link:
  "nxt h a = Some b \<Longrightarrow> a \<noteq> NodeOf t \<Longrightarrow>
     threadlist_insertafternode a t h = Some (link a (NodeOf t) b h)"
  by (simp add: threadlist_insertafternode_def link_def set_prv_def set_nxt_def Let_def)

lemma insertbeforenode_link:
  "prv h b = Some a \<Longrightarrow> a \<noteq> NodeOf t \<Longrightarrow>
     threadlist_insertbeforenode t b h = Some (link a (NodeOf t) b h)"
  by (simp add: threadlist_insertbeforenode_def link_def set_prv_def set_nxt_def Let_def)

lemma removenode_unlink:
  "prv h x = Some a \<Longrightarrow> nxt h x = Some b \<Longrightarrow> a \<noteq> x \<Longrightarrow> b \<noteq> x \<Longrightarrow>
     threadlist_removenode x h = Some (unlink a x b h)"
  by (simp add: threadlist_removenode_def unlink_def set_prv_def set_nxt_def)

lemma count_inc_rep: "list_rep h l xs \<Longrightarrow> tl_count h' l = tl_count h l \<Longrightarrow> length xs + 1 < 2 ^ 32 \<Longrightarrow>
    count_inc l h' = set_count l (length xs + 1) h'"
  by (simp add: count_inc_def list_rep_def)

lemma count_dec_rep: "list_rep h l (xs @ t # ys) \<Longrightarrow> tl_count h' l = tl_count h l \<Longrightarrow>
    count_dec l h' = set_count l (length (xs @ ys)) h'"
  by (simp add: count_dec_def list_rep_def)

lemma reps_list_rep: "reps h L U \<Longrightarrow> L l = Some xs \<Longrightarrow> list_rep h l xs"
  by (simp add: reps_def)

lemma last_node_neq: "t \<notin> set ys \<Longrightarrow> last (HeadOf l # map NodeOf ys) \<noteq> NodeOf t"
  by (cases ys rule: rev_cases) auto

lemma hd_node_neq: "t \<notin> set zs \<Longrightarrow> hd (map NodeOf zs @ [TailOf l]) \<noteq> NodeOf t"
  by (cases zs) auto

section \<open>Refinement to abstract lists\<close>

text \<open>Insertion anywhere in the list, by the node before or after the gap.\<close>

lemma threadlist_insert_reps:
  assumes "reps h L U" and "L l = Some (ys @ zs)" and "t \<in> U" and "length (ys @ zs) + 1 < 2 ^ 32"
  shows "\<exists>h'. threadlist_insertafternode (last (HeadOf l # map NodeOf ys)) t h = Some h' \<and>
      threadlist_insertbeforenode t (hd (map NodeOf zs @ [TailOf l])) h = Some h' \<and>
      reps (count_inc l h') (L(l \<mapsto> ys @ t # zs)) (U - {t})"
proof -
  let ?a = "last (HeadOf l # map NodeOf ys)" and ?b = "hd (map NodeOf zs @ [TailOf l])"
  note lnk = reps_link [OF assms(1-4) refl refl]
  have t: "t \<notin> set (ys @ zs)" using reps_unlinked_notin assms(1-3) by blast
  then have a: "?a \<noteq> NodeOf t" by (intro last_node_neq) simp
  have "count_inc l (link ?a (NodeOf t) ?b h) =
      set_count l (length (ys @ zs) + 1) (link ?a (NodeOf t) ?b h)"
    using assms(4) by (intro count_inc_rep [OF reps_list_rep [OF assms(1,2)]]) (simp_all add: link_frame)
  then show ?thesis
    using lnk insertafternode_link [OF lnk(1) a] insertbeforenode_link [OF lnk(2) a] by simp
qed

lemma threadlist_removenode_reps:
  assumes "reps h L U" and "L l = Some (ys @ t # zs)"
  shows "\<exists>h'. threadlist_removenode (NodeOf t) h = Some h' \<and> self h' (NodeOf t) = Some t \<and>
    reps (count_dec l h') (L(l \<mapsto> ys @ zs)) (insert t U)"
proof -
  let ?a = "last (HeadOf l # map NodeOf ys)" and ?b = "hd (map NodeOf zs @ [TailOf l])"
  note unl = reps_unlink [OF assms refl refl]
  have rep: "list_rep h l (ys @ t # zs)" by (rule reps_list_rep [OF assms])
  then have t: "t \<notin> set ys" "t \<notin> set zs" by (auto simp: list_rep_def)
  have "threadlist_removenode (NodeOf t) h = Some (unlink ?a (NodeOf t) ?b h)"
    by (rule removenode_unlink [OF unl(1,2) last_node_neq [OF t(1)] hd_node_neq [OF t(2)]])
  moreover have "count_dec l (unlink ?a (NodeOf t) ?b h) =
      set_count l (length (ys @ zs)) (unlink ?a (NodeOf t) ?b h)"
    by (rule count_dec_rep [OF rep]) (simp add: unlink_frame)
  ultimately show ?thesis using unl(3,4) by (simp add: unlink_frame)
qed

lemma threadlist_addhead_reps:
  assumes "reps h L U" and "L l = Some xs" and "t \<in> U" and "length xs + 1 < 2 ^ 32"
  shows "\<exists>h'. threadlist_addhead l t h = Some h' \<and> reps h' (L(l \<mapsto> t # xs)) (U - {t})"
  using threadlist_insert_reps [of h L U l "[]" xs t] assms by (auto simp: threadlist_addhead_def)

lemma threadlist_addtail_reps:
  assumes "reps h L U" and "L l = Some xs" and "t \<in> U" and "length xs + 1 < 2 ^ 32"
  shows "\<exists>h'. threadlist_addtail l t h = Some h' \<and> reps h' (L(l \<mapsto> xs @ [t])) (U - {t})"
  using threadlist_insert_reps [of h L U l xs "[]" t] assms by (auto simp: threadlist_addtail_def)

lemma threadlist_insertafter_reps:
  assumes "reps h L U" and "L l = Some (xs @ s # ys)" and "t \<in> U"
    and "length (xs @ s # ys) + 1 < 2 ^ 32"
  shows "\<exists>h'. threadlist_insertafter l s t h = Some h' \<and> reps h' (L(l \<mapsto> xs @ s # t # ys)) (U - {t})"
  using threadlist_insert_reps [of h L U l "xs @ [s]" ys t] assms
  by (auto simp: threadlist_insertafter_def)

lemma threadlist_insertbefore_reps:
  assumes "reps h L U" and "L l = Some (xs @ s # ys)" and "t \<in> U"
    and "length (xs @ s # ys) + 1 < 2 ^ 32"
  shows "\<exists>h'. threadlist_insertbefore l t s h = Some h' \<and> reps h' (L(l \<mapsto> xs @ t # s # ys)) (U - {t})"
  using threadlist_insert_reps [of h L U l xs "s # ys" t] assms
  by (auto simp: threadlist_insertbefore_def)

lemma threadlist_remove_reps:
  assumes "reps h L U" and "L l = Some (xs @ t # ys)"
  shows "\<exists>h'. threadlist_remove l t h = Some h' \<and> reps h' (L(l \<mapsto> xs @ ys)) (insert t U)"
  using threadlist_removenode_reps [OF assms] by (auto simp: threadlist_remove_def)

lemma head_next:
  assumes "reps h L U" and "L l = Some xs"
  shows "nxt h (HeadOf l) = Some (hd (map NodeOf xs @ [TailOf l]))"
    "prv h (TailOf l) = Some (last (HeadOf l # map NodeOf xs))"
    "nxt h (TailOf l) = None" "prv h (HeadOf l) = None"
proof -
  have rep: "list_rep h l xs" by (rule reps_list_rep [OF assms])
  then have c: "chain h (nodes l xs)" by (simp add: list_rep_def)
  show "nxt h (TailOf l) = None" "prv h (HeadOf l) = None" using rep by (simp_all add: list_rep_def)
  show "nxt h (HeadOf l) = Some (hd (map NodeOf xs @ [TailOf l]))"
    using c by (cases xs) (simp_all add: nodes_def)
  show "prv h (TailOf l) = Some (last (HeadOf l # map NodeOf xs))"
  proof (cases xs rule: rev_cases)
    case (snoc ys y)
    have "chain h ((HeadOf l # map NodeOf ys) @ NodeOf y # TailOf l # [])"
      using c by (simp add: nodes_def snoc)
    then show ?thesis unfolding chain_append by (simp add: snoc)
  qed (use c in \<open>simp add: nodes_def\<close>)
qed

lemma threadlist_remhead_reps:
  assumes "reps h L U" and "L l = Some (t # xs)"
  shows "\<exists>h'. threadlist_remhead l h = Some (h', Some t) \<and> reps h' (L(l \<mapsto> xs)) (insert t U)"
proof -
  note unl = reps_unlink [OF assms(1), of l "[]" t xs, simplified, OF assms(2)]
  show ?thesis
    using threadlist_removenode_reps [OF assms(1), of l "[]" t xs] assms(2)
      head_next(1) [OF assms] unl(2)
    by (auto simp: threadlist_remhead_def count_dec_def)
qed

lemma threadlist_remtail_reps:
  assumes "reps h L U" and "L l = Some (xs @ [t])"
  shows "\<exists>h'. threadlist_remtail l h = Some (h', Some t) \<and> reps h' (L(l \<mapsto> xs)) (insert t U)"
proof -
  have "prv h (NodeOf t) \<noteq> None"
    using list_rep_member [OF reps_list_rep [OF assms]] by simp
  then show ?thesis
    using threadlist_removenode_reps [OF assms(1), of l xs t "[]"] assms(2)
      head_next(2) [OF assms]
    by (auto simp: threadlist_remtail_def count_dec_def)
qed

lemma threadlist_rem_empty:
  assumes "reps h L U" and "L l = Some []"
  shows "threadlist_remhead l h = Some (h, None)" "threadlist_remtail l h = Some (h, None)"
  using head_next [OF assms] by (simp_all add: threadlist_remhead_def threadlist_remtail_def)

lemma threadlist_isempty_reps:
  "reps h L U \<Longrightarrow> L l = Some xs \<Longrightarrow> threadlist_isempty l h \<longleftrightarrow> xs = []"
  by (auto simp: threadlist_isempty_def list_rep_def dest: reps_list_rep)

lemma threadlist_cleanup_reps:
  "reps h L U \<Longrightarrow> L l = Some xs \<Longrightarrow> threadlist_cleanup l h = (if xs = [] then Some h else None)"
  by (auto simp: threadlist_cleanup_def threadlist_isempty_def kassert_def list_rep_def
      dest: reps_list_rep)

lemma threadlist_init_reps:
  assumes "reps h L U" and "L l = None"
  shows "reps (threadlist_init l h) (L(l \<mapsto> [])) U"
proof -
  have fr: "nxt (threadlist_init l h) n = nxt h n \<and> prv (threadlist_init l h) n = prv h n \<and>
      self (threadlist_init l h) n = self h n" if "n \<notin> {HeadOf l, TailOf l}" for n
    using that by (simp add: threadlist_init_def)
  have "list_rep (threadlist_init l h) l' xs" if "L l' = Some xs" for l' xs
  proof -
    have "l' \<noteq> l" using assms(2) that by auto
    then have "list_rep (threadlist_init l h) l' xs = list_rep h l' xs"
      by (intro list_rep_cong fr) (auto simp: set_nodes threadlist_init_def)
    then show ?thesis using reps_list_rep [OF assms(1) that] by simp
  qed
  moreover have "list_rep (threadlist_init l h) l []"
    by (simp add: list_rep_def nodes_def threadlist_init_def)
  moreover have "unlinked (threadlist_init l h) t" if "t \<in> U" for t
    using assms(1) that fr [of "NodeOf t"] by (simp add: reps_def unlinked_def)
  ultimately show ?thesis using assms(1) by (auto simp: reps_def)
qed

lemma threadlistnode_init_reps:
  assumes "reps h L U" and "\<And>l xs. L l = Some xs \<Longrightarrow> t \<notin> set xs"
  shows "\<exists>h'. threadlistnode_init (NodeOf t) (Some t) h = Some h' \<and> reps h' L (insert t U)"
proof -
  let ?h = "set_self (NodeOf t) (Some t) (set_prv (NodeOf t) None (set_nxt (NodeOf t) None h))"
  have "list_rep ?h l xs" if "L l = Some xs" for l xs
  proof -
    have "list_rep ?h l xs = list_rep h l xs"
      using assms(2) [OF that] by (intro list_rep_cong) (auto simp: set_nodes)
    then show ?thesis using reps_list_rep [OF assms(1) that] by simp
  qed
  then have "reps ?h L (insert t U)" using assms(1) by (auto simp: reps_def unlinked_def)
  then show ?thesis by (simp add: threadlistnode_init_def)
qed

section \<open>The deque the thread system relies on\<close>

interpretation thl: deque reps threadlist_isempty threadlist_addhead threadlist_addtail
  threadlist_remhead threadlist_remtail threadlist_remove
proof unfold_locales
  show "distinct xs \<and> set xs \<inter> U = {}" if "reps h L U" "L l = Some xs" for h L U l xs
    using that reps_unlinked_notin [OF that] by (auto simp: list_rep_def dest: reps_list_rep)
qed (simp_all add: threadlist_isempty_reps threadlist_addhead_reps threadlist_addtail_reps
    threadlist_rem_empty threadlist_remhead_reps threadlist_remtail_reps threadlist_remove_reps)

text \<open>A heap with one empty list and the two elements 1 and 2 on no list.\<close>

definition sample_heap :: "list_heap" where
  "sample_heap = threadlist_init 0
     \<lparr>prv = (\<lambda>_. None), nxt = (\<lambda>_. None),
      self = (\<lambda>n. case n of NodeOf t \<Rightarrow> Some t | _ \<Rightarrow> None), tl_count = (\<lambda>_. 0)\<rparr>"

lemma sample_heap_reps: "reps sample_heap [0 \<mapsto> []] {1, 2}"
  unfolding sample_heap_def by (rule threadlist_init_reps) (auto simp: reps_def unlinked_def)

section \<open>Properties\<close>

text \<open>Threads added at the tail of an empty list, each on no list before, come off its head in
  the order in which they were added, and the memory again holds the lists it held: every other
  list is unchanged and the threads are on no list.\<close>

theorem threadlist_fifo:
  assumes "reps h L U" and "L l = Some []" and "set ts \<subseteq> U" and "distinct ts"
    and "length ts < 2 ^ 32"
  shows "\<exists>h' h''. for_each (threadlist_addtail l) ts h = Some h' \<and>
    thl.drain (length ts) l h' = Some (h'', ts) \<and> reps h'' L U"
  using assms by (rule thl.fifo)

theorem threadlist_fifo_witness:
  "\<exists>h' h''. for_each (threadlist_addtail 0) [2, 1] sample_heap = Some h' \<and>
    thl.drain (length [2, 1 :: nat]) 0 h' = Some (h'', [2, 1]) \<and> reps h'' [0 \<mapsto> []] {1, 2}"
  by (rule threadlist_fifo [OF sample_heap_reps]) auto

text \<open>C24: threadlist_remove of a thread anywhere in a list unlinks exactly that thread: the list
  keeps the others in order, the count follows, every other list is unchanged, and the thread's
  own node is left unlinked, ready to be added again.\<close>

theorem threadlist_remove_anywhere:
  assumes "reps h L U" and "L l = Some (xs @ t # ys)"
  shows "\<exists>h'. threadlist_remove l t h = Some h' \<and> reps h' (L(l \<mapsto> xs @ ys)) (insert t U) \<and>
    tl_count h' l = length xs + length ys \<and> threadlistnode_cleanup (NodeOf t) h' = Some h'"
proof -
  obtain h' where h': "threadlist_remove l t h = Some h'" "reps h' (L(l \<mapsto> xs @ ys)) (insert t U)"
    using threadlist_remove_reps [OF assms] by auto
  moreover have "list_rep h' l (xs @ ys)" by (rule reps_list_rep [OF h'(2)]) simp
  moreover have "unlinked h' t" using h'(2) by (simp add: reps_def)
  ultimately show ?thesis
    by (simp add: list_rep_def unlinked_def threadlistnode_cleanup_def)
qed

theorem threadlist_remove_anywhere_witness:
  "\<exists>h1 h'. threadlist_addhead 0 1 sample_heap = Some h1 \<and> threadlist_remove 0 1 h1 = Some h' \<and>
     tl_count h' 0 = 0"
proof -
  obtain h1 where h1: "threadlist_addhead 0 1 sample_heap = Some h1" "reps h1 [0 \<mapsto> [1]] {2}"
    using threadlist_addhead_reps [OF sample_heap_reps, of 0 "[]" 1] by auto
  show ?thesis using threadlist_remove_anywhere [OF h1(2), of 0 "[]" 1 "[]"] h1(1) by auto
qed

end
