(* ===== verification/Proclist.thy ===== *)
theory Proclist
  imports Threadlist
begin

text \<open>
  \<^verbatim>\<open>kern/proc/proclist.c\<close>: the list of a process's children. The file is written after
  \<^verbatim>\<open>threadlist.c\<close>; its functions are translated on their own and then proved equal to the
  thread list's, so that the refinement to abstract lists carries over. The iteration macro of
  \<^verbatim>\<open>proclist.h\<close> is the loop \<open>proclist_find\<close>; \<open>None\<close> is a walk that does not end or that
  follows a null pointer, and the lemmas show that neither happens on a well-formed list.
\<close>

definition proclistnode_init :: "lnode \<Rightarrow> nat option \<Rightarrow> list_heap \<Rightarrow> list_heap option" where
  "proclistnode_init tln t h =
     do {
       kassert (t \<noteq> None);
       let h = set_nxt tln None h;
       let h = set_prv tln None h;
       Some (set_self tln t h)
     }"

definition proclistnode_cleanup :: "lnode \<Rightarrow> list_heap \<Rightarrow> list_heap option" where
  "proclistnode_cleanup tln h =
     do {
       kassert (nxt h tln = None);
       kassert (prv h tln = None);
       kassert (self h tln \<noteq> None);
       Some h
     }"

definition proclist_init :: "nat \<Rightarrow> list_heap \<Rightarrow> list_heap" where
  "proclist_init l h =
    (let h = set_nxt (HeadOf l) (Some (TailOf l)) h;
         h = set_prv (HeadOf l) None h;
         h = set_nxt (TailOf l) None h;
         h = set_prv (TailOf l) (Some (HeadOf l)) h;
         h = set_self (HeadOf l) None h;
         h = set_self (TailOf l) None h
     in set_count l 0 h)"

definition proclist_isempty :: "nat \<Rightarrow> list_heap \<Rightarrow> bool" where
  "proclist_isempty l h = (tl_count h l = 0)"

definition proclist_cleanup :: "nat \<Rightarrow> list_heap \<Rightarrow> list_heap option" where
  "proclist_cleanup l h =
     do { kassert (proclist_isempty l h); kassert (tl_count h l = 0); Some h }"

definition proclist_insertafternode :: "lnode \<Rightarrow> nat \<Rightarrow> list_heap \<Rightarrow> list_heap option" where
  "proclist_insertafternode onlist t h =
     do {
       let addee = NodeOf t;
       let h = set_prv addee (Some onlist) h;
       let h = set_nxt addee (nxt h onlist) h;
       p \<leftarrow> prv h addee;
       let h = set_nxt p (Some addee) h;
       n \<leftarrow> nxt h addee;
       Some (set_prv n (Some addee) h)
     }"

definition proclist_insertbeforenode :: "nat \<Rightarrow> lnode \<Rightarrow> list_heap \<Rightarrow> list_heap option" where
  "proclist_insertbeforenode t onlist h =
     do {
       let addee = NodeOf t;
       let h = set_prv addee (prv h onlist) h;
       let h = set_nxt addee (Some onlist) h;
       p \<leftarrow> prv h addee;
       let h = set_nxt p (Some addee) h;
       n \<leftarrow> nxt h addee;
       Some (set_prv n (Some addee) h)
     }"

definition proclist_removenode :: "lnode \<Rightarrow> list_heap \<Rightarrow> list_heap option" where
  "proclist_removenode tln h =
     do {
       p \<leftarrow> prv h tln;
       let h = set_nxt p (nxt h tln) h;
       n \<leftarrow> nxt h tln;
       let h = set_prv n (prv h tln) h;
       let h = set_prv tln None h;
       Some (set_nxt tln None h)
     }"

definition proclist_addhead :: "nat \<Rightarrow> nat \<Rightarrow> list_heap \<Rightarrow> list_heap option" where
  "proclist_addhead l t h =
     do { h \<leftarrow> proclist_insertafternode (HeadOf l) t h; Some (count_inc l h) }"

definition proclist_addtail :: "nat \<Rightarrow> nat \<Rightarrow> list_heap \<Rightarrow> list_heap option" where
  "proclist_addtail l t h =
     do { h \<leftarrow> proclist_insertbeforenode t (TailOf l) h; Some (count_inc l h) }"

definition proclist_remhead :: "nat \<Rightarrow> list_heap \<Rightarrow> (list_heap \<times> nat option) option" where
  "proclist_remhead l h =
     do {
       tln \<leftarrow> nxt h (HeadOf l);
       if nxt h tln = None then Some (h, None)
       else do {
         h \<leftarrow> proclist_removenode tln h;
         let h = count_dec l h;
         Some (h, self h tln)
       }
     }"

definition proclist_remtail :: "nat \<Rightarrow> list_heap \<Rightarrow> (list_heap \<times> nat option) option" where
  "proclist_remtail l h =
     do {
       tln \<leftarrow> prv h (TailOf l);
       if prv h tln = None then Some (h, None)
       else do {
         h \<leftarrow> proclist_removenode tln h;
         let h = count_dec l h;
         Some (h, self h tln)
       }
     }"

definition proclist_insertafter :: "nat \<Rightarrow> nat \<Rightarrow> nat \<Rightarrow> list_heap \<Rightarrow> list_heap option" where
  "proclist_insertafter l onlist addee h =
     do { h \<leftarrow> proclist_insertafternode (NodeOf onlist) addee h; Some (count_inc l h) }"

definition proclist_insertbefore :: "nat \<Rightarrow> nat \<Rightarrow> nat \<Rightarrow> list_heap \<Rightarrow> list_heap option" where
  "proclist_insertbefore l addee onlist h =
     do { h \<leftarrow> proclist_insertbeforenode addee (NodeOf onlist) h; Some (count_inc l h) }"

definition proclist_remove :: "nat \<Rightarrow> nat \<Rightarrow> list_heap \<Rightarrow> list_heap option" where
  "proclist_remove l t h =
     do { h \<leftarrow> proclist_removenode (NodeOf t) h; Some (count_dec l h) }"

text \<open>
  \<^verbatim>\<open>PROCLIST_FORALL (t, list) if (P t) break;\<close> starting at the given iteration variable, and from
  the first element. The result is the process at which the loop stopped, \<open>None\<close> inside for the
  null pointer at its end.
\<close>

partial_function (option) proclist_walk ::
  "(nat \<Rightarrow> bool) \<Rightarrow> list_heap \<Rightarrow> nat option \<Rightarrow> nat option option" where
  "proclist_walk P h itervar =
    (case itervar of
       None \<Rightarrow> Some None
     | Some t \<Rightarrow>
         if P t then Some (Some t)
         else Option.bind (nxt h (NodeOf t)) (\<lambda>n. proclist_walk P h (self h n)))"

definition proclist_find :: "(nat \<Rightarrow> bool) \<Rightarrow> list_heap \<Rightarrow> nat \<Rightarrow> nat option option" where
  "proclist_find P h l = do { n \<leftarrow> nxt h (HeadOf l); proclist_walk P h (self h n) }"

section \<open>The same code as the thread list\<close>

lemma proclistnode_init_eq: "proclistnode_init = threadlistnode_init"
  by (intro ext) (simp add: proclistnode_init_def threadlistnode_init_def)

lemma proclistnode_cleanup_eq: "proclistnode_cleanup = threadlistnode_cleanup"
  by (intro ext) (simp add: proclistnode_cleanup_def threadlistnode_cleanup_def)

lemma proclist_init_eq: "proclist_init = threadlist_init"
  by (intro ext) (simp add: proclist_init_def threadlist_init_def)

lemma proclist_isempty_eq: "proclist_isempty = threadlist_isempty"
  by (intro ext) (simp add: proclist_isempty_def threadlist_isempty_def)

lemma proclist_cleanup_eq: "proclist_cleanup = threadlist_cleanup"
  by (intro ext) (simp add: proclist_cleanup_def threadlist_cleanup_def proclist_isempty_eq)

lemma proclist_insertafternode_eq: "proclist_insertafternode = threadlist_insertafternode"
  by (intro ext) (simp add: proclist_insertafternode_def threadlist_insertafternode_def)

lemma proclist_insertbeforenode_eq: "proclist_insertbeforenode = threadlist_insertbeforenode"
  by (intro ext) (simp add: proclist_insertbeforenode_def threadlist_insertbeforenode_def)

lemma proclist_removenode_eq: "proclist_removenode = threadlist_removenode"
  by (intro ext) (simp add: proclist_removenode_def threadlist_removenode_def)

lemma proclist_addhead_eq: "proclist_addhead = threadlist_addhead"
  by (intro ext) (simp add: proclist_addhead_def threadlist_addhead_def proclist_insertafternode_eq)

lemma proclist_addtail_eq: "proclist_addtail = threadlist_addtail"
  by (intro ext) (simp add: proclist_addtail_def threadlist_addtail_def proclist_insertbeforenode_eq)

lemma proclist_remhead_eq: "proclist_remhead = threadlist_remhead"
  by (intro ext) (simp only: proclist_remhead_def threadlist_remhead_def proclist_removenode_eq)

lemma proclist_remtail_eq: "proclist_remtail = threadlist_remtail"
  by (intro ext) (simp only: proclist_remtail_def threadlist_remtail_def proclist_removenode_eq)

lemma proclist_insertafter_eq: "proclist_insertafter = threadlist_insertafter"
  by (intro ext) (simp add: proclist_insertafter_def threadlist_insertafter_def proclist_insertafternode_eq)

lemma proclist_insertbefore_eq: "proclist_insertbefore = threadlist_insertbefore"
  by (intro ext) (simp add: proclist_insertbefore_def threadlist_insertbefore_def proclist_insertbeforenode_eq)

lemma proclist_remove_eq: "proclist_remove = threadlist_remove"
  by (intro ext) (simp add: proclist_remove_def threadlist_remove_def proclist_removenode_eq)

lemmas proclist_eqs =
  proclistnode_init_eq
  proclistnode_cleanup_eq
  proclist_init_eq
  proclist_isempty_eq
  proclist_cleanup_eq
  proclist_insertafternode_eq
  proclist_insertbeforenode_eq
  proclist_removenode_eq
  proclist_addhead_eq
  proclist_addtail_eq
  proclist_remhead_eq
  proclist_remtail_eq
  proclist_insertafter_eq
  proclist_insertbefore_eq
  proclist_remove_eq

interpretation prl: deque reps proclist_isempty proclist_addhead proclist_addtail
  proclist_remhead proclist_remtail proclist_remove
  unfolding proclist_eqs by (rule thl.deque_axioms)

section \<open>Searching a child\<close>

lemma proclist_walk_Nil: "proclist_walk P h None = Some None"
  by (simp add: proclist_walk.simps)

lemma walk_from:
  assumes "list_rep h l xs" and "\<exists>ns. nodes l xs = ns @ n # map NodeOf ys @ [TailOf l]"
    and "set ys \<subseteq> set xs"
  shows "\<exists>m. nxt h n = Some m \<and> proclist_walk P h (self h m) = Some (find P ys)"
  using assms(2,3)
proof (induction ys arbitrary: n)
  case Nil
  then obtain ns where "nodes l xs = ns @ n # TailOf l # []" by auto
  then have "nxt h n = Some (TailOf l)" using assms(1) by (simp add: list_rep_def chain_append)
  then show ?case using assms(1) by (simp add: list_rep_def proclist_walk_Nil)
next
  case (Cons y ys)
  obtain ns where ns: "nodes l xs = ns @ n # NodeOf y # map NodeOf ys @ [TailOf l]"
    using Cons.prems(1) by auto
  then have n: "nxt h n = Some (NodeOf y)" using assms(1) by (simp add: list_rep_def chain_append)
  have y: "self h (NodeOf y) = Some y" using assms(1) Cons.prems(2) by (simp add: list_rep_def)
  have "nodes l xs = (ns @ [n]) @ NodeOf y # map NodeOf ys @ [TailOf l]" using ns by simp
  then obtain m where "nxt h (NodeOf y) = Some m" "proclist_walk P h (self h m) = Some (find P ys)"
    using Cons.IH [of "NodeOf y"] Cons.prems(2) by auto
  then show ?case using n y by (simp add: proclist_walk.simps [of P h "Some y"])
qed

lemma proclist_find_reps:
  assumes "reps h L U" and "L l = Some xs"
  shows "proclist_find P h l = Some (find P xs)"
proof -
  have "\<exists>ns. nodes l xs = ns @ HeadOf l # map NodeOf xs @ [TailOf l]"
    by (intro exI [of _ "[]"]) (simp add: nodes_def)
  from walk_from [OF reps_list_rep [OF assms] this subset_refl, of P] show ?thesis
    by (auto simp: proclist_find_def)
qed

section \<open>Properties\<close>

text \<open>The PROCLIST_FORALL search over a well-formed list of processes ends and follows no null
  pointer: it stops at the first process that satisfies the test, or at the null pointer when
  there is none.\<close>

theorem proclist_find_first:
  assumes "reps h L U" and "L l = Some xs"
  shows "proclist_find P h l = Some (find P xs)"
  using assms by (rule proclist_find_reps)

theorem proclist_find_first_witness:
  "\<exists>h'. for_each (proclist_addtail 0) [2, 1] sample_heap = Some h' \<and>
     proclist_find (\<lambda>t. t < 2) h' 0 = Some (Some 1)"
proof -
  obtain h' where h': "for_each (proclist_addtail 0) [2, 1] sample_heap = Some h'"
    "reps h' [0 \<mapsto> [2, 1]] {}"
    using prl.addtail_many [OF sample_heap_reps, of 0 "[]" "[2, 1]"] by auto
  show ?thesis using proclist_find_first [OF h'(2), of 0 "[2, 1]" "\<lambda>t. t < 2"] h'(1) by simp
qed

end
