(* ===== verification/Karray.thy ===== *)
theory Karray
  imports Interfaces
begin

text \<open>
  \<^verbatim>\<open>kern/lib/array.c\<close> and the inline functions of \<^verbatim>\<open>kern/include/array.h\<close>: the resizeable array
  of pointers that holds a process's threads and the device list. The block \<^verbatim>\<open>a->v\<close> is a list of
  slots, \<open>None\<close> where nothing has been stored yet. Sizes are 32-bit unsigned, and both the
  doubling of the capacity and the byte count handed to \<^verbatim>\<open>kmalloc\<close> wrap around. The doubling
  loop is a partial function, because it does not end on every input.
\<close>

record 'a karray =
  arr_v :: "'a option list"
  arr_num :: nat
  arr_max :: nat

definition array_init :: "'a karray" where
  "array_init = \<lparr>arr_v = [], arr_num = 0, arr_max = 0\<rparr>"

definition array_create :: "bool \<Rightarrow> 'a karray option" where
  "array_create kmalloc = (if kmalloc then Some array_init else None)"

definition array_cleanup :: "'a karray \<Rightarrow> 'a karray option" where
  "array_cleanup a = do { kassert (arr_num a = 0); Some (a\<lparr>arr_v := []\<rparr>) }"

definition array_destroy :: "'a karray \<Rightarrow> unit option" where
  "array_destroy a = do { _ \<leftarrow> array_cleanup a; Some () }"

definition array_num :: "'a karray \<Rightarrow> nat" where
  "array_num a = arr_num a"

definition array_get :: "'a karray \<Rightarrow> nat \<Rightarrow> 'a option option" where
  "array_get a index = do { kassert (index < arr_num a); fetch (arr_v a) index }"

definition array_set :: "'a karray \<Rightarrow> nat \<Rightarrow> 'a \<Rightarrow> 'a karray option" where
  "array_set a index val =
     do {
       kassert (index < arr_num a);
       v \<leftarrow> store (arr_v a) index (Some val);
       Some (a\<lparr>arr_v := v\<rparr>)
     }"

text \<open>The loop \<^verbatim>\<open>while (num > newmax) newmax = newmax ? newmax*2 : 4\<close>; \<open>None\<close> is a loop that
  does not end.\<close>

partial_function (option) grow_max :: "nat \<Rightarrow> nat \<Rightarrow> nat option" where
  "grow_max num newmax =
    (if num > newmax
     then grow_max num (if newmax \<noteq> 0 then (newmax * 2) mod 2 ^ 32 else 4)
     else Some newmax)"

definition array_preallocate :: "bool \<Rightarrow> 'a karray \<Rightarrow> nat \<Rightarrow> (errno + 'a karray) option" where
  "array_preallocate kmalloc a num =
    (if num > arr_max a then do {
       newmax \<leftarrow> grow_max num (arr_max a);
       if \<not> kmalloc then Some (Inl ENOMEM)
       else do {
         let newptr = replicate (((newmax * 4) mod 2 ^ 32) div 4) None;
         kassert (arr_num a \<le> length newptr);
         kassert (arr_num a \<le> length (arr_v a));
         Some (Inr (a\<lparr>arr_v := take (arr_num a) (arr_v a) @ drop (arr_num a) newptr,
                      arr_max := newmax\<rparr>))
       }
     }
     else Some (Inr a))"

definition array_setsize :: "bool \<Rightarrow> 'a karray \<Rightarrow> nat \<Rightarrow> (errno + 'a karray) option" where
  "array_setsize kmalloc a num =
     do {
       result \<leftarrow> array_preallocate kmalloc a num;
       case result of
         Inl e \<Rightarrow> Some (Inl e)
       | Inr a' \<Rightarrow> Some (Inr (a'\<lparr>arr_num := num\<rparr>))
     }"

definition array_add :: "bool \<Rightarrow> 'a karray \<Rightarrow> 'a \<Rightarrow> (errno + 'a karray \<times> nat) option" where
  "array_add kmalloc a val =
     do {
       let index = arr_num a;
       ret \<leftarrow> array_setsize kmalloc a ((index + 1) mod 2 ^ 32);
       case ret of
         Inl e \<Rightarrow> Some (Inl e)
       | Inr a' \<Rightarrow> do {
           v \<leftarrow> store (arr_v a') index (Some val);
           Some (Inr (a'\<lparr>arr_v := v\<rparr>, index))
         }
     }"

definition array_remove :: "'a karray \<Rightarrow> nat \<Rightarrow> 'a karray option" where
  "array_remove a index =
     do {
       kassert (arr_num a \<le> arr_max a);
       kassert (index < arr_num a);
       let num_to_move = arr_num a - (index + 1);
       kassert (index + 1 + num_to_move \<le> length (arr_v a));
       Some (a\<lparr>arr_v := take index (arr_v a) @ take num_to_move (drop (index + 1) (arr_v a)) @
                 drop (index + num_to_move) (arr_v a),
               arr_num := arr_num a - 1\<rparr>)
     }"

section \<open>The doubling loop\<close>

text \<open>Every capacity the code reaches is 0 or a power of two from 4 on.\<close>

definition cap_ok :: "nat \<Rightarrow> bool" where
  "cap_ok m \<longleftrightarrow> m = 0 \<or> (\<exists>k. 2 \<le> k \<and> k \<le> 31 \<and> m = 2 ^ k)"

lemma cap_ok_pow: "2 \<le> k \<Longrightarrow> k \<le> 31 \<Longrightarrow> cap_ok (2 ^ k)"
  by (auto simp: cap_ok_def)

lemma cap_ok_4: "cap_ok 4"
  using cap_ok_pow [of 2] by simp

lemma pow_le_31: "k \<le> 31 \<Longrightarrow> (2 :: nat) ^ k \<le> 2 ^ 31"
  by (rule power_increasing) auto

lemma grow_max_step: "newmax < num \<Longrightarrow> grow_max num newmax =
    grow_max num (if newmax \<noteq> 0 then (newmax * 2) mod 2 ^ 32 else 4)"
  by (simp add: grow_max.simps)

lemma grow_max_stop: "num \<le> newmax \<Longrightarrow> grow_max num newmax = Some newmax"
  by (simp add: grow_max.simps)

lemma grow_max_pow2:
  assumes "2 \<le> k" and "k \<le> 31" and "num \<le> 2 ^ 31"
  shows "\<exists>j. grow_max num (2 ^ k) = Some (2 ^ j) \<and> k \<le> j \<and> j \<le> 31 \<and> num \<le> 2 ^ j \<and>
    (2 ^ k < num \<longrightarrow> 2 ^ j < 2 * num)"
  using assms
proof (induction "31 - k" arbitrary: k)
  case 0
  then have "k = 31" by simp
  then show ?case using 0 by (intro exI [of _ 31]) (simp add: grow_max_stop)
next
  case (Suc n)
  show ?case
  proof (cases "num \<le> 2 ^ k")
    case True
    then show ?thesis using Suc.prems by (auto simp: grow_max_stop)
  next
    case False
    have k: "k < 31" and n: "n = 31 - Suc k" using Suc.hyps(2) by simp_all
    have "(2 :: nat) ^ Suc k \<le> 2 ^ 31" using k by (intro power_increasing) auto
    then have wrap: "(2 ^ k * 2) mod 2 ^ 32 = (2 :: nat) ^ Suc k" by (simp add: mult.commute)
    have step: "grow_max num (2 ^ k) = grow_max num (2 ^ Suc k)"
      using False by (subst grow_max_step) (simp_all add: wrap [simplified])
    obtain j where "grow_max num (2 ^ Suc k) = Some (2 ^ j)" "Suc k \<le> j" "j \<le> 31" "num \<le> 2 ^ j"
      "2 ^ Suc k < num \<longrightarrow> 2 ^ j < 2 * num"
      using Suc.hyps(1) [OF n] Suc.prems k by (auto simp del: power_Suc)
    moreover have "2 ^ j < 2 * num"
    proof (cases "2 ^ Suc k < num")
      case False
      have "grow_max num (2 ^ Suc k) = Some (2 ^ Suc k)" using False by (intro grow_max_stop) simp
      then have "j = Suc k" using calculation(1) by (simp del: power_Suc)
      then show ?thesis using \<open>\<not> num \<le> 2 ^ k\<close> by simp
    qed (use calculation(5) in simp)
    ultimately show ?thesis unfolding step by (intro exI [of _ j]) auto
  qed
qed

lemma grow_max_returns:
  assumes "cap_ok m" and "num \<le> 2 ^ 31"
  shows "\<exists>m'. grow_max num m = Some m' \<and> cap_ok m' \<and> num \<le> m' \<and> m \<le> m' \<and>
    (m < num \<longrightarrow> m' < 2 * num \<or> m' = 4)"
proof (cases "m = 0")
  case True
  show ?thesis
  proof (cases "num = 0")
    case True
    then show ?thesis using \<open>m = 0\<close> by (simp add: grow_max_stop cap_ok_def)
  next
    case False
    then have "grow_max num m = grow_max num (2 ^ 2)" using \<open>m = 0\<close> by (simp add: grow_max_step)
    moreover obtain j where "grow_max num (2 ^ 2) = Some (2 ^ j)" "2 \<le> j" "j \<le> 31" "num \<le> 2 ^ j"
      "2 ^ 2 < num \<longrightarrow> 2 ^ j < 2 * num"
      using grow_max_pow2 [of 2 num] assms(2) by auto
    moreover have "2 ^ j = (4 :: nat)" if "\<not> 4 < num"
      using that calculation(2) by (simp add: grow_max_stop)
    ultimately show ?thesis using \<open>m = 0\<close> by (cases "4 < num") (auto simp: cap_ok_pow cap_ok_4)
  qed
next
  case False
  then obtain k where k: "2 \<le> k" "k \<le> 31" "m = 2 ^ k" using assms(1) by (auto simp: cap_ok_def)
  obtain j where j: "grow_max num (2 ^ k) = Some (2 ^ j)" "k \<le> j" "j \<le> 31" "num \<le> 2 ^ j"
    "2 ^ k < num \<longrightarrow> 2 ^ j < 2 * num"
    using grow_max_pow2 [OF k(1,2) assms(2)] by auto
  moreover have "cap_ok (2 ^ j)" using j k by (auto simp: cap_ok_def)
  moreover have "(2 :: nat) ^ k \<le> 2 ^ j" using j(2) by (intro power_increasing) auto
  ultimately show ?thesis using k(3) by auto
qed

text \<open>Past \<open>2 ^ 31\<close> elements the capacity wraps to 0 and starts over, for ever.\<close>

lemma grow_max_returned:
  assumes "grow_max num m = Some m'"
  shows "cap_ok m \<longrightarrow> num \<le> 2 ^ 31"
proof (rule grow_max.raw_induct [where P = "\<lambda>num m m'. cap_ok m \<longrightarrow> num \<le> 2 ^ 31", OF _ assms])
  fix f num m m'
  assume IH: "\<And>num m m'. f num m = Some m' \<Longrightarrow> cap_ok m \<longrightarrow> num \<le> 2 ^ 31"
    and eq: "(if num > m then f num (if m \<noteq> 0 then (m * 2) mod 2 ^ 32 else 4) else Some m) = Some m'"
  show "cap_ok m \<longrightarrow> num \<le> 2 ^ 31"
  proof
    assume cap: "cap_ok m"
    let ?next = "if m \<noteq> 0 then (m * 2) mod 2 ^ 32 else 4"
    have bound: "m \<le> 2 ^ 31"
      using cap pow_le_31 by (auto simp: cap_ok_def)
    have "cap_ok ?next"
    proof (cases "m = 0")
      case True
      then show ?thesis by (simp add: cap_ok_4)
    next
      case False
      then obtain k where k: "2 \<le> k" "k \<le> 31" "m = 2 ^ k" using cap by (auto simp: cap_ok_def)
      show ?thesis
      proof (cases "k = 31")
        case True
        then show ?thesis using k by (simp add: cap_ok_def)
      next
        case False
        then have "(2 :: nat) ^ Suc k \<le> 2 ^ 31" using k by (intro power_increasing) auto
        then have "?next = 2 ^ Suc k" using k by (simp add: mult.commute)
        then show ?thesis using k False unfolding cap_ok_def
          by (intro disjI2 exI [of _ "Suc k"]) simp
      qed
    qed
    then show "num \<le> 2 ^ 31" using eq IH [of num ?next m'] bound
      by (cases "num > m") auto
  qed
qed

section \<open>Abstraction and invariant\<close>

text \<open>
  The array stands for the list of its first \<open>arr_num\<close> slots, which a client has all written.
  The capacity is below \<open>2 ^ 30\<close> where the byte count of the block does not wrap.
\<close>

definition arr_wf :: "'a karray \<Rightarrow> bool" where
  "arr_wf a \<longleftrightarrow> cap_ok (arr_max a) \<and> arr_max a < 2 ^ 30 \<and> arr_num a \<le> arr_max a \<and>
     length (arr_v a) = arr_max a \<and> None \<notin> set (take (arr_num a) (arr_v a))"

definition arr_list :: "'a karray \<Rightarrow> 'a list" where
  "arr_list a = map the (take (arr_num a) (arr_v a))"

lemma arr_wf_init: "arr_wf array_init"
  by (simp add: arr_wf_def array_init_def cap_ok_def)

lemma arr_list_init: "arr_list array_init = []"
  by (simp add: arr_list_def array_init_def)

lemma length_arr_list: "arr_wf a \<Longrightarrow> length (arr_list a) = arr_num a"
  by (simp add: arr_wf_def arr_list_def)

lemma arr_slot:
  assumes "arr_wf a" and "i < arr_num a"
  shows "arr_v a ! i = Some (arr_list a ! i)"
proof -
  have len: "i < length (take (arr_num a) (arr_v a))" using assms by (simp add: arr_wf_def)
  then have "take (arr_num a) (arr_v a) ! i \<noteq> None"
    using assms by (metis arr_wf_def nth_mem)
  then show ?thesis using assms len by (auto simp: arr_list_def)
qed

lemma array_get_spec:
  "arr_wf a \<Longrightarrow> array_get a i = (if i < length (arr_list a) then Some (Some (arr_list a ! i)) else None)"
  using arr_slot [of a i] by (auto simp: array_get_def length_arr_list kassert_def arr_wf_def)

lemma array_set_spec:
  assumes "arr_wf a" and "i < length (arr_list a)"
  shows "\<exists>a'. array_set a i x = Some a' \<and> arr_wf a' \<and> arr_list a' = (arr_list a)[i := x]"
proof -
  have i: "i < arr_num a" "i < length (arr_v a)"
    using assms by (auto simp: length_arr_list arr_wf_def)
  have "set ((take (arr_num a) (arr_v a))[i := Some x]) \<subseteq>
      insert (Some x) (set (take (arr_num a) (arr_v a)))"
    by (rule set_update_subset_insert)
  then show ?thesis using assms(1) i
    by (auto simp: array_set_def arr_wf_def arr_list_def take_update_swap map_update)
qed

lemma array_setsize_shrink:
  assumes "arr_wf a" and "n \<le> arr_num a"
  shows "\<exists>a'. array_setsize b a n = Some (Inr a') \<and> arr_wf a' \<and> arr_list a' = take n (arr_list a)"
proof -
  have n: "n \<le> arr_max a" using assms by (simp add: arr_wf_def)
  have "set (take n (arr_v a)) \<subseteq> set (take (arr_num a) (arr_v a))"
    using assms(2) by (rule set_take_subset_set_take)
  then show ?thesis using assms n
    by (auto simp: array_setsize_def array_preallocate_def arr_wf_def arr_list_def take_map min_def)
qed

lemma array_preallocate_spec:
  assumes "arr_wf a" and "num \<le> 2 ^ 28"
  shows "\<exists>a'. array_preallocate True a num = Some (Inr a') \<and> arr_wf a' \<and>
    arr_num a' = arr_num a \<and> arr_list a' = arr_list a \<and> num \<le> arr_max a'"
proof (cases "num > arr_max a")
  case False
  then show ?thesis using assms by (simp add: array_preallocate_def)
next
  case True
  have "cap_ok (arr_max a)" using assms(1) by (simp add: arr_wf_def)
  then obtain m where m: "grow_max num (arr_max a) = Some m" "cap_ok m" "num \<le> m" "arr_max a \<le> m"
    "m < 2 * num \<or> m = 4"
    using grow_max_returns [of "arr_max a" num] assms(2) True by auto
  have m30: "m < 2 ^ 30" using m(5) assms(2) by auto
  then have bytes: "((m * 4) mod 2 ^ 32) div 4 = m" by simp
  have num: "arr_num a \<le> m" "arr_num a \<le> length (arr_v a)" using assms(1) m(4) by (auto simp: arr_wf_def)
  let ?a = "a\<lparr>arr_v := take (arr_num a) (arr_v a) @ drop (arr_num a) (replicate m None),
      arr_max := m\<rparr>"
  have "array_preallocate True a num = Some (Inr ?a)"
    using True m(1) num bytes by (simp add: array_preallocate_def)
  moreover have "arr_wf ?a" using assms(1) num m(2) m30 by (simp add: arr_wf_def)
  ultimately show ?thesis using m(3) num by (simp add: arr_list_def)
qed

lemma array_add_spec:
  assumes "arr_wf a" and "length (arr_list a) < 2 ^ 28"
  shows "\<exists>a'. array_add True a x = Some (Inr (a', length (arr_list a))) \<and> arr_wf a' \<and>
    arr_list a' = arr_list a @ [x]"
proof -
  let ?n = "arr_num a"
  have n: "?n < 2 ^ 28" "(?n + 1) mod 2 ^ 32 = Suc ?n" using assms by (auto simp: length_arr_list)
  obtain a1 where a1: "array_preallocate True a (Suc ?n) = Some (Inr a1)" "arr_wf a1"
    "arr_num a1 = ?n" "arr_list a1 = arr_list a" "Suc ?n \<le> arr_max a1"
    using array_preallocate_spec [OF assms(1), of "Suc ?n"] n by auto
  let ?a = "a1\<lparr>arr_num := Suc ?n, arr_v := (arr_v a1)[?n := Some x]\<rparr>"
  have len: "?n < length (arr_v a1)" using a1(2,5) by (simp add: arr_wf_def)
  have run: "array_add True a x = Some (Inr (?a, ?n))"
    using a1(1) n(2) len by (simp add: array_add_def array_setsize_def Let_def)
  have "take (Suc ?n) (arr_v ?a) = take ?n (arr_v a1) @ [Some x]"
    using len by (simp add: take_Suc_conv_app_nth)
  then have "arr_wf ?a" "arr_list ?a = arr_list a1 @ [x]"
    using a1 len by (simp_all add: arr_wf_def arr_list_def del: take_Suc)
  then show ?thesis using run a1(4) assms(1) by (simp add: length_arr_list)
qed

text \<open>When \<^verbatim>\<open>kmalloc\<close> fails the array is untouched; it is only asked when there is no room.\<close>

lemma array_add_nomem:
  assumes "arr_wf a" and "length (arr_list a) < 2 ^ 28"
  shows "array_add False a x = Some (Inl ENOMEM) \<and> arr_num a = arr_max a \<or>
    array_add False a x = array_add True a x \<and> arr_num a < arr_max a"
proof (cases "arr_num a = arr_max a")
  case True
  obtain m where "grow_max (Suc (arr_num a)) (arr_max a) = Some m"
    using grow_max_returns [of "arr_max a" "Suc (arr_num a)"] assms
    by (auto simp: arr_wf_def length_arr_list)
  then show ?thesis using True assms
    by (simp add: array_add_def array_setsize_def array_preallocate_def length_arr_list)
next
  case False
  then have "arr_num a < arr_max a" using assms(1) by (simp add: arr_wf_def)
  then show ?thesis using assms
    by (simp add: array_add_def array_setsize_def array_preallocate_def length_arr_list)
qed

lemma array_remove_spec:
  assumes "arr_wf a" and "i < length (arr_list a)"
  shows "\<exists>a'. array_remove a i = Some a' \<and> arr_wf a' \<and>
    arr_list a' = take i (arr_list a) @ drop (Suc i) (arr_list a)"
proof -
  let ?n = "arr_num a" and ?v = "arr_v a"
  let ?m = "?n - (i + 1)"
  have i: "i < ?n" "?n \<le> length ?v" "?n \<le> arr_max a"
    using assms by (auto simp: length_arr_list arr_wf_def)
  let ?a = "a\<lparr>arr_v := take i ?v @ take ?m (drop (i + 1) ?v) @ drop (i + ?m) ?v,
      arr_num := ?n - 1\<rparr>"
  have run: "array_remove a i = Some ?a" using i by (simp add: array_remove_def)
  have pre: "take (?n - 1) (arr_v ?a) = take i (take ?n ?v) @ drop (Suc i) (take ?n ?v)"
  proof -
    let ?A = "take i ?v" and ?B = "take ?m (drop (i + 1) ?v)"
    have len: "?n - 1 = length (?A @ ?B)" using i by simp
    have "arr_v ?a = (?A @ ?B) @ drop (i + ?m) ?v" by simp
    then have "take (?n - 1) (arr_v ?a) = ?A @ ?B" using take_exact [OF len] by simp
    then show ?thesis using i by (simp add: drop_take min_def)
  qed
  have "set (take (?n - 1) (arr_v ?a)) \<subseteq> set (take ?n ?v)"
    unfolding pre using set_take_subset [of i "take ?n ?v"] set_drop_subset [of "Suc i" "take ?n ?v"]
    by simp
  then have "arr_wf ?a" using assms(1) i by (auto simp: arr_wf_def)
  moreover have "arr_list ?a = take i (arr_list a) @ drop (Suc i) (arr_list a)"
  proof -
    have "arr_list ?a = map the (take (?n - 1) (arr_v ?a))" by (simp add: arr_list_def)
    then show ?thesis unfolding pre by (simp add: arr_list_def take_map drop_map)
  qed
  ultimately show ?thesis using run by blast
qed

lemma array_cleanup_spec: "arr_wf a \<Longrightarrow> array_cleanup a = None \<longleftrightarrow> arr_list a \<noteq> []"
  by (auto simp: array_cleanup_def kassert_def length_arr_list [symmetric])

section \<open>The vector a process relies on\<close>

interpretation karr: vector arr_wf arr_list array_num "2 ^ 28" array_get array_add array_remove
proof unfold_locales
  show "array_num v = length (arr_list v)" if "arr_wf v" for v :: "'a karray"
    using that by (simp add: array_num_def length_arr_list)
  show "array_add False v x = Some (Inl ENOMEM) \<or> array_add False v x = array_add True v x"
    if "arr_wf v" "length (arr_list v) < 2 ^ 28" for v :: "'a karray" and x
    using array_add_nomem [OF that] by blast
qed (simp_all add: array_get_spec array_add_spec array_remove_spec)

section \<open>Properties\<close>

text \<open>Array_add on a well-formed array returns the old length as index and appends the
  element, keeping the array well-formed, whether or not the array had to grow; if the
  allocation fails the call reports ENOMEM, and only when the array was full.\<close>

theorem array_add_appends:
  assumes "arr_wf a" and "length (arr_list a) < 2 ^ 28"
  shows "(\<exists>a'. array_add True a x = Some (Inr (a', length (arr_list a))) \<and> arr_wf a' \<and>
      arr_list a' = arr_list a @ [x]) \<and>
    (if arr_num a = arr_max a then array_add False a x = Some (Inl ENOMEM)
     else array_add False a x = array_add True a x)"
  using array_add_spec [OF assms, of x] array_add_nomem [OF assms, of x] by auto

theorem array_add_appends_witness:
  "arr_wf (array_init :: nat karray) \<and>
   (\<exists>a'. array_add True array_init (7 :: nat) = Some (Inr (a', 0)) \<and> arr_list a' = [7])"
  using array_add_appends [of "array_init :: nat karray" 7]
  by (auto simp: arr_wf_init arr_list_init)

text \<open>Array_remove of an index in range keeps the array well-formed and closes the gap: the
  elements after the index move down by one and the others stay.\<close>

theorem array_remove_closes_gap:
  assumes "arr_wf a" and "arr_list a = xs @ y # ys"
  shows "\<exists>a'. array_remove a (length xs) = Some a' \<and> arr_wf a' \<and> arr_list a' = xs @ ys"
  using array_remove_spec [OF assms(1), of "length xs"] assms(2) by simp

theorem array_remove_closes_gap_witness:
  "\<exists>a. arr_wf a \<and> arr_list a = [3, 4 :: nat] \<and>
     (\<exists>a'. array_remove a 0 = Some a' \<and> arr_list a' = [4])"
proof -
  let ?a = "\<lparr>arr_v = [Some 3, Some 4, None, None], arr_num = 2, arr_max = 4\<rparr> :: nat karray"
  have wf: "arr_wf ?a" by (simp add: arr_wf_def cap_ok_4)
  have xs: "arr_list ?a = [] @ 3 # [4]" by (simp add: arr_list_def)
  show ?thesis using array_remove_closes_gap [OF wf xs] wf xs by (intro exI [of _ ?a]) auto
qed

text \<open>C26: array_preallocate does not return when more than \<open>2 ^ 31\<close> elements are asked for: the
  capacity doubles to \<open>2 ^ 31\<close>, wraps around to 0, and starts again from 4.\<close>

theorem array_preallocate_diverges:
  assumes "arr_wf a" and "2 ^ 31 < num"
  shows "array_preallocate kmalloc a num = None"
proof -
  have "grow_max num (arr_max a) = None"
    using grow_max_returned [of num "arr_max a"] assms
    by (cases "grow_max num (arr_max a)") (auto simp: arr_wf_def)
  moreover have "arr_max a < num" using assms by (simp add: arr_wf_def)
  ultimately show ?thesis by (simp add: array_preallocate_def)
qed

theorem array_preallocate_diverges_witness:
  "arr_wf (array_init :: nat karray) \<and>
   array_preallocate True (array_init :: nat karray) (2 ^ 31 + 1) = None"
  using array_preallocate_diverges [of "array_init :: nat karray" "2 ^ 31 + 1"]
  by (simp add: arr_wf_init)

end
