(* ===== verification/Spinlock.thy ===== *)
theory Spinlock
  imports OS_Prelude
begin

text \<open>
  \<^verbatim>\<open>kern/thread/spl.c\<close>, \<^verbatim>\<open>kern/include/spl.h\<close> and \<^verbatim>\<open>kern/thread/spinlock.c\<close>. The first half
  translates the functions as the current CPU runs them: interrupt levels are counted per
  thread, a spinlock is a memory word and a holder, and the wait loop of
  \<^verbatim>\<open>spinlock_acquire\<close> reads the word as the other CPUs leave it, given as a sequence of
  observations; \<open>None\<close> is a panic, a failed assertion or a wait that does not end. The second half
  is the interleaving of any number of CPUs, one memory access per step, and proves mutual
  exclusion.
\<close>

text \<open>The state of the current CPU and of the thread it runs: \<^verbatim>\<open>struct cpu\<close> and the interrupt
  fields of \<^verbatim>\<open>struct thread\<close>. \<open>irq_on\<close> is the hardware's state, which \<^verbatim>\<open>cpu_irqoff\<close> and
  \<^verbatim>\<open>cpu_irqon\<close> set.\<close>

record cpu_view =
  cpu_exists :: bool
  c_self :: nat
  c_spinlocks :: nat
  t_curspl :: int
  t_iplhigh_count :: int
  irq_on :: bool

record spinlock =
  splk_lock :: nat
  splk_holder :: "nat option"

abbreviation (input) IPL_NONE :: int where "IPL_NONE \<equiv> 0"
abbreviation (input) IPL_HIGH :: int where "IPL_HIGH \<equiv> 1"

definition splraise :: "int \<Rightarrow> int \<Rightarrow> cpu_view \<Rightarrow> cpu_view option" where
  "splraise oldspl newspl c =
     do {
       kassert (oldspl = IPL_NONE);
       kassert (newspl = IPL_HIGH);
       if \<not> cpu_exists c then Some c
       else let c = (if t_iplhigh_count c = 0 then c\<lparr>irq_on := False\<rparr> else c)
            in Some (c\<lparr>t_iplhigh_count := t_iplhigh_count c + 1\<rparr>)
     }"

definition spllower :: "int \<Rightarrow> int \<Rightarrow> cpu_view \<Rightarrow> cpu_view option" where
  "spllower oldspl newspl c =
     do {
       kassert (oldspl = IPL_HIGH);
       kassert (newspl = IPL_NONE);
       if \<not> cpu_exists c then Some c
       else let c = c\<lparr>t_iplhigh_count := t_iplhigh_count c - 1\<rparr>
            in Some (if t_iplhigh_count c = 0 then c\<lparr>irq_on := True\<rparr> else c)
     }"

definition splx :: "int \<Rightarrow> cpu_view \<Rightarrow> (int \<times> cpu_view) option" where
  "splx spl c =
    (if \<not> cpu_exists c then Some (spl, c)
     else if t_curspl c < spl then do {
       c' \<leftarrow> splraise (t_curspl c) spl c;
       Some (t_curspl c', c'\<lparr>t_curspl := spl\<rparr>)
     }
     else if t_curspl c > spl then do {
       let ret = t_curspl c;
       c' \<leftarrow> spllower ret spl (c\<lparr>t_curspl := spl\<rparr>);
       Some (ret, c')
     }
     else Some (spl, c))"

definition spl0 :: "cpu_view \<Rightarrow> (int \<times> cpu_view) option" where
  "spl0 c = splx IPL_NONE c"

definition splhigh :: "cpu_view \<Rightarrow> (int \<times> cpu_view) option" where
  "splhigh c = splx IPL_HIGH c"

definition spinlock_init :: "spinlock" where
  "spinlock_init = \<lparr>splk_lock = 0, splk_holder = None\<rparr>"

definition spinlock_cleanup :: "spinlock \<Rightarrow> unit option" where
  "spinlock_cleanup k =
     do { kassert (splk_holder k = None); kassert (splk_lock k = 0); Some () }"

text \<open>
  The wait loop: in its \<open>n\<close>th round the CPU reads \<open>fst (obs n)\<close> in the word and, if that is 0,
  its test-and-set returns \<open>snd (obs n)\<close>.
\<close>

partial_function (option) spin :: "(nat \<Rightarrow> nat \<times> nat) \<Rightarrow> nat \<Rightarrow> nat option" where
  "spin obs n =
    (if fst (obs n) \<noteq> 0 then spin obs (Suc n)
     else if snd (obs n) \<noteq> 0 then spin obs (Suc n)
     else Some n)"

definition spinlock_acquire ::
  "(nat \<Rightarrow> nat \<times> nat) \<Rightarrow> spinlock \<times> cpu_view \<Rightarrow> (spinlock \<times> cpu_view) option" where
  "spinlock_acquire obs = (\<lambda>(k, c). do {
     c \<leftarrow> splraise IPL_NONE IPL_HIGH c;
     (mycpu, c) \<leftarrow>
       (if cpu_exists c
        then do {
          kassert (splk_holder k \<noteq> Some (c_self c));
          Some (Some (c_self c), c\<lparr>c_spinlocks := c_spinlocks c + 1\<rparr>)
        }
        else Some (None, c));
     _ \<leftarrow> spin obs 0;
     Some (k\<lparr>splk_lock := 1, splk_holder := mycpu\<rparr>, c)
   })"

definition spinlock_release :: "spinlock \<times> cpu_view \<Rightarrow> (spinlock \<times> cpu_view) option" where
  "spinlock_release = (\<lambda>(k, c). do {
     c \<leftarrow>
       (if cpu_exists c
        then do {
          kassert (splk_holder k = Some (c_self c));
          kassert (c_spinlocks c > 0);
          Some (c\<lparr>c_spinlocks := c_spinlocks c - 1\<rparr>)
        }
        else Some c);
     let k = k\<lparr>splk_holder := None, splk_lock := 0\<rparr>;
     c \<leftarrow> spllower IPL_HIGH IPL_NONE c;
     Some (k, c)
   })"

definition spinlock_do_i_hold :: "spinlock \<Rightarrow> cpu_view \<Rightarrow> bool" where
  "spinlock_do_i_hold k c = (if \<not> cpu_exists c then True else splk_holder k = Some (c_self c))"

text \<open>What the CPU observes when no other CPU touches the lock: the word itself.\<close>

definition quiet :: "spinlock \<Rightarrow> nat \<Rightarrow> nat \<times> nat" where
  "quiet k n = (splk_lock k, splk_lock k)"

section \<open>The wait loop\<close>

lemma spin_stops:
  assumes "obs m = (0, 0)" and "n \<le> m"
  shows "\<exists>k. spin obs n = Some k \<and> n \<le> k \<and> k \<le> m"
  using assms
proof (induction "m - n" arbitrary: n)
  case 0
  then show ?case by (simp add: spin.simps)
next
  case (Suc d)
  have d: "d = m - Suc n" "Suc n \<le> m" using Suc.hyps(2) by simp_all
  show ?case
  proof (cases "obs n = (0, 0)")
    case True
    then show ?thesis using Suc.prems by (simp add: spin.simps)
  next
    case False
    then have "spin obs n = spin obs (Suc n)" by (cases "obs n") (auto simp: spin.simps [of obs n])
    then show ?thesis using Suc.hyps(1) [OF d(1) Suc.prems(1) d(2)] by auto
  qed
qed

lemma spin_SomeD: "spin obs n = Some k \<Longrightarrow> obs k = (0, 0)"
proof (rule spin.raw_induct [where P = "\<lambda>obs n k. obs k = (0, 0)"])
  fix f obs n k
  assume IH: "\<And>obs n k. f obs n = Some k \<Longrightarrow> obs k = (0 :: nat, 0 :: nat)"
    and eq: "(if fst (obs n) \<noteq> 0 then f obs (Suc n)
      else if snd (obs n) \<noteq> 0 then f obs (Suc n) else Some n) = Some k"
  then show "obs k = (0, 0)" by (cases "obs n") (auto split: if_splits)
qed

lemma spin_quiet: "spin (quiet k) n = (if splk_lock k = 0 then Some n else None)"
proof (cases "splk_lock k = 0")
  case True
  then show ?thesis by (simp add: spin.simps quiet_def)
next
  case False
  then have "\<And>m. spin (quiet k) n \<noteq> Some m" using spin_SomeD by (fastforce simp: quiet_def)
  then show ?thesis using False by (cases "spin (quiet k) n") auto
qed

section \<open>Interrupts\<close>

text \<open>
  The raised level counts the spinlocks held and the explicit level, and interrupts are on
  exactly when nothing is raised.
\<close>

definition spl_inv :: "cpu_view \<Rightarrow> bool" where
  "spl_inv c \<longleftrightarrow> cpu_exists c \<and> (t_curspl c = 0 \<or> t_curspl c = 1) \<and>
     t_iplhigh_count c = int (c_spinlocks c) + t_curspl c \<and>
     (irq_on c \<longleftrightarrow> t_iplhigh_count c = 0)"

lemma splx_inv:
  assumes "spl_inv c" and "s = 0 \<or> s = 1"
  shows "\<exists>c'. splx s c = Some (t_curspl c, c') \<and> spl_inv c' \<and> t_curspl c' = s \<and>
    c_spinlocks c' = c_spinlocks c"
  using assms by (auto simp: spl_inv_def splx_def splraise_def spllower_def Let_def)

lemma spinlock_acquire_inv:
  assumes "spl_inv c" and "splk_holder k \<noteq> Some (c_self c)" and "obs m = (0, 0)"
  shows "\<exists>c'. spinlock_acquire obs (k, c) =
      Some (\<lparr>splk_lock = 1, splk_holder = Some (c_self c)\<rparr>, c') \<and> spl_inv c' \<and>
      c_spinlocks c' = Suc (c_spinlocks c) \<and> t_curspl c' = t_curspl c \<and> \<not> irq_on c' \<and>
      c_self c' = c_self c"
proof -
  obtain n where "spin obs 0 = Some n" using spin_stops [of obs m 0] assms(3) by auto
  then show ?thesis using assms(1,2)
    by (auto simp: spl_inv_def spinlock_acquire_def splraise_def Let_def)
qed

lemma spinlock_acquire_deadlock:
  assumes "cpu_exists c" and "splk_holder k = Some (c_self c)"
  shows "spinlock_acquire obs (k, c) = None"
  using assms by (auto simp: spinlock_acquire_def splraise_def Let_def)

lemma spinlock_release_inv:
  assumes "spl_inv c" and "splk_holder k = Some (c_self c)" and "0 < c_spinlocks c"
  shows "\<exists>c'. spinlock_release (k, c) = Some (spinlock_init, c') \<and> spl_inv c' \<and>
      Suc (c_spinlocks c') = c_spinlocks c \<and> t_curspl c' = t_curspl c \<and> c_self c' = c_self c"
  using assms by (cases k) (auto simp: spl_inv_def spinlock_release_def spllower_def Let_def spinlock_init_def)

text \<open>Any interleaving of the calls a CPU makes: locks are named by numbers.\<close>

datatype spl_call = Acquire nat | Release nat | Splx int

fun spl_run :: "spl_call list \<Rightarrow> (nat \<Rightarrow> spinlock) \<times> cpu_view \<Rightarrow> ((nat \<Rightarrow> spinlock) \<times> cpu_view) option" where
  "spl_run [] s = Some s"
| "spl_run (Acquire i # cs) (ks, c) =
     do { (k, c) \<leftarrow> spinlock_acquire (quiet (ks i)) (ks i, c); spl_run cs (ks(i := k), c) }"
| "spl_run (Release i # cs) (ks, c) =
     do { (k, c) \<leftarrow> spinlock_release (ks i, c); spl_run cs (ks(i := k), c) }"
| "spl_run (Splx s # cs) (ks, c) =
     do { (_, c) \<leftarrow> splx s c; spl_run cs (ks, c) }"

text \<open>The locks that a sequence of calls leaves held, \<open>None\<close> if it takes a lock twice, gives back
  one it does not hold or names a level that does not exist.\<close>

fun held_after :: "spl_call list \<Rightarrow> nat set \<Rightarrow> nat set option" where
  "held_after [] H = Some H"
| "held_after (Acquire i # cs) H = (if i \<in> H then None else held_after cs (insert i H))"
| "held_after (Release i # cs) H = (if i \<in> H then held_after cs (H - {i}) else None)"
| "held_after (Splx s # cs) H = (if s = 0 \<or> s = 1 then held_after cs H else None)"

definition holds_exactly :: "nat set \<Rightarrow> (nat \<Rightarrow> spinlock) \<Rightarrow> cpu_view \<Rightarrow> bool" where
  "holds_exactly H ks c \<longleftrightarrow> finite H \<and> c_spinlocks c = card H \<and>
     (\<forall>i. ks i = (if i \<in> H then \<lparr>splk_lock = 1, splk_holder = Some (c_self c)\<rparr> else spinlock_init))"

lemma spl_run_inv:
  assumes "spl_inv c" and "holds_exactly H ks c" and "held_after cs H = Some H'"
  shows "\<exists>ks' c'. spl_run cs (ks, c) = Some (ks', c') \<and> spl_inv c' \<and> holds_exactly H' ks' c'"
  using assms
proof (induction cs arbitrary: ks c H)
  case Nil
  then show ?case by simp
next
  case (Cons call cs)
  show ?case
  proof (cases call)
    case (Acquire i)
    then have i: "i \<notin> H" "held_after cs (insert i H) = Some H'"
      using Cons.prems(3) by (auto split: if_splits)
    have free: "ks i = spinlock_init" using Cons.prems(2) i(1) by (simp add: holds_exactly_def)
    obtain c1 where c1: "spinlock_acquire (quiet (ks i)) (ks i, c) =
        Some (\<lparr>splk_lock = 1, splk_holder = Some (c_self c)\<rparr>, c1)" "spl_inv c1"
      "c_spinlocks c1 = Suc (c_spinlocks c)" "c_self c1 = c_self c"
      using spinlock_acquire_inv [OF Cons.prems(1), of "ks i" "quiet (ks i)" 0] free
      by (auto simp: quiet_def spinlock_init_def)
    have "holds_exactly (insert i H) (ks(i := \<lparr>splk_lock = 1, splk_holder = Some (c_self c)\<rparr>)) c1"
      using Cons.prems(2) c1(3,4) i(1) by (auto simp: holds_exactly_def)
    then have "\<exists>ks' c'. spl_run cs (ks(i := \<lparr>splk_lock = 1, splk_holder = Some (c_self c)\<rparr>), c1) =
        Some (ks', c') \<and> spl_inv c' \<and> holds_exactly H' ks' c'"
      by (rule Cons.IH [OF c1(2) _ i(2)])
    then show ?thesis using Acquire c1(1) by simp
  next
    case (Release i)
    then have i: "i \<in> H" "held_after cs (H - {i}) = Some H'"
      using Cons.prems(3) by (auto split: if_splits)
    have ki: "ks i = \<lparr>splk_lock = 1, splk_holder = Some (c_self c)\<rparr>" and card: "0 < c_spinlocks c"
      using Cons.prems(2) i(1) by (auto simp: holds_exactly_def card_gt_0_iff)
    obtain c1 where c1: "spinlock_release (ks i, c) = Some (spinlock_init, c1)" "spl_inv c1"
      "Suc (c_spinlocks c1) = c_spinlocks c" "c_self c1 = c_self c"
      using spinlock_release_inv [OF Cons.prems(1) _ card, of "ks i"] ki by auto
    have "holds_exactly (H - {i}) (ks(i := spinlock_init)) c1"
      using Cons.prems(2) c1(3,4) i(1) by (auto simp: holds_exactly_def card_Diff_singleton)
    then have "\<exists>ks' c'. spl_run cs (ks(i := spinlock_init), c1) = Some (ks', c') \<and> spl_inv c' \<and>
        holds_exactly H' ks' c'"
      by (rule Cons.IH [OF c1(2) _ i(2)])
    then show ?thesis using Release c1(1) by simp
  next
    case (Splx s)
    then have s: "s = 0 \<or> s = 1" "held_after cs H = Some H'"
      using Cons.prems(3) by (auto split: if_splits)
    obtain c1 where c1: "splx s c = Some (t_curspl c, c1)" "spl_inv c1"
      "c_spinlocks c1 = c_spinlocks c"
      using splx_inv [OF Cons.prems(1) s(1)] by auto
    moreover have "c_self c1 = c_self c"
      using c1(1) Cons.prems(1) s(1)
      by (auto simp: splx_def splraise_def spllower_def Let_def spl_inv_def kassert_def split: if_splits)
    ultimately have "holds_exactly H ks c1" using Cons.prems(2) by (simp add: holds_exactly_def)
    from Cons.IH [OF c1(2) this s(2)] show ?thesis using Splx c1(1) by simp
  qed
qed

section \<open>Several CPUs\<close>

text \<open>
  One spinlock and any number of CPUs. A CPU outside (\<open>Out\<close>) reads the word (\<open>Test\<close>), tries the
  test-and-set (\<open>Tas\<close>), and once it got the word writes the holder (\<open>Got\<close>) and is inside
  (\<open>Held\<close>); on release it clears the holder (\<open>Clr\<close>) and then the word. Each step is one access
  to the shared memory.
\<close>

datatype spl_pc = Out | Test | Tas | Got | Held | Clr

record spl_sys =
  sp_lock :: spinlock
  sp_pc :: "nat \<Rightarrow> spl_pc"

definition move :: "nat \<Rightarrow> spl_pc \<Rightarrow> spl_sys \<Rightarrow> spl_sys" where
  "move i p s = s\<lparr>sp_pc := (sp_pc s)(i := p)\<rparr>"

inductive spl_step :: "spl_sys \<Rightarrow> spl_sys \<Rightarrow> bool" where
  enter: "sp_pc s i = Out \<Longrightarrow> splk_holder (sp_lock s) \<noteq> Some i \<Longrightarrow> spl_step s (move i Test s)"
| test_busy: "sp_pc s i = Test \<Longrightarrow> splk_lock (sp_lock s) \<noteq> 0 \<Longrightarrow> spl_step s s"
| test_free: "sp_pc s i = Test \<Longrightarrow> splk_lock (sp_lock s) = 0 \<Longrightarrow> spl_step s (move i Tas s)"
| tas_busy: "sp_pc s i = Tas \<Longrightarrow> splk_lock (sp_lock s) \<noteq> 0 \<Longrightarrow>
    spl_step s (move i Test (s\<lparr>sp_lock := (sp_lock s)\<lparr>splk_lock := 1\<rparr>\<rparr>))"
| tas_got: "sp_pc s i = Tas \<Longrightarrow> splk_lock (sp_lock s) = 0 \<Longrightarrow>
    spl_step s (move i Got (s\<lparr>sp_lock := (sp_lock s)\<lparr>splk_lock := 1\<rparr>\<rparr>))"
| set_holder: "sp_pc s i = Got \<Longrightarrow>
    spl_step s (move i Held (s\<lparr>sp_lock := (sp_lock s)\<lparr>splk_holder := Some i\<rparr>\<rparr>))"
| clear_holder: "sp_pc s i = Held \<Longrightarrow>
    spl_step s (move i Clr (s\<lparr>sp_lock := (sp_lock s)\<lparr>splk_holder := None\<rparr>\<rparr>))"
| clear_word: "sp_pc s i = Clr \<Longrightarrow>
    spl_step s (move i Out (s\<lparr>sp_lock := (sp_lock s)\<lparr>splk_lock := 0\<rparr>\<rparr>))"

inductive spl_reach :: "spl_sys \<Rightarrow> bool" where
  start: "spl_reach \<lparr>sp_lock = spinlock_init, sp_pc = (\<lambda>_. Out)\<rparr>"
| step: "spl_reach s \<Longrightarrow> spl_step s t \<Longrightarrow> spl_reach t"

definition inside :: "spl_pc \<Rightarrow> bool" where
  "inside p \<longleftrightarrow> p = Got \<or> p = Held \<or> p = Clr"

text \<open>The CPU that owns the word, if any, is the only one inside.\<close>

definition owned_by :: "nat option \<Rightarrow> spl_sys \<Rightarrow> bool" where
  "owned_by own s \<longleftrightarrow> (\<forall>i. inside (sp_pc s i) \<longleftrightarrow> own = Some i) \<and>
     splk_lock (sp_lock s) = (if own = None then 0 else 1) \<and>
     (\<forall>i. splk_holder (sp_lock s) = Some i \<longleftrightarrow> sp_pc s i = Held)"

lemma owned_by_pc: "owned_by own s \<Longrightarrow> inside (sp_pc s i) \<Longrightarrow> own = Some i"
  by (simp add: owned_by_def)

lemma owned_by_free: "owned_by own s \<Longrightarrow> splk_lock (sp_lock s) = 0 \<Longrightarrow> own = None"
  by (auto simp: owned_by_def split: if_splits)

lemma owned_by_busy: "owned_by own s \<Longrightarrow> splk_lock (sp_lock s) \<noteq> 0 \<Longrightarrow> splk_lock (sp_lock s) = 1"
  by (auto simp: owned_by_def split: if_splits)

lemma owned_by_outside:
  "owned_by own s \<Longrightarrow> \<not> inside (sp_pc s i) \<Longrightarrow> \<not> inside p \<Longrightarrow> owned_by own (move i p s)"
  by (auto simp: owned_by_def move_def inside_def)

lemma owned_by_enter:
  "owned_by None s \<Longrightarrow> inside p \<Longrightarrow> p \<noteq> Held \<Longrightarrow>
     owned_by (Some i) (move i p (s\<lparr>sp_lock := (sp_lock s)\<lparr>splk_lock := 1\<rparr>\<rparr>))"
  by (auto simp: owned_by_def move_def inside_def)

lemma owned_by_hold:
  "owned_by (Some i) s \<Longrightarrow>
     owned_by (Some i) (move i Held (s\<lparr>sp_lock := (sp_lock s)\<lparr>splk_holder := Some i\<rparr>\<rparr>))"
  by (auto simp: owned_by_def move_def inside_def)

lemma owned_by_unhold:
  "owned_by (Some i) s \<Longrightarrow>
     owned_by (Some i) (move i Clr (s\<lparr>sp_lock := (sp_lock s)\<lparr>splk_holder := None\<rparr>\<rparr>))"
  by (auto simp: owned_by_def move_def inside_def)

lemma owned_by_leave:
  "owned_by (Some i) s \<Longrightarrow> sp_pc s i \<noteq> Held \<Longrightarrow>
     owned_by None (move i Out (s\<lparr>sp_lock := (sp_lock s)\<lparr>splk_lock := 0\<rparr>\<rparr>))"
  by (auto simp: owned_by_def move_def inside_def)

lemma spl_step_owned: "spl_step s t \<Longrightarrow> owned_by own s \<Longrightarrow> \<exists>own'. owned_by own' t"
proof (induction rule: spl_step.induct)
  case (tas_got s i)
  then have "own = None" by (blast intro: owned_by_free)
  then show ?case using owned_by_enter [of s Got i] tas_got by (auto simp: inside_def)
next
  case (set_holder s i)
  then have "own = Some i" using owned_by_pc [of own s i] by (simp add: inside_def)
  then show ?case using owned_by_hold set_holder by blast
next
  case (clear_holder s i)
  then have "own = Some i" using owned_by_pc [of own s i] by (simp add: inside_def)
  then show ?case using owned_by_unhold clear_holder by blast
next
  case (clear_word s i)
  then have "own = Some i" using owned_by_pc [of own s i] by (simp add: inside_def)
  then show ?case using owned_by_leave [of i s] clear_word by auto
next
  case (tas_busy s i)
  then have "splk_lock (sp_lock s) = 1" by (blast intro: owned_by_busy)
  then have "s\<lparr>sp_lock := (sp_lock s)\<lparr>splk_lock := 1\<rparr>\<rparr> = s" by simp
  then show ?case using owned_by_outside [of own s i Test] tas_busy by (auto simp: inside_def)
next
  case (enter s i)
  then show ?case using owned_by_outside [of own s i Test] by (auto simp: inside_def)
next
  case (test_free s i)
  then show ?case using owned_by_outside [of own s i Tas] by (auto simp: inside_def)
qed blast

lemma spl_reach_owned: "spl_reach s \<Longrightarrow> \<exists>own. owned_by own s"
proof (induction rule: spl_reach.induct)
  case start
  show ?case by (intro exI [of _ None]) (simp add: owned_by_def inside_def spinlock_init_def)
qed (blast intro: spl_step_owned)

section \<open>Properties\<close>

text \<open>C27: whatever the order in which a CPU takes spinlocks, gives them back and changes its
  interrupt level, nested or not, no assertion fires as long as it takes no lock twice and gives
  back only what it holds; and interrupts end up enabled exactly when it holds no spinlock and
  its level is IPL_NONE.\<close>

theorem spl_calls_irq:
  assumes "spl_inv c" and "holds_exactly H ks c" and "held_after cs H = Some H'"
  shows "\<exists>ks' c'. spl_run cs (ks, c) = Some (ks', c') \<and> holds_exactly H' ks' c' \<and>
    (irq_on c' \<longleftrightarrow> H' = {} \<and> t_curspl c' = IPL_NONE)"
proof -
  obtain ks' c' where r: "spl_run cs (ks, c) = Some (ks', c')" "spl_inv c'" "holds_exactly H' ks' c'"
    using spl_run_inv [OF assms] by blast
  moreover have "irq_on c' \<longleftrightarrow> H' = {} \<and> t_curspl c' = 0"
    using r(2,3) by (auto simp: spl_inv_def holds_exactly_def)
  ultimately show ?thesis by blast
qed

theorem spl_calls_irq_witness:
  "\<exists>ks' c'. spl_run [Acquire 0, Splx 1, Acquire 1, Splx 0, Release 0, Release 1]
      (\<lambda>_. spinlock_init, \<lparr>cpu_exists = True, c_self = 0, c_spinlocks = 0, t_curspl = 0,
        t_iplhigh_count = 0, irq_on = True\<rparr>) = Some (ks', c') \<and> irq_on c' = (t_curspl c' = 0)"
proof -
  let ?c = "\<lparr>cpu_exists = True, c_self = 0, c_spinlocks = 0, t_curspl = 0,
        t_iplhigh_count = 0, irq_on = True\<rparr>"
  have "spl_inv ?c" "holds_exactly {} (\<lambda>_. spinlock_init) ?c"
    by (simp_all add: spl_inv_def holds_exactly_def)
  from spl_calls_irq [OF this, of "[Acquire 0, Splx 1, Acquire 1, Splx 0, Release 0, Release 1]"]
  show ?thesis by (auto simp: insert_Diff_if)
qed

text \<open>C5: mutual exclusion of spinlocks under any interleaving of the CPUs' memory accesses: two
  CPUs are never both between a successful test-and-set and the clearing of the word, and the
  recorded holder is exactly the CPU inside, so the deadlock panic fires only for a CPU that
  already holds the lock.\<close>

theorem spinlock_mutual_exclusion:
  assumes "spl_reach s"
  shows "(inside (sp_pc s i) \<longrightarrow> inside (sp_pc s j) \<longrightarrow> i = j) \<and>
    (splk_holder (sp_lock s) = Some i \<longleftrightarrow> sp_pc s i = Held) \<and>
    (splk_lock (sp_lock s) = 0 \<longleftrightarrow> (\<forall>i. \<not> inside (sp_pc s i)))"
  using spl_reach_owned [OF assms] by (auto simp: owned_by_def)

theorem spinlock_mutual_exclusion_witness:
  "\<exists>s. spl_reach s \<and> sp_pc s 3 = Got \<and> splk_holder (sp_lock s) = None \<and> splk_lock (sp_lock s) = 1"
proof -
  let ?s0 = "\<lparr>sp_lock = spinlock_init, sp_pc = (\<lambda>_. Out)\<rparr>"
  let ?s1 = "move 3 Test ?s0" let ?s2 = "move 3 Tas ?s1"
  let ?s3 = "move 3 Got (?s2\<lparr>sp_lock := (sp_lock ?s2)\<lparr>splk_lock := 1\<rparr>\<rparr>)"
  have "spl_reach ?s1"
    by (rule spl_reach.step [OF spl_reach.start spl_step.enter]) (simp_all add: spinlock_init_def)
  then have "spl_reach ?s2"
    by (rule spl_reach.step) (rule spl_step.test_free, simp_all add: move_def spinlock_init_def)
  then have r: "spl_reach ?s3"
    by (rule spl_reach.step) (rule spl_step.tas_got, simp_all add: move_def spinlock_init_def)
  show ?thesis using r spinlock_mutual_exclusion [OF r, of 3 3]
    by (intro exI [of _ ?s3]) (simp add: move_def spinlock_init_def inside_def)
qed

end
