(* ===== verification/Kstate.thy ===== *)
theory Kstate
  imports Threadlist Proclist Karray Spinlock
begin

text \<open>
  The state the thread system works on: \<^verbatim>\<open>struct thread\<close> (\<^verbatim>\<open>kern/include/thread.h\<close>),
  \<^verbatim>\<open>struct cpu\<close> (\<^verbatim>\<open>kern/include/cpu.h\<close>), \<^verbatim>\<open>struct wchan\<close> and the global arrays of
  \<^verbatim>\<open>kern/thread/thread.c\<close>. Structures are named by numbers, their addresses; a structure that is
  not allocated is \<open>None\<close>. The lists embedded in the structures live in one pointer heap, at
  addresses that follow from the address of the structure; their spinlocks are told apart in the
  same way. The interrupt level of the running thread and the spinlock count of the running CPU are
  the \<open>cpu_view\<close> of Spinlock; a thread that is not running keeps its level in its own fields, and
  the context switch exchanges the two.
\<close>

datatype threadstate = S_RUN | S_READY | S_SLEEP | S_ZOMBIE

record thread =
  t_name :: string
  t_wchan_name :: "string option"
  t_state :: threadstate
  t_stack :: "u32 list option"
  t_cpu :: "nat option"
  t_proc :: "nat option"
  t_in_interrupt :: bool
  t_saved_spl :: int
  t_saved_count :: int

record cpu =
  c_number :: nat
  c_hardware_number :: nat
  c_curthread :: "nat option"
  c_hardclocks :: nat
  c_isidle :: bool
  c_ipi_pending :: u32
  c_shootdown :: "int \<Rightarrow> nat option"
  c_numshootdown :: int

record wchan =
  wc_name :: string
  wc_index :: nat

text \<open>The lists: a CPU's zombies and run queue, the sleepers of a wait channel, and the list a
  function keeps on the stack of the running thread.\<close>

definition zombies_of :: "nat \<Rightarrow> nat" where
  "zombies_of c = 4 * c"

definition runq_of :: "nat \<Rightarrow> nat" where
  "runq_of c = 4 * c + 1"

definition sleepers_of :: "nat \<Rightarrow> nat" where
  "sleepers_of w = 4 * w + 2"

definition local_of :: "nat \<Rightarrow> nat" where
  "local_of t = 4 * t + 3"

lemma list_addresses [simp]:
  "zombies_of c = zombies_of c' \<longleftrightarrow> c = c'" "runq_of c = runq_of c' \<longleftrightarrow> c = c'"
  "sleepers_of c = sleepers_of c' \<longleftrightarrow> c = c'" "local_of c = local_of c' \<longleftrightarrow> c = c'"
  "zombies_of c \<noteq> runq_of a" "zombies_of c \<noteq> sleepers_of a" "zombies_of c \<noteq> local_of a"
  "runq_of c \<noteq> zombies_of a" "runq_of c \<noteq> sleepers_of a" "runq_of c \<noteq> local_of a"
  "sleepers_of c \<noteq> zombies_of a" "sleepers_of c \<noteq> runq_of a" "sleepers_of c \<noteq> local_of a"
  "local_of c \<noteq> zombies_of a" "local_of c \<noteq> runq_of a" "local_of c \<noteq> sleepers_of a"
  unfolding zombies_of_def runq_of_def sleepers_of_def local_of_def by presburger+

datatype lock_id = RunqueueLock nat | IpiLock nat | AllWchansLock | ProcLock nat | OtherLock nat

record ksys =
  heap :: list_heap
  threads :: "nat \<Rightarrow> thread option"
  cpus :: "nat \<Rightarrow> cpu option"
  allcpus :: "nat karray"
  wchans :: "nat \<Rightarrow> wchan option"
  allwchans :: "nat karray"
  p_threads :: "nat \<Rightarrow> nat karray option"
  locks :: "lock_id \<Rightarrow> spinlock"
  curcpu :: nat
  curthread :: nat
  view :: cpu_view
  sent :: "nat list"
  activated :: "nat list"

text \<open>Updates of one field of a structure; a null or freed pointer is \<open>None\<close>.\<close>

definition upd_thread :: "nat \<Rightarrow> (thread \<Rightarrow> thread) \<Rightarrow> ksys \<Rightarrow> ksys option" where
  "upd_thread t f s = do { th \<leftarrow> threads s t; Some (s\<lparr>threads := (threads s)(t \<mapsto> f th)\<rparr>) }"

definition upd_cpu :: "nat \<Rightarrow> (cpu \<Rightarrow> cpu) \<Rightarrow> ksys \<Rightarrow> ksys option" where
  "upd_cpu c f s = do { cp \<leftarrow> cpus s c; Some (s\<lparr>cpus := (cpus s)(c \<mapsto> f cp)\<rparr>) }"

definition upd_wchan :: "nat \<Rightarrow> (wchan \<Rightarrow> wchan) \<Rightarrow> ksys \<Rightarrow> ksys option" where
  "upd_wchan w f s = do { wc \<leftarrow> wchans s w; Some (s\<lparr>wchans := (wchans s)(w \<mapsto> f wc)\<rparr>) }"

text \<open>Spinlock and interrupt level calls made by the running CPU, no other CPU holding the lock.\<close>

definition acquire :: "lock_id \<Rightarrow> ksys \<Rightarrow> ksys option" where
  "acquire l s =
     do {
       (k, c) \<leftarrow> spinlock_acquire (quiet (locks s l)) (locks s l, view s);
       Some (s\<lparr>locks := (locks s)(l := k), view := c\<rparr>)
     }"

definition release :: "lock_id \<Rightarrow> ksys \<Rightarrow> ksys option" where
  "release l s =
     do {
       (k, c) \<leftarrow> spinlock_release (locks s l, view s);
       Some (s\<lparr>locks := (locks s)(l := k), view := c\<rparr>)
     }"

definition do_i_hold :: "lock_id \<Rightarrow> ksys \<Rightarrow> bool" where
  "do_i_hold l s = spinlock_do_i_hold (locks s l) (view s)"

definition set_spl :: "int \<Rightarrow> ksys \<Rightarrow> (ksys \<times> int) option" where
  "set_spl n s = do { (old, c) \<leftarrow> splx n (view s); Some (s\<lparr>view := c\<rparr>, old) }"

text \<open>Operations on the lists.\<close>

definition add_tail :: "nat \<Rightarrow> nat \<Rightarrow> ksys \<Rightarrow> ksys option" where
  "add_tail l t s = do { h \<leftarrow> threadlist_addtail l t (heap s); Some (s\<lparr>heap := h\<rparr>) }"

definition add_head :: "nat \<Rightarrow> nat \<Rightarrow> ksys \<Rightarrow> ksys option" where
  "add_head l t s = do { h \<leftarrow> threadlist_addhead l t (heap s); Some (s\<lparr>heap := h\<rparr>) }"

definition rem_head :: "nat \<Rightarrow> ksys \<Rightarrow> (ksys \<times> nat option) option" where
  "rem_head l s = do { (h, t) \<leftarrow> threadlist_remhead l (heap s); Some (s\<lparr>heap := h\<rparr>, t) }"

definition rem_tail :: "nat \<Rightarrow> ksys \<Rightarrow> (ksys \<times> nat option) option" where
  "rem_tail l s = do { (h, t) \<leftarrow> threadlist_remtail l (heap s); Some (s\<lparr>heap := h\<rparr>, t) }"

section \<open>Holding a lock\<close>

definition bump :: "cpu_view \<Rightarrow> cpu_view" where
  "bump c = c\<lparr>c_spinlocks := c_spinlocks c + 1, t_iplhigh_count := t_iplhigh_count c + 1,
     irq_on := False\<rparr>"

definition unbump :: "cpu_view \<Rightarrow> cpu_view" where
  "unbump c = c\<lparr>c_spinlocks := c_spinlocks c - 1, t_iplhigh_count := t_iplhigh_count c - 1,
     irq_on := irq_on c \<or> t_iplhigh_count c = 1\<rparr>"

definition owned :: "nat \<Rightarrow> spinlock" where
  "owned c = \<lparr>splk_lock = 1, splk_holder = Some c\<rparr>"

definition held_by_me :: "lock_id \<Rightarrow> ksys \<Rightarrow> ksys" where
  "held_by_me l s = s\<lparr>locks := (locks s)(l := owned (c_self (view s))), view := bump (view s)\<rparr>"

definition let_go :: "lock_id \<Rightarrow> ksys \<Rightarrow> ksys" where
  "let_go l s = s\<lparr>locks := (locks s)(l := spinlock_init), view := unbump (view s)\<rparr>"

lemma bump_simps [simp]:
  "c_self (bump c) = c_self c" "cpu_exists (bump c) = cpu_exists c"
  "c_spinlocks (bump c) = c_spinlocks c + 1" "\<not> irq_on (bump c)" "t_curspl (bump c) = t_curspl c"
  "t_iplhigh_count (bump c) = t_iplhigh_count c + 1"
  "c_self (unbump c) = c_self c" "cpu_exists (unbump c) = cpu_exists c"
  "c_spinlocks (unbump c) = c_spinlocks c - 1" "t_curspl (unbump c) = t_curspl c"
  by (simp_all add: bump_def unbump_def)

lemma unbump_bump: "spl_inv c \<Longrightarrow> unbump (bump c) = c"
  by (cases c) (auto simp: spl_inv_def bump_def unbump_def)

lemma spl_inv_bump: "spl_inv c \<Longrightarrow> spl_inv (bump c)"
  by (auto simp: spl_inv_def bump_def)

lemma spl_inv_unbump: "spl_inv c \<Longrightarrow> 0 < c_spinlocks c \<Longrightarrow> spl_inv (unbump c)"
  by (auto simp: spl_inv_def unbump_def)

lemma acquire_free:
  assumes "spl_inv (view s)" and "locks s l = spinlock_init"
  shows "acquire l s = Some (held_by_me l s)"
  using assms
  by (cases "view s") (auto simp: acquire_def spinlock_acquire_def spinlock_init_def splraise_def
      spl_inv_def spin_quiet held_by_me_def owned_def bump_def Let_def)

lemma acquire_mine:
  "cpu_exists (view s) \<Longrightarrow> locks s l = owned (c_self (view s)) \<Longrightarrow> acquire l s = None"
  by (simp add: acquire_def spinlock_acquire_deadlock owned_def)

lemma release_mine:
  assumes "spl_inv (view s)" and "locks s l = owned (c_self (view s))" and "0 < c_spinlocks (view s)"
  shows "release l s = Some (let_go l s)"
  using assms
  by (cases "view s") (auto simp: release_def spinlock_release_def spllower_def spl_inv_def
      let_go_def owned_def unbump_def spinlock_init_def Let_def)

lemma held_by_me_simps [simp]:
  "heap (held_by_me l s) = heap s" "threads (held_by_me l s) = threads s"
  "cpus (held_by_me l s) = cpus s" "allcpus (held_by_me l s) = allcpus s"
  "wchans (held_by_me l s) = wchans s" "allwchans (held_by_me l s) = allwchans s"
  "p_threads (held_by_me l s) = p_threads s" "curcpu (held_by_me l s) = curcpu s"
  "curthread (held_by_me l s) = curthread s" "sent (held_by_me l s) = sent s"
  "activated (held_by_me l s) = activated s" "view (held_by_me l s) = bump (view s)"
  "locks (held_by_me l s) = (locks s)(l := owned (c_self (view s)))"
  by (simp_all add: held_by_me_def)

lemma let_go_simps [simp]:
  "heap (let_go l s) = heap s" "threads (let_go l s) = threads s"
  "cpus (let_go l s) = cpus s" "allcpus (let_go l s) = allcpus s"
  "wchans (let_go l s) = wchans s" "allwchans (let_go l s) = allwchans s"
  "p_threads (let_go l s) = p_threads s" "curcpu (let_go l s) = curcpu s"
  "curthread (let_go l s) = curthread s" "sent (let_go l s) = sent s"
  "activated (let_go l s) = activated s" "view (let_go l s) = unbump (view s)"
  "locks (let_go l s) = (locks s)(l := spinlock_init)"
  by (simp_all add: let_go_def)

lemma hold_iff [simp]:
  "do_i_hold l s \<longleftrightarrow> (cpu_exists (view s) \<longrightarrow> splk_holder (locks s l) = Some (c_self (view s)))"
  by (simp add: do_i_hold_def spinlock_do_i_hold_def)

lemma owned_holder [simp]: "splk_holder (owned c) = Some c"
  by (simp add: owned_def)

lemma owned_neq [simp]: "owned c \<noteq> spinlock_init" "spinlock_init \<noteq> owned c"
  by (simp_all add: owned_def spinlock_init_def)

text \<open>A critical section that leaves the lock and the interrupt level alone gives back the state it
  started from, apart from what the section changed.\<close>

lemma critical_section:
  assumes "spl_inv (view s)" and "locks s l = spinlock_init"
    and "locks s' = (locks s)(l := owned (c_self (view s)))" and "view s' = bump (view s)"
  shows "release l s' = Some (s'\<lparr>locks := locks s, view := view s\<rparr>)"
proof -
  have "release l s' = Some (let_go l s')"
    using assms by (intro release_mine) (simp_all add: spl_inv_bump)
  moreover have "(locks s)(l := spinlock_init) = locks s" using assms(2) by auto
  ultimately show ?thesis using assms by (simp add: let_go_def unbump_bump)
qed

end
