(* ===== verification/Thread.thy ===== *)
theory Thread
  imports Kstate
begin

text \<open>
  \<^verbatim>\<open>kern/thread/thread.c\<close>, \<^verbatim>\<open>kern/thread/clock.c\<close> and the thread half of \<^verbatim>\<open>kern/proc/proc.c\<close>: threads
  and CPUs, the context switch, wait channels, migration and interprocessor interrupts, each
  function as the running CPU executes it over the state of Kstate. \<open>None\<close> is a panic, a failed
  assertion, or a null pointer followed. What the allocator returns is an argument: the address, or
  \<open>None\<close> for out of memory. \<^verbatim>\<open>cpu_idle\<close> is an argument too: the effect on the state of the
  interrupts that arrive until it returns.
\<close>

abbreviation (input) THREAD_STACK_MAGIC :: u32 where "THREAD_STACK_MAGIC \<equiv> 0xbaadf00d"

abbreviation (input) IPI_PANIC :: nat where "IPI_PANIC \<equiv> 0"
abbreviation (input) IPI_OFFLINE :: nat where "IPI_OFFLINE \<equiv> 1"
abbreviation (input) IPI_UNIDLE :: nat where "IPI_UNIDLE \<equiv> 2"
abbreviation (input) IPI_TLBSHOOTDOWN :: nat where "IPI_TLBSHOOTDOWN \<equiv> 3"
abbreviation (input) TLBSHOOTDOWN_MAX :: int where "TLBSHOOTDOWN_MAX \<equiv> 16"
abbreviation (input) TLBSHOOTDOWN_ALL :: int where "TLBSHOOTDOWN_ALL \<equiv> - 1"

section \<open>Interprocessor interrupts\<close>

definition ipi_send :: "nat \<Rightarrow> nat \<Rightarrow> ksys \<Rightarrow> ksys option" where
  "ipi_send target code s =
     do {
       kassert (code < 32);
       s \<leftarrow> acquire (IpiLock target) s;
       s \<leftarrow> upd_cpu target
              (\<lambda>c. c\<lparr>c_ipi_pending := c_ipi_pending c OR push_bit code 1\<rparr>) s;
       let s = s\<lparr>sent := target # sent s\<rparr>;
       release (IpiLock target) s
     }"

definition ipi_broadcast :: "nat \<Rightarrow> ksys \<Rightarrow> ksys option" where
  "ipi_broadcast code s =
     for_each (\<lambda>i s. do {
         c \<leftarrow> array_get (allcpus s) i;
         c \<leftarrow> c;
         if c \<noteq> curcpu s then ipi_send c code s else Some s
       }) [0..<array_num (allcpus s)] s"

definition ipi_tlbshootdown :: "nat \<Rightarrow> nat \<Rightarrow> ksys \<Rightarrow> ksys option" where
  "ipi_tlbshootdown target mapping s =
     do {
       s \<leftarrow> acquire (IpiLock target) s;
       cp \<leftarrow> cpus s target;
       let n = c_numshootdown cp;
       s \<leftarrow> (if n = TLBSHOOTDOWN_MAX
            then upd_cpu target (\<lambda>c. c\<lparr>c_numshootdown := TLBSHOOTDOWN_ALL\<rparr>) s
            else do {
              kassert (0 \<le> n \<and> n < TLBSHOOTDOWN_MAX);
              upd_cpu target (\<lambda>c. c\<lparr>c_shootdown := (c_shootdown c)(n \<mapsto> mapping),
                                   c_numshootdown := n + 1\<rparr>) s
            });
       s \<leftarrow> upd_cpu target
              (\<lambda>c. c\<lparr>c_ipi_pending := c_ipi_pending c OR push_bit IPI_TLBSHOOTDOWN 1\<rparr>) s;
       let s = s\<lparr>sent := target # sent s\<rparr>;
       release (IpiLock target) s
     }"

text \<open>What the interrupt makes the CPU do: halt, or flush the TLB as told and go on.\<close>

datatype ipi_result = Halted ksys | Handled ksys "nat option list" bool

definition interprocessor_interrupt :: "ksys \<Rightarrow> ipi_result option" where
  "interprocessor_interrupt s =
     do {
       let me = curcpu s;
       s \<leftarrow> acquire (IpiLock me) s;
       cp \<leftarrow> cpus s me;
       let bits = c_ipi_pending cp;
       if bits AND push_bit IPI_PANIC 1 \<noteq> 0 then do {
         s \<leftarrow> release (IpiLock me) s;
         Some (Halted s)
       }
       else if bits AND push_bit IPI_OFFLINE 1 \<noteq> 0 then do {
         s \<leftarrow> release (IpiLock me) s;
         s \<leftarrow> acquire (RunqueueLock me) s;
         s \<leftarrow> release (RunqueueLock me) s;
         Some (Halted s)
       }
       else do {
         let shoot = (bits AND push_bit IPI_TLBSHOOTDOWN 1 \<noteq> 0);
         let all = (c_numshootdown cp = TLBSHOOTDOWN_ALL);
         let flushed = (if shoot \<and> \<not> all
           then map (\<lambda>i. c_shootdown cp (int i)) [0..<nat (c_numshootdown cp)] else []);
         s \<leftarrow> (if shoot then upd_cpu me (\<lambda>c. c\<lparr>c_numshootdown := 0\<rparr>) s else Some s);
         s \<leftarrow> upd_cpu me (\<lambda>c. c\<lparr>c_ipi_pending := 0\<rparr>) s;
         s \<leftarrow> release (IpiLock me) s;
         Some (Handled s flushed (shoot \<and> all))
       }
     }"

section \<open>Threads of a process\<close>

definition proc_addthread :: "bool \<Rightarrow> nat \<Rightarrow> nat \<Rightarrow> ksys \<Rightarrow> (errno + ksys) option" where
  "proc_addthread mem p t s =
     do {
       th \<leftarrow> threads s t;
       kassert (t_proc th = None);
       s \<leftarrow> acquire (ProcLock p) s;
       ts \<leftarrow> p_threads s p;
       result \<leftarrow> array_add mem ts t;
       let s = (case result of
                  Inl e \<Rightarrow> s
                | Inr (ts, i) \<Rightarrow> s\<lparr>p_threads := (p_threads s)(p \<mapsto> ts)\<rparr>);
       s \<leftarrow> release (ProcLock p) s;
       case result of
         Inl e \<Rightarrow> Some (Inl e)
       | Inr _ \<Rightarrow> do {
           (s, spl) \<leftarrow> set_spl IPL_HIGH s;
           s \<leftarrow> upd_thread t (\<lambda>th. th\<lparr>t_proc := Some p\<rparr>) s;
           (s, _) \<leftarrow> set_spl spl s;
           Some (Inr s)
         }
     }"

text \<open>The search loop of \<^verbatim>\<open>proc_remthread\<close> from index \<open>i\<close> on, for the indices left.\<close>

fun remthread_from :: "nat list \<Rightarrow> nat \<Rightarrow> nat \<Rightarrow> ksys \<Rightarrow> ksys option" where
  "remthread_from [] p t s = do { s \<leftarrow> release (ProcLock p) s; None }"
| "remthread_from (i # is) p t s =
     do {
       ts \<leftarrow> p_threads s p;
       x \<leftarrow> array_get ts i;
       if x = Some t then do {
         ts \<leftarrow> array_remove ts i;
         let s = s\<lparr>p_threads := (p_threads s)(p \<mapsto> ts)\<rparr>;
         s \<leftarrow> release (ProcLock p) s;
         (s, spl) \<leftarrow> set_spl IPL_HIGH s;
         s \<leftarrow> upd_thread t (\<lambda>th. th\<lparr>t_proc := None\<rparr>) s;
         (s, _) \<leftarrow> set_spl spl s;
         Some s
       }
       else remthread_from is p t s
     }"

definition proc_remthread :: "nat \<Rightarrow> ksys \<Rightarrow> ksys option" where
  "proc_remthread t s =
     do {
       th \<leftarrow> threads s t;
       p \<leftarrow> t_proc th;
       s \<leftarrow> acquire (ProcLock p) s;
       ts \<leftarrow> p_threads s p;
       remthread_from [0..<array_num ts] p t s
     }"

section \<open>Creating and destroying threads and CPUs\<close>

definition thread_checkstack_init :: "nat \<Rightarrow> ksys \<Rightarrow> ksys option" where
  "thread_checkstack_init t s =
     do {
       th \<leftarrow> threads s t;
       st \<leftarrow> t_stack th;
       st \<leftarrow> store st 0 THREAD_STACK_MAGIC;
       st \<leftarrow> store st 1 THREAD_STACK_MAGIC;
       st \<leftarrow> store st 2 THREAD_STACK_MAGIC;
       st \<leftarrow> store st 3 THREAD_STACK_MAGIC;
       upd_thread t (\<lambda>th. th\<lparr>t_stack := Some st\<rparr>) s
     }"

definition thread_checkstack :: "nat \<Rightarrow> ksys \<Rightarrow> unit option" where
  "thread_checkstack t s =
     do {
       th \<leftarrow> threads s t;
       case t_stack th of
         None \<Rightarrow> Some ()
       | Some st \<Rightarrow> do {
           w0 \<leftarrow> fetch st 0; kassert (w0 = THREAD_STACK_MAGIC);
           w1 \<leftarrow> fetch st 1; kassert (w1 = THREAD_STACK_MAGIC);
           w2 \<leftarrow> fetch st 2; kassert (w2 = THREAD_STACK_MAGIC);
           w3 \<leftarrow> fetch st 3; kassert (w3 = THREAD_STACK_MAGIC)
         }
     }"

definition new_thread :: "string \<Rightarrow> thread" where
  "new_thread name =
     \<lparr>t_name = name, t_wchan_name = Some ''NEW'', t_state = S_READY, t_stack = None,
      t_cpu = None, t_proc = None, t_in_interrupt = False, t_saved_spl = IPL_HIGH,
      t_saved_count = 1\<rparr>"

text \<open>\<open>mem\<close> is the address \<^verbatim>\<open>kmalloc\<close> returns, \<open>dup\<close> says whether \<^verbatim>\<open>kstrdup\<close> finds memory.\<close>

definition thread_create :: "nat option \<Rightarrow> bool \<Rightarrow> string \<Rightarrow> ksys \<Rightarrow> (ksys \<times> nat option) option" where
  "thread_create mem dup name s =
    (case mem of
       None \<Rightarrow> Some (s, None)
     | Some t \<Rightarrow>
         if \<not> dup then Some (s, None)
         else do {
           h \<leftarrow> threadlistnode_init (NodeOf t) (Some t) (heap s);
           Some (s\<lparr>heap := h, threads := (threads s)(t \<mapsto> new_thread name)\<rparr>, Some t)
         })"

text \<open>The decimal digits \<^verbatim>\<open>snprintf\<close> prints for \<^verbatim>\<open>%d\<close>.\<close>

fun decimal :: "nat \<Rightarrow> string" where
  "decimal n = (if n < 10 then [char_of (48 + n)] else decimal (n div 10) @ [char_of (48 + n mod 10)])"

declare decimal.simps [simp del]

definition cpu_create ::
  "nat option \<Rightarrow> nat option \<Rightarrow> bool \<Rightarrow> bool \<Rightarrow> bool \<Rightarrow> u32 list option \<Rightarrow> nat \<Rightarrow> nat \<Rightarrow> ksys \<Rightarrow>
     (ksys \<times> nat) option" where
  "cpu_create cmem tmem dup addmem addmem2 stk kproc hardware_number s =
     do {
       c \<leftarrow> cmem;
       let s = s\<lparr>heap := threadlist_init (zombies_of c) (heap s)\<rparr>;
       let s = s\<lparr>heap := threadlist_init (runq_of c) (heap s)\<rparr>;
       let s = s\<lparr>locks := (locks s)(RunqueueLock c := spinlock_init, IpiLock c := spinlock_init)\<rparr>;
       result \<leftarrow> array_add addmem (allcpus s) c;
       (cs, number) \<leftarrow> (case result of Inl e \<Rightarrow> None | Inr r \<Rightarrow> Some r);
       let s = s\<lparr>allcpus := cs\<rparr>;
       let namebuf = take 15 (''<boot #'' @ decimal number @ ''>'');
       (s, t) \<leftarrow> thread_create tmem dup namebuf s;
       t \<leftarrow> t;
       let s = s\<lparr>cpus := (cpus s)(c \<mapsto>
         \<lparr>c_number = number, c_hardware_number = hardware_number, c_curthread = Some t,
          c_hardclocks = 0, c_isidle = False, c_ipi_pending = 0, c_shootdown = (\<lambda>_. None),
          c_numshootdown = 0\<rparr>)\<rparr>;
       result \<leftarrow> proc_addthread addmem2 kproc t s;
       s \<leftarrow> (case result of Inl e \<Rightarrow> None | Inr s \<Rightarrow> Some s);
       s \<leftarrow> (if number = 0 then Some s
            else do {
              st \<leftarrow> stk;
              s \<leftarrow> upd_thread t (\<lambda>th. th\<lparr>t_stack := Some st\<rparr>) s;
              thread_checkstack_init t s
            });
       s \<leftarrow> upd_thread t (\<lambda>th. th\<lparr>t_cpu := Some c\<rparr>) s;
       Some (s, c)
     }"

definition thread_destroy :: "nat \<Rightarrow> ksys \<Rightarrow> ksys option" where
  "thread_destroy t s =
     do {
       kassert (t \<noteq> curthread s);
       th \<leftarrow> threads s t;
       kassert (t_state th \<noteq> S_RUN);
       kassert (t_proc th = None);
       h \<leftarrow> threadlistnode_cleanup (NodeOf t) (heap s);
       Some (s\<lparr>heap := h, threads := (threads s)(t := None)\<rparr>)
     }"

partial_function (option) exorcise :: "ksys \<Rightarrow> ksys option" where
  "exorcise s =
     do {
       (s, z) \<leftarrow> rem_head (zombies_of (curcpu s)) s;
       case z of
         None \<Rightarrow> Some s
       | Some z \<Rightarrow> do {
           kassert (z \<noteq> curthread s);
           th \<leftarrow> threads s z;
           kassert (t_state th = S_ZOMBIE);
           s \<leftarrow> thread_destroy z s;
           exorcise s
         }
     }"

definition thread_panic :: "ksys \<Rightarrow> ksys option" where
  "thread_panic s =
     do {
       s \<leftarrow> ipi_broadcast IPI_PANIC s;
       let q = runq_of (curcpu s);
       let h = set_count q 0 (heap s);
       let h = set_nxt (HeadOf q) (Some (TailOf q)) h;
       let h = set_prv (TailOf q) (Some (HeadOf q)) h;
       Some (s\<lparr>heap := h\<rparr>)
     }"

definition thread_shutdown :: "ksys \<Rightarrow> ksys option" where
  "thread_shutdown s = ipi_broadcast IPI_OFFLINE s"

section \<open>Scheduling\<close>

definition thread_make_runnable :: "nat \<Rightarrow> bool \<Rightarrow> ksys \<Rightarrow> ksys option" where
  "thread_make_runnable target already_have_lock s =
     do {
       th \<leftarrow> threads s target;
       targetcpu \<leftarrow> t_cpu th;
       s \<leftarrow> (if already_have_lock
            then do { kassert (do_i_hold (RunqueueLock targetcpu) s); Some s }
            else acquire (RunqueueLock targetcpu) s);
       s \<leftarrow> upd_thread target (\<lambda>th. th\<lparr>t_state := S_READY\<rparr>) s;
       s \<leftarrow> add_tail (runq_of targetcpu) target s;
       cp \<leftarrow> cpus s targetcpu;
       s \<leftarrow> (if c_isidle cp then ipi_send targetcpu IPI_UNIDLE s else Some s);
       if \<not> already_have_lock then release (RunqueueLock targetcpu) s else Some s
     }"

definition thread_fork ::
  "nat option \<Rightarrow> bool \<Rightarrow> u32 list option \<Rightarrow> bool \<Rightarrow> string \<Rightarrow> nat option \<Rightarrow> ksys \<Rightarrow>
     (ksys \<times> errno option) option" where
  "thread_fork mem dup stk addmem name proc s =
     do {
       (s, newthread) \<leftarrow> thread_create mem dup name s;
       case newthread of
         None \<Rightarrow> Some (s, Some ENOMEM)
       | Some t \<Rightarrow>
           (case stk of
             None \<Rightarrow> do { s \<leftarrow> thread_destroy t s; Some (s, Some ENOMEM) }
           | Some st \<Rightarrow> do {
               s \<leftarrow> upd_thread t (\<lambda>th. th\<lparr>t_stack := Some st\<rparr>) s;
               s \<leftarrow> thread_checkstack_init t s;
               me \<leftarrow> threads s (curthread s);
               s \<leftarrow> upd_thread t (\<lambda>th. th\<lparr>t_cpu := t_cpu me\<rparr>) s;
               p \<leftarrow> (case proc of None \<Rightarrow> t_proc me | Some p \<Rightarrow> Some p);
               result \<leftarrow> proc_addthread addmem p t s;
               case result of
                 Inl e \<Rightarrow> do { s \<leftarrow> thread_destroy t s; Some (s, Some e) }
               | Inr s \<Rightarrow> do {
                   s \<leftarrow> upd_thread t (\<lambda>th. th\<lparr>t_saved_count := t_saved_count th + 1\<rparr>) s;
                   s \<leftarrow> thread_make_runnable t False s;
                   Some (s, None)
                 }
             })
     }"

text \<open>The loop that looks for a thread to run: \<open>idle\<close> is \<^verbatim>\<open>cpu_idle\<close>.\<close>

partial_function (option) pick_next :: "(ksys \<Rightarrow> ksys option) \<Rightarrow> ksys \<Rightarrow> (ksys \<times> nat) option" where
  "pick_next idle s =
     do {
       (s, next) \<leftarrow> rem_head (runq_of (curcpu s)) s;
       case next of
         Some t \<Rightarrow> Some (s, t)
       | None \<Rightarrow> do {
           s \<leftarrow> release (RunqueueLock (curcpu s)) s;
           s \<leftarrow> idle s;
           s \<leftarrow> acquire (RunqueueLock (curcpu s)) s;
           pick_next idle s
         }
     }"

text \<open>Where the switch puts the thread that gives up the CPU. \<open>wc\<close> is the wait channel and its
  lock, for a thread that goes to sleep.\<close>

definition enqueue_current :: "threadstate \<Rightarrow> (nat \<times> lock_id) option \<Rightarrow> ksys \<Rightarrow> ksys option" where
  "enqueue_current newstate wc s =
    (case newstate of
       S_RUN \<Rightarrow> None
     | S_READY \<Rightarrow> thread_make_runnable (curthread s) True s
     | S_SLEEP \<Rightarrow> do {
         (w, lk) \<leftarrow> wc;
         chan \<leftarrow> wchans s w;
         s \<leftarrow> upd_thread (curthread s) (\<lambda>th. th\<lparr>t_wchan_name := Some (wc_name chan)\<rparr>) s;
         s \<leftarrow> add_tail (sleepers_of w) (curthread s) s;
         release lk s
       }
     | S_ZOMBIE \<Rightarrow> do {
         s \<leftarrow> upd_thread (curthread s) (\<lambda>th. th\<lparr>t_wchan_name := Some ''ZOMBIE''\<rparr>) s;
         add_tail (zombies_of (curcpu s)) (curthread s) s
       })"

text \<open>\<^verbatim>\<open>switchframe_switch\<close>: the interrupt level of the thread that stops is kept in its structure,
  that of the thread that goes on becomes the level of the CPU.\<close>

definition switchframe_switch :: "nat \<Rightarrow> nat \<Rightarrow> ksys \<Rightarrow> ksys option" where
  "switchframe_switch cur new s =
     do {
       s \<leftarrow> upd_thread cur (\<lambda>th. th\<lparr>t_saved_spl := t_curspl (view s),
                                 t_saved_count := t_iplhigh_count (view s)\<rparr>) s;
       th \<leftarrow> threads s new;
       Some (s\<lparr>curthread := new,
               view := (view s)\<lparr>t_curspl := t_saved_spl th, t_iplhigh_count := t_saved_count th\<rparr>\<rparr>)
     }"

text \<open>
  \<^verbatim>\<open>thread_switch\<close> up to \<^verbatim>\<open>switchframe_switch\<close>: the state, the level \<open>spl\<close> in the stack frame of
  the caller, and whether another thread's frame is now current or the function has returned.
\<close>

definition thread_switch ::
  "(ksys \<Rightarrow> ksys option) \<Rightarrow> threadstate \<Rightarrow> (nat \<times> lock_id) option \<Rightarrow> ksys \<Rightarrow>
     (ksys \<times> int \<times> bool) option" where
  "thread_switch idle newstate wc s =
     do {
       (s, spl) \<leftarrow> set_spl IPL_HIGH s;
       let cur = curthread s;
       cp \<leftarrow> cpus s (curcpu s);
       if c_isidle cp then do { (s, _) \<leftarrow> set_spl spl s; Some (s, spl, False) }
       else do {
         thread_checkstack cur s;
         s \<leftarrow> acquire (RunqueueLock (curcpu s)) s;
         if newstate = S_READY \<and> threadlist_isempty (runq_of (curcpu s)) (heap s) then do {
           s \<leftarrow> release (RunqueueLock (curcpu s)) s;
           (s, _) \<leftarrow> set_spl spl s;
           Some (s, spl, False)
         }
         else do {
           s \<leftarrow> enqueue_current newstate wc s;
           s \<leftarrow> upd_thread cur (\<lambda>th. th\<lparr>t_state := newstate\<rparr>) s;
           s \<leftarrow> upd_cpu (curcpu s) (\<lambda>c. c\<lparr>c_isidle := True\<rparr>) s;
           (s, new) \<leftarrow> pick_next idle s;
           s \<leftarrow> upd_cpu (curcpu s) (\<lambda>c. c\<lparr>c_isidle := False\<rparr>) s;
           s \<leftarrow> upd_cpu (curcpu s) (\<lambda>c. c\<lparr>c_curthread := Some new\<rparr>) s;
           s \<leftarrow> switchframe_switch cur new s;
           Some (s, spl, True)
         }
       }
     }"

text \<open>The rest of \<^verbatim>\<open>thread_switch\<close>, as the thread that was switched to runs it; \<^verbatim>\<open>as_activate\<close>
  is recorded.\<close>

definition as_activate_thread :: "ksys \<Rightarrow> ksys" where
  "as_activate_thread s = s\<lparr>activated := curthread s # activated s\<rparr>"

definition thread_resume :: "int \<Rightarrow> ksys \<Rightarrow> ksys option" where
  "thread_resume spl s =
     do {
       s \<leftarrow> upd_thread (curthread s) (\<lambda>th. th\<lparr>t_wchan_name := None, t_state := S_RUN\<rparr>) s;
       s \<leftarrow> release (RunqueueLock (curcpu s)) s;
       let s = as_activate_thread s;
       s \<leftarrow> exorcise s;
       (s, _) \<leftarrow> set_spl spl s;
       Some s
     }"

definition thread_exit :: "(ksys \<Rightarrow> ksys option) \<Rightarrow> ksys \<Rightarrow> ksys option" where
  "thread_exit idle s =
     do {
       let cur = curthread s;
       s \<leftarrow> proc_remthread cur s;
       th \<leftarrow> threads s cur;
       kassert (t_proc th = None);
       thread_checkstack cur s;
       (s, _) \<leftarrow> set_spl IPL_HIGH s;
       (s, _, gone) \<leftarrow> thread_switch idle S_ZOMBIE None s;
       kassert gone;
       Some s
     }"

definition thread_startup ::
  "(ksys \<Rightarrow> ksys option) \<Rightarrow> (ksys \<Rightarrow> ksys option) \<Rightarrow> ksys \<Rightarrow> ksys option" where
  "thread_startup idle entrypoint s =
     do {
       s \<leftarrow> upd_thread (curthread s) (\<lambda>th. th\<lparr>t_wchan_name := None, t_state := S_RUN\<rparr>) s;
       s \<leftarrow> release (RunqueueLock (curcpu s)) s;
       let s = as_activate_thread s;
       s \<leftarrow> exorcise s;
       (s, _) \<leftarrow> set_spl IPL_NONE s;
       s \<leftarrow> entrypoint s;
       thread_exit idle s
     }"

definition thread_yield :: "(ksys \<Rightarrow> ksys option) \<Rightarrow> ksys \<Rightarrow> (ksys \<times> int \<times> bool) option" where
  "thread_yield idle s = thread_switch idle S_READY None s"

definition schedule :: "ksys \<Rightarrow> ksys option" where
  "schedule s = Some s"

section \<open>Migration\<close>

text \<open>The first loop: the total of the run queues' lengths and the current CPU's own.\<close>

fun count_queues :: "nat list \<Rightarrow> nat \<times> nat \<Rightarrow> ksys \<Rightarrow> (ksys \<times> nat \<times> nat) option" where
  "count_queues [] (tot, mine) s = Some (s, tot, mine)"
| "count_queues (i # is) (tot, mine) s =
     do {
       c \<leftarrow> array_get (allcpus s) i;
       c \<leftarrow> c;
       s \<leftarrow> acquire (RunqueueLock c) s;
       let n = tl_count (heap s) (runq_of c);
       let tot = (tot + n) mod 2 ^ 32;
       let mine = (if c = curcpu s then n else mine);
       s \<leftarrow> release (RunqueueLock c) s;
       count_queues is (tot, mine) s
     }"

definition take_victim :: "nat \<Rightarrow> ksys \<Rightarrow> ksys option" where
  "take_victim victims s =
     do {
       (s, t) \<leftarrow> rem_tail (runq_of (curcpu s)) s;
       t \<leftarrow> t;
       add_head victims t s
     }"

text \<open>The inner loop: victims go to the CPU \<open>c\<close> until it has its share; the number left to send
  is returned.\<close>

fun fill_cpu :: "nat \<Rightarrow> nat \<Rightarrow> nat \<Rightarrow> nat \<Rightarrow> ksys \<Rightarrow> (ksys \<times> nat) option" where
  "fill_cpu victims c one_share 0 s = Some (s, 0)"
| "fill_cpu victims c one_share (Suc to_send) s =
    (if tl_count (heap s) (runq_of c) < one_share then do {
       (s, t) \<leftarrow> rem_head victims s;
       t \<leftarrow> t;
       if t = curthread s then do {
         s \<leftarrow> add_tail victims t s;
         fill_cpu victims c one_share to_send s
       }
       else do {
         s \<leftarrow> upd_thread t (\<lambda>th. th\<lparr>t_cpu := Some c\<rparr>) s;
         s \<leftarrow> add_tail (runq_of c) t s;
         cp \<leftarrow> cpus s c;
         s \<leftarrow> (if c_isidle cp then ipi_send c IPI_UNIDLE s else Some s);
         fill_cpu victims c one_share to_send s
       }
     }
     else Some (s, Suc to_send))"

fun fill_cpus :: "nat list \<Rightarrow> nat \<Rightarrow> nat \<Rightarrow> nat \<Rightarrow> ksys \<Rightarrow> ksys option" where
  "fill_cpus [] victims one_share to_send s = Some s"
| "fill_cpus (i # is) victims one_share to_send s =
    (if to_send = 0 then Some s
     else do {
       c \<leftarrow> array_get (allcpus s) i;
       c \<leftarrow> c;
       if c = curcpu s then fill_cpus is victims one_share to_send s
       else do {
         s \<leftarrow> acquire (RunqueueLock c) s;
         (s, to_send) \<leftarrow> fill_cpu victims c one_share to_send s;
         s \<leftarrow> release (RunqueueLock c) s;
         fill_cpus is victims one_share to_send s
       }
     })"

text \<open>\<^verbatim>\<open>while ((t = threadlist_remhead(from)) != NULL) threadlist_addtail(to, t)\<close>, also the first
  loop of \<^verbatim>\<open>wchan_wakeall\<close>.\<close>

partial_function (option) move_all :: "nat \<Rightarrow> nat \<Rightarrow> ksys \<Rightarrow> ksys option" where
  "move_all src dst s =
     do {
       (s, t) \<leftarrow> rem_head src s;
       case t of
         None \<Rightarrow> Some s
       | Some t \<Rightarrow> do { s \<leftarrow> add_tail dst t s; move_all src dst s }
     }"

definition thread_consider_migration :: "ksys \<Rightarrow> ksys option" where
  "thread_consider_migration s =
     do {
       let numcpus = array_num (allcpus s);
       (s, total_count, my_count) \<leftarrow> count_queues [0..<numcpus] (0, 0) s;
       kassert (numcpus \<noteq> 0);
       let one_share = divroundup total_count numcpus;
       if my_count < one_share then Some s
       else do {
         let to_send = my_count - one_share;
         let victims = local_of (curthread s);
         let s = s\<lparr>heap := threadlist_init victims (heap s)\<rparr>;
         s \<leftarrow> acquire (RunqueueLock (curcpu s)) s;
         s \<leftarrow> for_each (\<lambda>_. take_victim victims) [0..<to_send] s;
         s \<leftarrow> release (RunqueueLock (curcpu s)) s;
         s \<leftarrow> fill_cpus [0..<numcpus] victims one_share to_send s;
         s \<leftarrow> (if \<not> threadlist_isempty victims (heap s) then do {
                s \<leftarrow> acquire (RunqueueLock (curcpu s)) s;
                s \<leftarrow> move_all victims (runq_of (curcpu s)) s;
                release (RunqueueLock (curcpu s)) s
              }
              else Some s);
         kassert (threadlist_isempty victims (heap s));
         h \<leftarrow> threadlist_cleanup victims (heap s);
         Some (s\<lparr>heap := h\<rparr>)
       }
     }"

section \<open>Wait channels\<close>

definition wchan_create :: "nat option \<Rightarrow> bool \<Rightarrow> string \<Rightarrow> ksys \<Rightarrow> (ksys \<times> nat option) option" where
  "wchan_create mem addmem name s =
    (case mem of
       None \<Rightarrow> Some (s, None)
     | Some w \<Rightarrow> do {
         let s = s\<lparr>heap := threadlist_init (sleepers_of w) (heap s)\<rparr>;
         s \<leftarrow> acquire AllWchansLock s;
         result \<leftarrow> array_add addmem (allwchans s) w;
         (case result of
            Inl e \<Rightarrow> do {
              s \<leftarrow> release AllWchansLock s;
              kassert (e = ENOMEM);
              h \<leftarrow> threadlist_cleanup (sleepers_of w) (heap s);
              Some (s\<lparr>heap := h\<rparr>, None)
            }
          | Inr (a, index) \<Rightarrow> do {
              let s = s\<lparr>allwchans := a,
                        wchans := (wchans s)(w \<mapsto> \<lparr>wc_name = name, wc_index = index\<rparr>)\<rparr>;
              s \<leftarrow> release AllWchansLock s;
              Some (s, Some w)
            })
       })"

definition wchan_destroy :: "nat \<Rightarrow> ksys \<Rightarrow> ksys option" where
  "wchan_destroy w s =
     do {
       s \<leftarrow> acquire AllWchansLock s;
       let num = array_num (allwchans s);
       wc \<leftarrow> wchans s w;
       x \<leftarrow> array_get (allwchans s) (wc_index wc);
       kassert (x = Some w);
       s \<leftarrow> (if wc_index wc < num - 1 then do {
              wc2 \<leftarrow> array_get (allwchans s) (num - 1);
              wc2 \<leftarrow> wc2;
              a \<leftarrow> array_set (allwchans s) (wc_index wc) wc2;
              upd_wchan wc2 (\<lambda>c. c\<lparr>wc_index := wc_index wc\<rparr>) (s\<lparr>allwchans := a\<rparr>)
            }
            else Some s);
       result \<leftarrow> array_setsize True (allwchans s) (num - 1);
       let s = (case result of Inl e \<Rightarrow> s | Inr a \<Rightarrow> s\<lparr>allwchans := a\<rparr>);
       s \<leftarrow> release AllWchansLock s;
       h \<leftarrow> threadlist_cleanup (sleepers_of w) (heap s);
       Some (s\<lparr>heap := h, wchans := (wchans s)(w := None)\<rparr>)
     }"

text \<open>\<^verbatim>\<open>wchan_sleep\<close> up to the switch; the sleeper relocks \<open>lk\<close> when it runs again.\<close>

definition wchan_sleep ::
  "(ksys \<Rightarrow> ksys option) \<Rightarrow> nat \<Rightarrow> lock_id \<Rightarrow> ksys \<Rightarrow> (ksys \<times> int \<times> bool) option" where
  "wchan_sleep idle w lk s =
     do {
       th \<leftarrow> threads s (curthread s);
       kassert (\<not> t_in_interrupt th);
       kassert (do_i_hold lk s);
       kassert (c_spinlocks (view s) = 1);
       thread_switch idle S_SLEEP (Some (w, lk)) s
     }"

definition wchan_sleep_resume :: "int \<Rightarrow> lock_id \<Rightarrow> ksys \<Rightarrow> ksys option" where
  "wchan_sleep_resume spl lk s = do { s \<leftarrow> thread_resume spl s; acquire lk s }"

definition wchan_wakeone :: "nat \<Rightarrow> lock_id \<Rightarrow> ksys \<Rightarrow> ksys option" where
  "wchan_wakeone w lk s =
     do {
       kassert (do_i_hold lk s);
       (s, target) \<leftarrow> rem_head (sleepers_of w) s;
       case target of
         None \<Rightarrow> Some s
       | Some t \<Rightarrow> thread_make_runnable t False s
     }"

partial_function (option) wake_listed :: "nat \<Rightarrow> ksys \<Rightarrow> ksys option" where
  "wake_listed l s =
     do {
       (s, t) \<leftarrow> rem_head l s;
       case t of
         None \<Rightarrow> Some s
       | Some t \<Rightarrow> do { s \<leftarrow> thread_make_runnable t False s; wake_listed l s }
     }"

definition wchan_wakeall :: "nat \<Rightarrow> lock_id \<Rightarrow> ksys \<Rightarrow> ksys option" where
  "wchan_wakeall w lk s =
     do {
       kassert (do_i_hold lk s);
       let l = local_of (curthread s);
       let s = s\<lparr>heap := threadlist_init l (heap s)\<rparr>;
       s \<leftarrow> move_all (sleepers_of w) l s;
       s \<leftarrow> wake_listed l s;
       h \<leftarrow> threadlist_cleanup l (heap s);
       Some (s\<lparr>heap := h\<rparr>)
     }"

definition wchan_isempty :: "nat \<Rightarrow> lock_id \<Rightarrow> ksys \<Rightarrow> bool option" where
  "wchan_isempty w lk s =
     do { kassert (do_i_hold lk s); Some (threadlist_isempty (sleepers_of w) (heap s)) }"

section \<open>The clock\<close>

definition hardclock :: "(ksys \<Rightarrow> ksys option) \<Rightarrow> ksys \<Rightarrow> (ksys \<times> int \<times> bool) option" where
  "hardclock idle s =
     do {
       s \<leftarrow> upd_cpu (curcpu s) (\<lambda>c. c\<lparr>c_hardclocks := (c_hardclocks c + 1) mod 2 ^ 32\<rparr>) s;
       cp \<leftarrow> cpus s (curcpu s);
       s \<leftarrow> (if c_hardclocks cp mod 16 = 0 then thread_consider_migration s else Some s);
       cp \<leftarrow> cpus s (curcpu s);
       s \<leftarrow> (if c_hardclocks cp mod 4 = 0 then schedule s else Some s);
       thread_yield idle s
     }"

text \<open>The wait channel and lock of \<^verbatim>\<open>lbolt\<close> are arguments.\<close>

definition hardclock_bootstrap :: "nat option \<Rightarrow> bool \<Rightarrow> lock_id \<Rightarrow> ksys \<Rightarrow> (ksys \<times> nat) option" where
  "hardclock_bootstrap mem addmem lbolt_lock s =
     do {
       let s = s\<lparr>locks := (locks s)(lbolt_lock := spinlock_init)\<rparr>;
       (s, lbolt) \<leftarrow> wchan_create mem addmem ''lbolt'' s;
       lbolt \<leftarrow> lbolt;
       Some (s, lbolt)
     }"

definition timerclock :: "nat \<Rightarrow> lock_id \<Rightarrow> ksys \<Rightarrow> ksys option" where
  "timerclock lbolt lbolt_lock s =
     do {
       s \<leftarrow> acquire lbolt_lock s;
       s \<leftarrow> wchan_wakeall lbolt lbolt_lock s;
       release lbolt_lock s
     }"
end
