(* ===== verification/Sched.thy ===== *)
theory Sched
  imports Thread
begin

text \<open>
  What the thread system of Thread guarantees. \<open>sys_ok\<close> is its invariant between calls: the pointer
  heap represents the queues, every queued thread is in the state and on the CPU its queue says,
  every suspended thread keeps the interrupt level the switch left it with, and the spinlocks held
  are exactly the ones named. The lemmas carry it through wake-ups, the context switch, exits and
  migration.
\<close>

section \<open>The invariant\<close>

text \<open>A suspended thread: its state, and the level \<^verbatim>\<open>thread_switch\<close> stops it at, with the run
  queue lock held and the level raised.\<close>

definition parked :: "ksys \<Rightarrow> threadstate \<Rightarrow> nat \<Rightarrow> bool" where
  "parked s st t \<longleftrightarrow> (case threads s t of None \<Rightarrow> False
     | Some th \<Rightarrow> t_state th = st \<and> t_saved_spl th = IPL_HIGH \<and> t_saved_count th = 2 \<and>
         t_cpu th \<in> Some ` dom (cpus s))"

definition on_cpu :: "ksys \<Rightarrow> nat \<Rightarrow> nat \<Rightarrow> bool" where
  "on_cpu s c t \<longleftrightarrow> (\<exists>th. threads s t = Some th \<and> t_cpu th = Some c)"

definition locks_ok :: "lock_id set \<Rightarrow> ksys \<Rightarrow> bool" where
  "locks_ok H s \<longleftrightarrow> spl_inv (view s) \<and> c_self (view s) = curcpu s \<and> finite H \<and>
     c_spinlocks (view s) = card H \<and>
     (\<forall>l. locks s l = (if l \<in> H then owned (curcpu s) else spinlock_init))"

text \<open>What being on the list \<open>l\<close> asks of a thread.\<close>

definition fits :: "ksys \<Rightarrow> nat \<Rightarrow> nat \<Rightarrow> bool" where
  "fits s l t \<longleftrightarrow> (\<forall>c. l = runq_of c \<longrightarrow> parked s S_READY t \<and> on_cpu s c t) \<and>
     (\<forall>c. l = zombies_of c \<longrightarrow> parked s S_ZOMBIE t \<and> t_proc (the (threads s t)) = None) \<and>
     (\<forall>w. l = sleepers_of w \<longrightarrow> parked s S_SLEEP t)"

definition queues_ok :: "ksys \<Rightarrow> (nat \<Rightarrow> nat list option) \<Rightarrow> bool" where
  "queues_ok s L \<longleftrightarrow>
     (\<forall>c \<in> dom (cpus s). runq_of c \<in> dom L \<and> zombies_of c \<in> dom L) \<and>
     (\<forall>w \<in> dom (wchans s). sleepers_of w \<in> dom L) \<and>
     (\<forall>l q. L l = Some q \<longrightarrow> (\<forall>t \<in> set q. fits s l t))"

lemma fits_simps [simp]:
  "fits s (runq_of c) t \<longleftrightarrow> parked s S_READY t \<and> on_cpu s c t"
  "fits s (zombies_of c) t \<longleftrightarrow> parked s S_ZOMBIE t \<and> t_proc (the (threads s t)) = None"
  "fits s (sleepers_of w) t \<longleftrightarrow> parked s S_SLEEP t" "fits s (local_of a) t"
  by (auto simp: fits_def)

definition sys_ok :: "lock_id set \<Rightarrow> ksys \<Rightarrow> (nat \<Rightarrow> nat list option) \<Rightarrow> nat set \<Rightarrow> bool" where
  "sys_ok H s L U \<longleftrightarrow> reps (heap s) L U \<and> locks_ok H s \<and> queues_ok s L \<and>
     finite (dom (threads s)) \<and> card (dom (threads s)) < 2 ^ 32 \<and>
     (\<forall>l q. L l = Some q \<longrightarrow> set q \<subseteq> dom (threads s)) \<and>
     curcpu s \<in> dom (cpus s) \<and> curthread s \<in> U \<and> on_cpu s (curcpu s) (curthread s)"

text \<open>What the list operations and wake-ups leave alone.\<close>

definition same_env :: "ksys \<Rightarrow> ksys \<Rightarrow> bool" where
  "same_env s s' \<longleftrightarrow> curthread s' = curthread s \<and> curcpu s' = curcpu s \<and> view s' = view s \<and>
     locks s' = locks s \<and> wchans s' = wchans s \<and> allwchans s' = allwchans s \<and>
     allcpus s' = allcpus s \<and> p_threads s' = p_threads s \<and> activated s' = activated s \<and>
     dom (cpus s') = dom (cpus s) \<and> dom (threads s') = dom (threads s)"

lemma same_env_refl [simp]: "same_env s s"
  by (simp add: same_env_def)

lemma same_env_trans: "same_env s s' \<Longrightarrow> same_env s' s'' \<Longrightarrow> same_env s s''"
  by (simp add: same_env_def)

lemma sys_reps: "sys_ok H s L U \<Longrightarrow> reps (heap s) L U"
  by (simp add: sys_ok_def)

lemma queues_exist:
  assumes "sys_ok H s L U"
  shows "c \<in> dom (cpus s) \<Longrightarrow> \<exists>q. L (runq_of c) = Some q"
    and "c \<in> dom (cpus s) \<Longrightarrow> \<exists>q. L (zombies_of c) = Some q"
    and "w \<in> dom (wchans s) \<Longrightarrow> \<exists>q. L (sleepers_of w) = Some q"
proof -
  have q: "queues_ok s L" using assms by (simp add: sys_ok_def)
  show "\<exists>q. L (runq_of c) = Some q" if "c \<in> dom (cpus s)"
    using q that unfolding queues_ok_def by (meson domD)
  show "\<exists>q. L (zombies_of c) = Some q" if "c \<in> dom (cpus s)"
    using q that unfolding queues_ok_def by (meson domD)
  show "\<exists>q. L (sleepers_of w) = Some q" if "w \<in> dom (wchans s)"
    using q that unfolding queues_ok_def by (meson domD)
qed

lemma on_lists: "sys_ok H s L U \<Longrightarrow> L l = Some q \<Longrightarrow> set q \<subseteq> dom (threads s)"
  by (simp add: sys_ok_def)

lemma on_list_fits: "sys_ok H s L U \<Longrightarrow> L l = Some q \<Longrightarrow> t \<in> set q \<Longrightarrow> fits s l t"
  by (simp add: sys_ok_def queues_ok_def)

lemma queue_room:
  assumes "sys_ok H s L U" and "L l = Some q" and "t \<in> U" and "t \<in> dom (threads s)"
  shows "length q + 1 < 2 ^ 32"
proof -
  have q: "distinct q" "t \<notin> set q" "set q \<subseteq> dom (threads s)"
    using assms thl.elems_distinct [OF sys_reps [OF assms(1)] assms(2)] by (auto simp: sys_ok_def)
  have "length q + 1 = card (insert t (set q))" using q by (simp add: distinct_card)
  also have "\<dots> \<le> card (dom (threads s))"
    using q assms(4) assms(1) by (intro card_mono) (auto simp: sys_ok_def)
  finally show ?thesis using assms(1) by (simp add: sys_ok_def)
qed

lemma locks_ok_cong:
  "locks s' = locks s \<Longrightarrow> view s' = view s \<Longrightarrow> curcpu s' = curcpu s \<Longrightarrow>
     locks_ok H s' = locks_ok H s"
  by (simp add: locks_ok_def)

lemma locks_ok_acquire:
  assumes "locks_ok H s" and "l \<notin> H"
  shows "acquire l s = Some (held_by_me l s)" and "locks_ok (insert l H) (held_by_me l s)"
  using assms by (auto simp: locks_ok_def spl_inv_bump intro!: acquire_free)

lemma locks_ok_release:
  assumes "locks_ok H s" and "l \<in> H"
  shows "release l s = Some (let_go l s)" and "locks_ok (H - {l}) (let_go l s)"
proof -
  have "0 < card H" using assms by (auto simp: locks_ok_def card_gt_0_iff)
  then show "release l s = Some (let_go l s)" "locks_ok (H - {l}) (let_go l s)"
    using assms by (auto simp: locks_ok_def spl_inv_unbump intro!: release_mine)
qed

lemma let_go_held:
  assumes "locks_ok H s" and "l \<notin> H"
  shows "let_go l (held_by_me l s) = s"
proof -
  have "(locks s)(l := spinlock_init) = locks s" using assms by (auto simp: locks_ok_def)
  then show ?thesis using assms
    by (cases s) (simp add: let_go_def held_by_me_def unbump_bump locks_ok_def)
qed

lemma release_held_update:
  assumes "locks_ok H s" and "l \<notin> H" and "locks s' = locks (held_by_me l s)"
    and "view s' = view (held_by_me l s)"
  shows "release l s' = Some (s'\<lparr>locks := locks s, view := view s\<rparr>)"
  using assms by (intro critical_section) (auto simp: locks_ok_def)

section \<open>Wake-ups\<close>

text \<open>The interrupt sent to an idle CPU.\<close>

definition pinged :: "nat \<Rightarrow> nat \<Rightarrow> ksys \<Rightarrow> ksys" where
  "pinged c code s = s\<lparr>cpus := (cpus s)(c \<mapsto> (the (cpus s c))\<lparr>c_ipi_pending :=
       c_ipi_pending (the (cpus s c)) OR push_bit code 1\<rparr>), sent := c # sent s\<rparr>"

lemma pinged_simps [simp]:
  "heap (pinged c code s) = heap s" "threads (pinged c code s) = threads s"
  "allcpus (pinged c code s) = allcpus s" "wchans (pinged c code s) = wchans s"
  "allwchans (pinged c code s) = allwchans s" "p_threads (pinged c code s) = p_threads s"
  "curcpu (pinged c code s) = curcpu s" "curthread (pinged c code s) = curthread s"
  "activated (pinged c code s) = activated s" "view (pinged c code s) = view s"
  "locks (pinged c code s) = locks s" "dom (cpus (pinged c code s)) = insert c (dom (cpus s))"
  by (auto simp: pinged_def)

lemma ipi_send_pinged:
  assumes "locks_ok H s" and "IpiLock c \<notin> H" and "c \<in> dom (cpus s)" and "code < 32"
  shows "ipi_send c code s = Some (pinged c code s)"
proof -
  obtain cp where cp: "cpus s c = Some cp" using assms(3) by auto
  let ?h = "held_by_me (IpiLock c) s"
  let ?s = "?h\<lparr>cpus := (cpus s)(c \<mapsto> cp\<lparr>c_ipi_pending := c_ipi_pending cp OR push_bit code 1\<rparr>),
      sent := c # sent s\<rparr>"
  have "release (IpiLock c) ?s = Some (?s\<lparr>locks := locks s, view := view s\<rparr>)"
    using assms(1,2) by (intro release_held_update [of H]) simp_all
  moreover have "?s\<lparr>locks := locks s, view := view s\<rparr> = pinged c code s"
    by (simp add: pinged_def held_by_me_def cp)
  ultimately show ?thesis using assms locks_ok_acquire(1) [OF assms(1,2)]
    by (simp add: ipi_send_def upd_cpu_def cp Let_def)
qed

text \<open>The state in which \<open>t\<close> has been made ready on the CPU \<open>c\<close>, with the heap \<open>h\<close>.\<close>

definition woken :: "nat \<Rightarrow> nat \<Rightarrow> list_heap \<Rightarrow> ksys \<Rightarrow> ksys" where
  "woken c t h s =
    (let s' = s\<lparr>heap := h, threads := (threads s)(t \<mapsto> (the (threads s t))\<lparr>t_state := S_READY\<rparr>)\<rparr>
     in if c_isidle (the (cpus s c)) then pinged c IPI_UNIDLE s' else s')"

lemma woken_simps [simp]:
  "heap (woken c t h s) = h"
  "threads (woken c t h s) = (threads s)(t \<mapsto> (the (threads s t))\<lparr>t_state := S_READY\<rparr>)"
  "allcpus (woken c t h s) = allcpus s" "wchans (woken c t h s) = wchans s"
  "allwchans (woken c t h s) = allwchans s" "p_threads (woken c t h s) = p_threads s"
  "curcpu (woken c t h s) = curcpu s" "curthread (woken c t h s) = curthread s"
  "activated (woken c t h s) = activated s" "view (woken c t h s) = view s"
  "locks (woken c t h s) = locks s"
  by (simp_all add: woken_def Let_def)

lemma woken_cpus: "c \<in> dom (cpus s) \<Longrightarrow> dom (cpus (woken c t h s)) = dom (cpus s)"
  by (auto simp: woken_def Let_def pinged_def)

text \<open>Making a thread ready that is on no list: it goes to the end of its CPU's run queue.\<close>

lemma make_runnable_woken:
  assumes ok: "sys_ok H s L U" and t: "t \<in> U" "on_cpu s c t"
    and c: "c \<in> dom (cpus s)" "RunqueueLock c \<notin> H" "IpiLock c \<notin> H" and q: "L (runq_of c) = Some q"
  shows "\<exists>h. thread_make_runnable t False s = Some (woken c t h s) \<and>
    reps h (L(runq_of c \<mapsto> q @ [t])) (U - {t})"
proof -
  obtain th cp where th: "threads s t = Some th" "t_cpu th = Some c" and cp: "cpus s c = Some cp"
    using t(2) c(1) by (auto simp: on_cpu_def)
  have locks: "locks_ok H s" using ok by (simp add: sys_ok_def)
  obtain h where h: "threadlist_addtail (runq_of c) t (heap s) = Some h"
    "reps h (L(runq_of c \<mapsto> q @ [t])) (U - {t})"
    using thl.addtail_free [OF sys_reps [OF ok] q t(1)] queue_room [OF ok q t(1)] th(1) by auto
  let ?R = "RunqueueLock c"
  let ?s1 = "held_by_me ?R s"
  let ?s2 = "?s1\<lparr>threads := (threads s)(t \<mapsto> th\<lparr>t_state := S_READY\<rparr>), heap := h\<rparr>"
  let ?s3 = "if c_isidle cp then pinged c IPI_UNIDLE ?s2 else ?s2"
  have l2: "locks_ok (insert ?R H) ?s2"
    using locks_ok_acquire(2) [OF locks c(2)]
    by (subst locks_ok_cong [of _ ?s1]) simp_all
  have s3: "(if c_isidle cp then ipi_send c IPI_UNIDLE ?s2 else Some ?s2) = Some ?s3"
    using ipi_send_pinged [OF l2, of c IPI_UNIDLE] c(1,3) by simp
  have "release ?R ?s3 = Some (?s3\<lparr>locks := locks s, view := view s\<rparr>)"
    using locks c(2) by (intro release_held_update [of H]) simp_all
  moreover have "?s3\<lparr>locks := locks s, view := view s\<rparr> = woken c t h s"
    by (simp add: woken_def pinged_def held_by_me_def cp th Let_def)
  ultimately have "thread_make_runnable t False s = Some (woken c t h s)"
    using s3 locks_ok_acquire(1) [OF locks c(2)] h(1) th cp
    by (cases "c_isidle cp") (simp_all add: thread_make_runnable_def upd_thread_def add_tail_def)
  then show ?thesis using h(2) by blast
qed

lemma heap_update [simp]:
  "parked (s\<lparr>heap := h\<rparr>) st t = parked s st t" "on_cpu (s\<lparr>heap := h\<rparr>) c t = on_cpu s c t"
  by (simp_all add: parked_def on_cpu_def cong: option.case_cong)

text \<open>Updates that keep the invariant: \<open>t\<close> changes, and with it only the queue it joins.\<close>

lemma parked_cong:
  assumes "threads s' t = threads s t" and "dom (cpus s') = dom (cpus s)"
  shows "parked s' st t = parked s st t"
  unfolding parked_def assms ..

lemma on_cpu_cong: "threads s' t = threads s t \<Longrightarrow> on_cpu s' c t = on_cpu s c t"
  by (simp add: on_cpu_def)

lemma fits_cong:
  assumes "threads s' t = threads s t" and "dom (cpus s') = dom (cpus s)"
  shows "fits s' l t = fits s l t"
  unfolding fits_def parked_def on_cpu_def assms ..

lemma fits_heap [simp]: "fits (s\<lparr>heap := h\<rparr>) l t = fits s l t"
  by (rule fits_cong) simp_all

lemma queues_ok_join:
  assumes ok: "queues_ok s L" and t: "\<And>l q. L l = Some q \<Longrightarrow> t \<notin> set q"
    and q: "L d = Some q" and th: "fits s' d t"
    and same: "\<And>x. x \<noteq> t \<Longrightarrow> threads s' x = threads s x" "dom (cpus s') = dom (cpus s)"
      "wchans s' = wchans s"
  shows "queues_ok s' (L(d \<mapsto> q @ [t]))"
proof -
  have old: "fits s' l x" if "x \<in> set q'" "L l = Some q'" for x q' l
    using ok t [OF that(2)] that same fits_cong [of s' x s] unfolding queues_ok_def by metis
  have "fits s' l x" if "x \<in> set q'" "(L(d \<mapsto> q @ [t])) l = Some q'" for x q' l
    using that old [of x q l] old [of x q' l] q th by (auto split: if_splits)
  then show ?thesis using ok same unfolding queues_ok_def by (auto simp del: domIff)
qed

lemma make_runnable_ok:
  assumes ok: "sys_ok H s L U" and t: "t \<in> U" "t \<noteq> curthread s" "parked s st t" "on_cpu s c t"
    and c: "RunqueueLock c \<notin> H" "IpiLock c \<notin> H"
  shows "\<exists>s' q. thread_make_runnable t False s = Some s' \<and> L (runq_of c) = Some q \<and>
    sys_ok H s' (L(runq_of c \<mapsto> q @ [t])) (U - {t}) \<and> same_env s s' \<and> parked s' S_READY t \<and>
    (\<forall>x. x \<noteq> t \<longrightarrow> threads s' x = threads s x) \<and>
    threads s' t = Some ((the (threads s t))\<lparr>t_state := S_READY\<rparr>)"
proof -
  obtain th where th: "threads s t = Some th" "t_cpu th = Some c" and cin: "c \<in> dom (cpus s)"
    using t(3,4) by (fastforce simp: parked_def on_cpu_def simp del: domIff)
  obtain q where q: "L (runq_of c) = Some q"
    using queues_exist(1) [OF ok cin] by blast
  obtain h where h: "thread_make_runnable t False s = Some (woken c t h s)"
    "reps h (L(runq_of c \<mapsto> q @ [t])) (U - {t})"
    using make_runnable_woken [OF ok t(1,4) cin c q] by blast
  let ?s = "woken c t h s"
  have dom: "dom (cpus ?s) = dom (cpus s)" "dom (threads ?s) = dom (threads s)"
    using cin th by (auto simp: woken_cpus)
  have p: "parked ?s S_READY t" "on_cpu ?s c t"
    using t(3) th dom by (simp_all add: parked_def on_cpu_def)
  have fresh: "t \<notin> set xs" if "L l = Some xs" for l xs
    using thl.elems_distinct [OF sys_reps [OF ok] that] t(1) by auto
  have "queues_ok ?s (L(runq_of c \<mapsto> q @ [t]))"
    using ok q p dom fresh by (intro queues_ok_join [of s]) (auto simp: sys_ok_def)
  moreover have "locks_ok H ?s" using ok locks_ok_cong [of ?s s H] by (simp add: sys_ok_def)
  moreover have "on_cpu ?s (curcpu s) (curthread s)"
    using ok t(2) on_cpu_cong [of ?s "curthread s" s] by (simp add: sys_ok_def)
  moreover have "set xs \<subseteq> dom (threads s)" if "(L(runq_of c \<mapsto> q @ [t])) l = Some xs" for l xs
    using on_lists [OF ok q] on_lists [OF ok, of l xs] th that by (cases "l = runq_of c") auto
  ultimately have "sys_ok H ?s (L(runq_of c \<mapsto> q @ [t])) (U - {t})"
    using ok t(2) h(2) dom by (simp add: sys_ok_def)
  then show ?thesis using h(1) q p dom by (auto simp: same_env_def)
qed


text \<open>Taking threads off a list, and a list of the caller's own.\<close>

lemma queues_ok_upd:
  assumes "queues_ok s L" and "L l = Some q" and "set q' \<subseteq> set q"
  shows "queues_ok s (L(l \<mapsto> q'))"
  using assms unfolding queues_ok_def by (auto simp del: domIff split: if_splits)

lemma sys_ok_shrink:
  assumes "sys_ok H s L U" and "L l = Some q" and "set q' \<subseteq> set q"
    and "reps h (L(l \<mapsto> q')) U'" and "U \<subseteq> U'"
  shows "sys_ok H (s\<lparr>heap := h\<rparr>) (L(l \<mapsto> q')) U'"
proof -
  have "queues_ok (s\<lparr>heap := h\<rparr>) (L(l \<mapsto> q')) = queues_ok s (L(l \<mapsto> q'))"
    by (simp add: queues_ok_def)
  moreover have "locks_ok H (s\<lparr>heap := h\<rparr>) = locks_ok H s" by (rule locks_ok_cong) simp_all
  ultimately show ?thesis
    using assms queues_ok_upd [of s L l q q'] on_lists [OF assms(1)]
    by (auto simp: sys_ok_def subset_iff)
qed

lemma rem_head_ok:
  assumes "sys_ok H s L U" and "L l = Some (t # q)"
  shows "\<exists>h. rem_head l s = Some (s\<lparr>heap := h\<rparr>, Some t) \<and>
    sys_ok H (s\<lparr>heap := h\<rparr>) (L(l \<mapsto> q)) (insert t U)"
proof -
  obtain h where h: "threadlist_remhead l (heap s) = Some (h, Some t)"
    "reps h (L(l \<mapsto> q)) (insert t U)"
    using thl.remhead_cons [OF sys_reps [OF assms(1)] assms(2)] by blast
  then show ?thesis using sys_ok_shrink [OF assms _ h(2)] by (auto simp: rem_head_def)
qed

lemma rem_head_empty:
  "reps (heap s) L U \<Longrightarrow> L l = Some [] \<Longrightarrow> rem_head l s = Some (s, None)"
  by (simp add: rem_head_def thl.remhead_empty)

lemma not_current:
  assumes "sys_ok H s L U" and "L l = Some q" and "t \<in> set q"
  shows "t \<notin> U" and "t \<noteq> curthread s" and "t \<in> dom (threads s)"
proof -
  show "t \<notin> U" using thl.elems_distinct [OF sys_reps [OF assms(1)] assms(2)] assms(3) by auto
  then show "t \<noteq> curthread s" using assms(1) by (auto simp: sys_ok_def)
  show "t \<in> dom (threads s)" using on_lists [OF assms(1,2)] assms(3) by auto
qed

lemma move_all_moves:
  assumes "reps (heap s) L U" and "L src = Some xs" and "L dst = Some ys" and "src \<noteq> dst"
    and "length ys + length xs < 2 ^ 32"
  shows "\<exists>h. move_all src dst s = Some (s\<lparr>heap := h\<rparr>) \<and> reps h (L(src \<mapsto> [], dst \<mapsto> ys @ xs)) U"
  using assms
proof (induction xs arbitrary: s L U ys)
  case Nil
  then have L: "L(src \<mapsto> [], dst \<mapsto> ys @ []) = L" by (simp add: map_upd_triv)
  show ?case unfolding L using Nil rem_head_empty [OF Nil.prems(1,2)]
    by (intro exI [of _ "heap s"]) (simp add: move_all.simps)
next
  case (Cons t xs)
  obtain h1 where h1: "threadlist_remhead src (heap s) = Some (h1, Some t)"
    "reps h1 (L(src \<mapsto> xs)) (insert t U)"
    using thl.remhead_cons [OF Cons.prems(1,2)] by blast
  have t: "t \<notin> U" using thl.elems_distinct [OF Cons.prems(1,2)] by auto
  obtain h2 where h2: "threadlist_addtail dst t h1 = Some h2"
    "reps h2 (L(src \<mapsto> xs, dst \<mapsto> ys @ [t])) (insert t U - {t})"
    using thl.addtail_free [OF h1(2), of dst ys t] Cons.prems(3,4,5) by auto
  have U: "insert t U - {t} = U" using t by auto
  let ?L = "L(src \<mapsto> xs, dst \<mapsto> ys @ [t])"
  have L1: "reps (heap (s\<lparr>heap := h2\<rparr>)) ?L U" "?L src = Some xs" "?L dst = Some (ys @ [t])"
    "length (ys @ [t]) + length xs < 2 ^ 32"
    using h2(2) U Cons.prems(4,5) by simp_all
  have "\<exists>h. move_all src dst (s\<lparr>heap := h2\<rparr>) = Some (s\<lparr>heap := h2\<rparr>\<lparr>heap := h\<rparr>) \<and>
      reps h (?L(src \<mapsto> [], dst \<mapsto> (ys @ [t]) @ xs)) U"
    by (rule Cons.IH [OF L1(1,2,3) Cons.prems(4) L1(4)])
  moreover have "?L(src \<mapsto> [], dst \<mapsto> (ys @ [t]) @ xs) = L(src \<mapsto> [], dst \<mapsto> ys @ t # xs)"
    using Cons.prems(4) by (auto simp: fun_upd_def)
  ultimately obtain h where h: "move_all src dst (s\<lparr>heap := h2\<rparr>) = Some (s\<lparr>heap := h\<rparr>)"
    "reps h (L(src \<mapsto> [], dst \<mapsto> ys @ t # xs)) U" by auto
  have "move_all src dst s = move_all src dst (s\<lparr>heap := h2\<rparr>)"
    using h1(1) h2(1) by (subst move_all.simps) (simp add: rem_head_def add_tail_def)
  then have "move_all src dst s = Some (s\<lparr>heap := h\<rparr>)" using h(1) by simp
  then show ?case using h(2) by blast
qed

text \<open>Waking a list of threads: each goes to the end of the run queue of its own CPU.\<close>

definition cpu_of :: "ksys \<Rightarrow> nat \<Rightarrow> nat" where
  "cpu_of s t = the (t_cpu (the (threads s t)))"

definition delivered :: "ksys \<Rightarrow> nat list \<Rightarrow> (nat \<Rightarrow> nat list option) \<Rightarrow> nat \<Rightarrow> nat list option" where
  "delivered s ts L l = map_option (\<lambda>q. q @ filter (\<lambda>t. runq_of (cpu_of s t) = l) ts) (L l)"

lemma delivered_Nil [simp]: "delivered s [] L = L"
  by (auto simp: delivered_def option.map_ident)

lemma delivered_Cons:
  "L (runq_of (cpu_of s t)) = Some q \<Longrightarrow>
     delivered s (t # ts) L = delivered s ts (L(runq_of (cpu_of s t) \<mapsto> q @ [t]))"
  by (auto simp: delivered_def)

lemma delivered_cong:
  "(\<And>t. t \<in> set ts \<Longrightarrow> threads s' t = threads s t) \<Longrightarrow> delivered s' ts L = delivered s ts L"
  by (auto simp: delivered_def cpu_of_def fun_eq_iff intro!: arg_cong [where f = "\<lambda>g. map_option g _"]
      filter_cong)

lemma parked_cpu: "parked s st t \<Longrightarrow> on_cpu s (cpu_of s t) t"
  by (auto simp: parked_def on_cpu_def cpu_of_def split: option.splits)


definition no_sched_locks :: "lock_id set \<Rightarrow> bool" where
  "no_sched_locks H \<longleftrightarrow> (\<forall>c. RunqueueLock c \<notin> H \<and> IpiLock c \<notin> H)"

lemma wake_listed_ok:
  assumes "sys_ok H s L U" and "L l = Some ts" and "\<And>c. l \<noteq> runq_of c"
    and "\<And>t. t \<in> set ts \<Longrightarrow> parked s S_SLEEP t" and "no_sched_locks H"
  shows "\<exists>s'. wake_listed l s = Some s' \<and> sys_ok H s' (delivered s ts (L(l \<mapsto> []))) U \<and>
    same_env s s' \<and> (\<forall>t \<in> set ts. parked s' S_READY t) \<and>
    (\<forall>x. x \<notin> set ts \<longrightarrow> threads s' x = threads s x)"
  using assms
proof (induction ts arbitrary: s L)
  case Nil
  then have "L(l \<mapsto> []) = L" by (simp add: map_upd_triv)
  then show ?case using Nil rem_head_empty [OF sys_reps [OF Nil.prems(1)] Nil.prems(2)]
    by (intro exI [of _ s]) (simp add: wake_listed.simps)
next
  case (Cons t ts)
  let ?c = "cpu_of s t" and ?L = "L(l \<mapsto> ts)"
  obtain h where h: "rem_head l s = Some (s\<lparr>heap := h\<rparr>, Some t)"
    "sys_ok H (s\<lparr>heap := h\<rparr>) ?L (insert t U)"
    using rem_head_ok [OF Cons.prems(1,2)] by blast
  have t: "t \<notin> U" "t \<noteq> curthread s" using not_current [OF Cons.prems(1,2), of t] by auto
  have p: "parked (s\<lparr>heap := h\<rparr>) S_SLEEP t" "on_cpu (s\<lparr>heap := h\<rparr>) ?c t"
    using Cons.prems(4) [of t] parked_cpu by auto
  obtain s1 q where s1: "thread_make_runnable t False (s\<lparr>heap := h\<rparr>) = Some s1"
    "?L (runq_of ?c) = Some q" "sys_ok H s1 (?L(runq_of ?c \<mapsto> q @ [t])) (insert t U - {t})"
    "same_env (s\<lparr>heap := h\<rparr>) s1" "parked s1 S_READY t" "\<forall>x. x \<noteq> t \<longrightarrow> threads s1 x = threads s x"
    using make_runnable_ok [OF h(2) insertI1 _ p] t(2) Cons.prems(5)
    by (auto simp: no_sched_locks_def)
  have U: "insert t U - {t} = U" using t(1) by auto
  have dom: "dom (cpus s1) = dom (cpus s)" using s1(4) by (simp add: same_env_def)
  have d: "distinct (t # ts)"
    using thl.elems_distinct [OF sys_reps [OF Cons.prems(1)] Cons.prems(2)] by simp
  have ts: "threads s1 x = threads s x" "parked s1 S_SLEEP x" if "x \<in> set ts" for x
  proof -
    show "threads s1 x = threads s x" using s1(6) d that by auto
    then show "parked s1 S_SLEEP x"
      using parked_cong [of s1 x s] dom Cons.prems(4) [of x] that by simp
  qed
  let ?L1 = "?L(runq_of ?c \<mapsto> q @ [t])"
  have L1: "?L1 l = Some ts" using Cons.prems(3) [of ?c] by simp
  obtain s' where s': "wake_listed l s1 = Some s'" "sys_ok H s' (delivered s1 ts (?L1(l \<mapsto> []))) U"
    "same_env s1 s'" "\<forall>t \<in> set ts. parked s' S_READY t" "\<forall>x. x \<notin> set ts \<longrightarrow> threads s' x = threads s1 x"
    using Cons.IH [OF s1(3) [unfolded U] L1 Cons.prems(3) ts(2) Cons.prems(5)] by blast
  have "?L1(l \<mapsto> []) = L(l \<mapsto> [], runq_of ?c \<mapsto> q @ [t])"
    using Cons.prems(3) [of ?c] by (auto simp: fun_upd_def)
  then have del: "delivered s1 ts (?L1(l \<mapsto> [])) = delivered s (t # ts) (L(l \<mapsto> []))"
    using s1(2) Cons.prems(3) [of ?c] ts(1)
    by (simp add: delivered_Cons [where q = q] delivered_cong [of ts s1 s])
  have "wake_listed l s = Some s'"
    using h(1) s1(1) s'(1) by (subst wake_listed.simps) simp
  moreover have "same_env s s'" using s1(4) s'(3) by (simp add: same_env_def)
  moreover have "\<forall>t \<in> set (t # ts). parked s' S_READY t"
    using s'(4,5) d s1(5) s'(3) parked_cong [of s' t s1] by (simp add: same_env_def)
  moreover have "threads s' x = threads s x" if "x \<notin> set (t # ts)" for x
    using s1(6) s'(5) that by simp
  ultimately show ?case using s'(2) [unfolded del] by blast
qed

lemma sys_ok_new_list:
  assumes "sys_ok H s L U" and "L l = None"
  shows "sys_ok H (s\<lparr>heap := threadlist_init l (heap s)\<rparr>) (L(l \<mapsto> [])) U"
proof -
  let ?s = "s\<lparr>heap := threadlist_init l (heap s)\<rparr>"
  have "queues_ok ?s (L(l \<mapsto> []))"
    using assms(1) unfolding sys_ok_def queues_ok_def by (auto simp del: domIff split: if_splits)
  moreover have "locks_ok H ?s" using assms(1) locks_ok_cong [of ?s s H] by (simp add: sys_ok_def)
  ultimately show ?thesis
    using assms threadlist_init_reps [OF sys_reps [OF assms(1)] assms(2)] by (simp add: sys_ok_def)
qed

lemmas sys_ok_local = sys_ok_new_list [of _ _ _ _ "local_of a" for a]

lemma reps_drop: "reps h L U \<Longrightarrow> reps h (L(l := None)) U"
  by (simp add: reps_def)

lemma sys_ok_drop_local:
  assumes "sys_ok H s L U"
  shows "sys_ok H s (L(local_of a := None)) U"
  using assms reps_drop [of "heap s" L U] by (auto simp: sys_ok_def queues_ok_def)


section \<open>Wait channels\<close>

lemma wakeone_ok:
  assumes ok: "sys_ok H s L U" and lk: "lk \<in> H" "no_sched_locks H"
    and q: "L (sleepers_of w) = Some (t # ts)"
  shows "\<exists>s'. wchan_wakeone w lk s = Some s' \<and> same_env s s' \<and> parked s' S_READY t \<and>
    sys_ok H s' (delivered s [t] (L(sleepers_of w \<mapsto> ts))) U"
proof -
  have hold: "do_i_hold lk s" using ok lk(1) by (simp add: sys_ok_def locks_ok_def)
  obtain h where h: "rem_head (sleepers_of w) s = Some (s\<lparr>heap := h\<rparr>, Some t)"
    "sys_ok H (s\<lparr>heap := h\<rparr>) (L(sleepers_of w \<mapsto> ts)) (insert t U)"
    using rem_head_ok [OF ok q] by blast
  have t: "t \<notin> U" "t \<noteq> curthread s" using not_current [OF ok q, of t] by auto
  have "parked s S_SLEEP t" using on_list_fits [OF ok q, of t] by simp
  then have p: "parked (s\<lparr>heap := h\<rparr>) S_SLEEP t" "on_cpu (s\<lparr>heap := h\<rparr>) (cpu_of s t) t"
    using parked_cpu by auto
  obtain s' q' where s': "thread_make_runnable t False (s\<lparr>heap := h\<rparr>) = Some s'"
    "(L(sleepers_of w \<mapsto> ts)) (runq_of (cpu_of s t)) = Some q'" "same_env (s\<lparr>heap := h\<rparr>) s'"
    "sys_ok H s' (L(sleepers_of w \<mapsto> ts, runq_of (cpu_of s t) \<mapsto> q' @ [t])) (insert t U - {t})"
    "parked s' S_READY t"
    using make_runnable_ok [OF h(2) insertI1 _ p] t(2) lk(2) by (auto simp: no_sched_locks_def)
  have "insert t U - {t} = U" using t(1) by auto
  moreover have "delivered s [t] (L(sleepers_of w \<mapsto> ts)) =
      L(sleepers_of w \<mapsto> ts, runq_of (cpu_of s t) \<mapsto> q' @ [t])"
    using delivered_Cons [of "L(sleepers_of w \<mapsto> ts)" s t q' "[]"] s'(2) by simp
  ultimately show ?thesis using s' h(1) hold by (simp add: wchan_wakeone_def same_env_def)
qed

lemma wakeall_ok:
  assumes ok: "sys_ok H s L U" and lk: "lk \<in> H" "no_sched_locks H"
    and q: "L (sleepers_of w) = Some ts" and loc: "L (local_of (curthread s)) = None"
  shows "\<exists>s'. wchan_wakeall w lk s = Some s' \<and> same_env s s' \<and> (\<forall>t \<in> set ts. parked s' S_READY t) \<and>
    sys_ok H s' (delivered s ts (L(sleepers_of w \<mapsto> []))) U"
proof -
  let ?l = "local_of (curthread s)" and ?w = "sleepers_of w"
  let ?s = "s\<lparr>heap := threadlist_init ?l (heap s)\<rparr>"
  have hold: "do_i_hold lk s" using ok lk(1) by (simp add: sys_ok_def locks_ok_def)
  have ok1: "sys_ok H ?s (L(?l \<mapsto> [])) U" by (rule sys_ok_local [OF ok loc])
  have L1: "(L(?l \<mapsto> [])) ?w = Some ts" "(L(?l \<mapsto> [])) ?l = Some []" using q by simp_all
  have "length ts < 2 ^ 32"
    using sys_reps [OF ok] q by (auto simp: reps_def list_rep_def)
  then have "\<exists>h. move_all ?w ?l ?s = Some (?s\<lparr>heap := h\<rparr>) \<and>
      reps h (L(?l \<mapsto> [], ?w \<mapsto> [], ?l \<mapsto> [] @ ts)) U"
    by (intro move_all_moves [OF sys_reps [OF ok1] L1]) simp_all
  then obtain h where h: "move_all ?w ?l ?s = Some (?s\<lparr>heap := h\<rparr>)"
    "reps h (L(?l \<mapsto> [], ?w \<mapsto> [], ?l \<mapsto> [] @ ts)) U" by blast
  have eq: "L(?l \<mapsto> [], ?w \<mapsto> [], ?l \<mapsto> [] @ ts) = L(?w \<mapsto> [], ?l \<mapsto> ts)" by (auto simp: fun_upd_def)
  let ?L = "L(?w \<mapsto> [], ?l \<mapsto> ts)" and ?s2 = "s\<lparr>heap := h\<rparr>"
  have "queues_ok ?s2 ?L" using ok by (simp add: sys_ok_def queues_ok_def)
  moreover have "locks_ok H ?s2" using ok locks_ok_cong [of ?s2 s H] by (simp add: sys_ok_def)
  moreover have "set q' \<subseteq> dom (threads s)" if "?L l = Some q'" for l q'
    using that on_lists [OF ok q] on_lists [OF ok, of l q']
    by (auto simp del: domIff split: if_splits)
  ultimately have ok2: "sys_ok H ?s2 ?L U" using ok h(2) eq by (simp add: sys_ok_def)
  have sl: "parked ?s2 S_SLEEP t" if "t \<in> set ts" for t
    using on_list_fits [OF ok q that] by simp
  have ex: "\<exists>s'. wake_listed ?l ?s2 = Some s' \<and> sys_ok H s' (delivered ?s2 ts (?L(?l \<mapsto> []))) U \<and>
    same_env ?s2 s' \<and> (\<forall>t \<in> set ts. parked s' S_READY t) \<and>
    (\<forall>x. x \<notin> set ts \<longrightarrow> threads s' x = threads ?s2 x)"
    by (rule wake_listed_ok [OF ok2 _ _ sl lk(2)]) simp_all
  then obtain s' where s': "wake_listed ?l ?s2 = Some s'"
    "sys_ok H s' (delivered ?s2 ts (?L(?l \<mapsto> []))) U" "same_env ?s2 s'" "\<forall>t \<in> set ts. parked s' S_READY t"
    by blast
  have "delivered ?s2 ts (?L(?l \<mapsto> [])) ?l = Some []" by (simp add: delivered_def)
  then have clean: "threadlist_cleanup ?l (heap s') = Some (heap s')"
    using threadlist_cleanup_reps [OF sys_reps [OF s'(2)]] by simp
  have "(delivered ?s2 ts (?L(?l \<mapsto> [])))(?l := None) = delivered s ts (L(?w \<mapsto> []))"
    using loc by (auto simp: delivered_def cpu_of_def fun_eq_iff)
  then have "sys_ok H s' (delivered s ts (L(?w \<mapsto> []))) U"
    using sys_ok_drop_local [OF s'(2), of "curthread s"] by simp
  moreover have "wchan_wakeall w lk s = Some s'"
    using hold h(1) s'(1) clean by (simp add: wchan_wakeall_def Let_def)
  ultimately show ?thesis using s'(3,4) by (auto simp: same_env_def)
qed


section \<open>The context switch\<close>

lemma set_spl_ok:
  assumes "sys_ok H s L U" and "n = 0 \<or> n = 1"
  shows "\<exists>c. set_spl n s = Some (s\<lparr>view := c\<rparr>, t_curspl (view s)) \<and> t_curspl c = n \<and>
    sys_ok H (s\<lparr>view := c\<rparr>) L U"
proof -
  have inv: "spl_inv (view s)" using assms(1) by (simp add: sys_ok_def locks_ok_def)
  obtain c where c: "splx n (view s) = Some (t_curspl (view s), c)" "spl_inv c" "t_curspl c = n"
    "c_spinlocks c = c_spinlocks (view s)"
    using splx_inv [OF inv assms(2)] by blast
  have self: "c_self c = c_self (view s)"
    using c(1)
    by (auto simp: splx_def splraise_def spllower_def Let_def split: if_splits Option.bind_splits)
  have "queues_ok (s\<lparr>view := c\<rparr>) L"
    using assms(1) fits_cong [of "s\<lparr>view := c\<rparr>" _ s] by (simp add: sys_ok_def queues_ok_def)
  moreover have "on_cpu (s\<lparr>view := c\<rparr>) d t = on_cpu s d t" for d t by (rule on_cpu_cong) simp
  ultimately have "sys_ok H (s\<lparr>view := c\<rparr>) L U"
    using assms(1) c(2,4) self by (simp add: sys_ok_def locks_ok_def)
  then show ?thesis using c by (auto simp: set_spl_def)
qed

lemma sys_ok_acquire:
  assumes "sys_ok H s L U" and "l \<notin> H"
  shows "acquire l s = Some (held_by_me l s)" and "sys_ok (insert l H) (held_by_me l s) L U"
proof -
  have l: "locks_ok H s" using assms(1) by (simp add: sys_ok_def)
  show "acquire l s = Some (held_by_me l s)" by (rule locks_ok_acquire(1) [OF l assms(2)])
  have "queues_ok (held_by_me l s) L"
    using assms(1) fits_cong [of "held_by_me l s" _ s] by (simp add: sys_ok_def queues_ok_def)
  moreover have "on_cpu (held_by_me l s) d t = on_cpu s d t" for d t by (rule on_cpu_cong) simp
  ultimately show "sys_ok (insert l H) (held_by_me l s) L U"
    using assms(1) locks_ok_acquire(2) [OF l assms(2)] by (simp add: sys_ok_def)
qed

lemma sys_ok_release:
  assumes "sys_ok H s L U" and "l \<in> H"
  shows "release l s = Some (let_go l s)" and "sys_ok (H - {l}) (let_go l s) L U"
proof -
  have l: "locks_ok H s" using assms(1) by (simp add: sys_ok_def)
  show "release l s = Some (let_go l s)" by (rule locks_ok_release(1) [OF l assms(2)])
  have "queues_ok (let_go l s) L"
    using assms(1) fits_cong [of "let_go l s" _ s] by (simp add: sys_ok_def queues_ok_def)
  moreover have "on_cpu (let_go l s) d t = on_cpu s d t" for d t by (rule on_cpu_cong) simp
  ultimately show "sys_ok (H - {l}) (let_go l s) L U"
    using assms(1) locks_ok_release(2) [OF l assms(2)] by (simp add: sys_ok_def)
qed

text \<open>The list the switch puts the current thread on.\<close>

fun dest_of :: "threadstate \<Rightarrow> nat \<Rightarrow> nat \<Rightarrow> nat" where
  "dest_of S_SLEEP me w = sleepers_of w"
| "dest_of S_ZOMBIE me w = zombies_of me"
| "dest_of _ me w = runq_of me"

text \<open>Queueing the current thread: the heap gets it at the end of that list, its lock is released
  if it goes to sleep, and only its own name and state change.\<close>

lemma enqueue_current_ok:
  assumes ok: "sys_ok H s L U" and R: "RunqueueLock (curcpu s) \<in> H"
    and d: "L (dest_of st (curcpu s) w) = Some q" and st: "st \<noteq> S_RUN"
    and busy: "\<not> c_isidle (the (cpus s (curcpu s)))"
    and sleep: "st = S_SLEEP \<Longrightarrow> lk \<in> H \<and> lk \<noteq> RunqueueLock (curcpu s) \<and> w \<in> dom (wchans s)"
  shows "\<exists>s' th. enqueue_current st (Some (w, lk)) s = Some s' \<and>
    reps (heap s') (L(dest_of st (curcpu s) w \<mapsto> q @ [curthread s])) (U - {curthread s}) \<and>
    locks_ok (if st = S_SLEEP then H - {lk} else H) s' \<and> t_curspl (view s') = t_curspl (view s) \<and>
    threads s' = (threads s)(curthread s \<mapsto> th) \<and> t_cpu th = Some (curcpu s) \<and>
    t_proc th = t_proc (the (threads s (curthread s))) \<and>
    cpus s' = cpus s \<and> curcpu s' = curcpu s \<and> curthread s' = curthread s \<and> wchans s' = wchans s \<and>
    activated s' = activated s"
proof -
  let ?t = "curthread s" and ?me = "curcpu s"
  have cur: "?t \<in> U" "on_cpu s ?me ?t" "?me \<in> dom (cpus s)" using ok by (simp_all add: sys_ok_def)
  obtain th cp where th: "threads s ?t = Some th" "t_cpu th = Some ?me" and cp: "cpus s ?me = Some cp"
    using cur by (auto simp: on_cpu_def)
  have locks: "locks_ok H s" using ok by (simp add: sys_ok_def)
  obtain h where h: "threadlist_addtail (dest_of st ?me w) ?t (heap s) = Some h"
    "reps h (L(dest_of st ?me w \<mapsto> q @ [?t])) (U - {?t})"
    using thl.addtail_free [OF sys_reps [OF ok] d cur(1)] queue_room [OF ok d cur(1)] th(1) by auto
  have hold: "do_i_hold (RunqueueLock ?me) s" using locks R by (simp add: locks_ok_def)
  show ?thesis
  proof (cases st)
    case S_RUN
    then show ?thesis using st by simp
  next
    case S_READY
    let ?s = "s\<lparr>threads := (threads s)(?t \<mapsto> th\<lparr>t_state := S_READY\<rparr>), heap := h\<rparr>"
    have "locks_ok H ?s" using locks locks_ok_cong [of ?s s H] by simp
    moreover have "enqueue_current st (Some (w, lk)) s = Some ?s"
      using S_READY h(1) th cp busy hold
      by (simp add: enqueue_current_def thread_make_runnable_def upd_thread_def add_tail_def)
    ultimately show ?thesis using h(2) S_READY th by auto
  next
    case S_SLEEP
    obtain wc where wc: "wchans s w = Some wc" using sleep S_SLEEP by auto
    let ?s = "s\<lparr>threads := (threads s)(?t \<mapsto> th\<lparr>t_wchan_name := Some (wc_name wc)\<rparr>), heap := h\<rparr>"
    have l: "locks_ok H ?s" using locks locks_ok_cong [of ?s s H] by simp
    have "enqueue_current st (Some (w, lk)) s = Some (let_go lk ?s)"
      using S_SLEEP h(1) th wc locks_ok_release(1) [OF l] sleep
      by (simp add: enqueue_current_def upd_thread_def add_tail_def)
    moreover have "locks_ok (H - {lk}) (let_go lk ?s)"
      using locks_ok_release(2) [OF l] sleep S_SLEEP by simp
    ultimately show ?thesis using h(2) S_SLEEP th by auto
  next
    case S_ZOMBIE
    let ?s = "s\<lparr>threads := (threads s)(?t \<mapsto> th\<lparr>t_wchan_name := Some ''ZOMBIE''\<rparr>), heap := h\<rparr>"
    have "locks_ok H ?s" using locks locks_ok_cong [of ?s s H] by simp
    moreover have "enqueue_current st (Some (w, lk)) s = Some ?s"
      using S_ZOMBIE h(1) th by (simp add: enqueue_current_def upd_thread_def add_tail_def)
    ultimately show ?thesis using h(2) S_ZOMBIE th by auto
  qed
qed


lemma enqueue_current_wc:
  "(st = S_SLEEP \<Longrightarrow> wc = Some x) \<Longrightarrow> enqueue_current st wc s = enqueue_current st (Some x) s"
  by (cases st) (simp_all add: enqueue_current_def)

lemma pick_next_head:
  assumes "reps (heap s) L U" and "L (runq_of (curcpu s)) = Some (t # q)"
  shows "\<exists>h. pick_next idle s = Some (s\<lparr>heap := h\<rparr>, t) \<and>
    reps h (L(runq_of (curcpu s) \<mapsto> q)) (insert t U)"
  using thl.remhead_cons [OF assms] by (subst pick_next.simps) (auto simp: rem_head_def)

text \<open>The queues after the switch: the current thread joins the list of its new state, and the first
  thread of the run queue leaves it.\<close>

definition switched :: "nat \<Rightarrow> nat \<Rightarrow> nat \<Rightarrow> (nat \<Rightarrow> nat list option) \<Rightarrow> nat \<Rightarrow> nat list option" where
  "switched d cur me L =
    (let L1 = L(d \<mapsto> the (L d) @ [cur]) in L1(runq_of me \<mapsto> tl (the (L1 (runq_of me)))))"

lemma switch_parks:
  assumes ok: "sys_ok H s L U" and H: "H = (if st = S_SLEEP then {lk} else {})"
    and wc: "st = S_SLEEP \<Longrightarrow> wc = Some (w, lk) \<and> w \<in> dom (wchans s) \<and> no_sched_locks H"
    and st: "st \<noteq> S_RUN" and zombie: "st = S_ZOMBIE \<Longrightarrow> t_proc (the (threads s (curthread s))) = None"
    and busy: "\<not> c_isidle (the (cpus s (curcpu s)))"
    and stack: "thread_checkstack (curthread s) s = Some ()"
    and q: "L (runq_of (curcpu s)) = Some (t # q)"
  shows "\<exists>s'. thread_switch idle st wc s = Some (s', t_curspl (view s), True) \<and>
    sys_ok {RunqueueLock (curcpu s)} s' (switched (dest_of st (curcpu s) w) (curthread s) (curcpu s) L)
      (insert t (U - {curthread s})) \<and>
    curthread s' = t \<and> curcpu s' = curcpu s \<and> parked s' st (curthread s) \<and>
    t_curspl (view s') = IPL_HIGH \<and> activated s' = activated s"
proof -
  let ?t = "curthread s" and ?me = "curcpu s" and ?R = "RunqueueLock (curcpu s)"
  let ?d = "dest_of st ?me w"
  obtain c where c: "set_spl IPL_HIGH s = Some (s\<lparr>view := c\<rparr>, t_curspl (view s))"
    "t_curspl c = IPL_HIGH" "sys_ok H (s\<lparr>view := c\<rparr>) L U"
    using set_spl_ok [OF ok, of IPL_HIGH] by auto
  have RH: "?R \<notin> H" using H wc by (auto simp: no_sched_locks_def)
  have lk: "lk \<in> H \<and> lk \<noteq> ?R \<and> w \<in> dom (wchans s)" if "st = S_SLEEP"
    using that H wc RH by auto
  let ?s1 = "held_by_me ?R (s\<lparr>view := c\<rparr>)"
  note s1 = sys_ok_acquire [OF c(3) RH]
  have me: "?me \<in> dom (cpus s)" using ok by (simp add: sys_ok_def)
  obtain cp where cp: "cpus s ?me = Some cp" using me by auto
  have "\<exists>qd. L ?d = Some qd"
    using queues_exist(1,2) [OF ok me] queues_exist(3) [OF ok, of w] wc by (cases st) auto
  then obtain qd where qd: "L ?d = Some qd" by blast
  have "\<exists>s' th. enqueue_current st (Some (w, lk)) ?s1 = Some s' \<and>
    reps (heap s') (L(?d \<mapsto> qd @ [?t])) (U - {?t}) \<and>
    locks_ok (if st = S_SLEEP then insert ?R H - {lk} else insert ?R H) s' \<and>
    t_curspl (view s') = t_curspl (view ?s1) \<and>
    threads s' = (threads s)(?t \<mapsto> th) \<and> t_cpu th = Some ?me \<and> t_proc th = t_proc (the (threads s ?t)) \<and>
    cpus s' = cpus s \<and> curcpu s' = ?me \<and> curthread s' = ?t \<and> wchans s' = wchans s \<and>
    activated s' = activated s"
    using enqueue_current_ok [OF s1(2), of st w qd lk] qd st busy lk by simp
  moreover have "(if st = S_SLEEP then insert ?R H - {lk} else insert ?R H) = {?R}"
    using H RH by auto
  ultimately obtain s2 th where s2: "enqueue_current st (Some (w, lk)) ?s1 = Some s2"
    "reps (heap s2) (L(?d \<mapsto> qd @ [?t])) (U - {?t})" "locks_ok {?R} s2"
    "t_curspl (view s2) = IPL_HIGH" "threads s2 = (threads s)(?t \<mapsto> th)" "t_cpu th = Some ?me"
    "t_proc th = t_proc (the (threads s ?t))" "cpus s2 = cpus s" "curcpu s2 = ?me"
    "curthread s2 = ?t" "wchans s2 = wchans s" "activated s2 = activated s"
    using c(2) by auto
  let ?s3 = "s2\<lparr>threads := (threads s)(?t \<mapsto> th\<lparr>t_state := st\<rparr>),
      cpus := (cpus s)(?me \<mapsto> cp\<lparr>c_isidle := True\<rparr>)\<rparr>"
  obtain q' where q': "(L(?d \<mapsto> qd @ [?t])) (runq_of ?me) = Some (t # q')"
    using q qd by (cases "?d = runq_of ?me") auto
  obtain h where h: "pick_next idle ?s3 = Some (?s3\<lparr>heap := h\<rparr>, t)"
    "reps h (L(?d \<mapsto> qd @ [?t], runq_of ?me \<mapsto> q')) (insert t (U - {?t}))"
    using pick_next_head [of ?s3 "L(?d \<mapsto> qd @ [?t])" "U - {?t}" t q' idle] s2(2,9) q' by auto
  have t: "t \<notin> U" "t \<noteq> ?t" "t \<in> dom (threads s)" using not_current [OF ok q, of t] by auto
  have "fits s (runq_of ?me) t" using on_list_fits [OF ok q] by simp
  then obtain tt where tt: "threads s t = Some tt" "t_saved_spl tt = IPL_HIGH" "t_saved_count tt = 2"
    "t_cpu tt = Some ?me" by (auto simp: parked_def on_cpu_def)
  have count: "t_iplhigh_count (view s2) = 2" "spl_inv (view s2)"
    using s2(3,4) by (auto simp: locks_ok_def spl_inv_def)
  let ?th = "th\<lparr>t_state := st, t_saved_spl := IPL_HIGH, t_saved_count := 2\<rparr>"
  let ?s4 = "?s3\<lparr>heap := h, cpus := (cpus s)(?me \<mapsto> cp\<lparr>c_isidle := False, c_curthread := Some t\<rparr>),
      threads := (threads s)(?t \<mapsto> ?th), curthread := t, view := view s2\<rparr>"
  have v: "view s2\<lparr>t_curspl := IPL_HIGH, t_iplhigh_count := 2\<rparr> = view s2"
    using s2(4) count(1) by simp
  have run: "thread_switch idle st wc s = Some (?s4, t_curspl (view s), True)"
  proof -
    have st0: "thread_checkstack ?t (s\<lparr>view := c\<rparr>) = Some ()"
      using stack by (simp add: thread_checkstack_def)
    have e: "enqueue_current st wc ?s1 = Some s2"
      using s2(1) enqueue_current_wc [of st wc "(w, lk)" ?s1] wc by simp
    have ne: "\<not> threadlist_isempty (runq_of ?me) (heap s)"
      using thl.isempty_iff [OF sys_reps [OF ok] q] by simp
    show ?thesis
      unfolding thread_switch_def
      using c(1) st0 e ne s1(1) h(1) s2(5,8,9,10) cp busy tt t(2) v s2(4) count(1)
      by (simp add: upd_thread_def upd_cpu_def switchframe_switch_def Let_def)
  qed
  have dom: "dom (cpus ?s4) = dom (cpus s)" "dom (threads ?s4) = dom (threads s)"
    using cp t(3) ok by (auto simp: sys_ok_def on_cpu_def)
  have park: "parked ?s4 st ?t" using s2(6) me dom(1) by (simp add: parked_def)
  have fresh: "?t \<notin> set xs" if "L l = Some xs" for l xs
    using thl.elems_distinct [OF sys_reps [OF ok] that] ok by (auto simp: sys_ok_def)
  have "fits ?s4 ?d ?t"
    using park s2(6,7) zombie st by (cases st) (simp_all add: on_cpu_def)
  then have "queues_ok ?s4 (L(?d \<mapsto> qd @ [?t]))"
    using ok fresh qd dom s2(11) by (intro queues_ok_join [of s]) (auto simp: sys_ok_def)
  then have qok: "queues_ok ?s4 (L(?d \<mapsto> qd @ [?t], runq_of ?me \<mapsto> q'))"
    by (rule queues_ok_upd [where l = "runq_of ?me" and q = "t # q'"]) (use q' in auto)
  have "switched ?d ?t ?me L = L(?d \<mapsto> qd @ [?t], runq_of ?me \<mapsto> q')"
    using q' qd by (simp add: switched_def Let_def)
  moreover have "locks_ok {?R} ?s4" using s2(3) locks_ok_cong [of ?s4 s2 "{?R}"] s2(9) by simp
  moreover have "set xs \<subseteq> dom (threads s)" if "(L(?d \<mapsto> qd @ [?t], runq_of ?me \<mapsto> q')) l = Some xs" for l xs
  proof -
    define D where "D = dom (threads s)"
    have D: "?t \<in> D" "set qd \<subseteq> D" "set (t # q) \<subseteq> D" "L l = Some xs \<Longrightarrow> set xs \<subseteq> D"
      using ok on_lists [OF ok, of l xs] on_lists [OF ok qd] on_lists [OF ok q]
      by (auto simp: D_def sys_ok_def on_cpu_def simp del: domIff)
    have "set xs \<subseteq> insert ?t (set qd \<union> set (t # q)) \<or> L l = Some xs"
      using that q' qd q by (auto split: if_splits)
    then show ?thesis unfolding D_def [symmetric] using D by blast
  qed
  moreover have "on_cpu ?s4 ?me t" using tt t(2) by (simp add: on_cpu_def)
  ultimately have "sys_ok {?R} ?s4 (switched ?d ?t ?me L) (insert t (U - {?t}))"
    using ok h(2) qok dom s2(9) me by (simp add: sys_ok_def)
  then show ?thesis using run park s2(4,9,12) by auto
qed


section \<open>Burying the dead and going on\<close>

lemma sys_ok_threads:
  assumes ok: "sys_ok H s L U" and t: "t \<in> U"
    and ts: "\<And>x. x \<noteq> t \<Longrightarrow> ts x = threads s x" "dom ts \<subseteq> dom (threads s)"
    and cur: "t = curthread s \<Longrightarrow> \<exists>th. ts t = Some th \<and> t_cpu th = Some (curcpu s)"
  shows "sys_ok H (s\<lparr>threads := ts\<rparr>) L U"
proof -
  let ?s = "s\<lparr>threads := ts\<rparr>"
  have off: "t \<notin> set q" if "L l = Some q" for l q
    using thl.elems_distinct [OF sys_reps [OF ok] that] t by auto
  have "fits ?s l x = fits s l x" if "L l = Some q" "x \<in> set q" for l q x
  proof -
    have "x \<noteq> t" using off [OF that(1)] that(2) by auto
    then have "ts x = threads s x" by (rule ts(1))
    then show ?thesis by (intro fits_cong) simp_all
  qed
  then have "queues_ok ?s L" using ok by (simp add: sys_ok_def queues_ok_def)
  moreover have "locks_ok H ?s" using ok locks_ok_cong [of ?s s H] by (simp add: sys_ok_def)
  moreover have "on_cpu ?s (curcpu s) (curthread s)"
    using ok ts(1) cur by (cases "t = curthread s") (auto simp: sys_ok_def on_cpu_def)
  moreover have "set q \<subseteq> dom ts" if "L l = Some q" for l q
  proof
    fix x assume x: "x \<in> set q"
    then have "x \<noteq> t" "x \<in> dom (threads s)" using off [OF that] on_lists [OF ok that] by auto
    then have "ts x = threads s x" "x \<in> dom (threads s)" using ts(1) [of x] by blast+
    then show "x \<in> dom ts" by auto
  qed
  moreover have "finite (dom ts)" "card (dom ts) \<le> card (dom (threads s))"
    using ok ts(2) by (auto simp: sys_ok_def intro: finite_subset card_mono)
  ultimately show ?thesis using ok by (simp add: sys_ok_def)
qed

lemma thread_destroy_ok:
  assumes ok: "sys_ok H s L U" and z: "z \<in> U" "z \<noteq> curthread s" "threads s z = Some th"
    "t_state th \<noteq> S_RUN" "t_proc th = None"
  shows "thread_destroy z s = Some (s\<lparr>threads := (threads s)(z := None)\<rparr>)"
    and "sys_ok H (s\<lparr>threads := (threads s)(z := None)\<rparr>) L U"
proof -
  have "unlinked (heap s) z" using sys_reps [OF ok] z(1) by (simp add: reps_def)
  then show "thread_destroy z s = Some (s\<lparr>threads := (threads s)(z := None)\<rparr>)"
    using z by (simp add: thread_destroy_def threadlistnode_cleanup_def unlinked_def)
  show "sys_ok H (s\<lparr>threads := (threads s)(z := None)\<rparr>) L U"
    using z(2) by (intro sys_ok_threads [OF ok z(1)]) auto
qed

lemma exorcise_ok:
  assumes "sys_ok H s L U" and "L (zombies_of (curcpu s)) = Some zs"
  shows "\<exists>s'. exorcise s = Some s' \<and> sys_ok H s' (L(zombies_of (curcpu s) \<mapsto> [])) (U \<union> set zs) \<and>
    threads s' = (threads s) |` (- set zs) \<and> curthread s' = curthread s \<and> curcpu s' = curcpu s \<and>
    view s' = view s \<and> activated s' = activated s"
  using assms
proof (induction zs arbitrary: s L U)
  case Nil
  then have "L(zombies_of (curcpu s) \<mapsto> []) = L" by (simp add: map_upd_triv)
  then show ?case using Nil rem_head_empty [OF sys_reps [OF Nil.prems(1)] Nil.prems(2)]
    by (intro exI [of _ s]) (simp add: exorcise.simps)
next
  case (Cons z zs)
  let ?z = "zombies_of (curcpu s)"
  obtain h where h: "rem_head ?z s = Some (s\<lparr>heap := h\<rparr>, Some z)"
    "sys_ok H (s\<lparr>heap := h\<rparr>) (L(?z \<mapsto> zs)) (insert z U)"
    using rem_head_ok [OF Cons.prems] by blast
  have cur: "z \<noteq> curthread s" using not_current [OF Cons.prems, of z] by simp
  have f: "fits s ?z z" using on_list_fits [OF Cons.prems] by simp
  obtain th where th: "threads s z = Some th" "t_state th = S_ZOMBIE" "t_proc th = None"
    using f by (auto simp: parked_def split: option.splits)
  let ?s1 = "s\<lparr>heap := h, threads := (threads s)(z := None)\<rparr>"
  have z: "threads (s\<lparr>heap := h\<rparr>) z = Some th" "z \<noteq> curthread (s\<lparr>heap := h\<rparr>)"
    using th(1) cur by simp_all
  have d: "thread_destroy z (s\<lparr>heap := h\<rparr>) = Some ?s1" "sys_ok H ?s1 (L(?z \<mapsto> zs)) (insert z U)"
    using thread_destroy_ok [OF h(2) insertI1 z(2,1)] th(2,3) by simp_all
  have z1: "(L(?z \<mapsto> zs)) (zombies_of (curcpu ?s1)) = Some zs" and cpu1: "curcpu ?s1 = curcpu s"
    by simp_all
  obtain s' where s': "exorcise ?s1 = Some s'"
    "sys_ok H s' (L(?z \<mapsto> zs, ?z \<mapsto> [])) (insert z U \<union> set zs)"
    "threads s' = (threads ?s1) |` (- set zs)" "curthread s' = curthread ?s1" "curcpu s' = curcpu s"
    "view s' = view ?s1" "activated s' = activated ?s1"
    using Cons.IH [OF d(2) z1, unfolded cpu1] by blast
  have "exorcise s = Some s'" using h(1) cur th d(1) s'(1) by (subst exorcise.simps) simp
  moreover have "threads s' = (threads s) |` (- set (z # zs))"
    using s'(3) by (auto simp: restrict_map_def fun_eq_iff)
  moreover have "sys_ok H s' (L(?z \<mapsto> [])) (U \<union> set (z # zs))" using s'(2) by simp
  moreover have "curthread s' = curthread s" "view s' = view s" "activated s' = activated s"
    using s'(4,6,7) by simp_all
  ultimately show ?case using s'(5) by blast
qed

lemma activated_update [simp]:
  "sys_ok H (as_activate_thread s) L U = sys_ok H s L U"
  "curthread (as_activate_thread s) = curthread s" "curcpu (as_activate_thread s) = curcpu s"
  "threads (as_activate_thread s) = threads s" "view (as_activate_thread s) = view s"
  "activated (as_activate_thread s) = curthread s # activated s"
proof -
  have "fits (as_activate_thread s) l t = fits s l t" for l t
    by (rule fits_cong) (simp_all add: as_activate_thread_def)
  then have "queues_ok (as_activate_thread s) L = queues_ok s L"
    by (simp add: queues_ok_def as_activate_thread_def)
  moreover have "locks_ok H (as_activate_thread s) = locks_ok H s"
    by (rule locks_ok_cong) (simp_all add: as_activate_thread_def)
  moreover have "on_cpu (as_activate_thread s) c t = on_cpu s c t" for c t
    by (rule on_cpu_cong) (simp add: as_activate_thread_def)
  ultimately show "sys_ok H (as_activate_thread s) L U = sys_ok H s L U"
    by (simp add: sys_ok_def as_activate_thread_def)
qed (simp_all add: as_activate_thread_def)

lemma thread_resume_ok:
  assumes ok: "sys_ok {RunqueueLock (curcpu s)} s L U"
    and z: "L (zombies_of (curcpu s)) = Some zs" and spl: "spl = 0 \<or> spl = 1"
  shows "\<exists>s' th. thread_resume spl s = Some s' \<and>
    sys_ok {} s' (L(zombies_of (curcpu s) \<mapsto> [])) (U \<union> set zs) \<and>
    curthread s' = curthread s \<and> curcpu s' = curcpu s \<and> t_curspl (view s') = spl \<and>
    threads s' (curthread s) = Some th \<and> t_state th = S_RUN \<and> t_wchan_name th = None \<and>
    (\<forall>x. x \<notin> set zs \<longrightarrow> x \<noteq> curthread s \<longrightarrow> threads s' x = threads s x) \<and>
    (\<forall>x \<in> set zs. threads s' x = None) \<and> activated s' = curthread s # activated s"
proof -
  let ?me = "curcpu s" and ?t = "curthread s"
  obtain th where th: "threads s ?t = Some th" "t_cpu th = Some ?me" and U: "?t \<in> U"
    using ok by (auto simp: sys_ok_def on_cpu_def)
  let ?th = "th\<lparr>t_wchan_name := None, t_state := S_RUN\<rparr>"
  let ?s1 = "s\<lparr>threads := (threads s)(?t \<mapsto> ?th)\<rparr>"
  have ok1: "sys_ok {RunqueueLock ?me} ?s1 L U"
    using th by (intro sys_ok_threads [OF ok U]) auto
  note rel = sys_ok_release [OF ok1, of "RunqueueLock ?me", simplified]
  let ?s2 = "as_activate_thread (let_go (RunqueueLock ?me) ?s1)"
  have ok2: "sys_ok {} ?s2 L U" using rel(2) by simp
  have z2: "L (zombies_of (curcpu ?s2)) = Some zs" using z by simp
  obtain s3 where s3: "exorcise ?s2 = Some s3"
    "sys_ok {} s3 (L(zombies_of ?me \<mapsto> [])) (U \<union> set zs)" "threads s3 = threads ?s1 |` (- set zs)"
    "curthread s3 = ?t" "curcpu s3 = ?me" "activated s3 = ?t # activated s"
    using exorcise_ok [OF ok2 z2] by auto
  obtain c where c: "set_spl spl s3 = Some (s3\<lparr>view := c\<rparr>, t_curspl (view s3))" "t_curspl c = spl"
    "sys_ok {} (s3\<lparr>view := c\<rparr>) (L(zombies_of ?me \<mapsto> [])) (U \<union> set zs)"
    using set_spl_ok [OF s3(2) spl] by blast
  have alive: "?t \<notin> set zs" using not_current [OF ok z] by blast
  have "thread_resume spl s = Some (s3\<lparr>view := c\<rparr>)"
    using th(1) rel(1) s3(1) c(1) by (simp add: thread_resume_def upd_thread_def)
  then show ?thesis using c(2,3) s3 alive by (auto simp: restrict_map_def)
qed

end
