(* ===== verification/Thread_Life.thy ===== *)
theory Thread_Life
  imports Sched
begin

text \<open>
  The properties of the thread system: round-robin switching, waking in order of sleep, creation
  and death of threads, the registry of wait channels, migration, and the TLB shootdown queue. They
  rest on the invariant of Sched.
\<close>

section \<open>A small system\<close>

text \<open>One CPU (0) running thread 1, threads 2 and 3 placed by the arguments, wait channel 0.\<close>

definition sample_thread :: "threadstate \<Rightarrow> thread" where
  "sample_thread st = \<lparr>t_name = ''t'', t_wchan_name = None, t_state = st, t_stack = None,
     t_cpu = Some 0, t_proc = None, t_in_interrupt = False, t_saved_spl = 1, t_saved_count = 2\<rparr>"

definition sample_sys :: "threadstate \<Rightarrow> list_heap \<Rightarrow> ksys" where
  "sample_sys st h = \<lparr>heap = h,
     threads = [1 \<mapsto> sample_thread S_RUN, 2 \<mapsto> sample_thread st, 3 \<mapsto> sample_thread st],
     cpus = [0 \<mapsto> \<lparr>c_number = 0, c_hardware_number = 0, c_curthread = Some 1, c_hardclocks = 0,
                  c_isidle = False, c_ipi_pending = 0, c_shootdown = (\<lambda>_. None),
                  c_numshootdown = 0\<rparr>],
     allcpus = \<lparr>arr_v = [Some 0, None, None, None], arr_num = 1, arr_max = 4\<rparr>,
     wchans = [0 \<mapsto> \<lparr>wc_name = ''w'', wc_index = 0\<rparr>],
     allwchans = \<lparr>arr_v = [Some 0, None, None, None], arr_num = 1, arr_max = 4\<rparr>,
     p_threads = [9 \<mapsto> array_init],
     locks = (\<lambda>_. spinlock_init), curcpu = 0, curthread = 1,
     view = \<lparr>cpu_exists = True, c_self = 0, c_spinlocks = 0, t_curspl = 0, t_iplhigh_count = 0,
             irq_on = True\<rparr>,
     sent = [], activated = []\<rparr>"

definition sample_queues :: "nat list \<Rightarrow> nat list \<Rightarrow> nat \<Rightarrow> nat list option" where
  "sample_queues ready asleep = [0 \<mapsto> [], 1 \<mapsto> ready, 2 \<mapsto> asleep]"

lemma sample_addresses: "zombies_of 0 = 0" "runq_of 0 = 1" "sleepers_of 0 = 2" "local_of 1 = 7"
  by (simp_all add: runq_of_def zombies_of_def sleepers_of_def local_of_def)

lemma sample_heap_exists:
  assumes "set ready \<inter> set asleep = {}" and "distinct ready" and "distinct asleep"
    and "length ready + length asleep < 2 ^ 32" and "1 \<notin> set ready \<union> set asleep"
  shows "\<exists>h. reps h (sample_queues ready asleep) {1}"
proof -
  let ?init = "\<lparr>prv = (\<lambda>_. None), nxt = (\<lambda>_. None),
      self = (\<lambda>n. case n of NodeOf t \<Rightarrow> Some t | _ \<Rightarrow> None), tl_count = (\<lambda>_. 0)\<rparr>"
  let ?h = "threadlist_init 2 (threadlist_init 1 (threadlist_init 0 ?init))"
  have "reps ?init Map.empty UNIV" by (simp add: reps_def unlinked_def)
  from threadlist_init_reps [OF this, of 0]
  have "reps (threadlist_init 0 ?init) [0 \<mapsto> []] UNIV" by simp
  from threadlist_init_reps [OF this, of 1]
  have "reps (threadlist_init 1 (threadlist_init 0 ?init)) [0 \<mapsto> [], 1 \<mapsto> []] UNIV" by simp
  from threadlist_init_reps [OF this, of 2]
  have "reps ?h [0 \<mapsto> [], 1 \<mapsto> [], 2 \<mapsto> []] UNIV" by simp
  then obtain h1 where h1: "reps h1 ([0 \<mapsto> [], 1 \<mapsto> [], 2 \<mapsto> []](1 \<mapsto> [] @ ready)) (UNIV - set ready)"
    using thl.addtail_many [of ?h "[0 \<mapsto> [], 1 \<mapsto> [], 2 \<mapsto> []]" UNIV 1 "[]" ready] assms by auto
  then have "\<exists>h'. for_each (threadlist_addtail 2) asleep h1 = Some h' \<and>
      reps h' ([0 \<mapsto> [], 1 \<mapsto> [], 2 \<mapsto> []](1 \<mapsto> [] @ ready, 2 \<mapsto> [] @ asleep)) (UNIV - set ready - set asleep)"
    using assms by (intro thl.addtail_many) auto
  then obtain h where "reps h ([0 \<mapsto> [], 1 \<mapsto> [], 2 \<mapsto> []](1 \<mapsto> [] @ ready, 2 \<mapsto> [] @ asleep))
      (UNIV - set ready - set asleep)" by blast
  moreover have "[0 \<mapsto> [], 1 \<mapsto> [], 2 \<mapsto> []](1 \<mapsto> [] @ ready, 2 \<mapsto> [] @ asleep) = sample_queues ready asleep"
    by (auto simp: sample_queues_def fun_eq_iff)
  ultimately have "reps h (sample_queues ready asleep) (UNIV - set ready - set asleep)" by simp
  then have "reps h (sample_queues ready asleep) {1}" using assms(5) by (auto simp: reps_def)
  then show ?thesis by blast
qed

lemma sample_sys_ok:
  assumes "reps h (sample_queues ready asleep) {1}" and "set ready \<union> set asleep \<subseteq> {2, 3}"
    and "ready = [] \<or> st = S_READY" and "asleep = [] \<or> st = S_SLEEP"
  shows "sys_ok {} (sample_sys st h) (sample_queues ready asleep) {1}"
proof -
  let ?s = "sample_sys st h" and ?L = "sample_queues ready asleep"
  have t: "parked ?s st t" "on_cpu ?s 0 t" if "t \<in> {2, 3}" for t
    using that by (auto simp: parked_def on_cpu_def sample_sys_def sample_thread_def)
  have "fits ?s l t" if "?L l = Some q" "t \<in> set q" for l q t
  proof -
    have "l = 1 \<and> t \<in> set ready \<or> l = 2 \<and> t \<in> set asleep"
      using that by (auto simp: sample_queues_def split: if_splits)
    moreover have "fits ?s (runq_of 0) t" if "t \<in> set ready"
      using t [of t] assms(2,3) that by auto
    moreover have "fits ?s (sleepers_of 0) t" if "t \<in> set asleep"
      using t [of t] assms(2,4) that by auto
    ultimately show ?thesis unfolding sample_addresses by blast
  qed
  then have "queues_ok ?s ?L"
    by (auto simp: queues_ok_def sample_sys_def sample_queues_def sample_addresses split: if_splits)
  moreover have "locks_ok {} ?s" by (simp add: locks_ok_def sample_sys_def spl_inv_def)
  moreover have "dom (threads ?s) = {1, 2, 3}" by (auto simp: sample_sys_def split: if_splits)
  moreover have "set q \<subseteq> {1, 2, 3}" if "?L l = Some q" for l q
    using that assms(2) by (auto simp: sample_queues_def split: if_splits)
  ultimately show ?thesis
    using assms(1) by (simp add: sys_ok_def sample_sys_def on_cpu_def sample_thread_def)
qed

section \<open>Switching\<close>

text \<open>C7: thread_yield is round robin: with other threads ready, the caller goes to the end of its
  CPU's run queue in state S_READY, the thread at the front of the queue becomes current, and when
  that thread goes on after the switch it is running, the run queue lock is free again, the interrupt
  level is the one it had, the zombies of the CPU are destroyed, and the invariant of the thread
  system holds.\<close>

theorem yield_round_robin:
  assumes "sys_ok {} s L U" and "L (runq_of (curcpu s)) = Some (t # q)"
    and "L (zombies_of (curcpu s)) = Some zs"
    and "\<not> c_isidle (the (cpus s (curcpu s)))" and "thread_checkstack (curthread s) s = Some ()"
    and "spl = 0 \<or> spl = 1"
  shows "\<exists>s1 s2 th. thread_yield idle s = Some (s1, t_curspl (view s), True) \<and>
    curthread s1 = t \<and> parked s1 S_READY (curthread s) \<and> thread_resume spl s1 = Some s2 \<and>
    sys_ok {} s2 (L(runq_of (curcpu s) \<mapsto> q @ [curthread s], zombies_of (curcpu s) \<mapsto> []))
      (insert t (U - {curthread s}) \<union> set zs) \<and>
    curthread s2 = t \<and> t_curspl (view s2) = spl \<and> threads s2 t = Some th \<and> t_state th = S_RUN \<and>
    (\<forall>z \<in> set zs. threads s2 z = None)"
proof -
  let ?me = "curcpu s" and ?t = "curthread s"
  obtain s1 where s1: "thread_switch idle S_READY None s = Some (s1, t_curspl (view s), True)"
    "sys_ok {RunqueueLock ?me} s1 (switched (runq_of ?me) ?t ?me L) (insert t (U - {?t}))"
    "curthread s1 = t" "curcpu s1 = ?me" "parked s1 S_READY ?t"
    using switch_parks [OF assms(1), of S_READY undefined None 0 t q idle] assms(2,4,5) by auto
  have L: "switched (runq_of ?me) ?t ?me L = L(runq_of ?me \<mapsto> q @ [?t])"
    using assms(2) by (simp add: switched_def Let_def)
  have ok: "sys_ok {RunqueueLock (curcpu s1)} s1 (L(runq_of ?me \<mapsto> q @ [?t])) (insert t (U - {?t}))"
    using s1(2,4) L by simp
  have z: "(L(runq_of ?me \<mapsto> q @ [?t])) (zombies_of (curcpu s1)) = Some zs"
    using assms(3) s1(4) by simp
  obtain s2 th where "thread_resume spl s1 = Some s2"
    "sys_ok {} s2 (L(runq_of ?me \<mapsto> q @ [?t], zombies_of (curcpu s1) \<mapsto> [])) (insert t (U - {?t}) \<union> set zs)"
    "curthread s2 = curthread s1" "t_curspl (view s2) = spl" "threads s2 (curthread s1) = Some th"
    "t_state th = S_RUN" "\<forall>z \<in> set zs. threads s2 z = None"
    using thread_resume_ok [OF ok z assms(6)] by blast
  then show ?thesis using s1 by (simp add: thread_yield_def)
qed

theorem yield_round_robin_witness:
  "\<exists>h s1 s2. thread_yield (\<lambda>_. None) (sample_sys S_READY h) = Some (s1, 0, True) \<and> curthread s1 = 2 \<and>
     thread_resume 0 s1 = Some s2 \<and> curthread s2 = 2 \<and> parked s1 S_READY 1"
proof -
  obtain h where h: "reps h (sample_queues [2, 3] []) {1}"
    using sample_heap_exists [of "[2, 3]" "[]"] by auto
  let ?s = "sample_sys S_READY h" and ?L = "sample_queues [2, 3] []"
  have ok: "sys_ok {} ?s ?L {1}" using sample_sys_ok [OF h] by simp
  have f: "?L (runq_of (curcpu ?s)) = Some (2 # [3])" "?L (zombies_of (curcpu ?s)) = Some []"
    "\<not> c_isidle (the (cpus ?s (curcpu ?s)))" "thread_checkstack (curthread ?s) ?s = Some ()"
    "t_curspl (view ?s) = 0" "curthread ?s = 1"
    by (simp_all add: sample_sys_def sample_queues_def sample_addresses sample_thread_def
        thread_checkstack_def)
  show ?thesis
    using yield_round_robin [OF ok f(1-4), of 0 "\<lambda>_. None"] unfolding f(5,6) by blast
qed

text \<open>Wchan_wakeall, called with the channel's lock held, empties the channel and puts each
  sleeper at the end of the run queue of its own CPU, in the order they went to sleep, in state
  S_READY; no other queue changes, and neither do the locks and the interrupt level.\<close>

theorem wakeall_in_order:
  assumes "sys_ok {lk} s L U" and "no_sched_locks {lk}" and "L (sleepers_of w) = Some ts"
    and "L (local_of (curthread s)) = None"
  shows "\<exists>s'. wchan_wakeall w lk s = Some s' \<and> sys_ok {lk} s' (delivered s ts (L(sleepers_of w \<mapsto> []))) U \<and>
    (\<forall>t \<in> set ts. parked s' S_READY t) \<and> locks s' = locks s \<and> view s' = view s"
  using wakeall_ok [OF assms(1) _ assms(2-4)] by (auto simp: same_env_def)

theorem wakeall_in_order_witness:
  "\<exists>h s s'. acquire (OtherLock 0) (sample_sys S_SLEEP h) = Some s \<and>
     wchan_wakeall 0 (OtherLock 0) s = Some s' \<and> parked s' S_READY 2 \<and> parked s' S_READY 3 \<and>
     reps (heap s') [0 \<mapsto> [], 1 \<mapsto> [2, 3], 2 \<mapsto> []] {1}"
proof -
  obtain h where h: "reps h (sample_queues [] [2, 3]) {1}"
    using sample_heap_exists [of "[]" "[2, 3]"] by auto
  let ?sys = "sample_sys S_SLEEP h" and ?lk = "OtherLock 0"
  let ?s = "held_by_me ?lk ?sys"
  have ok: "sys_ok {} ?sys (sample_queues [] [2, 3]) {1}" using sample_sys_ok [OF h] by simp
  have acq: "acquire ?lk ?sys = Some ?s" "sys_ok {?lk} ?s (sample_queues [] [2, 3]) {1}"
    using sys_ok_acquire [OF ok, of ?lk] by simp_all
  have del: "delivered ?s [2, 3] ((sample_queues [] [2, 3])(sleepers_of 0 \<mapsto> [])) =
      [0 \<mapsto> [], 1 \<mapsto> [2, 3], 2 \<mapsto> []]"
    by (rule ext) (simp add: delivered_def sample_queues_def sample_addresses cpu_of_def
        sample_sys_def sample_thread_def)
  have f: "no_sched_locks {?lk}" "sample_queues [] [2, 3] (sleepers_of 0) = Some [2, 3]"
    "sample_queues [] [2, 3] (local_of (curthread ?s)) = None"
    by (simp_all add: no_sched_locks_def sample_queues_def sample_addresses sample_sys_def local_of_def)
  obtain s' where s': "wchan_wakeall 0 ?lk ?s = Some s'"
    "sys_ok {?lk} s' (delivered ?s [2, 3] ((sample_queues [] [2, 3])(sleepers_of 0 \<mapsto> []))) {1}"
    "\<forall>t \<in> set [2, 3]. parked s' S_READY t"
    using wakeall_in_order [OF acq(2) f] by blast
  show ?thesis using acq(1) s'(1,3) sys_reps [OF s'(2) [unfolded del]] by auto
qed


section \<open>The shootdown queue\<close>

definition shot :: "nat \<Rightarrow> nat \<Rightarrow> cpu \<Rightarrow> ksys \<Rightarrow> ksys" where
  "shot c m cp s = s\<lparr>cpus := (cpus s)(c \<mapsto>
     (if c_numshootdown cp = TLBSHOOTDOWN_MAX then cp\<lparr>c_numshootdown := TLBSHOOTDOWN_ALL\<rparr>
      else cp\<lparr>c_shootdown := (c_shootdown cp)(c_numshootdown cp \<mapsto> m),
              c_numshootdown := c_numshootdown cp + 1\<rparr>)
     \<lparr>c_ipi_pending := c_ipi_pending cp OR push_bit IPI_TLBSHOOTDOWN 1\<rparr>), sent := c # sent s\<rparr>"

lemma ipi_tlbshootdown_shot:
  assumes "locks_ok H s" and "IpiLock c \<notin> H" and "cpus s c = Some cp"
  shows "ipi_tlbshootdown c m s =
    (if 0 \<le> c_numshootdown cp \<and> c_numshootdown cp \<le> TLBSHOOTDOWN_MAX then Some (shot c m cp s) else None)"
proof -
  let ?h = "held_by_me (IpiLock c) s" and ?l = "IpiLock c"
  let ?s = "?h\<lparr>cpus := cpus (shot c m cp s), sent := c # sent s\<rparr>"
  have "release ?l ?s = Some (?s\<lparr>locks := locks s, view := view s\<rparr>)"
    using assms(1,2) by (intro release_held_update [of H]) simp_all
  moreover have "?s\<lparr>locks := locks s, view := view s\<rparr> = shot c m cp s"
    by (simp add: shot_def held_by_me_def)
  ultimately show ?thesis using assms(3) locks_ok_acquire(1) [OF assms(1,2)]
    by (auto simp: ipi_tlbshootdown_def upd_cpu_def shot_def Let_def kassert_def)
qed

lemma shot_simps [simp]:
  "locks (shot c m cp s) = locks s" "view (shot c m cp s) = view s" "curcpu (shot c m cp s) = curcpu s"
  "\<exists>cp'. cpus (shot c m cp s) c = Some cp' \<and> c_numshootdown cp' =
     (if c_numshootdown cp = TLBSHOOTDOWN_MAX then TLBSHOOTDOWN_ALL else c_numshootdown cp + 1)"
  by (simp_all add: shot_def)

text \<open>How many more calls the queue takes before one stores outside the array.\<close>

definition shots_left :: "int \<Rightarrow> nat" where
  "shots_left n = (if 0 \<le> n \<and> n \<le> TLBSHOOTDOWN_MAX then nat (TLBSHOOTDOWN_MAX + 1 - n) else 0)"

lemma shootdowns_fit:
  assumes "locks_ok H s" and "IpiLock c \<notin> H" and "cpus s c = Some cp"
  shows "for_each (ipi_tlbshootdown c) ms s \<noteq> None \<longleftrightarrow> length ms \<le> shots_left (c_numshootdown cp)"
  using assms
proof (induction ms arbitrary: s cp)
  case (Cons m ms)
  let ?n = "c_numshootdown cp"
  show ?case
  proof (cases "0 \<le> ?n \<and> ?n \<le> TLBSHOOTDOWN_MAX")
    case True
    obtain cp' where cp': "cpus (shot c m cp s) c = Some cp'"
      "c_numshootdown cp' = (if ?n = TLBSHOOTDOWN_MAX then TLBSHOOTDOWN_ALL else ?n + 1)"
      using shot_simps(4) by blast
    have "locks_ok H (shot c m cp s)" using Cons.prems(1) locks_ok_cong [of "shot c m cp s" s] by simp
    then have "for_each (ipi_tlbshootdown c) ms (shot c m cp s) \<noteq> None \<longleftrightarrow>
        length ms \<le> shots_left (c_numshootdown cp')"
      using Cons.IH Cons.prems(2) cp'(1) by blast
    moreover have "shots_left ?n = Suc (shots_left (c_numshootdown cp'))"
      using True cp'(2) by (auto simp: shots_left_def)
    ultimately show ?thesis using ipi_tlbshootdown_shot [OF Cons.prems, of m] True by simp
  next
    case False
    then show ?thesis using ipi_tlbshootdown_shot [OF Cons.prems, of m]
      by (auto simp: shots_left_def)
  qed
qed simp

text \<open>The TLB shootdown queue of a CPU takes 17 requests between two services, the last of them
  turning it into "flush everything"; the 18th finds the count at -1, which is not the limit, and
  stores its mapping before the start of the array.\<close>

theorem tlbshootdown_overruns:
  assumes "locks_ok H s" and "IpiLock c \<notin> H" and "cpus s c = Some cp" and "c_numshootdown cp = 0"
  shows "for_each (ipi_tlbshootdown c) ms s = None \<longleftrightarrow> 18 \<le> length ms"
  using shootdowns_fit [OF assms(1-3), of ms] assms(4) by (auto simp: shots_left_def)

theorem tlbshootdown_overruns_witness:
  "for_each (ipi_tlbshootdown 0) [0..<18] (sample_sys S_READY sample_heap) = None"
proof -
  have "locks_ok {} (sample_sys S_READY sample_heap)" by (simp add: locks_ok_def sample_sys_def spl_inv_def)
  moreover have "\<exists>cp. cpus (sample_sys S_READY sample_heap) 0 = Some cp \<and> c_numshootdown cp = 0"
    by (simp add: sample_sys_def)
  ultimately show ?thesis
    using tlbshootdown_overruns [of "{}" "sample_sys S_READY sample_heap" 0 _ "[0..<18]"] by auto
qed

section \<open>The registry of wait channels\<close>


definition registry_ok :: "ksys \<Rightarrow> bool" where
  "registry_ok s \<longleftrightarrow> arr_wf (allwchans s) \<and> length (arr_list (allwchans s)) < 2 ^ 28 \<and>
     set (arr_list (allwchans s)) = dom (wchans s) \<and>
     (\<forall>i < length (arr_list (allwchans s)). \<exists>wc. wchans s (arr_list (allwchans s) ! i) = Some wc \<and> wc_index wc = i)"

lemma registry_index:
  assumes "registry_ok s" and "wchans s w = Some wc"
  shows "wc_index wc < length (arr_list (allwchans s))" and "arr_list (allwchans s) ! wc_index wc = w"
proof -
  have "w \<in> set (arr_list (allwchans s))" using assms by (auto simp: registry_ok_def)
  then obtain i where i: "i < length (arr_list (allwchans s))" "arr_list (allwchans s) ! i = w"
    by (auto simp: in_set_conv_nth)
  then have "wc_index wc = i" using assms unfolding registry_ok_def by fastforce
  then show "wc_index wc < length (arr_list (allwchans s))" "arr_list (allwchans s) ! wc_index wc = w"
    using i by simp_all
qed

lemma registry_distinct: "registry_ok s \<Longrightarrow> distinct (arr_list (allwchans s))"
  unfolding registry_ok_def distinct_conv_nth by (metis option.inject)


text \<open>The channel at the last index takes the place of the one destroyed.\<close>

definition unregistered :: "nat \<Rightarrow> nat \<Rightarrow> (nat \<Rightarrow> wchan option) \<Rightarrow> nat \<Rightarrow> nat \<Rightarrow> wchan option" where
  "unregistered w i ws w2 = (ws(w2 \<mapsto> (the (ws w2))\<lparr>wc_index := i\<rparr>, w := None))"

lemma butlast_swap_set:
  assumes "distinct xs" and "i < length xs"
  shows "set (butlast (xs[i := last xs])) = set xs - {xs ! i}"
proof -
  have ne: "xs \<noteq> []" using assms(2) by auto
  obtain ys y where xs: "xs = ys @ [y]" using ne by (metis append_butlast_last_id)
  show ?thesis
  proof (cases "i = length ys")
    case True
    then show ?thesis using assms xs by simp
  next
    case False
    then have i: "i < length ys" using assms xs by simp
    have "set (ys[i := y]) = insert y (set ys - {ys ! i})"
      using assms(1) xs i by (intro set_update_distinct) simp_all
    then show ?thesis using assms(1) xs i by (auto simp: nth_append list_update_append)
  qed
qed

lemma wchan_destroy_unregisters:
  assumes ok: "sys_ok {} s L U" and reg: "registry_ok s" and w: "wchans s w = Some wc"
    and empty: "L (sleepers_of w) = Some []"
  shows "\<exists>s'. wchan_destroy w s = Some s' \<and> registry_ok s' \<and> heap s' = heap s \<and>
    dom (wchans s') = dom (wchans s) - {w} \<and>
    (\<forall>v. v \<noteq> w \<longrightarrow> map_option wc_name (wchans s' v) = map_option wc_name (wchans s v)) \<and>
    locks s' = locks s \<and> view s' = view s \<and> threads s' = threads s"
proof -
  let ?xs = "arr_list (allwchans s)" and ?i = "wc_index wc"
  let ?s1 = "held_by_me AllWchansLock s"
  have locks: "locks_ok {} s" using ok by (simp add: sys_ok_def)
  have acq: "acquire AllWchansLock s = Some ?s1" using locks_ok_acquire(1) [OF locks] by simp
  have wf: "arr_wf (allwchans s)" using reg by (simp add: registry_ok_def)
  note idx = registry_index [OF reg w]
  have d: "distinct ?xs" by (rule registry_distinct [OF reg])
  have num: "array_num (allwchans s) = length ?xs" by (rule karr.num_elems [OF wf])
  have ne: "?xs \<noteq> []" using idx(1) by auto
  have get: "array_get (allwchans s) ?i = Some (Some w)"
    "array_get (allwchans s) (length ?xs - 1) = Some (Some (last ?xs))"
    using array_get_spec [OF wf] idx ne by (simp_all add: last_conv_nth)
  have clean: "threadlist_cleanup (sleepers_of w) (heap s) = Some (heap s)"
    using threadlist_cleanup_reps [OF sys_reps [OF ok] empty] by simp
  obtain a1 where a1: "array_set (allwchans s) ?i (last ?xs) = Some a1" "arr_wf a1"
    "arr_list a1 = ?xs[?i := last ?xs]"
    using array_set_spec [OF wf idx(1)] by blast
  let ?a = "if ?i < length ?xs - 1 then a1 else allwchans s"
  have "length ?xs - 1 \<le> arr_num ?a" "arr_wf ?a"
    using length_arr_list [OF wf] length_arr_list [OF a1(2)] a1 wf by auto
  then obtain a2 where a2: "array_setsize True ?a (length ?xs - 1) = Some (Inr a2)" "arr_wf a2"
    "arr_list a2 = take (length ?xs - 1) (arr_list ?a)"
    using array_setsize_shrink by blast
  have last_i: "?xs[?i := last ?xs] = ?xs" if "\<not> ?i < length ?xs - 1"
    using that idx(1) ne by (metis Suc_pred' diff_is_0_eq' last_conv_nth length_greater_0_conv
      less_Suc_eq list_update_id)
  have list2: "arr_list a2 = butlast (?xs[?i := last ?xs])"
    using a2(3) a1(3) last_i by (auto simp: butlast_conv_take)
  let ?w2 = "last ?xs"
  have w2: "?w2 \<in> dom (wchans s)" using reg ne by (auto simp: registry_ok_def simp del: domIff)
  then obtain wc2 where wc2: "wchans s ?w2 = Some wc2" by auto
  let ?ws = "if ?i < length ?xs - 1 then (wchans s)(?w2 \<mapsto> wc2\<lparr>wc_index := ?i\<rparr>) else wchans s"
  let ?s' = "s\<lparr>allwchans := a2, wchans := ?ws(w := None)\<rparr>"
  have rel: "release AllWchansLock t = Some (t\<lparr>locks := locks s, view := view s\<rparr>)"
    if "locks t = locks ?s1" "view t = view ?s1" for t
    using locks that by (intro release_held_update [of "{}"]) simp_all
  have run: "wchan_destroy w s = Some ?s'"
    unfolding wchan_destroy_def Let_def upd_wchan_def
    using acq w get a1(1) a2(1) wc2 num clean
    by (cases "?i < length ?xs - 1") (simp_all add: rel)
  have set2: "set (arr_list a2) = dom (wchans s) - {w}"
    using butlast_swap_set [OF d idx(1)] reg idx(2) list2 by (simp add: registry_ok_def)
  have dom: "dom (?ws(w := None)) = dom (wchans s) - {w}" using wc2 by auto
  have at: "\<exists>c. (?ws(w := None)) (arr_list a2 ! j) = Some c \<and> wc_index c = j"
    if j: "j < length (arr_list a2)" for j
  proof -
    have j': "j < length ?xs - 1" using j list2 by simp
    then have el: "arr_list a2 ! j = (if j = ?i then ?w2 else ?xs ! j)"
      using list2 by (simp add: nth_butlast nth_list_update)
    have nw: "arr_list a2 ! j \<noteq> w" using set2 nth_mem [OF j] by auto
    have nl: "?xs ! j \<noteq> ?w2"
      using d j' ne by (auto simp: last_conv_nth distinct_conv_nth)
    show ?thesis
    proof (cases "j = ?i")
      case True
      then show ?thesis using el nw j' wc2 by simp
    next
      case False
      have "j < length ?xs" using j' by simp
      then obtain c where "wchans s (?xs ! j) = Some c" "wc_index c = j"
        using reg unfolding registry_ok_def by blast
      then show ?thesis using False el nw nl by simp
    qed
  qed
  have "length ?xs < 2 ^ 28" using reg by (simp add: registry_ok_def)
  then have "length (arr_list a2) < 2 ^ 28" using list2 by simp
  then have "registry_ok ?s'"
    unfolding registry_ok_def using a2(2) set2 dom at by simp
  then show ?thesis using run dom wc2 by auto
qed


lemma wchan_create_registers:
  assumes ok: "sys_ok {} s L U" and reg: "registry_ok s" and w: "wchans s w = None"
    and fresh: "L (sleepers_of w) = None" and room: "length (arr_list (allwchans s)) + 1 < 2 ^ 28"
  shows "\<exists>s'. wchan_create (Some w) True name s = Some (s', Some w) \<and> registry_ok s' \<and>
    sys_ok {} s' (L(sleepers_of w \<mapsto> [])) U \<and> dom (wchans s') = insert w (dom (wchans s)) \<and>
    (\<forall>v. v \<noteq> w \<longrightarrow> wchans s' v = wchans s v) \<and> map_option wc_name (wchans s' w) = Some name \<and>
    threads s' = threads s \<and> cpus s' = cpus s \<and> curthread s' = curthread s \<and> curcpu s' = curcpu s \<and>
    p_threads s' = p_threads s \<and> locks s' = locks s \<and> view s' = view s \<and>
    length (arr_list (allwchans s')) = length (arr_list (allwchans s)) + 1"
proof -
  let ?xs = "arr_list (allwchans s)" and ?h = "threadlist_init (sleepers_of w) (heap s)"
  have locks: "locks_ok {} (s\<lparr>heap := ?h\<rparr>)"
    using ok locks_ok_cong [of "s\<lparr>heap := ?h\<rparr>" s "{}"] by (simp add: sys_ok_def)
  let ?s1 = "held_by_me AllWchansLock (s\<lparr>heap := ?h\<rparr>)"
  have acq: "acquire AllWchansLock (s\<lparr>heap := ?h\<rparr>) = Some ?s1"
    using locks_ok_acquire(1) [OF locks] by simp
  obtain a where a: "array_add True (allwchans s) w = Some (Inr (a, length ?xs))" "arr_wf a"
    "arr_list a = ?xs @ [w]"
    using array_add_spec [of "allwchans s" w] reg by (auto simp: registry_ok_def)
  let ?ws = "(wchans s)(w \<mapsto> \<lparr>wc_name = name, wc_index = length ?xs\<rparr>)"
  let ?s' = "s\<lparr>heap := ?h, allwchans := a, wchans := ?ws\<rparr>"
  have rel: "release AllWchansLock t = Some (t\<lparr>locks := locks s, view := view s\<rparr>)"
    if "locks t = locks ?s1" "view t = view ?s1" for t
    using locks that critical_section [of "s\<lparr>heap := ?h\<rparr>" AllWchansLock t]
    by (simp add: locks_ok_def)
  have run: "wchan_create (Some w) True name s = Some (?s', Some w)"
    using acq a(1) by (simp add: wchan_create_def Let_def rel held_by_me_def)
  have reps: "reps ?h (L(sleepers_of w \<mapsto> [])) U"
    by (rule threadlist_init_reps [OF sys_reps [OF ok] fresh])
  have fits: "fits ?s' l t = fits s l t" for l t by (rule fits_cong) simp_all
  have "queues_ok ?s' (L(sleepers_of w \<mapsto> []))"
    using ok unfolding sys_ok_def queues_ok_def fits by (auto split: if_splits)
  moreover have "locks_ok {} ?s'" using locks locks_ok_cong [of ?s' "s\<lparr>heap := ?h\<rparr>"] by simp
  moreover have "on_cpu ?s' c t = on_cpu s c t" for c t by (rule on_cpu_cong) simp
  ultimately have "sys_ok {} ?s' (L(sleepers_of w \<mapsto> [])) U"
    using ok reps by (simp add: sys_ok_def)
  moreover have "\<exists>c. ?ws ((?xs @ [w]) ! i) = Some c \<and> wc_index c = i" if "i < length (?xs @ [w])" for i
  proof (cases "i = length ?xs")
    case False
    then have i: "i < length ?xs" using that by simp
    then have "?xs ! i \<noteq> w" using reg w nth_mem [OF i] by (auto simp: registry_ok_def)
    then show ?thesis using reg i by (auto simp: registry_ok_def nth_append)
  qed simp
  ultimately show ?thesis using run a reg room
    by (intro exI [of _ ?s']) (auto simp: registry_ok_def)
qed

text \<open>Creating a wait channel and destroying it again, empty, restores the set of channels: the
  registry stays consistent at every point (each channel's index names its slot, with no duplicates
  and no stale entries), also though the destroy moves the last entry into the hole.\<close>

theorem wchan_create_destroy:
  assumes "sys_ok {} s L U" and "registry_ok s" and "wchans s w = None"
    and "L (sleepers_of w) = None" and "length (arr_list (allwchans s)) + 1 < 2 ^ 28"
  shows "\<exists>s1 s2. wchan_create (Some w) True name s = Some (s1, Some w) \<and> registry_ok s1 \<and>
    wchan_destroy w s1 = Some s2 \<and> registry_ok s2 \<and> dom (wchans s2) = dom (wchans s)"
proof -
  obtain s1 where s1: "wchan_create (Some w) True name s = Some (s1, Some w)" "registry_ok s1"
    "sys_ok {} s1 (L(sleepers_of w \<mapsto> [])) U" "dom (wchans s1) = insert w (dom (wchans s))"
    using wchan_create_registers [OF assms] by blast
  obtain wc where wc: "wchans s1 w = Some wc" using s1(4) by blast
  have "(L(sleepers_of w \<mapsto> [])) (sleepers_of w) = Some []" by simp
  then obtain s2 where "wchan_destroy w s1 = Some s2" "registry_ok s2"
    "dom (wchans s2) = dom (wchans s1) - {w}"
    using wchan_destroy_unregisters [OF s1(3,2) wc] by blast
  moreover have "w \<notin> dom (wchans s)" using assms(3) by auto
  ultimately show ?thesis using s1 by auto
qed

theorem wchan_create_destroy_witness:
  "\<exists>h s1 s2. wchan_create (Some 5) True ''pipe'' (sample_sys S_READY h) = Some (s1, Some 5) \<and>
     wchan_destroy 5 s1 = Some s2 \<and> dom (wchans s2) = {0}"
proof -
  obtain h where h: "reps h (sample_queues [2, 3] []) {1}"
    using sample_heap_exists [of "[2, 3]" "[]"] by auto
  let ?s = "sample_sys S_READY h"
  have ok: "sys_ok {} ?s (sample_queues [2, 3] []) {1}" using sample_sys_ok [OF h] by simp
  have f: "registry_ok ?s" "wchans ?s 5 = None" "sample_queues [2, 3] [] (sleepers_of 5) = None"
    "length (arr_list (allwchans ?s)) + 1 < 2 ^ 28" "dom (wchans ?s) = {0}"
    using cap_ok_4 by (simp_all add: registry_ok_def sample_sys_def arr_list_def arr_wf_def
        sample_queues_def sleepers_of_def)
  show ?thesis using wchan_create_destroy [OF ok f(1-4)] unfolding f(5) by blast
qed

end
