(* ===== verification/Synch.thy ===== *)
theory Synch
  imports Thread_Life
begin

text \<open>
  \<^verbatim>\<open>kern/thread/synch.c\<close>: semaphores, sleep locks and condition variables over the thread system of
  Thread. A call that blocks is cut at its context switches: each definition runs until the call
  returns or the thread is asleep, and gives the level \<open>spl\<close> of the frame left behind in the second
  case; the definitions ending in \<open>_resume\<close> run from there when the thread has the CPU again.
\<close>

record semaphore =
  sem_name :: string
  sem_wchan :: nat
  sem_count :: u32

record klock =
  lk_name :: string
  lock_wchan :: nat
  holder :: "nat option"

record kcv =
  cv_name :: string
  cv_wc :: "nat option"
  condition :: bool

record ysys =
  base :: ksys
  sems :: "nat \<Rightarrow> semaphore option"
  sleeplocks :: "nat \<Rightarrow> klock option"
  cvs :: "nat \<Rightarrow> kcv option"

text \<open>The spinlocks inside the structures.\<close>

definition sem_lock :: "nat \<Rightarrow> lock_id" where
  "sem_lock i = OtherLock (2 * i)"

definition lk_spinlock :: "nat \<Rightarrow> lock_id" where
  "lk_spinlock i = OtherLock (2 * i + 1)"

definition on_base :: "(ksys \<Rightarrow> ksys option) \<Rightarrow> ysys \<Rightarrow> ysys option" where
  "on_base f y = do { s \<leftarrow> f (base y); Some (y\<lparr>base := s\<rparr>) }"

definition set_sem_count :: "nat \<Rightarrow> u32 \<Rightarrow> ysys \<Rightarrow> ysys option" where
  "set_sem_count i n y = do { sm \<leftarrow> sems y i; Some (y\<lparr>sems := (sems y)(i \<mapsto> sm\<lparr>sem_count := n\<rparr>)\<rparr>) }"

definition set_holder :: "nat \<Rightarrow> nat option \<Rightarrow> ysys \<Rightarrow> ysys option" where
  "set_holder i t y =
     do { lk \<leftarrow> sleeplocks y i; Some (y\<lparr>sleeplocks := (sleeplocks y)(i \<mapsto> lk\<lparr>holder := t\<rparr>)\<rparr>) }"

text \<open>\<^verbatim>\<open>wchan_sleep\<close>: a switch that returns at once, the CPU being idle, leaves the spinlock held,
  and relocking it panics.\<close>

definition sleep_on :: "(ksys \<Rightarrow> ksys option) \<Rightarrow> nat \<Rightarrow> lock_id \<Rightarrow> ysys \<Rightarrow> (ysys \<times> int option) option" where
  "sleep_on idle w lk y =
     do {
       (s, spl, gone) \<leftarrow> wchan_sleep idle w lk (base y);
       kassert gone;
       Some (y\<lparr>base := s\<rparr>, Some spl)
     }"

section \<open>Semaphores\<close>

definition sem_create ::
  "nat option \<Rightarrow> bool \<Rightarrow> nat option \<Rightarrow> bool \<Rightarrow> string \<Rightarrow> u32 \<Rightarrow> ysys \<Rightarrow> (ysys \<times> nat option) option" where
  "sem_create mem dup wmem addmem name initial_count y =
    (case mem of
       None \<Rightarrow> Some (y, None)
     | Some i \<Rightarrow>
         if \<not> dup then Some (y, None)
         else do {
           (s, w) \<leftarrow> wchan_create wmem addmem name (base y);
           case w of
             None \<Rightarrow> Some (y\<lparr>base := s\<rparr>, None)
           | Some w \<Rightarrow>
               Some (y\<lparr>base := s\<lparr>locks := (locks s)(sem_lock i := spinlock_init)\<rparr>,
                       sems := (sems y)(i \<mapsto> \<lparr>sem_name = name, sem_wchan = w,
                                              sem_count = initial_count\<rparr>)\<rparr>, Some i)
         })"

definition sem_destroy :: "nat \<Rightarrow> ysys \<Rightarrow> ysys option" where
  "sem_destroy i y =
     do {
       sm \<leftarrow> sems y i;
       spinlock_cleanup (locks (base y) (sem_lock i));
       s \<leftarrow> wchan_destroy (sem_wchan sm) (base y);
       Some (y\<lparr>base := s, sems := (sems y)(i := None)\<rparr>)
     }"

text \<open>One round of the loop of \<^verbatim>\<open>P\<close>, with the semaphore's spinlock held, and the end of the
  function.\<close>

definition P_round :: "(ksys \<Rightarrow> ksys option) \<Rightarrow> nat \<Rightarrow> ysys \<Rightarrow> (ysys \<times> int option) option" where
  "P_round idle i y =
     do {
       sm \<leftarrow> sems y i;
       if sem_count sm = 0 then sleep_on idle (sem_wchan sm) (sem_lock i) y
       else do {
         kassert (sem_count sm > 0);
         y \<leftarrow> set_sem_count i (sem_count sm - 1) y;
         y \<leftarrow> on_base (release (sem_lock i)) y;
         Some (y, None)
       }
     }"

definition P :: "(ksys \<Rightarrow> ksys option) \<Rightarrow> nat \<Rightarrow> ysys \<Rightarrow> (ysys \<times> int option) option" where
  "P idle i y =
     do {
       sm \<leftarrow> sems y i;
       th \<leftarrow> threads (base y) (curthread (base y));
       kassert (\<not> t_in_interrupt th);
       y \<leftarrow> on_base (acquire (sem_lock i)) y;
       P_round idle i y
     }"

definition P_resume :: "(ksys \<Rightarrow> ksys option) \<Rightarrow> nat \<Rightarrow> int \<Rightarrow> ysys \<Rightarrow> (ysys \<times> int option) option" where
  "P_resume idle i spl y =
     do { y \<leftarrow> on_base (wchan_sleep_resume spl (sem_lock i)) y; P_round idle i y }"

definition V :: "nat \<Rightarrow> ysys \<Rightarrow> ysys option" where
  "V i y =
     do {
       sm \<leftarrow> sems y i;
       y \<leftarrow> on_base (acquire (sem_lock i)) y;
       y \<leftarrow> set_sem_count i (sem_count sm + 1) y;
       kassert (sem_count sm + 1 > 0);
       y \<leftarrow> on_base (wchan_wakeone (sem_wchan sm) (sem_lock i)) y;
       on_base (release (sem_lock i)) y
     }"

section \<open>Locks\<close>

definition lock_create ::
  "nat option \<Rightarrow> bool \<Rightarrow> nat option \<Rightarrow> bool \<Rightarrow> string \<Rightarrow> ysys \<Rightarrow> (ysys \<times> nat option) option" where
  "lock_create mem dup wmem addmem name y =
    (case mem of
       None \<Rightarrow> Some (y, None)
     | Some i \<Rightarrow>
         if \<not> dup then Some (y, None)
         else do {
           (s, w) \<leftarrow> wchan_create wmem addmem name (base y);
           case w of
             None \<Rightarrow> Some (y\<lparr>base := s\<rparr>, None)
           | Some w \<Rightarrow>
               Some (y\<lparr>base := s\<lparr>locks := (locks s)(lk_spinlock i := spinlock_init)\<rparr>,
                       sleeplocks := (sleeplocks y)(i \<mapsto> \<lparr>lk_name = name, lock_wchan = w,
                                                        holder = None\<rparr>)\<rparr>, Some i)
         })"

text \<open>\<^verbatim>\<open>lock_destroy\<close> frees the thread that holds the lock, if there is one.\<close>

definition lock_destroy :: "nat \<Rightarrow> ysys \<Rightarrow> ysys option" where
  "lock_destroy i y =
     do {
       lk \<leftarrow> sleeplocks y i;
       let s = (case holder lk of
                  None \<Rightarrow> base y
                | Some t \<Rightarrow> (base y)\<lparr>threads := (threads (base y))(t := None)\<rparr>);
       spinlock_cleanup (locks s (lk_spinlock i));
       s \<leftarrow> wchan_destroy (lock_wchan lk) s;
       Some (y\<lparr>base := s, sleeplocks := (sleeplocks y)(i := None)\<rparr>)
     }"

definition lock_round :: "(ksys \<Rightarrow> ksys option) \<Rightarrow> nat \<Rightarrow> ysys \<Rightarrow> (ysys \<times> int option) option" where
  "lock_round idle i y =
     do {
       lk \<leftarrow> sleeplocks y i;
       if holder lk \<noteq> None then sleep_on idle (lock_wchan lk) (lk_spinlock i) y
       else do {
         y \<leftarrow> set_holder i (Some (curthread (base y))) y;
         y \<leftarrow> on_base (release (lk_spinlock i)) y;
         Some (y, None)
       }
     }"

definition lock_acquire :: "(ksys \<Rightarrow> ksys option) \<Rightarrow> nat \<Rightarrow> ysys \<Rightarrow> (ysys \<times> int option) option" where
  "lock_acquire idle i y =
     do { y \<leftarrow> on_base (acquire (lk_spinlock i)) y; lock_round idle i y }"

definition lock_acquire_resume ::
  "(ksys \<Rightarrow> ksys option) \<Rightarrow> nat \<Rightarrow> int \<Rightarrow> ysys \<Rightarrow> (ysys \<times> int option) option" where
  "lock_acquire_resume idle i spl y =
     do { y \<leftarrow> on_base (wchan_sleep_resume spl (lk_spinlock i)) y; lock_round idle i y }"

definition lock_release :: "nat \<Rightarrow> ysys \<Rightarrow> ysys option" where
  "lock_release i y =
     do {
       y \<leftarrow> on_base (acquire (lk_spinlock i)) y;
       lk \<leftarrow> sleeplocks y i;
       y \<leftarrow> set_holder i None y;
       y \<leftarrow> on_base (wchan_wakeone (lock_wchan lk) (lk_spinlock i)) y;
       on_base (release (lk_spinlock i)) y
     }"

definition lock_do_i_hold :: "nat \<Rightarrow> ysys \<Rightarrow> bool option" where
  "lock_do_i_hold i y =
     do { lk \<leftarrow> sleeplocks y i; Some (holder lk = Some (curthread (base y))) }"

section \<open>Condition variables\<close>

definition cv_create ::
  "nat option \<Rightarrow> bool \<Rightarrow> nat option \<Rightarrow> bool \<Rightarrow> string \<Rightarrow> ysys \<Rightarrow> (ysys \<times> nat option) option" where
  "cv_create mem dup wmem addmem name y =
    (case mem of
       None \<Rightarrow> Some (y, None)
     | Some i \<Rightarrow>
         if \<not> dup then Some (y, None)
         else do {
           (s, w) \<leftarrow> wchan_create wmem addmem name (base y);
           Some (y\<lparr>base := s, cvs := (cvs y)(i \<mapsto> \<lparr>cv_name = name, cv_wc = w, condition = False\<rparr>)\<rparr>,
                 Some i)
         })"

definition cv_destroy :: "nat \<Rightarrow> ysys \<Rightarrow> ysys option" where
  "cv_destroy i y =
     do {
       cv \<leftarrow> cvs y i;
       w \<leftarrow> cv_wc cv;
       s \<leftarrow> wchan_destroy w (base y);
       Some (y\<lparr>base := s, cvs := (cvs y)(i := None)\<rparr>)
     }"

text \<open>\<^verbatim>\<open>cv_wait\<close>: up to the sleep on the condition variable, or up to the end of \<^verbatim>\<open>lock_acquire\<close> for
  a caller that does not hold the lock; \<open>cv_wait_resume\<close> is what a woken caller goes on with.\<close>

definition cv_wait :: "(ksys \<Rightarrow> ksys option) \<Rightarrow> nat \<Rightarrow> nat \<Rightarrow> ysys \<Rightarrow> (ysys \<times> int option) option" where
  "cv_wait idle c i y =
     do {
       cv \<leftarrow> cvs y c;
       mine \<leftarrow> lock_do_i_hold i y;
       if mine then do {
         y \<leftarrow> lock_release i y;
         y \<leftarrow> (if \<not> do_i_hold (lk_spinlock i) (base y) then on_base (acquire (lk_spinlock i)) y
              else Some y);
         w \<leftarrow> cv_wc cv;
         sleep_on idle w (lk_spinlock i) y
       }
       else lock_acquire idle i y
     }"

definition cv_wait_resume ::
  "(ksys \<Rightarrow> ksys option) \<Rightarrow> nat \<Rightarrow> int \<Rightarrow> ysys \<Rightarrow> (ysys \<times> int option) option" where
  "cv_wait_resume idle i spl y =
     do { y \<leftarrow> on_base (wchan_sleep_resume spl (lk_spinlock i)) y; lock_acquire idle i y }"

definition cv_signal :: "nat \<Rightarrow> nat \<Rightarrow> ysys \<Rightarrow> ysys option" where
  "cv_signal c i y =
     do {
       cv \<leftarrow> cvs y c;
       mine \<leftarrow> lock_do_i_hold i y;
       kassert mine;
       y \<leftarrow> on_base (acquire (lk_spinlock i)) y;
       w \<leftarrow> cv_wc cv;
       y \<leftarrow> on_base (wchan_wakeone w (lk_spinlock i)) y;
       y \<leftarrow> on_base (release (lk_spinlock i)) y;
       mine \<leftarrow> lock_do_i_hold i y;
       if mine then lock_release i y else Some y
     }"

definition cv_broadcast :: "nat \<Rightarrow> nat \<Rightarrow> ysys \<Rightarrow> ysys option" where
  "cv_broadcast c i y =
     do {
       cv \<leftarrow> cvs y c;
       mine \<leftarrow> lock_do_i_hold i y;
       kassert mine;
       y \<leftarrow> (if \<not> do_i_hold (lk_spinlock i) (base y) then on_base (acquire (lk_spinlock i)) y
            else Some y);
       w \<leftarrow> cv_wc cv;
       y \<leftarrow> on_base (wchan_wakeall w (lk_spinlock i)) y;
       y \<leftarrow> lock_release i y;
       if do_i_hold (lk_spinlock i) (base y) then on_base (release (lk_spinlock i)) y else Some y
     }"


section \<open>What the operations do\<close>

lemma own_locks: "no_sched_locks {sem_lock i}" "no_sched_locks {lk_spinlock i}"
  by (simp_all add: no_sched_locks_def sem_lock_def lk_spinlock_def)

lemma wakeone_empty:
  assumes "sys_ok H s L U" and "lk \<in> H" and "L (sleepers_of w) = Some []"
  shows "wchan_wakeone w lk s = Some s"
proof -
  have "do_i_hold lk s" using assms(1,2) by (simp add: sys_ok_def locks_ok_def)
  then show ?thesis
    using rem_head_empty [OF sys_reps [OF assms(1)] assms(3)] by (simp add: wchan_wakeone_def)
qed

text \<open>Waking one sleeper inside a critical section of one's own.\<close>

lemma wake_in_section:
  assumes ok: "sys_ok {} s L U" and lk: "no_sched_locks {lk}" and q: "L (sleepers_of w) = Some ts"
  shows "\<exists>s1 s'. acquire lk s = Some s1 \<and> curthread s1 = curthread s \<and>
    wchan_wakeone w lk s1 = Some s' \<and> same_env s1 s' \<and> release lk s' = Some (let_go lk s') \<and>
    (\<forall>t \<in> set (take 1 ts). parked (let_go lk s') S_READY t) \<and>
    sys_ok {} (let_go lk s') (delivered s (take 1 ts) (L(sleepers_of w \<mapsto> tl ts))) U"
proof -
  let ?s1 = "held_by_me lk s"
  have acq: "acquire lk s = Some ?s1" "sys_ok {lk} ?s1 L U" using sys_ok_acquire [OF ok, of lk] by simp_all
  have "\<exists>s'. wchan_wakeone w lk ?s1 = Some s' \<and> same_env ?s1 s' \<and> (\<forall>t \<in> set (take 1 ts). parked s' S_READY t) \<and>
      sys_ok {lk} s' (delivered ?s1 (take 1 ts) (L(sleepers_of w \<mapsto> tl ts))) U"
  proof (cases ts)
    case Nil
    then have "L(sleepers_of w \<mapsto> tl ts) = L" using q by (simp add: map_upd_triv)
    then show ?thesis using wakeone_empty [where lk = lk and w = w, OF acq(2)] q Nil acq(2)
      by (intro exI [of _ ?s1]) (simp del: fun_upd_apply)
  next
    case (Cons t us)
    then show ?thesis using wakeone_ok [where lk = lk and w = w, OF acq(2) _ lk] q by simp
  qed
  then obtain s' where s': "wchan_wakeone w lk ?s1 = Some s'" "same_env ?s1 s'"
    "\<forall>t \<in> set (take 1 ts). parked s' S_READY t"
    "sys_ok {lk} s' (delivered ?s1 (take 1 ts) (L(sleepers_of w \<mapsto> tl ts))) U" by blast
  have d: "delivered ?s1 (take 1 ts) (L(sleepers_of w \<mapsto> tl ts)) = delivered s (take 1 ts) (L(sleepers_of w \<mapsto> tl ts))"
    by (rule delivered_cong) simp
  have p: "parked (let_go lk s') st x = parked s' st x" for st x by (rule parked_cong) simp_all
  have "\<forall>t \<in> set (take 1 ts). parked (let_go lk s') S_READY t" using s'(3) p by blast
  moreover have "release lk s' = Some (let_go lk s')"
    "sys_ok {} (let_go lk s') (delivered s (take 1 ts) (L(sleepers_of w \<mapsto> tl ts))) U"
    using sys_ok_release [OF s'(4) insertI1] unfolding d by simp_all
  moreover have "curthread ?s1 = curthread s" by simp
  ultimately show ?thesis using acq(1) s'(1,2) by blast
qed

lemma V_ok:
  assumes "sys_ok {} (base y) L U" and "sems y i = Some sm" and "L (sleepers_of (sem_wchan sm)) = Some ts"
  shows "if sem_count sm = - 1 then V i y = None
    else \<exists>s'. V i y = Some (y\<lparr>sems := (sems y)(i \<mapsto> sm\<lparr>sem_count := sem_count sm + 1\<rparr>), base := s'\<rparr>) \<and>
      unat (sem_count sm + 1) = unat (sem_count sm) + 1 \<and>
      sys_ok {} s' (delivered (base y) (take 1 ts) (L(sleepers_of (sem_wchan sm) \<mapsto> tl ts))) U \<and>
      (\<forall>t \<in> set (take 1 ts). parked s' S_READY t) \<and> curthread s' = curthread (base y)"
proof -
  let ?w = "sem_wchan sm" and ?n = "sem_count sm"
  obtain s1 s' where s': "acquire (sem_lock i) (base y) = Some s1" "curthread s1 = curthread (base y)"
    "wchan_wakeone ?w (sem_lock i) s1 = Some s'" "same_env s1 s'"
    "release (sem_lock i) s' = Some (let_go (sem_lock i) s')"
    "\<forall>t \<in> set (take 1 ts). parked (let_go (sem_lock i) s') S_READY t"
    "sys_ok {} (let_go (sem_lock i) s') (delivered (base y) (take 1 ts) (L(sleepers_of ?w \<mapsto> tl ts))) U"
    using wake_in_section [OF assms(1) own_locks(1) assms(3)] by blast
  show ?thesis
  proof (cases "?n = - 1")
    case True
    then show ?thesis using assms(2) s'(1) by (simp add: V_def on_base_def set_sem_count_def)
  next
    case False
    then have n: "?n + 1 \<noteq> 0" by (metis add.inverse_unique add.commute)
    then have "?n + 1 > 0" by (simp add: word_gt_0)
    moreover have "unat (?n + 1) = unat ?n + 1" using n by (metis Suc_eq_plus1 unatSuc add.commute)
    moreover have "curthread (let_go (sem_lock i) s') = curthread (base y)"
      using s'(2,4) by (simp add: same_env_def)
    moreover have "V i y = Some (y\<lparr>sems := (sems y)(i \<mapsto> sm\<lparr>sem_count := ?n + 1\<rparr>),
        base := let_go (sem_lock i) s'\<rparr>)"
      using assms(2) s'(1,3,5) \<open>?n + 1 > 0\<close> by (simp add: V_def on_base_def set_sem_count_def)
    ultimately show ?thesis using False s'(6,7) by auto
  qed
qed

text \<open>C25: V adds one to the count and makes the longest sleeper of the semaphore ready, if there is
  one, and does nothing else: the invariant of the thread system holds, the spinlock is free, and the
  caller keeps the CPU. Only at the largest count does it panic, instead of wrapping to 0.\<close>

theorem V_wakes_one:
  assumes "sys_ok {} (base y) L U" and "sems y i = Some sm" and "L (sleepers_of (sem_wchan sm)) = Some ts"
  shows "if sem_count sm = - 1 then V i y = None
    else \<exists>s'. V i y = Some (y\<lparr>sems := (sems y)(i \<mapsto> sm\<lparr>sem_count := sem_count sm + 1\<rparr>), base := s'\<rparr>) \<and>
      unat (sem_count sm + 1) = unat (sem_count sm) + 1 \<and>
      sys_ok {} s' (delivered (base y) (take 1 ts) (L(sleepers_of (sem_wchan sm) \<mapsto> tl ts))) U \<and>
      (\<forall>t \<in> set (take 1 ts). parked s' S_READY t) \<and> curthread s' = curthread (base y)"
  using assms by (rule V_ok)

theorem V_wakes_one_witness:
  "\<exists>y s'. sems y 0 = Some \<lparr>sem_name = ''s'', sem_wchan = 0, sem_count = 0\<rparr> \<and>
     map_option base (V 0 y) = Some s' \<and> parked s' S_READY 2"
proof -
  obtain h where h: "reps h (sample_queues [] [2, 3]) {1}"
    using sample_heap_exists [of "[]" "[2, 3]"] by auto
  let ?sm = "\<lparr>sem_name = ''s'', sem_wchan = 0, sem_count = 0\<rparr>"
  let ?y = "\<lparr>base = sample_sys S_SLEEP h, sems = [0 \<mapsto> ?sm], sleeplocks = Map.empty, cvs = Map.empty\<rparr>"
  have ok: "sys_ok {} (base ?y) (sample_queues [] [2, 3]) {1}" using sample_sys_ok [OF h] by simp
  have f: "sems ?y 0 = Some ?sm" "sample_queues [] [2, 3] (sleepers_of (sem_wchan ?sm)) = Some [2, 3]"
    "sem_count ?sm \<noteq> - 1" by (simp_all add: sample_queues_def sample_addresses)
  obtain s' where "V 0 ?y = Some (?y\<lparr>sems := (sems ?y)(0 \<mapsto> ?sm\<lparr>sem_count := sem_count ?sm + 1\<rparr>), base := s'\<rparr>)"
    "\<forall>t \<in> set (take 1 [2, 3]). parked s' S_READY t"
    using V_wakes_one [OF ok f(1,2)] f(3) by (auto simp del: fun_upd_apply)
  then show ?thesis by (intro exI [of _ ?y] exI [of _ s']) simp
qed

text \<open>P takes the count when there is one, without giving up the CPU and leaving the system as it
  was; at 0 it puts the caller at the end of the semaphore's sleepers and switches to the next ready
  thread, with the semaphore's spinlock free and the count untouched, so that the caller finds the
  loop's test again when it runs.\<close>

theorem P_takes_or_sleeps:
  assumes "sys_ok {} (base y) L U" and "sems y i = Some sm" and "sem_wchan sm \<in> dom (wchans (base y))"
    and "threads (base y) (curthread (base y)) = Some th" and "\<not> t_in_interrupt th"
    and "\<not> c_isidle (the (cpus (base y) (curcpu (base y))))"
    and "thread_checkstack (curthread (base y)) (base y) = Some ()"
    and "L (runq_of (curcpu (base y))) = Some (t # q)"
  shows "if sem_count sm \<noteq> 0
    then P idle i y = Some (y\<lparr>sems := (sems y)(i \<mapsto> sm\<lparr>sem_count := sem_count sm - 1\<rparr>)\<rparr>, None)
    else \<exists>s'. P idle i y = Some (y\<lparr>base := s'\<rparr>, Some (t_curspl (view (base y)))) \<and>
      sys_ok {RunqueueLock (curcpu (base y))} s' (switched (sleepers_of (sem_wchan sm)) (curthread (base y))
        (curcpu (base y)) L) (insert t (U - {curthread (base y)})) \<and>
      curthread s' = t \<and> parked s' S_SLEEP (curthread (base y))"
proof -
  let ?s = "base y" and ?lk = "sem_lock i" and ?w = "sem_wchan sm"
  let ?s1 = "held_by_me ?lk ?s"
  have locks: "locks_ok {} ?s" using assms(1) by (simp add: sys_ok_def)
  have acq: "acquire ?lk ?s = Some ?s1" "sys_ok {?lk} ?s1 L U"
    using sys_ok_acquire [OF assms(1), of ?lk] by simp_all
  show ?thesis
  proof (cases "sem_count sm = 0")
    case False
    have "release ?lk ?s1 = Some (let_go ?lk ?s1)" using sys_ok_release(1) [OF acq(2)] by simp
    moreover have "let_go ?lk ?s1 = ?s" using let_go_held [OF locks, of ?lk] by simp
    moreover have "0 < sem_count sm" using False by (simp add: word_gt_0)
    ultimately show ?thesis using False assms(2,4,5) acq(1)
      by (simp add: P_def P_round_def on_base_def set_sem_count_def)
  next
    case True
    have own: "no_sched_locks {?lk}" by (rule own_locks)
    have w: "S_SLEEP = S_SLEEP \<Longrightarrow> Some (?w, ?lk) = Some (?w, ?lk) \<and> ?w \<in> dom (wchans ?s1) \<and> no_sched_locks {?lk}"
      using assms(3) own by simp
    have f: "{?lk} = (if S_SLEEP = S_SLEEP then {?lk} else {})" "S_SLEEP \<noteq> S_RUN"
      "S_SLEEP = S_ZOMBIE \<Longrightarrow> t_proc (the (threads ?s1 (curthread ?s1))) = None"
      "\<not> c_isidle (the (cpus ?s1 (curcpu ?s1)))" "thread_checkstack (curthread ?s1) ?s1 = Some ()"
      "L (runq_of (curcpu ?s1)) = Some (t # q)"
      using assms(6-8) by (simp_all add: thread_checkstack_def)
    obtain s' where s': "thread_switch idle S_SLEEP (Some (?w, ?lk)) ?s1 = Some (s', t_curspl (view ?s1), True)"
      "sys_ok {RunqueueLock (curcpu ?s1)} s' (switched (dest_of S_SLEEP (curcpu ?s1) ?w) (curthread ?s1) (curcpu ?s1) L)
        (insert t (U - {curthread ?s1}))"
      "curthread s' = t" "parked s' S_SLEEP (curthread ?s1)"
      using switch_parks [OF acq(2) f(1) w f(2-6)] by blast
    have count: "c_spinlocks (view ?s1) = 1" "splk_holder (locks ?s1 ?lk) = Some (c_self (view ?s1))"
      using locks by (simp_all add: locks_ok_def)
    have "wchan_sleep idle ?w ?lk ?s1 = Some (s', t_curspl (view ?s1), True)"
      using assms(4,5) count s'(1) by (simp add: wchan_sleep_def)
    then have "P idle i y = Some (y\<lparr>base := s'\<rparr>, Some (t_curspl (view ?s)))"
      using True assms(2,4,5) acq(1) by (simp add: P_def P_round_def on_base_def sleep_on_def)
    then show ?thesis using True s'(2-4) by (auto intro!: exI [of _ s'])
  qed
qed

theorem P_takes_or_sleeps_witness:
  "\<exists>y y' spl. sems y 0 = Some \<lparr>sem_name = ''s'', sem_wchan = 0, sem_count = 0\<rparr> \<and>
     P (\<lambda>_. None) 0 y = Some (y', Some spl) \<and> curthread (base y') = 2 \<and> parked (base y') S_SLEEP 1"
proof -
  obtain h where h: "reps h (sample_queues [2, 3] []) {1}"
    using sample_heap_exists [of "[2, 3]" "[]"] by auto
  let ?sm = "\<lparr>sem_name = ''s'', sem_wchan = 0, sem_count = 0\<rparr>"
  let ?y = "\<lparr>base = sample_sys S_READY h, sems = [0 \<mapsto> ?sm], sleeplocks = Map.empty, cvs = Map.empty\<rparr>"
  have ok: "sys_ok {} (base ?y) (sample_queues [2, 3] []) {1}" using sample_sys_ok [OF h] by simp
  have f: "sems ?y 0 = Some ?sm" "sem_wchan ?sm \<in> dom (wchans (base ?y))"
    "threads (base ?y) (curthread (base ?y)) = Some (sample_thread S_RUN)"
    "\<not> t_in_interrupt (sample_thread S_RUN)" "\<not> c_isidle (the (cpus (base ?y) (curcpu (base ?y))))"
    "thread_checkstack (curthread (base ?y)) (base ?y) = Some ()"
    "sample_queues [2, 3] [] (runq_of (curcpu (base ?y))) = Some (2 # [3])"
    "sem_count ?sm = 0" "curthread (base ?y) = 1"
    by (simp_all add: sample_sys_def sample_thread_def sample_queues_def sample_addresses
        thread_checkstack_def)
  obtain s' where "P (\<lambda>_. None) 0 ?y = Some (?y\<lparr>base := s'\<rparr>, Some (t_curspl (view (base ?y))))"
    "curthread s' = 2" "parked s' S_SLEEP 1"
    using P_takes_or_sleeps [OF ok f(1-7), of "\<lambda>_. None"] f(8,9) by auto
  then show ?thesis using f(1) by (intro exI [of _ ?y] exI [of _ "?y\<lparr>base := s'\<rparr>"]) auto
qed


section \<open>Sleep locks and condition variables\<close>

text \<open>Releasing a lock frees it, whoever calls, and makes its longest waiter ready.\<close>

lemma lock_release_frees:
  assumes "sys_ok {} (base y) L U" and "sleeplocks y i = Some lk" and "L (sleepers_of (lock_wchan lk)) = Some ts"
  shows "\<exists>s'. lock_release i y = Some (y\<lparr>sleeplocks := (sleeplocks y)(i \<mapsto> lk\<lparr>holder := None\<rparr>), base := s'\<rparr>) \<and>
    sys_ok {} s' (delivered (base y) (take 1 ts) (L(sleepers_of (lock_wchan lk) \<mapsto> tl ts))) U \<and>
    (\<forall>t \<in> set (take 1 ts). parked s' S_READY t) \<and> curthread s' = curthread (base y)"
proof -
  let ?w = "lock_wchan lk" and ?l = "lk_spinlock i"
  obtain s1 s' where s': "acquire ?l (base y) = Some s1" "curthread s1 = curthread (base y)"
    "wchan_wakeone ?w ?l s1 = Some s'" "same_env s1 s'" "release ?l s' = Some (let_go ?l s')"
    "\<forall>t \<in> set (take 1 ts). parked (let_go ?l s') S_READY t"
    "sys_ok {} (let_go ?l s') (delivered (base y) (take 1 ts) (L(sleepers_of ?w \<mapsto> tl ts))) U"
    using wake_in_section [OF assms(1) own_locks(2) assms(3)] by blast
  have "lock_release i y = Some (y\<lparr>sleeplocks := (sleeplocks y)(i \<mapsto> lk\<lparr>holder := None\<rparr>), base := let_go ?l s'\<rparr>)"
    using assms(2) s'(1,3,5) by (simp add: lock_release_def on_base_def set_holder_def)
  moreover have "curthread (let_go ?l s') = curthread (base y)" using s'(2,4) by (simp add: same_env_def)
  ultimately show ?thesis using s'(6,7) by blast
qed

lemma lock_acquire_free:
  assumes "sys_ok {} (base y) L U" and "sleeplocks y i = Some lk" and "holder lk = None"
  shows "lock_acquire idle i y =
    Some (y\<lparr>sleeplocks := (sleeplocks y)(i \<mapsto> lk\<lparr>holder := Some (curthread (base y))\<rparr>)\<rparr>, None)"
proof -
  let ?s = "base y" and ?l = "lk_spinlock i"
  have locks: "locks_ok {} ?s" using assms(1) by (simp add: sys_ok_def)
  have "acquire ?l ?s = Some (held_by_me ?l ?s)" using sys_ok_acquire(1) [OF assms(1)] by simp
  moreover have "release ?l (held_by_me ?l ?s) = Some ?s"
    using locks_ok_release(1) [OF locks_ok_acquire(2) [OF locks, of ?l]] let_go_held [OF locks, of ?l] by simp
  ultimately show ?thesis using assms(2,3)
    by (simp add: lock_acquire_def lock_round_def on_base_def set_holder_def)
qed

text \<open>Lock_release does not check that the caller holds the lock: any running thread that calls it
  while another thread holds the lock succeeds, and can then take the lock itself, without the holder
  having let go; the header promises that only the holder can release.\<close>

theorem lock_release_by_stranger:
  assumes "sys_ok {} (base y) L U" and "sleeplocks y i = Some lk" and "holder lk = Some t"
    and "t \<noteq> curthread (base y)" and "L (sleepers_of (lock_wchan lk)) = Some ts"
  shows "lock_do_i_hold i y = Some False \<and>
    (\<exists>y1 y2. lock_release i y = Some y1 \<and> lock_acquire idle i y1 = Some (y2, None) \<and>
      lock_do_i_hold i y2 = Some True \<and> curthread (base y2) = curthread (base y))"
proof -
  obtain s' where s': "lock_release i y = Some (y\<lparr>sleeplocks := (sleeplocks y)(i \<mapsto> lk\<lparr>holder := None\<rparr>), base := s'\<rparr>)"
    "sys_ok {} s' (delivered (base y) (take 1 ts) (L(sleepers_of (lock_wchan lk) \<mapsto> tl ts))) U"
    "curthread s' = curthread (base y)"
    using lock_release_frees [OF assms(1,2,5)] by blast
  let ?y1 = "y\<lparr>sleeplocks := (sleeplocks y)(i \<mapsto> lk\<lparr>holder := None\<rparr>), base := s'\<rparr>"
  have ok: "sys_ok {} (base ?y1) (delivered (base y) (take 1 ts) (L(sleepers_of (lock_wchan lk) \<mapsto> tl ts))) U"
    using s'(2) by simp
  have "lock_acquire idle i ?y1 = Some (?y1\<lparr>sleeplocks := (sleeplocks ?y1)(i \<mapsto>
      (lk\<lparr>holder := None\<rparr>)\<lparr>holder := Some (curthread (base ?y1))\<rparr>)\<rparr>, None)"
    by (rule lock_acquire_free [OF ok]) simp_all
  then show ?thesis using assms(2-4) s'(1,3) by (simp add: lock_do_i_hold_def)
qed

theorem lock_release_by_stranger_witness:
  "\<exists>y y1 y2. lock_do_i_hold 0 y = Some False \<and> lock_release 0 y = Some y1 \<and>
     lock_acquire (\<lambda>_. None) 0 y1 = Some (y2, None) \<and> lock_do_i_hold 0 y2 = Some True"
proof -
  obtain h where h: "reps h (sample_queues [2, 3] []) {1}"
    using sample_heap_exists [of "[2, 3]" "[]"] by auto
  let ?lk = "\<lparr>lk_name = ''l'', lock_wchan = 0, holder = Some 2\<rparr>"
  let ?y = "\<lparr>base = sample_sys S_READY h, sems = Map.empty, sleeplocks = [0 \<mapsto> ?lk], cvs = Map.empty\<rparr>"
  have ok: "sys_ok {} (base ?y) (sample_queues [2, 3] []) {1}" using sample_sys_ok [OF h] by simp
  have f: "sleeplocks ?y 0 = Some ?lk" "holder ?lk = Some 2" "2 \<noteq> curthread (base ?y)"
    "sample_queues [2, 3] [] (sleepers_of (lock_wchan ?lk)) = Some []"
    by (simp_all add: sample_sys_def sample_queues_def sample_addresses)
  show ?thesis using lock_release_by_stranger [OF ok f, of "\<lambda>_. None"] by blast
qed

text \<open>A spinlock taken twice in a row by the same CPU is a panic.\<close>

lemma acquire_twice:
  assumes "acquire l s = Some s1"
  shows "acquire l s1 = None"
proof -
  have "splk_lock (locks s1 l) = 1"
    using assms by (auto simp: acquire_def spinlock_acquire_def split: Option.bind_splits prod.splits)
  then show ?thesis
    by (auto simp: acquire_def spinlock_acquire_def spin_quiet split: Option.bind_splits prod.splits)
qed

text \<open>A thread that sleeps in cv_wait never comes back from it, whatever the state of the system:
  when it is woken it takes the lock's spinlock, and the lock_acquire that follows takes the same
  spinlock again and panics.\<close>

theorem cv_wait_never_returns:
  "cv_wait_resume idle i spl y = None"
  by (auto simp: cv_wait_resume_def wchan_sleep_resume_def lock_acquire_def on_base_def acquire_twice
      split: Option.bind_splits)

text \<open>Cv_broadcast called as its contract asks, by the holder of the lock with no spinlock held,
  always panics: it keeps the lock's spinlock while it calls lock_release, which takes it again.\<close>

theorem cv_broadcast_panics:
  assumes "sys_ok {} (base y) L U" and "cvs y c = Some cv" and "cv_wc cv = Some w"
    and "L (sleepers_of w) = Some ts" and "L (local_of (curthread (base y))) = None"
    and "lock_do_i_hold i y = Some True"
  shows "cv_broadcast c i y = None"
proof -
  let ?s = "base y" and ?l = "lk_spinlock i"
  let ?s1 = "held_by_me ?l ?s"
  have acq: "acquire ?l ?s = Some ?s1" "sys_ok {?l} ?s1 L U" using sys_ok_acquire [OF assms(1), of ?l] by simp_all
  have free: "\<not> do_i_hold ?l ?s"
    using assms(1) by (auto simp: sys_ok_def locks_ok_def spinlock_init_def spl_inv_def)
  have "L (local_of (curthread ?s1)) = None" using assms(5) by simp
  then obtain s2 where s2: "wchan_wakeall w ?l ?s1 = Some s2" "same_env ?s1 s2"
    using wakeall_ok [OF acq(2) insertI1 own_locks(2) assms(4)] by blast
  have "cpu_exists (view ?s1)" using assms(1) by (simp add: sys_ok_def locks_ok_def spl_inv_def)
  then have "acquire ?l s2 = None"
    using s2(2) by (intro acquire_mine) (simp_all add: same_env_def)
  then show ?thesis using assms(2,3,6) acq(1) free s2(1)
    by (simp add: cv_broadcast_def on_base_def lock_release_def)
qed

theorem cv_broadcast_panics_witness:
  "\<exists>y. lock_do_i_hold 0 y = Some True \<and> cv_broadcast 0 0 y = None \<and> \<not> do_i_hold (lk_spinlock 0) (base y)"
proof -
  obtain h where h: "reps h (sample_queues [] [2, 3]) {1}"
    using sample_heap_exists [of "[]" "[2, 3]"] by auto
  let ?lk = "\<lparr>lk_name = ''l'', lock_wchan = 0, holder = Some 1\<rparr>"
  let ?cv = "\<lparr>cv_name = ''c'', cv_wc = Some 0, condition = False\<rparr>"
  let ?y = "\<lparr>base = sample_sys S_SLEEP h, sems = Map.empty, sleeplocks = [0 \<mapsto> ?lk], cvs = [0 \<mapsto> ?cv]\<rparr>"
  have ok: "sys_ok {} (base ?y) (sample_queues [] [2, 3]) {1}" using sample_sys_ok [OF h] by simp
  have f: "cvs ?y 0 = Some ?cv" "cv_wc ?cv = Some 0" "sample_queues [] [2, 3] (sleepers_of 0) = Some [2, 3]"
    "sample_queues [] [2, 3] (local_of (curthread (base ?y))) = None" "lock_do_i_hold 0 ?y = Some True"
    by (simp_all add: sample_sys_def sample_queues_def sample_addresses lock_do_i_hold_def local_of_def)
  have "\<not> do_i_hold (lk_spinlock 0) (base ?y)" by (simp add: sample_sys_def spinlock_init_def)
  then show ?thesis using cv_broadcast_panics [OF ok f] f(5) by blast
qed

text \<open>Cv_signal wakes the longest waiter, but it also releases the caller's lock, against the
  contract that the caller keeps it: when it returns the lock is free, and a second cv_signal, as a
  caller still inside its critical section would make it, fails its assertion.\<close>

theorem cv_signal_drops_lock:
  assumes "sys_ok {} (base y) L U" and "cvs y c = Some cv" and "cv_wc cv = Some w"
    and "sleeplocks y i = Some lk" and "holder lk = Some (curthread (base y))" and "w \<noteq> lock_wchan lk"
    and "L (sleepers_of w) = Some ts" and "L (sleepers_of (lock_wchan lk)) = Some us"
  shows "\<exists>y'. cv_signal c i y = Some y' \<and> map_option holder (sleeplocks y' i) = Some None \<and>
    cv_signal c i y' = None"
proof -
  let ?l = "lk_spinlock i"
  obtain s1 s2 where s2: "acquire ?l (base y) = Some s1" "curthread s1 = curthread (base y)"
    "wchan_wakeone w ?l s1 = Some s2" "same_env s1 s2" "release ?l s2 = Some (let_go ?l s2)"
    "sys_ok {} (let_go ?l s2) (delivered (base y) (take 1 ts) (L(sleepers_of w \<mapsto> tl ts))) U"
    using wake_in_section [OF assms(1) own_locks(2) assms(7)] by blast
  let ?y1 = "y\<lparr>base := let_go ?l s2\<rparr>"
  have cur: "curthread (base ?y1) = curthread (base y)" using s2(2,4) by (simp add: same_env_def)
  have ok1: "sys_ok {} (base ?y1) (delivered (base y) (take 1 ts) (L(sleepers_of w \<mapsto> tl ts))) U" using s2(6) by simp
  have q1: "delivered (base y) (take 1 ts) (L(sleepers_of w \<mapsto> tl ts)) (sleepers_of (lock_wchan lk)) = Some us"
    using assms(6,8) by (simp add: delivered_def)
  have lk1: "sleeplocks ?y1 i = Some lk" using assms(4) by simp
  obtain s3 where s3: "lock_release i ?y1 = Some (?y1\<lparr>sleeplocks := (sleeplocks ?y1)(i \<mapsto> lk\<lparr>holder := None\<rparr>), base := s3\<rparr>)"
    "curthread s3 = curthread (base ?y1)"
    using lock_release_frees [OF ok1 lk1 q1] by blast
  let ?y2 = "?y1\<lparr>sleeplocks := (sleeplocks ?y1)(i \<mapsto> lk\<lparr>holder := None\<rparr>), base := s3\<rparr>"
  have mine: "lock_do_i_hold i y = Some True" "lock_do_i_hold i ?y1 = Some True" "lock_do_i_hold i ?y2 = Some False"
    using assms(4,5) cur by (simp_all add: lock_do_i_hold_def)
  have "cv_signal c i y = Some ?y2"
    using assms(2,3) mine s2(1,3,5) s3(1) by (simp add: cv_signal_def on_base_def)
  moreover have "cv_signal c i ?y2 = None" using assms(2) mine(3) by (simp add: cv_signal_def)
  ultimately show ?thesis by (intro exI [of _ ?y2]) simp
qed

theorem cv_signal_drops_lock_witness:
  "\<exists>y y'. lock_do_i_hold 0 y = Some True \<and> cv_signal 0 0 y = Some y' \<and> cv_signal 0 0 y' = None"
proof -
  obtain h where h: "reps h (sample_queues [2, 3] []) {1}"
    using sample_heap_exists [of "[2, 3]" "[]"] by auto
  let ?L = "(sample_queues [2, 3] [])(sleepers_of 1 \<mapsto> [])"
  let ?s = "(sample_sys S_READY h)\<lparr>heap := threadlist_init (sleepers_of 1) h\<rparr>"
  let ?lk = "\<lparr>lk_name = ''l'', lock_wchan = 1, holder = Some 1\<rparr>"
  let ?cv = "\<lparr>cv_name = ''c'', cv_wc = Some 0, condition = False\<rparr>"
  let ?y = "\<lparr>base = ?s, sems = Map.empty, sleeplocks = [0 \<mapsto> ?lk], cvs = [0 \<mapsto> ?cv]\<rparr>"
  have ok: "sys_ok {} (sample_sys S_READY h) (sample_queues [2, 3] []) {1}" using sample_sys_ok [OF h] by simp
  have "heap (sample_sys S_READY h) = h" by (simp add: sample_sys_def)
  then have "sys_ok {} ?s ?L {1}"
    using sys_ok_new_list [OF ok, of "sleepers_of 1"] by (simp add: sample_queues_def sleepers_of_def)
  then have ok1: "sys_ok {} (base ?y) ?L {1}" by simp
  have f: "cvs ?y 0 = Some ?cv" "cv_wc ?cv = Some 0" "sleeplocks ?y 0 = Some ?lk"
    "holder ?lk = Some (curthread (base ?y))" "0 \<noteq> lock_wchan ?lk" "?L (sleepers_of 0) = Some []"
    "?L (sleepers_of (lock_wchan ?lk)) = Some []" "lock_do_i_hold 0 ?y = Some True"
    by (simp_all add: sample_sys_def sample_queues_def sleepers_of_def lock_do_i_hold_def)
  show ?thesis using cv_signal_drops_lock [OF ok1 f(1-7)] f(8) by blast
qed

end
