(* ===== verification/Sync_Machine.thy ===== *)
theory Sync_Machine
  imports Synch
begin

text \<open>
  Semaphores and locks of \<^verbatim>\<open>kern/thread/synch.c\<close> under any interleaving of any number of threads. A
  step is one critical section of \<^verbatim>\<open>P\<close>, \<^verbatim>\<open>V\<close>, \<^verbatim>\<open>lock_acquire\<close> or \<^verbatim>\<open>lock_release\<close> under the
  structure's spinlock, which Spinlock proves exclusive; what a section does to the count, the holder
  and the sleepers is what Synch proves of the code. A woken thread is ready but has not yet tested
  the loop's condition again.
\<close>

section \<open>Semaphores\<close>

record sem_sys =
  count :: nat
  asleep :: "nat list"
  woken :: "nat set"
  taken :: nat
  given :: nat

definition idle_in :: "nat \<Rightarrow> sem_sys \<Rightarrow> bool" where
  "idle_in t s \<longleftrightarrow> t \<notin> set (asleep s) \<and> t \<notin> woken s"

text \<open>The loop of \<^verbatim>\<open>P\<close>: one round by thread \<open>t\<close>, new or woken.\<close>

definition sem_P :: "nat \<Rightarrow> sem_sys \<Rightarrow> sem_sys" where
  "sem_P t s =
    (if count s = 0 then s\<lparr>asleep := asleep s @ [t], woken := woken s - {t}\<rparr>
     else s\<lparr>count := count s - 1, woken := woken s - {t}, taken := taken s + 1\<rparr>)"

text \<open>\<^verbatim>\<open>V\<close>; at the largest count its assertion fails.\<close>

definition sem_V :: "sem_sys \<Rightarrow> sem_sys option" where
  "sem_V s =
    (if (count s + 1) mod 2 ^ 32 = 0 then None
     else Some (s\<lparr>count := count s + 1, asleep := tl (asleep s),
                 woken := woken s \<union> set (take 1 (asleep s)), given := given s + 1\<rparr>))"

inductive sem_step :: "sem_sys \<Rightarrow> sem_sys \<Rightarrow> bool" where
  new_P: "idle_in t s \<Longrightarrow> sem_step s (sem_P t s)"
| woken_P: "t \<in> woken s \<Longrightarrow> sem_step s (sem_P t s)"
| do_V: "sem_V s = Some s' \<Longrightarrow> sem_step s s'"

inductive sem_reach :: "nat \<Rightarrow> sem_sys \<Rightarrow> bool" for n where
  start: "n < 2 ^ 32 \<Longrightarrow> sem_reach n \<lparr>count = n, asleep = [], woken = {}, taken = 0, given = 0\<rparr>"
| step: "sem_reach n s \<Longrightarrow> sem_step s s' \<Longrightarrow> sem_reach n s'"

inductive_cases sem_stepE: "sem_step s s'"

definition sem_inv :: "nat \<Rightarrow> sem_sys \<Rightarrow> bool" where
  "sem_inv n s \<longleftrightarrow> count s + taken s = n + given s \<and> count s < 2 ^ 32 \<and> finite (woken s) \<and>
     distinct (asleep s) \<and> set (asleep s) \<inter> woken s = {} \<and>
     (asleep s \<noteq> [] \<longrightarrow> count s \<le> card (woken s))"

lemma sem_P_inv:
  assumes "sem_inv n s" and "t \<notin> set (asleep s)"
  shows "sem_inv n (sem_P t s)"
proof (cases "count s = 0")
  case True
  then show ?thesis using assms by (auto simp: sem_inv_def sem_P_def)
next
  case False
  have "count s - 1 \<le> card (woken s - {t})" if "asleep s \<noteq> []"
    using assms(1) that by (cases "t \<in> woken s") (auto simp: sem_inv_def)
  then show ?thesis using assms False by (auto simp: sem_inv_def sem_P_def)
qed

lemma sem_V_inv:
  assumes "sem_inv n s" and "sem_V s = Some s'"
  shows "sem_inv n s'"
proof -
  have s': "s' = s\<lparr>count := count s + 1, asleep := tl (asleep s),
      woken := woken s \<union> set (take 1 (asleep s)), given := given s + 1\<rparr>" "count s + 1 \<noteq> 2 ^ 32"
    using assms(2) by (auto simp: sem_V_def split: if_splits)
  show ?thesis
  proof (cases "asleep s")
    case Nil
    then show ?thesis using assms(1) s' by (auto simp: sem_inv_def)
  next
    case (Cons t ts)
    then have "card (insert t (woken s)) = Suc (card (woken s))"
      using assms(1) by (auto simp: sem_inv_def)
    then show ?thesis using assms(1) s' Cons by (auto simp: sem_inv_def)
  qed
qed

lemma sem_reach_inv: "sem_reach n s \<Longrightarrow> sem_inv n s"
proof (induction rule: sem_reach.induct)
  case start
  then show ?case by (simp add: sem_inv_def)
next
  case (step s s')
  from step.hyps(2) show ?case
  proof (rule sem_stepE)
    fix t assume "s' = sem_P t s" "idle_in t s"
    then show ?thesis using sem_P_inv step.IH by (simp add: idle_in_def)
  next
    fix t assume "s' = sem_P t s" "t \<in> woken s"
    moreover from this have "t \<notin> set (asleep s)" using step.IH by (auto simp: sem_inv_def)
    ultimately show ?thesis using sem_P_inv step.IH by simp
  next
    assume "sem_V s = Some s'"
    then show ?thesis using sem_V_inv step.IH by simp
  qed
qed

text \<open>C6: under any interleaving of P and V on a semaphore created with count \<open>n\<close>, the count is
  exactly \<open>n\<close> plus the Vs minus the completed Ps, so no unit is lost or taken twice, and no wake-up is
  lost: as long as a thread sleeps, there are at least as many woken threads about to test the count as
  there are units, so when none is on its way the sleepers face a count of 0.\<close>

theorem sem_no_lost_wakeup:
  assumes "sem_reach n s"
  shows "count s + taken s = n + given s \<and> (asleep s \<noteq> [] \<longrightarrow> count s \<le> card (woken s)) \<and>
    (asleep s \<noteq> [] \<longrightarrow> woken s = {} \<longrightarrow> count s = 0)"
  using sem_reach_inv [OF assms] by (auto simp: sem_inv_def)

lemma sem_run_witness: "sem_reach 0 \<lparr>count = 1, asleep = [8], woken = {7}, taken = 0, given = 1\<rparr>"
proof -
  have r0: "sem_reach 0 \<lparr>count = 0, asleep = [], woken = {}, taken = 0, given = 0\<rparr>" by (rule start) simp
  have r1: "sem_reach 0 \<lparr>count = 0, asleep = [7], woken = {}, taken = 0, given = 0\<rparr>"
    using step [OF r0 new_P [of 7]] by (simp add: idle_in_def sem_P_def)
  have r2: "sem_reach 0 \<lparr>count = 0, asleep = [7, 8], woken = {}, taken = 0, given = 0\<rparr>"
    using step [OF r1 new_P [of 8]] by (simp add: idle_in_def sem_P_def)
  show ?thesis using step [OF r2 do_V] by (simp add: sem_V_def)
qed

theorem sem_no_lost_wakeup_witness:
  "sem_reach 0 \<lparr>count = 1, asleep = [8], woken = {7}, taken = 0, given = 1\<rparr> \<and> (1 :: nat) \<le> card {7 :: nat}"
  using sem_no_lost_wakeup [OF sem_run_witness] sem_run_witness by simp

section \<open>Locks\<close>

text \<open>A thread is inside when its last \<^verbatim>\<open>lock_acquire\<close> has returned and it has not released since.\<close>

record lock_sys =
  owner :: "nat option"
  waiting :: "nat list"
  awake :: "nat set"
  inside_cs :: "nat set"

definition lock_take :: "nat \<Rightarrow> lock_sys \<Rightarrow> lock_sys" where
  "lock_take t s =
    (if owner s \<noteq> None then s\<lparr>waiting := waiting s @ [t], awake := awake s - {t}\<rparr>
     else s\<lparr>owner := Some t, awake := awake s - {t}, inside_cs := insert t (inside_cs s)\<rparr>)"

definition lock_drop :: "nat \<Rightarrow> lock_sys \<Rightarrow> lock_sys" where
  "lock_drop t s = s\<lparr>owner := None, waiting := tl (waiting s),
     awake := awake s \<union> set (take 1 (waiting s)), inside_cs := inside_cs s - {t}\<rparr>"

text \<open>With \<open>strict\<close> only threads that are inside release, as the header demands; the code accepts a
  release by any thread.\<close>

inductive lock_step :: "bool \<Rightarrow> lock_sys \<Rightarrow> lock_sys \<Rightarrow> bool" for strict where
  new_take: "t \<notin> set (waiting s) \<Longrightarrow> t \<notin> awake s \<Longrightarrow> t \<notin> inside_cs s \<Longrightarrow> lock_step strict s (lock_take t s)"
| awake_take: "t \<in> awake s \<Longrightarrow> lock_step strict s (lock_take t s)"
| drop: "t \<notin> set (waiting s) \<Longrightarrow> t \<notin> awake s \<Longrightarrow> (strict \<longrightarrow> t \<in> inside_cs s) \<Longrightarrow>
    lock_step strict s (lock_drop t s)"

inductive lock_reach :: "bool \<Rightarrow> lock_sys \<Rightarrow> bool" for strict where
  lock_start: "lock_reach strict \<lparr>owner = None, waiting = [], awake = {}, inside_cs = {}\<rparr>"
| lock_more: "lock_reach strict s \<Longrightarrow> lock_step strict s s' \<Longrightarrow> lock_reach strict s'"

inductive_cases lock_stepE: "lock_step strict s s'"

definition lock_inv :: "lock_sys \<Rightarrow> bool" where
  "lock_inv s \<longleftrightarrow> inside_cs s = set_option (owner s) \<and> (waiting s \<noteq> [] \<longrightarrow> owner s \<noteq> None \<or> awake s \<noteq> {}) \<and>
     awake s \<inter> inside_cs s = {} \<and> set (waiting s) \<inter> (inside_cs s \<union> awake s) = {} \<and> distinct (waiting s)"

lemma lock_step_inv:
  assumes "lock_step True s s'" and "lock_inv s"
  shows "lock_inv s'"
  using assms(1)
proof (rule lock_stepE)
  fix t assume "s' = lock_take t s" "t \<notin> set (waiting s)" "t \<notin> awake s" "t \<notin> inside_cs s"
  then show ?thesis using assms(2) by (auto simp: lock_inv_def lock_take_def)
next
  fix t assume t: "s' = lock_take t s" "t \<in> awake s"
  then show ?thesis using assms(2) by (auto simp: lock_inv_def lock_take_def)
next
  fix t assume t: "s' = lock_drop t s" "True \<longrightarrow> t \<in> inside_cs s"
  then have "owner s = Some t" "inside_cs s = {t}" using assms(2) by (auto simp: lock_inv_def elem_set)
  then show ?thesis using t assms(2) by (cases "waiting s") (auto simp: lock_inv_def lock_drop_def)
qed

lemma lock_reach_inv: "lock_reach True s \<Longrightarrow> lock_inv s"
  by (induction rule: lock_reach.induct) (simp_all add: lock_inv_def [of "\<lparr>owner = None, waiting = [], awake = {}, inside_cs = {}\<rparr>"] lock_step_inv)

lemma rogue_run: "lock_reach False \<lparr>owner = Some 2, waiting = [], awake = {}, inside_cs = {1, 2}\<rparr>"
proof -
  have r1: "lock_reach False \<lparr>owner = Some 1, waiting = [], awake = {}, inside_cs = {1}\<rparr>"
    using lock_more [OF lock_start new_take [of 1]] by (simp add: lock_take_def)
  have r2: "lock_reach False \<lparr>owner = None, waiting = [], awake = {}, inside_cs = {1}\<rparr>"
    using lock_more [OF r1 drop [of 9]] by (simp add: lock_drop_def)
  show ?thesis using lock_more [OF r2 new_take [of 2]] by (simp add: lock_take_def insert_commute)
qed

text \<open>C29: as long as only threads inside the critical section release, the locks exclude under any
  interleaving (at most one thread is inside, and it is the recorded holder) and no waiter is
  forgotten (someone holds the lock or has been woken to take it); with the releases the code accepts,
  two threads can be inside at once.\<close>

theorem lock_exclusion_needs_discipline:
  "(\<forall>s. lock_reach True s \<longrightarrow> (\<forall>t u. t \<in> inside_cs s \<longrightarrow> u \<in> inside_cs s \<longrightarrow> t = u \<and> owner s = Some t) \<and>
      (waiting s \<noteq> [] \<longrightarrow> owner s \<noteq> None \<or> awake s \<noteq> {})) \<and>
   (\<exists>s. lock_reach False s \<and> 1 \<in> inside_cs s \<and> 2 \<in> inside_cs s)"
proof (intro conjI allI impI)
  fix s t u assume "lock_reach True s" "t \<in> inside_cs s" "u \<in> inside_cs s"
  then show "t = u" "owner s = Some t" using lock_reach_inv [of s] by (auto simp: lock_inv_def elem_set)
next
  fix s assume "lock_reach True s" "waiting s \<noteq> []"
  then show "owner s \<noteq> None \<or> awake s \<noteq> {}" using lock_reach_inv [of s] by (auto simp: lock_inv_def)
next
  show "\<exists>s. lock_reach False s \<and> 1 \<in> inside_cs s \<and> 2 \<in> inside_cs s" using rogue_run by fastforce
qed

lemma disciplined_run: "lock_reach True \<lparr>owner = Some 1, waiting = [2], awake = {}, inside_cs = {1}\<rparr>"
proof -
  have r1: "lock_reach True \<lparr>owner = Some 1, waiting = [], awake = {}, inside_cs = {1}\<rparr>"
    using lock_more [OF lock_start new_take [of 1]] by (simp add: lock_take_def)
  show ?thesis using lock_more [OF r1 new_take [of 2]] by (simp add: lock_take_def)
qed

theorem lock_exclusion_needs_discipline_witness:
  "lock_reach True \<lparr>owner = Some 1, waiting = [2], awake = {}, inside_cs = {1}\<rparr> \<and>
   (\<exists>s. lock_reach False s \<and> 1 \<in> inside_cs s \<and> 2 \<in> inside_cs s)"
  using lock_exclusion_needs_discipline disciplined_run by blast

end
