(* ===== verification/Synch_Problems.thy ===== *)
theory Synch_Problems
  imports Sync_Machine
begin

text \<open>
  The two exercises in \<^verbatim>\<open>kern/synchprobs\<close>. The threads of \<^verbatim>\<open>whalemating.c\<close> are sequences of calls of Synch, cut
  where they sleep. \<^verbatim>\<open>bathroom.c\<close> is a machine of twenty threads under any interleaving: a step is a \<^verbatim>\<open>P\<close>, a \<^verbatim>\<open>V\<close>, or one
  read or write of a variable that the threads share. A semaphore is its count, which is enough as no wake-up of
  one is lost; a thread whose \<^verbatim>\<open>P\<close> finds it 0 has no step.
\<close>

section \<open>\<^verbatim>\<open>whalemating.c\<close>\<close>

text \<open>A male or a female: \<^verbatim>\<open>V\<close> for the matchmaker, the lock, then the wait; the second part runs when it has the lock.
  When the wait comes back it releases the lock and has mated.\<close>

definition whale_calls :: "(ksys \<Rightarrow> ksys option) \<Rightarrow> nat \<Rightarrow> nat \<Rightarrow> ysys \<Rightarrow> (ysys \<times> int option) option" where
  "whale_calls idle sem lk y = do { y \<leftarrow> V sem y; lock_acquire idle lk y }"

definition whale_waits :: "(ksys \<Rightarrow> ksys option) \<Rightarrow> nat \<Rightarrow> nat \<Rightarrow> ysys \<Rightarrow> (ysys \<times> int option) option" where
  "whale_waits idle cv lk y = cv_wait idle cv lk y"

definition whale_mates :: "(ksys \<Rightarrow> ksys option) \<Rightarrow> nat \<Rightarrow> int \<Rightarrow> ysys \<Rightarrow> ysys option" where
  "whale_mates idle lk spl y = do {
     (y, asleep) \<leftarrow> cv_wait_resume idle lk spl y;
     kassert (asleep = None);
     lock_release lk y
   }"

text \<open>The matchmaker, when it has met one of each and has the lock.\<close>

definition matchmaker_helps :: "nat \<Rightarrow> nat \<Rightarrow> nat \<Rightarrow> ysys \<Rightarrow> ysys option" where
  "matchmaker_helps male_cv female_cv lk y = do {
     y \<leftarrow> cv_signal male_cv lk y;
     y \<leftarrow> cv_signal female_cv lk y;
     lock_release lk y
   }"

lemma on_base_keeps: "on_base f y = Some y' \<Longrightarrow> sleeplocks y' = sleeplocks y"
  by (auto simp: on_base_def bind_eq_Some)

lemma released_holder:
  assumes "lock_release lk y = Some y'"
  shows "\<exists>k. sleeplocks y' lk = Some k \<and> holder k = None"
  using assms by (auto simp: lock_release_def set_holder_def bind_eq_Some dest!: on_base_keeps)

lemma cv_signal_drops:
  assumes "cv_signal c lk y = Some y'"
  shows "lock_do_i_hold lk y' = Some False"
proof -
  obtain y1 m where y1: "lock_do_i_hold lk y1 = Some m" "(if m then lock_release lk y1 else Some y1) = Some y'"
    using assms by (auto simp: cv_signal_def bind_eq_Some)
  show ?thesis
  proof (cases m)
    case True
    then have "lock_release lk y1 = Some y'" using y1(2) by simp
    from released_holder [OF this] obtain k where "sleeplocks y' lk = Some k" "holder k = None" by blast
    then show ?thesis by (simp add: lock_do_i_hold_def)
  qed (use y1 in simp)
qed

section \<open>\<^verbatim>\<open>bathroom.c\<close>\<close>

abbreviation (input) NPEOPLE :: nat where "NPEOPLE \<equiv> 20"

text \<open>Where a thread is: before its \<^verbatim>\<open>P\<close>; in the shower; with \<^verbatim>\<open>people\<close> read for the increment; before the test of its own
  semaphore; before the test of \<^verbatim>\<open>people\<close>; before reading the other semaphore; with that in \<^verbatim>\<open>m\<close>; before the test of the
  loop; before \<^verbatim>\<open>V\<close>; before the increment; with the loop variable read; and done.\<close>

datatype bath_pc = Starting | Showering | Adding nat | Leaving | Checking | Measuring | Setting nat | Filling | Posting
  | Stepping | Bumping nat | Gone

text \<open>The boys are the even numbers. The loop variables are global, \<^verbatim>\<open>i\<close> for all boys and \<^verbatim>\<open>j\<close> for all girls; the
  semaphores are counted by who waits on them.\<close>

record bath =
  tokens :: "bool \<Rightarrow> nat"
  index :: "bool \<Rightarrow> nat"
  people :: nat
  pcs :: "nat \<Rightarrow> bath_pc"

definition boy :: "nat \<Rightarrow> bool" where
  "boy n \<longleftrightarrow> n mod 2 = 0"

definition go :: "nat \<Rightarrow> bath_pc \<Rightarrow> bath \<Rightarrow> bath" where
  "go n q s = s\<lparr>pcs := (pcs s)(n := q)\<rparr>"

definition bath_step :: "nat \<Rightarrow> bath \<Rightarrow> bath option" where
  "bath_step n s =
     (let g = boy n; h = (\<not> g) in
      case pcs s n of
        Starting \<Rightarrow> if tokens s g = 0 then None else Some (go n Showering (s\<lparr>tokens := (tokens s)(g := tokens s g - 1)\<rparr>))
      | Showering \<Rightarrow> Some (go n (Adding (people s)) s)
      | Adding p \<Rightarrow> Some (go n Leaving (s\<lparr>people := p + 1\<rparr>))
      | Leaving \<Rightarrow> Some (go n (if tokens s g = 0 then Checking else Gone) s)
      | Checking \<Rightarrow> Some (go n (if people s \<noteq> NPEOPLE then Measuring else Gone) s)
      | Measuring \<Rightarrow> Some (go n (Setting (tokens s h)) s)
      | Setting m \<Rightarrow> Some (go n Filling (s\<lparr>index := (index s)(g := m)\<rparr>))
      | Filling \<Rightarrow> Some (go n (if index s g < 3 then Posting else Gone) s)
      | Posting \<Rightarrow> Some (go n Stepping (s\<lparr>tokens := (tokens s)(h := tokens s h + 1)\<rparr>))
      | Stepping \<Rightarrow> Some (go n (Bumping (index s g)) s)
      | Bumping k \<Rightarrow> Some (go n Filling (s\<lparr>index := (index s)(g := k + 1)\<rparr>))
      | Gone \<Rightarrow> None)"

definition bath_start :: bath where
  "bath_start = \<lparr>tokens = (\<lambda>g. if g then 3 else 0), index = (\<lambda>_. 0), people = 0, pcs = (\<lambda>_. Starting)\<rparr>"

inductive bath_reach :: "bath \<Rightarrow> bool" where
  start: "bath_reach bath_start"
| step: "bath_reach s \<Longrightarrow> n < NPEOPLE \<Longrightarrow> bath_step n s = Some s' \<Longrightarrow> bath_reach s'"

text \<open>A schedule.\<close>

primrec bath_run :: "nat list \<Rightarrow> bath \<Rightarrow> bath option" where
  "bath_run [] s = Some s"
| "bath_run (n # ns) s = do { s1 \<leftarrow> bath_step n s; bath_run ns s1 }"

lemma bath_run_reach: "bath_reach s \<Longrightarrow> set ns \<subseteq> {..<NPEOPLE} \<Longrightarrow> bath_run ns s = Some s' \<Longrightarrow> bath_reach s'"
  by (induction ns arbitrary: s) (auto simp: bind_eq_Some intro: bath_reach.step)

subsection \<open>What is counted\<close>

definition counted_by :: "bath \<Rightarrow> nat set" where
  "counted_by s = {n. n < NPEOPLE \<and> pcs s n \<noteq> Starting \<and> pcs s n \<noteq> Showering \<and> (\<forall>p. pcs s n \<noteq> Adding p)}"

definition count_inv :: "bath \<Rightarrow> bool" where
  "count_inv s \<longleftrightarrow> people s \<le> card (counted_by s) \<and> (\<forall>n p. pcs s n = Adding p \<longrightarrow> p \<le> card (counted_by s))"

lemma finite_counted [simp]: "finite (counted_by s)"
  by (simp add: counted_by_def)

lemma counted_go:
  "n < NPEOPLE \<Longrightarrow> counted_by (go n q s) = (if q = Starting \<or> q = Showering \<or> (\<exists>p. q = Adding p)
     then counted_by s - {n} else insert n (counted_by s))"
  by (auto simp: counted_by_def go_def)

lemma counted_upd [simp]: "counted_by (s\<lparr>tokens := t\<rparr>) = counted_by s" "counted_by (s\<lparr>index := x\<rparr>) = counted_by s"
  "counted_by (s\<lparr>people := k\<rparr>) = counted_by s"
  by (simp_all add: counted_by_def)

lemma count_step:
  assumes n: "n < NPEOPLE" and st: "bath_step n s = Some s'" and inv: "count_inv s"
  shows "count_inv s'"
proof (cases "\<exists>p. pcs s n = Adding p")
  case True
  then obtain p where p: "pcs s n = Adding p" by blast
  then have s': "s' = go n Leaving (s\<lparr>people := p + 1\<rparr>)" using st by (simp add: bath_step_def Let_def)
  have c: "counted_by s' = insert n (counted_by s)" "n \<notin> counted_by s"
    using n p unfolding s' by (simp_all add: counted_go) (simp add: counted_by_def)
  have "q \<le> Suc (card (counted_by s))" if "pcs s m = Adding q" for m q
    using inv that by (simp add: count_inv_def le_SucI)
  moreover have "p \<le> card (counted_by s)" using inv p by (simp add: count_inv_def)
  ultimately show ?thesis using c by (auto simp: count_inv_def s' go_def)
next
  case False
  have "counted_by s' = counted_by s"
    using st n False by (auto simp: bath_step_def Let_def counted_go counted_by_def go_def split: bath_pc.splits if_splits)
  moreover have "people s' = people s"
    using st False by (auto simp: bath_step_def Let_def go_def split: bath_pc.splits if_splits)
  moreover have "pcs s' m = Adding p \<Longrightarrow> pcs s m = Adding p \<or> p = people s" for m p
    using st False by (auto simp: bath_step_def Let_def go_def split: bath_pc.splits if_splits)
  ultimately show ?thesis using inv by (fastforce simp: count_inv_def)
qed

lemma count_reach: "bath_reach s \<Longrightarrow> count_inv s"
proof (induction rule: bath_reach.induct)
  case start
  show ?case by (simp add: count_inv_def bath_start_def)
next
  case (step s n s')
  then show ?case using count_step by blast
qed


subsection \<open>One at a time\<close>

text \<open>A visit by somebody who has the bathroom to himself, from beginning to end: the last of three fills the other
  semaphore.\<close>

definition after_visit :: "nat \<Rightarrow> bath \<Rightarrow> bath" where
  "after_visit n s =
     (let g = boy n; t = tokens s g - 1; full = (t = 0 \<and> people s + 1 \<noteq> NPEOPLE) in
      go n Gone (s\<lparr>tokens := (\<lambda>h. if h = g then t else if full then 3 else tokens s h), people := people s + 1,
        index := (if full then (index s)(g := 3) else index s)\<rparr>))"

lemma bath_run_append: "bath_run (xs @ ys) s = do { s1 \<leftarrow> bath_run xs s; bath_run ys s1 }"
  by (induction xs arbitrary: s) (auto split: Option.bind_splits)

lemma solo_visit:
  assumes "pcs s n = Starting" and "tokens s (boy n) \<noteq> 0" and "tokens s (\<not> boy n) = 0"
  shows "\<exists>k. bath_run (replicate k n) s = Some (after_visit n s)"
proof (cases "tokens s (boy n) = 1")
  case False
  have "bath_run (replicate 4 n) s = Some (after_visit n s)"
    using assms False by (simp add: eval_nat_numeral bath_step_def Let_def go_def after_visit_def fun_eq_iff)
  then show ?thesis by blast
next
  case one: True
  show ?thesis
  proof (cases "people s + 1 = NPEOPLE")
    case True
    have "bath_run (replicate 5 n) s = Some (after_visit n s)"
      using assms one True by (simp add: eval_nat_numeral bath_step_def Let_def go_def after_visit_def fun_eq_iff)
    then show ?thesis by blast
  next
    case False
    have "bath_run (replicate 20 n) s = Some (after_visit n s)"
      using assms one False by (simp add: eval_nat_numeral bath_step_def Let_def go_def after_visit_def fun_eq_iff)
    then show ?thesis by blast
  qed
qed


lemma gone_stays: "pcs s n = Gone \<Longrightarrow> bath_run (replicate k n) s = Some s' \<Longrightarrow> s' = s"
  by (cases k) (auto simp: bath_step_def Let_def)

lemma visit_unique:
  assumes "bath_run (replicate k n) s = Some s1" and "pcs s1 n = Gone"
    and "bath_run (replicate l n) s = Some s2" and "pcs s2 n = Gone"
  shows "s1 = s2"
proof (cases "k \<le> l")
  case True
  then have "bath_run (replicate (l - k) n) s1 = Some s2"
    using assms(1,3) bath_run_append [of "replicate k n" "replicate (l - k) n" s] by (simp add: replicate_add [symmetric])
  from gone_stays [OF assms(2) this] show ?thesis by (rule sym)
next
  case False
  then have "bath_run (replicate (k - l) n) s2 = Some s1"
    using assms(1,3) bath_run_append [of "replicate l n" "replicate (k - l) n" s] by (simp add: replicate_add [symmetric])
  from gone_stays [OF assms(4) this] show ?thesis .
qed

text \<open>Schedules in which each visit ends before the next begins.\<close>

inductive one_by_one :: "nat list \<Rightarrow> bath \<Rightarrow> bool" where
  nobody: "one_by_one [] bath_start"
| visit: "one_by_one ns s \<Longrightarrow> n < NPEOPLE \<Longrightarrow> pcs s n = Starting \<Longrightarrow> bath_run (replicate k n) s = Some s' \<Longrightarrow>
    pcs s' n = Gone \<Longrightarrow> one_by_one (ns @ [n]) s'"

text \<open>After \<open>k\<close> visits: three boys, three girls, and so on.\<close>

definition boys_in :: "nat \<Rightarrow> nat" where
  "boys_in k = 3 * (k div 6) + min (k mod 6) 3"

definition turn :: "nat \<Rightarrow> bool \<Rightarrow> nat" where
  "turn k g = (if k mod 6 < 3 then (if g then 3 - k mod 6 else 0) else (if g then 0 else 6 - k mod 6))"

definition orderly :: "nat list \<Rightarrow> bath \<Rightarrow> bool" where
  "orderly ns s \<longleftrightarrow> distinct ns \<and> set ns \<subseteq> {..<NPEOPLE} \<and> length ns \<le> 19 \<and>
     (\<forall>n. pcs s n = (if n \<in> set ns then Gone else Starting)) \<and> people s = length ns \<and> tokens s = turn (length ns) \<and>
     length (filter boy ns) = boys_in (length ns)"

lemma below_19: "k < 19 \<Longrightarrow> k \<in> {0, 1, 2, 3, 4, 5, 6, 7, 8, 9, 10, 11, 12, 13, 14, 15, 16, 17, 18}" for k :: nat
proof -
  assume "k < 19"
  then have "k \<in> set [0..<19]" by simp
  then show ?thesis by (simp add: upt_rec eval_nat_numeral)
qed

lemma turn_next:
  assumes "turn k g \<noteq> 0" and "k < 19"
  shows "turn k (\<not> g) = 0" and "g \<longleftrightarrow> k mod 6 < 3"
    and "turn (Suc k) = (\<lambda>h. if h = g then turn k g - 1 else if turn k g = 1 then 3 else 0)"
proof -
  show "turn k (\<not> g) = 0" "g \<longleftrightarrow> k mod 6 < 3" using assms(1) by (auto simp: turn_def split: if_splits)
  show "turn (Suc k) = (\<lambda>h. if h = g then turn k g - 1 else if turn k g = 1 then 3 else 0)"
    using below_19 [OF assms(2)] assms(1) by (cases g) (auto simp: turn_def fun_eq_iff)
qed

lemma boys_next:
  assumes "k < 19"
  shows "boys_in (Suc k) = (if k mod 6 < 3 then Suc (boys_in k) else boys_in k)"
  using below_19 [OF assms] by (auto simp: boys_in_def)

lemma all_boys: "card {n. n < NPEOPLE \<and> boy n} = 10"
proof -
  have "{n. n < NPEOPLE \<and> boy n} = (\<lambda>m. 2 * m) ` {..<10}" unfolding boy_def
    by (auto simp: image_iff Bex_def)
  then show ?thesis by (simp add: card_image inj_on_def)
qed

lemma orderly_visit:
  assumes o: "orderly ns s" and n: "n < NPEOPLE" "pcs s n = Starting" "bath_run (replicate k n) s = Some s'" "pcs s' n = Gone"
  shows "orderly (ns @ [n]) s'"
proof -
  let ?k = "length ns" and ?g = "boy n"
  have o': "distinct ns" "set ns \<subseteq> {..<NPEOPLE}" "?k \<le> 19" "people s = ?k" "tokens s = turn ?k"
    "length (filter boy ns) = boys_in ?k" "\<And>m. pcs s m = (if m \<in> set ns then Gone else Starting)"
    using o by (simp_all add: orderly_def)
  have new: "n \<notin> set ns" using n(2) o'(7) by (metis bath_pc.distinct)
  obtain j where "k = Suc j" using n(2-4) by (cases k) auto
  then have tok: "turn ?k ?g \<noteq> 0" using n(2,3) o'(5) by (auto simp: bath_step_def Let_def split: if_splits)
  have lt: "?k < 19"
  proof (rule ccontr)
    assume "\<not> ?k < 19"
    then have k: "?k = 19" using o'(3) by simp
    then have b: "?g" using tok by (auto simp: turn_def split: if_splits)
    have "card (set (filter boy ns)) = length (filter boy ns)" by (rule distinct_card) (use o'(1) in simp)
    then have "card (set (filter boy ns)) = 10" unfolding o'(6) k by (simp add: boys_in_def)
    moreover have "set (filter boy ns) \<subseteq> {m. m < NPEOPLE \<and> boy m}" using o'(2) by auto
    ultimately have "set (filter boy ns) = {m. m < NPEOPLE \<and> boy m}"
      using all_boys by (intro card_subset_eq) simp_all
    then show False using new n(1) b by auto
  qed
  note t = turn_next [OF tok lt]
  have z: "tokens s (\<not> ?g) = 0" "tokens s ?g \<noteq> 0" using t(1) tok o'(5) by simp_all
  obtain l where l: "bath_run (replicate l n) s = Some (after_visit n s)" using solo_visit [OF n(2) z(2,1)] by blast
  moreover have "pcs (after_visit n s) n = Gone" by (simp add: after_visit_def Let_def go_def)
  ultimately have s': "s' = after_visit n s" using visit_unique [OF n(3,4)] by blast
  have "tokens s' = turn (Suc ?k)"
    unfolding t(3) s' using tok t(1) lt by (auto simp: after_visit_def Let_def go_def o'(4,5) fun_eq_iff)
  moreover have "people s' = Suc ?k" "\<And>m. pcs s' m = (if m \<in> set (ns @ [n]) then Gone else Starting)"
    unfolding s' using o'(4,7) by (simp_all add: after_visit_def Let_def go_def)
  moreover have "length (filter boy (ns @ [n])) = boys_in (Suc ?k)"
    using o'(6) boys_next [OF lt] t(2) by simp
  ultimately show ?thesis using o'(1,2) new n(1) lt by (simp add: orderly_def)
qed

lemma one_by_one_orderly: "one_by_one ns s \<Longrightarrow> orderly ns s"
proof (induction rule: one_by_one.induct)
  case nobody
  show ?case by (auto simp: orderly_def bath_start_def turn_def boys_in_def)
next
  case (visit ns s n k s')
  then show ?case using orderly_visit by blast
qed

lemma one_by_one_reach: "one_by_one ns s \<Longrightarrow> bath_reach s"
proof (induction rule: one_by_one.induct)
  case (visit ns s n k s')
  then show ?case using bath_run_reach [of s "replicate k n" s'] by (auto simp: set_replicate_conv_if split: if_splits)
qed (rule bath_reach.start)


lemma who_is_left:
  assumes o: "orderly ns s" and lt: "length ns < 19"
  shows "\<exists>n < NPEOPLE. n \<notin> set ns \<and> turn (length ns) (boy n) \<noteq> 0"
proof -
  let ?k = "length ns" and ?g = "length ns mod 6 < 3"
  have o': "distinct ns" "set ns \<subseteq> {..<NPEOPLE}" "length (filter boy ns) = boys_in ?k" using o by (simp_all add: orderly_def)
  let ?mine = "filter (\<lambda>n. boy n = ?g) ns" and ?all = "{n. n < NPEOPLE \<and> boy n = ?g}"
  have "length (filter boy ns) + length (filter (\<lambda>n. \<not> boy n) ns) = ?k" by (rule sum_length_filter_compl)
  then have "length ?mine < 10"
    using o'(3) below_19 [OF lt] by (auto simp: boys_in_def)
  moreover have "card ?all = 10"
  proof (cases ?g)
    case False
    have "{n. n < NPEOPLE \<and> \<not> boy n} = {..<NPEOPLE} - {n. n < NPEOPLE \<and> boy n}" by auto
    also have "card \<dots> = 20 - 10" using all_boys by (subst card_Diff_subset) auto
    finally show ?thesis using False by simp
  qed (use all_boys in simp)
  moreover have "card (set ?mine) \<le> length ?mine" by (rule card_length)
  ultimately have "\<not> ?all \<subseteq> set ?mine" using card_mono [of "set ?mine" ?all] by auto
  then obtain n where n: "n < NPEOPLE" "boy n = ?g" "n \<notin> set ns" by auto
  then have "turn ?k (boy n) \<noteq> 0" by (auto simp: turn_def not_less)
  then show ?thesis using n by blast
qed

lemma the_last_girl:
  assumes o: "orderly ns s" and k: "length ns = 19"
  shows "\<exists>n < NPEOPLE. \<not> boy n \<and> {..<NPEOPLE} - set ns = {n}"
proof -
  have o': "distinct ns" "set ns \<subseteq> {..<NPEOPLE}" "length (filter boy ns) = 10"
    using o k by (simp_all add: orderly_def boys_in_def)
  have "card ({..<NPEOPLE} - set ns) = 1" using o'(1,2) k by (simp add: card_Diff_subset distinct_card)
  then obtain n where n: "{..<NPEOPLE} - set ns = {n}" by (auto simp: card_1_singleton_iff)
  have "card (set (filter boy ns)) = length (filter boy ns)" by (rule distinct_card) (use o'(1) in simp)
  moreover have "set (filter boy ns) \<subseteq> {m. m < NPEOPLE \<and> boy m}" using o'(2) by auto
  ultimately have "set (filter boy ns) = {m. m < NPEOPLE \<and> boy m}"
    using all_boys o'(3) by (intro card_subset_eq) simp_all
  then have "\<not> boy n" using n by auto
  then show ?thesis using n by blast
qed

section \<open>What the exercises promise, and what they do\<close>

text \<open>The bathroom counts no one who has not showered. Whatever the interleaving, \<^verbatim>\<open>people\<close>, which is incremented without a
  lock, is at most the number of those who have done their increment; so nobody finds the bathroom done with while
  others have still to come.\<close>

theorem bathroom_counts_at_most:
  assumes "bath_reach s"
  shows "people s \<le> card (counted_by s) \<and> (people s = NPEOPLE \<longrightarrow> counted_by s = {..<NPEOPLE})"
proof -
  have c: "people s \<le> card (counted_by s)" using count_reach [OF assms] by (simp add: count_inv_def)
  have sub: "counted_by s \<subseteq> {..<NPEOPLE}" by (auto simp: counted_by_def)
  have "counted_by s = {..<NPEOPLE}" if "people s = NPEOPLE"
    by (rule card_subset_eq) (use sub c that card_mono [OF _ sub] in auto)
  then show ?thesis using c by blast
qed

text \<open>C20: The bathroom strands a girl. When the twenty visits do not overlap at all, in whatever order the threads get to
  run, the schedule stops with nineteen done and one girl waiting for a \<^verbatim>\<open>V\<close> that nobody will do: the tenth boy leaves two
  units of his semaphore, so he does not open the bathroom to the girls.\<close>

theorem bathroom_strands_a_girl:
  assumes "one_by_one ns s" and "\<forall>n < NPEOPLE. bath_step n s = None"
  shows "\<exists>n < NPEOPLE. \<not> boy n \<and> pcs s n = Starting \<and> tokens s False = 0 \<and> (\<forall>m < NPEOPLE. m \<noteq> n \<longrightarrow> pcs s m = Gone)"
proof -
  have o: "orderly ns s" by (rule one_by_one_orderly [OF assms(1)])
  then have o': "length ns \<le> 19" "tokens s = turn (length ns)" "\<And>m. pcs s m = (if m \<in> set ns then Gone else Starting)"
    by (simp_all add: orderly_def)
  have "\<not> length ns < 19"
  proof
    assume "length ns < 19"
    from who_is_left [OF o this] obtain n where "n < NPEOPLE" "n \<notin> set ns" "turn (length ns) (boy n) \<noteq> 0" by blast
    then show False using assms(2) o'(2,3) by (auto simp: bath_step_def Let_def)
  qed
  then have k: "length ns = 19" using o'(1) by simp
  from the_last_girl [OF o this] obtain n where n: "n < NPEOPLE" "\<not> boy n" "{..<NPEOPLE} - set ns = {n}" by blast
  then show ?thesis using o'(2,3) k by (intro exI [of _ n]) (auto simp: turn_def)
qed

text \<open>The bathroom is shared. Boys and girls can be in it together, and more than three at a time: the first of three boys
  to leave finds his semaphore at 0 and lets three girls in, while the other two boys are still there.\<close>

theorem bathroom_mixes:
  "\<exists>s. bath_reach s \<and> (\<forall>n \<in> {2, 4, 1, 3, 5}. pcs s n = Showering)"
proof -
  let ?sched = "[0, 2, 4, 0, 0, 0, 0, 0, 0, 0, 0, 0, 0, 0, 0, 0, 0, 0, 0, 0, 0, 0, 1, 3, 5] :: nat list"
  have "\<exists>s. bath_run ?sched bath_start = Some s \<and> (\<forall>n \<in> {2, 4, 1, 3, 5}. pcs s n = Showering)"
    by (simp add: bath_start_def bath_step_def Let_def go_def boy_def)
  then obtain s where s: "bath_run ?sched bath_start = Some s"
    "\<forall>n \<in> {2, 4, 1, 3, 5}. pcs s n = Showering" by blast
  have "set ?sched \<subseteq> {..<NPEOPLE}" by simp
  from bath_run_reach [OF bath_reach.start this s(1)] show ?thesis using s(2) by blast
qed

text \<open>No matchmaker comes to the end. The first \<^verbatim>\<open>cv_signal\<close> releases the lock of the caller, and the second asserts that
  the caller holds it: whatever the state, helping the pair stops the kernel.\<close>

theorem matchmaker_stops_kernel:
  "matchmaker_helps male_cv female_cv lk y = None"
proof (cases "cv_signal male_cv lk y")
  case None
  then show ?thesis by (simp add: matchmaker_helps_def)
next
  case (Some y1)
  then show ?thesis using cv_signal_drops [OF Some]
    by (simp add: matchmaker_helps_def cv_signal_def split: option.split)
qed

theorem bathroom_counts_at_most_witness:
  "people bath_start \<le> card (counted_by bath_start)"
  using bathroom_counts_at_most [OF bath_reach.start] by blast


lemma schedule_exists: "k \<le> 19 \<Longrightarrow> \<exists>ns s. one_by_one ns s \<and> length ns = k"
proof (induction k)
  case 0
  then show ?case using one_by_one.nobody by auto
next
  case (Suc k)
  then obtain ns s where ns: "one_by_one ns s" "length ns = k" by auto
  have o: "orderly ns s" by (rule one_by_one_orderly [OF ns(1)])
  obtain n where n: "n < NPEOPLE" "n \<notin> set ns" "turn (length ns) (boy n) \<noteq> 0"
    using who_is_left [OF o] ns(2) Suc.prems by auto
  have st: "pcs s n = Starting" "tokens s = turn (length ns)" using o n(2) by (simp_all add: orderly_def)
  have "turn (length ns) (\<not> boy n) = 0" by (rule turn_next(1) [OF n(3)]) (use ns(2) Suc.prems in simp)
  then obtain l where l: "bath_run (replicate l n) s = Some (after_visit n s)"
    using solo_visit [OF st(1)] st(2) n(3) by auto
  have "one_by_one (ns @ [n]) (after_visit n s)"
    by (rule one_by_one.visit [OF ns(1) n(1) st(1) l]) (simp add: after_visit_def Let_def go_def)
  then show ?case using ns(2) by (intro exI [of _ "ns @ [n]"]) auto
qed

theorem bathroom_strands_a_girl_witness:
  "\<exists>ns s n. one_by_one ns s \<and> n < NPEOPLE \<and> \<not> boy n \<and> pcs s n = Starting \<and> (\<forall>m < NPEOPLE. m \<noteq> n \<longrightarrow> pcs s m = Gone)"
proof -
  obtain ns s where ns: "one_by_one ns s" "length ns = 19" using schedule_exists [of 19] by auto
  have o: "orderly ns s" by (rule one_by_one_orderly [OF ns(1)])
  then have o': "tokens s = turn 19" "\<And>m. pcs s m = (if m \<in> set ns then Gone else Starting)"
    using ns(2) by (simp_all add: orderly_def)
  obtain g where g: "\<not> boy g" "{..<NPEOPLE} - set ns = {g}" using the_last_girl [OF o ns(2)] by blast
  have "bath_step n s = None" if "n < NPEOPLE" for n
  proof (cases "n \<in> set ns")
    case False
    then have "n = g" using g(2) that by auto
    then show ?thesis using False g(1) o' by (simp add: bath_step_def Let_def turn_def)
  qed (use o'(2) in \<open>simp add: bath_step_def Let_def\<close>)
  then show ?thesis using bathroom_strands_a_girl [OF ns(1)] ns(1) by blast
qed

end
