(* ===== verification/Migration.thy ===== *)
theory Migration
  imports Thread_Life "HOL-Library.Multiset"
begin

text \<open>
  \<^verbatim>\<open>thread_consider_migration\<close> of \<^verbatim>\<open>kern/thread/thread.c\<close>: the balancing moves threads between run
  queues and loses none.
\<close>

text \<open>The CPUs of the array are exactly the ones that exist.\<close>

definition cpus_ok :: "ksys \<Rightarrow> bool" where
  "cpus_ok s \<longleftrightarrow> arr_wf (allcpus s) \<and> distinct (arr_list (allcpus s)) \<and>
     set (arr_list (allcpus s)) = dom (cpus s)"

definition ready_on :: "(nat \<Rightarrow> nat list option) \<Rightarrow> nat list \<Rightarrow> nat multiset" where
  "ready_on L cs = (\<Sum>c \<leftarrow> cs. mset (the (L (runq_of c))))"

lemma ready_on_simps [simp]:
  "ready_on L [] = {#}" "ready_on L (c # cs) = mset (the (L (runq_of c))) + ready_on L cs"
  "ready_on L (cs @ ds) = ready_on L cs + ready_on L ds"
  by (simp_all add: ready_on_def)

lemma ready_on_other: "(\<And>c. c \<in> set cs \<Longrightarrow> l \<noteq> runq_of c) \<Longrightarrow> ready_on (L(l := q)) cs = ready_on L cs"
  by (induction cs) (auto simp: ready_on_def)

lemma ready_on_move:
  assumes "distinct cs" and "c \<in> set cs" and "L (runq_of c) = Some q"
  shows "ready_on (L(runq_of c \<mapsto> q')) cs + mset q = ready_on L cs + mset q'"
  using assms
proof (induction cs)
  case (Cons d cs)
  show ?case
  proof (cases "c = d")
    case True
    then have "ready_on (L(runq_of c \<mapsto> q')) cs = ready_on L cs"
      using Cons.prems(1) by (intro ready_on_other) auto
    then show ?thesis using True Cons.prems(3) by (simp del: fun_upd_apply add: fun_upd_same)
  next
    case False
    then show ?thesis using Cons by (simp add: ac_simps)
  qed
qed simp

lemma gain: "A + mset q = B + mset (q @ v) \<Longrightarrow> A = B + mset v"
  by simp

lemma balance:
  fixes A :: "'a multiset"
  assumes "A + Q = B + (Q + V)" and "C + (T + W) = D + T" and "B + V = C + W"
  shows "A = D"
proof -
  have "A = B + V" using assms(1) by (simp add: ac_simps)
  moreover have "(C + W) + T = D + T" using assms(2) by (simp add: ac_simps)
  ultimately show ?thesis using assms(3) by simp
qed

section \<open>Counting\<close>

lemma queue_count: "reps h L U \<Longrightarrow> L l = Some q \<Longrightarrow> tl_count h l = length q"
  by (auto simp: reps_def list_rep_def)

lemma count_queues_ok:
  assumes ok: "sys_ok {} s L U" and "cpus_ok s" and "\<forall>i \<in> set is. i < length (arr_list (allcpus s))"
  shows "\<exists>tot mine'. count_queues is (t0, mine) s = Some (s, tot, mine') \<and>
    (if \<exists>i \<in> set is. arr_list (allcpus s) ! i = curcpu s
     then mine' = length (the (L (runq_of (curcpu s)))) else mine' = mine)"
  using assms(3)
proof (induction "is" arbitrary: t0 mine)
  case (Cons i "is")
  let ?c = "arr_list (allcpus s) ! i" and ?xs = "arr_list (allcpus s)"
  have get: "array_get (allcpus s) i = Some (Some ?c)"
    using array_get_spec [of "allcpus s" i] assms(2) Cons.prems by (auto simp: cpus_ok_def)
  have c: "?c \<in> dom (cpus s)" using assms(2) Cons.prems by (auto simp: cpus_ok_def simp del: domIff)
  obtain q where q: "L (runq_of ?c) = Some q" using queues_exist(1) [OF ok c] by blast
  have locks: "locks_ok {} s" using ok by (simp add: sys_ok_def)
  have n: "tl_count (heap s) (runq_of ?c) = length q" by (rule queue_count [OF sys_reps [OF ok] q])
  let ?s1 = "held_by_me (RunqueueLock ?c) s"
  have acq: "acquire (RunqueueLock ?c) s = Some ?s1" "release (RunqueueLock ?c) ?s1 = Some s"
    using locks_ok_acquire [OF locks, of "RunqueueLock ?c"] locks_ok_release(1)
      let_go_held [OF locks, of "RunqueueLock ?c"] by simp_all
  let ?mine = "if ?c = curcpu s then length q else mine"
  obtain tot mine' where IH: "count_queues is ((t0 + length q) mod 2 ^ 32, ?mine) s = Some (s, tot, mine')"
    "if \<exists>i \<in> set is. ?xs ! i = curcpu s
     then mine' = length (the (L (runq_of (curcpu s)))) else mine' = ?mine"
    using Cons.IH [of "(t0 + length q) mod 2 ^ 32" ?mine] Cons.prems by auto
  have "count_queues (i # is) (t0, mine) s = Some (s, tot, mine')"
    using get acq n IH(1) by (cases "?c = curcpu s") (simp_all add: Let_def)
  then show ?case using IH(2) q by (auto split: if_splits)
qed simp

section \<open>Taking and placing victims\<close>

lemma queues_ok_local: "queues_ok s L \<Longrightarrow> queues_ok s (L(local_of a \<mapsto> vs))"
  unfolding queues_ok_def by (auto simp del: domIff)

definition movable :: "ksys \<Rightarrow> nat \<Rightarrow> nat list \<Rightarrow> bool" where
  "movable s c vs \<longleftrightarrow> (\<forall>t \<in> set vs. parked s S_READY t \<and> on_cpu s c t)"

lemma movable_heap [simp]: "movable (s\<lparr>heap := h\<rparr>) c vs = movable s c vs"
  by (simp add: movable_def)

lemma take_victims_ok:
  assumes "sys_ok H s L U" and "L (local_of a) = Some vs" and "L (runq_of (curcpu s)) = Some q"
    and "n \<le> length q" and "movable s (curcpu s) vs"
  shows "\<exists>h. for_each (\<lambda>_. take_victim (local_of a)) [0..<n] s = Some (s\<lparr>heap := h\<rparr>) \<and>
    sys_ok H (s\<lparr>heap := h\<rparr>) (L(runq_of (curcpu s) \<mapsto> take (length q - n) q,
      local_of a \<mapsto> drop (length q - n) q @ vs)) U \<and>
    movable s (curcpu s) (drop (length q - n) q @ vs)"
  using assms(4)
proof (induction n)
  case 0
  have L: "L(runq_of (curcpu s) \<mapsto> q, local_of a \<mapsto> vs) = L" using assms by (simp add: map_upd_triv)
  show ?case using assms(1,5) by (intro exI [of _ "heap s"]) (simp del: fun_upd_apply add: L)
next
  case (Suc n)
  let ?me = "curcpu s" and ?v = "local_of a" and ?k = "length q - n"
  let ?L = "\<lambda>k. L(runq_of ?me \<mapsto> take k q, ?v \<mapsto> drop k q @ vs)"
  obtain h where h: "for_each (\<lambda>_. take_victim ?v) [0..<n] s = Some (s\<lparr>heap := h\<rparr>)"
    "sys_ok H (s\<lparr>heap := h\<rparr>) (?L ?k) U" "movable s ?me (drop ?k q @ vs)"
    using Suc.IH Suc.prems by (meson Suc_leD)
  let ?t = "q ! (?k - 1)" and ?k' = "length q - Suc n"
  have k: "0 < ?k" "?k \<le> length q" "?k' = ?k - 1" using Suc.prems by simp_all
  have tk: "take ?k q = take ?k' q @ [?t]" "drop ?k' q = ?t # drop ?k q"
    using k by (metis Suc_pred' diff_Suc_1' le_imp_less_Suc less_Suc_eq_le take_Suc_conv_app_nth
        Suc_le_eq diff_less less_le_trans zero_less_one,
      metis Suc_pred' Cons_nth_drop_Suc Suc_le_eq)
  have ok: "sys_ok H (s\<lparr>heap := h\<rparr>) (?L ?k) U" by (rule h(2))
  have rq: "(?L ?k) (runq_of ?me) = Some (take ?k' q @ [?t])" using tk(1) by simp
  have t: "?t \<notin> U" "?t \<in> dom (threads s)" "fits (s\<lparr>heap := h\<rparr>) (runq_of ?me) ?t"
    using not_current [OF ok rq, of ?t] on_list_fits [OF ok rq, of ?t] by simp_all
  have r: "reps h (?L ?k) U" using sys_reps [OF ok] by simp
  obtain h1 where h1: "threadlist_remtail (runq_of ?me) h = Some (h1, Some ?t)"
    "reps h1 ((?L ?k)(runq_of ?me \<mapsto> take ?k' q)) (insert ?t U)"
    using thl.remtail_snoc [OF r rq] by blast
  have "sys_ok H (s\<lparr>heap := h\<rparr>\<lparr>heap := h1\<rparr>) ((?L ?k)(runq_of ?me \<mapsto> take ?k' q)) (insert ?t U)"
    by (rule sys_ok_shrink [OF ok rq _ h1(2)]) auto
  then have ok1: "sys_ok H (s\<lparr>heap := h1\<rparr>) ((?L ?k)(runq_of ?me \<mapsto> take ?k' q)) (insert ?t U)" by simp
  have vl: "((?L ?k)(runq_of ?me \<mapsto> take ?k' q)) ?v = Some (drop ?k q @ vs)" by simp
  have len: "length (drop ?k q @ vs) + 1 < 2 ^ 32" using queue_room [OF ok1 vl, of ?t] t(2) by simp
  obtain h2 where h2: "threadlist_addhead ?v ?t h1 = Some h2"
    "reps h2 ((?L ?k)(runq_of ?me \<mapsto> take ?k' q, ?v \<mapsto> ?t # drop ?k q @ vs)) (insert ?t U - {?t})"
    using thl.addhead_free [OF h1(2) vl insertI1 len] by blast
  have eq: "(?L ?k)(runq_of ?me \<mapsto> take ?k' q, ?v \<mapsto> ?t # drop ?k q @ vs) = ?L ?k'" "insert ?t U - {?t} = U"
    using tk(2) t(1) by (auto simp: fun_upd_def)
  have r2: "reps h2 (?L ?k') U" using h2(2) unfolding eq .
  have "queues_ok (s\<lparr>heap := h2\<rparr>) (?L ?k')"
  proof -
    have "queues_ok (s\<lparr>heap := h2\<rparr>) ((?L ?k)(runq_of ?me \<mapsto> take ?k' q))"
      using ok1 by (simp add: sys_ok_def queues_ok_def)
    then show ?thesis unfolding eq(1) [symmetric] by (rule queues_ok_local)
  qed
  moreover have "locks_ok H (s\<lparr>heap := h2\<rparr>)"
    using ok1 locks_ok_cong [of "s\<lparr>heap := h2\<rparr>" "s\<lparr>heap := h1\<rparr>"] by (simp add: sys_ok_def)
  moreover have "set xs \<subseteq> dom (threads s)" if "(?L ?k') l = Some xs" for l xs
    using on_lists [OF ok1, of l xs] on_lists [OF ok1 vl] t(2) tk(2) that by (auto split: if_splits)
  ultimately have ok2: "sys_ok H (s\<lparr>heap := h2\<rparr>) (?L ?k') U"
    using ok r2 by (simp add: sys_ok_def)
  have "take_victim ?v (s\<lparr>heap := h\<rparr>) = Some (s\<lparr>heap := h2\<rparr>)"
    using h1(1) h2(1) by (simp add: take_victim_def rem_tail_def add_head_def)
  then have "for_each (\<lambda>_. take_victim ?v) [0..<Suc n] s = Some (s\<lparr>heap := h2\<rparr>)"
    using h(1) by (simp add: for_each_append)
  moreover have "movable s ?me (drop ?k' q @ vs)" using h(3) t(3) tk(2) by (simp add: movable_def)
  ultimately show ?case using ok2 by blast
qed


lemma place_ok:
  assumes ok: "sys_ok H s L U" and t: "t \<in> U" "t \<noteq> curthread s" "parked s S_READY t"
    and c: "c \<in> dom (cpus s)" "IpiLock c \<notin> H" and q: "L (runq_of c) = Some q"
  shows "\<exists>s1 s2 cp s'. upd_thread t (\<lambda>th. th\<lparr>t_cpu := Some c\<rparr>) s = Some s1 \<and>
    add_tail (runq_of c) t s1 = Some s2 \<and> cpus s2 c = Some cp \<and>
    (if c_isidle cp then ipi_send c IPI_UNIDLE s2 else Some s2) = Some s' \<and>
    sys_ok H s' (L(runq_of c \<mapsto> q @ [t])) (U - {t}) \<and> same_env s s' \<and>
    (\<forall>x. x \<noteq> t \<longrightarrow> threads s' x = threads s x)"
proof -
  obtain th where th: "threads s t = Some th" "t_state th = S_READY" "t_saved_spl th = 1" "t_saved_count th = 2"
    using t(3) by (auto simp: parked_def split: option.splits)
  obtain cp where cp: "cpus s c = Some cp" using c(1) by auto
  let ?s1 = "s\<lparr>threads := (threads s)(t \<mapsto> th\<lparr>t_cpu := Some c\<rparr>)\<rparr>"
  have len: "length q + 1 < 2 ^ 32" using queue_room [OF ok q t(1)] th(1) by auto
  obtain h where h: "threadlist_addtail (runq_of c) t (heap s) = Some h"
    "reps h (L(runq_of c \<mapsto> q @ [t])) (U - {t})"
    using thl.addtail_free [OF sys_reps [OF ok] q t(1) len] by blast
  let ?s2 = "?s1\<lparr>heap := h\<rparr>"
  let ?s3 = "if c_isidle cp then pinged c IPI_UNIDLE ?s2 else ?s2"
  have locks: "locks_ok H ?s2" using ok locks_ok_cong [of ?s2 s H] by (simp add: sys_ok_def)
  have send: "(if c_isidle cp then ipi_send c IPI_UNIDLE ?s2 else Some ?s2) = Some ?s3"
    using ipi_send_pinged [OF locks c(2), of IPI_UNIDLE] c(1) by simp
  have f: "threads ?s3 = threads ?s1" "curthread ?s3 = curthread s" "curcpu ?s3 = curcpu s"
    "view ?s3 = view s" "locks ?s3 = locks s" "wchans ?s3 = wchans s" "allwchans ?s3 = allwchans s"
    "allcpus ?s3 = allcpus s" "p_threads ?s3 = p_threads s" "activated ?s3 = activated s"
    "heap ?s3 = h" by simp_all
  have dom: "dom (cpus ?s3) = dom (cpus s)" using c(1) by (cases "c_isidle cp") (simp_all add: insert_absorb)
  have fresh: "t \<notin> set xs" if "L l = Some xs" for l xs
    using thl.elems_distinct [OF sys_reps [OF ok] that] t(1) by auto
  have "fits ?s3 (runq_of c) t"
    using th c(1) dom f(1) by (simp add: parked_def on_cpu_def)
  then have "queues_ok ?s3 (L(runq_of c \<mapsto> q @ [t]))"
    using ok fresh q dom f(1,6) by (intro queues_ok_join [of s]) (auto simp: sys_ok_def)
  moreover have "locks_ok H ?s3" using locks locks_ok_cong [of ?s3 ?s2 H] f by simp
  moreover have "on_cpu ?s3 (curcpu s) (curthread s)"
    using ok t(2) on_cpu_cong [of ?s3 "curthread s" s] f(1) by (simp add: sys_ok_def)
  moreover have "set xs \<subseteq> dom (threads s)" if "(L(runq_of c \<mapsto> q @ [t])) l = Some xs" for l xs
    using on_lists [OF ok q] on_lists [OF ok, of l xs] th that by (cases "l = runq_of c") auto
  moreover have "dom (threads ?s3) = dom (threads s)" using th(1) f(1) by auto
  ultimately have "sys_ok H ?s3 (L(runq_of c \<mapsto> q @ [t])) (U - {t})"
    unfolding sys_ok_def f dom using ok h(2) t(2) by (simp add: sys_ok_def)
  moreover have "same_env s ?s3" using f dom th(1) by (auto simp: same_env_def)
  moreover have "upd_thread t (\<lambda>th. th\<lparr>t_cpu := Some c\<rparr>) s = Some ?s1" using th(1) by (simp add: upd_thread_def)
  moreover have "add_tail (runq_of c) t ?s1 = Some ?s2" using h(1) by (simp add: add_tail_def)
  moreover have "cpus ?s2 c = Some cp" using cp by simp
  moreover have "\<forall>x. x \<noteq> t \<longrightarrow> threads ?s3 x = threads s x" using f(1) by simp
  ultimately show ?thesis using send by blast
qed

lemma fill_cpu_ok:
  assumes "sys_ok H s L U" and "L (local_of a) = Some vs" and "L (runq_of c) = Some q"
    and "c \<in> dom (cpus s)" and "IpiLock c \<notin> H" and "n \<le> length vs" and "movable s me vs"
  shows "\<exists>s' k. fill_cpu (local_of a) c share n s = Some (s', n - k) \<and> k \<le> n \<and>
    sys_ok H s' (L(local_of a \<mapsto> drop k vs, runq_of c \<mapsto> q @ take k vs)) U \<and> same_env s s' \<and>
    movable s' me (drop k vs)"
  using assms
proof (induction n arbitrary: s L q vs)
  case 0
  then have L: "L(local_of a \<mapsto> vs, runq_of c \<mapsto> q) = L" by (simp add: map_upd_triv)
  show ?case using 0 by (intro exI [of _ s] exI [of _ 0]) (simp del: fun_upd_apply add: L)
next
  case (Suc n)
  let ?v = "local_of a" and ?r = "runq_of c"
  have cnt: "tl_count (heap s) ?r = length q" by (rule queue_count [OF sys_reps [OF Suc.prems(1)] Suc.prems(3)])
  show ?case
  proof (cases "length q < share")
    case False
    have L: "L(?v \<mapsto> vs, ?r \<mapsto> q) = L" using Suc.prems(2,3) by (simp add: map_upd_triv)
    show ?thesis using Suc.prems(1,7) False cnt
      by (intro exI [of _ s] exI [of _ 0]) (simp del: fun_upd_apply add: L)
  next
    case True
    obtain t vs' where vs: "vs = t # vs'" using Suc.prems(6) by (cases vs) auto
    have v: "L ?v = Some (t # vs')" using Suc.prems(2) vs by simp
    obtain h where h: "rem_head ?v s = Some (s\<lparr>heap := h\<rparr>, Some t)"
      "sys_ok H (s\<lparr>heap := h\<rparr>) (L(?v \<mapsto> vs')) (insert t U)"
      using rem_head_ok [OF Suc.prems(1) v] by blast
    have t: "t \<notin> U" "t \<noteq> curthread s" using not_current [OF Suc.prems(1) v] by auto
    have d: "distinct (t # vs')" using thl.elems_distinct [OF sys_reps [OF Suc.prems(1)] v] by simp
    have p: "parked (s\<lparr>heap := h\<rparr>) S_READY t" using Suc.prems(7) vs by (simp add: movable_def)
    have tc: "t \<noteq> curthread (s\<lparr>heap := h\<rparr>)" "c \<in> dom (cpus (s\<lparr>heap := h\<rparr>))"
      "(L(?v \<mapsto> vs')) ?r = Some q" using t(2) Suc.prems(3,4) by simp_all
    obtain s1 s2 cp s3 where s3: "upd_thread t (\<lambda>th. th\<lparr>t_cpu := Some c\<rparr>) (s\<lparr>heap := h\<rparr>) = Some s1"
      "add_tail ?r t s1 = Some s2" "cpus s2 c = Some cp"
      "(if c_isidle cp then ipi_send c IPI_UNIDLE s2 else Some s2) = Some s3"
      "sys_ok H s3 (L(?v \<mapsto> vs', ?r \<mapsto> q @ [t])) (insert t U - {t})" "same_env (s\<lparr>heap := h\<rparr>) s3"
      "\<forall>x. x \<noteq> t \<longrightarrow> threads s3 x = threads (s\<lparr>heap := h\<rparr>) x"
      using place_ok [OF h(2) insertI1 tc(1) p tc(2) Suc.prems(5) tc(3)] by blast
    have U: "insert t U - {t} = U" using t(1) by auto
    have dom: "dom (cpus s3) = dom (cpus s)" using s3(6) by (simp add: same_env_def)
    have mv: "movable s3 me vs'"
    proof -
      have "parked s3 S_READY x \<and> on_cpu s3 me x" if "x \<in> set vs'" for x
      proof -
        have "threads s3 x = threads s x" using s3(7) d that by auto
        then show ?thesis using Suc.prems(7) vs that parked_cong [of s3 x s] on_cpu_cong [of s3 x s] dom
          by (simp add: movable_def)
      qed
      then show ?thesis by (simp add: movable_def)
    qed
    have L3: "(L(?v \<mapsto> vs', ?r \<mapsto> q @ [t])) ?v = Some vs'" "(L(?v \<mapsto> vs', ?r \<mapsto> q @ [t])) ?r = Some (q @ [t])"
      "c \<in> dom (cpus s3)" "n \<le> length vs'" using Suc.prems(4,6) vs dom by simp_all
    obtain s' k where s': "fill_cpu ?v c share n s3 = Some (s', n - k)" "k \<le> n"
      "sys_ok H s' (L(?v \<mapsto> vs', ?r \<mapsto> q @ [t], ?v \<mapsto> drop k vs', ?r \<mapsto> (q @ [t]) @ take k vs')) U"
      "same_env s3 s'" "movable s' me (drop k vs')"
      using Suc.IH [OF s3(5) [unfolded U] L3(1,2,3) Suc.prems(5) L3(4) mv] by blast
    have "L(?v \<mapsto> vs', ?r \<mapsto> q @ [t], ?v \<mapsto> drop k vs', ?r \<mapsto> (q @ [t]) @ take k vs') =
        L(?v \<mapsto> drop (Suc k) vs, ?r \<mapsto> q @ take (Suc k) vs)"
      using vs by (auto simp: fun_upd_def)
    then have "sys_ok H s' (L(?v \<mapsto> drop (Suc k) vs, ?r \<mapsto> q @ take (Suc k) vs)) U" using s'(3) by simp
    moreover have "fill_cpu ?v c share (Suc n) s = Some (s', Suc n - Suc k)"
      using True cnt h(1) t(2) s3(1-4) s'(1) by (cases "c_isidle cp") simp_all
    moreover have "same_env s s'" using s3(6) s'(4) by (simp add: same_env_def)
    moreover have "movable s' me (drop (Suc k) vs)" using s'(5) vs by simp
    ultimately show ?thesis using s'(2) by (intro exI [of _ s'] exI [of _ "Suc k"]) blast
  qed
qed


lemma movable_env:
  "movable s me vs \<Longrightarrow> threads s' = threads s \<Longrightarrow> dom (cpus s') = dom (cpus s) \<Longrightarrow> movable s' me vs"
  unfolding movable_def using parked_cong [of s' _ s] on_cpu_cong [of s' _ s] by simp

lemma fill_cpus_ok:
  assumes "sys_ok {} s L U" and "cpus_ok s" and "\<forall>i \<in> set is. i < length (arr_list (allcpus s))"
    and "L (local_of a) = Some vs" and "n \<le> length vs" and "movable s (curcpu s) vs"
  shows "\<exists>s' L' vs'. fill_cpus is (local_of a) share n s = Some s' \<and> sys_ok {} s' L' U \<and>
    L' (local_of a) = Some vs' \<and> movable s' (curcpu s) vs' \<and> same_env s s' \<and>
    ready_on L' (arr_list (allcpus s)) + mset vs' = ready_on L (arr_list (allcpus s)) + mset vs \<and>
    (\<forall>l. l \<notin> range runq_of \<longrightarrow> l \<noteq> local_of a \<longrightarrow> L' l = L l)"
  using assms
proof (induction "is" arbitrary: s L vs n)
  case Nil
  then show ?case by (intro exI [of _ s] exI [of _ L] exI [of _ vs]) simp
next
  case (Cons i "is")
  let ?xs = "arr_list (allcpus s)" and ?v = "local_of a"
  let ?c = "?xs ! i"
  have idx: "\<forall>i \<in> set is. i < length ?xs" using Cons.prems(3) by simp
  have get: "array_get (allcpus s) i = Some (Some ?c)"
    using array_get_spec [of "allcpus s" i] Cons.prems(2,3) by (auto simp: cpus_ok_def)
  show ?case
  proof (cases "n = 0")
    case True
    then show ?thesis using Cons.prems
      by (intro exI [of _ s] exI [of _ L] exI [of _ vs]) simp
  next
    case n: False
    show ?thesis
    proof (cases "?c = curcpu s")
      case True
      then have "fill_cpus (i # is) ?v share n s = fill_cpus is ?v share n s" using get n by simp
      then show ?thesis using Cons.IH [OF Cons.prems(1,2) idx Cons.prems(4-6)] by simp
    next
      case False
      have c: "?c \<in> dom (cpus s)" "?c \<in> set ?xs"
        using Cons.prems(2,3) by (auto simp: cpus_ok_def simp del: domIff)
      let ?R = "RunqueueLock ?c" and ?s1 = "held_by_me (RunqueueLock ?c) s"
      have acq: "acquire ?R s = Some ?s1" "sys_ok {?R} ?s1 L U"
        using sys_ok_acquire [OF Cons.prems(1), of ?R] by simp_all
      obtain q where q: "L (runq_of ?c) = Some q" using queues_exist(1) [OF Cons.prems(1) c(1)] by blast
      have c1: "?c \<in> dom (cpus ?s1)" "IpiLock ?c \<notin> {?R}" using c by simp_all
      have mv1: "movable ?s1 (curcpu s) vs" by (rule movable_env [OF Cons.prems(6)]) simp_all
      let ?L = "\<lambda>k. L(?v \<mapsto> drop k vs, runq_of ?c \<mapsto> q @ take k vs)"
      obtain s2 k where s2: "fill_cpu ?v ?c share n ?s1 = Some (s2, n - k)" "k \<le> n"
        "sys_ok {?R} s2 (?L k) U" "same_env ?s1 s2" "movable s2 (curcpu s) (drop k vs)"
        using fill_cpu_ok [OF acq(2) Cons.prems(4) q c1 Cons.prems(5) mv1] by blast
      have rel: "release ?R s2 = Some (let_go ?R s2)" "sys_ok {} (let_go ?R s2) (?L k) U"
        using sys_ok_release [OF s2(3), of ?R] by simp_all
      let ?s3 = "let_go ?R s2"
      have env: "same_env s ?s3"
      proof -
        have again: "let_go ?R ?s1 = s" using let_go_held [of "{}" s ?R] Cons.prems(1) by (simp add: sys_ok_def)
        have "same_env (let_go ?R ?s1) ?s3" using s2(4) by (simp add: same_env_def)
        then show ?thesis unfolding again .
      qed
      have cur: "curcpu ?s3 = curcpu s" "allcpus ?s3 = allcpus s" "dom (cpus ?s3) = dom (cpus s)"
        using env by (simp_all add: same_env_def)
      have ok3: "cpus_ok ?s3" "\<forall>i \<in> set is. i < length (arr_list (allcpus ?s3))"
        using Cons.prems(2) idx cur(2,3) by (simp_all add: cpus_ok_def)
      have L3: "?L k ?v = Some (drop k vs)" "n - k \<le> length (drop k vs)" using Cons.prems(5) s2(2) by simp_all
      have mv3: "movable ?s3 (curcpu ?s3) (drop k vs)"
        unfolding cur(1) by (rule movable_env [OF s2(5)]) simp_all
      obtain s' L' vs' where s': "fill_cpus is ?v share (n - k) ?s3 = Some s'" "sys_ok {} s' L' U"
        "L' ?v = Some vs'" "movable s' (curcpu s) vs'" "same_env ?s3 s'"
        "ready_on L' ?xs + mset vs' = ready_on (?L k) ?xs + mset (drop k vs)"
        "\<forall>l. l \<notin> range runq_of \<longrightarrow> l \<noteq> ?v \<longrightarrow> L' l = ?L k l"
        using Cons.IH [OF rel(2) ok3 L3 mv3] unfolding cur by blast
      have run: "fill_cpus (i # is) ?v share n s = Some s'"
        using get n False acq(1) s2(1) rel(1) s'(1) by simp
      have d: "distinct ?xs" using Cons.prems(2) by (simp add: cpus_ok_def)
      have q1: "(L(?v \<mapsto> drop k vs)) (runq_of ?c) = Some q" using q by simp
      have "ready_on (?L k) ?xs + mset q = ready_on (L(?v \<mapsto> drop k vs)) ?xs + mset (q @ take k vs)"
        by (rule ready_on_move [where L = "L(?v \<mapsto> drop k vs)", OF d c(2) q1])
      also have "ready_on (L(?v \<mapsto> drop k vs)) ?xs = ready_on L ?xs" by (rule ready_on_other) simp
      finally have "ready_on (?L k) ?xs = ready_on L ?xs + mset (take k vs)" by (rule gain)
      moreover have "mset (take k vs) + mset (drop k vs) = mset vs"
        by (metis append_take_drop_id mset_append)
      ultimately have "ready_on L' ?xs + mset vs' = ready_on L ?xs + mset vs"
        using s'(6) by (simp add: add.assoc)
      moreover have "\<forall>l. l \<notin> range runq_of \<longrightarrow> l \<noteq> ?v \<longrightarrow> L' l = L l" using s'(7) by auto
      moreover have "same_env s s'" by (rule same_env_trans [OF env s'(5)])
      ultimately show ?thesis using run s'(2-4) by blast
    qed
  qed
qed

lemma give_back_ok:
  assumes ok: "sys_ok {} s L U" and v: "L (local_of a) = Some vs" and q: "L (runq_of (curcpu s)) = Some q"
    and mv: "movable s (curcpu s) vs"
  shows "\<exists>s1 s2 h. acquire (RunqueueLock (curcpu s)) s = Some s1 \<and> curcpu s1 = curcpu s \<and>
    move_all (local_of a) (runq_of (curcpu s)) s1 = Some s2 \<and> curcpu s2 = curcpu s \<and>
    release (RunqueueLock (curcpu s)) s2 = Some (s\<lparr>heap := h\<rparr>) \<and>
    sys_ok {} (s\<lparr>heap := h\<rparr>) (L(local_of a \<mapsto> [], runq_of (curcpu s) \<mapsto> q @ vs)) U"
proof -
  let ?R = "RunqueueLock (curcpu s)" and ?s1 = "held_by_me (RunqueueLock (curcpu s)) s"
  let ?L = "L(local_of a \<mapsto> [], runq_of (curcpu s) \<mapsto> q @ vs)"
  have acq: "acquire ?R s = Some ?s1" using sys_ok_acquire [OF ok, of ?R] by simp
  have locks: "locks_ok {} s" using ok by (simp add: sys_ok_def)
  have "reps (heap ?s1) L U" using sys_reps [OF ok] by simp
  moreover have "length q + length vs < 2 ^ 32"
  proof -
    have "distinct (q @ vs)"
      using sys_reps [OF ok] thl.elems_distinct [OF sys_reps [OF ok] q]
        thl.elems_distinct [OF sys_reps [OF ok] v] q v by (auto simp: reps_def)
    then have "length q + length vs = card (set (q @ vs))" by (metis distinct_card length_append)
    also have "\<dots> \<le> card (dom (threads s))"
      using on_lists [OF ok q] on_lists [OF ok v] ok by (intro card_mono) (auto simp: sys_ok_def simp del: domIff)
    finally show ?thesis using ok by (simp add: sys_ok_def)
  qed
  ultimately have "\<exists>h. move_all (local_of a) (runq_of (curcpu s)) ?s1 = Some (?s1\<lparr>heap := h\<rparr>) \<and> reps h ?L U"
    using v q by (intro move_all_moves) simp_all
  then obtain h where h: "move_all (local_of a) (runq_of (curcpu s)) ?s1 = Some (?s1\<lparr>heap := h\<rparr>)"
    "reps h ?L U" by blast
  have "release ?R (?s1\<lparr>heap := h\<rparr>) = Some (?s1\<lparr>heap := h\<rparr>\<lparr>locks := locks s, view := view s\<rparr>)"
    using locks by (intro release_held_update [of "{}"]) simp_all
  moreover have "?s1\<lparr>heap := h\<rparr>\<lparr>locks := locks s, view := view s\<rparr> = s\<lparr>heap := h\<rparr>"
    by (simp add: held_by_me_def)
  ultimately have rel: "release ?R (?s1\<lparr>heap := h\<rparr>) = Some (s\<lparr>heap := h\<rparr>)" by simp
  have "fits s l t" if "?L l = Some xs" "t \<in> set xs" for l xs t
    using that on_list_fits [OF ok q, of t] on_list_fits [OF ok, of l xs t] mv
    by (auto simp: movable_def split: if_splits)
  then have "queues_ok (s\<lparr>heap := h\<rparr>) ?L"
    using ok unfolding sys_ok_def queues_ok_def by (simp del: domIff)
  moreover have "locks_ok {} (s\<lparr>heap := h\<rparr>)" using locks locks_ok_cong [of "s\<lparr>heap := h\<rparr>" s] by simp
  moreover have "set xs \<subseteq> dom (threads s)" if "?L l = Some xs" for l xs
    using that on_lists [OF ok q] on_lists [OF ok v] on_lists [OF ok, of l xs]
    by (auto simp del: domIff split: if_splits)
  ultimately have "sys_ok {} (s\<lparr>heap := h\<rparr>) ?L U" using ok h(2) by (simp add: sys_ok_def)
  moreover have "curcpu ?s1 = curcpu s" "curcpu (?s1\<lparr>heap := h\<rparr>) = curcpu s" by simp_all
  ultimately show ?thesis using acq h(1) rel by blast
qed


section \<open>Property\<close>

text \<open>C21: thread_consider_migration never fails an assertion and loses no thread: whatever the lengths
  of the run queues, afterwards the ready threads are the same multiset over all CPUs, every thread on
  a run queue is assigned to that CPU, the sleepers and zombies have not moved, the local list is empty
  again, and the running thread, the locks and the interrupt level are as before.\<close>

theorem migration_keeps_threads:
  assumes "sys_ok {} s L U" and "cpus_ok s" and "L (local_of (curthread s)) = None"
  shows "\<exists>s' L'. thread_consider_migration s = Some s' \<and> sys_ok {} s' L' U \<and>
    ready_on L' (arr_list (allcpus s)) = ready_on L (arr_list (allcpus s)) \<and>
    (\<forall>l. l \<notin> range runq_of \<longrightarrow> L' l = L l) \<and> same_env s s'"
proof -
  let ?xs = "arr_list (allcpus s)" and ?n = "array_num (allcpus s)" and ?me = "curcpu s"
  let ?v = "local_of (curthread s)"
  have me: "?me \<in> dom (cpus s)" "?me \<in> set ?xs"
    using assms(1,2) by (auto simp: sys_ok_def cpus_ok_def)
  have n: "?n = length ?xs" "?n \<noteq> 0"
    using assms(2) me(2) karr.num_elems [of "allcpus s"] by (auto simp: cpus_ok_def)
  obtain q where q: "L (runq_of ?me) = Some q" using queues_exist(1) [OF assms(1) me(1)] by blast
  have idx: "\<forall>i \<in> set [0..<?n]. i < length ?xs" using n by simp
  have "\<exists>i \<in> set [0..<?n]. ?xs ! i = ?me" using me(2) n(1) by (auto simp: in_set_conv_nth)
  then obtain tot where cnt: "count_queues [0..<?n] (0, 0) s = Some (s, tot, length q)"
    using count_queues_ok [OF assms(1,2) idx, of 0 0] q by (auto split: if_splits)
  let ?share = "divroundup tot ?n"
  show ?thesis
  proof (cases "length q < ?share")
    case True
    then have "thread_consider_migration s = Some s"
      using cnt n(2) by (simp add: thread_consider_migration_def Let_def)
    then show ?thesis using assms(1) by (intro exI [of _ s] exI [of _ L]) simp
  next
    case False
    let ?k = "length q - ?share"
    let ?s0 = "s\<lparr>heap := threadlist_init ?v (heap s)\<rparr>"
    have ok0: "sys_ok {} ?s0 (L(?v \<mapsto> [])) U" by (rule sys_ok_local [OF assms(1,3)])
    let ?R = "RunqueueLock ?me" and ?s1 = "held_by_me (RunqueueLock (curcpu s)) ?s0"
    have acq: "acquire ?R ?s0 = Some ?s1" "sys_ok {?R} ?s1 (L(?v \<mapsto> [])) U"
      using sys_ok_acquire [OF ok0, of ?R] by simp_all
    have t: "(L(?v \<mapsto> [])) ?v = Some []" "(L(?v \<mapsto> [])) (runq_of (curcpu ?s1)) = Some q" "?k \<le> length q"
      "movable ?s1 (curcpu ?s1) []" using q by (simp_all add: movable_def)
    let ?L1 = "L(?v \<mapsto> [], runq_of ?me \<mapsto> take (length q - ?k) q, ?v \<mapsto> drop (length q - ?k) q)"
    have cur1: "curcpu ?s1 = ?me" by simp
    obtain h where h: "for_each (\<lambda>_. take_victim ?v) [0..<?k] ?s1 = Some (?s1\<lparr>heap := h\<rparr>)"
      "sys_ok {?R} (?s1\<lparr>heap := h\<rparr>) ?L1 U" "movable ?s1 ?me (drop (length q - ?k) q)"
      using take_victims_ok [OF acq(2) t] unfolding cur1 append_Nil2 by blast
    let ?vs = "drop (length q - ?k) q"
    let ?s2 = "let_go ?R (?s1\<lparr>heap := h\<rparr>)"
    have rel: "release ?R (?s1\<lparr>heap := h\<rparr>) = Some ?s2" "sys_ok {} ?s2 ?L1 U"
      using sys_ok_release [OF h(2), of ?R] by simp_all
    have "(locks s)(?R := spinlock_init) = locks s" "spl_inv (view s)"
      using assms(1) by (auto simp: sys_ok_def locks_ok_def)
    then have s2: "?s2 = s\<lparr>heap := h\<rparr>"
      by (simp add: let_go_def held_by_me_def unbump_bump)
    have c2: "cpus_ok (s\<lparr>heap := h\<rparr>)" "\<forall>i \<in> set [0..<?n]. i < length (arr_list (allcpus (s\<lparr>heap := h\<rparr>)))"
      using assms(2) n(1) by (simp_all add: cpus_ok_def)
    have cur2: "curcpu (s\<lparr>heap := h\<rparr>) = ?me" "allcpus (s\<lparr>heap := h\<rparr>) = allcpus s" by simp_all
    have v2: "?L1 ?v = Some ?vs" "?k \<le> length ?vs" by simp_all
    have m2: "movable (s\<lparr>heap := h\<rparr>) (curcpu (s\<lparr>heap := h\<rparr>)) ?vs"
      using movable_env [of ?s1 ?me ?vs s] h(3) by simp
    obtain s3 L3 vs3 where s3: "fill_cpus [0..<?n] ?v ?share ?k (s\<lparr>heap := h\<rparr>) = Some s3"
      "sys_ok {} s3 L3 U" "L3 ?v = Some vs3" "movable s3 ?me vs3" "same_env (s\<lparr>heap := h\<rparr>) s3"
      "ready_on L3 ?xs + mset vs3 = ready_on ?L1 ?xs + mset ?vs"
      "\<forall>l. l \<notin> range runq_of \<longrightarrow> l \<noteq> ?v \<longrightarrow> L3 l = ?L1 l"
      using fill_cpus_ok [OF rel(2) [unfolded s2] c2 v2 m2] unfolding cur2 by blast
    have cur3: "curcpu s3 = ?me" "curthread s3 = curthread s" "dom (cpus s3) = dom (cpus s)"
      using s3(5) by (simp_all add: same_env_def)
    obtain q3 where q3: "L3 (runq_of (curcpu s3)) = Some q3"
      using queues_exist(1) [OF s3(2), of ?me] me(1) cur3 by auto
    have mv3: "movable s3 (curcpu s3) vs3" using s3(4) cur3 by simp
    obtain s4 s5 h5 where s5: "acquire (RunqueueLock (curcpu s3)) s3 = Some s4" "curcpu s4 = curcpu s3"
      "move_all ?v (runq_of (curcpu s3)) s4 = Some s5" "curcpu s5 = curcpu s3"
      "release (RunqueueLock (curcpu s3)) s5 = Some (s3\<lparr>heap := h5\<rparr>)"
      "sys_ok {} (s3\<lparr>heap := h5\<rparr>) (L3(?v \<mapsto> [], runq_of (curcpu s3) \<mapsto> q3 @ vs3)) U"
      using give_back_ok [OF s3(2,3) q3 mv3] by blast
    let ?L5 = "L3(?v \<mapsto> [], runq_of (curcpu s3) \<mapsto> q3 @ vs3)"
    have empty: "threadlist_isempty ?v (heap s3) \<longleftrightarrow> vs3 = []"
      by (rule threadlist_isempty_reps [OF sys_reps [OF s3(2)] s3(3)])
    have end_state: "\<exists>h'. (if \<not> threadlist_isempty ?v (heap s3) then do {
          s \<leftarrow> acquire (RunqueueLock (curcpu s3)) s3;
          s \<leftarrow> move_all ?v (runq_of (curcpu s)) s;
          release (RunqueueLock (curcpu s)) s } else Some s3) = Some (s3\<lparr>heap := h'\<rparr>) \<and>
        sys_ok {} (s3\<lparr>heap := h'\<rparr>) ?L5 U"
    proof (cases "vs3 = []")
      case True
      then have "?L5 = L3" using s3(3) q3 by (simp add: map_upd_triv)
      then show ?thesis using empty True s3(2) by (intro exI [of _ "heap s3"]) (simp del: fun_upd_apply)
    next
      case False
      then show ?thesis using empty s5 by (intro exI [of _ h5]) simp
    qed
    then obtain h' where h': "(if \<not> threadlist_isempty ?v (heap s3) then do {
          s \<leftarrow> acquire (RunqueueLock (curcpu s3)) s3;
          s \<leftarrow> move_all ?v (runq_of (curcpu s)) s;
          release (RunqueueLock (curcpu s)) s } else Some s3) = Some (s3\<lparr>heap := h'\<rparr>)"
      "sys_ok {} (s3\<lparr>heap := h'\<rparr>) ?L5 U" by blast
    have v5: "?L5 ?v = Some []" by simp
    have clean: "threadlist_isempty ?v h'" "threadlist_cleanup ?v h' = Some h'"
      using threadlist_isempty_reps [OF sys_reps [OF h'(2)] v5]
        threadlist_cleanup_reps [OF sys_reps [OF h'(2)] v5] by simp_all
    have run: "thread_consider_migration s = Some (s3\<lparr>heap := h'\<rparr>)"
      using cnt n(2) False acq(1) h(1) rel(1) s2 s3(1) h'(1) clean
      by (simp add: thread_consider_migration_def Let_def cur3)
    let ?L' = "?L5(?v := None)"
    have "sys_ok {} (s3\<lparr>heap := h'\<rparr>) ?L' U" by (rule sys_ok_drop_local [OF h'(2)])
    moreover have "same_env s (s3\<lparr>heap := h'\<rparr>)" using s3(5) by (simp add: same_env_def)
    moreover have "\<forall>l. l \<notin> range runq_of \<longrightarrow> ?L' l = L l" using s3(7) assms(3) by auto
    moreover have "ready_on ?L' ?xs = ready_on L ?xs"
    proof -
      have d: "distinct ?xs" using assms(2) by (simp add: cpus_ok_def)
      let ?T = "take (length q - ?k) q" and ?La = "L(?v \<mapsto> [])" and ?Lb = "L3(?v \<mapsto> [])"
      have b: "?Lb (runq_of ?me) = Some q3" "?La (runq_of ?me) = Some q" using q q3 cur3(1) by simp_all
      have "ready_on ?L5 ?xs + mset q3 = ready_on ?Lb ?xs + mset (q3 @ vs3)"
        unfolding cur3(1) by (rule ready_on_move [where L = ?Lb, OF d me(2) b(1)])
      also have "ready_on ?Lb ?xs = ready_on L3 ?xs" by (rule ready_on_other) simp
      finally have e1: "ready_on ?L5 ?xs + mset q3 = ready_on L3 ?xs + (mset q3 + mset vs3)"
        unfolding mset_append .
      have "ready_on (?La(runq_of ?me \<mapsto> ?T)) ?xs + mset q = ready_on ?La ?xs + mset ?T"
        by (rule ready_on_move [where L = ?La, OF d me(2) b(2)])
      also have "ready_on ?La ?xs = ready_on L ?xs" by (rule ready_on_other) simp
      also have "ready_on (?La(runq_of ?me \<mapsto> ?T)) ?xs = ready_on ?L1 ?xs" by (rule ready_on_other [symmetric]) simp
      also have "mset q = mset ?T + mset ?vs" by (metis append_take_drop_id mset_append)
      finally have e2: "ready_on ?L1 ?xs + (mset ?T + mset ?vs) = ready_on L ?xs + mset ?T" .
      have "ready_on ?L' ?xs = ready_on ?L5 ?xs" by (rule ready_on_other) simp
      then show ?thesis using balance [OF e1 e2 s3(6)] by (rule trans)
    qed
    ultimately show ?thesis using run by blast
  qed
qed


theorem migration_keeps_threads_witness:
  "\<exists>h s' L'. thread_consider_migration (sample_sys S_READY h) = Some s' \<and>
     sys_ok {} s' L' {1} \<and> ready_on L' [0] = {#2, 3#}"
proof -
  obtain h where h: "reps h (sample_queues [2, 3] []) {1}"
    using sample_heap_exists [of "[2, 3]" "[]"] by auto
  let ?s = "sample_sys S_READY h" and ?L = "sample_queues [2, 3] []"
  have ok: "sys_ok {} ?s ?L {1}" using sample_sys_ok [OF h] by simp
  have f: "cpus_ok ?s" "?L (local_of (curthread ?s)) = None" "arr_list (allcpus ?s) = [0]"
    "ready_on ?L [0] = {#2, 3#}"
    using cap_ok_4 by (simp_all add: cpus_ok_def sample_sys_def arr_wf_def arr_list_def
        sample_queues_def sample_addresses ready_on_def local_of_def)
  show ?thesis using migration_keeps_threads [OF ok f(1,2)] unfolding f(3,4) by blast
qed

end
