(* ===== verification/Pid.thy ===== *)
theory Pid
  imports Interfaces
begin

text \<open>
  Process numbers: \<^verbatim>\<open>kern/proc/pid.c\<close>. The lock \<^verbatim>\<open>pid_lock\<close> is taken for the whole of each function and
  nothing else, so that a call is one step here and the lock is left out. None is an access outside the
  array, or a search that does not end.
\<close>

abbreviation (input) PID_MIN :: nat where "PID_MIN \<equiv> 2"
abbreviation (input) PID_MAX :: nat where "PID_MAX \<equiv> 32767"

record pids =
  pid_allocator :: "bool list"
  start_pid :: nat
  proc_counter :: int

definition pid_initialize :: pids where
  "pid_initialize = \<lparr>pid_allocator = replicate PID_MAX False, start_pid = PID_MIN, proc_counter = 0\<rparr>"

text \<open>The \<^verbatim>\<open>while\<close> loop from index \<open>i\<close>.\<close>

partial_function (option) pid_scan :: "bool list \<Rightarrow> nat \<Rightarrow> nat option" where
  "pid_scan a i = do {
     taken \<leftarrow> fetch a i;
     if taken then pid_scan a (if i + 1 = PID_MAX then PID_MIN else i + 1) else Some i
   }"

text \<open>The result is what \<^verbatim>\<open>*ret\<close> is set to; the function itself returns 0 in every case.\<close>

definition pid_get :: "pids \<Rightarrow> (int \<times> pids) option" where
  "pid_get p =
    (if proc_counter p < int PID_MAX - 2 then do {
       i \<leftarrow> pid_scan (pid_allocator p) (start_pid p);
       a \<leftarrow> store (pid_allocator p) i True;
       Some (int i, p\<lparr>pid_allocator := a, proc_counter := proc_counter p + 1\<rparr>)
     }
     else Some (- 1, p))"

definition pid_free :: "int \<Rightarrow> pids \<Rightarrow> pids option" where
  "pid_free pid p = do {
     kassert (0 \<le> pid);
     a \<leftarrow> store (pid_allocator p) (nat pid) False;
     Some (p\<lparr>pid_allocator := a, proc_counter := proc_counter p - 1\<rparr>)
   }"

section \<open>The numbers in use\<close>

definition in_use :: "pids \<Rightarrow> nat set" where
  "in_use p = {i. i < length (pid_allocator p) \<and> pid_allocator p ! i}"

definition pids_ok :: "pids \<Rightarrow> bool" where
  "pids_ok p \<longleftrightarrow> length (pid_allocator p) = PID_MAX \<and> start_pid p = PID_MIN \<and>
     in_use p \<subseteq> {PID_MIN..<PID_MAX} \<and> proc_counter p = int (card (in_use p))"

lemma pids_ok_initialize: "pids_ok pid_initialize" "in_use pid_initialize = {}"
proof -
  show "in_use pid_initialize = {}" by (auto simp: in_use_def pid_initialize_def simp del: replicate.simps)
  then show "pids_ok pid_initialize" by (simp add: pids_ok_def pid_initialize_def)
qed

lemma in_use_finite [simp]: "finite (in_use p)"
  by (simp add: in_use_def)

lemma in_use_update:
  assumes "i < length (pid_allocator p)"
  shows "in_use (p\<lparr>pid_allocator := (pid_allocator p)[i := True], proc_counter := n\<rparr>) = insert i (in_use p)"
    and "in_use (p\<lparr>pid_allocator := (pid_allocator p)[i := False], proc_counter := n\<rparr>) = in_use p - {i}"
  using assms by (auto simp: in_use_def nth_list_update split: if_splits)

lemma pid_scan_least:
  assumes len: "length a = PID_MAX" and j: "j < PID_MAX" "\<not> a ! j"
  shows "i \<le> j \<Longrightarrow> \<forall>k. i \<le> k \<longrightarrow> k < j \<longrightarrow> a ! k \<Longrightarrow> pid_scan a i = Some j"
proof (induction "j - i" arbitrary: i)
  case 0
  then have "i = j" by linarith
  then show ?case using assms by (subst pid_scan.simps) (simp add: fetch_def)
next
  case (Suc d)
  then have "a ! i" "i + 1 \<noteq> PID_MAX" "i < length a" "pid_scan a (i + 1) = Some j"
    using assms by auto
  then show ?case by (subst pid_scan.simps) (simp add: fetch_def)
qed

lemma pid_get_room:
  assumes ok: "pids_ok p" and room: "in_use p \<noteq> {PID_MIN..<PID_MAX}"
  shows "\<exists>i p'. pid_get p = Some (int i, p') \<and> pids_ok p' \<and> PID_MIN \<le> i \<and> i < PID_MAX \<and> i \<notin> in_use p \<and>
    {PID_MIN..<i} \<subseteq> in_use p \<and> in_use p' = insert i (in_use p)"
proof -
  let ?free = "\<lambda>i. PID_MIN \<le> i \<and> i < PID_MAX \<and> i \<notin> in_use p"
  define j where "j = (LEAST i. ?free i)"
  have len: "length (pid_allocator p) = PID_MAX" and sub: "in_use p \<subseteq> {PID_MIN..<PID_MAX}"
    using ok by (simp_all add: pids_ok_def)
  then have "\<exists>i. ?free i" using room by auto
  then have j: "?free j" unfolding j_def by (rule LeastI_ex)
  have least: "k \<in> in_use p" if "PID_MIN \<le> k" "k < j" for k
    using not_less_Least [of k ?free] that j unfolding j_def by fastforce
  have "card (in_use p) < card {PID_MIN..<PID_MAX}" using sub room by (intro psubset_card_mono) auto
  then have count: "proc_counter p < int PID_MAX - 2" using ok by (simp add: pids_ok_def)
  have "pid_scan (pid_allocator p) (start_pid p) = Some j"
    using ok j least len by (intro pid_scan_least) (auto simp: pids_ok_def in_use_def)
  moreover have upd: "in_use (p\<lparr>pid_allocator := (pid_allocator p)[j := True], proc_counter := proc_counter p + 1\<rparr>)
      = insert j (in_use p)"
    using j len by (intro in_use_update) simp
  ultimately show ?thesis
    using j least ok len count by (intro exI [of _ j]) (auto simp: pid_get_def store_def pids_ok_def)
qed

lemma pid_get_full: "pids_ok p \<Longrightarrow> in_use p = {PID_MIN..<PID_MAX} \<Longrightarrow> pid_get p = Some (- 1, p)"
  by (simp add: pid_get_def pids_ok_def)

lemma pid_free_ok:
  assumes "pids_ok p" and "i \<in> in_use p"
  shows "\<exists>p'. pid_free (int i) p = Some p' \<and> pids_ok p' \<and> in_use p' = in_use p - {i}"
proof -
  have i: "i < length (pid_allocator p)" using assms(2) by (simp add: in_use_def)
  have "0 < card (in_use p)" using assms(2) card_gt_0_iff in_use_finite by blast
  then show ?thesis
    using assms i in_use_update(2) [OF i, of "proc_counter p - 1"]
    by (auto simp: pid_free_def kassert_def store_def pids_ok_def of_nat_diff)
qed

section \<open>The source of process numbers\<close>

definition pid_request :: "pids \<Rightarrow> (nat option \<times> pids) option" where
  "pid_request p = map_option (\<lambda>(i, p'). (if i = - 1 then None else Some (nat i), p')) (pid_get p)"

interpretation pid: id_source pids_ok "\<lambda>_. {PID_MIN..<PID_MAX}" in_use pid_request "\<lambda>k. pid_free (int k)"
proof unfold_locales
  show "pids_ok p \<Longrightarrow> in_use p \<subseteq> {PID_MIN..<PID_MAX}" for p by (simp add: pids_ok_def)
  show "pids_ok p \<Longrightarrow> in_use p = {PID_MIN..<PID_MAX} \<Longrightarrow> pid_request p = Some (None, p)" for p
    by (simp add: pid_request_def pid_get_full)
  show "pids_ok p \<Longrightarrow> in_use p \<noteq> {PID_MIN..<PID_MAX} \<Longrightarrow> \<exists>k p'. pid_request p = Some (Some k, p') \<and> pids_ok p' \<and>
      {PID_MIN..<PID_MAX} = {PID_MIN..<PID_MAX} \<and> k \<in> {PID_MIN..<PID_MAX} \<and> k \<notin> in_use p \<and>
      {j \<in> {PID_MIN..<PID_MAX}. j < k} \<subseteq> in_use p \<and> in_use p' = insert k (in_use p)" for p
    using pid_get_room [of p] by (fastforce simp: pid_request_def)
  show "pids_ok p \<Longrightarrow> k \<in> in_use p \<Longrightarrow> \<exists>p'. pid_free (int k) p = Some p' \<and> pids_ok p' \<and>
      {PID_MIN..<PID_MAX} = {PID_MIN..<PID_MAX} \<and> in_use p' = in_use p - {k}" for p k
    using pid_free_ok [of p k] by simp
qed

lemma pid_get_free:
  assumes "pids_ok p" and "in_use p \<noteq> {PID_MIN..<PID_MAX}"
  shows "\<exists>i p' p''. pid_get p = Some (int i, p') \<and> pids_ok p' \<and> PID_MIN \<le> i \<and> i < PID_MAX \<and> i \<notin> in_use p \<and>
    {PID_MIN..<i} \<subseteq> in_use p \<and> in_use p' = insert i (in_use p) \<and>
    pid_free (int i) p' = Some p'' \<and> pids_ok p'' \<and> in_use p'' = in_use p"
proof -
  obtain i p' where g: "pid_get p = Some (int i, p')" "pids_ok p'" "PID_MIN \<le> i" "i < PID_MAX" "i \<notin> in_use p"
    "{PID_MIN..<i} \<subseteq> in_use p" "in_use p' = insert i (in_use p)"
    using pid_get_room [OF assms] by blast
  then have "pid_request p = Some (Some i, p')" by (simp add: pid_request_def)
  then obtain p'' where "pid_free (int i) p' = Some p''" "pids_ok p''" "in_use p'' = in_use p"
    using pid.get_put [OF assms(1)] by blast
  then show ?thesis using g by blast
qed

text \<open>C15: The search of \<^verbatim>\<open>pid_get\<close> always ends when the counter agrees with the table, and then it gives the
  least number from 2 that is not in use and marks it, or -1, with the result 0 of success, exactly when
  all 32765 numbers are in use. \<^verbatim>\<open>pid_free\<close> makes the number available again.\<close>

theorem pid_get_least:
  "pids_ok p \<Longrightarrow>
     (if in_use p = {2..<32767} then pid_get p = Some (- 1, p)
      else \<exists>i p' p''. pid_get p = Some (int i, p') \<and> pids_ok p' \<and> 2 \<le> i \<and> i < 32767 \<and> i \<notin> in_use p \<and>
        {2..<i} \<subseteq> in_use p \<and> in_use p' = insert i (in_use p) \<and>
        pid_free (int i) p' = Some p'' \<and> pids_ok p'' \<and> in_use p'' = in_use p)"
  using pid_get_full [of p] pid_get_free [of p] by (cases "in_use p = {2..<32767}") simp_all

theorem pid_get_least_witness:
  "\<exists>p' p''. pid_get pid_initialize = Some (2, p') \<and> pid_free 2 p' = Some p'' \<and> in_use p'' = {}"
proof -
  obtain i p' p'' where "pid_get pid_initialize = Some (int i, p')" "2 \<le> i" "{2..<i} \<subseteq> {}"
    "pid_free (int i) p' = Some p''" "in_use p'' = {}"
    using pid_get_least [OF pids_ok_initialize(1)] unfolding pids_ok_initialize(2) by auto
  moreover from this have "i = 2" by auto
  ultimately show ?thesis by auto
qed

text \<open>Without that agreement it does not end: when every number is in use, but the counter says that there is
  room, the search goes round for ever.\<close>

definition all_taken :: "bool list \<Rightarrow> nat \<Rightarrow> bool" where
  "all_taken a i \<longleftrightarrow> length a = PID_MAX \<and> PID_MIN \<le> i \<and> i < PID_MAX \<and>
     (\<forall>k. PID_MIN \<le> k \<longrightarrow> k < PID_MAX \<longrightarrow> a ! k)"

lemma pid_scan_stops:
  assumes "pid_scan a i = Some j"
  shows "\<not> all_taken a i"
proof (rule pid_scan.raw_induct [where P = "\<lambda>a i j. \<not> all_taken a i", OF _ assms])
  fix scan a i j
  assume IH: "\<And>a i j. scan a i = Some j \<Longrightarrow> \<not> all_taken a i"
    and eq: "Option.bind (fetch a i) (\<lambda>taken. if taken then scan a (if i + 1 = PID_MAX then PID_MIN else i + 1)
      else Some i) = Some j"
  show "\<not> all_taken a i"
  proof
    assume t: "all_taken a i"
    then have "scan a (if i + 1 = PID_MAX then PID_MIN else i + 1) = Some j"
      using eq by (simp add: all_taken_def fetch_def)
    then have "\<not> all_taken a (if i + 1 = PID_MAX then PID_MIN else i + 1)" by (rule IH)
    then show False using t by (auto simp: all_taken_def split: if_splits)
  qed
qed

lemma pid_get_never_ends:
  assumes "length (pid_allocator p) = PID_MAX" and "start_pid p = PID_MIN" and "{PID_MIN..<PID_MAX} \<subseteq> in_use p"
    and "proc_counter p < int PID_MAX - 2"
  shows "pid_get p = None"
proof -
  have "all_taken (pid_allocator p) PID_MIN" using assms(1,3) by (auto simp: all_taken_def in_use_def)
  then have "pid_scan (pid_allocator p) PID_MIN = None" using pid_scan_stops not_None_eq by metis
  then show ?thesis using assms by (simp add: pid_get_def)
qed

end
