(* ===== verification/Thread_Fork.thy ===== *)
theory Thread_Fork
  imports Migration
begin

text \<open>
  Birth and death of threads: \<^verbatim>\<open>thread_fork\<close> and \<^verbatim>\<open>thread_exit\<close> of \<^verbatim>\<open>kern/thread/thread.c\<close> with
  \<^verbatim>\<open>proc_addthread\<close> and \<^verbatim>\<open>proc_remthread\<close> of \<^verbatim>\<open>kern/proc/proc.c\<close>, on the invariant of Sched.
\<close>

section \<open>A thread joins and leaves its process\<close>

definition raised :: "cpu_view \<Rightarrow> cpu_view" where
  "raised c = (if t_curspl c = 1 then c
     else c\<lparr>irq_on := False, t_iplhigh_count := t_iplhigh_count c + 1, t_curspl := 1\<rparr>)"

lemma splx_raised:
  assumes "spl_inv c"
  shows "splx 1 c = Some (t_curspl c, raised c)" and "\<exists>o'. splx (t_curspl c) (raised c) = Some (o', c)"
  using assms
  by (cases c; auto simp: splx_def splraise_def spllower_def spl_inv_def raised_def Let_def)+

lemma spl_bracket:
  assumes "spl_inv (view s)"
  shows "set_spl 1 s = Some (s\<lparr>view := raised (view s)\<rparr>, t_curspl (view s))"
    and "view u = raised (view s) \<Longrightarrow>
      \<exists>o'. set_spl (t_curspl (view s)) u = Some (u\<lparr>view := view s\<rparr>, o')"
  using splx_raised [OF assms] by (auto simp: set_spl_def)

lemma proc_addthread_ok:
  assumes locks: "locks_ok H s" and p: "ProcLock p \<notin> H" "p_threads s p = Some ts" "arr_wf ts"
    "length (arr_list ts) < 2 ^ 28" and t: "threads s t = Some th" "t_proc th = None"
  shows "\<exists>ts'. proc_addthread True p t s = Some (Inr (s\<lparr>p_threads := (p_threads s)(p \<mapsto> ts'),
      threads := (threads s)(t \<mapsto> th\<lparr>t_proc := Some p\<rparr>)\<rparr>)) \<and>
    arr_wf ts' \<and> arr_list ts' = arr_list ts @ [t]"
proof -
  obtain ts' where ts': "array_add True ts t = Some (Inr (ts', length (arr_list ts)))" "arr_wf ts'"
    "arr_list ts' = arr_list ts @ [t]"
    using karr.add_elem [OF p(3,4)] by blast
  let ?s1 = "held_by_me (ProcLock p) s"
  let ?s2 = "s\<lparr>p_threads := (p_threads s)(p \<mapsto> ts')\<rparr>"
  have acq: "acquire (ProcLock p) s = Some ?s1" using locks_ok_acquire(1) [OF locks p(1)] .
  have rel: "release (ProcLock p) u = Some (u\<lparr>locks := locks s, view := view s\<rparr>)"
    if "locks u = locks ?s1" "view u = view ?s1" for u
    using locks p(1) that by (intro release_held_update [of H]) simp_all
  have sp: "spl_inv (view s)" using locks by (simp add: locks_ok_def)
  let ?c = "raised (view s)"
  have c: "set_spl 1 ?s2 = Some (?s2\<lparr>view := ?c\<rparr>, t_curspl (view s))"
    using spl_bracket(1) [of ?s2] sp by simp
  let ?s3 = "?s2\<lparr>view := ?c, threads := (threads s)(t \<mapsto> th\<lparr>t_proc := Some p\<rparr>)\<rparr>"
  obtain o' where o': "set_spl (t_curspl (view s)) ?s3 = Some (?s3\<lparr>view := view s\<rparr>, o')"
    using spl_bracket(2) [OF sp, of ?s3] by auto
  have "proc_addthread True p t s = Some (Inr (?s3\<lparr>view := view s\<rparr>))"
    using t p(2) acq ts'(1) c o' rel
    by (simp add: proc_addthread_def upd_thread_def held_by_me_def Let_def)
  also have "?s3\<lparr>view := view s\<rparr> = s\<lparr>p_threads := (p_threads s)(p \<mapsto> ts'),
      threads := (threads s)(t \<mapsto> th\<lparr>t_proc := Some p\<rparr>)\<rparr>" by simp
  finally show ?thesis using ts' by blast
qed

lemma proc_addthread_nomem:
  assumes locks: "locks_ok H s" and p: "ProcLock p \<notin> H" "p_threads s p = Some ts"
    and e: "array_add b ts t = Some (Inl e)" and t: "threads s t = Some th" "t_proc th = None"
  shows "proc_addthread b p t s = Some (Inl e)"
proof -
  let ?s1 = "held_by_me (ProcLock p) s"
  have "acquire (ProcLock p) s = Some ?s1" using locks_ok_acquire(1) [OF locks p(1)] .
  moreover have "release (ProcLock p) ?s1 = Some (let_go (ProcLock p) ?s1)"
    using locks_ok_release(1) [OF locks_ok_acquire(2) [OF locks p(1)]] by simp
  ultimately show ?thesis using t p(2) e by (simp add: proc_addthread_def)
qed

lemma remthread_from_ok:
  assumes locks: "locks_ok H s" and p: "ProcLock p \<notin> H" "p_threads s p = Some ts" "arr_wf ts"
    and t: "threads s t = Some th"
    and at: "\<And>i. i \<in> set is \<Longrightarrow> i < length (arr_list ts)" "\<exists>i \<in> set is. arr_list ts ! i = t"
  shows "\<exists>i ts'. remthread_from is p t (held_by_me (ProcLock p) s) =
      Some (s\<lparr>p_threads := (p_threads s)(p \<mapsto> ts'), threads := (threads s)(t \<mapsto> th\<lparr>t_proc := None\<rparr>)\<rparr>) \<and>
    i < length (arr_list ts) \<and> arr_list ts ! i = t \<and> arr_wf ts' \<and>
    arr_list ts' = take i (arr_list ts) @ drop (Suc i) (arr_list ts)"
  using at
proof (induction "is")
  case (Cons i "is")
  let ?s1 = "held_by_me (ProcLock p) s"
  have i: "i < length (arr_list ts)" using Cons.prems(1) by simp
  have get: "array_get ts i = Some (Some (arr_list ts ! i))" using karr.get_elem [OF p(3) i] .
  show ?case
  proof (cases "arr_list ts ! i = t")
    case False
    have "remthread_from (i # is) p t ?s1 = remthread_from is p t ?s1" using get p(2) False by simp
    then show ?thesis using Cons.IH Cons.prems False by (metis list.set_intros(2) set_ConsD)
  next
    case True
    obtain ts' where ts': "array_remove ts i = Some ts'" "arr_wf ts'"
      "arr_list ts' = take i (arr_list ts) @ drop (Suc i) (arr_list ts)"
      using karr.remove_elem [OF p(3) i] by blast
    have rel: "release (ProcLock p) u = Some (u\<lparr>locks := locks s, view := view s\<rparr>)"
      if "locks u = locks ?s1" "view u = view ?s1" for u
      using locks p(1) that by (intro release_held_update [of H]) simp_all
    let ?s2 = "s\<lparr>p_threads := (p_threads s)(p \<mapsto> ts')\<rparr>"
    have sp: "spl_inv (view s)" using locks by (simp add: locks_ok_def)
    let ?c = "raised (view s)"
    have c: "set_spl 1 ?s2 = Some (?s2\<lparr>view := ?c\<rparr>, t_curspl (view s))"
      using spl_bracket(1) [of ?s2] sp by simp
    let ?s3 = "?s2\<lparr>view := ?c, threads := (threads s)(t \<mapsto> th\<lparr>t_proc := None\<rparr>)\<rparr>"
    obtain o' where o': "set_spl (t_curspl (view s)) ?s3 = Some (?s3\<lparr>view := view s\<rparr>, o')"
      using spl_bracket(2) [OF sp, of ?s3] by auto
    have "remthread_from (i # is) p t ?s1 = Some (?s3\<lparr>view := view s\<rparr>)"
      using t p(2) get True ts'(1) c o' rel
      by (simp add: upd_thread_def held_by_me_def Let_def)
    also have "?s3\<lparr>view := view s\<rparr> = s\<lparr>p_threads := (p_threads s)(p \<mapsto> ts'),
        threads := (threads s)(t \<mapsto> th\<lparr>t_proc := None\<rparr>)\<rparr>" by simp
    finally show ?thesis using ts' i True by blast
  qed
qed simp

lemma proc_remthread_ok:
  assumes locks: "locks_ok H s" and p: "ProcLock p \<notin> H" "p_threads s p = Some ts" "arr_wf ts"
    and t: "threads s t = Some th" "t_proc th = Some p" "t \<in> set (arr_list ts)"
  shows "\<exists>ts'. proc_remthread t s =
      Some (s\<lparr>p_threads := (p_threads s)(p \<mapsto> ts'), threads := (threads s)(t \<mapsto> th\<lparr>t_proc := None\<rparr>)\<rparr>) \<and>
    arr_wf ts' \<and> mset (arr_list ts') = mset (arr_list ts) - {#t#}"
proof -
  let ?xs = "arr_list ts"
  have n: "array_num ts = length ?xs" by (rule karr.num_elems [OF p(3)])
  have "\<exists>i \<in> set [0..<array_num ts]. ?xs ! i = t" using t(3) n by (auto simp: in_set_conv_nth)
  then obtain i ts' where r: "remthread_from [0..<array_num ts] p t (held_by_me (ProcLock p) s) =
      Some (s\<lparr>p_threads := (p_threads s)(p \<mapsto> ts'), threads := (threads s)(t \<mapsto> th\<lparr>t_proc := None\<rparr>)\<rparr>)"
    "i < length ?xs" "?xs ! i = t" "arr_wf ts'" "arr_list ts' = take i ?xs @ drop (Suc i) ?xs"
    using remthread_from_ok [OF locks p t(1), of "[0..<array_num ts]"] n by auto
  have "?xs = take i ?xs @ t # drop (Suc i) ?xs" using r(2,3) by (metis id_take_nth_drop)
  then have "mset ?xs = mset (arr_list ts') + {#t#}"
    using r(5) by (metis add_mset_add_single mset.simps(2) mset_append union_mset_add_mset_right)
  then show ?thesis using r(1,4) t(1,2) p(2) locks_ok_acquire(1) [OF locks p(1)]
    by (auto simp: proc_remthread_def)
qed


section \<open>Forking a thread\<close>

definition magic_stack :: "u32 list \<Rightarrow> u32 list" where
  "magic_stack st = st[0 := THREAD_STACK_MAGIC, 1 := THREAD_STACK_MAGIC, 2 := THREAD_STACK_MAGIC,
     3 := THREAD_STACK_MAGIC]"

definition forked :: "string \<Rightarrow> u32 list \<Rightarrow> nat \<Rightarrow> nat \<Rightarrow> thread" where
  "forked name st c p = \<lparr>t_name = name, t_wchan_name = Some ''NEW'', t_state = S_READY,
     t_stack = Some (magic_stack st), t_cpu = Some c, t_proc = Some p, t_in_interrupt = False,
     t_saved_spl = IPL_HIGH, t_saved_count = 2\<rparr>"

lemma thread_checkstack_init_magic:
  assumes "threads s t = Some th" and "t_stack th = Some st" and "4 \<le> length st"
  shows "thread_checkstack_init t s =
    Some (s\<lparr>threads := (threads s)(t \<mapsto> th\<lparr>t_stack := Some (magic_stack st)\<rparr>)\<rparr>)"
proof -
  have "0 < length st" using assms(3) by linarith
  then show ?thesis using assms
    by (simp add: thread_checkstack_init_def upd_thread_def store_def magic_stack_def)
qed

text \<open>A thread that exists, on no list and not current, is part of a good state.\<close>

lemma sys_ok_new_thread:
  assumes ok: "sys_ok H s L U" and t: "threads s t = None" and r: "reps h L (insert t U)"
    and room: "card (dom (threads s)) + 1 < 2 ^ 32"
  shows "sys_ok H (s\<lparr>heap := h, threads := (threads s)(t \<mapsto> th)\<rparr>) L (insert t U)"
proof -
  let ?s = "s\<lparr>heap := h, threads := (threads s)(t \<mapsto> th)\<rparr>"
  have off: "t \<notin> set q" if "L l = Some q" for l q using on_lists [OF ok that] t by auto
  have cur: "curthread s \<noteq> t" using ok t by (auto simp: sys_ok_def on_cpu_def)
  have "fits ?s l x = fits s l x" if "L l = Some q" "x \<in> set q" for l q x
    using off [OF that(1)] that(2) by (intro fits_cong) auto
  then have "queues_ok ?s L" using ok by (simp add: sys_ok_def queues_ok_def)
  moreover have "locks_ok H ?s" using ok locks_ok_cong [of ?s s H] by (simp add: sys_ok_def)
  moreover have "on_cpu ?s (curcpu s) (curthread s)" using ok cur by (simp add: sys_ok_def on_cpu_def)
  moreover have "card (insert t (dom (threads s))) < 2 ^ 32"
    using card_insert_le_m1 room ok t by (simp add: sys_ok_def domIff)
  ultimately show ?thesis using ok r by (auto simp: sys_ok_def)
qed

lemma thread_create_ok:
  assumes ok: "sys_ok H s L U" and t: "threads s t = None" and room: "card (dom (threads s)) + 1 < 2 ^ 32"
  shows "\<exists>h. thread_create (Some t) True name s =
      Some (s\<lparr>heap := h, threads := (threads s)(t \<mapsto> new_thread name)\<rparr>, Some t) \<and>
    reps h L (insert t U)"
proof -
  have "t \<notin> set q" if "L l = Some q" for l q using on_lists [OF ok that] t by auto
  then obtain h where "threadlistnode_init (NodeOf t) (Some t) (heap s) = Some h" "reps h L (insert t U)"
    using threadlistnode_init_reps [OF sys_reps [OF ok]] by blast
  then show ?thesis by (auto simp: thread_create_def)
qed

lemma thread_fork_ok:
  assumes "sys_ok {} s L U" and "threads s t = None" and "card (dom (threads s)) + 1 < 2 ^ 32"
    and "p_threads s p = Some ts" and "arr_wf ts" and "length (arr_list ts) < 2 ^ 28" and "4 \<le> length st"
    and "L (runq_of (curcpu s)) = Some q"
  shows "\<exists>s' ts'. thread_fork (Some t) True (Some st) True name (Some p) s = Some (s', None) \<and>
    sys_ok {} s' (L(runq_of (curcpu s) \<mapsto> q @ [t])) (U - {t}) \<and> parked s' S_READY t \<and>
    map_option t_proc (threads s' t) = Some (Some p) \<and> thread_checkstack t s' = Some () \<and>
    p_threads s' p = Some ts' \<and> arr_wf ts' \<and> arr_list ts' = arr_list ts @ [t] \<and> view s' = view s"
proof -
  let ?me = "curcpu s"
  obtain h where h: "thread_create (Some t) True name s =
      Some (s\<lparr>heap := h, threads := (threads s)(t \<mapsto> new_thread name)\<rparr>, Some t)" "reps h L (insert t U)"
    using thread_create_ok [OF assms(1-3)] by blast
  have tU: "t \<noteq> curthread s" using assms(1,2) by (auto simp: sys_ok_def on_cpu_def)
  obtain me where me: "threads s (curthread s) = Some me" "t_cpu me = Some ?me"
    using assms(1) by (auto simp: sys_ok_def on_cpu_def)
  let ?th = "(forked name st ?me p)\<lparr>t_proc := None, t_saved_count := 1\<rparr>"
  let ?s1 = "s\<lparr>heap := h, threads := (threads s)(t \<mapsto> ?th)\<rparr>"
  have ok1: "sys_ok {} ?s1 L (insert t U)" by (rule sys_ok_new_thread [OF assms(1,2) h(2) assms(3)])
  have th1: "threads ?s1 t = Some ?th" "t_proc ?th = None" "p_threads ?s1 p = Some ts" "ProcLock p \<notin> {}"
    "locks_ok {} ?s1" using assms(4) ok1 by (simp_all add: sys_ok_def)
  obtain ts' where ts': "proc_addthread True p t ?s1 = Some (Inr (?s1\<lparr>p_threads := (p_threads ?s1)(p \<mapsto> ts'),
      threads := (threads ?s1)(t \<mapsto> ?th\<lparr>t_proc := Some p\<rparr>)\<rparr>))" "arr_wf ts'" "arr_list ts' = arr_list ts @ [t]"
    using proc_addthread_ok [OF th1(5,4,3) assms(5,6) th1(1,2)] by blast
  let ?s2 = "s\<lparr>heap := h, p_threads := (p_threads s)(p \<mapsto> ts'), threads := (threads s)(t \<mapsto> forked name st ?me p)\<rparr>"
  have ok2: "sys_ok {} ?s2 L (insert t U)"
  proof -
    have "sys_ok {} (s\<lparr>heap := h, threads := (threads s)(t \<mapsto> forked name st ?me p)\<rparr>) L (insert t U)"
      (is "sys_ok {} ?u L (insert t U)")
      by (rule sys_ok_new_thread [OF assms(1,2) h(2) assms(3)])
    moreover have "fits ?s2 l x = fits ?u l x" for l x by (rule fits_cong) simp_all
    moreover have "on_cpu ?s2 c x = on_cpu ?u c x" for c x by (rule on_cpu_cong) simp
    moreover have "locks_ok {} ?s2 = locks_ok {} ?u" by (rule locks_ok_cong) simp_all
    ultimately show ?thesis by (simp add: sys_ok_def queues_ok_def)
  qed
  have p2: "t \<noteq> curthread ?s2" "parked ?s2 S_READY t" "on_cpu ?s2 ?me t"
    using tU assms(1) by (auto simp: parked_def on_cpu_def forked_def sys_ok_def)
  have nl: "RunqueueLock ?me \<notin> {}" "IpiLock ?me \<notin> {}" by simp_all
  obtain s3 q' where s3: "thread_make_runnable t False ?s2 = Some s3" "L (runq_of ?me) = Some q'"
    "sys_ok {} s3 (L(runq_of ?me \<mapsto> q' @ [t])) (insert t U - {t})" "same_env ?s2 s3" "parked s3 S_READY t"
    "threads s3 t = Some ((the (threads ?s2 t))\<lparr>t_state := S_READY\<rparr>)"
    using make_runnable_ok [OF ok2 insertI1 p2 nl] by blast
  have fin: "thread_fork (Some t) True (Some st) True name (Some p) s = Some (s3, None)"
  proof -
    let ?n = "new_thread name"
    let ?sn = "s\<lparr>heap := h, threads := (threads s)(t \<mapsto> ?n\<lparr>t_stack := Some st\<rparr>)\<rparr>"
    have m: "thread_checkstack_init t ?sn =
        Some (s\<lparr>heap := h, threads := (threads s)(t \<mapsto> ?n\<lparr>t_stack := Some (magic_stack st)\<rparr>)\<rparr>)"
      using thread_checkstack_init_magic [of ?sn t "?n\<lparr>t_stack := Some st\<rparr>" st] assms(7) by simp
    show ?thesis
      using h(1) m me tU ts'(1) s3(1)
      by (simp add: thread_fork_def upd_thread_def forked_def new_thread_def)
  qed
  have len: "0 < length st" using assms(7) by linarith
  have T: "threads s3 t = Some ((forked name st ?me p)\<lparr>t_state := S_READY\<rparr>)" using s3(6) by simp
  have "thread_checkstack t s3 = Some ()"
    using T assms(7) len by (simp add: thread_checkstack_def forked_def magic_stack_def fetch_def)
  moreover have "map_option t_proc (threads s3 t) = Some (Some p)" using T by (simp add: forked_def)
  moreover have "p_threads s3 p = Some ts'" "view s3 = view s" using s3(4) by (simp_all add: same_env_def)
  moreover have "sys_ok {} s3 (L(runq_of ?me \<mapsto> q @ [t])) (U - {t})"
    using s3(2,3) assms(8) by (simp del: fun_upd_apply)
  ultimately show ?thesis using fin s3(5) ts'(2,3) by blast
qed

text \<open>A successful thread_fork puts the new thread, and no other, at the end of the run queue of the
  forking CPU; the new thread is ready, belongs to the given process, has the stack guard words in
  place and the interrupt level the switch to it expects, and the invariant holds.\<close>

theorem thread_fork_ready:
  assumes "sys_ok {} s L U" and "threads s t = None" and "card (dom (threads s)) + 1 < 2 ^ 32"
    and "p_threads s p = Some ts" and "arr_wf ts" and "length (arr_list ts) < 2 ^ 28" and "4 \<le> length st"
    and "L (runq_of (curcpu s)) = Some q"
  shows "\<exists>s' ts'. thread_fork (Some t) True (Some st) True name (Some p) s = Some (s', None) \<and>
    sys_ok {} s' (L(runq_of (curcpu s) \<mapsto> q @ [t])) (U - {t}) \<and> parked s' S_READY t \<and>
    map_option t_proc (threads s' t) = Some (Some p) \<and> thread_checkstack t s' = Some () \<and>
    p_threads s' p = Some ts' \<and> arr_wf ts' \<and> arr_list ts' = arr_list ts @ [t]"
  using thread_fork_ok [OF assms] by blast

theorem thread_fork_ready_witness:
  "\<exists>h s'. thread_fork (Some 5) True (Some (replicate 1024 0)) True ''child'' (Some 9) (sample_sys S_READY h) =
       Some (s', None) \<and> sys_ok {} s' ((sample_queues [2, 3] [])(1 \<mapsto> [2, 3, 5])) {1}"
proof -
  obtain h where h: "reps h (sample_queues [2, 3] []) {1}"
    using sample_heap_exists [of "[2, 3]" "[]"] by auto
  let ?s = "sample_sys S_READY h" and ?L = "sample_queues [2, 3] []"
  have ok: "sys_ok {} ?s ?L {1}" using sample_sys_ok [OF h] by simp
  have d: "dom (threads ?s) = {1, 2, 3}" by (auto simp: sample_sys_def split: if_splits)
  have f: "threads ?s 5 = None" "card (dom (threads ?s)) + 1 < 2 ^ 32" "p_threads ?s 9 = Some array_init"
    "arr_wf (array_init :: nat karray)" "length (arr_list (array_init :: nat karray)) < 2 ^ 28"
    "4 \<le> length (replicate 1024 (0 :: u32))" "?L (runq_of (curcpu ?s)) = Some [2, 3]"
    unfolding d by (simp_all add: sample_sys_def arr_wf_init arr_list_init sample_queues_def sample_addresses)
  have c: "runq_of (curcpu ?s) = 1" "{1} - {5} = {1 :: nat}" by (auto simp: sample_sys_def sample_addresses)
  show ?thesis using thread_fork_ready [OF ok f] unfolding c by fastforce
qed

text \<open>Thread_fork that runs out of memory, for the thread, its name, its stack or its slot in the
  process, reports ENOMEM, and no thread, no queue and no lock has changed.\<close>

theorem thread_fork_nomem:
  assumes "sys_ok {} s L U" and "threads s t = None" and "card (dom (threads s)) + 1 < 2 ^ 32"
    and "p_threads s p = Some ts" and "arr_wf ts" and "length (arr_list ts) < 2 ^ 28"
    and "mem = None \<or> mem = Some t"
    and "mem = None \<or> \<not> dup \<or> stk = None \<or> (\<exists>st. stk = Some st \<and> 4 \<le> length st) \<and> array_add addmem ts t = Some (Inl ENOMEM)"
  shows "\<exists>s' U'. thread_fork mem dup stk addmem name (Some p) s = Some (s', Some ENOMEM) \<and>
    threads s' = threads s \<and> sys_ok {} s' L U' \<and> locks s' = locks s \<and> p_threads s' = p_threads s"
proof (cases "mem = None \<or> \<not> dup")
  case True
  then have "thread_fork mem dup stk addmem name (Some p) s = Some (s, Some ENOMEM)"
    by (auto simp: thread_fork_def thread_create_def split: option.splits)
  then show ?thesis using assms(1) by blast
next
  case False
  then have mem: "mem = Some t" "dup" using assms(7) by auto
  obtain h where h: "thread_create (Some t) True name s =
      Some (s\<lparr>heap := h, threads := (threads s)(t \<mapsto> new_thread name)\<rparr>, Some t)" "reps h L (insert t U)"
    using thread_create_ok [OF assms(1-3)] by blast
  have tU: "t \<noteq> curthread s" using assms(1,2) by (auto simp: sys_ok_def on_cpu_def)
  have none: "(threads s)(t := None) = threads s" using assms(2) by auto
  have destroy: "thread_destroy t (s\<lparr>heap := h, threads := (threads s)(t \<mapsto> th)\<rparr>) = Some (s\<lparr>heap := h\<rparr>)"
    "sys_ok {} (s\<lparr>heap := h\<rparr>) L (insert t U)"
    if "t_state th = S_READY" "t_proc th = None" for th
  proof -
    let ?u = "s\<lparr>heap := h, threads := (threads s)(t \<mapsto> th)\<rparr>"
    have ok: "sys_ok {} ?u L (insert t U)" by (rule sys_ok_new_thread [OF assms(1,2) h(2) assms(3)])
    have "t \<noteq> curthread ?u" "threads ?u t = Some th" "t_state th \<noteq> S_RUN" using tU that by simp_all
    then show "thread_destroy t ?u = Some (s\<lparr>heap := h\<rparr>)" "sys_ok {} (s\<lparr>heap := h\<rparr>) L (insert t U)"
      using thread_destroy_ok [OF ok insertI1 _ _ _ that(2)] none by simp_all
  qed
  show ?thesis
  proof (cases stk)
    case None
    have n: "t_state (new_thread name) = S_READY" "t_proc (new_thread name) = None" by (simp_all add: new_thread_def)
    have "thread_fork mem dup stk addmem name (Some p) s = Some (s\<lparr>heap := h\<rparr>, Some ENOMEM)"
      using h(1) None mem destroy(1) [OF n] by (simp add: thread_fork_def)
    then show ?thesis using destroy(2) [OF n] by (intro exI [of _ "s\<lparr>heap := h\<rparr>"] exI [of _ "insert t U"]) simp
  next
    case (Some st)
    then have st: "4 \<le> length st" "array_add addmem ts t = Some (Inl ENOMEM)" using assms(8) mem by auto
    obtain me where me: "threads s (curthread s) = Some me" "t_cpu me = Some (curcpu s)"
      using assms(1) by (auto simp: sys_ok_def on_cpu_def)
    let ?th = "(forked name st (curcpu s) p)\<lparr>t_proc := None, t_saved_count := 1\<rparr>"
    let ?s1 = "s\<lparr>heap := h, threads := (threads s)(t \<mapsto> ?th)\<rparr>"
    let ?n = "new_thread name"
    let ?sn = "s\<lparr>heap := h, threads := (threads s)(t \<mapsto> ?n\<lparr>t_stack := Some st\<rparr>)\<rparr>"
    have th: "t_state ?th = S_READY" "t_proc ?th = None" by (simp_all add: forked_def)
    have "sys_ok {} ?s1 L (insert t U)" by (rule sys_ok_new_thread [OF assms(1,2) h(2) assms(3)])
    then have l1: "locks_ok {} ?s1" "ProcLock p \<notin> {}" "p_threads ?s1 p = Some ts" "threads ?s1 t = Some ?th"
      using assms(4) by (simp_all add: sys_ok_def)
    have add: "proc_addthread addmem p t ?s1 = Some (Inl ENOMEM)"
      by (rule proc_addthread_nomem [OF l1(1-3) st(2) l1(4) th(2)])
    have m: "thread_checkstack_init t ?sn =
        Some (s\<lparr>heap := h, threads := (threads s)(t \<mapsto> ?n\<lparr>t_stack := Some (magic_stack st)\<rparr>)\<rparr>)"
      using thread_checkstack_init_magic [of ?sn t "?n\<lparr>t_stack := Some st\<rparr>" st] st(1) by simp
    have "thread_fork mem dup stk addmem name (Some p) s = Some (s\<lparr>heap := h\<rparr>, Some ENOMEM)"
      using h(1) m me tU add destroy(1) [OF th] Some mem
      by (simp add: thread_fork_def upd_thread_def forked_def new_thread_def)
    then show ?thesis using destroy(2) [OF th] by (intro exI [of _ "s\<lparr>heap := h\<rparr>"] exI [of _ "insert t U"]) simp
  qed
qed

theorem thread_fork_nomem_witness:
  "\<exists>h s'. thread_fork (Some 5) True None True ''child'' (Some 9) (sample_sys S_READY h) =
       Some (s', Some ENOMEM) \<and> dom (threads s') = {1, 2, 3}"
proof -
  obtain h where h: "reps h (sample_queues [2, 3] []) {1}"
    using sample_heap_exists [of "[2, 3]" "[]"] by auto
  let ?s = "sample_sys S_READY h" and ?L = "sample_queues [2, 3] []"
  have ok: "sys_ok {} ?s ?L {1}" using sample_sys_ok [OF h] by simp
  have d: "dom (threads ?s) = {1, 2, 3}" by (auto simp: sample_sys_def split: if_splits)
  have f: "threads ?s 5 = None" "card (dom (threads ?s)) + 1 < 2 ^ 32" "p_threads ?s 9 = Some array_init"
    "arr_wf (array_init :: nat karray)" "length (arr_list (array_init :: nat karray)) < 2 ^ 28"
    "Some 5 = None \<or> Some 5 = Some (5 :: nat)"
    unfolding d by (simp_all add: sample_sys_def arr_wf_init arr_list_init)
  have g: "Some (5 :: nat) = None \<or> \<not> True \<or> (None :: u32 list option) = None \<or>
      (\<exists>st. None = Some st \<and> 4 \<le> length st) \<and> array_add True array_init 5 = Some (Inl ENOMEM)" by simp
  show ?thesis using thread_fork_nomem [where name = "''child''", OF ok f g] d by metis
qed


section \<open>Exit\<close>

lemma sys_ok_p_threads: "sys_ok H (s\<lparr>p_threads := ps\<rparr>) L U = sys_ok H s L U"
proof -
  have "fits (s\<lparr>p_threads := ps\<rparr>) l x = fits s l x" for l x by (rule fits_cong) simp_all
  moreover have "on_cpu (s\<lparr>p_threads := ps\<rparr>) c x = on_cpu s c x" for c x by (rule on_cpu_cong) simp
  moreover have "locks_ok H (s\<lparr>p_threads := ps\<rparr>) = locks_ok H s" by (rule locks_ok_cong) simp_all
  ultimately show ?thesis by (simp add: sys_ok_def queues_ok_def)
qed

text \<open>C28: thread_exit detaches the thread from its process and switches away for good: it ends on the
  zombie list of its CPU in state S_ZOMBIE, the next ready thread takes the CPU, and when that thread
  resumes, the exited thread's structure is gone and the invariant of the thread system holds.\<close>

theorem thread_exit_buried:
  assumes "sys_ok {} s L U" and "threads s (curthread s) = Some th" and "t_proc th = Some p"
    and "p_threads s p = Some ts" and "arr_wf ts" and "curthread s \<in> set (arr_list ts)"
    and "thread_checkstack (curthread s) s = Some ()" and "\<not> c_isidle (the (cpus s (curcpu s)))"
    and "L (runq_of (curcpu s)) = Some (t # q)" and "L (zombies_of (curcpu s)) = Some zs"
    and "spl = 0 \<or> spl = 1"
  shows "\<exists>s1 s2. thread_exit idle s = Some s1 \<and> curthread s1 = t \<and> parked s1 S_ZOMBIE (curthread s) \<and>
    thread_resume spl s1 = Some s2 \<and> curthread s2 = t \<and> threads s2 (curthread s) = None \<and>
    sys_ok {} s2 (L(runq_of (curcpu s) \<mapsto> q, zombies_of (curcpu s) \<mapsto> []))
      (insert t (U - {curthread s}) \<union> set (zs @ [curthread s]))"
proof -
  let ?t = "curthread s" and ?me = "curcpu s" and ?th = "th\<lparr>t_proc := None\<rparr>"
  have l: "locks_ok {} s" "ProcLock p \<notin> {}" using assms(1) by (simp_all add: sys_ok_def)
  obtain ts' where ts': "proc_remthread ?t s = Some (s\<lparr>p_threads := (p_threads s)(p \<mapsto> ts'),
      threads := (threads s)(?t \<mapsto> ?th)\<rparr>)"
    using proc_remthread_ok [OF l assms(4,5,2,3,6)] by blast
  let ?s1 = "s\<lparr>p_threads := (p_threads s)(p \<mapsto> ts'), threads := (threads s)(?t \<mapsto> ?th)\<rparr>"
  have cur: "?t \<in> U" "t_cpu th = Some ?me" using assms(1,2) by (auto simp: sys_ok_def on_cpu_def)
  have "sys_ok {} (s\<lparr>threads := (threads s)(?t \<mapsto> ?th)\<rparr>) L U"
    using assms(2) cur by (intro sys_ok_threads [OF assms(1) cur(1)]) auto
  then have "sys_ok {} (s\<lparr>threads := (threads s)(?t \<mapsto> ?th)\<rparr>\<lparr>p_threads := (p_threads s)(p \<mapsto> ts')\<rparr>) L U"
    by (simp only: sys_ok_p_threads)
  also have "s\<lparr>threads := (threads s)(?t \<mapsto> ?th)\<rparr>\<lparr>p_threads := (p_threads s)(p \<mapsto> ts')\<rparr> = ?s1" by simp
  finally have ok1: "sys_ok {} ?s1 L U" .
  obtain c where c: "set_spl 1 ?s1 = Some (?s1\<lparr>view := c\<rparr>, t_curspl (view ?s1))"
    "sys_ok {} (?s1\<lparr>view := c\<rparr>) L U"
    using set_spl_ok [OF ok1, of 1] by blast
  let ?s2 = "?s1\<lparr>view := c\<rparr>"
  have st: "thread_checkstack ?t ?s1 = Some ()" "thread_checkstack (curthread ?s2) ?s2 = Some ()"
    using assms(2,7) by (simp_all add: thread_checkstack_def)
  have f: "({} :: lock_id set) = (if S_ZOMBIE = S_SLEEP then {OtherLock 0} else {})" "S_ZOMBIE \<noteq> S_RUN"
    "t_proc (the (threads ?s2 (curthread ?s2))) = None" "\<not> c_isidle (the (cpus ?s2 (curcpu ?s2)))"
    "L (runq_of (curcpu ?s2)) = Some (t # q)" using assms(8,9) by simp_all
  obtain s1 where s1: "thread_switch idle S_ZOMBIE None ?s2 = Some (s1, t_curspl (view ?s2), True)"
    "sys_ok {RunqueueLock ?me} s1 (switched (zombies_of ?me) ?t ?me L) (insert t (U - {?t}))"
    "curthread s1 = t" "curcpu s1 = ?me" "parked s1 S_ZOMBIE ?t"
    using switch_parks [OF c(2) f(1) _ f(2) _ f(4) st(2) f(5), of None 0 idle] f(3) by auto
  have run: "thread_exit idle s = Some s1"
    using ts' st(1) c(1) s1(1) by (simp add: thread_exit_def Let_def)
  let ?L = "L(zombies_of ?me \<mapsto> zs @ [?t], runq_of ?me \<mapsto> q)"
  have L: "switched (zombies_of ?me) ?t ?me L = ?L"
    using assms(9,10) by (simp add: switched_def Let_def)
  have ok3: "sys_ok {RunqueueLock (curcpu s1)} s1 ?L (insert t (U - {?t}))"
    using s1(2,4) unfolding L by simp
  have z: "?L (zombies_of (curcpu s1)) = Some (zs @ [?t])" using s1(4) by simp
  obtain s2 where s2: "thread_resume spl s1 = Some s2"
    "sys_ok {} s2 (?L(zombies_of (curcpu s1) \<mapsto> [])) (insert t (U - {?t}) \<union> set (zs @ [?t]))"
    "curthread s2 = curthread s1" "\<forall>x \<in> set (zs @ [?t]). threads s2 x = None"
    using thread_resume_ok [OF ok3 z assms(11)] by blast
  have "?L(zombies_of (curcpu s1) \<mapsto> []) = L(runq_of ?me \<mapsto> q, zombies_of ?me \<mapsto> [])"
    using s1(4) by (auto simp: fun_upd_def)
  then have "sys_ok {} s2 (L(runq_of ?me \<mapsto> q, zombies_of ?me \<mapsto> [])) (insert t (U - {?t}) \<union> set (zs @ [?t]))"
    using s2(2) by simp
  moreover have "threads s2 ?t = None" using s2(4) by simp
  moreover have "curthread s2 = t" using s2(3) s1(3) by simp
  ultimately show ?thesis using run s1(3,5) s2(1) by blast
qed

theorem thread_exit_buried_witness:
  "\<exists>s s1 s2. curthread s = 1 \<and> thread_exit (\<lambda>_. None) s = Some s1 \<and> curthread s1 = 2 \<and>
     thread_resume 0 s1 = Some s2 \<and> threads s2 1 = None"
proof -
  obtain h where h: "reps h (sample_queues [2, 3] []) {1}"
    using sample_heap_exists [of "[2, 3]" "[]"] by auto
  let ?sys = "sample_sys S_READY h" and ?L = "sample_queues [2, 3] []"
  have "sys_ok {} ?sys ?L {1}" using sample_sys_ok [OF h] by simp
  obtain ts where ts: "arr_wf ts" "arr_list ts = [1 :: nat]"
    using array_add_spec [OF arr_wf_init, of "1 :: nat"] by (auto simp: arr_list_init)
  let ?th = "(sample_thread S_RUN)\<lparr>t_proc := Some 9\<rparr>"
  let ?s = "?sys\<lparr>threads := (threads ?sys)(1 \<mapsto> ?th), p_threads := [9 \<mapsto> ts]\<rparr>"
  have "sys_ok {} (?sys\<lparr>threads := (threads ?sys)(1 \<mapsto> ?th)\<rparr>) ?L {1}"
    by (rule sys_ok_threads [OF \<open>sys_ok {} ?sys ?L {1}\<close>, of 1]) (auto simp: sample_sys_def sample_thread_def)
  then have "sys_ok {} (?sys\<lparr>threads := (threads ?sys)(1 \<mapsto> ?th)\<rparr>\<lparr>p_threads := [9 \<mapsto> ts]\<rparr>) ?L {1}"
    by (simp only: sys_ok_p_threads)
  then have ok: "sys_ok {} ?s ?L {1}" by simp
  have f: "threads ?s (curthread ?s) = Some ?th" "t_proc ?th = Some 9" "p_threads ?s 9 = Some ts"
    "curthread ?s \<in> set (arr_list ts)" "thread_checkstack (curthread ?s) ?s = Some ()"
    "\<not> c_isidle (the (cpus ?s (curcpu ?s)))" "?L (runq_of (curcpu ?s)) = Some (2 # [3])"
    "?L (zombies_of (curcpu ?s)) = Some []" "curthread ?s = 1"
    using ts(2) by (simp_all add: sample_sys_def sample_thread_def sample_queues_def sample_addresses
        thread_checkstack_def)
  show ?thesis
    using thread_exit_buried [OF ok f(1-3) ts(1) f(4-8), of 0 "\<lambda>_. None"] f(9) by (metis (no_types))
qed

end
