(* ===== verification/Memory.thy ===== *)
theory Memory
  imports OS_Prelude
begin

text \<open>
  Memory by the byte, as the kernel sees it: \<^verbatim>\<open>common/libc/string\<close> (\<^verbatim>\<open>memcpy\<close>, \<^verbatim>\<open>memmove\<close>,
  \<^verbatim>\<open>memset\<close>, \<^verbatim>\<open>bzero\<close>) and the transfers between user and kernel space of
  \<^verbatim>\<open>kern/vm/copyinout.c\<close>.

  An address is a 32-bit word and kernel and user space share the one address space, split at
  \<^verbatim>\<open>USERSPACETOP\<close>. A \<open>prot\<close> says which addresses can be read and written: the pages of the current
  address space below the split. An access that is not allowed is a fault; the machine goes to
  \<^verbatim>\<open>tm_badfaultfunc\<close> when that is set and otherwise panics. The word loops of the copy routines
  move four bytes at a time (\<^verbatim>\<open>long\<close> is 32 bits on this machine).
\<close>

type_synonym bytes = "u32 \<Rightarrow> u8"

record prot =
  can_read :: "u32 \<Rightarrow> bool"
  can_write :: "u32 \<Rightarrow> bool"

record memory =
  bytes_of :: bytes
  badfault :: bool

abbreviation (input) USERSPACETOP :: u32 where "USERSPACETOP \<equiv> 0x80000000"

section \<open>Copy loops\<close>

text \<open>A loop whose body may fault: \<open>Inl\<close> holds the bytes as they are at the fault.\<close>

primrec run_each :: "('a \<Rightarrow> 's \<Rightarrow> 's + 's) \<Rightarrow> 'a list \<Rightarrow> 's \<Rightarrow> 's + 's" where
  "run_each f [] s = Inr s"
| "run_each f (x # xs) s =
    (case f x s of
       Inl s1 \<Rightarrow> Inl s1
     | Inr s1 \<Rightarrow> run_each f xs s1)"

definition copy_byte :: "prot \<Rightarrow> u32 \<Rightarrow> u32 \<Rightarrow> bytes \<Rightarrow> bytes + bytes" where
  "copy_byte p d s m =
    (if can_read p s \<and> can_write p d then Inr (m(d := m s)) else Inl m)"

text \<open>One 32-bit load and store, both at aligned addresses.\<close>

definition copy_word :: "prot \<Rightarrow> u32 \<Rightarrow> u32 \<Rightarrow> bytes \<Rightarrow> bytes + bytes" where
  "copy_word p d s m =
    (if list_all (\<lambda>k. can_read p (s + k) \<and> can_write p (d + k)) [0, 1, 2, 3]
     then Inr (m(d := m s, d + 1 := m (s + 1), d + 2 := m (s + 2), d + 3 := m (s + 3)))
     else Inl m)"

definition words_aligned :: "u32 list \<Rightarrow> bool" where
  "words_aligned ws = list_all (\<lambda>w. w mod 4 = 0) ws"

definition memcpy :: "prot \<Rightarrow> u32 \<Rightarrow> u32 \<Rightarrow> u32 \<Rightarrow> bytes \<Rightarrow> bytes + bytes" where
  "memcpy p dst src len m =
    (if words_aligned [dst, src, len]
     then run_each (\<lambda>i. copy_word p (dst + 4 * of_nat i) (src + 4 * of_nat i)) [0..<unat (len div 4)] m
     else run_each (\<lambda>i. copy_byte p (dst + of_nat i) (src + of_nat i)) [0..<unat len] m)"

definition memmove :: "prot \<Rightarrow> u32 \<Rightarrow> u32 \<Rightarrow> u32 \<Rightarrow> bytes \<Rightarrow> bytes + bytes" where
  "memmove p dst src len m =
    (if dst < src then memcpy p dst src len m
     else if words_aligned [dst, src, len]
     then run_each (\<lambda>i. copy_word p (dst + 4 * of_nat i) (src + 4 * of_nat i))
            (rev [0..<unat (len div 4)]) m
     else run_each (\<lambda>i. copy_byte p (dst + of_nat i) (src + of_nat i)) (rev [0..<unat len]) m)"

definition set_byte :: "prot \<Rightarrow> u32 \<Rightarrow> u8 \<Rightarrow> bytes \<Rightarrow> bytes + bytes" where
  "set_byte p d b m = (if can_write p d then Inr (m(d := b)) else Inl m)"

definition set_word :: "prot \<Rightarrow> u32 \<Rightarrow> bytes \<Rightarrow> bytes + bytes" where
  "set_word p d m =
    (if list_all (\<lambda>k. can_write p (d + k)) [0, 1, 2, 3]
     then Inr (m(d := 0, d + 1 := 0, d + 2 := 0, d + 3 := 0))
     else Inl m)"

definition memset :: "prot \<Rightarrow> u32 \<Rightarrow> u32 \<Rightarrow> u32 \<Rightarrow> bytes \<Rightarrow> bytes + bytes" where
  "memset p ptr ch len m =
    run_each (\<lambda>i. set_byte p (ptr + of_nat i) (ucast ch)) [0..<unat len] m"

definition bzero :: "prot \<Rightarrow> u32 \<Rightarrow> u32 \<Rightarrow> bytes \<Rightarrow> bytes + bytes" where
  "bzero p vblock len m =
    (if words_aligned [vblock, len]
     then run_each (\<lambda>i. set_word p (vblock + 4 * of_nat i)) [0..<unat (len div 4)] m
     else run_each (\<lambda>i. set_byte p (vblock + of_nat i) 0) [0..<unat len] m)"

section \<open>What the copy routines promise\<close>

text \<open>The bytes after a block has been copied, all of it read before any of it is written; and
  after a block has been filled.\<close>

definition moved :: "u32 \<Rightarrow> u32 \<Rightarrow> u32 \<Rightarrow> bytes \<Rightarrow> bytes" where
  "moved dst src len m = (\<lambda>a. if a - dst < len then m (src + (a - dst)) else m a)"

definition filled :: "u32 \<Rightarrow> u8 \<Rightarrow> u32 \<Rightarrow> bytes \<Rightarrow> bytes" where
  "filled dst b len m = (\<lambda>a. if a - dst < len then b else m a)"

definition readable :: "prot \<Rightarrow> u32 \<Rightarrow> u32 \<Rightarrow> bool" where
  "readable p a len \<longleftrightarrow> (\<forall>k < len. can_read p (a + k))"

definition writable :: "prot \<Rightarrow> u32 \<Rightarrow> u32 \<Rightarrow> bool" where
  "writable p a len \<longleftrightarrow> (\<forall>k < len. can_write p (a + k))"

text \<open>A block that does not wrap around the top of memory.\<close>

definition no_wrap :: "u32 \<Rightarrow> u32 \<Rightarrow> bool" where
  "no_wrap a len \<longleftrightarrow> unat a + unat len \<le> 2 ^ 32"


section \<open>The loops without faults\<close>

lemma run_each_cases:
  assumes "\<And>x s. f x s = (if ok x then Inr (g x s) else Inl s)"
  shows "run_each f xs s =
    (if list_all ok xs then Inr (fold g xs s) else Inl (fold g (takeWhile ok xs) s))"
  by (induction xs arbitrary: s) (auto simp: assms)

definition put_byte :: "u32 \<Rightarrow> u32 \<Rightarrow> bytes \<Rightarrow> bytes" where
  "put_byte d s m = m(d := m s)"

definition put_word :: "u32 \<Rightarrow> u32 \<Rightarrow> bytes \<Rightarrow> bytes" where
  "put_word d s m = m(d := m s, d + 1 := m (s + 1), d + 2 := m (s + 2), d + 3 := m (s + 3))"

lemma unat_add_small: "unat (a :: u32) + n < 2 ^ 32 \<Longrightarrow> unat (a + of_nat n) = unat a + n"
  by (simp add: unat_word_ariths unat_of_nat)

lemma unat_mod_4: "unat ((d :: u32) mod 4) = unat d mod 4"
  by (simp add: unat_mod_distrib)

lemma word_mod_4: "(d :: u32) mod 4 = 0 \<longleftrightarrow> unat d mod 4 = 0"
  using unat_mod_4 [of d] by (metis unat_eq_zero)

lemma unat_aligned_add: "(d :: u32) mod 4 = 0 \<Longrightarrow> k < 4 \<Longrightarrow> unat (d + of_nat k) = unat d + k"
proof (rule unat_add_small)
  assume "d mod 4 = 0" and k: "k < 4"
  then obtain q where q: "unat d = 4 * q" by (auto simp: word_mod_4)
  moreover have "unat d < 2 ^ 32" using unsigned_less [where ?'a = nat and w = d] by simp
  ultimately have "q < 2 ^ 30" by simp
  then show "unat d + k < 2 ^ 32" using q k by simp
qed

lemma aligned_disjoint:
  assumes "(d :: u32) mod 4 = 0" "s mod 4 = 0" "d \<noteq> s" "j < 4" "k < 4"
  shows "d + of_nat j \<noteq> s + of_nat k"
proof
  assume "d + of_nat j = s + of_nat k"
  then have e: "unat d + j = unat s + k"
    using unat_aligned_add [of d j] unat_aligned_add [of s k] assms by metis
  obtain q r where "unat d = 4 * q" "unat s = 4 * r"
    using assms(1,2) unfolding word_mod_4 mod_0_imp_dvd mod_eq_0_iff_dvd by (elim dvdE) blast
  then have "unat d = unat s" using e assms(4,5) by presburger
  then show False using assms(3) by (metis unsigned_word_eqI)
qed

text \<open>A word moved at once is four bytes moved one by one, in either order: two aligned words are
  the same or share no byte.\<close>

lemma put_word_up:
  assumes "d mod 4 = 0" "s mod 4 = 0"
  shows "put_word d s m =
    fold (\<lambda>k. put_byte (d + of_nat k) (s + of_nat k)) [0, 1, 2, 3] m"
proof (cases "d = s")
  case True
  then show ?thesis by (simp add: put_word_def put_byte_def)
next
  case False
  note n = aligned_disjoint [OF assms False]
  have "d \<noteq> s + 1" "d \<noteq> s + 2" "d \<noteq> s + 3" "d + 1 \<noteq> s + 2" "d + 1 \<noteq> s + 3" "d + 2 \<noteq> s + 3"
    using n [of 0 1] n [of 0 2] n [of 0 3] n [of 1 2] n [of 1 3] n [of 2 3] by simp_all
  then show ?thesis by (simp add: put_word_def put_byte_def)
qed

lemma put_word_down:
  assumes "d mod 4 = 0" "s mod 4 = 0"
  shows "put_word d s m =
    fold (\<lambda>k. put_byte (d + of_nat k) (s + of_nat k)) [3, 2, 1, 0] m"
proof (cases "d = s")
  case True
  then show ?thesis by (simp add: put_word_def put_byte_def)
next
  case False
  note n = aligned_disjoint [OF assms False]
  have "d + 1 \<noteq> s" "d + 2 \<noteq> s" "d + 3 \<noteq> s" "d + 2 \<noteq> s + 1" "d + 3 \<noteq> s + 1" "d + 3 \<noteq> s + 2"
    using n [of 1 0] n [of 2 0] n [of 3 0] n [of 2 1] n [of 3 1] n [of 3 2] by simp_all
  then show ?thesis by (simp add: put_word_def put_byte_def fun_eq_iff)
qed

definition put_bytes :: "u32 \<Rightarrow> u32 \<Rightarrow> nat list \<Rightarrow> bytes \<Rightarrow> bytes" where
  "put_bytes d s ks = fold (\<lambda>k. put_byte (d + of_nat k) (s + of_nat k)) ks"

lemma aligned_word: "(x :: u32) mod 4 = 0 \<Longrightarrow> (x + 4 * of_nat n) mod 4 = 0"
proof -
  assume x: "x mod 4 = 0"
  have d: "4 dvd unat (4 * of_nat n :: u32)"
    by (simp add: unat_word_ariths dvd_mod)
  have "unat (x + 4 * of_nat n) mod 4 = (unat x + unat (4 * of_nat n :: u32)) mod 4"
    by (simp add: unat_word_ariths mod_mod_cancel)
  then have "unat (x + 4 * of_nat n) mod 4 = 0" using x d by (simp add: word_mod_4 mod_add_eq [symmetric])
  then show ?thesis by (simp add: word_mod_4)
qed

lemma put_bytes_Nil [simp]: "put_bytes d s [] m = m"
  by (simp add: put_bytes_def)

lemma put_bytes_append: "put_bytes d s (ks @ js) m = put_bytes d s js (put_bytes d s ks m)"
  by (simp add: put_bytes_def)

lemma put_bytes_shift:
  "put_bytes d s (map (\<lambda>k. 4 * n + k) ks) m = put_bytes (d + 4 * of_nat n) (s + 4 * of_nat n) ks m"
  by (induction ks arbitrary: m) (simp_all add: put_bytes_def add.assoc)

lemma put_words_up:
  assumes "d mod 4 = 0" "s mod 4 = 0"
  shows "fold (\<lambda>i. put_word (d + 4 * of_nat i) (s + 4 * of_nat i)) [0..<n] m =
    put_bytes d s [0..<4 * n] m"
proof (induction n)
  case (Suc n)
  have "[0..<4 * Suc n] = [0..<4 * n] @ map (\<lambda>k. 4 * n + k) [0, 1, 2, 3]"
    by (simp add: numeral_eq_Suc)
  moreover have "put_word (d + 4 * of_nat n) (s + 4 * of_nat n) m' =
      put_bytes (d + 4 * of_nat n) (s + 4 * of_nat n) [0, 1, 2, 3] m'" for m'
    unfolding put_bytes_def by (rule put_word_up; rule aligned_word, rule assms)
  ultimately show ?case using Suc.IH
    by (simp only: put_bytes_append put_bytes_shift upt_Suc_append [OF le0] fold_append comp_apply
      fold_simps)
qed simp

lemma put_words_down:
  assumes "d mod 4 = 0" "s mod 4 = 0"
  shows "fold (\<lambda>i. put_word (d + 4 * of_nat i) (s + 4 * of_nat i)) (rev [0..<n]) m =
    put_bytes d s (rev [0..<4 * n]) m"
proof (induction n arbitrary: m)
  case (Suc n)
  have "rev [0..<4 * Suc n] = map (\<lambda>k. 4 * n + k) [3, 2, 1, 0] @ rev [0..<4 * n]"
    by (simp add: numeral_eq_Suc)
  moreover have "put_word (d + 4 * of_nat n) (s + 4 * of_nat n) m' =
      put_bytes (d + 4 * of_nat n) (s + 4 * of_nat n) [3, 2, 1, 0] m'" for m'
    unfolding put_bytes_def by (rule put_word_down; rule aligned_word, rule assms)
  moreover have "rev [0..<Suc n] = n # rev [0..<n]" by simp
  ultimately show ?case using Suc.IH
    by (simp only: put_bytes_append put_bytes_shift fold_simps)
qed simp

section \<open>The bytes a copy leaves\<close>

text \<open>Copying the bytes at offsets \<open>lo\<close> to \<open>hi\<close> of a block.\<close>

definition seg :: "u32 \<Rightarrow> u32 \<Rightarrow> nat \<Rightarrow> nat \<Rightarrow> bytes \<Rightarrow> bytes" where
  "seg d s lo hi m = (\<lambda>a. if lo \<le> unat (a - d) \<and> unat (a - d) < hi then m (s + (a - d)) else m a)"

lemma seg_moved: "seg d s 0 (unat len) m = moved d s len m"
  by (simp add: seg_def moved_def word_less_nat_alt)

lemma unat_of_nat_small: "n < 2 ^ 32 \<Longrightarrow> unat (of_nat n :: u32) = n"
  by (simp add: unat_of_nat)

lemma offset_eq: "k < 2 ^ 32 \<Longrightarrow> unat (a - (d :: u32)) = k \<longleftrightarrow> a = d + of_nat k"
proof
  assume k: "k < 2 ^ 32" and "unat (a - d) = k"
  then have "unat (a - d) = unat (of_nat k :: u32)" using unat_of_nat_small by simp
  then have "a - d = of_nat k" by (rule unsigned_word_eqI)
  then show "a = d + of_nat k" by (metis add.commute diff_add_cancel)
qed (simp add: unat_of_nat_small)

lemma put_byte_above:
  assumes "hi < 2 ^ 32" and "unat (s + of_nat hi - d) \<ge> hi \<or> unat (s + of_nat hi - d) < lo" and "lo \<le> hi"
  shows "put_byte (d + of_nat hi) (s + of_nat hi) (seg d s lo hi m) = seg d s lo (Suc hi) m"
proof
  fix a
  show "put_byte (d + of_nat hi) (s + of_nat hi) (seg d s lo hi m) a = seg d s lo (Suc hi) m a"
  proof (cases "a = d + of_nat hi")
    case True
    then show ?thesis using assms unat_of_nat_small [OF assms(1)]
      by (auto simp: put_byte_def seg_def)
  next
    case False
    then have "unat (a - d) \<noteq> hi" using offset_eq [OF assms(1)] by blast
    then show ?thesis using False by (auto simp: put_byte_def seg_def)
  qed
qed

lemma put_byte_below:
  assumes "lo < hi" and "hi \<le> 2 ^ 32" and "unat (s + of_nat lo - d) \<ge> hi \<or> unat (s + of_nat lo - d) \<le> lo"
  shows "put_byte (d + of_nat lo) (s + of_nat lo) (seg d s (Suc lo) hi m) = seg d s lo hi m"
proof
  fix a
  have lo: "lo < 2 ^ 32" using assms(1,2) by linarith
  show "put_byte (d + of_nat lo) (s + of_nat lo) (seg d s (Suc lo) hi m) a = seg d s lo hi m a"
  proof (cases "a = d + of_nat lo")
    case True
    then show ?thesis using assms unat_of_nat_small [OF lo]
      by (auto simp: put_byte_def seg_def)
  next
    case False
    then have "unat (a - d) \<noteq> lo" using offset_eq [OF lo] by blast
    then show ?thesis using False by (auto simp: put_byte_def seg_def)
  qed
qed


lemma unat_diff_le: "(d :: u32) \<le> a \<Longrightarrow> unat (a - d) = unat a - unat d"
  by (simp add: word_le_nat_alt unat_sub)

lemma unat_diff_less: "(a :: u32) < d \<Longrightarrow> unat (a - d) = 2 ^ 32 + unat a - unat d"
  by (simp add: unat_sub_if_size word_less_nat_alt word_size)

text \<open>Forwards copying is right when the destination is not above the source, or the blocks are
  disjoint.\<close>

definition forward_ok :: "u32 \<Rightarrow> u32 \<Rightarrow> nat \<Rightarrow> bool" where
  "forward_ok d s n \<longleftrightarrow> unat s + n \<le> 2 ^ 32 \<and>
     (d \<le> s \<or> unat s + n \<le> unat d \<and> unat d + n \<le> 2 ^ 32)"

lemma forward_ok_distance:
  assumes "forward_ok d s n" and "i < n"
  shows "i \<le> unat (s + of_nat i - d)"
proof -
  have un: "unat (s + of_nat i) = unat s + i"
    by (rule unat_add_small) (use assms in \<open>auto simp: forward_ok_def\<close>)
  show ?thesis
  proof (cases "d \<le> s")
    case True
    then have "d \<le> s + of_nat i" using un by (simp add: word_le_nat_alt)
    then show ?thesis using unat_diff_le [of d "s + of_nat i"] un True by (simp add: word_le_nat_alt)
  next
    case False
    then have d: "unat s + n \<le> unat d" "unat d + n \<le> 2 ^ 32" using assms(1) by (auto simp: forward_ok_def)
    then have "s + of_nat i < d" using un assms(2) by (simp add: word_less_nat_alt)
    then show ?thesis using unat_diff_less [of "s + of_nat i" d] un d assms(2) by linarith
  qed
qed

lemma put_bytes_up:
  assumes "forward_ok d s n" and "k \<le> n"
  shows "put_bytes d s [0..<k] m = seg d s 0 k m"
  using assms(2)
proof (induction k)
  case 0
  then show ?case by (simp add: put_bytes_def seg_def)
next
  case (Suc k)
  have "k < 2 ^ 32" using Suc.prems assms(1) by (auto simp: forward_ok_def)
  moreover have "k \<le> unat (s + of_nat k - d)"
    by (rule forward_ok_distance [OF assms(1)]) (use Suc.prems in simp)
  ultimately have "put_byte (d + of_nat k) (s + of_nat k) (seg d s 0 k m) = seg d s 0 (Suc k) m"
    by (intro put_byte_above) simp_all
  moreover have "put_bytes d s [0..<k] m = seg d s 0 k m" using Suc.IH Suc.prems by simp
  ultimately show ?case by (simp add: put_bytes_append) (simp add: put_bytes_def)
qed

lemma put_bytes_down_from:
  assumes "s \<le> d" and "unat d + n \<le> 2 ^ 32" and "k \<le> n"
  shows "put_bytes d s (rev [0..<k]) (seg d s k n m) = seg d s 0 n m"
  using assms(3)
proof (induction k)
  case (Suc k)
  have us: "unat (s + of_nat k) = unat s + k"
    by (rule unat_add_small) (use assms Suc.prems in \<open>simp add: word_le_nat_alt\<close>)
  have le: "unat s \<le> unat d" using assms(1) by (simp add: word_le_nat_alt)
  have "unat (s + of_nat k - d) \<ge> n \<or> unat (s + of_nat k - d) \<le> k"
  proof (cases "d \<le> s + of_nat k")
    case True
    then show ?thesis using unat_diff_le [OF True] us le by (intro disjI2) simp
  next
    case False
    then have "unat (s + of_nat k - d) = 2 ^ 32 + (unat s + k) - unat d"
      using unat_diff_less [of "s + of_nat k" d] us by simp
    then show ?thesis using assms(2) by (intro disjI1) linarith
  qed
  then have "put_byte (d + of_nat k) (s + of_nat k) (seg d s (Suc k) n m) = seg d s k n m"
    using Suc.prems assms(2) by (intro put_byte_below) simp_all
  then show ?case using Suc.IH Suc.prems by (simp add: put_bytes_def)
qed simp

lemma put_bytes_down:
  assumes "s \<le> d" and "unat d + n \<le> 2 ^ 32"
  shows "put_bytes d s (rev [0..<n]) m = seg d s 0 n m"
proof -
  have "seg d s n n m = m" by (auto simp: seg_def fun_eq_iff)
  then show ?thesis using put_bytes_down_from [OF assms, of n m] by simp
qed


section \<open>The routines\<close>

lemma copy_byte_alt:
  "copy_byte p d s m = (if can_read p s \<and> can_write p d then Inr (put_byte d s m) else Inl m)"
  by (simp add: copy_byte_def put_byte_def)

lemma copy_word_alt:
  "copy_word p d s m =
    (if list_all (\<lambda>k. can_read p (s + k) \<and> can_write p (d + k)) [0, 1, 2, 3]
     then Inr (put_word d s m) else Inl m)"
  by (simp add: copy_word_def put_word_def)

lemma all_below_times_4: "(\<forall>k < 4 * n :: nat. Q k) \<longleftrightarrow> (\<forall>i < n. \<forall>j < 4. Q (4 * i + j))" (is "?l = ?r")
proof
  assume r: ?r
  show ?l
  proof (intro allI impI)
    fix k assume "k < 4 * n"
    then have "k div 4 < n" "k mod 4 < 4" by (auto simp: div_less_iff_less_mult mult.commute)
    then have "Q (4 * (k div 4) + k mod 4)" using r by blast
    then show "Q k" by simp
  qed
qed auto

lemma all_below_4: "(\<forall>j < (4 :: nat). Q j) \<longleftrightarrow> Q 0 \<and> Q 1 \<and> Q 2 \<and> Q 3"
  by (auto simp: numeral_eq_Suc less_Suc_eq)

lemma accessible_nat:
  "(\<forall>k < len. P (a + k)) \<longleftrightarrow> (\<forall>k < unat len. P (a + of_nat k))" for a len :: u32
proof
  assume l: "\<forall>k < len. P (a + k)"
  show "\<forall>k < unat len. P (a + of_nat k)"
  proof (intro allI impI)
    fix k assume k: "k < unat len"
    moreover have "unat len < 2 ^ 32" using unsigned_less [where ?'a = nat and w = len] by simp
    ultimately have "(of_nat k :: u32) < len"
      using unat_of_nat_small [of k] by (simp add: word_less_nat_alt)
    then show "P (a + of_nat k)" using l by blast
  qed
next
  assume r: "\<forall>k < unat len. P (a + of_nat k)"
  show "\<forall>k < len. P (a + k)"
  proof (intro allI impI)
    fix k assume "k < len"
    then have "P (a + of_nat (unat k))" using r by (simp add: word_less_nat_alt del: of_nat_unat)
    then show "P (a + k)" by simp
  qed
qed

lemma words_aligned_simps:
  "words_aligned [a, b] \<longleftrightarrow> a mod 4 = 0 \<and> b mod 4 = 0"
  "words_aligned [a, b, c] \<longleftrightarrow> a mod 4 = 0 \<and> b mod 4 = 0 \<and> c mod 4 = 0"
  by (simp_all add: words_aligned_def)

lemma unat_div_4: "(len :: u32) mod 4 = 0 \<Longrightarrow> 4 * unat (len div 4) = unat len"
  by (simp add: unat_div_distrib word_mod_4 mod_eq_0_iff_dvd)

text \<open>The access check of a loop over words or bytes: every byte of the block.\<close>

lemma words_accessible:
  assumes "len mod 4 = 0"
  shows "(\<forall>i < unat (len div 4). list_all (\<lambda>k. can_read p (src + 4 * of_nat i + k) \<and>
      can_write p (dst + 4 * of_nat i + k)) [0, 1, 2, 3]) \<longleftrightarrow> readable p src len \<and> writable p dst len"
proof -
  have "readable p src len \<and> writable p dst len \<longleftrightarrow>
      (\<forall>k < 4 * unat (len div 4). can_read p (src + of_nat k) \<and> can_write p (dst + of_nat k))"
    unfolding readable_def writable_def accessible_nat unat_div_4 [OF assms] by blast
  then show ?thesis unfolding all_below_times_4 all_below_4 by (simp add: ac_simps) 
qed

lemma bytes_accessible:
  "(\<forall>i < unat len. can_read p (src + of_nat i) \<and> can_write p (dst + of_nat i)) \<longleftrightarrow>
     readable p src len \<and> writable p dst len"
  unfolding readable_def writable_def accessible_nat by blast

lemma words_writable:
  assumes "len mod 4 = 0"
  shows "(\<forall>i < unat (len div 4). list_all (\<lambda>k. can_write p (dst + 4 * of_nat i + k)) [0, 1, 2, 3]) \<longleftrightarrow>
    writable p dst len"
proof -
  have "writable p dst len \<longleftrightarrow> (\<forall>k < 4 * unat (len div 4). can_write p (dst + of_nat k))"
    unfolding writable_def accessible_nat unat_div_4 [OF assms] by blast
  then show ?thesis unfolding all_below_times_4 all_below_4 by (simp add: ac_simps)
qed

lemma list_all_upt: "list_all P [0..<n] \<longleftrightarrow> (\<forall>i < n. P i)"
  by (auto simp: list_all_iff)

lemma list_all_rev_upt: "list_all P (rev [0..<n]) \<longleftrightarrow> (\<forall>i < n. P i)"
  by (auto simp: list_all_iff)

lemma memcpy_moves:
  assumes "forward_ok dst src (unat len)" and "readable p src len" and "writable p dst len"
  shows "memcpy p dst src len m = Inr (moved dst src len m)"
proof (cases "words_aligned [dst, src, len]")
  case True
  then have a: "dst mod 4 = 0" "src mod 4 = 0" "len mod 4 = 0" by (simp_all add: words_aligned_simps)
  have "memcpy p dst src len m = Inr (put_bytes dst src [0..<4 * unat (len div 4)] m)"
    using True assms(2,3) words_accessible [OF a(3), of p src dst]
    unfolding memcpy_def run_each_cases [OF copy_word_alt] list_all_upt put_words_up [OF a(1,2)]
    by simp
  then show ?thesis
    using put_bytes_up [OF assms(1) order_refl] by (simp add: unat_div_4 [OF a(3)] seg_moved)
next
  case False
  have "memcpy p dst src len m = Inr (put_bytes dst src [0..<unat len] m)"
    using False assms(2,3) bytes_accessible [of len p src dst]
    unfolding memcpy_def run_each_cases [OF copy_byte_alt] list_all_upt put_bytes_def
    by simp
  then show ?thesis using put_bytes_up [OF assms(1) order_refl] by (simp add: seg_moved)
qed

text \<open>A fault leaves the bytes outside the destination as they were.\<close>

definition same_outside :: "u32 \<Rightarrow> u32 \<Rightarrow> bytes \<Rightarrow> bytes \<Rightarrow> bool" where
  "same_outside d len m m' \<longleftrightarrow> (\<forall>a. \<not> a - d < len \<longrightarrow> m' a = m a)"

lemma put_bytes_outside:
  assumes "\<forall>k \<in> set ks. k < unat len"
  shows "same_outside d len m (put_bytes d s ks m)"
  using assms
proof (induction ks arbitrary: m)
  case (Cons k ks)
  have n: "unat len < 2 ^ 32" using unsigned_less [where ?'a = nat and w = len] by simp
  have "same_outside d len m (put_byte (d + of_nat k) (s + of_nat k) m)"
    using Cons.prems n unat_of_nat_small [of k]
    by (auto simp: same_outside_def put_byte_def word_less_nat_alt)
  moreover have "same_outside d len (put_byte (d + of_nat k) (s + of_nat k) m)
      (put_bytes d s (k # ks) m)"
    using Cons.IH [of "put_byte (d + of_nat k) (s + of_nat k) m"] Cons.prems
    by (simp add: put_bytes_def)
  ultimately show ?case by (auto simp: same_outside_def)
qed (simp add: same_outside_def)

lemma takeWhile_upt: "\<exists>k \<le> n. takeWhile P [0..<n] = [0..<k]"
proof (induction n)
  case (Suc n)
  then obtain k where k: "k \<le> n" "takeWhile P [0..<n] = [0..<k]" by blast
  show ?case
  proof (cases "\<forall>i < n. P i")
    case True
    then show ?thesis by (intro exI [of _ "if P n then Suc n else n"]) (simp add: takeWhile_append)
  next
    case False
    then have "takeWhile P [0..<Suc n] = takeWhile P [0..<n]" by (auto simp: takeWhile_append)
    then show ?thesis using k by (metis le_SucI)
  qed
qed simp

lemma memcpy_faults:
  assumes "\<not> (readable p src len \<and> writable p dst len)"
  shows "\<exists>m'. memcpy p dst src len m = Inl m' \<and> same_outside dst len m m'"
proof (cases "words_aligned [dst, src, len]")
  case True
  then have a: "dst mod 4 = 0" "src mod 4 = 0" "len mod 4 = 0" by (simp_all add: words_aligned_simps)
  let ?P = "\<lambda>i. list_all (\<lambda>k. can_read p (src + 4 * of_nat i + k) \<and> can_write p (dst + 4 * of_nat i + k)) [0, 1, 2, 3]"
  obtain k where k: "k \<le> unat (len div 4)" "takeWhile ?P [0..<unat (len div 4)] = [0..<k]"
    using takeWhile_upt by blast
  have "memcpy p dst src len m = Inl (put_bytes dst src [0..<4 * k] m)"
    using True assms words_accessible [OF a(3), of p src dst]
    unfolding memcpy_def run_each_cases [OF copy_word_alt] list_all_upt k(2) put_words_up [OF a(1,2)]
    by simp
  moreover have "4 * k \<le> unat len" using k(1) unat_div_4 [OF a(3)] by linarith
  ultimately show ?thesis using put_bytes_outside [of "[0..<4 * k]" len dst m src] by auto
next
  case False
  let ?P = "\<lambda>i. can_read p (src + of_nat i) \<and> can_write p (dst + of_nat i)"
  obtain k where k: "k \<le> unat len" "takeWhile ?P [0..<unat len] = [0..<k]"
    using takeWhile_upt by blast
  have "memcpy p dst src len m = Inl (put_bytes dst src [0..<k] m)"
    using False assms bytes_accessible [of len p src dst]
    unfolding memcpy_def run_each_cases [OF copy_byte_alt] list_all_upt k(2) put_bytes_def
    by simp
  then show ?thesis using k(1) put_bytes_outside [of "[0..<k]" len dst m src] by auto
qed

lemma memmove_block:
  assumes "no_wrap src len" "no_wrap dst len" and "readable p src len" "writable p dst len"
  shows "memmove p dst src len m = Inr (moved dst src len m)"
proof (cases "dst < src")
  case True
  then have "forward_ok dst src (unat len)"
    using assms(1) by (simp add: forward_ok_def no_wrap_def order.strict_implies_order)
  then show ?thesis using True memcpy_moves assms(3,4) by (simp add: memmove_def)
next
  case False
  then have le: "src \<le> dst" by simp
  have n: "unat dst + unat len \<le> 2 ^ 32" using assms(2) by (simp add: no_wrap_def)
  show ?thesis
  proof (cases "words_aligned [dst, src, len]")
    case True
    then have a: "dst mod 4 = 0" "src mod 4 = 0" "len mod 4 = 0" by (simp_all add: words_aligned_simps)
    have "memmove p dst src len m = Inr (put_bytes dst src (rev [0..<4 * unat (len div 4)]) m)"
      using True False assms(3,4) words_accessible [OF a(3), of p src dst]
      unfolding memmove_def run_each_cases [OF copy_word_alt] list_all_rev_upt put_words_down [OF a(1,2)]
      by simp
    then show ?thesis
      using put_bytes_down [OF le n] by (simp add: unat_div_4 [OF a(3)] seg_moved)
  next
    case nal: False
    have "memmove p dst src len m = Inr (put_bytes dst src (rev [0..<unat len]) m)"
      using nal False assms(3,4) bytes_accessible [of len p src dst]
      unfolding memmove_def run_each_cases [OF copy_byte_alt] list_all_rev_upt put_bytes_def
      by simp
    then show ?thesis using put_bytes_down [OF le n] by (simp add: seg_moved)
  qed
qed


text \<open>C22: \<^verbatim>\<open>memmove\<close> moves a block as if all of it were read before any of it is written, whatever
  the overlap of source and destination and whichever of its four loops (by words or bytes, up or
  down) runs.\<close>

theorem memmove_moves:
  assumes "no_wrap src len" "no_wrap dst len" and "readable p src len" "writable p dst len"
  shows "memmove p dst src len m = Inr (moved dst src len m)"
  using assms by (rule memmove_block)

lemma fill_bytes:
  fixes d :: u32
  assumes "n \<le> 2 ^ 32"
  shows "fold (\<lambda>i m. m(d + of_nat i := b)) [0..<n] m = (\<lambda>a. if unat (a - d) < n then b else m a)"
  using assms
proof (induction n)
  case (Suc n)
  then have n: "n < 2 ^ 32" by simp
  have IH: "fold (\<lambda>i m. m(d + of_nat i := b)) [0..<n] m = (\<lambda>a. if unat (a - d) < n then b else m a)"
    by (rule Suc.IH) (use n in simp)
  show ?case
  proof
    fix a
    show "fold (\<lambda>i m. m(d + of_nat i := b)) [0..<Suc n] m a = (if unat (a - d) < Suc n then b else m a)"
      using offset_eq [OF n, of a d] by (simp add: IH less_Suc_eq)
  qed
qed simp

lemma fill_words:
  fixes d :: u32 and m :: bytes
  shows "fold (\<lambda>i m. m(d + 4 * of_nat i := 0, d + 4 * of_nat i + 1 := 0, d + 4 * of_nat i + 2 := 0,
      d + 4 * of_nat i + 3 := 0)) [0..<n] m = fold (\<lambda>i m. m(d + of_nat i := 0)) [0..<4 * n] m"
proof (induction n)
  case (Suc n)
  have "[0..<4 * Suc n] = [0..<4 * n] @ [4 * n, 4 * n + 1, 4 * n + 2, 4 * n + 3]"
    by (simp add: numeral_eq_Suc)
  moreover have "of_nat (4 * n + k) = (4 * of_nat n + of_nat k :: u32)" for k by simp
  ultimately show ?case using Suc.IH by (simp add: ac_simps del: fun_upd_apply)
qed simp

lemma filled_nat:
  "(\<lambda>a. if unat (a - d) < unat len then b else m a) = filled d b len m"
  by (simp add: filled_def word_less_nat_alt)

lemma memset_fills:
  assumes "writable p ptr len"
  shows "memset p ptr ch len m = Inr (filled ptr (ucast ch) len m)"
proof -
  have "list_all (\<lambda>i. can_write p (ptr + of_nat i)) [0..<unat len]"
    using assms unfolding writable_def accessible_nat list_all_upt .
  then show ?thesis
    using fill_bytes [of "unat len" ptr "ucast ch" m] unsigned_less [where ?'a = nat and w = len]
    unfolding memset_def run_each_cases [OF set_byte_def] by (simp add: filled_nat)
qed

lemma bzero_fills:
  assumes "writable p d len"
  shows "bzero p d len m = Inr (filled d 0 len m)"
proof (cases "words_aligned [d, len]")
  case False
  then have "bzero p d len m = memset p d 0 len m" by (simp add: bzero_def memset_def)
  then show ?thesis using memset_fills [OF assms] by simp
next
  case True
  then have a: "len mod 4 = 0" by (simp add: words_aligned_simps)
  have "list_all (\<lambda>i. list_all (\<lambda>k. can_write p (d + 4 * of_nat i + k)) [0, 1, 2, 3])
      [0..<unat (len div 4)]"
    using assms words_writable [OF a] unfolding list_all_upt by blast
  then show ?thesis
    using True fill_words [where d = d and n = "unat (len div 4)"]
      fill_bytes [of "unat len" d 0 m] unsigned_less [where ?'a = nat and w = len]
    unfolding bzero_def run_each_cases [OF set_word_def] by (simp add: filled_nat unat_div_4 [OF a] del: fun_upd_apply)
qed

section \<open>User memory: \<^verbatim>\<open>vm/copyinout.c\<close>\<close>

definition copycheck :: "u32 \<Rightarrow> u32 \<Rightarrow> errno + u32" where
  "copycheck userptr len =
    (let top = userptr + len - 1 in
     if top < userptr then Inl EFAULT
     else if userptr \<ge> USERSPACETOP then Inl EFAULT
     else Inr (if top \<ge> USERSPACETOP then USERSPACETOP - userptr else len))"

text \<open>
  A copy between \<open>tm_badfaultfunc = copyfail\<close> and \<open>tm_badfaultfunc = NULL\<close>: after a fault
  \<^verbatim>\<open>copyfail\<close> jumps back to the \<^verbatim>\<open>setjmp\<close>, which returns a second time, with 1. The result of the
  body is \<open>Inl\<close> at a fault.
\<close>

definition recovering :: "(bytes \<Rightarrow> bytes + 'r \<times> bytes) \<Rightarrow> memory \<Rightarrow> (errno + 'r) \<times> memory" where
  "recovering body m =
    (let m1 = m\<lparr>badfault := True\<rparr> in
     case body (bytes_of m1) of
       Inl b \<Rightarrow> (Inl EFAULT, m1\<lparr>bytes_of := b, badfault := False\<rparr>)
     | Inr (r, b) \<Rightarrow> (Inr r, m1\<lparr>bytes_of := b, badfault := False\<rparr>))"

definition copyin :: "prot \<Rightarrow> u32 \<Rightarrow> u32 \<Rightarrow> u32 \<Rightarrow> memory \<Rightarrow> (errno + unit) \<times> memory" where
  "copyin p usersrc dest len m =
    (case copycheck usersrc len of
       Inl e \<Rightarrow> (Inl e, m)
     | Inr stoplen \<Rightarrow>
         if stoplen \<noteq> len then (Inl EFAULT, m)
         else recovering (\<lambda>b. map_sum id (Pair ()) (memcpy p dest usersrc len b)) m)"

definition copyout :: "prot \<Rightarrow> u32 \<Rightarrow> u32 \<Rightarrow> u32 \<Rightarrow> memory \<Rightarrow> (errno + unit) \<times> memory" where
  "copyout p src userdest len m =
    (case copycheck userdest len of
       Inl e \<Rightarrow> (Inl e, m)
     | Inr stoplen \<Rightarrow>
         if stoplen \<noteq> len then (Inl EFAULT, m)
         else recovering (\<lambda>b. map_sum id (Pair ()) (memcpy p userdest src len b)) m)"

text \<open>The loop of \<^verbatim>\<open>copystr\<close> over the remaining indices; \<open>Some n\<close> is the value for \<^verbatim>\<open>gotlen\<close>.\<close>

primrec copystr_loop :: "prot \<Rightarrow> u32 \<Rightarrow> u32 \<Rightarrow> nat list \<Rightarrow> bytes \<Rightarrow> bytes + nat option \<times> bytes" where
  "copystr_loop p dest src [] m = Inr (None, m)"
| "copystr_loop p dest src (i # is) m =
    (case copy_byte p (dest + of_nat i) (src + of_nat i) m of
       Inl m1 \<Rightarrow> Inl m1
     | Inr m1 \<Rightarrow>
         if m1 (src + of_nat i) = 0 then Inr (Some (i + 1), m1)
         else copystr_loop p dest src is m1)"

definition copystr :: "prot \<Rightarrow> u32 \<Rightarrow> u32 \<Rightarrow> u32 \<Rightarrow> u32 \<Rightarrow> bytes \<Rightarrow>
    bytes + (errno + nat) \<times> bytes" where
  "copystr p dest src maxlen stoplen m =
    (case copystr_loop p dest src [0..<unat (min maxlen stoplen)] m of
       Inl m1 \<Rightarrow> Inl m1
     | Inr (Some n, m1) \<Rightarrow> Inr (Inr n, m1)
     | Inr (None, m1) \<Rightarrow>
         if stoplen < maxlen then Inr (Inl EFAULT, m1) else Inr (Inl ENAMETOOLONG, m1))"

text \<open>The value returned with the pointer argument \<^verbatim>\<open>actual\<close>.\<close>

definition returned :: "(errno + errno + 'r) \<times> memory \<Rightarrow> (errno + 'r) \<times> memory" where
  "returned = map_prod (case_sum Inl id) id"

definition copyinstr :: "prot \<Rightarrow> u32 \<Rightarrow> u32 \<Rightarrow> u32 \<Rightarrow> memory \<Rightarrow> (errno + nat) \<times> memory" where
  "copyinstr p usersrc dest len m =
    (case copycheck usersrc len of
       Inl e \<Rightarrow> (Inl e, m)
     | Inr stoplen \<Rightarrow> returned (recovering (copystr p dest usersrc len stoplen) m))"

definition copyoutstr :: "prot \<Rightarrow> u32 \<Rightarrow> u32 \<Rightarrow> u32 \<Rightarrow> memory \<Rightarrow> (errno + nat) \<times> memory" where
  "copyoutstr p src userdest len m =
    (case copycheck userdest len of
       Inl e \<Rightarrow> (Inl e, m)
     | Inr stoplen \<Rightarrow> returned (recovering (copystr p userdest src len stoplen) m))"

section \<open>What the transfers promise\<close>

definition user_block :: "u32 \<Rightarrow> u32 \<Rightarrow> bool" where
  "user_block a len \<longleftrightarrow> len \<noteq> 0 \<and> unat a + unat len \<le> 2 ^ 31"

definition kernel_block :: "u32 \<Rightarrow> u32 \<Rightarrow> bool" where
  "kernel_block a len \<longleftrightarrow> 2 ^ 31 \<le> unat a \<and> no_wrap a len"

lemma unat_lt [simp]: "unat (w :: u32) < 4294967296"
  using unsigned_less [where ?'a = nat and w = w] by simp

lemma unat_block_top:
  assumes "len \<noteq> 0"
  shows "unat (a + len - 1 :: u32) =
    (if unat a + unat len \<le> 2 ^ 32 then unat a + unat len - 1 else unat a + unat len - 1 - 2 ^ 32)"
proof -
  have p: "0 < unat len" using assms by (simp add: unat_gt_0)
  have e: "a + len - 1 = a + (len - 1)" by simp
  have "unat (len - 1) = unat len - 1" using assms by (rule unat_minus_one)
  then have "unat (a + len - 1) = (unat a + (unat len - 1)) mod 4294967296"
    unfolding e by (simp add: unat_word_ariths)
  moreover have "x mod k = (if x < k then x else x - k)" if "x < 2 * k" for x k :: nat
    using that by (simp add: mod_if)
  moreover have "unat a + (unat len - 1) < 2 * 4294967296"
    using unat_lt [of a] unat_lt [of len] by linarith
  ultimately have "unat (a + len - 1) = (if unat a + (unat len - 1) < 4294967296
      then unat a + (unat len - 1) else unat a + (unat len - 1) - 4294967296)"
    by presburger
  then show ?thesis using p by auto
qed

lemma copycheck_zero: "copycheck a 0 \<noteq> Inr 0"
proof (cases "a = 0")
  case False
  then have "a - 1 < a" using unat_minus_one [of a] by (simp add: word_less_nat_alt unat_gt_0)
  then show ?thesis by (simp add: copycheck_def)
qed (simp add: copycheck_def)

lemma copycheck_whole: "copycheck a len = Inr len \<longleftrightarrow> user_block a len"
proof (cases "len = 0")
  case True
  then show ?thesis using copycheck_zero [of a] by (simp add: user_block_def)
next
  case False
  have p: "0 < unat len" using False by (simp add: unat_gt_0)
  note t = unat_block_top [OF False, of a]
  show ?thesis
  proof (cases "unat a + unat len \<le> 2 ^ 31")
    case True
    have "unat a + unat len - 1 < 2 ^ 31" "\<not> unat a + unat len - 1 < unat a" "unat a < 2 ^ 31"
      using True p by linarith+
    then show ?thesis using True t False
      by (simp add: copycheck_def user_block_def Let_def word_less_nat_alt word_le_nat_alt)
  next
    case nle: False
    have "USERSPACETOP - a \<noteq> len" if "a < USERSPACETOP"
      using nle that unat_sub [of a USERSPACETOP] by (auto simp: word_less_nat_alt word_le_nat_alt)
    moreover have "unat a + unat len - 4294967297 < unat a" if "\<not> unat a + unat len \<le> 4294967296"
      using that unat_lt [of len] by linarith
    ultimately show ?thesis using t p False nle
      by (auto simp: copycheck_def user_block_def Let_def word_less_nat_alt word_le_nat_alt)
  qed
qed


lemma copycheck_fails:
  assumes "copycheck a len \<noteq> Inr len"
  shows "copycheck a len = Inl EFAULT \<or> (\<exists>n. copycheck a len = Inr n \<and> n \<noteq> len)"
  using assms by (auto simp: copycheck_def Let_def split: if_splits)

text \<open>\<^verbatim>\<open>tm_badfaultfunc\<close> is null before and after.\<close>

lemma recovering_alt:
  "\<not> badfault m \<Longrightarrow> recovering body m =
    (case body (bytes_of m) of
       Inl b \<Rightarrow> (Inl EFAULT, m\<lparr>bytes_of := b\<rparr>)
     | Inr (r, b) \<Rightarrow> (Inr r, m\<lparr>bytes_of := b\<rparr>))"
  by (cases m) (simp add: recovering_def Let_def split: sum.split)

lemma transfer_forward:
  "user_block u len \<Longrightarrow> kernel_block k len \<Longrightarrow> forward_ok k u (unat len)"
  "user_block u len \<Longrightarrow> kernel_block k len \<Longrightarrow> forward_ok u k (unat len)"
  by (auto simp: user_block_def kernel_block_def no_wrap_def forward_ok_def word_le_nat_alt)

text \<open>C30: \<^verbatim>\<open>copyin\<close> copies the block exactly when it is not empty, lies below
  \<^verbatim>\<open>USERSPACETOP\<close> and every byte of it can be read; otherwise it returns \<^verbatim>\<open>EFAULT\<close> and has
  written nowhere outside the destination. Either way \<^verbatim>\<open>tm_badfaultfunc\<close> is clear again.\<close>

theorem copyin_checked:
  assumes "kernel_block dest len" and "writable p dest len" and "\<not> badfault m"
  shows "copyin p usersrc dest len m =
      (if user_block usersrc len \<and> readable p usersrc len
       then (Inr (), m\<lparr>bytes_of := moved dest usersrc len (bytes_of m)\<rparr>)
       else (Inl EFAULT, snd (copyin p usersrc dest len m))) \<and>
    same_outside dest len (bytes_of m) (bytes_of (snd (copyin p usersrc dest len m))) \<and>
    \<not> badfault (snd (copyin p usersrc dest len m))"
proof (cases "user_block usersrc len")
  case False
  then show ?thesis using copycheck_fails [of usersrc len] assms(3)
    by (auto simp: copyin_def copycheck_whole same_outside_def)
next
  case u: True
  then have c: "copycheck usersrc len = Inr len" by (simp add: copycheck_whole)
  have f: "forward_ok dest usersrc (unat len)" by (rule transfer_forward [OF u assms(1)])
  show ?thesis
  proof (cases "readable p usersrc len")
    case True
    then show ?thesis using u c assms(3) memcpy_moves [OF f True assms(2)]
      by (simp add: copyin_def recovering_alt same_outside_def moved_def)
  next
    case False
    then obtain b where "memcpy p dest usersrc len (bytes_of m) = Inl b"
      "same_outside dest len (bytes_of m) b"
      using memcpy_faults [of p usersrc len dest] by blast
    then show ?thesis using u c False assms(3) by (simp add: copyin_def recovering_alt)
  qed
qed

lemma copyout_checked:
  assumes "kernel_block src len" and "readable p src len" and "\<not> badfault m"
  shows "copyout p src userdest len m =
      (if user_block userdest len \<and> writable p userdest len
       then (Inr (), m\<lparr>bytes_of := moved userdest src len (bytes_of m)\<rparr>)
       else (Inl EFAULT, snd (copyout p src userdest len m))) \<and>
    same_outside userdest len (bytes_of m) (bytes_of (snd (copyout p src userdest len m))) \<and>
    \<not> badfault (snd (copyout p src userdest len m))"
proof (cases "user_block userdest len")
  case False
  then show ?thesis using copycheck_fails [of userdest len] assms(3)
    by (auto simp: copyout_def copycheck_whole same_outside_def)
next
  case u: True
  then have c: "copycheck userdest len = Inr len" by (simp add: copycheck_whole)
  have f: "forward_ok userdest src (unat len)" by (rule transfer_forward [OF u assms(1)])
  show ?thesis
  proof (cases "writable p userdest len")
    case True
    then show ?thesis using u c assms(3) memcpy_moves [OF f assms(2) True]
      by (simp add: copyout_def recovering_alt same_outside_def moved_def)
  next
    case False
    then obtain b where "memcpy p userdest src len (bytes_of m) = Inl b"
      "same_outside userdest len (bytes_of m) b"
      using memcpy_faults [of p src len userdest] by blast
    then show ?thesis using u c False assms(3) by (simp add: copyout_def recovering_alt)
  qed
qed


text \<open>Strings: the transfer stops at the first null byte within both limits.\<close>

lemma copystr_loop_finds:
  assumes acc: "\<forall>k \<le> n. can_read p (src + of_nat k) \<and> can_write p (dest + of_nat k)"
    and str: "\<forall>k < n. m (src + of_nat k) \<noteq> 0" "m (src + of_nat n) = 0"
    and apart: "\<forall>k \<le> n. n < unat (src + of_nat k - dest)" and n: "n < 2 ^ 32" "n < lim"
  shows "j \<le> n \<Longrightarrow> copystr_loop p dest src [j..<lim] (seg dest src 0 j m) =
    Inr (Some (n + 1), seg dest src 0 (n + 1) m)"
proof (induction rule: inc_induct)
  have step: "copy_byte p (dest + of_nat k) (src + of_nat k) (seg dest src 0 k m) =
      Inr (seg dest src 0 (Suc k) m)" if "k \<le> n" for k
  proof -
    have "k \<le> unat (src + of_nat k - dest)" using apart that by (meson less_imp_le_nat order_trans)
    then have "put_byte (dest + of_nat k) (src + of_nat k) (seg dest src 0 k m) = seg dest src 0 (Suc k) m"
      using that n(1) by (intro put_byte_above) simp_all
    then show ?thesis using acc that by (simp add: copy_byte_alt)
  qed
  have kept: "seg dest src 0 (Suc k) m (src + of_nat k) = m (src + of_nat k)" if "k \<le> n" for k
  proof -
    have "n < unat (src + of_nat k - dest)" using apart that by blast
    then show ?thesis using that by (simp add: seg_def)
  qed
  { case base
    have "[n..<lim] = n # [Suc n..<lim]" using n(2) by (rule upt_conv_Cons)
    then show ?case using step [OF order_refl] kept [OF order_refl] str(2) by simp }
  { case (step k)
    have "[k..<lim] = k # [Suc k..<lim]" using step.hyps n(2) by (intro upt_conv_Cons) simp
    then show ?case using \<open>\<And>k. k \<le> n \<Longrightarrow> copy_byte _ _ _ _ = _\<close> [of k] kept [of k] str(1) step by simp }
qed

text \<open>\<^verbatim>\<open>copyinstr\<close> gives the kernel the string at a user address with its null byte, and its
  length with the null byte, whenever the string is readable, lies below \<^verbatim>\<open>USERSPACETOP\<close> and
  fits; nothing after the null byte is read or written.\<close>

theorem copyinstr_string:
  assumes "\<forall>k \<le> n. can_read p (u + of_nat k) \<and> can_write p (dest + of_nat k)"
    and "\<forall>k < n. bytes_of m (u + of_nat k) \<noteq> 0" and "bytes_of m (u + of_nat n) = 0"
    and "unat u + n < 2 ^ 31" and "n < unat len" and "unat u + unat len \<le> 2 ^ 32"
    and "kernel_block dest len" and "\<not> badfault m"
  shows "copyinstr p u dest len m =
    (Inr (n + 1), m\<lparr>bytes_of := moved dest u (of_nat (n + 1)) (bytes_of m)\<rparr>)"
proof -
  have n: "n < 2 ^ 32" "n + 1 < 2 ^ 32" using assms(4) by simp_all
  have len: "len \<noteq> 0" using assms(5) by auto
  have u: "\<not> u \<ge> USERSPACETOP" using assms(4) by (simp add: word_le_nat_alt)
  have t: "unat (u + len - 1) = unat u + unat len - 1"
    using unat_block_top [OF len, of u] assms(6) by simp
  obtain stop where stop: "copycheck u len = Inr stop" "n < unat stop"
  proof (cases "u + len - 1 \<ge> USERSPACETOP")
    case True
    have "unat (USERSPACETOP - u) = 2 ^ 31 - unat u" using u by (subst unat_sub) (simp_all add: word_le_nat_alt)
    then have "n < unat (USERSPACETOP - u)" using assms(4) by simp
    moreover have "copycheck u len = Inr (USERSPACETOP - u)"
      using True u t assms(5) by (auto simp: copycheck_def Let_def word_less_nat_alt)
    ultimately show thesis by (rule that [rotated])
  next
    case False
    then have "copycheck u len = Inr len"
      using u t assms(5) by (auto simp: copycheck_def Let_def word_less_nat_alt)
    then show thesis using assms(5) by (rule that)
  qed
  have apart: "n < unat (u + of_nat k - dest)" if "k \<le> n" for k
  proof -
    have uk: "unat (u + of_nat k) = unat u + k" by (rule unat_add_small) (use assms(4) that in simp)
    have d: "2 ^ 31 \<le> unat dest" "unat dest + unat len \<le> 2 ^ 32"
      using assms(7) by (simp_all add: kernel_block_def no_wrap_def)
    then have "u + of_nat k < dest" using uk assms(4) that by (simp add: word_less_nat_alt)
    then show ?thesis using unat_diff_less [of "u + of_nat k" dest] uk d assms(5) by linarith
  qed
  have "n < unat (min len stop)" using assms(5) stop(2) by (simp add: min_def)
  then have "copystr_loop p dest u [0..<unat (min len stop)] (seg dest u 0 0 (bytes_of m)) =
      Inr (Some (n + 1), seg dest u 0 (n + 1) (bytes_of m))"
    using copystr_loop_finds [OF assms(1-3) _ n(1)] apart by blast
  moreover have "seg dest u 0 0 b = b" for b by (simp add: seg_def)
  moreover have "seg dest u 0 (n + 1) b = moved dest u (of_nat (n + 1)) b" for b
    using seg_moved [of dest u "of_nat (n + 1)" b] unat_of_nat_small [OF n(2)] by simp
  ultimately show ?thesis using stop(1) assms(8)
    by (simp add: copyinstr_def copystr_def recovering_alt returned_def)
qed

text \<open>A witness: four readable user bytes at 0x1000 and a writable kernel buffer.\<close>

definition sample_prot :: prot where
  "sample_prot = \<lparr>can_read = (\<lambda>a. a < 0x2000 \<or> 0x80000000 \<le> a),
     can_write = (\<lambda>a. a < 0x2000 \<or> 0x80000000 \<le> a)\<rparr>"

definition sample_memory :: memory where
  "sample_memory = \<lparr>bytes_of = (\<lambda>a. ucast a), badfault = False\<rparr>"

lemma less_4: "(k :: u32) < 4 \<Longrightarrow> k = 0 \<or> k = 1 \<or> k = 2 \<or> k = 3"
  by uint_arith

lemma sample_blocks:
  "kernel_block 0x80010000 4" "writable sample_prot 0x80010000 4" "readable sample_prot 0x80010000 4"
  "user_block 0x1002 4" "readable sample_prot 0x1002 4" "writable sample_prot 0x1002 4"
  by (auto simp: kernel_block_def no_wrap_def user_block_def readable_def writable_def sample_prot_def
      dest!: less_4)

theorem copyin_checked_witness:
  "bytes_of (snd (copyin sample_prot 0x1002 0x80010000 4 sample_memory)) 0x80010003 = 5 \<and>
   fst (copyin sample_prot 0x1002 0x80010000 0 sample_memory) = Inl EFAULT"
proof -
  have "\<not> badfault sample_memory" by (simp add: sample_memory_def)
  note c = copyin_checked [OF sample_blocks(1,2) this]
  have "copyin sample_prot 0x1002 0x80010000 4 sample_memory =
      (Inr (), sample_memory\<lparr>bytes_of := moved 0x80010000 0x1002 4 (bytes_of sample_memory)\<rparr>)"
    using c [of "0x1002"] sample_blocks by simp
  moreover have "moved 0x80010000 0x1002 4 (bytes_of sample_memory) 0x80010003 = 5"
    by (simp add: moved_def sample_memory_def)
  moreover have "fst (copyin sample_prot 0x1002 0x80010000 0 sample_memory) = Inl EFAULT"
    by (simp add: copyin_def copycheck_def)
  ultimately show ?thesis by simp
qed


lemma sample_string:
  "\<forall>k \<le> 2. can_read sample_prot (0x10fe + of_nat k) \<and> can_write sample_prot (0x80010000 + of_nat k)"
  "\<forall>k < 2. bytes_of sample_memory (0x10fe + of_nat k) \<noteq> 0"
proof -
  have le: "(\<forall>k \<le> (2 :: nat). P k) \<longleftrightarrow> P 0 \<and> P 1 \<and> P 2" for P
    by (auto simp: numeral_2_eq_2 le_Suc_eq)
  have lt: "(\<forall>k < (2 :: nat). P k) \<longleftrightarrow> P 0 \<and> P 1" for P
    by (auto simp: numeral_2_eq_2 less_Suc_eq)
  show "\<forall>k \<le> 2. can_read sample_prot (0x10fe + of_nat k) \<and> can_write sample_prot (0x80010000 + of_nat k)"
    unfolding le by (simp add: sample_prot_def)
  show "\<forall>k < 2. bytes_of sample_memory (0x10fe + of_nat k) \<noteq> 0"
    unfolding lt by (simp add: sample_memory_def)
qed

theorem copyinstr_string_witness:
  "fst (copyinstr sample_prot 0x10fe 0x80010000 16 sample_memory) = Inr 3"
proof -
  have "copyinstr sample_prot 0x10fe 0x80010000 16 sample_memory =
    (Inr (2 + 1), sample_memory\<lparr>bytes_of := moved 0x80010000 0x10fe (of_nat (2 + 1)) (bytes_of sample_memory)\<rparr>)"
    by (rule copyinstr_string [OF sample_string])
      (simp_all add: sample_memory_def kernel_block_def no_wrap_def)
  then show ?thesis by simp
qed

text \<open>Moving four bytes up by one, by bytes and downwards.\<close>

theorem memmove_moves_witness:
  "memmove sample_prot 0x1003 0x1002 4 (\<lambda>a. ucast a) =
     Inr (moved 0x1003 0x1002 4 (\<lambda>a. ucast a)) \<and>
   moved 0x1003 0x1002 4 (\<lambda>a. ucast a) 0x1006 = 5"
proof -
  have "no_wrap 0x1002 4" "no_wrap 0x1003 4" by (simp_all add: no_wrap_def)
  moreover have "writable sample_prot 0x1003 4"
    by (auto simp: writable_def sample_prot_def dest!: less_4)
  ultimately show ?thesis using memmove_moves sample_blocks(5) by (simp add: moved_def)
qed

end
