(* ===== verification/Uio.thy ===== *)
theory Uio
  imports Memory
begin

text \<open>
  Transfers described by a \<^verbatim>\<open>struct uio\<close>: \<^verbatim>\<open>kern/lib/uio.c\<close>.

  \<^verbatim>\<open>uio_iov\<close> points into an array of \<^verbatim>\<open>iovec\<close>s; here it is the list of the entries from that
  pointer to the end of the array, and running past the end is \<open>None\<close>, as is a \<^verbatim>\<open>panic\<close>. The kernel
  buffer is an address; \<open>curas\<close> is what \<^verbatim>\<open>proc_getas\<close> returns. The enumerations have no value
  outside their constants, so the panics on such values have no counterpart.
\<close>

record iovec =
  iov_base :: u32
  iov_len :: u32

datatype uio_rw = UIO_READ | UIO_WRITE

datatype uio_seg = UIO_USERISPACE | UIO_USERSPACE | UIO_SYSSPACE

record uio =
  uio_iov :: "iovec list"
  uio_iovcnt :: u32
  uio_offset :: "64 word"
  uio_resid :: u32
  uio_segflg :: uio_seg
  uio_rw :: uio_rw
  uio_space :: "nat option"

section \<open>The operations\<close>

definition uio_kinit :: "u32 \<Rightarrow> u32 \<Rightarrow> 64 word \<Rightarrow> uio_rw \<Rightarrow> uio" where
  "uio_kinit kbuf len pos rw =
    \<lparr>uio_iov = [\<lparr>iov_base = kbuf, iov_len = len\<rparr>], uio_iovcnt = 1, uio_offset = pos,
     uio_resid = len, uio_segflg = UIO_SYSSPACE, uio_rw = rw, uio_space = None\<rparr>"

definition uio_uinit :: "nat option \<Rightarrow> u32 \<Rightarrow> u32 \<Rightarrow> 64 word \<Rightarrow> uio_rw \<Rightarrow> uio" where
  "uio_uinit curas buf len offset rw =
    \<lparr>uio_iov = [\<lparr>iov_base = buf, iov_len = len\<rparr>], uio_iovcnt = 1, uio_offset = offset,
     uio_resid = len, uio_segflg = UIO_USERSPACE, uio_rw = rw, uio_space = curas\<rparr>"

text \<open>The transfer of one block, by the kind of pointer. A fault in kernel space panics.\<close>

definition uio_block :: "prot \<Rightarrow> uio_seg \<Rightarrow> uio_rw \<Rightarrow> u32 \<Rightarrow> u32 \<Rightarrow> u32 \<Rightarrow> memory \<Rightarrow>
    ((errno + unit) \<times> memory) option" where
  "uio_block p sg rw base ptr sz m =
    (case sg of
       UIO_SYSSPACE \<Rightarrow>
         (case if rw = UIO_READ then memmove p base ptr sz (bytes_of m)
               else memmove p ptr base sz (bytes_of m) of
            Inl b \<Rightarrow> None
          | Inr b \<Rightarrow> Some (Inr (), m\<lparr>bytes_of := b\<rparr>))
     | _ \<Rightarrow>
         Some (if rw = UIO_READ then copyout p ptr base sz m else copyin p base ptr sz m))"

function uiomove_loop :: "prot \<Rightarrow> u32 \<Rightarrow> u32 \<Rightarrow> uio \<Rightarrow> memory \<Rightarrow>
    ((errno + unit) \<times> uio \<times> memory) option" where
  "uiomove_loop p ptr n u m =
    (if 0 < n \<and> 0 < uio_resid u then
       (case uio_iov u of
          [] \<Rightarrow> None
        | iov # rest \<Rightarrow>
            let sz = min (iov_len iov) n in
            if sz = 0 then
              let u1 = u\<lparr>uio_iov := rest, uio_iovcnt := uio_iovcnt u - 1\<rparr> in
              if uio_iovcnt u1 = 0 then None else uiomove_loop p ptr n u1 m
            else
              (case uio_block p (uio_segflg u) (uio_rw u) (iov_base iov) ptr sz m of
                 None \<Rightarrow> None
               | Some (Inl e, m1) \<Rightarrow> Some (Inl e, u, m1)
               | Some (Inr _, m1) \<Rightarrow>
                   uiomove_loop p (ptr + sz) (n - sz)
                     (u\<lparr>uio_iov := iov\<lparr>iov_base := iov_base iov + sz, iov_len := iov_len iov - sz\<rparr> # rest,
                        uio_resid := uio_resid u - sz,
                        uio_offset := uio_offset u + ucast sz\<rparr>) m1))
     else Some (Inr (), u, m))"
  by pat_completeness auto
termination
proof (relation "measure (\<lambda>(p, ptr, n, u, m). unat n + length (uio_iov u))", goal_cases)
  case (3 p ptr n u m iov rest sz x a m1 b)
  then have "0 < unat sz" "sz \<le> n" by (simp_all add: unat_gt_0)
  then show ?case using 3(2) by (simp add: unat_sub word_le_nat_alt)
qed simp_all

declare uiomove_loop.simps [simp del]

definition uiomove :: "prot \<Rightarrow> nat option \<Rightarrow> u32 \<Rightarrow> u32 \<Rightarrow> uio \<Rightarrow> memory \<Rightarrow>
    ((errno + unit) \<times> uio \<times> memory) option" where
  "uiomove p curas ptr n u m = do {
     kassert (if uio_segflg u = UIO_SYSSPACE then uio_space u = None else uio_space u = curas);
     uiomove_loop p ptr n u m
   }"

text \<open>\<open>zeros\<close> is the address of the static array of sixteen zeros.\<close>

function uiomovezeros_loop :: "prot \<Rightarrow> nat option \<Rightarrow> u32 \<Rightarrow> u32 \<Rightarrow> uio \<Rightarrow> memory \<Rightarrow>
    ((errno + unit) \<times> uio \<times> memory) option" where
  "uiomovezeros_loop p curas zeros n u m =
    (if 0 < n then
       let amt = min 16 n in
       case uiomove p curas zeros amt u m of
         None \<Rightarrow> None
       | Some (Inl e, u1, m1) \<Rightarrow> Some (Inl e, u1, m1)
       | Some (Inr _, u1, m1) \<Rightarrow> uiomovezeros_loop p curas zeros (n - amt) u1 m1
     else Some (Inr (), u, m))"
  by pat_completeness auto
termination
proof (relation "measure (\<lambda>(p, curas, zeros, n, u, m). unat n)", goal_cases)
  case 2
  then show ?case by (auto simp: unat_sub min_def word_le_nat_alt word_less_nat_alt)
qed simp

declare uiomovezeros_loop.simps [simp del]

definition uiomovezeros :: "prot \<Rightarrow> nat option \<Rightarrow> u32 \<Rightarrow> u32 \<Rightarrow> uio \<Rightarrow> memory \<Rightarrow>
    ((errno + unit) \<times> uio \<times> memory) option" where
  "uiomovezeros p curas zeros n u m = do {
     kassert (uio_rw u = UIO_READ);
     uiomovezeros_loop p curas zeros n u m
   }"


section \<open>What a transfer promises\<close>

text \<open>A \<^verbatim>\<open>uio\<close> set up as the header asks: the residue is the total of the buffers.\<close>

definition uio_total :: "iovec list \<Rightarrow> nat" where
  "uio_total iovs = (\<Sum>v\<leftarrow>iovs. unat (iov_len v))"

definition uio_ok :: "uio \<Rightarrow> bool" where
  "uio_ok u \<longleftrightarrow> unat (uio_resid u) = uio_total (uio_iov u) \<and>
     unat (uio_iovcnt u) = length (uio_iov u)"

lemma uio_init_ok [simp]:
  "uio_ok (uio_kinit b len pos rw)" "uio_ok (uio_uinit as b len pos rw)"
  by (simp_all add: uio_kinit_def uio_uinit_def uio_ok_def uio_total_def)

text \<open>The bookkeeping of a transfer that moves \<open>k\<close> bytes.\<close>

definition advanced :: "uio \<Rightarrow> u32 \<Rightarrow> uio \<Rightarrow> bool" where
  "advanced u k u' \<longleftrightarrow> uio_ok u' \<and> k \<le> uio_resid u \<and> uio_resid u' = uio_resid u - k \<and>
     uio_offset u' = uio_offset u + ucast k \<and> uio_segflg u' = uio_segflg u \<and>
     uio_rw u' = uio_rw u \<and> uio_space u' = uio_space u"

lemma advanced_refl: "uio_ok u \<Longrightarrow> advanced u 0 u"
  by (simp add: advanced_def)

lemma ucast_add_small:
  "unat (a :: u32) + unat (b :: u32) < 2 ^ 32 \<Longrightarrow> (ucast (a + b) :: 64 word) = ucast a + ucast b"
proof -
  assume "unat a + unat b < 2 ^ 32"
  then have "unat (a + b) = unat a + unat b" by (simp add: unat_word_ariths)
  then have "(of_nat (unat (a + b)) :: 64 word) = of_nat (unat a) + of_nat (unat b)"
    by (simp only: of_nat_add)
  then show ?thesis by (simp only: of_nat_unat)
qed

lemma advanced_trans:
  assumes "advanced u a u1" and "advanced u1 b u2"
  shows "advanced u (a + b) u2" "unat (a + b) = unat a + unat b"
proof -
  have "unat a \<le> unat (uio_resid u)" "unat b \<le> unat (uio_resid u - a)"
    using assms by (simp_all add: advanced_def word_le_nat_alt)
  moreover have "unat (uio_resid u - a) = unat (uio_resid u) - unat a"
    using assms(1) by (simp add: advanced_def unat_sub word_le_nat_alt)
  ultimately have le: "unat a + unat b \<le> unat (uio_resid u)" by linarith
  then have small: "unat a + unat b < 2 ^ 32" using unat_lt [of "uio_resid u"] by (simp add: le_less_trans)
  then show s: "unat (a + b) = unat a + unat b" by (simp add: unat_word_ariths)
  have "a + b \<le> uio_resid u" using le s by (simp add: word_le_nat_alt)
  then show "advanced u (a + b) u2"
    using assms ucast_add_small [OF small] by (simp add: advanced_def algebra_simps)
qed

lemma advanced_block:
  assumes "uio_ok u" and "uio_iov u = iov # rest" and "k \<le> iov_len iov"
  shows "advanced u k (u\<lparr>uio_iov := iov\<lparr>iov_base := iov_base iov + k, iov_len := iov_len iov - k\<rparr> # rest,
    uio_resid := uio_resid u - k, uio_offset := uio_offset u + ucast k\<rparr>)"
proof -
  have "unat (iov_len iov - k) = unat (iov_len iov) - unat k" "unat k \<le> unat (iov_len iov)"
    using assms(3) by (simp_all add: unat_sub word_le_nat_alt)
  moreover have "unat (uio_resid u) = unat (iov_len iov) + uio_total rest"
    using assms(1,2) by (simp add: uio_ok_def uio_total_def)
  moreover have "k \<le> uio_resid u" using calculation by (simp add: word_le_nat_alt)
  ultimately show ?thesis using assms(1,2)
    by (simp add: advanced_def uio_ok_def uio_total_def unat_sub word_le_nat_alt)
qed

text \<open>Skipping an empty buffer cannot run out of buffers: the residue is in the others.\<close>

lemma skip_empty:
  assumes "uio_ok u" and "uio_iov u = iov # rest" and "iov_len iov = 0" and "0 < uio_resid u"
  shows "uio_iovcnt u - 1 \<noteq> 0"
    "uio_ok (u\<lparr>uio_iov := rest, uio_iovcnt := uio_iovcnt u - 1\<rparr>)"
proof -
  have t: "unat (uio_resid u) = uio_total rest" and c: "unat (uio_iovcnt u) = Suc (length rest)"
    using assms by (simp_all add: uio_ok_def uio_total_def)
  have "rest \<noteq> []" using t assms(4) by (auto simp: uio_total_def word_less_nat_alt)
  have "uio_iovcnt u \<noteq> 0" using c by auto
  then have c': "unat (uio_iovcnt u - 1) = length rest" using c unat_minus_one by fastforce
  then show "uio_iovcnt u - 1 \<noteq> 0" using \<open>rest \<noteq> []\<close> by (auto simp: unat_eq_zero)
  show "uio_ok (u\<lparr>uio_iov := rest, uio_iovcnt := uio_iovcnt u - 1\<rparr>)"
    using t c' by (simp add: uio_ok_def)
qed

text \<open>For user pointers every block comes back, with \<^verbatim>\<open>EFAULT\<close> at worst.\<close>

lemma copy_errors:
  "fst (copyin p u d n m) = Inl e \<Longrightarrow> e = EFAULT"
  "fst (copyout p d u n m) = Inl e \<Longrightarrow> e = EFAULT"
  by (auto simp: copyin_def copyout_def copycheck_def recovering_def Let_def
      split: sum.splits if_splits)

lemma user_block_returns:
  assumes "sg \<noteq> UIO_SYSSPACE"
  shows "\<exists>r m'. uio_block p sg rw base ptr n m = Some (r, m') \<and> (\<forall>e. r = Inl e \<longrightarrow> e = EFAULT)"
proof -
  have "\<exists>r m'. x = (r, m') \<and> (\<forall>e. r = Inl e \<longrightarrow> e = EFAULT)" if "\<And>e. fst x = Inl e \<Longrightarrow> e = EFAULT"
    for x :: "(errno + unit) \<times> memory"
    using that by (cases x) auto
  then show ?thesis using assms copy_errors by (cases sg) (auto simp: uio_block_def)
qed


lemma add_le_of_le_diff:
  fixes a k n :: u32
  assumes "a \<le> n" "k \<le> n - a" "unat (a + k) = unat a + unat k"
  shows "a + k \<le> n"
  using assms by (simp add: word_le_nat_alt unat_sub)

lemma add_min_diff:
  fixes a x y :: u32
  assumes "a \<le> x" "a \<le> y"
  shows "a + min (x - a) (y - a) = min x y"
proof -
  have "x - a \<le> y - a \<longleftrightarrow> x \<le> y"
    using assms by (simp add: word_le_nat_alt unat_sub le_diff_iff)
  then show ?thesis by (simp add: min_def)
qed

lemma uiomove_loop_user:
  assumes "uio_ok u" and "uio_segflg u \<noteq> UIO_SYSSPACE"
  shows "\<exists>r u' m' k. uiomove_loop p ptr n u m = Some (r, u', m') \<and> advanced u k u' \<and>
    k \<le> n \<and> (r = Inr () \<longrightarrow> k = min n (uio_resid u)) \<and> (\<forall>e. r = Inl e \<longrightarrow> e = EFAULT)"
  using assms
proof (induction p ptr n u m rule: uiomove_loop.induct)
  case (1 p ptr n u m)
  note step = uiomove_loop.simps [of p ptr n u m]
  show ?case
  proof (cases "0 < n \<and> 0 < uio_resid u")
    case False
    then have "n = 0 \<or> uio_resid u = 0" by (auto simp: word_less_nat_alt unat_eq_zero)
    then have "min n (uio_resid u) = 0" by (auto simp: min_def)
    moreover have "uiomove_loop p ptr n u m = Some (Inr (), u, m)" using False step by auto
    ultimately show ?thesis using advanced_refl [OF "1.prems"(1)] by (intro exI conjI) auto
  next
    case go: True
    then obtain iov rest where iov: "uio_iov u = iov # rest"
      using "1.prems"(1) by (cases "uio_iov u") (auto simp: uio_ok_def uio_total_def word_less_nat_alt)
    let ?k = "min (iov_len iov) n"
    show ?thesis
    proof (cases "?k = 0")
      case True
      then have z: "iov_len iov = 0" using go by (auto simp: min_def split: if_splits)
      let ?u1 = "u\<lparr>uio_iov := rest, uio_iovcnt := uio_iovcnt u - 1\<rparr>"
      note sk = skip_empty [OF "1.prems"(1) iov z]
      have "uiomove_loop p ptr n u m = uiomove_loop p ptr n ?u1 m"
        using step go iov True sk(1) by simp
      moreover have "\<exists>r u' m' k. uiomove_loop p ptr n ?u1 m = Some (r, u', m') \<and> advanced ?u1 k u' \<and>
          k \<le> n \<and> (r = Inr () \<longrightarrow> k = min n (uio_resid ?u1)) \<and> (\<forall>e. r = Inl e \<longrightarrow> e = EFAULT)"
        by (rule "1.IH"(1) [OF go iov refl True refl]) (use sk go "1.prems"(2) in simp_all)
      ultimately show ?thesis by (simp add: advanced_def)
    next
      case nz: False
      obtain r m1 where r: "uio_block p (uio_segflg u) (uio_rw u) (iov_base iov) ptr ?k m = Some (r, m1)"
        "\<forall>e. r = Inl e \<longrightarrow> e = EFAULT"
        using user_block_returns [OF "1.prems"(2)] by blast
      show ?thesis
      proof (cases r)
        case (Inl e)
        then have "uiomove_loop p ptr n u m = Some (Inl e, u, m1)"
          using step go iov nz r(1) by (simp add: Let_def)
        then show ?thesis using Inl r(2) advanced_refl [OF "1.prems"(1)] by (intro exI conjI) auto
      next
        case (Inr x)
        let ?u1 = "u\<lparr>uio_iov := iov\<lparr>iov_base := iov_base iov + ?k, iov_len := iov_len iov - ?k\<rparr> # rest,
          uio_resid := uio_resid u - ?k, uio_offset := uio_offset u + ucast ?k\<rparr>"
        have eq: "uiomove_loop p ptr n u m = uiomove_loop p (ptr + ?k) (n - ?k) ?u1 m1"
          using step go iov nz r(1) Inr by (simp add: Let_def)
        have adv: "advanced u ?k ?u1" by (rule advanced_block [OF "1.prems"(1) iov]) simp
        obtain r' u' m' k where m: "uiomove_loop p (ptr + ?k) (n - ?k) ?u1 m1 = Some (r', u', m')"
          "advanced ?u1 k u'" "k \<le> n - ?k" "r' = Inr () \<longrightarrow> k = min (n - ?k) (uio_resid ?u1)"
          "\<forall>e. r' = Inl e \<longrightarrow> e = EFAULT"
          using "1.IH"(2) [OF go iov refl nz r(1) refl Inr] adv "1.prems"(2) by (auto simp: advanced_def)
        have kn: "?k \<le> n" and kr: "?k \<le> uio_resid u" using adv by (simp_all add: advanced_def)
        note t = advanced_trans [OF adv m(2)]
        have "?k + k \<le> n" by (rule add_le_of_le_diff [OF kn m(3) t(2)])
        moreover have "r' = Inr () \<longrightarrow> ?k + k = min n (uio_resid u)"
          using m(4) add_min_diff [OF kn kr] by simp
        ultimately show ?thesis using eq m(1,5) t(1) by (intro exI [of _ r'] exI [of _ u'] exI [of _ m'] exI [of _ "?k + k"]) simp
      qed
    qed
  qed
qed


lemma uiomove_user:
  assumes "uio_ok u" and "uio_segflg u \<noteq> UIO_SYSSPACE" and "uio_space u = curas"
  shows "\<exists>r u' m' k. uiomove p curas ptr n u m = Some (r, u', m') \<and> advanced u k u' \<and> k \<le> n \<and>
    (r = Inr () \<longrightarrow> k = min n (uio_resid u)) \<and> (\<forall>e. r = Inl e \<longrightarrow> e = EFAULT)"
  using uiomove_loop_user [OF assms(1,2)] assms(2,3) by (simp add: uiomove_def)


lemma uiomove_loop_stop:
  "\<not> (0 < n \<and> 0 < uio_resid u) \<Longrightarrow> uiomove_loop p ptr n u m = Some (Inr (), u, m)"
  unfolding uiomove_loop.simps [of p ptr n u m] by (rule if_not_P)

text \<open>Through one kernel buffer the bytes arrive as \<^verbatim>\<open>memmove\<close> moves them.\<close>

lemma uiomove_kernel:
  assumes "uio_iov u = [iov]" and "uio_segflg u = UIO_SYSSPACE" and "uio_space u = None"
    and "k = min n (iov_len iov)" and "uio_resid u = iov_len iov" and "0 < k"
    and "d = (if uio_rw u = UIO_READ then iov_base iov else ptr)"
    and "s = (if uio_rw u = UIO_READ then ptr else iov_base iov)"
    and "no_wrap s k" "no_wrap d k" "readable p s k" "writable p d k"
  shows "uiomove p curas ptr n u m = Some (Inr (),
    u\<lparr>uio_iov := [iov\<lparr>iov_base := iov_base iov + k, iov_len := iov_len iov - k\<rparr>],
      uio_resid := uio_resid u - k, uio_offset := uio_offset u + ucast k\<rparr>,
    m\<lparr>bytes_of := moved d s k (bytes_of m)\<rparr>)"
proof -
  have mv: "memmove p d s k (bytes_of m) = Inr (moved d s k (bytes_of m))"
    by (rule memmove_block) (fact assms)+
  have blk: "uio_block p UIO_SYSSPACE (uio_rw u) (iov_base iov) ptr k m =
      Some (Inr (), m\<lparr>bytes_of := moved d s k (bytes_of m)\<rparr>)"
    using mv assms(7,8) by (cases "uio_rw u") (simp_all add: uio_block_def)
  have go: "0 < n" "0 < uio_resid u" "min (iov_len iov) n = k" "k \<noteq> 0"
  proof -
    show kz: "k \<noteq> 0" using assms(6) by auto
    show "min (iov_len iov) n = k" using assms(4) by (simp add: min.commute)
    then show "0 < n" "0 < uio_resid u" using kz assms(5) by (auto simp: min_def word_neq_0_conv split: if_splits)
  qed
  have stop: "\<not> (0 < n - k \<and> 0 < uio_resid u - k)"
    using assms(4,5) by (auto simp: min_def split: if_splits)
  have "uiomove_loop p ptr n u m = uiomove_loop p (ptr + k) (n - k)
      (u\<lparr>uio_iov := [iov\<lparr>iov_base := iov_base iov + k, iov_len := iov_len iov - k\<rparr>],
         uio_resid := uio_resid u - k, uio_offset := uio_offset u + ucast k\<rparr>)
      (m\<lparr>bytes_of := moved d s k (bytes_of m)\<rparr>)"
    using uiomove_loop.simps [of p ptr n u m] assms(1,2) go blk by simp
  also have "\<dots> = Some (Inr (),
      u\<lparr>uio_iov := [iov\<lparr>iov_base := iov_base iov + k, iov_len := iov_len iov - k\<rparr>],
         uio_resid := uio_resid u - k, uio_offset := uio_offset u + ucast k\<rparr>,
      m\<lparr>bytes_of := moved d s k (bytes_of m)\<rparr>)"
    by (rule uiomove_loop_stop) (use stop in simp)
  finally show ?thesis using assms(2,3) by (simp add: uiomove_def)
qed

lemma uiomovezeros_loop_user:
  assumes "uio_ok u" and "uio_segflg u \<noteq> UIO_SYSSPACE" and "uio_space u = curas"
  shows "\<exists>r u' m' k. uiomovezeros_loop p curas zeros n u m = Some (r, u', m') \<and> advanced u k u' \<and>
    k \<le> n \<and> (r = Inr () \<longrightarrow> k = min n (uio_resid u)) \<and> (\<forall>e. r = Inl e \<longrightarrow> e = EFAULT)"
  using assms
proof (induction p curas zeros n u m rule: uiomovezeros_loop.induct)
  case (1 p curas zeros n u m)
  note step = uiomovezeros_loop.simps [of p curas zeros n u m]
  let ?a = "min 16 n"
  obtain r u1 m1 k where r: "uiomove p curas zeros ?a u m = Some (r, u1, m1)" "advanced u k u1"
    "k \<le> ?a" "r = Inr () \<longrightarrow> k = min ?a (uio_resid u)" "\<forall>e. r = Inl e \<longrightarrow> e = EFAULT"
    using uiomove_user [OF "1.prems"] by blast
  show ?case
  proof (cases "0 < n")
    case False
    then have "n = 0" by (auto simp: word_less_nat_alt unat_eq_zero)
    then show ?thesis using step advanced_refl [OF "1.prems"(1)] by (intro exI conjI) auto
  next
    case pos: True
    show ?thesis
    proof (cases r)
      case (Inl e)
      then have "uiomovezeros_loop p curas zeros n u m = Some (Inl e, u1, m1)"
        using step pos r(1) by (simp add: Let_def)
      then show ?thesis using Inl r by (intro exI conjI) auto
    next
      case (Inr x)
      have eq: "uiomovezeros_loop p curas zeros n u m = uiomovezeros_loop p curas zeros (n - ?a) u1 m1"
        using step pos r(1) Inr by (simp add: Let_def)
      obtain r' u' m' j where m: "uiomovezeros_loop p curas zeros (n - ?a) u1 m1 = Some (r', u', m')"
        "advanced u1 j u'" "j \<le> n - ?a" "r' = Inr () \<longrightarrow> j = min (n - ?a) (uio_resid u1)"
        "\<forall>e. r' = Inl e \<longrightarrow> e = EFAULT"
        using "1.IH" [OF pos refl r(1) refl Inr refl] r(2) "1.prems"
        by (simp add: advanced_def) blast
      note t = advanced_trans [OF r(2) m(2)]
      have "k + j \<le> n"
      proof -
        have "unat k \<le> unat ?a" "unat j \<le> unat (n - ?a)" using r(3) m(3) by (simp_all only: word_le_nat_alt)
        moreover have "unat (n - ?a) = unat n - unat ?a" "unat ?a \<le> unat n"
          by (simp_all add: unat_sub word_le_nat_alt [symmetric])
        ultimately show ?thesis using t(2) unfolding word_le_nat_alt by linarith
      qed
      moreover have "k + j = min n (uio_resid u)" if "r' = Inr ()"
      proof (cases "?a \<le> uio_resid u")
        case True
        then have k: "k = ?a" using r(4) Inr by (simp add: min_absorb1)
        then have "j = min (n - ?a) (uio_resid u - ?a)" using m(4) that r(2) by (simp add: advanced_def)
        then show ?thesis using k add_min_diff [OF _ True, of n] by simp
      next
        case False
        then have k: "k = uio_resid u" using r(4) Inr by (metis linorder_le_cases min_absorb2 old.unit.exhaust)
        then have "uio_resid u1 = 0" using r(2) by (simp add: advanced_def)
        then have "j = 0" using m(4) that by (simp add: min_def)
        moreover have "uio_resid u \<le> n" using False by (meson linear min.coboundedI2 order_trans min.cobounded2)
        ultimately show ?thesis using k by (simp add: min_absorb2)
      qed
      ultimately show ?thesis using eq m(1,5) t(1)
        by (intro exI [of _ r'] exI [of _ u'] exI [of _ m'] exI [of _ "k + j"]) simp
    qed
  qed
qed


lemma uiomovezeros_accounts:
  assumes "uio_ok u" "uio_segflg u \<noteq> UIO_SYSSPACE" "uio_space u = curas" "uio_rw u = UIO_READ"
  shows "\<exists>r u' m' k. uiomovezeros p curas zeros n u m = Some (r, u', m') \<and> advanced u k u' \<and>
    k \<le> n \<and> (r = Inr () \<longrightarrow> k = min n (uio_resid u)) \<and> (\<forall>e. r = Inl e \<longrightarrow> e = EFAULT)"
  using uiomovezeros_loop_user [OF assms(1-3)] assms(4) by (simp add: uiomovezeros_def)

text \<open>A witness with three buffers, the first of them empty.\<close>

definition sample_uio :: uio where
  "sample_uio = \<lparr>uio_iov = [\<lparr>iov_base = 0x1000, iov_len = 0\<rparr>, \<lparr>iov_base = 0x1100, iov_len = 3\<rparr>,
       \<lparr>iov_base = 0x1200, iov_len = 5\<rparr>],
     uio_iovcnt = 3, uio_offset = 100, uio_resid = 8, uio_segflg = UIO_USERSPACE,
     uio_rw = UIO_READ, uio_space = Some 1\<rparr>"

lemma sample_uio_ok: "uio_ok sample_uio"
  by (simp add: sample_uio_def uio_ok_def uio_total_def)


end
