(* ===== verification/Ops.thy ===== *)
theory Ops
  imports OS_Prelude
begin

text \<open>
  Operations that change a state and return an error code: the shape of most functions above the
  thread system. An operation on states \<open>'s\<close> gives \<open>None\<close> when the kernel stops, and otherwise
  \<open>Inl e\<close> for the error \<open>e\<close> or \<open>Inr x\<close> for the result \<open>x\<close>, with the state it leaves: after an
  error the state has changed as far as the code had got.

  \<open>wp f Q s\<close> says that \<open>f\<close> run in \<open>s\<close> does not stop the kernel and ends as \<open>Q\<close> wants; the collection
  \<open>wp_simps\<close> computes it over the combinators.
\<close>

type_synonym ('s, 'a) op = "'s \<Rightarrow> ((errno + 'a) \<times> 's) option"

definition succeed :: "'a \<Rightarrow> ('s, 'a) op" where
  "succeed x = (\<lambda>s. Some (Inr x, s))"

definition fail :: "errno \<Rightarrow> ('s, 'a) op" where
  "fail e = (\<lambda>s. Some (Inl e, s))"

definition panic :: "('s, 'a) op" where
  "panic = (\<lambda>s. None)"

definition gets :: "('s \<Rightarrow> 'a) \<Rightarrow> ('s, 'a) op" where
  "gets f = (\<lambda>s. Some (Inr (f s), s))"

definition modify :: "('s \<Rightarrow> 's) \<Rightarrow> ('s, unit) op" where
  "modify f = (\<lambda>s. Some (Inr (), f s))"

definition ensure :: "('s \<Rightarrow> bool) \<Rightarrow> ('s, unit) op" where
  "ensure P = (\<lambda>s. if P s then Some (Inr (), s) else None)"

text \<open>Continue with the result, error or not.\<close>

definition handle :: "('s, 'a) op \<Rightarrow> (errno + 'a \<Rightarrow> ('s, 'b) op) \<Rightarrow> ('s, 'b) op" where
  "handle f g = (\<lambda>s. case f s of None \<Rightarrow> None | Some (r, s1) \<Rightarrow> g r s1)"

text \<open>Continue after success; \<^verbatim>\<open>if (result) return result;\<close> otherwise.\<close>

definition chain :: "('s, 'a) op \<Rightarrow> ('a \<Rightarrow> ('s, 'b) op) \<Rightarrow> ('s, 'b) op" where
  "chain f g = handle f (case_sum fail g)"

text \<open>Return a result already at hand.\<close>

definition give :: "errno + 'a \<Rightarrow> ('s, 'a) op" where
  "give r = (\<lambda>s. Some (r, s))"

definition wp :: "('s, 'a) op \<Rightarrow> (errno + 'a \<Rightarrow> 's \<Rightarrow> bool) \<Rightarrow> 's \<Rightarrow> bool" where
  "wp f Q s \<longleftrightarrow> (\<exists>r s'. f s = Some (r, s') \<and> Q r s')"

named_theorems wp_simps \<open>weakest preconditions of the combinators\<close>

lemma wp_succeed [wp_simps]: "wp (succeed x) Q s \<longleftrightarrow> Q (Inr x) s"
  by (simp add: wp_def succeed_def)

lemma wp_fail [wp_simps]: "wp (fail e) Q s \<longleftrightarrow> Q (Inl e) s"
  by (simp add: wp_def fail_def)

lemma wp_give [wp_simps]: "wp (give r) Q s \<longleftrightarrow> Q r s"
  by (simp add: wp_def give_def)

lemma wp_panic [wp_simps]: "wp panic Q s \<longleftrightarrow> False"
  by (simp add: wp_def panic_def)

lemma wp_gets [wp_simps]: "wp (gets f) Q s \<longleftrightarrow> Q (Inr (f s)) s"
  by (simp add: wp_def gets_def)

lemma wp_modify [wp_simps]: "wp (modify f) Q s \<longleftrightarrow> Q (Inr ()) (f s)"
  by (simp add: wp_def modify_def)

lemma wp_ensure [wp_simps]: "wp (ensure P) Q s \<longleftrightarrow> P s \<and> Q (Inr ()) s"
  by (simp add: wp_def ensure_def)

lemma wp_handle [wp_simps]: "wp (handle f g) Q s \<longleftrightarrow> wp f (\<lambda>r. wp (g r) Q) s"
  by (auto simp: wp_def handle_def split: option.splits)

lemma wp_chain [wp_simps]:
  "wp (chain f g) Q s \<longleftrightarrow> wp f (\<lambda>r. case r of Inl e \<Rightarrow> Q (Inl e) | Inr x \<Rightarrow> wp (g x) Q) s"
proof (cases "f s")
  case None
  then show ?thesis by (simp add: chain_def handle_def wp_def)
next
  case (Some rs)
  then show ?thesis
    by (cases rs; cases "fst rs") (auto simp: chain_def handle_def wp_def fail_def)
qed

lemma wp_if [wp_simps]: "wp (if b then f else g) Q s \<longleftrightarrow> (if b then wp f Q s else wp g Q s)"
  by simp

lemma handle_assoc: "handle (handle f g) h = handle f (\<lambda>r. handle (g r) h)"
  by (auto simp: handle_def fun_eq_iff split: option.split)

lemma chain_Inr: "f s = Some (Inr x, s1) \<Longrightarrow> chain f g s = g x s1"
  by (simp add: chain_def handle_def)

lemma chain_Inl: "f s = Some (Inl e, s1) \<Longrightarrow> chain f g s = Some (Inl e, s1)"
  by (simp add: chain_def handle_def fail_def)

lemma handle_at: "f s = Some (r, s1) \<Longrightarrow> handle f g s = g r s1"
  by (simp add: handle_def)

lemma wp_mono: "wp f Q s \<Longrightarrow> (\<And>r s'. Q r s' \<Longrightarrow> R r s') \<Longrightarrow> wp f R s"
  by (auto simp: wp_def)

lemma wp_chainI:
  assumes "wp f R s" and "\<And>e s1. R (Inl e) s1 \<Longrightarrow> Q (Inl e) s1"
    and "\<And>x s1. R (Inr x) s1 \<Longrightarrow> wp (g x) Q s1"
  shows "wp (chain f g) Q s"
  unfolding wp_chain by (rule wp_mono [OF assms(1)]) (auto split: sum.split intro: assms(2,3))

lemma wp_handleI:
  assumes "wp f R s" and "\<And>r s1. R r s1 \<Longrightarrow> wp (g r) Q s1"
  shows "wp (handle f g) Q s"
  unfolding wp_handle by (rule wp_mono [OF assms])

lemma wp_conj: "wp f Q s \<Longrightarrow> wp f R s \<Longrightarrow> wp f (\<lambda>r s'. Q r s' \<and> R r s') s"
  by (auto simp: wp_def)

lemma wpD: "wp f Q s \<Longrightarrow> \<exists>r s'. f s = Some (r, s') \<and> Q r s'"
  by (simp add: wp_def)

lemma wp_use: "f s = Some (r, s') \<Longrightarrow> wp f Q s \<longleftrightarrow> Q r s'"
  by (simp add: wp_def)

end
