(* ===== verification/Vfs.thy ===== *)
theory Vfs
  imports Uio Ops
begin

text \<open>
  The virtual file system layer: \<^verbatim>\<open>kern/vfs/vnode.c\<close>, \<^verbatim>\<open>vfslist.c\<close>, \<^verbatim>\<open>vfslookup.c\<close>,
  \<^verbatim>\<open>vfscwd.c\<close> and \<^verbatim>\<open>vfspath.c\<close>.

  A vnode and a \<^verbatim>\<open>struct fs\<close> are addresses. The functions that a file system or device puts in
  \<^verbatim>\<open>vn_ops\<close> and \<^verbatim>\<open>fs_ops\<close> are function pointers in the code; here they are the fields of the
  record \<open>fsops\<close>, which every definition below takes as its argument \<open>F\<close>, dispatching on the vnode.
  \<open>'f\<close> is their private state. A path is a list of characters without its null byte, and allocations
  that can fail take a boolean from the caller.

  \<open>vn_isdev\<close> says that \<^verbatim>\<open>vn_ops\<close> points to the table of \<^verbatim>\<open>device.c\<close>; \<open>vn_data\<close> is then the device.

  The big lock is recursive: \<open>biglock\<close> says that the running thread holds it, with its depth.
\<close>

section \<open>State\<close>

record vnode =
  vn_refcount :: int
  vn_fs :: "nat option"
  vn_isdev :: bool
  vn_data :: "nat option"

record knowndev =
  kd_name :: string
  kd_rawname :: "string option"
  kd_device :: "nat option"
  kd_vnode :: nat
  kd_fs :: "nat option"

record 'f vfs =
  vnodes :: "nat \<Rightarrow> vnode option"
  knowndevs :: "knowndev list"
  biglock :: bool
  biglock_depth :: nat
  bootfs_vnode :: "nat option"
  p_cwd :: "nat option"
  d_devnumber :: "nat \<Rightarrow> nat option"
  user :: memory
  fsdata :: 'f

record 'f fsops =
  vop_eachopen :: "nat \<Rightarrow> u32 \<Rightarrow> ('f vfs, unit) op"
  vop_reclaim :: "nat \<Rightarrow> ('f vfs, unit) op"
  vop_read :: "nat \<Rightarrow> uio \<Rightarrow> ('f vfs, uio) op"
  vop_readlink :: "nat \<Rightarrow> uio \<Rightarrow> ('f vfs, uio) op"
  vop_write :: "nat \<Rightarrow> uio \<Rightarrow> ('f vfs, uio) op"
  vop_stat :: "nat \<Rightarrow> ('f vfs, 64 word) op"
  vop_gettype :: "nat \<Rightarrow> ('f vfs, u32) op"
  vop_isseekable :: "nat \<Rightarrow> 'f vfs \<Rightarrow> bool"
  vop_truncate :: "nat \<Rightarrow> 64 word \<Rightarrow> ('f vfs, unit) op"
  vop_namefile :: "nat \<Rightarrow> uio \<Rightarrow> ('f vfs, uio) op"
  vop_creat :: "nat \<Rightarrow> string \<Rightarrow> bool \<Rightarrow> u32 \<Rightarrow> ('f vfs, nat) op"
  vop_symlink :: "nat \<Rightarrow> string \<Rightarrow> string \<Rightarrow> ('f vfs, unit) op"
  vop_mkdir :: "nat \<Rightarrow> string \<Rightarrow> u32 \<Rightarrow> ('f vfs, unit) op"
  vop_link :: "nat \<Rightarrow> string \<Rightarrow> nat \<Rightarrow> ('f vfs, unit) op"
  vop_remove :: "nat \<Rightarrow> string \<Rightarrow> ('f vfs, unit) op"
  vop_rmdir :: "nat \<Rightarrow> string \<Rightarrow> ('f vfs, unit) op"
  vop_rename :: "nat \<Rightarrow> string \<Rightarrow> nat \<Rightarrow> string \<Rightarrow> ('f vfs, unit) op"
  vop_lookup :: "nat \<Rightarrow> string \<Rightarrow> ('f vfs, nat) op"
  vop_lookparent :: "nat \<Rightarrow> string \<Rightarrow> nat \<Rightarrow> ('f vfs, nat \<times> string) op"
  fsop_sync :: "nat \<Rightarrow> ('f vfs, unit) op"
  fsop_unmount :: "nat \<Rightarrow> ('f vfs, unit) op"
  fsop_getvolname :: "nat \<Rightarrow> 'f vfs \<Rightarrow> string option"
  fsop_getroot :: "nat \<Rightarrow> ('f vfs, nat) op"

section \<open>Vnodes: \<^verbatim>\<open>vfs/vnode.c\<close>\<close>

definition upd_vnode :: "nat \<Rightarrow> (vnode \<Rightarrow> vnode) \<Rightarrow> 'f vfs \<Rightarrow> 'f vfs" where
  "upd_vnode v f s = s\<lparr>vnodes := (vnodes s)(v := map_option f (vnodes s v))\<rparr>"

definition refcount :: "'f vfs \<Rightarrow> nat \<Rightarrow> int" where
  "refcount s v = (case vnodes s v of None \<Rightarrow> 0 | Some x \<Rightarrow> vn_refcount x)"

definition vnode_init :: "nat \<Rightarrow> nat option \<Rightarrow> bool \<Rightarrow> nat option \<Rightarrow> ('f vfs, unit) op" where
  "vnode_init v fs isdev data = modify (\<lambda>s. s\<lparr>vnodes := (vnodes s)
     (v \<mapsto> \<lparr>vn_refcount = 1, vn_fs = fs, vn_isdev = isdev, vn_data = data\<rparr>)\<rparr>)"

definition vnode_cleanup :: "nat \<Rightarrow> ('f vfs, unit) op" where
  "vnode_cleanup v = chain (ensure (\<lambda>s. refcount s v = 1)) (\<lambda>_.
     modify (upd_vnode v (\<lambda>x. x\<lparr>vn_refcount := 0, vn_fs := None, vn_isdev := False, vn_data := None\<rparr>)))"

definition vnode_incref :: "nat \<Rightarrow> ('f vfs, unit) op" where
  "vnode_incref v = chain (ensure (\<lambda>s. vnodes s v \<noteq> None)) (\<lambda>_.
     modify (upd_vnode v (\<lambda>x. x\<lparr>vn_refcount := vn_refcount x + 1\<rparr>)))"

text \<open>\<^verbatim>\<open>vnode_check\<close>, run before every \<^verbatim>\<open>VOP\<close>: it panics on a vnode that is not there or has no
  references. It takes and releases the big lock.\<close>

definition vnode_check :: "nat \<Rightarrow> ('f vfs, unit) op" where
  "vnode_check v = ensure (\<lambda>s. vnodes s v \<noteq> None \<and> 0 < refcount s v)"

definition vop :: "nat \<Rightarrow> ('f vfs, 'a) op \<Rightarrow> ('f vfs, 'a) op" where
  "vop v call = chain (vnode_check v) (\<lambda>_. call)"

text \<open>The last reference goes to \<^verbatim>\<open>VOP_RECLAIM\<close>, whose error is only printed.\<close>

definition vnode_decref :: "'f fsops \<Rightarrow> nat \<Rightarrow> ('f vfs, unit) op" where
  "vnode_decref F v =
     chain (ensure (\<lambda>s. vnodes s v \<noteq> None \<and> 0 < refcount s v)) (\<lambda>_.
     chain (gets (\<lambda>s. refcount s v > 1)) (\<lambda>more.
     if more then modify (upd_vnode v (\<lambda>x. x\<lparr>vn_refcount := vn_refcount x - 1\<rparr>))
     else handle (vop v (vop_reclaim F v)) (\<lambda>_. succeed ())))"

text \<open>Dropping a reference and going on with a result already computed.\<close>

definition release_vnode :: "'f fsops \<Rightarrow> nat \<Rightarrow> errno + 'a \<Rightarrow> ('f vfs, 'a) op" where
  "release_vnode F v r = chain (vnode_decref F v) (\<lambda>_. give r)"

section \<open>The big lock and the device list: \<^verbatim>\<open>vfs/vfslist.c\<close>\<close>

definition vfs_biglock_acquire :: "('f vfs, unit) op" where
  "vfs_biglock_acquire = modify (\<lambda>s. s\<lparr>biglock := True, biglock_depth := biglock_depth s + 1\<rparr>)"

definition vfs_biglock_release :: "('f vfs, unit) op" where
  "vfs_biglock_release =
     chain (ensure (\<lambda>s. biglock s \<and> 0 < biglock_depth s)) (\<lambda>_.
     modify (\<lambda>s. s\<lparr>biglock := (biglock_depth s \<noteq> 1), biglock_depth := biglock_depth s - 1\<rparr>))"

definition vfs_biglock_do_i_hold :: "'f vfs \<Rightarrow> bool" where
  "vfs_biglock_do_i_hold s = biglock s"

text \<open>The body of a function between taking and releasing the big lock.\<close>

definition locked :: "('f vfs, 'a) op \<Rightarrow> ('f vfs, 'a) op" where
  "locked body = chain vfs_biglock_acquire (\<lambda>_.
     handle body (\<lambda>r. chain vfs_biglock_release (\<lambda>_. give r)))"

primrec sync_all :: "'f fsops \<Rightarrow> knowndev list \<Rightarrow> ('f vfs, unit) op" where
  "sync_all F [] = succeed ()"
| "sync_all F (dev # devs) =
     (case kd_fs dev of
        None \<Rightarrow> sync_all F devs
      | Some fs \<Rightarrow> handle (fsop_sync F fs) (\<lambda>_. sync_all F devs))"

definition vfs_sync :: "'f fsops \<Rightarrow> ('f vfs, unit) op" where
  "vfs_sync F = locked (chain (gets knowndevs) (sync_all F))"

text \<open>The loop of \<^verbatim>\<open>vfs_getroot\<close> over the devices.\<close>

definition give_vnode :: "knowndev \<Rightarrow> ('f vfs, nat) op" where
  "give_vnode kd = chain (ensure (\<lambda>s. kd_device kd \<noteq> None)) (\<lambda>_.
     chain (vnode_incref (kd_vnode kd)) (\<lambda>_. succeed (kd_vnode kd)))"

primrec getroot_loop :: "'f fsops \<Rightarrow> string \<Rightarrow> knowndev list \<Rightarrow> ('f vfs, nat) op" where
  "getroot_loop F devname [] = fail ENODEV"
| "getroot_loop F devname (kd # kds) =
     chain (gets (\<lambda>s. case kd_fs kd of None \<Rightarrow> None | Some fs \<Rightarrow> fsop_getvolname F fs s)) (\<lambda>volname.
     if kd_fs kd \<noteq> None \<and> (kd_name kd = devname \<or> volname = Some devname)
     then fsop_getroot F (the (kd_fs kd))
     else if kd_fs kd = None \<and> kd_rawname kd \<noteq> None \<and> kd_name kd = devname then fail ENXIO
     else if kd_name kd = devname
     then chain (ensure (\<lambda>s. kd_fs kd = None \<and> kd_rawname kd = None)) (\<lambda>_. give_vnode kd)
     else if kd_rawname kd = Some devname then give_vnode kd
     else getroot_loop F devname kds)"

definition vfs_getroot :: "'f fsops \<Rightarrow> string \<Rightarrow> ('f vfs, nat) op" where
  "vfs_getroot F devname = chain (ensure vfs_biglock_do_i_hold) (\<lambda>_.
     chain (gets knowndevs) (getroot_loop F devname))"

definition vfs_getdevname :: "nat \<Rightarrow> ('f vfs, string option) op" where
  "vfs_getdevname fs = chain (ensure vfs_biglock_do_i_hold) (\<lambda>_.
     gets (\<lambda>s. map_option kd_name (List.find (\<lambda>kd. kd_fs kd = Some fs) (knowndevs s))))"

definition mkrawname :: "bool \<Rightarrow> string \<Rightarrow> string option" where
  "mkrawname mem name = (if mem then Some (name @ ''raw'') else None)"

definition samestring :: "string option \<Rightarrow> string option \<Rightarrow> bool" where
  "samestring a b \<longleftrightarrow> a \<noteq> None \<and> b \<noteq> None \<and> a = b"

definition samestring3 :: "string option \<Rightarrow> string option \<Rightarrow> string option \<Rightarrow> string option \<Rightarrow> bool" where
  "samestring3 a b c d \<longleftrightarrow> samestring a b \<or> samestring a c \<or> samestring a d"

primrec badnames_loop :: "'f fsops \<Rightarrow> 'f vfs \<Rightarrow> string option \<Rightarrow> string option \<Rightarrow> string option \<Rightarrow>
    knowndev list \<Rightarrow> bool" where
  "badnames_loop F s n1 n2 n3 [] = False"
| "badnames_loop F s n1 n2 n3 (kd # kds) =
     (if kd_fs kd \<noteq> None \<and> samestring3 (fsop_getvolname F (the (kd_fs kd)) s) n1 n2 n3 then True
      else if samestring3 (kd_rawname kd) n1 n2 n3 \<or> samestring3 (Some (kd_name kd)) n1 n2 n3 then True
      else badnames_loop F s n1 n2 n3 kds)"

definition badnames :: "'f fsops \<Rightarrow> string option \<Rightarrow> string option \<Rightarrow> string option \<Rightarrow> ('f vfs, bool) op" where
  "badnames F n1 n2 n3 = chain (ensure vfs_biglock_do_i_hold) (\<lambda>_.
     gets (\<lambda>s. badnames_loop F s n1 n2 n3 (knowndevs s)))"


text \<open>\<^verbatim>\<open>dev_create_vnode\<close> of \<^verbatim>\<open>vfs/device.c\<close>, after its allocation.\<close>

definition dev_create_vnode :: "nat \<Rightarrow> nat option \<Rightarrow> ('f vfs, unit) op" where
  "dev_create_vnode v dev = vnode_init v None True dev"

text \<open>
  \<^verbatim>\<open>vfs_doadd\<close>. The five allocations are the booleans; \<open>new\<close> is the address that
  \<^verbatim>\<open>dev_create_vnode\<close> gets for the device's vnode. When a name is taken the new objects stay
  allocated, as in the code.
\<close>

definition vfs_doadd :: "'f fsops \<Rightarrow> bool list \<Rightarrow> nat \<Rightarrow> string \<Rightarrow> bool \<Rightarrow> nat option \<Rightarrow> nat option \<Rightarrow>
    ('f vfs, unit) op" where
  "vfs_doadd F mem new dname mountable dev fs = locked (
     let name = dname; rawname = (if mountable then mkrawname (mem ! 1) name else None) in
     if \<not> mem ! 0 then fail ENOMEM
     else if mountable \<and> rawname = None then fail ENOMEM
     else if \<not> mem ! 2 then fail ENOMEM
     else chain (dev_create_vnode new dev) (\<lambda>_.
       if \<not> mem ! 3 then chain (modify (\<lambda>s. s\<lparr>vnodes := (vnodes s)(new := None)\<rparr>)) (\<lambda>_. fail ENOMEM)
       else
         let kd = \<lparr>kd_name = name, kd_rawname = rawname, kd_device = dev, kd_vnode = new, kd_fs = fs\<rparr> in
         chain (gets (\<lambda>s. case fs of None \<Rightarrow> None | Some x \<Rightarrow> fsop_getvolname F x s)) (\<lambda>volname.
         chain (badnames F (Some name) rawname volname) (\<lambda>bad.
         if bad then fail EEXIST
         else if \<not> mem ! 4 then fail ENOMEM
         else chain (gets (\<lambda>s. length (knowndevs s))) (\<lambda>index.
           chain (modify (\<lambda>s. s\<lparr>knowndevs := knowndevs s @ [kd]\<rparr>)) (\<lambda>_.
           modify (\<lambda>s. case dev of None \<Rightarrow> s
             | Some d \<Rightarrow> s\<lparr>d_devnumber := (d_devnumber s)(d \<mapsto> index + 1)\<rparr>)))))))"

definition vfs_adddev :: "'f fsops \<Rightarrow> bool list \<Rightarrow> nat \<Rightarrow> string \<Rightarrow> nat \<Rightarrow> bool \<Rightarrow> ('f vfs, unit) op" where
  "vfs_adddev F mem new devname dev mountable = vfs_doadd F mem new devname mountable (Some dev) None"

definition vfs_addfs :: "'f fsops \<Rightarrow> bool list \<Rightarrow> nat \<Rightarrow> string \<Rightarrow> nat \<Rightarrow> ('f vfs, unit) op" where
  "vfs_addfs F mem new devname fs = vfs_doadd F mem new devname False None (Some fs)"

text \<open>\<open>findmount\<close> gives the index of the device in the array.\<close>

definition findmount :: "string \<Rightarrow> ('f vfs, nat) op" where
  "findmount devname = chain (ensure vfs_biglock_do_i_hold) (\<lambda>_.
     chain (gets (\<lambda>s. find_from (\<lambda>i. kd_rawname (knowndevs s ! i) \<noteq> None \<and>
         devname = kd_name (knowndevs s ! i)) 0 (length (knowndevs s)))) (\<lambda>found.
     case found of None \<Rightarrow> fail ENODEV | Some i \<Rightarrow> succeed i))"

definition set_kd_fs :: "nat \<Rightarrow> nat option \<Rightarrow> 'f vfs \<Rightarrow> 'f vfs" where
  "set_kd_fs i fs s = s\<lparr>knowndevs := (knowndevs s)[i := (knowndevs s ! i)\<lparr>kd_fs := fs\<rparr>]\<rparr>"

definition vfs_mount :: "string \<Rightarrow> (nat \<Rightarrow> ('f vfs, nat) op) \<Rightarrow> ('f vfs, unit) op" where
  "vfs_mount devname mountfunc = locked (
     chain (findmount devname) (\<lambda>i.
     chain (gets (\<lambda>s. knowndevs s ! i)) (\<lambda>kd.
     if kd_fs kd \<noteq> None then fail EBUSY
     else chain (ensure (\<lambda>s. kd_rawname kd \<noteq> None \<and> kd_device kd \<noteq> None)) (\<lambda>_.
       chain (mountfunc (the (kd_device kd))) (\<lambda>fs.
       modify (set_kd_fs i (Some fs)))))))"

definition vfs_unmount :: "'f fsops \<Rightarrow> string \<Rightarrow> ('f vfs, unit) op" where
  "vfs_unmount F devname = locked (
     chain (findmount devname) (\<lambda>i.
     chain (gets (\<lambda>s. knowndevs s ! i)) (\<lambda>kd.
     case kd_fs kd of
       None \<Rightarrow> fail EINVAL
     | Some fs \<Rightarrow>
         chain (ensure (\<lambda>s. kd_rawname kd \<noteq> None \<and> kd_device kd \<noteq> None)) (\<lambda>_.
         chain (fsop_sync F fs) (\<lambda>_.
         chain (fsop_unmount F fs) (\<lambda>_.
         modify (set_kd_fs i None)))))))"

primrec unmount_each :: "'f fsops \<Rightarrow> nat list \<Rightarrow> ('f vfs, unit) op" where
  "unmount_each F [] = succeed ()"
| "unmount_each F (i # is) =
     chain (gets (\<lambda>s. knowndevs s ! i)) (\<lambda>dev.
     case kd_fs dev of
       None \<Rightarrow> unmount_each F is
     | Some fs \<Rightarrow>
         if kd_rawname dev = None then unmount_each F is
         else handle (handle (fsop_sync F fs) (\<lambda>r. case r of Inl _ \<Rightarrow> fsop_sync F fs | Inr _ \<Rightarrow> succeed ()))
           (\<lambda>r. case r of
              Inl _ \<Rightarrow> unmount_each F is
            | Inr _ \<Rightarrow> handle (fsop_unmount F fs) (\<lambda>r. case r of
                Inl _ \<Rightarrow> unmount_each F is
              | Inr _ \<Rightarrow> chain (modify (set_kd_fs i None)) (\<lambda>_. unmount_each F is))))"

definition vfs_unmountall :: "'f fsops \<Rightarrow> ('f vfs, unit) op" where
  "vfs_unmountall F = locked (chain (gets (\<lambda>s. [0..<length (knowndevs s)])) (unmount_each F))"

section \<open>The current directory: \<^verbatim>\<open>vfs/vfscwd.c\<close>\<close>

definition vfs_getcurdir :: "('f vfs, nat) op" where
  "vfs_getcurdir = chain (gets p_cwd) (\<lambda>cwd.
     case cwd of
       None \<Rightarrow> fail ENOENT
     | Some v \<Rightarrow> chain (vnode_incref v) (\<lambda>_. succeed v))"

abbreviation (input) S_IFDIR :: u32 where "S_IFDIR \<equiv> 0x2000"

definition drop_old :: "'f fsops \<Rightarrow> nat option \<Rightarrow> ('f vfs, unit) op" where
  "drop_old F old = (case old of None \<Rightarrow> succeed () | Some v \<Rightarrow> vnode_decref F v)"

definition vfs_setcurdir :: "'f fsops \<Rightarrow> nat \<Rightarrow> ('f vfs, unit) op" where
  "vfs_setcurdir F dir =
     chain (vop dir (vop_gettype F dir)) (\<lambda>vtype.
     if vtype \<noteq> S_IFDIR then fail ENOTDIR
     else chain (vnode_incref dir) (\<lambda>_.
       chain (gets p_cwd) (\<lambda>old.
       chain (modify (\<lambda>s. s\<lparr>p_cwd := Some dir\<rparr>)) (\<lambda>_.
       drop_old F old))))"

definition vfs_clearcurdir :: "'f fsops \<Rightarrow> ('f vfs, unit) op" where
  "vfs_clearcurdir F =
     chain (gets p_cwd) (\<lambda>old.
     chain (modify (\<lambda>s. s\<lparr>p_cwd := None\<rparr>)) (\<lambda>_. drop_old F old))"

section \<open>Names to vnodes: \<^verbatim>\<open>vfs/vfslookup.c\<close>\<close>

text \<open>The scan for the first colon or slash: which one, and where.\<close>

definition first_colon_slash :: "string \<Rightarrow> (nat \<times> char) option" where
  "first_colon_slash path =
     map_option (\<lambda>i. (i, path ! i))
       (find_from (\<lambda>i. path ! i = CHR '':'' \<or> path ! i = CHR ''/'') 0 (length path))"

definition skip_slashes :: "string \<Rightarrow> string" where
  "skip_slashes = dropWhile (\<lambda>c. c = CHR ''/'')"

definition getdevice :: "'f fsops \<Rightarrow> string \<Rightarrow> ('f vfs, string \<times> nat) op" where
  "getdevice F path = chain (ensure vfs_biglock_do_i_hold) (\<lambda>_.
     case first_colon_slash path of
       None \<Rightarrow> chain vfs_getcurdir (\<lambda>v. succeed (path, v))
     | Some (i, c) \<Rightarrow>
         if c = CHR ''/'' \<and> i \<noteq> 0 then chain vfs_getcurdir (\<lambda>v. succeed (path, v))
         else if c = CHR '':'' \<and> 0 < i then
           chain (vfs_getroot F (take i path)) (\<lambda>v. succeed (skip_slashes (drop (i + 1) path), v))
         else if c = CHR ''/'' then
           chain (gets bootfs_vnode) (\<lambda>b. case b of
             None \<Rightarrow> fail ENOENT
           | Some v \<Rightarrow> chain (vnode_incref v) (\<lambda>_. succeed (skip_slashes (drop 1 path), v)))
         else
           chain vfs_getcurdir (\<lambda>vn.
           chain (gets (\<lambda>s. case vnodes s vn of None \<Rightarrow> None | Some x \<Rightarrow> vn_fs x)) (\<lambda>fs.
           case fs of
             None \<Rightarrow> panic
           | Some f \<Rightarrow>
               chain (handle (fsop_getroot F f) (release_vnode F vn)) (\<lambda>start.
               succeed (skip_slashes (drop 1 path), start)))))"

definition vfs_lookparent :: "'f fsops \<Rightarrow> string \<Rightarrow> nat \<Rightarrow> ('f vfs, nat \<times> string) op" where
  "vfs_lookparent F path buflen = locked (
     chain (getdevice F path) (\<lambda>(subpath, start).
     handle (if subpath = [] then fail EINVAL
             else vop start (vop_lookparent F start subpath buflen))
       (release_vnode F start)))"

definition vfs_lookup :: "'f fsops \<Rightarrow> string \<Rightarrow> ('f vfs, nat) op" where
  "vfs_lookup F path = locked (
     chain (getdevice F path) (\<lambda>(subpath, start).
     if subpath = [] then succeed start
     else handle (vop start (vop_lookup F start subpath)) (release_vnode F start)))"

definition vfs_chdir :: "'f fsops \<Rightarrow> string \<Rightarrow> ('f vfs, unit) op" where
  "vfs_chdir F path = chain (vfs_lookup F path) (\<lambda>vn.
     handle (vfs_setcurdir F vn) (release_vnode F vn))"

definition change_bootfs :: "'f fsops \<Rightarrow> nat option \<Rightarrow> ('f vfs, unit) op" where
  "change_bootfs F newvn =
     chain (gets bootfs_vnode) (\<lambda>oldvn.
     chain (modify (\<lambda>s. s\<lparr>bootfs_vnode := newvn\<rparr>)) (\<lambda>_. drop_old F oldvn))"

text \<open>
  \<^verbatim>\<open>vfs_setbootfs\<close> on its 256-byte buffer: \<^verbatim>\<open>snprintf\<close> keeps 254 characters. \<^verbatim>\<open>s\<close> points at the
  colon itself, so \<^verbatim>\<open>strlen(s)\<close> counts it.
\<close>

definition vfs_setbootfs :: "'f fsops \<Rightarrow> string \<Rightarrow> ('f vfs, unit) op" where
  "vfs_setbootfs F fsname = locked (
     let tmp = take 254 fsname; s = dropWhile (\<lambda>c. c \<noteq> CHR '':'') tmp in
     if s \<noteq> [] \<and> 0 < length s then fail EINVAL
     else
       let tmp = (if s = [] then tmp @ '':'' else tmp) in
       chain (vfs_chdir F tmp) (\<lambda>_.
       chain vfs_getcurdir (\<lambda>newguy.
       change_bootfs F (Some newguy))))"

definition vfs_clearbootfs :: "'f fsops \<Rightarrow> ('f vfs, unit) op" where
  "vfs_clearbootfs F = locked (change_bootfs F None)"


text \<open>
  \<^verbatim>\<open>vfs_getcwd\<close>: \<open>kaddr\<close> gives the kernel address at which a name is stored.
\<close>

definition vfs_uiomove :: "prot \<Rightarrow> nat option \<Rightarrow> u32 \<Rightarrow> nat \<Rightarrow> uio \<Rightarrow> ('f vfs, uio) op" where
  "vfs_uiomove p curas ptr n u = (\<lambda>s.
     case uiomove p curas ptr (of_nat n) u (user s) of
       None \<Rightarrow> None
     | Some (r, u1, m) \<Rightarrow> Some (map_sum id (\<lambda>_. u1) r, s\<lparr>user := m\<rparr>))"

definition vfs_getcwd :: "'f fsops \<Rightarrow> prot \<Rightarrow> nat option \<Rightarrow> (string \<Rightarrow> u32) \<Rightarrow> uio \<Rightarrow> ('f vfs, uio) op" where
  "vfs_getcwd F p curas kaddr u =
     chain (ensure (\<lambda>_. uio_rw u = UIO_READ)) (\<lambda>_.
     chain vfs_getcurdir (\<lambda>cwd.
     chain (gets (\<lambda>s. case vnodes s cwd of None \<Rightarrow> None | Some x \<Rightarrow> vn_fs x)) (\<lambda>fs.
     case fs of
       None \<Rightarrow> panic
     | Some f \<Rightarrow>
         chain (gets (fsop_getvolname F f)) (\<lambda>vol.
         chain (case vol of None \<Rightarrow> locked (vfs_getdevname f) | Some _ \<Rightarrow> succeed vol) (\<lambda>name.
         case name of
           None \<Rightarrow> panic
         | Some nm \<Rightarrow>
             handle (
               chain (vfs_uiomove p curas (kaddr nm) (length nm) u) (\<lambda>u1.
               chain (vfs_uiomove p curas (kaddr '':'') 1 u1) (\<lambda>u2.
               vop cwd (vop_namefile F cwd u2))))
             (release_vnode F cwd))))))"

section \<open>Paths: \<^verbatim>\<open>vfs/vfspath.c\<close>\<close>

abbreviation (input) O_ACCMODE :: u32 where "O_ACCMODE \<equiv> 3"
abbreviation (input) O_RDONLY :: u32 where "O_RDONLY \<equiv> 0"
abbreviation (input) O_WRONLY :: u32 where "O_WRONLY \<equiv> 1"
abbreviation (input) O_RDWR :: u32 where "O_RDWR \<equiv> 2"
abbreviation (input) O_CREAT :: u32 where "O_CREAT \<equiv> 4"
abbreviation (input) O_EXCL :: u32 where "O_EXCL \<equiv> 8"
abbreviation (input) O_TRUNC :: u32 where "O_TRUNC \<equiv> 16"
abbreviation (input) O_APPEND :: u32 where "O_APPEND \<equiv> 32"
abbreviation (input) O_NOCTTY :: u32 where "O_NOCTTY \<equiv> 64"

definition vfs_open :: "'f fsops \<Rightarrow> string \<Rightarrow> u32 \<Rightarrow> u32 \<Rightarrow> ('f vfs, nat) op" where
  "vfs_open F path openflags mode =
     (let how = openflags AND O_ACCMODE in
      if how \<noteq> O_RDONLY \<and> how \<noteq> O_WRONLY \<and> how \<noteq> O_RDWR then fail EINVAL
      else
        let canwrite = (how \<noteq> O_RDONLY) in
        chain (if openflags AND O_CREAT \<noteq> 0 then
                 chain (vfs_lookparent F path 256) (\<lambda>(dir, name).
                 handle (vop dir (vop_creat F dir name (openflags AND O_EXCL \<noteq> 0) mode))
                   (release_vnode F dir))
               else vfs_lookup F path) (\<lambda>vn.
        handle (vop vn (vop_eachopen F vn openflags)) (\<lambda>r.
          case r of
            Inl e \<Rightarrow> release_vnode F vn (Inl e)
          | Inr _ \<Rightarrow>
              if openflags AND O_TRUNC \<noteq> 0 then
                handle (if \<not> canwrite then fail EINVAL else vop vn (vop_truncate F vn 0)) (\<lambda>r.
                  case r of
                    Inl e \<Rightarrow> release_vnode F vn (Inl e)
                  | Inr _ \<Rightarrow> succeed vn)
              else succeed vn)))"

definition vfs_close :: "'f fsops \<Rightarrow> nat \<Rightarrow> ('f vfs, unit) op" where
  "vfs_close F vn = vnode_decref F vn"

definition vfs_remove :: "'f fsops \<Rightarrow> string \<Rightarrow> ('f vfs, unit) op" where
  "vfs_remove F path = chain (vfs_lookparent F path 256) (\<lambda>(dir, name).
     handle (vop dir (vop_remove F dir name)) (release_vnode F dir))"

definition fs_of :: "'f vfs \<Rightarrow> nat \<Rightarrow> nat option" where
  "fs_of s v = (case vnodes s v of None \<Rightarrow> None | Some x \<Rightarrow> vn_fs x)"

definition vfs_rename :: "'f fsops \<Rightarrow> string \<Rightarrow> string \<Rightarrow> ('f vfs, unit) op" where
  "vfs_rename F oldpath newpath =
     chain (vfs_lookparent F oldpath 256) (\<lambda>(olddir, oldname).
     handle (vfs_lookparent F newpath 256) (\<lambda>r. case r of
       Inl e \<Rightarrow> release_vnode F olddir (Inl e)
     | Inr (newdir, newname) \<Rightarrow>
         chain (gets (\<lambda>s. fs_of s olddir = None \<or> fs_of s newdir = None \<or> fs_of s olddir \<noteq> fs_of s newdir)) (\<lambda>cross.
         handle (if cross then fail EXDEV else vop olddir (vop_rename F olddir oldname newdir newname))
           (\<lambda>r. handle (release_vnode F newdir r) (release_vnode F olddir)))))"

definition vfs_link :: "'f fsops \<Rightarrow> string \<Rightarrow> string \<Rightarrow> ('f vfs, unit) op" where
  "vfs_link F oldpath newpath =
     chain (vfs_lookup F oldpath) (\<lambda>oldfile.
     handle (vfs_lookparent F newpath 256) (\<lambda>r. case r of
       Inl e \<Rightarrow> release_vnode F oldfile (Inl e)
     | Inr (newdir, newname) \<Rightarrow>
         chain (gets (\<lambda>s. fs_of s oldfile = None \<or> fs_of s newdir = None \<or> fs_of s oldfile \<noteq> fs_of s newdir)) (\<lambda>cross.
         handle (if cross then fail EXDEV else vop newdir (vop_link F newdir newname oldfile))
           (\<lambda>r. handle (release_vnode F newdir r) (release_vnode F oldfile)))))"

definition vfs_symlink :: "'f fsops \<Rightarrow> string \<Rightarrow> string \<Rightarrow> ('f vfs, unit) op" where
  "vfs_symlink F contents path = chain (vfs_lookparent F path 256) (\<lambda>(newdir, newname).
     handle (vop newdir (vop_symlink F newdir newname contents)) (release_vnode F newdir))"

definition vfs_readlink :: "'f fsops \<Rightarrow> string \<Rightarrow> uio \<Rightarrow> ('f vfs, uio) op" where
  "vfs_readlink F path u = chain (vfs_lookup F path) (\<lambda>vn.
     handle (vop vn (vop_readlink F vn u)) (release_vnode F vn))"

definition vfs_mkdir :: "'f fsops \<Rightarrow> string \<Rightarrow> u32 \<Rightarrow> ('f vfs, unit) op" where
  "vfs_mkdir F path mode = chain (vfs_lookparent F path 256) (\<lambda>(parent, name).
     handle (vop parent (vop_mkdir F parent name mode)) (release_vnode F parent))"

definition vfs_rmdir :: "'f fsops \<Rightarrow> string \<Rightarrow> ('f vfs, unit) op" where
  "vfs_rmdir F path = chain (vfs_lookparent F path 256) (\<lambda>(parent, name).
     handle (vop parent (vop_rmdir F parent name)) (release_vnode F parent))"

end
