(* ===== verification/Vfs_Refs.thy ===== *)
theory Vfs_Refs
  imports Vfs
begin

text \<open>
  The references to vnodes. Every reference count is the number of the standing references (the
  current directory, the root of the boot file system, the device list) and of the \<open>loose\<close> ones
  that the callers of the VFS hold. What the VFS relies on of the functions behind \<^verbatim>\<open>vn_ops\<close> is the
  locale \<open>vnode_provider\<close>, taken from the comments of \<^verbatim>\<open>kern/include/vnode.h\<close>; inside it, every
  function of the VFS is shown to take and drop references in balance and not to stop the kernel.
\<close>

section \<open>Accounting\<close>

definition held :: "'f vfs \<Rightarrow> nat \<Rightarrow> int" where
  "held s v = int (count_list (map kd_vnode (knowndevs s)) v) +
     of_bool (p_cwd s = Some v) + of_bool (bootfs_vnode s = Some v)"

definition loose :: "'f vfs \<Rightarrow> nat \<Rightarrow> int" where
  "loose s v = refcount s v - held s v"

definition devices_ok :: "knowndev list \<Rightarrow> bool" where
  "devices_ok kds \<longleftrightarrow>
     list_all (\<lambda>kd. (kd_fs kd = None \<or> kd_rawname kd \<noteq> None) \<longrightarrow> kd_device kd \<noteq> None) kds"

text \<open>A device vnode has its device, unless it was made for a file system without one; such a vnode
  only stands in the device list.\<close>

definition isdev :: "'f vfs \<Rightarrow> nat \<Rightarrow> bool" where
  "isdev s v = (case vnodes s v of None \<Rightarrow> False | Some x \<Rightarrow> vn_isdev x)"

definition usable :: "'f vfs \<Rightarrow> nat \<Rightarrow> bool" where
  "usable s v = (case vnodes s v of None \<Rightarrow> True | Some x \<Rightarrow> vn_isdev x \<longrightarrow> vn_data x \<noteq> None)"

definition good :: "'f vfs \<Rightarrow> bool" where
  "good s \<longleftrightarrow> (\<forall>v. 0 \<le> loose s v) \<and> (\<forall>v. p_cwd s = Some v \<longrightarrow> fs_of s v \<noteq> None) \<and>
     devices_ok (knowndevs s) \<and> (biglock s \<longleftrightarrow> 0 < biglock_depth s) \<and>
     (\<forall>v. isdev s v \<longrightarrow> v \<in> kd_vnode ` set (knowndevs s)) \<and>
     (\<forall>v. 1 \<le> loose s v \<or> p_cwd s = Some v \<or> bootfs_vnode s = Some v \<longrightarrow> usable s v) \<and>
     (\<forall>kd \<in> set (knowndevs s). kd_device kd \<noteq> None \<longrightarrow> usable s (kd_vnode kd))"

text \<open>A step that changes the reference counts by \<open>d\<close> and no standing reference.\<close>

definition shifts :: "(nat \<Rightarrow> int) \<Rightarrow> 'f vfs \<Rightarrow> 'f vfs \<Rightarrow> bool" where
  "shifts d s s' \<longleftrightarrow> (\<forall>v. refcount s' v = refcount s v + d v) \<and> p_cwd s' = p_cwd s \<and>
     bootfs_vnode s' = bootfs_vnode s \<and> knowndevs s' = knowndevs s \<and> biglock s' = biglock s \<and>
     biglock_depth s' = biglock_depth s \<and> (\<forall>v. p_cwd s = Some v \<longrightarrow> fs_of s' v = fs_of s v) \<and>
     (\<forall>v. isdev s' v \<longrightarrow> isdev s v) \<and> (\<forall>v. usable s v \<or> 0 < d v \<longrightarrow> usable s' v)"

definition none :: "nat \<Rightarrow> int" where "none = (\<lambda>_. 0)"

definition one :: "nat \<Rightarrow> nat \<Rightarrow> int" where "one v = (\<lambda>w. of_bool (w = v))"

definition minus_one :: "nat \<Rightarrow> nat \<Rightarrow> int" where "minus_one v = (\<lambda>w. - of_bool (w = v))"

definition plus :: "(nat \<Rightarrow> int) \<Rightarrow> (nat \<Rightarrow> int) \<Rightarrow> nat \<Rightarrow> int" where
  "plus a b = (\<lambda>v. a v + b v)"

text \<open>A call that hands back the references \<open>d x\<close> with its result \<open>x\<close>, and none with an error.\<close>

definition hands :: "('a \<Rightarrow> nat \<Rightarrow> int) \<Rightarrow> 'f vfs \<Rightarrow> errno + 'a \<Rightarrow> 'f vfs \<Rightarrow> bool" where
  "hands d s r s' \<longleftrightarrow> shifts (case r of Inl _ \<Rightarrow> none | Inr x \<Rightarrow> d x) s s'"

lemma hands_simps [simp]:
  "hands d s (Inl e) s' \<longleftrightarrow> shifts none s s'"
  "hands d s (Inr x) s' \<longleftrightarrow> shifts (d x) s s'"
  by (simp_all add: hands_def)

lemma plus_simps [simp]:
  "plus none d = d" "plus d none = d" "plus (one v) (minus_one v) = none"
  "plus (plus d (one v)) (minus_one v) = d" "plus (minus_one v) (one v) = none"
  by (simp_all add: plus_def none_def one_def minus_one_def)

lemma held_nonneg: "0 \<le> held s v"
  by (simp add: held_def)

lemma loose_refcount: "loose s v \<le> refcount s v"
  using held_nonneg [of s v] by (simp add: loose_def)

lemma shifts_refl [simp]: "shifts none s s"
  by (simp add: shifts_def none_def)

lemma shifts_trans: "shifts a s s1 \<Longrightarrow> shifts b s1 s2 \<Longrightarrow> shifts (plus a b) s s2"
  unfolding shifts_def plus_def by (smt (verit))

lemma held_cong:
  "p_cwd s' = p_cwd s \<Longrightarrow> bootfs_vnode s' = bootfs_vnode s \<Longrightarrow> knowndevs s' = knowndevs s \<Longrightarrow>
     held s' = held s"
  by (simp add: held_def fun_eq_iff)

lemma loose_shifts: "shifts d s s' \<Longrightarrow> loose s' v = loose s v + d v"
proof -
  assume sh: "shifts d s s'"
  have "held s' = held s" by (rule held_cong) (use sh in \<open>simp_all add: shifts_def\<close>)
  then show ?thesis using sh by (simp add: loose_def shifts_def)
qed

lemma shifts_usable:
  "shifts d s s' \<Longrightarrow> usable s v \<or> 0 < d v \<Longrightarrow> usable s' v"
  unfolding shifts_def by blast

lemma good_usable:
  "good s \<Longrightarrow> 1 \<le> loose s v \<or> p_cwd s = Some v \<or> bootfs_vnode s = Some v \<Longrightarrow> usable s v"
  unfolding good_def by blast

lemma good_shifts:
  assumes g: "good s" and sh: "shifts d s s'" and d: "\<And>v. 0 \<le> loose s v + d v"
  shows "good s'"
  unfolding good_def
proof (intro conjI allI impI ballI)
  note same = sh [unfolded shifts_def]
  show "0 \<le> loose s' v" for v using d [of v] loose_shifts [OF sh, of v] by simp
  show "fs_of s' v \<noteq> None" if "p_cwd s' = Some v" for v
    using g same that by (simp add: good_def)
  show "devices_ok (knowndevs s')" "biglock s' \<longleftrightarrow> 0 < biglock_depth s'"
    using g same by (simp_all add: good_def)
  show "v \<in> kd_vnode ` set (knowndevs s')" if "isdev s' v" for v
    using g same that by (simp add: good_def)
  show "usable s' v" if "1 \<le> loose s' v \<or> p_cwd s' = Some v \<or> bootfs_vnode s' = Some v" for v
  proof (rule shifts_usable [OF sh], rule disjCI)
    assume "\<not> 0 < d v"
    then have "1 \<le> loose s v \<or> p_cwd s = Some v \<or> bootfs_vnode s = Some v"
      using that same loose_shifts [OF sh, of v] by auto
    then show "usable s v" by (rule good_usable [OF g])
  qed
  show "usable s' (kd_vnode kd)" if "kd \<in> set (knowndevs s')" "kd_device kd \<noteq> None" for kd
    using g same that by (simp add: good_def)
qed

lemma good_shifts_up: "good s \<Longrightarrow> shifts d s s' \<Longrightarrow> (\<And>v. 0 \<le> d v) \<Longrightarrow> good s'"
  by (rule good_shifts) (auto simp: good_def)

lemma good_none: "good s \<Longrightarrow> shifts none s s' \<Longrightarrow> good s'"
  by (rule good_shifts_up) (auto simp: none_def)

lemma good_one: "good s \<Longrightarrow> shifts (one v) s s' \<Longrightarrow> good s' \<and> 1 \<le> loose s' v \<and> 0 < refcount s' v"
proof -
  assume g: "good s" and sh: "shifts (one v) s s'"
  then have g': "good s'" by (rule good_shifts_up) (simp add: one_def)
  moreover have "1 \<le> loose s' v" using g loose_shifts [OF sh, of v] by (simp add: one_def good_def)
  ultimately show ?thesis using loose_refcount [of s' v] by simp
qed

lemma good_minus_one:
  assumes "good s" and "1 \<le> loose s v" and "shifts (minus_one v) s s'"
  shows "good s'"
proof (rule good_shifts [OF assms(1,3)])
  fix w
  show "0 \<le> loose s w + minus_one v w"
    using assms(1,2) by (cases "w = v") (simp_all add: minus_one_def good_def)
qed

lemma refcount_Some: "0 < refcount s v \<Longrightarrow> \<exists>x. vnodes s v = Some x \<and> vn_refcount x = refcount s v"
  by (auto simp: refcount_def split: option.splits)

lemma held_refcount: "good s \<Longrightarrow> held s v \<le> refcount s v"
  by (simp add: good_def loose_def)

text \<open>The current directory: what its process holds moves from the old vnode to the new one, and
  nothing else changes.\<close>

definition moved_cwd :: "'f vfs \<Rightarrow> 'f vfs \<Rightarrow> bool" where
  "moved_cwd s s' \<longleftrightarrow> good s' \<and> loose s' = loose s \<and> bootfs_vnode s' = bootfs_vnode s \<and>
     knowndevs s' = knowndevs s \<and> biglock s' = biglock s \<and> biglock_depth s' = biglock_depth s"


section \<open>Reference counts\<close>

lemma refcount_upd:
  "vnodes s v = Some x \<Longrightarrow> refcount (upd_vnode v f s) w = (if w = v then vn_refcount (f x) else refcount s w)"
  by (simp add: refcount_def upd_vnode_def)

lemma upd_vnode_frame [simp]:
  "p_cwd (upd_vnode v f s) = p_cwd s" "bootfs_vnode (upd_vnode v f s) = bootfs_vnode s"
  "knowndevs (upd_vnode v f s) = knowndevs s" "biglock (upd_vnode v f s) = biglock s"
  "biglock_depth (upd_vnode v f s) = biglock_depth s"
  by (simp_all add: upd_vnode_def)

lemma fs_of_upd: "(\<And>x. vn_fs (f x) = vn_fs x) \<Longrightarrow> fs_of (upd_vnode v f s) w = fs_of s w"
  by (auto simp: fs_of_def upd_vnode_def split: option.splits)

lemma isdev_upd [simp]: "(\<And>x. vn_isdev (f x) = vn_isdev x) \<Longrightarrow> isdev (upd_vnode v f s) w = isdev s w"
  by (auto simp: isdev_def upd_vnode_def split: option.splits)

lemma usable_upd [simp]:
  "(\<And>x. vn_isdev (f x) = vn_isdev x) \<Longrightarrow> (\<And>x. vn_data (f x) = vn_data x) \<Longrightarrow>
     usable (upd_vnode v f s) w = usable s w"
  by (auto simp: usable_def upd_vnode_def split: option.splits)

lemma vnode_incref_shifts:
  assumes "0 < refcount s v" and "usable s v"
  shows "wp (vnode_incref v) (\<lambda>r s'. r = Inr () \<and> shifts (one v) s s') s"
proof -
  obtain x where "vnodes s v = Some x" "vn_refcount x = refcount s v"
    using refcount_Some [OF assms(1)] by blast
  then show ?thesis using assms(2)
    by (auto simp: vnode_incref_def wp_simps shifts_def refcount_upd fs_of_upd one_def)
qed

section \<open>What the VFS relies on\<close>

locale vnode_provider =
  fixes F :: "'f fsops"
  assumes eachopen: "good s \<Longrightarrow> 1 \<le> loose s v \<Longrightarrow> wp (vop_eachopen F v fl) (hands (\<lambda>_. none) s) s"
    and reclaim: "good s \<Longrightarrow> refcount s v = 1 \<Longrightarrow> held s v = 0 \<Longrightarrow>
      wp (vop_reclaim F v) (\<lambda>r s'. shifts (minus_one v) s s') s"
    and readlink: "good s \<Longrightarrow> 1 \<le> loose s v \<Longrightarrow> wp (vop_readlink F v u) (hands (\<lambda>_. none) s) s"
    and gettype: "good s \<Longrightarrow> 1 \<le> loose s v \<Longrightarrow>
      wp (vop_gettype F v) (\<lambda>r s'. shifts none s s' \<and> (r = Inr S_IFDIR \<longrightarrow> fs_of s' v \<noteq> None)) s"
    and truncate: "good s \<Longrightarrow> 1 \<le> loose s v \<Longrightarrow> wp (vop_truncate F v len) (hands (\<lambda>_. none) s) s"
    and namefile: "good s \<Longrightarrow> 1 \<le> loose s v \<Longrightarrow> wp (vop_namefile F v u) (hands (\<lambda>_. none) s) s"
    and creat: "good s \<Longrightarrow> 1 \<le> loose s v \<Longrightarrow> wp (vop_creat F v nm excl mode) (hands one s) s"
    and symlink: "good s \<Longrightarrow> 1 \<le> loose s v \<Longrightarrow> wp (vop_symlink F v nm c) (hands (\<lambda>_. none) s) s"
    and mkdir: "good s \<Longrightarrow> 1 \<le> loose s v \<Longrightarrow> wp (vop_mkdir F v nm mode) (hands (\<lambda>_. none) s) s"
    and link: "good s \<Longrightarrow> 1 \<le> loose s v \<Longrightarrow> 1 \<le> loose s w \<Longrightarrow>
      wp (vop_link F v nm w) (hands (\<lambda>_. none) s) s"
    and remove: "good s \<Longrightarrow> 1 \<le> loose s v \<Longrightarrow> wp (vop_remove F v nm) (hands (\<lambda>_. none) s) s"
    and rmdir: "good s \<Longrightarrow> 1 \<le> loose s v \<Longrightarrow> wp (vop_rmdir F v nm) (hands (\<lambda>_. none) s) s"
    and rename: "good s \<Longrightarrow> 1 \<le> loose s v \<Longrightarrow> 1 \<le> loose s w \<Longrightarrow>
      wp (vop_rename F v nm w nm') (hands (\<lambda>_. none) s) s"
    and lookup: "good s \<Longrightarrow> 1 \<le> loose s v \<Longrightarrow> wp (vop_lookup F v nm) (hands one s) s"
    and lookparent: "good s \<Longrightarrow> 1 \<le> loose s v \<Longrightarrow>
      wp (vop_lookparent F v nm n) (hands (\<lambda>x. one (fst x)) s) s"
    and getroot: "good s \<Longrightarrow> wp (fsop_getroot F fs) (hands one s) s"
begin

lemma vnode_decref_shifts:
  assumes g: "good s" and l: "1 \<le> loose s v"
  shows "wp (vnode_decref F v) (\<lambda>r s'. r = Inr () \<and> shifts (minus_one v) s s') s"
proof -
  have pos: "0 < refcount s v" using l loose_refcount [of s v] by linarith
  then obtain x where x: "vnodes s v = Some x" "vn_refcount x = refcount s v"
    using refcount_Some by blast
  show ?thesis
  proof (cases "1 < refcount s v")
    case True
    then show ?thesis using x pos
      by (simp add: vnode_decref_def wp_simps shifts_def refcount_upd fs_of_upd minus_one_def of_bool_def)
  next
    case False
    then have "refcount s v = 1" "held s v = 0"
      using pos l held_nonneg [of s v] by (simp_all add: loose_def)
    note r = reclaim [OF g this]
    show ?thesis using x pos False
      by (simp add: vnode_decref_def wp_simps vop_def vnode_check_def)
        (rule wp_mono [OF r], auto simp: wp_simps split: sum.split)
  qed
qed

lemma release_shifts:
  assumes "good s" and "1 \<le> loose s v"
  shows "wp (release_vnode F v r) (\<lambda>r' s'. r' = r \<and> shifts (minus_one v) s s') s"
  unfolding release_vnode_def
  by (simp add: wp_simps, rule wp_mono [OF vnode_decref_shifts [OF assms]]) (auto simp: wp_simps)

text \<open>A call made while a reference to \<open>v\<close>, taken since \<open>s\<close>, is held and then dropped.\<close>

lemma release_hands:
  assumes "good s" and "shifts (one v) s s1" and h: "hands d s1 r s2" and "\<And>x w. 0 \<le> d x w"
  shows "wp (release_vnode F v r) (hands d s) s2"
proof -
  have g1: "good s1" "1 \<le> loose s1 v" using good_one [OF assms(1,2)] by simp_all
  define e where "e = (case r of Inl _ \<Rightarrow> none | Inr x \<Rightarrow> d x)"
  have sh: "shifts e s1 s2" using h by (simp add: hands_def e_def)
  have e: "0 \<le> e w" for w using assms(4) by (simp add: e_def none_def split: sum.split)
  have g2: "good s2" by (rule good_shifts_up [OF g1(1) sh e])
  have l2: "1 \<le> loose s2 v" using g1(2) e [of v] loose_shifts [OF sh, of v] by simp
  have "plus (plus (one v) e) (minus_one v) = e" by (simp add: plus_def one_def minus_one_def fun_eq_iff)
  then have "shifts e s s3" if "shifts (minus_one v) s2 s3" for s3
    using shifts_trans [OF shifts_trans [OF assms(2) sh] that] by simp
  then show ?thesis
    by (intro wp_mono [OF release_shifts [OF g2 l2, of r]]) (simp add: hands_def e_def)
qed

lemma with_vnode:
  assumes "good s" and "shifts (one v) s s1" and "wp body (hands d s1) s1" and "\<And>x w. 0 \<le> d x w"
  shows "wp (handle body (release_vnode F v)) (hands d s) s1"
  unfolding wp_handle using release_hands [OF assms(1,2) _ assms(4)]
  by (rule wp_mono [OF assms(3)])

lemma keep_vnode:
  assumes "good s" and "shifts (one v) s s1" and "wp body (hands (\<lambda>_. none) s1) s1"
    and "\<And>s2. shifts (one v) s s2 \<Longrightarrow> wp k (hands d s) s2"
  shows "wp (handle body (\<lambda>r. case r of Inl e \<Rightarrow> release_vnode F v (Inl e) | Inr _ \<Rightarrow> k)) (hands d s) s1"
  unfolding wp_handle
proof (rule wp_mono [OF assms(3)])
  fix r s2
  assume h: "hands (\<lambda>_. none) s1 r s2"
  show "wp (case r of Inl e \<Rightarrow> release_vnode F v (Inl e) | Inr _ \<Rightarrow> k) (hands d s) s2"
  proof (cases r)
    case (Inl e)
    have "wp (release_vnode F v (Inl e)) (\<lambda>r' s'. r' = Inl e \<and> shifts none s s') s2"
    proof -
      have "good s2" "1 \<le> loose s2 v"
        using good_one [OF assms(1) shifts_trans [OF assms(2), of none s2, simplified]] h Inl by simp_all
      moreover have "shifts none s s'" if "shifts (minus_one v) s2 s'" for s'
        using shifts_trans [OF shifts_trans [OF assms(2)] that, of none] h Inl by simp
      ultimately show ?thesis by (intro wp_mono [OF release_shifts]) auto
    qed
    then show ?thesis using Inl by (auto elim: wp_mono)
  next
    case (Inr x)
    then show ?thesis using assms(4) [of s2] shifts_trans [OF assms(2), of none s2] h by simp
  qed
qed

lemma locked_hands:
  assumes "good s" and "\<And>s1. good s1 \<Longrightarrow> biglock s1 \<Longrightarrow> wp body (hands d s1) s1"
  shows "wp (locked body) (hands d s) s"
proof -
  define s1 where "s1 = s\<lparr>biglock := True, biglock_depth := biglock_depth s + 1\<rparr>"
  have frame: "refcount s1 = refcount s" "fs_of s1 = fs_of s" "held s1 = held s"
    "biglock s1" "biglock_depth s1 = Suc (biglock_depth s)" "isdev s1 = isdev s" "usable s1 = usable s"
    "p_cwd s1 = p_cwd s" "bootfs_vnode s1 = bootfs_vnode s" "knowndevs s1 = knowndevs s"
    by (simp_all add: s1_def refcount_def fs_of_def held_def isdev_def usable_def fun_eq_iff)
  then have "loose s1 = loose s" by (simp add: loose_def fun_eq_iff)
  then have g1: "good s1" using assms(1) frame by (simp add: good_def)
  have lock: "biglock s \<longleftrightarrow> 0 < biglock_depth s" using assms(1) by (simp add: good_def)
  have "wp (chain vfs_biglock_release (\<lambda>_. give r)) (hands d s) s2" if h: "hands d s1 r s2" for r s2
  proof -
    define e where "e = (case r of Inl _ \<Rightarrow> none | Inr x \<Rightarrow> d x)"
    have sh: "shifts e s1 s2" using h by (simp add: hands_def e_def)
    have b: "biglock s2" "biglock_depth s2 = Suc (biglock_depth s)" using sh frame by (simp_all add: shifts_def)
    define s3 where "s3 = s2\<lparr>biglock := (biglock_depth s2 \<noteq> 1), biglock_depth := biglock_depth s2 - 1\<rparr>"
    have "refcount s3 = refcount s2" "fs_of s3 = fs_of s2" "isdev s3 = isdev s2" "usable s3 = usable s2"
      "p_cwd s3 = p_cwd s2" "bootfs_vnode s3 = bootfs_vnode s2" "knowndevs s3 = knowndevs s2"
      "biglock s3 = biglock s" "biglock_depth s3 = biglock_depth s"
      using b lock by (simp_all add: s3_def refcount_def fs_of_def isdev_def usable_def fun_eq_iff)
    then have "shifts e s s3" using sh frame unfolding shifts_def by simp
    then show ?thesis using b by (simp add: vfs_biglock_release_def wp_simps hands_def e_def s3_def)
  qed
  then have "wp (handle body (\<lambda>r. chain vfs_biglock_release (\<lambda>_. give r))) (hands d s) s1"
    unfolding wp_handle by (rule wp_mono [OF assms(2) [OF g1 frame(4)]])
  then show ?thesis by (simp add: locked_def vfs_biglock_acquire_def wp_simps s1_def)
qed

lemma one_nonneg [simp]: "0 \<le> one v w" "0 \<le> none w"
  by (simp_all add: one_def none_def)

lemma chain_hands_if:
  assumes "wp f (\<lambda>r s'. hands d s r s' \<and> P r) s"
    and "\<And>x s1. shifts (d x) s s1 \<Longrightarrow> P (Inr x) \<Longrightarrow> wp (g x) (hands e s) s1"
  shows "wp (chain f g) (hands e s) s"
  unfolding wp_chain by (rule wp_mono [OF assms(1)]) (auto split: sum.split intro: assms(2))

lemma chain_hands:
  assumes "wp f (hands d s) s" and "\<And>x s1. shifts (d x) s s1 \<Longrightarrow> wp (g x) (hands e s) s1"
  shows "wp (chain f g) (hands e s) s"
  by (rule chain_hands_if [where P = "\<lambda>_. True"]) (use assms in simp_all)

lemma wp_ifI: "(b \<Longrightarrow> wp f Q s) \<Longrightarrow> (\<not> b \<Longrightarrow> wp g Q s) \<Longrightarrow> wp (if b then f else g) Q s"
  by simp

lemma vop_hands: "0 < refcount s v \<Longrightarrow> wp (vop v call) Q s \<longleftrightarrow> wp call Q s"
  using refcount_Some [of s v] by (auto simp: vop_def vnode_check_def wp_simps)

lemma incref_held:
  assumes "good s" and "1 \<le> held s v" and "usable s v"
  shows "wp (vnode_incref v) (\<lambda>r s'. r = Inr () \<and> shifts (one v) s s') s"
  by (rule vnode_incref_shifts [OF _ assms(3)]) (use held_refcount [OF assms(1), of v] assms(2) in linarith)

lemma getcurdir_hands: "good s \<Longrightarrow> wp vfs_getcurdir (\<lambda>r s'. hands one s r s' \<and>
    (\<forall>v. r = Inr v \<longrightarrow> p_cwd s = Some v)) s"
proof (cases "p_cwd s")
  case None
  then show ?thesis by (simp add: vfs_getcurdir_def wp_simps)
next
  case (Some v)
  assume g: "good s"
  have "1 \<le> held s v" "usable s v" using Some good_usable [OF g, of v] by (simp_all add: held_def)
  from incref_held [OF g this] show ?thesis
    using Some by (simp add: vfs_getcurdir_def wp_simps) (erule wp_mono, auto simp: wp_simps)
qed

lemma give_vnode_hands:
  assumes "good s" and "kd \<in> set (knowndevs s)" and "kd_device kd \<noteq> None"
  shows "wp (give_vnode kd) (hands one s) s"
proof -
  have "count_list (map kd_vnode (knowndevs s)) (kd_vnode kd) \<noteq> 0"
    using assms(2) by (simp add: count_list_0_iff)
  then have "1 \<le> held s (kd_vnode kd)" by (simp add: held_def)
  moreover have "usable s (kd_vnode kd)" using assms unfolding good_def by blast
  ultimately have "1 \<le> held s (kd_vnode kd)" "usable s (kd_vnode kd)" by simp_all
  from incref_held [OF assms(1) this] show ?thesis
    using assms(3) by (simp add: give_vnode_def wp_simps) (erule wp_mono, auto simp: wp_simps)
qed

lemma getroot_loop_hands:
  assumes "good s" and "set kds \<subseteq> set (knowndevs s)"
  shows "wp (getroot_loop F nm kds) (hands one s) s"
  using assms(2)
proof (induction kds)
  case (Cons kd kds)
  have dev: "kd_fs kd = None \<or> kd_rawname kd \<noteq> None \<Longrightarrow> kd_device kd \<noteq> None"
    using assms(1) Cons.prems by (auto simp: good_def devices_ok_def list_all_iff)
  have here: "kd_device kd \<noteq> None \<Longrightarrow> wp (give_vnode kd) (hands one s) s"
    using give_vnode_hands [OF assms(1), of kd] Cons.prems by simp
  show ?case using Cons dev here getroot [OF assms(1)] by (auto simp: wp_simps)
qed (simp add: wp_simps)

lemma getdevice_hands:
  assumes "good s" and "biglock s"
  shows "wp (getdevice F path) (hands (\<lambda>x. one (snd x)) s) s"
proof -
  have cur: "wp (chain vfs_getcurdir (\<lambda>v. succeed (p, v))) (hands (\<lambda>x. one (snd x)) s) s" for p
    unfolding wp_simps by (rule wp_mono [OF getcurdir_hands [OF assms(1)]]) (auto split: sum.splits)
  have root: "wp (vfs_getroot F nm) (hands one s) s" for nm
    using assms(2) getroot_loop_hands [OF assms(1), of "knowndevs s" nm]
    by (simp add: vfs_getroot_def vfs_biglock_do_i_hold_def wp_simps)
  have colon: "wp (chain vfs_getcurdir (\<lambda>vn.
      chain (gets (\<lambda>s. case vnodes s vn of None \<Rightarrow> None | Some x \<Rightarrow> vn_fs x)) (\<lambda>fs.
      case fs of None \<Rightarrow> panic
      | Some f \<Rightarrow> chain (handle (fsop_getroot F f) (release_vnode F vn)) (\<lambda>start. succeed (p, start)))))
      (hands (\<lambda>x. one (snd x)) s) s" for p
  proof (rule chain_hands_if [OF getcurdir_hands [OF assms(1)]])
    fix vn s1
    assume sh: "shifts (one vn) s s1" and "\<forall>v. Inr vn = Inr v \<longrightarrow> p_cwd s = Some v"
    then have cwd: "p_cwd s = Some vn" by simp
    obtain f where f: "fs_of s1 vn = Some f"
      using assms(1) cwd sh by (auto simp: good_def shifts_def)
    have "good s1" using good_one [OF assms(1) sh] by simp
    then have "wp (fsop_getroot F f) (hands one s1) s1" by (rule getroot)
    then have "wp (handle (fsop_getroot F f) (release_vnode F vn)) (hands one s) s1"
      by (rule with_vnode [OF assms(1) sh]) simp
    then have "wp (chain (handle (fsop_getroot F f) (release_vnode F vn)) (\<lambda>start. succeed (p, start)))
        (hands (\<lambda>x. one (snd x)) s) s1"
      unfolding wp_chain by (rule wp_mono) (auto simp: wp_simps split: sum.splits)
    then show "wp (chain (gets (\<lambda>s. case vnodes s vn of None \<Rightarrow> None | Some x \<Rightarrow> vn_fs x)) (\<lambda>fs.
        case fs of None \<Rightarrow> panic
        | Some f \<Rightarrow> chain (handle (fsop_getroot F f) (release_vnode F vn)) (\<lambda>start. succeed (p, start))))
        (hands (\<lambda>x. one (snd x)) s) s1"
      using f by (simp add: wp_chain [of "gets _"] wp_gets fs_of_def)
  qed
  have boot: "wp (chain (gets bootfs_vnode) (\<lambda>b. case b of None \<Rightarrow> fail ENOENT
      | Some v \<Rightarrow> chain (vnode_incref v) (\<lambda>_. succeed (p, v)))) (hands (\<lambda>x. one (snd x)) s) s" for p
  proof (cases "bootfs_vnode s")
    case (Some v)
    then have "1 \<le> held s v" "usable s v" using good_usable [OF assms(1), of v] by (simp_all add: held_def)
    from incref_held [OF assms(1) this] show ?thesis
      using Some by (simp add: wp_simps) (erule wp_mono, auto simp: wp_simps)
  qed (simp add: wp_simps)
  have dev: "wp (chain (vfs_getroot F nm) (\<lambda>v. succeed (p, v))) (hands (\<lambda>x. one (snd x)) s) s" for nm p
    unfolding wp_chain by (rule wp_mono [OF root]) (auto simp: wp_simps split: sum.splits)
  show ?thesis
  proof (cases "first_colon_slash path")
    case None
    then show ?thesis using assms(2) cur
      by (simp add: getdevice_def wp_chain [of "ensure _"] wp_ensure vfs_biglock_do_i_hold_def)
  next
    case (Some ic)
    obtain i c where ic: "ic = (i, c)" by (cases ic)
    show ?thesis
      unfolding getdevice_def wp_chain [of "ensure _"] wp_ensure Some ic option.case prod.case sum.case
      by (intro conjI wp_ifI cur colon boot dev) (simp add: assms(2) vfs_biglock_do_i_hold_def)
  qed
qed


lemma lookup_hands:
  assumes "good s"
  shows "wp (vfs_lookup F path) (hands one s) s"
  unfolding vfs_lookup_def
proof (rule locked_hands [OF assms], rule chain_hands [OF getdevice_hands])
  fix s1 s2 :: "'f vfs" and x :: "string \<times> nat"
  assume g: "good s1" and sh: "shifts (one (snd x)) s1 s2"
  obtain sub :: string and v where x: "x = (sub, v)" by (cases x)
  note g2 = good_one [OF g sh]
  have "wp (handle (vop v (vop_lookup F v sub)) (release_vnode F v)) (hands one s1) s2"
    using g2 lookup [of s2 v sub] x sh by (intro with_vnode [OF g]) (auto simp: vop_hands)
  then show "wp (case x of (sub, v) \<Rightarrow> if sub = [] then succeed v
      else handle (vop v (vop_lookup F v sub)) (release_vnode F v)) (hands one s1) s2"
    using sh x by (simp add: wp_succeed)
qed

lemma lookparent_hands:
  assumes "good s"
  shows "wp (vfs_lookparent F path n) (hands (\<lambda>x. one (fst x)) s) s"
  unfolding vfs_lookparent_def
proof (rule locked_hands [OF assms], rule chain_hands [OF getdevice_hands])
  fix s1 s2 :: "'f vfs" and x :: "string \<times> nat"
  assume g: "good s1" and sh: "shifts (one (snd x)) s1 s2"
  obtain sub :: string and v where x: "x = (sub, v)" by (cases x)
  note g2 = good_one [OF g sh]
  have "wp (if sub = [] then fail EINVAL else vop v (vop_lookparent F v sub n)) (hands (\<lambda>x. one (fst x)) s2) s2"
    using g2 lookparent [of s2 v sub n] x by (simp add: wp_fail vop_hands)
  then have "wp (handle (if sub = [] then fail EINVAL else vop v (vop_lookparent F v sub n))
      (release_vnode F v)) (hands (\<lambda>x. one (fst x)) s1) s2"
    using sh x by (intro with_vnode [OF g]) auto
  then show "wp (case x of (sub, v) \<Rightarrow>
      handle (if sub = [] then fail EINVAL else vop v (vop_lookparent F v sub n)) (release_vnode F v))
      (hands (\<lambda>x. one (fst x)) s1) s2"
    using x by simp
qed

text \<open>A call on the parent directory of a path.\<close>

lemma on_parent:
  assumes "good s"
    and "\<And>s1 v nm. good s1 \<Longrightarrow> 1 \<le> loose s1 v \<Longrightarrow> wp (call v nm) (hands d s1) s1"
    and "\<And>x w. 0 \<le> d x w"
  shows "wp (chain (vfs_lookparent F path n) (\<lambda>(dir, name).
    handle (vop dir (call dir name)) (release_vnode F dir))) (hands d s) s"
proof (rule chain_hands [OF lookparent_hands [OF assms(1)]])
  fix x :: "nat \<times> string" and s1 :: "'f vfs"
  assume sh: "shifts (one (fst x)) s s1"
  obtain v and nm :: string where x: "x = (v, nm)" by (cases x)
  note g1 = good_one [OF assms(1) sh]
  have "wp (handle (vop v (call v nm)) (release_vnode F v)) (hands d s) s1"
    using g1 assms(2) [of s1 v nm] sh x by (intro with_vnode [OF assms(1) _ _ assms(3)]) (auto simp: vop_hands)
  then show "wp (case x of (dir, name) \<Rightarrow> handle (vop dir (call dir name)) (release_vnode F dir)) (hands d s) s1"
    using x by simp
qed

lemma remove_hands: "good s \<Longrightarrow> wp (vfs_remove F path) (hands (\<lambda>_. none) s) s"
  unfolding vfs_remove_def by (rule on_parent) (auto intro: remove)

lemma symlink_hands: "good s \<Longrightarrow> wp (vfs_symlink F c path) (hands (\<lambda>_. none) s) s"
  unfolding vfs_symlink_def by (rule on_parent) (auto intro: symlink)

lemma mkdir_hands: "good s \<Longrightarrow> wp (vfs_mkdir F path mode) (hands (\<lambda>_. none) s) s"
  unfolding vfs_mkdir_def by (rule on_parent) (auto intro: mkdir)

lemma rmdir_hands: "good s \<Longrightarrow> wp (vfs_rmdir F path) (hands (\<lambda>_. none) s) s"
  unfolding vfs_rmdir_def by (rule on_parent) (auto intro: rmdir)

lemma readlink_hands:
  assumes "good s"
  shows "wp (vfs_readlink F path u) (hands (\<lambda>_. none) s) s"
  unfolding vfs_readlink_def
proof (rule chain_hands [OF lookup_hands [OF assms]])
  fix v s1
  assume sh: "shifts (one v) s s1"
  note g1 = good_one [OF assms sh]
  show "wp (handle (vop v (vop_readlink F v u)) (release_vnode F v)) (hands (\<lambda>_. none) s) s1"
    using g1 readlink [of s1 v u] by (intro with_vnode [OF assms sh]) (auto simp: vop_hands)
qed


lemma open_hands:
  assumes "good s"
  shows "wp (vfs_open F path fl mode) (hands one s) s"
proof -
  have create: "wp (chain (vfs_lookparent F path 256) (\<lambda>(dir, name).
      handle (vop dir (vop_creat F dir name (fl AND O_EXCL \<noteq> 0) mode)) (release_vnode F dir))) (hands one s) s"
    by (rule on_parent [OF assms]) (auto intro: creat)
  have find: "wp (if fl AND O_CREAT \<noteq> 0 then chain (vfs_lookparent F path 256) (\<lambda>(dir, name).
        handle (vop dir (vop_creat F dir name (fl AND O_EXCL \<noteq> 0) mode)) (release_vnode F dir))
      else vfs_lookup F path) (hands one s) s"
    by (rule wp_ifI [OF create lookup_hands [OF assms]])
  have opened: "wp (vop v (vop_eachopen F v fl)) (hands (\<lambda>_. none) s1) s1" if "shifts (one v) s s1" for v s1
    using good_one [OF assms that] eachopen [of s1 v fl] by (simp add: vop_hands)
  have emptied: "wp (if \<not> b then fail EINVAL else vop v (vop_truncate F v 0)) (hands (\<lambda>_. none) s1) s1"
    if "shifts (one v) s s1" for b v s1
    using good_one [OF assms that] truncate [of s1 v 0] by (simp add: vop_hands wp_fail)
  show ?thesis unfolding vfs_open_def Let_def
    by (intro wp_ifI chain_hands [OF find] keep_vnode [OF assms _ opened] keep_vnode [OF assms _ emptied])
      (simp_all add: wp_fail wp_succeed)
qed

text \<open>\<^verbatim>\<open>vfs_rename\<close> and \<^verbatim>\<open>vfs_link\<close>: a second reference is taken and dropped while the first is
  held.\<close>

lemma two_vnodes:
  assumes "good s" and "shifts (one v) s s1"
    and "\<And>s2 w nm. shifts (one w) s1 s2 \<Longrightarrow> wp (call w nm) (hands (\<lambda>_. none) s2) s2"
  shows "wp (handle (vfs_lookparent F path n) (\<lambda>r. case r of
       Inl e \<Rightarrow> release_vnode F v (Inl e)
     | Inr (w, nm) \<Rightarrow> chain (gets (cross w)) (\<lambda>c.
         handle (if c then fail EXDEV else call w nm)
           (\<lambda>r. handle (release_vnode F w r) (release_vnode F v))))) (hands (\<lambda>_. none) s) s1"
proof -
  note g1 = good_one [OF assms(1,2)]
  show ?thesis unfolding wp_handle
  proof (rule wp_mono [OF lookparent_hands])
    show "good s1" using g1 by simp
  next
    fix r :: "errno + nat \<times> string" and s2
    assume h: "hands (\<lambda>x. one (fst x)) s1 r s2"
    show "wp (case r of Inl e \<Rightarrow> release_vnode F v (Inl e)
        | Inr (w, nm) \<Rightarrow> chain (gets (cross w)) (\<lambda>c.
            handle (if c then fail EXDEV else call w nm)
              (\<lambda>r. handle (release_vnode F w r) (release_vnode F v)))) (hands (\<lambda>_. none) s) s2"
    proof (cases r)
      case (Inl e)
      then show ?thesis using release_hands [OF assms(1,2), of "\<lambda>_. none" "Inl e" s2] h by simp
    next
      case (Inr x)
      obtain w and nm :: string where x: "x = (w, nm)" by (cases x)
      have sh: "shifts (one w) s1 s2" using h Inr x by simp
      have "wp (if c then fail EXDEV else call w nm) (hands (\<lambda>_. none) s2) s2" for c
        using assms(3) [OF sh] by (simp add: wp_fail)
      then have "wp (handle (if c then fail EXDEV else call w nm) (release_vnode F w)) (hands (\<lambda>_. none) s1) s2" for c
        using g1 sh by (intro with_vnode) simp_all
      then have "wp (handle (handle (if c then fail EXDEV else call w nm) (release_vnode F w)) (release_vnode F v))
          (hands (\<lambda>_. none) s) s2" for c
        unfolding wp_handle [of "handle _ _"] using release_hands [OF assms(1,2)] by (rule wp_mono) simp_all
      then have "wp (handle (if c then fail EXDEV else call w nm)
          (\<lambda>r. handle (release_vnode F w r) (release_vnode F v))) (hands (\<lambda>_. none) s) s2" for c
        by (simp only: handle_assoc)
      then show ?thesis
        unfolding Inr x sum.case prod.case wp_chain [of "gets _"] wp_gets by (simp only: sum.case)
    qed
  qed
qed

lemma rename_hands:
  assumes "good s"
  shows "wp (vfs_rename F old new) (hands (\<lambda>_. none) s) s"
  unfolding vfs_rename_def
proof (rule chain_hands [OF lookparent_hands [OF assms]])
  fix x :: "nat \<times> string" and s1 :: "'f vfs"
  assume sh: "shifts (one (fst x)) s s1"
  obtain v and nm :: string where x: "x = (v, nm)" by (cases x)
  have "wp (vop v (vop_rename F v nm w nm')) (hands (\<lambda>_. none) s2) s2" if "shifts (one w) s1 s2" for s2 w and nm' :: string
  proof -
    have p: "1 \<le> loose s2 v" "1 \<le> loose s2 w" "good s2"
      using good_one [OF assms sh] good_one [OF _ that] loose_shifts [OF that, of v] x
      by (auto simp: one_def)
    moreover from this have "0 < refcount s2 v" using loose_refcount [of s2 v] by linarith
    ultimately show ?thesis using rename [of s2 v w nm nm'] by (simp add: vop_hands)
  qed
  then show "wp (case x of (olddir, oldname) \<Rightarrow>
      handle (vfs_lookparent F new 256) (\<lambda>r. case r of
       Inl e \<Rightarrow> release_vnode F olddir (Inl e)
     | Inr (newdir, newname) \<Rightarrow>
         chain (gets (\<lambda>s. fs_of s olddir = None \<or> fs_of s newdir = None \<or> fs_of s olddir \<noteq> fs_of s newdir)) (\<lambda>cross.
         handle (if cross then fail EXDEV else vop olddir (vop_rename F olddir oldname newdir newname))
           (\<lambda>r. handle (release_vnode F newdir r) (release_vnode F olddir)))))
     (hands (\<lambda>_. none) s) s1"
    using sh x by (simp only: prod.case fst_conv) (rule two_vnodes [OF assms], auto)
qed


lemma link_hands:
  assumes "good s"
  shows "wp (vfs_link F old new) (hands (\<lambda>_. none) s) s"
  unfolding vfs_link_def
proof (rule chain_hands [OF lookup_hands [OF assms]])
  fix v :: nat and s1 :: "'f vfs"
  assume sh: "shifts (one v) s s1"
  have "wp (vop w (vop_link F w nm' v)) (hands (\<lambda>_. none) s2) s2" if "shifts (one w) s1 s2" for s2 w and nm' :: string
  proof -
    have p: "1 \<le> loose s2 v" "1 \<le> loose s2 w" "good s2" "0 < refcount s2 w"
      using good_one [OF assms sh] good_one [OF _ that] loose_shifts [OF that, of v]
      by (auto simp: one_def)
    then show ?thesis using link [of s2 w v nm'] by (simp add: vop_hands)
  qed
  then show "wp (handle (vfs_lookparent F new 256) (\<lambda>r. case r of
       Inl e \<Rightarrow> release_vnode F v (Inl e)
     | Inr (newdir, newname) \<Rightarrow>
         chain (gets (\<lambda>s. fs_of s v = None \<or> fs_of s newdir = None \<or> fs_of s v \<noteq> fs_of s newdir)) (\<lambda>cross.
         handle (if cross then fail EXDEV else vop newdir (vop_link F newdir newname v))
           (\<lambda>r. handle (release_vnode F newdir r) (release_vnode F v)))))
     (hands (\<lambda>_. none) s) s1"
    using sh by (intro two_vnodes [OF assms])
qed

lemma moved_cwd_none: "good s \<Longrightarrow> shifts none s s' \<Longrightarrow> moved_cwd s s'"
proof -
  assume g: "good s" and sh: "shifts none s s'"
  have "loose s' = loose s" using loose_shifts [OF sh] by (simp add: fun_eq_iff none_def)
  then show ?thesis using good_none [OF g sh] sh by (simp add: moved_cwd_def shifts_def)
qed

lemma moved_cwd_trans: "moved_cwd s s1 \<Longrightarrow> moved_cwd s1 s2 \<Longrightarrow> moved_cwd s s2"
  by (simp add: moved_cwd_def)

lemma loose_cwd:
  "loose (s\<lparr>p_cwd := c\<rparr>) v = loose s v + of_bool (p_cwd s = Some v) - of_bool (c = Some v)"
  by (simp add: loose_def held_def refcount_def)

lemma frame_cwd [simp]:
  "refcount (s\<lparr>p_cwd := c\<rparr>) = refcount s" "fs_of (s\<lparr>p_cwd := c\<rparr>) = fs_of s"
  "isdev (s\<lparr>p_cwd := c\<rparr>) = isdev s" "usable (s\<lparr>p_cwd := c\<rparr>) = usable s"
  by (simp_all add: refcount_def fs_of_def isdev_def usable_def fun_eq_iff)

lemma good_cwd:
  assumes g: "good s" and l: "1 \<le> loose s dir" and fs: "fs_of s dir \<noteq> None"
  shows "good (s\<lparr>p_cwd := Some dir\<rparr>)"
proof -
  have nonneg: "0 \<le> loose s v + of_bool (p_cwd s = Some v) - of_bool (Some dir = Some v)" for v
    using g l by (cases "dir = v") (auto simp: good_def)
  have us: "usable s v" if "1 \<le> loose s v + of_bool (p_cwd s = Some v) - of_bool (Some dir = Some v)" for v
    by (rule good_usable [OF g]) (use that in \<open>cases "p_cwd s = Some v"; cases "dir = v"; simp\<close>)
  have "usable s v" if "1 \<le> loose s v + of_bool (p_cwd s = Some v) - of_bool (Some dir = Some v) \<or>
      Some dir = Some v \<or> bootfs_vnode s = Some v" for v
    using that us good_usable [OF g, of v] l by auto
  then show ?thesis using g fs nonneg unfolding good_def loose_cwd frame_cwd by simp
qed

text \<open>Dropping the standing reference that a pointer used to hold.\<close>

lemma drop_old_moved:
  assumes "good s1" and "loose s1 = plus (loose s) (\<lambda>v. of_bool (old = Some v))" and "\<And>v. 0 \<le> loose s v"
  shows "wp (drop_old F old) (\<lambda>r s'. r = Inr () \<and> good s' \<and> loose s' = loose s \<and> p_cwd s' = p_cwd s1 \<and>
    bootfs_vnode s' = bootfs_vnode s1 \<and> knowndevs s' = knowndevs s1 \<and> biglock s' = biglock s1 \<and>
    biglock_depth s' = biglock_depth s1) s1"
proof (cases old)
  case None
  then show ?thesis using assms(1,2) by (simp add: drop_old_def wp_succeed plus_def)
next
  case (Some v)
  have l: "1 \<le> loose s1 v" using assms(2) assms(3) [of v] Some by (simp add: plus_def)
  have "loose s2 = loose s" if sh: "shifts (minus_one v) s1 s2" for s2
    using loose_shifts [OF sh] assms(2) Some by (auto simp: plus_def minus_one_def fun_eq_iff)
  then show ?thesis using Some good_minus_one [OF assms(1) l]
    by (simp add: drop_old_def) (rule wp_mono [OF vnode_decref_shifts [OF assms(1) l]], auto simp: shifts_def)
qed

lemma setcurdir_moved:
  assumes g: "good s" and l: "1 \<le> loose s dir"
  shows "wp (vfs_setcurdir F dir) (\<lambda>r s'. moved_cwd s s' \<and>
    p_cwd s' = (case r of Inl _ \<Rightarrow> p_cwd s | Inr _ \<Rightarrow> Some dir)) s"
proof -
  have pos: "0 < refcount s dir" using l loose_refcount [of s dir] by linarith
  have rest: "wp (chain (vnode_incref dir) (\<lambda>_. chain (gets p_cwd) (\<lambda>old.
      chain (modify (\<lambda>s. s\<lparr>p_cwd := Some dir\<rparr>)) (\<lambda>_. drop_old F old))))
      (\<lambda>r s'. r = Inr () \<and> moved_cwd s s' \<and> p_cwd s' = Some dir) s1"
    if sh: "shifts none s s1" and fs: "fs_of s1 dir \<noteq> None" for s1
  proof -
    have g1: "good s1" by (rule good_none [OF g sh])
    have l1: "loose s1 = loose s" using loose_shifts [OF sh] by (simp add: fun_eq_iff none_def)
    have "0 < refcount s1 dir" "usable s1 dir"
      using l l1 loose_refcount [of s1 dir] good_usable [OF g1, of dir] by simp_all
    note inc = vnode_incref_shifts [OF this]
    have "wp (drop_old F (p_cwd s2)) (\<lambda>r s'. r = Inr () \<and> moved_cwd s s' \<and> p_cwd s' = Some dir)
        (s2\<lparr>p_cwd := Some dir\<rparr>)" if sh2: "shifts (one dir) s1 s2" and fs2: "fs_of s2 dir \<noteq> None" for s2
    proof -
      define s3 where "s3 = s2\<lparr>p_cwd := Some dir\<rparr>"
      have l2: "loose s2 v = loose s v + of_bool (v = dir)" for v
        using loose_shifts [OF sh2, of v] l1 by (simp add: one_def)
      then have l3: "loose s3 = plus (loose s) (\<lambda>v. of_bool (p_cwd s2 = Some v))"
        by (auto simp: s3_def loose_cwd plus_def fun_eq_iff)
      have "good s2" using good_one [OF g1 sh2] by simp
      then have g3: "good s3" using \<open>good s2\<close> l2 [of dir] l fs2 unfolding s3_def by (intro good_cwd) simp_all
      have "p_cwd s3 = Some dir" "bootfs_vnode s3 = bootfs_vnode s" "knowndevs s3 = knowndevs s"
        "biglock s3 = biglock s" "biglock_depth s3 = biglock_depth s"
        using sh sh2 by (simp_all add: s3_def shifts_def)
      then show ?thesis unfolding s3_def [symmetric] using g
        by (intro wp_mono [OF drop_old_moved [OF g3 l3]]) (auto simp: moved_cwd_def good_def)
    qed
    note drop = this
    have fs2: "fs_of s2 dir \<noteq> None" if "vnode_incref dir s1 = Some (r, s2)" for r s2
      using fs that by (auto simp: vnode_incref_def chain_def handle_def ensure_def modify_def
          fs_of_upd split: option.splits if_splits)
    show ?thesis unfolding wp_chain
      using wpD [OF inc] drop fs2 by (auto simp: wp_def [of "vnode_incref _"] wp_gets wp_modify)
  qed
  have type: "wp (vop dir (vop_gettype F dir))
      (\<lambda>r s'. shifts none s s' \<and> (r = Inr S_IFDIR \<longrightarrow> fs_of s' dir \<noteq> None)) s"
    using gettype [OF g l] by (simp only: vop_hands [OF pos])
  show ?thesis unfolding vfs_setcurdir_def
  proof (rule wp_chainI [OF type])
    fix e s1
    assume "shifts none s s1 \<and> ((Inl e :: errno + u32) = Inr S_IFDIR \<longrightarrow> fs_of s1 dir \<noteq> None)"
    then show "moved_cwd s s1 \<and>
        p_cwd s1 = (case (Inl e :: errno + unit) of Inl _ \<Rightarrow> p_cwd s | Inr _ \<Rightarrow> Some dir)"
      using moved_cwd_none [OF g] by (simp add: shifts_def)
  next
    fix vtype s1
    assume h: "shifts none s s1 \<and> ((Inr vtype :: errno + u32) = Inr S_IFDIR \<longrightarrow> fs_of s1 dir \<noteq> None)"
    show "wp (if vtype \<noteq> S_IFDIR then fail ENOTDIR
          else chain (vnode_incref dir) (\<lambda>_. chain (gets p_cwd) (\<lambda>old.
            chain (modify (\<lambda>s. s\<lparr>p_cwd := Some dir\<rparr>)) (\<lambda>_. drop_old F old))))
        (\<lambda>r s'. moved_cwd s s' \<and> p_cwd s' = (case r of Inl _ \<Rightarrow> p_cwd s | Inr _ \<Rightarrow> Some dir)) s1"
    proof (rule wp_ifI)
      show "wp (fail ENOTDIR) (\<lambda>r s'. moved_cwd s s' \<and>
          p_cwd s' = (case r of Inl _ \<Rightarrow> p_cwd s | Inr _ \<Rightarrow> Some dir)) s1"
        using h moved_cwd_none [OF g] by (simp add: wp_fail shifts_def)
    next
      assume "\<not> vtype \<noteq> S_IFDIR"
      then have "fs_of s1 dir \<noteq> None" using h by simp
      with h show "wp (chain (vnode_incref dir) (\<lambda>_. chain (gets p_cwd) (\<lambda>old.
            chain (modify (\<lambda>s. s\<lparr>p_cwd := Some dir\<rparr>)) (\<lambda>_. drop_old F old))))
          (\<lambda>r s'. moved_cwd s s' \<and> p_cwd s' = (case r of Inl _ \<Rightarrow> p_cwd s | Inr _ \<Rightarrow> Some dir)) s1"
        by (intro wp_mono [OF rest]) auto
    qed
  qed
qed

lemma chdir_moved:
  assumes g: "good s"
  shows "wp (vfs_chdir F path) (\<lambda>r s'. moved_cwd s s' \<and> (\<forall>e. r = Inl e \<longrightarrow> p_cwd s' = p_cwd s)) s"
  unfolding vfs_chdir_def
proof (rule wp_chainI [OF lookup_hands [OF g]])
  fix e s1
  assume "hands one s (Inl e) s1"
  then show "moved_cwd s s1 \<and> (\<forall>e'. Inl e = (Inl e' :: errno + unit) \<longrightarrow> p_cwd s1 = p_cwd s)"
    using moved_cwd_none [OF g, of s1] by (simp add: shifts_def)
next
  fix v s1
  assume "hands one s (Inr v) s1"
  then have sh: "shifts (one v) s s1" by simp
  then have g1: "good s1" "1 \<le> loose s1 v" and same: "p_cwd s1 = p_cwd s"
    using good_one [OF g sh] by (simp_all add: shifts_def)
  show "wp (handle (vfs_setcurdir F v) (release_vnode F v))
      (\<lambda>r s'. moved_cwd s s' \<and> (\<forall>e. r = Inl e \<longrightarrow> p_cwd s' = p_cwd s)) s1"
  proof (rule wp_handleI [OF setcurdir_moved [OF g1]])
    fix r :: "errno + unit" and s2
    assume m: "moved_cwd s1 s2 \<and> p_cwd s2 = (case r of Inl _ \<Rightarrow> p_cwd s1 | Inr _ \<Rightarrow> Some v)"
    then have g2: "good s2" "1 \<le> loose s2 v" using g1 by (simp_all add: moved_cwd_def)
    have "moved_cwd s s3" if d: "shifts (minus_one v) s2 s3" for s3
    proof -
      have "good s3" by (rule good_minus_one [OF g2 d])
      moreover have "loose s3 = loose s"
        using loose_shifts [OF sh] loose_shifts [OF d] m
        by (simp add: moved_cwd_def fun_eq_iff one_def minus_one_def)
      ultimately show ?thesis using m sh d by (simp add: moved_cwd_def shifts_def)
    qed
    then show "wp (release_vnode F v r)
        (\<lambda>r s'. moved_cwd s s' \<and> (\<forall>e. r = Inl e \<longrightarrow> p_cwd s' = p_cwd s)) s2"
      using m same by (intro wp_mono [OF release_shifts [OF g2]]) (auto simp: shifts_def)
  qed
qed

end

end
