(* ===== verification/Device.thy ===== *)
theory Device
  imports Vfs_Refs "HOL-Library.Signed_Division"
begin

text \<open>
  Vnodes of devices: \<^verbatim>\<open>kern/vfs/device.c\<close>, the failing operations of \<^verbatim>\<open>vfsfail.c\<close> and the null
  device of \<^verbatim>\<open>devnull.c\<close>. The functions in \<^verbatim>\<open>d_ops\<close> are a record of drivers; the functions of
  a vnode are those of \<open>device.c\<close> when \<^verbatim>\<open>vn_ops\<close> says so and otherwise those of the file system
  below, so \<open>dev_layer\<close> makes an \<open>fsops\<close> from an \<open>fsops\<close>. It keeps the contract of
  \<open>vnode_provider\<close>.
\<close>

record device =
  d_blocks :: u32
  d_blocksize :: u32

record 'f driver =
  devop_eachopen :: "nat \<Rightarrow> u32 \<Rightarrow> ('f vfs, unit) op"
  devop_io :: "nat \<Rightarrow> uio \<Rightarrow> ('f vfs, uio) op"

section \<open>The failing operations: \<^verbatim>\<open>vfs/vfsfail.c\<close>\<close>

definition vopfail_uio_inval :: "nat \<Rightarrow> uio \<Rightarrow> ('f vfs, uio) op" where
  "vopfail_uio_inval vn u = fail EINVAL"

definition vopfail_creat_notdir :: "nat \<Rightarrow> string \<Rightarrow> bool \<Rightarrow> u32 \<Rightarrow> ('f vfs, nat) op" where
  "vopfail_creat_notdir vn name excl mode = fail ENOTDIR"

definition vopfail_symlink_notdir :: "nat \<Rightarrow> string \<Rightarrow> string \<Rightarrow> ('f vfs, unit) op" where
  "vopfail_symlink_notdir vn contents name = fail ENOTDIR"

definition vopfail_mkdir_notdir :: "nat \<Rightarrow> string \<Rightarrow> u32 \<Rightarrow> ('f vfs, unit) op" where
  "vopfail_mkdir_notdir vn name mode = fail ENOTDIR"

definition vopfail_link_notdir :: "nat \<Rightarrow> string \<Rightarrow> nat \<Rightarrow> ('f vfs, unit) op" where
  "vopfail_link_notdir dir name file = fail ENOTDIR"

definition vopfail_string_notdir :: "nat \<Rightarrow> string \<Rightarrow> ('f vfs, unit) op" where
  "vopfail_string_notdir vn name = fail ENOTDIR"

definition vopfail_rename_notdir :: "nat \<Rightarrow> string \<Rightarrow> nat \<Rightarrow> string \<Rightarrow> ('f vfs, unit) op" where
  "vopfail_rename_notdir fromdir fromname todir toname = fail ENOTDIR"

definition vopfail_lookparent_notdir :: "nat \<Rightarrow> string \<Rightarrow> nat \<Rightarrow> ('f vfs, nat \<times> string) op" where
  "vopfail_lookparent_notdir vn path buflen = fail ENOTDIR"

section \<open>Devices: \<^verbatim>\<open>vfs/device.c\<close>\<close>

text \<open>\<^verbatim>\<open>struct device *d = v->vn_data\<close>; a null pointer stops the kernel when it is followed.\<close>

definition with_dev :: "nat \<Rightarrow> (nat \<Rightarrow> ('f vfs, 'a) op) \<Rightarrow> ('f vfs, 'a) op" where
  "with_dev v f = (\<lambda>s. case vnodes s v of
       None \<Rightarrow> None
     | Some x \<Rightarrow> (case vn_data x of None \<Rightarrow> None | Some d \<Rightarrow> f d s))"

definition dev_eachopen :: "'f driver \<Rightarrow> nat \<Rightarrow> u32 \<Rightarrow> ('f vfs, unit) op" where
  "dev_eachopen D v flags = with_dev v (\<lambda>d.
     if flags AND (O_CREAT OR O_TRUNC OR O_EXCL OR O_APPEND) \<noteq> 0 then fail EINVAL
     else devop_eachopen D d flags)"

definition dev_reclaim :: "nat \<Rightarrow> ('f vfs, unit) op" where
  "dev_reclaim v = succeed ()"

text \<open>\<^verbatim>\<open>off_t\<close> is signed and 64 bits wide; division truncates towards zero. A block size of 0 divides
  by zero.\<close>

definition dev_tryseek :: "device \<Rightarrow> 64 word \<Rightarrow> ('f vfs, unit) op" where
  "dev_tryseek d pos =
     (if d_blocks d = 0 then succeed ()
      else if d_blocksize d = 0 then panic
      else if sint pos smod uint (d_blocksize d) \<noteq> 0 then fail EINVAL
      else if sint pos sdiv uint (d_blocksize d) \<ge> uint (d_blocks d) then fail EINVAL
      else succeed ())"

definition dev_read :: "'f driver \<Rightarrow> (nat \<Rightarrow> device) \<Rightarrow> nat \<Rightarrow> uio \<Rightarrow> ('f vfs, uio) op" where
  "dev_read D devs v u = with_dev v (\<lambda>d.
     chain (dev_tryseek (devs d) (uio_offset u)) (\<lambda>_.
     chain (ensure (\<lambda>_. uio_rw u = UIO_READ)) (\<lambda>_. devop_io D d u)))"

definition dev_write :: "'f driver \<Rightarrow> (nat \<Rightarrow> device) \<Rightarrow> nat \<Rightarrow> uio \<Rightarrow> ('f vfs, uio) op" where
  "dev_write D devs v u = with_dev v (\<lambda>d.
     chain (dev_tryseek (devs d) (uio_offset u)) (\<lambda>_.
     chain (ensure (\<lambda>_. uio_rw u = UIO_WRITE)) (\<lambda>_. devop_io D d u)))"

text \<open>The size is multiplied in 32 bits and then widened.\<close>

definition dev_size :: "device \<Rightarrow> 64 word" where
  "dev_size d = ucast (d_blocks d * d_blocksize d)"

definition dev_stat :: "(nat \<Rightarrow> device) \<Rightarrow> nat \<Rightarrow> ('f vfs, 64 word) op" where
  "dev_stat devs v = with_dev v (\<lambda>d.
     succeed (if 0 < d_blocks (devs d) then dev_size (devs d) else 0))"

abbreviation (input) S_IFCHR :: u32 where "S_IFCHR \<equiv> 0x6000"
abbreviation (input) S_IFBLK :: u32 where "S_IFBLK \<equiv> 0x7000"

definition dev_gettype :: "(nat \<Rightarrow> device) \<Rightarrow> nat \<Rightarrow> ('f vfs, u32) op" where
  "dev_gettype devs v = with_dev v (\<lambda>d.
     succeed (if 0 < d_blocks (devs d) then S_IFBLK else S_IFCHR))"

definition dev_isseekable :: "(nat \<Rightarrow> device) \<Rightarrow> nat \<Rightarrow> 'f vfs \<Rightarrow> bool" where
  "dev_isseekable devs v s = (case vnodes s v of
       None \<Rightarrow> False
     | Some x \<Rightarrow> (case vn_data x of None \<Rightarrow> False | Some d \<Rightarrow> d_blocks (devs d) \<noteq> 0))"

definition dev_truncate :: "(nat \<Rightarrow> device) \<Rightarrow> nat \<Rightarrow> 64 word \<Rightarrow> ('f vfs, unit) op" where
  "dev_truncate devs v n = with_dev v (\<lambda>d.
     if 0 < d_blocks (devs d) \<and> dev_size (devs d) = n then succeed () else fail EINVAL)"

definition dev_namefile :: "nat \<Rightarrow> uio \<Rightarrow> ('f vfs, uio) op" where
  "dev_namefile v u = succeed u"

definition dev_lookup :: "nat \<Rightarrow> string \<Rightarrow> ('f vfs, nat) op" where
  "dev_lookup dir pathname =
     (if pathname \<noteq> [] then fail ENOENT
      else chain (vnode_incref dir) (\<lambda>_. succeed dir))"

section \<open>Dispatch on \<^verbatim>\<open>vn_ops\<close>\<close>

definition by_ops :: "nat \<Rightarrow> ('f vfs, 'a) op \<Rightarrow> ('f vfs, 'a) op \<Rightarrow> ('f vfs, 'a) op" where
  "by_ops v f g = (\<lambda>s. if isdev s v then f s else g s)"

definition dev_layer :: "'f driver \<Rightarrow> (nat \<Rightarrow> device) \<Rightarrow> 'f fsops \<Rightarrow> 'f fsops" where
  "dev_layer D devs B = \<lparr>
     vop_eachopen = (\<lambda>v fl. by_ops v (dev_eachopen D v fl) (vop_eachopen B v fl)),
     vop_reclaim = (\<lambda>v. by_ops v (dev_reclaim v) (vop_reclaim B v)),
     vop_read = (\<lambda>v u. by_ops v (dev_read D devs v u) (vop_read B v u)),
     vop_readlink = (\<lambda>v u. by_ops v (vopfail_uio_inval v u) (vop_readlink B v u)),
     vop_write = (\<lambda>v u. by_ops v (dev_write D devs v u) (vop_write B v u)),
     vop_stat = (\<lambda>v. by_ops v (dev_stat devs v) (vop_stat B v)),
     vop_gettype = (\<lambda>v. by_ops v (dev_gettype devs v) (vop_gettype B v)),
     vop_isseekable = (\<lambda>v s. if isdev s v then dev_isseekable devs v s else vop_isseekable B v s),
     vop_truncate = (\<lambda>v n. by_ops v (dev_truncate devs v n) (vop_truncate B v n)),
     vop_namefile = (\<lambda>v u. by_ops v (dev_namefile v u) (vop_namefile B v u)),
     vop_creat = (\<lambda>v nm x m. by_ops v (vopfail_creat_notdir v nm x m) (vop_creat B v nm x m)),
     vop_symlink = (\<lambda>v nm c. by_ops v (vopfail_symlink_notdir v nm c) (vop_symlink B v nm c)),
     vop_mkdir = (\<lambda>v nm m. by_ops v (vopfail_mkdir_notdir v nm m) (vop_mkdir B v nm m)),
     vop_link = (\<lambda>v nm w. by_ops v (vopfail_link_notdir v nm w) (vop_link B v nm w)),
     vop_remove = (\<lambda>v nm. by_ops v (vopfail_string_notdir v nm) (vop_remove B v nm)),
     vop_rmdir = (\<lambda>v nm. by_ops v (vopfail_string_notdir v nm) (vop_rmdir B v nm)),
     vop_rename = (\<lambda>v nm w nm'. by_ops v (vopfail_rename_notdir v nm w nm') (vop_rename B v nm w nm')),
     vop_lookup = (\<lambda>v p. by_ops v (dev_lookup v p) (vop_lookup B v p)),
     vop_lookparent = (\<lambda>v p n. by_ops v (vopfail_lookparent_notdir v p n) (vop_lookparent B v p n)),
     fsop_sync = fsop_sync B, fsop_unmount = fsop_unmount B, fsop_getvolname = fsop_getvolname B,
     fsop_getroot = fsop_getroot B\<rparr>"

section \<open>The null device: \<^verbatim>\<open>vfs/devnull.c\<close>\<close>

definition nullopen :: "nat \<Rightarrow> u32 \<Rightarrow> ('f vfs, unit) op" where
  "nullopen dev openflags = succeed ()"

definition nullio :: "nat \<Rightarrow> uio \<Rightarrow> ('f vfs, uio) op" where
  "nullio dev u = succeed (if uio_rw u = UIO_WRITE then u\<lparr>uio_resid := 0\<rparr> else u)"

definition null_driver :: "'f driver" where
  "null_driver = \<lparr>devop_eachopen = nullopen, devop_io = nullio\<rparr>"

definition null_device :: device where
  "null_device = \<lparr>d_blocks = 0, d_blocksize = 1\<rparr>"

text \<open>The five allocations of \<^verbatim>\<open>vfs_adddev\<close> and one of its own before them; a failure panics.\<close>

definition devnull_create :: "'f fsops \<Rightarrow> bool list \<Rightarrow> nat \<Rightarrow> nat \<Rightarrow> ('f vfs, unit) op" where
  "devnull_create F mem dev new =
     chain (ensure (\<lambda>_. mem ! 0)) (\<lambda>_.
     handle (vfs_adddev F (tl mem) new ''null'' dev False) (\<lambda>r. case r of
       Inl _ \<Rightarrow> panic
     | Inr _ \<Rightarrow> succeed ()))"

section \<open>The contract\<close>

lemma wp_by_ops: "wp (by_ops v f g) Q s \<longleftrightarrow> (if isdev s v then wp f Q s else wp g Q s)"
  by (simp add: by_ops_def wp_def)

lemma wp_with_dev:
  "0 < refcount s v \<Longrightarrow> isdev s v \<Longrightarrow> usable s v \<Longrightarrow> (\<And>d. wp (f d) Q s) \<Longrightarrow> wp (with_dev v f) Q s"
  by (auto simp: with_dev_def wp_def refcount_def isdev_def usable_def split: option.splits)

lemma wp_with_dev_iff:
  "wp (with_dev v f) Q s \<longleftrightarrow> (case vnodes s v of None \<Rightarrow> False
     | Some x \<Rightarrow> (case vn_data x of None \<Rightarrow> False | Some d \<Rightarrow> wp (f d) Q s))"
  by (simp add: with_dev_def wp_def split: option.split)

locale device_layer = base: vnode_provider B for B :: "'f fsops" +
  fixes D :: "'f driver" and devs :: "nat \<Rightarrow> device"
  assumes dev_open: "good s \<Longrightarrow> wp (devop_eachopen D d fl) (hands (\<lambda>_. none) s) s"
begin

lemma dev_call:
  assumes "good s" "1 \<le> loose s v" "isdev s v" and "\<And>d. wp (f d) Q s"
  shows "wp (with_dev v f) Q s"
  using assms(3,4) good_usable [OF assms(1), of v] assms(2) loose_refcount [of s v]
  by (intro wp_with_dev) auto

sublocale layered: vnode_provider "dev_layer D devs B"
proof (unfold_locales, goal_cases)
  case (1 s v fl)
  then show ?case using base.eachopen [OF 1] dev_open [OF 1(1)]
    by (auto simp: dev_layer_def wp_by_ops dev_eachopen_def wp_fail intro!: dev_call)
next
  case (2 s v)
  have "\<not> isdev s v"
  proof
    assume "isdev s v"
    then have "v \<in> kd_vnode ` set (knowndevs s)" using 2(1) by (simp add: good_def)
    then have "count_list (map kd_vnode (knowndevs s)) v \<noteq> 0" by (simp add: count_list_0_iff)
    then show False using 2(3) by (simp add: held_def of_bool_def split: if_splits)
  qed
  then show ?case using base.reclaim [OF 2] by (simp add: dev_layer_def wp_by_ops)
next
  case (3 s v u)
  then show ?case using base.readlink [OF 3] by (simp add: dev_layer_def wp_by_ops vopfail_uio_inval_def wp_fail)
next
  case (4 s v)
  then show ?case using base.gettype [OF 4]
    by (auto simp: dev_layer_def wp_by_ops dev_gettype_def wp_succeed intro!: dev_call)
next
  case (5 s v n)
  then show ?case using base.truncate [OF 5]
    by (auto simp: dev_layer_def wp_by_ops dev_truncate_def wp_succeed wp_fail intro!: dev_call)
next
  case (6 s v u)
  then show ?case using base.namefile [OF 6] by (simp add: dev_layer_def wp_by_ops dev_namefile_def wp_succeed)
next
  case (7 s v nm excl mode)
  then show ?case using base.creat [OF 7] by (simp add: dev_layer_def wp_by_ops vopfail_creat_notdir_def wp_fail)
next
  case (8 s v nm c)
  then show ?case using base.symlink [OF 8] by (simp add: dev_layer_def wp_by_ops vopfail_symlink_notdir_def wp_fail)
next
  case (9 s v nm mode)
  then show ?case using base.mkdir [OF 9] by (simp add: dev_layer_def wp_by_ops vopfail_mkdir_notdir_def wp_fail)
next
  case (10 s v w nm)
  then show ?case using base.link [OF 10] by (simp add: dev_layer_def wp_by_ops vopfail_link_notdir_def wp_fail)
next
  case (11 s v nm)
  then show ?case using base.remove [OF 11] by (simp add: dev_layer_def wp_by_ops vopfail_string_notdir_def wp_fail)
next
  case (12 s v nm)
  then show ?case using base.rmdir [OF 12] by (simp add: dev_layer_def wp_by_ops vopfail_string_notdir_def wp_fail)
next
  case (13 s v w nm nm')
  then show ?case using base.rename [OF 13] by (simp add: dev_layer_def wp_by_ops vopfail_rename_notdir_def wp_fail)
next
  case (14 s v p)
  have "0 < refcount s v" "usable s v"
    using 14 loose_refcount [of s v] good_usable [OF 14(1), of v] by simp_all
  note inc = vnode_incref_shifts [OF this]
  show ?case using base.lookup [OF 14]
    by (auto simp: dev_layer_def wp_by_ops dev_lookup_def wp_fail wp_succeed intro!: wp_chainI [OF inc])
next
  case (15 s v p n)
  then show ?case using base.lookparent [OF 15]
    by (simp add: dev_layer_def wp_by_ops vopfail_lookparent_notdir_def wp_fail)
next
  case (16 s fs)
  then show ?case using base.getroot [OF 16] by (simp add: dev_layer_def)
qed

end


text \<open>Below the devices when no file system is mounted: the operations of a vnode that nobody
  provides fail, and reclaiming one takes its last reference.\<close>

definition no_fs :: "'f fsops" where
  "no_fs = \<lparr>
     vop_eachopen = (\<lambda>v fl. fail ENODEV),
     vop_reclaim = (\<lambda>v. modify (upd_vnode v (\<lambda>x. x\<lparr>vn_refcount := vn_refcount x - 1\<rparr>))),
     vop_read = (\<lambda>v u. fail ENODEV), vop_readlink = (\<lambda>v u. fail ENODEV),
     vop_write = (\<lambda>v u. fail ENODEV), vop_stat = (\<lambda>v. fail ENODEV), vop_gettype = (\<lambda>v. fail ENODEV),
     vop_isseekable = (\<lambda>v s. False), vop_truncate = (\<lambda>v n. fail ENODEV),
     vop_namefile = (\<lambda>v u. fail ENODEV), vop_creat = (\<lambda>v nm x m. fail ENODEV),
     vop_symlink = (\<lambda>v nm c. fail ENODEV), vop_mkdir = (\<lambda>v nm m. fail ENODEV),
     vop_link = (\<lambda>v nm w. fail ENODEV), vop_remove = (\<lambda>v nm. fail ENODEV),
     vop_rmdir = (\<lambda>v nm. fail ENODEV), vop_rename = (\<lambda>v nm w nm'. fail ENODEV),
     vop_lookup = (\<lambda>v p. fail ENODEV), vop_lookparent = (\<lambda>v p n. fail ENODEV),
     fsop_sync = (\<lambda>fs. succeed ()), fsop_unmount = (\<lambda>fs. fail EBUSY),
     fsop_getvolname = (\<lambda>fs s. None), fsop_getroot = (\<lambda>fs. fail ENODEV)\<rparr>"

interpretation bare: vnode_provider no_fs
proof (unfold_locales, goal_cases)
  case (2 s v)
  then obtain x where "vnodes s v = Some x" "vn_refcount x = refcount s v"
    using refcount_Some [of s v] by auto
  then show ?case
    by (auto simp: no_fs_def wp_modify shifts_def refcount_upd fs_of_upd minus_one_def of_bool_def)
qed (simp_all add: no_fs_def wp_fail)

definition null_kernel :: "'f fsops" where
  "null_kernel = dev_layer null_driver (\<lambda>_. null_device) no_fs"

interpretation nulldev: device_layer no_fs null_driver "\<lambda>_. null_device"
  by unfold_locales (simp add: null_driver_def nullopen_def wp_succeed)

lemma null_kernel_provides: "vnode_provider null_kernel"
  unfolding null_kernel_def by (rule nulldev.layered.vnode_provider_axioms)

section \<open>The VFS keeps its references in balance\<close>

lemma hands_balanced:
  assumes "good s" and "hands d s r s'" and "\<And>x v. 0 \<le> d x v"
  shows "good s' \<and> loose s' = plus (loose s) (case r of Inl _ \<Rightarrow> none | Inr x \<Rightarrow> d x)"
proof
  have sh: "shifts (case r of Inl _ \<Rightarrow> none | Inr x \<Rightarrow> d x) s s'" using assms(2) by (simp add: hands_def)
  show "good s'"
    by (rule good_shifts_up [OF assms(1) sh]) (use assms(3) in \<open>auto simp: none_def split: sum.split\<close>)
  show "loose s' = plus (loose s) (case r of Inl _ \<Rightarrow> none | Inr x \<Rightarrow> d x)"
    using loose_shifts [OF sh] by (simp add: plus_def fun_eq_iff)
qed

definition balanced :: "'f vfs \<Rightarrow> errno + unit \<Rightarrow> 'f vfs \<Rightarrow> bool" where
  "balanced s r s' \<longleftrightarrow> good s' \<and> loose s' = loose s"

lemma hands_none_balanced: "good s \<Longrightarrow> hands (\<lambda>_. none) s r s' \<Longrightarrow> balanced s r s'"
  using hands_balanced [of s "\<lambda>_. none" r s'] by (auto simp: balanced_def none_def plus_def split: sum.splits)

lemma balanced_call: "good s \<Longrightarrow> wp f (hands (\<lambda>_. none) s) s \<Longrightarrow> wp f (balanced s) s"
  by (erule wp_mono) (rule hands_none_balanced)


text \<open>Every other path operation of the VFS, \<^verbatim>\<open>vfs_rename\<close> and \<^verbatim>\<open>vfs_link\<close> with their two
  directories included, returns every reference it took, whether it succeeds or fails.\<close>

theorem vfs_paths_balanced:
  assumes "vnode_provider F" and "good s"
  shows "wp (vfs_remove F p) (balanced s) s \<and> wp (vfs_rename F p q) (balanced s) s \<and>
    wp (vfs_link F p q) (balanced s) s \<and> wp (vfs_symlink F c p) (balanced s) s \<and>
    wp (vfs_mkdir F p mode) (balanced s) s \<and> wp (vfs_rmdir F p) (balanced s) s"
proof -
  note call = balanced_call [OF assms(2)]
  show ?thesis
    using call [OF vnode_provider.remove_hands [OF assms]] call [OF vnode_provider.rename_hands [OF assms]]
      call [OF vnode_provider.link_hands [OF assms]] call [OF vnode_provider.symlink_hands [OF assms]]
      call [OF vnode_provider.mkdir_hands [OF assms]] call [OF vnode_provider.rmdir_hands [OF assms]]
    by blast
qed

text \<open>\<^verbatim>\<open>vfs_chdir\<close> moves the process's own reference from the old current directory to the
  new one: no reference is lost or gained, the current directory always belongs to a file system, and
  an error leaves it where it was.\<close>

theorem vfs_chdir_moves:
  assumes "vnode_provider F" and "good s"
  shows "wp (vfs_chdir F path) (\<lambda>r s'. good s' \<and> loose s' = loose s \<and>
    (\<forall>e. r = Inl e \<longrightarrow> p_cwd s' = p_cwd s)) s"
  by (rule wp_mono [OF vnode_provider.chdir_moved [OF assms]]) (simp add: moved_cwd_def)

text \<open>\<^verbatim>\<open>vfs_setbootfs\<close> refuses every name that contains a colon in its first 254 characters,
  a single one at the end included: the test meant for text after the colon counts the colon
  itself.\<close>

theorem vfs_setbootfs_colon:
  assumes "CHR '':'' \<in> set (take 254 fsname)" and "good s"
  shows "vfs_setbootfs F fsname s = Some (Inl EINVAL, s)"
proof -
  have "dropWhile (\<lambda>c. c \<noteq> CHR '':'') (take 254 fsname) \<noteq> []"
    using assms(1) by (auto simp: dropWhile_eq_Nil_conv)
  moreover have "s\<lparr>biglock := (biglock_depth s + 1 \<noteq> 1), biglock_depth := biglock_depth s + 1 - 1\<rparr> = s"
    using assms(2) by (cases s) (simp add: good_def)
  ultimately show ?thesis
    by (simp add: vfs_setbootfs_def locked_def vfs_biglock_acquire_def vfs_biglock_release_def
        chain_def handle_def modify_def ensure_def fail_def give_def Let_def)
qed

section \<open>Witnesses\<close>

definition null_knowndev :: knowndev where
  "null_knowndev = \<lparr>kd_name = ''null'', kd_rawname = None, kd_device = Some 7, kd_vnode = 1, kd_fs = None\<rparr>"

definition sample_vfs :: "unit vfs" where
  "sample_vfs = \<lparr>vnodes = [1 \<mapsto> \<lparr>vn_refcount = 1, vn_fs = None, vn_isdev = True, vn_data = Some 7\<rparr>],
     knowndevs = [null_knowndev], biglock = False, biglock_depth = 0, bootfs_vnode = None, p_cwd = None,
     d_devnumber = [7 \<mapsto> 1], user = sample_memory, fsdata = ()\<rparr>"

lemma sample_vfs_good: "good sample_vfs"
  by (simp add: good_def sample_vfs_def null_knowndev_def loose_def held_def refcount_def devices_ok_def
      isdev_def usable_def)



theorem vfs_paths_balanced_witness:
  "wp (vfs_rename null_kernel ''null:a'' ''null:b'') (balanced sample_vfs) sample_vfs"
  using vfs_paths_balanced [OF null_kernel_provides sample_vfs_good] by blast

theorem vfs_chdir_moves_witness:
  "wp (vfs_chdir null_kernel ''null:'') (\<lambda>r s'. loose s' = loose sample_vfs) sample_vfs"
  by (rule wp_mono [OF vfs_chdir_moves [OF null_kernel_provides sample_vfs_good]]) simp

theorem vfs_setbootfs_colon_witness:
  "vfs_setbootfs null_kernel ''null:'' sample_vfs = Some (Inl EINVAL, sample_vfs)"
  by (rule vfs_setbootfs_colon [OF _ sample_vfs_good]) simp

end
