(* ===== verification/Openfile.thy ===== *)
theory Openfile
  imports Device
begin

text \<open>
  Open files and file tables: \<^verbatim>\<open>kern/syscall/openfile.c\<close> and \<^verbatim>\<open>kern/syscall/filetable.c\<close>.

  The state adds to the VFS the open files, by address, and the file tables: a table is named by its
  index in \<open>filetables\<close> and is a list of \<^verbatim>\<open>OPEN_MAX\<close> slots, empty once it is destroyed. The address
  that \<^verbatim>\<open>kmalloc\<close> gives, or None, and whether \<^verbatim>\<open>lock_create\<close> succeeds come from the caller. The
  spinlock of an open file only makes the change of its reference count atomic and is not a part of
  the state; \<open>of_offsetlock\<close> says that the lock of the seek position is held.
\<close>

section \<open>State\<close>

record openfile =
  of_vnode :: nat
  of_accmode :: u32
  of_offsetlock :: bool
  of_offset :: "64 word"
  of_refcount :: int

record 'f kfs =
  vfs_of :: "'f vfs"
  openfiles :: "nat \<Rightarrow> openfile option"
  filetables :: "nat option list list"

abbreviation (input) OPEN_MAX :: nat where "OPEN_MAX \<equiv> 128"

text \<open>A call of the VFS.\<close>

definition on_vfs :: "('f vfs, 'a) op \<Rightarrow> ('f kfs, 'a) op" where
  "on_vfs f = (\<lambda>s. case f (vfs_of s) of
     None \<Rightarrow> None
   | Some (r, v) \<Rightarrow> Some (r, s\<lparr>vfs_of := v\<rparr>))"

lemma wp_on_vfs [wp_simps]:
  "wp (on_vfs f) Q s \<longleftrightarrow> wp f (\<lambda>r v. Q r (s\<lparr>vfs_of := v\<rparr>)) (vfs_of s)"
  by (auto simp: on_vfs_def wp_def split: option.splits)

section \<open>Open files: \<^verbatim>\<open>openfile.c\<close>\<close>

definition upd_openfile :: "nat \<Rightarrow> (openfile \<Rightarrow> openfile) \<Rightarrow> ('f kfs, unit) op" where
  "upd_openfile f g = chain (ensure (\<lambda>s. openfiles s f \<noteq> None)) (\<lambda>_.
     modify (\<lambda>s. s\<lparr>openfiles := (openfiles s)(f := map_option g (openfiles s f))\<rparr>))"

definition openfile_create :: "nat option \<Rightarrow> bool \<Rightarrow> nat \<Rightarrow> u32 \<Rightarrow> ('f kfs, nat option) op" where
  "openfile_create new lock vn accmode =
     chain (ensure (\<lambda>_. accmode = O_RDONLY \<or> accmode = O_WRONLY \<or> accmode = O_RDWR)) (\<lambda>_.
     case new of
       None \<Rightarrow> succeed None
     | Some f \<Rightarrow>
         if \<not> lock then succeed None
         else chain (modify (\<lambda>s. s\<lparr>openfiles := (openfiles s)(f \<mapsto>
             \<lparr>of_vnode = vn, of_accmode = accmode, of_offsetlock = False, of_offset = 0, of_refcount = 1\<rparr>)\<rparr>))
           (\<lambda>_. succeed (Some f)))"

definition openfile_destroy :: "'f fsops \<Rightarrow> nat \<Rightarrow> ('f kfs, unit) op" where
  "openfile_destroy F f =
     chain (gets (\<lambda>s. openfiles s f)) (\<lambda>x. case x of
       None \<Rightarrow> panic
     | Some file \<Rightarrow>
         chain (on_vfs (vfs_close F (of_vnode file))) (\<lambda>_.
         chain (ensure (\<lambda>_. \<not> of_offsetlock file)) (\<lambda>_.
         modify (\<lambda>s. s\<lparr>openfiles := (openfiles s)(f := None)\<rparr>))))"

definition openfile_open :: "'f fsops \<Rightarrow> nat option \<Rightarrow> bool \<Rightarrow> string \<Rightarrow> u32 \<Rightarrow> u32 \<Rightarrow> ('f kfs, nat) op" where
  "openfile_open F new lock filename openflags mode =
     chain (on_vfs (vfs_open F filename openflags mode)) (\<lambda>vn.
     chain (openfile_create new lock vn (openflags AND O_ACCMODE)) (\<lambda>file. case file of
       None \<Rightarrow> chain (on_vfs (vfs_close F vn)) (\<lambda>_. fail ENOMEM)
     | Some f \<Rightarrow> succeed f))"

definition openfile_incref :: "nat \<Rightarrow> ('f kfs, unit) op" where
  "openfile_incref f = upd_openfile f (\<lambda>x. x\<lparr>of_refcount := of_refcount x + 1\<rparr>)"

definition openfile_decref :: "'f fsops \<Rightarrow> nat \<Rightarrow> ('f kfs, unit) op" where
  "openfile_decref F f =
     chain (gets (\<lambda>s. openfiles s f)) (\<lambda>x. case x of
       None \<Rightarrow> panic
     | Some file \<Rightarrow>
         if of_refcount file = 1 then openfile_destroy F f
         else chain (ensure (\<lambda>_. of_refcount file > 1)) (\<lambda>_.
           upd_openfile f (\<lambda>x. x\<lparr>of_refcount := of_refcount x - 1\<rparr>)))"

section \<open>File tables: \<^verbatim>\<open>filetable.c\<close>\<close>

definition fd_slot :: "'f kfs \<Rightarrow> nat \<Rightarrow> nat \<Rightarrow> nat option" where
  "fd_slot s ft fd = filetables s ! ft ! fd"

definition set_slot :: "nat \<Rightarrow> nat \<Rightarrow> nat option \<Rightarrow> ('f kfs, unit) op" where
  "set_slot ft fd x = modify (\<lambda>s. s\<lparr>filetables :=
     (filetables s)[ft := (filetables s ! ft)[fd := x]]\<rparr>)"

definition filetable_create :: "bool \<Rightarrow> ('f kfs, nat option) op" where
  "filetable_create mem =
     (if \<not> mem then succeed None
      else chain (gets (\<lambda>s. length (filetables s))) (\<lambda>ft.
        chain (modify (\<lambda>s. s\<lparr>filetables := filetables s @ [replicate OPEN_MAX None]\<rparr>)) (\<lambda>_.
        succeed (Some ft))))"

primrec close_each :: "'f fsops \<Rightarrow> nat \<Rightarrow> nat list \<Rightarrow> ('f kfs, unit) op" where
  "close_each F ft [] = succeed ()"
| "close_each F ft (fd # fds) =
     chain (gets (\<lambda>s. fd_slot s ft fd)) (\<lambda>x. case x of
       None \<Rightarrow> close_each F ft fds
     | Some f \<Rightarrow>
         chain (openfile_decref F f) (\<lambda>_.
         chain (set_slot ft fd None) (\<lambda>_. close_each F ft fds)))"

definition filetable_destroy :: "'f fsops \<Rightarrow> nat \<Rightarrow> ('f kfs, unit) op" where
  "filetable_destroy F ft =
     chain (close_each F ft [0..<OPEN_MAX]) (\<lambda>_.
     modify (\<lambda>s. s\<lparr>filetables := (filetables s)[ft := []]\<rparr>))"

primrec share_each :: "nat \<Rightarrow> nat \<Rightarrow> nat list \<Rightarrow> ('f kfs, unit) op" where
  "share_each src dest [] = succeed ()"
| "share_each src dest (fd # fds) =
     chain (gets (\<lambda>s. fd_slot s src fd)) (\<lambda>file.
     chain (case file of None \<Rightarrow> succeed () | Some f \<Rightarrow> openfile_incref f) (\<lambda>_.
     chain (set_slot dest fd file) (\<lambda>_. share_each src dest fds)))"

definition filetable_copy :: "bool \<Rightarrow> nat option \<Rightarrow> ('f kfs, nat option) op" where
  "filetable_copy mem src =
     (case src of
        None \<Rightarrow> succeed None
      | Some ft \<Rightarrow>
          chain (filetable_create mem) (\<lambda>x. case x of
            None \<Rightarrow> fail ENOMEM
          | Some dest \<Rightarrow> chain (share_each ft dest [0..<OPEN_MAX]) (\<lambda>_. succeed (Some dest))))"

definition filetable_okfd :: "int \<Rightarrow> bool" where
  "filetable_okfd fd \<longleftrightarrow> 0 \<le> fd \<and> fd < int OPEN_MAX"

definition filetable_get :: "nat \<Rightarrow> int \<Rightarrow> ('f kfs, nat) op" where
  "filetable_get ft fd =
     (if \<not> filetable_okfd fd then fail EBADF
      else chain (gets (\<lambda>s. fd_slot s ft (nat fd))) (\<lambda>file. case file of
        None \<Rightarrow> fail EBADF
      | Some f \<Rightarrow> succeed f))"

definition filetable_put :: "nat \<Rightarrow> int \<Rightarrow> nat \<Rightarrow> ('f kfs, unit) op" where
  "filetable_put ft fd f = ensure (\<lambda>s. fd_slot s ft (nat fd) = Some f)"

definition filetable_place :: "nat \<Rightarrow> nat \<Rightarrow> ('f kfs, int) op" where
  "filetable_place ft f =
     chain (gets (\<lambda>s. find_from (\<lambda>fd. fd_slot s ft fd = None) 0 OPEN_MAX)) (\<lambda>x. case x of
       None \<Rightarrow> fail EMFILE
     | Some fd \<Rightarrow> chain (set_slot ft fd (Some f)) (\<lambda>_. succeed (int fd)))"

definition filetable_placeat :: "nat \<Rightarrow> nat option \<Rightarrow> int \<Rightarrow> ('f kfs, nat option) op" where
  "filetable_placeat ft newfile fd =
     chain (ensure (\<lambda>_. filetable_okfd fd)) (\<lambda>_.
     chain (gets (\<lambda>s. fd_slot s ft (nat fd))) (\<lambda>old.
     chain (set_slot ft (nat fd) newfile) (\<lambda>_. succeed old)))"

section \<open>Counting references\<close>

text \<open>How often an open file stands in the tables, and how many open files use a vnode.\<close>

definition in_tables :: "nat option list list \<Rightarrow> nat \<Rightarrow> int" where
  "in_tables ts f = int (count_list (concat ts) (Some f))"

definition users :: "(nat \<Rightarrow> openfile option) \<Rightarrow> nat \<Rightarrow> nat set" where
  "users os v = {f. \<exists>x. os f = Some x \<and> of_vnode x = v}"

definition openfile_ok :: "openfile \<Rightarrow> bool" where
  "openfile_ok x \<longleftrightarrow> 0 < of_refcount x \<and> \<not> of_offsetlock x \<and>
     (of_accmode x = O_RDONLY \<or> of_accmode x = O_WRONLY \<or> of_accmode x = O_RDWR)"

text \<open>
  The books balance: every reference of an open file is in a slot or among the \<open>h\<close> that a running
  call has in hand, and every loose reference of a vnode belongs to one open file or to the \<open>base\<close>
  that others hold.
\<close>

definition counted :: "(nat \<Rightarrow> openfile option) \<Rightarrow> nat option list list \<Rightarrow> (nat \<Rightarrow> int) \<Rightarrow> nat \<Rightarrow> bool" where
  "counted os ts h f \<longleftrightarrow> (case os f of
       None \<Rightarrow> in_tables ts f = 0 \<and> h f = 0
     | Some x \<Rightarrow> openfile_ok x \<and> of_refcount x = in_tables ts f + h f)"

definition tables_ok :: "nat option list list \<Rightarrow> bool" where
  "tables_ok ts \<longleftrightarrow> (\<forall>t \<in> set ts. length t = OPEN_MAX \<or> t = [])"

definition owes :: "(nat \<Rightarrow> int) \<Rightarrow> (nat \<Rightarrow> int) \<Rightarrow> 'f kfs \<Rightarrow> bool" where
  "owes h base s \<longleftrightarrow> good (vfs_of s) \<and> finite (dom (openfiles s)) \<and>
     (\<forall>f. counted (openfiles s) (filetables s) h f) \<and>
     (\<forall>v. 0 \<le> base v \<and> loose (vfs_of s) v = base v + int (card (users (openfiles s) v))) \<and>
     tables_ok (filetables s)"

definition settled :: "(nat \<Rightarrow> int) \<Rightarrow> 'f kfs \<Rightarrow> bool" where
  "settled base s \<longleftrightarrow> owes none base s"

lemma count_list_update:
  "i < length xs \<Longrightarrow> int (count_list (xs[i := x]) y) =
    int (count_list xs y) - of_bool (xs ! i = y) + of_bool (x = y)"
proof (induction xs arbitrary: i)
  case (Cons a xs)
  then show ?case by (cases i) auto
qed simp

lemma in_tables_update:
  "i < length ts \<Longrightarrow> in_tables (ts[i := t]) f =
    in_tables ts f - int (count_list (ts ! i) (Some f)) + int (count_list t (Some f))"
proof (induction ts arbitrary: i)
  case (Cons a ts)
  then show ?case by (cases i) (auto simp: in_tables_def)
qed simp

lemma in_tables_slot:
  "ft < length ts \<Longrightarrow> fd < length (ts ! ft) \<Longrightarrow> in_tables (ts[ft := (ts ! ft)[fd := x]]) f =
    in_tables ts f - of_bool (ts ! ft ! fd = Some f) + of_bool (x = Some f)"
  by (simp add: in_tables_update count_list_update)

lemma in_tables_append: "in_tables (ts @ [t]) f = in_tables ts f + int (count_list t (Some f))"
  by (simp add: in_tables_def)

lemma users_update:
  assumes "finite (dom os)"
  shows "int (card (users (os(f := x)) v)) = int (card (users os v))
    - of_bool (\<exists>y. os f = Some y \<and> of_vnode y = v) + of_bool (\<exists>y. x = Some y \<and> of_vnode y = v)"
proof -
  have fin: "finite (users os v)"
    by (rule finite_subset [OF _ assms]) (auto simp: users_def)
  have "users (os(f := x)) v = (if \<exists>y. x = Some y \<and> of_vnode y = v then insert f (users os v) else users os v - {f})"
    by (auto simp: users_def)
  moreover have "f \<in> users os v \<longleftrightarrow> (\<exists>y. os f = Some y \<and> of_vnode y = v)" by (simp add: users_def)
  ultimately show ?thesis
    using fin card_gt_0_iff [of "users os v"] by (auto simp: card_insert_if card_Diff_singleton_if of_nat_diff)
qed

lemma owes_counted: "owes h base s \<Longrightarrow> counted (openfiles s) (filetables s) h f"
  by (simp add: owes_def)

lemma owes_vfs:
  assumes "owes h base s" and "good v" and "loose v = loose (vfs_of s)"
  shows "owes h base (s\<lparr>vfs_of := v\<rparr>)"
  using assms by (simp add: owes_def)

lemma owes_file:
  assumes "owes h base s" and "0 < in_tables (filetables s) f + h f"
  obtains x where "openfiles s f = Some x" and "openfile_ok x" and "of_refcount x = in_tables (filetables s) f + h f"
  using owes_counted [OF assms(1), of f] assms(2) by (auto simp: counted_def split: option.splits)

lemma in_tables_nonneg: "0 \<le> in_tables ts f"
  by (simp add: in_tables_def)

lemma in_tables_pos:
  assumes "ft < length ts" and "fd < length (ts ! ft)" and "ts ! ft ! fd = Some f"
  shows "0 < in_tables ts f"
proof -
  have "Some f \<in> set (concat ts)" using assms nth_mem [of fd "ts ! ft"] nth_mem [of ft ts] by auto
  then have "count_list (concat ts) (Some f) \<noteq> 0" by (simp add: count_list_0_iff)
  then show ?thesis by (simp add: in_tables_def)
qed

text \<open>A change of one open file that leaves its vnode alone.\<close>

lemma owes_openfile:
  assumes o: "owes h base s" and x: "openfiles s f = Some x" and "openfile_ok y" "of_vnode y = of_vnode x"
    and "of_refcount y = in_tables (filetables s) f + h' f" and "\<And>g. g \<noteq> f \<Longrightarrow> h' g = h g"
  shows "owes h' base (s\<lparr>openfiles := (openfiles s)(f \<mapsto> y)\<rparr>)"
proof -
  have fin: "finite (dom (openfiles s))" using o by (simp add: owes_def)
  have "card (users ((openfiles s)(f \<mapsto> y)) v) = card (users (openfiles s) v)" for v
    using users_update [OF fin, of f "Some y" v] x assms(4) by simp
  moreover have "counted ((openfiles s)(f \<mapsto> y)) (filetables s) h' g" for g
    using owes_counted [OF o, of g] assms(3-6) by (cases "g = f") (auto simp: counted_def split: option.splits)
  ultimately show ?thesis using o fin unfolding owes_def by (auto simp del: fun_upd_apply)
qed

lemma incref_owes:
  assumes o: "owes h base s" and pos: "0 < in_tables (filetables s) f + h f"
  shows "wp (openfile_incref f) (\<lambda>r s'. r = Inr () \<and> owes (plus h (one f)) base s' \<and>
    filetables s' = filetables s) s"
proof -
  obtain x where x: "openfiles s f = Some x" "openfile_ok x" "of_refcount x = in_tables (filetables s) f + h f"
    using owes_file [OF o pos] by blast
  have "owes (plus h (one f)) base (s\<lparr>openfiles := (openfiles s)(f \<mapsto> x\<lparr>of_refcount := of_refcount x + 1\<rparr>)\<rparr>)"
    by (rule owes_openfile [OF o x(1)]) (use x in \<open>auto simp: openfile_ok_def plus_def one_def\<close>)
  then show ?thesis using x(1) by (simp add: openfile_incref_def upd_openfile_def wp_simps)
qed

lemma tables_ok_update: "tables_ok ts \<Longrightarrow> ft < length ts \<Longrightarrow> tables_ok (ts[ft := (ts ! ft)[fd := x]])"
  using nth_mem [of ft ts]
  by (auto simp: tables_ok_def dest!: set_update_subset_insert [THEN subsetD] simp del: nth_mem)

lemma set_slot_owes:
  assumes o: "owes h base s" and ft: "ft < length (filetables s)" "fd < length (filetables s ! ft)"
    and h': "\<And>f. h' f = h f + of_bool (filetables s ! ft ! fd = Some f) - of_bool (x = Some f)"
    and x: "\<And>f. x = Some f \<Longrightarrow> openfiles s f \<noteq> None"
  shows "owes h' base (s\<lparr>filetables := (filetables s)[ft := (filetables s ! ft)[fd := x]]\<rparr>)"
proof -
  let ?ts = "(filetables s)[ft := (filetables s ! ft)[fd := x]]"
  have sum: "in_tables ?ts f + h' f = in_tables (filetables s) f + h f" for f
    using in_tables_slot [OF ft, of x f] h' [of f] by simp
  have "counted (openfiles s) ?ts h' f" for f
  proof (cases "openfiles s f")
    case None
    then have z: "in_tables (filetables s) f = 0" "h f = 0" "x \<noteq> Some f"
      using owes_counted [OF o, of f] x [of f] by (auto simp: counted_def)
    then have "filetables s ! ft ! fd \<noteq> Some f" using in_tables_pos [OF ft, of f] by auto
    then show ?thesis using None z in_tables_slot [OF ft, of x f] h' [of f] by (simp add: counted_def)
  next
    case (Some y)
    then show ?thesis using owes_counted [OF o, of f] sum [of f] by (simp add: counted_def)
  qed
  then show ?thesis using o tables_ok_update [OF _ ft(1)] by (simp add: owes_def)
qed

lemma one_eq: "one f = (\<lambda>g. of_bool (g = f))"
  by (simp add: one_def)

text \<open>The last reference to an open file goes with the file and its vnode reference.\<close>

lemma owes_remove:
  assumes o: "owes (plus h (one f)) base s" and x: "openfiles s f = Some x" "of_refcount x = 1"
    and h: "0 \<le> h f" and v: "good v" "loose v = plus (loose (vfs_of s)) (minus_one (of_vnode x))"
  shows "owes h base (s\<lparr>vfs_of := v, openfiles := (openfiles s)(f := None)\<rparr>)"
proof -
  have fin: "finite (dom (openfiles s))" using o by (simp add: owes_def)
  have z: "in_tables (filetables s) f = 0" "h f = 0"
    using owes_counted [OF o, of f] x h in_tables_nonneg [of "filetables s" f]
    by (auto simp: counted_def plus_def one_def)
  have "counted ((openfiles s)(f := None)) (filetables s) h g" for g
    using owes_counted [OF o, of g] z
    by (cases "g = f") (auto simp: counted_def plus_def one_def split: option.splits)
  moreover have "loose v w = base w + int (card (users ((openfiles s)(f := None)) w))" for w
    using o users_update [OF fin, of f None w] x v(2)
    by (auto simp: owes_def plus_def minus_one_def)
  ultimately show ?thesis using o fin v(1) unfolding owes_def by (auto simp del: fun_upd_apply)
qed

lemma owes_add:
  assumes o: "owes h base s" and "openfiles s f = None" and v: "good v"
    and l: "loose v = plus (loose (vfs_of s)) (one (of_vnode x))" and ok: "openfile_ok x" "of_refcount x = 1"
  shows "owes (plus h (one f)) base (s\<lparr>vfs_of := v, openfiles := (openfiles s)(f \<mapsto> x)\<rparr>)"
proof -
  have fin: "finite (dom (openfiles s))" using o by (simp add: owes_def)
  have z: "in_tables (filetables s) f = 0" "h f = 0"
    using owes_counted [OF o, of f] assms(2) by (auto simp: counted_def)
  have "counted ((openfiles s)(f \<mapsto> x)) (filetables s) (plus h (one f)) g" for g
    using owes_counted [OF o, of g] z ok
    by (cases "g = f") (auto simp: counted_def plus_def one_def split: option.splits)
  moreover have "loose v w = base w + int (card (users ((openfiles s)(f \<mapsto> x)) w))" for w
    using o users_update [OF fin, of f "Some x" w] assms(2) l
    by (auto simp: owes_def plus_def one_def)
  ultimately show ?thesis using o fin v(1) unfolding owes_def by (auto simp del: fun_upd_apply)
qed

lemma loose_used:
  assumes "owes h base s" and "openfiles s f = Some x"
  shows "good (vfs_of s)" and "1 \<le> loose (vfs_of s) (of_vnode x)"
proof -
  have fin: "finite (users (openfiles s) (of_vnode x))"
    by (rule finite_subset [where B = "dom (openfiles s)"]) (use assms(1) in \<open>auto simp: users_def owes_def\<close>)
  have "f \<in> users (openfiles s) (of_vnode x)" using assms(2) by (simp add: users_def)
  then have "0 < card (users (openfiles s) (of_vnode x))" using fin card_gt_0_iff by blast
  moreover have "0 \<le> base (of_vnode x)"
    "loose (vfs_of s) (of_vnode x) = base (of_vnode x) + int (card (users (openfiles s) (of_vnode x)))"
    using assms(1) by (simp_all add: owes_def)
  ultimately show "1 \<le> loose (vfs_of s) (of_vnode x)" by linarith
  show "good (vfs_of s)" using assms(1) by (simp add: owes_def)
qed

section \<open>What the file layer relies on\<close>

text \<open>Beyond the rules for \<^verbatim>\<open>vfs_open\<close>: reading, writing and asking for the size leave references
  alone.\<close>

locale file_provider = vnode_provider F for F :: "'f fsops" +
  assumes vread: "good s \<Longrightarrow> 1 \<le> loose s v \<Longrightarrow> uio_rw u = UIO_READ \<Longrightarrow>
      wp (vop_read F v u) (hands (\<lambda>_. none) s) s"
    and vwrite: "good s \<Longrightarrow> 1 \<le> loose s v \<Longrightarrow> uio_rw u = UIO_WRITE \<Longrightarrow>
      wp (vop_write F v u) (hands (\<lambda>_. none) s) s"
    and vstat: "good s \<Longrightarrow> 1 \<le> loose s v \<Longrightarrow> wp (vop_stat F v) (hands (\<lambda>_. none) s) s"
begin

lemma decref_owes:
  assumes o: "owes (plus h (one f)) base s" and h: "\<And>g. 0 \<le> h g"
  shows "wp (openfile_decref F f) (\<lambda>r s'. r = Inr () \<and> owes h base s' \<and>
    filetables s' = filetables s) s"
proof -
  have "0 < in_tables (filetables s) f + plus h (one f) f"
    using h [of f] in_tables_nonneg [of "filetables s" f] by (simp add: plus_def one_def)
  then obtain x where x: "openfiles s f = Some x" "openfile_ok x"
    "of_refcount x = in_tables (filetables s) f + plus h (one f) f"
    using owes_file [OF o] by blast
  show ?thesis
  proof (cases "of_refcount x = 1")
    case True
    note d = vnode_decref_shifts [OF loose_used [OF o x(1)]]
    have "owes h base (s\<lparr>vfs_of := v, openfiles := (openfiles s)(f := None)\<rparr>)"
      if "shifts (minus_one (of_vnode x)) (vfs_of s) v" for v
      by (rule owes_remove [OF o x(1) True h good_minus_one [OF loose_used [OF o x(1)] that]])
        (simp add: plus_def fun_eq_iff loose_shifts [OF that])
    then show ?thesis using x True
      by (simp add: openfile_decref_def openfile_destroy_def wp_simps vfs_close_def openfile_ok_def)
        (rule wp_mono [OF d], auto simp: wp_simps)
  next
    case False
    then have gt: "1 < of_refcount x" using x(2) by (simp add: openfile_ok_def)
    have "owes h base (s\<lparr>openfiles := (openfiles s)(f \<mapsto> x\<lparr>of_refcount := of_refcount x - 1\<rparr>)\<rparr>)"
      by (rule owes_openfile [OF o x(1)]) (use x gt in \<open>auto simp: openfile_ok_def plus_def one_def\<close>)
    then show ?thesis using x(1) False gt
      by (simp add: openfile_decref_def upd_openfile_def wp_simps)
  qed
qed

lemma open_owes:
  assumes o: "owes h base s" and new: "\<And>f. new = Some f \<Longrightarrow> openfiles s f = None"
  shows "wp (openfile_open F new lock path fl mode) (\<lambda>r s'. filetables s' = filetables s \<and>
    (case r of Inl _ \<Rightarrow> owes h base s' | Inr f \<Rightarrow> owes (plus h (one f)) base s')) s"
proof (cases "fl AND O_ACCMODE = O_RDONLY \<or> fl AND O_ACCMODE = O_WRONLY \<or> fl AND O_ACCMODE = O_RDWR")
  case False
  then show ?thesis using o
    by (simp add: openfile_open_def vfs_open_def Let_def wp_simps)
next
  case True
  have g: "good (vfs_of s)" using o by (simp add: owes_def)
  have made: "wp (chain (openfile_create new lock vn (fl AND O_ACCMODE)) (\<lambda>file. case file of
       None \<Rightarrow> chain (on_vfs (vfs_close F vn)) (\<lambda>_. fail ENOMEM)
     | Some f \<Rightarrow> succeed f))
     (\<lambda>r s'. filetables s' = filetables s \<and> (case r of Inl _ \<Rightarrow> owes h base s' | Inr f \<Rightarrow> owes (plus h (one f)) base s'))
     (s\<lparr>vfs_of := v\<rparr>)" if sh: "shifts (one vn) (vfs_of s) v" for vn v
  proof -
    note gv = good_one [OF g sh]
    have cl: "wp (vfs_close F vn) (\<lambda>r v'. owes h base (s\<lparr>vfs_of := v'\<rparr>)) v"
      unfolding vfs_close_def
    proof (rule wp_mono [OF vnode_decref_shifts])
      show "good v" "1 \<le> loose v vn" using gv by simp_all
      fix r v'
      assume a: "r = Inr () \<and> shifts (minus_one vn) v v'"
      then have "shifts none (vfs_of s) v'" using shifts_trans [OF sh, of "minus_one vn" v'] by simp
      then show "owes h base (s\<lparr>vfs_of := v'\<rparr>)"
        using owes_vfs [OF o good_none [OF g]] loose_shifts by (fastforce simp: none_def)
    qed
    have lv: "loose v = plus (loose (vfs_of s)) (one vn)" using loose_shifts [OF sh] by (simp add: plus_def fun_eq_iff)
    have fl: "wp (chain (on_vfs (vfs_close F vn)) (\<lambda>_. fail ENOMEM)) (\<lambda>r s'. filetables s' = filetables s \<and>
        (case r of Inl _ \<Rightarrow> owes h base s' | Inr f \<Rightarrow> owes (plus h (one f)) base s')) (s\<lparr>vfs_of := v\<rparr>)"
      by (simp add: wp_simps) (rule wp_mono [OF cl], auto simp: wp_simps split: sum.split)
    show ?thesis
    proof (cases "new = None \<or> \<not> lock")
      case True
      then show ?thesis using fl \<open>fl AND O_ACCMODE = O_RDONLY \<or> _\<close>
        by (auto simp: openfile_create_def wp_simps split: option.split)
    next
      case False
      then obtain f where f: "new = Some f" "lock" by auto
      have "owes (plus h (one f)) base (s\<lparr>vfs_of := v, openfiles := (openfiles s)(f \<mapsto>
          \<lparr>of_vnode = vn, of_accmode = fl AND O_ACCMODE, of_offsetlock = False, of_offset = 0, of_refcount = 1\<rparr>)\<rparr>)"
        by (rule owes_add [OF o new [OF f(1)]]) (use gv lv True in \<open>auto simp: openfile_ok_def\<close>)
      then show ?thesis using f True by (simp add: openfile_create_def wp_simps)
    qed
  qed
  show ?thesis unfolding openfile_open_def
  proof (rule wp_chainI)
    show "wp (on_vfs (vfs_open F path fl mode)) (\<lambda>r s'. \<exists>v. s' = s\<lparr>vfs_of := v\<rparr> \<and> hands one (vfs_of s) r v) s"
      by (simp add: wp_simps) (rule wp_mono [OF open_hands [OF g]], auto)
  next
    fix e s1
    assume "\<exists>v. s1 = s\<lparr>vfs_of := v\<rparr> \<and> hands one (vfs_of s) (Inl e) v"
    then show "filetables s1 = filetables s \<and> (case Inl e of Inl _ \<Rightarrow> owes h base s1 | Inr f \<Rightarrow> owes (plus h (one f)) base s1)"
      using owes_vfs [OF o good_none [OF g]] loose_shifts by (fastforce simp: none_def)
  next
    fix vn s1
    assume "\<exists>v. s1 = s\<lparr>vfs_of := v\<rparr> \<and> hands one (vfs_of s) (Inr vn) v"
    then show "wp (chain (openfile_create new lock vn (fl AND O_ACCMODE)) (\<lambda>file. case file of
       None \<Rightarrow> chain (on_vfs (vfs_close F vn)) (\<lambda>_. fail ENOMEM)
     | Some f \<Rightarrow> succeed f))
     (\<lambda>r s'. filetables s' = filetables s \<and> (case r of Inl _ \<Rightarrow> owes h base s' | Inr f \<Rightarrow> owes (plus h (one f)) base s')) s1"
      using made by auto
  qed
qed

end

end
