(* ===== verification/File_Syscalls.thy ===== *)
theory File_Syscalls
  imports Openfile
begin

text \<open>
  The file system calls of \<^verbatim>\<open>kern/syscall/file_syscalls.c\<close>, over the file tables and the VFS.

  \<open>ft\<close> is \<^verbatim>\<open>curproc->p_filetable\<close>, \<open>p\<close> the pages of the process, \<open>mem\<close>, \<open>new\<close> and \<open>lock\<close> the
  allocations, and \<open>kbuf\<close> the kernel buffer of a path. Each call runs alone: a seek lock is free when
  it is taken. The pointer argument for the result is the result of a successful call.
\<close>

abbreviation (input) PATH_MAX :: u32 where "PATH_MAX \<equiv> 1024"

definition on_user :: "(memory \<Rightarrow> (errno + 'a) \<times> memory) \<Rightarrow> ('f vfs, 'a) op" where
  "on_user f = (\<lambda>s. case f (user s) of (r, m) \<Rightarrow> Some (r, s\<lparr>user := m\<rparr>))"

text \<open>The string at a kernel address.\<close>

definition kstring :: "u32 \<Rightarrow> 'f vfs \<Rightarrow> string" where
  "kstring a s = map (\<lambda>b. char_of (unat b))
     (takeWhile (\<lambda>b. b \<noteq> 0) (map (\<lambda>i. bytes_of (user s) (a + of_nat i)) [0..<unat PATH_MAX]))"

definition open_file :: "nat \<Rightarrow> ('f kfs, openfile) op" where
  "open_file f = chain (gets (\<lambda>s. openfiles s f)) (\<lambda>x. case x of None \<Rightarrow> panic | Some file \<Rightarrow> succeed file)"

definition lock_offset :: "nat \<Rightarrow> ('f kfs, unit) op" where
  "lock_offset f = chain (open_file f) (\<lambda>x. chain (ensure (\<lambda>_. \<not> of_offsetlock x)) (\<lambda>_.
     upd_openfile f (\<lambda>x. x\<lparr>of_offsetlock := True\<rparr>)))"

definition unlock_offset :: "nat \<Rightarrow> ('f kfs, unit) op" where
  "unlock_offset f = chain (open_file f) (\<lambda>x. chain (ensure (\<lambda>_. of_offsetlock x)) (\<lambda>_.
     upd_openfile f (\<lambda>x. x\<lparr>of_offsetlock := False\<rparr>)))"

definition VOP_ISSEEKABLE :: "'f fsops \<Rightarrow> nat \<Rightarrow> ('f kfs, bool) op" where
  "VOP_ISSEEKABLE F v = on_vfs (vop v (gets (vop_isseekable F v)))"

definition sys_open :: "'f fsops \<Rightarrow> prot \<Rightarrow> bool \<Rightarrow> nat option \<Rightarrow> bool \<Rightarrow> nat \<Rightarrow> u32 \<Rightarrow>
    u32 \<Rightarrow> u32 \<Rightarrow> u32 \<Rightarrow> ('f kfs, int) op" where
  "sys_open F p mem new lock ft kbuf upath flags mode =
     (let allflags = O_ACCMODE OR O_CREAT OR O_EXCL OR O_TRUNC OR O_APPEND OR O_NOCTTY in
      if flags AND allflags \<noteq> flags then fail EINVAL
      else if \<not> mem then fail ENOMEM
      else chain (on_vfs (on_user (copyinstr p upath kbuf PATH_MAX))) (\<lambda>_.
        chain (gets (\<lambda>s. kstring kbuf (vfs_of s))) (\<lambda>kpath.
        chain (openfile_open F new lock kpath flags mode) (\<lambda>file.
        handle (filetable_place ft file) (\<lambda>r. case r of
          Inl e \<Rightarrow> chain (openfile_decref F file) (\<lambda>_. fail e)
        | Inr fd \<Rightarrow> succeed fd)))))"

definition sys_readwrite :: "'f fsops \<Rightarrow> nat option \<Rightarrow> nat \<Rightarrow> int \<Rightarrow> u32 \<Rightarrow> u32 \<Rightarrow> uio_rw \<Rightarrow> u32 \<Rightarrow>
    ('f kfs, u32) op" where
  "sys_readwrite F curas ft fd buf sz rw badaccmode =
     chain (filetable_get ft fd) (\<lambda>f.
     chain (open_file f) (\<lambda>file.
     chain (VOP_ISSEEKABLE F (of_vnode file)) (\<lambda>locked.
     chain (if locked then lock_offset f else succeed ()) (\<lambda>_.
     let pos = (if locked then of_offset file else 0) in
     handle (if of_accmode file = badaccmode then fail EBADF
             else let u = uio_uinit curas buf sz pos rw in
               on_vfs (vop (of_vnode file)
                 (if rw = UIO_READ then vop_read F (of_vnode file) u else vop_write F (of_vnode file) u)))
       (\<lambda>r. case r of
          Inl e \<Rightarrow>
            chain (if locked then unlock_offset f else succeed ()) (\<lambda>_.
            chain (filetable_put ft fd f) (\<lambda>_. fail e))
        | Inr u1 \<Rightarrow>
            chain (if locked then chain (upd_openfile f (\<lambda>x. x\<lparr>of_offset := uio_offset u1\<rparr>)) (\<lambda>_. unlock_offset f)
                   else succeed ()) (\<lambda>_.
            chain (filetable_put ft fd f) (\<lambda>_. succeed (sz - uio_resid u1))))))))"

definition sys_read :: "'f fsops \<Rightarrow> nat option \<Rightarrow> nat \<Rightarrow> int \<Rightarrow> u32 \<Rightarrow> u32 \<Rightarrow> ('f kfs, u32) op" where
  "sys_read F curas ft fd buf sz = sys_readwrite F curas ft fd buf sz UIO_READ O_WRONLY"

definition sys_write :: "'f fsops \<Rightarrow> nat option \<Rightarrow> nat \<Rightarrow> int \<Rightarrow> u32 \<Rightarrow> u32 \<Rightarrow> ('f kfs, u32) op" where
  "sys_write F curas ft fd buf sz = sys_readwrite F curas ft fd buf sz UIO_WRITE O_RDONLY"

definition sys_close :: "'f fsops \<Rightarrow> nat \<Rightarrow> int \<Rightarrow> ('f kfs, unit) op" where
  "sys_close F ft fd =
     (if \<not> filetable_okfd fd then fail EBADF
      else chain (filetable_placeat ft None fd) (\<lambda>file. case file of
        None \<Rightarrow> fail EBADF
      | Some f \<Rightarrow> openfile_decref F f))"

abbreviation (input) SEEK_SET :: int where "SEEK_SET \<equiv> 0"
abbreviation (input) SEEK_CUR :: int where "SEEK_CUR \<equiv> 1"
abbreviation (input) SEEK_END :: int where "SEEK_END \<equiv> 2"

text \<open>The new position, by the \<^verbatim>\<open>switch\<close> on \<open>whence\<close>.\<close>

definition seek_target :: "'f fsops \<Rightarrow> openfile \<Rightarrow> 64 word \<Rightarrow> int \<Rightarrow> ('f kfs, 64 word) op" where
  "seek_target F file offset whence =
     (if whence = SEEK_SET then succeed offset
      else if whence = SEEK_CUR then succeed (of_offset file + offset)
      else if whence = SEEK_END
      then chain (on_vfs (vop (of_vnode file) (vop_stat F (of_vnode file)))) (\<lambda>st_size. succeed (st_size + offset))
      else fail EINVAL)"

definition sys_lseek :: "'f fsops \<Rightarrow> nat \<Rightarrow> int \<Rightarrow> 64 word \<Rightarrow> int \<Rightarrow> ('f kfs, 64 word) op" where
  "sys_lseek F ft fd offset whence =
     chain (filetable_get ft fd) (\<lambda>f.
     chain (open_file f) (\<lambda>file.
     chain (VOP_ISSEEKABLE F (of_vnode file)) (\<lambda>seekable.
     if \<not> seekable then chain (filetable_put ft fd f) (\<lambda>_. fail ESPIPE)
     else chain (lock_offset f) (\<lambda>_.
       handle (chain (seek_target F file offset whence) (\<lambda>retval.
           if sint retval < 0 then fail EINVAL
           else chain (upd_openfile f (\<lambda>x. x\<lparr>of_offset := retval\<rparr>)) (\<lambda>_. succeed retval)))
         (\<lambda>r. chain (unlock_offset f) (\<lambda>_. chain (filetable_put ft fd f) (\<lambda>_. give r)))))))"

definition sys_dup2 :: "'f fsops \<Rightarrow> nat \<Rightarrow> int \<Rightarrow> int \<Rightarrow> ('f kfs, int) op" where
  "sys_dup2 F ft oldfd newfd =
     (if \<not> filetable_okfd newfd then fail EBADF
      else if oldfd = newfd then succeed newfd
      else chain (filetable_get ft oldfd) (\<lambda>f.
        chain (openfile_incref f) (\<lambda>_.
        chain (filetable_put ft oldfd f) (\<lambda>_.
        chain (filetable_placeat ft (Some f) newfd) (\<lambda>old.
        chain (case old of None \<Rightarrow> succeed () | Some g \<Rightarrow> openfile_decref F g) (\<lambda>_. succeed newfd))))))"

definition sys_chdir :: "'f fsops \<Rightarrow> prot \<Rightarrow> bool \<Rightarrow> u32 \<Rightarrow> u32 \<Rightarrow> ('f vfs, unit) op" where
  "sys_chdir F p mem kbuf path =
     (if \<not> mem then fail ENOMEM
      else chain (on_user (copyinstr p path kbuf PATH_MAX)) (\<lambda>_.
        chain (gets (kstring kbuf)) (\<lambda>pathbuf. vfs_chdir F pathbuf)))"

definition sys___getcwd :: "'f fsops \<Rightarrow> prot \<Rightarrow> nat option \<Rightarrow> (string \<Rightarrow> u32) \<Rightarrow> u32 \<Rightarrow> u32 \<Rightarrow>
    ('f vfs, u32) op" where
  "sys___getcwd F p curas kaddr buf buflen =
     chain (vfs_getcwd F p curas kaddr (uio_uinit curas buf buflen 0 UIO_READ)) (\<lambda>u.
     succeed (buflen - uio_resid u))"

section \<open>Slots\<close>

definition live :: "nat \<Rightarrow> 'f kfs \<Rightarrow> bool" where
  "live ft s \<longleftrightarrow> ft < length (filetables s) \<and> filetables s ! ft \<noteq> []"

lemma live_slots:
  assumes "owes h base s" and "live ft s"
  shows "ft < length (filetables s)" and "length (filetables s ! ft) = OPEN_MAX"
  using assms nth_mem [of ft "filetables s"] by (auto simp: owes_def tables_ok_def live_def)

lemma okfd_slot:
  "owes h base s \<Longrightarrow> live ft s \<Longrightarrow> filetable_okfd fd \<Longrightarrow> nat fd < length (filetables s ! ft)"
  using live_slots [of h base s ft] by (auto simp: filetable_okfd_def nat_less_iff)

lemma live_update [simp]: "live ft (s\<lparr>filetables := (filetables s)[ft' := (filetables s ! ft')[fd := x]]\<rparr>) = live ft s"
  by (cases "ft' < length (filetables s)") (auto simp: live_def nth_list_update)

text \<open>An open descriptor: its slot, its open file, and the vnode that file uses.\<close>

lemma slot_file:
  assumes "owes h base s" and "live ft s" and "filetable_okfd fd" and "fd_slot s ft (nat fd) = Some f"
    and "0 \<le> h f"
  obtains x where "openfiles s f = Some x" and "openfile_ok x" and "of_refcount x = in_tables (filetables s) f + h f"
proof -
  have "0 < in_tables (filetables s) f"
    using in_tables_pos [OF live_slots(1) [OF assms(1,2)] okfd_slot [OF assms(1-3)]] assms(4)
    by (simp add: fd_slot_def)
  then show ?thesis using that owes_file [OF assms(1), of f] assms(5) by auto
qed

lemma wp_get:
  "wp (filetable_get ft fd) Q s \<longleftrightarrow>
    (if filetable_okfd fd then (case fd_slot s ft (nat fd) of None \<Rightarrow> Q (Inl EBADF) s | Some f \<Rightarrow> Q (Inr f) s)
     else Q (Inl EBADF) s)"
  by (simp add: filetable_get_def wp_simps split: option.split)

lemma wp_open_file:
  "wp (open_file f) Q s \<longleftrightarrow> (case openfiles s f of None \<Rightarrow> False | Some x \<Rightarrow> Q (Inr x) s)"
  by (simp add: open_file_def wp_simps split: option.split)

lemma wp_upd_openfile:
  "wp (upd_openfile f g) Q s \<longleftrightarrow> (case openfiles s f of None \<Rightarrow> False
    | Some x \<Rightarrow> Q (Inr ()) (s\<lparr>openfiles := (openfiles s)(f \<mapsto> g x)\<rparr>))"
  by (simp add: upd_openfile_def wp_simps split: option.split)

lemma wp_lock_offset:
  "wp (lock_offset f) Q s \<longleftrightarrow> (case openfiles s f of None \<Rightarrow> False
    | Some x \<Rightarrow> \<not> of_offsetlock x \<and> Q (Inr ()) (s\<lparr>openfiles := (openfiles s)(f \<mapsto> x\<lparr>of_offsetlock := True\<rparr>)\<rparr>))"
  by (auto simp: lock_offset_def wp_simps wp_open_file wp_upd_openfile split: option.split)

lemma wp_unlock_offset:
  "wp (unlock_offset f) Q s \<longleftrightarrow> (case openfiles s f of None \<Rightarrow> False
    | Some x \<Rightarrow> of_offsetlock x \<and> Q (Inr ()) (s\<lparr>openfiles := (openfiles s)(f \<mapsto> x\<lparr>of_offsetlock := False\<rparr>)\<rparr>))"
  by (auto simp: unlock_offset_def wp_simps wp_open_file wp_upd_openfile split: option.split)

lemma wp_put: "wp (filetable_put ft fd f) Q s \<longleftrightarrow> fd_slot s ft (nat fd) = Some f \<and> Q (Inr ()) s"
  by (simp add: filetable_put_def wp_simps)

lemma wp_set_slot:
  "wp (set_slot ft fd x) Q s \<longleftrightarrow> Q (Inr ()) (s\<lparr>filetables := (filetables s)[ft := (filetables s ! ft)[fd := x]]\<rparr>)"
  by (simp add: set_slot_def wp_simps)

lemma wp_placeat:
  "wp (filetable_placeat ft x fd) Q s \<longleftrightarrow> filetable_okfd fd \<and> Q (Inr (fd_slot s ft (nat fd)))
     (s\<lparr>filetables := (filetables s)[ft := (filetables s ! ft)[nat fd := x]]\<rparr>)"
  by (simp add: filetable_placeat_def wp_simps wp_set_slot)

lemmas file_wps = wp_get wp_open_file wp_upd_openfile wp_lock_offset wp_unlock_offset wp_put wp_set_slot wp_placeat

lemma fd_slot_cong [simp]: "fd_slot (s\<lparr>openfiles := os\<rparr>) ft fd = fd_slot s ft fd"
  "fd_slot (s\<lparr>vfs_of := v\<rparr>) ft fd = fd_slot s ft fd"
  by (simp_all add: fd_slot_def)

section \<open>The books stay balanced\<close>

lemma settled_good: "owes h base s \<Longrightarrow> good (vfs_of s)"
  by (simp add: owes_def)

lemma owes_call:
  assumes "owes h base s" and "shifts none (vfs_of s) v"
  shows "owes h base (s\<lparr>vfs_of := v\<rparr>)"
  by (rule owes_vfs [OF assms(1) good_none [OF settled_good [OF assms(1)] assms(2)]])
    (simp add: fun_eq_iff loose_shifts [OF assms(2)] none_def)

lemma place_owes:
  assumes o: "owes (plus h (one f)) base s" and l: "live ft s" and x: "openfiles s f \<noteq> None"
  shows "wp (filetable_place ft f) (\<lambda>r s'. case r of
      Inl e \<Rightarrow> e = EMFILE \<and> s' = s \<and> (\<forall>i < OPEN_MAX. fd_slot s ft i \<noteq> None)
    | Inr fd \<Rightarrow> owes h base s' \<and> filetable_okfd fd \<and> fd_slot s ft (nat fd) = None \<and>
        (\<forall>i < nat fd. fd_slot s ft i \<noteq> None) \<and> vfs_of s' = vfs_of s \<and> openfiles s' = openfiles s \<and>
        filetables s' = (filetables s)[ft := (filetables s ! ft)[nat fd := Some f]]) s"
proof (cases "find_from (\<lambda>fd. fd_slot s ft fd = None) 0 OPEN_MAX")
  case None
  moreover have "\<forall>i < OPEN_MAX. fd_slot s ft i \<noteq> None" using None by (simp add: find_from_None)
  ultimately show ?thesis by (simp add: filetable_place_def wp_simps)
next
  case (Some fd)
  then have fd: "fd < OPEN_MAX" "fd_slot s ft fd = None" "\<forall>i < fd. fd_slot s ft i \<noteq> None"
    by (auto simp: find_from_Some)
  note sl = live_slots [OF o l]
  have "owes h base (s\<lparr>filetables := (filetables s)[ft := (filetables s ! ft)[fd := Some f]]\<rparr>)"
    by (rule set_slot_owes [OF o]) (use sl fd x in \<open>auto simp: plus_def one_def fd_slot_def\<close>)
  then show ?thesis using Some fd
    by (simp add: filetable_place_def wp_simps wp_set_slot filetable_okfd_def)
qed

section \<open>Sharing a table\<close>

lemma share_each_owes:
  fixes s :: "'f kfs"
  shows "owes none base s \<Longrightarrow> live src s \<Longrightarrow> live dest s \<Longrightarrow> src \<noteq> dest \<Longrightarrow> distinct fds \<Longrightarrow>
   \<forall>fd \<in> set fds. fd < OPEN_MAX \<and> fd_slot s dest fd = None \<Longrightarrow>
   wp (share_each src dest fds) (\<lambda>r s'. r = Inr () \<and> owes none base s' \<and>
     filetables s' = (filetables s)[dest :=
       fold (\<lambda>fd t. t[fd := filetables s ! src ! fd]) fds (filetables s ! dest)]) s"
proof (induction fds arbitrary: s)
  case Nil
  then show ?case by (simp add: wp_simps)
next
  case (Cons fd fds)
  note sl = live_slots [OF Cons.prems(1,2)] live_slots [OF Cons.prems(1,3)]
  let ?x = "fd_slot s src fd"
  let ?ts = "(filetables s)[dest := (filetables s ! dest)[fd := ?x]]"
  have rest: "wp (share_each src dest fds) (\<lambda>r s'. r = Inr () \<and> owes none base s' \<and>
     filetables s' = (filetables s)[dest :=
       fold (\<lambda>fd t. t[fd := filetables s ! src ! fd]) (fd # fds) (filetables s ! dest)]) s1"
    if "owes none base s1" "filetables s1 = ?ts" for s1 :: "'f kfs"
  proof (rule wp_mono [OF Cons.IH [OF that(1)]])
    show "live src s1" "live dest s1" "src \<noteq> dest" "distinct fds"
      using that(2) sl Cons.prems(4,5) by (auto simp: live_def)
    show "\<forall>fd' \<in> set fds. fd' < OPEN_MAX \<and> fd_slot s1 dest fd' = None"
      using that(2) sl Cons.prems(5,6) by (auto simp: fd_slot_def nth_list_update)
  qed (use that(2) sl Cons.prems(4) in \<open>auto simp: fd_slot_def\<close>)
  have dfd: "filetables s ! dest ! fd = None" "fd < OPEN_MAX" using Cons.prems(6) by (simp_all add: fd_slot_def)
  show ?case
  proof (cases ?x)
    case None
    have "(filetables s ! dest)[fd := None] = filetables s ! dest"
      using list_update_id [of "filetables s ! dest" fd] dfd by simp
    then show ?thesis using rest [of s] Cons.prems(1) None by (simp add: wp_simps wp_set_slot)
  next
    case (Some f)
    have pos: "0 < in_tables (filetables s) f + none f"
      using in_tables_pos [OF sl(1), of fd] Some dfd sl by (simp add: fd_slot_def none_def)
    then obtain x where x: "openfiles s f = Some x" using owes_file [OF Cons.prems(1)] by blast
    have step: "owes none base (s1\<lparr>filetables := ?ts\<rparr>)"
      if o1: "owes (plus none (one f)) base s1" and ts1: "filetables s1 = filetables s" for s1 :: "'f kfs"
    proof -
      have "0 < in_tables (filetables s1) f + plus none (one f) f"
        using in_tables_nonneg [of "filetables s1" f] by (simp add: plus_def one_def none_def)
      then obtain y where "openfiles s1 f = Some y" using owes_file [OF o1] by blast
      then show ?thesis
        using set_slot_owes [OF o1, of dest fd none ?x] sl ts1 dfd Some
        by (simp add: plus_def one_def none_def)
    qed
    show ?thesis using Some
      by (simp add: wp_chain wp_gets) (rule wp_mono [OF incref_owes [OF Cons.prems(1) pos]],
        use rest step Some in \<open>auto simp: wp_set_slot wp_chain\<close>)
  qed
qed

lemma fold_copy:
  assumes "length t = n" and "length u = n"
  shows "fold (\<lambda>fd t. t[fd := u ! fd]) [0..<n] t = u"
proof -
  have "k \<le> n \<Longrightarrow> fold (\<lambda>fd t. t[fd := u ! fd]) [0..<k] t = take k u @ drop k t" for k
  proof (induction k)
    case (Suc k)
    then have "drop k t = t ! k # drop (Suc k) t" using assms by (simp add: Cons_nth_drop_Suc)
    then show ?case using Suc assms by (simp add: list_update_append take_Suc_conv_app_nth)
  qed simp
  from this [of n] show ?thesis using assms by simp
qed

lemma copy_settled:
  assumes o: "owes none base s" and l: "live ft s"
  shows "wp (filetable_copy mem (Some ft)) (\<lambda>r s'. owes none base s' \<and>
    (if mem then r = Inr (Some (length (filetables s))) \<and>
        filetables s' = filetables s @ [filetables s ! ft]
     else r = Inl ENOMEM \<and> s' = s)) s"
proof (cases mem)
  case False
  then show ?thesis using o by (simp add: filetable_copy_def filetable_create_def wp_simps)
next
  case True
  note sl = live_slots [OF o l]
  let ?new = "replicate OPEN_MAX None :: nat option list"
  let ?d = "length (filetables s)" and ?s1 = "s\<lparr>filetables := filetables s @ [?new]\<rparr>"
  have z: "count_list ?new (Some f) = 0" for f :: nat by (simp add: count_list_0_iff)
  have "owes none base ?s1"
    using o by (simp add: owes_def counted_def in_tables_append z tables_ok_def cong: option.case_cong)
  moreover have "live ft ?s1" "live ?d ?s1" "ft \<noteq> ?d"
    using l sl by (auto simp: live_def nth_append)
  ultimately have sh: "wp (share_each ft ?d [0..<OPEN_MAX]) (\<lambda>r s'. r = Inr () \<and> owes none base s' \<and>
     filetables s' = (filetables ?s1)[?d :=
       fold (\<lambda>fd t. t[fd := filetables ?s1 ! ft ! fd]) [0..<OPEN_MAX] (filetables ?s1 ! ?d)]) ?s1"
    by (intro share_each_owes) (auto simp: fd_slot_def simp del: upt_Suc)
  have "fold (\<lambda>fd t. t[fd := filetables ?s1 ! ft ! fd]) [0..<OPEN_MAX] (filetables ?s1 ! ?d) = filetables s ! ft"
    using fold_copy [of ?new OPEN_MAX "filetables s ! ft"] sl by (simp add: nth_append del: upt_Suc)
  then show ?thesis using True sh
    by (simp add: filetable_copy_def filetable_create_def wp_chain wp_gets wp_modify wp_succeed del: upt_Suc)
      (erule wp_mono, auto simp: wp_succeed)
qed

text \<open>Dropping an open file does not look at the tables.\<close>

lemma decref_tables:
  assumes "wp (openfile_decref F f) Q (s\<lparr>filetables := ts\<rparr>)"
  shows "wp (openfile_decref F f) (\<lambda>r s'. filetables s' = filetables s \<and> Q r (s'\<lparr>filetables := ts\<rparr>)) s"
proof (cases "openfiles s f")
  case None
  then show ?thesis using assms by (simp add: openfile_decref_def wp_simps)
next
  case (Some x)
  have swap: "s\<lparr>vfs_of := v, filetables := ts\<rparr> = s\<lparr>filetables := ts, vfs_of := v\<rparr>"
    "s\<lparr>vfs_of := v, openfiles := os, filetables := ts\<rparr> = s\<lparr>filetables := ts, vfs_of := v, openfiles := os\<rparr>"
    "s\<lparr>openfiles := os, filetables := ts\<rparr> = s\<lparr>filetables := ts, openfiles := os\<rparr>" for v os by simp_all
  show ?thesis
  proof (cases "of_refcount x = 1")
    case True
    then have "wp (vfs_close F (of_vnode x)) (\<lambda>r v. case r of
        Inl e \<Rightarrow> Q (Inl e) (s\<lparr>filetables := ts, vfs_of := v\<rparr>)
      | Inr _ \<Rightarrow> \<not> of_offsetlock x \<and>
          Q (Inr ()) (s\<lparr>filetables := ts, vfs_of := v, openfiles := (openfiles s)(f := None)\<rparr>)) (vfs_of s)"
      using assms Some by (simp add: openfile_decref_def openfile_destroy_def wp_simps)
        (erule wp_mono, auto simp: wp_simps split: sum.splits)
    then show ?thesis using True Some
      by (simp add: openfile_decref_def openfile_destroy_def wp_simps)
        (erule wp_mono, auto split: sum.splits simp: wp_simps swap)
  next
    case False
    then show ?thesis using assms Some
      by (simp add: openfile_decref_def upd_openfile_def wp_simps swap)
  qed
qed

context file_provider begin

lemma open_settled:
  assumes o: "owes none base s" and l: "live ft s" and new: "\<And>f. new = Some f \<Longrightarrow> openfiles s f = None"
  shows "wp (sys_open F p mem new lock ft kbuf upath flags mode) (\<lambda>r s'. owes none base s' \<and>
    live ft s' \<and> (case r of
      Inl e \<Rightarrow> filetables s' = filetables s
    | Inr fd \<Rightarrow> filetable_okfd fd \<and> fd_slot s ft (nat fd) = None \<and> (\<forall>i < nat fd. fd_slot s ft i \<noteq> None) \<and>
        (\<exists>f. filetables s' = (filetables s)[ft := (filetables s ! ft)[nat fd := Some f]]))) s"
  (is "wp _ ?Q s")
proof -
  have copy: "wp (on_vfs (on_user (copyinstr p upath kbuf PATH_MAX)))
      (\<lambda>r s1. owes none base s1 \<and> openfiles s1 = openfiles s \<and> filetables s1 = filetables s) s"
  proof -
    have "shifts none (vfs_of s) ((vfs_of s)\<lparr>user := m\<rparr>)" for m
      by (simp add: shifts_def refcount_def fs_of_def isdev_def usable_def none_def)
    then show ?thesis using owes_call [OF o]
      by (simp add: wp_simps) (simp add: on_user_def wp_def split: prod.split)
  qed
  have placed: "wp (handle (filetable_place ft f) (\<lambda>r. case r of
      Inl e \<Rightarrow> chain (openfile_decref F f) (\<lambda>_. fail e) | Inr fd \<Rightarrow> succeed fd)) ?Q s1"
    if "owes (plus none (one f)) base s1" "filetables s1 = filetables s" for f s1
  proof -
    have l1: "live ft s1" using l that(2) by (simp add: live_def)
    have "openfiles s1 f \<noteq> None"
      using owes_file [OF that(1), of f] in_tables_nonneg [of "filetables s1" f]
      by (auto simp: plus_def one_def none_def)
    note pl = place_owes [OF that(1) l1 this]
    have eq: "fd_slot s1 = fd_slot s" using that(2) by (simp add: fd_slot_def fun_eq_iff)
    have lu: "live ft s'" if "filetables s' = (filetables s1)[ft := (filetables s1 ! ft)[fd := x]]" for s' fd x
      using l1 live_update [of ft s1 ft fd x] that by (simp add: live_def)
    have dec: "wp (chain (openfile_decref F f) (\<lambda>_. fail e)) ?Q s1" for e
      by (rule wp_chainI [OF decref_owes [OF that(1)]]) (use that(2) l in \<open>simp_all add: wp_fail live_def\<close>)
    show ?thesis
    proof (rule wp_handleI [OF pl], goal_cases)
      case (1 r s')
      then show ?case
      proof (cases r)
        case (Inl e)
        then show ?thesis using 1 dec by simp
      next
        case (Inr fd)
        then show ?thesis using 1 lu [of s'] that(2) by (auto simp: wp_succeed eq)
      qed
    qed
  qed
  have opened: "wp (chain (openfile_open F new lock kpath flags mode) (\<lambda>f.
      handle (filetable_place ft f) (\<lambda>r. case r of
        Inl e \<Rightarrow> chain (openfile_decref F f) (\<lambda>_. fail e) | Inr fd \<Rightarrow> succeed fd))) ?Q s1"
    if "owes none base s1" "openfiles s1 = openfiles s" "filetables s1 = filetables s" for kpath s1
    by (rule wp_chainI [OF open_owes [OF that(1)]])
      (use that new placed l in \<open>auto simp: live_def\<close>)
  have "wp (chain (on_vfs (on_user (copyinstr p upath kbuf PATH_MAX))) (\<lambda>_.
        chain (gets (\<lambda>s. kstring kbuf (vfs_of s))) (\<lambda>kpath.
        chain (openfile_open F new lock kpath flags mode) (\<lambda>file.
        handle (filetable_place ft file) (\<lambda>r. case r of
          Inl e \<Rightarrow> chain (openfile_decref F file) (\<lambda>_. fail e)
        | Inr fd \<Rightarrow> succeed fd))))) ?Q s"
    by (rule wp_chainI [OF copy]) (use opened l in \<open>auto simp: wp_chain wp_gets live_def\<close>)
  then show ?thesis using o l unfolding sys_open_def Let_def by (simp add: wp_fail)
qed

lemma close_settled:
  assumes o: "owes none base s" and l: "live ft s"
  shows "wp (sys_close F ft fd) (\<lambda>r s'. owes none base s' \<and> live ft s' \<and>
    (if filetable_okfd fd \<and> fd_slot s ft (nat fd) \<noteq> None
     then r = Inr () \<and> filetables s' = (filetables s)[ft := (filetables s ! ft)[nat fd := None]]
     else r = Inl EBADF \<and> s' = s)) s"
proof (cases "filetable_okfd fd")
  case False
  then show ?thesis using o l by (simp add: sys_close_def wp_fail)
next
  case True
  let ?s1 = "s\<lparr>filetables := (filetables s)[ft := (filetables s ! ft)[nat fd := None]]\<rparr>"
  note sl = live_slots [OF o l] okfd_slot [OF o l True]
  show ?thesis
  proof (cases "fd_slot s ft (nat fd)")
    case None
    then have "(filetables s ! ft)[nat fd := None] = filetables s ! ft"
      using list_update_id [of "filetables s ! ft" "nat fd"] by (simp add: fd_slot_def)
    then have "?s1 = s" by simp
    then show ?thesis using o l True None by (simp add: sys_close_def wp_simps file_wps)
  next
    case (Some f)
    have o1: "owes (plus none (one f)) base ?s1"
      by (rule set_slot_owes [OF o]) (use sl Some in \<open>auto simp: plus_def one_def fd_slot_def\<close>)
    have "wp (openfile_decref F f) (\<lambda>r s'. owes none base s' \<and> live ft s' \<and> r = Inr () \<and>
        filetables s' = filetables ?s1) ?s1"
      by (rule wp_mono [OF decref_owes [OF o1]]) (use l live_update [of ft s ft "nat fd" None] in \<open>auto simp: live_def\<close>)
    then show ?thesis using True Some
      by (simp add: sys_close_def wp_simps file_wps)
  qed
qed

lemma readwrite_settled:
  assumes o: "owes none base s" and l: "live ft s"
  shows "wp (sys_readwrite F curas ft fd buf sz rw bad) (\<lambda>r s'. owes none base s' \<and>
    filetables s' = filetables s) s"
proof (cases "filetable_okfd fd \<and> fd_slot s ft (nat fd) \<noteq> None")
  case False
  then show ?thesis using o by (auto simp: sys_readwrite_def wp_simps wp_get)
next
  case True
  then obtain f where f: "filetable_okfd fd" "fd_slot s ft (nat fd) = Some f" by blast
  obtain x where x: "openfiles s f = Some x" "openfile_ok x" "of_refcount x = in_tables (filetables s) f + none f"
    using slot_file [OF o l f] by auto
  note lo = loose_used [OF o x(1)]
  have rc: "0 < refcount (vfs_of s) (of_vnode x)" using lo(2) loose_refcount [of "vfs_of s" "of_vnode x"] by linarith
  have nl: "\<not> of_offsetlock x" using x(2) by (simp add: openfile_ok_def)
  let ?lock = "vop_isseekable F (of_vnode x) (vfs_of s)"
  let ?u = "uio_uinit curas buf sz (if ?lock then of_offset x else 0) rw"
  let ?call = "if rw = UIO_READ then vop_read F (of_vnode x) ?u else vop_write F (of_vnode x) ?u"
  have io: "wp ?call (hands (\<lambda>_. none) (vfs_of s)) (vfs_of s)"
    using vread [OF lo, of ?u] vwrite [OF lo, of ?u] by (cases rw) (simp_all add: uio_uinit_def)
  have same: "(openfiles s)(f \<mapsto> x) = openfiles s" using x(1) by (simp add: fun_upd_idem)
  have unl: "x\<lparr>of_offsetlock := False\<rparr> = x" using nl by simp
  have off: "owes none base (s\<lparr>vfs_of := v, openfiles := (openfiles s)(f \<mapsto> x\<lparr>of_offset := n, of_offsetlock := False\<rparr>)\<rparr>)"
    if "shifts none (vfs_of s) v" for v n
    by (rule owes_openfile [of none base "s\<lparr>vfs_of := v\<rparr>" f x, simplified])
      (use owes_call [OF o that] x in \<open>auto simp: openfile_ok_def\<close>)
  have swap: "s\<lparr>openfiles := os, vfs_of := v\<rparr> = s\<lparr>vfs_of := v, openfiles := os\<rparr>" for os v by simp
  have run: "wp ?call (\<lambda>r v. wp (case r of
        Inl e \<Rightarrow> chain (if ?lock then unlock_offset f else succeed ()) (\<lambda>_. chain (filetable_put ft fd f) (\<lambda>_. fail e))
      | Inr u1 \<Rightarrow>
          chain (if ?lock then chain (upd_openfile f (\<lambda>x. x\<lparr>of_offset := uio_offset u1\<rparr>)) (\<lambda>_. unlock_offset f)
                 else succeed ()) (\<lambda>_. chain (filetable_put ft fd f) (\<lambda>_. succeed (sz - uio_resid u1))))
      (\<lambda>r s'. owes none base s' \<and> filetables s' = filetables s)
      (s\<lparr>vfs_of := v, openfiles := (openfiles s)(f \<mapsto> x\<lparr>of_offsetlock := ?lock\<rparr>)\<rparr>)) (vfs_of s)"
    by (rule wp_mono [OF io]) (use o f x(1) nl off owes_call [OF o] in
      \<open>auto simp: wp_simps file_wps unl same split: sum.splits\<close>)
  have fail: "owes none base (s\<lparr>openfiles := (openfiles s)(f \<mapsto> x)\<rparr>)" using o by (simp add: same)
  show ?thesis
  proof (cases "of_accmode x = bad")
    case True
    then show ?thesis using o f x(1) nl fail
      by (simp add: sys_readwrite_def wp_simps file_wps VOP_ISSEEKABLE_def vop_hands [OF rc] Let_def unl same)
  next
    case False
    then show ?thesis using f x(1) nl run
      by (cases rw; cases ?lock) (simp_all add: sys_readwrite_def wp_chain wp_gets wp_handle wp_on_vfs wp_succeed wp_get
        wp_open_file wp_lock_offset VOP_ISSEEKABLE_def vop_hands [OF rc] Let_def swap unl same
        cong del: sum.case_cong_weak)
  qed
qed

lemma lseek_settled:
  assumes o: "owes none base s" and l: "live ft s"
  shows "wp (sys_lseek F ft fd offset whence) (\<lambda>r s'. owes none base s' \<and> filetables s' = filetables s) s"
proof (cases "filetable_okfd fd \<and> fd_slot s ft (nat fd) \<noteq> None")
  case False
  then show ?thesis using o by (auto simp: sys_lseek_def wp_simps wp_get)
next
  case True
  then obtain f where f: "filetable_okfd fd" "fd_slot s ft (nat fd) = Some f" by blast
  obtain x where x: "openfiles s f = Some x" "openfile_ok x" "of_refcount x = in_tables (filetables s) f + none f"
    using slot_file [OF o l f] by auto
  note lo = loose_used [OF o x(1)]
  have rc: "0 < refcount (vfs_of s) (of_vnode x)" using lo(2) loose_refcount [of "vfs_of s" "of_vnode x"] by linarith
  have nl: "\<not> of_offsetlock x" using x(2) by (simp add: openfile_ok_def)
  have unl: "x\<lparr>of_offsetlock := False\<rparr> = x" using nl by simp
  have same: "(openfiles s)(f \<mapsto> x) = openfiles s" using x(1) by (simp add: fun_upd_idem)
  have off: "owes none base (s\<lparr>vfs_of := v, openfiles := (openfiles s)(f \<mapsto> x\<lparr>of_offset := n, of_offsetlock := False\<rparr>)\<rparr>)"
    if "shifts none (vfs_of s) v" for v n
    by (rule owes_openfile [of none base "s\<lparr>vfs_of := v\<rparr>" f x, simplified])
      (use owes_call [OF o that] x in \<open>auto simp: openfile_ok_def\<close>)
  have off0: "owes none base (s\<lparr>openfiles := (openfiles s)(f \<mapsto> x\<lparr>of_offset := n, of_offsetlock := False\<rparr>)\<rparr>)" for n
    using off [of "vfs_of s" n] by simp
  have swap: "s\<lparr>openfiles := os, vfs_of := v\<rparr> = s\<lparr>vfs_of := v, openfiles := os\<rparr>" for os v by simp
  have st: "wp (vop_stat F (of_vnode x)) (\<lambda>r v. shifts none (vfs_of s) v) (vfs_of s)"
    by (rule wp_mono [OF vstat [OF lo]]) (simp add: hands_def split: sum.splits)
  show ?thesis
    using o f x(1) nl off off0 owes_call [OF o] same
    by (auto simp: sys_lseek_def seek_target_def wp_simps file_wps VOP_ISSEEKABLE_def vop_hands [OF rc] unl swap
        split: sum.splits intro!: wp_mono [OF st])
qed

lemma dup2_settled:
  assumes o: "owes none base s" and l: "live ft s"
  shows "wp (sys_dup2 F ft old new) (\<lambda>r s'. owes none base s' \<and>
    (if filetable_okfd new \<and> old \<noteq> new \<and> filetable_okfd old \<and> fd_slot s ft (nat old) \<noteq> None
     then r = Inr new \<and> filetables s' =
       (filetables s)[ft := (filetables s ! ft)[nat new := fd_slot s ft (nat old)]]
     else r = (if filetable_okfd new \<and> old = new then Inr new else Inl EBADF) \<and> s' = s)) s"
proof (cases "filetable_okfd new \<and> old \<noteq> new \<and> filetable_okfd old \<and> fd_slot s ft (nat old) \<noteq> None")
  case False
  then show ?thesis using o by (auto simp: sys_dup2_def wp_simps wp_get)
next
  case True
  then obtain f where f: "filetable_okfd new" "old \<noteq> new" "filetable_okfd old" "fd_slot s ft (nat old) = Some f"
    by blast
  obtain x where x: "openfiles s f = Some x" "openfile_ok x" "of_refcount x = in_tables (filetables s) f + none f"
    using slot_file [OF o l f(3,4)] by auto
  let ?s1 = "s\<lparr>openfiles := (openfiles s)(f \<mapsto> x\<lparr>of_refcount := of_refcount x + 1\<rparr>)\<rparr>"
  let ?s2 = "?s1\<lparr>filetables := (filetables s)[ft := (filetables s ! ft)[nat new := Some f]]\<rparr>"
  have o1: "owes (plus none (one f)) base ?s1"
    by (rule owes_openfile [OF o x(1)]) (use x in \<open>auto simp: openfile_ok_def plus_def one_def\<close>)
  note sl = live_slots [OF o l] okfd_slot [OF o l f(1)]
  show ?thesis
  proof (cases "fd_slot s ft (nat new)")
    case None
    have "owes none base ?s2"
      by (rule set_slot_owes [OF o1, simplified])
        (use sl None x in \<open>auto simp: none_def plus_def one_def fd_slot_def\<close>)
    then show ?thesis using f x(1) None
      by (simp add: sys_dup2_def openfile_incref_def wp_simps file_wps)
  next
    case (Some g)
    have "owes (plus none (one g)) base ?s2"
      by (rule set_slot_owes [OF o1, simplified])
        (use sl Some x in \<open>auto simp: none_def plus_def one_def fd_slot_def\<close>)
    then have "wp (openfile_decref F g) (\<lambda>r s'. r = Inr () \<and> owes none base s' \<and> filetables s' = filetables ?s2) ?s2"
      by (rule decref_owes) simp
    then show ?thesis using f x(1) Some
      by (simp add: sys_dup2_def openfile_incref_def wp_simps file_wps) (erule wp_mono, auto simp: wp_simps)
  qed
qed

lemma close_each_owes:
  "owes none base s \<Longrightarrow> live ft s \<Longrightarrow> \<forall>fd \<in> set fds. fd < OPEN_MAX \<Longrightarrow>
    wp (close_each F ft fds) (\<lambda>r s'. r = Inr () \<and> owes none base s' \<and>
      filetables s' = (filetables s)[ft := fold (\<lambda>fd t. t[fd := None]) fds (filetables s ! ft)]) s"
proof (induction fds arbitrary: s)
  case Nil
  then show ?case by (simp add: wp_simps)
next
  case (Cons fd fds)
  note sl = live_slots [OF Cons.prems(1,2)]
  let ?t = "(filetables s ! ft)[fd := None]"
  let ?ts = "(filetables s)[ft := ?t]"
  show ?case
  proof (cases "fd_slot s ft fd")
    case None
    then have "(filetables s ! ft)[fd := None] = filetables s ! ft"
      using list_update_id [of "filetables s ! ft" fd] by (simp add: fd_slot_def)
    then show ?thesis using Cons None by (simp add: wp_simps)
  next
    case (Some f)
    have fdl: "fd < length (filetables s ! ft)" using Cons.prems(3) sl by simp
    have o1: "owes (plus none (one f)) base (s\<lparr>filetables := ?ts\<rparr>)"
      by (rule set_slot_owes [OF Cons.prems(1) sl(1) fdl]) (use Some in \<open>auto simp: plus_def one_def fd_slot_def\<close>)
    have drop: "wp (openfile_decref F f) (\<lambda>r s'. filetables s' = filetables s \<and> r = Inr () \<and>
        owes none base (s'\<lparr>filetables := ?ts\<rparr>) \<and> filetables (s'\<lparr>filetables := ?ts\<rparr>) = ?ts) s"
      by (intro decref_tables wp_mono [OF decref_owes [OF o1]]) auto
    have rest: "wp (close_each F ft fds) (\<lambda>r s'. r = Inr () \<and> owes none base s' \<and>
        filetables s' = (filetables s)[ft := fold (\<lambda>fd t. t[fd := None]) fds ?t]) s1"
      if "owes none base s1" "filetables s1 = ?ts" for s1
      by (rule wp_mono [OF Cons.IH [OF that(1)]])
        (use that(2) sl Cons.prems(3) in \<open>auto simp: live_def\<close>)
    show ?thesis using Some
      by (simp add: wp_chain wp_gets) (rule wp_mono [OF drop], use rest in \<open>auto simp: wp_set_slot wp_chain\<close>)
  qed
qed

lemma fold_clear: "length t = n \<Longrightarrow> fold (\<lambda>fd t. t[fd := None]) [0..<n] t = replicate n None"
proof -
  have "length t = n \<Longrightarrow> k \<le> n \<Longrightarrow> fold (\<lambda>fd t. t[fd := None]) [0..<k] t = replicate k None @ drop k t" for k
    by (induction k) (auto simp: list_update_append Cons_nth_drop_Suc [symmetric] replicate_append_same [symmetric])
  from this [of n] show "length t = n \<Longrightarrow> fold (\<lambda>fd t. t[fd := None]) [0..<n] t = replicate n None" by simp
qed

lemma destroy_settled:
  assumes o: "owes none base s" and l: "live ft s"
  shows "wp (filetable_destroy F ft) (\<lambda>r s'. r = Inr () \<and> owes none base s' \<and>
    filetables s' = (filetables s)[ft := []]) s"
proof -
  note sl = live_slots [OF o l]
  have e: "owes none base (s'\<lparr>filetables := (filetables s)[ft := []]\<rparr>)"
    if "owes none base s'" "filetables s' = (filetables s)[ft := replicate OPEN_MAX None]" for s'
  proof -
    have "count_list (replicate OPEN_MAX None) (Some f) = 0" for f :: nat
      by (simp add: count_list_0_iff)
    then have it: "in_tables ((filetables s)[ft := []]) f = in_tables (filetables s') f" for f
      using sl(1) unfolding that(2) by (simp add: in_tables_update)
    have "counted (openfiles s') ((filetables s)[ft := []]) none f" for f
      using owes_counted [OF that(1), of f] it [of f] by (simp add: counted_def split: option.splits)
    moreover have "tables_ok ((filetables s)[ft := []])"
      using o by (auto simp: owes_def tables_ok_def dest!: set_update_subset_insert [THEN subsetD])
    ultimately show ?thesis using that(1) by (simp add: owes_def)
  qed
  show ?thesis unfolding filetable_destroy_def
    by (rule wp_chainI [OF close_each_owes [OF o l]])
      (use e fold_clear [OF sl(2)] in \<open>auto simp: wp_simps simp del: upt_Suc\<close>)
qed

end

section \<open>Over the device layer\<close>

lemma null_kernel_read:
  assumes "good s" and "1 \<le> loose s v"
  shows "uio_rw u = UIO_READ \<Longrightarrow> wp (vop_read null_kernel v u) (hands (\<lambda>_. none) s) s"
    and "uio_rw u = UIO_WRITE \<Longrightarrow> wp (vop_write null_kernel v u) (hands (\<lambda>_. none) s) s"
    and "wp (vop_stat null_kernel v) (hands (\<lambda>_. none) s) s"
  using assms
  by (auto simp: null_kernel_def dev_layer_def wp_by_ops dev_read_def dev_write_def dev_stat_def no_fs_def
      dev_tryseek_def null_device_def null_driver_def nullio_def wp_simps intro!: nulldev.dev_call)

interpretation nullfiles: file_provider null_kernel
  using null_kernel_provides null_kernel_read
  by (auto simp: file_provider_def file_provider_axioms_def)

section \<open>Properties\<close>

lemma wp_fst: "wp f (\<lambda>r s'. A s' \<and> B r s') s \<Longrightarrow> wp f (\<lambda>r s'. A s') s"
  by (erule wp_mono) simp



text \<open>\<^verbatim>\<open>dup2\<close> makes the new descriptor a copy of the old one, dropping the file that was there, and
  touches no other; a bad descriptor gives EBADF with nothing changed. But \<^verbatim>\<open>dup2(fd, fd)\<close> succeeds for
  every \<^verbatim>\<open>fd\<close> in range, open or not.\<close>

theorem sys_dup2_table:
  assumes "file_provider F" and "settled base s" and "live ft s"
  shows "wp (sys_dup2 F ft old new) (\<lambda>r s'.
    if filetable_okfd new \<and> old \<noteq> new \<and> filetable_okfd old \<and> fd_slot s ft (nat old) \<noteq> None
    then r = Inr new \<and> filetables s' =
      (filetables s)[ft := (filetables s ! ft)[nat new := fd_slot s ft (nat old)]]
    else r = (if filetable_okfd new \<and> old = new then Inr new else Inl EBADF) \<and> s' = s) s"
  by (rule wp_mono [OF file_provider.dup2_settled [OF assms(1) assms(2) [unfolded settled_def] assms(3)]]) simp

text \<open>What fork does with the descriptors: the child's table is slot for slot the parent's, sharing
  every open file, and both stay balanced; destroying a table closes exactly its own descriptors.\<close>

theorem filetable_fork_exit:
  assumes "file_provider F" and "settled base s" and "live ft s"
  shows "wp (filetable_copy True (Some ft)) (\<lambda>r s'. settled base s' \<and>
      r = Inr (Some (length (filetables s))) \<and> filetables s' = filetables s @ [filetables s ! ft]) s \<and>
    wp (filetable_destroy F ft) (\<lambda>r s'. r = Inr () \<and> settled base s' \<and>
      filetables s' = (filetables s)[ft := []]) s"
  using copy_settled [OF assms(2) [unfolded settled_def] assms(3), of True]
    file_provider.destroy_settled [OF assms(1) assms(2) [unfolded settled_def] assms(3)]
  unfolding settled_def by (auto elim!: wp_mono)

section \<open>Witnesses\<close>

definition sample_openfile :: openfile where
  "sample_openfile = \<lparr>of_vnode = 1, of_accmode = 2, of_offsetlock = False, of_offset = 0, of_refcount = 1\<rparr>"

definition sample_kfs :: "unit kfs" where
  "sample_kfs = \<lparr>vfs_of = sample_vfs\<lparr>vnodes := [1 \<mapsto> \<lparr>vn_refcount = 2, vn_fs = None, vn_isdev = True, vn_data = Some 7\<rparr>]\<rparr>,
     openfiles = [5 \<mapsto> sample_openfile], filetables = [Some 5 # replicate 127 None]\<rparr>"

lemma sample_settled: "settled (\<lambda>_. 0) sample_kfs"
proof -
  have g: "good (vfs_of sample_kfs)"
    by (simp add: sample_kfs_def good_def sample_vfs_def null_knowndev_def loose_def held_def refcount_def
        devices_ok_def isdev_def usable_def)
  have z: "count_list (replicate 127 None) (Some f) = 0" for f :: nat by (simp add: count_list_0_iff)
  have it: "in_tables (filetables sample_kfs) f = of_bool (f = 5)" for f
    by (simp add: sample_kfs_def in_tables_def z del: replicate.simps)
  have "users (openfiles sample_kfs) v = (if v = 1 then {5} else {})" for v
    by (auto simp: users_def sample_kfs_def sample_openfile_def split: if_splits)
  moreover have "counted (openfiles sample_kfs) (filetables sample_kfs) none f" for f
    using it [of f] by (cases "f = 5") (simp_all del: replicate.simps add: counted_def sample_kfs_def sample_openfile_def openfile_ok_def none_def)
  moreover have "loose (vfs_of sample_kfs) v = of_bool (v = 1)" for v
    by (simp add: sample_kfs_def sample_vfs_def null_knowndev_def loose_def held_def refcount_def)
  ultimately show ?thesis using g
    by (simp add: settled_def owes_def) (simp add: sample_kfs_def tables_ok_def)
qed

lemma sample_live: "live 0 sample_kfs"
  by (simp add: live_def sample_kfs_def)



theorem sys_dup2_table_witness:
  "wp (sys_dup2 null_kernel 0 0 3) (\<lambda>r s'. r = Inr 3 \<and> filetables s' ! 0 ! 3 = Some 5) sample_kfs \<and>
   wp (sys_dup2 null_kernel 0 9 9) (\<lambda>r s'. r = Inr 9) sample_kfs"
  by (intro conjI; rule wp_mono [OF sys_dup2_table [OF nullfiles.file_provider_axioms sample_settled sample_live]])
    (simp_all add: filetable_okfd_def fd_slot_def sample_kfs_def)

theorem filetable_fork_exit_witness:
  "wp (filetable_copy True (Some 0)) (\<lambda>r s'. settled (\<lambda>_. 0) s' \<and> length (filetables s') = 2) sample_kfs"
  by (rule wp_mono [OF conjunct1 [OF filetable_fork_exit [OF nullfiles.file_provider_axioms sample_settled sample_live]]])
    (simp add: sample_kfs_def)

end
