(* ===== verification/Coremap.thy ===== *)
theory Coremap
  imports OS_Prelude
begin

text \<open>
  Physical memory: \<^verbatim>\<open>kern/arch/mips/vm/ram.c\<close>, the coremap of \<^verbatim>\<open>kern/vm/coremap.c\<close> and the page
  allocation of \<^verbatim>\<open>kern/vm/addrspace.c\<close>.

  Frame numbers, sizes and physical addresses are numbers: \<^verbatim>\<open>ram_bootstrap\<close> keeps memory below
  512 megabytes, so no product below wraps around 32 bits. The coremap lies in the memory it
  describes, in the \<^verbatim>\<open>coremap_size\<close> pages from \<^verbatim>\<open>coremap_addr\<close>; an entry that
  \<^verbatim>\<open>coremap_initialize\<close> does not set holds what that memory held. An index past
  \<^verbatim>\<open>memory_size\<close> stops the kernel here.
\<close>

abbreviation (input) PAGE_SIZE :: nat where "PAGE_SIZE \<equiv> 4096"

abbreviation (input) MIPS_KSEG0 :: nat where "MIPS_KSEG0 \<equiv> 0x80000000"

section \<open>RAM: \<^verbatim>\<open>ram.c\<close>\<close>

record ram =
  firstpaddr :: nat
  lastpaddr :: nat

definition ram_bootstrap :: "nat \<Rightarrow> nat \<Rightarrow> ram" where
  "ram_bootstrap ramsize firstfree =
    \<lparr>firstpaddr = firstfree - MIPS_KSEG0,
     lastpaddr = (if ramsize > 512 * 1024 * 1024 then 512 * 1024 * 1024 else ramsize)\<rparr>"

definition ram_stealmem :: "nat \<Rightarrow> ram \<Rightarrow> ram \<times> nat" where
  "ram_stealmem npages r =
    (let sz = npages * PAGE_SIZE in
     if firstpaddr r + sz > lastpaddr r then (r, 0)
     else (r\<lparr>firstpaddr := firstpaddr r + sz\<rparr>, firstpaddr r))"

definition ram_getsize :: "ram \<Rightarrow> nat" where
  "ram_getsize r = lastpaddr r"

definition ram_getfirstfree :: "ram \<Rightarrow> ram \<times> nat" where
  "ram_getfirstfree r = (r\<lparr>firstpaddr := 0, lastpaddr := 0\<rparr>, firstpaddr r)"

section \<open>The coremap: \<^verbatim>\<open>coremap.c\<close>\<close>

record coremap_node =
  is_reserved :: bool
  is_free :: bool
  chunk_size :: int

record cmap =
  coremap :: "coremap_node list"
  used :: nat
  coremap_size :: nat
  coremap_addr :: nat

definition memory_size :: "cmap \<Rightarrow> nat" where
  "memory_size c = length (coremap c)"

text \<open>\<^verbatim>\<open>sizeof(struct coremap_node)\<close> is 8. The argument \<open>garbage\<close> is the memory before.\<close>

definition coremap_initialize :: "(nat \<Rightarrow> coremap_node) \<Rightarrow> ram \<Rightarrow> ram \<times> cmap" where
  "coremap_initialize garbage r =
    (let msize = ram_getsize r div PAGE_SIZE;
         csize = (msize * 8 + PAGE_SIZE) div PAGE_SIZE;
         (r1, addr) = ram_stealmem csize r;
         us = addr div PAGE_SIZE + (if addr mod PAGE_SIZE > 0 then 1 else 0);
         node = (\<lambda>i. if i < us then \<lparr>is_reserved = True, is_free = False, chunk_size = 0\<rparr>
                     else if i < msize - csize then \<lparr>is_reserved = False, is_free = True, chunk_size = 0\<rparr>
                     else garbage i)
     in (r1, \<lparr>coremap = map node [0..<msize], used = us, coremap_size = csize, coremap_addr = addr\<rparr>))"

text \<open>The scan of \<^verbatim>\<open>coremap_allocate\<close>: the index at which enough free entries have been seen.\<close>

function alloc_scan :: "coremap_node list \<Rightarrow> nat \<Rightarrow> nat \<Rightarrow> nat \<Rightarrow> nat option" where
  "alloc_scan cm npages i alloc_count =
    (if length cm \<le> i then None
     else if alloc_count \<ge> npages then Some i
     else alloc_scan cm npages (Suc i) (if is_free (cm ! i) then alloc_count + 1 else 0))"
  by pat_completeness auto
termination
  by (relation "measure (\<lambda>(cm, npages, i, n). length cm - i)") auto

declare alloc_scan.simps [simp del]

definition take_chunk :: "nat \<Rightarrow> nat \<Rightarrow> coremap_node list \<Rightarrow> coremap_node list" where
  "take_chunk npages i cm =
    fold (\<lambda>j cm. cm[j := (cm ! j)\<lparr>chunk_size := int npages - int (j - (i - npages)), is_free := False\<rparr>])
      [i - npages..<i] cm"

definition coremap_allocate :: "nat \<Rightarrow> cmap \<Rightarrow> cmap \<times> nat" where
  "coremap_allocate npages c =
    (case alloc_scan (coremap c) npages (used c) 0 of
       None \<Rightarrow> (c, 0)
     | Some i \<Rightarrow> (c\<lparr>coremap := take_chunk npages i (coremap c)\<rparr>, (i - npages + 1) * PAGE_SIZE))"

section \<open>Kernel pages: \<^verbatim>\<open>addrspace.c\<close>\<close>

definition getppages :: "nat \<Rightarrow> cmap \<Rightarrow> cmap \<times> nat" where
  "getppages npages c = coremap_allocate npages c"

definition alloc_kpages :: "nat \<Rightarrow> cmap \<Rightarrow> cmap \<times> nat" where
  "alloc_kpages npages c =
    (let (c1, pa) = getppages npages c in
     if pa = 0 then (c1, 0) else (c1, pa + MIPS_KSEG0))"

text \<open>\<open>chunk_size\<close> is set to 0 before it is compared with 1, so the loop runs to its limit.\<close>

primrec free_each :: "nat list \<Rightarrow> coremap_node list \<Rightarrow> coremap_node list option" where
  "free_each [] cm = Some cm"
| "free_each (i # is) cm = do {
     x \<leftarrow> fetch cm i;
     let cm1 = cm[i := x\<lparr>is_free := True, chunk_size := 0\<rparr>];
     if chunk_size (cm1 ! i) = 1 then Some cm1 else free_each is cm1
   }"

definition free_kpages :: "nat \<Rightarrow> cmap \<Rightarrow> cmap option" where
  "free_kpages addr c = do {
     let physical_address = addr - MIPS_KSEG0;
     let page_number = physical_address div PAGE_SIZE + (if physical_address mod PAGE_SIZE > 0 then 1 else 0);
     x \<leftarrow> fetch (coremap c) page_number;
     let free_limit = nat (int page_number + chunk_size x);
     cm \<leftarrow> free_each [page_number..<free_limit] (coremap c);
     Some (c\<lparr>coremap := cm\<rparr>)
   }"


section \<open>First fit\<close>

definition run_free :: "coremap_node list \<Rightarrow> nat \<Rightarrow> nat \<Rightarrow> nat \<Rightarrow> bool" where
  "run_free cm u n j \<longleftrightarrow> u + n \<le> j \<and> (\<forall>x. j - n \<le> x \<and> x < j \<longrightarrow> is_free (cm ! x))"

text \<open>The counter is the length of the longest run of free entries that ends before \<open>i\<close>.\<close>

definition longest_run :: "coremap_node list \<Rightarrow> nat \<Rightarrow> nat \<Rightarrow> nat \<Rightarrow> bool" where
  "longest_run cm u i k \<longleftrightarrow> u + k \<le> i \<and> (\<forall>x. i - k \<le> x \<and> x < i \<longrightarrow> is_free (cm ! x)) \<and>
     (u + k = i \<or> \<not> is_free (cm ! (i - k - 1)))"

lemma longest_run_step:
  "longest_run cm u i k \<Longrightarrow> longest_run cm u (Suc i) (if is_free (cm ! i) then k + 1 else 0)"
  by (auto simp: longest_run_def less_Suc_eq)

lemma longest_run_stop:
  assumes "longest_run cm u i k"
  shows "n \<le> k \<longleftrightarrow> run_free cm u n i"
proof
  assume "n \<le> k"
  then show "run_free cm u n i" using assms by (auto simp: longest_run_def run_free_def)
next
  assume r: "run_free cm u n i"
  show "n \<le> k"
  proof (rule ccontr)
    assume "\<not> n \<le> k"
    then have "u + k < i" "i - n \<le> i - k - 1" "i - k - 1 < i" using r by (auto simp: run_free_def)
    then show False using assms r by (auto simp: longest_run_def run_free_def)
  qed
qed

lemma alloc_scan_find:
  "longest_run cm u i k \<Longrightarrow> alloc_scan cm n i k = find_from (run_free cm u n) i (length cm)"
proof (induction cm n i k rule: alloc_scan.induct)
  case (1 cm n i k)
  show ?case
  proof (cases "length cm \<le> i")
    case True
    then show ?thesis by (simp add: alloc_scan.simps [of cm n i k] find_from.simps [of _ i])
  next
    case False
    then show ?thesis
      using "1.IH" [OF False _ longest_run_step [OF "1.prems"]] longest_run_stop [OF "1.prems", of n]
      by (simp add: alloc_scan.simps [of cm n i k] find_from.simps [of _ i])
  qed
qed

lemma alloc_scan_first: "alloc_scan cm n u 0 = find_from (run_free cm u n) u (length cm)"
  by (rule alloc_scan_find) (auto simp: longest_run_def)

lemma length_take_chunk [simp]: "length (take_chunk n i cm) = length cm"
proof -
  have "length (fold (\<lambda>j cm. cm[j := g j (cm ! j)]) js cm) = length cm" for g :: "nat \<Rightarrow> coremap_node \<Rightarrow> coremap_node" and js
    by (induction js arbitrary: cm) simp_all
  then show ?thesis by (simp add: take_chunk_def)
qed

lemma fold_update_nth:
  fixes g :: "nat \<Rightarrow> 'a \<Rightarrow> 'a"
  assumes "distinct js" and "set js \<subseteq> {..<length xs}" and "x < length xs"
  shows "fold (\<lambda>j xs. xs[j := g j (xs ! j)]) js xs ! x = (if x \<in> set js then g x (xs ! x) else xs ! x)"
  using assms by (induction js arbitrary: xs) (auto simp: nth_list_update)

lemma take_chunk_nth:
  assumes "i \<le> length cm" and "x < length cm"
  shows "take_chunk n i cm ! x = (if i - n \<le> x \<and> x < i
    then (cm ! x)\<lparr>chunk_size := int n - int (x - (i - n)), is_free := False\<rparr> else cm ! x)"
  unfolding take_chunk_def by (subst fold_update_nth) (use assms in auto)

text \<open>\<^verbatim>\<open>coremap_allocate\<close> is first fit: it takes the lowest run of free entries that ends
  below the last entry, marks exactly that run, numbering it down from its size, and returns the
  address of the frame after the run's first; when there is no such run it returns 0 and changes
  nothing.\<close>

theorem coremap_allocate_first_fit:
  "(case find_from (run_free (coremap c) (used c) n) (used c) (memory_size c) of
      None \<Rightarrow> coremap_allocate n c = (c, 0)
    | Some i \<Rightarrow> \<exists>cm. coremap_allocate n c = (c\<lparr>coremap := cm\<rparr>, (i - n + 1) * PAGE_SIZE) \<and>
        length cm = memory_size c \<and>
        (\<forall>x < memory_size c. cm ! x = (if i - n \<le> x \<and> x < i
           then (coremap c ! x)\<lparr>chunk_size := int n - int (x - (i - n)), is_free := False\<rparr>
           else coremap c ! x)))"
proof (cases "find_from (run_free (coremap c) (used c) n) (used c) (length (coremap c))")
  case None
  then show ?thesis by (simp add: coremap_allocate_def alloc_scan_first memory_size_def)
next
  case (Some i)
  then have "i \<le> length (coremap c)" by (auto simp: find_from_Some)
  with Some show ?thesis
    by (auto simp: coremap_allocate_def alloc_scan_first memory_size_def take_chunk_nth
        intro!: exI [of _ "take_chunk n i (coremap c)"])
qed

section \<open>Allocation without freeing\<close>

text \<open>
  The frames in use, as their clients know them: each entry that is marked stands for the frame
  after it.
\<close>

definition frames_used :: "cmap \<Rightarrow> nat set" where
  "frames_used c = Suc ` {j. used c \<le> j \<and> j < memory_size c \<and> \<not> is_free (coremap c ! j)}"

definition block :: "nat \<Rightarrow> nat \<Rightarrow> nat set" where
  "block pa n = {pa div PAGE_SIZE..<pa div PAGE_SIZE + n}"

text \<open>A sequence of requests, each by its number of pages, and the blocks that answer it.\<close>

primrec alloc_all :: "(nat \<Rightarrow> 'c \<Rightarrow> 'c \<times> nat) \<Rightarrow> nat list \<Rightarrow> 'c \<Rightarrow> 'c \<times> nat list" where
  "alloc_all alloc [] c = (c, [])"
| "alloc_all alloc (n # ns) c =
     (let (c1, pa) = alloc n c; (c2, pas) = alloc_all alloc ns c1 in (c2, pa # pas))"

definition blocks :: "nat list \<Rightarrow> nat list \<Rightarrow> nat set list" where
  "blocks ns pas = map2 (\<lambda>n pa. if pa = 0 then {} else block pa n) ns pas"

text \<open>What a client expects of a source of pages, as long as nothing is given back.\<close>

locale page_source =
  fixes in_use :: "'c \<Rightarrow> nat set" and alloc :: "nat \<Rightarrow> 'c \<Rightarrow> 'c \<times> nat"
  assumes alloc_new: "alloc n c = (c', pa) \<Longrightarrow> pa \<noteq> 0 \<Longrightarrow>
      pa mod PAGE_SIZE = 0 \<and> block pa n \<inter> in_use c = {} \<and> in_use c' = in_use c \<union> block pa n"
    and alloc_none: "alloc n c = (c', 0) \<Longrightarrow> c' = c"
begin

lemma alloc_step:
  "alloc n c = (c', pa) \<Longrightarrow> (if pa = 0 then {} else block pa n) \<inter> in_use c = {} \<and>
     in_use c' = in_use c \<union> (if pa = 0 then {} else block pa n)"
  using alloc_new [of n c c' pa] alloc_none [of n c c'] by (cases "pa = 0") simp_all

lemma alloc_all_disjoint:
  "alloc_all alloc ns c = (c', pas) \<Longrightarrow>
     length pas = length ns \<and>
     (\<forall>i < length ns. blocks ns pas ! i \<inter> in_use c = {}) \<and>
     (\<forall>i j. i < j \<longrightarrow> j < length ns \<longrightarrow> blocks ns pas ! i \<inter> blocks ns pas ! j = {}) \<and>
     in_use c' = in_use c \<union> \<Union> (set (blocks ns pas))"
proof (induction ns arbitrary: c pas)
  case (Cons n ns)
  obtain c1 pa pas' where a: "alloc n c = (c1, pa)" "alloc_all alloc ns c1 = (c', pas')" "pas = pa # pas'"
    using Cons.prems by (auto simp: Let_def split: prod.splits)
  define b where "b = (if pa = 0 then {} else block pa n)"
  have b: "b \<inter> in_use c = {}" "in_use c1 = in_use c \<union> b"
    using alloc_step [OF a(1)] by (simp_all add: b_def)
  have bl: "blocks (n # ns) pas = b # blocks ns pas'" by (simp add: a(3) blocks_def b_def)
  note IH = Cons.IH [OF a(2)]
  have "blocks (n # ns) pas ! i \<inter> blocks (n # ns) pas ! j = {}" if "i < j" "j < length (n # ns)" for i j
    using that IH b unfolding bl by (cases i; cases j) (auto 0 3)
  moreover have "blocks (n # ns) pas ! i \<inter> in_use c = {}" if "i < length (n # ns)" for i
    using that IH b unfolding bl by (cases i) (auto 0 3)
  ultimately show ?case using IH a(3) b(2) bl by auto
qed (simp add: blocks_def)

end

lemma getppages_new:
  assumes "getppages n c = (c', pa)" and "pa \<noteq> 0"
  shows "pa mod PAGE_SIZE = 0 \<and> block pa n \<inter> frames_used c = {} \<and>
    frames_used c' = frames_used c \<union> block pa n"
proof -
  obtain i where i: "alloc_scan (coremap c) n (used c) 0 = Some i"
    "c' = c\<lparr>coremap := take_chunk n i (coremap c)\<rparr>" "pa = (i - n + 1) * PAGE_SIZE"
    using assms by (auto simp: getppages_def coremap_allocate_def split: option.splits)
  then have r: "run_free (coremap c) (used c) n i" and len: "i < memory_size c"
    by (auto simp: alloc_scan_first find_from_Some memory_size_def)
  have ni: "used c + n \<le> i" using r by (simp add: run_free_def)
  have b: "block pa n = Suc ` {i - n..<i}"
    using ni by (auto simp: i(3) block_def image_Suc_atLeastLessThan)
  have "frames_used c' = frames_used c \<union> Suc ` {i - n..<i}"
    unfolding frames_used_def image_Un [symmetric] i(2)
    using len ni by (intro arg_cong [where f = "image Suc"]) (auto simp: memory_size_def take_chunk_nth split: if_splits)
  moreover have "Suc ` {i - n..<i} \<inter> frames_used c = {}"
    using r by (auto simp: frames_used_def run_free_def)
  ultimately show ?thesis using b i(3) by simp
qed

lemma getppages_none: "getppages n c = (c', 0) \<Longrightarrow> c' = c"
  by (auto simp: getppages_def coremap_allocate_def split: option.splits)

interpretation frames: page_source frames_used getppages
  by unfold_locales (simp_all add: getppages_new getppages_none)


definition empty_node :: coremap_node where
  "empty_node = \<lparr>is_reserved = False, is_free = True, chunk_size = 0\<rparr>"

definition sample_cmap :: cmap where
  "sample_cmap = \<lparr>coremap = [empty_node, empty_node, empty_node, empty_node, empty_node, empty_node, empty_node, empty_node], used = 2, coremap_size = 1, coremap_addr = 8192\<rparr>"

lemmas run_sample = getppages_def coremap_allocate_def sample_cmap_def empty_node_def take_chunk_def
  alloc_scan.simps upt_rec

theorem coremap_allocate_first_fit_witness:
  "\<exists>cm. coremap_allocate 3 sample_cmap = (sample_cmap\<lparr>coremap := cm\<rparr>, 12288) \<and> chunk_size (cm ! 3) = 2"
proof -
  have "find_from (run_free (coremap sample_cmap) (used sample_cmap) 3) (used sample_cmap)
      (memory_size sample_cmap) = Some 5"
    unfolding find_from_Some
    by (auto simp: run_free_def sample_cmap_def memory_size_def empty_node_def nth_Cons' less_Suc_eq numeral_eq_Suc)
  then show ?thesis
    using coremap_allocate_first_fit [where c = sample_cmap and n = 3]
    by (auto simp: sample_cmap_def memory_size_def)
qed


section \<open>Giving pages back\<close>

lemma alloc_scan_same:
  "length cm' = length cm \<Longrightarrow> \<forall>x < length cm. is_free (cm' ! x) = is_free (cm ! x) \<Longrightarrow>
    alloc_scan cm' n i k = alloc_scan cm n i k"
proof (induction cm n i k rule: alloc_scan.induct)
  case (1 cm n i k)
  then show ?case by (simp add: alloc_scan.simps [of cm n i k] alloc_scan.simps [of cm' n i k])
qed

lemma getppages_where:
  assumes "getppages n c = (c', pa)" and "pa \<noteq> 0"
  obtains i where "alloc_scan (coremap c) n (used c) 0 = Some i" and "run_free (coremap c) (used c) n i"
    and "i < length (coremap c)" and "c' = c\<lparr>coremap := take_chunk n i (coremap c)\<rparr>"
    and "pa = (i - n + 1) * PAGE_SIZE"
  using assms
  by (auto simp: getppages_def coremap_allocate_def alloc_scan_first find_from_Some split: option.splits)

lemma free_each_one:
  "i < length cm \<Longrightarrow> free_each [i..<Suc i] cm = Some (cm[i := (cm ! i)\<lparr>is_free := True, chunk_size := 0\<rparr>])"
  by (simp add: fetch_def)

text \<open>
  \<^verbatim>\<open>coremap_allocate\<close> returns the address of the frame after the first one that it marks, and
  \<^verbatim>\<open>free_kpages\<close> reads the entry of the frame whose address it is given: what it gives back is the
  neighbour.
\<close>

lemma free_frees_neighbour:
  assumes p: "getppages 1 c = (c1, p)" "p \<noteq> 0" and q: "getppages 1 c1 = (c2, p + PAGE_SIZE)"
  shows "\<exists>c3. free_kpages (p + MIPS_KSEG0) c2 = Some c3 \<and> snd (getppages 1 c3) = p + PAGE_SIZE"
proof -
  obtain i where i: "i < length (coremap c)" "run_free (coremap c) (used c) 1 i"
      "c1 = c\<lparr>coremap := take_chunk 1 i (coremap c)\<rparr>" "p = (i - 1 + 1) * PAGE_SIZE"
    using getppages_where [OF p] by metis
  obtain k where k: "alloc_scan (coremap c1) 1 (used c1) 0 = Some k" "k < length (coremap c1)"
      "run_free (coremap c1) (used c1) 1 k"
      "c2 = c1\<lparr>coremap := take_chunk 1 k (coremap c1)\<rparr>" "p + PAGE_SIZE = (k - 1 + 1) * PAGE_SIZE"
    by (rule getppages_where [OF q]) (use p(2) in simp_all)
  have pos: "1 \<le> i" "1 \<le> k" using i(2) k(3) by (simp_all add: run_free_def)
  then have p': "p = i * PAGE_SIZE" and "p + PAGE_SIZE = k * PAGE_SIZE"
    using i(4) [unfolded le_add_diff_inverse2 [OF pos(1)]] k(5) [unfolded le_add_diff_inverse2 [OF pos(2)]]
    by simp_all
  then have ik: "k = Suc i" "p = i * PAGE_SIZE" by simp_all
  have len: "length (coremap c2) = length (coremap c1)" by (simp add: k(4))
  have at: "coremap c2 ! i = (coremap c1 ! i)\<lparr>chunk_size := 1, is_free := False\<rparr>"
    using k(2) ik by (simp add: k(4) take_chunk_nth)
  have free: "is_free (coremap c1 ! i)" using k(3) ik by (simp add: run_free_def)
  define c3 where "c3 = c2\<lparr>coremap := (coremap c2)[i := (coremap c2 ! i)\<lparr>is_free := True, chunk_size := 0\<rparr>]\<rparr>"
  have "free_kpages (p + MIPS_KSEG0) c2 = Some c3"
    using k(2) ik(1) len at
    by (simp add: free_kpages_def ik(2) fetch_def nat_add_distrib c3_def free_each_one del: upt_Suc)
  moreover have "alloc_scan (coremap c3) 1 (used c3) 0 = alloc_scan (coremap c1) 1 (used c1) 0"
  proof -
    have "is_free (coremap c3 ! x) = is_free (coremap c1 ! x)" if "x < length (coremap c1)" for x
      using that k(2) ik(1) free len
      by (cases "x = i") (auto simp: c3_def k(4) take_chunk_nth)
    then show ?thesis
      using alloc_scan_same [of "coremap c3" "coremap c1"] len by (simp add: c3_def k(4))
  qed
  ultimately show ?thesis
    using k(1,5) ik by (auto simp: getppages_def coremap_allocate_def)
qed

text \<open>Freeing a page hands its neighbour out a second time: when two single pages in a row were
  allocated, freeing the first makes the next request return the second, which is still in use.\<close>

theorem free_kpages_double_allocation:
  "getppages 1 c = (c1, p) \<Longrightarrow> p \<noteq> 0 \<Longrightarrow> getppages 1 c1 = (c2, p + PAGE_SIZE) \<Longrightarrow>
    \<exists>c3. free_kpages (p + MIPS_KSEG0) c2 = Some c3 \<and> snd (getppages 1 c3) = p + PAGE_SIZE"
  by (rule free_frees_neighbour)

theorem free_kpages_double_allocation_witness:
  "\<exists>c1 c2 c3. getppages 1 sample_cmap = (c1, 12288) \<and> getppages 1 c1 = (c2, 16384) \<and>
    free_kpages (12288 + MIPS_KSEG0) c2 = Some c3 \<and> snd (getppages 1 c3) = 16384"
proof -
  let ?c1 = "fst (getppages 1 sample_cmap)" let ?c2 = "fst (getppages 1 ?c1)"
  have "snd (getppages 1 sample_cmap) = 12288" "snd (getppages 1 ?c1) = 16384"
    by (simp_all add: run_sample)
  then have a: "getppages 1 sample_cmap = (?c1, 12288)" "getppages 1 ?c1 = (?c2, 16384)"
    by (simp_all add: prod_eq_iff)
  show ?thesis
    using a free_kpages_double_allocation [of sample_cmap ?c1 12288 ?c2] by auto
qed

section \<open>The coremap's own pages\<close>

lemma boot_first_page:
  assumes al: "firstpaddr r mod PAGE_SIZE = 0" "0 < firstpaddr r"
    and cs: "cs = (ram_getsize r div PAGE_SIZE * 8 + PAGE_SIZE) div PAGE_SIZE"
    and room: "firstpaddr r + cs * PAGE_SIZE \<le> lastpaddr r"
      "firstpaddr r div PAGE_SIZE + cs < lastpaddr r div PAGE_SIZE"
    and init: "coremap_initialize garbage r = (r1, c)" and cs2: "2 \<le> cs"
  shows "coremap_addr c = firstpaddr r \<and> coremap_size c = cs \<and>
    snd (getppages 1 c) = firstpaddr r + PAGE_SIZE"
proof -
  let ?u = "firstpaddr r div PAGE_SIZE" and ?m = "lastpaddr r div PAGE_SIZE"
  have f: "firstpaddr r = ?u * PAGE_SIZE" using al(1) by auto
  have u0: "firstpaddr r mod PAGE_SIZE = 0" by (rule al)
  have c: "coremap_addr c = firstpaddr r" "coremap_size c = cs" "used c = ?u" "length (coremap c) = ?m"
    and node: "?u < ?m - cs \<Longrightarrow> is_free (coremap c ! ?u)"
    using init room(1) u0 by (auto simp: coremap_initialize_def ram_stealmem_def ram_getsize_def cs Let_def)
  have "run_free (coremap c) ?u 1 (Suc ?u)" using node room(2) by (auto simp: run_free_def le_less_Suc_eq)
  moreover have "\<not> run_free (coremap c) ?u 1 ?u" by (simp add: run_free_def)
  ultimately have "alloc_scan (coremap c) 1 (used c) 0 = Some (Suc ?u)"
    using room(2) cs2 unfolding alloc_scan_first c find_from_Some
    by (auto simp: le_less_Suc_eq)
  then show ?thesis using f by (simp add: getppages_def coremap_allocate_def c)
qed

text \<open>With 2 megabytes or more, the first page that the kernel allocates after boot is the second
  page of the coremap itself: \<^verbatim>\<open>used\<close> is set to the first frame of the coremap, not to the
  one after its last.\<close>

theorem boot_overwrites_coremap:
  "firstpaddr r mod PAGE_SIZE = 0 \<Longrightarrow> 0 < firstpaddr r \<Longrightarrow>
   cs = (lastpaddr r div PAGE_SIZE * 8 + PAGE_SIZE) div PAGE_SIZE \<Longrightarrow>
   firstpaddr r + cs * PAGE_SIZE \<le> lastpaddr r \<Longrightarrow>
   firstpaddr r div PAGE_SIZE + cs < lastpaddr r div PAGE_SIZE \<Longrightarrow>
   512 * PAGE_SIZE \<le> lastpaddr r \<Longrightarrow> coremap_initialize garbage r = (r1, c) \<Longrightarrow>
   coremap_addr c < snd (getppages 1 c) \<and>
   snd (getppages 1 c) + PAGE_SIZE \<le> coremap_addr c + coremap_size c * PAGE_SIZE"
  using boot_first_page [of r cs garbage r1 c] div_le_mono [of "512 * PAGE_SIZE" "lastpaddr r" PAGE_SIZE]
    div_le_mono [of 8192 "lastpaddr r div PAGE_SIZE * 8 + PAGE_SIZE" PAGE_SIZE]
  by (simp add: ram_getsize_def)

theorem boot_overwrites_coremap_witness:
  "let c = snd (coremap_initialize (\<lambda>i. empty_node) (ram_bootstrap 0x400000 0x80040000)) in
   coremap_addr c < snd (getppages 1 c) \<and>
   snd (getppages 1 c) + PAGE_SIZE \<le> coremap_addr c + coremap_size c * PAGE_SIZE"
  using boot_overwrites_coremap [of "ram_bootstrap 0x400000 0x80040000" 3 "\<lambda>i. empty_node"]
  by (simp add: ram_bootstrap_def Let_def prod_eq_iff)

end
