(* ===== verification/Addrspace.thy ===== *)
theory Addrspace
  imports Coremap Memory
begin

text \<open>
  Address spaces and the TLB: \<^verbatim>\<open>kern/vm/addrspace.c\<close>.

  An address space is a record and its page table the list that \<^verbatim>\<open>page_table\<close> points to; an index
  past its end stops the kernel here. Memory that \<^verbatim>\<open>kmalloc\<close> returns is not cleared: the fields
  that the code does not set keep the values of an argument \<open>junk\<close>, and so do local variables that
  are read before they are set. The TLB is a list of pairs of \<^verbatim>\<open>entryhi\<close> and \<^verbatim>\<open>entrylo\<close>; the
  code around its accesses only raises the interrupt level, which these definitions leave out.
\<close>

abbreviation (input) PAGE_FRAME :: u32 where "PAGE_FRAME \<equiv> 0xfffff000"

abbreviation (input) USERSTACK :: u32 where "USERSTACK \<equiv> USERSPACETOP"

abbreviation (input) DUMBVM_STACKPAGES :: nat where "DUMBVM_STACKPAGES \<equiv> 18"

abbreviation (input) NUM_TLB :: nat where "NUM_TLB \<equiv> 64"

abbreviation (input) TLBLO_VALID :: u32 where "TLBLO_VALID \<equiv> 0x200"

abbreviation (input) TLBLO_DIRTY :: u32 where "TLBLO_DIRTY \<equiv> 0x400"

definition PADDR_TO_KVADDR :: "u32 \<Rightarrow> u32" where
  "PADDR_TO_KVADDR p = p + 0x80000000"

record pte =
  as_vbase :: u32
  as_pbase :: u32
  as_npages :: u32
  final_privilege :: int
  temp_privilege :: int

record addrspace =
  as_stackpbase :: u32
  page_table :: "pte list"
  no_of_segments :: int

definition segments :: "addrspace \<Rightarrow> nat list" where
  "segments as = [0..<nat (no_of_segments as)]"

section \<open>The life of an address space\<close>

text \<open>\<open>junk\<close> is the block from \<^verbatim>\<open>kmalloc\<close>, None when there is none.\<close>

definition as_create :: "addrspace option \<Rightarrow> addrspace option" where
  "as_create junk = map_option (\<lambda>as. as\<lparr>as_stackpbase := 0\<rparr>) junk"

text \<open>The loop of \<^verbatim>\<open>as_define_region\<close> over the slots that are left.\<close>

primrec define_slot :: "nat list \<Rightarrow> u32 \<Rightarrow> u32 \<Rightarrow> int \<Rightarrow> addrspace \<Rightarrow> addrspace option" where
  "define_slot [] vaddr npages privilege as = Some as"
| "define_slot (i # is) vaddr npages privilege as = do {
     x \<leftarrow> fetch (page_table as) i;
     if as_vbase x = 0
     then Some (as\<lparr>page_table := (page_table as)
            [i := x\<lparr>as_vbase := vaddr, as_npages := npages, temp_privilege := privilege\<rparr>]\<rparr>)
     else define_slot is vaddr npages privilege as
   }"

definition as_define_region :: "u32 \<Rightarrow> u32 \<Rightarrow> int \<Rightarrow> int \<Rightarrow> int \<Rightarrow> addrspace \<Rightarrow> addrspace option" where
  "as_define_region vaddr sz rd wr ex as =
    (let sz1 = sz + (vaddr AND NOT PAGE_FRAME);
         vaddr1 = vaddr AND PAGE_FRAME;
         sz2 = (sz1 + 4096 - 1) AND PAGE_FRAME;
         npages = sz2 div 4096;
         privilege = rd OR wr OR ex
     in define_slot (segments as) vaddr1 npages privilege as)"

text \<open>
  The loop of \<^verbatim>\<open>as_prepare_load\<close>: False when a segment got no memory. The call of
  \<^verbatim>\<open>as_zero_region\<close> in the loop stands behind its \<^verbatim>\<open>return\<close> and never runs.
\<close>

primrec prepare_each :: "nat list \<Rightarrow> addrspace \<Rightarrow> cmap \<Rightarrow> (bool \<times> addrspace \<times> cmap) option" where
  "prepare_each [] as c = Some (True, as, c)"
| "prepare_each (i # is) as c = do {
     x \<leftarrow> fetch (page_table as) i;
     let (c1, pa) = getppages (unat (as_npages x)) c;
     let as1 = as\<lparr>page_table := (page_table as)[i := x\<lparr>as_pbase := of_nat pa\<rparr>]\<rparr>;
     if (of_nat pa :: u32) = 0 then Some (False, as1, c1) else prepare_each is as1 c1
   }"

definition as_zero_region :: "prot \<Rightarrow> u32 \<Rightarrow> u32 \<Rightarrow> bytes \<Rightarrow> bytes + bytes" where
  "as_zero_region p paddr npages m = bzero p (PADDR_TO_KVADDR paddr) (npages * 4096) m"

definition unfaulted :: "bytes + bytes \<Rightarrow> bytes option" where
  "unfaulted r = (case r of Inl _ \<Rightarrow> None | Inr m \<Rightarrow> Some m)"

definition as_prepare_load ::
    "prot \<Rightarrow> addrspace \<Rightarrow> cmap \<Rightarrow> bytes \<Rightarrow> ((errno + unit) \<times> addrspace \<times> cmap \<times> bytes) option" where
  "as_prepare_load p as c m = do {
     (ok, as1, c1) \<leftarrow> prepare_each (segments as) as c;
     if \<not> ok then Some (Inl ENOMEM, as1, c1, m) else do {
       let (c2, pa) = getppages DUMBVM_STACKPAGES c1;
       let as2 = as1\<lparr>as_stackpbase := of_nat pa\<rparr>;
       if as_stackpbase as2 = 0 then Some (Inl ENOMEM, as2, c2, m) else do {
         m1 \<leftarrow> unfaulted (as_zero_region p (as_stackpbase as2) (of_nat DUMBVM_STACKPAGES) m);
         Some (Inr (), as2, c2, m1)
       }
     }
   }"

primrec complete_each :: "nat list \<Rightarrow> addrspace \<Rightarrow> addrspace option" where
  "complete_each [] as = Some as"
| "complete_each (i # is) as = do {
     x \<leftarrow> fetch (page_table as) i;
     complete_each is
       (as\<lparr>page_table := (page_table as)[i := x\<lparr>final_privilege := temp_privilege x\<rparr>]\<rparr>)
   }"

definition as_complete_load :: "addrspace \<Rightarrow> addrspace option" where
  "as_complete_load as = complete_each (segments as) as"

definition as_define_stack :: "addrspace \<Rightarrow> u32 option" where
  "as_define_stack as = do { kassert (as_stackpbase as \<noteq> 0); Some USERSTACK }"

section \<open>\<^verbatim>\<open>as_copy\<close>\<close>

primrec copy_shape :: "nat list \<Rightarrow> addrspace \<Rightarrow> addrspace \<Rightarrow> addrspace option" where
  "copy_shape [] old new = Some new"
| "copy_shape (i # is) old new = do {
     x \<leftarrow> fetch (page_table old) i;
     y \<leftarrow> fetch (page_table new) i;
     copy_shape is old (new\<lparr>page_table :=
       (page_table new)[i := y\<lparr>as_vbase := as_vbase x, as_npages := as_npages x\<rparr>]\<rparr>)
   }"

primrec copy_pages :: "prot \<Rightarrow> nat list \<Rightarrow> addrspace \<Rightarrow> addrspace \<Rightarrow> bytes \<Rightarrow> bytes option" where
  "copy_pages p [] old new m = Some m"
| "copy_pages p (i # is) old new m = do {
     x \<leftarrow> fetch (page_table old) i;
     y \<leftarrow> fetch (page_table new) i;
     m1 \<leftarrow> unfaulted (memmove p (PADDR_TO_KVADDR (as_pbase y)) (PADDR_TO_KVADDR (as_pbase x))
             (as_npages x * 4096) m);
     copy_pages p is old new m1
   }"

definition as_copy ::
    "prot \<Rightarrow> addrspace option \<Rightarrow> addrspace \<Rightarrow> cmap \<Rightarrow> bytes \<Rightarrow>
      ((errno + addrspace) \<times> cmap \<times> bytes) option" where
  "as_copy p junk old c m =
    (case as_create junk of
       None \<Rightarrow> Some (Inl ENOMEM, c, m)
     | Some new \<Rightarrow> do {
         new1 \<leftarrow> copy_shape (segments old) old new;
         (r, new2, c1, m1) \<leftarrow> as_prepare_load p new1 c m;
         (case r of
            Inl e \<Rightarrow> Some (Inl ENOMEM, c1, m1)
          | Inr _ \<Rightarrow> do {
              m2 \<leftarrow> copy_pages p (segments old) old new2 m1;
              m3 \<leftarrow> unfaulted (memmove p (PADDR_TO_KVADDR (as_stackpbase new2))
                      (PADDR_TO_KVADDR (as_stackpbase old)) (of_nat DUMBVM_STACKPAGES * 4096) m2);
              Some (Inr new2, c1, m3)
            })
       })"

section \<open>The TLB and page faults\<close>

type_synonym tlb = "(u32 \<times> u32) list"

abbreviation (input) VM_FAULT_READ :: int where "VM_FAULT_READ \<equiv> 0"

abbreviation (input) VM_FAULT_WRITE :: int where "VM_FAULT_WRITE \<equiv> 1"

abbreviation (input) VM_FAULT_READONLY :: int where "VM_FAULT_READONLY \<equiv> 2"

definition TLBHI_INVALID :: "nat \<Rightarrow> u32" where
  "TLBHI_INVALID entryno = push_bit 12 (0x80000 + of_nat entryno)"

text \<open>The first entry for the virtual page of \<open>entryhi\<close>, valid or not; \<open>entrylo\<close> is not used.\<close>

definition tlb_probe :: "u32 \<Rightarrow> tlb \<Rightarrow> nat option" where
  "tlb_probe entryhi t = find_from (\<lambda>i. fst (t ! i) AND PAGE_FRAME = entryhi AND PAGE_FRAME) 0 (length t)"

text \<open>Which segment, or the stack, an address lies in: its physical address, and whether the segment
  is read-only.\<close>

primrec locate :: "nat list \<Rightarrow> addrspace \<Rightarrow> u32 \<Rightarrow> u32 \<Rightarrow> (u32 \<times> bool) option" where
  "locate [] as a paddr = Some (paddr, False)"
| "locate (i # is) as a paddr = do {
     x \<leftarrow> fetch (page_table as) i;
     let vbase = as_vbase x;
     let vtop = vbase + as_npages x * 4096;
     let stackbase = USERSTACK - of_nat DUMBVM_STACKPAGES * 4096;
     if a \<ge> vbase \<and> a < vtop
     then Some ((a - vbase) + as_pbase x, final_privilege x = 4 \<or> final_privilege x = 5)
     else if a \<ge> stackbase \<and> a < USERSTACK
     then locate is as a ((a - stackbase) + as_stackpbase as)
     else locate is as a paddr
   }"

text \<open>
  The scan of the TLB from index \<open>i\<close>: either the first invalid entry is written, or every entry is
  read and the last one read is left in \<^verbatim>\<open>ehi\<close> and \<^verbatim>\<open>elo\<close>. An index past 63 does not exist.
\<close>

primrec tlb_fill :: "nat list \<Rightarrow> u32 \<Rightarrow> u32 \<Rightarrow> u32 \<times> u32 \<Rightarrow> tlb \<Rightarrow> tlb + u32 \<times> u32" where
  "tlb_fill [] ehi elo seen t = Inr seen"
| "tlb_fill (i # is) ehi elo seen t =
    (if snd (t ! i) AND TLBLO_VALID \<noteq> 0 then tlb_fill is ehi elo (t ! i) t
     else Inl (t[i := (ehi, elo)]))"

text \<open>
  \<open>cur\<close> is the address space of \<^verbatim>\<open>curproc\<close>, \<open>slot\<close> the entry that the processor picks for
  \<^verbatim>\<open>tlb_random\<close>, \<open>junk\<close> the value of \<^verbatim>\<open>paddr\<close> before it is set.
\<close>

definition vm_fault :: "u32 \<Rightarrow> nat \<Rightarrow> addrspace option option \<Rightarrow> int \<Rightarrow> u32 \<Rightarrow> tlb \<Rightarrow>
    ((errno + unit) \<times> tlb) option" where
  "vm_fault junk slot cur faulttype faultaddress t =
    (let a = faultaddress AND PAGE_FRAME in
     if faulttype = VM_FAULT_READONLY then Some (Inl EPERM, t)
     else if faulttype \<noteq> VM_FAULT_READ \<and> faulttype \<noteq> VM_FAULT_WRITE then Some (Inl EINVAL, t)
     else (case cur of
         None \<Rightarrow> Some (Inl EFAULT, t)
       | Some None \<Rightarrow> Some (Inl EFAULT, t)
       | Some (Some as) \<Rightarrow> do {
           (paddr, read_only) \<leftarrow> locate (segments as) as a junk;
           kassert (paddr AND PAGE_FRAME = paddr);
           let elo = (paddr OR TLBLO_VALID) OR (if read_only then 0 else TLBLO_DIRTY);
           (case tlb_fill [0..<NUM_TLB] a elo (0, 0) t of
              Inl t1 \<Rightarrow> Some (Inr (), t1)
            | Inr (ehi, lo) \<Rightarrow>
                (case tlb_probe ehi t of
                   None \<Rightarrow> Some (Inr (), t[slot := (ehi, lo)])
                 | Some v \<Rightarrow> Some (Inr (), t[v := (0, 0)])))
         }))"

definition as_activate :: "addrspace option option \<Rightarrow> tlb \<Rightarrow> tlb" where
  "as_activate cur t =
    (case cur of
       Some (Some as) \<Rightarrow> fold (\<lambda>i t. t[i := (TLBHI_INVALID i, 0)]) [0..<NUM_TLB] t
     | _ \<Rightarrow> t)"

section \<open>What a fault installs\<close>

definition in_segment :: "u32 \<Rightarrow> pte \<Rightarrow> bool" where
  "in_segment a x \<longleftrightarrow> as_vbase x \<le> a \<and> a < as_vbase x + as_npages x * 4096"

definition in_stack :: "u32 \<Rightarrow> bool" where
  "in_stack a \<longleftrightarrow> USERSTACK - 18 * 4096 \<le> a \<and> a < USERSTACK"

definition table_ok :: "addrspace \<Rightarrow> bool" where
  "table_ok as \<longleftrightarrow> length (page_table as) = nat (no_of_segments as)"

text \<open>The physical page and the protection of a virtual page: None outside the address space.\<close>

definition translation :: "addrspace \<Rightarrow> u32 \<Rightarrow> (u32 \<times> bool) option" where
  "translation as a =
    (case find (in_segment a) (page_table as) of
       Some x \<Rightarrow> Some ((a - as_vbase x) + as_pbase x, final_privilege x = 4 \<or> final_privilege x = 5)
     | None \<Rightarrow>
         if in_stack a \<and> page_table as \<noteq> []
         then Some ((a - (USERSTACK - 18 * 4096)) + as_stackpbase as, False) else None)"

lemma locate_from:
  "i \<le> length (page_table as) \<Longrightarrow>
    locate [i..<length (page_table as)] as a paddr =
    Some (case find (in_segment a) (drop i (page_table as)) of
       Some x \<Rightarrow> ((a - as_vbase x) + as_pbase x, final_privilege x = 4 \<or> final_privilege x = 5)
     | None \<Rightarrow>
         if in_stack a \<and> i < length (page_table as)
         then ((a - (USERSTACK - 18 * 4096)) + as_stackpbase as, False) else (paddr, False))"
proof (induction "length (page_table as) - i" arbitrary: i paddr)
  case 0
  then show ?case by simp
next
  case (Suc k)
  then have i: "i < length (page_table as)" by simp
  then have up: "[i..<length (page_table as)] = i # [Suc i..<length (page_table as)]"
    and dr: "drop i (page_table as) = page_table as ! i # drop (Suc i) (page_table as)"
    by (simp_all add: upt_conv_Cons Cons_nth_drop_Suc)
  note IH = Suc.hyps(1) [of "Suc i"]
  show ?case
    using i Suc.hyps(2) unfolding up dr
    by (auto simp: IH in_segment_def in_stack_def Let_def split: option.split)
qed

lemma locate_translation:
  "table_ok as \<Longrightarrow> locate (segments as) as a junk =
    Some (case translation as a of Some r \<Rightarrow> r | None \<Rightarrow> (junk, False))"
  using locate_from [of 0 as a junk]
  by (auto simp: segments_def table_ok_def translation_def split: option.split)

definition entry_for :: "u32 \<Rightarrow> u32 \<times> bool \<Rightarrow> u32 \<times> u32" where
  "entry_for a = (\<lambda>(paddr, ro). (a, (paddr OR TLBLO_VALID) OR (if ro then 0 else TLBLO_DIRTY)))"

lemma entry_for_valid: "snd (entry_for a r) AND TLBLO_VALID \<noteq> 0"
proof -
  have "bit (snd (entry_for a r) AND TLBLO_VALID) 9"
    by (simp add: entry_for_def split_beta bit_simps)
  then show ?thesis by force
qed

lemma tlb_fill_cases:
  "tlb_fill is ehi elo seen t =
    (case find (\<lambda>i. snd (t ! i) AND TLBLO_VALID = 0) is of
       Some i \<Rightarrow> Inl (t[i := (ehi, elo)])
     | None \<Rightarrow> Inr (if is = [] then seen else t ! last is))"
  by (induction "is" arbitrary: seen) (auto split: option.split)

lemma vm_fault_installs:
  assumes "table_ok as" and "ft = VM_FAULT_READ \<or> ft = VM_FAULT_WRITE"
    and r: "r = (case translation as (fa AND PAGE_FRAME) of Some r \<Rightarrow> r | None \<Rightarrow> (junk, False))"
    and "fst r AND PAGE_FRAME = fst r"
  shows "vm_fault junk slot (Some (Some as)) ft fa t =
    Some (Inr (), case find (\<lambda>i. snd (t ! i) AND TLBLO_VALID = 0) [0..<NUM_TLB] of
      Some i \<Rightarrow> t[i := entry_for (fa AND PAGE_FRAME) r]
    | None \<Rightarrow> (case tlb_probe (fst (t ! 63)) t of None \<Rightarrow> t[slot := t ! 63] | Some v \<Rightarrow> t[v := (0, 0)]))"
proof -
  have l: "locate (segments as) as (fa AND PAGE_FRAME) junk = Some r"
    using locate_translation [OF assms(1)] r by simp
  show ?thesis
    using assms(2,4) by (cases r; cases "t ! 63")
      (auto simp: vm_fault_def Let_def l tlb_fill_cases entry_for_def simp del: upt_Suc split: option.split)
qed

lemma probe_last:
  assumes "length t = NUM_TLB"
  obtains v where "tlb_probe (fst (t ! 63)) t = Some v" and "v < NUM_TLB"
proof (cases "tlb_probe (fst (t ! 63)) t")
  case None
  then have "\<forall>j. 0 \<le> j \<and> j < length t \<longrightarrow> fst (t ! j) AND PAGE_FRAME \<noteq> fst (t ! 63) AND PAGE_FRAME"
    unfolding tlb_probe_def find_from_None .
  from this [rule_format, of 63] show ?thesis using assms by simp
next
  case (Some v)
  then show ?thesis using that assms unfolding tlb_probe_def find_from_Some by auto
qed

lemma fault_twice:
  assumes "table_ok as" and "ft = VM_FAULT_READ \<or> ft = VM_FAULT_WRITE" and len: "length t = NUM_TLB"
    and tr: "translation as (fa AND PAGE_FRAME) = Some r" and "fst r AND PAGE_FRAME = fst r"
  shows "\<exists>t1. vm_fault junk slot (Some (Some as)) ft fa t = Some (Inr (), t1) \<and>
    (entry_for (fa AND PAGE_FRAME) r \<in> set t1 \<or>
     (\<exists>t2. vm_fault junk slot (Some (Some as)) ft fa t1 = Some (Inr (), t2) \<and>
       entry_for (fa AND PAGE_FRAME) r \<in> set t2))"
proof -
  let ?inv = "\<lambda>t i. snd (t ! i) AND TLBLO_VALID = 0" and ?e = "entry_for (fa AND PAGE_FRAME) r"
  have step: "vm_fault junk slot (Some (Some as)) ft fa t' =
      Some (Inr (), case find (?inv t') [0..<NUM_TLB] of Some i \<Rightarrow> t'[i := ?e]
        | None \<Rightarrow> (case tlb_probe (fst (t' ! 63)) t' of None \<Rightarrow> t'[slot := t' ! 63] | Some v \<Rightarrow> t'[v := (0, 0)]))" for t'
    by (rule vm_fault_installs) (use assms tr in simp_all)
  have fill: "?e \<in> set (t'[i := ?e])" if "find (?inv t') [0..<NUM_TLB] = Some i" "length t' = NUM_TLB" for t' i
    using that by (auto simp: find_Some_iff simp del: upt_Suc intro!: set_update_memI)
  show ?thesis
  proof (cases "find (?inv t) [0..<NUM_TLB]")
    case (Some i)
    then show ?thesis using step fill len by auto
  next
    case None
    obtain v where v: "tlb_probe (fst (t ! 63)) t = Some v" "v < NUM_TLB" by (rule probe_last [OF len])
    have "?inv (t[v := (0, 0)]) v" using v len by simp
    then obtain i where "find (?inv (t[v := (0, 0)])) [0..<NUM_TLB] = Some i"
      using v(2) by (cases "find (?inv (t[v := (0, 0)])) [0..<NUM_TLB]")
        (auto simp: find_None_iff simp del: upt_Suc)
    then show ?thesis using step [of t] step [of "t[v := (0, 0)]"] fill None v len by auto
  qed
qed

text \<open>A fault on an address of the process is resolved after at most one retry: when the TLB is
  full, the first fault only makes an entry invalid, and the retried access then gets its
  translation, read-only exactly for a read-only segment.\<close>

theorem vm_fault_progress:
  "table_ok as \<Longrightarrow> ft = VM_FAULT_READ \<or> ft = VM_FAULT_WRITE \<Longrightarrow> length t = NUM_TLB \<Longrightarrow>
   translation as (fa AND PAGE_FRAME) = Some r \<Longrightarrow> fst r AND PAGE_FRAME = fst r \<Longrightarrow>
   \<exists>t1. vm_fault junk slot (Some (Some as)) ft fa t = Some (Inr (), t1) \<and>
    (entry_for (fa AND PAGE_FRAME) r \<in> set t1 \<or>
     (\<exists>t2. vm_fault junk slot (Some (Some as)) ft fa t1 = Some (Inr (), t2) \<and>
       entry_for (fa AND PAGE_FRAME) r \<in> set t2))"
  by (rule fault_twice)

definition sample_as :: addrspace where
  "sample_as = \<lparr>as_stackpbase = 0x50000,
     page_table = [\<lparr>as_vbase = 0x400000, as_pbase = 0x40000, as_npages = 2, final_privilege = 5, temp_privilege = 5\<rparr>],
     no_of_segments = 1\<rparr>"

definition full_tlb :: tlb where
  "full_tlb = map (\<lambda>i. (of_nat i * 4096, TLBLO_VALID)) [0..<NUM_TLB]"

lemma sample_translation: "translation sample_as 0x401000 = Some (0x41000, True)"
  by (simp add: translation_def sample_as_def in_segment_def)

theorem vm_fault_progress_witness:
  "\<exists>t1. vm_fault 0 0 (Some (Some sample_as)) VM_FAULT_READ 0x401234 full_tlb = Some (Inr (), t1) \<and>
    ((0x401000, 0x41200) \<in> set t1 \<or>
     (\<exists>t2. vm_fault 0 0 (Some (Some sample_as)) VM_FAULT_READ 0x401234 t1 = Some (Inr (), t2) \<and>
       (0x401000, 0x41200) \<in> set t2))"
  using vm_fault_progress [where as = sample_as and ft = VM_FAULT_READ and t = full_tlb and fa = "0x401234"
      and r = "(0x41000, True)" and junk = 0 and slot = 0] sample_translation
  by (simp add: full_tlb_def sample_as_def table_ok_def entry_for_def)



section \<open>Blocks of physical memory\<close>

text \<open>A block of \<open>n\<close> pages at a physical address lies in kseg0 without reaching its end.\<close>

definition placed :: "u32 \<Rightarrow> u32 \<Rightarrow> bool" where
  "placed b n \<longleftrightarrow> unat b mod PAGE_SIZE = 0 \<and> unat b + unat n * PAGE_SIZE \<le> 2 ^ 30"

definition frame_of :: "u32 \<Rightarrow> nat" where
  "frame_of a = (unat a - 2 ^ 31) div PAGE_SIZE"

lemma placed_unat:
  assumes "placed b n"
  shows "unat (n * 4096) = unat n * PAGE_SIZE" and "unat (PADDR_TO_KVADDR b) = unat b + 2 ^ 31"
proof -
  have "unat n * 4096 < 2 ^ 32" "unat b + 2 ^ 31 < 2 ^ 32" using assms by (simp_all add: placed_def)
  then show "unat (n * 4096) = unat n * PAGE_SIZE" "unat (PADDR_TO_KVADDR b) = unat b + 2 ^ 31"
    by (simp_all add: PADDR_TO_KVADDR_def unat_word_ariths take_bit_eq_mod)
qed

lemma in_block_iff:
  assumes "placed b n"
  shows "a - PADDR_TO_KVADDR b < n * 4096 \<longleftrightarrow>
    2 ^ 31 \<le> unat a \<and> frame_of a \<in> block (unat b) (unat n)"
proof -
  let ?k = "PADDR_TO_KVADDR b"
  note u = placed_unat [OF assms]
  have b: "unat b = (unat b div PAGE_SIZE) * PAGE_SIZE" "unat b + unat n * PAGE_SIZE \<le> 2 ^ 30"
    using assms by (auto simp: placed_def)
  show ?thesis
  proof (cases "?k \<le> a")
    case True
    then have "unat (a - ?k) = unat a - unat ?k" "unat ?k \<le> unat a"
      by (simp_all add: unat_sub word_le_nat_alt)
    then show ?thesis
      using b unfolding word_less_nat_alt u frame_of_def block_def
      by (auto simp: u div_less_iff_less_mult less_eq_div_iff_mult_less_eq)
  next
    case False
    then have lt: "unat a < unat b + 2 ^ 31" by (simp add: word_le_nat_alt u)
    have "unat (a - ?k) = 2 ^ 32 + unat a - unat ?k"
      using False by (simp add: unat_sub_if_size word_size word_le_nat_alt)
    then have "\<not> a - ?k < n * 4096" using b(2) by (simp add: word_less_nat_alt u)
    moreover have "unat b div PAGE_SIZE * PAGE_SIZE \<le> unat a - 2 ^ 31 \<longrightarrow> unat b \<le> unat a - 2 ^ 31"
      using b(1) by simp
    ultimately show ?thesis
      using lt b(1) unfolding frame_of_def block_def
      by (auto simp: less_eq_div_iff_mult_less_eq)
  qed
qed

text \<open>A kernel memory whose kseg0 part can be read and written.\<close>

definition kseg0_ok :: "prot \<Rightarrow> bool" where
  "kseg0_ok p \<longleftrightarrow> (\<forall>a. 2 ^ 31 \<le> unat a \<longrightarrow> can_read p a \<and> can_write p a)"

lemma block_accessible:
  assumes "kseg0_ok p" and "placed b n"
  shows "readable p (PADDR_TO_KVADDR b) (n * 4096)" and "writable p (PADDR_TO_KVADDR b) (n * 4096)"
    and "no_wrap (PADDR_TO_KVADDR b) (n * 4096)"
proof -
  have "2 ^ 31 \<le> unat (PADDR_TO_KVADDR b + k)" if "k < n * 4096" for k
    using in_block_iff [OF assms(2), of "PADDR_TO_KVADDR b + k"] that by simp
  then show "readable p (PADDR_TO_KVADDR b) (n * 4096)" "writable p (PADDR_TO_KVADDR b) (n * 4096)"
    using assms(1) by (auto simp: readable_def writable_def kseg0_ok_def)
  show "no_wrap (PADDR_TO_KVADDR b) (n * 4096)"
    using assms(2) unfolding no_wrap_def placed_unat [OF assms(2)] by (simp add: placed_def)
qed

lemma move_pages:
  assumes "kseg0_ok p" and "placed s n" and "placed d n"
  shows "unfaulted (memmove p (PADDR_TO_KVADDR d) (PADDR_TO_KVADDR s) (n * 4096) m) =
    Some (moved (PADDR_TO_KVADDR d) (PADDR_TO_KVADDR s) (n * 4096) m)"
  using memmove_block [OF block_accessible(3) block_accessible(3) block_accessible(1) block_accessible(2)]
    assms by (simp add: unfaulted_def)

section \<open>Copying a list of blocks\<close>

fun run_moves :: "(u32 \<times> u32 \<times> u32) list \<Rightarrow> bytes \<Rightarrow> bytes" where
  "run_moves [] m = m"
| "run_moves ((s, d, n) # ms) m =
     run_moves ms (moved (PADDR_TO_KVADDR d) (PADDR_TO_KVADDR s) (n * 4096) m)"

definition sources :: "(u32 \<times> u32 \<times> u32) list \<Rightarrow> nat set" where
  "sources ms = (\<Union>(s, d, n) \<in> set ms. block (unat s) (unat n))"

definition targets :: "(u32 \<times> u32 \<times> u32) list \<Rightarrow> nat set" where
  "targets ms = (\<Union>(s, d, n) \<in> set ms. block (unat d) (unat n))"

fun apart :: "(u32 \<times> u32 \<times> u32) list \<Rightarrow> bool" where
  "apart [] = True"
| "apart ((s, d, n) # ms) \<longleftrightarrow>
     placed s n \<and> placed d n \<and> block (unat d) (unat n) \<inter> (targets ms \<union> sources ms) = {} \<and> apart ms"

lemma apart_placed: "apart ms \<Longrightarrow> (s, d, n) \<in> set ms \<Longrightarrow> placed s n \<and> placed d n"
  by (induction ms rule: apart.induct) auto

lemma run_moves_outside:
  "apart ms \<Longrightarrow> \<not> (2 ^ 31 \<le> unat a \<and> frame_of a \<in> targets ms) \<Longrightarrow> run_moves ms m a = m a"
proof (induction ms m rule: run_moves.induct)
  case (2 s d n ms m)
  then have "\<not> a - PADDR_TO_KVADDR d < n * 4096"
    by (auto simp: in_block_iff targets_def)
  then show ?case using 2 by (auto simp: moved_def targets_def)
qed simp

lemma run_moves_target:
  "apart ms \<Longrightarrow> (s, d, n) \<in> set ms \<Longrightarrow> k < n * 4096 \<Longrightarrow>
    run_moves ms m (PADDR_TO_KVADDR d + k) = m (PADDR_TO_KVADDR s + k)"
proof (induction ms m rule: run_moves.induct)
  case (2 s' d' n' ms m)
  let ?m1 = "moved (PADDR_TO_KVADDR d') (PADDR_TO_KVADDR s') (n' * 4096) m"
  show ?case
  proof (cases "(s, d, n) \<in> set ms")
    case True
    have "placed s n" using "2.prems"(1) True apart_placed by auto
    then have "2 ^ 31 \<le> unat (PADDR_TO_KVADDR s + k)" "frame_of (PADDR_TO_KVADDR s + k) \<in> sources ms"
      using in_block_iff [of s n "PADDR_TO_KVADDR s + k"] "2.prems"(3) True by (auto simp: sources_def)
    then have "?m1 (PADDR_TO_KVADDR s + k) = m (PADDR_TO_KVADDR s + k)"
      using "2.prems"(1) in_block_iff [of d' n' "PADDR_TO_KVADDR s + k"] by (auto simp: moved_def)
    then show ?thesis using "2.IH" "2.prems" True by simp
  next
    case False
    then have eq: "s = s'" "d = d'" "n = n'" using "2.prems"(2) by auto
    have "frame_of (PADDR_TO_KVADDR d + k) \<notin> targets ms"
      using "2.prems" in_block_iff [of d n "PADDR_TO_KVADDR d + k"] unfolding eq by auto
    then have "run_moves ms ?m1 (PADDR_TO_KVADDR d + k) = ?m1 (PADDR_TO_KVADDR d + k)"
      using "2.prems"(1) by (intro run_moves_outside) simp_all
    then show ?thesis using "2.prems"(3) unfolding eq by (simp add: moved_def)
  qed
qed simp

section \<open>What \<^verbatim>\<open>as_copy\<close> copies\<close>

text \<open>The moves that a copy makes: from the blocks of the old table to those of the new one.\<close>

definition table_moves :: "pte list \<Rightarrow> pte list \<Rightarrow> (u32 \<times> u32 \<times> u32) list" where
  "table_moves xs ys = map2 (\<lambda>x y. (as_pbase x, as_pbase y, as_npages x)) xs ys"

definition all_moves :: "addrspace \<Rightarrow> addrspace \<Rightarrow> (u32 \<times> u32 \<times> u32) list" where
  "all_moves old new = table_moves (page_table old) (page_table new) @ [(as_stackpbase old, as_stackpbase new, 18)]"

lemma copy_pages_moves:
  assumes "kseg0_ok p" and "length (page_table new) = length (page_table old)"
    and "i \<le> length (page_table old)"
    and "\<forall>(s, d, n) \<in> set (table_moves (drop i (page_table old)) (drop i (page_table new))). placed s n \<and> placed d n"
  shows "copy_pages p [i..<length (page_table old)] old new m =
    Some (run_moves (table_moves (drop i (page_table old)) (drop i (page_table new))) m)"
  using assms
proof (induction "length (page_table old) - i" arbitrary: i m)
  case 0
  then show ?case by (simp add: table_moves_def)
next
  case (Suc k)
  then have i: "i < length (page_table old)" by simp
  then have up: "[i..<length (page_table old)] = i # [Suc i..<length (page_table old)]"
    and dr: "drop i (page_table old) = page_table old ! i # drop (Suc i) (page_table old)"
      "drop i (page_table new) = page_table new ! i # drop (Suc i) (page_table new)"
    using Suc.prems(2) by (simp_all add: upt_conv_Cons Cons_nth_drop_Suc)
  have pl: "placed (as_pbase (page_table old ! i)) (as_npages (page_table old ! i))"
      "placed (as_pbase (page_table new ! i)) (as_npages (page_table old ! i))"
    using Suc.prems(4) unfolding dr by (simp_all add: table_moves_def)
  have rest: "\<forall>(s, d, n) \<in> set (table_moves (drop (Suc i) (page_table old)) (drop (Suc i) (page_table new))).
      placed s n \<and> placed d n"
    using Suc.prems(4) unfolding dr by (simp add: table_moves_def)
  show ?case
    using Suc.hyps(1) [of "Suc i", OF _ Suc.prems(1,2) _ rest] Suc.hyps(2) i Suc.prems(2)
    unfolding up dr by (simp add: move_pages [OF Suc.prems(1) pl] table_moves_def)
qed

lemma run_moves_append: "run_moves (ms @ ns) m = run_moves ns (run_moves ms m)"
  by (induction ms m rule: run_moves.induct) simp_all

lemma copy_shape_from:
  assumes "length (page_table new) = length (page_table old)" and "i \<le> length (page_table old)"
  shows "copy_shape [i..<length (page_table old)] old new =
    Some (new\<lparr>page_table := take i (page_table new) @
      map2 (\<lambda>x y. y\<lparr>as_vbase := as_vbase x, as_npages := as_npages x\<rparr>)
        (drop i (page_table old)) (drop i (page_table new))\<rparr>)"
  using assms
proof (induction "length (page_table old) - i" arbitrary: i new)
  case 0
  then show ?case by simp
next
  case (Suc k)
  then have i: "i < length (page_table old)" by simp
  let ?y = "(page_table new ! i)\<lparr>as_vbase := as_vbase (page_table old ! i), as_npages := as_npages (page_table old ! i)\<rparr>"
  let ?new = "new\<lparr>page_table := (page_table new)[i := ?y]\<rparr>"
  have up: "[i..<length (page_table old)] = i # [Suc i..<length (page_table old)]"
    and dr: "drop i (page_table old) = page_table old ! i # drop (Suc i) (page_table old)"
      "drop i (page_table new) = page_table new ! i # drop (Suc i) (page_table new)"
    using i Suc.prems(1) by (simp_all add: upt_conv_Cons Cons_nth_drop_Suc)
  have tk: "take (Suc i) ((page_table new)[i := ?y]) = take i (page_table new) @ [?y]"
    using i Suc.prems(1) by (simp add: take_Suc_conv_app_nth take_update_swap list_update_append)
  show ?case
    using Suc.hyps(1) [of "Suc i" ?new] Suc.hyps(2) i Suc.prems(1)
    unfolding up dr by (simp add: tk)
qed

section \<open>The new blocks\<close>

lemma getppages_bound:
  assumes "getppages n c = (c', pa)"
  shows "memory_size c' = memory_size c" and "pa mod PAGE_SIZE = 0"
    and "pa \<noteq> 0 \<Longrightarrow> pa + n * PAGE_SIZE \<le> memory_size c * PAGE_SIZE"
proof -
  have "memory_size c' = memory_size c \<and> pa mod PAGE_SIZE = 0 \<and>
    (pa \<noteq> 0 \<longrightarrow> pa + n * PAGE_SIZE \<le> memory_size c * PAGE_SIZE)"
  proof (cases "pa = 0")
    case True
    then show ?thesis using assms getppages_none by auto
  next
    case False
    obtain i where i: "run_free (coremap c) (used c) n i" "i < length (coremap c)"
      "c' = c\<lparr>coremap := take_chunk n i (coremap c)\<rparr>" "pa = (i - n + 1) * PAGE_SIZE"
      using getppages_where [OF assms False] by metis
    then have "n \<le> i" "i + 1 \<le> memory_size c" by (simp_all add: run_free_def memory_size_def)
    then have "(i - n + 1 + n) * PAGE_SIZE \<le> memory_size c * PAGE_SIZE" by (intro mult_le_mono1) simp
    then have "pa + n * PAGE_SIZE \<le> memory_size c * PAGE_SIZE" by (simp add: i(4) algebra_simps)
    then show ?thesis using i(3,4) by (simp add: memory_size_def)
  qed
  then show "memory_size c' = memory_size c" "pa mod PAGE_SIZE = 0"
    "pa \<noteq> 0 \<Longrightarrow> pa + n * PAGE_SIZE \<le> memory_size c * PAGE_SIZE" by auto
qed

lemma alloc_all_bound:
  "alloc_all getppages ns c = (c', pas) \<Longrightarrow>
    memory_size c' = memory_size c \<and>
    list_all2 (\<lambda>n pa. pa mod PAGE_SIZE = 0 \<and> (pa \<noteq> 0 \<longrightarrow> pa + n * PAGE_SIZE \<le> memory_size c * PAGE_SIZE)) ns pas"
proof (induction ns arbitrary: c pas)
  case (Cons n ns)
  obtain c1 pa pas' where a: "getppages n c = (c1, pa)" "alloc_all getppages ns c1 = (c', pas')" "pas = pa # pas'"
    using Cons.prems by (auto simp: Let_def split: prod.splits)
  show ?case using Cons.IH [OF a(2)] getppages_bound [OF a(1)] by (auto simp: a(3))
qed simp

lemma alloc_all_append:
  "alloc_all f (ns @ [n]) c =
    (let (c1, pas) = alloc_all f ns c; (c2, pa) = f n c1 in (c2, pas @ [pa]))"
  by (induction ns arbitrary: c) (simp_all add: Let_def split_beta)

lemma prepare_each_allocs:
  assumes "prepare_each [i..<length (page_table as)] as c = Some (True, as1, c1)"
    and "i \<le> length (page_table as)"
  shows "\<exists>pas. alloc_all getppages (map (\<lambda>x. unat (as_npages x)) (drop i (page_table as))) c = (c1, pas) \<and>
    as1 = as\<lparr>page_table := take i (page_table as) @
      map2 (\<lambda>x pa. x\<lparr>as_pbase := of_nat pa\<rparr>) (drop i (page_table as)) pas\<rparr> \<and>
    (\<forall>pa \<in> set pas. (of_nat pa :: u32) \<noteq> 0)"
  using assms
proof (induction "length (page_table as) - i" arbitrary: i as c)
  case 0
  then show ?case by simp
next
  case (Suc k)
  then have i: "i < length (page_table as)" by simp
  let ?x = "page_table as ! i"
  obtain c2 pa where g: "getppages (unat (as_npages ?x)) c = (c2, pa)" by (cases "getppages (unat (as_npages ?x)) c")
  let ?as = "as\<lparr>page_table := (page_table as)[i := ?x\<lparr>as_pbase := of_nat pa\<rparr>]\<rparr>"
  have up: "[i..<length (page_table as)] = i # [Suc i..<length (page_table as)]"
    and dr: "drop i (page_table as) = ?x # drop (Suc i) (page_table as)"
    using i by (simp_all add: upt_conv_Cons Cons_nth_drop_Suc)
  have pa: "(of_nat pa :: u32) \<noteq> 0"
    and rest: "prepare_each [Suc i..<length (page_table ?as)] ?as c2 = Some (True, as1, c1)"
    using Suc.prems(1) i unfolding up by (auto simp: g Let_def split: if_splits)
  have k: "k = length (page_table ?as) - Suc i" using Suc.hyps(2) i by simp
  obtain pas where p: "alloc_all getppages (map (\<lambda>x. unat (as_npages x)) (drop (Suc i) (page_table as))) c2 = (c1, pas)"
    "as1 = ?as\<lparr>page_table := take (Suc i) (page_table ?as) @
      map2 (\<lambda>x pa. x\<lparr>as_pbase := of_nat pa\<rparr>) (drop (Suc i) (page_table as)) pas\<rparr>"
    "\<forall>pa \<in> set pas. (of_nat pa :: u32) \<noteq> 0"
    using Suc.hyps(1) [OF k rest] i by auto
  show ?case
    using p pa i unfolding dr
    by (intro exI [of _ "pa # pas"])
      (simp add: g take_Suc_conv_app_nth take_update_swap list_update_append)
qed

definition page_counts :: "addrspace \<Rightarrow> nat list" where
  "page_counts as = map (\<lambda>x. unat (as_npages x)) (page_table as) @ [DUMBVM_STACKPAGES]"

definition with_pages :: "addrspace \<Rightarrow> nat list \<Rightarrow> nat \<Rightarrow> addrspace" where
  "with_pages as pas stack =
    as\<lparr>page_table := map2 (\<lambda>x pa. x\<lparr>as_pbase := of_nat pa\<rparr>) (page_table as) pas,
       as_stackpbase := of_nat stack\<rparr>"

text \<open>A successful \<^verbatim>\<open>as_prepare_load\<close> is one sequence of requests: a block for each segment, then
  one for the stack, which alone is cleared.\<close>

lemma as_prepare_load_allocs:
  assumes "as_prepare_load p as c m = Some (Inr u, as2, c2, m1)" and "table_ok as"
  shows "\<exists>pas stack. alloc_all getppages (page_counts as) c = (c2, pas @ [stack]) \<and>
    length pas = length (page_table as) \<and> as2 = with_pages as pas stack \<and>
    (\<forall>pa \<in> set (pas @ [stack]). (of_nat pa :: u32) \<noteq> 0) \<and>
    as_zero_region p (of_nat stack) 18 m = Inr m1"
proof -
  have seg: "segments as = [0..<length (page_table as)]"
    using assms(2) by (simp add: segments_def table_ok_def)
  obtain as1 c1 where e: "prepare_each [0..<length (page_table as)] as c = Some (True, as1, c1)"
    using assms(1) unfolding as_prepare_load_def seg
    by (auto simp: bind_eq_Some split: if_splits prod.splits)
  obtain pas where p: "alloc_all getppages (map (\<lambda>x. unat (as_npages x)) (page_table as)) c = (c1, pas)"
    "as1 = as\<lparr>page_table := map2 (\<lambda>x pa. x\<lparr>as_pbase := of_nat pa\<rparr>) (page_table as) pas\<rparr>"
    "\<forall>pa \<in> set pas. (of_nat pa :: u32) \<noteq> 0"
    using prepare_each_allocs [OF e] by auto
  obtain c3 stack where g: "getppages DUMBVM_STACKPAGES c1 = (c3, stack)"
    by (cases "getppages DUMBVM_STACKPAGES c1")
  have len: "length pas = length (page_table as)"
    using list_all2_lengthD [OF conjunct2 [OF alloc_all_bound [OF p(1)]]] by simp
  have r: "(of_nat stack :: u32) \<noteq> 0" "c3 = c2" "as2 = with_pages as pas stack"
    "as_zero_region p (of_nat stack) 18 m = Inr m1"
    using assms(1) unfolding as_prepare_load_def seg e
    by (auto simp: g p(2) Let_def bind_eq_Some unfaulted_def with_pages_def split: if_splits sum.splits)
  show ?thesis
    using p(1,3) r g len
    by (intro exI [of _ pas] exI [of _ stack]) (auto simp: page_counts_def alloc_all_append Let_def)
qed

lemma apart_intro:
  assumes "\<forall>(s, d, n) \<in> set ms. placed s n \<and> placed d n \<and> block (unat s) (unat n) \<subseteq> U \<and>
      block (unat d) (unat n) \<inter> U = {}"
    and "\<forall>i j. i < j \<longrightarrow> j < length ms \<longrightarrow>
      (\<lambda>(s, d, n). block (unat d) (unat n)) (ms ! i) \<inter> (\<lambda>(s, d, n). block (unat d) (unat n)) (ms ! j) = {}"
  shows "apart ms"
  using assms
proof (induction ms rule: apart.induct)
  case (2 s d n ms)
  have "block (unat d) (unat n) \<inter> sources ms = {}"
    using "2.prems"(1) by (fastforce simp: sources_def)
  moreover have "block (unat d) (unat n) \<inter> targets ms = {}"
  proof -
    have "block (unat d) (unat n) \<inter> (\<lambda>(s, d, n). block (unat d) (unat n)) (ms ! j) = {}" if "j < length ms" for j
      using "2.prems"(2) [rule_format, of 0 "Suc j"] that by simp
    then show ?thesis by (fastforce simp: targets_def in_set_conv_nth)
  qed
  moreover have "apart ms"
  proof (rule "2.IH")
    show "\<forall>i j. i < j \<longrightarrow> j < length ms \<longrightarrow>
      (\<lambda>(s, d, n). block (unat d) (unat n)) (ms ! i) \<inter> (\<lambda>(s, d, n). block (unat d) (unat n)) (ms ! j) = {}"
      using "2.prems"(2) by (metis Suc_less_eq length_Cons nth_Cons_Suc)
  qed (use "2.prems"(1) in simp)
  ultimately show ?case using "2.prems"(1) by auto
qed simp

definition as_ok :: "cmap \<Rightarrow> addrspace \<Rightarrow> bool" where
  "as_ok c as \<longleftrightarrow> table_ok as \<and>
    (\<forall>x \<in> set (page_table as). placed (as_pbase x) (as_npages x) \<and>
       block (unat (as_pbase x)) (unat (as_npages x)) \<subseteq> frames_used c) \<and>
    placed (as_stackpbase as) 18 \<and> block (unat (as_stackpbase as)) 18 \<subseteq> frames_used c"

lemma new_placed:
  assumes "pa \<noteq> 0" and "pa mod PAGE_SIZE = 0" and "pa \<noteq> 0 \<longrightarrow> pa + unat n * PAGE_SIZE \<le> M * PAGE_SIZE"
    and "M \<le> 131072"
  shows "unat (of_nat pa :: u32) = pa \<and> placed (of_nat pa) n"
proof -
  have le: "pa + unat n * PAGE_SIZE \<le> 131072 * PAGE_SIZE"
    using assms(1,3,4) mult_le_mono1 [of M 131072 PAGE_SIZE] by (meson order.trans)
  then have "pa < 2 ^ 32" by simp
  then have "unat (of_nat pa :: u32) = pa" by (rule unat_of_nat_small)
  then show ?thesis using assms(2) le by (simp add: placed_def)
qed

lemma move_at:
  assumes "as_ok c old" and "length pas = length (page_table old)"
    and "length (page_table new) = length (page_table old)"
    and "\<forall>i < length (page_table old). as_pbase (page_table new ! i) = of_nat (pas ! i)"
    and "as_stackpbase new = of_nat stack" and "i < length (page_counts old)"
  shows "\<exists>s n. all_moves old new ! i = (s, of_nat ((pas @ [stack]) ! i), n) \<and> unat n = page_counts old ! i \<and>
    placed s n \<and> block (unat s) (unat n) \<subseteq> frames_used c"
proof (cases "i < length (page_table old)")
  case True
  then have "page_table old ! i \<in> set (page_table old)" by simp
  then show ?thesis
    using assms(1-5) True
    by (auto simp: all_moves_def table_moves_def page_counts_def nth_append as_ok_def)
next
  case False
  then have "i = length (page_table old)" using assms(6) by (simp add: page_counts_def)
  then show ?thesis
    using assms(1-5) by (simp add: all_moves_def table_moves_def page_counts_def nth_append as_ok_def)
qed

lemma of_nat_nonzero: "(of_nat n :: u32) \<noteq> 0 \<Longrightarrow> n \<noteq> 0"
  by (cases n) simp_all

text \<open>The blocks of a copy: disjoint from everything in use before and from each other.\<close>

lemma copy_blocks:
  assumes ok: "as_ok c old" and M: "memory_size c \<le> 131072"
    and al: "alloc_all getppages (page_counts old) c = (c', pas @ [stack])"
    and nz: "\<forall>pa \<in> set (pas @ [stack]). (of_nat pa :: u32) \<noteq> 0"
    and len: "length pas = length (page_table old)" "length (page_table new) = length (page_table old)"
    and new: "\<forall>i < length (page_table old). as_pbase (page_table new ! i) = of_nat (pas ! i)"
      "as_stackpbase new = of_nat stack"
  shows "apart (all_moves old new)" and "targets (all_moves old new) \<inter> frames_used c = {}"
    and "targets (all_moves old new) \<subseteq> frames_used c'"
proof -
  let ?ps = "pas @ [stack]" and ?ns = "page_counts old" and ?ms = "all_moves old new"
  let ?d = "\<lambda>(s, d, n). block (unat d) (unat n)"
  have lns: "length ?ns = length ?ps" "length ?ms = length ?ns"
    using len by (simp_all add: page_counts_def all_moves_def table_moves_def)
  have at: "\<exists>s n. ?ms ! i = (s, of_nat (?ps ! i), n) \<and> placed s n \<and> placed (of_nat (?ps ! i)) n \<and>
      block (unat s) (unat n) \<subseteq> frames_used c \<and> block (unat (of_nat (?ps ! i) :: u32)) (unat n) = blocks ?ns ?ps ! i"
    if i: "i < length ?ns" for i
  proof -
    obtain s n where e: "?ms ! i = (s, of_nat (?ps ! i), n)" "unat n = ?ns ! i" "placed s n"
      "block (unat s) (unat n) \<subseteq> frames_used c"
      using move_at [OF ok len new i] by blast
    have "?ps ! i \<in> set ?ps" using i lns(1) by (intro nth_mem) simp
    then have "(of_nat (?ps ! i) :: u32) \<noteq> 0" using nz by blast
    then have nz': "?ps ! i \<noteq> 0" by (rule of_nat_nonzero)
    have bd: "?ps ! i mod PAGE_SIZE = 0 \<and> (?ps ! i \<noteq> 0 \<longrightarrow> ?ps ! i + unat n * PAGE_SIZE \<le> memory_size c * PAGE_SIZE)"
      using list_all2_nthD [OF conjunct2 [OF alloc_all_bound [OF al]] i] e(2) by simp
    have pl: "unat (of_nat (?ps ! i) :: u32) = ?ps ! i \<and> placed (of_nat (?ps ! i)) n"
      by (rule new_placed [OF nz' conjunct1 [OF bd] conjunct2 [OF bd] M])
    have "blocks ?ns ?ps ! i = block (?ps ! i) (unat n)"
      using i lns(1) nz' e(2) by (simp add: blocks_def)
    then show ?thesis using e pl by auto
  qed
  have d: "?d (?ms ! i) = blocks ?ns ?ps ! i" if "i < length ?ns" for i
    using at [OF that] by auto
  note dis = frames.alloc_all_disjoint [OF al]
  show "apart ?ms"
  proof (rule apart_intro [where U = "frames_used c"])
    show "\<forall>(s, d, n) \<in> set ?ms. placed s n \<and> placed d n \<and> block (unat s) (unat n) \<subseteq> frames_used c \<and>
        block (unat d) (unat n) \<inter> frames_used c = {}"
      using at dis lns(2) by (fastforce simp: in_set_conv_nth)
    show "\<forall>i j. i < j \<longrightarrow> j < length ?ms \<longrightarrow> ?d (?ms ! i) \<inter> ?d (?ms ! j) = {}"
      using d dis lns(2) by simp
  qed
  have t: "targets ?ms = \<Union> (set (blocks ?ns ?ps))"
  proof -
    have "map ?d ?ms = blocks ?ns ?ps"
      using d lns by (intro nth_equalityI) (simp_all add: blocks_def)
    then show ?thesis unfolding targets_def by (metis image_set)
  qed
  show "targets ?ms \<inter> frames_used c = {}"
    using dis lns(1) unfolding t by (fastforce simp: in_set_conv_nth blocks_def)
  show "targets ?ms \<subseteq> frames_used c'" using dis unfolding t by blast
qed

lemma prepare_each_total:
  "i \<le> length (page_table as) \<Longrightarrow>
    \<exists>b as1 c1. prepare_each [i..<length (page_table as)] as c = Some (b, as1, c1)"
proof (induction "length (page_table as) - i" arbitrary: i as c)
  case (Suc k)
  then have i: "i < length (page_table as)" by simp
  then have up: "[i..<length (page_table as)] = i # [Suc i..<length (page_table as)]"
    by (simp add: upt_conv_Cons)
  have "\<exists>b as1 c1. prepare_each [Suc i..<length (page_table as)]
      (as\<lparr>page_table := (page_table as)[i := x]\<rparr>) c' = Some (b, as1, c1)" for x c'
    using Suc.hyps(1) [of "as\<lparr>page_table := (page_table as)[i := x]\<rparr>" "Suc i" c'] Suc.hyps(2) i by simp
  then show ?case using i unfolding up by (auto simp: Let_def split: prod.split)
qed auto

lemma zero_stack:
  assumes "kseg0_ok p" and "placed b n"
  shows "as_zero_region p b n m = Inr (filled (PADDR_TO_KVADDR b) 0 (n * 4096) m)"
  using bzero_fills [OF block_accessible(2) [OF assms]] by (simp add: as_zero_region_def)

lemma as_prepare_load_total:
  assumes p: "kseg0_ok p" and tab: "table_ok as" and M: "memory_size c \<le> 131072"
  shows "\<exists>r as2 c2 m1. as_prepare_load p as c m = Some (r, as2, c2, m1) \<and> (isl r \<longrightarrow> m1 = m)"
proof -
  have seg: "segments as = [0..<length (page_table as)]"
    using tab by (simp add: segments_def table_ok_def)
  obtain b as1 c1 where e: "prepare_each [0..<length (page_table as)] as c = Some (b, as1, c1)"
    using prepare_each_total [of 0 as c] by auto
  obtain c2 stack where g: "getppages DUMBVM_STACKPAGES c1 = (c2, stack)"
    by (cases "getppages DUMBVM_STACKPAGES c1")
  show ?thesis
  proof (cases "b \<and> (of_nat stack :: u32) \<noteq> 0")
    case False
    then show ?thesis unfolding as_prepare_load_def seg e by (auto simp: g Let_def)
  next
    case True
    then obtain pas where "alloc_all getppages (map (\<lambda>x. unat (as_npages x)) (page_table as)) c = (c1, pas)"
      using prepare_each_allocs [of 0 as c as1 c1] e by auto
    then have "memory_size c1 \<le> 131072" using alloc_all_bound M by fastforce
    moreover have nz: "stack \<noteq> 0" using True of_nat_nonzero by blast
    ultimately have "placed (of_nat stack) 18"
      using new_placed [OF nz getppages_bound(2) [OF g], of 18 "memory_size c1"] getppages_bound(3) [OF g] by simp
    then show ?thesis
      using True zero_stack [OF p] unfolding as_prepare_load_def seg e
      by (simp add: g Let_def unfaulted_def)
  qed
qed

definition copied :: "cmap \<Rightarrow> cmap \<Rightarrow> addrspace \<Rightarrow> addrspace \<Rightarrow> bytes \<Rightarrow> bytes \<Rightarrow> bool" where
  "copied c c' old new m m' \<longleftrightarrow> (\<exists>m1. apart (all_moves old new) \<and>
    targets (all_moves old new) \<inter> frames_used c = {} \<and>
    targets (all_moves old new) \<subseteq> frames_used c' \<and> m' = run_moves (all_moves old new) m1 \<and>
    (\<forall>a. \<not> (2 ^ 31 \<le> unat a \<and> frame_of a \<in> targets (all_moves old new)) \<longrightarrow> m1 a = m a) \<and>
    table_ok new \<and> map as_vbase (page_table new) = map as_vbase (page_table old) \<and>
    map as_npages (page_table new) = map as_npages (page_table old))"

lemma as_copy_runs:
  assumes p: "kseg0_ok p" and ok: "as_ok c old" and M: "memory_size c \<le> 131072"
    and junk: "no_of_segments junk = no_of_segments old" "length (page_table junk) = length (page_table old)"
  shows "\<exists>r c' m'. as_copy p (Some junk) old c m = Some (r, c', m') \<and>
    (case r of Inl e \<Rightarrow> e = ENOMEM \<and> m' = m | Inr new \<Rightarrow> copied c c' old new m m')"
proof -
  let ?n = "length (page_table old)"
  have tab: "nat (no_of_segments old) = ?n" using ok by (simp add: as_ok_def table_ok_def)
  then have seg: "segments old = [0..<?n]" by (simp add: segments_def)
  define j0 where "j0 = junk\<lparr>as_stackpbase := 0\<rparr>"
  define new1 where "new1 = j0\<lparr>page_table :=
    map2 (\<lambda>x y. y\<lparr>as_vbase := as_vbase x, as_npages := as_npages x\<rparr>) (page_table old) (page_table j0)\<rparr>"
  have sh: "copy_shape (segments old) old j0 = Some new1"
    unfolding seg using copy_shape_from [of j0 old 0] junk by (simp add: j0_def new1_def)
  have tab1: "table_ok new1" using tab junk by (simp add: table_ok_def new1_def j0_def)
  have pc: "page_counts new1 = page_counts old"
    using junk by (auto simp: page_counts_def new1_def j0_def intro: nth_equalityI)
  have cr: "as_create (Some junk) = Some j0" by (simp add: as_create_def j0_def)
  obtain r new c' m1 where prep: "as_prepare_load p new1 c m = Some (r, new, c', m1)" and l: "isl r \<longrightarrow> m1 = m"
    using as_prepare_load_total [OF p tab1 M] by blast
  show ?thesis
  proof (cases r)
    case (Inl e)
    then show ?thesis using prep sh cr l by (simp add: as_copy_def)
  next
    case (Inr u)
    obtain pas stack where al: "alloc_all getppages (page_counts old) c = (c', pas @ [stack])"
      and len: "length pas = ?n" and new: "new = with_pages new1 pas stack"
      and nz: "\<forall>pa \<in> set (pas @ [stack]). (of_nat pa :: u32) \<noteq> 0"
      and z: "as_zero_region p (of_nat stack) 18 m = Inr m1"
      using as_prepare_load_allocs [OF prep [unfolded Inr] tab1] junk unfolding pc by (auto simp: new1_def j0_def)
    have ln: "length (page_table new) = ?n" using len junk by (simp add: new with_pages_def new1_def j0_def)
    have nw: "\<forall>i < ?n. as_pbase (page_table new ! i) = of_nat (pas ! i)" "as_stackpbase new = of_nat stack"
      using len junk by (simp_all add: new with_pages_def new1_def j0_def)
    note b = copy_blocks [OF ok M al nz len ln nw]
    have pl: "\<forall>(s, d, n) \<in> set (all_moves old new). placed s n \<and> placed d n"
      using apart_placed [OF b(1)] by auto
    have "copy_pages p (segments old) old new m1 = Some (run_moves (table_moves (page_table old) (page_table new)) m1)"
      using copy_pages_moves [OF p ln, of 0 m1] pl by (simp add: seg all_moves_def)
    then have run: "as_copy p (Some junk) old c m = Some (Inr new, c', run_moves (all_moves old new) m1)"
      using prep sh cr pl move_pages [OF p, of "as_stackpbase old" 18 "as_stackpbase new"]
      by (simp add: as_copy_def all_moves_def run_moves_append Inr)
    have pls: "placed (as_stackpbase new) 18" using pl by (simp add: all_moves_def)
    have "m1 = filled (PADDR_TO_KVADDR (as_stackpbase new)) 0 (18 * 4096) m"
      using z zero_stack [OF p pls] nw(2) by simp
    moreover have "block (unat (as_stackpbase new)) 18 \<subseteq> targets (all_moves old new)"
      by (auto simp: targets_def all_moves_def)
    ultimately have "\<forall>a. \<not> (2 ^ 31 \<le> unat a \<and> frame_of a \<in> targets (all_moves old new)) \<longrightarrow> m1 a = m a"
      using in_block_iff [OF pls] by (auto simp: filled_def)
    moreover have "table_ok new" "map as_vbase (page_table new) = map as_vbase (page_table old)"
      "map as_npages (page_table new) = map as_npages (page_table old)"
      using tab junk len by (auto simp: table_ok_def new with_pages_def new1_def j0_def intro: nth_equalityI)
    ultimately have "copied c c' old new m (run_moves (all_moves old new) m1)"
      using b unfolding copied_def by blast
    then show ?thesis using run by auto
  qed
qed

text \<open>The bytes of page-table entry \<open>i\<close> and of the stack, by their offset.\<close>

definition segment_byte :: "addrspace \<Rightarrow> nat \<Rightarrow> u32 \<Rightarrow> bytes \<Rightarrow> u8" where
  "segment_byte as i k m = m (PADDR_TO_KVADDR (as_pbase (page_table as ! i)) + k)"

definition stack_byte :: "addrspace \<Rightarrow> u32 \<Rightarrow> bytes \<Rightarrow> u8" where
  "stack_byte as k m = m (PADDR_TO_KVADDR (as_stackpbase as) + k)"

definition same_image :: "addrspace \<Rightarrow> bytes \<Rightarrow> addrspace \<Rightarrow> bytes \<Rightarrow> bool" where
  "same_image old m new m' \<longleftrightarrow>
    map as_vbase (page_table new) = map as_vbase (page_table old) \<and>
    map as_npages (page_table new) = map as_npages (page_table old) \<and>
    (\<forall>i < length (page_table old). \<forall>k < as_npages (page_table old ! i) * 4096.
       segment_byte new i k m' = segment_byte old i k m) \<and>
    (\<forall>k < of_nat DUMBVM_STACKPAGES * 4096. stack_byte new k m' = stack_byte old k m)"

lemma copied_image:
  assumes c: "copied c c' old new m m'" and ok: "as_ok c old"
  shows "(\<forall>a. unat a < 2 ^ 31 \<or> frame_of a \<in> frames_used c \<longrightarrow> m' a = m a) \<and>
    as_ok c' new \<and> same_image old m new m'"
proof -
  obtain m1 where ap: "apart (all_moves old new)" and t: "targets (all_moves old new) \<inter> frames_used c = {}"
      "targets (all_moves old new) \<subseteq> frames_used c'"
    and m': "m' = run_moves (all_moves old new) m1"
    and m1: "\<And>a. \<not> (2 ^ 31 \<le> unat a \<and> frame_of a \<in> targets (all_moves old new)) \<Longrightarrow> m1 a = m a"
    and sh: "table_ok new" "map as_vbase (page_table new) = map as_vbase (page_table old)"
      "map as_npages (page_table new) = map as_npages (page_table old)"
    using c unfolding copied_def by blast
  have len: "length (page_table new) = length (page_table old)" using sh(2) by (rule map_eq_imp_length_eq)
  have same: "m' a = m a" if "unat a < 2 ^ 31 \<or> frame_of a \<in> frames_used c" for a
    using that t m1 [of a] run_moves_outside [OF ap, of a m1] unfolding m' by auto
  have mem: "(as_pbase (page_table old ! i), as_pbase (page_table new ! i), as_npages (page_table old ! i))
      \<in> set (all_moves old new)" if "i < length (page_table old)" for i
    using that len nth_mem [of i "all_moves old new"]
    by (simp add: all_moves_def table_moves_def nth_append)
  have moved: "m' (PADDR_TO_KVADDR d + k) = m (PADDR_TO_KVADDR s + k)"
    if e: "(s, d, n) \<in> set (all_moves old new)" "k < n * 4096" and s: "placed s n"
      "block (unat s) (unat n) \<subseteq> frames_used c" for s d n k
  proof -
    have "frame_of (PADDR_TO_KVADDR s + k) \<in> frames_used c"
      using in_block_iff [OF s(1), of "PADDR_TO_KVADDR s + k"] e(2) s(2) by auto
    then have "m1 (PADDR_TO_KVADDR s + k) = m (PADDR_TO_KVADDR s + k)" using m1 t by auto
    then show ?thesis using run_moves_target [OF ap e] unfolding m' by simp
  qed
  have "placed (as_pbase y) (as_npages y) \<and> block (unat (as_pbase y)) (unat (as_npages y)) \<subseteq> frames_used c'"
    if y: "y \<in> set (page_table new)" for y
  proof -
    obtain i where i: "i < length (page_table old)" "y = page_table new ! i"
      using y len by (auto simp: in_set_conv_nth)
    have n: "as_npages y = as_npages (page_table old ! i)"
      using sh(3) i len by (metis nth_map)
    have "block (unat (as_pbase (page_table new ! i))) (unat (as_npages (page_table old ! i)))
        \<subseteq> targets (all_moves old new)"
      using mem [OF i(1)] by (force simp: targets_def)
    then show ?thesis using apart_placed [OF ap mem [OF i(1)]] t(2) n i(2) by auto
  qed
  moreover have st: "(as_stackpbase old, as_stackpbase new, 18) \<in> set (all_moves old new)"
    by (simp add: all_moves_def)
  moreover have "block (unat (as_stackpbase new)) 18 \<subseteq> targets (all_moves old new)"
    by (auto simp: targets_def all_moves_def)
  ultimately have "as_ok c' new" using sh(1) t(2) apart_placed [OF ap st] unfolding as_ok_def by blast
  moreover have "same_image old m new m'"
    unfolding same_image_def segment_byte_def stack_byte_def
    using sh(2,3) moved [OF mem] moved [OF st] ok by (auto simp: as_ok_def)
  ultimately show ?thesis using same by blast
qed


definition whole_prot :: prot where
  "whole_prot = \<lparr>can_read = (\<lambda>a. True), can_write = (\<lambda>a. True)\<rparr>"

definition sample_coremap :: cmap where
  "sample_coremap = \<lparr>coremap = replicate 512 \<lparr>is_reserved = False, is_free = False, chunk_size = 0\<rparr>,
     used = 8, coremap_size = 2, coremap_addr = 32768\<rparr>"

lemma sample_as_ok: "as_ok sample_coremap sample_as"
proof -
  have u: "{9..<513} \<subseteq> frames_used sample_coremap"
  proof
    fix x :: nat
    assume "x \<in> {9..<513}"
    then show "x \<in> frames_used sample_coremap"
      unfolding frames_used_def
      by (intro image_eqI [of _ _ "x - 1"]) (auto simp: sample_coremap_def memory_size_def)
  qed
  show ?thesis
    unfolding as_ok_def
    by (auto simp: table_ok_def placed_def block_def sample_as_def intro!: subsetD [OF u])
qed


end
