(* ===== verification/Proc.thy ===== *)
theory Proc
  imports Pid Synch Thread_Fork Proclist File_Syscalls Addrspace
begin

text \<open>
  Processes: \<^verbatim>\<open>kern/proc/proc.c\<close>, and the state that process calls work on, which puts together the
  thread and synchronisation system, the open files, the memory map, process numbers and the lists of
  children.

  A process is named by the address of its structure, and so are its list of children (in \<open>plists\<close>) and
  its threads (\<open>p_threads\<close> of the thread system). The current process is that of the current thread. The
  working directory of the current process is \<open>p_cwd\<close> of the VFS; \<open>pr_cwd\<close> holds it for the others. The
  spinlock \<^verbatim>\<open>p_lock\<close>, which makes reads and writes of one field atomic, is left out, except where the
  thread system takes it. What \<^verbatim>\<open>kmalloc\<close> gives comes from the caller. None is a failed assertion, a
  panic or a null or wild pointer.
\<close>

record proc =
  p_name :: string
  pr_cwd :: "nat option"
  p_filetable :: "nat option"
  p_addrspace :: "addrspace option"
  is_zombie :: bool
  wait_sem :: "nat option"
  mutex :: "nat option"
  pid :: int
  p_exitcode :: u32

record trapframe =
  tf_vaddr :: u32
  tf_status :: u32
  tf_cause :: u32
  tf_v0 :: u32
  tf_v1 :: u32
  tf_a0 :: u32
  tf_a1 :: u32
  tf_a2 :: u32
  tf_a3 :: u32
  tf_sp :: u32
  tf_epc :: u32
  tf_others :: "u32 list"

text \<open>\<open>entry\<close> holds for a thread that is to enter user mode the trapframe it was given.\<close>

record 'f psys =
  procs :: "nat \<Rightarrow> proc option"
  plists :: list_heap
  pids_of :: pids
  sync :: ysys
  files :: "'f kfs"
  frames :: cmap
  entry :: "nat \<Rightarrow> trapframe option"

definition curproc :: "'f psys \<Rightarrow> nat option" where
  "curproc s = do { th \<leftarrow> threads (base (sync s)) (curthread (base (sync s))); t_proc th }"

definition upd_proc :: "nat \<Rightarrow> (proc \<Rightarrow> proc) \<Rightarrow> 'f psys \<Rightarrow> 'f psys option" where
  "upd_proc p f s = do { pr \<leftarrow> procs s p; Some (s\<lparr>procs := (procs s)(p \<mapsto> f pr)\<rparr>) }"

definition kernel_bytes :: "'f psys \<Rightarrow> bytes" where
  "kernel_bytes s = bytes_of (user (vfs_of (files s)))"

definition set_kernel_bytes :: "bytes \<Rightarrow> 'f psys \<Rightarrow> 'f psys" where
  "set_kernel_bytes m s = (let v = vfs_of (files s) in
     s\<lparr>files := (files s)\<lparr>vfs_of := v\<lparr>user := (user v)\<lparr>bytes_of := m\<rparr>\<rparr>\<rparr>\<rparr>)"

text \<open>The working directory of a process, and setting it.\<close>

definition cwd_of :: "nat \<Rightarrow> 'f psys \<Rightarrow> nat option" where
  "cwd_of p s = (if curproc s = Some p then p_cwd (vfs_of (files s)) else Option.bind (procs s p) pr_cwd)"

definition set_cwd :: "nat \<Rightarrow> nat option \<Rightarrow> 'f psys \<Rightarrow> 'f psys option" where
  "set_cwd p v s =
    (if curproc s = Some p then
       Some (s\<lparr>files := (files s)\<lparr>vfs_of := (vfs_of (files s))\<lparr>p_cwd := v\<rparr>\<rparr>\<rparr>)
     else upd_proc p (\<lambda>pr. pr\<lparr>pr_cwd := v\<rparr>) s)"

text \<open>Running an operation of the file layer; of the VFS.\<close>

definition on_files :: "('f kfs, 'a) op \<Rightarrow> 'f psys \<Rightarrow> ((errno + 'a) \<times> 'f psys) option" where
  "on_files f s = do { (r, k) \<leftarrow> f (files s); Some (r, s\<lparr>files := k\<rparr>) }"

section \<open>What the allocator gives\<close>

record sem_alloc =
  sa_mem :: "nat option"
  sa_name :: bool
  sa_wchan :: "nat option"
  sa_slot :: bool

record proc_alloc =
  al_proc :: "nat option"
  al_name :: bool
  al_junk :: u32
  al_sem :: sem_alloc
  al_lock :: sem_alloc
  al_table :: bool

section \<open>\<^verbatim>\<open>proc.c\<close>\<close>

definition proc_create :: "proc_alloc \<Rightarrow> string \<Rightarrow> 'f psys \<Rightarrow> (nat option \<times> 'f psys) option" where
  "proc_create al name s =
    (case al_proc al of
       None \<Rightarrow> Some (None, s)
     | Some p \<Rightarrow> do {
         (n, ps) \<leftarrow> pid_get (pids_of s);
         let s = s\<lparr>pids_of := ps\<rparr>;
         if \<not> al_name al then Some (None, s)
         else do {
           let b = base (sync s);
           let b = b\<lparr>p_threads := (p_threads b)(p \<mapsto> array_init), locks := (locks b)(ProcLock p := spinlock_init)\<rparr>;
           let y = (sync s)\<lparr>base := b\<rparr>;
           (y, ws) \<leftarrow> sem_create (sa_mem (al_sem al)) (sa_name (al_sem al)) (sa_wchan (al_sem al))
                        (sa_slot (al_sem al)) ''Wait Sem'' 0 y;
           (y, mx) \<leftarrow> lock_create (sa_mem (al_lock al)) (sa_name (al_lock al)) (sa_wchan (al_lock al))
                        (sa_slot (al_lock al)) ''Lock'' y;
           h \<leftarrow> proclistnode_init (NodeOf p) (Some p) (plists s);
           let h = proclist_init p h;
           Some (Some p, s\<lparr>sync := y, plists := h, procs := (procs s)(p \<mapsto>
             \<lparr>p_name = name, pr_cwd = None, p_filetable = None, p_addrspace = None, is_zombie = False,
              wait_sem = ws, mutex = mx, pid = n, p_exitcode = al_junk al\<rparr>)\<rparr>)
         }
       })"

definition proc_getas :: "'f psys \<Rightarrow> addrspace option" where
  "proc_getas s = do { p \<leftarrow> curproc s; pr \<leftarrow> procs s p; p_addrspace pr }"

definition proc_setas :: "addrspace option \<Rightarrow> 'f psys \<Rightarrow> (addrspace option \<times> 'f psys) option" where
  "proc_setas newas s = do {
     p \<leftarrow> curproc s;
     pr \<leftarrow> procs s p;
     s \<leftarrow> upd_proc p (\<lambda>pr. pr\<lparr>p_addrspace := newas\<rparr>) s;
     Some (p_addrspace pr, s)
   }"

text \<open>\<^verbatim>\<open>as_destroy\<close> is \<^verbatim>\<open>kfree\<close> of the structure and nothing else, so that dropping an address space here
  leaves \<open>frames\<close> as they are. \<open>kproc\<close> is the kernel's process.\<close>

definition proc_destroy :: "'f fsops \<Rightarrow> nat \<Rightarrow> nat \<Rightarrow> 'f psys \<Rightarrow> 'f psys option" where
  "proc_destroy F kproc p s = do {
     kassert (p \<noteq> kproc);
     s \<leftarrow> (case cwd_of p s of
             None \<Rightarrow> Some s
           | Some v \<Rightarrow> do {
               (r, s) \<leftarrow> on_files (on_vfs (vnode_decref F v)) s;
               set_cwd p None s
             });
     pr \<leftarrow> procs s p;
     s \<leftarrow> (case p_filetable pr of
             None \<Rightarrow> Some s
           | Some ft \<Rightarrow> do {
               (r, s) \<leftarrow> on_files (filetable_destroy F ft) s;
               upd_proc p (\<lambda>pr. pr\<lparr>p_filetable := None\<rparr>) s
             });
     s \<leftarrow> upd_proc p (\<lambda>pr. pr\<lparr>p_addrspace := None\<rparr>) s;
     ts \<leftarrow> p_threads (base (sync s)) p;
     ts \<leftarrow> array_cleanup ts;
     spinlock_cleanup (locks (base (sync s)) (ProcLock p));
     let b = base (sync s);
     Some (s\<lparr>procs := (procs s)(p := None), sync := (sync s)\<lparr>base := b\<lparr>p_threads := (p_threads b)(p := None)\<rparr>\<rparr>\<rparr>)
   }"

definition proc_bootstrap :: "proc_alloc \<Rightarrow> 'f psys \<Rightarrow> (nat \<times> 'f psys) option" where
  "proc_bootstrap al s = do { (r, s) \<leftarrow> proc_create al ''[kernel]'' s; kproc \<leftarrow> r; Some (kproc, s) }"

text \<open>Giving a new process a reference to the working directory of the current one.\<close>

definition inherit_cwd :: "nat \<Rightarrow> 'f psys \<Rightarrow> 'f psys option" where
  "inherit_cwd p s = do {
     cur \<leftarrow> curproc s;
     (case cwd_of cur s of
        None \<Rightarrow> Some s
      | Some v \<Rightarrow> do { (r, s) \<leftarrow> on_files (on_vfs (vnode_incref v)) s; set_cwd p (Some v) s })
   }"

definition proc_create_runprogram :: "proc_alloc \<Rightarrow> string \<Rightarrow> 'f psys \<Rightarrow> (nat option \<times> 'f psys) option" where
  "proc_create_runprogram al name s = do {
     (r, s) \<leftarrow> proc_create al name s;
     (case r of
        None \<Rightarrow> Some (None, s)
      | Some p \<Rightarrow> do {
          s \<leftarrow> upd_proc p (\<lambda>pr. pr\<lparr>p_addrspace := None\<rparr>) s;
          s \<leftarrow> inherit_cwd p s;
          Some (Some p, s)
        })
   }"

definition proc_fork :: "'f fsops \<Rightarrow> nat \<Rightarrow> proc_alloc \<Rightarrow> 'f psys \<Rightarrow> ((errno + nat) \<times> 'f psys) option" where
  "proc_fork F kproc al s = do {
     cur \<leftarrow> curproc s;
     c \<leftarrow> procs s cur;
     (r, s) \<leftarrow> proc_create al (p_name c) s;
     (case r of
        None \<Rightarrow> Some (Inl ENOMEM, s)
      | Some p \<Rightarrow> do {
          (result, s) \<leftarrow> on_files (filetable_copy (al_table al) (p_filetable c)) s;
          (case result of
             Inl e \<Rightarrow> do {
               s \<leftarrow> upd_proc p (\<lambda>pr. pr\<lparr>p_addrspace := None\<rparr>) s;
               s \<leftarrow> proc_destroy F kproc p s;
               Some (Inl e, s)
             }
           | Inr tbl \<Rightarrow> do {
               s \<leftarrow> upd_proc p (\<lambda>pr. pr\<lparr>p_filetable := tbl\<rparr>) s;
               s \<leftarrow> inherit_cwd p s;
               Some (Inr p, s)
             })
        })
   }"

section \<open>A new process\<close>

text \<open>What the thread invariant depends on.\<close>

lemma sys_ok_cong:
  assumes "heap s' = heap s" and "threads s' = threads s" and "dom (cpus s') = dom (cpus s)"
    and "dom (wchans s') = dom (wchans s)" and "locks s' = locks s" and "view s' = view s" and "curcpu s' = curcpu s"
    and "curthread s' = curthread s"
  shows "sys_ok H s' L U = sys_ok H s L U"
proof -
  have "fits s' l t = fits s l t" for l t by (rule fits_cong) (simp_all add: assms)
  then show ?thesis
    unfolding sys_ok_def queues_ok_def locks_ok_def on_cpu_def using assms by simp
qed

text \<open>What creating a semaphore or a lock leaves alone in the thread system.\<close>

definition same_threads :: "ksys \<Rightarrow> ksys \<Rightarrow> bool" where
  "same_threads s s' \<longleftrightarrow> threads s' = threads s \<and> cpus s' = cpus s \<and> curthread s' = curthread s \<and>
     curcpu s' = curcpu s \<and> p_threads s' = p_threads s \<and> locks s' = locks s \<and> view s' = view s"

lemma same_threads_trans: "same_threads s s1 \<Longrightarrow> same_threads s1 s2 \<Longrightarrow> same_threads s s2"
  by (simp add: same_threads_def)

lemma locks_free: "sys_ok {} s L U \<Longrightarrow> (locks s)(l := spinlock_init) = locks s"
  by (rule ext) (simp add: sys_ok_def locks_ok_def)

definition room_for :: "nat \<Rightarrow> ksys \<Rightarrow> bool" where
  "room_for n s \<longleftrightarrow> registry_ok s \<and> length (arr_list (allwchans s)) + n < 2 ^ 28"

lemma wchan_for:
  assumes "sys_ok {} s L U" and "room_for (Suc n) s" and "wchans s w = None" and "L (sleepers_of w) = None"
  obtains s' where "wchan_create (Some w) True name s = Some (s', Some w)" and "same_threads s s'" and "room_for n s'"
    and "sys_ok {} s' (L(sleepers_of w \<mapsto> [])) U" and "\<And>v. v \<noteq> w \<Longrightarrow> wchans s' v = wchans s v"
    and "wchans s' w \<noteq> None"
proof -
  have r: "registry_ok s" "length (arr_list (allwchans s)) + 1 < 2 ^ 28" "length (arr_list (allwchans s)) + Suc n < 2 ^ 28"
    using assms(2) by (simp_all add: room_for_def)
  obtain s' where s': "wchan_create (Some w) True name s = Some (s', Some w)" "registry_ok s'"
    "sys_ok {} s' (L(sleepers_of w \<mapsto> [])) U" "\<forall>v. v \<noteq> w \<longrightarrow> wchans s' v = wchans s v"
    "map_option wc_name (wchans s' w) = Some name" "same_threads s s'"
    "length (arr_list (allwchans s')) = length (arr_list (allwchans s)) + 1"
    using wchan_create_registers [OF assms(1) r(1) assms(3,4) r(2), of name] unfolding same_threads_def by blast
  show thesis by (rule that [OF s'(1,6) _ s'(3)]) (use s'(2,4,5,7) r(3) in \<open>auto simp: room_for_def\<close>)
qed

lemma sem_create_ok:
  assumes ok: "sys_ok {} (base y) L U" and room: "room_for (Suc n) (base y)"
    and w: "wchans (base y) w = None" "L (sleepers_of w) = None"
  obtains y' where "sem_create (Some i) True (Some w) True name c y = Some (y', Some i)"
    and "sys_ok {} (base y') (L(sleepers_of w \<mapsto> [])) U" and "same_threads (base y) (base y')"
    and "room_for n (base y')" and "\<And>v. v \<noteq> w \<Longrightarrow> wchans (base y') v = wchans (base y) v"
    and "sems y' = (sems y)(i \<mapsto> \<lparr>sem_name = name, sem_wchan = w, sem_count = c\<rparr>)" and "sleeplocks y' = sleeplocks y"
proof -
  obtain s' where s': "wchan_create (Some w) True name (base y) = Some (s', Some w)" "same_threads (base y) s'"
    "room_for n s'" "sys_ok {} s' (L(sleepers_of w \<mapsto> [])) U" "\<And>v. v \<noteq> w \<Longrightarrow> wchans s' v = wchans (base y) v"
    using wchan_for [OF ok room w] by blast
  show thesis
    by (rule that [of "y\<lparr>base := s', sems := (sems y)(i \<mapsto> \<lparr>sem_name = name, sem_wchan = w, sem_count = c\<rparr>)\<rparr>"])
      (use s' in \<open>simp_all add: sem_create_def locks_free [OF s'(4)]\<close>)
qed

lemma lock_create_ok:
  assumes ok: "sys_ok {} (base y) L U" and room: "room_for (Suc n) (base y)"
    and w: "wchans (base y) w = None" "L (sleepers_of w) = None"
  obtains y' where "lock_create (Some i) True (Some w) True name y = Some (y', Some i)"
    and "sys_ok {} (base y') (L(sleepers_of w \<mapsto> [])) U" and "same_threads (base y) (base y')"
    and "room_for n (base y')" and "sems y' = sems y"
    and "sleeplocks y' = (sleeplocks y)(i \<mapsto> \<lparr>lk_name = name, lock_wchan = w, holder = None\<rparr>)"
proof -
  obtain s' where s': "wchan_create (Some w) True name (base y) = Some (s', Some w)" "same_threads (base y) s'"
    "room_for n s'" "sys_ok {} s' (L(sleepers_of w \<mapsto> [])) U"
    using wchan_for [OF ok room w] by blast
  show thesis
    by (rule that [of "y\<lparr>base := s', sleeplocks := (sleeplocks y)(i \<mapsto> \<lparr>lk_name = name, lock_wchan = w, holder = None\<rparr>)\<rparr>"])
      (use s' in \<open>simp_all add: lock_create_def locks_free [OF s'(4)]\<close>)
qed

text \<open>Everything that a new process needs is there: memory for the structure \<open>np\<close>, its semaphore and lock and their
  wait channels, all of them new.\<close>

definition proc_room :: "proc_alloc \<Rightarrow> nat \<Rightarrow> (nat \<Rightarrow> nat list option) \<Rightarrow> (nat \<Rightarrow> nat list option) \<Rightarrow> 'f psys \<Rightarrow> bool" where
  "proc_room al np L K s \<longleftrightarrow> al_proc al = Some np \<and> al_name al \<and> procs s np = None \<and> K np = None \<and>
     (\<forall>l xs. K l = Some xs \<longrightarrow> np \<notin> set xs) \<and> room_for 2 (base (sync s)) \<and>
     (\<exists>i w j v. al_sem al = \<lparr>sa_mem = Some i, sa_name = True, sa_wchan = Some w, sa_slot = True\<rparr> \<and>
        al_lock al = \<lparr>sa_mem = Some j, sa_name = True, sa_wchan = Some v, sa_slot = True\<rparr> \<and>
        sleeplocks (sync s) j = None \<and> sems (sync s) i = None \<and> w \<noteq> v \<and>
        wchans (base (sync s)) w = None \<and> wchans (base (sync s)) v = None \<and>
        L (sleepers_of w) = None \<and> L (sleepers_of v) = None)"

text \<open>What \<^verbatim>\<open>proc_create\<close> leaves: a process with a new number, no children and a semaphore at 0.\<close>

definition new_child :: "nat \<Rightarrow> nat \<Rightarrow> string \<Rightarrow> 'f psys \<Rightarrow> 'f psys \<Rightarrow> proc \<Rightarrow> bool" where
  "new_child np n name s s' pr \<longleftrightarrow> pid pr = int n \<and> p_name pr = name \<and> pr_cwd pr = None \<and> p_filetable pr = None \<and>
     p_addrspace pr = None \<and> \<not> is_zombie pr \<and> procs s' = (procs s)(np \<mapsto> pr) \<and>
     (\<exists>ws sm. wait_sem pr = Some ws \<and> sems (sync s) ws = None \<and> sems (sync s') = (sems (sync s))(ws \<mapsto> sm) \<and>
        sem_count sm = 0) \<and>
     (\<exists>mx lk. mutex pr = Some mx \<and> sleeplocks (sync s) mx = None \<and> sleeplocks (sync s') = (sleeplocks (sync s))(mx \<mapsto> lk) \<and>
        holder lk = None) \<and>
     n \<notin> in_use (pids_of s) \<and> pids_ok (pids_of s') \<and> in_use (pids_of s') = insert n (in_use (pids_of s)) \<and>
     same_threads ((base (sync s))\<lparr>p_threads := (p_threads (base (sync s)))(np \<mapsto> array_init)\<rparr>) (base (sync s')) \<and>
     files s' = files s \<and> frames s' = frames s \<and> entry s' = entry s"

lemma proc_create_ok:
  assumes ok: "sys_ok {} (base (sync s)) L U" and kids: "reps (plists s) K W" and room: "proc_room al np L K s"
    and ps: "pids_ok (pids_of s)" "in_use (pids_of s) \<noteq> {PID_MIN..<PID_MAX}"
  shows "\<exists>s' pr n L'. proc_create al name s = Some (Some np, s') \<and> new_child np n name s s' pr \<and>
    sys_ok {} (base (sync s')) L' U \<and> (\<forall>l q. L l = Some q \<longrightarrow> L' l = Some q) \<and>
    reps (plists s') (K(np \<mapsto> [])) (insert np W)"
proof -
  obtain i w j v where al: "al_sem al = \<lparr>sa_mem = Some i, sa_name = True, sa_wchan = Some w, sa_slot = True\<rparr>"
    "al_lock al = \<lparr>sa_mem = Some j, sa_name = True, sa_wchan = Some v, sa_slot = True\<rparr>"
    "sleeplocks (sync s) j = None" "sems (sync s) i = None" "w \<noteq> v"
    "wchans (base (sync s)) w = None" "wchans (base (sync s)) v = None" "L (sleepers_of w) = None" "L (sleepers_of v) = None"
    and np: "al_proc al = Some np" "al_name al" "K np = None" "\<And>l xs. K l = Some xs \<Longrightarrow> np \<notin> set xs"
    and r2: "room_for 2 (base (sync s))" using room unfolding proc_room_def by blast
  obtain n ps' where n: "pid_get (pids_of s) = Some (int n, ps')" "pids_ok ps'" "n \<notin> in_use (pids_of s)"
    "in_use ps' = insert n (in_use (pids_of s))" using pid_get_room [OF ps] by blast
  let ?b = "(base (sync s))\<lparr>p_threads := (p_threads (base (sync s)))(np \<mapsto> array_init)\<rparr>"
  let ?y = "(sync s)\<lparr>base := ?b\<rparr>"
  have ok1: "sys_ok {} (base ?y) L U" using sys_ok_cong [of ?b "base (sync s)" "{}" L U] ok by simp
  have r1: "room_for (Suc 1) (base ?y)" using r2 by (simp add: room_for_def registry_ok_def numeral_2_eq_2)
  obtain y1 where y1: "sem_create (Some i) True (Some w) True ''Wait Sem'' 0 ?y = Some (y1, Some i)"
    "sys_ok {} (base y1) (L(sleepers_of w \<mapsto> [])) U" "same_threads (base ?y) (base y1)" "room_for (Suc 0) (base y1)"
    "\<And>x. x \<noteq> w \<Longrightarrow> wchans (base y1) x = wchans (base ?y) x"
    "sems y1 = (sems ?y)(i \<mapsto> \<lparr>sem_name = ''Wait Sem'', sem_wchan = w, sem_count = 0\<rparr>)" "sleeplocks y1 = sleeplocks ?y"
    by (rule sem_create_ok [OF ok1 r1, of w i "''Wait Sem''" 0]) (use al(6,8) in auto)
  have fr: "wchans (base y1) v = None" "(L(sleepers_of w \<mapsto> [])) (sleepers_of v) = None"
    using y1(5) [of v] al(5,7,9) by auto
  obtain y2 where y2: "lock_create (Some j) True (Some v) True ''Lock'' y1 = Some (y2, Some j)"
    "sys_ok {} (base y2) (L(sleepers_of w \<mapsto> [], sleepers_of v \<mapsto> [])) U" "same_threads (base y1) (base y2)"
    "room_for 0 (base y2)" "sems y2 = sems y1" "sleeplocks y2 = (sleeplocks y1)(j \<mapsto> \<lparr>lk_name = ''Lock'', lock_wchan = v, holder = None\<rparr>)"
    by (rule lock_create_ok [OF y1(2,4) fr, of j "''Lock''"])
  obtain h where h: "proclistnode_init (NodeOf np) (Some np) (plists s) = Some h" "reps h K (insert np W)"
    unfolding proclistnode_init_eq using threadlistnode_init_reps [OF kids, of np] np(4) by blast
  have h2: "reps (proclist_init np h) (K(np \<mapsto> [])) (insert np W)"
    unfolding proclist_init_eq by (rule threadlist_init_reps [OF h(2) np(3)])
  let ?pr = "\<lparr>p_name = name, pr_cwd = None, p_filetable = None, p_addrspace = None, is_zombie = False,
    wait_sem = Some i, mutex = Some j, pid = int n, p_exitcode = al_junk al\<rparr>"
  let ?s = "s\<lparr>pids_of := ps', sync := y2, plists := proclist_init np h, procs := (procs s)(np \<mapsto> ?pr)\<rparr>"
  have "proc_create al name s = Some (Some np, ?s)"
    using n(1) np(1,2) al(1,2) y1(1) y2(1) h(1) locks_free [OF ok] by (simp add: proc_create_def Let_def)
  moreover have "new_child np n name s ?s ?pr"
    using n(2-4) al(3,4) y1(6,7) y2(5,6) same_threads_trans [OF y1(3) y2(3)]
    by (simp add: new_child_def) (intro conjI exI [of _ "\<lparr>sem_name = ''Wait Sem'', sem_wchan = w, sem_count = 0\<rparr>"]
      exI [of _ "\<lparr>lk_name = ''Lock'', lock_wchan = v, holder = None\<rparr>"]; simp)
  moreover have "(L(sleepers_of w \<mapsto> [], sleepers_of v \<mapsto> [])) l = Some q" if "L l = Some q" for l q
    using that al(8,9) by auto
  ultimately show ?thesis using y2(2) h2 by (intro exI [of _ ?s] exI [of _ ?pr] exI [of _ n]
      exI [of _ "L(sleepers_of w \<mapsto> [], sleepers_of v \<mapsto> [])"]) simp
qed

section \<open>Forking the process structure\<close>

text \<open>The current process is the one of the current thread, whatever else changes.\<close>

lemma curproc_threads:
  "same_threads (base (sync s)) (base (sync s')) \<Longrightarrow> curproc s' = curproc s"
  by (simp add: curproc_def same_threads_def)

lemma curproc_child: "new_child np n name s s' pr \<Longrightarrow> curproc s' = curproc s"
  by (simp add: curproc_def same_threads_def new_child_def)

lemma curproc_updates [simp]:
  "curproc (s\<lparr>files := k\<rparr>) = curproc s" "curproc (s\<lparr>procs := f\<rparr>) = curproc s" "curproc (s\<lparr>plists := h\<rparr>) = curproc s"
  "curproc (s\<lparr>frames := c\<rparr>) = curproc s" "curproc (s\<lparr>pids_of := ps\<rparr>) = curproc s" "curproc (s\<lparr>entry := e\<rparr>) = curproc s"
  by (simp_all add: curproc_def)

text \<open>A new process gets a reference of its own to the working directory.\<close>

lemma incref_settles:
  assumes o: "owes none b s" and cwd: "p_cwd (vfs_of s) = Some v"
  shows "wp (on_vfs (vnode_incref v)) (\<lambda>r s'. r = Inr () \<and> owes none (b(v := b v + 1)) s' \<and>
    openfiles s' = openfiles s \<and> filetables s' = filetables s) s"
proof -
  have g: "good (vfs_of s)" using o by (simp add: owes_def)
  have "0 \<le> loose (vfs_of s) v" "usable (vfs_of s) v" using g cwd by (simp_all add: good_def)
  moreover from this have "0 < refcount (vfs_of s) v" using cwd by (auto simp: loose_def held_def of_bool_def split: if_splits)
  ultimately have "wp (vnode_incref v) (\<lambda>r s'. r = Inr () \<and> shifts (one v) (vfs_of s) s') (vfs_of s)"
    by (intro vnode_incref_shifts)
  then show ?thesis
    unfolding wp_on_vfs
  proof (rule wp_mono)
    fix r v'
    assume a: "r = Inr () \<and> shifts (one v) (vfs_of s) v'"
    then have "loose v' x = loose (vfs_of s) x + one v x" for x by (simp add: shifts_def loose_def held_def)
    moreover have "good v'" using good_one [OF g] a by blast
    ultimately show "r = Inr () \<and> owes none (b(v := b v + 1)) (s\<lparr>vfs_of := v'\<rparr>) \<and>
        openfiles (s\<lparr>vfs_of := v'\<rparr>) = openfiles s \<and> filetables (s\<lparr>vfs_of := v'\<rparr>) = filetables s"
      using o a by (auto simp: owes_def one_def)
  qed
qed

text \<open>Copying a table counts references to open files; the VFS is not called.\<close>

lemma share_keeps_vfs: "share_each src d fds s = Some (r, s') \<Longrightarrow> vfs_of s' = vfs_of s"
proof (induction fds arbitrary: s)
  case (Cons fd fds)
  then show ?case
    by (auto simp: chain_def handle_def gets_def succeed_def openfile_incref_def upd_openfile_def ensure_def
        modify_def set_slot_def fail_def split: option.splits sum.splits if_splits dest!: Cons.IH)
qed (simp add: succeed_def)

lemma copy_keeps_vfs: "filetable_copy m src s = Some (r, s') \<Longrightarrow> vfs_of s' = vfs_of s"
  by (auto simp: filetable_copy_def filetable_create_def chain_def handle_def gets_def succeed_def modify_def fail_def
      dest!: share_keeps_vfs split: option.splits sum.splits if_splits)

text \<open>What \<^verbatim>\<open>inherit_cwd\<close> changes: one reference, and the working directory of the process.\<close>

definition cwd_shared :: "nat \<Rightarrow> 'f psys \<Rightarrow> 'f psys \<Rightarrow> (nat \<Rightarrow> int) \<Rightarrow> (nat \<Rightarrow> int) \<Rightarrow> bool" where
  "cwd_shared np s s' b b' \<longleftrightarrow> (\<exists>k cwd. s' = s\<lparr>files := k, procs := (procs s)(np := map_option (\<lambda>pr. pr\<lparr>pr_cwd := cwd\<rparr>) (procs s np))\<rparr> \<and>
     owes none b' k \<and> openfiles k = openfiles (files s) \<and> filetables k = filetables (files s) \<and>
     cwd = p_cwd (vfs_of (files s)) \<and> b' = (case cwd of None \<Rightarrow> b | Some v \<Rightarrow> b(v := b v + 1)))"

lemma inherit_cwd_ok:
  fixes s :: "'f psys"
  assumes cur: "curproc s = Some cur" and ne: "cur \<noteq> np" and pr: "procs s np = Some pr" "pr_cwd pr = None"
    and o: "owes none b (files s)"
  shows "\<exists>s' b'. inherit_cwd np s = Some s' \<and> cwd_shared np s s' b b'"
proof (cases "p_cwd (vfs_of (files s))")
  case None
  have same: "(procs s)(np \<mapsto> pr\<lparr>pr_cwd := None\<rparr>) = procs s" using pr by (cases pr) (simp add: map_upd_triv)
  then have "cwd_shared np s s b b" using pr o None unfolding cwd_shared_def
    by (intro exI [of _ "files s"] exI [of _ None]) (simp add: same)
  moreover have "inherit_cwd np s = Some s" using cur None by (simp add: inherit_cwd_def cwd_of_def)
  ultimately show ?thesis by blast
next
  case (Some v)
  obtain k where k: "on_vfs (vnode_incref v) (files s) = Some (Inr (), k)" "owes none (b(v := b v + 1)) k"
    "openfiles k = openfiles (files s)" "filetables k = filetables (files s)"
    using incref_settles [OF o Some] by (auto simp: wp_def)
  let ?s = "s\<lparr>files := k, procs := (procs s)(np \<mapsto> pr\<lparr>pr_cwd := Some v\<rparr>)\<rparr>"
  have "inherit_cwd np s = Some ?s"
    using cur ne Some k(1) pr(1) by (simp add: inherit_cwd_def cwd_of_def on_files_def set_cwd_def upd_proc_def)
  moreover have "cwd_shared np s ?s b (b(v := b v + 1))"
    using pr k(2-4) Some unfolding cwd_shared_def by (intro exI [of _ k] exI [of _ "Some v"]) simp
  ultimately show ?thesis by blast
qed

lemma proc_fork_ok:
  fixes s :: "'f psys"
  assumes ok: "sys_ok {} (base (sync s)) L U" and kids: "reps (plists s) K W" and room: "proc_room al np L K s"
    and ps: "pids_ok (pids_of s)" "in_use (pids_of s) \<noteq> {PID_MIN..<PID_MAX}"
    and cur: "curproc s = Some cur" "procs s cur = Some c" "p_filetable c = Some ft"
    and o: "owes none b (files s)" "live ft (files s)" and mem: "al_table al"
  shows "\<exists>s1 s' pr n L' b'. proc_fork F kproc al s = Some (Inr np, s') \<and> new_child np n (p_name c) s s1 pr \<and>
    sys_ok {} (base (sync s1)) L' U \<and> (\<forall>l q. L l = Some q \<longrightarrow> L' l = Some q) \<and>
    reps (plists s1) (K(np \<mapsto> [])) (insert np W) \<and>
    procs s' = (procs s1)(np \<mapsto> pr\<lparr>p_filetable := Some (length (filetables (files s))),
      pr_cwd := p_cwd (vfs_of (files s))\<rparr>) \<and>
    plists s' = plists s1 \<and> pids_of s' = pids_of s1 \<and> sync s' = sync s1 \<and> frames s' = frames s \<and> entry s' = entry s \<and>
    owes none b' (files s') \<and> filetables (files s') = filetables (files s) @ [filetables (files s) ! ft]"
proof -
  obtain s1 pr n L' where c: "proc_create al (p_name c) s = Some (Some np, s1)" "new_child np n (p_name c) s s1 pr"
    "sys_ok {} (base (sync s1)) L' U" "\<forall>l q. L l = Some q \<longrightarrow> L' l = Some q" "reps (plists s1) (K(np \<mapsto> [])) (insert np W)"
    using proc_create_ok [OF ok kids room ps] by blast
  have f: "files s1 = files s" "procs s1 np = Some pr" "pr_cwd pr = None" "frames s1 = frames s" "entry s1 = entry s"
    using c(2) by (simp_all add: new_child_def)
  have ne: "cur \<noteq> np" using room cur(2) by (auto simp: proc_room_def)
  obtain k where k: "filetable_copy (al_table al) (Some ft) (files s) = Some (Inr (Some (length (filetables (files s)))), k)"
    "owes none b k" "filetables k = filetables (files s) @ [filetables (files s) ! ft]"
    using copy_settled [OF o, of "al_table al"] mem by (auto simp: wp_def)
  let ?pr = "pr\<lparr>p_filetable := Some (length (filetables (files s)))\<rparr>"
  let ?s2 = "s1\<lparr>files := k, procs := (procs s1)(np \<mapsto> ?pr)\<rparr>"
  have "curproc ?s2 = Some cur" using curproc_child [OF c(2)] cur(1) by simp
  then obtain s' b' where s': "inherit_cwd np ?s2 = Some s'" "cwd_shared np ?s2 s' b b'"
    using inherit_cwd_ok [of ?s2 cur np ?pr b] ne k(2) f(3) by auto
  have "proc_fork F kproc al s = Some (Inr np, s')"
    using cur c(1) k(1) f(1,2) s'(1) by (simp add: proc_fork_def on_files_def upd_proc_def)
  moreover obtain k' cwd where "s' = ?s2\<lparr>files := k', procs := (procs ?s2)(np := map_option (\<lambda>pr. pr\<lparr>pr_cwd := cwd\<rparr>) (procs ?s2 np))\<rparr>"
    "owes none b' k'" "filetables k' = filetables k" "cwd = p_cwd (vfs_of k)"
    using s'(2) unfolding cwd_shared_def by auto
  moreover have "vfs_of k = vfs_of (files s)" using copy_keeps_vfs [OF k(1)] .
  ultimately show ?thesis using c(2-5) k(3) f(4,5)
    by (intro exI [of _ s1] exI [of _ s'] exI [of _ pr] exI [of _ n] exI [of _ L'] exI [of _ b']) simp
qed

end
