(* ===== verification/Process_Syscalls.thy ===== *)
theory Process_Syscalls
  imports Proc
begin

text \<open>
  fork, getpid, _exit and waitpid: \<^verbatim>\<open>kern/syscall/forker.c\<close>, \<^verbatim>\<open>exit.c\<close> and \<^verbatim>\<open>waiter.c\<close>, with
  \<^verbatim>\<open>enter_forked_process\<close> of \<^verbatim>\<open>arch/mips/syscall/syscall.c\<close>. A process takes no other \<^verbatim>\<open>mutex\<close> than its
  own, and has one thread, so that it never waits for it. A call that goes to sleep gives \<open>Asleep\<close> with
  what it needs to go on.
\<close>

record fork_alloc =
  fa_tf :: bool
  fa_asptr :: bool
  fa_as :: "addrspace option"
  fa_procptr :: bool
  fa_proc :: proc_alloc
  fa_thread :: "nat option"
  fa_thread_name :: bool
  fa_stack :: "u32 list option"
  fa_slot :: bool

text \<open>The result of \<^verbatim>\<open>as_copy\<close> is stored through \<open>fa_asptr\<close>, that of \<^verbatim>\<open>proc_fork\<close> through \<open>fa_procptr\<close>: both
  are unchecked results of \<^verbatim>\<open>kmalloc\<close>. After an error of \<^verbatim>\<open>proc_fork\<close> nothing was stored, and the read of
  \<^verbatim>\<open>(*new_proc)->pid\<close> follows a wild pointer.\<close>

definition sys_fork ::
  "'f fsops \<Rightarrow> nat \<Rightarrow> prot \<Rightarrow> fork_alloc \<Rightarrow> trapframe \<Rightarrow> 'f psys \<Rightarrow> ((errno + int) \<times> 'f psys) option" where
  "sys_fork F kproc p fa tf s =
    (if \<not> fa_tf fa then Some (Inl ENOMEM, s)
     else do {
       cur \<leftarrow> curproc s;
       (address_error, c, m) \<leftarrow>
         (case fa_as fa of
            None \<Rightarrow> Some (Inl ENOMEM, frames s, kernel_bytes s)
          | Some junk \<Rightarrow> do { as \<leftarrow> proc_getas s; as_copy p (Some junk) as (frames s) (kernel_bytes s) });
       let s = set_kernel_bytes m (s\<lparr>frames := c\<rparr>);
       (case address_error of
          Inl e \<Rightarrow> Some (Inl e, s)
        | Inr new_as \<Rightarrow> do {
            kassert (fa_asptr fa);
            (process_error, s) \<leftarrow> proc_fork F kproc (fa_proc fa) s;
            (case process_error of
               Inl e \<Rightarrow> None
             | Inr np \<Rightarrow> do {
                 kassert (fa_procptr fa);
                 pr \<leftarrow> procs s np;
                 if pid pr = - 1 then Some (Inl EAGAIN, s)
                 else do {
                   s \<leftarrow> upd_proc np (\<lambda>pr. pr\<lparr>p_addrspace := Some new_as\<rparr>) s;
                   h \<leftarrow> proclist_addtail cur np (plists s);
                   let s = s\<lparr>plists := h\<rparr>;
                   (b, thread_error) \<leftarrow> thread_fork (fa_thread fa) (fa_thread_name fa) (fa_stack fa) (fa_slot fa)
                                          ''thread'' (Some np) (base (sync s));
                   let s = s\<lparr>sync := (sync s)\<lparr>base := b\<rparr>\<rparr>;
                   (case thread_error of
                      Some e \<Rightarrow> Some (Inl e, s)
                    | None \<Rightarrow> do {
                        t \<leftarrow> fa_thread fa;
                        Some (Inr (pid pr), s\<lparr>entry := (entry s)(t \<mapsto> tf)\<rparr>)
                      })
                 }
               })
          })
     })"

text \<open>The trapframe with which a forked thread enters user mode.\<close>

definition enter_forked_process :: "trapframe \<Rightarrow> trapframe" where
  "enter_forked_process tf = tf\<lparr>tf_a3 := 0, tf_v0 := 0, tf_epc := tf_epc tf + 4\<rparr>"

definition sys_getpid :: "'f psys \<Rightarrow> ((errno + int) \<times> 'f psys) option" where
  "sys_getpid s = do { cur \<leftarrow> curproc s; pr \<leftarrow> procs s cur; Some (Inr (pid pr), s) }"

text \<open>The process's own mutex.\<close>

definition take_mutex :: "(ksys \<Rightarrow> ksys option) \<Rightarrow> nat \<Rightarrow> 'f psys \<Rightarrow> 'f psys option" where
  "take_mutex idle p s = do {
     pr \<leftarrow> procs s p;
     mx \<leftarrow> mutex pr;
     (y, asleep) \<leftarrow> lock_acquire idle mx (sync s);
     kassert (asleep = None);
     Some (s\<lparr>sync := y\<rparr>)
   }"

definition drop_mutex :: "nat \<Rightarrow> 'f psys \<Rightarrow> 'f psys option" where
  "drop_mutex p s = do {
     pr \<leftarrow> procs s p;
     mx \<leftarrow> mutex pr;
     y \<leftarrow> lock_release mx (sync s);
     Some (s\<lparr>sync := y\<rparr>)
   }"

text \<open>\<^verbatim>\<open>sys_exit\<close> up to the call of \<^verbatim>\<open>thread_exit\<close>, and as a whole; it does not return.\<close>

definition exit_process :: "(ksys \<Rightarrow> ksys option) \<Rightarrow> u32 \<Rightarrow> 'f psys \<Rightarrow> 'f psys option" where
  "exit_process idle exit_code s = do {
     cur \<leftarrow> curproc s;
     s \<leftarrow> take_mutex idle cur s;
     s \<leftarrow> upd_proc cur (\<lambda>pr. pr\<lparr>is_zombie := True\<rparr>) s;
     s \<leftarrow> drop_mutex cur s;
     s \<leftarrow> upd_proc cur (\<lambda>pr. pr\<lparr>p_exitcode := exit_code\<rparr>) s;
     pr \<leftarrow> procs s cur;
     ws \<leftarrow> wait_sem pr;
     y \<leftarrow> V ws (sync s);
     Some (s\<lparr>sync := y\<rparr>)
   }"

definition sys_exit :: "(ksys \<Rightarrow> ksys option) \<Rightarrow> u32 \<Rightarrow> 'f psys \<Rightarrow> 'f psys option" where
  "sys_exit idle exit_code s = do {
     s \<leftarrow> exit_process idle exit_code s;
     b \<leftarrow> thread_exit idle (base (sync s));
     Some (s\<lparr>sync := (sync s)\<lparr>base := b\<rparr>\<rparr>)
   }"

text \<open>\<^verbatim>\<open>*status = ...\<close>: a store of four bytes at the address the user gave, which is not checked; where a
  store faults, the kernel stops.\<close>

definition store_word :: "prot \<Rightarrow> u32 \<Rightarrow> u32 \<Rightarrow> bytes \<Rightarrow> bytes option" where
  "store_word p a w m = do {
     kassert (a AND 3 = 0);
     kassert (\<forall>i \<in> set [0, 1, 2, 3]. can_write p (a + i));
     Some (m(a := ucast (drop_bit 24 w), a + 1 := ucast (drop_bit 16 w), a + 2 := ucast (drop_bit 8 w), a + 3 := ucast w))
   }"

datatype wait_result = Returned "errno option" | Asleep nat int

text \<open>After \<^verbatim>\<open>P\<close> on the semaphore of the child \<open>t\<close>.\<close>

definition waitpid_end :: "prot \<Rightarrow> nat \<Rightarrow> u32 \<Rightarrow> 'f psys \<Rightarrow> (wait_result \<times> 'f psys) option" where
  "waitpid_end p t status s = do {
     pr \<leftarrow> procs s t;
     m \<leftarrow> store_word p status (p_exitcode pr) (kernel_bytes s);
     let s = set_kernel_bytes m s;
     ps \<leftarrow> pid_free (pid pr) (pids_of s);
     Some (Returned None, s\<lparr>pids_of := ps\<rparr>)
   }"

definition after_P :: "prot \<Rightarrow> nat \<Rightarrow> u32 \<Rightarrow> ysys \<times> int option \<Rightarrow> 'f psys \<Rightarrow> (wait_result \<times> 'f psys) option" where
  "after_P p t status r s =
    (case r of
       (y, Some spl) \<Rightarrow> Some (Asleep t spl, s\<lparr>sync := y\<rparr>)
     | (y, None) \<Rightarrow> waitpid_end p t status (s\<lparr>sync := y\<rparr>))"

definition sys_waitpid ::
  "(ksys \<Rightarrow> ksys option) \<Rightarrow> prot \<Rightarrow> int \<Rightarrow> u32 \<Rightarrow> int \<Rightarrow> 'f psys \<Rightarrow> (wait_result \<times> 'f psys) option" where
  "sys_waitpid idle p n status options s =
    (if options \<noteq> 0 then Some (Returned (Some EINVAL), s)
     else do {
       cur \<leftarrow> curproc s;
       s \<leftarrow> take_mutex idle cur s;
       found \<leftarrow> proclist_find (\<lambda>t. map_option pid (procs s t) = Some n) (plists s) cur;
       (case found of
          None \<Rightarrow> do { s \<leftarrow> drop_mutex cur s; Some (Returned (Some ECHILD), s) }
        | Some t \<Rightarrow> do {
            h \<leftarrow> proclist_remove cur t (plists s);
            s \<leftarrow> drop_mutex cur (s\<lparr>plists := h\<rparr>);
            pr \<leftarrow> procs s t;
            ws \<leftarrow> wait_sem pr;
            r \<leftarrow> P idle ws (sync s);
            after_P p t status r s
          })
     })"

text \<open>When the sleeping thread runs again.\<close>

definition sys_waitpid_resume ::
  "(ksys \<Rightarrow> ksys option) \<Rightarrow> prot \<Rightarrow> nat \<Rightarrow> u32 \<Rightarrow> int \<Rightarrow> 'f psys \<Rightarrow> (wait_result \<times> 'f psys) option" where
  "sys_waitpid_resume idle p t status spl s = do {
     pr \<leftarrow> procs s t;
     ws \<leftarrow> wait_sem pr;
     r \<leftarrow> P_resume idle ws spl (sync s);
     after_P p t status r s
   }"

section \<open>Taking and dropping the mutex\<close>

text \<open>A lock that is free and that nobody waits for.\<close>

definition quiet_lock :: "(nat \<Rightarrow> nat list option) \<Rightarrow> nat \<Rightarrow> ysys \<Rightarrow> bool" where
  "quiet_lock L mx y \<longleftrightarrow> (\<exists>lk. sleeplocks y mx = Some lk \<and> holder lk = None \<and> L (sleepers_of (lock_wchan lk)) = Some [])"

definition own_mutex :: "(nat \<Rightarrow> nat list option) \<Rightarrow> nat \<Rightarrow> 'f psys \<Rightarrow> bool" where
  "own_mutex L p s \<longleftrightarrow> (\<exists>pr mx. procs s p = Some pr \<and> mutex pr = Some mx \<and> quiet_lock L mx (sync s))"

definition while_locked :: "nat \<Rightarrow> ysys \<Rightarrow> ysys" where
  "while_locked mx y = y\<lparr>sleeplocks := (sleeplocks y)(mx := map_option
     (\<lambda>lk. lk\<lparr>holder := Some (curthread (base y))\<rparr>) (sleeplocks y mx))\<rparr>"

lemma lock_release_locked:
  assumes ok: "sys_ok {} (base y) L U" and q: "quiet_lock L mx y"
  shows "lock_acquire idle mx y = Some (while_locked mx y, None)" and "lock_release mx (while_locked mx y) = Some y"
proof -
  obtain lk where lk: "sleeplocks y mx = Some lk" "holder lk = None" "L (sleepers_of (lock_wchan lk)) = Some []"
    using q by (auto simp: quiet_lock_def)
  show "lock_acquire idle mx y = Some (while_locked mx y, None)"
    using lock_acquire_free [OF ok lk(1,2)] lk(1) by (simp add: while_locked_def)
  let ?l = "lk_spinlock mx" and ?s = "base y"
  have locks: "locks_ok {} ?s" using ok by (simp add: sys_ok_def)
  have a: "acquire ?l ?s = Some (held_by_me ?l ?s)" "sys_ok {?l} (held_by_me ?l ?s) L U"
    using sys_ok_acquire [OF ok, of ?l] by simp_all
  have "wchan_wakeone (lock_wchan lk) ?l (held_by_me ?l ?s) = Some (held_by_me ?l ?s)"
    by (rule wakeone_empty [OF a(2) insertI1 lk(3)])
  moreover have "release ?l (held_by_me ?l ?s) = Some ?s"
    using locks_ok_release(1) [OF locks_ok_acquire(2) [OF locks, of ?l]] let_go_held [OF locks, of ?l] by simp
  moreover have "(sleeplocks y)(mx \<mapsto> lk) = sleeplocks y" using lk(1) by (simp add: map_upd_triv)
  moreover have "lk\<lparr>holder := None\<rparr> = lk" using lk(2) by simp
  ultimately show "lock_release mx (while_locked mx y) = Some y"
    using a(1) lk(1) by (simp add: lock_release_def while_locked_def on_base_def set_holder_def)
qed

lemma take_drop_mutex:
  fixes s :: "'f psys"
  assumes ok: "sys_ok {} (base (sync s)) L U" and m: "own_mutex L p s"
  shows "\<exists>mx. take_mutex idle p s = Some (s\<lparr>sync := while_locked mx (sync s)\<rparr>) \<and>
    (\<forall>s' :: 'f psys. sync s' = while_locked mx (sync s) \<longrightarrow> map_option mutex (procs s' p) = map_option mutex (procs s p) \<longrightarrow>
       drop_mutex p s' = Some (s'\<lparr>sync := sync s\<rparr>))"
proof -
  obtain pr mx where pr: "procs s p = Some pr" "mutex pr = Some mx" "quiet_lock L mx (sync s)"
    using m by (auto simp: own_mutex_def)
  note l = lock_release_locked [OF ok pr(3)]
  have "take_mutex idle p s = Some (s\<lparr>sync := while_locked mx (sync s)\<rparr>)"
    using pr l(1) by (simp add: take_mutex_def kassert_def)
  moreover have "drop_mutex p s' = Some (s'\<lparr>sync := sync s\<rparr>)"
    if "sync s' = while_locked mx (sync s)" "map_option mutex (procs s' p) = map_option mutex (procs s p)" for s' :: "'f psys"
    using that pr l(2) by (auto simp: drop_mutex_def)
  ultimately show ?thesis by blast
qed

lemma while_locked_base [simp]: "base (while_locked mx y) = base y" "sems (while_locked mx y) = sems y"
  by (simp_all add: while_locked_def)

lemma curproc_cong:
  "threads (base (sync s')) (curthread (base (sync s'))) = threads (base (sync s)) (curthread (base (sync s))) \<Longrightarrow>
   curproc s' = curproc s"
  by (simp add: curproc_def)

section \<open>Exit\<close>

text \<open>The whole of a process's state for the calls: the thread system is well formed, the running thread
  belongs to \<open>cur\<close>, whose mutex is at rest.\<close>

definition runs :: "nat \<Rightarrow> (nat \<Rightarrow> nat list option) \<Rightarrow> nat set \<Rightarrow> 'f psys \<Rightarrow> bool" where
  "runs cur L U s \<longleftrightarrow> sys_ok {} (base (sync s)) L U \<and> curproc s = Some cur \<and> own_mutex L cur s"

lemma exit_process_does:
  fixes s :: "'f psys"
  assumes r: "runs cur L U s" and pr: "procs s cur = Some pr" "wait_sem pr = Some ws"
    and sm: "sems (sync s) ws = Some sm" "L (sleepers_of (sem_wchan sm)) = Some ts" "sem_count sm \<noteq> - 1"
  shows "\<exists>b. exit_process idle code s = Some (s\<lparr>
      procs := (procs s)(cur \<mapsto> pr\<lparr>is_zombie := True, p_exitcode := code\<rparr>),
      sync := (sync s)\<lparr>sems := (sems (sync s))(ws \<mapsto> sm\<lparr>sem_count := sem_count sm + 1\<rparr>), base := b\<rparr>\<rparr>) \<and>
    sys_ok {} b (delivered (base (sync s)) (take 1 ts) (L(sleepers_of (sem_wchan sm) \<mapsto> tl ts))) U \<and>
    (\<forall>t \<in> set (take 1 ts). parked b S_READY t) \<and> curthread b = curthread (base (sync s))"
proof -
  have ok: "sys_ok {} (base (sync s)) L U" "curproc s = Some cur" "own_mutex L cur s"
    using r by (simp_all add: runs_def)
  obtain mx where t: "take_mutex idle cur s = Some (s\<lparr>sync := while_locked mx (sync s)\<rparr>)"
    and d: "\<And>s' :: 'f psys. sync s' = while_locked mx (sync s) \<Longrightarrow> map_option mutex (procs s' cur) = map_option mutex (procs s cur) \<Longrightarrow>
       drop_mutex cur s' = Some (s'\<lparr>sync := sync s\<rparr>)"
    using take_drop_mutex [OF ok(1,3)] by blast
  let ?s1 = "s\<lparr>sync := while_locked mx (sync s), procs := (procs s)(cur \<mapsto> pr\<lparr>is_zombie := True\<rparr>)\<rparr>"
  have "drop_mutex cur ?s1 = Some (s\<lparr>procs := (procs s)(cur \<mapsto> pr\<lparr>is_zombie := True\<rparr>)\<rparr>)"
    using d [of ?s1] pr by simp
  moreover obtain b where "V ws (sync s) = Some ((sync s)\<lparr>sems := (sems (sync s))(ws \<mapsto> sm\<lparr>sem_count := sem_count sm + 1\<rparr>), base := b\<rparr>)"
    "sys_ok {} b (delivered (base (sync s)) (take 1 ts) (L(sleepers_of (sem_wchan sm) \<mapsto> tl ts))) U"
    "\<forall>t \<in> set (take 1 ts). parked b S_READY t" "curthread b = curthread (base (sync s))"
    using V_ok [OF ok(1) sm(1,2)] sm(3) by auto
  ultimately show ?thesis
    using ok(2) pr t by (intro exI [of _ b]) (simp add: exit_process_def upd_proc_def)
qed

section \<open>Waiting\<close>

lemma waitpid_refusals:
  fixes s :: "'f psys"
  assumes r: "runs cur L U s" and kids: "reps (plists s) K W" "K cur = Some ps"
  shows "options \<noteq> 0 \<Longrightarrow> sys_waitpid idle p n status options s = Some (Returned (Some EINVAL), s)"
    and "\<forall>t \<in> set ps. map_option pid (procs s t) \<noteq> Some n \<Longrightarrow>
      sys_waitpid idle p n status 0 s = Some (Returned (Some ECHILD), s)"
proof -
  show "options \<noteq> 0 \<Longrightarrow> sys_waitpid idle p n status options s = Some (Returned (Some EINVAL), s)"
    by (simp add: sys_waitpid_def)
  assume none: "\<forall>t \<in> set ps. map_option pid (procs s t) \<noteq> Some n"
  have ok: "sys_ok {} (base (sync s)) L U" "curproc s = Some cur" "own_mutex L cur s"
    using r by (simp_all add: runs_def)
  obtain mx where t: "take_mutex idle cur s = Some (s\<lparr>sync := while_locked mx (sync s)\<rparr>)"
    and d: "\<And>s' :: 'f psys. sync s' = while_locked mx (sync s) \<Longrightarrow>
       map_option mutex (procs s' cur) = map_option mutex (procs s cur) \<Longrightarrow> drop_mutex cur s' = Some (s'\<lparr>sync := sync s\<rparr>)"
    using take_drop_mutex [OF ok(1,3)] by blast
  have "proclist_find (\<lambda>t. map_option pid (procs s t) = Some n) (plists s) cur = Some None"
    using proclist_find_reps [OF kids] none by (simp add: find_None_iff)
  then show "sys_waitpid idle p n status 0 s = Some (Returned (Some ECHILD), s)"
    using t d [of "s\<lparr>sync := while_locked mx (sync s)\<rparr>"] ok(2) by (simp add: sys_waitpid_def)
qed

text \<open>The bytes of a word in memory, the highest first.\<close>

definition word_at :: "u32 \<Rightarrow> bytes \<Rightarrow> u32" where
  "word_at a m = push_bit 24 (ucast (m a)) OR push_bit 16 (ucast (m (a + 1))) OR
     push_bit 8 (ucast (m (a + 2))) OR ucast (m (a + 3))"

lemma store_word_reads:
  assumes "a AND 3 = 0" and "\<forall>i \<in> {0, 1, 2, 3}. can_write p (a + i)"
  shows "\<exists>m'. store_word p a w m = Some m' \<and> word_at a m' = w \<and> (\<forall>b. b \<notin> {a, a + 1, a + 2, a + 3} \<longrightarrow> m' b = m b)"
proof -
  have "push_bit 24 (ucast (ucast (drop_bit 24 w) :: u8) :: u32) OR push_bit 16 (ucast (ucast (drop_bit 16 w) :: u8)) OR
      push_bit 8 (ucast (ucast (drop_bit 8 w) :: u8)) OR ucast (ucast w :: u8) = w"
  proof (rule bit_word_eqI)
    fix n
    assume "n < LENGTH(32)"
    then have "n < 8 \<or> n = n - 8 + 8 \<and> n - 8 < 8 \<or> n = n - 16 + 16 \<and> n - 16 < 8 \<or> n = n - 24 + 24 \<and> n - 24 < 8" by simp linarith
    then obtain k where "k < 8" "n = k \<or> n = 8 + k \<or> n = 16 + k \<or> n = 24 + k" by (metis add.commute)
    then show "bit (push_bit 24 (ucast (ucast (drop_bit 24 w) :: u8) :: u32) OR push_bit 16 (ucast (ucast (drop_bit 16 w) :: u8)) OR
      push_bit 8 (ucast (ucast (drop_bit 8 w) :: u8)) OR ucast (ucast w :: u8)) n \<longleftrightarrow> bit w n"
      by (elim disjE) (simp_all add: bit_simps)
  qed
  then show ?thesis using assms by (auto simp: store_word_def kassert_def word_at_def)
qed

lemma P_takes:
  assumes ok: "sys_ok {} (base y) L U" and sm: "sems y i = Some sm" "sem_count sm \<noteq> 0"
    and th: "threads (base y) (curthread (base y)) = Some th" "\<not> t_in_interrupt th"
  shows "P idle i y = Some (y\<lparr>sems := (sems y)(i \<mapsto> sm\<lparr>sem_count := sem_count sm - 1\<rparr>)\<rparr>, None)"
proof -
  let ?s = "base y" and ?lk = "sem_lock i"
  have locks: "locks_ok {} ?s" using ok by (simp add: sys_ok_def)
  have "acquire ?lk ?s = Some (held_by_me ?lk ?s)" using sys_ok_acquire [OF ok, of ?lk] by simp
  moreover have "release ?lk (held_by_me ?lk ?s) = Some ?s"
    using locks_ok_release(1) [OF locks_ok_acquire(2) [OF locks, of ?lk]] let_go_held [OF locks, of ?lk] by simp
  moreover have "0 < sem_count sm" using sm(2) by (simp add: word_gt_0)
  ultimately show ?thesis using sm th
    by (simp add: P_def P_round_def on_base_def set_sem_count_def kassert_def)
qed

lemma kernel_bytes_set [simp]: "kernel_bytes (set_kernel_bytes m s) = m"
  by (simp add: kernel_bytes_def set_kernel_bytes_def Let_def)

lemma set_kernel_bytes_sel [simp]:
  "procs (set_kernel_bytes m s) = procs s" "plists (set_kernel_bytes m s) = plists s"
  "pids_of (set_kernel_bytes m s) = pids_of s" "sync (set_kernel_bytes m s) = sync s"
  "frames (set_kernel_bytes m s) = frames s" "entry (set_kernel_bytes m s) = entry s"
  "openfiles (files (set_kernel_bytes m s)) = openfiles (files s)"
  "filetables (files (set_kernel_bytes m s)) = filetables (files s)"
  by (simp_all add: set_kernel_bytes_def Let_def)

lemma kernel_bytes_pids [simp]: "kernel_bytes (s\<lparr>pids_of := ps\<rparr>) = kernel_bytes s"
  "kernel_bytes (s\<lparr>sync := y\<rparr>) = kernel_bytes s" "kernel_bytes (s\<lparr>plists := h\<rparr>) = kernel_bytes s"
  "kernel_bytes (s\<lparr>procs := f\<rparr>) = kernel_bytes s" "kernel_bytes (s\<lparr>frames := c\<rparr>) = kernel_bytes s"
  by (simp_all add: kernel_bytes_def)

text \<open>A child that has exited and was not waited for.\<close>

definition exited_child :: "nat \<Rightarrow> nat \<Rightarrow> u32 \<Rightarrow> 'f psys \<Rightarrow> bool" where
  "exited_child t n code s \<longleftrightarrow> (\<exists>pr ws sm. procs s t = Some pr \<and> pid pr = int n \<and> wait_sem pr = Some ws \<and>
     p_exitcode pr = code \<and> sems (sync s) ws = Some sm \<and> sem_count sm \<noteq> 0)"

lemma waitpid_reaps_child:
  fixes s :: "'f psys"
  assumes r: "runs cur L U s" and kids: "reps (plists s) K W" "K cur = Some (xs @ t # ys)"
    and t: "exited_child t n code s" and first: "\<forall>u \<in> set xs. map_option pid (procs s u) \<noteq> Some (int n)"
    and th: "threads (base (sync s)) (curthread (base (sync s))) = Some th" "\<not> t_in_interrupt th"
    and ps: "pids_ok (pids_of s)" "n \<in> in_use (pids_of s)"
    and st: "status AND 3 = 0" "\<forall>i \<in> {0, 1, 2, 3}. can_write p (status + i)"
  shows "\<exists>s'. sys_waitpid idle p (int n) status 0 s = Some (Returned None, s') \<and>
    word_at status (kernel_bytes s') = code \<and>
    (\<forall>b. b \<notin> {status, status + 1, status + 2, status + 3} \<longrightarrow> kernel_bytes s' b = kernel_bytes s b) \<and>
    pids_ok (pids_of s') \<and> in_use (pids_of s') = in_use (pids_of s) - {n} \<and>
    reps (plists s') (K(cur \<mapsto> xs @ ys)) (insert t W) \<and> procs s' = procs s \<and> base (sync s') = base (sync s) \<and>
    sleeplocks (sync s') = sleeplocks (sync s)"
proof -
  have ok: "sys_ok {} (base (sync s)) L U" "curproc s = Some cur" "own_mutex L cur s"
    using r by (simp_all add: runs_def)
  obtain pr ws sm where pr: "procs s t = Some pr" "pid pr = int n" "wait_sem pr = Some ws" "p_exitcode pr = code"
    and sm: "sems (sync s) ws = Some sm" "sem_count sm \<noteq> 0"
    using t by (auto simp: exited_child_def)
  obtain mx where tk: "take_mutex idle cur s = Some (s\<lparr>sync := while_locked mx (sync s)\<rparr>)"
    and d: "\<And>s' :: 'f psys. sync s' = while_locked mx (sync s) \<Longrightarrow>
       map_option mutex (procs s' cur) = map_option mutex (procs s cur) \<Longrightarrow> drop_mutex cur s' = Some (s'\<lparr>sync := sync s\<rparr>)"
    using take_drop_mutex [OF ok(1,3)] by blast
  have "find (\<lambda>u. map_option pid (procs s u) = Some (int n)) (xs @ t # ys) = Some t"
    using first pr by (induction xs) auto
  then have f: "proclist_find (\<lambda>u. map_option pid (procs s u) = Some (int n)) (plists s) cur = Some (Some t)"
    using proclist_find_reps [OF kids] by simp
  obtain h where h: "proclist_remove cur t (plists s) = Some h" "reps h (K(cur \<mapsto> xs @ ys)) (insert t W)"
    using prl.remove_member [OF kids] by blast
  let ?y = "(sync s)\<lparr>sems := (sems (sync s))(ws \<mapsto> sm\<lparr>sem_count := sem_count sm - 1\<rparr>)\<rparr>"
  have p: "P idle ws (sync s) = Some (?y, None)" by (rule P_takes [OF ok(1) sm th])
  obtain m where m: "store_word p status code (kernel_bytes s) = Some m" "word_at status m = code"
    "\<forall>b. b \<notin> {status, status + 1, status + 2, status + 3} \<longrightarrow> m b = kernel_bytes s b"
    using store_word_reads [OF st] by blast
  obtain ps' where fr: "pid_free (int n) (pids_of s) = Some ps'" "pids_ok ps'" "in_use ps' = in_use (pids_of s) - {n}"
    using pid_free_ok [OF ps] by blast
  have "drop_mutex cur (s\<lparr>sync := while_locked mx (sync s), plists := h\<rparr>) = Some (s\<lparr>plists := h\<rparr>)"
    using d [of "s\<lparr>sync := while_locked mx (sync s), plists := h\<rparr>"] by simp
  then have "sys_waitpid idle p (int n) status 0 s =
      Some (Returned None, (set_kernel_bytes m (s\<lparr>plists := h, sync := ?y\<rparr>))\<lparr>pids_of := ps'\<rparr>)"
    using tk f h(1) p m(1) fr(1) pr ok(2) by (simp add: sys_waitpid_def after_P_def waitpid_end_def)
  then show ?thesis using m(2,3) fr(2,3) h(2) by simp
qed

lemma runs_cong:
  "base (sync s') = base (sync s) \<Longrightarrow> sleeplocks (sync s') = sleeplocks (sync s) \<Longrightarrow>
   map_option mutex (procs s' cur) = map_option mutex (procs s cur) \<Longrightarrow> runs cur L U s' = runs cur L U s"
  by (cases "procs s cur"; cases "procs s' cur") (auto simp: runs_def own_mutex_def quiet_lock_def curproc_def)

text \<open>C14: After the child has exited, \<^verbatim>\<open>waitpid\<close> returns at once: it stores the child's exit code, the very
  word given to \<^verbatim>\<open>_exit\<close>, at the address the caller named, and takes the child off the list and its number
  out of use; waiting for the same number again gives ECHILD. The address is not checked: any word that the
  kernel can write is overwritten, its own data included.\<close>

theorem waitpid_reaps:
  fixes s :: "'f psys"
  assumes "runs cur L U s" and "reps (plists s) K W" and "K cur = Some (xs @ t # ys)"
    and "exited_child t n code s"
    and "\<forall>u \<in> set (xs @ ys). map_option pid (procs s u) \<noteq> Some (int n)"
    and "threads (base (sync s)) (curthread (base (sync s))) = Some th" and "\<not> t_in_interrupt th"
    and "pids_ok (pids_of s)" and "n \<in> in_use (pids_of s)"
    and "status AND 3 = 0" and "\<forall>i \<in> {0, 1, 2, 3}. can_write p (status + i)"
  shows "\<exists>s'. sys_waitpid idle p (int n) status 0 s = Some (Returned None, s') \<and>
    word_at status (kernel_bytes s') = code \<and>
    (\<forall>b. b \<notin> {status, status + 1, status + 2, status + 3} \<longrightarrow> kernel_bytes s' b = kernel_bytes s b) \<and>
    in_use (pids_of s') = in_use (pids_of s) - {n} \<and>
    sys_waitpid idle p (int n) status 0 s' = Some (Returned (Some ECHILD), s')"
proof -
  have "\<forall>u \<in> set xs. map_option pid (procs s u) \<noteq> Some (int n)" using assms(5) unfolding set_append by blast
  then obtain s' where s': "sys_waitpid idle p (int n) status 0 s = Some (Returned None, s')"
    "word_at status (kernel_bytes s') = code"
    "\<forall>b. b \<notin> {status, status + 1, status + 2, status + 3} \<longrightarrow> kernel_bytes s' b = kernel_bytes s b"
    "in_use (pids_of s') = in_use (pids_of s) - {n}" "reps (plists s') (K(cur \<mapsto> xs @ ys)) (insert t W)"
    "procs s' = procs s" "base (sync s') = base (sync s)" "sleeplocks (sync s') = sleeplocks (sync s)"
    using waitpid_reaps_child [OF assms(1-4) _ assms(6-11)] by blast
  have "runs cur L U s'" using runs_cong [of s' s cur L U] s'(6-8) assms(1) by simp
  from waitpid_refusals(2) [OF this s'(5)]
  have "sys_waitpid idle p (int n) status 0 s' = Some (Returned (Some ECHILD), s')"
    using assms(5) s'(6) unfolding set_append by simp
  then show ?thesis using s' by blast
qed

text \<open>\<^verbatim>\<open>_exit\<close> records the exit code and wakes the first waiter of the process, so that \<^verbatim>\<open>waitpid\<close> finds
  the code there, and then gives up only the thread: the process keeps its number, its descriptors with all
  their references, its memory and its working directory, and nothing ever releases them but the number.\<close>

theorem exit_keeps_resources:
  fixes s :: "'f psys"
  assumes "runs cur L U s" and "procs s cur = Some pr" and "wait_sem pr = Some ws" and "pid pr = int n"
    and "sems (sync s) ws = Some sm" and "L (sleepers_of (sem_wchan sm)) = Some ts" and "sem_count sm \<noteq> - 1"
  shows "\<exists>s' pr'. exit_process idle code s = Some s' \<and> exited_child cur n code s' \<and>
    (\<forall>t \<in> set (take 1 ts). parked (base (sync s')) S_READY t) \<and> procs s' cur = Some pr' \<and>
    p_filetable pr' = p_filetable pr \<and> p_addrspace pr' = p_addrspace pr \<and> files s' = files s \<and>
    frames s' = frames s \<and> pids_of s' = pids_of s"
proof -
  obtain b where "exit_process idle code s = Some (s\<lparr>
      procs := (procs s)(cur \<mapsto> pr\<lparr>is_zombie := True, p_exitcode := code\<rparr>),
      sync := (sync s)\<lparr>sems := (sems (sync s))(ws \<mapsto> sm\<lparr>sem_count := sem_count sm + 1\<rparr>), base := b\<rparr>\<rparr>)"
    "\<forall>t \<in> set (take 1 ts). parked b S_READY t"
    using exit_process_does [OF assms(1-3,5-7)] by blast
  moreover have "sem_count sm + 1 \<noteq> 0" using assms(7) by (metis add.inverse_unique add.commute)
  ultimately show ?thesis using assms(3,4) by (auto simp: exited_child_def)
qed

section \<open>Witnesses\<close>

lemma sys_ok_run_for:
  assumes ok: "sys_ok {} s L U" and me: "threads s (curthread s) = Some me"
  shows "sys_ok {} (s\<lparr>threads := (threads s)(curthread s \<mapsto> me\<lparr>t_proc := x\<rparr>)\<rparr>) L U" (is "sys_ok {} ?s L U")
proof -
  have "fits ?s l t = fits s l t" if "L l = Some q" "t \<in> set q" for l q t
  proof (rule fits_cong)
    have "t \<notin> U" using thl.elems_distinct [OF sys_reps [OF ok] that(1)] that(2) by blast
    then have "t \<noteq> curthread s" using ok by (auto simp: sys_ok_def)
    then show "threads ?s t = threads s t" by simp
  qed simp
  then have "queues_ok ?s L" using ok by (auto simp: sys_ok_def queues_ok_def)
  moreover have "locks_ok {} ?s = locks_ok {} s" by (rule locks_ok_cong) simp_all
  moreover have "dom (threads ?s) = dom (threads s)" using me by (auto simp: dom_def)
  ultimately show ?thesis using ok me by (auto simp: sys_ok_def on_cpu_def)
qed

text \<open>Process 0 runs; process 1, with number 3, is its child, with exit code 42 and a semaphore on the wait
  channel 0.\<close>

definition sample_proc :: "nat \<Rightarrow> proc" where
  "sample_proc i = \<lparr>p_name = ''sh'', pr_cwd = None, p_filetable = Some 0, p_addrspace = None, is_zombie = i = 1,
     wait_sem = Some i, mutex = Some i, pid = int i + 2, p_exitcode = 42\<rparr>"

definition sample_psys :: "list_heap \<Rightarrow> list_heap \<Rightarrow> pids \<Rightarrow> unit psys" where
  "sample_psys h lh ps = \<lparr>procs = [0 \<mapsto> sample_proc 0, 1 \<mapsto> sample_proc 1], plists = lh, pids_of = ps,
     sync = \<lparr>base = (sample_sys S_SLEEP h)\<lparr>threads := (threads (sample_sys S_SLEEP h))
              (1 \<mapsto> (sample_thread S_RUN)\<lparr>t_proc := Some 0\<rparr>)\<rparr>,
       sems = (\<lambda>i. if i < 2 then Some \<lparr>sem_name = ''w'', sem_wchan = 0, sem_count = of_nat i\<rparr> else None),
       sleeplocks = (\<lambda>i. if i < 2 then Some \<lparr>lk_name = ''m'', lock_wchan = 0, holder = None\<rparr> else None),
       cvs = Map.empty\<rparr>,
     files = sample_kfs, frames = sample_coremap, entry = Map.empty\<rparr>"

lemma sample_psys_exists:
  "\<exists>h lh ps. runs 0 (sample_queues [] []) {1} (sample_psys h lh ps) \<and> reps lh [0 \<mapsto> [1]] {2} \<and> pids_ok ps \<and>
     in_use ps = {2, 3}"
proof -
  obtain h where h: "reps h (sample_queues [] []) {1}" using sample_heap_exists [of "[]" "[]"] by auto
  obtain lh where lh: "reps lh [0 \<mapsto> [1]] {2}"
    using threadlist_addhead_reps [OF sample_heap_reps, of 0 "[]" 1] by auto
  note i = pids_ok_initialize
  obtain a p1 where p1: "pids_ok p1" "2 \<le> a" "{2..<a} \<subseteq> {}" "in_use p1 = insert a {}"
    using pid_get_room [OF i(1)] unfolding i(2) by auto
  then have u1: "in_use p1 = {2}" by auto
  have "(3 :: nat) \<in> {2..<32767}" by simp
  then have ne: "{2 :: nat} \<noteq> {2..<32767}" by (metis singletonD numeral_eq_iff semiring_norm(89))
  obtain b p2 where p2: "pids_ok p2" "2 \<le> b" "b \<noteq> 2" "{2..<b} \<subseteq> {2}" "in_use p2 = insert b {2}"
    using pid_get_room [OF p1(1)] ne unfolding u1 by auto
  have "b = 3"
  proof (rule ccontr)
    assume "b \<noteq> 3"
    then have "3 \<in> {2..<b}" using p2(2,3) by auto
    then have "(3 :: nat) \<in> {2}" using p2(4) by blast
    then show False by simp
  qed
  then have u2: "in_use p2 = {2, 3}" using p2(5) by auto
  have ok: "sys_ok {} (sample_sys S_SLEEP h) (sample_queues [] []) {1}" using sample_sys_ok [OF h] by simp
  have "sys_ok {} (base (sync (sample_psys h lh p2))) (sample_queues [] []) {1}"
    using sys_ok_run_for [OF ok, of "sample_thread S_RUN" "Some 0"] by (simp add: sample_psys_def sample_sys_def)
  then have "runs 0 (sample_queues [] []) {1} (sample_psys h lh p2)"
    by (simp add: runs_def curproc_def own_mutex_def quiet_lock_def sample_psys_def sample_proc_def sample_sys_def
        sample_queues_def sample_addresses)
  then show ?thesis using lh p2(1) u2 by blast
qed

theorem waitpid_reaps_witness:
  "\<exists>s s' :: unit psys. sys_waitpid (\<lambda>_. None) sample_prot 3 0x80001000 0 s = Some (Returned None, s') \<and>
     word_at 0x80001000 (kernel_bytes s') = 42"
proof -
  obtain h lh ps where s: "runs 0 (sample_queues [] []) {1} (sample_psys h lh ps)" "reps lh [0 \<mapsto> [1]] {2}"
    "pids_ok ps" "in_use ps = {2, 3}" using sample_psys_exists by blast
  let ?s = "sample_psys h lh ps"
  have f: "reps (plists ?s) [0 \<mapsto> [1]] {2}" "[0 \<mapsto> [1 :: nat]] (0 :: nat) = Some ([] @ 1 # [])" "exited_child 1 3 42 ?s"
    "\<forall>u \<in> set ([] @ []). map_option pid (procs ?s u) \<noteq> Some (int 3)"
    "threads (base (sync ?s)) (curthread (base (sync ?s))) = Some ((sample_thread S_RUN)\<lparr>t_proc := Some 0\<rparr>)"
    "\<not> t_in_interrupt ((sample_thread S_RUN)\<lparr>t_proc := Some 0\<rparr>)"
    "pids_ok (pids_of ?s)" "3 \<in> in_use (pids_of ?s)" "(0x80001000 :: u32) AND 3 = 0"
    "\<forall>i \<in> {0, 1, 2, 3}. can_write sample_prot (0x80001000 + i)"
    using s(2-4) by (simp_all add: sample_psys_def exited_child_def sample_proc_def sample_sys_def sample_thread_def
        sample_prot_def)
  show ?thesis using waitpid_reaps [OF s(1) f, of "\<lambda>_. None"] by auto
qed

theorem exit_keeps_resources_witness:
  "\<exists>s s' :: unit psys. exit_process (\<lambda>_. None) 7 s = Some s' \<and> exited_child 0 2 7 s' \<and> files s' = sample_kfs"
proof -
  obtain h lh ps where s: "runs 0 (sample_queues [] []) {1} (sample_psys h lh ps)" using sample_psys_exists by blast
  let ?s = "sample_psys h lh ps" and ?sm = "\<lparr>sem_name = ''w'', sem_wchan = 0, sem_count = 0\<rparr>"
  have f: "procs ?s 0 = Some (sample_proc 0)" "wait_sem (sample_proc 0) = Some 0" "pid (sample_proc 0) = int 2"
    "sems (sync ?s) 0 = Some ?sm" "sample_queues [] [] (sleepers_of (sem_wchan ?sm)) = Some []"
    "sem_count ?sm \<noteq> - 1" "files ?s = sample_kfs"
    by (simp_all add: sample_psys_def sample_proc_def sample_queues_def sample_addresses)
  show ?thesis using exit_keeps_resources [OF s f(1-6), of "\<lambda>_. None" 7] unfolding f(7) by blast
qed

end
