(* ===== verification/Fork.thy ===== *)
theory Fork
  imports Process_Syscalls
begin

text \<open>
  What \<^verbatim>\<open>fork\<close> makes: the pieces proved of \<^verbatim>\<open>as_copy\<close>, \<^verbatim>\<open>proc_fork\<close>, the list of children and
  \<^verbatim>\<open>thread_fork\<close>, put together as \<^verbatim>\<open>sys_fork\<close> does.
\<close>

section \<open>Storing an address space's bytes\<close>

lemma set_kernel_bytes_same [simp]: "set_kernel_bytes (kernel_bytes s) s = s"
  by (simp add: set_kernel_bytes_def kernel_bytes_def Let_def)

lemma curproc_set_kernel_bytes [simp]: "curproc (set_kernel_bytes m s) = curproc s"
  by (simp add: curproc_def)

lemma good_user: "good (v\<lparr>user := u\<rparr>) = good v"
proof -
  have "refcount (v\<lparr>user := u\<rparr>) = refcount v" "held (v\<lparr>user := u\<rparr>) = held v" "isdev (v\<lparr>user := u\<rparr>) = isdev v"
    "usable (v\<lparr>user := u\<rparr>) = usable v" "fs_of (v\<lparr>user := u\<rparr>) = fs_of v"
    by (auto intro!: ext simp: refcount_def held_def isdev_def usable_def fs_of_def)
  then show ?thesis by (simp add: good_def loose_def)
qed

lemma owes_user: "owes h b (files (set_kernel_bytes m s)) = owes h b (files s)"
proof -
  have "loose (v\<lparr>user := u\<rparr>) = loose v" for v :: "'a vfs" and u
    by (auto intro!: ext simp: loose_def refcount_def held_def)
  then show ?thesis by (simp add: owes_def good_user set_kernel_bytes_def Let_def counted_def cong: option.case_cong)
qed

lemma p_cwd_user [simp]: "p_cwd (vfs_of (files (set_kernel_bytes m s))) = p_cwd (vfs_of (files s))"
  by (simp add: set_kernel_bytes_def Let_def)

section \<open>A successful fork\<close>

text \<open>The process \<open>cur\<close> that forks, with its structure, its address space and its descriptors, and what the
  allocator has for the new process \<open>np\<close> and thread \<open>t\<close>.\<close>

definition forking :: "nat \<Rightarrow> proc \<Rightarrow> addrspace \<Rightarrow> nat \<Rightarrow> (nat \<Rightarrow> int) \<Rightarrow> 'f psys \<Rightarrow> bool" where
  "forking cur c as ft b s \<longleftrightarrow> curproc s = Some cur \<and> procs s cur = Some c \<and> p_addrspace c = Some as \<and>
     p_filetable c = Some ft \<and> live ft (files s) \<and> owes none b (files s) \<and>
     as_ok (frames s) as \<and> memory_size (frames s) \<le> 131072 \<and>
     pids_ok (pids_of s) \<and> in_use (pids_of s) \<noteq> {PID_MIN..<PID_MAX}"

definition fork_room :: "fork_alloc \<Rightarrow> addrspace \<Rightarrow> nat \<Rightarrow> nat \<Rightarrow> (nat \<Rightarrow> nat list option) \<Rightarrow>
    (nat \<Rightarrow> nat list option) \<Rightarrow> 'f psys \<Rightarrow> bool" where
  "fork_room fa as np t L K s \<longleftrightarrow> fa_tf fa \<and> fa_asptr fa \<and> fa_procptr fa \<and>
     (\<exists>junk. fa_as fa = Some junk \<and> no_of_segments junk = no_of_segments as \<and>
        length (page_table junk) = length (page_table as)) \<and>
     proc_room (fa_proc fa) np L K s \<and> al_table (fa_proc fa) \<and>
     fa_thread fa = Some t \<and> fa_thread_name fa \<and> fa_slot fa \<and>
     (\<exists>st. fa_stack fa = Some st \<and> 4 \<le> length st) \<and>
     threads (base (sync s)) t = None \<and> card (dom (threads (base (sync s)))) + 1 < 2 ^ 32"

text \<open>The child, as the parent finds it when \<^verbatim>\<open>fork\<close> returns.\<close>

definition is_child :: "nat \<Rightarrow> nat \<Rightarrow> trapframe \<Rightarrow> proc \<Rightarrow> addrspace \<Rightarrow> nat \<Rightarrow> 'f psys \<Rightarrow> 'f psys \<Rightarrow> int \<Rightarrow> bool" where
  "is_child np t tf c as ft s s' n \<longleftrightarrow> (\<exists>pr new. procs s' = (procs s)(np \<mapsto> pr) \<and>
     pid pr = n \<and> 0 \<le> n \<and> nat n \<notin> in_use (pids_of s) \<and> in_use (pids_of s') = insert (nat n) (in_use (pids_of s)) \<and>
     p_name pr = p_name c \<and> pr_cwd pr = p_cwd (vfs_of (files s)) \<and> \<not> is_zombie pr \<and>
     p_filetable pr = Some (length (filetables (files s))) \<and>
     filetables (files s') = filetables (files s) @ [filetables (files s) ! ft] \<and>
     p_addrspace pr = Some new \<and> as_ok (frames s') new \<and>
     same_image as (kernel_bytes s) new (kernel_bytes s') \<and>
     (\<forall>a. unat a < 2 ^ 31 \<or> frame_of a \<in> frames_used (frames s) \<longrightarrow> kernel_bytes s' a = kernel_bytes s a) \<and>
     entry s' = (entry s)(t \<mapsto> tf) \<and> map_option t_proc (threads (base (sync s')) t) = Some (Some np) \<and>
     parked (base (sync s')) S_READY t)"

text \<open>Forking the process structure writes to no byte of memory.\<close>

lemma incref_keeps_bytes:
  "on_vfs (vnode_incref v) k = Some (r, k') \<Longrightarrow> user (vfs_of k') = user (vfs_of k)"
  by (auto simp: on_vfs_def vnode_incref_def upd_vnode_def chain_def handle_def gets_def ensure_def modify_def succeed_def
      panic_def fail_def split: option.splits if_splits sum.splits)

lemma inherit_cwd_keeps_bytes: "inherit_cwd p s = Some s' \<Longrightarrow> kernel_bytes s' = kernel_bytes s"
  by (auto simp: inherit_cwd_def kernel_bytes_def on_files_def set_cwd_def upd_proc_def split: Option.bind_splits option.splits if_splits
      dest!: incref_keeps_bytes)

lemma proc_fork_keeps_bytes:
  assumes "proc_fork F kproc al s = Some (Inr np, s')"
  shows "kernel_bytes s' = kernel_bytes s"
proof -
  have c: "kernel_bytes s1 = kernel_bytes s0" if "proc_create al name s0 = Some (r, s1)" for al name and s0 s1 :: "'a psys" and r
    using that by (auto simp: proc_create_def Let_def kernel_bytes_def split: Option.bind_splits option.splits if_splits)
  obtain r1 s1 r2 tbl k p s2 where s: "proc_create al (p_name (the (procs s (the (curproc s))))) s = Some (r1, s1)"
    "filetable_copy (al_table al) r2 (files s1) = Some (Inr tbl, k)"
    "upd_proc p (\<lambda>pr. pr\<lparr>p_filetable := tbl\<rparr>) (s1\<lparr>files := k\<rparr>) = Some s2" "inherit_cwd p s2 = Some s'"
    using assms by (auto simp: proc_fork_def on_files_def split: Option.bind_splits option.splits sum.splits)
  show ?thesis
    using c [OF s(1)] copy_keeps_vfs [OF s(2)] inherit_cwd_keeps_bytes [OF s(4)] s(3)
    by (auto simp: upd_proc_def kernel_bytes_def split: Option.bind_splits)
qed


lemma new_child_threads:
  assumes "new_child np n name s s1 pr"
  shows "threads (base (sync s1)) = threads (base (sync s))" and "curcpu (base (sync s1)) = curcpu (base (sync s))"
    and "p_threads (base (sync s1)) np = Some array_init" and "curthread (base (sync s1)) = curthread (base (sync s))"
  using assms by (simp_all add: new_child_def same_threads_def)

lemma sys_fork_child:
  fixes s :: "'f psys"
  assumes ok: "sys_ok {} (base (sync s)) L U" and q: "L (runq_of (curcpu (base (sync s)))) = Some q"
    and kids: "reps (plists s) K W" "K cur = Some ps" "length ps + 1 < 2 ^ 32"
    and c: "forking cur c as ft b s" and room: "fork_room fa as np t L K s" and p: "kseg0_ok p"
  shows "\<exists>r s'. sys_fork F kproc p fa tf s = Some (r, s') \<and> view (base (sync s')) = view (base (sync s)) \<and>
    (case r of
       Inl e \<Rightarrow> e = ENOMEM \<and> (\<exists>cm. s' = s\<lparr>frames := cm\<rparr>)
     | Inr n \<Rightarrow> is_child np t tf c as ft s s' n \<and> reps (plists s') (K(np \<mapsto> [], cur \<mapsto> ps @ [np])) (W - {np}) \<and>
         (\<exists>L'. sys_ok {} (base (sync s')) L' (U - {t}) \<and> L' (runq_of (curcpu (base (sync s)))) = Some (q @ [t])))"
proof -
  obtain junk st where junk: "fa_as fa = Some junk" "no_of_segments junk = no_of_segments as"
      "length (page_table junk) = length (page_table as)"
    and pr: "proc_room (fa_proc fa) np L K s" "al_table (fa_proc fa)"
    and fa: "fa_tf fa" "fa_asptr fa" "fa_procptr fa" "fa_thread fa = Some t" "fa_thread_name fa" "fa_slot fa"
      "fa_stack fa = Some st" "4 \<le> length st"
    and th: "threads (base (sync s)) t = None" "card (dom (threads (base (sync s)))) + 1 < 2 ^ 32"
    using room by (auto simp: fork_room_def)
  have cur: "curproc s = Some cur" "procs s cur = Some c" "p_addrspace c = Some as" "p_filetable c = Some ft"
    "live ft (files s)" "owes none b (files s)" "as_ok (frames s) as" "memory_size (frames s) \<le> 131072"
    "pids_ok (pids_of s)" "in_use (pids_of s) \<noteq> {PID_MIN..<PID_MAX}"
    using c by (simp_all add: forking_def)
  have ga: "proc_getas s = Some as" using cur(1-3) by (simp add: proc_getas_def)
  obtain r cm m where cp: "as_copy p (Some junk) as (frames s) (kernel_bytes s) = Some (r, cm, m)"
    "case r of Inl e \<Rightarrow> e = ENOMEM \<and> m = kernel_bytes s | Inr new \<Rightarrow> copied (frames s) cm as new (kernel_bytes s) m"
    using as_copy_runs [OF p cur(7,8) junk(2,3)] by blast
  show ?thesis
  proof (cases r)
    case (Inl e)
    have e: "set_kernel_bytes (kernel_bytes s) (s\<lparr>frames := cm\<rparr>) = s\<lparr>frames := cm\<rparr>"
      using set_kernel_bytes_same [of "s\<lparr>frames := cm\<rparr>"] by (simp del: set_kernel_bytes_same)
    have "sys_fork F kproc p fa tf s = Some (Inl ENOMEM, s\<lparr>frames := cm\<rparr>)"
      using cur(1) ga junk(1) cp fa(1) Inl e by (simp add: sys_fork_def)
    then show ?thesis by auto
  next
    case (Inr new)
    let ?s0 = "set_kernel_bytes m (s\<lparr>frames := cm\<rparr>)"
    have im: "\<forall>a. unat a < 2 ^ 31 \<or> frame_of a \<in> frames_used (frames s) \<longrightarrow> m a = kernel_bytes s a" "as_ok cm new"
      "same_image as (kernel_bytes s) new m"
      using copied_image [OF _ cur(7)] cp(2) Inr by auto
    have pre: "sys_ok {} (base (sync ?s0)) L U" "reps (plists ?s0) K W" "proc_room (fa_proc fa) np L K ?s0"
      "pids_ok (pids_of ?s0)" "in_use (pids_of ?s0) \<noteq> {PID_MIN..<PID_MAX}" "curproc ?s0 = Some cur"
      "procs ?s0 cur = Some c" "owes none b (files ?s0)" "live ft (files ?s0)"
      using ok kids(1) pr(1) cur owes_user [of none b m "s\<lparr>frames := cm\<rparr>"] by (simp_all add: proc_room_def live_def)
    obtain s1 s2 pr1 n L' where f: "proc_fork F kproc (fa_proc fa) ?s0 = Some (Inr np, s2)"
      "new_child np n (p_name c) ?s0 s1 pr1" "sys_ok {} (base (sync s1)) L' U" "\<forall>l q. L l = Some q \<longrightarrow> L' l = Some q"
      "reps (plists s1) (K(np \<mapsto> [])) (insert np W)"
      "procs s2 = (procs s1)(np \<mapsto> pr1\<lparr>p_filetable := Some (length (filetables (files ?s0))), pr_cwd := p_cwd (vfs_of (files ?s0))\<rparr>)"
      "plists s2 = plists s1" "pids_of s2 = pids_of s1" "sync s2 = sync s1" "frames s2 = frames ?s0" "entry s2 = entry ?s0"
      "filetables (files s2) = filetables (files ?s0) @ [filetables (files ?s0) ! ft]"
      using proc_fork_ok [where F = F and kproc = kproc, OF pre(1-7) cur(4) pre(8,9) pr(2)] by (elim exE conjE) (rule that, assumption+)
    let ?pr = "pr1\<lparr>p_filetable := Some (length (filetables (files s))), pr_cwd := p_cwd (vfs_of (files s))\<rparr>"
    have n: "pid ?pr = int n" "pid ?pr \<noteq> - 1" and psn: "procs s2 = (procs s)(np \<mapsto> ?pr)"
      using f(2,6) by (simp_all add: new_child_def)
    have ne: "cur \<noteq> np" using pr(1) kids(2) by (auto simp: proc_room_def)
    have "(K(np \<mapsto> [])) cur = Some ps" using ne kids(2) by simp
    then obtain h where h: "proclist_addtail cur np (plists s1) = Some h" "reps h (K(np \<mapsto> [], cur \<mapsto> ps @ [np])) (insert np W - {np})"
      using prl.addtail_free [OF f(5), of cur ps np] kids(3) by auto
    note nt = new_child_threads [OF f(2)]
    have "L' (runq_of (curcpu (base (sync s1)))) = Some q" using f(4) q nt(2) by simp
    then obtain b2 ts' where b2: "thread_fork (Some t) True (Some st) True ''thread'' (Some np) (base (sync s1)) = Some (b2, None)"
      "sys_ok {} b2 (L'(runq_of (curcpu (base (sync s1))) \<mapsto> q @ [t])) (U - {t})" "parked b2 S_READY t"
      "map_option t_proc (threads b2 t) = Some (Some np)" "view b2 = view (base (sync s1))"
      using thread_fork_ok [OF f(3), of t np array_init st q "''thread''"] th fa(8) nt(1,3)
      by (auto simp: arr_wf_init arr_list_init)
    let ?s' = "s2\<lparr>procs := (procs s2)(np \<mapsto> ?pr\<lparr>p_addrspace := Some new\<rparr>), plists := h,
      sync := (sync s2)\<lparr>base := b2\<rparr>, entry := (entry s2)(t \<mapsto> tf)\<rparr>"
    have run: "sys_fork F kproc p fa tf s = Some (Inr (int n), ?s')"
      using cur(1) ga junk(1) cp(1) fa Inr f(1,7,9) n psn h(1) b2(1)
      by (simp add: sys_fork_def kassert_def upd_proc_def)
    have "kernel_bytes ?s' = kernel_bytes s2" by (simp add: kernel_bytes_def)
    then have "kernel_bytes ?s' = m" using proc_fork_keeps_bytes [OF f(1)] by simp
    then have "is_child np t tf c as ft s ?s' (int n)"
      using f(2,8,10,11,12) psn im b2(3,4) nt unfolding is_child_def
      by (intro exI [of _ "?pr\<lparr>p_addrspace := Some new\<rparr>"] exI [of _ new]) (simp add: new_child_def)
    moreover have "reps (plists ?s') (K(np \<mapsto> [], cur \<mapsto> ps @ [np])) (W - {np})" using h(2) by simp
    moreover have "view b2 = view (base (sync s))" using b2(5) f(2) by (simp add: new_child_def same_threads_def)
    ultimately show ?thesis using run b2(2) nt(2)
      by (intro exI [of _ "Inr (int n)"] exI [of _ ?s']) auto
  qed
qed


text \<open>The process 0 of \<open>sample_psys\<close> with an address space, and what its fork is given.\<close>

definition forking_psys :: "list_heap \<Rightarrow> list_heap \<Rightarrow> pids \<Rightarrow> unit psys" where
  "forking_psys h lh ps = (let s = sample_psys h lh ps in
     s\<lparr>procs := (procs s)(0 \<mapsto> (sample_proc 0)\<lparr>p_addrspace := Some sample_as\<rparr>)\<rparr>)"

definition sample_fork_alloc :: fork_alloc where
  "sample_fork_alloc = \<lparr>fa_tf = True, fa_asptr = True, fa_as = Some sample_as, fa_procptr = True,
     fa_proc = \<lparr>al_proc = Some 7, al_name = True, al_junk = 0,
       al_sem = \<lparr>sa_mem = Some 4, sa_name = True, sa_wchan = Some 4, sa_slot = True\<rparr>,
       al_lock = \<lparr>sa_mem = Some 5, sa_name = True, sa_wchan = Some 5, sa_slot = True\<rparr>, al_table = True\<rparr>,
     fa_thread = Some 5, fa_thread_name = True, fa_stack = Some (replicate 1024 0), fa_slot = True\<rparr>"

end
