(* ===== verification/Klib.thy ===== *)
theory Klib
  imports Memory
begin

text \<open>
  Small routines of \<^verbatim>\<open>kern/lib\<close> and \<^verbatim>\<open>common/libc\<close>: byte order (\<^verbatim>\<open>bswap.c\<close>), time arithmetic
  (\<^verbatim>\<open>time.c\<close>), and the string functions over memory (\<^verbatim>\<open>strlen.c\<close>, \<^verbatim>\<open>strcpy.c\<close>, \<^verbatim>\<open>strcat.c\<close>,
  \<^verbatim>\<open>strcmp.c\<close>, \<^verbatim>\<open>strchr.c\<close>, \<^verbatim>\<open>strrchr.c\<close>, \<^verbatim>\<open>strtok_r.c\<close>, \<^verbatim>\<open>kstrdup\<close> of \<^verbatim>\<open>misc.c\<close>).

  A string is the address of its first byte. The loops run until they meet a null byte, so they are
  partial: None means that the loop does not end. Faults are left to the copy routines.
\<close>

type_synonym u16 = "16 word"

type_synonym u64 = "64 word"

section \<open>Byte order: \<^verbatim>\<open>kern/lib/bswap.c\<close>\<close>

definition bswap16 :: "u16 \<Rightarrow> u16" where
  "bswap16 val = push_bit 8 (val AND 0x00ff) OR drop_bit 8 (val AND 0xff00)"

definition bswap32 :: "u32 \<Rightarrow> u32" where
  "bswap32 val = push_bit 24 (val AND 0x000000ff) OR push_bit 8 (val AND 0x0000ff00) OR
     drop_bit 8 (val AND 0x00ff0000) OR drop_bit 24 (val AND 0xff000000)"

definition bswap64 :: "u64 \<Rightarrow> u64" where
  "bswap64 val = push_bit 56 (val AND 0x00000000000000ff) OR push_bit 40 (val AND 0x000000000000ff00) OR
     push_bit 24 (val AND 0x0000000000ff0000) OR push_bit 8 (val AND 0x00000000ff000000) OR
     push_bit 8 (val AND 0x000000ff00000000) OR push_bit 24 (val AND 0x0000ff0000000000) OR
     drop_bit 40 (val AND 0x00ff000000000000) OR drop_bit 56 (val AND 0xff00000000000000)"

text \<open>The machine is big-endian, so these are the identity.\<close>

definition ntohs :: "u16 \<Rightarrow> u16" where "ntohs val = val"
definition htons :: "u16 \<Rightarrow> u16" where "htons val = val"
definition ntohl :: "u32 \<Rightarrow> u32" where "ntohl val = val"
definition htonl :: "u32 \<Rightarrow> u32" where "htonl val = val"
definition ntohll :: "u64 \<Rightarrow> u64" where "ntohll val = val"
definition htonll :: "u64 \<Rightarrow> u64" where "htonll val = val"

definition join32to64 :: "u32 \<Rightarrow> u32 \<Rightarrow> u64" where
  "join32to64 x1 x2 = push_bit 32 (ucast x1) OR ucast x2"

definition split64to32 :: "u64 \<Rightarrow> u32 \<times> u32" where
  "split64to32 x = (ucast (drop_bit 32 x), ucast (x AND 0xffffffff))"

text \<open>The reference: the bytes of a word in the opposite order.\<close>

definition byte_of :: "nat \<Rightarrow> 'a::len word \<Rightarrow> 'a word" where
  "byte_of k w = drop_bit (8 * k) w AND 0xff"

definition bytes_reversed :: "nat \<Rightarrow> 'a::len word \<Rightarrow> 'a word \<Rightarrow> bool" where
  "bytes_reversed n w v \<longleftrightarrow> (\<forall>k < n. byte_of k w = byte_of (n - 1 - k) v)"

section \<open>Time: \<^verbatim>\<open>kern/lib/time.c\<close>\<close>

record timespec =
  tv_sec :: "64 word"
  tv_nsec :: "32 word"

definition timespec_add :: "timespec \<Rightarrow> timespec \<Rightarrow> timespec" where
  "timespec_add ts1 ts2 =
    (let ret = \<lparr>tv_sec = tv_sec ts1 + tv_sec ts2, tv_nsec = tv_nsec ts1 + tv_nsec ts2\<rparr> in
     if sint (tv_nsec ret) \<ge> 1000000000
     then \<lparr>tv_sec = tv_sec ret + 1, tv_nsec = tv_nsec ret - 1000000000\<rparr>
     else ret)"

definition timespec_sub :: "timespec \<Rightarrow> timespec \<Rightarrow> timespec" where
  "timespec_sub ts1 ts2 =
    (let r = (if sint (tv_nsec ts1) < sint (tv_nsec ts2)
              then \<lparr>tv_sec = tv_sec ts1 - 1, tv_nsec = tv_nsec ts1 + 1000000000\<rparr> else ts1)
     in \<lparr>tv_sec = tv_sec r - tv_sec ts2, tv_nsec = tv_nsec r - tv_nsec ts2\<rparr>)"

section \<open>Strings\<close>

partial_function (option) strlen_from :: "bytes \<Rightarrow> u32 \<Rightarrow> u32 \<Rightarrow> u32 option" where
  "strlen_from m str ret = (if m (str + ret) = 0 then Some ret else strlen_from m str (ret + 1))"

definition strlen :: "bytes \<Rightarrow> u32 \<Rightarrow> u32 option" where
  "strlen m str = strlen_from m str 0"

partial_function (option) strcpy_from :: "u32 \<Rightarrow> u32 \<Rightarrow> u32 \<Rightarrow> bytes \<Rightarrow> bytes option" where
  "strcpy_from dest src i m =
    (if m (src + i) = 0 then Some (m(dest + i := 0))
     else strcpy_from dest src (i + 1) (m(dest + i := m (src + i))))"

definition strcpy :: "u32 \<Rightarrow> u32 \<Rightarrow> bytes \<Rightarrow> bytes option" where
  "strcpy dest src m = strcpy_from dest src 0 m"

definition strcat :: "u32 \<Rightarrow> u32 \<Rightarrow> bytes \<Rightarrow> bytes option" where
  "strcat dest src m = do { offset \<leftarrow> strlen m dest; strcpy (dest + offset) src m }"

text \<open>The first index at which the strings differ or \<open>a\<close> ends.\<close>

partial_function (option) strcmp_from :: "bytes \<Rightarrow> u32 \<Rightarrow> u32 \<Rightarrow> u32 \<Rightarrow> u32 option" where
  "strcmp_from m a b i =
    (if m (a + i) \<noteq> 0 \<and> m (a + i) = m (b + i) then strcmp_from m a b (i + 1) else Some i)"

definition strcmp :: "bytes \<Rightarrow> u32 \<Rightarrow> u32 \<Rightarrow> int option" where
  "strcmp m a b = do {
     i \<leftarrow> strcmp_from m a b 0;
     Some (if m (a + i) > m (b + i) then 1 else if m (a + i) = m (b + i) then 0 else - 1)
   }"

text \<open>The result is a pointer, or None inside for \<^verbatim>\<open>NULL\<close>.\<close>

partial_function (option) strchr :: "bytes \<Rightarrow> u32 \<Rightarrow> u8 \<Rightarrow> u32 option option" where
  "strchr m s ch =
    (if m s \<noteq> 0 then if m s = ch then Some (Some s) else strchr m (s + 1) ch
     else if m s = ch then Some (Some s) else Some None)"

partial_function (option) strrchr_from :: "bytes \<Rightarrow> u32 \<Rightarrow> u8 \<Rightarrow> u32 \<Rightarrow> u32 option option" where
  "strrchr_from m s ch i =
    (if i > 0 then if m (s + (i - 1)) = ch then Some (Some (s + (i - 1))) else strrchr_from m s ch (i - 1)
     else Some None)"

definition strrchr :: "bytes \<Rightarrow> u32 \<Rightarrow> u8 \<Rightarrow> u32 option option" where
  "strrchr m s ch = do { n \<leftarrow> strlen m s; strrchr_from m s ch (n + 1) }"

text \<open>Skipping separators, and the characters of a word.\<close>

partial_function (option) skip_seps :: "bytes \<Rightarrow> u32 \<Rightarrow> u32 \<Rightarrow> u32 option" where
  "skip_seps m seps head =
    (if m head = 0 then Some head else do {
       w \<leftarrow> strchr m seps (m head);
       if w \<noteq> None then skip_seps m seps (head + 1) else Some head
     })"

partial_function (option) skip_word :: "bytes \<Rightarrow> u32 \<Rightarrow> u32 \<Rightarrow> u32 option" where
  "skip_word m seps tail =
    (if m tail = 0 then Some tail else do {
       w \<leftarrow> strchr m seps (m tail);
       if w = None then skip_word m seps (tail + 1) else Some tail
     })"

text \<open>The word, or None inside, with the new context and the memory.\<close>

definition strtok_r :: "u32 option \<Rightarrow> u32 \<Rightarrow> u32 option \<Rightarrow> bytes \<Rightarrow>
    (u32 option \<times> u32 option \<times> bytes) option" where
  "strtok_r string seps context m =
    (case (if string \<noteq> None then string else context) of
       None \<Rightarrow> Some (None, None, m)
     | Some start \<Rightarrow> do {
         head \<leftarrow> skip_seps m seps start;
         if m head = 0 then Some (None, None, m)
         else do {
           tail \<leftarrow> skip_word m seps head;
           if m tail = 0 then Some (Some head, None, m)
           else Some (Some head, Some (tail + 1), m(tail := 0))
         }
       })"

definition kstrdup :: "(u32 \<Rightarrow> u32 option) \<Rightarrow> u32 \<Rightarrow> bytes \<Rightarrow> (u32 option \<times> bytes) option" where
  "kstrdup kmalloc s m = do {
     n \<leftarrow> strlen m s;
     (case kmalloc (n + 1) of
        None \<Rightarrow> Some (None, m)
      | Some z \<Rightarrow> do { m1 \<leftarrow> strcpy z s m; Some (Some z, m1) })
   }"

section \<open>Reversing bytes\<close>

lemma byte_masks:
  "(0xff :: 'a::len word) = mask 8" "(0xff00 :: 'a word) = push_bit 8 (mask 8)"
  "(0xff0000 :: 'a word) = push_bit 16 (mask 8)" "(0xff000000 :: 'a word) = push_bit 24 (mask 8)"
  "(0xff00000000 :: 'a word) = push_bit 32 (mask 8)" "(0xff0000000000 :: 'a word) = push_bit 40 (mask 8)"
  "(0xff000000000000 :: 'a word) = push_bit 48 (mask 8)" "(0xff00000000000000 :: 'a word) = push_bit 56 (mask 8)"
  by (simp_all add: mask_eq_exp_minus_1 push_bit_eq_mult)

lemma bit_bswap16:
  assumes "j < 8"
  shows "bit (bswap16 v) j = bit v (8 + j)" "bit (bswap16 v) (8 + j) = bit v j"
  using assms unfolding bswap16_def byte_masks by (simp_all add: bit_simps)

lemma bit_bswap32:
  assumes "j < 8"
  shows "bit (bswap32 v) j = bit v (24 + j)" "bit (bswap32 v) (8 + j) = bit v (16 + j)"
    "bit (bswap32 v) (16 + j) = bit v (8 + j)" "bit (bswap32 v) (24 + j) = bit v j"
  using assms unfolding bswap32_def byte_masks by (simp_all add: bit_simps)

lemma byte_of_bit:
  fixes w :: "'a::len word"
  shows "bit (byte_of k w) j \<longleftrightarrow> j < 8 \<and> bit w (8 * k + j)"
  unfolding byte_of_def byte_masks by (auto simp: bit_simps dest: bit_imp_le_length)

lemma byte_of_bswap:
  "k < 2 \<Longrightarrow> byte_of k (bswap16 v) = byte_of (1 - k) v"
  "k < 4 \<Longrightarrow> byte_of k (bswap32 w) = byte_of (3 - k) w"
proof -
  have "k = 0 \<or> k = 1" if "k < 2" using that by auto
  then show "k < 2 \<Longrightarrow> byte_of k (bswap16 v) = byte_of (1 - k) v"
    by (auto intro!: bit_word_eqI simp: byte_of_bit bit_bswap16)
  have "k = 0 \<or> k = 1 \<or> k = 2 \<or> k = 3" if "k < 4" using that by auto
  then show "k < 4 \<Longrightarrow> byte_of k (bswap32 w) = byte_of (3 - k) w"
    by (auto intro!: bit_word_eqI simp: byte_of_bit bit_bswap32)
qed

text \<open>A word is its bytes.\<close>

lemma word_by_bytes:
  fixes v w :: "'a::len word"
  assumes "LENGTH('a) = 8 * n" and "\<forall>k < n. byte_of k v = byte_of k w"
  shows "v = w"
proof (rule bit_word_eqI)
  fix j
  assume "j < LENGTH('a)"
  then have "j div 8 < n" using assms(1) by simp
  then have "byte_of (j div 8) v = byte_of (j div 8) w" using assms(2) by blast
  then have "bit (byte_of (j div 8) v) (j mod 8) = bit (byte_of (j div 8) w) (j mod 8)" by simp
  then show "bit v j = bit w j" by (simp add: byte_of_bit)
qed

lemma bswap_twice: "bswap16 (bswap16 v) = v" "bswap32 (bswap32 w) = w"
  by (rule word_by_bytes [of 2], simp, simp add: byte_of_bswap)
    (rule word_by_bytes [of 4], simp, simp add: byte_of_bswap)

lemma join_split: "split64to32 (join32to64 a b) = (a, b)" "case split64to32 x of (y1, y2) \<Rightarrow> join32to64 y1 y2 = x"
proof -
  have m: "(0xffffffff :: u64) = mask 32" by (simp add: mask_eq_exp_minus_1)
  show "split64to32 (join32to64 a b) = (a, b)"
    unfolding split64to32_def join32to64_def m prod.inject
    by (intro conjI bit_word_eqI) (auto simp: bit_simps dest: bit_imp_le_length)
  show "case split64to32 x of (y1, y2) \<Rightarrow> join32to64 y1 y2 = x"
    unfolding split64to32_def join32to64_def m prod.case
    by (rule bit_word_eqI) (auto simp: bit_simps)
qed

lemma bswap64_byte4: "bswap64 (push_bit 32 (ucast (b :: u8))) = push_bit 40 (ucast b)"
  unfolding bswap64_def byte_masks
  by (rule bit_word_eqI) (auto simp: bit_simps dest: bit_imp_le_length)

text \<open>\<^verbatim>\<open>bswap16\<close> and \<^verbatim>\<open>bswap32\<close> put the bytes of a word in the opposite order and undo themselves, and
  splitting a 64-bit value undoes joining its halves. \<^verbatim>\<open>bswap64\<close> does not: it moves the fifth byte up
  by one place instead of down to its mirror.\<close>

theorem byte_order_roundtrips:
  "bytes_reversed 2 (bswap16 v) v \<and> bytes_reversed 4 (bswap32 w) w \<and> bswap16 (bswap16 v) = v \<and>
   bswap32 (bswap32 w) = w \<and> split64to32 (join32to64 w w') = (w, w') \<and>
   (case split64to32 x of (y1, y2) \<Rightarrow> join32to64 y1 y2 = x) \<and>
   bswap64 (push_bit 32 (ucast (b :: u8))) = push_bit 40 (ucast b)"
  using byte_of_bswap join_split(1) [of w w'] join_split(2) [of x]
  by (simp add: bytes_reversed_def bswap_twice bswap64_byte4)

section \<open>Strings in memory\<close>

definition cstr :: "bytes \<Rightarrow> u32 \<Rightarrow> u8 list \<Rightarrow> bool" where
  "cstr m a s \<longleftrightarrow> length s + 1 < 2 ^ 32 \<and> (\<forall>i < length s. s ! i \<noteq> 0 \<and> m (a + of_nat i) = s ! i) \<and>
     m (a + of_nat (length s)) = 0"

lemma cstr_at: "cstr m a s \<Longrightarrow> i \<le> length s \<Longrightarrow> m (a + of_nat i) = (if i < length s then s ! i else 0)"
  by (auto simp: cstr_def)

lemma cstr_nonzero: "cstr m a s \<Longrightarrow> i < length s \<Longrightarrow> m (a + of_nat i) \<noteq> 0"
  by (simp add: cstr_def)

lemma strlen_cstr: "cstr m a s \<Longrightarrow> strlen m a = Some (of_nat (length s))"
proof -
  assume c: "cstr m a s"
  have "i \<le> length s \<Longrightarrow> strlen_from m a (of_nat i) = Some (of_nat (length s))" for i
  proof (induction "length s - i" arbitrary: i)
    case 0
    then show ?case using cstr_at [OF c, of i] by (simp add: strlen_from.simps)
  next
    case (Suc k)
    then have "strlen_from m a (of_nat (Suc i)) = Some (of_nat (length s))" by (intro Suc.hyps(1)) simp_all
    then show ?case using cstr_nonzero [OF c, of i] Suc.hyps(2)
      by (simp add: strlen_from.simps [of m a "of_nat i"] add.commute)
  qed
  from this [of 0] show ?thesis by (simp add: strlen_def)
qed

definition apart_from :: "u32 \<Rightarrow> u32 \<Rightarrow> nat \<Rightarrow> bool" where
  "apart_from dest src n \<longleftrightarrow> (\<forall>i < n. \<forall>j < n. src + of_nat i \<noteq> dest + of_nat j)"

lemma moved_step:
  assumes "i + 1 < 2 ^ 32" and "m' = moved dest src (of_nat i) m"
  shows "m'(dest + of_nat i := m (src + of_nat i)) = moved dest src (of_nat (Suc i)) m"
proof
  fix a
  have u: "unat (of_nat i :: u32) = i" "unat (of_nat (Suc i) :: u32) = Suc i"
    using assms(1) by (simp_all add: unat_of_nat_small del: of_nat_Suc)
  show "(m'(dest + of_nat i := m (src + of_nat i))) a = moved dest src (of_nat (Suc i)) m a"
  proof (cases "a - dest = of_nat i")
    case True
    then have "a = dest + of_nat i" by (simp add: algebra_simps)
    then show ?thesis using u by (simp add: moved_def word_less_nat_alt del: of_nat_Suc)
  next
    case False
    then have "unat (a - dest) \<noteq> i" using u(1) by (auto simp flip: word_unat_eq_iff)
    then have "a - dest < of_nat (Suc i) \<longleftrightarrow> a - dest < of_nat i"
      using u by (auto simp: word_less_nat_alt simp del: of_nat_Suc)
    moreover have "a \<noteq> dest + of_nat i" using False by auto
    ultimately show ?thesis by (simp add: assms(2) moved_def del: of_nat_Suc)
  qed
qed

lemma strcpy_cstr:
  assumes c: "cstr m src s" and ap: "apart_from dest src (length s + 1)"
  shows "strcpy dest src m = Some (moved dest src (of_nat (length s + 1)) m)"
proof -
  let ?m = "\<lambda>i. moved dest src (of_nat i) m"
  have len: "length s + 1 < 2 ^ 32" using c by (simp add: cstr_def)
  have src: "?m i (src + of_nat i) = m (src + of_nat i)" if "i \<le> length s" for i
  proof -
    have "\<not> src + of_nat i - dest < of_nat i"
    proof
      assume l: "src + of_nat i - dest < of_nat i"
      define j where "j = unat (src + of_nat i - dest)"
      have "j < i" using l that len by (simp add: j_def word_less_nat_alt unat_of_nat_small)
      then have "j < length s + 1" "i < length s + 1" using that by simp_all
      moreover have "src + of_nat i = dest + of_nat j" by (simp add: j_def)
      ultimately show False using ap unfolding apart_from_def by blast
    qed
    then show ?thesis by (simp add: moved_def)
  qed
  have run: "i \<le> length s \<Longrightarrow> strcpy_from dest src (of_nat i) (?m i) = Some (?m (length s + 1))" for i
  proof (induction "length s - i" arbitrary: i)
    case 0
    then have "i = length s" by simp
    then show ?case
      using src [of i] cstr_at [OF c, of i] moved_step [of i "?m i" dest src m] len
      by (simp add: strcpy_from.simps)
  next
    case (Suc k)
    then have "strcpy_from dest src (of_nat (Suc i)) (?m (Suc i)) = Some (?m (length s + 1))"
      by (intro Suc.hyps(1)) simp_all
    then show ?case
      using src [of i] cstr_nonzero [OF c, of i] Suc.hyps(2) moved_step [of i "?m i" dest src m] len
      by (simp add: strcpy_from.simps [of dest src "of_nat i"] add.commute)
  qed
  have "?m 0 = m" by (simp add: moved_def)
  then show ?thesis using run [of 0] by (simp add: strcpy_def)
qed

lemma moved_cstr:
  assumes "cstr m src s"
  shows "cstr (moved dest src (of_nat (length s + 1)) m) dest s"
proof -
  have len: "length s + 1 < 2 ^ 32" using assms by (simp add: cstr_def)
  have "moved dest src (of_nat (length s + 1)) m (dest + of_nat i) = m (src + of_nat i)" if "i \<le> length s" for i
    using that len by (simp add: moved_def word_less_nat_alt unat_of_nat_small del: of_nat_Suc of_nat_add)
  then show ?thesis using assms by (auto simp: cstr_def)
qed

lemma strcmp_cstr:
  assumes a: "cstr m a s" and b: "cstr m b t"
  shows "\<exists>r. strcmp m a b = Some r \<and> (r = 0 \<longleftrightarrow> s = t)"
proof -
  define P where "P i \<longleftrightarrow> i \<le> length s \<and> i \<le> length t \<and> take i s = take i t" for i
  have stop: "\<exists>k. strcmp_from m a b (of_nat i) = Some (of_nat k) \<and> P k \<and>
      (k = length s \<or> m (a + of_nat k) \<noteq> m (b + of_nat k))" if "P i" for i
    using that
  proof (induction "length s - i" arbitrary: i)
    case 0
    have "i \<le> length s" using "0.prems" unfolding P_def by blast
    then have i: "i = length s" using "0.hyps" by linarith
    then have "strcmp_from m a b (of_nat i) = Some (of_nat i)"
      using cstr_at [OF a, of i] by (subst strcmp_from.simps) simp
    then show ?case using i "0.prems" by blast
  next
    case (Suc k)
    then have i: "i < length s" "i \<le> length t" "take i s = take i t" by (simp_all add: P_def)
    show ?case
    proof (cases "m (a + of_nat i) = m (b + of_nat i)")
      case True
      then have "m (b + of_nat i) \<noteq> 0" using cstr_nonzero [OF a i(1)] by simp
      then have it: "i < length t" using cstr_at [OF b i(2)] by (auto split: if_splits)
      have "s ! i = t ! i" using True cstr_at [OF a, of i] cstr_at [OF b, of i] i(1) it by simp
      then have p: "P (Suc i)" using i it by (simp add: P_def take_Suc_conv_app_nth)
      have "k = length s - Suc i" using Suc.hyps(2) by linarith
      then obtain j where "strcmp_from m a b (of_nat (Suc i)) = Some (of_nat j)" "P j"
        "j = length s \<or> m (a + of_nat j) \<noteq> m (b + of_nat j)"
        using Suc.hyps(1) [OF _ p] by blast
      then show ?thesis using True cstr_nonzero [OF a i(1)]
        by (auto simp: strcmp_from.simps [of m a b "of_nat i"] add.commute)
    next
      case False
      then have "strcmp_from m a b (of_nat i) = Some (of_nat i)"
        by (simp add: strcmp_from.simps [of m a b "of_nat i"])
      then show ?thesis using False Suc.prems by blast
    qed
  qed
  obtain k where k: "strcmp_from m a b 0 = Some (of_nat k)" "P k" "k = length s \<or> m (a + of_nat k) \<noteq> m (b + of_nat k)"
    using stop [of 0] by (auto simp: P_def)
  have "m (a + of_nat k) = m (b + of_nat k) \<longleftrightarrow> s = t"
  proof
    assume e: "m (a + of_nat k) = m (b + of_nat k)"
    then have ks: "k = length s" using k(3) by blast
    then have "m (b + of_nat k) = 0" using e cstr_at [OF a, of k] by simp
    then have "k = length t" using cstr_nonzero [OF b, of k] k(2) by (auto simp: P_def le_less)
    then show "s = t" using k(2) ks by (simp add: P_def)
  next
    assume "s = t"
    then show "m (a + of_nat k) = m (b + of_nat k)" using cstr_at [OF a, of k] cstr_at [OF b, of k] k(2) by (simp add: P_def)
  qed
  then show ?thesis using k(1) by (auto simp: strcmp_def)
qed

lemma strcat_cstr:
  assumes d: "cstr m dest t" and c: "cstr m src s"
    and ap: "apart_from (dest + of_nat (length t)) src (length s + 1)" and len: "length t + length s + 1 < 2 ^ 32"
  shows "\<exists>m'. strcat dest src m = Some m' \<and> cstr m' dest (t @ s)"
proof -
  let ?d = "dest + of_nat (length t)" let ?n = "of_nat (length s + 1) :: u32"
  let ?m = "moved ?d src ?n m"
  have new: "cstr ?m ?d s" by (rule moved_cstr [OF c])
  have old: "?m (dest + of_nat i) = m (dest + of_nat i)" if "i < length t" for i
  proof -
    have "\<not> dest + of_nat i - ?d < ?n"
    proof
      assume l: "dest + of_nat i - ?d < ?n"
      define j where "j = unat (dest + of_nat i - ?d)"
      have j: "j < length s + 1"
        using l len by (simp add: j_def word_less_nat_alt unat_of_nat_small del: of_nat_Suc of_nat_add)
      have "(of_nat i :: u32) = of_nat (length t + j)" by (simp add: j_def)
      then have "unat (of_nat i :: u32) = unat (of_nat (length t + j) :: u32)" by (rule arg_cong)
      then have "i = length t + j"
        using that j len unat_of_nat_small [of i] unat_of_nat_small [of "length t + j"] by linarith
      then show False using that by simp
    qed
    then show ?thesis by (simp add: moved_def)
  qed
  have "?m (dest + of_nat (length t + j)) = (if j < length s then s ! j else 0)" if "j \<le> length s" for j
    using cstr_at [OF new that] by (simp add: add.assoc)
  then have tail: "?m (dest + of_nat i) = (if i < length t + length s then s ! (i - length t) else 0)"
    if "length t \<le> i" "i \<le> length t + length s" for i
    using that by (metis add_diff_cancel_left' add_less_cancel_left le_add_diff_inverse nat_add_left_cancel_le)
  have "cstr ?m dest (t @ s)"
    unfolding cstr_def
    using old tail c d len by (auto simp: nth_append cstr_def simp del: of_nat_add)
  then show ?thesis using strlen_cstr [OF d] strcpy_cstr [OF c ap] by (simp add: strcat_def)
qed

text \<open>On null-terminated strings the string loops end and do what they say: \<^verbatim>\<open>strlen\<close> gives the
  length, \<^verbatim>\<open>strcmp\<close> tells equal strings from different ones, and \<^verbatim>\<open>strcpy\<close> and \<^verbatim>\<open>strcat\<close> to a place
  apart from the source leave the copied and the joined string there, \<^verbatim>\<open>strcpy\<close> writing nothing else.\<close>

theorem string_loops_end:
  "cstr m src s \<Longrightarrow> cstr m dest t \<Longrightarrow> length t + length s + 1 < 2 ^ 32 \<Longrightarrow>
   apart_from dest src (length s + 1) \<Longrightarrow> apart_from (dest + of_nat (length t)) src (length s + 1) \<Longrightarrow>
   strlen m src = Some (of_nat (length s)) \<and> (\<exists>r. strcmp m src dest = Some r \<and> (r = 0 \<longleftrightarrow> s = t)) \<and>
   (\<exists>m'. strcpy dest src m = Some m' \<and> cstr m' dest s \<and>
      (\<forall>a. \<not> a - dest < of_nat (length s + 1) \<longrightarrow> m' a = m a)) \<and>
   (\<exists>m'. strcat dest src m = Some m' \<and> cstr m' dest (t @ s))"
  using strlen_cstr strcmp_cstr [of m src s dest t] strcpy_cstr moved_cstr strcat_cstr [of m dest t src s]
  by (simp add: moved_def)

definition hi_memory :: bytes where
  "hi_memory = (\<lambda>_. 0)(0x1000 := 104, 0x1001 := 105, 0x2000 := 111)"

lemma hi_strings: "cstr hi_memory 0x1000 [104, 105]" "cstr hi_memory 0x2000 [111]"
  by (simp_all add: cstr_def hi_memory_def All_less_Suc)

lemma hi_apart: "apart_from 0x2000 0x1000 (Suc (Suc (Suc 0)))" "apart_from 0x2001 0x1000 (Suc (Suc (Suc 0)))"
  unfolding apart_from_def by (simp_all add: All_less_Suc)

theorem string_loops_end_witness:
  "strlen hi_memory 0x1000 = Some 2 \<and> (\<exists>m'. strcat 0x2000 0x1000 hi_memory = Some m' \<and>
     cstr m' 0x2000 [111, 104, 105])"
  using string_loops_end [OF hi_strings] hi_apart by simp

section \<open>Time arithmetic\<close>

definition normal_time :: "timespec \<Rightarrow> bool" where
  "normal_time t \<longleftrightarrow> 0 \<le> sint (tv_nsec t) \<and> sint (tv_nsec t) < 1000000000"

lemma sint_small_add:
  fixes x y :: "32 word"
  assumes "- (2 ^ 31) \<le> sint x + sint y" and "sint x + sint y < 2 ^ 31"
  shows "sint (x + y) = sint x + sint y"
  using assms by (simp add: sint_word_ariths signed_take_bit_int_eq_self)

lemma sint_small_sub:
  fixes x y :: "32 word"
  assumes "- (2 ^ 31) \<le> sint x - sint y" and "sint x - sint y < 2 ^ 31"
  shows "sint (x - y) = sint x - sint y"
  using assms by (simp add: sint_word_ariths signed_take_bit_int_eq_self)

lemma time_roundtrip:
  assumes "normal_time a" and "normal_time b"
  shows "normal_time (timespec_add a b)" and "timespec_sub (timespec_add a b) b = a"
proof -
  have s: "sint (tv_nsec a + tv_nsec b) = sint (tv_nsec a) + sint (tv_nsec b)"
    by (rule sint_small_add) (use assms in \<open>simp_all add: normal_time_def\<close>)
  have d: "sint (tv_nsec a + tv_nsec b - 1000000000) = sint (tv_nsec a) + sint (tv_nsec b) - 1000000000"
    using sint_small_sub [of "tv_nsec a + tv_nsec b" 1000000000] assms s by (simp add: normal_time_def)
  show "normal_time (timespec_add a b)"
    using assms s d by (auto simp: normal_time_def timespec_add_def Let_def)
  show "timespec_sub (timespec_add a b) b = a"
    using assms s d by (auto simp: normal_time_def timespec_add_def timespec_sub_def Let_def)
qed

end
