(* ===== verification/Syscall.thy ===== *)
theory Syscall
  imports Fork Klib
begin

text \<open>
  The way in and out of the kernel: the system call dispatcher of \<^verbatim>\<open>kern/arch/mips/syscall/syscall.c\<close>,
  \<^verbatim>\<open>sys___time\<close> and \<^verbatim>\<open>sys_reboot\<close>. Registers are those of the trapframe. What the hardware and
  \<^verbatim>\<open>kmalloc\<close> give a call, and the addresses of its local variables, come in a \<open>call_env\<close>.

  A call comes back with its trapframe, goes to sleep, ends the thread, stops the machine, or goes on in
  \<^verbatim>\<open>sys_execv\<close>, which is not modelled.
\<close>

abbreviation (input) SYS_fork :: u32 where "SYS_fork \<equiv> 0"
abbreviation (input) SYS_execv :: u32 where "SYS_execv \<equiv> 2"
abbreviation (input) SYS__exit :: u32 where "SYS__exit \<equiv> 3"
abbreviation (input) SYS_waitpid :: u32 where "SYS_waitpid \<equiv> 4"
abbreviation (input) SYS_getpid :: u32 where "SYS_getpid \<equiv> 5"
abbreviation (input) SYS_open :: u32 where "SYS_open \<equiv> 45"
abbreviation (input) SYS_dup2 :: u32 where "SYS_dup2 \<equiv> 48"
abbreviation (input) SYS_close :: u32 where "SYS_close \<equiv> 49"
abbreviation (input) SYS_read :: u32 where "SYS_read \<equiv> 50"
abbreviation (input) SYS_write :: u32 where "SYS_write \<equiv> 55"
abbreviation (input) SYS_lseek :: u32 where "SYS_lseek \<equiv> 59"
abbreviation (input) SYS_chdir :: u32 where "SYS_chdir \<equiv> 74"
abbreviation (input) SYS___getcwd :: u32 where "SYS___getcwd \<equiv> 76"
abbreviation (input) SYS___time :: u32 where "SYS___time \<equiv> 113"
abbreviation (input) SYS_reboot :: u32 where "SYS_reboot \<equiv> 119"

text \<open>\<open>ce_local\<close> is the address of a local variable of the call, \<open>ce_kbuf\<close> and \<open>ce_kaddr\<close> those of
  its path buffers.\<close>

record call_env =
  ce_idle :: "ksys \<Rightarrow> ksys option"
  ce_prot :: prot
  ce_kproc :: nat
  ce_mem :: bool
  ce_file :: "nat option"
  ce_lock :: bool
  ce_kbuf :: u32
  ce_kaddr :: "string \<Rightarrow> u32"
  ce_fork :: fork_alloc
  ce_local :: u32
  ce_now :: "u64 \<times> u32"

section \<open>Time\<close>

definition put_word :: "u32 \<Rightarrow> u32 \<Rightarrow> bytes \<Rightarrow> bytes" where
  "put_word a w m = m(a := ucast (drop_bit 24 w), a + 1 := ucast (drop_bit 16 w), a + 2 := ucast (drop_bit 8 w),
     a + 3 := ucast w)"

text \<open>The local \<^verbatim>\<open>struct timespec\<close> stands at \<open>ts\<close>: eight bytes of seconds, then four of nanoseconds.\<close>

definition sys___time :: "prot \<Rightarrow> u64 \<times> u32 \<Rightarrow> u32 \<Rightarrow> u32 \<Rightarrow> u32 \<Rightarrow> ('f vfs, unit) op" where
  "sys___time p now ts user_seconds user_nanoseconds =
     chain (modify (\<lambda>s. s\<lparr>user := (user s)\<lparr>bytes_of :=
       put_word (ts + 8) (snd now) (put_word (ts + 4) (snd (split64to32 (fst now)))
         (put_word ts (fst (split64to32 (fst now))) (bytes_of (user s))))\<rparr>\<rparr>)) (\<lambda>_.
     chain (on_user (copyout p ts user_seconds 8)) (\<lambda>_.
     chain (on_user (copyout p (ts + 8) user_nanoseconds 4)) (\<lambda>_. succeed ())))"

section \<open>Reboot\<close>

text \<open>None at the end of \<open>sys_reboot\<close>: the machine has stopped, or the kernel in a panic.\<close>

definition shutdown :: "'f fsops \<Rightarrow> 'f psys \<Rightarrow> 'f psys option" where
  "shutdown F s = do {
     (r, s) \<leftarrow> on_files (on_vfs (vfs_clearbootfs F)) s;
     (r, s) \<leftarrow> on_files (on_vfs (vfs_clearcurdir F)) s;
     (r, s) \<leftarrow> on_files (on_vfs (vfs_unmountall F)) s;
     b \<leftarrow> thread_shutdown (base (sync s));
     (spl, v) \<leftarrow> splhigh (view b);
     Some (s\<lparr>sync := (sync s)\<lparr>base := b\<lparr>view := v\<rparr>\<rparr>\<rparr>)
   }"

datatype call_end =
  Gives "errno + u32"
| Gives_pair u32 u32
| Sleeps nat int
| Thread_over
| Machine_stops u32
| Enters_execv u32 u32

definition sys_reboot :: "'f fsops \<Rightarrow> u32 \<Rightarrow> 'f psys \<Rightarrow> (call_end \<times> 'f psys) option" where
  "sys_reboot F code s =
    (if code \<notin> {0, 1, 2} then Some (Gives (Inl EINVAL), s)
     else do { s \<leftarrow> shutdown F s; Some (Machine_stops code, s) })"

section \<open>The dispatcher\<close>

text \<open>A call of the file layer by the current process: its file table, which must be there, and the name of
  its address space.\<close>

definition file_call ::
  "(nat \<Rightarrow> nat option \<Rightarrow> ('f kfs, 'a) op) \<Rightarrow> ('a \<Rightarrow> u32) \<Rightarrow> 'f psys \<Rightarrow> (call_end \<times> 'f psys) option" where
  "file_call f value_of s = do {
     cur \<leftarrow> curproc s;
     c \<leftarrow> procs s cur;
     ft \<leftarrow> p_filetable c;
     (r, s) \<leftarrow> on_files (f ft (map_option (\<lambda>_. cur) (p_addrspace c))) s;
     Some (Gives (map_sum id value_of r), s)
   }"

text \<open>A call of the VFS, which needs no file table.\<close>

definition vfs_call ::
  "(nat option \<Rightarrow> ('f vfs, 'a) op) \<Rightarrow> ('a \<Rightarrow> u32) \<Rightarrow> 'f psys \<Rightarrow> (call_end \<times> 'f psys) option" where
  "vfs_call f value_of s = do {
     cur \<leftarrow> curproc s;
     c \<leftarrow> procs s cur;
     (r, s) \<leftarrow> on_files (on_vfs (f (map_option (\<lambda>_. cur) (p_addrspace c)))) s;
     Some (Gives (map_sum id value_of r), s)
   }"

definition lseek_call :: "'f fsops \<Rightarrow> call_env \<Rightarrow> trapframe \<Rightarrow> 'f psys \<Rightarrow> (call_end \<times> 'f psys) option" where
  "lseek_call F e tf s = do {
     cur \<leftarrow> curproc s;
     c \<leftarrow> procs s cur;
     (r, s) \<leftarrow> on_files (on_vfs (on_user (copyin (ce_prot e) (tf_sp tf + 16) (ce_local e) 4))) s;
     (case r of
        Inl err \<Rightarrow> Some (Gives (Inl err), s)
      | Inr _ \<Rightarrow> do {
          ft \<leftarrow> p_filetable c;
          (r, s) \<leftarrow> on_files (sys_lseek F ft (sint (tf_a0 tf)) (join32to64 (tf_a2 tf) (tf_a3 tf))
                     (sint (word_at (ce_local e) (kernel_bytes s)))) s;
          (case r of
             Inl err \<Rightarrow> Some (Gives (Inl err), s)
           | Inr pos \<Rightarrow> Some (Gives_pair (fst (split64to32 pos)) (snd (split64to32 pos)), s))
        })
   }"

definition process_call :: "((errno + int) \<times> 'f psys) option \<Rightarrow> (call_end \<times> 'f psys) option" where
  "process_call x = do { (r, s) \<leftarrow> x; Some (Gives (map_sum id of_int r), s) }"

definition waitpid_call :: "(wait_result \<times> 'f psys) option \<Rightarrow> (call_end \<times> 'f psys) option" where
  "waitpid_call x = do {
     (r, s) \<leftarrow> x;
     (case r of
        Returned None \<Rightarrow> Some (Gives (Inr 0), s)
      | Returned (Some err) \<Rightarrow> Some (Gives (Inl err), s)
      | Asleep t spl \<Rightarrow> Some (Sleeps t spl, s))
   }"

text \<open>The \<^verbatim>\<open>switch\<close> of \<^verbatim>\<open>syscall\<close>.\<close>

definition syscall_switch :: "'f fsops \<Rightarrow> call_env \<Rightarrow> trapframe \<Rightarrow> 'f psys \<Rightarrow> (call_end \<times> 'f psys) option" where
  "syscall_switch F e tf s = (let callno = tf_v0 tf; p = ce_prot e in
     if callno = SYS_reboot then sys_reboot F (tf_a0 tf) s
     else if callno = SYS___time then
       vfs_call (\<lambda>as. sys___time p (ce_now e) (ce_local e) (tf_a0 tf) (tf_a1 tf)) (\<lambda>_. 0) s
     else if callno = SYS_open then
       file_call (\<lambda>ft as. sys_open F p (ce_mem e) (ce_file e) (ce_lock e) ft (ce_kbuf e) (tf_a0 tf) (tf_a1 tf) (tf_a2 tf))
         of_int s
     else if callno = SYS_dup2 then
       file_call (\<lambda>ft as. sys_dup2 F ft (sint (tf_a0 tf)) (sint (tf_a1 tf))) of_int s
     else if callno = SYS_close then file_call (\<lambda>ft as. sys_close F ft (sint (tf_a0 tf))) (\<lambda>_. 0) s
     else if callno = SYS_read then
       file_call (\<lambda>ft as. sys_read F as ft (sint (tf_a0 tf)) (tf_a1 tf) (tf_a2 tf)) id s
     else if callno = SYS_write then
       file_call (\<lambda>ft as. sys_write F as ft (sint (tf_a0 tf)) (tf_a1 tf) (tf_a2 tf)) id s
     else if callno = SYS_lseek then lseek_call F e tf s
     else if callno = SYS_chdir then vfs_call (\<lambda>as. sys_chdir F p (ce_mem e) (ce_kbuf e) (tf_a0 tf)) (\<lambda>_. 0) s
     else if callno = SYS___getcwd then
       vfs_call (\<lambda>as. sys___getcwd F p as (ce_kaddr e) (tf_a0 tf) (tf_a1 tf)) id s
     else if callno = SYS_fork then process_call (sys_fork F (ce_kproc e) p (ce_fork e) tf s)
     else if callno = SYS_getpid then process_call (sys_getpid s)
     else if callno = SYS__exit then do { s \<leftarrow> sys_exit (ce_idle e) (tf_a0 tf) s; Some (Thread_over, s) }
     else if callno = SYS_waitpid then
       waitpid_call (sys_waitpid (ce_idle e) p (sint (tf_a0 tf)) (tf_a1 tf) (sint (tf_a2 tf)) s)
     else if callno = SYS_execv then Some (Enters_execv (tf_a0 tf) (tf_a1 tf), s)
     else Some (Gives (Inl ENOSYS), s))"

text \<open>The registers at the end of \<^verbatim>\<open>syscall\<close>: \<^verbatim>\<open>v0\<close> and \<^verbatim>\<open>a3\<close> hold the result, and the program goes on
  after the \<^verbatim>\<open>syscall\<close> instruction.\<close>

definition syscall_result :: "call_end \<Rightarrow> trapframe \<Rightarrow> trapframe option" where
  "syscall_result r tf =
    (case r of
       Gives (Inl e) \<Rightarrow> Some (tf\<lparr>tf_v0 := of_nat (errno_code e), tf_a3 := 1, tf_epc := tf_epc tf + 4\<rparr>)
     | Gives (Inr v) \<Rightarrow> Some (tf\<lparr>tf_v0 := v, tf_a3 := 0, tf_epc := tf_epc tf + 4\<rparr>)
     | Gives_pair v0 v1 \<Rightarrow> Some (tf\<lparr>tf_v0 := v0, tf_v1 := v1, tf_a3 := 0, tf_epc := tf_epc tf + 4\<rparr>)
     | _ \<Rightarrow> None)"

definition at_spl0 :: "'f psys \<Rightarrow> bool" where
  "at_spl0 s \<longleftrightarrow> t_curspl (view (base (sync s))) = 0 \<and> t_iplhigh_count (view (base (sync s))) = 0"

text \<open>The result: how the call ended, and the trapframe with which the thread goes back to user mode, if it
  does so at once.\<close>

definition syscall ::
  "'f fsops \<Rightarrow> call_env \<Rightarrow> trapframe \<Rightarrow> 'f psys \<Rightarrow> (call_end \<times> trapframe option \<times> 'f psys) option" where
  "syscall F e tf s = do {
     kassert (at_spl0 s);
     (r, s) \<leftarrow> syscall_switch F e tf s;
     kassert (syscall_result r tf \<noteq> None \<longrightarrow> at_spl0 s);
     Some (r, syscall_result r tf, s)
   }"

text \<open>A \<^verbatim>\<open>waitpid\<close> that slept, when its thread runs again.\<close>

definition syscall_resume ::
  "call_env \<Rightarrow> trapframe \<Rightarrow> nat \<Rightarrow> int \<Rightarrow> 'f psys \<Rightarrow> (call_end \<times> trapframe option \<times> 'f psys) option" where
  "syscall_resume e tf t spl s = do {
     (r, s) \<leftarrow> waitpid_call (sys_waitpid_resume (ce_idle e) (ce_prot e) t (tf_a1 tf) spl s);
     kassert (syscall_result r tf \<noteq> None \<longrightarrow> at_spl0 s);
     Some (r, syscall_result r tf, s)
   }"


section \<open>Calls of the file layer\<close>

lemma owes_memory: "owes h b (k\<lparr>vfs_of := (vfs_of k)\<lparr>user := u\<rparr>\<rparr>) = owes h b k"
proof -
  have "loose (v\<lparr>user := u\<rparr>) = loose v" for v :: "'a vfs"
    by (auto intro!: ext simp: loose_def refcount_def held_def)
  then show ?thesis by (simp add: owes_def good_user counted_def cong: option.case_cong)
qed

text \<open>A call that settles the references and keeps the table \<open>ft\<close> of descriptors.\<close>

definition settles :: "nat \<Rightarrow> (nat \<Rightarrow> int) \<Rightarrow> ('f kfs, 'a) op \<Rightarrow> 'f kfs \<Rightarrow> bool" where
  "settles ft bs f s \<longleftrightarrow> wp f (\<lambda>r s'. settled bs s' \<and> live ft s') s"

definition file_process :: "nat \<Rightarrow> (nat \<Rightarrow> int) \<Rightarrow> 'f psys \<Rightarrow> bool" where
  "file_process ft bs s \<longleftrightarrow> (\<exists>cur c. curproc s = Some cur \<and> procs s cur = Some c \<and> p_filetable c = Some ft) \<and>
     settled bs (files s) \<and> live ft (files s) \<and> at_spl0 s"

text \<open>Where a call of the file layer leads: back to the program, with the files alone changed.\<close>

definition back_with :: "nat \<Rightarrow> (nat \<Rightarrow> int) \<Rightarrow> 'f psys \<Rightarrow> (call_end \<times> 'f psys) option \<Rightarrow> bool" where
  "back_with ft bs s x \<longleftrightarrow> (\<exists>r k. x = Some (r, s\<lparr>files := k\<rparr>) \<and> ((\<exists>v. r = Gives v) \<or> (\<exists>v0 v1. r = Gives_pair v0 v1)) \<and>
     settled bs k \<and> live ft k)"

lemma file_call_back:
  assumes "file_process ft bs s" and "\<And>as. settles ft bs (f ft as) (files s)"
  shows "back_with ft bs s (file_call f g s)"
proof -
  obtain cur c where c: "curproc s = Some cur" "procs s cur = Some c" "p_filetable c = Some ft"
    using assms(1) by (auto simp: file_process_def)
  obtain r k where "f ft (map_option (\<lambda>_. cur) (p_addrspace c)) (files s) = Some (r, k)" "settled bs k" "live ft k"
    using assms(2) [of "map_option (\<lambda>_. cur) (p_addrspace c)"] by (auto simp: settles_def wp_def)
  then show ?thesis using c by (auto simp: back_with_def file_call_def on_files_def)
qed

lemma lseek_call_back:
  assumes F: "file_provider F" and p: "file_process ft bs s"
  shows "back_with ft bs s (lseek_call F e tf s)"
proof -
  obtain cur c where c: "curproc s = Some cur" "procs s cur = Some c" "p_filetable c = Some ft"
    and o: "owes none bs (files s)" "live ft (files s)"
    using p by (auto simp: file_process_def settled_def)
  obtain r m where m: "copyin (ce_prot e) (tf_sp tf + 16) (ce_local e) 4 (user (vfs_of (files s))) = (r, m)" by fastforce
  let ?k = "(files s)\<lparr>vfs_of := (vfs_of (files s))\<lparr>user := m\<rparr>\<rparr>"
  have in1: "on_files (on_vfs (on_user (copyin (ce_prot e) (tf_sp tf + 16) (ce_local e) 4))) s = Some (r, s\<lparr>files := ?k\<rparr>)"
    using m by (simp add: on_files_def on_vfs_def on_user_def)
  have o1: "owes none bs ?k" "live ft ?k" using o by (simp_all add: owes_memory live_def)
  show ?thesis
  proof (cases r)
    case (Inl err)
    then show ?thesis using c in1 o1 by (simp add: back_with_def lseek_call_def settled_def) blast
  next
    case (Inr u)
    let ?w = "word_at (ce_local e) (kernel_bytes (s\<lparr>files := ?k\<rparr>))"
    obtain r2 k2 where "sys_lseek F ft (sint (tf_a0 tf)) (join32to64 (tf_a2 tf) (tf_a3 tf)) (sint ?w) ?k = Some (r2, k2)"
      "owes none bs k2" "filetables k2 = filetables ?k"
      using file_provider.lseek_settled [OF F o1, of "sint (tf_a0 tf)" "join32to64 (tf_a2 tf) (tf_a3 tf)" "sint ?w"]
      by (auto simp: wp_def)
    then show ?thesis using c in1 o1 Inr
      by (cases r2) (auto simp: back_with_def lseek_call_def on_files_def settled_def live_def)
  qed
qed



section \<open>Fork, from both sides\<close>


section \<open>Witnesses\<close>

text \<open>A call from a program of which only the registers matter.\<close>

definition sample_env :: call_env where
  "sample_env = \<lparr>ce_idle = (\<lambda>_. None), ce_prot = whole_prot, ce_kproc = 9, ce_mem = True, ce_file = Some 6, ce_lock = True,
     ce_kbuf = 0x80002000, ce_kaddr = (\<lambda>_. 0x80003000), ce_fork = sample_fork_alloc, ce_local = 0x80001000,
     ce_now = (0, 0)\<rparr>"

definition sample_tf :: "u32 \<Rightarrow> u32 \<Rightarrow> trapframe" where
  "sample_tf v0 a0 = \<lparr>tf_vaddr = 0, tf_status = 8, tf_cause = 32, tf_v0 = v0, tf_v1 = 0, tf_a0 = a0, tf_a1 = 0x1000, tf_a2 = 0, tf_a3 = 0, tf_sp = 0x7fff0000,
     tf_epc = 0x400100, tf_others = []\<rparr>"




end
