(* ===== verification/Trap.thy ===== *)
theory Trap
  imports Syscall
begin

text \<open>
  Exceptions: \<^verbatim>\<open>kern/arch/mips/locore/trap.c\<close>. The trapframe holds what the assembly code in front
  of \<^verbatim>\<open>mips_trap\<close> saved; the processor has turned interrupts off. That the trapframe lies on the
  thread's stack is not modelled. \<open>irq\<close> is the device interrupt handler, \<open>junk\<close> and \<open>slot\<close> are those
  of \<open>vm_fault\<close>, \<open>copyfail\<close> is the address that copyin and its relatives leave for faults.
\<close>

abbreviation (input) EX_IRQ :: u32 where "EX_IRQ \<equiv> 0"
abbreviation (input) EX_MOD :: u32 where "EX_MOD \<equiv> 1"
abbreviation (input) EX_TLBL :: u32 where "EX_TLBL \<equiv> 2"
abbreviation (input) EX_TLBS :: u32 where "EX_TLBS \<equiv> 3"
abbreviation (input) EX_IBE :: u32 where "EX_IBE \<equiv> 6"
abbreviation (input) EX_DBE :: u32 where "EX_DBE \<equiv> 7"
abbreviation (input) EX_SYS :: u32 where "EX_SYS \<equiv> 8"
abbreviation (input) NTRAPCODES :: u32 where "NTRAPCODES \<equiv> 13"

definition on_view :: "(cpu_view \<Rightarrow> cpu_view) \<Rightarrow> 'f psys \<Rightarrow> 'f psys" where
  "on_view f s = s\<lparr>sync := (sync s)\<lparr>base := (base (sync s))\<lparr>view := f (view (base (sync s)))\<rparr>\<rparr>\<rparr>"

definition set_in_interrupt :: "bool \<Rightarrow> 'f psys \<Rightarrow> 'f psys option" where
  "set_in_interrupt x s = do {
     b \<leftarrow> upd_thread (curthread (base (sync s))) (\<lambda>th. th\<lparr>t_in_interrupt := x\<rparr>) (base (sync s));
     Some (s\<lparr>sync := (sync s)\<lparr>base := b\<rparr>\<rparr>)
   }"

text \<open>A device interrupt.\<close>

definition trap_interrupt :: "('f psys \<Rightarrow> 'f psys option) \<Rightarrow> 'f psys \<Rightarrow> 'f psys option" where
  "trap_interrupt irq s = do {
     th \<leftarrow> threads (base (sync s)) (curthread (base (sync s)));
     s \<leftarrow> set_in_interrupt True s;
     let doadjust = (t_curspl (view (base (sync s))) = 0);
     s \<leftarrow> (if doadjust then do {
             kassert (t_iplhigh_count (view (base (sync s))) = 0);
             Some (on_view (\<lambda>v. v\<lparr>t_curspl := IPL_HIGH, t_iplhigh_count := t_iplhigh_count v + 1\<rparr>) s)
           }
           else Some s);
     s \<leftarrow> irq s;
     s \<leftarrow> (if doadjust then do {
             kassert (t_curspl (view (base (sync s))) = IPL_HIGH);
             kassert (t_iplhigh_count (view (base (sync s))) = 1);
             Some (on_view (\<lambda>v. v\<lparr>t_iplhigh_count := t_iplhigh_count v - 1, t_curspl := 0\<rparr>) s)
           }
           else Some s);
     set_in_interrupt (t_in_interrupt th) s
   }"

definition kill_curthread :: "(ksys \<Rightarrow> ksys option) \<Rightarrow> u32 \<Rightarrow> 'f psys \<Rightarrow> 'f psys option" where
  "kill_curthread idle code s = do {
     kassert (code < NTRAPCODES);
     kassert (code \<notin> {EX_IRQ, EX_IBE, EX_DBE, EX_SYS});
     sys_exit idle code s
   }"

text \<open>The call of \<open>vm_fault\<close> for the code; None inside where there is no call. None: a bus error.\<close>

definition trap_fault :: "u32 \<Rightarrow> nat \<Rightarrow> u32 \<Rightarrow> trapframe \<Rightarrow> tlb \<Rightarrow> 'f psys \<Rightarrow> ((errno + unit) option \<times> tlb) option" where
  "trap_fault junk slot code tf t s =
    (let cur = do { p \<leftarrow> curproc s; pr \<leftarrow> procs s p; Some (p_addrspace pr) };
         fault = (\<lambda>ft. do { (r, t) \<leftarrow> vm_fault junk slot cur ft (tf_vaddr tf) t; Some (Some r, t) }) in
     if code = EX_MOD then fault VM_FAULT_READONLY
     else if code = EX_TLBL then fault VM_FAULT_READ
     else if code = EX_TLBS then fault VM_FAULT_WRITE
     else if code = EX_IBE \<or> code = EX_DBE then None
     else Some (None, t))"

text \<open>How a trap ends: back to where it came from with a trapframe, or as \<open>syscall\<close> and \<open>sys_exit\<close> end when
  they do not return.\<close>

datatype trap_end = Back trapframe | Not_back call_end

definition trap_done :: "trap_end \<Rightarrow> tlb \<Rightarrow> 'f psys \<Rightarrow> (trap_end \<times> tlb \<times> 'f psys) option" where
  "trap_done r t s = Some (r, t, case r of Back tf \<Rightarrow> on_view (\<lambda>v. v\<lparr>irq_on := False\<rparr>) s | Not_back _ \<Rightarrow> s)"

definition mips_trap ::
  "'f fsops \<Rightarrow> call_env \<Rightarrow> ('f psys \<Rightarrow> 'f psys option) \<Rightarrow> u32 \<Rightarrow> u32 \<Rightarrow> nat \<Rightarrow> trapframe \<Rightarrow> tlb \<Rightarrow> 'f psys \<Rightarrow>
    (trap_end \<times> tlb \<times> 'f psys) option" where
  "mips_trap F e irq copyfail junk slot tf t s =
    (let code = drop_bit 2 (tf_cause tf AND 0x3c); iskern = (tf_status tf AND 8 = 0) in do {
       kassert (code < NTRAPCODES);
       if code = EX_IRQ then do { s \<leftarrow> trap_interrupt irq s; Some (Back tf, t, s) }
       else do {
         (spl, v) \<leftarrow> splhigh (view (base (sync s)));
         (old, v) \<leftarrow> splx spl v;
         let s = on_view (\<lambda>_. v) s;
         if code = EX_SYS then do {
           kassert (at_spl0 s);
           (r, tf1, s) \<leftarrow> syscall F e tf s;
           trap_done (case tf1 of Some tf1 \<Rightarrow> Back tf1 | None \<Rightarrow> Not_back r) t s
         }
         else do {
           (r, t) \<leftarrow> trap_fault junk slot code tf t s;
           if r = Some (Inr ()) then trap_done (Back tf) t s
           else if \<not> iskern then do {
             s \<leftarrow> kill_curthread (ce_idle e) code s;
             trap_done (Not_back Thread_over) t s
           }
           else do {
             kassert (badfault (user (vfs_of (files s))));
             trap_done (Back (tf\<lparr>tf_epc := copyfail\<rparr>)) t s
           }
         }
       }
     })"

text \<open>Entering user mode for the first time: \<^verbatim>\<open>mips_usermode\<close> turns interrupts off with the level at 0.\<close>

definition mips_usermode :: "'f psys \<Rightarrow> 'f psys option" where
  "mips_usermode s = do {
     (spl, v) \<leftarrow> spl0 (view (base (sync s)));
     Some (on_view (\<lambda>_. v\<lparr>irq_on := False\<rparr>) s)
   }"

definition enter_new_process :: "u32 \<Rightarrow> u32 \<Rightarrow> u32 \<Rightarrow> u32 \<Rightarrow> u32 \<Rightarrow> 'f psys \<Rightarrow> (trapframe \<times> 'f psys) option" where
  "enter_new_process argc argv env stack start s = do {
     s \<leftarrow> mips_usermode s;
     Some (\<lparr>tf_vaddr = 0, tf_status = 0xff00 OR 4 OR 8, tf_cause = 0, tf_v0 = 0, tf_v1 = 0, tf_a0 = argc,
            tf_a1 = argv, tf_a2 = env, tf_a3 = 0, tf_sp = stack, tf_epc = start, tf_others = []\<rparr>, s)
   }"

section \<open>Misses from a program\<close>

text \<open>A thread whose program has just trapped.\<close>

definition in_trap :: "addrspace \<Rightarrow> 'f psys \<Rightarrow> bool" where
  "in_trap as s \<longleftrightarrow> at_spl0 s \<and> cpu_exists (view (base (sync s))) \<and> \<not> irq_on (view (base (sync s))) \<and>
     (\<exists>cur c. curproc s = Some cur \<and> procs s cur = Some c \<and> p_addrspace c = Some as)"

lemma trap_levels:
  assumes "at_spl0 s" and "cpu_exists (view (base (sync s)))" and "\<not> irq_on (view (base (sync s)))"
  shows "splhigh (view (base (sync s))) = Some (0, (view (base (sync s)))\<lparr>t_iplhigh_count := 1, t_curspl := 1\<rparr>)"
    and "splx 0 ((view (base (sync s)))\<lparr>t_iplhigh_count := 1, t_curspl := 1\<rparr>) =
      Some (1, (view (base (sync s)))\<lparr>irq_on := True\<rparr>)"
proof -
  obtain v where v: "v = view (base (sync s))" "t_curspl v = 0" "t_iplhigh_count v = 0" "cpu_exists v" "\<not> irq_on v"
    using assms by (auto simp: at_spl0_def)
  show "splhigh (view (base (sync s))) = Some (0, (view (base (sync s)))\<lparr>t_iplhigh_count := 1, t_curspl := 1\<rparr>)"
    "splx 0 ((view (base (sync s)))\<lparr>t_iplhigh_count := 1, t_curspl := 1\<rparr>) =
      Some (1, (view (base (sync s)))\<lparr>irq_on := True\<rparr>)"
    unfolding v(1) [symmetric] using v(2-5)
    by (cases v, simp add: splhigh_def splx_def splraise_def spllower_def kassert_def)+
qed

lemma on_view_back:
  "\<not> irq_on (view (base (sync s))) \<Longrightarrow>
   on_view (\<lambda>v. v\<lparr>irq_on := False\<rparr>) (on_view (\<lambda>_. (view (base (sync s)))\<lparr>irq_on := True\<rparr>) s) = s"
  by (cases "view (base (sync s))") (simp add: on_view_def)

lemma miss_trap:
  assumes i: "in_trap as s" and c: "drop_bit 2 (tf_cause tf AND 0x3c) = (if w then EX_TLBS else EX_TLBL)"
    and f: "vm_fault junk slot (Some (Some as)) (if w then VM_FAULT_WRITE else VM_FAULT_READ) (tf_vaddr tf) t = Some (Inr (), t1)"
  shows "mips_trap F e irq copyfail junk slot tf t s = Some (Back tf, t1, s)"
proof -
  have lv: "at_spl0 s" "cpu_exists (view (base (sync s)))" "\<not> irq_on (view (base (sync s)))"
    using i by (simp_all add: in_trap_def)
  obtain cur pr where p: "curproc s = Some cur" "procs s cur = Some pr" "p_addrspace pr = Some as"
    using i by (auto simp: in_trap_def)
  let ?s = "on_view (\<lambda>_. (view (base (sync s)))\<lparr>irq_on := True\<rparr>) s"
  have "curproc ?s = Some cur" "procs ?s = procs s" using p(1) by (simp_all add: curproc_def on_view_def)
  then have "trap_fault junk slot (if w then EX_TLBS else EX_TLBL) tf t ?s = Some (Some (Inr ()), t1)"
    using p f by (cases w) (simp_all add: trap_fault_def)
  then show ?thesis
    using trap_levels [OF lv] on_view_back [OF lv(3)] c
    by (cases w) (simp_all add: mips_trap_def Let_def kassert_def trap_done_def)
qed



end
