(* ===== verification/Kmalloc.thy ===== *)
theory Kmalloc
  imports Addrspace
begin

text \<open>
  The kernel heap: \<^verbatim>\<open>kern/vm/kmalloc.c\<close>, built as the source is, without its debugging modes.

  Addresses are numbers, 0 is \<^verbatim>\<open>NULL\<close>, and \<open>hmem\<close> gives the word at an address that is a multiple of
  four; the free lists are in it. A \<^verbatim>\<open>struct pageref\<close> is named by 256 times the number of its page of
  pagerefs plus its index there, and its contents are in \<open>prefs\<close>. The spinlock is left out: between its
  release and its next acquisition, around the calls of \<^verbatim>\<open>alloc_kpages\<close> and \<^verbatim>\<open>free_kpages\<close>, no other
  processor runs here.
\<close>

record pageref =
  next_samesize :: "nat option"
  next_all :: "nat option"
  pageaddr_and_blocktype :: u32
  freelist_offset :: nat
  nfree :: nat

record kheap_root =
  refs_page :: "nat option"
  pagerefs_inuse :: "u32 list"
  numinuse :: nat

record kheap =
  hmem :: "nat \<Rightarrow> nat"
  hcm :: cmap
  prefs :: "nat \<Rightarrow> pageref"
  sizebases :: "nat option list"
  allbase :: "nat option"
  roots :: "kheap_root list"

abbreviation (input) NSIZES :: nat where "NSIZES \<equiv> 8"
abbreviation (input) LARGEST_SUBPAGE_SIZE :: nat where "LARGEST_SUBPAGE_SIZE \<equiv> 2048"
abbreviation (input) INVALID_OFFSET :: nat where "INVALID_OFFSET \<equiv> 0xffff"
abbreviation (input) NPAGEREFS_PER_PAGE :: nat where "NPAGEREFS_PER_PAGE \<equiv> 256"
abbreviation (input) INUSE_WORDS :: nat where "INUSE_WORDS \<equiv> 8"
abbreviation (input) NUM_PAGEREFPAGES :: nat where "NUM_PAGEREFPAGES \<equiv> 16"

definition sizes :: "nat list" where
  "sizes = [16, 32, 64, 128, 256, 512, 1024, 2048]"

definition PR_PAGEADDR :: "pageref \<Rightarrow> nat" where
  "PR_PAGEADDR r = unat (pageaddr_and_blocktype r AND PAGE_FRAME)"

definition PR_BLOCKTYPE :: "pageref \<Rightarrow> nat" where
  "PR_BLOCKTYPE r = unat (pageaddr_and_blocktype r AND NOT PAGE_FRAME)"

definition MKPAB :: "nat \<Rightarrow> nat \<Rightarrow> u32" where
  "MKPAB pa blk = (of_nat pa AND PAGE_FRAME) OR (of_nat blk AND NOT PAGE_FRAME)"

definition upd_ref :: "nat \<Rightarrow> (pageref \<Rightarrow> pageref) \<Rightarrow> kheap \<Rightarrow> kheap" where
  "upd_ref p f h = h\<lparr>prefs := (prefs h)(p := f (prefs h p))\<rparr>"

definition upd_root :: "nat \<Rightarrow> (kheap_root \<Rightarrow> kheap_root) \<Rightarrow> kheap \<Rightarrow> kheap" where
  "upd_root r f h = h\<lparr>roots := (roots h)[r := f (roots h ! r)]\<rparr>"

definition fill_deadbeef :: "nat \<Rightarrow> nat \<Rightarrow> (nat \<Rightarrow> nat) \<Rightarrow> nat \<Rightarrow> nat" where
  "fill_deadbeef ptr n m = fold (\<lambda>i m. m(ptr + 4 * i := 0xdeadbeef)) [0..<n div 4] m"

section \<open>Page references\<close>

text \<open>Setting and clearing the bit of a pageref.\<close>

definition mark_ref :: "nat \<Rightarrow> nat \<Rightarrow> kheap_root \<Rightarrow> kheap_root" where
  "mark_ref i j x = x\<lparr>pagerefs_inuse := (pagerefs_inuse x)[i := pagerefs_inuse x ! i OR push_bit j 1],
     numinuse := numinuse x + 1\<rparr>"

definition unmark_ref :: "nat \<Rightarrow> nat \<Rightarrow> kheap_root \<Rightarrow> kheap_root" where
  "unmark_ref i j x = x\<lparr>pagerefs_inuse := (pagerefs_inuse x)[i := pagerefs_inuse x ! i AND NOT (push_bit j 1)],
     numinuse := numinuse x - 1\<rparr>"

definition allocpagerefpage :: "nat \<Rightarrow> kheap \<Rightarrow> kheap option" where
  "allocpagerefpage r h = do {
     kassert (refs_page (roots h ! r) = None);
     let (c, va) = alloc_kpages 1 (hcm h);
     let h = h\<lparr>hcm := c\<rparr>;
     if va = 0 then Some h
     else do {
       kassert (va mod PAGE_SIZE = 0);
       if refs_page (roots h ! r) \<noteq> None then do { c \<leftarrow> free_kpages va (hcm h); Some (h\<lparr>hcm := c\<rparr>) }
       else Some (upd_root r (\<lambda>x. x\<lparr>refs_page := Some va\<rparr>) h)
     }
   }"

text \<open>The scan of the roots \<open>rs\<close>; a result of None inside is \<^verbatim>\<open>NULL\<close>.\<close>

primrec allocpageref_in :: "nat list \<Rightarrow> kheap \<Rightarrow> (nat option \<times> kheap) option" where
  "allocpageref_in [] h = Some (None, h)"
| "allocpageref_in (r # rs) h =
    (let root = roots h ! r in
     if numinuse root \<ge> NPAGEREFS_PER_PAGE then allocpageref_in rs h
     else (case find_from (\<lambda>i. pagerefs_inuse root ! i \<noteq> 0xffffffff) 0 INUSE_WORDS of
         None \<Rightarrow> allocpageref_in rs h
       | Some i \<Rightarrow> (case find_from (\<lambda>j. pagerefs_inuse root ! i AND push_bit j 1 = 0) 0 32 of
             None \<Rightarrow> None
           | Some j \<Rightarrow> do {
               let h = upd_root r (mark_ref i j) h;
               h \<leftarrow> (if refs_page (roots h ! r) = None then allocpagerefpage r h else Some h);
               Some (if refs_page (roots h ! r) = None then None else Some (256 * r + (i * 32 + j)), h)
             })))"

definition allocpageref :: "kheap \<Rightarrow> (nat option \<times> kheap) option" where
  "allocpageref h = allocpageref_in [0..<NUM_PAGEREFPAGES] h"

primrec freepageref_in :: "nat list \<Rightarrow> nat \<Rightarrow> kheap \<Rightarrow> kheap option" where
  "freepageref_in [] p h = None"
| "freepageref_in (r # rs) p h =
    (if refs_page (roots h ! r) = None then do { kassert (numinuse (roots h ! r) = 0); freepageref_in rs p h }
     else if p div 256 = r then do {
       let i = p mod 256 div 32;
       let j = p mod 256 mod 32;
       kassert (pagerefs_inuse (roots h ! r) ! i AND push_bit j 1 \<noteq> 0);
       kassert (numinuse (roots h ! r) > 0);
       Some (upd_root r (unmark_ref i j) h)
     }
     else freepageref_in rs p h)"

definition freepageref :: "nat \<Rightarrow> kheap \<Rightarrow> kheap option" where
  "freepageref p h = freepageref_in [0..<NUM_PAGEREFPAGES] p h"

text \<open>A pageref comes off both of its lists. \<open>prev\<close> is the pageref whose link the walk has reached, None for
  the base; \<open>lk\<close> reads that link, \<open>st\<close> writes it and \<open>nx\<close> is the link of the pageref to remove.\<close>

partial_function (option) unlink_ref ::
  "(nat option \<Rightarrow> kheap \<Rightarrow> nat option) \<Rightarrow> (nat option \<Rightarrow> nat option \<Rightarrow> kheap \<Rightarrow> kheap) \<Rightarrow> nat \<Rightarrow> nat option \<Rightarrow>
    nat option \<Rightarrow> kheap \<Rightarrow> kheap option" where
  "unlink_ref lk st pr nx prev h =
    (case lk prev h of
       None \<Rightarrow> Some h
     | Some cur \<Rightarrow> if cur = pr then Some (st prev nx h) else unlink_ref lk st pr nx (Some cur) h)"

definition link_same :: "nat \<Rightarrow> nat option \<Rightarrow> kheap \<Rightarrow> nat option" where
  "link_same t prev h = (case prev of None \<Rightarrow> sizebases h ! t | Some q \<Rightarrow> next_samesize (prefs h q))"

definition set_link_same :: "nat \<Rightarrow> nat option \<Rightarrow> nat option \<Rightarrow> kheap \<Rightarrow> kheap" where
  "set_link_same t prev x h = (case prev of
     None \<Rightarrow> h\<lparr>sizebases := (sizebases h)[t := x]\<rparr>
   | Some q \<Rightarrow> upd_ref q (\<lambda>r. r\<lparr>next_samesize := x\<rparr>) h)"

definition link_all :: "nat option \<Rightarrow> kheap \<Rightarrow> nat option" where
  "link_all prev h = (case prev of None \<Rightarrow> allbase h | Some q \<Rightarrow> next_all (prefs h q))"

definition set_link_all :: "nat option \<Rightarrow> nat option \<Rightarrow> kheap \<Rightarrow> kheap" where
  "set_link_all prev x h = (case prev of
     None \<Rightarrow> h\<lparr>allbase := x\<rparr>
   | Some q \<Rightarrow> upd_ref q (\<lambda>r. r\<lparr>next_all := x\<rparr>) h)"

definition remove_lists :: "nat \<Rightarrow> nat \<Rightarrow> kheap \<Rightarrow> kheap option" where
  "remove_lists pr blktype h = do {
     kassert (blktype < NSIZES);
     h \<leftarrow> unlink_ref (link_same blktype) (set_link_same blktype) pr (next_samesize (prefs h pr)) None h;
     unlink_ref link_all set_link_all pr (next_all (prefs h pr)) None h
   }"

section \<open>Blocks of part of a page\<close>

definition blocktype :: "nat \<Rightarrow> nat option" where
  "blocktype clientsz = find_from (\<lambda>i. clientsz \<le> sizes ! i) 0 NSIZES"

text \<open>The search for a page with a free block.\<close>

partial_function (option) scan_same :: "kheap \<Rightarrow> nat \<Rightarrow> nat option \<Rightarrow> nat option option" where
  "scan_same h t start =
    (case start of
       None \<Rightarrow> Some None
     | Some pr \<Rightarrow> do {
         kassert (PR_BLOCKTYPE (prefs h pr) = t);
         if nfree (prefs h pr) > 0 then Some (Some pr) else scan_same h t (next_samesize (prefs h pr))
       })"

text \<open>From the label \<^verbatim>\<open>doalloc\<close>.\<close>

definition doalloc :: "nat \<Rightarrow> kheap \<Rightarrow> (nat \<times> kheap) option" where
  "doalloc pr h = do {
     kassert (freelist_offset (prefs h pr) < PAGE_SIZE);
     let prpage = PR_PAGEADDR (prefs h pr);
     let retptr = prpage + freelist_offset (prefs h pr);
     let fl = hmem h retptr;
     let h = upd_ref pr (\<lambda>r. r\<lparr>nfree := nfree r - 1\<rparr>) h;
     if fl \<noteq> 0 then do {
       kassert (nfree (prefs h pr) > 0);
       kassert (prpage \<le> fl \<and> fl - prpage < PAGE_SIZE);
       Some (retptr, upd_ref pr (\<lambda>r. r\<lparr>freelist_offset := fl - prpage\<rparr>) h)
     }
     else do {
       kassert (nfree (prefs h pr) = 0);
       Some (retptr, upd_ref pr (\<lambda>r. r\<lparr>freelist_offset := INVALID_OFFSET\<rparr>) h)
     }
   }"

text \<open>The free list of a fresh page: each block points to the one before it.\<close>

definition thread_page :: "nat \<Rightarrow> nat \<Rightarrow> nat \<Rightarrow> (nat \<Rightarrow> nat) \<Rightarrow> nat \<Rightarrow> nat" where
  "thread_page fla sz n m = fold (\<lambda>i m. m(fla + i * sz := fla + (i - 1) * sz)) [1..<n] (m(fla := 0))"

definition subpage_kmalloc :: "nat \<Rightarrow> kheap \<Rightarrow> (nat \<times> kheap) option" where
  "subpage_kmalloc sz h = do {
     blktype \<leftarrow> blocktype sz;
     let sz = sizes ! blktype;
     found \<leftarrow> scan_same h blktype (sizebases h ! blktype);
     (case found of
        Some pr \<Rightarrow> doalloc pr h
      | None \<Rightarrow>
          (let (c, prpage) = alloc_kpages 1 (hcm h); h = h\<lparr>hcm := c\<rparr> in
           if prpage = 0 then Some (0, h)
           else do {
             kassert (prpage mod PAGE_SIZE = 0);
             (r, h) \<leftarrow> allocpageref h;
             (case r of
                None \<Rightarrow> do { c \<leftarrow> free_kpages prpage (hcm h); Some (0, h\<lparr>hcm := c\<rparr>) }
              | Some pr \<Rightarrow>
                  (let n = PAGE_SIZE div sz;
                       h = h\<lparr>hmem := thread_page prpage sz n (hmem h)\<rparr>;
                       h = upd_ref pr (\<lambda>x. x\<lparr>next_samesize := sizebases h ! blktype, next_all := allbase h,
                         pageaddr_and_blocktype := MKPAB prpage blktype, freelist_offset := (n - 1) * sz, nfree := n\<rparr>) h
                   in doalloc pr (h\<lparr>sizebases := (sizebases h)[blktype := Some pr], allbase := Some pr\<rparr>)))
           }))
   }"

text \<open>The page that an address is on.\<close>

partial_function (option) scan_all :: "kheap \<Rightarrow> nat \<Rightarrow> nat option \<Rightarrow> nat option option" where
  "scan_all h ptraddr start =
    (case start of
       None \<Rightarrow> Some None
     | Some pr \<Rightarrow> do {
         kassert (PR_BLOCKTYPE (prefs h pr) < NSIZES);
         if PR_PAGEADDR (prefs h pr) \<le> ptraddr \<and> ptraddr < PR_PAGEADDR (prefs h pr) + PAGE_SIZE then Some (Some pr)
         else scan_all h ptraddr (next_all (prefs h pr))
       })"

text \<open>True for the result 0, False for -1.\<close>

definition subpage_kfree :: "nat \<Rightarrow> kheap \<Rightarrow> (bool \<times> kheap) option" where
  "subpage_kfree ptraddr h = do {
     found \<leftarrow> scan_all h ptraddr (allbase h);
     (case found of
        None \<Rightarrow> Some (False, h)
      | Some pr \<Rightarrow>
          (let prpage = PR_PAGEADDR (prefs h pr); blktype = PR_BLOCKTYPE (prefs h pr); offset = ptraddr - prpage in do {
             kassert (offset < PAGE_SIZE \<and> offset mod (sizes ! blktype) = 0);
             let h = h\<lparr>hmem := fill_deadbeef ptraddr (sizes ! blktype) (hmem h)\<rparr>;
             let next = (if freelist_offset (prefs h pr) = INVALID_OFFSET then 0
                         else prpage + freelist_offset (prefs h pr));
             kassert (next \<noteq> ptraddr);
             let h = upd_ref pr (\<lambda>r. r\<lparr>freelist_offset := offset, nfree := nfree r + 1\<rparr>)
                       (h\<lparr>hmem := (hmem h)(ptraddr := next)\<rparr>);
             kassert (nfree (prefs h pr) \<le> PAGE_SIZE div (sizes ! blktype));
             if nfree (prefs h pr) = PAGE_SIZE div (sizes ! blktype) then do {
               h \<leftarrow> remove_lists pr blktype h;
               h \<leftarrow> freepageref pr h;
               c \<leftarrow> free_kpages prpage (hcm h);
               Some (True, h\<lparr>hcm := c\<rparr>)
             }
             else Some (True, h)
           }))
   }"

section \<open>The entry points\<close>

text \<open>The number of pages is computed in 32 bits.\<close>

definition kmalloc :: "nat \<Rightarrow> kheap \<Rightarrow> (nat \<times> kheap) option" where
  "kmalloc sz h =
    (if sz \<ge> LARGEST_SUBPAGE_SIZE then
       (let npages = (sz + PAGE_SIZE - 1) mod 2 ^ 32 div PAGE_SIZE; (c, address) = alloc_kpages npages (hcm h);
            h = h\<lparr>hcm := c\<rparr> in
        if address = 0 then Some (0, h) else do { kassert (address mod PAGE_SIZE = 0); Some (address, h) })
     else subpage_kmalloc sz h)"

definition kfree :: "nat \<Rightarrow> kheap \<Rightarrow> kheap option" where
  "kfree ptr h =
    (if ptr = 0 then Some h
     else do {
       (freed, h) \<leftarrow> subpage_kfree ptr h;
       if freed then Some h
       else do {
         kassert (ptr mod PAGE_SIZE = 0);
         c \<leftarrow> free_kpages ptr (hcm h);
         Some (h\<lparr>hcm := c\<rparr>)
       }
     })"

section \<open>Arithmetic\<close>

lemma MKPAB_parts:
  assumes "pa mod 4096 = 0" and "pa < 2 ^ 32" and "t < 8"
  shows "unat (MKPAB pa t AND PAGE_FRAME) = pa" and "unat (MKPAB pa t AND NOT PAGE_FRAME) = t"
proof -
  have f: "(PAGE_FRAME :: u32) = NOT (mask 12)" by (simp add: mask_eq_exp_minus_1)
  have "pa div 4096 * 4096 = pa" using assms(1) by (metis add.right_neutral div_mult_mod_eq)
  then have "pa = push_bit 12 (pa div 4096)" by (simp add: push_bit_eq_mult)
  then obtain x where p: "(of_nat pa :: u32) = push_bit 12 x" by (metis push_bit_of_nat)
  have "t = take_bit 12 t" using assms(3) by (simp add: take_bit_nat_eq_self)
  then obtain y where y: "(of_nat t :: u32) = take_bit 12 y" by (metis take_bit_of_nat)
  have "MKPAB pa t AND PAGE_FRAME = of_nat pa" unfolding MKPAB_def f p by (rule bit_word_eqI) (auto simp: bit_simps)
  moreover have "MKPAB pa t AND NOT PAGE_FRAME = of_nat t" unfolding MKPAB_def f y by (rule bit_word_eqI) (auto simp: bit_simps)
  ultimately show "unat (MKPAB pa t AND PAGE_FRAME) = pa" "unat (MKPAB pa t AND NOT PAGE_FRAME) = t"
    using assms(2,3) by (simp_all add: unat_of_nat)
qed

lemma sizes_nth: "t < 8 \<Longrightarrow> sizes ! t = 2 ^ (t + 4)"
  by (simp add: sizes_def less_Suc_eq numeral_eq_Suc) auto

lemma sizes_dvd: "t < 8 \<Longrightarrow> sizes ! t dvd 4096"
  unfolding sizes_nth using le_imp_power_dvd [of "t + 4" 12 "2 :: nat"] by simp

lemma sizes_pos: "t < 8 \<Longrightarrow> 16 \<le> sizes ! t \<and> sizes ! t \<le> 2048 \<and> 4 dvd sizes ! t"
proof -
  assume t: "t < 8"
  have "(2 :: nat) ^ 4 \<le> 2 ^ (t + 4)" "(2 :: nat) ^ (t + 4) \<le> 2 ^ 11" using t by (intro power_increasing; simp)+
  moreover have "(2 :: nat) ^ 2 dvd 2 ^ (t + 4)" by (rule le_imp_power_dvd) simp
  ultimately show ?thesis by (simp add: sizes_nth [OF t])
qed

lemma blocktype_fits:
  assumes "sz < 2048"
  obtains t where "blocktype sz = Some t" and "t < 8" and "sz \<le> sizes ! t" and "\<And>i. i < t \<Longrightarrow> sizes ! i < sz"
proof -
  have "sz \<le> sizes ! 7" using assms by (simp add: sizes_def)
  then have "find_from (\<lambda>i. sz \<le> sizes ! i) 0 8 \<noteq> None" unfolding find_from_None by (auto intro!: exI [of _ 7])
  then obtain t where "blocktype sz = Some t" by (auto simp: blocktype_def)
  moreover from this have "t < 8" "sz \<le> sizes ! t" "\<And>i. i < t \<Longrightarrow> sizes ! i < sz"
    by (auto simp: blocktype_def find_from_Some not_le)
  ultimately show ?thesis using that by blast
qed


section \<open>Lists of page references\<close>

primrec pchain :: "(nat \<Rightarrow> nat option) \<Rightarrow> nat option \<Rightarrow> nat list \<Rightarrow> bool" where
  "pchain nx s [] \<longleftrightarrow> s = None"
| "pchain nx s (x # xs) \<longleftrightarrow> s = Some x \<and> pchain nx (nx x) xs"

lemma pchain_cong: "\<forall>x \<in> set xs. nx' x = nx x \<Longrightarrow> pchain nx' s xs = pchain nx s xs"
  by (induction xs arbitrary: s) auto



text \<open>Where a walk along a list of links stands.\<close>

primrec walk :: "(nat option \<Rightarrow> kheap \<Rightarrow> nat option) \<Rightarrow> kheap \<Rightarrow> nat option \<Rightarrow> nat list \<Rightarrow> bool" where
  "walk lk h prev [] \<longleftrightarrow> lk prev h = None"
| "walk lk h prev (x # xs) \<longleftrightarrow> lk prev h = Some x \<and> walk lk h (Some x) xs"

lemma walk_pchain: "\<forall>q. lk (Some q) h = nx q \<Longrightarrow> walk lk h prev xs = pchain nx (lk prev h) xs"
  by (induction xs arbitrary: prev) auto

lemma unlink_ref_walk:
  "walk lk h prev (ys @ pr # zs) \<Longrightarrow> pr \<notin> set ys \<Longrightarrow>
   unlink_ref lk st pr nx prev h = Some (st (if ys = [] then prev else Some (last ys)) nx h)"
  by (induction ys arbitrary: prev) (subst unlink_ref.simps, simp)+

text \<open>A link written over.\<close>

lemma pchain_unlink:
  assumes "pchain nx s (ys @ pr # zs)" and "distinct (ys @ pr # zs)"
  shows "if ys = [] then pchain nx (nx pr) zs else pchain (nx(last ys := nx pr)) s (ys @ zs)"
  using assms
proof (induction ys arbitrary: s)
  case (Cons y ys)
  have d: "distinct (ys @ pr # zs)" "y \<notin> set (ys @ zs)" "y \<noteq> pr" and c: "s = Some y" "pchain nx (nx y) (ys @ pr # zs)"
    using Cons.prems by auto
  show ?case
  proof (cases "ys = []")
    case True
    then have "pchain (nx(y := nx pr)) (nx pr) zs = pchain nx (nx pr) zs" by (intro pchain_cong) (use d in auto)
    then show ?thesis using True c by simp
  next
    case False
    then show ?thesis using Cons.IH [OF c(2) d(1)] d(2) c(1) last_in_set [OF False] by auto
  qed
qed simp

lemma scan_same_chain:
  "pchain (\<lambda>p. next_samesize (prefs h p)) s xs \<Longrightarrow> \<forall>p \<in> set xs. PR_BLOCKTYPE (prefs h p) = t \<Longrightarrow>
   scan_same h t s = Some (find (\<lambda>p. nfree (prefs h p) > 0) xs)"
  by (induction xs arbitrary: s) (subst scan_same.simps, simp add: kassert_def)+

lemma scan_all_chain:
  "pchain (\<lambda>p. next_all (prefs h p)) s xs \<Longrightarrow> \<forall>p \<in> set xs. PR_BLOCKTYPE (prefs h p) < 8 \<Longrightarrow>
   scan_all h a s = Some (find (\<lambda>p. PR_PAGEADDR (prefs h p) \<le> a \<and> a < PR_PAGEADDR (prefs h p) + 4096) xs)"
  by (induction xs arbitrary: s) (subst scan_all.simps, simp add: kassert_def)+

section \<open>Free lists\<close>

text \<open>The offsets in the page at \<open>a\<close> that a chain of words goes through; the last word is 0.\<close>

fun links :: "(nat \<Rightarrow> nat) \<Rightarrow> nat \<Rightarrow> nat list \<Rightarrow> bool" where
  "links m a [] \<longleftrightarrow> True"
| "links m a [x] \<longleftrightarrow> m (a + x) = 0"
| "links m a (x # y # xs) \<longleftrightarrow> m (a + x) = a + y \<and> links m a (y # xs)"

lemma links_cong: "\<forall>x \<in> set xs. m' (a + x) = m (a + x) \<Longrightarrow> links m' a xs = links m a xs"
  by (induction m a xs rule: links.induct) auto

lemma links_Cons: "links m a (x # xs) \<longleftrightarrow> m (a + x) = (case xs of [] \<Rightarrow> 0 | y # _ \<Rightarrow> a + y) \<and> links m a xs"
  by (cases xs) auto

lemma fill_deadbeef_outside:
  "\<not> (a \<le> b \<and> b < a + n) \<Longrightarrow> fill_deadbeef a n m b = m b"
proof -
  assume out: "\<not> (a \<le> b \<and> b < a + n)"
  have "k \<le> n div 4 \<Longrightarrow> fold (\<lambda>i m. m(a + 4 * i := 0xdeadbeef)) [0..<k] m b = m b" for k
    using out by (induction k) auto
  from this [of "n div 4"] show ?thesis by (simp add: fill_deadbeef_def)
qed

lemma thread_page_nth:
  assumes "0 < sz" and "0 < n"
  shows "i < n \<Longrightarrow> thread_page a sz n m (a + i * sz) = (if i = 0 then 0 else a + (i - 1) * sz)"
    and "\<forall>i < n. b \<noteq> a + i * sz \<Longrightarrow> thread_page a sz n m b = m b"
proof -
  let ?f = "\<lambda>k. fold (\<lambda>i m. m(a + i * sz := a + (i - 1) * sz)) [1..<k] (m(a := 0))"
  have "(\<forall>i < k. ?f k (a + i * sz) = (if i = 0 then 0 else a + (i - 1) * sz)) \<and>
      (\<forall>b. (\<forall>i < k. b \<noteq> a + i * sz) \<longrightarrow> ?f k b = m b)" if "0 < k" for k
    using that
  proof (induction k)
    case (Suc k)
    show ?case
    proof (cases "k = 0")
      case False
      then have "?f (Suc k) = (?f k)(a + k * sz := a + (k - 1) * sz)" by simp
      then show ?thesis using Suc.IH False assms(1) by (auto simp: less_Suc_eq)
    qed auto
  qed simp
  from this [OF assms(2)]
  show "i < n \<Longrightarrow> thread_page a sz n m (a + i * sz) = (if i = 0 then 0 else a + (i - 1) * sz)"
    "\<forall>i < n. b \<noteq> a + i * sz \<Longrightarrow> thread_page a sz n m b = m b"
    unfolding thread_page_def by blast+
qed

lemma thread_page_links:
  assumes "0 < sz" and "0 < n"
  shows "links (thread_page a sz n m) a (map (\<lambda>i. i * sz) (rev [0..<n]))"
proof -
  have "k \<le> n \<Longrightarrow> links (thread_page a sz n m) a (map (\<lambda>i. i * sz) (rev [0..<k]))" for k
  proof (induction k)
    case (Suc k)
    have "thread_page a sz n m (a + k * sz) = (if k = 0 then 0 else a + (k - 1) * sz)"
      using thread_page_nth(1) [OF assms, of k] Suc.prems by simp
    then show ?case using Suc by (cases k) (simp_all add: links_Cons)
  qed simp
  then show ?thesis by blast
qed

end
