(* ===== verification/Kheap.thy ===== *)
theory Kheap
  imports Kmalloc
begin

text \<open>
  The invariant of the kernel heap and the proof that an allocation keeps it: the lists of pages, the free list
  of each page, the pages of pagerefs, and the blocks in use.
\<close>

section \<open>The heap\<close>

abbreviation (input) pageaddr :: "kheap \<Rightarrow> nat \<Rightarrow> nat" where "pageaddr h p \<equiv> PR_PAGEADDR (prefs h p)"

definition bsize :: "pageref \<Rightarrow> nat" where
  "bsize r = sizes ! PR_BLOCKTYPE r"

text \<open>A page whose free blocks are those at the offsets \<open>fr\<close>, in the order of its free list.\<close>

definition page_ok :: "(nat \<Rightarrow> nat) \<Rightarrow> pageref \<Rightarrow> nat list \<Rightarrow> bool" where
  "page_ok m r fr \<longleftrightarrow> PR_BLOCKTYPE r < NSIZES \<and> 0 < PR_PAGEADDR r \<and> PR_PAGEADDR r mod PAGE_SIZE = 0 \<and>
     distinct fr \<and> (\<forall>x \<in> set fr. x < PAGE_SIZE \<and> x mod bsize r = 0) \<and> nfree r = length fr \<and>
     freelist_offset r = (case fr of [] \<Rightarrow> INVALID_OFFSET | x # _ \<Rightarrow> x) \<and> links m (PR_PAGEADDR r) fr"

text \<open>The pagerefs \<open>P\<close>, newest first, with the free blocks \<open>fr\<close> of their pages: they are chained together, and once
  more for each size, no page is all free, and the pages are different ones.\<close>

definition heap_lists :: "kheap \<Rightarrow> nat list \<Rightarrow> bool" where
  "heap_lists h P \<longleftrightarrow> distinct P \<and> pchain (\<lambda>p. next_all (prefs h p)) (allbase h) P \<and> length (sizebases h) = NSIZES \<and>
     (\<forall>t < NSIZES. pchain (\<lambda>p. next_samesize (prefs h p)) (sizebases h ! t) (filter (\<lambda>p. PR_BLOCKTYPE (prefs h p) = t) P))"

definition heap_pages :: "kheap \<Rightarrow> nat list \<Rightarrow> (nat \<Rightarrow> nat list) \<Rightarrow> bool" where
  "heap_pages h P fr \<longleftrightarrow> heap_lists h P \<and> (\<forall>p \<in> set P. page_ok (hmem h) (prefs h p) (fr p)) \<and>
     inj_on (pageaddr h) (set P)"

definition heap_ok :: "kheap \<Rightarrow> nat list \<Rightarrow> (nat \<Rightarrow> nat list) \<Rightarrow> bool" where
  "heap_ok h P fr \<longleftrightarrow> heap_pages h P fr \<and> (\<forall>p \<in> set P. length (fr p) < PAGE_SIZE div bsize (prefs h p))"

text \<open>The blocks in use, each with its size.\<close>

definition page_blocks :: "pageref \<Rightarrow> nat list \<Rightarrow> (nat \<times> nat) set" where
  "page_blocks r fr = {(PR_PAGEADDR r + x, bsize r) | x. x < PAGE_SIZE \<and> x mod bsize r = 0 \<and> x \<notin> set fr}"

definition live_blocks :: "kheap \<Rightarrow> nat list \<Rightarrow> (nat \<Rightarrow> nat list) \<Rightarrow> (nat \<times> nat) set" where
  "live_blocks h P fr = (\<Union>p \<in> set P. page_blocks (prefs h p) (fr p))"

definition heap_words_kept :: "(nat \<times> nat) set \<Rightarrow> kheap \<Rightarrow> kheap \<Rightarrow> bool" where
  "heap_words_kept B h h' \<longleftrightarrow> (\<forall>(b, n) \<in> B. \<forall>a. b \<le> a \<and> a < b + n \<longrightarrow> hmem h' a = hmem h a)"

lemma upd_ref_sel [simp]:
  "hmem (upd_ref p f h) = hmem h" "hcm (upd_ref p f h) = hcm h" "sizebases (upd_ref p f h) = sizebases h"
  "allbase (upd_ref p f h) = allbase h" "roots (upd_ref p f h) = roots h"
  "prefs (upd_ref p f h) = (prefs h)(p := f (prefs h p))"
  by (simp_all add: upd_ref_def)

lemma pageref_parts [simp]:
  "PR_PAGEADDR (r\<lparr>nfree := n\<rparr>) = PR_PAGEADDR r" "PR_BLOCKTYPE (r\<lparr>nfree := n\<rparr>) = PR_BLOCKTYPE r"
  "PR_PAGEADDR (r\<lparr>freelist_offset := x\<rparr>) = PR_PAGEADDR r" "PR_BLOCKTYPE (r\<lparr>freelist_offset := x\<rparr>) = PR_BLOCKTYPE r"
  "PR_PAGEADDR (r\<lparr>next_all := s\<rparr>) = PR_PAGEADDR r" "PR_BLOCKTYPE (r\<lparr>next_all := s\<rparr>) = PR_BLOCKTYPE r"
  "PR_PAGEADDR (r\<lparr>next_samesize := s\<rparr>) = PR_PAGEADDR r" "PR_BLOCKTYPE (r\<lparr>next_samesize := s\<rparr>) = PR_BLOCKTYPE r"
  by (simp_all add: PR_PAGEADDR_def PR_BLOCKTYPE_def)

lemma bsize_parts [simp]:
  "bsize (r\<lparr>nfree := n\<rparr>) = bsize r" "bsize (r\<lparr>freelist_offset := x\<rparr>) = bsize r"
  "bsize (r\<lparr>next_all := s\<rparr>) = bsize r" "bsize (r\<lparr>next_samesize := s\<rparr>) = bsize r"
  by (simp_all add: bsize_def)

lemma page_size:
  assumes "page_ok m r fr"
  shows "16 \<le> bsize r" and "bsize r \<le> 2048" and "bsize r dvd 4096"
  using assms sizes_pos sizes_dvd by (auto simp: page_ok_def bsize_def)

text \<open>A block lies on its page.\<close>

lemma block_end:
  assumes "page_ok m r fr" and "x < 4096" and "x mod bsize r = 0"
  shows "x + bsize r \<le> 4096"
proof -
  obtain j where j: "4096 = bsize r * j" using page_size(3) [OF assms(1)] by (metis dvdE)
  obtain k where k: "x = bsize r * k" using assms(3) by (metis dvdE mod_eq_0_iff_dvd)
  have "bsize r * k < bsize r * j" using assms(2) unfolding k j .
  then have "k < j" by simp
  then have "bsize r * (k + 1) \<le> bsize r * j" by (intro mult_le_mono) auto
  then show ?thesis by (simp add: k j)
qed

text \<open>Taking the first free block of a page.\<close>

lemma heap_lists_cong:
  assumes "allbase h' = allbase h" and "sizebases h' = sizebases h"
    and "\<And>p. next_all (prefs h' p) = next_all (prefs h p)" and "\<And>p. next_samesize (prefs h' p) = next_samesize (prefs h p)"
    and "\<And>p. pageaddr_and_blocktype (prefs h' p) = pageaddr_and_blocktype (prefs h p)"
  shows "heap_lists h' P = heap_lists h P"
  using assms by (simp add: heap_lists_def PR_BLOCKTYPE_def)

lemma doalloc_takes:
  assumes r: "page_ok (hmem h) (prefs h p) (x # xs)"
  shows "doalloc p h = Some (pageaddr h p + x, upd_ref p (\<lambda>r. r\<lparr>nfree := length xs,
      freelist_offset := (case xs of [] \<Rightarrow> INVALID_OFFSET | y # _ \<Rightarrow> y)\<rparr>) h)"
    and "page_ok (hmem h) ((prefs h p)\<lparr>nfree := length xs, freelist_offset := (case xs of [] \<Rightarrow> INVALID_OFFSET | y # _ \<Rightarrow> y)\<rparr>) xs"
proof -
  let ?r = "prefs h p"
  have f: "nfree ?r = Suc (length xs)" "freelist_offset ?r = x" "x < 4096" "0 < PR_PAGEADDR ?r"
    "links (hmem h) (PR_PAGEADDR ?r) (x # xs)"
    using r by (auto simp: page_ok_def)
  have hd: "hmem h (pageaddr h p + x) = (case xs of [] \<Rightarrow> 0 | y # _ \<Rightarrow> pageaddr h p + y)"
    using f(5) by (simp add: links_Cons)
  have "y < 4096" if "xs = y # ys" for y ys using r that by (simp add: page_ok_def)
  then show "doalloc p h = Some (pageaddr h p + x, upd_ref p (\<lambda>r. r\<lparr>nfree := length xs,
      freelist_offset := (case xs of [] \<Rightarrow> INVALID_OFFSET | y # _ \<Rightarrow> y)\<rparr>) h)"
    using f hd by (cases xs) (simp_all add: doalloc_def kassert_def upd_ref_def Let_def)
  show "page_ok (hmem h) (?r\<lparr>nfree := length xs, freelist_offset := (case xs of [] \<Rightarrow> INVALID_OFFSET | y # _ \<Rightarrow> y)\<rparr>) xs"
    using r f(5) by (auto simp: page_ok_def links_Cons bsize_def PR_PAGEADDR_def PR_BLOCKTYPE_def)
qed


lemma pages_apart:
  assumes "a mod 4096 = 0" and "b mod 4096 = 0" and "a \<noteq> (b :: nat)" and "x < 4096" and "y < 4096"
  shows "a + x \<noteq> b + y"
proof
  assume "a + x = b + y"
  then have "(a + x) div 4096 = (b + y) div 4096" by simp
  then have "a div 4096 = b div 4096" using assms by (simp add: div_add1_eq)
  then show False using assms(1-3) by (metis add.right_neutral div_mult_mod_eq)
qed

text \<open>Changes of one page: of its pageref and of the words on it.\<close>

lemma heap_pages_page:
  assumes ok: "heap_pages h P fr" and p: "p \<in> set P"
    and r: "prefs h' = (prefs h)(p := r')" "pageaddr_and_blocktype r' = pageaddr_and_blocktype (prefs h p)"
      "next_all r' = next_all (prefs h p)" "next_samesize r' = next_samesize (prefs h p)"
    and b: "allbase h' = allbase h" "sizebases h' = sizebases h"
    and m: "\<And>a. \<not> (pageaddr h p \<le> a \<and> a < pageaddr h p + 4096) \<Longrightarrow> hmem h' a = hmem h a"
    and new: "page_ok (hmem h') r' xs"
  shows "heap_pages h' P (fr(p := xs))"
proof -
  have pok: "page_ok (hmem h) (prefs h q) (fr q)" if "q \<in> set P" for q using ok that by (simp add: heap_pages_def)
  have same: "PR_PAGEADDR r' = pageaddr h p" "PR_BLOCKTYPE r' = PR_BLOCKTYPE (prefs h p)" "bsize r' = bsize (prefs h p)"
    using r(2) by (simp_all add: PR_PAGEADDR_def PR_BLOCKTYPE_def bsize_def)
  have "page_ok (hmem h') (prefs h q) (fr q)" if q: "q \<in> set P" "q \<noteq> p" for q
  proof -
    have "pageaddr h q \<noteq> pageaddr h p" using ok p q by (auto simp: heap_pages_def inj_on_def)
    then have "\<forall>y < 4096. pageaddr h q + x \<noteq> pageaddr h p + y" if "x < 4096" for x
      using pages_apart [of "pageaddr h q" "pageaddr h p" x] pok [OF q(1)] pok [OF p] that by (auto simp: page_ok_def)
    then have "hmem h' (pageaddr h q + x) = hmem h (pageaddr h q + x)" if "x < 4096" for x
      using that by (intro m) (metis add_less_cancel_left le_add_diff_inverse)
    then have "links (hmem h') (pageaddr h q) (fr q) = links (hmem h) (pageaddr h q) (fr q)"
      using pok [OF q(1)] by (intro links_cong) (auto simp: page_ok_def)
    then show ?thesis using pok [OF q(1)] by (simp add: page_ok_def)
  qed
  moreover have "heap_lists h' P = heap_lists h P"
    by (rule heap_lists_cong) (use r b in auto)
  moreover have "pageaddr h' q = pageaddr h q" for q using r(1) same(1) by simp
  ultimately show ?thesis using ok new r(1) unfolding heap_pages_def by (auto simp: inj_on_def)
qed

lemma page_blocks_cong:
  "pageaddr_and_blocktype r' = pageaddr_and_blocktype r \<Longrightarrow> page_blocks r' fr = page_blocks r fr"
  by (simp add: page_blocks_def PR_PAGEADDR_def PR_BLOCKTYPE_def bsize_def)

text \<open>A block taken from the free list of its page, or put there.\<close>

lemma live_blocks_take:
  assumes p: "p \<in> set P" and r: "prefs h' = (prefs h)(p := r')" "pageaddr_and_blocktype r' = pageaddr_and_blocktype (prefs h p)"
    and x: "fr p = x # xs" "x < 4096" "x mod bsize (prefs h p) = 0" "x \<notin> set xs"
  shows "live_blocks h' P (fr(p := xs)) = insert (pageaddr h p + x, bsize (prefs h p)) (live_blocks h P fr)"
proof -
  have "page_blocks (prefs h p) xs = insert (pageaddr h p + x, bsize (prefs h p)) (page_blocks (prefs h p) (fr p))"
    using x by (auto simp: page_blocks_def)
  then have "page_blocks (prefs h' q) ((fr(p := xs)) q) = (if q = p
      then insert (pageaddr h p + x, bsize (prefs h p)) (page_blocks (prefs h q) (fr q)) else page_blocks (prefs h q) (fr q))" for q
    using r page_blocks_cong [OF r(2)] by simp
  then show ?thesis using p by (auto simp: live_blocks_def split: if_splits)
qed

lemma live_blocks_give:
  assumes ok: "heap_pages h P fr" and p: "p \<in> set P"
    and r: "prefs h' = (prefs h)(p := r')" "pageaddr_and_blocktype r' = pageaddr_and_blocktype (prefs h p)"
    and x: "x < 4096" "x mod bsize (prefs h p) = 0"
  shows "live_blocks h' P (fr(p := x # fr p)) = live_blocks h P fr - {(pageaddr h p + x, bsize (prefs h p))}"
proof -
  let ?b = "(pageaddr h p + x, bsize (prefs h p))"
  have "?b \<notin> page_blocks (prefs h q) (fr q)" if q: "q \<in> set P" "q \<noteq> p" for q
  proof -
    have "pageaddr h q \<noteq> pageaddr h p" "pageaddr h q mod 4096 = 0" "pageaddr h p mod 4096 = 0"
      using ok p q by (auto simp: heap_pages_def inj_on_def page_ok_def)
    then show ?thesis using pages_apart [of "pageaddr h p" "pageaddr h q" x] x by (auto simp: page_blocks_def)
  qed
  moreover have "page_blocks (prefs h p) (x # fr p) = page_blocks (prefs h p) (fr p) - {?b}"
    by (auto simp: page_blocks_def)
  ultimately have "page_blocks (prefs h' q) ((fr(p := x # fr p)) q) = page_blocks (prefs h q) (fr q) - {?b}" if "q \<in> set P" for q
    using that r page_blocks_cong [OF r(2)] by (cases "q = p") auto
  then show ?thesis by (auto simp: live_blocks_def)
qed

text \<open>Taking a block from a page that has one.\<close>

lemma doalloc_ok:
  assumes ok: "heap_pages h P fr" and p: "p \<in> set P" and f: "fr p = x # xs"
  shows "\<exists>h'. doalloc p h = Some (pageaddr h p + x, h') \<and> heap_pages h' P (fr(p := xs)) \<and>
    live_blocks h' P (fr(p := xs)) = insert (pageaddr h p + x, bsize (prefs h p)) (live_blocks h P fr) \<and>
    hmem h' = hmem h \<and> hcm h' = hcm h \<and> roots h' = roots h \<and> 0 < pageaddr h p + x \<and>
    (\<forall>q. pageaddr_and_blocktype (prefs h' q) = pageaddr_and_blocktype (prefs h q))"
proof -
  have r: "page_ok (hmem h) (prefs h p) (x # xs)" using ok p f by (auto simp: heap_pages_def)
  let ?g = "\<lambda>r. r\<lparr>nfree := length xs, freelist_offset := (case xs of [] \<Rightarrow> INVALID_OFFSET | y # _ \<Rightarrow> y)\<rparr>"
  note d = doalloc_takes [OF r]
  have "heap_pages (upd_ref p ?g h) P (fr(p := xs))"
    by (rule heap_pages_page [OF ok p, where r' = "?g (prefs h p)"]) (use d(2) in simp_all)
  moreover have "live_blocks (upd_ref p ?g h) P (fr(p := xs)) = insert (pageaddr h p + x, bsize (prefs h p)) (live_blocks h P fr)"
    by (rule live_blocks_take [OF p, where r' = "?g (prefs h p)"]) (use r f in \<open>simp_all add: page_ok_def\<close>)
  moreover have "0 < pageaddr h p" using r by (simp add: page_ok_def)
  ultimately show ?thesis using d(1) by simp
qed


section \<open>The pages of page references\<close>

definition ref_bit :: "kheap_root \<Rightarrow> nat \<Rightarrow> bool" where
  "ref_bit x j \<longleftrightarrow> bit (pagerefs_inuse x ! (j div 32)) (j mod 32)"

definition root_ok :: "kheap_root \<Rightarrow> bool" where
  "root_ok x \<longleftrightarrow> length (pagerefs_inuse x) = INUSE_WORDS \<and> numinuse x = card {j. j < 256 \<and> ref_bit x j}"

text \<open>The pages of pagerefs come first to last, the first \<open>k\<close> roots; at most the next root has bits set, which
  requests have left that got no page.\<close>

definition roots_prefix :: "kheap \<Rightarrow> nat \<Rightarrow> bool" where
  "roots_prefix h k \<longleftrightarrow> k \<le> NUM_PAGEREFPAGES \<and> (\<forall>r < k. refs_page (roots h ! r) \<noteq> None) \<and>
     (\<forall>r. k \<le> r \<and> r < NUM_PAGEREFPAGES \<longrightarrow> refs_page (roots h ! r) = None \<and> numinuse (roots h ! r) < 256 \<and>
        (k < r \<longrightarrow> numinuse (roots h ! r) = 0))"

definition ref_used :: "kheap \<Rightarrow> nat \<Rightarrow> bool" where
  "ref_used h p \<longleftrightarrow> p div 256 < NUM_PAGEREFPAGES \<and> refs_page (roots h ! (p div 256)) \<noteq> None \<and>
     ref_bit (roots h ! (p div 256)) (p mod 256)"

definition roots_ok :: "kheap \<Rightarrow> nat list \<Rightarrow> bool" where
  "roots_ok h P \<longleftrightarrow> length (roots h) = NUM_PAGEREFPAGES \<and> (\<forall>r < NUM_PAGEREFPAGES. root_ok (roots h ! r)) \<and>
     (\<exists>k. roots_prefix h k) \<and> (\<forall>p \<in> set P. ref_used h p)"

lemma full_word: "(w :: u32) = 0xffffffff \<longleftrightarrow> (\<forall>j < 32. bit w j)"
proof -
  have e: "(0xffffffff :: u32) = - 1" by simp
  have "w = - 1" if "\<forall>j < 32. bit w j" by (rule bit_word_eqI) (use that in simp)
  then show ?thesis unfolding e by auto
qed

lemma and_bit_zero: "(w :: u32) AND push_bit j 1 = 0 \<longleftrightarrow> \<not> bit w j" if "j < 32"
proof
  assume "w AND push_bit j 1 = 0"
  then have "\<not> bit (w AND push_bit j 1) j" by simp
  then show "\<not> bit w j" using that by (simp add: bit_simps)
next
  assume "\<not> bit w j"
  then show "w AND push_bit j 1 = 0" by (intro bit_word_eqI) (auto simp: bit_simps)
qed

text \<open>The free slot that is found in a root that is not full.\<close>

lemma find_slot:
  assumes ok: "root_ok x" and room: "numinuse x < 256"
  obtains i j where "find_from (\<lambda>i. pagerefs_inuse x ! i \<noteq> 0xffffffff) 0 8 = Some i"
    and "find_from (\<lambda>j. pagerefs_inuse x ! i AND push_bit j 1 = 0) 0 32 = Some j"
    and "i < 8" and "j < 32" and "\<not> ref_bit x (i * 32 + j)"
proof -
  have "{j. j < 256 \<and> ref_bit x j} \<noteq> {..<256}"
  proof
    assume "{j. j < 256 \<and> ref_bit x j} = {..<256}"
    then show False using ok room by (simp add: root_ok_def)
  qed
  then obtain m where m: "m < 256" "\<not> ref_bit x m" by auto
  then have "pagerefs_inuse x ! (m div 32) \<noteq> 0xffffffff" "m div 32 < 8"
    unfolding full_word by (auto simp: ref_bit_def intro!: exI [of _ "m mod 32"])
  then have "find_from (\<lambda>i. pagerefs_inuse x ! i \<noteq> 0xffffffff) 0 8 \<noteq> None" unfolding find_from_None by auto
  then obtain i where i: "find_from (\<lambda>i. pagerefs_inuse x ! i \<noteq> 0xffffffff) 0 8 = Some i" by auto
  then have i8: "i < 8" "pagerefs_inuse x ! i \<noteq> 0xffffffff" by (simp_all add: find_from_Some)
  obtain n where "n < 32" "\<not> bit (pagerefs_inuse x ! i) n" using i8(2) unfolding full_word by blast
  then have "find_from (\<lambda>j. pagerefs_inuse x ! i AND push_bit j 1 = 0) 0 32 \<noteq> None"
    unfolding find_from_None using and_bit_zero by auto
  then obtain j where j: "find_from (\<lambda>j. pagerefs_inuse x ! i AND push_bit j 1 = 0) 0 32 = Some j" by auto
  then have "j < 32" "\<not> bit (pagerefs_inuse x ! i) j" using and_bit_zero by (auto simp: find_from_Some)
  then show ?thesis using that [OF i j i8(1)] by (simp add: ref_bit_def)
qed

lemma mark_ref_ok:
  assumes ok: "root_ok x" and "i < 8" and "j < 32"
  shows "m < 256 \<Longrightarrow> ref_bit (mark_ref i j x) m \<longleftrightarrow> m = i * 32 + j \<or> ref_bit x m"
    and "m < 256 \<Longrightarrow> ref_bit (unmark_ref i j x) m \<longleftrightarrow> m \<noteq> i * 32 + j \<and> ref_bit x m"
    and "\<not> ref_bit x (i * 32 + j) \<Longrightarrow> root_ok (mark_ref i j x)"
    and "ref_bit x (i * 32 + j) \<Longrightarrow> root_ok (unmark_ref i j x) \<and> 0 < numinuse x"
proof -
  have len: "length (pagerefs_inuse x) = 8" using ok by (simp add: root_ok_def)
  have eq: "m = i * 32 + j \<longleftrightarrow> m div 32 = i \<and> m mod 32 = j" for m using assms(3) by auto
  show mk: "m < 256 \<Longrightarrow> ref_bit (mark_ref i j x) m \<longleftrightarrow> m = i * 32 + j \<or> ref_bit x m" for m
    unfolding eq using assms(2,3) len
    by (cases "m div 32 = i") (auto simp: ref_bit_def mark_ref_def bit_simps)
  show um: "m < 256 \<Longrightarrow> ref_bit (unmark_ref i j x) m \<longleftrightarrow> m \<noteq> i * 32 + j \<and> ref_bit x m" for m
    unfolding eq using assms(2,3) len
    by (cases "m div 32 = i") (auto simp: ref_bit_def unmark_ref_def bit_simps)
  have b: "i * 32 + j < 256" using assms(2,3) by simp
  let ?S = "{m. m < 256 \<and> ref_bit x m}"
  have "{m. m < 256 \<and> ref_bit (mark_ref i j x) m} = insert (i * 32 + j) ?S" using mk b by auto
  then show "\<not> ref_bit x (i * 32 + j) \<Longrightarrow> root_ok (mark_ref i j x)"
    using ok by (simp add: root_ok_def mark_ref_def)
  have "{m. m < 256 \<and> ref_bit (unmark_ref i j x) m} = ?S - {i * 32 + j}" using um by auto
  then show "ref_bit x (i * 32 + j) \<Longrightarrow> root_ok (unmark_ref i j x) \<and> 0 < numinuse x"
    using ok b by (auto simp: root_ok_def unmark_ref_def card_gt_0_iff)
qed


lemma upd_root_sel [simp]:
  "hmem (upd_root r f h) = hmem h" "hcm (upd_root r f h) = hcm h" "sizebases (upd_root r f h) = sizebases h"
  "allbase (upd_root r f h) = allbase h" "prefs (upd_root r f h) = prefs h"
  "roots (upd_root r f h) = (roots h)[r := f (roots h ! r)]"
  by (simp_all add: upd_root_def)

lemma mark_ref_page [simp]: "refs_page (mark_ref i j x) = refs_page x" "refs_page (unmark_ref i j x) = refs_page x"
  "numinuse (unmark_ref i j x) = numinuse x - 1"
  by (simp_all add: mark_ref_def unmark_ref_def)

lemma allocpageref_skip:
  "\<forall>r \<in> set rs. 256 \<le> numinuse (roots h ! r) \<Longrightarrow> allocpageref_in (rs @ rs') h = allocpageref_in rs' h"
  by (induction rs) simp_all

lemma root_page [simp]: "ref_bit (x\<lparr>refs_page := v\<rparr>) m = ref_bit x m" "root_ok (x\<lparr>refs_page := v\<rparr>) = root_ok x"
  by (simp_all add: ref_bit_def root_ok_def)

text \<open>A bit set in a root with a page, or in the first one that has none and gets one now.\<close>

lemma roots_ok_mark:
  assumes ok: "roots_ok h P" and r: "r < 16" "i < 8" "j < 32" "\<not> ref_bit (roots h ! r) (i * 32 + j)"
    and least: "\<forall>x < r. 256 \<le> numinuse (roots h ! x)"
    and h': "roots h' = (roots h)[r := (mark_ref i j (roots h ! r))\<lparr>refs_page := Some va\<rparr>]"
      "refs_page (roots h ! r) \<noteq> None \<longrightarrow> refs_page (roots h ! r) = Some va"
  shows "256 * r + (i * 32 + j) \<notin> set P" and "roots_ok h' ((256 * r + (i * 32 + j)) # P)"
proof -
  let ?b = "i * 32 + j" and ?x = "(mark_ref i j (roots h ! r))\<lparr>refs_page := Some va\<rparr>"
  have b: "?b < 256" using r(2,3) by simp
  then have pd: "(256 * r + ?b) div 256 = r" "(256 * r + ?b) mod 256 = ?b" by simp_all
  have len: "length (roots h) = 16" and rok: "\<And>r. r < 16 \<Longrightarrow> root_ok (roots h ! r)"
    and refs: "\<And>p. p \<in> set P \<Longrightarrow> ref_used h p"
    using ok by (auto simp: roots_ok_def)
  obtain k where kp: "roots_prefix h k" using ok by (auto simp: roots_ok_def)
  then have k: "k \<le> 16" "\<And>r. r < k \<Longrightarrow> refs_page (roots h ! r) \<noteq> None"
    "\<And>r. k \<le> r \<Longrightarrow> r < 16 \<Longrightarrow> refs_page (roots h ! r) = None \<and> numinuse (roots h ! r) < 256"
    "\<And>r. k < r \<Longrightarrow> r < 16 \<Longrightarrow> numinuse (roots h ! r) = 0"
    by (simp_all add: roots_prefix_def)
  show "256 * r + ?b \<notin> set P" using refs [of "256 * r + ?b"] r(4) pd by (auto simp: ref_used_def)
  have mk: "ref_bit ?x m \<longleftrightarrow> m = ?b \<or> ref_bit (roots h ! r) m" if "m < 256" for m
    using mark_ref_ok(1) [OF rok [OF r(1)] r(2,3) that] by simp
  have xok: "root_ok ?x"
    using mark_ref_ok(3) [OF rok [OF r(1)] r(2,3,4)] by simp
  have at: "roots h' ! q = (if q = r then ?x else roots h ! q)" if "q < 16" for q using that len by (simp add: h'(1))
  have rk: "r \<le> k"
  proof (rule ccontr)
    assume "\<not> r \<le> k"
    then have "256 \<le> numinuse (roots h ! k)" "k < 16" using least r(1) by auto
    then show False using k(3) [of k] by simp
  qed
  let ?k = "if r = k then Suc k else k"
  have "?k \<le> 16" using k(1) r(1) by auto
  moreover have "refs_page (roots h' ! q) \<noteq> None" if "q < ?k" for q
    using that k(2) [of q] at [of q] \<open>?k \<le> 16\<close> by (cases "q = r") (auto split: if_splits)
  moreover have "refs_page (roots h' ! q) = None \<and> numinuse (roots h' ! q) < 256 \<and> (?k < q \<longrightarrow> numinuse (roots h' ! q) = 0)"
    if "?k \<le> q" "q < 16" for q
  proof -
    have "q \<noteq> r" "k \<le> q" using that rk by (auto split: if_splits)
    then show ?thesis using k(3) [of q] k(4) [of q] that at [of q] by (auto split: if_splits)
  qed
  ultimately have "roots_prefix h' ?k" unfolding roots_prefix_def by blast
  moreover have "root_ok (roots h' ! q)" if "q < 16" for q using that at [OF that] rok xok by simp
  moreover have "ref_used h' p" if "p \<in> set ((256 * r + ?b) # P)" for p
  proof (cases "p = 256 * r + ?b")
    case True
    then show ?thesis using pd r(1) at [OF r(1)] mk [OF b] by (simp add: ref_used_def)
  next
    case False
    then have "p \<in> set P" using that by simp
    then show ?thesis using refs [of p] at [of "p div 256"] mk [of "p mod 256"] by (auto simp: ref_used_def)
  qed
  moreover have "length (roots h') = 16" using len by (simp add: h'(1))
  ultimately show "roots_ok h' ((256 * r + ?b) # P)" unfolding roots_ok_def by blast
qed

lemma mark_ref_same: "refs_page x = Some va \<Longrightarrow> (mark_ref i j x)\<lparr>refs_page := Some va\<rparr> = mark_ref i j x"
  by (cases x) (simp add: mark_ref_def)

lemma alloc_kpages_aligned: "alloc_kpages n c = (c', va) \<Longrightarrow> va mod 4096 = 0"
  using getppages_bound(2) [of n c] by (auto simp: alloc_kpages_def Let_def mod_add_eq split: prod.splits if_splits)

lemma allocpageref_ok:
  assumes ok: "roots_ok h P"
  shows "\<exists>r h'. allocpageref h = Some (r, h') \<and> hmem h' = hmem h \<and> prefs h' = prefs h \<and> sizebases h' = sizebases h \<and>
    allbase h' = allbase h \<and> (hcm h' = hcm h \<or> (\<exists>va. alloc_kpages 1 (hcm h) = (hcm h', va))) \<and>
    (\<forall>p. r = Some p \<longrightarrow> p \<notin> set P \<and> roots_ok h' (p # P))"
proof (cases "\<exists>r < 16. numinuse (roots h ! r) < 256")
  case False
  then have "256 \<le> numinuse (roots h ! r)" if "r < 16" for r using that by (meson not_le)
  then have "\<forall>r \<in> set [0..<16]. 256 \<le> numinuse (roots h ! r)" by simp
  from allocpageref_skip [OF this, of "[]"] have "allocpageref h = Some (None, h)" by (simp add: allocpageref_def)
  then show ?thesis by simp
next
  case True
  then obtain r where r: "r < 16" "numinuse (roots h ! r) < 256" "\<forall>x < r. 256 \<le> numinuse (roots h ! x)"
    using exists_least_iff [of "\<lambda>r. r < 16 \<and> numinuse (roots h ! r) < 256"] by (meson le_less_trans not_le less_trans)
  have len: "length (roots h) = 16" "root_ok (roots h ! r)" using ok r(1) by (auto simp: roots_ok_def)
  obtain i j where s: "find_from (\<lambda>i. pagerefs_inuse (roots h ! r) ! i \<noteq> 0xffffffff) 0 8 = Some i"
    "find_from (\<lambda>j. pagerefs_inuse (roots h ! r) ! i AND push_bit j 1 = 0) 0 32 = Some j"
    "i < 8" "j < 32" "\<not> ref_bit (roots h ! r) (i * 32 + j)"
    by (rule find_slot [OF len(2) r(2)])
  have "[0..<16] = [0..<r] @ r # [Suc r..<16]" using r(1) by (metis upt_add_eq_append upt_conv_Cons le_add_diff_inverse less_imp_le_nat zero_le)
  then have sk: "allocpageref h = allocpageref_in (r # [Suc r..<16]) h"
    using allocpageref_skip [of "[0..<r]" h] r(3) by (simp add: allocpageref_def del: upt_Suc)
  let ?h1 = "upd_root r (mark_ref i j) h"
  note mk = roots_ok_mark [OF ok r(1) s(3,4,5) r(3)]
  show ?thesis
  proof (cases "refs_page (roots h ! r)")
    case (Some va)
    then have "allocpageref h = Some (Some (256 * r + (i * 32 + j)), ?h1)"
      using r(1,2) s(1,2) len unfolding sk by simp
    moreover have "256 * r + (i * 32 + j) \<notin> set P" "roots_ok ?h1 ((256 * r + (i * 32 + j)) # P)"
      by (rule mk [of ?h1 va]; simp only: upd_root_sel mark_ref_same [OF Some] Some simp_thms)+
    ultimately show ?thesis
      by (intro exI [of _ "Some (256 * r + (i * 32 + j))"] exI [of _ ?h1]) simp
  next
    case None
    obtain c va where c: "alloc_kpages 1 (hcm h) = (c, va)" by fastforce
    show ?thesis
    proof (cases "va = 0")
      case True
      then have "allocpageref h = Some (None, ?h1\<lparr>hcm := c\<rparr>)"
        using r(1,2) s(1,2) len None c unfolding sk by (simp add: allocpagerefpage_def kassert_def)
      then show ?thesis using c by simp
    next
      case False
      let ?h2 = "upd_root r (\<lambda>x. x\<lparr>refs_page := Some va\<rparr>) (?h1\<lparr>hcm := c\<rparr>)"
      have "allocpageref h = Some (Some (256 * r + (i * 32 + j)), ?h2)"
        using r(1,2) s(1,2) len None c alloc_kpages_aligned [OF c] False unfolding sk
        by (simp add: allocpagerefpage_def kassert_def)
      moreover have "256 * r + (i * 32 + j) \<notin> set P" "roots_ok ?h2 ((256 * r + (i * 32 + j)) # P)"
        by (rule mk [of ?h2 va]; use r(1) len None in simp)+
      ultimately show ?thesis using c
        by (intro exI [of _ "Some (256 * r + (i * 32 + j))"] exI [of _ ?h2]) simp
    qed
  qed
qed


lemma freepageref_ok:
  assumes ok: "roots_ok h P" and p: "p \<in> set P" and d: "distinct P"
  shows "\<exists>h'. freepageref p h = Some h' \<and> roots_ok h' (remove1 p P) \<and> hmem h' = hmem h \<and> prefs h' = prefs h \<and>
    sizebases h' = sizebases h \<and> allbase h' = allbase h \<and> hcm h' = hcm h"
proof -
  let ?r = "p div 256" and ?m = "p mod 256"
  let ?i = "?m div 32" and ?j = "?m mod 32"
  let ?h = "upd_root ?r (unmark_ref ?i ?j) h" and ?x = "unmark_ref ?i ?j (roots h ! ?r)"
  have len: "length (roots h) = 16" and rok: "\<And>r. r < 16 \<Longrightarrow> root_ok (roots h ! r)"
    and refs: "\<And>p. p \<in> set P \<Longrightarrow> ref_used h p" using ok by (auto simp: roots_ok_def)
  have u: "?r < 16" "refs_page (roots h ! ?r) \<noteq> None" "ref_bit (roots h ! ?r) ?m" using refs [OF p] by (simp_all add: ref_used_def)
  have ij: "?i < 8" "?j < 32" "?i * 32 + ?j = ?m" by simp_all
  note um = mark_ref_ok [OF rok [OF u(1)] ij(1,2), unfolded ij(3)]
  have pos: "0 < numinuse (roots h ! ?r)" "root_ok ?x" using um(4) u(3) by simp_all
  have bit: "pagerefs_inuse (roots h ! ?r) ! ?i AND push_bit ?j 1 \<noteq> 0"
    using u(3) and_bit_zero [OF ij(2)] by (simp add: ref_bit_def)
  obtain k where k: "roots_prefix h k" using ok by (auto simp: roots_ok_def)
  have rk: "?r < k" using k u(1,2) by (auto simp: roots_prefix_def not_le [symmetric])
  have "freepageref_in [r..<16] p h = Some ?h" if "r \<le> ?r" for r
    using that
  proof (induction "?r - r" arbitrary: r)
    case 0
    then have e: "[r..<16] = ?r # [Suc ?r..<16]" using u(1) by (simp add: upt_conv_Cons)
    show ?case unfolding e using u(2) bit pos(1) by (simp add: kassert_def)
  next
    case (Suc n)
    then have e: "[r..<16] = r # [Suc r..<16]" "r < k" "r \<noteq> ?r" using u(1) rk by (simp_all add: upt_conv_Cons)
    have "freepageref_in [Suc r..<16] p h = Some ?h" using Suc by (intro Suc.hyps(1)) simp_all
    moreover obtain va where "refs_page (roots h ! r) = Some va" using k e(2) by (auto simp: roots_prefix_def)
    ultimately show ?case unfolding e(1) using e(3) by simp
  qed
  from this [of 0] have "freepageref p h = Some ?h" by (simp add: freepageref_def)
  moreover have "roots_ok ?h (remove1 p P)"
  proof -
    have at: "roots ?h ! q = (if q = ?r then ?x else roots h ! q)" if "q < 16" for q using that len by simp
    have "roots_prefix ?h k"
      unfolding roots_prefix_def
      using k rk at by (auto simp: roots_prefix_def)
    moreover have "root_ok (roots ?h ! q)" if "q < 16" for q using that at [OF that] rok pos(2) by simp
    moreover have "ref_used ?h q" if "q \<in> set (remove1 p P)" for q
    proof -
      have q: "ref_used h q" "q \<noteq> p" using that d refs by auto
      then have "q mod 256 \<noteq> ?m" if "q div 256 = ?r" using that by (metis div_mult_mod_eq)
      then show ?thesis using q(1) at [of "q div 256"] um(2) [of "q mod 256"] by (auto simp: ref_used_def)
    qed
    ultimately show ?thesis using len unfolding roots_ok_def by auto
  qed
  ultimately show ?thesis by simp
qed


section \<open>A fresh page\<close>

definition all_blocks :: "nat \<Rightarrow> nat list" where
  "all_blocks sz = map (\<lambda>i. i * sz) (rev [0..<PAGE_SIZE div sz])"

lemma all_blocks_set:
  assumes "sz dvd 4096" and "0 < sz"
  shows "set (all_blocks sz) = {x. x < 4096 \<and> x mod sz = 0}" and "distinct (all_blocks sz)"
    and "\<exists>xs. all_blocks sz = (4096 div sz - 1) * sz # xs"
proof -
  obtain n where n: "4096 = sz * n" using assms(1) by (metis dvdE)
  then have d: "4096 div sz = n" "0 < n" using assms(2) by (metis nonzero_mult_div_cancel_left less_not_refl, metis gr0I mult_0_right zero_neq_numeral)
  have lt: "i * sz < 4096 \<longleftrightarrow> i < n" for i unfolding n using assms(2) by (simp add: mult.commute)
  have "x \<in> set (all_blocks sz) \<longleftrightarrow> x < 4096 \<and> x mod sz = 0" for x
  proof
    assume "x \<in> set (all_blocks sz)"
    then obtain i where "i < n" "x = i * sz" unfolding all_blocks_def d(1) by auto
    then show "x < 4096 \<and> x mod sz = 0" using lt by simp
  next
    assume x: "x < 4096 \<and> x mod sz = 0"
    then obtain i where i: "x = i * sz" by (metis dvdE mod_eq_0_iff_dvd mult.commute)
    then have "i < n" using x lt by simp
    then show "x \<in> set (all_blocks sz)" unfolding all_blocks_def d(1) i set_map set_rev set_upt
      by (intro image_eqI [where x = i]) simp_all
  qed
  then show "set (all_blocks sz) = {x. x < 4096 \<and> x mod sz = 0}" by (simp only: set_eq_iff mem_Collect_eq) blast
  show "distinct (all_blocks sz)" 
    unfolding all_blocks_def distinct_map using assms(2) by (intro conjI inj_onI) simp_all
  show "\<exists>xs. all_blocks sz = (4096 div sz - 1) * sz # xs" using d(2) unfolding all_blocks_def d(1) by (cases n) auto
qed

definition with_page :: "nat \<Rightarrow> nat \<Rightarrow> nat \<Rightarrow> kheap \<Rightarrow> kheap" where
  "with_page pr va t h = (upd_ref pr (\<lambda>x. x\<lparr>next_samesize := sizebases h ! t, next_all := allbase h,
       pageaddr_and_blocktype := MKPAB va t, freelist_offset := (PAGE_SIZE div sizes ! t - 1) * sizes ! t,
       nfree := PAGE_SIZE div sizes ! t\<rparr>)
     (h\<lparr>hmem := thread_page va (sizes ! t) (PAGE_SIZE div sizes ! t) (hmem h)\<rparr>))
     \<lparr>sizebases := (sizebases h)[t := Some pr], allbase := Some pr\<rparr>"

lemma with_page_ok:
  assumes ok: "heap_pages h P fr" and pr: "pr \<notin> set P" and va: "va mod 4096 = 0" "0 < va" "va < 2 ^ 32"
    and new: "\<forall>p \<in> set P. pageaddr h p \<noteq> va" and t: "t < 8"
  shows "heap_pages (with_page pr va t h) (pr # P) (fr(pr := all_blocks (sizes ! t)))"
    and "live_blocks (with_page pr va t h) (pr # P) (fr(pr := all_blocks (sizes ! t))) = live_blocks h P fr"
    and "PR_PAGEADDR (prefs (with_page pr va t h) pr) = va" and "bsize (prefs (with_page pr va t h) pr) = sizes ! t"
    and "\<not> (va \<le> a \<and> a < va + 4096) \<Longrightarrow> hmem (with_page pr va t h) a = hmem h a"
proof -
  let ?h = "with_page pr va t h" and ?sz = "sizes ! t" and ?n = "4096 div sizes ! t"
  have sz: "0 < ?sz" "?sz dvd 4096" using sizes_pos [OF t] sizes_dvd [OF t] by auto
  have n: "0 < ?n" "?n * ?sz = 4096" using sz by (auto simp: div_greater_zero_iff dvd_imp_le)
  have f: "prefs ?h = (prefs h)(pr := prefs ?h pr)" "allbase ?h = Some pr" "sizebases ?h = (sizebases h)[t := Some pr]"
    by (auto simp: with_page_def)
  have pa: "PR_PAGEADDR (prefs ?h pr) = va" and bt: "PR_BLOCKTYPE (prefs ?h pr) = t"
    using MKPAB_parts [OF va(1,3) t] by (simp_all add: with_page_def PR_PAGEADDR_def PR_BLOCKTYPE_def)
  show "PR_PAGEADDR (prefs ?h pr) = va" by (rule pa)
  show bs: "bsize (prefs ?h pr) = ?sz" using bt by (simp add: bsize_def)
  have mem: "hmem ?h a = hmem h a" if "\<forall>i < ?n. a \<noteq> va + i * ?sz" for a
    using thread_page_nth(2) [OF sz(1) n(1) that] by (simp add: with_page_def)
  have lt: "i * ?sz < 4096" if "i < ?n" for i
    using that sz(1) n(2) by (metis mult_less_mono1)
  show "hmem ?h a = hmem h a" if out: "\<not> (va \<le> a \<and> a < va + 4096)"
  proof (rule mem, intro allI impI)
    fix i
    assume "i < ?n"
    from lt [OF this] show "a \<noteq> va + i * ?sz" using out by auto
  qed
  have pok: "page_ok (hmem ?h) (prefs ?h p) ((fr(pr := all_blocks ?sz)) p)" if "p \<in> set P" for p
  proof -
    have k: "page_ok (hmem h) (prefs h p) (fr p)" "p \<noteq> pr" using ok that pr by (auto simp: heap_pages_def)
    have "hmem ?h (pageaddr h p + x) = hmem h (pageaddr h p + x)" if x: "x \<in> set (fr p)" for x
    proof (rule mem, intro allI impI)
      fix i
      assume "i < ?n"
      from lt [OF this] show "pageaddr h p + x \<noteq> va + i * ?sz"
        using k(1) x new \<open>p \<in> set P\<close> va(1) by (intro pages_apart) (auto simp: page_ok_def)
    qed
    then have "links (hmem ?h) (pageaddr h p) (fr p) = links (hmem h) (pageaddr h p) (fr p)" by (intro links_cong) simp
    moreover have "prefs ?h p = prefs h p" using f(1) k(2) by (metis fun_upd_other)
    ultimately show ?thesis using k by (simp add: page_ok_def)
  qed
  have new_ok: "page_ok (hmem ?h) (prefs ?h pr) (all_blocks ?sz)"
  proof -
    have "links (hmem ?h) va (all_blocks ?sz)"
      using thread_page_links [OF sz(1) n(1), of va "hmem h"] by (simp add: with_page_def all_blocks_def)
    moreover have "nfree (prefs ?h pr) = length (all_blocks ?sz)" by (simp add: with_page_def all_blocks_def)
    moreover obtain xs where "all_blocks ?sz = (?n - 1) * ?sz # xs" using all_blocks_set(3) [OF sz(2,1)] by blast
    moreover have "freelist_offset (prefs ?h pr) = (?n - 1) * ?sz" by (simp add: with_page_def)
    ultimately show ?thesis
      using pa bt bs va t all_blocks_set(1,2) [OF sz(2,1)] unfolding page_ok_def by auto
  qed
  have lists: "heap_lists ?h (pr # P)"
  proof -
    have old: "heap_lists h P" using ok by (simp add: heap_pages_def)
    have nx: "next_all (prefs ?h pr) = allbase h" "next_samesize (prefs ?h pr) = sizebases h ! t"
      by (simp_all add: with_page_def)
    have same: "prefs ?h p = prefs h p" if "p \<in> set P" for p using f(1) pr that by (metis fun_upd_other)
    have "pchain (\<lambda>p. next_all (prefs ?h p)) (allbase h) P"
      using old pchain_cong [of P "\<lambda>p. next_all (prefs ?h p)" "\<lambda>p. next_all (prefs h p)"] same
      by (simp add: heap_lists_def)
    moreover have "pchain (\<lambda>p. next_samesize (prefs ?h p)) (sizebases ?h ! s) (filter (\<lambda>p. PR_BLOCKTYPE (prefs ?h p) = s) (pr # P))"
      if s: "s < 8" for s
    proof -
      have fl: "filter (\<lambda>p. PR_BLOCKTYPE (prefs ?h p) = s) P = filter (\<lambda>p. PR_BLOCKTYPE (prefs h p) = s) P"
        by (rule filter_cong) (simp_all add: same)
      have "pchain (\<lambda>p. next_samesize (prefs ?h p)) (sizebases h ! s) (filter (\<lambda>p. PR_BLOCKTYPE (prefs h p) = s) P)"
        using old s pchain_cong [of "filter (\<lambda>p. PR_BLOCKTYPE (prefs h p) = s) P" "\<lambda>p. next_samesize (prefs ?h p)"
            "\<lambda>p. next_samesize (prefs h p)"] same
        by (simp add: heap_lists_def)
      then show ?thesis using bt nx(2) fl old s by (cases "s = t") (simp_all add: heap_lists_def f(3))
    qed
    ultimately show ?thesis using old pr nx(1) by (simp add: heap_lists_def f(2,3))
  qed
  have "inj_on (pageaddr ?h) (set (pr # P))"
  proof -
    have "pageaddr ?h p = (if p = pr then va else pageaddr h p)" for p using pa f(1) by (metis fun_upd_other)
    then show ?thesis using ok new unfolding heap_pages_def inj_on_def by auto
  qed
  then show "heap_pages ?h (pr # P) (fr(pr := all_blocks ?sz))"
    using lists pok new_ok unfolding heap_pages_def by simp
  have "page_blocks (prefs ?h pr) (all_blocks ?sz) = {}"
    using all_blocks_set(1) [OF sz(2,1)] bs by (auto simp: page_blocks_def)
  moreover have "page_blocks (prefs ?h p) ((fr(pr := all_blocks ?sz)) p) = page_blocks (prefs h p) (fr p)" if "p \<in> set P" for p
    using that pr f(1) by (metis fun_upd_other)
  ultimately show "live_blocks ?h (pr # P) (fr(pr := all_blocks ?sz)) = live_blocks h P fr"
    by (simp add: live_blocks_def)
qed


section \<open>Allocation\<close>

definition frame_at :: "nat \<Rightarrow> nat" where
  "frame_at va = (va - MIPS_KSEG0) div PAGE_SIZE"

text \<open>The pages of the heap are frames in use.\<close>

definition frames_ok :: "kheap \<Rightarrow> nat list \<Rightarrow> bool" where
  "frames_ok h P \<longleftrightarrow> memory_size (hcm h) \<le> 131072 \<and>
     (\<forall>p \<in> set P. MIPS_KSEG0 \<le> pageaddr h p \<and> frame_at (pageaddr h p) \<in> frames_used (hcm h))"

definition kheap_ok :: "kheap \<Rightarrow> nat list \<Rightarrow> (nat \<Rightarrow> nat list) \<Rightarrow> bool" where
  "kheap_ok h P fr \<longleftrightarrow> heap_ok h P fr \<and> roots_ok h P \<and> frames_ok h P"

lemma alloc_page:
  assumes "alloc_kpages 1 c = (c', va)" and "memory_size c \<le> 131072"
  shows "memory_size c' = memory_size c" and "va = 0 \<Longrightarrow> c' = c" and "frames_used c \<subseteq> frames_used c'"
    and "va \<noteq> 0 \<Longrightarrow> MIPS_KSEG0 \<le> va \<and> va mod 4096 = 0 \<and> va < 2 ^ 32 \<and> frame_at va \<notin> frames_used c \<and>
      frame_at va \<in> frames_used c'"
proof -
  obtain pa where pa: "getppages 1 c = (c', pa)" "va = (if pa = 0 then 0 else pa + MIPS_KSEG0)"
    using assms(1) by (auto simp: alloc_kpages_def Let_def split: prod.splits if_splits)
  show "memory_size c' = memory_size c" using getppages_bound(1) [OF pa(1)] .
  show "va = 0 \<Longrightarrow> c' = c" using pa getppages_none [of 1 c c'] by (auto split: if_splits)
  show "frames_used c \<subseteq> frames_used c'"
    using pa getppages_none [of 1 c c'] getppages_new [OF pa(1)] by (cases "pa = 0") auto
  assume "va \<noteq> 0"
  then have "pa \<noteq> 0" "va = pa + MIPS_KSEG0" using pa(2) by (auto split: if_splits)
  moreover have "pa + 4096 \<le> 131072 * 4096"
    using getppages_bound(3) [OF pa(1) \<open>pa \<noteq> 0\<close>] assms(2) by simp
  moreover note getppages_new [OF pa(1) \<open>pa \<noteq> 0\<close>]
  ultimately show "MIPS_KSEG0 \<le> va \<and> va mod 4096 = 0 \<and> va < 2 ^ 32 \<and> frame_at va \<notin> frames_used c \<and>
      frame_at va \<in> frames_used c'"
    by (auto simp: frame_at_def block_def)
qed

lemma heap_pages_cong:
  assumes "hmem h' = hmem h" and "prefs h' = prefs h" and "sizebases h' = sizebases h" and "allbase h' = allbase h"
  shows "heap_pages h' P fr = heap_pages h P fr" and "live_blocks h' P fr = live_blocks h P fr"
    and "heap_ok h' P fr = heap_ok h P fr"
  using heap_lists_cong [of h' h P] assms by (simp_all add: heap_pages_def heap_ok_def live_blocks_def)

text \<open>What an allocation promises.\<close>

definition allocates :: "nat \<Rightarrow> nat \<Rightarrow> kheap \<Rightarrow> nat list \<Rightarrow> (nat \<Rightarrow> nat list) \<Rightarrow> kheap \<Rightarrow> bool" where
  "allocates ptr n h P fr h' \<longleftrightarrow> (\<exists>P' fr'. kheap_ok h' P' fr' \<and>
     live_blocks h' P' fr' = (if ptr = 0 then live_blocks h P fr else insert (ptr, n) (live_blocks h P fr)) \<and>
     (ptr, n) \<notin> live_blocks h P fr \<and> heap_words_kept (live_blocks h P fr) h h')"

lemma live_blocks_pos:
  assumes "heap_pages h P fr" and "(a, n) \<in> live_blocks h P fr"
  shows "0 < a"
  using assms by (auto simp: live_blocks_def page_blocks_def heap_pages_def page_ok_def)

lemma not_live:
  assumes ok: "heap_pages h P fr" and p: "p \<in> set P" and x: "x \<in> set (fr p)"
  shows "(pageaddr h p + x, n) \<notin> live_blocks h P fr"
proof
  assume "(pageaddr h p + x, n) \<in> live_blocks h P fr"
  then obtain q y where q: "q \<in> set P" "pageaddr h p + x = pageaddr h q + y" "y < 4096" "y \<notin> set (fr q)"
    by (auto simp: live_blocks_def page_blocks_def)
  have pok: "page_ok (hmem h) (prefs h p) (fr p)" "page_ok (hmem h) (prefs h q) (fr q)"
    using ok p q(1) by (auto simp: heap_pages_def)
  then have x4: "x < 4096" "pageaddr h p mod 4096 = 0" "pageaddr h q mod 4096 = 0" using x by (auto simp: page_ok_def)
  show False
  proof (cases "q = p")
    case True
    then show ?thesis using q x by simp
  next
    case False
    then have "pageaddr h p \<noteq> pageaddr h q" using ok p q(1) by (auto simp: heap_pages_def inj_on_def)
    then show ?thesis using pages_apart [OF x4(2,3) _ x4(1) q(3)] q(2) by blast
  qed
qed

text \<open>When a new page is needed and found, there is a page reference for it.\<close>

definition ref_left :: "kheap \<Rightarrow> bool" where
  "ref_left h \<longleftrightarrow> (\<forall>c va h1. alloc_kpages 1 (hcm h) = (c, va) \<longrightarrow> va \<noteq> 0 \<longrightarrow> allocpageref (h\<lparr>hcm := c\<rparr>) \<noteq> Some (None, h1))"

lemma find_SomeD: "find Q xs = Some x \<Longrightarrow> x \<in> set xs \<and> Q x"
  by (induction xs) (auto split: if_splits)

lemma subpage_kmalloc_ok:
  assumes ok: "kheap_ok h P fr" and sz: "sz < 2048"
    and refs: "ref_left h"
  shows "\<exists>t ptr h'. blocktype sz = Some t \<and> sz \<le> sizes ! t \<and> subpage_kmalloc sz h = Some (ptr, h') \<and>
    allocates ptr (sizes ! t) h P fr h'"
proof -
  have hp: "heap_pages h P fr" and bd: "\<And>p. p \<in> set P \<Longrightarrow> length (fr p) < 4096 div bsize (prefs h p)"
    and ro: "roots_ok h P" and fo: "frames_ok h P"
    using ok by (auto simp: kheap_ok_def heap_ok_def)
  obtain t where t: "blocktype sz = Some t" "t < 8" "sz \<le> sizes ! t" using blocktype_fits [OF sz] by blast
  let ?Q = "filter (\<lambda>p. PR_BLOCKTYPE (prefs h p) = t) P"
  have scan: "scan_same h t (sizebases h ! t) = Some (find (\<lambda>p. nfree (prefs h p) > 0) ?Q)"
    using hp t(2) by (intro scan_same_chain) (auto simp: heap_pages_def heap_lists_def)
  have "\<exists>ptr h'. subpage_kmalloc sz h = Some (ptr, h') \<and> allocates ptr (sizes ! t) h P fr h'"
  proof (cases "find (\<lambda>p. nfree (prefs h p) > 0) ?Q")
    case (Some p)
    then have p: "p \<in> set P" "PR_BLOCKTYPE (prefs h p) = t" "nfree (prefs h p) > 0" 
      by (auto dest: find_SomeD)
    then obtain x xs where x: "fr p = x # xs" using hp by (cases "fr p") (auto simp: heap_pages_def page_ok_def)
    obtain h' where h': "doalloc p h = Some (pageaddr h p + x, h')" "heap_pages h' P (fr(p := xs))"
      "live_blocks h' P (fr(p := xs)) = insert (pageaddr h p + x, bsize (prefs h p)) (live_blocks h P fr)"
      "hmem h' = hmem h" "hcm h' = hcm h" "roots h' = roots h" "0 < pageaddr h p + x"
      "\<forall>q. pageaddr_and_blocktype (prefs h' q) = pageaddr_and_blocktype (prefs h q)"
      using doalloc_ok [OF hp p(1) x] by (elim exE conjE) (rule that, assumption+)
    have same: "pageaddr h' q = pageaddr h q" "bsize (prefs h' q) = bsize (prefs h q)" for q
      using h'(8) by (simp_all add: PR_PAGEADDR_def PR_BLOCKTYPE_def bsize_def)
    have "length ((fr(p := xs)) q) < 4096 div bsize (prefs h' q)" if "q \<in> set P" for q
      using bd [OF that] bd [OF p(1)] x by (auto simp: same)
    then have "kheap_ok h' P (fr(p := xs))"
      using h'(2,5,6) ro fo
      by (simp add: kheap_ok_def heap_ok_def roots_ok_def roots_prefix_def ref_used_def frames_ok_def same)
    moreover have "bsize (prefs h p) = sizes ! t" using p(2) by (simp add: bsize_def)
    ultimately show ?thesis
      using t scan Some h'(1,3,4,7) not_live [OF hp p(1), of x "sizes ! t"] x
      by (auto simp: subpage_kmalloc_def allocates_def heap_words_kept_def)
  next
    case None
    obtain c va where a: "alloc_kpages 1 (hcm h) = (c, va)" by fastforce
    have M: "memory_size (hcm h) \<le> 131072" using fo by (simp add: frames_ok_def)
    note al = alloc_page [OF a M]
    show ?thesis
    proof (cases "va = 0")
      case True
      then have "subpage_kmalloc sz h = Some (0, h)"
        using t scan None a al(2) by (simp add: subpage_kmalloc_def)
      moreover have "(0, sizes ! t) \<notin> live_blocks h P fr" using live_blocks_pos [OF hp] by blast
      ultimately show ?thesis using ok by (auto simp: allocates_def heap_words_kept_def)
    next
      case False
      let ?h0 = "h\<lparr>hcm := c\<rparr>"
      have "roots_ok ?h0 P" using ro by (simp add: roots_ok_def roots_prefix_def ref_used_def)
      then obtain r h1 where r: "allocpageref ?h0 = Some (r, h1)" "hmem h1 = hmem h" "prefs h1 = prefs h"
        "sizebases h1 = sizebases h" "allbase h1 = allbase h" "hcm h1 = c \<or> (\<exists>va. alloc_kpages 1 c = (hcm h1, va))"
        "\<forall>p. r = Some p \<longrightarrow> p \<notin> set P \<and> roots_ok h1 (p # P)"
        using allocpageref_ok [of ?h0 P] by auto
      then obtain pr where pr: "r = Some pr" "pr \<notin> set P" "roots_ok h1 (pr # P)" using refs a False unfolding ref_left_def by auto
      have up: "frames_used c \<subseteq> frames_used (hcm h1)" "memory_size (hcm h1) = memory_size (hcm h)"
        using r(6) alloc_page [of c "hcm h1"] M al(1) by auto
      have va: "MIPS_KSEG0 \<le> va" "va mod 4096 = 0" "va < 2 ^ 32" "frame_at va \<notin> frames_used (hcm h)" "frame_at va \<in> frames_used c"
        using al(4) [OF False] by auto
      have new: "\<forall>p \<in> set P. pageaddr h1 p \<noteq> va" using fo va(4) by (auto simp: frames_ok_def r(3))
      have hp1: "heap_pages h1 P fr" and lv1: "live_blocks h1 P fr = live_blocks h P fr"
        using heap_pages_cong [OF r(2-5)] hp by simp_all
      let ?w = "with_page pr va t h1" and ?fr = "fr(pr := all_blocks (sizes ! t))"
      have "0 < va" using False by simp
      note w = with_page_ok [OF hp1 pr(2) va(2) this va(3) new t(2)]
      have sz: "sizes ! t dvd 4096" "0 < sizes ! t" using sizes_dvd [OF t(2)] sizes_pos [OF t(2)] by auto
      then obtain xs where xs: "all_blocks (sizes ! t) = (4096 div sizes ! t - 1) * sizes ! t # xs" using all_blocks_set(3) by blast
      let ?x = "(4096 div sizes ! t - 1) * sizes ! t"
      have pin: "pr \<in> set (pr # P)" and x1: "?fr pr = ?x # xs" using xs by simp_all
      obtain h' where h': "doalloc pr ?w = Some (pageaddr ?w pr + ?x, h')" "heap_pages h' (pr # P) (?fr(pr := xs))"
        "live_blocks h' (pr # P) (?fr(pr := xs)) = insert (pageaddr ?w pr + ?x, bsize (prefs ?w pr)) (live_blocks ?w (pr # P) ?fr)"
        "hmem h' = hmem ?w" "hcm h' = hcm ?w" "roots h' = roots ?w" "0 < pageaddr ?w pr + ?x"
        "\<forall>q. pageaddr_and_blocktype (prefs h' q) = pageaddr_and_blocktype (prefs ?w q)"
        using doalloc_ok [OF w(1) pin x1] by (elim exE conjE) (rule that, assumption+)
      have same: "pageaddr h' q = pageaddr ?w q" "bsize (prefs h' q) = bsize (prefs ?w q)" for q
        using h'(8) by (simp_all add: PR_PAGEADDR_def PR_BLOCKTYPE_def bsize_def)
      have old: "prefs ?w q = prefs h q" if "q \<noteq> pr" for q using that by (simp add: with_page_def r(3))
      have rest: "hcm ?w = hcm h1" "roots ?w = roots h1" by (simp_all add: with_page_def)
      have "length ((?fr(pr := xs)) q) < 4096 div bsize (prefs h' q)" if "q \<in> set (pr # P)" for q
      proof (cases "q = pr")
        case True
        have "length (all_blocks (sizes ! t)) = 4096 div sizes ! t" by (simp add: all_blocks_def)
        then show ?thesis using True xs w(4) by (simp add: same)
      next
        case False
        then show ?thesis using that bd by (simp add: same old)
      qed
      moreover have "roots_ok h' (pr # P)" using pr(3) h'(6) rest(2) by (simp add: roots_ok_def roots_prefix_def ref_used_def)
      moreover have "frames_ok h' (pr # P)"
        unfolding frames_ok_def
      proof (intro conjI ballI)
        show "memory_size (hcm h') \<le> 131072" using h'(5) rest(1) up(2) M by simp
        fix q
        assume "q \<in> set (pr # P)"
        then show "MIPS_KSEG0 \<le> pageaddr h' q" "frame_at (pageaddr h' q) \<in> frames_used (hcm h')"
          using fo va(1,5) up(1) al(3) w(3) old [of q]
          by (cases "q = pr"; auto simp: same h'(5) rest(1) frames_ok_def)+
      qed
      ultimately have "kheap_ok h' (pr # P) (?fr(pr := xs))" using h'(2) by (simp add: kheap_ok_def heap_ok_def)
      moreover have "live_blocks h' (pr # P) (?fr(pr := xs)) = insert (va + ?x, sizes ! t) (live_blocks h P fr)"
        using h'(3) w(2-4) lv1 by simp
      moreover have "(va + ?x, sizes ! t) \<notin> live_blocks h P fr"
        using not_live [OF w(1), of pr ?x "sizes ! t"] xs w(2,3) lv1 by simp
      moreover have "heap_words_kept (live_blocks h P fr) h h'"
      proof -
        have "hmem h' a = hmem h a" if b: "(b, n) \<in> live_blocks h P fr" "b \<le> a" "a < b + n" for a b n
        proof -
          obtain q y where q: "q \<in> set P" "b = pageaddr h q + y" "n = bsize (prefs h q)" "y < 4096" "y mod n = 0"
            using b(1) by (auto simp: live_blocks_def page_blocks_def)
          have k: "page_ok (hmem h) (prefs h q) (fr q)" using hp q(1) by (simp add: heap_pages_def)
          have "y + n \<le> 4096" using block_end [OF k q(4)] q(3,5) by simp
          then have "a - pageaddr h q < 4096" "pageaddr h q \<le> a" using b(2,3) q(2) by auto
          moreover have "pageaddr h q mod 4096 = 0" "pageaddr h q \<noteq> va" using k new q(1) by (auto simp: page_ok_def r(3))
          moreover have "a - va < 4096 \<and> va + (a - va) = a" if "va \<le> a" "a < va + 4096" using that by auto
          ultimately have "\<not> (va \<le> a \<and> a < va + 4096)"
            using pages_apart [of "pageaddr h q" va "a - pageaddr h q" "a - va"] va(2) by auto
          then show ?thesis using w(5) [of a] h'(4) r(2) by simp
        qed
        then show ?thesis by (auto simp: heap_words_kept_def)
      qed
      moreover have "subpage_kmalloc sz h = Some (va + ?x, h')"
        using t scan None a False va(2) r(1) pr(1) h'(1) w(3)
        by (simp add: subpage_kmalloc_def kassert_def with_page_def Let_def r(4,5))
      ultimately show ?thesis using False unfolding allocates_def by (intro exI [of _ "va + ?x"] exI [of _ h']) auto
    qed
  qed
  then show ?thesis using t by blast
qed

end
