(* ===== verification/Kfree.thy ===== *)
theory Kfree
  imports Kheap
begin

text \<open>
  Release of a block of the kernel heap, and the properties of \<^verbatim>\<open>kmalloc\<close> and \<^verbatim>\<open>kfree\<close> together.
\<close>

section \<open>Release\<close>

definition same_page :: "kheap \<Rightarrow> kheap \<Rightarrow> bool" where
  "same_page h h' \<longleftrightarrow> hmem h' = hmem h \<and> hcm h' = hcm h \<and> roots h' = roots h \<and>
     (\<forall>q. pageaddr_and_blocktype (prefs h' q) = pageaddr_and_blocktype (prefs h q) \<and>
        nfree (prefs h' q) = nfree (prefs h q) \<and> freelist_offset (prefs h' q) = freelist_offset (prefs h q))"

lemma same_page_trans: "same_page h h1 \<Longrightarrow> same_page h1 h2 \<Longrightarrow> same_page h h2"
  by (simp add: same_page_def)

lemma same_page_fields:
  assumes "same_page h h'"
  shows "pageaddr h' q = pageaddr h q" and "PR_BLOCKTYPE (prefs h' q) = PR_BLOCKTYPE (prefs h q)"
    and "bsize (prefs h' q) = bsize (prefs h q)" and "page_ok m (prefs h' q) xs = page_ok m (prefs h q) xs"
  using assms by (simp_all add: same_page_def PR_PAGEADDR_def PR_BLOCKTYPE_def bsize_def page_ok_def)

lemma unlink_all:
  assumes c: "pchain (\<lambda>q. next_all (prefs h q)) (allbase h) (ys @ p # zs)" and d: "distinct (ys @ p # zs)"
  shows "\<exists>h'. unlink_ref link_all set_link_all p (next_all (prefs h p)) None h = Some h' \<and> same_page h h' \<and>
    pchain (\<lambda>q. next_all (prefs h' q)) (allbase h') (ys @ zs) \<and> sizebases h' = sizebases h \<and>
    (\<forall>q. next_samesize (prefs h' q) = next_samesize (prefs h q))"
proof -
  let ?h = "set_link_all (if ys = [] then None else Some (last ys)) (next_all (prefs h p)) h"
  have "walk link_all h None (ys @ p # zs)"
    using c walk_pchain [of link_all h "\<lambda>q. next_all (prefs h q)" None] by (simp add: link_all_def)
  then have "unlink_ref link_all set_link_all p (next_all (prefs h p)) None h = Some ?h"
    using d by (intro unlink_ref_walk) auto
  moreover have "(\<lambda>q. next_all (prefs ?h q)) = (if ys = [] then (\<lambda>q. next_all (prefs h q))
      else (\<lambda>q. next_all (prefs h q))(last ys := next_all (prefs h p)))"
    by (auto simp: set_link_all_def fun_eq_iff)
  then have "pchain (\<lambda>q. next_all (prefs ?h q)) (allbase ?h) (ys @ zs)"
    using pchain_unlink [OF c d] by (cases "ys = []") (auto simp: set_link_all_def)
  ultimately show ?thesis by (intro exI [of _ ?h]) (simp add: same_page_def set_link_all_def)
qed

lemma unlink_same:
  assumes c: "pchain (\<lambda>q. next_samesize (prefs h q)) (sizebases h ! t) (ys @ p # zs)" and d: "distinct (ys @ p # zs)"
    and t: "t < length (sizebases h)"
  shows "\<exists>h'. unlink_ref (link_same t) (set_link_same t) p (next_samesize (prefs h p)) None h = Some h' \<and> same_page h h' \<and>
    pchain (\<lambda>q. next_samesize (prefs h' q)) (sizebases h' ! t) (ys @ zs) \<and> allbase h' = allbase h \<and>
    (\<forall>q. next_all (prefs h' q) = next_all (prefs h q)) \<and> length (sizebases h') = length (sizebases h) \<and>
    (\<forall>s. s \<noteq> t \<longrightarrow> sizebases h' ! s = sizebases h ! s) \<and>
    (\<forall>q. q \<notin> set ys \<longrightarrow> next_samesize (prefs h' q) = next_samesize (prefs h q))"
proof -
  let ?h = "set_link_same t (if ys = [] then None else Some (last ys)) (next_samesize (prefs h p)) h"
  have "walk (link_same t) h None (ys @ p # zs)"
    using c walk_pchain [of "link_same t" h "\<lambda>q. next_samesize (prefs h q)" None] by (simp add: link_same_def)
  then have "unlink_ref (link_same t) (set_link_same t) p (next_samesize (prefs h p)) None h = Some ?h"
    using d by (intro unlink_ref_walk) auto
  moreover have "(\<lambda>q. next_samesize (prefs ?h q)) = (if ys = [] then (\<lambda>q. next_samesize (prefs h q))
      else (\<lambda>q. next_samesize (prefs h q))(last ys := next_samesize (prefs h p)))"
    by (auto simp: set_link_same_def fun_eq_iff)
  then have "pchain (\<lambda>q. next_samesize (prefs ?h q)) (sizebases ?h ! t) (ys @ zs)"
    using pchain_unlink [OF c d] t by (cases "ys = []") (auto simp: set_link_same_def)
  ultimately show ?thesis by (intro exI [of _ ?h]) (auto simp: same_page_def set_link_same_def)
qed

lemma remove_lists_ok:
  assumes ok: "heap_lists h P" and p: "p \<in> set P" and t: "PR_BLOCKTYPE (prefs h p) = t" "t < 8"
  shows "\<exists>h'. remove_lists p t h = Some h' \<and> heap_lists h' (remove1 p P) \<and> same_page h h'"
proof -
  let ?Q = "\<lambda>s q. PR_BLOCKTYPE (prefs h q) = s"
  have d: "distinct P" "length (sizebases h) = 8" "pchain (\<lambda>q. next_all (prefs h q)) (allbase h) P"
    and same: "\<And>s. s < 8 \<Longrightarrow> pchain (\<lambda>q. next_samesize (prefs h q)) (sizebases h ! s) (filter (?Q s) P)"
    using ok by (auto simp: heap_lists_def)
  obtain ys zs where P: "P = ys @ p # zs" using p by (meson split_list)
  have "p \<in> set (filter (?Q t) P)" using p t by simp
  then obtain us vs where Q: "filter (?Q t) P = us @ p # vs" by (meson split_list)
  have dQ: "distinct (us @ p # vs)" using d(1) Q by (metis distinct_filter)
  have tl: "t < length (sizebases h)" using t(2) d(2) by simp
  obtain h1 where h1: "unlink_ref (link_same t) (set_link_same t) p (next_samesize (prefs h p)) None h = Some h1"
    "same_page h h1" "pchain (\<lambda>q. next_samesize (prefs h1 q)) (sizebases h1 ! t) (us @ vs)" "allbase h1 = allbase h"
    "\<forall>q. next_all (prefs h1 q) = next_all (prefs h q)" "length (sizebases h1) = length (sizebases h)"
    "\<forall>s. s \<noteq> t \<longrightarrow> sizebases h1 ! s = sizebases h ! s"
    "\<forall>q. q \<notin> set us \<longrightarrow> next_samesize (prefs h1 q) = next_samesize (prefs h q)"
    using unlink_same [OF same [OF t(2), unfolded Q] dQ tl] by (elim exE conjE) (rule that, assumption+)
  have c1: "pchain (\<lambda>q. next_all (prefs h1 q)) (allbase h1) (ys @ p # zs)" using d(3) h1(4,5) P by simp
  obtain h2 where h2: "unlink_ref link_all set_link_all p (next_all (prefs h1 p)) None h1 = Some h2" "same_page h1 h2"
    "pchain (\<lambda>q. next_all (prefs h2 q)) (allbase h2) (ys @ zs)" "sizebases h2 = sizebases h1"
    "\<forall>q. next_samesize (prefs h2 q) = next_samesize (prefs h1 q)"
    using unlink_all [OF c1] d(1) P by blast
  have run: "remove_lists p t h = Some h2" using t(2) h1(1,5) h2(1) by (simp add: remove_lists_def kassert_def)
  note sp = same_page_trans [OF h1(2) h2(2)]
  have rm: "remove1 p P = ys @ zs" using d(1) P by (simp add: remove1_append)
  have "pchain (\<lambda>q. next_samesize (prefs h2 q)) (sizebases h2 ! s) (filter (\<lambda>q. PR_BLOCKTYPE (prefs h2 q) = s) (remove1 p P))"
    if s: "s < 8" for s
  proof -
    have f: "filter (\<lambda>q. PR_BLOCKTYPE (prefs h2 q) = s) (remove1 p P) = remove1 p (filter (?Q s) P)"
      by (simp add: same_page_fields(2) [OF sp] filter_remove1)
    show ?thesis
    proof (cases "s = t")
      case True
      have "remove1 p (filter (?Q t) P) = us @ vs" using dQ Q by (simp add: remove1_append)
      then show ?thesis using h1(3) h2(4,5) f True by simp
    next
      case False
      have "p \<notin> set (filter (?Q s) P)" using t False by simp
      then have r: "remove1 p (filter (?Q s) P) = filter (?Q s) P" by (rule remove1_idem)
      have "PR_BLOCKTYPE (prefs h q) = t" if "q \<in> set us" for q
      proof -
        have "q \<in> set (filter (?Q t) P)" using that Q by simp
        then show ?thesis by simp
      qed
      then have "q \<notin> set us" if "q \<in> set (filter (?Q s) P)" for q using that False by auto
      then have "pchain (\<lambda>q. next_samesize (prefs h2 q)) (sizebases h ! s) (filter (?Q s) P)"
        using same [OF s] pchain_cong [of "filter (?Q s) P" "\<lambda>q. next_samesize (prefs h2 q)" "\<lambda>q. next_samesize (prefs h q)"]
          h1(8) h2(5) by simp
      then show ?thesis using f r h1(7) h2(4) False by simp
    qed
  qed
  then have "heap_lists h2 (remove1 p P)"
    using d h1(6) h2(3,4) unfolding heap_lists_def rm by (simp add: P)
  then show ?thesis using run sp by blast
qed


lemma multiples_apart:
  assumes "x mod n = 0" and "y mod n = 0" and "x \<noteq> (y :: nat)" and "i < n"
  shows "\<not> (x \<le> y + i \<and> y + i < x + n)"
proof
  assume a: "x \<le> y + i \<and> y + i < x + n"
  obtain j where "x = n * j" using assms(1) by (metis dvdE mod_eq_0_iff_dvd)
  moreover obtain k where "y = n * k" using assms(2) by (metis dvdE mod_eq_0_iff_dvd)
  ultimately have jk: "x = n * j" "y = n * k" by simp_all
  have "n * j < n * (k + 1)" "n * k < n * (j + 1)" using a assms(4) unfolding jk by (simp_all add: distrib_left)
  then have "j < k + 1" "k < j + 1" by (simp_all only: mult_less_cancel1)
  then show False using assms(3) jk by simp
qed

text \<open>Two blocks in use have no address in common.\<close>

lemma live_apart:
  assumes ok: "heap_pages h P fr" and p: "p \<in> set P" "x < 4096" "x mod bsize (prefs h p) = 0"
    and c: "(b, n) \<in> live_blocks h P fr" "(b, n) \<noteq> (pageaddr h p + x, bsize (prefs h p))" "b \<le> a" "a < b + n"
  shows "\<not> (pageaddr h p + x \<le> a \<and> a < pageaddr h p + x + bsize (prefs h p))"
proof -
  obtain q y where q: "q \<in> set P" "b = pageaddr h q + y" "n = bsize (prefs h q)" "y < 4096" "y mod n = 0"
    using c(1) by (auto simp: live_blocks_def page_blocks_def)
  have kp: "page_ok (hmem h) (prefs h p) (fr p)" and kq: "page_ok (hmem h) (prefs h q) (fr q)"
    using ok p(1) q(1) by (auto simp: heap_pages_def)
  have e: "x + bsize (prefs h p) \<le> 4096" "y + n \<le> 4096" using block_end [OF kp p(2,3)] block_end [OF kq q(4)] q(3,5) by simp_all
  obtain i where i: "a = b + i" "i < n" using c(3,4) by (metis le_Suc_ex nat_add_left_cancel_less)
  show ?thesis
  proof (cases "q = p")
    case True
    then have "x \<noteq> y" using c(2) q(2,3) by auto
    then show ?thesis using multiples_apart [of x n y i] p(3) q i True by simp
  next
    case False
    then have "pageaddr h p \<noteq> pageaddr h q" using ok p(1) q(1) by (auto simp: heap_pages_def inj_on_def)
    moreover have "a - pageaddr h p < 4096 \<and> pageaddr h p + (a - pageaddr h p) = a"
      if "pageaddr h p + x \<le> a" "a < pageaddr h p + x + bsize (prefs h p)"
      using that e(1) by simp
    moreover have "y + i < 4096" using e(2) i(2) by simp
    ultimately show ?thesis
      using pages_apart [of "pageaddr h p" "pageaddr h q" "a - pageaddr h p" "y + i"] kp kq i(1) q(2)
      by (auto simp: page_ok_def)
  qed
qed

text \<open>The page of an address.\<close>

lemma scan_all_page:
  assumes ok: "heap_pages h P fr" and p: "p \<in> set P" "x < 4096"
  shows "scan_all h (pageaddr h p + x) (allbase h) = Some (Some p)"
proof -
  let ?Q = "\<lambda>q. pageaddr h q \<le> pageaddr h p + x \<and> pageaddr h p + x < pageaddr h q + 4096"
  have "scan_all h (pageaddr h p + x) (allbase h) = Some (find ?Q P)"
    using ok by (intro scan_all_chain) (auto simp: heap_pages_def heap_lists_def page_ok_def)
  moreover have "q = p" if "q \<in> set P" "?Q q" for q
  proof (rule ccontr)
    assume "q \<noteq> p"
    then have "pageaddr h q \<noteq> pageaddr h p" "pageaddr h q mod 4096 = 0" "pageaddr h p mod 4096 = 0"
      using ok p that(1) by (auto simp: heap_pages_def inj_on_def page_ok_def)
    moreover have "pageaddr h p + x - pageaddr h q < 4096"
      "pageaddr h q + (pageaddr h p + x - pageaddr h q) = pageaddr h p + x" using that(2) by arith+
    ultimately show False using pages_apart [of "pageaddr h q" "pageaddr h p" "pageaddr h p + x - pageaddr h q" x] p(2) by metis
  qed
  moreover have "find ?Q P \<noteq> None" using p unfolding find_None_iff by (intro notI) (erule notE, rule exI [of _ p], simp)
  ultimately obtain q where q: "find ?Q P = Some q" "scan_all h (pageaddr h p + x) (allbase h) = Some (find ?Q P)"
      "\<And>q. q \<in> set P \<Longrightarrow> ?Q q \<Longrightarrow> q = p" by blast
  then show ?thesis using find_SomeD [OF q(1)] by simp
qed


text \<open>The block pushed on the free list of its page.\<close>

definition pushed :: "nat \<Rightarrow> nat \<Rightarrow> kheap \<Rightarrow> kheap" where
  "pushed p x h =
    (let b = pageaddr h p + x in
     upd_ref p (\<lambda>r. r\<lparr>freelist_offset := x, nfree := nfree r + 1\<rparr>)
       (h\<lparr>hmem := (fill_deadbeef b (bsize (prefs h p)) (hmem h))
            (b := if freelist_offset (prefs h p) = INVALID_OFFSET then 0
                  else pageaddr h p + freelist_offset (prefs h p))\<rparr>))"

lemma pushed_parts:
  "prefs (pushed p x h) = (prefs h)(p := (prefs h p)\<lparr>freelist_offset := x, nfree := nfree (prefs h p) + 1\<rparr>)"
  "hcm (pushed p x h) = hcm h" "roots (pushed p x h) = roots h" "allbase (pushed p x h) = allbase h"
  "sizebases (pushed p x h) = sizebases h"
  "pageaddr (pushed p x h) q = pageaddr h q" "bsize (prefs (pushed p x h) q) = bsize (prefs h q)"
  "PR_BLOCKTYPE (prefs (pushed p x h) q) = PR_BLOCKTYPE (prefs h q)"
  by (simp_all add: pushed_def Let_def)

lemma pushed_words:
  assumes "\<not> (pageaddr h p + x \<le> a \<and> a < pageaddr h p + x + bsize (prefs h p))" and "0 < bsize (prefs h p)"
  shows "hmem (pushed p x h) a = hmem h a"
  using fill_deadbeef_outside [OF assms(1)] assms by (auto simp: pushed_def Let_def)

lemma pushed_ok:
  assumes ok: "heap_pages h P fr" and p: "p \<in> set P" and x: "x < 4096" "x mod bsize (prefs h p) = 0" "x \<notin> set (fr p)"
  shows "heap_pages (pushed p x h) P (fr(p := x # fr p))"
    and "live_blocks (pushed p x h) P (fr(p := x # fr p)) = live_blocks h P fr - {(pageaddr h p + x, bsize (prefs h p))}"
    and "heap_words_kept (live_blocks h P fr - {(pageaddr h p + x, bsize (prefs h p))}) h (pushed p x h)"
proof -
  let ?r = "(prefs h p)\<lparr>freelist_offset := x, nfree := nfree (prefs h p) + 1\<rparr>"
  have k: "page_ok (hmem h) (prefs h p) (fr p)" using ok p by (simp add: heap_pages_def)
  have n: "0 < bsize (prefs h p)" "x + bsize (prefs h p) \<le> 4096" using page_size [OF k] block_end [OF k x(1,2)] by simp_all
  note f = pushed_parts
  have "hmem (pushed p x h) (pageaddr h p + y) = hmem h (pageaddr h p + y)" if "y \<in> set (fr p)" for y
  proof (rule pushed_words [OF _ n(1)])
    have "y mod bsize (prefs h p) = 0" "x \<noteq> y" using k that x(3) by (auto simp: page_ok_def)
    then show "\<not> (pageaddr h p + x \<le> pageaddr h p + y \<and> pageaddr h p + y < pageaddr h p + x + bsize (prefs h p))"
      using multiples_apart [of x "bsize (prefs h p)" y 0] x(2) n(1) by simp
  qed
  then have "links (hmem (pushed p x h)) (pageaddr h p) (fr p)"
    using links_cong [of "fr p" "hmem (pushed p x h)" "pageaddr h p" "hmem h"] k by (simp add: page_ok_def)
  moreover have "hmem (pushed p x h) (pageaddr h p + x) = (case fr p of [] \<Rightarrow> 0 | y # _ \<Rightarrow> pageaddr h p + y)"
    using k by (auto simp: pushed_def Let_def page_ok_def split: list.splits)
  ultimately have "page_ok (hmem (pushed p x h)) ?r (x # fr p)"
    using k x unfolding page_ok_def by (simp add: links_Cons)
  then show "heap_pages (pushed p x h) P (fr(p := x # fr p))"
    by (intro heap_pages_page [OF ok p, where r' = ?r]) (use f pushed_words [of h p x] n in auto)
  show "live_blocks (pushed p x h) P (fr(p := x # fr p)) = live_blocks h P fr - {(pageaddr h p + x, bsize (prefs h p))}"
    by (rule live_blocks_give [OF ok p, where r' = ?r]) (use f x in auto)
  show "heap_words_kept (live_blocks h P fr - {(pageaddr h p + x, bsize (prefs h p))}) h (pushed p x h)"
    using live_apart [OF ok p x(1,2)] pushed_words [of h p x, OF _ n(1)] by (auto simp: heap_words_kept_def)
qed


text \<open>The release of a block in use, up to the return of an emptied page.\<close>

lemma subpage_kfree_pushed:
  assumes ok: "heap_pages h P fr" and p: "p \<in> set P" and x: "x < 4096" "x mod bsize (prefs h p) = 0" "x \<notin> set (fr p)"
    and room: "length (fr p) < 4096 div bsize (prefs h p)"
  shows "subpage_kfree (pageaddr h p + x) h =
    (if length (fr p) + 1 = 4096 div bsize (prefs h p) then do {
       h2 \<leftarrow> remove_lists p (PR_BLOCKTYPE (prefs h p)) (pushed p x h);
       h3 \<leftarrow> freepageref p h2;
       c \<leftarrow> free_kpages (pageaddr h p) (hcm h3);
       Some (True, h3\<lparr>hcm := c\<rparr>)
     }
     else Some (True, pushed p x h))"
proof -
  have k: "page_ok (hmem h) (prefs h p) (fr p)" using ok p by (simp add: heap_pages_def)
  have nxt: "(if freelist_offset (prefs h p) = INVALID_OFFSET then 0 else pageaddr h p + freelist_offset (prefs h p))
      \<noteq> pageaddr h p + x"
    using k x(3) by (cases "fr p") (auto simp: page_ok_def)
  have nf: "nfree (prefs h p) = length (fr p)" using k by (simp add: page_ok_def)
  show ?thesis
    using scan_all_page [OF ok p x(1)] nxt room x(1,2)
    by (simp add: subpage_kfree_def pushed_def Let_def kassert_def nf bsize_def [symmetric] cong: if_cong)
qed

text \<open>A page leaves the heap.\<close>

lemma heap_pages_drop:
  assumes ok: "heap_pages h P fr" and p: "p \<in> set P" and l: "heap_lists h' (remove1 p P)" "same_page h h'"
  shows "heap_pages h' (remove1 p P) fr"
    and "live_blocks h' (remove1 p P) fr = (\<Union>q \<in> set P - {p}. page_blocks (prefs h q) (fr q))"
proof -
  note f = same_page_fields [OF l(2)]
  have s: "set (remove1 p P) = set P - {p}" using ok by (simp add: heap_pages_def heap_lists_def)
  have "page_ok (hmem h') (prefs h' q) (fr q)" if "q \<in> set P" for q
    using ok that f(4) l(2) by (simp add: heap_pages_def same_page_def)
  then show "heap_pages h' (remove1 p P) fr"
    using ok l(1) unfolding heap_pages_def s by (auto simp: f(1) inj_on_def)
  show "live_blocks h' (remove1 p P) fr = (\<Union>q \<in> set P - {p}. page_blocks (prefs h q) (fr q))"
    unfolding live_blocks_def s page_blocks_def by (simp add: f(1,3))
qed

lemma page_all_free:
  assumes k: "page_ok m r fr" and l: "length fr = 4096 div bsize r"
  shows "page_blocks r fr = {}"
proof -
  have b: "bsize r dvd 4096" "0 < bsize r" using page_size [OF k] by simp_all
  have "set fr \<subseteq> set (all_blocks (bsize r))" using k all_blocks_set(1) [OF b] by (auto simp: page_ok_def)
  moreover have "card (set fr) = card (set (all_blocks (bsize r)))"
    using k l all_blocks_set(2) [OF b] by (simp add: page_ok_def distinct_card) (simp add: all_blocks_def)
  ultimately have "set fr = {x. x < 4096 \<and> x mod bsize r = 0}"
    using card_subset_eq [of "set (all_blocks (bsize r))" "set fr"] all_blocks_set(1) [OF b] by simp
  then show ?thesis by (auto simp: page_blocks_def)
qed


lemma page_blocks_none:
  assumes k: "page_ok m r fr" and e: "page_blocks r fr \<subseteq> {(PR_PAGEADDR r + x, bsize r)}"
    and x: "x < 4096" "x mod bsize r = 0" "x \<notin> set fr"
  shows "length fr + 1 = 4096 div bsize r"
proof -
  have b: "bsize r dvd 4096" "0 < bsize r" using page_size [OF k] by simp_all
  have g1: "y \<in> insert x (set fr)" if "y < 4096" "y mod bsize r = 0" for y
  proof (rule ccontr)
    assume "y \<notin> insert x (set fr)"
    then have "(PR_PAGEADDR r + y, bsize r) \<in> page_blocks r fr" "y \<noteq> x" using that by (auto simp: page_blocks_def)
    then show False using e by auto
  qed
  have g2: "y < 4096 \<and> y mod bsize r = 0" if "y \<in> insert x (set fr)" for y
    using that k x(1,2) unfolding page_ok_def by blast
  have "insert x (set fr) = {y. y < 4096 \<and> y mod bsize r = 0}"
  proof (rule set_eqI)
    fix y
    show "y \<in> insert x (set fr) \<longleftrightarrow> y \<in> {y. y < 4096 \<and> y mod bsize r = 0}"
      unfolding mem_Collect_eq by (rule iffI, rule g2, assumption) (elim conjE, rule g1)
  qed
  then have "insert x (set fr) = set (all_blocks (bsize r))" using all_blocks_set(1) [OF b] by simp
  moreover have "card (insert x (set fr)) = length fr + 1" using k x(3) by (simp add: page_ok_def distinct_card)
  moreover have "card (set (all_blocks (bsize r))) = 4096 div bsize r"
    using distinct_card [OF all_blocks_set(2) [OF b]] by (simp add: all_blocks_def)
  ultimately show ?thesis by simp
qed

text \<open>A release frees the block and nothing else of the heap; the page of the last block goes back.\<close>

lemma kfree_live:
  assumes ok: "kheap_ok h P fr" and b: "(b, n) \<in> live_blocks h P fr"
  shows "\<exists>h' P' fr'. kheap_ok h' P' fr' \<and> live_blocks h' P' fr' = live_blocks h P fr - {(b, n)} \<and>
    heap_words_kept (live_blocks h P fr - {(b, n)}) h h' \<and> hcm h' = hcm h \<and>
    kfree b h = (if \<exists>p \<in> set P. page_blocks (prefs h p) (fr p) = {(b, n)}
      then map_option (\<lambda>c. h'\<lparr>hcm := c\<rparr>) (free_kpages (b div PAGE_SIZE * PAGE_SIZE) (hcm h)) else Some h')"
proof -
  have hp: "heap_pages h P fr" and bd: "\<And>p. p \<in> set P \<Longrightarrow> length (fr p) < 4096 div bsize (prefs h p)"
    and ro: "roots_ok h P" and fo: "frames_ok h P"
    using ok by (auto simp: kheap_ok_def heap_ok_def)
  obtain p x where p: "p \<in> set P" "b = pageaddr h p + x" "n = bsize (prefs h p)" "x < 4096" "x mod bsize (prefs h p) = 0"
    "x \<notin> set (fr p)"
    using b by (auto simp: live_blocks_def page_blocks_def)
  have k: "page_ok (hmem h) (prefs h p) (fr p)" using hp p(1) by (simp add: heap_pages_def)
  have bn: "(pageaddr h p + x, bsize (prefs h p)) = (b, n)" using p(2,3) by simp
  have page: "b div 4096 * 4096 = pageaddr h p"
    using k p(2,4) by (auto simp: page_ok_def elim!: dvdE)
  let ?h1 = "pushed p x h" and ?fr = "fr(p := x # fr p)"
  note ps = pushed_ok [OF hp p(1,4-6), unfolded bn]
  have ro1: "roots_ok ?h1 P" using ro by (simp add: roots_ok_def roots_prefix_def ref_used_def pushed_parts)
  have only: "(\<exists>q \<in> set P. page_blocks (prefs h q) (fr q) = {(b, n)}) \<longleftrightarrow> length (fr p) + 1 = 4096 div bsize (prefs h p)"
  proof
    assume "\<exists>q \<in> set P. page_blocks (prefs h q) (fr q) = {(b, n)}"
    then obtain q where q: "q \<in> set P" "page_blocks (prefs h q) (fr q) = {(b, n)}" by blast
    then have "(b, n) \<in> page_blocks (prefs h q) (fr q)" by simp
    then obtain y where y: "b = pageaddr h q + y" "y < 4096" by (auto simp: page_blocks_def)
    have "scan_all h b (allbase h) = Some (Some q)" "scan_all h b (allbase h) = Some (Some p)"
      using scan_all_page [OF hp q(1) y(2)] scan_all_page [OF hp p(1,4)] y(1) p(2) by simp_all
    then show "length (fr p) + 1 = 4096 div bsize (prefs h p)"
      using page_blocks_none [OF k _ p(4-6)] q(2) p(2,3) by simp
  next
    assume l: "length (fr p) + 1 = 4096 div bsize (prefs h p)"
    have "page_ok (hmem ?h1) (prefs ?h1 p) (?fr p)" using ps(1) p(1) unfolding heap_pages_def by blast
    then have "page_blocks (prefs ?h1 p) (x # fr p) = {}" using page_all_free l by (simp add: pushed_parts)
    then have "page_blocks (prefs h p) (fr p) \<subseteq> {(b, n)}"
      using bn by (auto simp: page_blocks_def pushed_parts bsize_def)
    moreover have "(b, n) \<in> page_blocks (prefs h p) (fr p)" using p by (auto simp: page_blocks_def)
    ultimately show "\<exists>q \<in> set P. page_blocks (prefs h q) (fr q) = {(b, n)}" using p(1) by blast
  qed
  note free = subpage_kfree_pushed [OF hp p(1,4-6) bd [OF p(1)], unfolded p(2) [symmetric]]
  have pos: "b \<noteq> 0" using live_blocks_pos [OF hp b] by simp
  show ?thesis
  proof (cases "length (fr p) + 1 = 4096 div bsize (prefs h p)")
    case False
    then have run: "kfree b h = Some ?h1" using free pos by (simp add: kfree_def)
    have "length (?fr q) < 4096 div bsize (prefs ?h1 q)" if "q \<in> set P" for q
      using bd [OF that] bd [OF p(1)] False by (simp add: pushed_parts)
    moreover have "frames_ok ?h1 P" using fo by (simp add: frames_ok_def pushed_parts)
    ultimately have "kheap_ok ?h1 P ?fr" using ps(1) ro1 by (simp add: kheap_ok_def heap_ok_def)
    then show ?thesis using ps(2,3) only False run by (auto simp: pushed_parts)
  next
    case True
    have t: "PR_BLOCKTYPE (prefs h p) < 8" using k by (simp add: page_ok_def)
    have hl: "heap_lists ?h1 P" "distinct P" using ps(1) by (simp_all add: heap_pages_def heap_lists_def)
    obtain h2 where h2: "remove_lists p (PR_BLOCKTYPE (prefs h p)) ?h1 = Some h2" "heap_lists h2 (remove1 p P)" "same_page ?h1 h2"
      using remove_lists_ok [OF hl(1) p(1) pushed_parts(8) t] by (elim exE conjE) (rule that, assumption+)
    have ro2: "roots_ok h2 P" using ro1 h2(3) by (simp add: roots_ok_def roots_prefix_def ref_used_def same_page_def)
    obtain h3 where h3: "freepageref p h2 = Some h3" "roots_ok h3 (remove1 p P)" "hmem h3 = hmem h2" "prefs h3 = prefs h2"
      "sizebases h3 = sizebases h2" "allbase h3 = allbase h2" "hcm h3 = hcm h2"
      using freepageref_ok [OF ro2 p(1) hl(2)] by (elim exE conjE) (rule that, assumption+)
    note dr = heap_pages_drop [OF ps(1) p(1) h2(2,3)]
    note f = same_page_fields [OF h2(3)]
    have cm: "hcm h3 = hcm h" using h2(3) h3(7) by (simp add: same_page_def pushed_parts)
    have run: "kfree b h = map_option (\<lambda>c. h3\<lparr>hcm := c\<rparr>) (free_kpages (b div 4096 * 4096) (hcm h))"
      using free pos True h2(1) h3(1) cm page by (cases "free_kpages (pageaddr h p) (hcm h)") (simp_all add: kfree_def)
    have hp3: "heap_pages h3 (remove1 p P) ?fr" and lv3: "live_blocks h3 (remove1 p P) ?fr = live_blocks h2 (remove1 p P) ?fr"
      using heap_pages_cong [OF h3(3-6)] dr(1) by simp_all
    have s: "set (remove1 p P) = set P - {p}" using hl(2) by simp
    have "length (?fr q) < 4096 div bsize (prefs h3 q)" if "q \<in> set (remove1 p P)" for q
      using that bd s by (simp add: h3(4) f(3) pushed_parts)
    moreover have "frames_ok h3 (remove1 p P)"
      using fo s by (simp add: frames_ok_def cm h3(4) f(1) pushed_parts)
    ultimately have kok: "kheap_ok h3 (remove1 p P) ?fr" using hp3 h3(2) by (simp add: kheap_ok_def heap_ok_def)
    have "page_ok (hmem ?h1) (prefs ?h1 p) (?fr p)" using ps(1) p(1) unfolding heap_pages_def by blast
    then have "page_blocks (prefs ?h1 p) (?fr p) = {}" using page_all_free True by (simp add: pushed_parts)
    moreover have "live_blocks ?h1 P ?fr = page_blocks (prefs ?h1 p) (?fr p) \<union>
        (\<Union>q \<in> set P - {p}. page_blocks (prefs ?h1 q) (?fr q))"
      unfolding live_blocks_def by (subst insert_Diff [OF p(1), symmetric]) (rule UN_insert)
    ultimately have "live_blocks h3 (remove1 p P) ?fr = live_blocks ?h1 P ?fr" unfolding lv3 dr(2) by simp
    then have "live_blocks h3 (remove1 p P) ?fr = live_blocks h P fr - {(b, n)}" using ps(2) by simp
    moreover have "heap_words_kept (live_blocks h P fr - {(b, n)}) h h3"
      using ps(3) h3(3) h2(3) by (simp add: heap_words_kept_def same_page_def)
    ultimately show ?thesis using kok cm only True run by auto
  qed
qed


section \<open>Properties\<close>

lemma live_disjoint:
  assumes ok: "heap_pages h P fr" and b: "(b, n) \<in> live_blocks h P fr" and c: "(c, m) \<in> live_blocks h P fr" "(c, m) \<noteq> (b, n)"
  shows "{c..<c + m} \<inter> {b..<b + n} = {}"
proof -
  obtain p x where p: "p \<in> set P" "b = pageaddr h p + x" "n = bsize (prefs h p)" "x < 4096" "x mod bsize (prefs h p) = 0"
    using b by (auto simp: live_blocks_def page_blocks_def)
  have "\<not> (b \<le> a \<and> a < b + n)" if "c \<le> a" "a < c + m" for a
    using live_apart [OF ok p(1,4,5) c(1) _ that] c(2) p(2,3) by simp
  then have "a \<notin> {c..<c + m} \<inter> {b..<b + n}" for a by (simp only: Int_iff atLeastLessThan_iff) blast
  then show ?thesis by blast
qed

lemma blocktype_size: "blocktype sz = Some t \<Longrightarrow> sizes ! t \<in> set sizes"
  by (rule nth_mem) (auto simp: blocktype_def find_from_Some sizes_def)

lemma kmalloc_small:
  assumes ok: "kheap_ok h P fr" and sz: "sz < 2048"
    and refs: "ref_left h"
  shows "\<exists>ptr n h' P' fr'. kmalloc sz h = Some (ptr, h') \<and> kheap_ok h' P' fr' \<and> sz \<le> n \<and> n \<in> set sizes \<and>
    live_blocks h' P' fr' = (if ptr = 0 then live_blocks h P fr else insert (ptr, n) (live_blocks h P fr)) \<and>
    (ptr \<noteq> 0 \<longrightarrow> (\<forall>(b, m) \<in> live_blocks h P fr. {b..<b + m} \<inter> {ptr..<ptr + n} = {})) \<and>
    heap_words_kept (live_blocks h P fr) h h'"
proof -
  obtain t ptr h' where r: "blocktype sz = Some t" "sz \<le> sizes ! t" "subpage_kmalloc sz h = Some (ptr, h')"
    "allocates ptr (sizes ! t) h P fr h'"
    using subpage_kmalloc_ok [OF ok sz refs] by (elim exE conjE) (rule that, assumption+)
  then obtain P' fr' where a: "kheap_ok h' P' fr'"
    "live_blocks h' P' fr' = (if ptr = 0 then live_blocks h P fr else insert (ptr, sizes ! t) (live_blocks h P fr))"
    "(ptr, sizes ! t) \<notin> live_blocks h P fr" "heap_words_kept (live_blocks h P fr) h h'"
    unfolding allocates_def by (elim exE conjE) (rule that, assumption+)
  have hp: "heap_pages h' P' fr'" using a(1) by (simp add: kheap_ok_def heap_ok_def)
  have "{b..<b + m} \<inter> {ptr..<ptr + sizes ! t} = {}" if "ptr \<noteq> 0" "(b, m) \<in> live_blocks h P fr" for b m
    by (rule live_disjoint [OF hp]) (use that a(2,3) in auto)
  moreover have "kmalloc sz h = Some (ptr, h')" using r(3) sz by (simp add: kmalloc_def)
  ultimately show ?thesis using a r(2) blocktype_size [OF r(1)]
    by (intro exI [of _ ptr] exI [of _ "sizes ! t"] exI [of _ h'] exI [of _ P'] exI [of _ fr']) auto
qed

definition boot_heap :: "cmap \<Rightarrow> kheap" where
  "boot_heap c = \<lparr>hmem = (\<lambda>a. 0), hcm = c, prefs = (\<lambda>p. \<lparr>next_samesize = None, next_all = None,
     pageaddr_and_blocktype = 0, freelist_offset = 0, nfree = 0\<rparr>), sizebases = replicate NSIZES None, allbase = None,
     roots = replicate NUM_PAGEREFPAGES \<lparr>refs_page = None, pagerefs_inuse = replicate INUSE_WORDS 0, numinuse = 0\<rparr>\<rparr>"

text \<open>The heap at boot.\<close>

lemma boot_heap_ok:
  assumes "memory_size c \<le> 131072"
  shows "kheap_ok (boot_heap c) [] fr" and "live_blocks (boot_heap c) [] fr = {}"
proof -
  have b: "\<not> ref_bit \<lparr>refs_page = None, pagerefs_inuse = replicate INUSE_WORDS 0, numinuse = 0\<rparr> j" if "j < 256" for j
    using that by (simp add: ref_bit_def)
  have "roots_prefix (boot_heap c) 0" by (simp add: roots_prefix_def boot_heap_def)
  then have "roots_ok (boot_heap c) []" using b by (auto simp: roots_ok_def root_ok_def boot_heap_def)
  moreover have "heap_pages (boot_heap c) [] fr" by (simp add: heap_pages_def heap_lists_def boot_heap_def)
  ultimately show "kheap_ok (boot_heap c) [] fr"
    using assms by (simp add: kheap_ok_def heap_ok_def frames_ok_def) (simp add: boot_heap_def)
  show "live_blocks (boot_heap c) [] fr = {}" by (simp add: live_blocks_def)
qed

text \<open>Six free frames behind a reserved one.\<close>

definition small_coremap :: cmap where
  "small_coremap = \<lparr>coremap = \<lparr>is_reserved = True, is_free = False, chunk_size = 0\<rparr> #
     replicate 6 \<lparr>is_reserved = False, is_free = True, chunk_size = 0\<rparr>, used = 1, coremap_size = 1, coremap_addr = 0\<rparr>"

lemma small_coremap_pages:
  "\<exists>c c2. alloc_kpages 1 small_coremap = (c, 0x80002000) \<and> alloc_kpages 1 c = (c2, 0x80003000)"
  by (simp add: small_coremap_def alloc_kpages_def getppages_def coremap_allocate_def take_chunk_def alloc_scan.simps
      upt_rec numeral_eq_Suc [where k = "Num.Bit0 Num.One"])


lemma boot_ref_left: "ref_left (boot_heap small_coremap)"
proof -
  obtain c c2 where c: "alloc_kpages 1 small_coremap = (c, 0x80002000)" "alloc_kpages 1 c = (c2, 0x80003000)"
    using small_coremap_pages by blast
  have e: "[0..<16] = (0 :: nat) # [1..<16]" by (simp add: upt_rec)
  have "\<exists>h. allocpageref ((boot_heap small_coremap)\<lparr>hcm := c\<rparr>) = Some (Some 0, h)"
    unfolding allocpageref_def e using c(2)
    by (simp add: boot_heap_def find_from.simps allocpagerefpage_def kassert_def upd_root_def mark_ref_def)
  then show ?thesis using c(1) by (auto simp: ref_left_def) (simp_all add: boot_heap_def)
qed



lemma alloc_scan_zero: "i < length cm \<Longrightarrow> alloc_scan cm 0 i 0 = Some i"
  by (simp add: alloc_scan.simps)

text \<open>The number of pages wraps: a request of the last 4095 sizes succeeds without taking a page.\<close>

theorem kmalloc_wraps:
  assumes "2 ^ 32 - 4096 < sz" and "sz < 2 ^ 32" and "used (hcm h) < memory_size (hcm h)" and "memory_size (hcm h) \<le> 131072"
  shows "kmalloc sz h = Some (MIPS_KSEG0 + (used (hcm h) + 1) * PAGE_SIZE, h)"
proof -
  have "(sz + 4096 - 1) mod 2 ^ 32 div 4096 = (0 :: nat)"
  proof -
    have "2 ^ 32 - 4095 \<le> sz" using assms(1) by simp
    then obtain k where "sz = 2 ^ 32 - 4095 + k" by (metis le_Suc_ex)
    then show ?thesis using assms(2) by simp
  qed
  moreover have "coremap_allocate 0 (hcm h) = (hcm h, (used (hcm h) + 1) * 4096)"
    using assms(3) by (simp add: coremap_allocate_def alloc_scan_zero memory_size_def take_chunk_def)
  ultimately show ?thesis
    using assms(1,3,4) by (simp add: kmalloc_def alloc_kpages_def getppages_def Let_def kassert_def mod_add_eq)
qed


lemma boot_allocates: "\<exists>ptr h. kmalloc 2000 (boot_heap small_coremap) = Some (ptr, h) \<and> ptr \<noteq> 0"
proof -
  obtain c c2 where c: "alloc_kpages 1 small_coremap = (c, 0x80002000)" "alloc_kpages 1 c = (c2, 0x80003000)"
    using small_coremap_pages by blast
  have e: "[0..<16] = (0 :: nat) # [1..<16]" by (simp add: upt_rec)
  have b: "blocktype 2000 = Some 7" by (simp add: blocktype_def find_from.simps sizes_def)
  have sc: "scan_same h 7 None = Some None" for h by (subst scan_same.simps) simp
  have s: "sizes ! 7 = 2048" by (simp add: sizes_def)
  have u: "[Suc 0..<2] = [Suc 0]" by (simp add: upt_rec)
  have "allocpageref ((boot_heap small_coremap)\<lparr>hcm := c\<rparr>) = Some (Some 0,
      upd_root 0 (\<lambda>x. x\<lparr>refs_page := Some 0x80003000\<rparr>) ((upd_root 0 (mark_ref 0 0) (boot_heap small_coremap))\<lparr>hcm := c2\<rparr>))"
    unfolding allocpageref_def e using c(2)
    by (simp add: boot_heap_def find_from.simps allocpagerefpage_def kassert_def upd_root_def mark_ref_def)
  then show ?thesis
    using c(1) MKPAB_parts [of "0x80002000" 7] b sc s u
    by (simp add: kmalloc_def subpage_kmalloc_def boot_heap_def kassert_def doalloc_def upd_root_def upd_ref_def
        PR_PAGEADDR_def thread_page_def Let_def)
qed


theorem kmalloc_wraps_witness:
  "kmalloc 4294967295 (boot_heap small_coremap) = Some (0x80002000, boot_heap small_coremap)"
  using kmalloc_wraps [of 4294967295 "boot_heap small_coremap"]
  by (simp add: boot_heap_def small_coremap_def memory_size_def)

end
