(* ===== verification/Printf.thy ===== *)
theory Printf
  imports Klib
begin

text \<open>
  \<^verbatim>\<open>common/libc/printf/__printf.c\<close> and \<^verbatim>\<open>snprintf.c\<close>, the formatted printing of kernel and libc, and
  \<^verbatim>\<open>common/libc/stdlib/atoi.c\<close>, which reads a number back.

  The format and the texts that are printed are lists of characters without their null byte. The
  variable arguments are a list of typed values: taking one of another size than the format asks for,
  or one that is not there, is undefined in C and None here, and so are a failed assertion and a
  store outside a buffer. The callback \<^verbatim>\<open>sendfunc\<close> is the argument \<open>send\<close> on the client data \<open>'c\<close>.
  \<open>charcount\<close> and \<open>spacing\<close> are ints that do not overflow here.
\<close>

section \<open>The state: \<^verbatim>\<open>PF\<close>\<close>

datatype pf_size = INTSZ | LONGSZ | LLONGSZ | SIZETSZ

datatype pf_arg = Arg32 u32 | Arg64 u64 | ArgStr "string option"

record 'c pf =
  clientdata :: 'c
  ap :: "pf_arg list"
  charcount :: int
  in_pct :: bool
  pf_sz :: pf_size
  num :: u64
  sign :: bool
  spacing :: int
  rightspc :: bool
  fillchar :: char
  base :: nat
  baseprefix :: bool
  altformat :: bool

type_synonym 'c sender = "string \<Rightarrow> 'c \<Rightarrow> 'c option"

section \<open>\<^verbatim>\<open>__printf.c\<close>\<close>

definition pf_print :: "'c sender \<Rightarrow> string \<Rightarrow> 'c pf \<Rightarrow> 'c pf option" where
  "pf_print send txt pf = do {
     c \<leftarrow> send txt (clientdata pf);
     Some (pf\<lparr>clientdata := c, charcount := charcount pf + int (length txt)\<rparr>)
   }"

definition pf_endfield :: "'c pf \<Rightarrow> 'c pf" where
  "pf_endfield pf = pf\<lparr>in_pct := False, pf_sz := INTSZ, num := 0, sign := False, spacing := 0,
     rightspc := False, fillchar := CHR '' '', base := 0, baseprefix := False, altformat := False\<rparr>"

definition pf_modifier :: "char \<Rightarrow> 'c pf \<Rightarrow> 'c pf option" where
  "pf_modifier ch pf =
    (if ch = CHR ''#'' then Some (pf\<lparr>altformat := True\<rparr>)
     else if ch = CHR ''-'' then Some (pf\<lparr>rightspc := True\<rparr>)
     else if ch = CHR ''l'' then Some (pf\<lparr>pf_sz := (if pf_sz pf = LONGSZ then LLONGSZ else LONGSZ)\<rparr>)
     else if ch = CHR ''z'' then Some (pf\<lparr>pf_sz := SIZETSZ\<rparr>)
     else if ch = CHR ''0'' then
       Some (if spacing pf > 0 then pf\<lparr>spacing := spacing pf * 10\<rparr> else pf\<lparr>fillchar := CHR ''0''\<rparr>)
     else do {
       kassert (of_char ch > (48 :: nat) \<and> of_char ch \<le> (57 :: nat));
       Some (pf\<lparr>spacing := spacing pf * 10 + (of_char ch - 48)\<rparr>)
     })"

definition take_arg :: "'c pf \<Rightarrow> (pf_arg \<times> 'c pf) option" where
  "take_arg pf = (case ap pf of [] \<Rightarrow> None | a # as \<Rightarrow> Some (a, pf\<lparr>ap := as\<rparr>))"

text \<open>\<^verbatim>\<open>int\<close>, \<^verbatim>\<open>long\<close>, \<^verbatim>\<open>size_t\<close> and pointers have 32 bits.\<close>

definition va_signed :: "pf_size \<Rightarrow> pf_arg \<Rightarrow> u64 option" where
  "va_signed z a = (case (z, a) of
     (LLONGSZ, Arg64 w) \<Rightarrow> Some w
   | (LLONGSZ, _) \<Rightarrow> None
   | (_, Arg32 w) \<Rightarrow> Some (scast w)
   | (_, _) \<Rightarrow> None)"

definition va_unsigned :: "pf_size \<Rightarrow> pf_arg \<Rightarrow> u64 option" where
  "va_unsigned z a = (case (z, a) of
     (LLONGSZ, Arg64 w) \<Rightarrow> Some w
   | (LLONGSZ, _) \<Rightarrow> None
   | (_, Arg32 w) \<Rightarrow> Some (ucast w)
   | (_, _) \<Rightarrow> None)"

definition pf_getnum :: "char \<Rightarrow> 'c pf \<Rightarrow> 'c pf option" where
  "pf_getnum ch pf = do {
     (a, pf) \<leftarrow> take_arg pf;
     if ch = CHR ''p'' then do { w \<leftarrow> va_unsigned INTSZ a; Some (pf\<lparr>num := w\<rparr>) }
     else if ch = CHR ''d'' then do {
       signednum \<leftarrow> va_signed (pf_sz pf) a;
       Some (if sint signednum < 0 then pf\<lparr>sign := True, num := - signednum\<rparr> else pf\<lparr>num := signednum\<rparr>)
     }
     else do { w \<leftarrow> va_unsigned (pf_sz pf) a; Some (pf\<lparr>num := w\<rparr>) }
   }"

definition pf_setbase :: "char \<Rightarrow> 'c pf \<Rightarrow> 'c pf" where
  "pf_setbase ch pf =
    (let pf1 = (if ch = CHR ''d'' \<or> ch = CHR ''u'' then pf\<lparr>base := 10\<rparr>
                else if ch = CHR ''x'' \<or> ch = CHR ''p'' then pf\<lparr>base := 16\<rparr>
                else if ch = CHR ''o'' then pf\<lparr>base := 8\<rparr> else pf)
     in if altformat pf1 \<or> ch = CHR ''p'' then pf1\<lparr>baseprefix := True\<rparr> else pf1)"

primrec pf_fill_n :: "'c sender \<Rightarrow> char \<Rightarrow> nat \<Rightarrow> 'c pf \<Rightarrow> 'c pf option" where
  "pf_fill_n send f 0 pf = Some pf"
| "pf_fill_n send f (Suc n) pf = do { pf1 \<leftarrow> pf_print send [f] pf; pf_fill_n send f n pf1 }"

definition pf_fill :: "'c sender \<Rightarrow> int \<Rightarrow> 'c pf \<Rightarrow> 'c pf option" where
  "pf_fill send spc pf = pf_fill_n send (fillchar pf) (nat spc) pf"

definition pf_printstuff :: "'c sender \<Rightarrow> string \<Rightarrow> string \<Rightarrow> string \<Rightarrow> 'c pf \<Rightarrow> 'c pf option" where
  "pf_printstuff send prefix prefix2 stuff pf =
    (let len = int (length prefix + length prefix2 + length stuff);
         spc = (if spacing pf > len then spacing pf - len else 0)
     in do {
       pf \<leftarrow> (if spc > 0 \<and> \<not> rightspc pf \<and> fillchar pf \<noteq> CHR ''0'' then pf_fill send spc pf else Some pf);
       pf \<leftarrow> pf_print send prefix pf;
       pf \<leftarrow> pf_print send prefix2 pf;
       pf \<leftarrow> (if spc > 0 \<and> \<not> rightspc pf \<and> fillchar pf = CHR ''0'' then pf_fill send spc pf else Some pf);
       pf \<leftarrow> pf_print send stuff pf;
       (if spc > 0 \<and> rightspc pf then pf_fill send spc pf else Some pf)
     })"

text \<open>\<^verbatim>\<open>NUMBER_BUF_SIZE\<close> is 64/3 + 2.\<close>

abbreviation (input) NUMBER_BUF_SIZE :: nat where "NUMBER_BUF_SIZE \<equiv> 23"

definition digit_char :: "nat \<Rightarrow> char" where
  "digit_char d = ''0123456789abcdef'' ! d"

text \<open>
  The \<^verbatim>\<open>do\<close> loop: \<open>x\<close> is the index of the slot to write; the result is the buffer and the index of the
  first digit.
\<close>

function print_digits :: "nat \<Rightarrow> u64 \<Rightarrow> int \<Rightarrow> string \<Rightarrow> (string \<times> int) option" where
  "print_digits b xnum x buf =
    (if b \<le> 1 then None
     else if x < 0 \<or> int (length buf) \<le> x then None
     else let buf1 = buf[nat x := digit_char (unat xnum mod b)]; xnum1 = of_nat (unat xnum div b) :: u64 in
       if xnum1 > 0 then print_digits b xnum1 (x - 1) buf1 else Some (buf1, x))"
  by pat_completeness auto
termination
  by (relation "measure (\<lambda>(b, xnum, x, buf). nat (x + 1))") auto

declare print_digits.simps [simp del]

text \<open>The text from the first digit to the null byte in the last slot; \<open>garbage\<close> is the buffer on
  the stack before.\<close>

definition number_text :: "string \<Rightarrow> nat \<Rightarrow> u64 \<Rightarrow> string option" where
  "number_text garbage b n = do {
     (buf, x) \<leftarrow> print_digits b n (int NUMBER_BUF_SIZE - 2) garbage;
     Some (drop (nat x) (take (NUMBER_BUF_SIZE - 1) buf))
   }"

definition pf_printnum :: "string \<Rightarrow> 'c sender \<Rightarrow> 'c pf \<Rightarrow> 'c pf option" where
  "pf_printnum garbage send pf = do {
     x \<leftarrow> number_text garbage (base pf) (num pf);
     let bprefix = (if baseprefix pf \<and> base pf = 16 then ''0x''
                    else if baseprefix pf \<and> base pf = 8 then ''0'' else '''');
     let sprefix = (if sign pf then ''-'' else '''');
     pf_printstuff send sprefix bprefix x pf
   }"

definition pf_send :: "string \<Rightarrow> 'c sender \<Rightarrow> char \<Rightarrow> 'c pf \<Rightarrow> 'c pf option" where
  "pf_send garbage send ch pf =
    (if ch = CHR 0x00 then None
     else if \<not> in_pct pf \<and> ch \<noteq> CHR ''%'' then pf_print send [ch] pf
     else if \<not> in_pct pf then Some (pf\<lparr>in_pct := True\<rparr>)
     else if ch \<in> set ''#-lz0123456789'' then pf_modifier ch pf
     else if ch \<in> set ''doupx'' then do {
       pf \<leftarrow> pf_getnum ch pf;
       pf \<leftarrow> pf_printnum garbage send (pf_setbase ch pf);
       Some (pf_endfield pf)
     }
     else if ch = CHR ''s'' then do {
       (a, pf) \<leftarrow> take_arg pf;
       str \<leftarrow> (case a of ArgStr s \<Rightarrow> Some (case s of None \<Rightarrow> ''(null)'' | Some t \<Rightarrow> t) | _ \<Rightarrow> None);
       pf \<leftarrow> pf_printstuff send '''' '''' str pf;
       Some (pf_endfield pf)
     }
     else do {
       (c, pf) \<leftarrow> (if ch = CHR ''c'' then do {
           (a, pf) \<leftarrow> take_arg pf;
           (case a of Arg32 w \<Rightarrow> Some (char_of (unat w mod 256), pf) | _ \<Rightarrow> None)
         } else Some (ch, pf));
       pf \<leftarrow> pf_printstuff send '''' '''' (if c = CHR 0x00 then [] else [c]) pf;
       Some (pf_endfield pf)
     })"

primrec pf_send_all :: "string \<Rightarrow> 'c sender \<Rightarrow> string \<Rightarrow> 'c pf \<Rightarrow> 'c pf option" where
  "pf_send_all garbage send [] pf = Some pf"
| "pf_send_all garbage send (ch # chs) pf = do {
     pf1 \<leftarrow> pf_send garbage send ch pf;
     pf_send_all garbage send chs pf1
   }"

definition pf_start :: "'c \<Rightarrow> pf_arg list \<Rightarrow> 'c pf" where
  "pf_start c args = pf_endfield \<lparr>clientdata = c, ap = args, charcount = 0, in_pct = False, pf_sz = INTSZ,
     num = 0, sign = False, spacing = 0, rightspc = False, fillchar = CHR '' '', base = 0,
     baseprefix = False, altformat = False\<rparr>"

definition vprintf :: "string \<Rightarrow> 'c sender \<Rightarrow> 'c \<Rightarrow> string \<Rightarrow> pf_arg list \<Rightarrow> (int \<times> 'c) option" where
  "vprintf garbage send c format args = do {
     pf \<leftarrow> pf_send_all garbage send format (pf_start c args);
     Some (charcount pf, clientdata pf)
   }"

section \<open>\<^verbatim>\<open>snprintf.c\<close>\<close>

record snp =
  buf :: string
  buflen :: nat
  bufpos :: nat

primrec snprintf_send :: "string \<Rightarrow> snp \<Rightarrow> snp option" where
  "snprintf_send [] s = Some s"
| "snprintf_send (c # cs) s =
    (if bufpos s < buflen s then do {
       b \<leftarrow> store (buf s) (bufpos s) c;
       snprintf_send cs (s\<lparr>buf := b, bufpos := bufpos s + 1\<rparr>)
     }
     else snprintf_send cs s)"

definition vsnprintf :: "string \<Rightarrow> string \<Rightarrow> nat \<Rightarrow> string \<Rightarrow> pf_arg list \<Rightarrow> (int \<times> string) option" where
  "vsnprintf garbage b len fmt args = do {
     (chars, s) \<leftarrow> vprintf garbage snprintf_send
       \<lparr>buf = b, buflen = (if len = 0 then 0 else len - 1), bufpos = 0\<rparr> fmt args;
     b1 \<leftarrow> (if len > 0 then store (buf s) (bufpos s) (CHR 0x00) else Some (buf s));
     Some (chars, b1)
   }"

section \<open>\<^verbatim>\<open>atoi.c\<close>\<close>

definition atoi_digit :: "u8 \<Rightarrow> u32 option" where
  "atoi_digit c = map_option of_nat
     (find_from (\<lambda>i. c = of_char (''0123456789'' ! i)) 0 10)"

partial_function (option) skip_blanks :: "bytes \<Rightarrow> u32 \<Rightarrow> u32 option" where
  "skip_blanks m s = (if m s = 32 \<or> m s = 9 then skip_blanks m (s + 1) else Some s)"

partial_function (option) atoi_digits :: "bytes \<Rightarrow> u32 \<Rightarrow> u32 \<Rightarrow> u32 option" where
  "atoi_digits m s val =
    (if m s = 0 then Some val
     else (case atoi_digit (m s) of
        None \<Rightarrow> Some val
      | Some digit \<Rightarrow> atoi_digits m (s + 1) (val * 10 + digit)))"

definition atoi :: "bytes \<Rightarrow> u32 \<Rightarrow> u32 option" where
  "atoi m s = do {
     s \<leftarrow> skip_blanks m s;
     let neg = (m s = 45);
     let s = (if m s = 45 \<or> m s = 43 then s + 1 else s);
     val \<leftarrow> atoi_digits m s 0;
     Some (if neg then - val else val)
   }"

section \<open>The digits of a number\<close>

fun digits :: "nat \<Rightarrow> nat \<Rightarrow> string" where
  "digits b n = (if b \<le> 1 \<or> n < b then [digit_char n] else digits b (n div b) @ [digit_char (n mod b)])"

declare digits.simps [simp del]

lemma digits_length: "n < b ^ k \<Longrightarrow> 0 < k \<Longrightarrow> length (digits b n) \<le> k"
proof (induction k arbitrary: n)
  case (Suc k)
  show ?case
  proof (cases "b \<le> 1 \<or> n < b")
    case True
    then show ?thesis by (simp add: digits.simps)
  next
    case False
    then have "n div b < b ^ k" using Suc.prems(1) by (simp add: less_mult_imp_div_less mult.commute)
    moreover have "0 < k" using False Suc.prems(1) by (cases k) auto
    ultimately show ?thesis using Suc.IH [of "n div b"] False by (simp add: digits.simps [of b n])
  qed
qed simp

lemma digits_nonempty [simp]: "digits b n \<noteq> []" "0 < length (digits b n)"
  by (subst digits.simps; simp)+

lemma print_digits_ok:
  assumes "1 < b"
  shows "length (digits b (unat w)) \<le> Suc x \<Longrightarrow> x < length bf \<Longrightarrow>
    print_digits b w (int x) bf = Some
      (take (Suc x - length (digits b (unat w))) bf @ digits b (unat w) @ drop (Suc x) bf,
       int x + 1 - int (length (digits b (unat w))))"
proof (induction "unat w" arbitrary: w x bf rule: less_induct)
  case less
  let ?w = "of_nat (unat w div b) :: u64"
  have le: "unat w div b \<le> unat w" by simp
  also have "unat w < 2 ^ 64" using unsigned_less [where ?'a = nat and w = w] by simp
  finally have "unat w div b < 2 ^ 64" .
  then have u: "unat ?w = unat w div b" by (simp add: unat_of_nat take_bit_nat_eq_self_iff)
  show ?case
  proof (cases "unat w < b")
    case True
    then have "?w = 0" by simp
    then show ?thesis
      using True assms less.prems
      by (simp add: print_digits.simps [of b w] digits.simps [of b "unat w"] upd_conv_take_nth_drop)
  next
    case False
    then have "0 < unat w div b" using assms by (simp add: div_greater_zero_iff)
    then have pos: "?w > 0" using u by (metis unat_gt_0 less_nat_zero_code word_gt_0 unat_0)
    have dl: "length (digits b (unat w)) = Suc (length (digits b (unat w div b)))"
      using False assms by (simp add: digits.simps [of b "unat w"])
    then obtain y where x: "x = Suc y" using less.prems(1) by (cases x) auto
    have "unat ?w < unat w" using u False assms by simp
    then have "print_digits b ?w (int y) (bf[x := digit_char (unat w mod b)]) = Some
      (take (Suc y - length (digits b (unat ?w))) (bf[x := digit_char (unat w mod b)]) @ digits b (unat ?w) @
         drop (Suc y) (bf[x := digit_char (unat w mod b)]),
       int y + 1 - int (length (digits b (unat ?w))))"
      using less.prems dl u x by (intro less.hyps) simp_all
    moreover have "nat (1 + int y) = Suc y" by simp
    ultimately show ?thesis
      using False assms less.prems dl u x pos
      by (simp add: print_digits.simps [of b w] digits.simps [of b "unat w"] upd_conv_take_nth_drop
          take_update_cancel Let_def)
  qed
qed

lemma digits_fit:
  assumes "8 \<le> b"
  shows "length (digits b (unat (n :: u64))) \<le> 22"
proof -
  have "unat n < (8::nat) ^ 22" using unsigned_less [where ?'a = nat and w = n] by simp
  also have "(8::nat) ^ 22 \<le> b ^ 22" using assms(1) by (rule power_mono) simp
  finally show ?thesis using digits_length [of "unat n" b 22] by simp
qed

lemma number_text_ok:
  assumes "8 \<le> b" and "length garbage = NUMBER_BUF_SIZE"
  shows "number_text garbage b n = Some (digits b (unat n))"
proof -
  have l: "length (digits b (unat n)) \<le> 22" by (rule digits_fit) fact
  then have "print_digits b n (int 21) garbage = Some (take (22 - length (digits b (unat n))) garbage @
      digits b (unat n) @ drop 22 garbage, int 21 + 1 - int (length (digits b (unat n))))"
    using print_digits_ok [of b n 21 garbage] assms by simp
  moreover have "nat (22 - int (length (digits b (unat n)))) = 22 - length (digits b (unat n))" using l by simp
  ultimately show ?thesis using l assms(2) by (simp add: number_text_def)
qed

section \<open>Two senders side by side\<close>

text \<open>The state with other client data.\<close>

definition pf_with :: "('c \<Rightarrow> 'd) \<Rightarrow> 'c pf \<Rightarrow> 'd pf" where
  "pf_with f pf = \<lparr>clientdata = f (clientdata pf), ap = ap pf, charcount = charcount pf, in_pct = in_pct pf,
     pf_sz = pf_sz pf, num = num pf, sign = sign pf, spacing = spacing pf, rightspc = rightspc pf,
     fillchar = fillchar pf, base = base pf, baseprefix = baseprefix pf, altformat = altformat pf\<rparr>"

lemma pf_with_simps [simp]:
  "ap (pf_with f pf) = ap pf" "charcount (pf_with f pf) = charcount pf" "in_pct (pf_with f pf) = in_pct pf"
  "pf_sz (pf_with f pf) = pf_sz pf" "num (pf_with f pf) = num pf" "sign (pf_with f pf) = sign pf"
  "spacing (pf_with f pf) = spacing pf" "rightspc (pf_with f pf) = rightspc pf"
  "fillchar (pf_with f pf) = fillchar pf" "base (pf_with f pf) = base pf"
  "baseprefix (pf_with f pf) = baseprefix pf" "altformat (pf_with f pf) = altformat pf"
  "clientdata (pf_with f pf) = f (clientdata pf)"
  by (simp_all add: pf_with_def)

lemma pf_with_updates:
  "(pf_with f pf)\<lparr>ap := as\<rparr> = pf_with f (pf\<lparr>ap := as\<rparr>)"
  "(pf_with f pf)\<lparr>in_pct := b\<rparr> = pf_with f (pf\<lparr>in_pct := b\<rparr>)"
  "(pf_with f pf)\<lparr>pf_sz := z\<rparr> = pf_with f (pf\<lparr>pf_sz := z\<rparr>)"
  "(pf_with f pf)\<lparr>num := n\<rparr> = pf_with f (pf\<lparr>num := n\<rparr>)"
  "(pf_with f pf)\<lparr>sign := b\<rparr> = pf_with f (pf\<lparr>sign := b\<rparr>)"
  "(pf_with f pf)\<lparr>spacing := i\<rparr> = pf_with f (pf\<lparr>spacing := i\<rparr>)"
  "(pf_with f pf)\<lparr>rightspc := b\<rparr> = pf_with f (pf\<lparr>rightspc := b\<rparr>)"
  "(pf_with f pf)\<lparr>fillchar := ch\<rparr> = pf_with f (pf\<lparr>fillchar := ch\<rparr>)"
  "(pf_with f pf)\<lparr>base := k\<rparr> = pf_with f (pf\<lparr>base := k\<rparr>)"
  "(pf_with f pf)\<lparr>baseprefix := b\<rparr> = pf_with f (pf\<lparr>baseprefix := b\<rparr>)"
  "(pf_with f pf)\<lparr>altformat := b\<rparr> = pf_with f (pf\<lparr>altformat := b\<rparr>)"
  "pf_endfield (pf_with f pf) = pf_with f (pf_endfield pf)"
  by (simp_all add: pf_with_def pf_endfield_def)

lemma bind_mapped: "Option.bind (map_option h x) g = Option.bind x (\<lambda>y. g (h y))"
  by (cases x) simp_all

lemma mapped_bind: "map_option h (Option.bind x g) = Option.bind x (\<lambda>y. map_option h (g y))"
  by (cases x) simp_all

definition sender_maps :: "('c \<Rightarrow> 'd) \<Rightarrow> 'c sender \<Rightarrow> 'd sender \<Rightarrow> bool" where
  "sender_maps f s t \<longleftrightarrow> (\<forall>txt c. t txt (f c) = map_option f (s txt c))"

lemma pf_print_maps: "sender_maps f s t \<Longrightarrow> pf_print t txt (pf_with f pf) = map_option (pf_with f) (pf_print s txt pf)"
  by (simp add: sender_maps_def pf_print_def bind_mapped mapped_bind pf_with_def)

lemma pf_fill_n_maps:
  "sender_maps f s t \<Longrightarrow> pf_fill_n t c n (pf_with f pf) = map_option (pf_with f) (pf_fill_n s c n pf)"
  by (induction n arbitrary: pf) (simp_all add: pf_print_maps bind_mapped mapped_bind)

lemma pf_fill_if_maps:
  "sender_maps f s t \<Longrightarrow> (if b then pf_fill_n t c n (pf_with f q) else Some (pf_with f q)) =
     map_option (pf_with f) (if b then pf_fill_n s c n q else Some q)"
  by (simp add: pf_fill_n_maps)

lemma pf_printstuff_maps:
  "sender_maps f s t \<Longrightarrow> pf_printstuff t a b c (pf_with f pf) = map_option (pf_with f) (pf_printstuff s a b c pf)"
  unfolding pf_printstuff_def Let_def pf_fill_def pf_with_simps
  by (simp only: pf_fill_if_maps pf_print_maps bind_mapped mapped_bind pf_with_simps)

lemma pf_printnum_maps:
  "sender_maps f s t \<Longrightarrow> pf_printnum g t (pf_with f pf) = map_option (pf_with f) (pf_printnum g s pf)"
  by (simp add: pf_printnum_def Let_def pf_printstuff_maps mapped_bind)

lemma pf_modifier_maps: "pf_modifier ch (pf_with f pf) = map_option (pf_with f) (pf_modifier ch pf)"
  by (simp add: pf_modifier_def pf_with_updates mapped_bind)

lemma take_arg_maps: "take_arg (pf_with f pf) = map_option (map_prod id (pf_with f)) (take_arg pf)"
  by (simp add: take_arg_def pf_with_updates split: list.split)

lemma pf_getnum_maps: "pf_getnum ch (pf_with f pf) = map_option (pf_with f) (pf_getnum ch pf)"
  by (cases "take_arg pf")
    (auto simp: pf_getnum_def take_arg_maps pf_with_updates mapped_bind Let_def if_distrib [of "pf_with f"] cong: if_cong)

lemma pf_setbase_maps: "pf_setbase ch (pf_with f pf) = pf_with f (pf_setbase ch pf)"
  by (simp add: pf_setbase_def Let_def pf_with_updates)

lemma pf_send_maps:
  assumes "sender_maps f s t"
  shows "pf_send g t ch (pf_with f pf) = map_option (pf_with f) (pf_send g s ch pf)"
proof (cases "in_pct pf")
  case False
  then show ?thesis using assms by (simp add: pf_send_def pf_print_maps pf_with_updates)
next
  case True
  have stuff: "Option.bind (pf_printstuff t a b c (pf_with f q)) (\<lambda>q. Some (pf_endfield q)) =
      map_option (pf_with f) (Option.bind (pf_printstuff s a b c q) (\<lambda>q. Some (pf_endfield q)))" for a b c q
    using assms by (simp add: pf_printstuff_maps bind_mapped mapped_bind pf_with_updates)
  show ?thesis
    unfolding pf_send_def using True assms
    by (cases "take_arg pf")
      (auto simp: pf_modifier_maps pf_getnum_maps pf_setbase_maps pf_printnum_maps bind_mapped mapped_bind
        pf_with_updates take_arg_maps stuff split: pf_arg.splits)
qed

lemma pf_send_all_maps:
  "sender_maps f s t \<Longrightarrow> pf_send_all g t chs (pf_with f pf) = map_option (pf_with f) (pf_send_all g s chs pf)"
  by (induction chs arbitrary: pf) (simp_all add: pf_send_maps bind_mapped mapped_bind)

lemma vprintf_maps:
  "sender_maps f s t \<Longrightarrow> vprintf g t (f c) fmt args = map_option (map_prod id f) (vprintf g s c fmt args)"
proof -
  assume "sender_maps f s t"
  moreover have "pf_start (f c) args = pf_with f (pf_start c args)"
    by (simp add: pf_start_def pf_with_def pf_endfield_def)
  ultimately show ?thesis by (simp add: vprintf_def pf_send_all_maps bind_mapped mapped_bind)
qed

section \<open>The text that is printed\<close>

text \<open>The sender that collects everything; the printed text is what it collects.\<close>

definition append_send :: "string sender" where
  "append_send txt out = Some (out @ txt)"

definition counted :: "string pf \<Rightarrow> bool" where
  "counted pf \<longleftrightarrow> charcount pf = int (length (clientdata pf))"

lemma counted_updates [simp]:
  "counted (pf\<lparr>ap := as\<rparr>) = counted pf" "counted (pf\<lparr>in_pct := b\<rparr>) = counted pf"
  "counted (pf\<lparr>pf_sz := z\<rparr>) = counted pf" "counted (pf\<lparr>num := n\<rparr>) = counted pf"
  "counted (pf\<lparr>sign := b\<rparr>) = counted pf" "counted (pf\<lparr>spacing := i\<rparr>) = counted pf"
  "counted (pf\<lparr>rightspc := b\<rparr>) = counted pf" "counted (pf\<lparr>fillchar := ch\<rparr>) = counted pf"
  "counted (pf\<lparr>base := k\<rparr>) = counted pf" "counted (pf\<lparr>baseprefix := b\<rparr>) = counted pf"
  "counted (pf\<lparr>altformat := b\<rparr>) = counted pf" "counted (pf_endfield pf) = counted pf"
  "counted (pf_setbase ch pf) = counted pf"
  by (simp_all add: counted_def pf_endfield_def pf_setbase_def Let_def)

lemma bind_holds: "pred_option P x \<Longrightarrow> (\<And>y. P y \<Longrightarrow> pred_option Q (f y)) \<Longrightarrow> pred_option Q (Option.bind x f)"
  by (cases x) auto

lemma pf_print_counted: "counted pf \<Longrightarrow> pred_option counted (pf_print append_send txt pf)"
  by (simp add: pf_print_def append_send_def counted_def)

lemma pf_fill_n_counted: "counted pf \<Longrightarrow> pred_option counted (pf_fill_n append_send c n pf)"
  by (induction n arbitrary: pf) (auto intro!: bind_holds [OF pf_print_counted])

lemma pf_printstuff_counted: "counted pf \<Longrightarrow> pred_option counted (pf_printstuff append_send a b c pf)"
  unfolding pf_printstuff_def Let_def pf_fill_def
  by (intro bind_holds [where P = counted]) (simp_all add: pf_print_counted pf_fill_n_counted)

lemma take_arg_counted: "counted pf \<Longrightarrow> pred_option (\<lambda>(a, q). counted q) (take_arg pf)"
  by (simp add: take_arg_def split: list.split)

lemma any_holds [simp]: "pred_option (\<lambda>_. True) x"
  by (cases x) simp_all

lemma pf_modifier_counted: "counted pf \<Longrightarrow> pred_option counted (pf_modifier ch pf)"
  by (auto simp: pf_modifier_def intro!: bind_holds [where P = "\<lambda>_. True"])

lemma pf_getnum_counted: "counted pf \<Longrightarrow> pred_option counted (pf_getnum ch pf)"
  unfolding pf_getnum_def
  by (rule bind_holds [OF take_arg_counted]) (auto intro!: bind_holds [where P = "\<lambda>_. True"])

lemma pf_printnum_counted: "counted pf \<Longrightarrow> pred_option counted (pf_printnum g append_send pf)"
  unfolding pf_printnum_def by (rule bind_holds [where P = "\<lambda>_. True"]) (simp_all add: pf_printstuff_counted Let_def)

lemma pf_send_counted:
  assumes "counted pf"
  shows "pred_option counted (pf_send g append_send ch pf)"
proof -
  have stuff: "counted q \<Longrightarrow> pred_option counted
      (Option.bind (pf_printstuff append_send a b c q) (\<lambda>q. Some (pf_endfield q)))" for a b c q
    by (rule bind_holds [OF pf_printstuff_counted]) simp_all
  have number: "pred_option counted (Option.bind (pf_getnum ch pf)
      (\<lambda>q. Option.bind (pf_printnum g append_send (pf_setbase ch q)) (\<lambda>q. Some (pf_endfield q))))"
    by (rule bind_holds [OF pf_getnum_counted [OF assms]], rule bind_holds [OF pf_printnum_counted]) simp_all
  show ?thesis
    using assms take_arg_counted [OF assms] unfolding pf_send_def
    by (cases "take_arg pf")
      (auto simp: pf_print_counted pf_modifier_counted number stuff split: pf_arg.splits)
qed

lemma pf_send_all_counted: "counted pf \<Longrightarrow> pred_option counted (pf_send_all g append_send chs pf)"
  by (induction chs arbitrary: pf) (auto intro!: bind_holds [OF pf_send_counted])

lemma vprintf_counts: "vprintf g append_send [] fmt args = Some (n, out) \<Longrightarrow> n = int (length out)"
  using pf_send_all_counted [of "pf_start [] args" g fmt]
  by (auto simp: vprintf_def bind_eq_Some_conv counted_def pf_start_def pf_endfield_def)

section \<open>Printing into a buffer\<close>

definition snp_after :: "string \<Rightarrow> nat \<Rightarrow> string \<Rightarrow> snp" where
  "snp_after b n out = \<lparr>buf = take n out @ drop (min n (length out)) b, buflen = n, bufpos = min n (length out)\<rparr>"

lemma snprintf_send_after: "n \<le> length b \<Longrightarrow> snprintf_send s (snp_after b n out) = Some (snp_after b n (out @ s))"
proof (induction s arbitrary: out)
  case (Cons c cs)
  have step: "snprintf_send (c # cs) (snp_after b n out) = snprintf_send cs (snp_after b n (out @ [c]))"
  proof (cases "length out < n")
    case True
    then have "min n (Suc (length out)) = Suc (length out)" by simp
    then show ?thesis
      using True Cons.prems
      by (simp add: snp_after_def store_def list_update_append upd_conv_take_nth_drop)
  next
    case False
    then show ?thesis by (simp add: snp_after_def)
  qed
  show ?case using Cons.IH [OF Cons.prems, of "out @ [c]"] unfolding step by simp
qed simp

lemma snprintf_maps: "n \<le> length b \<Longrightarrow> sender_maps (snp_after b n) append_send snprintf_send"
  by (simp add: sender_maps_def append_send_def snprintf_send_after)

text \<open>What a buffer holds when \<open>out\<close> was printed into its first \<open>len\<close> characters.\<close>

definition truncated :: "string \<Rightarrow> nat \<Rightarrow> string \<Rightarrow> string" where
  "truncated b len out =
    (if len = 0 then b
     else take (len - 1) out @ [CHR 0x00] @ drop (min (len - 1) (length out) + 1) b)"

lemma vsnprintf_text:
  assumes "len \<le> length b"
  shows "vsnprintf g b len fmt args =
    map_option (\<lambda>(n, out). (int (length out), truncated b len out)) (vprintf g append_send [] fmt args)"
proof -
  let ?k = "if len = 0 then 0 else len - 1"
  have start: "\<lparr>buf = b, buflen = ?k, bufpos = 0\<rparr> = snp_after b ?k []" by (simp add: snp_after_def)
  have "sender_maps (snp_after b ?k) append_send snprintf_send" using assms by (intro snprintf_maps) auto
  note run = vprintf_maps [OF this, of g "[]" fmt args]
  show ?thesis
  proof (cases "vprintf g append_send [] fmt args")
    case None
    then show ?thesis unfolding vsnprintf_def start run by simp
  next
    case (Some r)
    obtain n out where r: "r = (n, out)" by (cases r)
    have "n = int (length out)" using vprintf_counts Some r by blast
    then show ?thesis
      using assms unfolding vsnprintf_def start run Some r
      by (auto simp: snp_after_def truncated_def store_def list_update_append min_def upd_conv_take_nth_drop)
  qed
qed

text \<open>C34: \<^verbatim>\<open>vsnprintf\<close> refines printing to an unbounded place: given a buffer of at least \<open>len\<close>
  characters it returns the number of characters of the whole text, leaves the first \<open>len\<close> - 1 of them and
  a null byte in the buffer and the rest of the buffer as it was, never stores outside it, and is undefined
  only for formats and arguments for which unbounded printing is.\<close>

theorem vsnprintf_truncates:
  "len \<le> length b \<Longrightarrow> vsnprintf g b len fmt args =
     map_option (\<lambda>(n, out). (int (length out), truncated b len out)) (vprintf g append_send [] fmt args)"
  by (rule vsnprintf_text)

lemma padded_abc: "vprintf ''x'' append_send [] ''%5s'' [ArgStr (Some ''abc'')] = Some (5, ''  abc'')"
  by code_simp

theorem vsnprintf_truncates_witness:
  "vsnprintf ''x'' ''......'' 4 ''%5s'' [ArgStr (Some ''abc'')] = Some (5, ''  a'' @ [CHR 0x00] @ ''..'')"
  using vsnprintf_truncates [of 4 "''......''" "''x''" "''%5s''" "[ArgStr (Some ''abc'')]"]
  by (simp add: padded_abc truncated_def)

section \<open>Printing a number and reading it back\<close>

text \<open>The decimal text of a signed number.\<close>

definition decimal :: "u32 \<Rightarrow> string" where
  "decimal n = (if sint n < 0 then ''-'' else '''') @ digits 10 (unat (if sint n < 0 then - n else n))"

lemma pf_printstuff_plain:
  "spacing pf = 0 \<Longrightarrow> pf_printstuff append_send a b c pf =
     Some (pf\<lparr>clientdata := clientdata pf @ a @ b @ c, charcount := charcount pf + int (length (a @ b @ c))\<rparr>)"
  by (simp add: pf_printstuff_def pf_print_def append_send_def)

lemma unat_scast_small:
  fixes n :: u32
  assumes "0 \<le> sint n"
  shows "unat (scast n :: u64) = unat n"
proof -
  have "take_bit 64 (sint n) = sint n"
    by (rule take_bit_int_eq_self) (use assms sint_lt [of n] in simp_all)
  moreover have "uint (scast n :: u64) = take_bit LENGTH(64) (sint n)"
    by (simp only: scast_eq uint_word_of_int_eq)
  ultimately have s: "uint (scast n :: u64) = sint n" by simp
  have "take_bit 32 (sint n) = sint n"
    by (rule take_bit_int_eq_self) (use assms sint_lt [of n] in simp_all)
  moreover have "uint n = take_bit LENGTH(32) (sint n)" by (rule uint_sint)
  ultimately have "uint n = sint n" by simp
  with s show ?thesis by (simp only: unat_eq_nat_uint)
qed

lemma unat_uminus:
  fixes w :: "'a::len word"
  assumes "sint w < 0"
  shows "unat (- w) = nat (- sint w)"
proof -
  have "- sint w < 2 ^ LENGTH('a)"
  proof -
    have "- sint w \<le> 2 ^ (LENGTH('a) - 1)" using sint_ge [of w] by simp
    also have "(2::int) ^ (LENGTH('a) - 1) < 2 ^ LENGTH('a)" by (rule power_strict_increasing) simp_all
    finally show ?thesis .
  qed
  then have "take_bit LENGTH('a) (- sint w) = - sint w" using assms by (intro take_bit_int_eq_self) simp_all
  moreover have "- w = word_of_int (- sint w)" by simp
  ultimately show ?thesis by (metis unat_eq_nat_uint uint_word_of_int_eq)
qed

lemma sint_scast: "sint (scast (n :: u32) :: u64) = sint n"
  by (simp add: sint_up_scast is_up)

lemma print_decimal:
  assumes "length g = NUMBER_BUF_SIZE"
  shows "vprintf g append_send [] ''%d'' [Arg32 n] = Some (int (length (decimal n)), decimal n)"
proof -
  have "unat (- scast n :: u64) = unat (- n)" if "sint n < 0"
    using that by (simp add: unat_uminus sint_scast)
  then show ?thesis
    using assms
    by (simp add: vprintf_def pf_start_def pf_endfield_def pf_send_def pf_getnum_def take_arg_def va_signed_def
        sint_scast pf_setbase_def pf_printnum_def number_text_ok pf_printstuff_plain decimal_def unat_scast_small)
qed

primrec reads :: "bytes \<Rightarrow> u32 \<Rightarrow> u8 list \<Rightarrow> bool" where
  "reads m s [] = (m s = 0)"
| "reads m s (c # cs) = (m s = c \<and> c \<noteq> 0 \<and> reads m (s + 1) cs)"

lemma cstr_reads: "cstr m s cs \<Longrightarrow> reads m s cs"
proof (induction cs arbitrary: s)
  case (Cons c cs)
  have "cstr m (s + 1) cs"
    using Cons.prems unfolding cstr_def
    by (auto simp: add.assoc dest: spec [of _ "Suc _"])
  then show ?case using Cons cstr_at [OF Cons.prems, of 0] cstr_nonzero [OF Cons.prems, of 0] by simp
qed (simp add: cstr_def)

lemma digit_table:
  "\<forall>d \<in> set [0..<10]. atoi_digit (of_char (digit_char d)) = Some (of_nat d) \<and>
     (of_char (digit_char d) :: u8) \<notin> {0, 32, 9, 45, 43}"
  by (simp add: upt_rec atoi_digit_def find_from.simps digit_char_def)

lemma atoi_digit_char:
  "d < 10 \<Longrightarrow> atoi_digit (of_char (digit_char d)) = Some (of_nat d)"
  "d < 10 \<Longrightarrow> (of_char (digit_char d) :: u8) \<notin> {0, 32, 9, 45, 43}"
  using digit_table by simp_all

lemma atoi_digits_list:
  "\<forall>d \<in> set ds. d < 10 \<Longrightarrow> reads m s (map (\<lambda>d. of_char (digit_char d)) ds) \<Longrightarrow>
     atoi_digits m s (of_nat v) = Some (of_nat (foldl (\<lambda>v d. v * 10 + d) v ds))"
proof (induction ds arbitrary: s v)
  case (Cons d ds)
  then have "atoi_digits m (s + 1) (of_nat (v * 10 + d)) = Some (of_nat (foldl (\<lambda>v d. v * 10 + d) v (d # ds)))"
    by (simp add: Cons.IH [of "s + 1" "v * 10 + d"] del: of_nat_add of_nat_mult)
  then show ?case using Cons.prems atoi_digit_char(1) [of d] by (simp add: atoi_digits.simps [of m s])
qed (simp add: atoi_digits.simps)

lemma digits_list:
  "\<exists>ds. digits 10 k = map digit_char ds \<and> (\<forall>d \<in> set ds. d < 10) \<and> foldl (\<lambda>v d. v * 10 + d) 0 ds = k"
proof (induction k rule: less_induct)
  case (less k)
  show ?case
  proof (cases "k < 10")
    case True
    then show ?thesis by (intro exI [of _ "[k]"]) (simp add: digits.simps)
  next
    case False
    then obtain ds where "digits 10 (k div 10) = map digit_char ds" "\<forall>d \<in> set ds. d < 10"
      "foldl (\<lambda>v d. v * 10 + d) 0 ds = k div 10"
      using less [of "k div 10"] by auto
    then show ?thesis using False by (intro exI [of _ "ds @ [k mod 10]"]) (simp add: digits.simps [of 10 k])
  qed
qed

lemma atoi_number:
  assumes "reads m s (map of_char (digits 10 k))"
  shows "atoi_digits m s 0 = Some (of_nat k)" and "m s \<notin> {0, 32, 9, 45, 43}"
proof -
  obtain ds where ds: "digits 10 k = map digit_char ds" "\<forall>d \<in> set ds. d < 10" "foldl (\<lambda>v d. v * 10 + d) 0 ds = k"
    using digits_list by blast
  then show "atoi_digits m s 0 = Some (of_nat k)"
    using atoi_digits_list [of ds m s 0] assms by (simp add: comp_def)
  have "ds \<noteq> []" using ds(1) by auto
  then show "m s \<notin> {0, 32, 9, 45, 43}"
    using ds(2) assms atoi_digit_char(2) unfolding ds(1) by (cases ds) auto
qed

lemma atoi_decimal:
  assumes "cstr m a (map of_char (decimal n))"
  shows "atoi m a = Some n"
proof (cases "sint n < 0")
  case True
  then have "m a = 45" "reads m (a + 1) (map of_char (digits 10 (unat (- n))))"
    using cstr_reads [OF assms] by (simp_all add: decimal_def)
  then show ?thesis by (simp add: atoi_def skip_blanks.simps [of m a] atoi_number)
next
  case False
  then have "reads m a (map of_char (digits 10 (unat n)))"
    using cstr_reads [OF assms] by (simp add: decimal_def)
  from atoi_number [OF this] show ?thesis by (simp add: atoi_def skip_blanks.simps [of m a])
qed

text \<open>C35: Printing any int with \<^verbatim>\<open>%d\<close> gives its decimal text, counted correctly and within the
  number buffer, and \<^verbatim>\<open>atoi\<close> of that text in memory gives the number back.\<close>

theorem print_then_atoi:
  "length g = 23 \<Longrightarrow> cstr m a (map of_char (decimal n)) \<Longrightarrow>
     vprintf g append_send [] ''%d'' [Arg32 n] = Some (int (length (decimal n)), decimal n) \<and> atoi m a = Some n"
  using print_decimal [of g n] atoi_decimal by simp

lemma decimal_example: "decimal 0xffffff85 = ''-123''"
  by code_simp

lemma cstr_example:
  "cstr ((\<lambda>_. 0)(0x1000 := 45, 0x1001 := 49, 0x1002 := 50, 0x1003 := 51)) 0x1000 (map of_char ''-123'')"
  by (simp add: cstr_def All_less_Suc)

theorem print_then_atoi_witness:
  "vprintf (replicate 23 (CHR ''?'')) append_send [] ''%d'' [Arg32 0xffffff85] = Some (4, ''-123'') \<and>
   atoi ((\<lambda>_. 0)(0x1000 := 45, 0x1001 := 49, 0x1002 := 50, 0x1003 := 51)) 0x1000 = Some 0xffffff85"
  using print_then_atoi [where g = "replicate 23 (CHR ''?'')" and n = "0xffffff85"] cstr_example
  unfolding decimal_example by simp

section \<open>Formats and their arguments\<close>

text \<open>The number buffer is just large enough: for the bases 8 and up every 64-bit number is printed as
  its digits, which take at most 22 of the 23 characters, and 22 are needed.\<close>

theorem number_buffer_fits:
  "length g = 23 \<Longrightarrow> 8 \<le> b \<Longrightarrow> number_text g b n = Some (digits b (unat n)) \<and>
     length (digits b (unat n)) \<le> 22 \<and> length (digits 8 (2 ^ 64 - 1)) = 22"
proof -
  have "length (digits 8 (2 ^ 64 - 1)) = 22" by (simp add: digits.simps)
  then show "length g = 23 \<Longrightarrow> 8 \<le> b \<Longrightarrow> ?thesis"
    using number_text_ok [of b g n] digits_fit [of b n] by simp
qed

lemma hex_example: "digits 16 48879 = ''beef''"
  by (simp add: digits.simps digit_char_def)

theorem number_buffer_fits_witness:
  "number_text (replicate 23 (CHR ''?'')) 16 0xbeef = Some ''beef''"
  using number_buffer_fits [of "replicate 23 (CHR ''?'')" 16 "0xbeef"] by (simp add: hex_example)

text \<open>A format and the arguments it asks for.\<close>

fun fits :: "bool \<Rightarrow> pf_size \<Rightarrow> string \<Rightarrow> pf_arg list \<Rightarrow> bool" where
  "fits pct z [] as = True"
| "fits False z (c # cs) as = (c \<noteq> CHR 0x00 \<and> fits (c = CHR ''%'') z cs as)"
| "fits True z (c # cs) as =
    (if c = CHR 0x00 then False
     else if c \<in> set ''#-lz0123456789''
     then fits True (if c = CHR ''l'' then if z = LONGSZ then LLONGSZ else LONGSZ
                     else if c = CHR ''z'' then SIZETSZ else z) cs as
     else if c \<in> set ''doux''
     then (case as of Arg32 w # bs \<Rightarrow> z \<noteq> LLONGSZ \<and> fits False INTSZ cs bs
           | Arg64 w # bs \<Rightarrow> z = LLONGSZ \<and> fits False INTSZ cs bs | _ \<Rightarrow> False)
     else if c \<in> set ''pc'' then (case as of Arg32 w # bs \<Rightarrow> fits False INTSZ cs bs | _ \<Rightarrow> False)
     else if c = CHR ''s'' then (case as of ArgStr s # bs \<Rightarrow> fits False INTSZ cs bs | _ \<Rightarrow> False)
     else fits False INTSZ cs as)"

text \<open>A step that succeeds and leaves the parsing state alone.\<close>

definition kept :: "'c pf \<Rightarrow> 'c pf option \<Rightarrow> bool" where
  "kept pf r \<longleftrightarrow> (\<exists>pf'. r = Some pf' \<and> ap pf' = ap pf \<and> in_pct pf' = in_pct pf \<and> pf_sz pf' = pf_sz pf)"

lemma kept_bind: "kept pf r \<Longrightarrow> (\<And>pf'. kept pf' (f pf')) \<Longrightarrow> kept pf (Option.bind r f)"
  unfolding kept_def by fastforce

lemma kept_Some [simp]: "kept pf (Some pf)"
  by (simp add: kept_def)

definition total_sender :: "'c sender \<Rightarrow> bool" where
  "total_sender send \<longleftrightarrow> (\<forall>t c. send t c \<noteq> None)"

lemma pf_print_kept: "total_sender send \<Longrightarrow> kept pf (pf_print send t pf)"
proof -
  assume "total_sender send"
  then obtain c where "send t (clientdata pf) = Some c" unfolding total_sender_def by blast
  then show ?thesis by (simp add: kept_def pf_print_def)
qed

lemma pf_fill_n_kept: "total_sender send \<Longrightarrow> kept pf (pf_fill_n send f n pf)"
  by (induction n arbitrary: pf) (auto intro!: kept_bind pf_print_kept)

lemma pf_printstuff_kept: "total_sender send \<Longrightarrow> kept pf (pf_printstuff send a b c pf)"
  unfolding pf_printstuff_def Let_def pf_fill_def
  by (intro kept_bind) (simp_all add: pf_print_kept pf_fill_n_kept)

lemma pf_printnum_kept:
  "total_sender send \<Longrightarrow> length g = NUMBER_BUF_SIZE \<Longrightarrow> 8 \<le> base pf \<Longrightarrow> kept pf (pf_printnum g send pf)"
  by (simp add: pf_printnum_def number_text_ok pf_printstuff_kept Let_def)

lemma kept_end:
  "kept pf r \<Longrightarrow> \<exists>pf'. Option.bind r (\<lambda>q. Some (pf_endfield q)) = Some pf' \<and> ap pf' = ap pf \<and>
     \<not> in_pct pf' \<and> pf_sz pf' = INTSZ"
  by (auto simp: kept_def pf_endfield_def)

lemma pf_setbase_simps [simp]:
  "ap (pf_setbase ch pf) = ap pf" "ch \<in> set ''doupx'' \<Longrightarrow> 8 \<le> base (pf_setbase ch pf)"
  by (auto simp: pf_setbase_def Let_def)

lemma pf_modifier_fits:
  "ch \<in> set ''#-lz0123456789'' \<Longrightarrow> \<exists>pf'. pf_modifier ch pf = Some pf' \<and> ap pf' = ap pf \<and>
     in_pct pf' = in_pct pf \<and> pf_sz pf' = (if ch = CHR ''l'' then if pf_sz pf = LONGSZ then LLONGSZ else LONGSZ
       else if ch = CHR ''z'' then SIZETSZ else pf_sz pf)"
  unfolding list.set insert_iff empty_iff
  by (elim disjE) (simp_all add: pf_modifier_def kassert_def)

lemma va_sizes [simp]:
  "va_signed z (Arg32 w) = (if z = LLONGSZ then None else Some (scast w))"
  "va_unsigned z (Arg32 w) = (if z = LLONGSZ then None else Some (ucast w))"
  "va_signed z (Arg64 v) = (if z = LLONGSZ then Some v else None)"
  "va_unsigned z (Arg64 v) = (if z = LLONGSZ then Some v else None)"
  by (cases z; simp add: va_signed_def va_unsigned_def)+

text \<open>One character of a fitting format.\<close>

lemma pf_send_fits:
  assumes t: "total_sender send" and g: "length g = NUMBER_BUF_SIZE"
    and fit: "fits (in_pct pf) (pf_sz pf) (ch # chs) (ap pf)" and z: "in_pct pf \<or> pf_sz pf = INTSZ"
  shows "\<exists>pf'. pf_send g send ch pf = Some pf' \<and> fits (in_pct pf') (pf_sz pf') chs (ap pf') \<and>
    (in_pct pf' \<or> pf_sz pf' = INTSZ)"
proof (cases "in_pct pf")
  case False
  then show ?thesis
    using fit z pf_print_kept [OF t, of pf "[ch]"] by (auto simp: pf_send_def kept_def)
next
  case True
  note stuff = kept_end [OF pf_printstuff_kept [OF t]]
  note numeral = kept_end [OF pf_printnum_kept [OF t g]]
  consider "ch \<in> set ''#-lz0123456789''" | "ch \<in> set ''doupx''" | "ch = CHR ''s''"
    | "ch \<notin> set ''#-lz0123456789''" "ch \<notin> set ''doupx''" "ch \<noteq> CHR ''s''"
    by blast
  then show ?thesis
  proof cases
    case 1
    then show ?thesis using True fit pf_modifier_fits [OF 1, of pf] by (auto simp: pf_send_def)
  next
    case 2
    then obtain q where q: "pf_getnum ch pf = Some q" "fits False INTSZ chs (ap q)"
      using True fit
      by (auto simp: pf_getnum_def take_arg_def split: list.splits pf_arg.splits)
    have "pf_send g send ch pf = Option.bind (pf_printnum g send (pf_setbase ch q)) (\<lambda>q. Some (pf_endfield q))"
      using True 2 q(1) by (auto simp: pf_send_def)
    then show ?thesis using numeral [of "pf_setbase ch q"] 2 q(2) by auto
  next
    case 3
    then obtain s bs where a: "ap pf = ArgStr s # bs" "fits False INTSZ chs bs"
      using True fit by (auto split: list.splits pf_arg.splits)
    then show ?thesis
      using True 3 stuff [of "''''" "''''" "case s of None \<Rightarrow> ''(null)'' | Some t \<Rightarrow> t" "pf\<lparr>ap := bs\<rparr>"]
      by (auto simp: pf_send_def take_arg_def)
  next
    case 4
    show ?thesis
    proof (cases "ch = CHR ''c''")
      case c: True
      then obtain w bs where a: "ap pf = Arg32 w # bs" "fits False INTSZ chs bs"
        using True fit by (auto split: list.splits pf_arg.splits)
      let ?c = "char_of (unat w mod 256) :: char"
      show ?thesis
        using True c a stuff [of "''''" "''''" "if ?c = CHR 0x00 then [] else [?c]" "pf\<lparr>ap := bs\<rparr>"]
        by (auto simp: pf_send_def take_arg_def)
    next
      case False
      have "fits False INTSZ chs (ap pf)" using True 4 False fit by (simp split: if_splits)
      moreover have "pf_send g send ch pf = Option.bind
          (pf_printstuff send '''' '''' (if ch = CHR 0x00 then [] else [ch]) pf) (\<lambda>q. Some (pf_endfield q))"
        using True 4 False fit by (simp add: pf_send_def split: if_splits)
      ultimately show ?thesis using stuff [of "''''" "''''" "if ch = CHR 0x00 then [] else [ch]" pf] by fastforce
    qed
  qed
qed

lemma pf_send_all_fits:
  "total_sender send \<Longrightarrow> length g = NUMBER_BUF_SIZE \<Longrightarrow> fits (in_pct pf) (pf_sz pf) chs (ap pf) \<Longrightarrow>
   in_pct pf \<or> pf_sz pf = INTSZ \<Longrightarrow> pf_send_all g send chs pf \<noteq> None"
proof (induction chs arbitrary: pf)
  case (Cons ch chs)
  then show ?case using pf_send_fits [of send g pf ch chs] by fastforce
qed simp

text \<open>C36: A format whose arguments have the types it asks for prints: no assertion fails, no argument is
  missing or read at the wrong size, and the number buffer holds. In particular \<^verbatim>\<open>vsnprintf\<close> with it is
  defined for every buffer.\<close>

theorem printf_well_typed:
  "total_sender send \<Longrightarrow> length g = 23 \<Longrightarrow> fits False INTSZ fmt args \<Longrightarrow>
     vprintf g send c fmt args \<noteq> None \<and> (len \<le> length b \<longrightarrow> vsnprintf g b len fmt args \<noteq> None)"
  using pf_send_all_fits [of send g "pf_start c args" fmt]
    pf_send_all_fits [of append_send g "pf_start [] args" fmt] vsnprintf_text [of len b g fmt args]
  by (auto simp: vprintf_def pf_start_def pf_endfield_def total_sender_def append_send_def)

theorem printf_well_typed_witness:
  "vprintf (replicate 23 (CHR ''?'')) append_send [] ''%-4d|%08lx %s%c'' [Arg32 7, Arg32 0xbeef, ArgStr None, Arg32 10] \<noteq> None"
  using printf_well_typed [of append_send "replicate 23 (CHR ''?'')" "''%-4d|%08lx %s%c''"
      "[Arg32 7, Arg32 0xbeef, ArgStr None, Arg32 10]" "[]" 0 "[]"]
  by (simp add: total_sender_def append_send_def)

end
