(* ===== verification/Sfs_Disk.thy ===== *)
theory Sfs_Disk
  imports Device Bitmap Karray
begin

text \<open>
  The disk under a file system: the transfers of the disk driver \<^verbatim>\<open>kern/dev/lamebus/lhd.c\<close>, and the
  on-disk structures of \<^verbatim>\<open>kern/include/kern/sfs.h\<close> as the bytes of their blocks.

  A disk is its sectors and the status codes with which the hardware will finish the operations to come
  (none left: it succeeds); an operation that it does not finish with \<^verbatim>\<open>LHD_OK\<close> has changed no sector. A
  transfer between the buffer on the card and what a \<^verbatim>\<open>uio\<close> describes is an argument, the \<open>mover\<close>: it is
  \<^verbatim>\<open>uiomove\<close> on the memory, or on a buffer of the kernel whose contents are a list. The semaphores of the
  driver, which let one thread at a time use the card, are left out.
\<close>

section \<open>The disk driver\<close>

record disk =
  sectors :: "nat \<Rightarrow> u8 list"
  d_nsect :: u32
  replies :: "u32 list"

abbreviation (input) LHD_SECTSIZE :: nat where "LHD_SECTSIZE \<equiv> 512"
abbreviation (input) LHD_OK :: u32 where "LHD_OK \<equiv> 4"
abbreviation (input) LHD_INVSECT :: u32 where "LHD_INVSECT \<equiv> 12"
abbreviation (input) LHD_MEDIA :: u32 where "LHD_MEDIA \<equiv> 20"
abbreviation (input) LHD_STATEMASK :: u32 where "LHD_STATEMASK \<equiv> 0x1d"

definition lhd_code_to_errno :: "u32 \<Rightarrow> errno option" where
  "lhd_code_to_errno code =
    (if code AND LHD_STATEMASK = LHD_OK then None
     else if code AND LHD_STATEMASK = LHD_INVSECT then Some EINVAL
     else if code AND LHD_STATEMASK = LHD_MEDIA then Some EIO
     else Some EAGAIN)"

text \<open>The hardware runs an operation: the result that \<^verbatim>\<open>lhd_irq\<close> saves.\<close>

definition lhd_run :: "disk \<Rightarrow> errno option \<times> disk" where
  "lhd_run d = (case replies d of
       [] \<Rightarrow> (None, d)
     | c # cs \<Rightarrow> (lhd_code_to_errno c, d\<lparr>replies := cs\<rparr>))"

type_synonym 'x mover = "u8 list \<Rightarrow> 'x \<Rightarrow> ((errno + unit) \<times> 'x \<times> u8 list) option"

text \<open>The loop over the sectors.\<close>

primrec lhd_each :: "'x mover \<Rightarrow> uio_rw \<Rightarrow> nat list \<Rightarrow> disk \<Rightarrow> 'x \<Rightarrow> ((errno + unit) \<times> disk \<times> 'x) option" where
  "lhd_each mv rw [] d x = Some (Inr (), d, x)"
| "lhd_each mv rw (k # ks) d x =
    (if rw = UIO_WRITE then do {
       (r, x, buf) \<leftarrow> mv (replicate LHD_SECTSIZE 0) x;
       (case r of
          Inl e \<Rightarrow> Some (Inl e, d, x)
        | Inr _ \<Rightarrow> (case lhd_run d of
              (Some e, d) \<Rightarrow> Some (Inl e, d, x)
            | (None, d) \<Rightarrow> lhd_each mv rw ks (d\<lparr>sectors := (sectors d)(k := buf)\<rparr>) x))
     }
     else (case lhd_run d of
         (Some e, d) \<Rightarrow> Some (Inl e, d, x)
       | (None, d) \<Rightarrow> do {
           (r, x, buf) \<leftarrow> mv (sectors d k) x;
           (case r of Inl e \<Rightarrow> Some (Inl e, d, x) | Inr _ \<Rightarrow> lhd_each mv rw ks d x)
         }))"

definition lhd_io :: "('x \<Rightarrow> uio) \<Rightarrow> 'x mover \<Rightarrow> disk \<Rightarrow> 'x \<Rightarrow> ((errno + unit) \<times> disk \<times> 'x) option" where
  "lhd_io u mv d x =
    (let off = sint (uio_offset (u x));
         sector = (of_int (off sdiv 512) :: u32); sectoff = (of_int (off smod 512) :: u32);
         len = uio_resid (u x) div 512; lenoff = uio_resid (u x) mod 512 in
     if sectoff \<noteq> 0 \<or> lenoff \<noteq> 0 then Some (Inl EINVAL, d, x)
     else if sector + len > d_nsect d then Some (Inl EINVAL, d, x)
     else lhd_each mv (uio_rw (u x)) (map (\<lambda>i. unat (sector + of_nat i)) [0..<unat len]) d x)"

text \<open>\<^verbatim>\<open>uiomove\<close> on a kernel buffer that is set up by \<^verbatim>\<open>uio_kinit\<close>, with its contents.\<close>

definition kmove :: "(uio \<times> u8 list) mover" where
  "kmove buf x = (case x of (u, data) \<Rightarrow>
     let n = min LHD_SECTSIZE (unat (uio_resid u)); pos = length data - unat (uio_resid u);
         u1 = u\<lparr>uio_resid := uio_resid u - of_nat n, uio_offset := uio_offset u + of_nat n\<rparr> in
     if uio_rw u = UIO_READ then Some (Inr (), (u1, take pos data @ take n buf @ drop (pos + n) data), buf)
     else Some (Inr (), (u1, data), take n (drop pos data) @ drop n buf))"

text \<open>On the memory; the buffer on the card is mapped at \<open>cbuf\<close>.\<close>

definition put_block :: "u32 \<Rightarrow> u8 list \<Rightarrow> bytes \<Rightarrow> bytes" where
  "put_block a data m = fold (\<lambda>i m. m(a + of_nat i := data ! i)) [0..<length data] m"

definition get_block :: "u32 \<Rightarrow> nat \<Rightarrow> bytes \<Rightarrow> u8 list" where
  "get_block a n m = map (\<lambda>i. m (a + of_nat i)) [0..<n]"

definition umove :: "prot \<Rightarrow> nat option \<Rightarrow> u32 \<Rightarrow> (uio \<times> memory) mover" where
  "umove p curas cbuf buf x = (case x of (u, m) \<Rightarrow> do {
     let m = m\<lparr>bytes_of := put_block cbuf buf (bytes_of m)\<rparr>;
     (r, u, m) \<leftarrow> uiomove p curas cbuf (of_nat LHD_SECTSIZE) u m;
     Some (r, (u, m), get_block cbuf LHD_SECTSIZE (bytes_of m))
   })"

section \<open>Words and bytes\<close>

definition to_bytes :: "u32 \<Rightarrow> u8 list" where
  "to_bytes w = [ucast (drop_bit 24 w), ucast (drop_bit 16 w), ucast (drop_bit 8 w), ucast w]"

definition from_bytes :: "u8 \<Rightarrow> u8 \<Rightarrow> u8 \<Rightarrow> u8 \<Rightarrow> u32" where
  "from_bytes a b c d = push_bit 24 (ucast a) OR push_bit 16 (ucast b) OR push_bit 8 (ucast c) OR ucast d"

definition bytes_of_words :: "u32 list \<Rightarrow> u8 list" where
  "bytes_of_words ws = concat (map to_bytes ws)"

fun words_of_bytes :: "u8 list \<Rightarrow> u32 list" where
  "words_of_bytes (a # b # c # d # xs) = from_bytes a b c d # words_of_bytes xs"
| "words_of_bytes xs = []"

section \<open>On-disk structures\<close>

abbreviation (input) SFS_MAGIC :: u32 where "SFS_MAGIC \<equiv> 0xabadf001"
abbreviation (input) SFS_BLOCKSIZE :: nat where "SFS_BLOCKSIZE \<equiv> 512"
abbreviation (input) SFS_NDIRECT :: nat where "SFS_NDIRECT \<equiv> 15"
abbreviation (input) SFS_NINDIRECT :: nat where "SFS_NINDIRECT \<equiv> 1"
abbreviation (input) SFS_DBPERIDB :: nat where "SFS_DBPERIDB \<equiv> 128"
abbreviation (input) SFS_NAMELEN :: nat where "SFS_NAMELEN \<equiv> 60"
abbreviation (input) SFS_SUPER_BLOCK :: u32 where "SFS_SUPER_BLOCK \<equiv> 0"
abbreviation (input) SFS_FREEMAP_START :: u32 where "SFS_FREEMAP_START \<equiv> 2"
abbreviation (input) SFS_NOINO :: u32 where "SFS_NOINO \<equiv> 0"
abbreviation (input) SFS_ROOTDIR_INO :: u32 where "SFS_ROOTDIR_INO \<equiv> 1"
abbreviation (input) SFS_TYPE_INVAL :: "16 word" where "SFS_TYPE_INVAL \<equiv> 0"
abbreviation (input) SFS_TYPE_FILE :: "16 word" where "SFS_TYPE_FILE \<equiv> 1"
abbreviation (input) SFS_TYPE_DIR :: "16 word" where "SFS_TYPE_DIR \<equiv> 2"

record sfs_superblock =
  sb_magic :: u32
  sb_nblocks :: u32
  sb_volname :: "u8 list"
  sb_reserved :: "u8 list"

record sfs_dinode =
  sfi_size :: u32
  sfi_type :: "16 word"
  sfi_linkcount :: "16 word"
  sfi_direct :: "u32 list"
  sfi_indirect :: u32
  sfi_waste :: "u32 list"

record sfs_direntry =
  sfd_ino :: u32
  sfd_name :: "u8 list"

definition read_super :: "u8 list \<Rightarrow> sfs_superblock" where
  "read_super b = \<lparr>sb_magic = words_of_bytes b ! 0, sb_nblocks = words_of_bytes b ! 1,
     sb_volname = take 32 (drop 8 b), sb_reserved = drop 40 b\<rparr>"

definition super_bytes :: "sfs_superblock \<Rightarrow> u8 list" where
  "super_bytes x = to_bytes (sb_magic x) @ to_bytes (sb_nblocks x) @ sb_volname x @ sb_reserved x"

definition inode_of_words :: "u32 list \<Rightarrow> sfs_dinode" where
  "inode_of_words w = \<lparr>sfi_size = w ! 0, sfi_type = ucast (drop_bit 16 (w ! 1)), sfi_linkcount = ucast (w ! 1),
     sfi_direct = take SFS_NDIRECT (drop 2 w), sfi_indirect = w ! 17, sfi_waste = drop 18 w\<rparr>"

definition inode_words :: "sfs_dinode \<Rightarrow> u32 list" where
  "inode_words x = sfi_size x # (push_bit 16 (ucast (sfi_type x)) OR ucast (sfi_linkcount x)) #
     sfi_direct x @ sfi_indirect x # sfi_waste x"

definition read_inode :: "u8 list \<Rightarrow> sfs_dinode" where
  "read_inode b = inode_of_words (words_of_bytes b)"

definition inode_bytes :: "sfs_dinode \<Rightarrow> u8 list" where
  "inode_bytes x = bytes_of_words (inode_words x)"

definition read_direntry :: "u8 list \<Rightarrow> sfs_direntry" where
  "read_direntry b = \<lparr>sfd_ino = words_of_bytes b ! 0, sfd_name = drop 4 b\<rparr>"

definition direntry_bytes :: "sfs_direntry \<Rightarrow> u8 list" where
  "direntry_bytes x = to_bytes (sfd_ino x) @ sfd_name x"

section \<open>Round trips\<close>

lemma from_to_bytes: "from_bytes (ucast (drop_bit 24 w)) (ucast (drop_bit 16 w)) (ucast (drop_bit 8 w)) (ucast w) = w"
proof (rule bit_word_eqI)
  fix n
  assume "n < LENGTH(32)"
  then have n: "n < 32" by simp
  show "bit (from_bytes (ucast (drop_bit 24 w)) (ucast (drop_bit 16 w)) (ucast (drop_bit 8 w)) (ucast w)) n = bit w n"
  proof (cases "n < 8")
    case True
    then show ?thesis by (auto simp: from_bytes_def bit_simps)
  next
    case False
    show ?thesis
    proof (cases "n < 16")
      case True
      then show ?thesis using False by (auto simp: from_bytes_def bit_simps)
    next
      case f2: False
      show ?thesis
      proof (cases "n < 24")
        case True
        then show ?thesis using f2 by (auto simp: from_bytes_def bit_simps)
      next
        case False
        then show ?thesis using n by (auto simp: from_bytes_def bit_simps)
      qed
    qed
  qed
qed

lemma length_bytes_of_words [simp]: "length (bytes_of_words ws) = 4 * length ws"
  by (induction ws) (simp_all add: bytes_of_words_def to_bytes_def)

lemma words_of_bytes_of_words: "words_of_bytes (bytes_of_words ws) = ws"
  by (induction ws) (simp_all add: bytes_of_words_def to_bytes_def from_to_bytes)

lemma words_of_bytes_append: "words_of_bytes (to_bytes w @ bs) = w # words_of_bytes bs"
  by (simp add: to_bytes_def from_to_bytes)

lemma length_words_of_bytes: "length (words_of_bytes bs) = length bs div 4"
  by (induction bs rule: words_of_bytes.induct) simp_all

definition inode_ok :: "sfs_dinode \<Rightarrow> bool" where
  "inode_ok x \<longleftrightarrow> length (sfi_direct x) = SFS_NDIRECT \<and> length (sfi_waste x) = 110"

lemma half_words:
  fixes a b :: "16 word"
  shows "drop_bit 16 (push_bit 16 (ucast a) :: u32) = ucast a" and "drop_bit 16 (ucast b :: u32) = 0"
    and "(ucast (push_bit 16 (ucast a) OR ucast b :: u32) :: 16 word) = b"
    and "(ucast (ucast a :: u32) :: 16 word) = a"
proof -
  have high: "\<not> bit x (16 + n)" for x :: "16 word" and n using bit_imp_le_length [of x "16 + n"] by auto
  show "drop_bit 16 (push_bit 16 (ucast a) :: u32) = ucast a"
    using high [of a "n - 16" for n] bit_imp_le_length [of a] by (intro bit_word_eqI) (auto simp: bit_simps)
  show "drop_bit 16 (ucast b :: u32) = 0"
    using high by (intro bit_word_eqI) (auto simp: bit_simps)
  show "(ucast (push_bit 16 (ucast a) OR ucast b :: u32) :: 16 word) = b" "(ucast (ucast a :: u32) :: 16 word) = a"
    by (rule bit_word_eqI; auto simp: bit_simps)+
qed

lemma read_inode_bytes: "inode_ok x \<Longrightarrow> read_inode (inode_bytes x) = x"
  by (cases x) (simp add: read_inode_def inode_bytes_def words_of_bytes_of_words inode_of_words_def inode_words_def
      half_words inode_ok_def nth_append)

lemma length_inode_bytes: "inode_ok x \<Longrightarrow> length (inode_bytes x) = 512"
  by (simp add: inode_bytes_def inode_words_def inode_ok_def)

lemma read_inode_ok: "length b = 512 \<Longrightarrow> inode_ok (read_inode b)"
  by (simp add: read_inode_def inode_of_words_def inode_ok_def length_words_of_bytes)

lemma read_direntry_bytes: "read_direntry (direntry_bytes x) = x"
  by (cases x) (simp add: read_direntry_def direntry_bytes_def words_of_bytes_append, simp add: to_bytes_def)

lemma length_direntry_bytes: "length (direntry_bytes x) = 4 + length (sfd_name x)"
  by (simp add: direntry_bytes_def to_bytes_def)

lemma read_super_bytes: "length (sb_volname x) = 32 \<Longrightarrow> read_super (super_bytes x) = x"
  by (cases x) (simp add: read_super_def super_bytes_def words_of_bytes_append, simp add: to_bytes_def)

end
