(* ===== verification/Sfs_Block.thy ===== *)
theory Sfs_Block
  imports Sfs_Disk
begin

text \<open>
  The lower half of the simple file system: block transfers (\<^verbatim>\<open>fs/sfs/sfs_io.c\<close>), block allocation
  (\<^verbatim>\<open>sfs_balloc.c\<close>) and the map from the blocks of a file to those of the disk (\<^verbatim>\<open>sfs_bmap.c\<close>).

  The private state of the VFS holds the volumes by the address of their \<^verbatim>\<open>struct fs\<close>, the \<^verbatim>\<open>struct
  sfs_vnode\<close> that each vnode is the first field of, and the disks. The static buffers of the functions are
  values. \<open>v\<close> is a vnode and \<open>fs\<close> its \<^verbatim>\<open>vn_fs->fs_data\<close>.
\<close>

section \<open>State\<close>

record sfs_vnode =
  sv_i :: sfs_dinode
  sv_ino :: u32
  sv_dirty :: bool

record sfs_fs =
  sfs_sb :: sfs_superblock
  sfs_superdirty :: bool
  sfs_device :: "nat option"
  sfs_vnodes :: "nat karray"
  sfs_freemap :: "bitmap option"
  sfs_freemapdirty :: bool

record sfs_sys =
  vols :: "nat \<Rightarrow> sfs_fs option"
  svs :: "nat \<Rightarrow> sfs_vnode option"
  disks :: "nat \<Rightarrow> disk option"

type_synonym sst = "sfs_sys vfs"

definition on_sfs :: "(sfs_sys \<Rightarrow> sfs_sys) \<Rightarrow> sst \<Rightarrow> sst" where
  "on_sfs f s = s\<lparr>fsdata := f (fsdata s)\<rparr>"

text \<open>A pointer followed; None stops the kernel.\<close>

definition the_vol :: "nat \<Rightarrow> (sst, sfs_fs) op" where
  "the_vol fs = (\<lambda>s. map_option (\<lambda>x. (Inr x, s)) (vols (fsdata s) fs))"

definition the_sv :: "nat \<Rightarrow> (sst, sfs_vnode) op" where
  "the_sv v = (\<lambda>s. map_option (\<lambda>x. (Inr x, s)) (svs (fsdata s) v))"

definition the_fs :: "nat \<Rightarrow> (sst, nat) op" where
  "the_fs v = (\<lambda>s. map_option (\<lambda>x. (Inr x, s)) (Option.bind (vnodes s v) vn_fs))"

definition upd_vol :: "nat \<Rightarrow> (sfs_fs \<Rightarrow> sfs_fs) \<Rightarrow> (sst, unit) op" where
  "upd_vol fs f = chain (the_vol fs) (\<lambda>x. modify (on_sfs (\<lambda>y. y\<lparr>vols := (vols y)(fs \<mapsto> f x)\<rparr>)))"

definition upd_sv :: "nat \<Rightarrow> (sfs_vnode \<Rightarrow> sfs_vnode) \<Rightarrow> (sst, unit) op" where
  "upd_sv v f = chain (the_sv v) (\<lambda>x. modify (on_sfs (\<lambda>y. y\<lparr>svs := (svs y)(v \<mapsto> f x)\<rparr>)))"

text \<open>A step on the freemap, which stops the kernel where it is \<^verbatim>\<open>NULL\<close>.\<close>

definition the_map :: "nat \<Rightarrow> (sst, bitmap) op" where
  "the_map fs = chain (the_vol fs) (\<lambda>x. case sfs_freemap x of None \<Rightarrow> panic | Some b \<Rightarrow> succeed b)"

definition lift_option :: "'a option \<Rightarrow> (sst, 'a) op" where
  "lift_option r = (case r of None \<Rightarrow> panic | Some x \<Rightarrow> succeed x)"

section \<open>Block transfers\<close>

text \<open>A request to the disk of a volume: the error or 0, and what the request leaves of its \<^verbatim>\<open>uio\<close>.\<close>

definition DEVOP_IO :: "nat \<Rightarrow> (disk \<Rightarrow> 'x \<Rightarrow> ((errno + unit) \<times> disk \<times> 'x) option) \<Rightarrow> 'x \<Rightarrow> (sst, (errno + unit) \<times> 'x) op" where
  "DEVOP_IO fs io x = chain (the_vol fs) (\<lambda>vol. (\<lambda>s. do {
     dev \<leftarrow> sfs_device vol;
     d \<leftarrow> disks (fsdata s) dev;
     (r, d, x) \<leftarrow> io d x;
     Some (Inr (r, x), on_sfs (\<lambda>y. y\<lparr>disks := (disks y)(dev \<mapsto> d)\<rparr>) s)
   }))"

text \<open>The retries that are left after an I/O error.\<close>

primrec rw_retry :: "nat \<Rightarrow> nat \<Rightarrow> (disk \<Rightarrow> 'x \<Rightarrow> ((errno + unit) \<times> disk \<times> 'x) option) \<Rightarrow> 'x \<Rightarrow>
    (sst, (errno + unit) \<times> 'x) op" where
  "rw_retry 0 fs io x = chain (DEVOP_IO fs io x) (\<lambda>(r, x). if r = Inl EINVAL then panic else succeed (r, x))"
| "rw_retry (Suc n) fs io x = chain (DEVOP_IO fs io x) (\<lambda>(r, x).
     if r = Inl EINVAL then panic
     else if r = Inl EIO then rw_retry n fs io x
     else succeed (r, x))"

definition sfs_rwblock :: "nat \<Rightarrow> (disk \<Rightarrow> 'x \<Rightarrow> ((errno + unit) \<times> disk \<times> 'x) option) \<Rightarrow> 'x \<Rightarrow> (sst, (errno + unit) \<times> 'x) op" where
  "sfs_rwblock fs io x = chain (ensure vfs_biglock_do_i_hold) (\<lambda>_. rw_retry 10 fs io x)"

definition SFSUIO :: "u32 \<Rightarrow> uio_rw \<Rightarrow> uio" where
  "SFSUIO block rw = uio_kinit 0 (of_nat SFS_BLOCKSIZE) (ucast block * of_nat SFS_BLOCKSIZE) rw"

definition sfs_readblock :: "nat \<Rightarrow> u32 \<Rightarrow> (sst, u8 list) op" where
  "sfs_readblock fs block =
     chain (sfs_rwblock fs (lhd_io fst kmove) (SFSUIO block UIO_READ, replicate SFS_BLOCKSIZE 0)) (\<lambda>(r, _, data).
     case r of Inl e \<Rightarrow> fail e | Inr _ \<Rightarrow> succeed data)"

definition sfs_writeblock :: "nat \<Rightarrow> u32 \<Rightarrow> u8 list \<Rightarrow> (sst, unit) op" where
  "sfs_writeblock fs block data =
     chain (ensure (\<lambda>_. length data = SFS_BLOCKSIZE)) (\<lambda>_.
     chain (sfs_rwblock fs (lhd_io fst kmove) (SFSUIO block UIO_WRITE, data)) (\<lambda>(r, _). give r))"

section \<open>Block allocation\<close>

definition sfs_clearblock :: "nat \<Rightarrow> u32 \<Rightarrow> (sst, unit) op" where
  "sfs_clearblock fs block = sfs_writeblock fs block (replicate SFS_BLOCKSIZE 0)"

definition set_freemap :: "nat \<Rightarrow> bitmap \<Rightarrow> (sst, unit) op" where
  "set_freemap fs b = upd_vol fs (\<lambda>x. x\<lparr>sfs_freemap := Some b\<rparr>)"

definition sfs_balloc :: "nat \<Rightarrow> (sst, u32) op" where
  "sfs_balloc fs =
     chain (the_map fs) (\<lambda>b.
     chain (lift_option (bitmap_alloc b)) (\<lambda>r.
     case r of
       Inl e \<Rightarrow> fail e
     | Inr (b, k) \<Rightarrow>
         chain (set_freemap fs b) (\<lambda>_.
         chain (upd_vol fs (\<lambda>x. x\<lparr>sfs_freemapdirty := True\<rparr>)) (\<lambda>_.
         chain (the_vol fs) (\<lambda>vol.
         let diskblock = of_nat k in
         if diskblock \<ge> sb_nblocks (sfs_sb vol) then panic
         else handle (sfs_clearblock fs diskblock) (\<lambda>r.
           case r of
             Inl e \<Rightarrow> chain (lift_option (bitmap_unmark b (unat diskblock))) (\<lambda>b. chain (set_freemap fs b) (\<lambda>_. fail e))
           | Inr _ \<Rightarrow> succeed diskblock))))))"

definition sfs_bfree :: "nat \<Rightarrow> u32 \<Rightarrow> (sst, unit) op" where
  "sfs_bfree fs diskblock =
     chain (the_map fs) (\<lambda>b.
     chain (lift_option (bitmap_unmark b (unat diskblock))) (\<lambda>b.
     upd_vol fs (\<lambda>x. x\<lparr>sfs_freemap := Some b, sfs_freemapdirty := True\<rparr>)))"

definition sfs_bused :: "nat \<Rightarrow> u32 \<Rightarrow> (sst, bool) op" where
  "sfs_bused fs diskblock =
     chain (the_vol fs) (\<lambda>vol.
     if diskblock \<ge> sb_nblocks (sfs_sb vol) then panic
     else chain (the_map fs) (\<lambda>b.
          chain (lift_option (bitmap_isset b (unat diskblock))) (\<lambda>r. succeed (r \<noteq> 0))))"

section \<open>The block map\<close>

text \<open>The check before a block is handed out.\<close>

definition hand_back :: "nat \<Rightarrow> u32 \<Rightarrow> (sst, u32) op" where
  "hand_back fs block =
     (if block = 0 then succeed block
      else chain (sfs_bused fs block) (\<lambda>used. if used then succeed block else panic))"

definition set_direct :: "nat \<Rightarrow> u32 \<Rightarrow> sfs_vnode \<Rightarrow> sfs_vnode" where
  "set_direct i block sv = sv\<lparr>sv_i := (sv_i sv)\<lparr>sfi_direct := (sfi_direct (sv_i sv))[i := block]\<rparr>, sv_dirty := True\<rparr>"

definition set_indirect :: "u32 \<Rightarrow> sfs_vnode \<Rightarrow> sfs_vnode" where
  "set_indirect block sv = sv\<lparr>sv_i := (sv_i sv)\<lparr>sfi_indirect := block\<rparr>, sv_dirty := True\<rparr>"

definition bmap_direct :: "nat \<Rightarrow> nat \<Rightarrow> nat \<Rightarrow> bool \<Rightarrow> (sst, u32) op" where
  "bmap_direct fs v i doalloc =
     chain (the_sv v) (\<lambda>sv.
     let block = sfi_direct (sv_i sv) ! i in
     if block = 0 \<and> doalloc then
       chain (sfs_balloc fs) (\<lambda>block.
       chain (upd_sv v (set_direct i block)) (\<lambda>_. hand_back fs block))
     else hand_back fs block)"

text \<open>The indirect block and its contents; None where there is none and none is wanted.\<close>

definition bmap_idblock :: "nat \<Rightarrow> nat \<Rightarrow> bool \<Rightarrow> (sst, (u32 \<times> u32 list) option) op" where
  "bmap_idblock fs v doalloc =
     chain (the_sv v) (\<lambda>sv.
     let idblock = sfi_indirect (sv_i sv) in
     if idblock = 0 \<and> \<not> doalloc then succeed None
     else if idblock = 0 then
       chain (sfs_balloc fs) (\<lambda>idblock.
       chain (upd_sv v (set_indirect idblock)) (\<lambda>_. succeed (Some (idblock, replicate SFS_DBPERIDB 0))))
     else chain (sfs_readblock fs idblock) (\<lambda>data. succeed (Some (idblock, words_of_bytes data))))"

definition bmap_indirect :: "nat \<Rightarrow> nat \<Rightarrow> nat \<Rightarrow> bool \<Rightarrow> (sst, u32) op" where
  "bmap_indirect fs v idoff doalloc =
     chain (bmap_idblock fs v doalloc) (\<lambda>r. case r of
       None \<Rightarrow> succeed 0
     | Some (idblock, idbuf) \<Rightarrow>
         let block = idbuf ! idoff in
         if block = 0 \<and> doalloc then
           chain (sfs_balloc fs) (\<lambda>block.
           chain (sfs_writeblock fs idblock (bytes_of_words (idbuf[idoff := block]))) (\<lambda>_. hand_back fs block))
         else hand_back fs block)"

definition sfs_bmap :: "nat \<Rightarrow> u32 \<Rightarrow> bool \<Rightarrow> (sst, u32) op" where
  "sfs_bmap v fileblock doalloc =
     chain (the_fs v) (\<lambda>fs.
     chain (ensure vfs_biglock_do_i_hold) (\<lambda>_.
     if fileblock < of_nat SFS_NDIRECT then bmap_direct fs v (unat fileblock) doalloc
     else
       let fileblock = fileblock - of_nat SFS_NDIRECT; idnum = fileblock div of_nat SFS_DBPERIDB;
           idoff = fileblock mod of_nat SFS_DBPERIDB in
       if idnum \<ge> of_nat SFS_NINDIRECT then fail EFBIG else bmap_indirect fs v (unat idoff) doalloc))"

section \<open>Truncation\<close>

primrec trunc_direct :: "nat \<Rightarrow> nat \<Rightarrow> u32 \<Rightarrow> nat list \<Rightarrow> (sst, unit) op" where
  "trunc_direct fs v blocklen [] = succeed ()"
| "trunc_direct fs v blocklen (i # is) =
     chain (the_sv v) (\<lambda>sv.
     let block = sfi_direct (sv_i sv) ! i in
     if of_nat i \<ge> blocklen \<and> block \<noteq> 0 then
       chain (sfs_bfree fs block) (\<lambda>_.
       chain (upd_sv v (set_direct i 0)) (\<lambda>_. trunc_direct fs v blocklen is))
     else trunc_direct fs v blocklen is)"

text \<open>The loop over the indirect block: the buffer, \<^verbatim>\<open>hasnonzero\<close> and \<^verbatim>\<open>iddirty\<close>.\<close>

primrec trunc_indirect :: "nat \<Rightarrow> u32 \<Rightarrow> nat list \<Rightarrow> u32 list \<times> bool \<times> bool \<Rightarrow> (sst, u32 list \<times> bool \<times> bool) op" where
  "trunc_indirect fs blocklen [] x = succeed x"
| "trunc_indirect fs blocklen (j # js) x =
     (case x of (idbuf, hasnonzero, iddirty) \<Rightarrow>
       if blocklen < of_nat (SFS_NDIRECT + j) \<and> idbuf ! j \<noteq> 0 then
         chain (sfs_bfree fs (idbuf ! j)) (\<lambda>_. trunc_indirect fs blocklen js (idbuf[j := 0], hasnonzero, True))
       else trunc_indirect fs blocklen js (idbuf, hasnonzero \<or> idbuf ! j \<noteq> 0, iddirty))"

definition trunc_idblock :: "nat \<Rightarrow> nat \<Rightarrow> u32 \<Rightarrow> (sst, unit) op" where
  "trunc_idblock fs v blocklen =
     chain (the_sv v) (\<lambda>sv.
     let idblock = sfi_indirect (sv_i sv); highblock = SFS_NDIRECT + SFS_DBPERIDB - 1 in
     if blocklen < of_nat highblock \<and> idblock \<noteq> 0 then
       chain (sfs_readblock fs idblock) (\<lambda>data.
       chain (trunc_indirect fs blocklen [0..<SFS_DBPERIDB] (words_of_bytes data, False, False))
         (\<lambda>(idbuf, hasnonzero, iddirty).
         if \<not> hasnonzero then
           chain (sfs_bfree fs idblock) (\<lambda>_. upd_sv v (set_indirect 0))
         else if iddirty then sfs_writeblock fs idblock (bytes_of_words idbuf)
         else succeed ()))
     else succeed ())"

text \<open>\<^verbatim>\<open>DIVROUNDUP\<close> on an \<^verbatim>\<open>off_t\<close>; the result goes into 32 bits, and so does the length.\<close>

definition sfs_itrunc :: "nat \<Rightarrow> 64 word \<Rightarrow> (sst, unit) op" where
  "sfs_itrunc v len = chain (the_fs v) (\<lambda>fs.
     let blocklen = of_int (sint (len + of_nat SFS_BLOCKSIZE - 1) sdiv int SFS_BLOCKSIZE) in
     locked (
       chain (trunc_direct fs v blocklen [0..<SFS_NDIRECT]) (\<lambda>_.
       chain (trunc_idblock fs v blocklen) (\<lambda>_.
       upd_sv v (\<lambda>sv. sv\<lparr>sv_i := (sv_i sv)\<lparr>sfi_size := ucast len\<rparr>, sv_dirty := True\<rparr>)))))"

end
