(* ===== verification/Sfs_File.thy ===== *)
theory Sfs_File
  imports Sfs_Block
begin

text \<open>
  Files and directories of the simple file system: transfers of any length and alignment and of metadata
  (\<^verbatim>\<open>fs/sfs/sfs_io.c\<close>), and directories (\<^verbatim>\<open>sfs_dir.c\<close>).

  A transfer gives its error or 0 together with the \<^verbatim>\<open>uio\<close> it leaves, since \<^verbatim>\<open>sfs_io\<close> looks at that after an
  error too. The environment of a call says which memory it may touch, where the static buffers and the
  buffer of the disk are, and what the allocator gives.
\<close>

record sfs_env =
  se_prot :: prot
  se_curas :: "nat option"
  se_card :: u32
  se_iobuf :: u32
  se_zeros :: u32
  se_new :: "sst \<Rightarrow> nat option"
  se_grow :: "sst \<Rightarrow> bool"

text \<open>Going on after an error as well.\<close>

definition attempt :: "('s, 'a) op \<Rightarrow> ('s, errno + 'a) op" where
  "attempt f = handle f succeed"

section \<open>File transfers\<close>

definition file_block :: "uio \<Rightarrow> u32" where
  "file_block u = of_int (sint (uio_offset u) sdiv int SFS_BLOCKSIZE)"

text \<open>\<^verbatim>\<open>uiomove\<close> between the static buffer and the \<^verbatim>\<open>uio\<close>.\<close>

definition move_iobuf :: "sfs_env \<Rightarrow> u8 list \<Rightarrow> u32 \<Rightarrow> u32 \<Rightarrow> uio \<Rightarrow> (sst, (errno + unit) \<times> uio \<times> u8 list) op" where
  "move_iobuf E iobuf skipstart len u = (\<lambda>s. do {
     let m = (user s)\<lparr>bytes_of := put_block (se_iobuf E) iobuf (bytes_of (user s))\<rparr>;
     (r, u, m) \<leftarrow> uiomove (se_prot E) (se_curas E) (se_iobuf E + skipstart) len u m;
     Some (Inr (r, u, get_block (se_iobuf E) SFS_BLOCKSIZE (bytes_of m)), s\<lparr>user := m\<rparr>)
   })"

definition sfs_partialio :: "sfs_env \<Rightarrow> nat \<Rightarrow> u32 \<Rightarrow> u32 \<Rightarrow> uio \<Rightarrow> (sst, (errno + unit) \<times> uio) op" where
  "sfs_partialio E v skipstart len u =
     chain (the_fs v) (\<lambda>fs.
     chain (ensure (\<lambda>_. skipstart + len \<le> of_nat SFS_BLOCKSIZE)) (\<lambda>_.
     chain (ensure vfs_biglock_do_i_hold) (\<lambda>_.
     chain (attempt (sfs_bmap v (file_block u) (uio_rw u = UIO_WRITE))) (\<lambda>r.
     case r of
       Inl e \<Rightarrow> succeed (Inl e, u)
     | Inr diskblock \<Rightarrow>
         chain (if diskblock = 0 then chain (ensure (\<lambda>_. uio_rw u = UIO_READ)) (\<lambda>_. succeed (Inr (replicate SFS_BLOCKSIZE 0)))
                else attempt (sfs_readblock fs diskblock)) (\<lambda>r.
         case r of
           Inl e \<Rightarrow> succeed (Inl e, u)
         | Inr iobuf \<Rightarrow>
             chain (move_iobuf E iobuf skipstart len u) (\<lambda>(r, u, iobuf).
             case r of
               Inl e \<Rightarrow> succeed (Inl e, u)
             | Inr _ \<Rightarrow>
                 if uio_rw u = UIO_WRITE then
                   chain (attempt (sfs_writeblock fs diskblock iobuf)) (\<lambda>r. succeed (r, u))
                 else succeed (Inr (), u)))))))"

text \<open>The disk position is multiplied in 32 bits and then widened.\<close>

definition disk_position :: "u32 \<Rightarrow> 64 word" where
  "disk_position diskblock = ucast (diskblock * of_nat SFS_BLOCKSIZE)"

definition direct_io :: "sfs_env \<Rightarrow> nat \<Rightarrow> u32 \<Rightarrow> uio \<Rightarrow> (sst, (errno + unit) \<times> uio) op" where
  "direct_io E fs diskblock u =
     chain (ensure (\<lambda>_. uio_resid u \<ge> of_nat SFS_BLOCKSIZE)) (\<lambda>_.
     chain (gets user) (\<lambda>m.
     chain (sfs_rwblock fs (lhd_io fst (umove (se_prot E) (se_curas E) (se_card E)))
             (u\<lparr>uio_offset := disk_position diskblock, uio_resid := of_nat SFS_BLOCKSIZE\<rparr>, m)) (\<lambda>(r, u1, m).
     chain (modify (\<lambda>s. s\<lparr>user := m\<rparr>)) (\<lambda>_.
     succeed (r, u1\<lparr>uio_offset := (uio_offset u1 - disk_position diskblock) + uio_offset u,
       uio_resid := (uio_resid u1 - of_nat SFS_BLOCKSIZE) + uio_resid u\<rparr>)))))"

definition zeros_io :: "sfs_env \<Rightarrow> uio \<Rightarrow> (sst, (errno + unit) \<times> uio) op" where
  "zeros_io E u = (\<lambda>s. do {
     (r, u, m) \<leftarrow> uiomovezeros (se_prot E) (se_curas E) (se_zeros E) (of_nat SFS_BLOCKSIZE) u (user s);
     Some (Inr (r, u), s\<lparr>user := m\<rparr>)
   })"

definition sfs_blockio :: "sfs_env \<Rightarrow> nat \<Rightarrow> uio \<Rightarrow> (sst, (errno + unit) \<times> uio) op" where
  "sfs_blockio E v u =
     chain (the_fs v) (\<lambda>fs.
     chain (attempt (sfs_bmap v (file_block u) (uio_rw u = UIO_WRITE))) (\<lambda>r.
     case r of
       Inl e \<Rightarrow> succeed (Inl e, u)
     | Inr diskblock \<Rightarrow>
         if diskblock = 0 then chain (ensure (\<lambda>_. uio_rw u = UIO_READ)) (\<lambda>_. zeros_io E u)
         else direct_io E fs diskblock u))"

primrec whole_blocks :: "sfs_env \<Rightarrow> nat \<Rightarrow> nat \<Rightarrow> uio \<Rightarrow> (sst, (errno + unit) \<times> uio) op" where
  "whole_blocks E v 0 u = succeed (Inr (), u)"
| "whole_blocks E v (Suc n) u =
     chain (sfs_blockio E v u) (\<lambda>(r, u). case r of Inl e \<Rightarrow> succeed (Inl e, u) | Inr _ \<Rightarrow> whole_blocks E v n u)"

text \<open>From the check of the leading block up to the label \<^verbatim>\<open>out\<close>.\<close>

definition io_blocks :: "sfs_env \<Rightarrow> nat \<Rightarrow> uio \<Rightarrow> (sst, (errno + unit) \<times> uio) op" where
  "io_blocks E v u =
     (if uio_resid u = 0 then succeed (Inr (), u)
      else
        chain (ensure (\<lambda>_. sint (uio_offset u) smod int SFS_BLOCKSIZE = 0)) (\<lambda>_.
        chain (whole_blocks E v (unat (uio_resid u div of_nat SFS_BLOCKSIZE)) u) (\<lambda>(r, u).
        case r of
          Inl e \<Rightarrow> succeed (Inl e, u)
        | Inr _ \<Rightarrow>
            chain (ensure (\<lambda>_. uio_resid u < of_nat SFS_BLOCKSIZE)) (\<lambda>_.
            if uio_resid u > 0 then sfs_partialio E v 0 (uio_resid u) u else succeed (Inr (), u)))))"

definition io_body :: "sfs_env \<Rightarrow> nat \<Rightarrow> uio \<Rightarrow> (sst, (errno + unit) \<times> uio) op" where
  "io_body E v u =
     (let blkoff = (of_int (sint (uio_offset u) smod int SFS_BLOCKSIZE) :: u32) in
      if blkoff \<noteq> 0 then
        chain (sfs_partialio E v blkoff (min (of_nat SFS_BLOCKSIZE - blkoff) (uio_resid u)) u) (\<lambda>(r, u).
        case r of Inl e \<Rightarrow> succeed (Inl e, u) | Inr _ \<Rightarrow> io_blocks E v u)
      else io_blocks E v u)"

definition io_out :: "nat \<Rightarrow> u32 \<Rightarrow> u32 \<Rightarrow> (errno + unit) \<times> uio \<Rightarrow> (sst, (errno + unit) \<times> uio) op" where
  "io_out v origresid extraresid x =
     (case x of (r, u) \<Rightarrow>
       chain (the_sv v) (\<lambda>sv.
       chain (if uio_resid u \<noteq> origresid \<and> uio_rw u = UIO_WRITE \<and>
                sint (uio_offset u) > sint (ucast (sfi_size (sv_i sv)) :: 64 word) then
                upd_sv v (\<lambda>sv. sv\<lparr>sv_i := (sv_i sv)\<lparr>sfi_size := ucast (uio_offset u)\<rparr>, sv_dirty := True\<rparr>)
              else succeed ()) (\<lambda>_.
       succeed (r, u\<lparr>uio_resid := uio_resid u + extraresid\<rparr>))))"

definition sfs_io :: "sfs_env \<Rightarrow> nat \<Rightarrow> uio \<Rightarrow> (sst, (errno + unit) \<times> uio) op" where
  "sfs_io E v u =
     (if uio_rw u = UIO_READ then
        chain (the_sv v) (\<lambda>sv.
        let siz = ucast (sfi_size (sv_i sv)) :: 64 word; endpos = uio_offset u + ucast (uio_resid u) in
        if sint (uio_offset u) \<ge> sint siz then succeed (Inr (), u)
        else if sint endpos > sint siz then
          let extraresid = ucast (endpos - siz) in
          chain (ensure (\<lambda>_. uio_resid u > extraresid)) (\<lambda>_.
          chain (io_body E v (u\<lparr>uio_resid := uio_resid u - extraresid\<rparr>)) (io_out v (uio_resid u) extraresid))
        else chain (io_body E v u) (io_out v (uio_resid u) 0))
      else chain (io_body E v u) (io_out v (uio_resid u) 0))"

section \<open>Metadata\<close>

text \<open>The result is \<open>data\<close> as the call leaves it. A copy past the end of the static buffer stops the kernel.\<close>

definition sfs_metaio :: "nat \<Rightarrow> 64 word \<Rightarrow> u8 list \<Rightarrow> uio_rw \<Rightarrow> (sst, u8 list) op" where
  "sfs_metaio v actualpos data rw =
     chain (the_fs v) (\<lambda>fs.
     chain (ensure vfs_biglock_do_i_hold) (\<lambda>_.
     let vnblock = of_int (sint actualpos sdiv int SFS_BLOCKSIZE);
         blockoffset = nat (sint actualpos smod int SFS_BLOCKSIZE) in
     chain (sfs_bmap v vnblock (rw = UIO_WRITE)) (\<lambda>diskblock.
     if diskblock = 0 then chain (ensure (\<lambda>_. rw = UIO_READ)) (\<lambda>_. succeed (replicate (length data) 0))
     else
       chain (sfs_readblock fs diskblock) (\<lambda>metaiobuf.
       chain (ensure (\<lambda>_. blockoffset + length data \<le> length metaiobuf)) (\<lambda>_.
       if rw = UIO_READ then succeed (take (length data) (drop blockoffset metaiobuf))
       else
         chain (sfs_writeblock fs diskblock
                 (take blockoffset metaiobuf @ data @ drop (blockoffset + length data) metaiobuf)) (\<lambda>_.
         chain (the_sv v) (\<lambda>sv.
         let endpos = actualpos + of_nat (length data) in
         if sint endpos > sint (ucast (sfi_size (sv_i sv)) :: 64 word) then
           chain (upd_sv v (\<lambda>sv. sv\<lparr>sv_i := (sv_i sv)\<lparr>sfi_size := ucast endpos\<rparr>, sv_dirty := True\<rparr>)) (\<lambda>_. succeed data)
         else succeed data)))))))"

section \<open>Directories\<close>

abbreviation (input) DIRENT :: nat where "DIRENT \<equiv> 64"

definition slot_position :: "nat \<Rightarrow> 64 word" where
  "slot_position slot = ucast (of_nat slot * of_nat DIRENT :: u32)"

definition sfs_readdir :: "nat \<Rightarrow> nat \<Rightarrow> (sst, sfs_direntry) op" where
  "sfs_readdir v slot =
     chain (sfs_metaio v (slot_position slot) (replicate DIRENT 0) UIO_READ) (\<lambda>data. succeed (read_direntry data))"

definition sfs_writedir :: "nat \<Rightarrow> nat \<Rightarrow> sfs_direntry \<Rightarrow> (sst, unit) op" where
  "sfs_writedir v slot sd =
     chain (sfs_metaio v (slot_position slot) (direntry_bytes sd) UIO_WRITE) (\<lambda>_. succeed ())"

definition sfs_dir_nentries :: "nat \<Rightarrow> (sst, nat) op" where
  "sfs_dir_nentries v =
     chain (the_sv v) (\<lambda>sv.
     chain (ensure (\<lambda>_. sfi_type (sv_i sv) = SFS_TYPE_DIR)) (\<lambda>_.
     if unat (sfi_size (sv_i sv)) mod DIRENT \<noteq> 0 then panic
     else succeed (unat (sfi_size (sv_i sv)) div DIRENT)))"

text \<open>A name as it is on disk, and as the string it is read back as.\<close>

definition name_bytes :: "string \<Rightarrow> u8 list" where
  "name_bytes name = map (\<lambda>c. of_nat (of_char c)) name"

definition cstring :: "u8 list \<Rightarrow> string" where
  "cstring bs = map (\<lambda>b. char_of (unat b)) (takeWhile (\<lambda>b. b \<noteq> 0) bs)"

text \<open>The loop over the slots: the entry found, with its slot, and the last free slot.\<close>

primrec find_slots :: "nat \<Rightarrow> string \<Rightarrow> nat list \<Rightarrow> (u32 \<times> nat) option \<times> nat option \<Rightarrow>
    (sst, (u32 \<times> nat) option \<times> nat option) op" where
  "find_slots v name [] x = succeed x"
| "find_slots v name (i # is) x =
     (case x of (found, emptyslot) \<Rightarrow>
       chain (sfs_readdir v i) (\<lambda>tsd.
       if sfd_ino tsd = SFS_NOINO then find_slots v name is (found, Some i)
       else if cstring ((sfd_name tsd)[SFS_NAMELEN - 1 := 0]) = name then
         chain (ensure (\<lambda>_. found = None)) (\<lambda>_. find_slots v name is (Some (sfd_ino tsd, i), emptyslot))
       else find_slots v name is (found, emptyslot)))"

text \<open>None for an entry stands for the result \<^verbatim>\<open>ENOENT\<close>.\<close>

definition sfs_dir_findname :: "nat \<Rightarrow> string \<Rightarrow> (sst, (u32 \<times> nat) option \<times> nat option) op" where
  "sfs_dir_findname v name =
     chain (sfs_dir_nentries v) (\<lambda>n. find_slots v name [0..<n] (None, None))"

definition sfs_dir_link :: "nat \<Rightarrow> string \<Rightarrow> u32 \<Rightarrow> (sst, nat) op" where
  "sfs_dir_link v name ino =
     chain (sfs_dir_findname v name) (\<lambda>(found, emptyslot).
     if found \<noteq> None then fail EEXIST
     else if length name + 1 > SFS_NAMELEN then fail ENAMETOOLONG
     else
       chain (case emptyslot of Some i \<Rightarrow> succeed i | None \<Rightarrow> sfs_dir_nentries v) (\<lambda>slot.
       chain (sfs_writedir v slot \<lparr>sfd_ino = ino,
               sfd_name = name_bytes name @ replicate (SFS_NAMELEN - length name) 0\<rparr>) (\<lambda>_. succeed slot)))"

definition sfs_dir_unlink :: "nat \<Rightarrow> nat \<Rightarrow> (sst, unit) op" where
  "sfs_dir_unlink v slot = sfs_writedir v slot \<lparr>sfd_ino = SFS_NOINO, sfd_name = replicate SFS_NAMELEN 0\<rparr>"

end
