(* ===== verification/Sfs.thy ===== *)
theory Sfs
  imports Sfs_File
begin

text \<open>
  The simple file system as the VFS calls it: inodes and vnodes (\<^verbatim>\<open>fs/sfs/sfs_inode.c\<close>), the vnode
  operations with their two tables (\<^verbatim>\<open>sfs_vnops.c\<close>), and volumes (\<^verbatim>\<open>sfs_fsops.c\<close>).

  \<^verbatim>\<open>VOP_DECREF\<close> inside the file system reaches only \<^verbatim>\<open>sfs_reclaim\<close>. Memory given to \<^verbatim>\<open>kfree\<close> is no longer
  there. Messages are left out.
\<close>

section \<open>Inodes\<close>

definition sfs_sync_inode :: "nat \<Rightarrow> (sst, unit) op" where
  "sfs_sync_inode v =
     chain (the_fs v) (\<lambda>fs.
     chain (the_sv v) (\<lambda>sv.
     if sv_dirty sv then
       chain (sfs_writeblock fs (sv_ino sv) (inode_bytes (sv_i sv))) (\<lambda>_.
       upd_sv v (\<lambda>sv. sv\<lparr>sv_dirty := False\<rparr>))
     else succeed ()))"

text \<open>The slot of a vnode in the table of its volume.\<close>

primrec vnode_slot :: "nat karray \<Rightarrow> nat \<Rightarrow> nat list \<Rightarrow> nat option option" where
  "vnode_slot a v [] = Some None"
| "vnode_slot a v (i # is) = do {
     x \<leftarrow> array_get a i;
     v2 \<leftarrow> x;
     if v2 = v then Some (Some i) else vnode_slot a v is
   }"

definition free_sv :: "nat \<Rightarrow> (sst, unit) op" where
  "free_sv v = modify (\<lambda>s. on_sfs (\<lambda>y. y\<lparr>svs := (svs y)(v := None)\<rparr>) (s\<lparr>vnodes := (vnodes s)(v := None)\<rparr>))"

definition sfs_reclaim :: "nat \<Rightarrow> (sst, unit) op" where
  "sfs_reclaim v =
     chain (the_fs v) (\<lambda>fs.
     locked (
       chain (gets (\<lambda>s. refcount s v)) (\<lambda>n.
       if n \<noteq> 1 then
         chain (ensure (\<lambda>_. n > 1)) (\<lambda>_.
         chain (modify (upd_vnode v (\<lambda>x. x\<lparr>vn_refcount := vn_refcount x - 1\<rparr>))) (\<lambda>_. fail EBUSY))
       else
         chain (the_sv v) (\<lambda>sv.
         chain (if sfi_linkcount (sv_i sv) = 0 then sfs_itrunc v 0 else succeed ()) (\<lambda>_.
         chain (sfs_sync_inode v) (\<lambda>_.
         chain (if sfi_linkcount (sv_i sv) = 0 then sfs_bfree fs (sv_ino sv) else succeed ()) (\<lambda>_.
         chain (the_vol fs) (\<lambda>vol.
         chain (lift_option (vnode_slot (sfs_vnodes vol) v [0..<array_num (sfs_vnodes vol)])) (\<lambda>ix.
         case ix of
           None \<Rightarrow> panic
         | Some ix \<Rightarrow>
             chain (lift_option (array_remove (sfs_vnodes vol) ix)) (\<lambda>a.
             chain (upd_vol fs (\<lambda>x. x\<lparr>sfs_vnodes := a\<rparr>)) (\<lambda>_.
             chain (vnode_cleanup v) (\<lambda>_. free_sv v))))))))))))"

definition reclaim_ops :: "sfs_sys fsops" where
  "reclaim_ops = no_fs\<lparr>vop_reclaim := sfs_reclaim\<rparr>"

text \<open>The search of the table: every vnode looked at is checked.\<close>

primrec find_vnode :: "nat \<Rightarrow> nat karray \<Rightarrow> u32 \<Rightarrow> nat list \<Rightarrow> (sst, nat option) op" where
  "find_vnode fs a ino [] = succeed None"
| "find_vnode fs a ino (i # is) =
     chain (lift_option (Option.bind (array_get a i) id)) (\<lambda>v.
     chain (the_sv v) (\<lambda>sv.
     chain (sfs_bused fs (sv_ino sv)) (\<lambda>used.
     if \<not> used then panic
     else if sv_ino sv = ino then succeed (Some v)
     else find_vnode fs a ino is)))"

definition load_new :: "sfs_env \<Rightarrow> nat \<Rightarrow> u32 \<Rightarrow> 16 word \<Rightarrow> nat \<Rightarrow> (sst, nat) op" where
  "load_new E fs ino forcetype v =
     chain (sfs_bused fs ino) (\<lambda>used.
     if \<not> used then panic
     else
       chain (sfs_readblock fs ino) (\<lambda>data.
       let di = read_inode data in
       chain (ensure (\<lambda>_. forcetype \<noteq> SFS_TYPE_INVAL \<longrightarrow> sfi_type di = SFS_TYPE_INVAL)) (\<lambda>_.
       let di = (if forcetype \<noteq> SFS_TYPE_INVAL then di\<lparr>sfi_type := forcetype\<rparr> else di) in
       if sfi_type di \<noteq> SFS_TYPE_FILE \<and> sfi_type di \<noteq> SFS_TYPE_DIR then panic
       else
         chain (vnode_init v (Some fs) False (Some v)) (\<lambda>_.
         chain (modify (on_sfs (\<lambda>y. y\<lparr>svs := (svs y)(v \<mapsto> \<lparr>sv_i = di, sv_ino = ino,
                 sv_dirty = (forcetype \<noteq> SFS_TYPE_INVAL)\<rparr>)\<rparr>))) (\<lambda>_.
         chain (the_vol fs) (\<lambda>vol.
         chain (gets (se_grow E)) (\<lambda>mem.
         chain (lift_option (array_add mem (sfs_vnodes vol) v)) (\<lambda>r.
         case r of
           Inl e \<Rightarrow> chain (vnode_cleanup v) (\<lambda>_. chain (free_sv v) (\<lambda>_. fail e))
         | Inr (a, _) \<Rightarrow> chain (upd_vol fs (\<lambda>x. x\<lparr>sfs_vnodes := a\<rparr>)) (\<lambda>_. succeed v)))))))))"

definition sfs_loadvnode :: "sfs_env \<Rightarrow> nat \<Rightarrow> u32 \<Rightarrow> 16 word \<Rightarrow> (sst, nat) op" where
  "sfs_loadvnode E fs ino forcetype =
     chain (the_vol fs) (\<lambda>vol.
     chain (find_vnode fs (sfs_vnodes vol) ino [0..<array_num (sfs_vnodes vol)]) (\<lambda>r.
     case r of
       Some v \<Rightarrow>
         chain (ensure (\<lambda>_. forcetype = SFS_TYPE_INVAL)) (\<lambda>_.
         chain (vnode_incref v) (\<lambda>_. succeed v))
     | None \<Rightarrow>
         chain (gets (se_new E)) (\<lambda>new.
         case new of None \<Rightarrow> fail ENOMEM | Some v \<Rightarrow> load_new E fs ino forcetype v)))"

definition sfs_makeobj :: "sfs_env \<Rightarrow> nat \<Rightarrow> 16 word \<Rightarrow> (sst, nat) op" where
  "sfs_makeobj E fs type =
     chain (sfs_balloc fs) (\<lambda>ino.
     handle (sfs_loadvnode E fs ino type) (\<lambda>r.
     case r of Inl e \<Rightarrow> chain (sfs_bfree fs ino) (\<lambda>_. fail e) | Inr v \<Rightarrow> succeed v))"

definition sfs_getroot :: "sfs_env \<Rightarrow> nat \<Rightarrow> (sst, nat) op" where
  "sfs_getroot E fs = locked (
     chain (sfs_loadvnode E fs SFS_ROOTDIR_INO SFS_TYPE_INVAL) (\<lambda>v.
     chain (the_sv v) (\<lambda>sv.
     if sfi_type (sv_i sv) \<noteq> SFS_TYPE_DIR then fail EINVAL else succeed v)))"

text \<open>The name looked up in a directory, with its slot.\<close>

definition sfs_lookonce :: "sfs_env \<Rightarrow> nat \<Rightarrow> string \<Rightarrow> (sst, nat \<times> nat) op" where
  "sfs_lookonce E v name =
     chain (the_fs v) (\<lambda>fs.
     chain (sfs_dir_findname v name) (\<lambda>(found, _).
     case found of
       None \<Rightarrow> fail ENOENT
     | Some (ino, slot) \<Rightarrow>
         chain (sfs_loadvnode E fs ino SFS_TYPE_INVAL) (\<lambda>w.
         chain (the_sv w) (\<lambda>sv.
         if sfi_linkcount (sv_i sv) = 0 then panic else succeed (w, slot)))))"

section \<open>Vnode operations\<close>

definition sfs_eachopen :: "nat \<Rightarrow> u32 \<Rightarrow> (sst, unit) op" where
  "sfs_eachopen v openflags = succeed ()"

definition sfs_eachopendir :: "nat \<Rightarrow> u32 \<Rightarrow> (sst, unit) op" where
  "sfs_eachopendir v openflags =
     (if openflags AND O_ACCMODE \<noteq> O_RDONLY then fail EISDIR
      else if openflags AND O_APPEND \<noteq> 0 then fail EISDIR
      else succeed ())"

text \<open>An error of \<^verbatim>\<open>sfs_io\<close> is the result; the caller does not look at the \<^verbatim>\<open>uio\<close> then.\<close>

definition run_io :: "sfs_env \<Rightarrow> nat \<Rightarrow> uio \<Rightarrow> (sst, uio) op" where
  "run_io E v u = locked (chain (sfs_io E v u) (\<lambda>(r, u). case r of Inl e \<Rightarrow> fail e | Inr _ \<Rightarrow> succeed u))"

definition sfs_read :: "sfs_env \<Rightarrow> nat \<Rightarrow> uio \<Rightarrow> (sst, uio) op" where
  "sfs_read E v u = chain (ensure (\<lambda>_. uio_rw u = UIO_READ)) (\<lambda>_. run_io E v u)"

definition sfs_write :: "sfs_env \<Rightarrow> nat \<Rightarrow> uio \<Rightarrow> (sst, uio) op" where
  "sfs_write E v u = chain (ensure (\<lambda>_. uio_rw u = UIO_WRITE)) (\<lambda>_. run_io E v u)"

abbreviation (input) S_IFREG :: u32 where "S_IFREG \<equiv> 0x1000"

definition sfs_gettype :: "nat \<Rightarrow> (sst, u32) op" where
  "sfs_gettype v = locked (
     chain (the_sv v) (\<lambda>sv.
     if sfi_type (sv_i sv) = SFS_TYPE_FILE then succeed S_IFREG
     else if sfi_type (sv_i sv) = SFS_TYPE_DIR then succeed S_IFDIR
     else panic))"

text \<open>Of the fields of \<^verbatim>\<open>struct stat\<close> the size.\<close>

definition sfs_stat :: "nat \<Rightarrow> (sst, 64 word) op" where
  "sfs_stat v =
     chain (vop v (sfs_gettype v)) (\<lambda>_.
     chain (the_sv v) (\<lambda>sv. succeed (ucast (sfi_size (sv_i sv)))))"

definition sfs_fsync :: "nat \<Rightarrow> (sst, unit) op" where
  "sfs_fsync v = locked (sfs_sync_inode v)"

definition sfs_truncate :: "nat \<Rightarrow> 64 word \<Rightarrow> (sst, unit) op" where
  "sfs_truncate v n = sfs_itrunc v n"

definition sfs_namefile :: "nat \<Rightarrow> uio \<Rightarrow> (sst, uio) op" where
  "sfs_namefile v u =
     chain (the_sv v) (\<lambda>sv.
     chain (ensure (\<lambda>_. sv_ino sv = SFS_ROOTDIR_INO)) (\<lambda>_. succeed u))"

definition add_link :: "sfs_vnode \<Rightarrow> sfs_vnode" where
  "add_link sv = sv\<lparr>sv_i := (sv_i sv)\<lparr>sfi_linkcount := sfi_linkcount (sv_i sv) + 1\<rparr>, sv_dirty := True\<rparr>"

definition drop_link :: "sfs_vnode \<Rightarrow> sfs_vnode" where
  "drop_link sv = sv\<lparr>sv_i := (sv_i sv)\<lparr>sfi_linkcount := sfi_linkcount (sv_i sv) - 1\<rparr>, sv_dirty := True\<rparr>"

definition sfs_creat :: "sfs_env \<Rightarrow> nat \<Rightarrow> string \<Rightarrow> bool \<Rightarrow> u32 \<Rightarrow> (sst, nat) op" where
  "sfs_creat E v name excl mode =
     chain (the_fs v) (\<lambda>fs.
     locked (
       chain (sfs_dir_findname v name) (\<lambda>(found, _).
       case found of
         Some (ino, _) \<Rightarrow> if excl then fail EEXIST else sfs_loadvnode E fs ino SFS_TYPE_INVAL
       | None \<Rightarrow>
           chain (sfs_makeobj E fs SFS_TYPE_FILE) (\<lambda>w.
           chain (the_sv w) (\<lambda>sv.
           handle (sfs_dir_link v name (sv_ino sv)) (\<lambda>r.
           case r of
             Inl e \<Rightarrow> release_vnode reclaim_ops w (Inl e)
           | Inr _ \<Rightarrow> chain (upd_sv w add_link) (\<lambda>_. succeed w)))))))"

definition sfs_link :: "nat \<Rightarrow> string \<Rightarrow> nat \<Rightarrow> (sst, unit) op" where
  "sfs_link dir name file =
     chain (the_fs dir) (\<lambda>fs.
     chain (the_fs file) (\<lambda>fs'.
     chain (ensure (\<lambda>_. fs' = fs)) (\<lambda>_.
     locked (
       chain (the_sv file) (\<lambda>f.
       if sfi_type (sv_i f) = SFS_TYPE_DIR then fail EINVAL
       else
         chain (sfs_dir_link dir name (sv_ino f)) (\<lambda>_. upd_sv file add_link))))))"

definition sfs_remove :: "sfs_env \<Rightarrow> nat \<Rightarrow> string \<Rightarrow> (sst, unit) op" where
  "sfs_remove E dir name = locked (
     chain (sfs_lookonce E dir name) (\<lambda>(victim, slot).
     handle (sfs_dir_unlink dir slot) (\<lambda>r.
     chain (case r of
         Inl _ \<Rightarrow> succeed ()
       | Inr _ \<Rightarrow>
           chain (the_sv victim) (\<lambda>sv.
           chain (ensure (\<lambda>_. sfi_linkcount (sv_i sv) > 0)) (\<lambda>_. upd_sv victim drop_link))) (\<lambda>_.
     release_vnode reclaim_ops victim r))))"

definition sfs_rename :: "sfs_env \<Rightarrow> nat \<Rightarrow> string \<Rightarrow> nat \<Rightarrow> string \<Rightarrow> (sst, unit) op" where
  "sfs_rename E d1 n1 d2 n2 = locked (
     chain (ensure (\<lambda>_. d1 = d2)) (\<lambda>_.
     chain (the_sv d1) (\<lambda>sv.
     chain (ensure (\<lambda>_. sv_ino sv = SFS_ROOTDIR_INO)) (\<lambda>_.
     chain (sfs_lookonce E d1 n1) (\<lambda>(g1, slot1).
     chain (the_sv g1) (\<lambda>g.
     chain (ensure (\<lambda>_. sfi_type (sv_i g) = SFS_TYPE_FILE)) (\<lambda>_.
     handle (sfs_dir_link d1 n2 (sv_ino g)) (\<lambda>r.
     case r of
       Inl e \<Rightarrow> release_vnode reclaim_ops g1 (Inl e)
     | Inr slot2 \<Rightarrow>
         chain (upd_sv g1 add_link) (\<lambda>_.
         handle (sfs_dir_unlink d1 slot1) (\<lambda>r.
         case r of
           Inr _ \<Rightarrow>
             chain (the_sv g1) (\<lambda>g.
             chain (ensure (\<lambda>_. sfi_linkcount (sv_i g) > 0)) (\<lambda>_.
             chain (upd_sv g1 drop_link) (\<lambda>_. release_vnode reclaim_ops g1 (Inr ()))))
         | Inl e \<Rightarrow>
             handle (sfs_dir_unlink d1 slot2) (\<lambda>r2.
             case r2 of
               Inl _ \<Rightarrow> panic
             | Inr _ \<Rightarrow>
                 chain (upd_sv g1 (\<lambda>g. g\<lparr>sv_i := (sv_i g)\<lparr>sfi_linkcount := sfi_linkcount (sv_i g) - 1\<rparr>\<rparr>)) (\<lambda>_.
                 release_vnode reclaim_ops g1 (Inl e)))))))))))))"

definition sfs_lookparent :: "nat \<Rightarrow> string \<Rightarrow> nat \<Rightarrow> (sst, nat \<times> string) op" where
  "sfs_lookparent v path buflen = locked (
     chain (the_sv v) (\<lambda>sv.
     if sfi_type (sv_i sv) \<noteq> SFS_TYPE_DIR then fail ENOTDIR
     else if length path + 1 > buflen then fail ENAMETOOLONG
     else chain (vnode_incref v) (\<lambda>_. succeed (v, path))))"

definition sfs_lookup :: "sfs_env \<Rightarrow> nat \<Rightarrow> string \<Rightarrow> (sst, nat) op" where
  "sfs_lookup E v path = locked (
     chain (the_sv v) (\<lambda>sv.
     if sfi_type (sv_i sv) \<noteq> SFS_TYPE_DIR then fail ENOTDIR
     else chain (sfs_lookonce E v path) (\<lambda>(w, _). succeed w)))"

end
