(* ===== verification/Sfs_Volume.thy ===== *)
theory Sfs_Volume
  imports Sfs
begin

text \<open>
  Volumes of the simple file system: \<^verbatim>\<open>fs/sfs/sfs_fsops.c\<close>, and the tables of operations that the VFS
  calls. Which of the two tables of vnode operations a vnode has was settled by the type of its inode when it
  was loaded, and that does not change.
\<close>

section \<open>Volumes\<close>

definition SFS_FREEMAPBITS :: "u32 \<Rightarrow> u32" where
  "SFS_FREEMAPBITS nblocks = (nblocks + 4096 - 1) div 4096 * 4096"

definition SFS_FREEMAPBLOCKS :: "u32 \<Rightarrow> u32" where
  "SFS_FREEMAPBLOCKS nblocks = SFS_FREEMAPBITS nblocks div 4096"

primrec freemap_each :: "nat \<Rightarrow> uio_rw \<Rightarrow> nat list \<Rightarrow> (sst, unit) op" where
  "freemap_each fs rw [] = succeed ()"
| "freemap_each fs rw (j # js) =
     chain (if rw = UIO_READ then
         chain (sfs_readblock fs (SFS_FREEMAP_START + of_nat j)) (\<lambda>data.
         chain (the_map fs) (\<lambda>b.
         chain (ensure (\<lambda>_. (j + 1) * SFS_BLOCKSIZE \<le> length (bm_v b))) (\<lambda>_.
         set_freemap fs (b\<lparr>bm_v := take (j * SFS_BLOCKSIZE) (bm_v b) @ data @ drop ((j + 1) * SFS_BLOCKSIZE) (bm_v b)\<rparr>))))
       else
         chain (the_map fs) (\<lambda>b.
         sfs_writeblock fs (SFS_FREEMAP_START + of_nat j) (take SFS_BLOCKSIZE (drop (j * SFS_BLOCKSIZE) (bitmap_getdata b)))))
       (\<lambda>_. freemap_each fs rw js)"

definition sfs_freemapio :: "nat \<Rightarrow> uio_rw \<Rightarrow> (sst, unit) op" where
  "sfs_freemapio fs rw =
     chain (the_vol fs) (\<lambda>vol. freemap_each fs rw [0..<unat (SFS_FREEMAPBLOCKS (sb_nblocks (sfs_sb vol)))])"

primrec sync_each :: "nat karray \<Rightarrow> nat list \<Rightarrow> (sst, unit) op" where
  "sync_each a [] = succeed ()"
| "sync_each a (i # is) =
     chain (lift_option (Option.bind (array_get a i) id)) (\<lambda>v.
     handle (vop v (sfs_fsync v)) (\<lambda>_. sync_each a is))"

definition sfs_sync :: "nat \<Rightarrow> (sst, unit) op" where
  "sfs_sync fs = locked (
     chain (the_vol fs) (\<lambda>vol.
     chain (sync_each (sfs_vnodes vol) [0..<array_num (sfs_vnodes vol)]) (\<lambda>_.
     chain (the_vol fs) (\<lambda>vol.
     chain (if sfs_freemapdirty vol then
              chain (sfs_freemapio fs UIO_WRITE) (\<lambda>_. upd_vol fs (\<lambda>x. x\<lparr>sfs_freemapdirty := False\<rparr>))
            else succeed ()) (\<lambda>_.
     if sfs_superdirty vol then
       chain (sfs_writeblock fs SFS_SUPER_BLOCK (super_bytes (sfs_sb vol))) (\<lambda>_.
       upd_vol fs (\<lambda>x. x\<lparr>sfs_superdirty := False\<rparr>))
     else succeed ())))))"

definition sfs_getvolname :: "nat \<Rightarrow> sst \<Rightarrow> string option" where
  "sfs_getvolname fs s = map_option (\<lambda>x. cstring (sb_volname (sfs_sb x))) (vols (fsdata s) fs)"

definition sfs_fs_destroy :: "nat \<Rightarrow> (sst, unit) op" where
  "sfs_fs_destroy fs =
     chain (the_vol fs) (\<lambda>vol.
     chain (lift_option (array_destroy (sfs_vnodes vol))) (\<lambda>_.
     chain (ensure (\<lambda>_. sfs_device vol = None)) (\<lambda>_.
     modify (on_sfs (\<lambda>y. y\<lparr>vols := (vols y)(fs := None)\<rparr>)))))"

definition sfs_unmount :: "nat \<Rightarrow> (sst, unit) op" where
  "sfs_unmount fs = locked (
     chain (the_vol fs) (\<lambda>vol.
     if array_num (sfs_vnodes vol) > 0 then fail EBUSY
     else
       chain (ensure (\<lambda>_. \<not> sfs_superdirty vol \<and> \<not> sfs_freemapdirty vol)) (\<lambda>_.
       chain (upd_vol fs (\<lambda>x. x\<lparr>sfs_device := None\<rparr>)) (\<lambda>_. sfs_fs_destroy fs))))"

text \<open>\<open>new\<close> is the address of the structure, \<open>mem\<close> says whether its table of vnodes is allocated and \<open>junk\<close>
  is its superblock before it is read.\<close>

definition sfs_fs_create :: "nat option \<Rightarrow> bool \<Rightarrow> sfs_superblock \<Rightarrow> (sst, nat option) op" where
  "sfs_fs_create new mem junk =
     (case new of
        None \<Rightarrow> succeed None
      | Some fs \<Rightarrow>
          (case array_create mem of
             None \<Rightarrow> succeed None
           | Some a \<Rightarrow>
               chain (modify (on_sfs (\<lambda>y. y\<lparr>vols := (vols y)(fs \<mapsto> \<lparr>sfs_sb = junk, sfs_superdirty = False,
                 sfs_device = None, sfs_vnodes = a, sfs_freemap = None, sfs_freemapdirty = False\<rparr>)\<rparr>)))
                 (\<lambda>_. succeed (Some fs))))"

text \<open>Leaving on an error after the structure is made.\<close>

definition mount_failed :: "nat \<Rightarrow> errno \<Rightarrow> (sst, nat) op" where
  "mount_failed fs e = chain (sfs_fs_destroy fs) (\<lambda>_. fail e)"

definition load_freemap :: "bool \<Rightarrow> bool \<Rightarrow> nat \<Rightarrow> u32 \<Rightarrow> (sst, nat) op" where
  "load_freemap m1 m2 fs nblocks =
     chain (lift_option (bitmap_create m1 m2 (unat (SFS_FREEMAPBITS nblocks)))) (\<lambda>b.
     case b of
       None \<Rightarrow> mount_failed fs ENOMEM
     | Some b \<Rightarrow>
         chain (set_freemap fs b) (\<lambda>_.
         handle (sfs_freemapio fs UIO_READ) (\<lambda>r.
         case r of Inl e \<Rightarrow> mount_failed fs e | Inr _ \<Rightarrow> succeed fs)))"

definition sfs_domount :: "(nat \<Rightarrow> device) \<Rightarrow> nat option \<Rightarrow> bool \<Rightarrow> bool \<Rightarrow> bool \<Rightarrow> sfs_superblock \<Rightarrow> nat \<Rightarrow> (sst, nat) op" where
  "sfs_domount devs new mem m1 m2 junk dev = locked (
     if d_blocksize (devs dev) \<noteq> of_nat SFS_BLOCKSIZE then fail ENXIO
     else
       chain (sfs_fs_create new mem junk) (\<lambda>r.
       case r of
         None \<Rightarrow> fail ENOMEM
       | Some fs \<Rightarrow>
           chain (upd_vol fs (\<lambda>x. x\<lparr>sfs_device := Some dev\<rparr>)) (\<lambda>_.
           handle (sfs_readblock fs SFS_SUPER_BLOCK) (\<lambda>r.
           case r of
             Inl e \<Rightarrow> mount_failed fs e
           | Inr data \<Rightarrow>
               let sb = read_super data in
               chain (upd_vol fs (\<lambda>x. x\<lparr>sfs_sb := sb\<rparr>)) (\<lambda>_.
               if sb_magic sb \<noteq> SFS_MAGIC then mount_failed fs EINVAL
               else
                 chain (upd_vol fs (\<lambda>x. x\<lparr>sfs_sb := sb\<lparr>sb_volname := (sb_volname sb)[31 := 0]\<rparr>\<rparr>)) (\<lambda>_.
                 load_freemap m1 m2 fs (sb_nblocks sb)))))))"

definition sfs_mount :: "(nat \<Rightarrow> device) \<Rightarrow> nat option \<Rightarrow> bool \<Rightarrow> bool \<Rightarrow> bool \<Rightarrow> sfs_superblock \<Rightarrow> string \<Rightarrow> (sst, unit) op" where
  "sfs_mount devs new mem m1 m2 junk device = vfs_mount device (sfs_domount devs new mem m1 m2 junk)"

section \<open>The operations that are not there: \<^verbatim>\<open>vfs/vfsfail.c\<close>\<close>

definition vopfail_uio_notdir :: "nat \<Rightarrow> uio \<Rightarrow> ('f vfs, uio) op" where
  "vopfail_uio_notdir vn u = fail ENOTDIR"

definition vopfail_uio_isdir :: "nat \<Rightarrow> uio \<Rightarrow> ('f vfs, uio) op" where
  "vopfail_uio_isdir vn u = fail EISDIR"

definition vopfail_truncate_isdir :: "nat \<Rightarrow> 64 word \<Rightarrow> ('f vfs, unit) op" where
  "vopfail_truncate_isdir vn pos = fail EISDIR"

definition vopfail_symlink_nosys :: "nat \<Rightarrow> string \<Rightarrow> string \<Rightarrow> ('f vfs, unit) op" where
  "vopfail_symlink_nosys vn contents name = fail ENOSYS"

definition vopfail_mkdir_nosys :: "nat \<Rightarrow> string \<Rightarrow> u32 \<Rightarrow> ('f vfs, unit) op" where
  "vopfail_mkdir_nosys vn name mode = fail ENOSYS"

definition vopfail_string_nosys :: "nat \<Rightarrow> string \<Rightarrow> ('f vfs, unit) op" where
  "vopfail_string_nosys vn name = fail ENOSYS"

definition vopfail_lookup_notdir :: "nat \<Rightarrow> string \<Rightarrow> ('f vfs, nat) op" where
  "vopfail_lookup_notdir vn path = fail ENOTDIR"

section \<open>The tables\<close>

definition by_type :: "nat \<Rightarrow> (sst, 'a) op \<Rightarrow> (sst, 'a) op \<Rightarrow> (sst, 'a) op" where
  "by_type v f g = chain (the_sv v) (\<lambda>sv. if sfi_type (sv_i sv) = SFS_TYPE_DIR then g else f)"

definition sfs_ops :: "sfs_env \<Rightarrow> sfs_sys fsops" where
  "sfs_ops E = \<lparr>
     vop_eachopen = (\<lambda>v fl. by_type v (sfs_eachopen v fl) (sfs_eachopendir v fl)),
     vop_reclaim = sfs_reclaim,
     vop_read = (\<lambda>v u. by_type v (sfs_read E v u) (vopfail_uio_isdir v u)),
     vop_readlink = (\<lambda>v u. by_type v (vopfail_uio_notdir v u) (vopfail_uio_inval v u)),
     vop_write = (\<lambda>v u. by_type v (sfs_write E v u) (vopfail_uio_isdir v u)),
     vop_stat = sfs_stat,
     vop_gettype = sfs_gettype,
     vop_isseekable = (\<lambda>v s. True),
     vop_truncate = (\<lambda>v n. by_type v (sfs_truncate v n) (vopfail_truncate_isdir v n)),
     vop_namefile = (\<lambda>v u. by_type v (vopfail_uio_notdir v u) (sfs_namefile v u)),
     vop_creat = (\<lambda>v nm x m. by_type v (vopfail_creat_notdir v nm x m) (sfs_creat E v nm x m)),
     vop_symlink = (\<lambda>v nm c. by_type v (vopfail_symlink_notdir v nm c) (vopfail_symlink_nosys v nm c)),
     vop_mkdir = (\<lambda>v nm m. by_type v (vopfail_mkdir_notdir v nm m) (vopfail_mkdir_nosys v nm m)),
     vop_link = (\<lambda>v nm w. by_type v (vopfail_link_notdir v nm w) (sfs_link v nm w)),
     vop_remove = (\<lambda>v nm. by_type v (vopfail_string_notdir v nm) (sfs_remove E v nm)),
     vop_rmdir = (\<lambda>v nm. by_type v (vopfail_string_notdir v nm) (vopfail_string_nosys v nm)),
     vop_rename = (\<lambda>v nm w nm'. by_type v (vopfail_rename_notdir v nm w nm') (sfs_rename E v nm w nm')),
     vop_lookup = (\<lambda>v p. by_type v (vopfail_lookup_notdir v p) (sfs_lookup E v p)),
     vop_lookparent = (\<lambda>v p n. by_type v (vopfail_lookparent_notdir v p n) (sfs_lookparent v p n)),
     fsop_sync = sfs_sync, fsop_unmount = sfs_unmount, fsop_getvolname = sfs_getvolname,
     fsop_getroot = sfs_getroot E\<rparr>"

end
