(* ===== verification/Sfs_Spec.thy ===== *)
theory Sfs_Spec
  imports Sfs_Volume
begin

text \<open>
  What the lower half of the simple file system guarantees: block transfers, also where the disk reports
  errors, block allocation, the block map and truncation.
\<close>

section \<open>A block of the disk\<close>

definition vol_at :: "sst \<Rightarrow> nat \<Rightarrow> sfs_fs \<Rightarrow> nat \<Rightarrow> disk \<Rightarrow> bool" where
  "vol_at s fs vol dev d \<longleftrightarrow> biglock s \<and> vols (fsdata s) fs = Some vol \<and> sfs_device vol = Some dev \<and>
     disks (fsdata s) dev = Some d"

definition put_disk :: "nat \<Rightarrow> disk \<Rightarrow> sst \<Rightarrow> sst" where
  "put_disk dev d = on_sfs (\<lambda>y. y\<lparr>disks := (disks y)(dev \<mapsto> d)\<rparr>)"

lemma put_disk_same: "vol_at s fs vol dev d \<Longrightarrow> put_disk dev d s = s"
  by (cases s; cases "fsdata s") (auto simp: vol_at_def put_disk_def on_sfs_def fun_upd_idem)

lemma put_disk_put: "put_disk dev d2 (put_disk dev d1 s) = put_disk dev d2 s"
  by (cases s) (simp add: put_disk_def on_sfs_def)

lemma vol_at_put: "vol_at s fs vol dev d \<Longrightarrow> vol_at (put_disk dev d' s) fs vol dev d'"
  by (simp add: vol_at_def put_disk_def on_sfs_def)

lemma DEVOP_IO_at:
  "vol_at s fs vol dev d \<Longrightarrow> io d x = Some (r, d', x') \<Longrightarrow> DEVOP_IO fs io x s = Some (Inr (r, x'), put_disk dev d' s)"
  by (simp add: DEVOP_IO_def chain_def handle_def the_vol_def vol_at_def put_disk_def)

text \<open>The sector that a block number stands for.\<close>

lemma position_int:
  fixes b :: u32
  shows "0 \<le> uint b" and "512 * uint b < 2 ^ 41" and "uint (ucast b * 512 :: 64 word) = 512 * uint b"
proof -
  show z: "0 \<le> uint b" by simp
  have "uint b < 2 ^ 32" using uint_lt2p [of b] by simp
  then show l: "512 * uint b < 2 ^ 41" by simp
  have "uint (ucast b :: 64 word) = uint b" using z l by (simp add: unsigned_ucast_eq take_bit_int_eq_self)
  then show "uint (ucast b * 512 :: 64 word) = 512 * uint b" using z l by (simp add: uint_word_ariths)
qed

lemma sint_small:
  fixes x :: "64 word"
  assumes "uint x < 2 ^ 63"
  shows "sint x = uint x"
proof -
  have "- (2 ^ 63) \<le> uint x" by (rule order_trans [of _ 0]) simp_all
  then show ?thesis using assms by (simp add: sint_uint signed_take_bit_int_eq_self)
qed

lemma block_position:
  fixes b :: u32
  shows "sint (ucast b * 512 :: 64 word) = 512 * uint b" and "sint (ucast b * 512 + 512 :: 64 word) = 512 * uint b + 512"
proof -
  note p = position_int [of b]
  show "sint (ucast b * 512 :: 64 word) = 512 * uint b" using sint_small [of "ucast b * 512"] p by simp
  have "uint (ucast b * 512 + 512 :: 64 word) = 512 * uint b + 512"
    using p by (simp add: uint_word_ariths(1) [of "ucast b * 512"])
  then show "sint (ucast b * 512 + 512 :: 64 word) = 512 * uint b + 512" using sint_small [of "ucast b * 512 + 512"] p by simp
qed

lemma block_sector:
  fixes b :: u32
  shows "(of_int (512 * uint b sdiv 512) :: u32) = b" and "(of_int (512 * uint b smod 512) :: u32) = 0"
    and "(of_int ((512 * uint b + 512) sdiv 512) :: u32) = b + 1" and "(of_int ((512 * uint b + 512) smod 512) :: u32) = 0"
proof -
  have k: "512 * k sdiv 512 = k" "512 * k smod 512 = 0" "(512 * k + 512) sdiv 512 = k + 1" "(512 * k + 512) smod 512 = 0"
    if "0 \<le> k" for k :: int
    using that by (auto simp: signed_divide_int_def signed_modulo_int_def sgn_if)
  note b = k [OF position_int(1) [of b]]
  show "(of_int (512 * uint b sdiv 512) :: u32) = b" "(of_int (512 * uint b smod 512) :: u32) = 0"
    "(of_int ((512 * uint b + 512) sdiv 512) :: u32) = b + 1" "(of_int ((512 * uint b + 512) smod 512) :: u32) = 0"
    unfolding b by simp_all
qed

lemma block_in_range:
  fixes b n :: u32
  shows "b < n \<Longrightarrow> \<not> b + 1 > n"
  by (simp add: not_less inc_le)

definition sectors_ok :: "disk \<Rightarrow> bool" where
  "sectors_ok d \<longleftrightarrow> (\<forall>k. length (sectors d k) = SFS_BLOCKSIZE)"

lemma lhd_run_disk: "lhd_run d = (r, d') \<Longrightarrow> sectors d' = sectors d \<and> d_nsect d' = d_nsect d"
  by (auto simp: lhd_run_def split: list.splits)

text \<open>One request, to read or to write: an error leaves the buffer as it is. But a write has advanced the
  \<^verbatim>\<open>uio\<close> even then, and the request that it makes when it is repeated is for no sectors at all.\<close>

lemma lhd_one:
  assumes "b < d_nsect d"
  shows "lhd_io fst kmove d (SFSUIO b rw, buf) = lhd_each kmove rw [unat b] d (SFSUIO b rw, buf)"
  using block_in_range [OF assms]
  by (simp add: lhd_io_def SFSUIO_def uio_kinit_def block_position block_sector Let_def upt_rec)

lemma lhd_read:
  assumes "sectors_ok d" and "b < d_nsect d" and "length buf = SFS_BLOCKSIZE"
  shows "\<exists>u'. lhd_io fst kmove d (SFSUIO b UIO_READ, buf) = Some (case lhd_run d of
      (Some e, d') \<Rightarrow> (Inl e, d', (SFSUIO b UIO_READ, buf))
    | (None, d') \<Rightarrow> (Inr (), d', (u', sectors d (unat b))))"
proof -
  obtain r d' where r: "lhd_run d = (r, d')" by (cases "lhd_run d")
  then have "kmove (sectors d' (unat b)) (SFSUIO b UIO_READ, buf) =
      Some (Inr (), ((SFSUIO b UIO_READ)\<lparr>uio_resid := 0, uio_offset := ucast b * 512 + 512\<rparr>, sectors d (unat b)),
        sectors d (unat b))"
    using lhd_run_disk [OF r] assms by (simp add: kmove_def SFSUIO_def uio_kinit_def sectors_ok_def Let_def)
  then show ?thesis unfolding lhd_one [OF assms(2)] using r by (cases r) auto
qed

definition spent :: "u32 \<Rightarrow> uio" where
  "spent b = (SFSUIO b UIO_WRITE)\<lparr>uio_resid := 0, uio_offset := ucast b * 512 + 512\<rparr>"

lemma lhd_write:
  assumes "b < d_nsect d" and "length data = SFS_BLOCKSIZE"
  shows "lhd_io fst kmove d (SFSUIO b UIO_WRITE, data) = Some (case lhd_run d of
      (Some e, d') \<Rightarrow> (Inl e, d', (spent b, data))
    | (None, d') \<Rightarrow> (Inr (), d'\<lparr>sectors := (sectors d)(unat b := data)\<rparr>, (spent b, data)))"
proof -
  obtain r d' where r: "lhd_run d = (r, d')" by (cases "lhd_run d")
  have "kmove buf (SFSUIO b UIO_WRITE, data) = Some (Inr (), (spent b, data), data)" if "length buf = 512" for buf
    using assms(2) that by (simp add: kmove_def SFSUIO_def uio_kinit_def spent_def Let_def)
  then show ?thesis unfolding lhd_one [OF assms(1)] using r lhd_run_disk [OF r] by (cases r) auto
qed

lemma lhd_again:
  assumes "b < d_nsect d"
  shows "lhd_io fst kmove d (spent b, data) = Some (Inr (), d, (spent b, data))"
  using block_in_range [OF assms]
  by (simp add: lhd_io_def spent_def SFSUIO_def uio_kinit_def block_position block_sector Let_def)


section \<open>Reading and writing a block\<close>

text \<open>The hardware does not reject the sectors that are there.\<close>

definition hardware_ok :: "disk \<Rightarrow> bool" where
  "hardware_ok d \<longleftrightarrow> (\<forall>c \<in> set (replies d). lhd_code_to_errno c \<noteq> Some EINVAL)"

definition same_sectors :: "disk \<Rightarrow> disk \<Rightarrow> bool" where
  "same_sectors d d' \<longleftrightarrow> sectors d' = sectors d \<and> d_nsect d' = d_nsect d \<and> hardware_ok d' \<and> (replies d = [] \<longrightarrow> d' = d)"

lemma lhd_run_same: "lhd_run d = (r, d') \<Longrightarrow> hardware_ok d \<Longrightarrow> same_sectors d d' \<and> r \<noteq> Some EINVAL \<and> (replies d = [] \<longrightarrow> r = None)"
  by (auto simp: lhd_run_def same_sectors_def hardware_ok_def split: list.splits)

lemma same_sectors_trans: "same_sectors d d1 \<Longrightarrow> same_sectors d1 d2 \<Longrightarrow> same_sectors d d2"
  by (auto simp: same_sectors_def)

lemma rw_retry_read:
  assumes "vol_at s fs vol dev d" and "sectors_ok d" and "b < d_nsect d" and "hardware_ok d"
  shows "\<exists>r x d'. rw_retry n fs (lhd_io fst kmove) (SFSUIO b UIO_READ, replicate SFS_BLOCKSIZE 0) s =
      Some (Inr (r, x), put_disk dev d' s) \<and> same_sectors d d' \<and>
    (case r of Inl e \<Rightarrow> replies d \<noteq> [] | Inr _ \<Rightarrow> snd x = sectors d (unat b))"
  using assms
proof (induction n arbitrary: s d)
  case (0 s d)
  obtain r d' where r: "lhd_run d = (r, d')" by (cases "lhd_run d")
  note run = lhd_run_same [OF r "0.prems"(4)]
  obtain u where "lhd_io fst kmove d (SFSUIO b UIO_READ, replicate SFS_BLOCKSIZE 0) = Some (case r of
      Some e \<Rightarrow> (Inl e, d', (SFSUIO b UIO_READ, replicate SFS_BLOCKSIZE 0)) | None \<Rightarrow> (Inr (), d', (u, sectors d (unat b))))"
    using lhd_read [OF "0.prems"(2,3), of "replicate SFS_BLOCKSIZE 0"] r by auto
  then show ?case
    using DEVOP_IO_at [OF "0.prems"(1), where io = "lhd_io fst kmove" and x = "(SFSUIO b UIO_READ, replicate SFS_BLOCKSIZE 0)"] run
    by (cases r) (auto simp: chain_def handle_def succeed_def)
next
  case (Suc n s d)
  obtain r d' where r: "lhd_run d = (r, d')" by (cases "lhd_run d")
  note run = lhd_run_same [OF r Suc.prems(4)]
  obtain u where io: "lhd_io fst kmove d (SFSUIO b UIO_READ, replicate SFS_BLOCKSIZE 0) = Some (case r of
      Some e \<Rightarrow> (Inl e, d', (SFSUIO b UIO_READ, replicate SFS_BLOCKSIZE 0)) | None \<Rightarrow> (Inr (), d', (u, sectors d (unat b))))"
    using lhd_read [OF Suc.prems(2,3), of "replicate SFS_BLOCKSIZE 0"] r by auto
  show ?case
  proof (cases "r = Some EIO")
    case False
    then show ?thesis
      using DEVOP_IO_at [OF Suc.prems(1), where io = "lhd_io fst kmove" and x = "(SFSUIO b UIO_READ, replicate SFS_BLOCKSIZE 0)"] run io
      by (cases r) (auto simp: chain_def handle_def succeed_def)
  next
    case True
    have d': "sectors_ok d'" "b < d_nsect d'" "hardware_ok d'"
      using run Suc.prems(2-4) by (simp_all add: same_sectors_def sectors_ok_def)
    obtain r2 x d2 where I: "rw_retry n fs (lhd_io fst kmove) (SFSUIO b UIO_READ, replicate SFS_BLOCKSIZE 0) (put_disk dev d' s) =
        Some (Inr (r2, x), put_disk dev d2 (put_disk dev d' s))" "same_sectors d' d2"
      "case r2 of Inl e \<Rightarrow> replies d' \<noteq> [] | Inr _ \<Rightarrow> snd x = sectors d' (unat b)"
      using Suc.IH [OF vol_at_put [OF Suc.prems(1)] d'] by blast
    have "rw_retry (Suc n) fs (lhd_io fst kmove) (SFSUIO b UIO_READ, replicate SFS_BLOCKSIZE 0) s = Some (Inr (r2, x), put_disk dev d2 s)"
      using DEVOP_IO_at [OF Suc.prems(1), where io = "lhd_io fst kmove" and x = "(SFSUIO b UIO_READ, replicate SFS_BLOCKSIZE 0)"] io I(1) True
      by (simp add: chain_def handle_def put_disk_put)
    moreover have "replies d \<noteq> []" using run True by auto
    ultimately show ?thesis using I(2,3) run
      by (intro exI [of _ r2] exI [of _ x] exI [of _ d2])
        (auto simp: same_sectors_def split: sum.split)
  qed
qed

lemma sfs_readblock_at:
  assumes "vol_at s fs vol dev d" and "sectors_ok d" and "b < d_nsect d" and "hardware_ok d"
  shows "\<exists>r d'. sfs_readblock fs b s = Some (r, put_disk dev d' s) \<and> same_sectors d d' \<and>
    (case r of Inl e \<Rightarrow> replies d \<noteq> [] | Inr data \<Rightarrow> data = sectors d (unat b))"
proof -
  obtain r x d' where r: "rw_retry 10 fs (lhd_io fst kmove) (SFSUIO b UIO_READ, replicate SFS_BLOCKSIZE 0) s =
      Some (Inr (r, x), put_disk dev d' s)" "same_sectors d d'"
    "case r of Inl e \<Rightarrow> replies d \<noteq> [] | Inr _ \<Rightarrow> snd x = sectors d (unat b)"
    using rw_retry_read [OF assms] by blast
  have "biglock s" using assms(1) by (simp add: vol_at_def)
  then have "sfs_readblock fs b s = Some (case r of Inl e \<Rightarrow> Inl e | Inr _ \<Rightarrow> Inr (snd x), put_disk dev d' s)"
    using r(1) by (cases x; cases r)
      (simp_all add: sfs_readblock_def sfs_rwblock_def chain_def handle_def ensure_def vfs_biglock_do_i_hold_def fail_def succeed_def)
  then show ?thesis using r(2,3) by (cases r) auto
qed

lemma sfs_readblock_quiet:
  assumes "vol_at s fs vol dev d" and "sectors_ok d" and "b < d_nsect d" and "replies d = []"
  shows "sfs_readblock fs b s = Some (Inr (sectors d (unat b)), s)"
proof -
  have "hardware_ok d" using assms(4) by (simp add: hardware_ok_def)
  then obtain r d' where "sfs_readblock fs b s = Some (r, put_disk dev d' s)" "same_sectors d d'"
    "case r of Inl e \<Rightarrow> replies d \<noteq> [] | Inr data \<Rightarrow> data = sectors d (unat b)"
    using sfs_readblock_at [OF assms(1-3)] by blast
  then show ?thesis using assms(4) put_disk_same [OF assms(1)] by (cases r) (auto simp: same_sectors_def)
qed

text \<open>A write with a media error is not repeated: it is reported as done.\<close>

lemma sfs_writeblock_at:
  assumes "vol_at s fs vol dev d" and "b < d_nsect d" and "hardware_ok d" and "length data = SFS_BLOCKSIZE"
  shows "sfs_writeblock fs b data s = Some (case lhd_run d of
      (None, d') \<Rightarrow> (Inr (), put_disk dev (d'\<lparr>sectors := (sectors d)(unat b := data)\<rparr>) s)
    | (Some e, d') \<Rightarrow> (if e = EIO then Inr () else Inl e, put_disk dev d' s))"
proof -
  obtain r d' where r: "lhd_run d = (r, d')" by (cases "lhd_run d")
  note run = lhd_run_same [OF r assms(3)]
  have io: "lhd_io fst kmove d (SFSUIO b UIO_WRITE, data) = Some (case r of
      Some e \<Rightarrow> (Inl e, d', (spent b, data)) | None \<Rightarrow> (Inr (), d'\<lparr>sectors := (sectors d)(unat b := data)\<rparr>, (spent b, data)))"
    using lhd_write [OF assms(2,4)] r by (simp split: option.split)
  have b: "biglock s" using assms(1) by (simp add: vol_at_def)
  have dev1: "DEVOP_IO fs (lhd_io fst kmove) (SFSUIO b UIO_WRITE, data) s = Some (case r of
      Some e \<Rightarrow> (Inr (Inl e, (spent b, data)), put_disk dev d' s)
    | None \<Rightarrow> (Inr (Inr (), (spent b, data)), put_disk dev (d'\<lparr>sectors := (sectors d)(unat b := data)\<rparr>) s))"
    using DEVOP_IO_at [OF assms(1), where io = "lhd_io fst kmove" and x = "(SFSUIO b UIO_WRITE, data)"] io
    by (simp split: option.split)
  have dev2: "DEVOP_IO fs (lhd_io fst kmove) (spent b, data) (put_disk dev d' s) = Some (Inr (Inr (), (spent b, data)), put_disk dev d' s)"
    using DEVOP_IO_at [OF vol_at_put [OF assms(1)], where io = "lhd_io fst kmove" and x = "(spent b, data)" and d' = d']
      lhd_again [of b d'] assms(2) run by (simp add: same_sectors_def put_disk_put)
  have "rw_retry 10 fs (lhd_io fst kmove) (SFSUIO b UIO_WRITE, data) s = Some (case r of
      None \<Rightarrow> (Inr (Inr (), (spent b, data)), put_disk dev (d'\<lparr>sectors := (sectors d)(unat b := data)\<rparr>) s)
    | Some e \<Rightarrow> (Inr (if e = EIO then Inr () else Inl e, (spent b, data)), put_disk dev d' s))"
    using dev1 dev2 run
    by (simp add: numeral_eq_Suc chain_def handle_def succeed_def split: option.split)
  then show ?thesis using b assms(4) r
    by (simp add: sfs_writeblock_def sfs_rwblock_def chain_def handle_def ensure_def vfs_biglock_do_i_hold_def give_def split: option.split)
qed

lemma sfs_writeblock_quiet:
  assumes "vol_at s fs vol dev d" and "b < d_nsect d" and "replies d = []" and "length data = SFS_BLOCKSIZE"
  shows "sfs_writeblock fs b data s = Some (Inr (), put_disk dev (d\<lparr>sectors := (sectors d)(unat b := data)\<rparr>) s)"
proof -
  have "hardware_ok d" using assms(3) by (simp add: hardware_ok_def)
  then show ?thesis using sfs_writeblock_at [OF assms(1,2) _ assms(4)] assms(3) by (simp add: lhd_run_def)
qed


section \<open>Block allocation\<close>

lemma unat_lt_32: "unat (x :: u32) < 2 ^ 32"
  using unsigned_less [of x] by simp

definition used_blocks :: "sfs_fs \<Rightarrow> nat set" where
  "used_blocks vol = (case sfs_freemap vol of None \<Rightarrow> {} | Some b \<Rightarrow> bm_set b)"

text \<open>A mounted volume: the freemap covers its blocks, and block 0 and what is past the end are marked.\<close>

definition vol_ok :: "sfs_fs \<Rightarrow> disk \<Rightarrow> bool" where
  "vol_ok vol d \<longleftrightarrow> (\<exists>b. sfs_freemap vol = Some b \<and> bm_wf b \<and> unat (sb_nblocks (sfs_sb vol)) \<le> bm_nbits b \<and>
      (\<forall>i. unat (sb_nblocks (sfs_sb vol)) \<le> i \<and> i < bm_nbits b \<longrightarrow> i \<in> bm_set b) \<and> 0 \<in> bm_set b) \<and>
     sb_nblocks (sfs_sb vol) \<le> d_nsect d \<and> sectors_ok d \<and> hardware_ok d"

definition put_vol :: "nat \<Rightarrow> sfs_fs \<Rightarrow> sst \<Rightarrow> sst" where
  "put_vol fs vol = on_sfs (\<lambda>y. y\<lparr>vols := (vols y)(fs \<mapsto> vol)\<rparr>)"

lemma put_vol_same: "vol_at s fs vol dev d \<Longrightarrow> put_vol fs vol s = s"
  by (cases s; cases "fsdata s") (auto simp: vol_at_def put_vol_def on_sfs_def fun_upd_idem)

lemma put_vol_put [simp]: "put_vol fs v2 (put_vol fs v1 s) = put_vol fs v2 s"
  by (cases s) (simp add: put_vol_def on_sfs_def)

lemma put_vol_disk: "put_disk dev d (put_vol fs vol s) = put_vol fs vol (put_disk dev d s)"
  by (cases s) (simp add: put_vol_def put_disk_def on_sfs_def)

lemma vol_at_put_vol: "vol_at s fs vol dev d \<Longrightarrow> sfs_device vol' = sfs_device vol \<Longrightarrow> vol_at (put_vol fs vol' s) fs vol' dev d"
  by (simp add: vol_at_def put_vol_def on_sfs_def)

lemma upd_vol_at: "vol_at s fs vol dev d \<Longrightarrow> upd_vol fs f s = Some (Inr (), put_vol fs (f vol) s)"
  by (simp add: upd_vol_def the_vol_def chain_def handle_def modify_def vol_at_def put_vol_def)

lemma the_vol_at: "vol_at s fs vol dev d \<Longrightarrow> the_vol fs s = Some (Inr vol, s)"
  by (simp add: the_vol_def vol_at_def)

lemma the_map_at: "vol_at s fs vol dev d \<Longrightarrow> sfs_freemap vol = Some b \<Longrightarrow> the_map fs s = Some (Inr b, s)"
  by (simp add: the_map_def chain_def handle_def the_vol_at succeed_def)

text \<open>Steps of a sequence, as rewrite rules.\<close>

lemma chain_vol: "vol_at s fs vol dev d \<Longrightarrow> chain (the_vol fs) g s = g vol s"
  by (rule chain_Inr) (rule the_vol_at)

lemma chain_map: "vol_at s fs vol dev d \<Longrightarrow> sfs_freemap vol = Some b \<Longrightarrow> chain (the_map fs) g s = g b s"
  by (rule chain_Inr) (rule the_map_at)

lemma chain_upd_vol: "vol_at s fs vol dev d \<Longrightarrow> chain (upd_vol fs f) g s = g () (put_vol fs (f vol) s)"
  by (rule chain_Inr) (rule upd_vol_at)

lemma chain_set_freemap:
  "vol_at s fs vol dev d \<Longrightarrow> chain (set_freemap fs b) g s = g () (put_vol fs (vol\<lparr>sfs_freemap := Some b\<rparr>) s)"
  unfolding set_freemap_def by (rule chain_upd_vol)

lemma chain_lift: "chain (lift_option (Some x)) g s = g x s"
  by (simp add: chain_def handle_def lift_option_def succeed_def)

lemma vol_ok_same: "vol_ok vol d \<Longrightarrow> same_sectors d d' \<Longrightarrow> vol_ok vol d'"
  by (auto simp: vol_ok_def same_sectors_def sectors_ok_def)

lemma vol_ok_sector:
  "vol_ok vol d \<Longrightarrow> length data = SFS_BLOCKSIZE \<Longrightarrow> vol_ok vol (d\<lparr>sectors := (sectors d)(k := data)\<rparr>)"
  by (auto simp: vol_ok_def sectors_ok_def hardware_ok_def)

lemma used_bound:
  assumes "vol_ok vol d" and "unat (k :: u32) \<in> used_blocks vol" and "k < sb_nblocks (sfs_sb vol)"
    and "vol_at s fs vol dev d"
  shows "sfs_bused fs k s = Some (Inr True, s)"
proof -
  obtain b where b: "sfs_freemap vol = Some b" "bm_wf b" "unat (sb_nblocks (sfs_sb vol)) \<le> bm_nbits b"
    using assms(1) by (auto simp: vol_ok_def)
  have "unat k < bm_nbits b" using assms(3) b(3) by (simp add: word_less_nat_alt)
  then obtain r where "bitmap_isset b (unat k) = Some r" "r \<noteq> 0 \<longleftrightarrow> unat k \<in> bm_set b"
    using bitmap_isset_spec [OF b(2)] by blast
  moreover have "\<not> sb_nblocks (sfs_sb vol) \<le> k" using assms(3) by simp
  ultimately show ?thesis
    using assms(2-4) b(1)
    by (simp add: sfs_bused_def chain_vol [OF assms(4)] chain_map [OF assms(4) b(1)] chain_lift used_blocks_def succeed_def
        del: not_le)
qed


lemma sfs_bfree_at:
  assumes at: "vol_at s fs vol dev d" and ok: "vol_ok vol d" and u: "unat k \<in> used_blocks vol" "k \<noteq> 0"
    "k < sb_nblocks (sfs_sb vol)"
  shows "\<exists>vol'. sfs_bfree fs k s = Some (Inr (), put_vol fs vol' s) \<and> vol_ok vol' d \<and> sfs_device vol' = sfs_device vol \<and>
    sfs_sb vol' = sfs_sb vol \<and> sfs_vnodes vol' = sfs_vnodes vol \<and> used_blocks vol' = used_blocks vol - {unat k}"
proof -
  obtain b where b: "sfs_freemap vol = Some b" "bm_wf b" "unat (sb_nblocks (sfs_sb vol)) \<le> bm_nbits b"
    "\<forall>i. unat (sb_nblocks (sfs_sb vol)) \<le> i \<and> i < bm_nbits b \<longrightarrow> i \<in> bm_set b" "0 \<in> bm_set b"
    using ok by (auto simp: vol_ok_def)
  have k: "unat k \<in> bm_set b" "unat k \<noteq> 0" "unat k < unat (sb_nblocks (sfs_sb vol))"
    using u b(1) by (simp_all add: used_blocks_def unat_eq_zero word_less_nat_alt)
  obtain b' where b': "bitmap_unmark b (unat k) = Some b'" "bm_wf b'" "bm_nbits b' = bm_nbits b" "bm_set b' = bm_set b - {unat k}"
    using bitmap_unmark_spec [OF b(2) k(1)] by blast
  let ?vol = "vol\<lparr>sfs_freemap := Some b', sfs_freemapdirty := True\<rparr>"
  have "sfs_bfree fs k s = Some (Inr (), put_vol fs ?vol s)"
    using b'(1) by (simp add: sfs_bfree_def chain_map [OF at b(1)] chain_lift upd_vol_at [OF at])
  moreover have "vol_ok ?vol d" using ok b b' k by (auto simp: vol_ok_def)
  ultimately show ?thesis using b(1) b'(4) by (intro exI [of _ ?vol]) (simp add: used_blocks_def)
qed

text \<open>What an allocation does, whatever the disk reports.\<close>

lemma sfs_balloc_run:
  assumes at: "vol_at s fs vol dev d" and ok: "vol_ok vol d"
  shows "\<exists>r vol' d'. sfs_balloc fs s = Some (r, put_vol fs vol' (put_disk dev d' s)) \<and> vol_ok vol' d' \<and>
    sfs_device vol' = sfs_device vol \<and> sfs_sb vol' = sfs_sb vol \<and> sfs_vnodes vol' = sfs_vnodes vol \<and>
    d_nsect d' = d_nsect d \<and> (replies d = [] \<longrightarrow> replies d' = []) \<and>
    (case r of
       Inl e \<Rightarrow> used_blocks vol' = used_blocks vol \<and> sectors d' = sectors d \<and>
         (replies d = [] \<longrightarrow> e = ENOSPC \<and> vol' = vol \<and> d' = d \<and> {..<unat (sb_nblocks (sfs_sb vol))} \<subseteq> used_blocks vol)
     | Inr k \<Rightarrow> unat k \<notin> used_blocks vol \<and> k < sb_nblocks (sfs_sb vol) \<and> k \<noteq> 0 \<and>
         {..<unat k} \<subseteq> used_blocks vol \<and> used_blocks vol' = insert (unat k) (used_blocks vol) \<and>
         (sectors d' = (sectors d)(unat k := replicate SFS_BLOCKSIZE 0) \<or> replies d \<noteq> [] \<and> sectors d' = sectors d))"
proof -
  let ?n = "unat (sb_nblocks (sfs_sb vol))"
  obtain b where b: "sfs_freemap vol = Some b" "bm_wf b" "?n \<le> bm_nbits b"
    "\<forall>i. ?n \<le> i \<and> i < bm_nbits b \<longrightarrow> i \<in> bm_set b" "0 \<in> bm_set b"
    using ok by (auto simp: vol_ok_def)
  have used: "used_blocks vol = bm_set b" using b(1) by (simp add: used_blocks_def)
  note start = chain_map [OF at b(1)]
  show ?thesis
  proof (cases "bm_set b = {..<bm_nbits b}")
    case True
    then have "sfs_balloc fs s = Some (Inl ENOSPC, s)"
      using bitmap_alloc_full [OF b(2)] by (simp add: sfs_balloc_def start chain_lift fail_def)
    then show ?thesis using ok True b(3) used put_vol_same [OF at] put_disk_same [OF at]
      by (intro exI [of _ "Inl ENOSPC"] exI [of _ vol] exI [of _ d]) auto
  next
    case False
    obtain b' k where k: "bitmap_alloc b = Some (Inr (b', k))" "bm_wf b'" "bm_nbits b' = bm_nbits b" "k < bm_nbits b"
      "k \<notin> bm_set b" "{..<k} \<subseteq> bm_set b" "bm_set b' = insert k (bm_set b)"
      using bitmap_alloc_spec [OF b(2) False] by blast
    have kn: "k < ?n" using b(4) k(4,5) by (meson not_le)
    have k0: "k \<noteq> 0" using b(5) k(5) by metis
    let ?k = "of_nat k :: u32"
    have "k < 2 ^ 32" by (rule less_trans [OF kn unat_lt_32])
    then have uk: "unat ?k = k" by (simp add: unsigned_of_nat take_bit_nat_eq_self)
    have lt: "?k < sb_nblocks (sfs_sb vol)" "\<not> sb_nblocks (sfs_sb vol) \<le> ?k" "?k < d_nsect d" "?k \<noteq> 0"
      using kn uk ok k0 by (auto simp: word_less_nat_alt vol_ok_def word_le_nat_alt)
    let ?vol = "vol\<lparr>sfs_freemap := Some b', sfs_freemapdirty := True\<rparr>"
    have at1: "vol_at (put_vol fs (vol\<lparr>sfs_freemap := Some b'\<rparr>) s) fs (vol\<lparr>sfs_freemap := Some b'\<rparr>) dev d"
      and at2: "vol_at (put_vol fs ?vol s) fs ?vol dev d"
      by (rule vol_at_put_vol [OF at]; simp)+
    have hw: "hardware_ok d" using ok by (simp add: vol_ok_def)
    obtain r d' where lr: "lhd_run d = (r, d')" by (cases "lhd_run d")
    note run = lhd_run_same [OF lr hw]
    let ?d2 = "d'\<lparr>sectors := (sectors d)(k := replicate SFS_BLOCKSIZE 0)\<rparr>"
    have w: "sfs_clearblock fs ?k (put_vol fs ?vol s) = Some (case r of
        None \<Rightarrow> (Inr (), put_vol fs ?vol (put_disk dev ?d2 s))
      | Some e \<Rightarrow> (if e = EIO then Inr () else Inl e, put_vol fs ?vol (put_disk dev d' s)))"
      using sfs_writeblock_at [OF at2 lt(3) hw, of "replicate SFS_BLOCKSIZE 0"] lr
      by (simp add: sfs_clearblock_def uk put_vol_disk split: option.split)
    have go: "sfs_balloc fs s = handle (sfs_clearblock fs ?k) (\<lambda>r. case r of
          Inl e \<Rightarrow> chain (lift_option (bitmap_unmark b' k)) (\<lambda>b. chain (set_freemap fs b) (\<lambda>_. fail e))
        | Inr _ \<Rightarrow> succeed ?k) (put_vol fs ?vol s)"
      using k(1) lt(2)
      by (simp add: sfs_balloc_def start chain_lift chain_set_freemap [OF at]
          chain_upd_vol [OF at1] chain_vol [OF at2] Let_def uk)
    have okv: "vol_ok ?vol d" using ok b k by (auto simp: vol_ok_def)
    have okd: "vol_ok ?vol d'" "vol_ok ?vol ?d2"
      using okv vol_ok_same [of ?vol d d'] run vol_ok_sector [of ?vol d' "replicate SFS_BLOCKSIZE 0" k]
      by (simp_all add: same_sectors_def)
    show ?thesis
    proof (cases "r = None \<or> r = Some EIO")
      case True
      then show ?thesis
        using go w okd k kn uk lt run used
        by (intro exI [of _ "Inr ?k"] exI [of _ ?vol] exI [of _ "if r = None then ?d2 else d'"])
          (auto simp: handle_at succeed_def used_blocks_def same_sectors_def)
    next
      case F: False
      then obtain e where e: "r = Some e" "e \<noteq> EIO" by auto
      obtain b2 where b2: "bitmap_unmark b' k = Some b2" "bm_wf b2" "bm_nbits b2 = bm_nbits b'" "bm_set b2 = bm_set b' - {k}"
        using bitmap_unmark_spec [OF k(2), of k] k(7) by auto
      let ?vol2 = "?vol\<lparr>sfs_freemap := Some b2\<rparr>"
      have at3: "vol_at (put_vol fs ?vol (put_disk dev d' s)) fs ?vol dev d'"
        by (rule vol_at_put_vol [OF vol_at_put [OF at]]) simp
      have "sfs_balloc fs s = Some (Inl e, put_vol fs ?vol2 (put_disk dev d' s))"
        using go w e b2(1)
        by (simp add: handle_at chain_lift chain_set_freemap [OF at3] fail_def)
      moreover have "bm_set b2 = bm_set b" using b2(4) k(5,7) by auto
      moreover from this have "vol_ok ?vol2 d'" using okd(1) b2 b k(3) by (auto simp: vol_ok_def)
      moreover have "replies d \<noteq> []" using run e by auto
      ultimately show ?thesis using run used
        by (intro exI [of _ "Inl e"] exI [of _ ?vol2] exI [of _ d']) (simp add: used_blocks_def same_sectors_def)
    qed
  qed
qed

end
