(* ===== verification/Sfs_Map.thy ===== *)
theory Sfs_Map
  imports Sfs_Spec
begin

text \<open>
  The block map of a file: \<^verbatim>\<open>sfs_bmap\<close> and \<^verbatim>\<open>sfs_itrunc\<close> against the map \<open>fmap\<close> from file blocks to
  disk blocks that an inode and its indirect block stand for. The disk reports no errors here.
\<close>

section \<open>A volume with one of its files\<close>

text \<open>A state given by the volume, its disk and one of its files; the rest is that of \<open>s\<close>.\<close>

definition sfs_st :: "sst \<Rightarrow> nat \<Rightarrow> nat \<Rightarrow> nat \<Rightarrow> sfs_fs \<Rightarrow> disk \<Rightarrow> sfs_vnode \<Rightarrow> sst" where
  "sfs_st s fs dev v vol d sv = on_sfs (\<lambda>y. y\<lparr>vols := (vols y)(fs \<mapsto> vol), disks := (disks y)(dev \<mapsto> d),
     svs := (svs y)(v \<mapsto> sv)\<rparr>) s"

definition in_fs :: "sst \<Rightarrow> nat \<Rightarrow> nat \<Rightarrow> bool" where
  "in_fs s fs v \<longleftrightarrow> biglock s \<and> Option.bind (vnodes s v) vn_fs = Some fs"

named_theorems sfs_st_simps \<open>steps on a state given by volume, disk and file\<close>

lemma vol_at_st: "in_fs s fs v \<Longrightarrow> sfs_device vol = Some dev \<Longrightarrow> vol_at (sfs_st s fs dev v vol d sv) fs vol dev d"
  by (simp add: in_fs_def vol_at_def sfs_st_def on_sfs_def)

lemma sfs_st_surj:
  "vol_at s fs vol dev d \<Longrightarrow> svs (fsdata s) v = Some sv \<Longrightarrow> sfs_st s fs dev v vol d sv = s"
  by (cases s; cases "fsdata s") (auto simp: vol_at_def sfs_st_def on_sfs_def fun_upd_idem)

lemma put_vol_st [simp]: "put_vol fs vol' (sfs_st s fs dev v vol d sv) = sfs_st s fs dev v vol' d sv"
  by (simp add: put_vol_def sfs_st_def on_sfs_def)

lemma put_disk_st [simp]: "put_disk dev d' (sfs_st s fs dev v vol d sv) = sfs_st s fs dev v vol d' sv"
  by (simp add: put_disk_def sfs_st_def on_sfs_def)

lemma chain_the_fs [sfs_st_simps]: "in_fs s fs v \<Longrightarrow> chain (the_fs v) g (sfs_st s fs dev v vol d sv) = g fs (sfs_st s fs dev v vol d sv)"
  by (rule chain_Inr) (simp add: the_fs_def in_fs_def sfs_st_def on_sfs_def)

lemma chain_the_sv [sfs_st_simps]: "chain (the_sv v) g (sfs_st s fs dev v vol d sv) = g sv (sfs_st s fs dev v vol d sv)"
  by (rule chain_Inr) (simp add: the_sv_def sfs_st_def on_sfs_def)

lemma upd_sv_st [sfs_st_simps]: "upd_sv v f (sfs_st s fs dev v vol d sv) = Some (Inr (), sfs_st s fs dev v vol d (f sv))"
  by (simp add: upd_sv_def chain_the_sv modify_def) (simp add: sfs_st_def on_sfs_def)

lemma chain_upd_sv [sfs_st_simps]:
  "chain (upd_sv v f) g (sfs_st s fs dev v vol d sv) = g () (sfs_st s fs dev v vol d (f sv))"
  by (rule chain_Inr) (rule upd_sv_st)

lemma chain_biglock [sfs_st_simps]:
  "in_fs s fs v \<Longrightarrow> chain (ensure vfs_biglock_do_i_hold) g (sfs_st s fs dev v vol d sv) = g () (sfs_st s fs dev v vol d sv)"
  by (rule chain_Inr) (simp add: ensure_def vfs_biglock_do_i_hold_def in_fs_def sfs_st_def on_sfs_def)

section \<open>The map of a file\<close>

definition idblock_words :: "sfs_dinode \<Rightarrow> disk \<Rightarrow> u32 list" where
  "idblock_words di d = (if sfi_indirect di = 0 then replicate SFS_DBPERIDB 0
     else words_of_bytes (sectors d (unat (sfi_indirect di))))"

definition fmap :: "sfs_dinode \<Rightarrow> disk \<Rightarrow> nat \<Rightarrow> u32" where
  "fmap di d i = (if i < SFS_NDIRECT then sfi_direct di ! i
     else if i < SFS_NDIRECT + SFS_DBPERIDB then idblock_words di d ! (i - SFS_NDIRECT) else 0)"

text \<open>A block number that is 0, or a block of the volume that is marked.\<close>

definition block_ok :: "sfs_fs \<Rightarrow> u32 \<Rightarrow> bool" where
  "block_ok vol b \<longleftrightarrow> b = 0 \<or> b < sb_nblocks (sfs_sb vol) \<and> unat b \<in> used_blocks vol"

definition file_ok :: "sfs_fs \<Rightarrow> sfs_dinode \<Rightarrow> disk \<Rightarrow> bool" where
  "file_ok vol di d \<longleftrightarrow> length (sfi_direct di) = SFS_NDIRECT \<and> block_ok vol (sfi_indirect di) \<and>
     (\<forall>i. block_ok vol (fmap di d i)) \<and>
     (\<forall>i j. fmap di d i = fmap di d j \<and> fmap di d i \<noteq> 0 \<longrightarrow> i = j) \<and>
     (\<forall>i. fmap di d i = sfi_indirect di \<longrightarrow> fmap di d i = 0)"

lemma file_okI:
  assumes "length (sfi_direct di) = SFS_NDIRECT" and "block_ok vol (sfi_indirect di)" and "\<And>i. block_ok vol (fmap di d i)"
    and "\<And>i j. fmap di d i = fmap di d j \<Longrightarrow> fmap di d i \<noteq> 0 \<Longrightarrow> i = j"
    and "\<And>i. fmap di d i = sfi_indirect di \<Longrightarrow> fmap di d i = 0"
  shows "file_ok vol di d"
  unfolding file_ok_def using assms by blast

lemma file_ok_parts:
  assumes "file_ok vol di d"
  shows file_ok_direct: "length (sfi_direct di) = SFS_NDIRECT" and file_ok_indirect: "block_ok vol (sfi_indirect di)"
    and file_ok_block: "block_ok vol (fmap di d i)"
    and file_ok_inj: "fmap di d i = fmap di d j \<Longrightarrow> fmap di d i \<noteq> 0 \<Longrightarrow> i = j"
    and file_ok_apart: "fmap di d i = sfi_indirect di \<Longrightarrow> fmap di d i = 0"
  using assms unfolding file_ok_def by blast+

lemma hand_back_st:
  assumes "in_fs s fs v" and "sfs_device vol = Some dev" and "vol_ok vol d" and "block_ok vol b"
  shows "hand_back fs b (sfs_st s fs dev v vol d sv) = Some (Inr b, sfs_st s fs dev v vol d sv)"
  using used_bound [OF assms(3) _ _ vol_at_st [OF assms(1,2)]] assms(4)
  by (auto simp: hand_back_def block_ok_def chain_def handle_def succeed_def)

lemma length_idblock_words: "sectors_ok d \<Longrightarrow> length (idblock_words di d) = 128"
  by (simp add: idblock_words_def length_words_of_bytes sectors_ok_def)

lemma words_of_zeros: "words_of_bytes (replicate (4 * n) 0) = replicate n 0"
proof (induction n)
  case (Suc n)
  have "replicate (4 * Suc n) (0 :: u8) = 0 # 0 # 0 # 0 # replicate (4 * n) 0" by (simp add: numeral_eq_Suc)
  then show ?case using Suc by (simp add: from_bytes_def)
qed simp

text \<open>The cases of the file block number.\<close>

lemma indirect_index:
  fixes i :: u32
  assumes "\<not> i < 15"
  shows "(i - 15) div 128 \<ge> 1 \<longleftrightarrow> \<not> unat i < 143" and "unat i < 143 \<Longrightarrow> unat ((i - 15) mod 128) = unat i - 15"
proof -
  have u: "unat (i - 15) = unat i - 15" and g: "15 \<le> unat i"
    using assms by (simp_all add: unat_sub word_le_nat_alt not_less)
  have "(1 :: u32) \<le> (i - 15) div 128 \<longleftrightarrow> 1 \<le> unat ((i - 15) div 128)" by (simp add: word_le_nat_alt)
  also have "\<dots> \<longleftrightarrow> 128 \<le> unat i - 15" unfolding unat_div u by (simp add: div_greater_zero_iff Suc_le_eq)
  finally show "(i - 15) div 128 \<ge> 1 \<longleftrightarrow> \<not> unat i < 143" using g by arith
  show "unat i < 143 \<Longrightarrow> unat ((i - 15) mod 128) = unat i - 15" unfolding unat_mod u using g by simp
qed

lemma fmap_cases:
  fixes i :: u32
  obtains (direct) "i < 15" "unat i < 15" "fmap di d (unat i) = sfi_direct di ! unat i"
  | (indirect) "\<not> i < 15" "\<not> (i - 15) div 128 \<ge> 1" "15 \<le> unat i" "unat i < 143" "unat ((i - 15) mod 128) = unat i - 15"
      "fmap di d (unat i) = idblock_words di d ! (unat i - 15)"
  | (beyond) "\<not> i < 15" "(i - 15) div 128 \<ge> 1" "\<not> unat i < 143" "fmap di d (unat i) = 0"
proof (cases "i < 15")
  case True
  then show thesis using direct by (simp add: fmap_def word_less_nat_alt)
next
  case False
  then have g: "15 \<le> unat i" by (simp add: word_less_nat_alt)
  show thesis
  proof (cases "unat i < 143")
    case True
    then show thesis using indirect False g indirect_index [OF False] by (simp add: fmap_def)
  next
    case nl: False
    then show thesis using beyond False g indirect_index(1) [OF False] by (simp add: fmap_def)
  qed
qed

lemma read_idblock:
  assumes "in_fs s fs v" and "sfs_device vol = Some dev" and "vol_ok vol d" and "file_ok vol (sv_i sv) d"
    and "replies d = []" and "sfi_indirect (sv_i sv) \<noteq> 0"
  shows "sfs_readblock fs (sfi_indirect (sv_i sv)) (sfs_st s fs dev v vol d sv) =
    Some (Inr (sectors d (unat (sfi_indirect (sv_i sv)))), sfs_st s fs dev v vol d sv)"
proof (rule sfs_readblock_quiet [OF vol_at_st [OF assms(1,2)] _ _ assms(5)])
  show "sectors_ok d" using assms(3) by (simp add: vol_ok_def)
  have "sb_nblocks (sfs_sb vol) \<le> d_nsect d" using assms(3) by (simp add: vol_ok_def)
  moreover have "sfi_indirect (sv_i sv) < sb_nblocks (sfs_sb vol)" using assms(4,6) by (simp add: file_ok_def block_ok_def)
  ultimately show "sfi_indirect (sv_i sv) < d_nsect d" by (rule order_less_le_trans [rotated])
qed

lemma bmap_lookup:
  assumes h: "in_fs s fs v" and dev: "sfs_device vol = Some dev" and ok: "vol_ok vol d" "file_ok vol (sv_i sv) d"
    and q: "replies d = []" and a: "doalloc \<Longrightarrow> fmap (sv_i sv) d (unat i) \<noteq> 0 \<or> \<not> unat i < 143"
  shows "sfs_bmap v i doalloc (sfs_st s fs dev v vol d sv) =
    Some (if unat i < 143 then Inr (fmap (sv_i sv) d (unat i)) else Inl EFBIG, sfs_st s fs dev v vol d sv)"
proof (cases rule: fmap_cases [of i "sv_i sv" d])
  case direct
  then show ?thesis using h hand_back_st [OF h dev ok(1) file_ok_block [OF ok(2)], of "unat i" sv] a
    by (auto simp: sfs_bmap_def bmap_direct_def sfs_st_simps Let_def)
next
  case indirect
  have hb: "hand_back fs (idblock_words (sv_i sv) d ! (unat i - 15)) (sfs_st s fs dev v vol d sv) =
      Some (Inr (fmap (sv_i sv) d (unat i)), sfs_st s fs dev v vol d sv)"
    using hand_back_st [OF h dev ok(1) file_ok_block [OF ok(2)], of "unat i" sv] indirect by simp
  show ?thesis
  proof (cases "sfi_indirect (sv_i sv) = 0")
    case True
    have z: "fmap (sv_i sv) d (unat i) = 0" using True indirect by (simp add: idblock_words_def)
    have "bmap_idblock fs v doalloc (sfs_st s fs dev v vol d sv) = Some (Inr None, sfs_st s fs dev v vol d sv)"
      using True a z indirect by (auto simp: bmap_idblock_def sfs_st_simps succeed_def)
    moreover note z
    ultimately show ?thesis using h indirect
      by (simp add: sfs_bmap_def bmap_indirect_def sfs_st_simps Let_def chain_Inr succeed_def)
  next
    case False
    then have "bmap_idblock fs v doalloc (sfs_st s fs dev v vol d sv) =
        Some (Inr (Some (sfi_indirect (sv_i sv), idblock_words (sv_i sv) d)), sfs_st s fs dev v vol d sv)"
      using read_idblock [OF h dev ok q] by (simp add: bmap_idblock_def sfs_st_simps succeed_def chain_Inr idblock_words_def Let_def)
    then show ?thesis using h indirect hb a
      by (auto simp: sfs_bmap_def bmap_indirect_def sfs_st_simps Let_def chain_Inr)
  qed
next
  case beyond
  then show ?thesis using h by (simp add: sfs_bmap_def sfs_st_simps fail_def Let_def)
qed

section \<open>Allocation through the map\<close>

text \<open>A block of zeros is put on the disk.\<close>

abbreviation put_sector :: "nat \<Rightarrow> u8 list \<Rightarrow> disk \<Rightarrow> disk" where
  "put_sector k data d \<equiv> d\<lparr>sectors := (sectors d)(k := data)\<rparr>"

lemma balloc_st:
  assumes h: "in_fs s fs v" and dev: "sfs_device vol = Some dev" and ok: "vol_ok vol d" and q: "replies d = []"
  obtains (full) "sfs_balloc fs (sfs_st s fs dev v vol d sv) = Some (Inl ENOSPC, sfs_st s fs dev v vol d sv)"
      "{..<unat (sb_nblocks (sfs_sb vol))} \<subseteq> used_blocks vol"
  | (got) k vol' where "sfs_balloc fs (sfs_st s fs dev v vol d sv) =
        Some (Inr k, sfs_st s fs dev v vol' (put_sector (unat k) (replicate SFS_BLOCKSIZE 0) d) sv)"
      "vol_ok vol' (put_sector (unat k) (replicate SFS_BLOCKSIZE 0) d)" "sfs_device vol' = Some dev"
      "sfs_sb vol' = sfs_sb vol" "sfs_vnodes vol' = sfs_vnodes vol" "unat k \<notin> used_blocks vol" "k < sb_nblocks (sfs_sb vol)" "k \<noteq> 0"
      "used_blocks vol' = insert (unat k) (used_blocks vol)"
proof -
  obtain r vol' d' where R: "sfs_balloc fs (sfs_st s fs dev v vol d sv) = Some (r, sfs_st s fs dev v vol' d' sv)"
    "vol_ok vol' d'" "sfs_device vol' = sfs_device vol" "sfs_sb vol' = sfs_sb vol" "sfs_vnodes vol' = sfs_vnodes vol"
    "d_nsect d' = d_nsect d" "replies d' = []"
    "case r of
       Inl e \<Rightarrow> used_blocks vol' = used_blocks vol \<and> sectors d' = sectors d \<and>
         (replies d = [] \<longrightarrow> e = ENOSPC \<and> vol' = vol \<and> d' = d \<and> {..<unat (sb_nblocks (sfs_sb vol))} \<subseteq> used_blocks vol)
     | Inr k \<Rightarrow> unat k \<notin> used_blocks vol \<and> k < sb_nblocks (sfs_sb vol) \<and> k \<noteq> 0 \<and>
         {..<unat k} \<subseteq> used_blocks vol \<and> used_blocks vol' = insert (unat k) (used_blocks vol) \<and>
         (sectors d' = (sectors d)(unat k := replicate SFS_BLOCKSIZE 0) \<or> replies d \<noteq> [] \<and> sectors d' = sectors d)"
    using sfs_balloc_run [OF vol_at_st [OF h dev] ok, of sv] q by auto
  show thesis
  proof (cases r)
    case (Inl e)
    then show thesis using full R q by simp
  next
    case (Inr k)
    then have "sectors d' = (sectors d)(unat k := replicate SFS_BLOCKSIZE 0)" using R(8) q by simp
    then have "d' = put_sector (unat k) (replicate SFS_BLOCKSIZE 0) d" using R(6,7) q by (cases d; cases d') simp
    then show thesis using got [of k vol'] R Inr dev by simp
  qed
qed

lemma idblock_words_put:
  "block_ok vol (sfi_indirect di) \<Longrightarrow> k \<notin> used_blocks vol \<Longrightarrow> idblock_words di (put_sector k x d) = idblock_words di d"
  by (auto simp: idblock_words_def block_ok_def)

lemma fmap_put: "file_ok vol di d \<Longrightarrow> k \<notin> used_blocks vol \<Longrightarrow> fmap di (put_sector k x d) = fmap di d"
  by (rule ext) (simp add: fmap_def idblock_words_put [OF file_ok_indirect])

lemma block_ok_grow: "block_ok vol b \<Longrightarrow> sfs_sb vol' = sfs_sb vol \<Longrightarrow> used_blocks vol \<subseteq> used_blocks vol' \<Longrightarrow> block_ok vol' b"
  by (auto simp: block_ok_def)

lemma file_ok_grow:
  assumes "file_ok vol di d" and "k \<notin> used_blocks vol" and "sfs_sb vol' = sfs_sb vol" and "used_blocks vol \<subseteq> used_blocks vol'"
  shows "file_ok vol' di (put_sector k x d)"
  by (rule file_okI, unfold fmap_put [OF assms(1,2)])
    (use block_ok_grow [OF _ assms(3,4)] file_ok_parts [OF assms(1)] in blast)+

lemma fresh_fmap: "file_ok vol di d \<Longrightarrow> unat k \<notin> used_blocks vol \<Longrightarrow> k \<noteq> 0 \<Longrightarrow> fmap di d j \<noteq> k"
  using file_ok_block [of vol di d j] by (auto simp: block_ok_def)

lemma file_ok_set:
  assumes ok: "file_ok vol di d" and m: "fmap di' d' = (fmap di d)(i := k)"
    and l: "sfi_indirect di' = sfi_indirect di" "length (sfi_direct di') = SFS_NDIRECT"
    and k: "unat k \<notin> used_blocks vol" "k \<noteq> 0" "k < sb_nblocks (sfs_sb vol)"
    and v: "used_blocks vol' = insert (unat k) (used_blocks vol)" "sfs_sb vol' = sfs_sb vol"
  shows "file_ok vol' di' d'"
proof -
  note ok' = file_ok_parts [OF ok]
  have ki: "k \<noteq> sfi_indirect di" using ok'(2) k(1,2) by (auto simp: block_ok_def)
  have sub: "used_blocks vol \<subseteq> used_blocks vol'" using v(1) by blast
  have kk: "block_ok vol' k" using v k by (simp add: block_ok_def)
  show ?thesis
  proof (rule file_okI)
    show "block_ok vol' (fmap di' d' j)" for j
      using kk block_ok_grow [OF ok'(3) v(2) sub] by (simp add: m)
    show "block_ok vol' (sfi_indirect di')" using block_ok_grow [OF ok'(2) v(2) sub] l by simp
    show "a = b" if "fmap di' d' a = fmap di' d' b" "fmap di' d' a \<noteq> 0" for a b
      using that ok'(4) fresh_fmap [OF ok k(1,2)] by (auto simp: m split: if_splits)
    show "fmap di' d' a = 0" if "fmap di' d' a = sfi_indirect di'" for a
      using that ok'(5) ki by (auto simp: m l split: if_splits)
  qed (rule l(2))
qed

text \<open>What stays when blocks are added to a file: the blocks in use but for its indirect block, and the volume.\<close>

definition grown :: "sfs_fs \<Rightarrow> disk \<Rightarrow> sfs_vnode \<Rightarrow> sfs_fs \<Rightarrow> disk \<Rightarrow> sfs_vnode \<Rightarrow> bool" where
  "grown vol d sv vol' d' sv' \<longleftrightarrow> vol_ok vol' d' \<and> file_ok vol' (sv_i sv') d' \<and> replies d' = [] \<and>
     sfs_device vol' = sfs_device vol \<and> sfs_sb vol' = sfs_sb vol \<and> sfs_vnodes vol' = sfs_vnodes vol \<and>
     used_blocks vol \<subseteq> used_blocks vol' \<and>
     (\<forall>k \<in> used_blocks vol. k \<noteq> unat (sfi_indirect (sv_i sv)) \<longrightarrow> sectors d' k = sectors d k) \<and>
     sfi_size (sv_i sv') = sfi_size (sv_i sv) \<and> sfi_type (sv_i sv') = sfi_type (sv_i sv) \<and>
     sfi_linkcount (sv_i sv') = sfi_linkcount (sv_i sv) \<and> sv_ino sv' = sv_ino sv"

lemma idblock_alloc:
  assumes h: "in_fs s fs v" and dev: "sfs_device vol = Some dev" and ok: "vol_ok vol d" "file_ok vol (sv_i sv) d"
    and q: "replies d = []"
  obtains (full) "bmap_idblock fs v True (sfs_st s fs dev v vol d sv) = Some (Inl ENOSPC, sfs_st s fs dev v vol d sv)"
      "{..<unat (sb_nblocks (sfs_sb vol))} \<subseteq> used_blocks vol"
  | (got) vol' d' sv' where "bmap_idblock fs v True (sfs_st s fs dev v vol d sv) =
        Some (Inr (Some (sfi_indirect (sv_i sv'), idblock_words (sv_i sv') d')), sfs_st s fs dev v vol' d' sv')"
      "grown vol d sv vol' d' sv'" "sfi_indirect (sv_i sv') \<noteq> 0" "fmap (sv_i sv') d' = fmap (sv_i sv) d"
      "sfi_indirect (sv_i sv) \<noteq> 0 \<Longrightarrow> sfi_indirect (sv_i sv') = sfi_indirect (sv_i sv)"
      "sfi_indirect (sv_i sv) = 0 \<Longrightarrow> unat (sfi_indirect (sv_i sv')) \<notin> used_blocks vol"
proof (cases "sfi_indirect (sv_i sv) = 0")
  case False
  have "bmap_idblock fs v True (sfs_st s fs dev v vol d sv) =
      Some (Inr (Some (sfi_indirect (sv_i sv), idblock_words (sv_i sv) d)), sfs_st s fs dev v vol d sv)"
    using False read_idblock [OF h dev ok q] by (simp add: bmap_idblock_def sfs_st_simps succeed_def chain_Inr idblock_words_def Let_def)
  then show thesis using False ok q by (intro got [where vol' = vol and d' = d and sv' = sv]) (simp_all add: grown_def)
next
  case True
  show thesis
  proof (cases rule: balloc_st [OF h dev ok(1) q, where sv = sv])
    case 1
    then show thesis using True by (intro full) (simp_all add: bmap_idblock_def sfs_st_simps chain_Inl)
  next
    case (2 k vol')
    let ?d = "put_sector (unat k) (replicate SFS_BLOCKSIZE 0) d" and ?sv = "set_indirect k sv"
    have w: "idblock_words (sv_i ?sv) ?d = replicate SFS_DBPERIDB 0"
      using 2(8) words_of_zeros [of 128] by (simp add: idblock_words_def set_indirect_def)
    have m: "fmap (sv_i ?sv) ?d = fmap (sv_i sv) d"
      by (rule ext) (simp add: fmap_def w, simp add: set_indirect_def idblock_words_def True)
    have step: "bmap_idblock fs v True (sfs_st s fs dev v vol d sv) =
        Some (Inr (Some (k, replicate SFS_DBPERIDB 0)), sfs_st s fs dev v vol' ?d ?sv)"
      using True 2(1) by (simp add: bmap_idblock_def sfs_st_simps chain_Inr succeed_def)
    have sub: "used_blocks vol \<subseteq> used_blocks vol'" using 2(9) by blast
    have "file_ok vol' (sv_i ?sv) ?d"
    proof (rule file_okI, unfold m)
      show "length (sfi_direct (sv_i ?sv)) = SFS_NDIRECT" using file_ok_direct [OF ok(2)] by (simp add: set_indirect_def)
      show "block_ok vol' (sfi_indirect (sv_i ?sv))" using 2 by (simp add: block_ok_def set_indirect_def)
      show "block_ok vol' (fmap (sv_i sv) d i)" for i by (rule block_ok_grow [OF file_ok_block [OF ok(2)] 2(4) sub])
      show "fmap (sv_i sv) d i = fmap (sv_i sv) d j \<Longrightarrow> fmap (sv_i sv) d i \<noteq> 0 \<Longrightarrow> i = j" for i j
        by (rule file_ok_inj [OF ok(2)])
      show "fmap (sv_i sv) d i = sfi_indirect (sv_i ?sv) \<Longrightarrow> fmap (sv_i sv) d i = 0" for i
        using fresh_fmap [OF ok(2) 2(6,8), of i] by (simp add: set_indirect_def)
    qed
    then have "grown vol d sv vol' ?d ?sv" using 2 q dev sub by (auto simp: grown_def set_indirect_def)
    then show thesis using step 2(6,8) w m True by (intro got [where vol' = vol' and d' = ?d and sv' = ?sv]) (simp_all add: set_indirect_def)
  qed
qed

lemma grown_trans:
  assumes "grown vol d sv vol1 d1 sv1" and "grown vol1 d1 sv1 vol2 d2 sv2"
    and "sfi_indirect (sv_i sv) \<noteq> 0 \<Longrightarrow> sfi_indirect (sv_i sv1) = sfi_indirect (sv_i sv)"
    and "sfi_indirect (sv_i sv) = 0 \<Longrightarrow> unat (sfi_indirect (sv_i sv1)) \<notin> used_blocks vol"
  shows "grown vol d sv vol2 d2 sv2"
proof -
  have "sectors d2 k = sectors d k" if "k \<in> used_blocks vol" "k \<noteq> unat (sfi_indirect (sv_i sv))" for k
  proof -
    have "k \<in> used_blocks vol1" using assms(1) that(1) by (auto simp: grown_def)
    moreover have "k \<noteq> unat (sfi_indirect (sv_i sv1))" using assms(3,4) that by (cases "sfi_indirect (sv_i sv) = 0") auto
    ultimately show ?thesis using assms(1,2) that by (simp add: grown_def)
  qed
  moreover have "used_blocks vol \<subseteq> used_blocks vol2" using assms(1,2) unfolding grown_def by blast
  ultimately show ?thesis using assms(1,2) by (simp add: grown_def)
qed

text \<open>The block itself, when the map has none yet.\<close>

lemma alloc_direct:
  assumes h: "in_fs s fs v" and dev: "sfs_device vol = Some dev" and ok: "vol_ok vol d" "file_ok vol (sv_i sv) d"
    and q: "replies d = []" and i: "i < SFS_NDIRECT" "fmap (sv_i sv) d i = 0"
  obtains (full) "bmap_direct fs v i True (sfs_st s fs dev v vol d sv) = Some (Inl ENOSPC, sfs_st s fs dev v vol d sv)"
      "{..<unat (sb_nblocks (sfs_sb vol))} \<subseteq> used_blocks vol"
  | (got) k vol' d' sv' where "bmap_direct fs v i True (sfs_st s fs dev v vol d sv) = Some (Inr k, sfs_st s fs dev v vol' d' sv')"
      "grown vol d sv vol' d' sv'" "fmap (sv_i sv') d' = (fmap (sv_i sv) d)(i := k)" "k \<noteq> 0" "unat k \<notin> used_blocks vol"
      "sectors d' (unat k) = replicate SFS_BLOCKSIZE 0"
proof -
  have z: "sfi_direct (sv_i sv) ! i = 0" using i by (simp add: fmap_def)
  show thesis
  proof (cases rule: balloc_st [OF h dev ok(1) q, where sv = sv])
    case 1
    then show thesis using z by (intro full) (simp_all add: bmap_direct_def sfs_st_simps chain_Inl)
  next
    case (2 k vol')
    let ?d = "put_sector (unat k) (replicate SFS_BLOCKSIZE 0) d" and ?sv = "set_direct i k sv"
    have "idblock_words (sv_i ?sv) x = idblock_words (sv_i sv) x" for x by (simp add: set_direct_def idblock_words_def)
    then have w: "idblock_words (sv_i ?sv) ?d = idblock_words (sv_i sv) d"
      by (simp add: idblock_words_put [OF file_ok_indirect [OF ok(2)] 2(6)])
    have m: "fmap (sv_i ?sv) ?d = (fmap (sv_i sv) d)(i := k)"
      using i(1) file_ok_direct [OF ok(2)] by (intro ext) (simp add: fmap_def w, simp add: set_direct_def)
    have f: "file_ok vol' (sv_i ?sv) ?d"
      by (rule file_ok_set [OF ok(2) m _ _ 2(6) 2(8) 2(7) 2(9) 2(4)])
        (simp_all add: set_direct_def file_ok_direct [OF ok(2)])
    have "block_ok vol' k" using file_ok_block [OF f, of i] by (simp add: m)
    then have "bmap_direct fs v i True (sfs_st s fs dev v vol d sv) = Some (Inr k, sfs_st s fs dev v vol' ?d ?sv)"
      using z 2(1) hand_back_st [OF h 2(3,2), of k ?sv] by (simp add: bmap_direct_def sfs_st_simps chain_Inr)
    moreover have "grown vol d sv vol' ?d ?sv" using f 2 q dev by (auto simp: grown_def set_direct_def)
    ultimately show thesis using m 2(6,8) by (intro got [where k = k and vol' = vol' and d' = ?d and sv' = ?sv]) simp_all
  qed
qed

lemma fmap_set_indirect:
  "idblock_words di d' = (idblock_words di d)[j := k] \<Longrightarrow> length (idblock_words di d) = 128 \<Longrightarrow> j < SFS_DBPERIDB \<Longrightarrow>
    fmap di d' = (fmap di d)(SFS_NDIRECT + j := k)"
  by (intro ext) (auto simp: fmap_def)

lemma alloc_indirect:
  assumes h: "in_fs s fs v" and dev: "sfs_device vol = Some dev" and ok: "vol_ok vol d" "file_ok vol (sv_i sv) d"
    and q: "replies d = []" and j: "j < SFS_DBPERIDB" "fmap (sv_i sv) d (SFS_NDIRECT + j) = 0"
  obtains (full) vol' d' sv' where
      "bmap_indirect fs v j True (sfs_st s fs dev v vol d sv) = Some (Inl ENOSPC, sfs_st s fs dev v vol' d' sv')"
      "grown vol d sv vol' d' sv'" "fmap (sv_i sv') d' = fmap (sv_i sv) d"
      "{..<unat (sb_nblocks (sfs_sb vol'))} \<subseteq> used_blocks vol'"
  | (got) k vol' d' sv' where "bmap_indirect fs v j True (sfs_st s fs dev v vol d sv) = Some (Inr k, sfs_st s fs dev v vol' d' sv')"
      "grown vol d sv vol' d' sv'" "fmap (sv_i sv') d' = (fmap (sv_i sv) d)(SFS_NDIRECT + j := k)" "k \<noteq> 0"
      "unat k \<notin> used_blocks vol" "sectors d' (unat k) = replicate SFS_BLOCKSIZE 0"
proof (cases rule: idblock_alloc [OF h dev ok q])
  case 1
  then show thesis using ok q
    by (intro full [where vol' = vol and d' = d and sv' = sv]) (simp_all add: bmap_indirect_def chain_Inl grown_def)
next
  case (2 vol1 d1 sv1)
  let ?id = "sfi_indirect (sv_i sv1)" and ?w = "idblock_words (sv_i sv1) d1"
  have g: "vol_ok vol1 d1" "file_ok vol1 (sv_i sv1) d1" "replies d1 = []" "sfs_device vol1 = Some dev"
    using 2(2) dev by (simp_all add: grown_def)
  have z: "?w ! j = 0" using j fun_cong [OF 2(4), of "SFS_NDIRECT + j"] by (simp add: fmap_def)
  have len: "length ?w = 128" using g(1) by (simp add: length_idblock_words vol_ok_def)
  show thesis
  proof (cases rule: balloc_st [OF h g(4,1,3), where sv = sv1])
    case a: 1
    then have "bmap_indirect fs v j True (sfs_st s fs dev v vol d sv) = Some (Inl ENOSPC, sfs_st s fs dev v vol1 d1 sv1)"
      using z 2(1) by (simp add: bmap_indirect_def chain_Inr chain_Inl Let_def)
    then show thesis using 2(2,4) a(2) by (intro full [where vol' = vol1 and d' = d1 and sv' = sv1]) simp_all
  next
    case a: (2 k vol2)
    let ?d2 = "put_sector (unat k) (replicate SFS_BLOCKSIZE 0) d1"
    let ?d3 = "put_sector (unat ?id) (bytes_of_words (?w[j := k])) ?d2"
    have ib: "?id < sb_nblocks (sfs_sb vol1)" "unat ?id \<in> used_blocks vol1"
      using file_ok_indirect [OF g(2)] 2(3) by (simp_all add: block_ok_def)
    have ki: "unat k \<noteq> unat ?id" using ib(2) a(6) by metis
    have "sb_nblocks (sfs_sb vol1) \<le> d_nsect d1" using g(1) by (simp add: vol_ok_def)
    then have range: "?id < d_nsect ?d2" using ib(1) by simp
    have wr: "sfs_writeblock fs ?id (bytes_of_words (?w[j := k])) (sfs_st s fs dev v vol2 ?d2 sv1) =
        Some (Inr (), sfs_st s fs dev v vol2 ?d3 sv1)"
      using sfs_writeblock_quiet [OF vol_at_st [OF h a(3)] range, of "bytes_of_words (?w[j := k])" sv1] g(3) len by simp
    have iw: "idblock_words (sv_i sv1) ?d3 = ?w[j := k]" using 2(3) by (simp add: idblock_words_def words_of_bytes_of_words)
    have m: "fmap (sv_i sv1) ?d3 = (fmap (sv_i sv1) d1)(SFS_NDIRECT + j := k)"
      by (rule fmap_set_indirect [OF iw len j(1)])
    have f: "file_ok vol2 (sv_i sv1) ?d3"
      by (rule file_ok_set [OF g(2) m refl file_ok_direct [OF g(2)] a(6) a(8) a(7) a(9) a(4)])
    have v3: "vol_ok vol2 ?d3" by (rule vol_ok_sector [OF a(2)]) (simp add: len)
    have "block_ok vol2 k" using file_ok_block [OF f, of "SFS_NDIRECT + j"] unfolding m by simp
    then have step: "bmap_indirect fs v j True (sfs_st s fs dev v vol d sv) = Some (Inr k, sfs_st s fs dev v vol2 ?d3 sv1)"
      using z 2(1) a(1) wr hand_back_st [OF h a(3) v3, of k sv1] by (simp add: bmap_indirect_def chain_Inr Let_def)
    have "grown vol1 d1 sv1 vol2 ?d3 sv1" using a v3 f g(3,4) by (auto simp: grown_def)
    then have "grown vol d sv vol2 ?d3 sv1" by (rule grown_trans [OF 2(2)]) (use 2(5,6) in simp_all)
    moreover have "unat k \<notin> used_blocks vol" using a(6) 2(2) by (auto simp: grown_def)
    ultimately show thesis using step m 2(4) a(8) ki
      by (intro got [where k = k and vol' = vol2 and d' = ?d3 and sv' = sv1]) simp_all
  qed
qed

text \<open>\<open>sfs_bmap\<close> with \<^verbatim>\<open>doalloc\<close> fills in the map.\<close>

lemma bmap_fill:
  assumes h: "in_fs s fs v" and dev: "sfs_device vol = Some dev" and ok: "vol_ok vol d" "file_ok vol (sv_i sv) d"
    and q: "replies d = []" and i: "unat i < 143"
  shows "\<exists>r vol' d' sv'. sfs_bmap v i True (sfs_st s fs dev v vol d sv) = Some (r, sfs_st s fs dev v vol' d' sv') \<and>
    grown vol d sv vol' d' sv' \<and>
    (case r of
       Inl e \<Rightarrow> e = ENOSPC \<and> {..<unat (sb_nblocks (sfs_sb vol'))} \<subseteq> used_blocks vol' \<and> fmap (sv_i sv') d' = fmap (sv_i sv) d
     | Inr k \<Rightarrow> k \<noteq> 0 \<and> fmap (sv_i sv') d' = (fmap (sv_i sv) d)(unat i := k) \<and>
         (fmap (sv_i sv) d (unat i) = 0 \<longrightarrow> unat k \<notin> used_blocks vol \<and> sectors d' (unat k) = replicate SFS_BLOCKSIZE 0))"
proof (cases "fmap (sv_i sv) d (unat i) = 0")
  case False
  have "sfs_bmap v i True (sfs_st s fs dev v vol d sv) = Some (Inr (fmap (sv_i sv) d (unat i)), sfs_st s fs dev v vol d sv)"
    using bmap_lookup [OF h dev ok q, of True i] False i by simp
  moreover have "grown vol d sv vol d sv" using ok q by (simp add: grown_def)
  ultimately show ?thesis using False
    by (intro exI [of _ "Inr (fmap (sv_i sv) d (unat i))"] exI [of _ vol] exI [of _ d] exI [of _ sv]) simp
next
  case z: True
  show ?thesis
  proof (cases rule: fmap_cases [of i "sv_i sv" d])
    case direct
    have b: "sfs_bmap v i True (sfs_st s fs dev v vol d sv) = bmap_direct fs v (unat i) True (sfs_st s fs dev v vol d sv)"
      using h direct(1) by (simp add: sfs_bmap_def sfs_st_simps)
    show ?thesis
    proof (cases rule: alloc_direct [OF h dev ok q direct(2) z])
      case 1
      then show ?thesis using ok q unfolding b
        by (intro exI [of _ "Inl ENOSPC"] exI [of _ vol] exI [of _ d] exI [of _ sv]) (simp add: grown_def)
    next
      case (2 k vol' d' sv')
      then show ?thesis unfolding b
        by (intro exI [of _ "Inr k"] exI [of _ vol'] exI [of _ d'] exI [of _ sv']) simp
    qed
  next
    case indirect
    let ?j = "unat i - 15"
    have j: "?j < 128" "fmap (sv_i sv) d (15 + ?j) = 0" "15 + ?j = unat i" using indirect z by simp_all
    have b: "sfs_bmap v i True (sfs_st s fs dev v vol d sv) = bmap_indirect fs v ?j True (sfs_st s fs dev v vol d sv)"
      using h indirect by (simp add: sfs_bmap_def sfs_st_simps Let_def)
    show ?thesis
    proof (cases rule: alloc_indirect [OF h dev ok q j(1,2)])
      case (1 vol' d' sv')
      then show ?thesis unfolding b
        by (intro exI [of _ "Inl ENOSPC"] exI [of _ vol'] exI [of _ d'] exI [of _ sv']) simp
    next
      case (2 k vol' d' sv')
      then show ?thesis unfolding b j(3)
        by (intro exI [of _ "Inr k"] exI [of _ vol'] exI [of _ d'] exI [of _ sv']) simp
    qed
  qed (use i in simp)
qed

end
