(* ===== verification/Sfs_Trunc.thy ===== *)
theory Sfs_Trunc
  imports Sfs_Map
begin

text \<open>
  Truncation, \<^verbatim>\<open>sfs_itrunc\<close>: what it does to the map of the file and to the blocks in use.
\<close>

text \<open>A block that leaves the map and the volume.\<close>

lemma file_ok_drop:
  assumes ok: "file_ok vol di d" and m: "fmap di' d' = (fmap di d)(i := 0)" and nz: "fmap di d i \<noteq> 0"
    and l: "sfi_indirect di' = sfi_indirect di" "length (sfi_direct di') = SFS_NDIRECT"
    and v: "used_blocks vol' = used_blocks vol - {unat (fmap di d i)}" "sfs_sb vol' = sfs_sb vol"
  shows "file_ok vol' di' d'"
proof -
  note ok' = file_ok_parts [OF ok]
  have keep: "block_ok vol' b" if "block_ok vol b" "b \<noteq> fmap di d i" for b
  proof -
    have "unat b \<noteq> unat (fmap di d i)" using that(2) by (simp add: word_unat_eq_iff)
    then show ?thesis using that(1) unfolding block_ok_def v by simp
  qed
  show ?thesis
  proof (rule file_okI)
    show "block_ok vol' (fmap di' d' j)" for j
    proof (cases "j = i \<or> fmap di d j = 0")
      case True
      then show ?thesis by (auto simp: m block_ok_def)
    next
      case False
      then have "fmap di d j \<noteq> fmap di d i" using ok'(4) by blast
      then show ?thesis using keep [OF ok'(3)] False by (simp add: m)
    qed
    have "sfi_indirect di \<noteq> fmap di d i" using ok'(5) [of i] nz by metis
    then show "block_ok vol' (sfi_indirect di')" using keep [OF ok'(2)] l by simp
    show "a = b" if "fmap di' d' a = fmap di' d' b" "fmap di' d' a \<noteq> 0" for a b
    proof -
      have "a \<noteq> i" "b \<noteq> i" using that by (auto simp: m)
      then show ?thesis using that ok'(4) [of a b] by (simp add: m)
    qed
    show "fmap di' d' a = 0" if "fmap di' d' a = sfi_indirect di'" for a
      using that ok'(5) [of a] by (cases "a = i") (simp_all add: m l)
  qed (rule l(2))
qed

lemma bfree_st:
  assumes h: "in_fs s fs v" and dev: "sfs_device vol = Some dev" and ok: "vol_ok vol d" and b: "block_ok vol b" "b \<noteq> 0"
  obtains vol' where "sfs_bfree fs b (sfs_st s fs dev v vol d sv) = Some (Inr (), sfs_st s fs dev v vol' d sv)"
    "vol_ok vol' d" "sfs_device vol' = Some dev" "sfs_sb vol' = sfs_sb vol" "sfs_vnodes vol' = sfs_vnodes vol"
    "used_blocks vol' = used_blocks vol - {unat b}"
  using sfs_bfree_at [OF vol_at_st [OF h dev] ok _ b(2), of sv] b dev that by (auto simp: block_ok_def)

text \<open>The blocks that leave the map \<open>f\<close> when the indices in \<open>I\<close> are cleared.\<close>

definition cleared :: "nat set \<Rightarrow> (nat \<Rightarrow> u32) \<Rightarrow> nat \<Rightarrow> u32" where
  "cleared I f j = (if j \<in> I then 0 else f j)"

definition blocks_of :: "nat set \<Rightarrow> (nat \<Rightarrow> u32) \<Rightarrow> nat set" where
  "blocks_of I f = {unat (f j) | j. j \<in> I \<and> f j \<noteq> 0}"

lemma blocks_of_insert: "blocks_of (insert i I) f = (if f i = 0 then {} else {unat (f i)}) \<union> blocks_of I f"
  by (auto simp: blocks_of_def)

lemma blocks_of_cleared: "i \<notin> I \<Longrightarrow> blocks_of I (f(i := 0)) = blocks_of I f"
  by (auto simp: blocks_of_def)

lemma cleared_insert: "cleared I (f(i := 0)) = cleared (insert i I) f"
  by (rule ext) (simp add: cleared_def)

definition same_vol :: "sfs_fs \<Rightarrow> sfs_fs \<Rightarrow> bool" where
  "same_vol vol vol' \<longleftrightarrow> sfs_device vol' = sfs_device vol \<and> sfs_sb vol' = sfs_sb vol \<and> sfs_vnodes vol' = sfs_vnodes vol"

definition same_inode :: "sfs_vnode \<Rightarrow> sfs_vnode \<Rightarrow> bool" where
  "same_inode sv sv' \<longleftrightarrow> sv_ino sv' = sv_ino sv \<and> sfi_type (sv_i sv') = sfi_type (sv_i sv) \<and>
     sfi_linkcount (sv_i sv') = sfi_linkcount (sv_i sv)"

lemma trunc_direct_run:
  assumes "in_fs s fs v" and "sfs_device vol = Some dev" and "vol_ok vol d" and "file_ok vol (sv_i sv) d"
    and "\<forall>i \<in> set is. i < SFS_NDIRECT" and "distinct is"
  shows "\<exists>vol' sv'. trunc_direct fs v bl is (sfs_st s fs dev v vol d sv) = Some (Inr (), sfs_st s fs dev v vol' d sv') \<and>
    vol_ok vol' d \<and> file_ok vol' (sv_i sv') d \<and> same_vol vol vol' \<and> same_inode sv sv' \<and>
    sfi_indirect (sv_i sv') = sfi_indirect (sv_i sv) \<and>
    fmap (sv_i sv') d = cleared {i \<in> set is. unat bl \<le> i} (fmap (sv_i sv) d) \<and>
    used_blocks vol' = used_blocks vol - blocks_of {i \<in> set is. unat bl \<le> i} (fmap (sv_i sv) d)"
  using assms
proof (induction "is" arbitrary: vol sv)
  case Nil
  then show ?case
    by (intro exI [of _ vol] exI [of _ sv])
      (simp add: succeed_def same_vol_def same_inode_def cleared_def blocks_of_def fun_eq_iff)
next
  case (Cons i "is")
  have i: "i < 15" "i \<notin> set is" using Cons.prems by simp_all
  have le: "of_nat i \<ge> bl \<longleftrightarrow> unat bl \<le> i"
    using i(1) by (simp add: word_le_nat_alt unsigned_of_nat take_bit_nat_eq_self)
  have fi: "sfi_direct (sv_i sv) ! i = fmap (sv_i sv) d i" using i(1) by (simp add: fmap_def)
  show ?case
  proof (cases "unat bl \<le> i \<and> fmap (sv_i sv) d i \<noteq> 0")
    case False
    have step: "trunc_direct fs v bl (i # is) (sfs_st s fs dev v vol d sv) = trunc_direct fs v bl is (sfs_st s fs dev v vol d sv)"
      using False by (auto simp: sfs_st_simps le fi)
    have c: "cleared {j \<in> set (i # is). unat bl \<le> j} (fmap (sv_i sv) d) = cleared {j \<in> set is. unat bl \<le> j} (fmap (sv_i sv) d)"
      "blocks_of {j \<in> set (i # is). unat bl \<le> j} (fmap (sv_i sv) d) = blocks_of {j \<in> set is. unat bl \<le> j} (fmap (sv_i sv) d)"
      using False by (auto simp: cleared_def blocks_of_def fun_eq_iff)
    show ?thesis unfolding step c using Cons.IH [OF Cons.prems(1-4)] Cons.prems(5,6) by simp
  next
    case True
    obtain vol1 where b: "sfs_bfree fs (fmap (sv_i sv) d i) (sfs_st s fs dev v vol d sv) = Some (Inr (), sfs_st s fs dev v vol1 d sv)"
      "vol_ok vol1 d" "sfs_device vol1 = Some dev" "sfs_sb vol1 = sfs_sb vol" "sfs_vnodes vol1 = sfs_vnodes vol"
      "used_blocks vol1 = used_blocks vol - {unat (fmap (sv_i sv) d i)}"
      using bfree_st [OF Cons.prems(1-3) file_ok_block [OF Cons.prems(4)], of i sv] True by blast
    let ?sv = "set_direct i 0 sv"
    have step: "trunc_direct fs v bl (i # is) (sfs_st s fs dev v vol d sv) = trunc_direct fs v bl is (sfs_st s fs dev v vol1 d ?sv)"
      using True b(1) by (simp add: sfs_st_simps le fi Let_def chain_Inr)
    have m: "fmap (sv_i ?sv) d = (fmap (sv_i sv) d)(i := 0)"
      using i(1) file_ok_direct [OF Cons.prems(4)] by (intro ext) (simp add: fmap_def set_direct_def idblock_words_def)
    have f: "file_ok vol1 (sv_i ?sv) d"
      by (rule file_ok_drop [OF Cons.prems(4) m _ _ _ b(6,4)])
        (use True file_ok_direct [OF Cons.prems(4)] in \<open>simp_all add: set_direct_def\<close>)
    have ins: "{j \<in> set (i # is). unat bl \<le> j} = insert i {j \<in> set is. unat bl \<le> j}" using True by auto
    obtain vol' sv' where I: "trunc_direct fs v bl is (sfs_st s fs dev v vol1 d ?sv) = Some (Inr (), sfs_st s fs dev v vol' d sv')"
      "vol_ok vol' d" "file_ok vol' (sv_i sv') d" "same_vol vol1 vol'" "same_inode ?sv sv'"
      "sfi_indirect (sv_i sv') = sfi_indirect (sv_i ?sv)"
      "fmap (sv_i sv') d = cleared {i \<in> set is. unat bl \<le> i} (fmap (sv_i ?sv) d)"
      "used_blocks vol' = used_blocks vol1 - blocks_of {i \<in> set is. unat bl \<le> i} (fmap (sv_i ?sv) d)"
      using Cons.IH [OF Cons.prems(1) b(3,2) f] Cons.prems(5,6) by auto
    have "blocks_of {j \<in> set is. unat bl \<le> j} (fmap (sv_i ?sv) d) = blocks_of {j \<in> set is. unat bl \<le> j} (fmap (sv_i sv) d)"
      unfolding m by (rule blocks_of_cleared) (use i(2) in simp)
    then have "used_blocks vol' = used_blocks vol - blocks_of (insert i {j \<in> set is. unat bl \<le> j}) (fmap (sv_i sv) d)"
      using I(8) b(6) True by (auto simp: blocks_of_insert)
    moreover have "fmap (sv_i sv') d = cleared (insert i {j \<in> set is. unat bl \<le> j}) (fmap (sv_i sv) d)"
      using I(7) unfolding m cleared_insert .
    moreover have "same_vol vol vol'" "same_inode sv sv'" "sfi_indirect (sv_i sv') = sfi_indirect (sv_i sv)"
      using I(4-6) b Cons.prems(2) by (simp_all add: same_vol_def same_inode_def set_direct_def)
    ultimately show ?thesis using I(1-3) unfolding step ins by blast
  qed
qed

text \<open>The loop over the indirect block works on a copy of it: the file as it will be when that is written back.\<close>

abbreviation with_idblock :: "sfs_dinode \<Rightarrow> u32 list \<Rightarrow> disk \<Rightarrow> disk" where
  "with_idblock di ws d \<equiv> put_sector (unat (sfi_indirect di)) (bytes_of_words ws) d"

lemma idblock_words_with: "sfi_indirect di \<noteq> 0 \<Longrightarrow> idblock_words di (with_idblock di ws d) = ws"
  by (simp add: idblock_words_def words_of_bytes_of_words)

lemma fmap_with: "sfi_indirect di \<noteq> 0 \<Longrightarrow> j < SFS_DBPERIDB \<Longrightarrow> fmap di (with_idblock di ws d) (SFS_NDIRECT + j) = ws ! j"
  by (simp add: fmap_def idblock_words_with)

definition past :: "u32 \<Rightarrow> nat list \<Rightarrow> nat set" where
  "past bl js = (\<lambda>j. SFS_NDIRECT + j) ` {j \<in> set js. unat bl < SFS_NDIRECT + j}"

lemma past_Nil: "past bl [] = {}"
  by (simp add: past_def)

lemma past_Cons: "past bl (j # js) = (if unat bl < SFS_NDIRECT + j then insert (SFS_NDIRECT + j) (past bl js) else past bl js)"
  by (auto simp: past_def)

lemma past_notin: "j \<notin> set js \<Longrightarrow> SFS_NDIRECT + j \<notin> past bl js"
  by (auto simp: past_def)

lemma cleared_empty: "cleared {} f = f" and blocks_of_empty: "blocks_of {} f = {}"
  by (simp_all add: cleared_def blocks_of_def fun_eq_iff)

lemma cleared_zero: "f i = 0 \<Longrightarrow> cleared (insert i I) f = cleared I f"
  by (auto simp: cleared_def fun_eq_iff)

definition idblock_cleared :: "u32 \<Rightarrow> nat list \<Rightarrow> sfs_dinode \<Rightarrow> disk \<Rightarrow> sfs_fs \<Rightarrow> u32 list \<Rightarrow> bool \<Rightarrow> bool \<Rightarrow>
    sfs_fs \<Rightarrow> u32 list \<Rightarrow> bool \<Rightarrow> bool \<Rightarrow> bool" where
  "idblock_cleared bl js di d vol ws nz dirty vol' ws' nz' dirty' \<longleftrightarrow>
    vol_ok vol' d \<and> file_ok vol' di (with_idblock di ws' d) \<and> same_vol vol vol' \<and> length ws' = SFS_DBPERIDB \<and>
    (\<forall>j. j \<notin> set js \<longrightarrow> ws' ! j = ws ! j) \<and> (nz' \<longleftrightarrow> nz \<or> (\<exists>j \<in> set js. ws' ! j \<noteq> 0)) \<and>
    (dirty' \<or> ws' = ws) \<and> (dirty \<longrightarrow> dirty') \<and>
    fmap di (with_idblock di ws' d) = cleared (past bl js) (fmap di (with_idblock di ws d)) \<and>
    used_blocks vol' = used_blocks vol - blocks_of (past bl js) (fmap di (with_idblock di ws d))"

lemma trunc_indirect_run:
  assumes "in_fs s fs v" and "sfs_device vol = Some dev" and "vol_ok vol d" and "sfi_indirect di \<noteq> 0"
    and "file_ok vol di (with_idblock di ws d)" and "length ws = SFS_DBPERIDB"
    and "\<forall>j \<in> set js. j < SFS_DBPERIDB" and "distinct js"
  shows "\<exists>vol' ws' nz' dirty'. trunc_indirect fs bl js (ws, nz, dirty) (sfs_st s fs dev v vol d sv) =
      Some (Inr (ws', nz', dirty'), sfs_st s fs dev v vol' d sv) \<and>
    idblock_cleared bl js di d vol ws nz dirty vol' ws' nz' dirty'"
  using assms
proof (induction js arbitrary: vol ws nz dirty)
  case Nil
  then have "idblock_cleared bl [] di d vol ws nz dirty vol ws nz dirty"
    by (simp add: idblock_cleared_def same_vol_def past_Nil cleared_empty blocks_of_empty del: fun_upd_apply)
  moreover have "trunc_indirect fs bl [] (ws, nz, dirty) (sfs_st s fs dev v vol d sv) =
      Some (Inr (ws, nz, dirty), sfs_st s fs dev v vol d sv)" by (simp add: succeed_def)
  ultimately show ?case by blast
next
  case (Cons j js)
  have j: "j < 128" "j \<notin> set js" and js: "\<forall>i \<in> set js. i < 128" "distinct js" using Cons.prems by simp_all
  have le: "bl < of_nat (15 + j) \<longleftrightarrow> unat bl < 15 + j"
  proof -
    have "15 + j < 2 ^ 32" using j(1) by simp
    then have "unat (of_nat (15 + j) :: u32) = 15 + j" unfolding unsigned_of_nat by (simp add: take_bit_nat_eq_self)
    then show ?thesis by (simp only: word_less_nat_alt)
  qed
  note fj = fmap_with [OF Cons.prems(4) j(1)]
  show ?case
  proof (cases "unat bl < 15 + j \<and> ws ! j \<noteq> 0")
    case False
    let ?nz = "nz \<or> ws ! j \<noteq> 0"
    have step: "trunc_indirect fs bl (j # js) (ws, nz, dirty) st = trunc_indirect fs bl js (ws, ?nz, dirty) st" for st
      using False by (simp only: trunc_indirect.simps split le) auto
    have c: "cleared (past bl (j # js)) (fmap di (with_idblock di ws d)) = cleared (past bl js) (fmap di (with_idblock di ws d))"
      "blocks_of (past bl (j # js)) (fmap di (with_idblock di ws d)) = blocks_of (past bl js) (fmap di (with_idblock di ws d))"
      using False fj [where ws = ws and d = d] by (auto simp: past_Cons cleared_zero blocks_of_insert)
    obtain vol' ws' nz' dirty' where I: "trunc_indirect fs bl js (ws, ?nz, dirty) (sfs_st s fs dev v vol d sv) =
        Some (Inr (ws', nz', dirty'), sfs_st s fs dev v vol' d sv)"
      "idblock_cleared bl js di d vol ws ?nz dirty vol' ws' nz' dirty'"
      using Cons.IH [OF Cons.prems(1-6) js, of ?nz dirty] by blast
    note J = I(2) [unfolded idblock_cleared_def]
    have "idblock_cleared bl (j # js) di d vol ws nz dirty vol' ws' nz' dirty'"
      unfolding idblock_cleared_def c using J j(2) by (intro conjI) (blast | simp)+
    then show ?thesis unfolding step using I(1) by blast
  next
    case True
    let ?b = "ws ! j"
    have bok: "block_ok vol ?b" using file_ok_block [OF Cons.prems(5), of "15 + j"] by (simp only: fj)
    obtain vol1 where b: "sfs_bfree fs ?b (sfs_st s fs dev v vol d sv) = Some (Inr (), sfs_st s fs dev v vol1 d sv)"
      "vol_ok vol1 d" "sfs_device vol1 = Some dev" "sfs_sb vol1 = sfs_sb vol" "sfs_vnodes vol1 = sfs_vnodes vol"
      "used_blocks vol1 = used_blocks vol - {unat ?b}"
      using bfree_st [OF Cons.prems(1-3) bok, of sv] True by blast
    have step: "trunc_indirect fs bl (j # js) (ws, nz, dirty) (sfs_st s fs dev v vol d sv) =
        trunc_indirect fs bl js (ws[j := 0], nz, True) (sfs_st s fs dev v vol1 d sv)"
      using True b(1) by (simp only: trunc_indirect.simps split le) (simp add: chain_Inr)
    have m: "fmap di (with_idblock di (ws[j := 0]) d) = (fmap di (with_idblock di ws d))(15 + j := 0)"
      by (rule fmap_set_indirect) (simp_all add: idblock_words_with [OF Cons.prems(4)] Cons.prems(6) j(1) del: sectors_update_def)
    have f: "file_ok vol1 di (with_idblock di (ws[j := 0]) d)"
      by (rule file_ok_drop [OF Cons.prems(5) m _ refl file_ok_direct [OF Cons.prems(5)] _ b(4)])
        (use True b(6) in \<open>simp_all only: fj simp_thms\<close>)
    obtain vol' ws' nz' dirty' where I: "trunc_indirect fs bl js (ws[j := 0], nz, True) (sfs_st s fs dev v vol1 d sv) =
        Some (Inr (ws', nz', dirty'), sfs_st s fs dev v vol' d sv)"
      "idblock_cleared bl js di d vol1 (ws[j := 0]) nz True vol' ws' nz' dirty'"
      using Cons.IH [OF Cons.prems(1) b(3,2) Cons.prems(4) f _ js, of nz True] Cons.prems(6) by auto
    note J = I(2) [unfolded idblock_cleared_def]
    have z: "ws' ! j = 0" using J j Cons.prems(6) by simp
    have p: "past bl (j # js) = insert (15 + j) (past bl js)" using True by (simp add: past_Cons)
    have "nz' \<longleftrightarrow> nz \<or> (\<exists>i \<in> set (j # js). ws' ! i \<noteq> 0)" using J z by simp
    moreover have "\<forall>i. i \<notin> set (j # js) \<longrightarrow> ws' ! i = ws ! i" using J by auto
    moreover have "same_vol vol vol'" using J b(3-5) Cons.prems(2) by (simp add: same_vol_def)
    moreover have "fmap di (with_idblock di ws' d) = cleared (past bl (j # js)) (fmap di (with_idblock di ws d))"
      using J unfolding m p cleared_insert by blast
    moreover have "used_blocks vol' = used_blocks vol - blocks_of (past bl (j # js)) (fmap di (with_idblock di ws d))"
    proof -
      have "blocks_of (past bl js) ((fmap di (with_idblock di ws d))(15 + j := 0)) =
          blocks_of (past bl js) (fmap di (with_idblock di ws d))"
        by (rule blocks_of_cleared) (rule past_notin [OF j(2)])
      then show ?thesis using J b(6) True unfolding m p blocks_of_insert fj by auto
    qed
    ultimately have "idblock_cleared bl (j # js) di d vol ws nz dirty vol' ws' nz' dirty'"
      unfolding idblock_cleared_def using J by blast
    then show ?thesis unfolding step using I(1) by blast
  qed
qed

text \<open>What a truncation that clears the file blocks in \<open>I\<close> has done.\<close>

definition truncated :: "nat set \<Rightarrow> sfs_fs \<Rightarrow> disk \<Rightarrow> sfs_vnode \<Rightarrow> sfs_fs \<Rightarrow> disk \<Rightarrow> sfs_vnode \<Rightarrow> bool" where
  "truncated I vol d sv vol' d' sv' \<longleftrightarrow> vol_ok vol' d' \<and> file_ok vol' (sv_i sv') d' \<and> same_vol vol vol' \<and>
     same_inode sv sv' \<and> replies d' = [] \<and>
     (\<forall>k. k \<noteq> unat (sfi_indirect (sv_i sv)) \<longrightarrow> sectors d' k = sectors d k) \<and>
     (sfi_indirect (sv_i sv') = sfi_indirect (sv_i sv) \<or> sfi_indirect (sv_i sv') = 0) \<and>
     fmap (sv_i sv') d' = cleared I (fmap (sv_i sv) d) \<and>
     used_blocks vol' = used_blocks vol - blocks_of I (fmap (sv_i sv) d) -
       (if sfi_indirect (sv_i sv') = sfi_indirect (sv_i sv) then {} else {unat (sfi_indirect (sv_i sv))})"

lemma cleared_trivial:
  assumes "\<And>i. i \<in> I \<Longrightarrow> f i = 0"
  shows "cleared I f = f" and "blocks_of I f = {}"
  using assms by (auto simp: cleared_def blocks_of_def fun_eq_iff)

lemma file_ok_cong: "fmap di d' = fmap di d \<Longrightarrow> file_ok vol di d \<Longrightarrow> file_ok vol di d'"
  unfolding file_ok_def by (erule ssubst)

lemma fmap_idblock_cong: "idblock_words di d' = idblock_words di d \<Longrightarrow> fmap di d' = fmap di d"
  by (rule ext) (simp add: fmap_def)

lemma past_all: "i \<in> past bl [0..<128] \<longleftrightarrow> 15 \<le> i \<and> i < 143 \<and> unat bl < i"
proof
  assume r: "15 \<le> i \<and> i < 143 \<and> unat bl < i"
  then have "i = 15 + (i - 15)" "i - 15 < 128" by arith+
  then show "i \<in> past bl [0..<128]" unfolding past_def using r by (intro image_eqI [of _ _ "i - 15"]) auto
qed (auto simp: past_def)

text \<open>The indirect block goes too.\<close>

lemma drop_idblock:
  assumes h: "in_fs s fs v" and dev: "sfs_device vol = Some dev" and ok: "vol_ok vol d"
    and f: "file_ok vol (sv_i sv) d'" and nz: "sfi_indirect (sv_i sv) \<noteq> 0" and z: "\<And>j. fmap (sv_i sv) d' (15 + j) = 0"
  obtains vol' where "chain (sfs_bfree fs (sfi_indirect (sv_i sv))) (\<lambda>_. upd_sv v (set_indirect 0)) (sfs_st s fs dev v vol d sv) =
      Some (Inr (), sfs_st s fs dev v vol' d (set_indirect 0 sv))" "vol_ok vol' d" "same_vol vol vol'"
    "used_blocks vol' = used_blocks vol - {unat (sfi_indirect (sv_i sv))}"
    "fmap (sv_i (set_indirect 0 sv)) d = fmap (sv_i sv) d'" "file_ok vol' (sv_i (set_indirect 0 sv)) d"
proof -
  let ?ind = "sfi_indirect (sv_i sv)" and ?sv = "set_indirect 0 sv"
  note f' = file_ok_parts [OF f]
  obtain vol' where b: "sfs_bfree fs ?ind (sfs_st s fs dev v vol d sv) = Some (Inr (), sfs_st s fs dev v vol' d sv)"
    "vol_ok vol' d" "sfs_device vol' = Some dev" "sfs_sb vol' = sfs_sb vol" "sfs_vnodes vol' = sfs_vnodes vol"
    "used_blocks vol' = used_blocks vol - {unat ?ind}"
    using bfree_st [OF h dev ok f'(2) nz] by blast
  have z2: "fmap (sv_i sv) d' i = 0" if "\<not> i < 15" for i using z [of "i - 15"] that by simp
  have m: "fmap (sv_i ?sv) d = fmap (sv_i sv) d'"
  proof
    fix i
    show "fmap (sv_i ?sv) d i = fmap (sv_i sv) d' i"
      by (cases "i < 15") (simp_all add: z2, simp_all add: fmap_def set_indirect_def idblock_words_def)
  qed
  have "file_ok vol' (sv_i ?sv) d"
  proof (rule file_okI, unfold m)
    show "length (sfi_direct (sv_i ?sv)) = SFS_NDIRECT" using f'(1) by (simp add: set_indirect_def)
    show "block_ok vol' (sfi_indirect (sv_i ?sv))" by (simp add: set_indirect_def block_ok_def)
    show "block_ok vol' (fmap (sv_i sv) d' i)" for i
    proof (cases "fmap (sv_i sv) d' i = 0")
      case False
      then have "unat (fmap (sv_i sv) d' i) \<noteq> unat ?ind" using f'(5) [of i] by (metis word_unat_eq_iff)
      then show ?thesis using f'(3) [of i] b(4,6) by (simp add: block_ok_def)
    qed (simp add: block_ok_def)
    show "i = j" if "fmap (sv_i sv) d' i = fmap (sv_i sv) d' j" "fmap (sv_i sv) d' i \<noteq> 0" for i j
      by (rule f'(4) [OF that])
    show "fmap (sv_i sv) d' i = 0" if "fmap (sv_i sv) d' i = sfi_indirect (sv_i ?sv)" for i
      using that by (simp add: set_indirect_def)
  qed
  then show thesis using that [of vol'] b dev m by (simp add: chain_Inr upd_sv_st same_vol_def)
qed

lemma trunc_idblock_run:
  assumes h: "in_fs s fs v" and dev: "sfs_device vol = Some dev" and ok: "vol_ok vol d" "file_ok vol (sv_i sv) d"
    and q: "replies d = []"
  shows "\<exists>vol' d' sv'. trunc_idblock fs v bl (sfs_st s fs dev v vol d sv) = Some (Inr (), sfs_st s fs dev v vol' d' sv') \<and>
    truncated (past bl [0..<128]) vol d sv vol' d' sv'"
proof (cases "bl < 142 \<and> sfi_indirect (sv_i sv) \<noteq> 0")
  case False
  have "fmap (sv_i sv) d i = 0" if "i \<in> past bl [0..<128]" for i
  proof -
    have i: "15 \<le> i" "i < 143" "unat bl < i" using that by (simp_all add: past_all)
    then have "bl < 142" by (simp add: word_less_nat_alt)
    then show ?thesis using False i by (simp add: fmap_def idblock_words_def)
  qed
  then have "truncated (past bl [0..<128]) vol d sv vol d sv"
    using ok q by (simp add: truncated_def same_vol_def same_inode_def cleared_trivial)
  moreover have "trunc_idblock fs v bl (sfs_st s fs dev v vol d sv) = Some (Inr (), sfs_st s fs dev v vol d sv)"
    using False by (auto simp: trunc_idblock_def sfs_st_simps succeed_def Let_def)
  ultimately show ?thesis by blast
next
  case True
  let ?di = "sv_i sv" and ?ws = "idblock_words (sv_i sv) d"
  have nz: "sfi_indirect ?di \<noteq> 0" using True by simp
  have m0: "fmap ?di (with_idblock ?di ?ws d) = fmap ?di d"
    by (rule fmap_idblock_cong) (rule idblock_words_with [OF nz])
  have len: "length ?ws = 128" using ok(1) by (simp add: length_idblock_words vol_ok_def)
  obtain vol1 ws nz' dirty where T: "trunc_indirect fs bl [0..<128] (?ws, False, False) (sfs_st s fs dev v vol d sv) =
      Some (Inr (ws, nz', dirty), sfs_st s fs dev v vol1 d sv)"
    "idblock_cleared bl [0..<128] ?di d vol ?ws False False vol1 ws nz' dirty"
    using trunc_indirect_run [OF h dev ok(1) nz file_ok_cong [OF m0 ok(2)] len, where js = "[0..<128]" and bl = bl
        and nz = False and dirty = False and sv = sv] by (auto simp del: fun_upd_apply)
  note J = T(2) [unfolded idblock_cleared_def m0]
  have dev1: "sfs_device vol1 = Some dev" using J dev by (simp add: same_vol_def)
  have ind: "sfi_indirect ?di < sb_nblocks (sfs_sb vol)" using file_ok_indirect [OF ok(2)] nz by (simp add: block_ok_def)
  have step: "trunc_idblock fs v bl (sfs_st s fs dev v vol d sv) =
      (if \<not> nz' then chain (sfs_bfree fs (sfi_indirect ?di)) (\<lambda>_. upd_sv v (set_indirect 0))
       else if dirty then sfs_writeblock fs (sfi_indirect ?di) (bytes_of_words ws)
       else succeed ()) (sfs_st s fs dev v vol1 d sv)"
  proof -
    have "words_of_bytes (sectors d (unat (sfi_indirect ?di))) = ?ws" using nz by (simp add: idblock_words_def)
    moreover have "chain (sfs_readblock fs (sfi_indirect ?di)) g (sfs_st s fs dev v vol d sv) =
        g (sectors d (unat (sfi_indirect ?di))) (sfs_st s fs dev v vol d sv)" for g :: "u8 list \<Rightarrow> (sst, unit) op"
      by (rule chain_Inr) (rule read_idblock [OF h dev ok q nz])
    ultimately show ?thesis using True T(1)
      by (simp add: trunc_idblock_def sfs_st_simps Let_def chain_Inr)
  qed
  have I: "vol_ok vol1 d" "file_ok vol1 ?di (with_idblock ?di ws d)" "same_vol vol vol1" "length ws = 128"
    "fmap ?di (with_idblock ?di ws d) = cleared (past bl [0..<128]) (fmap ?di d)"
    "used_blocks vol1 = used_blocks vol - blocks_of (past bl [0..<128]) (fmap ?di d)"
    using J by blast+
  consider (none) "\<not> nz'" | (dirty) "nz'" dirty | (same) "nz'" "\<not> dirty" by blast
  then show ?thesis
  proof cases
    case none
    have "fmap ?di (with_idblock ?di ws d) (15 + j) = 0" for j
    proof (cases "j < 128")
      case True
      moreover have "\<forall>i \<in> set [0..<128]. ws ! i = 0" using J none by blast
      ultimately show ?thesis by (simp only: fmap_with [OF nz]) simp
    qed (simp add: fmap_def)
    from drop_idblock [OF h dev1 I(1,2) nz this]
    obtain vol2 where D: "chain (sfs_bfree fs (sfi_indirect ?di)) (\<lambda>_. upd_sv v (set_indirect 0)) (sfs_st s fs dev v vol1 d sv) =
        Some (Inr (), sfs_st s fs dev v vol2 d (set_indirect 0 sv))" "vol_ok vol2 d" "same_vol vol1 vol2"
      "used_blocks vol2 = used_blocks vol1 - {unat (sfi_indirect ?di)}"
      "fmap (sv_i (set_indirect 0 sv)) d = fmap ?di (with_idblock ?di ws d)" "file_ok vol2 (sv_i (set_indirect 0 sv)) d"
      by blast
    then have "truncated (past bl [0..<128]) vol d sv vol2 d (set_indirect 0 sv)"
      using I q nz unfolding truncated_def D(5) by (simp add: same_vol_def same_inode_def set_indirect_def)
    then show ?thesis using step none D(1) by auto
  next
    case dirty
    let ?d = "with_idblock ?di ws d"
    have "sb_nblocks (sfs_sb vol1) \<le> d_nsect d" using I(1) by (simp add: vol_ok_def)
    then have "sfi_indirect ?di < d_nsect d" using ind I(3) by (simp add: same_vol_def)
    then have "sfs_writeblock fs (sfi_indirect ?di) (bytes_of_words ws) (sfs_st s fs dev v vol1 d sv) =
        Some (Inr (), sfs_st s fs dev v vol1 ?d sv)"
      using sfs_writeblock_quiet [OF vol_at_st [OF h dev1] _ q, of _ "bytes_of_words ws" sv] I(4) by simp
    moreover have "vol_ok vol1 ?d" by (rule vol_ok_sector [OF I(1)]) (simp add: I(4))
    then have "truncated (past bl [0..<128]) vol d sv vol1 ?d sv"
      using I(2,3,6) q unfolding truncated_def I(5) by (simp add: same_inode_def)
    ultimately show ?thesis using step dirty by auto
  next
    case same
    then have "ws = ?ws" using J by blast
    then have "cleared (past bl [0..<128]) (fmap ?di d) = fmap ?di d" using I(5) m0 by simp
    then have "truncated (past bl [0..<128]) vol d sv vol1 d sv"
      using I(1,3,6) q \<open>ws = ?ws\<close> file_ok_cong [OF m0 [symmetric]] I(2) by (simp add: truncated_def same_inode_def)
    then show ?thesis using step same by (auto simp: succeed_def)
  qed
qed

section \<open>The whole call\<close>

lemma truncated_seq:
  assumes "truncated I vol d sv vol1 d1 sv1" and "truncated J vol1 d1 sv1 vol2 d2 sv2" and "I \<inter> J = {}"
    and "sfi_indirect (sv_i sv1) = sfi_indirect (sv_i sv)"
  shows "truncated (I \<union> J) vol d sv vol2 d2 sv2"
proof -
  let ?f = "fmap (sv_i sv) d"
  have c: "cleared J (cleared I ?f) = cleared (I \<union> J) ?f" by (auto simp: cleared_def fun_eq_iff)
  have "blocks_of J (cleared I ?f) = blocks_of J ?f" unfolding blocks_of_def cleared_def
    by (intro Collect_cong ex_cong1) (use assms(3) in auto)
  moreover have "blocks_of (I \<union> J) ?f = blocks_of I ?f \<union> blocks_of J ?f" by (auto simp: blocks_of_def)
  ultimately show ?thesis using assms(1,2,4) unfolding truncated_def
    by (simp add: c same_vol_def same_inode_def Diff_eq Int_assoc)
qed

lemma truncated_agree:
  assumes "truncated I vol d sv vol' d' sv'" and "\<And>i. fmap (sv_i sv) d i \<noteq> 0 \<Longrightarrow> i \<in> I \<longleftrightarrow> i \<in> J"
  shows "truncated J vol d sv vol' d' sv'"
proof -
  have "cleared I (fmap (sv_i sv) d) = cleared J (fmap (sv_i sv) d)" using assms(2) by (auto simp: cleared_def fun_eq_iff)
  moreover have "blocks_of I (fmap (sv_i sv) d) = blocks_of J (fmap (sv_i sv) d)" using assms(2) by (auto simp: blocks_of_def)
  ultimately show ?thesis using assms(1) by (simp add: truncated_def)
qed

text \<open>The file blocks that a truncation to \<open>n\<close> blocks clears: of those that the indirect block maps, number \<open>n\<close>
  itself is not among them.\<close>

definition past_end :: "nat \<Rightarrow> nat set" where
  "past_end n = {i. if i < SFS_NDIRECT then n \<le> i else n < i}"

definition with_size :: "u32 \<Rightarrow> sfs_vnode \<Rightarrow> sfs_vnode" where
  "with_size n sv = sv\<lparr>sv_i := (sv_i sv)\<lparr>sfi_size := n\<rparr>, sv_dirty := True\<rparr>"

lemma fmap_with_size: "fmap (sv_i (with_size n sv)) d = fmap (sv_i sv) d"
  by (rule ext) (simp add: fmap_def idblock_words_def with_size_def)

lemma file_ok_with_size: "file_ok vol (sv_i (with_size n sv)) d \<longleftrightarrow> file_ok vol (sv_i sv) d"
proof -
  have "sfi_direct (sv_i (with_size n sv)) = sfi_direct (sv_i sv)" "sfi_indirect (sv_i (with_size n sv)) = sfi_indirect (sv_i sv)"
    by (simp_all add: with_size_def)
  then show ?thesis unfolding file_ok_def fmap_with_size by (simp only:)
qed

lemma truncated_with_size: "truncated I vol d sv vol' d' sv' \<Longrightarrow> truncated I vol d sv vol' d' (with_size n sv')"
  unfolding truncated_def fmap_with_size file_ok_with_size by (simp add: with_size_def same_inode_def)

lemma trunc_blocks_run:
  assumes h: "in_fs s fs v" and dev: "sfs_device vol = Some dev" and ok: "vol_ok vol d" "file_ok vol (sv_i sv) d"
    and q: "replies d = []"
  shows "\<exists>vol' d' sv'. chain (trunc_direct fs v bl [0..<SFS_NDIRECT]) (\<lambda>_. chain (trunc_idblock fs v bl) (\<lambda>_.
      upd_sv v (with_size n))) (sfs_st s fs dev v vol d sv) = Some (Inr (), sfs_st s fs dev v vol' d' sv') \<and>
    truncated (past_end (unat bl)) vol d sv vol' d' sv' \<and> sfi_size (sv_i sv') = n \<and> sv_dirty sv'"
proof -
  let ?I = "{i \<in> set [0..<15]. unat bl \<le> i}"
  obtain vol1 sv1 where D: "trunc_direct fs v bl [0..<15] (sfs_st s fs dev v vol d sv) = Some (Inr (), sfs_st s fs dev v vol1 d sv1)"
    "vol_ok vol1 d" "file_ok vol1 (sv_i sv1) d" "same_vol vol vol1" "same_inode sv sv1"
    "sfi_indirect (sv_i sv1) = sfi_indirect (sv_i sv)" "fmap (sv_i sv1) d = cleared ?I (fmap (sv_i sv) d)"
    "used_blocks vol1 = used_blocks vol - blocks_of ?I (fmap (sv_i sv) d)"
    using trunc_direct_run [OF h dev ok, of "[0..<15]" bl] by auto
  have t1: "truncated ?I vol d sv vol1 d sv1" using D q by (simp add: truncated_def)
  have dev1: "sfs_device vol1 = Some dev" using D(4) dev by (simp add: same_vol_def)
  obtain vol2 d2 sv2 where E: "trunc_idblock fs v bl (sfs_st s fs dev v vol1 d sv1) = Some (Inr (), sfs_st s fs dev v vol2 d2 sv2)"
    "truncated (past bl [0..<128]) vol1 d sv1 vol2 d2 sv2"
    using trunc_idblock_run [OF h dev1 D(2,3) q] by blast
  have "truncated (?I \<union> past bl [0..<128]) vol d sv vol2 d2 sv2"
    by (rule truncated_seq [OF t1 E(2) _ D(6)]) (auto simp: past_all)
  then have "truncated (past_end (unat bl)) vol d sv vol2 d2 sv2"
  proof (rule truncated_agree)
    fix i
    assume "fmap (sv_i sv) d i \<noteq> 0"
    then have "i < 143" by (auto simp: fmap_def split: if_splits)
    then show "i \<in> ?I \<union> past bl [0..<128] \<longleftrightarrow> i \<in> past_end (unat bl)" unfolding Un_iff past_all by (auto simp: past_end_def)
  qed
  then have "truncated (past_end (unat bl)) vol d sv vol2 d2 (with_size n sv2)" by (rule truncated_with_size)
  then show ?thesis using D(1) E(1)
    by (intro exI [of _ vol2] exI [of _ d2] exI [of _ "with_size n sv2"]) (simp add: chain_Inr upd_sv_st, simp add: with_size_def)
qed

end
