(* ===== verification/Sfs_Facts.thy ===== *)
theory Sfs_Facts
  imports Sfs_Trunc
begin

text \<open>
  The properties of block transfers, block allocation, the block map and truncation, with a small volume of
  32 blocks that they are applied to: blocks 0 to 2 are the superblock, the root directory and the freemap,
  block 3 is the first block of a file, block 4 its indirect block and block 5 the file block 15.
\<close>

section \<open>A small volume\<close>

definition demo_disk :: "u32 list \<Rightarrow> disk" where
  "demo_disk rs = \<lparr>sectors = (\<lambda>_. replicate 512 0)(4 := bytes_of_words (5 # replicate 127 0)), d_nsect = 32, replies = rs\<rparr>"

definition demo_map :: bitmap where
  "demo_map = \<lparr>bm_nbits = 32, bm_v = [63, 0, 0, 0]\<rparr>"

definition demo_vol :: sfs_fs where
  "demo_vol = \<lparr>sfs_sb = \<lparr>sb_magic = SFS_MAGIC, sb_nblocks = 32, sb_volname = replicate 32 0, sb_reserved = replicate 472 0\<rparr>,
     sfs_superdirty = False, sfs_device = Some 0, sfs_vnodes = array_init, sfs_freemap = Some demo_map,
     sfs_freemapdirty = False\<rparr>"

definition demo_inode :: sfs_dinode where
  "demo_inode = \<lparr>sfi_size = 8192, sfi_type = SFS_TYPE_FILE, sfi_linkcount = 1, sfi_direct = 3 # replicate 14 0,
     sfi_indirect = 4, sfi_waste = replicate 110 0\<rparr>"

definition demo_sv :: sfs_vnode where
  "demo_sv = \<lparr>sv_i = demo_inode, sv_ino = 9, sv_dirty = False\<rparr>"

definition demo_sst :: "u32 list \<Rightarrow> sst" where
  "demo_sst rs = \<lparr>vnodes = [7 \<mapsto> \<lparr>vn_refcount = 1, vn_fs = Some 0, vn_isdev = False, vn_data = None\<rparr>], knowndevs = [],
     biglock = True, biglock_depth = 1, bootfs_vnode = None, p_cwd = None, d_devnumber = (\<lambda>_. None),
     user = \<lparr>bytes_of = (\<lambda>_. 0), badfault = False\<rparr>,
     fsdata = \<lparr>vols = [0 \<mapsto> demo_vol], svs = [7 \<mapsto> demo_sv], disks = [0 \<mapsto> demo_disk rs]\<rparr>\<rparr>"

lemma demo_at: "vol_at (demo_sst rs) 0 demo_vol 0 (demo_disk rs)"
  by (simp add: vol_at_def demo_sst_def demo_vol_def)

lemma demo_file: "svs (fsdata (demo_sst rs)) 7 = Some demo_sv" "Option.bind (vnodes (demo_sst rs) 7) vn_fs = Some 0"
  "biglock_depth (demo_sst rs) = 1"
  by (simp_all add: demo_sst_def)

lemma demo_bits: "i < 32 \<Longrightarrow> bm_bit demo_map i \<longleftrightarrow> i < 6"
proof (cases "i < 8")
  case True
  have m: "(63 :: u8) = mask 6" by (simp add: mask_eq_exp_minus_1)
  have "bit (63 :: u8) i \<longleftrightarrow> i < 6" unfolding m bit_mask_iff using True by auto
  then show ?thesis using True by (simp add: bm_bit_def demo_map_def)
next
  case False
  assume "i < 32"
  then have "i div 8 = 1 \<or> i div 8 = 2 \<or> i div 8 = 3" using False by arith
  then have "bm_v demo_map ! (i div 8) = 0" by (auto simp: demo_map_def)
  then show ?thesis using False by (simp add: bm_bit_def)
qed

lemma demo_used: "used_blocks demo_vol = {..<6}"
  using demo_bits by (auto simp: used_blocks_def demo_vol_def bm_set_def demo_map_def)

lemma demo_vol_ok: "hardware_ok (demo_disk rs) \<Longrightarrow> vol_ok demo_vol (demo_disk rs)"
proof -
  assume hw: "hardware_ok (demo_disk rs)"
  have "bm_wf demo_map" unfolding bm_wf_def by (auto simp: demo_map_def divroundup_def)
  moreover have "bm_set demo_map = {..<6}" using demo_used by (simp add: used_blocks_def demo_vol_def)
  moreover have "sectors_ok (demo_disk rs)" by (simp add: sectors_ok_def demo_disk_def)
  ultimately show ?thesis using hw
    by (simp add: vol_ok_def demo_vol_def) (simp add: demo_map_def demo_disk_def)
qed

lemma demo_fmap: "fmap demo_inode (demo_disk rs) i = (if i = 0 then 3 else if i = 15 then 5 else 0)"
  by (auto simp: fmap_def demo_inode_def idblock_words_def demo_disk_def words_of_bytes_of_words nth_Cons' nth_replicate)

lemma demo_file_ok: "file_ok demo_vol (sv_i demo_sv) (demo_disk rs)"
proof -
  have b: "block_ok demo_vol 0" "block_ok demo_vol 3" "block_ok demo_vol 4" "block_ok demo_vol 5"
    unfolding block_ok_def demo_used by (simp_all add: demo_vol_def)
  show ?thesis
    by (rule file_okI; simp add: demo_sv_def demo_fmap b split: if_splits; simp add: demo_inode_def b)
qed

section \<open>Properties\<close>

text \<open>C37: Writing a block is atomic, but an I/O error of the disk is lost: \<^verbatim>\<open>sfs_writeblock\<close> reports success and
  the block keeps its old contents, since the retry continues with a \<^verbatim>\<open>uio\<close> that has been used up. Any other
  error is reported, and without an error the block is on the disk. Nothing else changes.\<close>

theorem sfs_writeblock_loses_eio:
  assumes "vol_at s fs vol dev d" and "b < d_nsect d" and "hardware_ok d" and "length data = SFS_BLOCKSIZE"
  shows "sfs_writeblock fs b data s = Some (case lhd_run d of
      (None, d') \<Rightarrow> (Inr (), put_disk dev (d'\<lparr>sectors := (sectors d)(unat b := data)\<rparr>) s)
    | (Some e, d') \<Rightarrow> (if e = EIO then Inr () else Inl e, put_disk dev d' s))"
  by (rule sfs_writeblock_at [OF assms])

theorem sfs_writeblock_loses_eio_witness:
  "sfs_writeblock 0 5 (replicate SFS_BLOCKSIZE 1) (demo_sst [LHD_MEDIA]) = Some (Inr (), put_disk 0 (demo_disk []) (demo_sst [LHD_MEDIA]))"
  using sfs_writeblock_loses_eio [OF demo_at, of 5 "[LHD_MEDIA]" "replicate SFS_BLOCKSIZE 1"]
  by (simp add: hardware_ok_def lhd_code_to_errno_def demo_disk_def lhd_run_def)



section \<open>The volume as a source of blocks\<close>

text \<open>A mounted volume on a disk without errors. Block 0 is not for files.\<close>

definition mounted :: "nat \<Rightarrow> sst \<Rightarrow> bool" where
  "mounted fs s \<longleftrightarrow> (case vols (fsdata s) fs of None \<Rightarrow> False | Some vol \<Rightarrow>
     (case sfs_device vol of None \<Rightarrow> False | Some dev \<Rightarrow>
       (case disks (fsdata s) dev of None \<Rightarrow> False | Some d \<Rightarrow> biglock s \<and> vol_ok vol d \<and> replies d = [])))"

definition file_blocks :: "nat \<Rightarrow> sst \<Rightarrow> nat set" where
  "file_blocks fs s = (case vols (fsdata s) fs of None \<Rightarrow> {} | Some vol \<Rightarrow> {0<..<unat (sb_nblocks (sfs_sb vol))})"

definition taken_blocks :: "nat \<Rightarrow> sst \<Rightarrow> nat set" where
  "taken_blocks fs s = (case vols (fsdata s) fs of None \<Rightarrow> {} | Some vol \<Rightarrow> used_blocks vol \<inter> file_blocks fs s)"

definition get_block_of :: "nat \<Rightarrow> sst \<Rightarrow> (nat option \<times> sst) option" where
  "get_block_of fs s = map_option (\<lambda>(r, s). (case r of Inl e \<Rightarrow> None | Inr k \<Rightarrow> Some (unat k), s)) (sfs_balloc fs s)"

definition free_block_of :: "nat \<Rightarrow> nat \<Rightarrow> sst \<Rightarrow> sst option" where
  "free_block_of fs k s = map_option snd (sfs_bfree fs (of_nat k) s)"

lemma mounted_at:
  assumes "mounted fs s"
  obtains vol dev d where "vol_at s fs vol dev d" "vol_ok vol d" "replies d = []"
    "file_blocks fs s = {0<..<unat (sb_nblocks (sfs_sb vol))}" "taken_blocks fs s = used_blocks vol \<inter> file_blocks fs s"
  using assms by (auto simp: mounted_def vol_at_def file_blocks_def taken_blocks_def split: option.splits)

lemma mounted_put:
  assumes "vol_at s fs vol dev d" and "vol_ok vol' d'" and "sfs_device vol' = sfs_device vol" and "replies d' = []"
  shows "mounted fs (put_vol fs vol' (put_disk dev d' s))"
    and "file_blocks fs (put_vol fs vol' (put_disk dev d' s)) = {0<..<unat (sb_nblocks (sfs_sb vol'))}"
    and "taken_blocks fs (put_vol fs vol' (put_disk dev d' s)) = used_blocks vol' \<inter> {0<..<unat (sb_nblocks (sfs_sb vol'))}"
  using assms by (simp_all add: mounted_def file_blocks_def taken_blocks_def put_vol_def put_disk_def on_sfs_def vol_at_def)

interpretation blocks: id_source "mounted fs" "file_blocks fs" "taken_blocks fs" "get_block_of fs" "free_block_of fs" for fs
proof unfold_locales
  fix s
  assume m: "mounted fs s"
  show "taken_blocks fs s \<subseteq> file_blocks fs s" by (auto simp: taken_blocks_def split: option.split)
  obtain vol dev d where at: "vol_at s fs vol dev d" and ok: "vol_ok vol d" and q: "replies d = []"
    and fb: "file_blocks fs s = {0<..<unat (sb_nblocks (sfs_sb vol))}" and tb: "taken_blocks fs s = used_blocks vol \<inter> file_blocks fs s"
    using mounted_at [OF m] .
  obtain r vol' d' where R: "sfs_balloc fs s = Some (r, put_vol fs vol' (put_disk dev d' s))" "vol_ok vol' d'"
    "sfs_device vol' = sfs_device vol" "sfs_sb vol' = sfs_sb vol" "replies d' = []"
    "case r of
       Inl e \<Rightarrow> used_blocks vol' = used_blocks vol \<and> sectors d' = sectors d \<and>
         (replies d = [] \<longrightarrow> e = ENOSPC \<and> vol' = vol \<and> d' = d \<and> {..<unat (sb_nblocks (sfs_sb vol))} \<subseteq> used_blocks vol)
     | Inr k \<Rightarrow> unat k \<notin> used_blocks vol \<and> k < sb_nblocks (sfs_sb vol) \<and> k \<noteq> 0 \<and>
         {..<unat k} \<subseteq> used_blocks vol \<and> used_blocks vol' = insert (unat k) (used_blocks vol) \<and>
         (sectors d' = (sectors d)(unat k := replicate SFS_BLOCKSIZE 0) \<or> replies d \<noteq> [] \<and> sectors d' = sectors d)"
    using sfs_balloc_run [OF at ok] q by auto
  show "taken_blocks fs s = file_blocks fs s \<Longrightarrow> get_block_of fs s = Some (None, s)"
  proof (cases r)
    case (Inl e)
    then show ?thesis using R q put_vol_same [OF at] put_disk_same [OF at] by (simp add: get_block_of_def)
  next
    case (Inr k)
    assume "taken_blocks fs s = file_blocks fs s"
    then have "unat k \<notin> {0<..<unat (sb_nblocks (sfs_sb vol))}" using Inr R(6) tb fb by auto
    then show ?thesis using Inr R(6) by (auto simp: word_less_nat_alt unat_eq_zero)
  qed
  show "taken_blocks fs s \<noteq> file_blocks fs s \<Longrightarrow> \<exists>k s'. get_block_of fs s = Some (Some k, s') \<and> mounted fs s' \<and>
      file_blocks fs s' = file_blocks fs s \<and> k \<in> file_blocks fs s \<and> k \<notin> taken_blocks fs s \<and>
      {j \<in> file_blocks fs s. j < k} \<subseteq> taken_blocks fs s \<and> taken_blocks fs s' = insert k (taken_blocks fs s)"
  proof (cases r)
    case (Inl e)
    assume "taken_blocks fs s \<noteq> file_blocks fs s"
    then show ?thesis using Inl R(6) q tb fb by auto
  next
    case (Inr k)
    have k: "unat k \<in> {0<..<unat (sb_nblocks (sfs_sb vol))}" using Inr R(6) by (simp add: word_less_nat_alt unat_gt_0)
    show ?thesis using k Inr R(1,4,6) mounted_put [OF at R(2,3,5)] tb fb
      by (intro exI [of _ "unat k"] exI [of _ "put_vol fs vol' (put_disk dev d' s)"]) (auto simp: get_block_of_def)
  qed
  fix k
  assume k: "k \<in> taken_blocks fs s"
  have kb: "k \<in> used_blocks vol" "0 < k" "k < unat (sb_nblocks (sfs_sb vol))" using k tb fb by auto
  have "k < 2 ^ 32" by (rule less_trans [OF kb(3) unat_lt_32])
  then have u: "unat (of_nat k :: u32) = k" by (simp add: unsigned_of_nat take_bit_nat_eq_self)
  have n0: "(of_nat k :: u32) \<noteq> 0" using u kb(2) by auto
  obtain vol2 where F: "sfs_bfree fs (of_nat k) s = Some (Inr (), put_vol fs vol2 s)" "vol_ok vol2 d"
    "sfs_device vol2 = sfs_device vol" "sfs_sb vol2 = sfs_sb vol" "used_blocks vol2 = used_blocks vol - {k}"
    using sfs_bfree_at [OF at ok, of "of_nat k"] kb u n0 by (auto simp: word_less_nat_alt)
  have p: "put_vol fs vol2 s = put_vol fs vol2 (put_disk dev d s)" by (simp add: put_disk_same [OF at])
  show "\<exists>s'. free_block_of fs k s = Some s' \<and> mounted fs s' \<and> file_blocks fs s' = file_blocks fs s \<and>
      taken_blocks fs s' = taken_blocks fs s - {k}"
    using F(1,4,5) mounted_put [OF at F(2,3) q] tb fb
    by (intro exI [of _ "put_vol fs vol2 (put_disk dev d s)"]) (auto simp: free_block_of_def p)
qed

text \<open>C38: Whatever sequence of allocations (None) and releases is made on a mounted volume, the kernel does not stop,
  and the blocks that are held are distinct and are the blocks in use, the volume staying well-formed.\<close>

theorem sfs_blocks_stay_apart:
  assumes "mounted fs s" and "taken_blocks fs s = set ks" and "distinct ks"
  shows "\<exists>ks' s'. id_source.run (get_block_of fs) (free_block_of fs) rs ks s = Some (ks', s') \<and> mounted fs s' \<and>
    taken_blocks fs s' = set ks' \<and> distinct ks'"
  by (rule blocks.run_held [OF assms])

theorem sfs_blocks_stay_apart_witness:
  "\<exists>held' s'. id_source.run (get_block_of 0) (free_block_of 0) [None, Some 4, None, None] [1, 2, 3, 4, 5] (demo_sst []) =
    Some (held', s') \<and> distinct held'"
proof -
  have m: "mounted 0 (demo_sst [])"
    using demo_vol_ok [of "[]"] by (simp add: mounted_def demo_sst_def demo_vol_def hardware_ok_def demo_disk_def)
  have t: "taken_blocks 0 (demo_sst []) = set [1, 2, 3, 4, 5]"
    by (auto simp: taken_blocks_def file_blocks_def demo_sst_def demo_used) (simp_all add: demo_vol_def)
  show ?thesis using sfs_blocks_stay_apart [OF m t, of "[None, Some 4, None, None]"] by auto
qed

text \<open>C12: The block map: \<^verbatim>\<open>sfs_bmap\<close> reads off the map of the file, 0 for a hole and \<^verbatim>\<open>EFBIG\<close> from block 143 on;
  with \<^verbatim>\<open>doalloc\<close> it fills in exactly the entry asked for, with a cleared block that was in no use before, and
  no other block in use changes but the indirect block of the file. Without a free block the map is as it was.\<close>

theorem sfs_bmap_fills_map:
  assumes "vol_at s fs vol dev d" and "svs (fsdata s) v = Some sv" and "Option.bind (vnodes s v) vn_fs = Some fs"
    and "vol_ok vol d" and "file_ok vol (sv_i sv) d" and "replies d = []"
  shows "sfs_bmap v i False s = Some (if unat i < 143 then Inr (fmap (sv_i sv) d (unat i)) else Inl EFBIG, s) \<and>
    (if unat i < 143 then
       \<exists>r vol' d' sv'. sfs_bmap v i True s = Some (r, sfs_st s fs dev v vol' d' sv') \<and> grown vol d sv vol' d' sv' \<and>
         (case r of
            Inl e \<Rightarrow> e = ENOSPC \<and> {..<unat (sb_nblocks (sfs_sb vol'))} \<subseteq> used_blocks vol' \<and> fmap (sv_i sv') d' = fmap (sv_i sv) d
          | Inr k \<Rightarrow> k \<noteq> 0 \<and> fmap (sv_i sv') d' = (fmap (sv_i sv) d)(unat i := k) \<and>
              (fmap (sv_i sv) d (unat i) = 0 \<longrightarrow> unat k \<notin> used_blocks vol \<and> sectors d' (unat k) = replicate SFS_BLOCKSIZE 0))
     else sfs_bmap v i True s = Some (Inl EFBIG, s))"
proof -
  have h: "in_fs s fs v" and dev: "sfs_device vol = Some dev" using assms(1,3) by (simp_all add: in_fs_def vol_at_def)
  note s = sfs_st_surj [OF assms(1,2)]
  note look = bmap_lookup [OF h dev assms(4-6), of _ i, unfolded s]
  show ?thesis using look [of False] look [of True] bmap_fill [OF h dev assms(4-6), of i, unfolded s] by auto
qed

theorem sfs_bmap_fills_map_witness:
  "\<exists>k vol' d' sv'. sfs_bmap 7 20 True (demo_sst []) = Some (k, sfs_st (demo_sst []) 0 0 7 vol' d' sv')"
  using sfs_bmap_fills_map [OF demo_at demo_file(1,2) demo_vol_ok demo_file_ok, of "[]" 20]
  by (auto simp: hardware_ok_def demo_disk_def)

lemma locked_run:
  assumes "biglock s" and "0 < biglock_depth s" and "biglock s' = biglock s" and "biglock_depth s' = biglock_depth s"
    and "body (s\<lparr>biglock := True, biglock_depth := biglock_depth s + 1\<rparr>) =
      Some (r, s'\<lparr>biglock := True, biglock_depth := biglock_depth s + 1\<rparr>)"
  shows "locked body s = Some (r, s')"
proof -
  have "s'\<lparr>biglock := True, biglock_depth := biglock_depth s\<rparr> = s'" using assms(1,3,4) by (cases s') simp
  then show ?thesis using assms
    by (simp add: locked_def vfs_biglock_acquire_def vfs_biglock_release_def chain_def handle_def modify_def ensure_def give_def)
qed

text \<open>The number of blocks that \<open>n\<close> bytes take.\<close>

lemma blocks_of_length:
  assumes "n < 2 ^ 40"
  shows "unat (of_int (sint (of_nat n + of_nat SFS_BLOCKSIZE - 1 :: 64 word) sdiv int SFS_BLOCKSIZE) :: u32) = (n + 511) div 512"
proof -
  have w: "of_nat n + of_nat SFS_BLOCKSIZE - 1 = (of_nat (n + 511) :: 64 word)" by simp
  have "sint (of_nat (n + 511) :: 64 word) = int (n + 511)"
  proof -
    have "uint (of_nat (n + 511) :: 64 word) = int (n + 511)"
      using assms by (simp add: unsigned_of_nat take_bit_nat_eq_self del: of_nat_add)
    moreover have "int (n + 511) < 2 ^ 63" using assms by simp
    ultimately show ?thesis using sint_small [of "of_nat (n + 511)"] by (simp only:)
  qed
  moreover have "int (n + 511) sdiv int SFS_BLOCKSIZE = int ((n + 511) div 512)"
    by (simp add: signed_divide_int_def sgn_if zdiv_int)
  moreover have "(n + 511) div 512 < 2 ^ 32" using assms by simp
  ultimately show ?thesis unfolding w by (simp add: unsigned_of_nat take_bit_nat_eq_self)
qed

lemma itrunc_run:
  assumes at: "vol_at s fs vol dev d" and sv: "svs (fsdata s) v = Some sv" and vn: "Option.bind (vnodes s v) vn_fs = Some fs"
    and ok: "vol_ok vol d" "file_ok vol (sv_i sv) d" and q: "replies d = []" and depth: "0 < biglock_depth s" and n: "n < 2 ^ 40"
  shows "\<exists>vol' d' sv'. sfs_itrunc v (of_nat n) s = Some (Inr (), sfs_st s fs dev v vol' d' sv') \<and>
    truncated (past_end ((n + 511) div 512)) vol d sv vol' d' sv' \<and> sfi_size (sv_i sv') = of_nat n \<and> sv_dirty sv'"
proof -
  let ?bl = "of_int (sint (of_nat n + of_nat SFS_BLOCKSIZE - 1 :: 64 word) sdiv int SFS_BLOCKSIZE) :: u32"
  let ?n = "ucast (of_nat n :: 64 word) :: u32"
  define s1 where "s1 = s\<lparr>biglock := True, biglock_depth := biglock_depth s + 1\<rparr>"
  have h: "in_fs s1 fs v" and dev: "sfs_device vol = Some dev" using at vn by (simp_all add: in_fs_def vol_at_def s1_def)
  have st: "sfs_st s1 fs dev v a b c = (sfs_st s fs dev v a b c)\<lparr>biglock := True, biglock_depth := biglock_depth s + 1\<rparr>" for a b c
    by (simp add: s1_def sfs_st_def on_sfs_def)
  have u: "unat ?bl = (n + 511) div 512" by (rule blocks_of_length [OF n])
  obtain vol' d' sv' where R: "chain (trunc_direct fs v ?bl [0..<SFS_NDIRECT]) (\<lambda>_. chain (trunc_idblock fs v ?bl) (\<lambda>_.
      upd_sv v (with_size ?n))) (sfs_st s1 fs dev v vol d sv) = Some (Inr (), sfs_st s1 fs dev v vol' d' sv')"
    "truncated (past_end (unat ?bl)) vol d sv vol' d' sv'" "sfi_size (sv_i sv') = ?n" "sv_dirty sv'"
    using trunc_blocks_run [OF h dev ok q, of ?bl ?n] by blast
  have size: "?n = of_nat n" by (rule bit_word_eqI) (simp add: bit_simps)
  have "sfs_itrunc v (of_nat n) s = Some (Inr (), sfs_st s fs dev v vol' d' sv')"
  proof -
    have "chain (the_fs v) g s = g fs s" for g :: "nat \<Rightarrow> (sst, unit) op" by (rule chain_Inr) (simp add: the_fs_def vn)
    moreover have "locked (chain (trunc_direct fs v ?bl [0..<SFS_NDIRECT]) (\<lambda>_. chain (trunc_idblock fs v ?bl) (\<lambda>_.
        upd_sv v (with_size ?n)))) s = Some (Inr (), sfs_st s fs dev v vol' d' sv')"
    proof (rule locked_run)
      show "biglock s" using at by (simp add: vol_at_def)
      show "biglock (sfs_st s fs dev v vol' d' sv') = biglock s" "biglock_depth (sfs_st s fs dev v vol' d' sv') = biglock_depth s"
        by (simp_all add: sfs_st_def on_sfs_def)
    qed (use R(1) depth sfs_st_surj [OF at sv] in \<open>simp_all add: st\<close>)
    ultimately show ?thesis by (simp add: sfs_itrunc_def Let_def with_size_def [abs_def])
  qed
  then show ?thesis using R(2-4) u size by auto
qed

text \<open>C39: Truncation to \<open>n\<close> bytes, \<open>b\<close> blocks rounded up: of the blocks that the inode holds, those from \<open>b\<close> on leave
  the map and the volume, but of those in the indirect block only the ones after \<open>b\<close>: file block \<open>b\<close> is kept,
  off by one, when it is at least 15. The indirect block is freed with its last entry, no other block is freed,
  and the size is stored.\<close>

theorem sfs_itrunc_keeps_one:
  assumes "vol_at s fs vol dev d" and "svs (fsdata s) v = Some sv" and "Option.bind (vnodes s v) vn_fs = Some fs"
    and "vol_ok vol d" and "file_ok vol (sv_i sv) d" and "replies d = []" and "0 < biglock_depth s" and "n < 2 ^ 40"
  shows "\<exists>vol' d' sv'. sfs_itrunc v (of_nat n) s = Some (Inr (), sfs_st s fs dev v vol' d' sv') \<and>
    truncated (past_end ((n + 511) div 512)) vol d sv vol' d' sv' \<and> sfi_size (sv_i sv') = of_nat n \<and> sv_dirty sv'"
  by (rule itrunc_run [OF assms])

theorem sfs_itrunc_keeps_one_witness:
  "\<exists>vol' d' sv'. sfs_itrunc 7 (of_nat 7680) (demo_sst []) = Some (Inr (), sfs_st (demo_sst []) 0 0 7 vol' d' sv') \<and>
    fmap (sv_i sv') d' 15 = 5"
proof -
  have q: "vol_ok demo_vol (demo_disk [])" "replies (demo_disk []) = []" "0 < biglock_depth (demo_sst [])"
    using demo_vol_ok [of "[]"] by (simp_all add: hardware_ok_def demo_disk_def demo_sst_def)
  have "(7680 + 511) div 512 = (15 :: nat)" by simp
  then obtain vol' d' sv' where r: "sfs_itrunc 7 (of_nat 7680) (demo_sst []) = Some (Inr (), sfs_st (demo_sst []) 0 0 7 vol' d' sv')"
    "truncated (past_end 15) demo_vol (demo_disk []) demo_sv vol' d' sv'"
    using sfs_itrunc_keeps_one [OF demo_at demo_file(1,2) q(1) demo_file_ok q(2,3), of 7680] by auto
  have "fmap (sv_i sv') d' 15 = 5"
    using r(2) by (simp add: truncated_def cleared_def past_end_def demo_fmap demo_sv_def)
  then show ?thesis using r(1) by blast
qed

lemma mount_failed_stops: "vols (fsdata s) fs = Some vol \<Longrightarrow> sfs_device vol \<noteq> None \<Longrightarrow> mount_failed fs e s = None"
  by (auto simp: mount_failed_def sfs_fs_destroy_def chain_def handle_def the_vol_def lift_option_def panic_def succeed_def
      ensure_def split: option.splits)

lemma locked_stops: "body (s\<lparr>biglock := True, biglock_depth := biglock_depth s + 1\<rparr>) = None \<Longrightarrow> locked body s = None"
  by (simp add: locked_def vfs_biglock_acquire_def chain_def handle_def modify_def)

text \<open>A volume that is not an SFS volume stops the kernel when it is mounted: the error path of \<^verbatim>\<open>sfs_domount\<close>
  calls \<^verbatim>\<open>sfs_fs_destroy\<close>, which asserts that \<^verbatim>\<open>sfs_device\<close> is \<^verbatim>\<open>NULL\<close>, but the mount has set it.\<close>

theorem sfs_domount_bad_magic:
  assumes "d_blocksize (devs dev) = of_nat SFS_BLOCKSIZE" and "disks (fsdata s) dev = Some d"
    and "sectors_ok d" and "0 < d_nsect d" and "replies d = []" and "sb_magic (read_super (sectors d 0)) \<noteq> SFS_MAGIC"
  shows "sfs_domount devs (Some fs) True m1 m2 junk dev s = None"
proof -
  define s1 where "s1 = s\<lparr>biglock := True, biglock_depth := biglock_depth s + 1\<rparr>"
  let ?v0 = "\<lparr>sfs_sb = junk, sfs_superdirty = False, sfs_device = None, sfs_vnodes = array_init,
    sfs_freemap = None, sfs_freemapdirty = False\<rparr>"
  let ?v1 = "?v0\<lparr>sfs_device := Some dev\<rparr>" and ?sb = "read_super (sectors d 0)"
  have create: "sfs_fs_create (Some fs) True junk s1 = Some (Inr (Some fs), put_vol fs ?v0 s1)"
    by (simp add: sfs_fs_create_def array_create_def chain_def handle_def modify_def succeed_def put_vol_def)
  have dev: "upd_vol fs (\<lambda>x. x\<lparr>sfs_device := Some dev\<rparr>) (put_vol fs ?v0 s1) = Some (Inr (), put_vol fs ?v1 s1)"
    by (simp add: upd_vol_def the_vol_def chain_def handle_def modify_def put_vol_def on_sfs_def)
  have at: "vol_at (put_vol fs ?v1 s1) fs ?v1 dev d"
    using assms(2) by (simp add: vol_at_def put_vol_def on_sfs_def s1_def)
  have read: "sfs_readblock fs SFS_SUPER_BLOCK (put_vol fs ?v1 s1) = Some (Inr (sectors d 0), put_vol fs ?v1 s1)"
    using sfs_readblock_quiet [OF at assms(3,4,5)] by simp
  have stop: "mount_failed fs EINVAL (put_vol fs (?v1\<lparr>sfs_sb := ?sb\<rparr>) s1) = None"
    by (rule mount_failed_stops [where vol = "?v1\<lparr>sfs_sb := ?sb\<rparr>"]) (simp_all add: put_vol_def on_sfs_def)
  have "chain (upd_vol fs (\<lambda>x. x\<lparr>sfs_sb := ?sb\<rparr>)) g (put_vol fs ?v1 s1) = g () (put_vol fs (?v1\<lparr>sfs_sb := ?sb\<rparr>) s1)"
    for g :: "unit \<Rightarrow> (sst, nat) op" by (rule trans [OF chain_upd_vol [OF at]]) simp
  then show ?thesis unfolding sfs_domount_def
    by (intro locked_stops, fold s1_def)
      (use assms(1,6) create dev read stop in \<open>simp add: chain_Inr handle_at Let_def\<close>)
qed

theorem sfs_domount_bad_magic_witness:
  "sfs_domount (\<lambda>_. \<lparr>d_blocks = 32, d_blocksize = 512\<rparr>) (Some 1) True True True (sfs_sb demo_vol) 0 (demo_sst []) = None"
proof (rule sfs_domount_bad_magic [where d = "demo_disk []"])
  have "words_of_bytes (replicate 512 0) = replicate 128 0" using words_of_zeros [of 128] by simp
  then show "sb_magic (read_super (sectors (demo_disk []) 0)) \<noteq> SFS_MAGIC" by (simp add: read_super_def demo_disk_def)
qed (simp_all add: demo_sst_def demo_disk_def sectors_ok_def)

end
