(* ===== verification/Exec.thy ===== *)
theory Exec
  imports Trap
begin

text \<open>
  Loading and running a program: \<^verbatim>\<open>syscall/loadelf.c\<close>, \<^verbatim>\<open>syscall/execv.c\<close> and \<^verbatim>\<open>syscall/runprogram.c\<close>.

  The local variables of the kernel that are read into or copied from have addresses, and so have the blocks of
  \<^verbatim>\<open>kmalloc\<close>: both come from an environment. The program in user mode and its memory change with the address
  space in use: \<open>enter_space\<close> puts in the user half of memory what the pages of the new one hold.

  The two halves of memory are kept apart: a page of the program also shows in the kernel's segment at the address of its
  frame, and this second view of it is left out. So is the TLB, which \<^verbatim>\<open>as_activate\<close> empties; \<^verbatim>\<open>as_destroy\<close> is a \<^verbatim>\<open>kfree\<close>.

  A user address that the kernel follows itself, without \<^verbatim>\<open>copyin\<close>, stops the kernel where it faults.
\<close>

section \<open>ELF headers: \<^verbatim>\<open>elf.h\<close>\<close>

record elf_ehdr =
  e_ident :: "u8 list"
  e_type :: u16
  e_machine :: u16
  e_version :: u32
  e_entry :: u32
  e_phoff :: u32
  e_shoff :: u32
  e_flags :: u32
  e_ehsize :: u16
  e_phentsize :: u16
  e_phnum :: u16
  e_shentsize :: u16
  e_shnum :: u16
  e_shstrndx :: u16

record elf_phdr =
  p_type :: u32
  p_offset :: u32
  p_vaddr :: u32
  p_paddr :: u32
  p_filesz :: u32
  p_memsz :: u32
  p_flags :: u32
  p_align :: u32

abbreviation (input) EHDR_SIZE :: u32 where "EHDR_SIZE \<equiv> 52"
abbreviation (input) PHDR_SIZE :: u32 where "PHDR_SIZE \<equiv> 32"
abbreviation (input) PT_NULL :: u32 where "PT_NULL \<equiv> 0"
abbreviation (input) PT_LOAD :: u32 where "PT_LOAD \<equiv> 1"
abbreviation (input) PT_PHDR :: u32 where "PT_PHDR \<equiv> 6"
abbreviation (input) PT_MIPS_REGINFO :: u32 where "PT_MIPS_REGINFO \<equiv> 0x70000000"
abbreviation (input) PF_R :: u32 where "PF_R \<equiv> 4"
abbreviation (input) PF_W :: u32 where "PF_W \<equiv> 2"
abbreviation (input) PF_X :: u32 where "PF_X \<equiv> 1"

definition half_at :: "u32 \<Rightarrow> bytes \<Rightarrow> u16" where
  "half_at a m = push_bit 8 (ucast (m a)) OR ucast (m (a + 1))"

definition ehdr_at :: "u32 \<Rightarrow> bytes \<Rightarrow> elf_ehdr" where
  "ehdr_at a m = \<lparr>e_ident = map (\<lambda>i. m (a + of_nat i)) [0..<16], e_type = half_at (a + 16) m,
     e_machine = half_at (a + 18) m, e_version = word_at (a + 20) m, e_entry = word_at (a + 24) m,
     e_phoff = word_at (a + 28) m, e_shoff = word_at (a + 32) m, e_flags = word_at (a + 36) m,
     e_ehsize = half_at (a + 40) m, e_phentsize = half_at (a + 42) m, e_phnum = half_at (a + 44) m,
     e_shentsize = half_at (a + 46) m, e_shnum = half_at (a + 48) m, e_shstrndx = half_at (a + 50) m\<rparr>"

definition phdr_at :: "u32 \<Rightarrow> bytes \<Rightarrow> elf_phdr" where
  "phdr_at a m = \<lparr>p_type = word_at a m, p_offset = word_at (a + 4) m, p_vaddr = word_at (a + 8) m,
     p_paddr = word_at (a + 12) m, p_filesz = word_at (a + 16) m, p_memsz = word_at (a + 20) m,
     p_flags = word_at (a + 24) m, p_align = word_at (a + 28) m\<rparr>"

text \<open>A 32-bit ELF version 1 executable for this processor.\<close>

definition executable_header :: "elf_ehdr \<Rightarrow> bool" where
  "executable_header eh \<longleftrightarrow>
     e_ident eh ! 0 = 0x7f \<and> e_ident eh ! 1 = 0x45 \<and> e_ident eh ! 2 = 0x4c \<and> e_ident eh ! 3 = 0x46 \<and>
     e_ident eh ! 4 = 1 \<and> e_ident eh ! 5 = 2 \<and> e_ident eh ! 6 = 1 \<and> e_version eh = 1 \<and>
     e_type eh = 2 \<and> e_machine eh = 8"

section \<open>The environment\<close>

text \<open>\<open>xe_eh\<close> and \<open>xe_ph\<close>: the locals of \<^verbatim>\<open>load_elf\<close>. \<open>xe_table n\<close>: the entries that fit in the block of
  \<^verbatim>\<open>kmalloc(n)\<close>, with what they hold; none when there is no block. \<open>xe_as\<close>: the new structure, \<open>xe_name\<close> the copy of the
  name, \<open>xe_argv\<close> the array \<^verbatim>\<open>args_copy\<close>, \<open>xe_copy i n\<close> the block of the copy of argument \<open>i\<close>, \<open>xe_ptrs\<close> the array
  \<^verbatim>\<open>arg_pointers\<close>; 0 is \<^verbatim>\<open>NULL\<close>. \<open>xe_pages\<close>: what the pages of the new address space hold. \<open>xe_prot\<close> and
  \<open>xe_new_prot\<close>: what may be touched under the old and the new address space.\<close>

record exec_env =
  xe_prot :: prot
  xe_new_prot :: prot
  xe_eh :: u32
  xe_ph :: u32
  xe_table :: "u32 \<Rightarrow> pte list"
  xe_as :: "addrspace option"
  xe_name :: "u32 \<Rightarrow> u32 option"
  xe_argv :: u32
  xe_copy :: "nat \<Rightarrow> u32 \<Rightarrow> u32"
  xe_ptrs :: u32
  xe_pages :: bytes

text \<open>The address space of the process, by reference; with no address space the pointer is null.\<close>

definition get_as :: "('f psys, addrspace) op" where
  "get_as = (\<lambda>s. map_option (\<lambda>as. (Inr as, s)) (proc_getas s))"

definition put_as :: "addrspace option \<Rightarrow> ('f psys, unit) op" where
  "put_as as = (\<lambda>s. map_option (\<lambda>x. (Inr (), snd x)) (proc_setas as s))"

definition step_as :: "(addrspace \<Rightarrow> addrspace option) \<Rightarrow> ('f psys, unit) op" where
  "step_as f = chain get_as (\<lambda>as. case f as of None \<Rightarrow> panic | Some as1 \<Rightarrow> put_as (Some as1))"

definition need_some :: "'a option \<Rightarrow> ('f psys, 'a) op" where
  "need_some x = (case x of None \<Rightarrow> panic | Some y \<Rightarrow> succeed y)"

section \<open>\<^verbatim>\<open>loadelf.c\<close>\<close>

text \<open>Reading a structure into a local variable; a short read is an error.\<close>

definition read_struct :: "'f fsops \<Rightarrow> nat \<Rightarrow> u32 \<Rightarrow> u32 \<Rightarrow> 64 word \<Rightarrow> ('f psys, unit) op" where
  "read_struct F v addr len pos =
     chain (on_files (on_vfs (vop v (vop_read F v (uio_kinit addr len pos UIO_READ))))) (\<lambda>u.
     if uio_resid u \<noteq> 0 then fail ENOEXEC else succeed ())"

text \<open>\<^verbatim>\<open>eh.e_phoff + i*eh.e_phentsize\<close>, in 32 bits.\<close>

definition phdr_position :: "elf_ehdr \<Rightarrow> nat \<Rightarrow> 64 word" where
  "phdr_position eh i = ucast (e_phoff eh + of_nat i * ucast (e_phentsize eh))"

definition read_phdr :: "'f fsops \<Rightarrow> exec_env \<Rightarrow> nat \<Rightarrow> elf_ehdr \<Rightarrow> nat \<Rightarrow> ('f psys, elf_phdr) op" where
  "read_phdr F E v eh i =
     chain (read_struct F v (xe_ph E) PHDR_SIZE (phdr_position eh i)) (\<lambda>_. gets (\<lambda>s. phdr_at (xe_ph E) (kernel_bytes s)))"

definition skipped_type :: "u32 \<Rightarrow> bool" where
  "skipped_type t \<longleftrightarrow> t = PT_NULL \<or> t = PT_PHDR \<or> t = PT_MIPS_REGINFO"

definition load_segment :: "'f fsops \<Rightarrow> nat \<Rightarrow> u32 \<Rightarrow> u32 \<Rightarrow> u32 \<Rightarrow> u32 \<Rightarrow> bool \<Rightarrow> ('f psys, unit) op" where
  "load_segment F v offset vaddr memsize filesize is_executable =
     (let filesize = (if filesize > memsize then memsize else filesize) in
      chain (gets curproc) (\<lambda>cur.
      chain (on_files (on_vfs (vop v (vop_read F v
        \<lparr>uio_iov = [\<lparr>iov_base = vaddr, iov_len = memsize\<rparr>], uio_iovcnt = 1, uio_offset = ucast offset,
         uio_resid = filesize, uio_segflg = (if is_executable then UIO_USERISPACE else UIO_USERSPACE),
         uio_rw = UIO_READ, uio_space = cur\<rparr>)))) (\<lambda>u.
      if uio_resid u \<noteq> 0 then fail ENOEXEC else succeed ())))"

text \<open>The size in bytes asked for the table: one entry less than there are headers, of 20 bytes each. The loop over
  the headers clears one entry more. It falls into what is left of the block, and is not read again, or the store
  is outside the block; that stops the kernel here.\<close>

definition table_bytes :: "elf_ehdr \<Rightarrow> u32" where
  "table_bytes eh = of_int (20 * (int (unat (e_phnum eh)) - 1))"

definition clear_entry :: "exec_env \<Rightarrow> elf_ehdr \<Rightarrow> nat \<Rightarrow> addrspace \<Rightarrow> addrspace option" where
  "clear_entry E eh i as =
     (if i < length (page_table as) then
        Some (as\<lparr>page_table := (page_table as)[i := (page_table as ! i)
          \<lparr>as_vbase := 0, as_pbase := 0, as_npages := 0, temp_privilege := 0, final_privilege := 0\<rparr>]\<rparr>)
      else if i < length (xe_table E (table_bytes eh)) then Some as
      else None)"

text \<open>The first loop: setting up the segments.\<close>

primrec define_segments :: "'f fsops \<Rightarrow> exec_env \<Rightarrow> nat \<Rightarrow> elf_ehdr \<Rightarrow> nat list \<Rightarrow> ('f psys, unit) op" where
  "define_segments F E v eh [] = succeed ()"
| "define_segments F E v eh (i # is) =
     chain (step_as (clear_entry E eh i)) (\<lambda>_.
     chain (read_phdr F E v eh i) (\<lambda>ph.
     if skipped_type (p_type ph) then define_segments F E v eh is
     else if p_type ph \<noteq> PT_LOAD then fail ENOEXEC
     else
       chain (step_as (as_define_region (p_vaddr ph) (p_memsz ph) (uint (p_flags ph AND PF_R))
                (uint (p_flags ph AND PF_W)) (uint (p_flags ph AND PF_X)))) (\<lambda>_.
       define_segments F E v eh is)))"

text \<open>The second: filling them.\<close>

primrec load_segments :: "'f fsops \<Rightarrow> exec_env \<Rightarrow> nat \<Rightarrow> elf_ehdr \<Rightarrow> nat list \<Rightarrow> ('f psys, unit) op" where
  "load_segments F E v eh [] = succeed ()"
| "load_segments F E v eh (i # is) =
     chain (read_phdr F E v eh i) (\<lambda>ph.
     if skipped_type (p_type ph) then load_segments F E v eh is
     else if p_type ph \<noteq> PT_LOAD then fail ENOEXEC
     else
       chain (load_segment F v (p_offset ph) (p_vaddr ph) (p_memsz ph) (p_filesz ph) (p_flags ph AND PF_X \<noteq> 0)) (\<lambda>_.
       load_segments F E v eh is))"

definition prepare_load :: "exec_env \<Rightarrow> ('f psys, unit) op" where
  "prepare_load E =
     chain get_as (\<lambda>as s.
     case as_prepare_load (xe_prot E) as (frames s) (kernel_bytes s) of
       None \<Rightarrow> None
     | Some (r, as1, c, m) \<Rightarrow>
         chain (put_as (Some as1)) (\<lambda>_. give r) (set_kernel_bytes m (s\<lparr>frames := c\<rparr>)))"

definition make_table :: "exec_env \<Rightarrow> elf_ehdr \<Rightarrow> addrspace \<Rightarrow> addrspace option" where
  "make_table E eh as =
     (let n = int (unat (e_phnum eh)) - 1 in
      Some (as\<lparr>no_of_segments := n, page_table := take (nat n) (xe_table E (table_bytes eh))\<rparr>))"

definition load_elf :: "'f fsops \<Rightarrow> exec_env \<Rightarrow> nat \<Rightarrow> ('f psys, u32) op" where
  "load_elf F E v =
     chain (read_struct F v (xe_eh E) EHDR_SIZE 0) (\<lambda>_.
     chain (gets (\<lambda>s. ehdr_at (xe_eh E) (kernel_bytes s))) (\<lambda>eh.
     if \<not> executable_header eh then fail ENOEXEC
     else
       chain (step_as (make_table E eh)) (\<lambda>_.
       chain (define_segments F E v eh [0..<unat (e_phnum eh)]) (\<lambda>_.
       chain (prepare_load E) (\<lambda>_.
       chain (load_segments F E v eh [0..<unat (e_phnum eh)]) (\<lambda>_.
       chain (step_as as_complete_load) (\<lambda>_. succeed (e_entry eh))))))))"

section \<open>\<^verbatim>\<open>execv.c\<close>\<close>

text \<open>A word and a string at an address that is simply followed.\<close>

definition raw_word :: "prot \<Rightarrow> u32 \<Rightarrow> bytes \<Rightarrow> u32 option" where
  "raw_word p a m = do {
     kassert (a AND 3 = 0);
     kassert (list_all (\<lambda>k. can_read p (a + k)) [0, 1, 2, 3]);
     Some (word_at a m)
   }"

definition raw_strlen :: "prot \<Rightarrow> u32 \<Rightarrow> bytes \<Rightarrow> u32 option" where
  "raw_strlen p a m = do {
     n \<leftarrow> strlen m a;
     kassert (list_all (\<lambda>k. can_read p (a + of_nat k)) [0..<Suc (unat n)]);
     Some n
   }"

text \<open>The loop that counts the arguments goes round until it meets a null pointer.\<close>

partial_function (option) count_args :: "prot \<Rightarrow> u32 \<Rightarrow> bytes \<Rightarrow> nat \<Rightarrow> nat option" where
  "count_args p args m argc =
     (case raw_word p (args + 4 * of_nat argc) m of
        None \<Rightarrow> None
      | Some w \<Rightarrow> if w = 0 then Some argc else count_args p args m (argc + 1))"

definition name_of :: "u32 \<Rightarrow> u32 \<Rightarrow> bytes \<Rightarrow> string" where
  "name_of a n m = map (\<lambda>i. char_of (unat (m (a + of_nat i)))) [0..<unat n]"

text \<open>\<^verbatim>\<open>kstrdup\<close> and \<^verbatim>\<open>vfs_open\<close>.\<close>

definition open_program :: "'f fsops \<Rightarrow> exec_env \<Rightarrow> u32 \<Rightarrow> ('f psys, nat) op" where
  "open_program F E progname =
     chain (gets (\<lambda>s. raw_strlen (xe_prot E) progname (kernel_bytes s))) (\<lambda>n.
     chain (need_some n) (\<lambda>n.
     chain (gets (\<lambda>s. kstrdup (xe_name E) progname (kernel_bytes s))) (\<lambda>r.
     chain (need_some r) (\<lambda>(z, m).
     chain (need_some z) (\<lambda>z.
     chain (modify (set_kernel_bytes m)) (\<lambda>_.
     on_files (on_vfs (vfs_open F (name_of z n m) O_RDONLY 0))))))))"

text \<open>The copies of the arguments; the result of \<^verbatim>\<open>copyinstr\<close> is not looked at.\<close>

primrec copy_args :: "exec_env \<Rightarrow> u32 \<Rightarrow> nat list \<Rightarrow> ('f psys, u32 list) op" where
  "copy_args E args [] = succeed []"
| "copy_args E args (i # is) =
     chain (gets (\<lambda>s. raw_word (xe_prot E) (args + 4 * of_nat i) (kernel_bytes s))) (\<lambda>a.
     chain (need_some a) (\<lambda>a.
     chain (gets (\<lambda>s. raw_strlen (xe_prot E) a (kernel_bytes s))) (\<lambda>n.
     chain (need_some n) (\<lambda>n.
     chain (ensure (\<lambda>_. xe_argv E \<noteq> 0)) (\<lambda>_.
     handle (on_files (on_vfs (on_user (copyinstr (xe_prot E) a (xe_copy E i (n + 1)) (n + 1))))) (\<lambda>_.
     chain (copy_args E args is) (\<lambda>rest. succeed (xe_copy E i (n + 1) # rest))))))))"

definition enter_space :: "exec_env \<Rightarrow> ('f psys, unit) op" where
  "enter_space E = modify (\<lambda>s. set_kernel_bytes (\<lambda>a. if a < USERSPACETOP then xe_pages E a else kernel_bytes s a) s)"

definition store_kernel :: "exec_env \<Rightarrow> u32 \<Rightarrow> u32 \<Rightarrow> ('f psys, unit) op" where
  "store_kernel E a w =
     chain (gets (\<lambda>s. store_word (xe_new_prot E) a w (kernel_bytes s))) (\<lambda>m.
     chain (need_some m) (\<lambda>m. modify (set_kernel_bytes m)))"

text \<open>Onto the stack, from the last argument to the first: each string under the one before, its address into
  \<^verbatim>\<open>arg_pointers\<close>.\<close>

primrec push_args :: "exec_env \<Rightarrow> u32 list \<Rightarrow> nat list \<Rightarrow> u32 \<Rightarrow> ('f psys, u32) op" where
  "push_args E copies [] stackptr = succeed stackptr"
| "push_args E copies (i # is) stackptr =
     chain (gets (\<lambda>s. raw_strlen (xe_new_prot E) (copies ! i) (kernel_bytes s))) (\<lambda>n.
     chain (need_some n) (\<lambda>n.
     let len = n + 1; stackptr = stackptr - len in
     chain (store_kernel E (xe_ptrs E + 4 * of_nat i) stackptr) (\<lambda>_.
     chain (on_files (on_vfs (on_user (copyoutstr (xe_new_prot E) (copies ! i) stackptr len)))) (\<lambda>_.
     push_args E copies is stackptr))))"

text \<open>The array of pointers under the strings, at a multiple of 8; the result of \<^verbatim>\<open>copyout\<close> is not looked at.\<close>

definition push_argv :: "exec_env \<Rightarrow> nat \<Rightarrow> u32 \<Rightarrow> ('f psys, u32) op" where
  "push_argv E argc stackptr =
     chain (store_kernel E (xe_ptrs E + 4 * of_nat argc) 0) (\<lambda>_.
     let sz = (of_nat argc + 1) * 4;
         stackptr = stackptr - sz;
         align_value = stackptr mod 8;
         stackptr = stackptr - align_value in
     handle (on_files (on_vfs (on_user (copyout (xe_new_prot E) (xe_ptrs E) stackptr sz)))) (\<lambda>_.
     succeed stackptr))"

definition push_block :: "exec_env \<Rightarrow> u32 list \<Rightarrow> nat \<Rightarrow> u32 \<Rightarrow> ('f psys, u32) op" where
  "push_block E copies argc stackptr =
     chain (push_args E copies (rev [0..<argc]) stackptr) (push_argv E argc)"

text \<open>The load, then closing the file in either case.\<close>

definition load_and_close :: "'f fsops \<Rightarrow> exec_env \<Rightarrow> nat \<Rightarrow> ('f psys, u32) op" where
  "load_and_close F E v =
     handle (load_elf F E v) (\<lambda>r. handle (on_files (on_vfs (vfs_close F v))) (\<lambda>_. give r))"

definition define_stack :: "('f psys, u32) op" where
  "define_stack = chain get_as (\<lambda>as. need_some (as_define_stack as))"

definition go_to_user :: "u32 \<Rightarrow> u32 \<Rightarrow> u32 \<Rightarrow> u32 \<Rightarrow> u32 \<Rightarrow> ('f psys, trapframe) op" where
  "go_to_user argc argv env stack start =
     (\<lambda>s. map_option (\<lambda>(tf, s1). (Inr tf, s1)) (enter_new_process argc argv env stack start s))"

definition sys_execv :: "'f fsops \<Rightarrow> exec_env \<Rightarrow> u32 \<Rightarrow> u32 \<Rightarrow> ('f psys, trapframe) op" where
  "sys_execv F E progname args =
     chain (gets (\<lambda>s. if args = 0 then Some 0 else count_args (xe_prot E) args (kernel_bytes s) 0)) (\<lambda>argc.
     chain (need_some argc) (\<lambda>argc.
     let new_as = as_create (xe_as E) in
     chain (open_program F E progname) (\<lambda>v.
     chain (copy_args E args [0..<argc]) (\<lambda>copies.
     chain (put_as new_as) (\<lambda>_.
     chain (enter_space E) (\<lambda>_.
     chain (load_and_close F E v) (\<lambda>entrypoint.
     chain define_stack (\<lambda>stackptr.
     chain (push_block E copies argc stackptr) (\<lambda>stackptr.
     go_to_user (of_nat argc) stackptr stackptr stackptr entrypoint)))))))))"

section \<open>\<^verbatim>\<open>runprogram.c\<close>\<close>

text \<open>\<open>new\<close> and \<open>lock\<close> are what \<^verbatim>\<open>kmalloc\<close> gives to each of the three open files.\<close>

definition curtable :: "('f psys, nat) op" where
  "curtable = chain (gets (\<lambda>s. Option.bind (Option.bind (curproc s) (procs s)) p_filetable)) need_some"

definition placed_open :: "'f fsops \<Rightarrow> nat option \<Rightarrow> bool \<Rightarrow> string \<Rightarrow> u32 \<Rightarrow> int \<Rightarrow> ('f psys, unit) op" where
  "placed_open F new lock path openflags fd =
     chain (ensure (\<lambda>_. length path < 32)) (\<lambda>_.
     chain (on_files (openfile_open F new lock path openflags 436)) (\<lambda>newfile.
     chain curtable (\<lambda>ft.
     chain (on_files (filetable_placeat ft (Some newfile) fd)) (\<lambda>oldfile.
     ensure (\<lambda>_. oldfile = None)))))"

definition open_stdfds :: "'f fsops \<Rightarrow> (nat \<Rightarrow> nat option) \<Rightarrow> (nat \<Rightarrow> bool) \<Rightarrow> string \<Rightarrow> string \<Rightarrow> string \<Rightarrow> ('f psys, unit) op" where
  "open_stdfds F new lock inpath outpath errpath =
     chain (placed_open F (new 0) (lock 0) inpath O_RDONLY 0) (\<lambda>_.
     chain (placed_open F (new 1) (lock 1) outpath O_WRONLY 1) (\<lambda>_.
     placed_open F (new 2) (lock 2) errpath O_WRONLY 2))"

text \<open>The three descriptors of a process that has no file table yet.\<close>

definition give_table :: "'f fsops \<Rightarrow> bool \<Rightarrow> (nat \<Rightarrow> nat option) \<Rightarrow> (nat \<Rightarrow> bool) \<Rightarrow> ('f psys, unit) op" where
  "give_table F mem new lock =
     chain (gets (\<lambda>s. Option.bind (Option.bind (curproc s) (procs s)) p_filetable)) (\<lambda>ft.
     if ft \<noteq> None then succeed ()
     else
       chain (on_files (filetable_create mem)) (\<lambda>ft.
       chain (\<lambda>s. map_option (Pair (Inr ())) (Option.bind (curproc s) (\<lambda>p. upd_proc p (\<lambda>pr. pr\<lparr>p_filetable := ft\<rparr>) s))) (\<lambda>_.
       if ft = None then fail ENOMEM else open_stdfds F new lock ''con:'' ''con:'' ''con:'')))"

definition close_on_error :: "'f fsops \<Rightarrow> nat \<Rightarrow> ('f psys, 'a) op \<Rightarrow> ('f psys, 'a) op" where
  "close_on_error F v f =
     handle f (\<lambda>r. case r of
       Inl e \<Rightarrow> handle (on_files (on_vfs (vfs_close F v))) (\<lambda>_. fail e)
     | Inr x \<Rightarrow> succeed x)"

definition runprogram ::
  "'f fsops \<Rightarrow> exec_env \<Rightarrow> bool \<Rightarrow> (nat \<Rightarrow> nat option) \<Rightarrow> (nat \<Rightarrow> bool) \<Rightarrow> string \<Rightarrow> ('f psys, trapframe) op" where
  "runprogram F E mem new lock progname =
     chain (on_files (on_vfs (vfs_open F progname O_RDONLY 0))) (\<lambda>v.
     chain (ensure (\<lambda>s. proc_getas s = None)) (\<lambda>_.
     chain (close_on_error F v (give_table F mem new lock)) (\<lambda>_.
     chain (close_on_error F v (case as_create (xe_as E) of None \<Rightarrow> fail ENOMEM | Some as \<Rightarrow> succeed as)) (\<lambda>as.
     chain (put_as (Some as)) (\<lambda>_.
     chain (enter_space E) (\<lambda>_.
     chain (load_and_close F E v) (\<lambda>entrypoint.
     chain define_stack (\<lambda>stackptr.
     go_to_user 0 0 0 stackptr entrypoint))))))))"

end
