(* ===== verification/Exec_Facts.thy ===== *)
theory Exec_Facts
  imports Exec
begin

text \<open>
  What loading and running a program promises: the argument block on the stack of the new program, the segments
  that an executable gets, and what is left of the old program when the load fails.
\<close>

section \<open>Operations on the memory\<close>

lemma chain_succeed: "chain (succeed x) g = g x"
  by (simp add: chain_def handle_def succeed_def fun_eq_iff)

lemma chain_gets: "chain (gets f) g s = g (f s) s"
  by (simp add: chain_def handle_def gets_def)

lemma chain_modify: "chain (modify f) g s = g () (f s)"
  by (simp add: chain_def handle_def modify_def)

lemma need_some_Some [simp]: "need_some (Some x) = succeed x"
  by (simp add: need_some_def)

lemma kernel_bytes_put [simp]:
  "kernel_bytes (set_kernel_bytes m s) = m" "set_kernel_bytes m' (set_kernel_bytes m s) = set_kernel_bytes m' s"
  by (simp_all add: kernel_bytes_def set_kernel_bytes_def Let_def)

definition clean :: "'f psys \<Rightarrow> bool" where
  "clean s \<longleftrightarrow> \<not> badfault (user (vfs_of (files s)))"

lemma clean_set [simp]: "clean (set_kernel_bytes m s) = clean s"
  by (simp add: clean_def set_kernel_bytes_def Let_def)

lemma user_copy:
  assumes "f (user (vfs_of (files s))) = (r, (user (vfs_of (files s)))\<lparr>bytes_of := m\<rparr>)"
  shows "on_files (on_vfs (on_user f)) s = Some (r, set_kernel_bytes m s)"
  using assms by (simp add: on_files_def on_vfs_def on_user_def set_kernel_bytes_def Let_def)

lemma store_kernel_run:
  assumes "store_word (xe_new_prot E) a w (kernel_bytes s) = Some m"
  shows "store_kernel E a w s = Some (Inr (), set_kernel_bytes m s)"
  using assms by (simp add: store_kernel_def chain_gets chain_succeed modify_def)

text \<open>\<^verbatim>\<open>copyoutstr\<close> with exactly the room for the string.\<close>

lemma copyoutstr_string:
  assumes acc: "\<forall>k \<le> n. can_read p (src + of_nat k) \<and> can_write p (d + of_nat k)"
    and str: "\<forall>k < n. bytes_of m (src + of_nat k) \<noteq> 0" "bytes_of m (src + of_nat n) = 0"
    and src: "2 ^ 31 \<le> unat src" "unat src + n + 1 \<le> 2 ^ 32" and d: "unat d + n + 1 \<le> 2 ^ 31"
    and "\<not> badfault m"
  shows "copyoutstr p src d (of_nat (n + 1)) m = (Inr (n + 1), m\<lparr>bytes_of := moved d src (of_nat (n + 1)) (bytes_of m)\<rparr>)"
proof -
  let ?len = "of_nat (n + 1) :: u32"
  have n: "n < 2 ^ 32" "n + 1 < 2 ^ 32" "unat ?len = n + 1" "?len \<noteq> 0" 
    using d by (simp_all add: unat_of_nat_small flip: unat_eq_zero del: of_nat_Suc of_nat_add)
  have t: "unat (d + ?len - 1) = unat d + n"
    using unat_block_top [OF n(4), of d] n(3) d by simp
  then have chk: "copycheck d ?len = Inr ?len"
    using d by (auto simp: copycheck_def Let_def word_less_nat_alt word_le_nat_alt)
  have apart: "n < unat (src + of_nat k - d)" if "k \<le> n" for k
  proof -
    have sk: "unat (src + of_nat k) = unat src + k" by (rule unat_add_small) (use src(2) that in simp)
    then have "d \<le> src + of_nat k" using src(1) d by (simp add: word_le_nat_alt)
    then have "unat (src + of_nat k - d) = unat src + k - unat d" using sk by (simp add: unat_sub)
    then show ?thesis using src(1) d by simp
  qed
  have lim: "unat (min ?len ?len) = n + 1" using n(3) by (simp only: min.idem)
  have "copystr_loop p d src [0..<unat (min ?len ?len)] (seg d src 0 0 (bytes_of m)) =
      Inr (Some (n + 1), seg d src 0 (n + 1) (bytes_of m))"
    unfolding lim using copystr_loop_finds [OF acc str _ n(1), of "n + 1" 0] apart by simp
  moreover have "seg d src 0 0 b = b" for b by (simp add: seg_def)
  moreover have "seg d src 0 (n + 1) b = moved d src ?len b" for b
    using seg_moved [of d src ?len b] n(3) by simp
  ultimately show ?thesis using chk assms(7)
    by (simp add: copyoutstr_def copystr_def recovering_alt returned_def)
qed

lemma cstr_cong: "cstr m a s \<Longrightarrow> (\<And>k. k \<le> length s \<Longrightarrow> m' (a + of_nat k) = m (a + of_nat k)) \<Longrightarrow> cstr m' a s"
  by (simp add: cstr_def)


lemma moved_out:
  assumes "unat d + n \<le> 2 ^ 32" and "n < 2 ^ 32" and "unat a < unat d \<or> unat d + n \<le> unat a"
  shows "moved d src (of_nat n) m a = m a"
proof -
  have "unat (of_nat n :: u32) = n" using assms(2) by (rule unat_of_nat_small)
  then have "\<not> a - d < of_nat n"
    using assms(1,3) unat_diff_less [of a d] by (auto simp: word_less_nat_alt word_le_nat_alt unat_sub)
  then show ?thesis by (simp add: moved_def)
qed

lemma moved_in: "k < n \<Longrightarrow> n < 2 ^ 32 \<Longrightarrow> moved d src (of_nat n) m (d + of_nat k) = m (src + of_nat k)"
  by (simp add: moved_def word_less_nat_alt unat_of_nat_small)

lemma store_word_out:
  fixes q a :: u32
  assumes "\<forall>b. b \<notin> {q, q + 1, q + 2, q + 3} \<longrightarrow> m' b = m b" and "unat q + 4 \<le> 2 ^ 32"
    and "unat a < unat q \<or> unat q + 4 \<le> unat a"
  shows "m' a = m a"
proof -
  have "unat (q + of_nat k) = unat q + k" if "k < 4" for k
    by (rule unat_add_small) (use assms(2) that in simp)
  from this [of 1] this [of 2] this [of 3] have "a \<notin> {q, q + 1, q + 2, q + 3}" using assms(3) by auto
  then show ?thesis using assms(1) by blast
qed

lemma word_at_cong: "(\<And>k. k < 4 \<Longrightarrow> m' (a + of_nat k) = m (a + of_nat k)) \<Longrightarrow> word_at a m' = word_at a m"
proof -
  assume e: "\<And>k. k < 4 \<Longrightarrow> m' (a + of_nat k) = m (a + of_nat k)"
  show ?thesis using e [of 0] e [of 1] e [of 2] e [of 3] by (simp add: word_at_def)
qed

section \<open>The argument block\<close>

text \<open>Where the strings go: each under the one before it, the last under the top of the stack.\<close>

definition below :: "u8 list list \<Rightarrow> nat \<Rightarrow> nat" where
  "below ss i = sum_list (map (\<lambda>x. length x + 1) (drop i ss))"

definition str_at :: "u8 list list \<Rightarrow> nat \<Rightarrow> u32" where
  "str_at ss i = of_nat (2 ^ 31 - below ss i)"

lemma below_step: "i < length ss \<Longrightarrow> below ss i = length (ss ! i) + 1 + below ss (Suc i)"
  by (simp add: below_def flip: Cons_nth_drop_Suc)

lemma below_mono: "i \<le> j \<Longrightarrow> below ss j \<le> below ss i"
proof (induction rule: dec_induct)
  case (step k)
  then show ?case using below_step [of k ss] by (cases "k < length ss") (auto simp: below_def)
qed simp

lemma str_at_top: "str_at ss (length ss) = USERSTACK"
  by (simp add: str_at_def below_def)

lemma unat_str_at: "unat (str_at ss i) = 2 ^ 31 - below ss i"
  unfolding str_at_def by (rule unat_of_nat_small) simp

lemma str_at_step:
  assumes "i < length ss" and "below ss 0 \<le> 2 ^ 31"
  shows "str_at ss (Suc i) - (of_nat (length (ss ! i)) + 1) = str_at ss i"
proof -
  have "below ss i \<le> 2 ^ 31" using below_mono [of 0 i ss] assms(2) by simp
  then have "2 ^ 31 - below ss (Suc i) = (2 ^ 31 - below ss i) + (length (ss ! i) + 1)"
    using below_step [OF assms(1)] by simp
  then show ?thesis by (simp add: str_at_def)
qed

text \<open>The block fits on the stack, what is used of memory may be touched, and the copies of the strings and the array
  \<^verbatim>\<open>arg_pointers\<close> lie apart in the kernel.\<close>

definition block_ok :: "exec_env \<Rightarrow> u32 list \<Rightarrow> u8 list list \<Rightarrow> bytes \<Rightarrow> bool" where
  "block_ok E copies ss m \<longleftrightarrow> length copies = length ss \<and>
     below ss 0 + 4 * (length ss + 1) + 8 \<le> DUMBVM_STACKPAGES * 4096 \<and>
     (\<forall>a. USERSTACK - 73728 \<le> a \<longrightarrow> can_read (xe_new_prot E) a \<and> can_write (xe_new_prot E) a) \<and>
     xe_ptrs E AND 3 = 0 \<and> 2 ^ 31 \<le> unat (xe_ptrs E) \<and> unat (xe_ptrs E) + 4 * (length ss + 1) \<le> 2 ^ 32 \<and>
     (\<forall>i < length ss. cstr m (copies ! i) (ss ! i) \<and> 2 ^ 31 \<le> unat (copies ! i) \<and>
        unat (copies ! i) + length (ss ! i) + 1 \<le> 2 ^ 32 \<and>
        (unat (copies ! i) + length (ss ! i) + 1 \<le> unat (xe_ptrs E) \<or>
         unat (xe_ptrs E) + 4 * (length ss + 1) \<le> unat (copies ! i)))"

definition below_stack :: "bytes \<Rightarrow> bytes \<Rightarrow> bool" where
  "below_stack m0 m \<longleftrightarrow> (\<forall>a. unat a < 2 ^ 31 - DUMBVM_STACKPAGES * 4096 \<longrightarrow> m a = m0 a)"

definition pushed :: "exec_env \<Rightarrow> u32 list \<Rightarrow> u8 list list \<Rightarrow> bytes \<Rightarrow> nat \<Rightarrow> bytes \<Rightarrow> bool" where
  "pushed E copies ss m0 k m \<longleftrightarrow> block_ok E copies ss m \<and> below_stack m0 m \<and>
     (\<forall>j. k \<le> j \<and> j < length ss \<longrightarrow> cstr m (str_at ss j) (ss ! j) \<and>
        word_at (xe_ptrs E + 4 * of_nat j) m = str_at ss j)"

lemma and_3: "a AND 3 = 0 \<longleftrightarrow> unat a mod 4 = 0" for a :: u32
proof -
  have "(3 :: u32) = mask 2" by (simp add: mask_eq_exp_minus_1)
  then have "a AND 3 = take_bit 2 a" by (simp only: take_bit_eq_mask)
  then show ?thesis using word_mod_4 [of a] by (simp add: take_bit_eq_mod)
qed

lemma slot_address:
  assumes "block_ok E copies ss m" and "j \<le> length ss"
  shows "unat (xe_ptrs E + 4 * of_nat j) = unat (xe_ptrs E) + 4 * j" "(xe_ptrs E + 4 * of_nat j) AND 3 = 0"
proof -
  have "unat (xe_ptrs E + of_nat (4 * j)) = unat (xe_ptrs E) + 4 * j"
    by (rule unat_add_small) (use assms in \<open>simp add: block_ok_def\<close>)
  then show u: "unat (xe_ptrs E + 4 * of_nat j) = unat (xe_ptrs E) + 4 * j" by simp
  show "(xe_ptrs E + 4 * of_nat j) AND 3 = 0" using assms(1) unfolding and_3 u by (simp add: block_ok_def and_3)
qed


text \<open>What may be written without disturbing the copies of the strings.\<close>

lemma block_ok_frame:
  assumes "block_ok E copies ss m"
    and "\<And>a. 2 ^ 31 \<le> unat a \<Longrightarrow> unat a < unat (xe_ptrs E) \<or> unat (xe_ptrs E) + 4 * (length ss + 1) \<le> unat a \<Longrightarrow> m' a = m a"
  shows "block_ok E copies ss m'"
proof -
  have "cstr m' (copies ! i) (ss ! i)" if i: "i < length ss" for i
  proof (rule cstr_cong)
    show "cstr m (copies ! i) (ss ! i)" using assms(1) i by (simp add: block_ok_def)
    fix k assume k: "k \<le> length (ss ! i)"
    have b: "2 ^ 31 \<le> unat (copies ! i)" "unat (copies ! i) + length (ss ! i) + 1 \<le> 2 ^ 32"
      "unat (copies ! i) + length (ss ! i) + 1 \<le> unat (xe_ptrs E) \<or>
         unat (xe_ptrs E) + 4 * (length ss + 1) \<le> unat (copies ! i)"
      using assms(1) i by (simp_all add: block_ok_def)
    have "unat (copies ! i + of_nat k) = unat (copies ! i) + k" by (rule unat_add_small) (use b k in simp)
    then show "m' (copies ! i + of_nat k) = m (copies ! i + of_nat k)"
      using b k by (intro assms(2)) auto
  qed
  then show ?thesis using assms(1) by (simp add: block_ok_def)
qed

lemma stored_pointer:
  assumes ok: "block_ok E copies ss m" and j: "j \<le> length ss"
  shows "\<exists>m'. store_word (xe_new_prot E) (xe_ptrs E + 4 * of_nat j) w m = Some m' \<and>
    word_at (xe_ptrs E + 4 * of_nat j) m' = w \<and> block_ok E copies ss m' \<and>
    (\<forall>a. unat a < unat (xe_ptrs E) + 4 * j \<or> unat (xe_ptrs E) + 4 * j + 4 \<le> unat a \<longrightarrow> m' a = m a)"
proof -
  let ?q = "xe_ptrs E + 4 * of_nat j"
  note q = slot_address [OF ok j]
  have lim: "2 ^ 31 \<le> unat (xe_ptrs E)" "unat (xe_ptrs E) + 4 * (length ss + 1) \<le> 2 ^ 32"
    using ok by (simp_all add: block_ok_def)
  have "can_write (xe_new_prot E) (?q + of_nat k)" if "k < 4" for k
  proof -
    have "unat (?q + of_nat k) = unat ?q + k" by (rule unat_add_small) (use q lim j that in simp)
    then have "USERSTACK - 73728 \<le> ?q + of_nat k" using q(1) lim(1) by (simp add: word_le_nat_alt)
    then show ?thesis using ok by (simp add: block_ok_def)
  qed
  from this [of 0] this [of 1] this [of 2] this [of 3]
  have "\<forall>i \<in> {0, 1, 2, 3}. can_write (xe_new_prot E) (?q + i)" by simp
  from store_word_reads [OF q(2) this, of w m] obtain m' where m':
    "store_word (xe_new_prot E) ?q w m = Some m'" "word_at ?q m' = w"
    "\<forall>b. b \<notin> {?q, ?q + 1, ?q + 2, ?q + 3} \<longrightarrow> m' b = m b" by blast
  have out: "m' a = m a" if "unat a < unat (xe_ptrs E) + 4 * j \<or> unat (xe_ptrs E) + 4 * j + 4 \<le> unat a" for a
    by (rule store_word_out [OF m'(3)]) (use q(1) lim j that in simp_all)
  have "block_ok E copies ss m'" by (rule block_ok_frame [OF ok]) (use out j in auto)
  then show ?thesis using m' out by blast
qed

lemma push_step:
  fixes s :: "'a psys"
  assumes p: "pushed E copies ss m0 (Suc i) (kernel_bytes s)" and i: "i < length ss" and "clean s"
  shows "\<exists>m'. pushed E copies ss m0 i m' \<and>
    push_args E copies (i # is) (str_at ss (Suc i)) s = push_args E copies is (str_at ss i) (set_kernel_bytes m' s)"
proof -
  let ?P = "xe_new_prot E" and ?n = "length (ss ! i)" and ?m = "kernel_bytes s" and ?c = "copies ! i" and ?d = "str_at ss i"
  have ok: "block_ok E copies ss ?m" using p by (simp add: pushed_def)
  have c: "cstr ?m ?c (ss ! i)" "2 ^ 31 \<le> unat ?c" "unat ?c + ?n + 1 \<le> 2 ^ 32"
    using ok i by (simp_all add: block_ok_def)
  have size: "below ss 0 + 4 * (length ss + 1) + 8 \<le> 73728"
    and acc: "\<And>a. USERSTACK - 73728 \<le> a \<Longrightarrow> can_read ?P a \<and> can_write ?P a"
    and lim: "2 ^ 31 \<le> unat (xe_ptrs E)"
    using ok by (simp_all add: block_ok_def)
  have bi: "below ss i \<le> below ss 0" "below ss i = ?n + 1 + below ss (Suc i)"
    using below_mono [of 0 i ss] below_step [OF i] by simp_all
  have d: "unat ?d = 2 ^ 31 - below ss i" by (rule unat_str_at)
  have n: "unat (of_nat ?n :: u32) = ?n" by (rule unat_of_nat_small) (use c(3) in simp)
  have hi: "USERSTACK - 73728 \<le> a" if "2 ^ 31 - 73728 \<le> unat a" for a :: u32
    using that by (simp add: word_le_nat_alt)
  have ck: "unat (?c + of_nat k) = unat ?c + k" if "k \<le> ?n" for k
    by (rule unat_add_small) (use c(3) that in simp)
  have dk: "unat (?d + of_nat k) = unat ?d + k" if "k \<le> ?n" for k
    by (rule unat_add_small) (use d that c(2,3) in simp)
  have len: "raw_strlen ?P ?c ?m = Some (of_nat ?n)"
  proof -
    have "can_read ?P (?c + of_nat k)" if "k \<le> ?n" for k
      using acc [OF hi, of "?c + of_nat k"] ck [OF that] c(2) by simp
    then show ?thesis using strlen_cstr [OF c(1)] n by (auto simp: raw_strlen_def list_all_iff)
  qed
  obtain m1 where m1: "store_word ?P (xe_ptrs E + 4 * of_nat i) ?d ?m = Some m1"
    "word_at (xe_ptrs E + 4 * of_nat i) m1 = ?d" "block_ok E copies ss m1"
    "\<And>a. unat a < unat (xe_ptrs E) + 4 * i \<or> unat (xe_ptrs E) + 4 * i + 4 \<le> unat a \<Longrightarrow> m1 a = ?m a"
    using stored_pointer [OF ok, of i ?d] i by auto
  let ?m2 = "moved ?d ?c (of_nat (?n + 1)) m1"
  have c1: "cstr m1 ?c (ss ! i)" using m1(3) i by (simp add: block_ok_def)
  have out: "?m2 a = m1 a" if "unat a < unat ?d \<or> unat ?d + (?n + 1) \<le> unat a" for a
    by (rule moved_out) (use d c(2,3) that in simp_all)
  have copy: "copyoutstr ?P ?c ?d (of_nat (?n + 1)) u = (Inr (?n + 1), u\<lparr>bytes_of := ?m2\<rparr>)"
    if u: "bytes_of u = m1" "\<not> badfault u" for u
    unfolding u(1) [symmetric]
  proof (rule copyoutstr_string)
    show "\<forall>k \<le> ?n. can_read ?P (?c + of_nat k) \<and> can_write ?P (?d + of_nat k)"
      using acc [OF hi] ck dk c(2) d bi(1) size by simp
    show "\<forall>k < ?n. bytes_of u (?c + of_nat k) \<noteq> 0" "bytes_of u (?c + of_nat ?n) = 0"
      using c1 u(1) by (simp_all add: cstr_def)
    show "unat ?d + ?n + 1 \<le> 2 ^ 31" using d bi size by simp
  qed (use c u in simp_all)
  let ?s1 = "set_kernel_bytes m1 s"
  have run: "on_files (on_vfs (on_user (copyoutstr ?P ?c ?d (of_nat (?n + 1))))) ?s1 =
      Some (Inr (?n + 1), set_kernel_bytes ?m2 ?s1)"
    by (rule user_copy, rule copy) (use assms(3) in \<open>simp_all add: clean_def set_kernel_bytes_def Let_def\<close>)
  have r1: "chain (store_kernel E (xe_ptrs E + 4 * of_nat i) ?d) g s = g () ?s1" for g :: "unit \<Rightarrow> ('a psys, u32) op"
    by (rule chain_Inr) (rule store_kernel_run [OF m1(1)])
  have r2: "chain (on_files (on_vfs (on_user (copyoutstr ?P ?c ?d (of_nat (?n + 1)))))) g ?s1 =
      g (?n + 1) (set_kernel_bytes ?m2 ?s1)" for g :: "nat \<Rightarrow> ('a psys, u32) op"
    by (rule chain_Inr) (rule run)
  have n1: "(of_nat ?n + 1 :: u32) = of_nat (?n + 1)" by simp
  have down: "str_at ss (Suc i) - of_nat (?n + 1) = ?d" using str_at_step [OF i] size by (simp add: add.commute)
  have "push_args E copies (i # is) (str_at ss (Suc i)) s =
      push_args E copies is ?d (set_kernel_bytes ?m2 s)"
    by (simp only: push_args.simps chain_gets len need_some_Some chain_succeed Let_def n1 down r1 r2 kernel_bytes_put)
  moreover have "pushed E copies ss m0 i ?m2"
  proof -
    have top: "unat ?d + (?n + 1) \<le> 2 ^ 31" using d bi size by simp
    have "block_ok E copies ss ?m2" by (rule block_ok_frame [OF m1(3)], rule out) (use top in auto)
    moreover have "cstr ?m2 (str_at ss j) (ss ! j) \<and> word_at (xe_ptrs E + 4 * of_nat j) ?m2 = str_at ss j"
      if j: "i \<le> j" "j < length ss" for j
    proof -
      have ptr: "word_at (xe_ptrs E + 4 * of_nat j) ?m2 = word_at (xe_ptrs E + 4 * of_nat j) m1"
        using slot_address(1) [OF ok, of j] j ok top
        by (intro word_at_cong out) (simp add: block_ok_def unat_add_small)
      show ?thesis
      proof (cases "j = i")
        case True
        then show ?thesis using moved_cstr [OF c1] ptr m1(2) by simp
      next
        case False
        then have "Suc i \<le> j" using j by simp
        then have pj: "cstr ?m (str_at ss j) (ss ! j)" "word_at (xe_ptrs E + 4 * of_nat j) ?m = str_at ss j"
          using p j by (simp_all add: pushed_def)
        have bj: "below ss j \<le> below ss (Suc i)" "below ss j = length (ss ! j) + 1 + below ss (Suc j)"
          using below_mono [OF \<open>Suc i \<le> j\<close>, of ss] below_step [OF j(2)] by simp_all
        have "cstr ?m2 (str_at ss j) (ss ! j)"
        proof (rule cstr_cong [OF pj(1)])
          fix k assume k: "k \<le> length (ss ! j)"
          have u: "unat (str_at ss j) = 2 ^ 31 - below ss j" by (rule unat_str_at)
          have a: "unat (str_at ss j + of_nat k) = unat (str_at ss j) + k"
            by (rule unat_add_small) (use u k bj size bi in simp)
          have "?m2 (str_at ss j + of_nat k) = m1 (str_at ss j + of_nat k)"
            by (rule out, rule disjI2) (use a u d bj bi size in simp)
          also have "\<dots> = ?m (str_at ss j + of_nat k)"
            by (rule m1(4), rule disjI1) (use lim a u k bj bi size in simp)
          finally show "?m2 (str_at ss j + of_nat k) = ?m (str_at ss j + of_nat k)" .
        qed
        moreover have "word_at (xe_ptrs E + 4 * of_nat j) m1 = word_at (xe_ptrs E + 4 * of_nat j) ?m"
          using slot_address(1) [OF ok, of j] j ok \<open>Suc i \<le> j\<close>
          by (intro word_at_cong m1(4)) (simp add: block_ok_def unat_add_small)
        ultimately show ?thesis using ptr pj(2) by simp
      qed
    qed
    moreover have "below_stack m0 ?m2"
      unfolding below_stack_def
    proof (intro allI impI)
      fix a :: u32 assume a: "unat a < 2 ^ 31 - DUMBVM_STACKPAGES * 4096"
      have "?m2 a = m1 a" by (rule out, rule disjI1) (use a d bi size in simp)
      also have "\<dots> = ?m a" by (rule m1(4), rule disjI1) (use a lim in simp)
      finally show "?m2 a = m0 a" using p a by (simp add: pushed_def below_stack_def)
    qed
    ultimately show ?thesis by (simp add: pushed_def)
  qed
  ultimately show ?thesis by blast
qed


lemma push_args_run:
  fixes s :: "'a psys"
  assumes "pushed E copies ss m0 k (kernel_bytes s)" and "k \<le> length ss" and "clean s"
  shows "\<exists>m'. pushed E copies ss m0 0 m' \<and>
    push_args E copies (rev [0..<k]) (str_at ss k) s = Some (Inr (str_at ss 0), set_kernel_bytes m' s)"
  using assms
proof (induction k arbitrary: s)
  case 0
  have "set_kernel_bytes (kernel_bytes s) s = s" by (simp add: set_kernel_bytes_def kernel_bytes_def Let_def)
  then show ?case using 0 by (auto simp: succeed_def)
next
  case (Suc k)
  then obtain m' where m': "pushed E copies ss m0 k m'"
    "push_args E copies (k # rev [0..<k]) (str_at ss (Suc k)) s =
     push_args E copies (rev [0..<k]) (str_at ss k) (set_kernel_bytes m' s)"
    using push_step [of E copies ss m0 k s "rev [0..<k]"] by auto
  then show ?case using Suc.IH [of "set_kernel_bytes m' s"] Suc.prems by simp
qed

lemma round_down_8:
  fixes a :: u32
  shows "(a - a mod 8) mod 8 = 0" and "unat (a - a mod 8) \<le> unat a" and "unat a < unat (a - a mod 8) + 8"
proof -
  have m: "unat (a mod 8) = unat a mod 8" by (simp add: unat_mod_distrib)
  then have "a mod 8 \<le> a" by (simp add: word_le_nat_alt)
  then have u: "unat (a - a mod 8) = unat a - unat a mod 8" by (simp add: unat_sub m)
  show "unat (a - a mod 8) \<le> unat a" unfolding u by simp
  show "unat a < unat (a - a mod 8) + 8" unfolding u
    using mod_less_divisor [of 8 "unat a"] by linarith
  have "unat ((a - a mod 8) mod 8) = 0"
    by (simp add: unat_mod_distrib u)
  then show "(a - a mod 8) mod 8 = 0" by (simp only: unat_eq_zero)
qed

text \<open>The block as the new program finds it: the pointers at the stack pointer, each to its string, then a null
  pointer, all of it on the stack.\<close>

definition argument_block :: "u8 list list \<Rightarrow> u32 \<Rightarrow> bytes \<Rightarrow> bool" where
  "argument_block ss sp m \<longleftrightarrow> sp mod 8 = 0 \<and> 2 ^ 31 - DUMBVM_STACKPAGES * 4096 \<le> unat sp \<and>
     (\<forall>i < length ss. cstr m (word_at (sp + 4 * of_nat i) m) (ss ! i) \<and>
        unat sp + 4 * (length ss + 1) \<le> unat (word_at (sp + 4 * of_nat i) m) \<and>
        unat (word_at (sp + 4 * of_nat i) m) + length (ss ! i) + 1 \<le> 2 ^ 31) \<and>
     word_at (sp + 4 * of_nat (length ss)) m = 0"


lemma push_argv_run:
  fixes s :: "'a psys"
  assumes p: "pushed E copies ss m0 0 (kernel_bytes s)" and "clean s"
  shows "\<exists>sp m'. push_argv E (length ss) (str_at ss 0) s = Some (Inr sp, set_kernel_bytes m' s) \<and>
    argument_block ss sp m' \<and> below_stack m0 m'"
proof -
  let ?n = "length ss" and ?P = "xe_new_prot E" and ?m = "kernel_bytes s"
  let ?sz = "(of_nat ?n + 1) * 4 :: u32" and ?N = "4 * (length ss + 1)"
  define top where "top = str_at ss 0 - ?sz"
  define sp where "sp = top - top mod 8"
  have ok: "block_ok E copies ss ?m" using p by (simp add: pushed_def)
  have size: "below ss 0 + ?N + 8 \<le> 73728" and lim: "2 ^ 31 \<le> unat (xe_ptrs E)" "unat (xe_ptrs E) + ?N \<le> 2 ^ 32"
    and acc: "\<And>a. USERSTACK - 73728 \<le> a \<Longrightarrow> can_read ?P a \<and> can_write ?P a"
    using ok by (simp_all add: block_ok_def)
  have szn: "?sz = of_nat ?N" by simp
  have sz: "unat ?sz = ?N" unfolding szn by (rule unat_of_nat_small) (use size in simp)
  have d0: "unat (str_at ss 0) = 2 ^ 31 - below ss 0" by (rule unat_str_at)
  have "?sz \<le> str_at ss 0" using size d0 sz by (simp add: word_le_nat_alt)
  then have t: "unat top = 2 ^ 31 - below ss 0 - ?N" unfolding top_def using d0 sz by (simp add: unat_sub)
  note r8 = round_down_8 [of top, folded sp_def]
  have sp: "2 ^ 31 - 73728 \<le> unat sp" "unat sp + ?N \<le> 2 ^ 31 - below ss 0"
    using r8(2,3) t size by simp_all
  have hi: "USERSTACK - 73728 \<le> a" if "2 ^ 31 - 73728 \<le> unat a" for a :: u32
    using that by (simp add: word_le_nat_alt)
  have blocks: "kernel_block (xe_ptrs E) ?sz" "user_block sp ?sz"
    using lim sp sz by (simp_all add: kernel_block_def no_wrap_def user_block_def flip: unat_eq_zero)
  have in_block: "2 ^ 31 - 73728 \<le> unat (b + k)" if "2 ^ 31 - 73728 \<le> unat b" "unat b + ?N \<le> 2 ^ 32" "k < ?sz" for b k :: u32
  proof -
    have "unat k < ?N" using that(3) sz by (simp add: word_less_nat_alt)
    then have "unat (b + of_nat (unat k)) = unat b + unat k" using that(2) by (intro unat_add_small) simp
    then show ?thesis using that(1) by simp
  qed
  have rw: "readable ?P (xe_ptrs E) ?sz" "writable ?P sp ?sz"
    unfolding readable_def writable_def using acc [OF hi] in_block sp lim by simp_all
  obtain m1 where m1: "store_word ?P (xe_ptrs E + 4 * of_nat ?n) 0 ?m = Some m1"
    "word_at (xe_ptrs E + 4 * of_nat ?n) m1 = 0" "block_ok E copies ss m1"
    "\<And>a. unat a < unat (xe_ptrs E) + 4 * ?n \<or> unat (xe_ptrs E) + 4 * ?n + 4 \<le> unat a \<Longrightarrow> m1 a = ?m a"
    using stored_pointer [OF ok, of ?n 0] by auto
  let ?s1 = "set_kernel_bytes m1 s" and ?m2 = "moved sp (xe_ptrs E) ?sz m1"
  have "on_files (on_vfs (on_user (copyout ?P (xe_ptrs E) sp ?sz))) ?s1 = Some (Inr (), set_kernel_bytes ?m2 ?s1)"
  proof (rule user_copy)
    let ?u = "user (vfs_of (files ?s1))"
    have u: "bytes_of ?u = m1" "\<not> badfault ?u" using assms(2) by (simp_all add: clean_def set_kernel_bytes_def Let_def)
    show "copyout ?P (xe_ptrs E) sp ?sz ?u = (Inr (), ?u\<lparr>bytes_of := ?m2\<rparr>)"
      using copyout_checked [OF blocks(1) rw(1) u(2), of sp] blocks(2) rw(2) u(1) by simp
  qed
  then have r2: "handle (on_files (on_vfs (on_user (copyout ?P (xe_ptrs E) sp ?sz)))) g ?s1 =
      g (Inr ()) (set_kernel_bytes ?m2 ?s1)" for g :: "errno + unit \<Rightarrow> ('a psys, u32) op"
    by (rule handle_at)
  have r1: "chain (store_kernel E (xe_ptrs E + 4 * of_nat ?n) 0) g s = g () ?s1" for g :: "unit \<Rightarrow> ('a psys, u32) op"
    by (rule chain_Inr) (rule store_kernel_run [OF m1(1)])
  have "push_argv E ?n (str_at ss 0) s = Some (Inr sp, set_kernel_bytes ?m2 s)"
    unfolding push_argv_def r1 Let_def top_def [symmetric] sp_def [symmetric] r2
    by (simp add: succeed_def)
  moreover have "argument_block ss sp ?m2"
  proof -
    have N: "?N < 2 ^ 32" using size by simp
    have out: "?m2 a = m1 a" if "unat a < unat sp \<or> unat sp + ?N \<le> unat a" for a
      unfolding szn by (rule moved_out) (use sp that N in simp_all)
    have word: "word_at (sp + 4 * of_nat j) ?m2 = word_at (xe_ptrs E + 4 * of_nat j) m1" if j: "j \<le> ?n" for j
    proof -
      have "?m2 (sp + of_nat (4 * j + k)) = m1 (xe_ptrs E + of_nat (4 * j + k))" if "k < 4" for k
        unfolding szn by (rule moved_in) (use j that N in simp_all)
      from this [of 0] this [of 1] this [of 2] this [of 3] show ?thesis
        by (simp add: word_at_def algebra_simps)
    qed
    have each: "word_at (sp + 4 * of_nat i) ?m2 = str_at ss i \<and> cstr ?m2 (str_at ss i) (ss ! i) \<and>
        unat sp + ?N \<le> unat (str_at ss i) \<and> unat (str_at ss i) + length (ss ! i) + 1 \<le> 2 ^ 31" if i: "i < ?n" for i
    proof -
      have pi: "cstr ?m (str_at ss i) (ss ! i)" "word_at (xe_ptrs E + 4 * of_nat i) ?m = str_at ss i"
        using p i by (simp_all add: pushed_def)
      have u: "unat (str_at ss i) = 2 ^ 31 - below ss i" by (rule unat_str_at)
      have b: "below ss i \<le> below ss 0" "length (ss ! i) + 1 \<le> below ss i"
        using below_mono [of 0 i ss] below_step [OF i] by simp_all
      have "word_at (xe_ptrs E + 4 * of_nat i) m1 = word_at (xe_ptrs E + 4 * of_nat i) ?m"
        using slot_address(1) [OF ok, of i] i lim by (intro word_at_cong m1(4)) (simp add: unat_add_small)
      moreover have "cstr ?m2 (str_at ss i) (ss ! i)"
      proof (rule cstr_cong [OF pi(1)])
        fix k assume k: "k \<le> length (ss ! i)"
        have a: "unat (str_at ss i + of_nat k) = unat (str_at ss i) + k"
          by (rule unat_add_small) (use u k b size in simp)
        have "?m2 (str_at ss i + of_nat k) = m1 (str_at ss i + of_nat k)"
          by (rule out, rule disjI2) (use a u b sp size in simp)
        also have "\<dots> = ?m (str_at ss i + of_nat k)" by (rule m1(4), rule disjI1) (use a u k b size lim in simp)
        finally show "?m2 (str_at ss i + of_nat k) = ?m (str_at ss i + of_nat k)" .
      qed
      moreover have "unat sp + ?N \<le> unat (str_at ss i)" using sp(2) b(1) unfolding u by linarith
      moreover have "unat (str_at ss i) + length (ss ! i) + 1 \<le> 2 ^ 31"
      proof -
        have "below ss i \<le> 2 ^ 31" using b(1) size by simp
        then show ?thesis using b(2) unfolding u by simp
      qed
      ultimately show ?thesis using word [of i] i pi(2) by simp
    qed
    then show ?thesis using sp(1) r8(1) word [of ?n] m1(2) by (simp add: argument_block_def)
  qed
  moreover have "below_stack m0 ?m2"
    unfolding below_stack_def
  proof (intro allI impI)
    fix a :: u32 assume a: "unat a < 2 ^ 31 - DUMBVM_STACKPAGES * 4096"
    have "?m2 a = m1 a" unfolding szn by (rule moved_out) (use a sp size in simp_all)
    also have "\<dots> = ?m a" by (rule m1(4), rule disjI1) (use a lim in simp)
    finally show "?m2 a = m0 a" using p a by (simp add: pushed_def below_stack_def)
  qed
  ultimately show ?thesis by blast
qed

lemma push_block_run:
  fixes s :: "'a psys"
  assumes "block_ok E copies ss (kernel_bytes s)" and "clean s"
  shows "\<exists>sp m'. push_block E copies (length ss) USERSTACK s = Some (Inr sp, set_kernel_bytes m' s) \<and>
    argument_block ss sp m' \<and> below_stack (kernel_bytes s) m'"
proof -
  have "pushed E copies ss (kernel_bytes s) (length ss) (kernel_bytes s)"
    using assms(1) unfolding pushed_def below_stack_def by auto
  from push_args_run [OF this _ assms(2)] obtain m1 where m1: "pushed E copies ss (kernel_bytes s) 0 m1"
    "push_args E copies (rev [0..<length ss]) USERSTACK s = Some (Inr (str_at ss 0), set_kernel_bytes m1 s)"
    by (auto simp: str_at_top)
  have "push_block E copies (length ss) USERSTACK s = push_argv E (length ss) (str_at ss 0) (set_kernel_bytes m1 s)"
    unfolding push_block_def by (rule chain_Inr) (rule m1(2))
  then show ?thesis using push_argv_run [of E copies ss "kernel_bytes s" "set_kernel_bytes m1 s"] m1(1) assms(2) by auto
qed


section \<open>Files that can be read\<close>

text \<open>What \<open>load_elf\<close> relies on of the file system: while the invariant \<open>I\<close> of the VFS holds, a read of bytes that are all
  in the file \<open>fc\<close>, into kernel memory or into the memory of the current process, delivers them and nothing else.\<close>

definition laid :: "u32 \<Rightarrow> u8 list \<Rightarrow> bytes \<Rightarrow> bytes" where
  "laid b xs m = (\<lambda>a. if unat (a - b) < length xs then xs ! unat (a - b) else m a)"

definition reads_file :: "'f fsops \<Rightarrow> nat \<Rightarrow> u8 list \<Rightarrow> nat \<Rightarrow> ('f vfs \<Rightarrow> bool) \<Rightarrow> bool" where
  "reads_file F v fc cur I \<longleftrightarrow> (\<forall>vf u. I vf \<longrightarrow> I (vf\<lparr>user := u\<rparr>)) \<and>
     (\<forall>vf u b l. I vf \<and> \<not> badfault (user vf) \<and> uio_iov u = [\<lparr>iov_base = b, iov_len = l\<rparr>] \<and> uio_iovcnt u = 1 \<and>
        uio_rw u = UIO_READ \<and> uio_resid u \<le> l \<and> unat (uio_offset u) + unat (uio_resid u) \<le> length fc \<and>
        (if uio_segflg u = UIO_SYSSPACE then uio_space u = None \<and> kernel_block b (uio_resid u)
         else uio_space u = Some cur \<and> (uio_resid u = 0 \<or> user_block b (uio_resid u))) \<longrightarrow>
        (\<exists>u' vf'. vop v (vop_read F v u) vf = Some (Inr u', vf') \<and> uio_resid u' = 0 \<and> I vf' \<and>
           user vf' = (user vf)\<lparr>bytes_of :=
             laid b (take (unat (uio_resid u)) (drop (unat (uio_offset u)) fc)) (bytes_of (user vf))\<rparr>))"

lemma laid_in: "k < length xs \<Longrightarrow> length xs \<le> 2 ^ 32 \<Longrightarrow> laid b xs m (b + of_nat k) = xs ! k"
  by (simp add: laid_def unat_of_nat_small)

lemma laid_out: "unat b + length xs \<le> 2 ^ 32 \<Longrightarrow> unat a < unat b \<or> unat b + length xs \<le> unat a \<Longrightarrow> laid b xs m a = m a"
  using unat_diff_less [of a b] unat_diff_le [of b a] by (auto simp: laid_def word_less_nat_alt word_le_nat_alt)

text \<open>The state during a load: the thread system does not change, and the addresses in \<open>K\<close> hold what \<open>U\<close> says.\<close>

definition loading ::
  "nat \<Rightarrow> ('f vfs \<Rightarrow> bool) \<Rightarrow> u32 set \<Rightarrow> ysys \<Rightarrow> addrspace \<Rightarrow> cmap \<Rightarrow> bytes \<Rightarrow> 'f psys \<Rightarrow> bool" where
  "loading cur I K Y as c U s \<longleftrightarrow> curproc s = Some cur \<and> proc_getas s = Some as \<and> frames s = c \<and> sync s = Y \<and>
     I (vfs_of (files s)) \<and> clean s \<and> (\<forall>a \<in> K. kernel_bytes s a = U a)"

text \<open>A block of memory that has none of these addresses, in the kernel.\<close>

definition outside :: "u32 set \<Rightarrow> u32 \<Rightarrow> nat \<Rightarrow> bool" where
  "outside K b n \<longleftrightarrow> (\<forall>a \<in> K. unat a < unat b \<or> unat b + n \<le> unat a)"

definition local_block :: "u32 set \<Rightarrow> u32 \<Rightarrow> u32 \<Rightarrow> bool" where
  "local_block K b n \<longleftrightarrow> kernel_block b n \<and> outside K b (unat n)"

lemma wp_on_files: "wp (on_files f) Q s \<longleftrightarrow> wp f (\<lambda>r k. Q r (s\<lparr>files := k\<rparr>)) (files s)"
  by (auto simp: on_files_def wp_def bind_eq_Some)

lemma wp_on_files_read:
  assumes rd: "reads_file F v fc cur I" and ld: "loading cur I K Y as c U s"
    and u: "uio_iov u = [\<lparr>iov_base = b, iov_len = l\<rparr>]" "uio_iovcnt u = 1" "uio_rw u = UIO_READ" "uio_resid u \<le> l"
      "unat (uio_offset u) + unat (uio_resid u) \<le> length fc"
      "if uio_segflg u = UIO_SYSSPACE then uio_space u = None \<and> kernel_block b (uio_resid u)
       else uio_space u = Some cur \<and> (uio_resid u = 0 \<or> user_block b (uio_resid u))"
    and Q: "\<And>u' s'. uio_resid u' = 0 \<Longrightarrow>
      loading cur I K Y as c (laid b (take (unat (uio_resid u)) (drop (unat (uio_offset u)) fc)) (kernel_bytes s)) s' \<Longrightarrow>
      kernel_bytes s' = laid b (take (unat (uio_resid u)) (drop (unat (uio_offset u)) fc)) (kernel_bytes s) \<Longrightarrow> Q (Inr u') s'"
  shows "wp (on_files (on_vfs (vop v (vop_read F v u)))) Q s"
proof -
  let ?vf = "vfs_of (files s)" and ?xs = "take (unat (uio_resid u)) (drop (unat (uio_offset u)) fc)"
  have "I ?vf" "\<not> badfault (user ?vf)" using ld by (simp_all add: loading_def clean_def)
  then obtain u' vf' where r: "vop v (vop_read F v u) ?vf = Some (Inr u', vf')" "uio_resid u' = 0" "I vf'"
    "user vf' = (user ?vf)\<lparr>bytes_of := laid b ?xs (bytes_of (user ?vf))\<rparr>"
    using rd u unfolding reads_file_def by blast
  let ?s = "s\<lparr>files := (files s)\<lparr>vfs_of := vf'\<rparr>\<rparr>"
  have run: "on_files (on_vfs (vop v (vop_read F v u))) s = Some (Inr u', ?s)"
    by (simp add: on_files_def on_vfs_def r(1))
  have k: "kernel_bytes ?s = laid b ?xs (kernel_bytes s)" using r(4) by (simp add: kernel_bytes_def)
  have "curproc ?s = curproc s" "proc_getas ?s = proc_getas s" by (simp_all add: curproc_def proc_getas_def)
  then have "loading cur I K Y as c (laid b ?xs (kernel_bytes s)) ?s"
    using ld r k by (simp add: loading_def clean_def)
  then show ?thesis using run Q [OF r(2) _ k] by (auto simp: wp_def)
qed

text \<open>A structure read into a local variable.\<close>

lemma wp_read_struct:
  assumes rd: "reads_file F v fc cur I" and ld: "loading cur I K Y as c U s" and "local_block K addr len"
    and "unat pos + unat len \<le> length fc"
    and Q: "\<And>s'. loading cur I K Y as c U s' \<Longrightarrow>
      (\<And>k. k < unat len \<Longrightarrow> kernel_bytes s' (addr + of_nat k) = fc ! (unat pos + k)) \<Longrightarrow> Q (Inr ()) s'"
  shows "wp (read_struct F v addr len pos) Q s"
  unfolding read_struct_def
proof (rule wp_chainI)
  let ?u = "uio_kinit addr len pos UIO_READ" and ?xs = "take (unat len) (drop (unat pos) fc)"
  let ?R = "\<lambda>r s'. (\<exists>u. r = Inr u \<and> uio_resid u = 0) \<and> loading cur I K Y as c U s' \<and> kernel_bytes s' = laid addr ?xs (kernel_bytes s)"
  show "wp (on_files (on_vfs (vop v (vop_read F v ?u)))) ?R s"
  proof (rule wp_on_files_read [OF rd ld, where b = addr and l = len])
    fix u' s'
    assume z: "uio_resid u' = 0"
      and l: "loading cur I K Y as c (laid addr (take (unat (uio_resid ?u)) (drop (unat (uio_offset ?u)) fc)) (kernel_bytes s)) s'"
      and k: "kernel_bytes s' = laid addr (take (unat (uio_resid ?u)) (drop (unat (uio_offset ?u)) fc)) (kernel_bytes s)"
    have "laid addr ?xs (kernel_bytes s) a = U a" if "a \<in> K" for a
    proof -
      have "laid addr ?xs (kernel_bytes s) a = kernel_bytes s a"
        by (rule laid_out) (use assms(3,4) that in \<open>auto simp: local_block_def outside_def kernel_block_def no_wrap_def\<close>)
      then show ?thesis using ld that by (simp add: loading_def)
    qed
    then show "?R (Inr u') s'" using z l k by (simp add: loading_def uio_kinit_def)
  qed (use assms(3,4) in \<open>simp_all add: uio_kinit_def local_block_def\<close>)
next
  fix x s1
  assume R: "(\<exists>u. Inr x = (Inr u :: errno + uio) \<and> uio_resid u = 0) \<and> loading cur I K Y as c U s1 \<and>
    kernel_bytes s1 = laid addr (take (unat len) (drop (unat pos) fc)) (kernel_bytes s)"
  have "kernel_bytes s1 (addr + of_nat k) = fc ! (unat pos + k)" if "k < unat len" for k
  proof -
    have "length (take (unat len) (drop (unat pos) fc)) = unat len" using assms(4) by simp
    moreover have "unat len \<le> 2 ^ 32" using less_imp_le_nat [OF unat_lt [of len]] by simp
    ultimately show ?thesis
      using R that assms(4) laid_in [of k "take (unat len) (drop (unat pos) fc)" addr "kernel_bytes s"] by simp
  qed
  then show "wp (if uio_resid x \<noteq> 0 then fail ENOEXEC else succeed ()) Q s1"
    using R Q by (simp add: wp_simps)
qed simp


lemma loading_put:
  assumes "loading cur I K Y as c U s"
  shows "wp (put_as (Some as')) (\<lambda>r s'. r = Inr () \<and> loading cur I K Y as' c U s') s"
proof -
  obtain pr where pr: "curproc s = Some cur" "procs s cur = Some pr"
    using assms by (auto simp: loading_def proc_getas_def bind_eq_Some)
  let ?s = "s\<lparr>procs := (procs s)(cur \<mapsto> pr\<lparr>p_addrspace := Some as'\<rparr>)\<rparr>"
  have "put_as (Some as') s = Some (Inr (), ?s)"
    using pr by (simp add: put_as_def proc_setas_def upd_proc_def)
  moreover have "loading cur I K Y as' c U ?s"
    using assms pr by (simp add: loading_def proc_getas_def curproc_def kernel_bytes_def clean_def)
  ultimately show ?thesis by (simp add: wp_def)
qed

lemma loading_step:
  assumes "loading cur I K Y as c U s" and "f as = Some as'"
  shows "wp (step_as f) (\<lambda>r s'. r = Inr () \<and> loading cur I K Y as' c U s') s"
proof -
  have "get_as s = Some (Inr as, s)" using assms(1) by (simp add: get_as_def loading_def)
  then have "step_as f s = put_as (Some as') s" unfolding step_as_def by (simp add: chain_def handle_def assms(2))
  then show ?thesis using loading_put [OF assms(1), of as'] by (simp add: wp_def)
qed

section \<open>Executables\<close>

definition header_of :: "u8 list \<Rightarrow> elf_ehdr" where
  "header_of fc = ehdr_at 0 (\<lambda>a. fc ! unat a)"

definition segment_header :: "u8 list \<Rightarrow> nat \<Rightarrow> elf_phdr" where
  "segment_header fc i = phdr_at 0 (\<lambda>a. fc ! (unat (phdr_position (header_of fc) i) + unat a))"

definition file_size :: "elf_phdr \<Rightarrow> u32" where
  "file_size ph = (if p_filesz ph > p_memsz ph then p_memsz ph else p_filesz ph)"

text \<open>An executable with \<open>n\<close> segments whose table of headers starts with one that is skipped, as the toolchain makes it
  (\<^verbatim>\<open>PT_MIPS_REGINFO\<close> or \<^verbatim>\<open>PT_PHDR\<close>). What the file holds of a segment goes to user memory, and two of these
  blocks do not overlap.\<close>

definition segment_fits :: "u8 list \<Rightarrow> elf_phdr \<Rightarrow> bool" where
  "segment_fits fc ph \<longleftrightarrow> p_type ph = PT_LOAD \<and> p_vaddr ph AND PAGE_FRAME \<noteq> 0 \<and>
     unat (p_offset ph) + unat (file_size ph) \<le> length fc \<and> (file_size ph = 0 \<or> user_block (p_vaddr ph) (file_size ph))"

definition program_file :: "u8 list \<Rightarrow> nat \<Rightarrow> bool" where
  "program_file fc n \<longleftrightarrow> 52 \<le> length fc \<and> executable_header (header_of fc) \<and> unat (e_phnum (header_of fc)) = Suc n \<and>
     (\<forall>i \<le> n. unat (phdr_position (header_of fc) i) + 32 \<le> length fc) \<and> skipped_type (p_type (segment_header fc 0)) \<and>
     (\<forall>i \<in> {1..n}. segment_fits fc (segment_header fc i)) \<and>
     (\<forall>i \<in> {1..n}. \<forall>j \<in> {1..n}. i \<noteq> j \<longrightarrow>
        unat (p_vaddr (segment_header fc i)) + unat (file_size (segment_header fc i)) \<le> unat (p_vaddr (segment_header fc j)) \<or>
        unat (p_vaddr (segment_header fc j)) + unat (file_size (segment_header fc j)) \<le> unat (p_vaddr (segment_header fc i)))"

text \<open>The entry that \<open>as_define_region\<close> makes.\<close>

definition segment_entry :: "elf_phdr \<Rightarrow> pte" where
  "segment_entry ph = \<lparr>as_vbase = p_vaddr ph AND PAGE_FRAME, as_pbase = 0,
     as_npages = ((p_memsz ph + (p_vaddr ph AND NOT PAGE_FRAME) + 4096 - 1) AND PAGE_FRAME) div 4096,
     final_privilege = 0,
     temp_privilege = uint (p_flags ph AND PF_R) OR uint (p_flags ph AND PF_W) OR uint (p_flags ph AND PF_X)\<rparr>"

lemma word_at_shift: "(\<And>k. k < 4 \<Longrightarrow> m (a + of_nat k) = m' (b + of_nat k)) \<Longrightarrow> word_at a m = word_at b m'"
proof -
  assume e: "\<And>k. k < 4 \<Longrightarrow> m (a + of_nat k) = m' (b + of_nat k)"
  show ?thesis using e [of 0] e [of 1] e [of 2] e [of 3] by (simp add: word_at_def)
qed

lemma wp_read_phdr:
  assumes rd: "reads_file F v fc cur I" and ld: "loading cur I K Y as c U s" and k: "local_block K (xe_ph E) PHDR_SIZE"
    and eh: "unat (phdr_position (header_of fc) i) + 32 \<le> length fc"
  shows "wp (read_phdr F E v (header_of fc) i) (\<lambda>r s'. r = Inr (segment_header fc i) \<and> loading cur I K Y as c U s') s"
proof -
  let ?R = "\<lambda>r s'. r = Inr () \<and> loading cur I K Y as c U s' \<and> phdr_at (xe_ph E) (kernel_bytes s') = segment_header fc i"
  have "wp (read_struct F v (xe_ph E) PHDR_SIZE (phdr_position (header_of fc) i)) ?R s"
  proof (rule wp_read_struct [OF rd ld k])
  fix s'
  assume l: "loading cur I K Y as c U s'"
    and b: "\<And>k. k < unat PHDR_SIZE \<Longrightarrow>
      kernel_bytes s' (xe_ph E + of_nat k) = fc ! (unat (phdr_position (header_of fc) i) + k)"
  have w: "word_at (xe_ph E + of_nat q) (kernel_bytes s') =
      word_at (of_nat q) (\<lambda>a. fc ! (unat (phdr_position (header_of fc) i) + unat a))" if "q + 4 \<le> 32" for q
  proof -
    have "kernel_bytes s' (xe_ph E + of_nat q + of_nat k) = fc ! (unat (phdr_position (header_of fc) i) + unat (of_nat q + of_nat k :: u32))"
      if "k < 4" for k
    proof -
      have "unat (of_nat (q + k) :: u32) = q + k" using that \<open>q + 4 \<le> 32\<close> by (intro unat_of_nat_small) simp
      then show ?thesis using b [of "q + k"] that \<open>q + 4 \<le> 32\<close> by (simp add: add.assoc)
    qed
    then show ?thesis by (intro word_at_shift) simp
  qed
  have "phdr_at (xe_ph E) (kernel_bytes s') = segment_header fc i"
    using w [of 0] w [of 4] w [of 8] w [of 12] w [of 16] w [of 20] w [of 24] w [of 28]
    by (simp add: phdr_at_def segment_header_def)
  then show "?R (Inr ()) s'" using l by simp
  qed (use eh in simp)
  then show ?thesis unfolding read_phdr_def by (rule wp_chainI) (auto simp: wp_simps)
qed


section \<open>Setting up the segments\<close>

definition zero_entry :: pte where
  "zero_entry = \<lparr>as_vbase = 0, as_pbase = 0, as_npages = 0, final_privilege = 0, temp_privilege = 0\<rparr>"

text \<open>The table when \<open>i\<close> headers are done, of which the first was skipped.\<close>

definition part_table :: "u8 list \<Rightarrow> nat \<Rightarrow> pte list \<Rightarrow> nat \<Rightarrow> pte list" where
  "part_table fc n T i = map (\<lambda>j. segment_entry (segment_header fc j)) [1..<i] @
     (if i \<le> n then zero_entry # drop i (take n T) else [])"

lemma clear_entry_at: "i < length (page_table as) \<Longrightarrow>
    clear_entry E eh i as = Some (as\<lparr>page_table := (page_table as)[i := zero_entry]\<rparr>)"
  by (cases "page_table as ! i") (simp add: clear_entry_def zero_entry_def)

lemma define_slot_first:
  assumes "k < length (page_table as)" and "as_vbase (page_table as ! k) = 0"
    and "\<And>j. j < k \<Longrightarrow> as_vbase (page_table as ! j) \<noteq> 0"
  shows "j \<le> k \<Longrightarrow> define_slot [j..<length (page_table as)] va np pr as = Some (as\<lparr>page_table := (page_table as)
    [k := (page_table as ! k)\<lparr>as_vbase := va, as_npages := np, temp_privilege := pr\<rparr>]\<rparr>)"
proof (induction rule: inc_induct)
  case base
  have "[k..<length (page_table as)] = k # [Suc k..<length (page_table as)]" using assms(1) by (rule upt_conv_Cons)
  then show ?case using assms(1,2) by simp
next
  case (step j)
  have "[j..<length (page_table as)] = j # [Suc j..<length (page_table as)]"
    using step.hyps assms(1) by (intro upt_conv_Cons) simp
  then show ?case using step assms(1,3) by simp
qed

lemma length_part: "n \<le> length T \<Longrightarrow> 1 \<le> i \<Longrightarrow> i \<le> Suc n \<Longrightarrow> length (part_table fc n T i) = n"
  by (auto simp: part_table_def)

lemma part_step:
  assumes pf: "program_file fc n" and room: "xe_table E (table_bytes (header_of fc)) = T" "n \<le> length T" "i < length T"
    and i: "1 \<le> i" "i \<le> n" and tab: "page_table as = part_table fc n T i" "no_of_segments as = int n"
  shows "\<exists>as1. clear_entry E (header_of fc) i as = Some as1 \<and>
    as_define_region (p_vaddr (segment_header fc i)) (p_memsz (segment_header fc i)) (uint (p_flags (segment_header fc i) AND PF_R))
      (uint (p_flags (segment_header fc i) AND PF_W)) (uint (p_flags (segment_header fc i) AND PF_X)) as1 =
    Some (as\<lparr>page_table := part_table fc n T (Suc i)\<rparr>)"
proof -
  let ?ph = "segment_header fc i"
  let ?defs = "map (\<lambda>j. segment_entry (segment_header fc j)) [1..<i]"
  let ?tab1 = "?defs @ zero_entry # (if i < n then zero_entry # drop (Suc i) (take n T) else [])"
  have part: "part_table fc n T i = ?defs @ zero_entry # drop i (take n T)" using i by (simp add: part_table_def)
  have "clear_entry E (header_of fc) i as = Some (as\<lparr>page_table := ?tab1\<rparr>)"
  proof (cases "i < n")
    case True
    have "drop i (take n T) = take n T ! i # drop (Suc i) (take n T)"
      using True room by (intro Cons_nth_drop_Suc [symmetric]) simp
    then have "(page_table as)[i := zero_entry] = ?tab1" unfolding tab part using i True
      by (simp add: list_update_append Suc_diff_le split: nat.split)
    then show ?thesis using clear_entry_at [of i as] length_part [OF room(2), of i] i True tab by simp
  next
    case False
    then have "page_table as = ?tab1" unfolding tab part using i by simp
    moreover have "as\<lparr>page_table := page_table as\<rparr> = as" by simp
    ultimately have "as\<lparr>page_table := ?tab1\<rparr> = as" by metis
    moreover have "i = n" using i False by simp
    ultimately show ?thesis using room length_part [OF room(2), of i] i tab by (simp add: clear_entry_def)
  qed
  moreover have "as_define_region (p_vaddr ?ph) (p_memsz ?ph) (uint (p_flags ?ph AND PF_R)) (uint (p_flags ?ph AND PF_W))
      (uint (p_flags ?ph AND PF_X)) (as\<lparr>page_table := ?tab1\<rparr>) = Some (as\<lparr>page_table := part_table fc n T (Suc i)\<rparr>)"
  proof -
    let ?as = "as\<lparr>page_table := ?tab1\<rparr>"
    have len: "length ?tab1 = n" using i room by auto
    have nz: "as_vbase (?tab1 ! j) \<noteq> 0" if "j < i - 1" for j
    proof -
      have "segment_fits fc (segment_header fc (1 + j))" using pf i that by (auto simp: program_file_def)
      then show ?thesis using that by (simp add: nth_append segment_entry_def segment_fits_def)
    qed
    have at: "?tab1 ! (i - 1) = zero_entry" by (simp add: nth_append)
    have new: "?tab1[i - 1 := zero_entry\<lparr>as_vbase := as_vbase (segment_entry ?ph), as_npages := as_npages (segment_entry ?ph),
        temp_privilege := temp_privilege (segment_entry ?ph)\<rparr>] = part_table fc n T (Suc i)"
      using i by (simp add: part_table_def list_update_append zero_entry_def segment_entry_def)
    have "define_slot [0..<length (page_table ?as)] va np pr ?as = Some (?as\<lparr>page_table := (page_table ?as)
        [i - 1 := (page_table ?as ! (i - 1))\<lparr>as_vbase := va, as_npages := np, temp_privilege := pr\<rparr>]\<rparr>)" for va np pr
      by (rule define_slot_first) (use len at nz i in \<open>simp_all add: zero_entry_def\<close>)
    moreover have "segments ?as = [0..<length (page_table ?as)]" using tab(2) len by (simp add: segments_def)
    ultimately show ?thesis using at new
      by (simp add: as_define_region_def Let_def segment_entry_def)
  qed
  ultimately show ?thesis by blast
qed


lemma wp_define_segment:
  assumes rd: "reads_file F v fc cur I" and k: "local_block K (xe_ph E) PHDR_SIZE" and pf: "program_file fc n"
    and room: "xe_table E (table_bytes (header_of fc)) = T" "n \<le> length T" "i < length T" and i: "1 \<le> i" "i \<le> n"
    and as: "no_of_segments as = int n" and ld: "loading cur I K Y (as\<lparr>page_table := part_table fc n T i\<rparr>) c U s"
    and go: "\<And>s'. loading cur I K Y (as\<lparr>page_table := part_table fc n T (Suc i)\<rparr>) c U s' \<Longrightarrow>
      wp (define_segments F E v (header_of fc) is) Q s'"
  shows "wp (define_segments F E v (header_of fc) (i # is)) Q s"
proof -
  let ?ph = "segment_header fc i" and ?as = "as\<lparr>page_table := part_table fc n T i\<rparr>"
  obtain as1 where a1: "clear_entry E (header_of fc) i ?as = Some as1"
    "as_define_region (p_vaddr ?ph) (p_memsz ?ph) (uint (p_flags ?ph AND PF_R)) (uint (p_flags ?ph AND PF_W))
       (uint (p_flags ?ph AND PF_X)) as1 = Some (?as\<lparr>page_table := part_table fc n T (Suc i)\<rparr>)"
    using part_step [OF pf room i, of ?as] as by auto
  have pos: "unat (phdr_position (header_of fc) i) + 32 \<le> length fc" using pf i by (simp add: program_file_def)
  have ty: "p_type ?ph = PT_LOAD" "\<not> skipped_type (p_type ?ph)"
    using pf i by (auto simp: program_file_def segment_fits_def skipped_type_def)
  show ?thesis
    unfolding define_segments.simps
  proof (rule wp_chainI [OF loading_step [where f = "clear_entry E (header_of fc) i", OF ld a1(1)]])
    fix x s1
    assume "Inr x = (Inr () :: errno + unit) \<and> loading cur I K Y as1 c U s1"
    then have l1: "loading cur I K Y as1 c U s1" by simp
    show "wp (chain (read_phdr F E v (header_of fc) i) (\<lambda>ph.
       if skipped_type (p_type ph) then define_segments F E v (header_of fc) is
       else if p_type ph \<noteq> PT_LOAD then fail ENOEXEC
       else chain (step_as (as_define_region (p_vaddr ph) (p_memsz ph) (uint (p_flags ph AND PF_R))
           (uint (p_flags ph AND PF_W)) (uint (p_flags ph AND PF_X)))) (\<lambda>_. define_segments F E v (header_of fc) is))) Q s1"
    proof (rule wp_chainI [OF wp_read_phdr [OF rd l1 k pos]])
      fix ph s2
      assume "Inr ph = (Inr ?ph :: errno + elf_phdr) \<and> loading cur I K Y as1 c U s2"
      then have ph: "ph = ?ph" and l2: "loading cur I K Y as1 c U s2" by simp_all
      have "wp (chain (step_as (as_define_region (p_vaddr ?ph) (p_memsz ?ph) (uint (p_flags ?ph AND PF_R))
           (uint (p_flags ?ph AND PF_W)) (uint (p_flags ?ph AND PF_X)))) (\<lambda>_. define_segments F E v (header_of fc) is)) Q s2"
        by (rule wp_chainI, rule loading_step [OF l2], rule a1(2)) (simp_all add: go)
      then show "wp (if skipped_type (p_type ph) then define_segments F E v (header_of fc) is
       else if p_type ph \<noteq> PT_LOAD then fail ENOEXEC
       else chain (step_as (as_define_region (p_vaddr ph) (p_memsz ph) (uint (p_flags ph AND PF_R))
           (uint (p_flags ph AND PF_W)) (uint (p_flags ph AND PF_X)))) (\<lambda>_. define_segments F E v (header_of fc) is)) Q s2"
        using ty unfolding ph by simp
    qed simp
  qed simp
qed

lemma wp_define_segments:
  assumes rd: "reads_file F v fc cur I" and k: "local_block K (xe_ph E) PHDR_SIZE" and pf: "program_file fc n"
    and room: "xe_table E (table_bytes (header_of fc)) = T" "n \<le> length T" "l \<le> Suc n" "l \<le> length T" and as: "no_of_segments as = int n"
  shows "i \<le> l \<Longrightarrow> 1 \<le> i \<Longrightarrow> loading cur I K Y (as\<lparr>page_table := part_table fc n T i\<rparr>) c U s \<Longrightarrow>
    wp (define_segments F E v (header_of fc) [i..<l])
      (\<lambda>r s'. r = Inr () \<and> loading cur I K Y (as\<lparr>page_table := part_table fc n T l\<rparr>) c U s') s"
proof (induction i arbitrary: s rule: inc_induct)
  case base
  then show ?case by (simp add: wp_simps)
next
  case (step i)
  have "[i..<l] = i # [Suc i..<l]" using step.hyps by (intro upt_conv_Cons) simp
  moreover have "i < length T" "i \<le> n" using step.hyps room by simp_all
  ultimately show ?case using step
    by (simp only:) (rule wp_define_segment [OF rd k pf room(1,2) _ _ _ as], auto)
qed

lemma wp_define_all:
  assumes rd: "reads_file F v fc cur I" and k: "local_block K (xe_ph E) PHDR_SIZE" and pf: "program_file fc n"
    and room: "xe_table E (table_bytes (header_of fc)) = T" "n \<le> length T" "1 \<le> l" "l \<le> Suc n" "l \<le> length T" and as: "no_of_segments as = int n"
    and ld: "loading cur I K Y (as\<lparr>page_table := take n T\<rparr>) c U s"
  shows "wp (define_segments F E v (header_of fc) [0..<l])
    (\<lambda>r s'. r = Inr () \<and> loading cur I K Y (as\<lparr>page_table := part_table fc n T l\<rparr>) c U s') s"
proof -
  let ?as = "as\<lparr>page_table := take n T\<rparr>"
  have c0: "clear_entry E (header_of fc) 0 ?as = Some (as\<lparr>page_table := part_table fc n T 1\<rparr>)"
  proof (cases "n = 0")
    case True
    then show ?thesis using room by (auto simp: clear_entry_def part_table_def)
  next
    case False
    then have "take n T = take n T ! 0 # drop (Suc 0) (take n T)"
      using room Cons_nth_drop_Suc [of 0 "take n T"] by simp
    then have "(take n T)[0 := zero_entry] = zero_entry # drop (Suc 0) (take n T)" by (metis list_update_code(2))
    then show ?thesis using clear_entry_at [of 0 ?as] False room by (simp add: part_table_def)
  qed
  have pos: "unat (phdr_position (header_of fc) 0) + 32 \<le> length fc" using pf by (simp add: program_file_def)
  have ty: "skipped_type (p_type (segment_header fc 0))" using pf by (simp add: program_file_def)
  have up: "[0..<l] = 0 # [1..<l]" using room(3) by (simp add: upt_conv_Cons)
  let ?Q = "\<lambda>r s'. r = Inr () \<and> loading cur I K Y (as\<lparr>page_table := part_table fc n T l\<rparr>) c U s'"
  show ?thesis
    unfolding up define_segments.simps
  proof (rule wp_chainI [OF loading_step [where f = "clear_entry E (header_of fc) 0", OF ld c0]])
    fix x s1
    assume "Inr x = (Inr () :: errno + unit) \<and> loading cur I K Y (as\<lparr>page_table := part_table fc n T 1\<rparr>) c U s1"
    then have l1: "loading cur I K Y (as\<lparr>page_table := part_table fc n T 1\<rparr>) c U s1" by simp
    show "wp (chain (read_phdr F E v (header_of fc) 0) (\<lambda>ph.
       if skipped_type (p_type ph) then define_segments F E v (header_of fc) [1..<l]
       else if p_type ph \<noteq> PT_LOAD then fail ENOEXEC
       else chain (step_as (as_define_region (p_vaddr ph) (p_memsz ph) (uint (p_flags ph AND PF_R))
           (uint (p_flags ph AND PF_W)) (uint (p_flags ph AND PF_X)))) (\<lambda>_. define_segments F E v (header_of fc) [1..<l]))) ?Q s1"
      by (rule wp_chainI [OF wp_read_phdr [OF rd l1 k pos]])
        (use ty wp_define_segments [OF rd k pf room(1,2,4,5) as, of 1] room(3) in auto)
  qed simp
qed


section \<open>Memory for the segments\<close>

lemma zeroed_frames:
  assumes "placed b n" and "outside K (PADDR_TO_KVADDR b) (unat (n * 4096))" and "a \<in> K"
  shows "filled (PADDR_TO_KVADDR b) x (n * 4096) m a = m a"
  using placed_unat [OF assms(1)] assms unat_diff_less [of a "PADDR_TO_KVADDR b"] unat_diff_le [of "PADDR_TO_KVADDR b" a]
  by (auto simp: filled_def outside_def word_less_nat_alt word_le_nat_alt placed_def)

text \<open>With enough memory the segments and the stack get their pages.\<close>

lemma prepare_each_enough:
  assumes "alloc_all getppages (map (\<lambda>x. unat (as_npages x)) (drop i (page_table as))) c = (c1, pas)"
    and "\<forall>pa \<in> set pas. (of_nat pa :: u32) \<noteq> 0" and "i \<le> length (page_table as)"
  shows "\<exists>as1. prepare_each [i..<length (page_table as)] as c = Some (True, as1, c1)"
  using assms
proof (induction "length (page_table as) - i" arbitrary: i as c pas)
  case 0
  then show ?case by simp
next
  case (Suc k)
  then have i: "i < length (page_table as)" by simp
  have up: "[i..<length (page_table as)] = i # [Suc i..<length (page_table as)]"
    and dr: "drop i (page_table as) = page_table as ! i # drop (Suc i) (page_table as)"
    using i by (simp_all add: upt_conv_Cons Cons_nth_drop_Suc)
  obtain c2 pa pas' where a: "getppages (unat (as_npages (page_table as ! i))) c = (c2, pa)"
    "alloc_all getppages (map (\<lambda>x. unat (as_npages x)) (drop (Suc i) (page_table as))) c2 = (c1, pas')" "pas = pa # pas'"
    using Suc.prems(1) unfolding dr by (auto simp: Let_def split: prod.splits)
  let ?as = "as\<lparr>page_table := (page_table as)[i := (page_table as ! i)\<lparr>as_pbase := of_nat pa\<rparr>]\<rparr>"
  have nz: "(of_nat pa :: u32) \<noteq> 0" "\<forall>q \<in> set pas'. (of_nat q :: u32) \<noteq> 0" using Suc.prems(2) a(3) by simp_all
  have "\<exists>as1. prepare_each [Suc i..<length (page_table ?as)] ?as c2 = Some (True, as1, c1)"
  proof (rule Suc.hyps(1))
    show "\<forall>q \<in> set pas'. (of_nat q :: u32) \<noteq> 0" by (rule nz)
  qed (use Suc.hyps(2) a i in simp_all)
  then show ?case using nz a i unfolding up by (simp add: Let_def)
qed

lemma prepare_enough:
  assumes "alloc_all getppages (page_counts as) c = (c', pas @ [stack])" and tab: "table_ok as"
    and nz: "\<forall>pa \<in> set (pas @ [stack]). (of_nat pa :: u32) \<noteq> 0" and "as_prepare_load p as c m = Some (r, as2, c2, m1)"
  shows "\<not> isl r"
proof -
  obtain c1 where a: "alloc_all getppages (map (\<lambda>x. unat (as_npages x)) (page_table as)) c = (c1, pas)"
    "getppages DUMBVM_STACKPAGES c1 = (c', stack)"
    using assms(1) by (auto simp: page_counts_def alloc_all_append Let_def split: prod.splits)
  obtain as1 where "prepare_each [0..<length (page_table as)] as c = Some (True, as1, c1)"
    using prepare_each_enough [of 0 as c c1 pas] a(1) nz by auto
  moreover have "segments as = [0..<length (page_table as)]" using tab by (simp add: segments_def table_ok_def)
  ultimately show ?thesis using assms(4) nz a(2)
    by (auto simp: as_prepare_load_def Let_def bind_eq_Some split: if_splits)
qed

definition pages_given :: "cmap \<Rightarrow> cmap \<Rightarrow> addrspace \<Rightarrow> nat list \<Rightarrow> nat \<Rightarrow> bool" where
  "pages_given c c' as pas stack \<longleftrightarrow> alloc_all getppages (page_counts as) c = (c', pas @ [stack]) \<and>
     length pas = length (page_table as) \<and> (\<forall>pa \<in> set (pas @ [stack]). (of_nat pa :: u32) \<noteq> 0)"

lemma wp_prepare_load:
  assumes p: "kseg0_ok (xe_prot E)" and tab: "table_ok as" and M: "memory_size c \<le> 131072"
    and inv: "\<forall>vf u. I vf \<longrightarrow> I (vf\<lparr>user := u\<rparr>)" and ld: "loading cur I K Y as c U s" and mem: "pages_given c c' as pas stack"
    and out: "outside K (PADDR_TO_KVADDR (of_nat stack)) (DUMBVM_STACKPAGES * 4096)"
  shows "wp (prepare_load E) (\<lambda>r s'. r = Inr () \<and> loading cur I K Y (with_pages as pas stack) c' U s') s"
proof -
  let ?m = "kernel_bytes s"
  obtain r as2 c2 m1 where pl: "as_prepare_load (xe_prot E) as c ?m = Some (r, as2, c2, m1)" "isl r \<longrightarrow> m1 = ?m"
    using as_prepare_load_total [OF p tab M] by blast
  have g: "get_as s = Some (Inr as, s)" "frames s = c" using ld by (simp_all add: get_as_def loading_def)
  let ?s1 = "set_kernel_bytes m1 (s\<lparr>frames := c2\<rparr>)"
  have run: "prepare_load E s = chain (put_as (Some as2)) (\<lambda>_. give r) ?s1"
    by (simp add: prepare_load_def chain_def [of get_as] handle_def g pl(1))
  have cp: "curproc ?s1 = curproc s" "proc_getas ?s1 = proc_getas s" "frames ?s1 = c2"
    "vfs_of (files ?s1) = (vfs_of (files s))\<lparr>user := (user (vfs_of (files s)))\<lparr>bytes_of := m1\<rparr>\<rparr>"
    by (simp_all add: set_kernel_bytes_def Let_def curproc_def proc_getas_def)
  have ok1: "loading cur I K Y as c2 m1 ?s1"
    using ld inv by (simp add: loading_def cp clean_def)
  obtain x where Inr: "r = Inr x"
    using prepare_enough [OF _ tab _ pl(1)] mem by (cases r) (auto simp: pages_given_def)
  have al: "as2 = with_pages as pas stack" "c2 = c'" "as_zero_region (xe_prot E) (of_nat stack) 18 ?m = Inr m1"
    using as_prepare_load_allocs [OF pl(1) [unfolded Inr] tab] mem by (auto simp: pages_given_def)
  have mem': "alloc_all getppages (page_counts as) c = (c', pas @ [stack])" "length pas = length (page_table as)"
    "(of_nat stack :: u32) \<noteq> 0"
    using mem by (simp_all add: pages_given_def)
  have "stack mod PAGE_SIZE = 0 \<and> (stack \<noteq> 0 \<longrightarrow> stack + 18 * PAGE_SIZE \<le> memory_size c * PAGE_SIZE)"
    using list_all2_nthD [OF conjunct2 [OF alloc_all_bound [OF mem'(1)]], of "length pas"] mem'(2)
    by (simp add: page_counts_def nth_append)
  then have pl': "placed (of_nat stack) 18"
    using new_placed [of stack 18 "memory_size c"] of_nat_nonzero [of stack] mem'(3) M by simp
  have "m1 a = U a" if "a \<in> K" for a
    using zero_stack [OF p pl', of ?m] al(3) zeroed_frames [OF pl' _ that, of 0 ?m] out ld that by (simp add: loading_def)
  then have "loading cur I K Y as c2 U ?s1" using ok1 by (simp add: loading_def)
  from loading_put [OF this, of as2] show ?thesis
    unfolding wp_def run by (auto simp: chain_def handle_def give_def Inr al(1,2))
qed

section \<open>Filling the segments\<close>

definition slice :: "u8 list \<Rightarrow> elf_phdr \<Rightarrow> u8 list" where
  "slice fc ph = take (unat (file_size ph)) (drop (unat (p_offset ph)) fc)"

definition filled_image :: "u8 list \<Rightarrow> nat list \<Rightarrow> bytes \<Rightarrow> bytes" where
  "filled_image fc is U = fold (\<lambda>j. laid (p_vaddr (segment_header fc j)) (slice fc (segment_header fc j))) is U"

lemma load_not_skipped [simp]: "\<not> skipped_type 1"
  by (simp add: skipped_type_def)

lemma wp_load_segment:
  assumes rd: "reads_file F v fc cur I" and fits: "segment_fits fc ph" and ld: "loading cur I K Y as c U s"
  shows "wp (load_segment F v (p_offset ph) (p_vaddr ph) (p_memsz ph) (p_filesz ph) ex)
    (\<lambda>r s'. r = Inr () \<and> loading cur I K Y as c (laid (p_vaddr ph) (slice fc ph) U) s') s"
proof -
  let ?u = "\<lparr>uio_iov = [\<lparr>iov_base = p_vaddr ph, iov_len = p_memsz ph\<rparr>], uio_iovcnt = 1, uio_offset = ucast (p_offset ph),
     uio_resid = file_size ph, uio_segflg = (if ex then UIO_USERISPACE else UIO_USERSPACE),
     uio_rw = UIO_READ, uio_space = Some cur\<rparr>"
  let ?R = "\<lambda>r s'. (\<exists>u'. r = Inr u' \<and> uio_resid u' = 0) \<and> loading cur I K Y as c (laid (p_vaddr ph) (slice fc ph) U) s'"
  have off: "unat (uio_offset ?u) = unat (p_offset ph)" by (simp add: unsigned_ucast_eq) (rule take_bit_nat_eq_self, rule less_trans [OF unat_lt], simp)
  have "wp (on_files (on_vfs (vop v (vop_read F v ?u)))) ?R s"
  proof (rule wp_on_files_read [OF rd ld, where b = "p_vaddr ph" and l = "p_memsz ph"])
    fix u' s'
    assume "uio_resid u' = 0" and
      "loading cur I K Y as c (laid (p_vaddr ph) (take (unat (uio_resid ?u)) (drop (unat (uio_offset ?u)) fc)) (kernel_bytes s)) s'"
    then show "?R (Inr u') s'" using ld unfolding off by (simp add: loading_def slice_def laid_def)
  next
    show "unat (uio_offset ?u) + unat (uio_resid ?u) \<le> length fc" unfolding off using fits by (simp add: segment_fits_def)
  qed (use fits in \<open>auto simp: segment_fits_def file_size_def\<close>)
  then have "wp (chain (on_files (on_vfs (vop v (vop_read F v ?u)))) (\<lambda>u. if uio_resid u \<noteq> 0 then fail ENOEXEC else succeed ()))
      (\<lambda>r s'. r = Inr () \<and> loading cur I K Y as c (laid (p_vaddr ph) (slice fc ph) U) s') s"
    by (rule wp_chainI) (auto simp: wp_simps)
  moreover have "curproc s = Some cur" using ld by (simp add: loading_def)
  ultimately show ?thesis
    unfolding load_segment_def Let_def file_size_def [symmetric] by (simp add: wp_def chain_gets)
qed

lemma wp_load_loop:
  assumes rd: "reads_file F v fc cur I" and k: "local_block K (xe_ph E) PHDR_SIZE" and pf: "program_file fc n"
  shows "i \<le> Suc n \<Longrightarrow> 1 \<le> i \<Longrightarrow> loading cur I K Y as c U s \<Longrightarrow>
    wp (load_segments F E v (header_of fc) [i..<Suc n]) (\<lambda>r s'. r = Inr () \<and> loading cur I K Y as c (filled_image fc [i..<Suc n] U) s') s"
proof (induction i arbitrary: s U rule: inc_induct)
  case base
  then show ?case by (simp add: wp_simps filled_image_def)
next
  case (step i)
  let ?ph = "segment_header fc i" and ?h = "header_of fc"
  have up: "[i..<Suc n] = i # [Suc i..<Suc n]" using step.hyps by (intro upt_conv_Cons) simp
  have i: "1 \<le> i" "i \<le> n" using step by simp_all
  have fits: "segment_fits fc ?ph" and pos: "unat (phdr_position ?h i) + 32 \<le> length fc"
    using pf i by (auto simp: program_file_def)
  have ty: "p_type ?ph = PT_LOAD" using fits by (simp add: segment_fits_def)
  have im: "filled_image fc [i..<Suc n] U = filled_image fc [Suc i..<Suc n] (laid (p_vaddr ?ph) (slice fc ?ph) U)"
    unfolding up by (simp add: filled_image_def)
  let ?Q = "\<lambda>r s'. r = Inr () \<and> loading cur I K Y as c (filled_image fc [i..<Suc n] U) s'"
  have "wp (chain (load_segment F v (p_offset ?ph) (p_vaddr ?ph) (p_memsz ?ph) (p_filesz ?ph) (p_flags ?ph AND PF_X \<noteq> 0))
      (\<lambda>_. load_segments F E v ?h [Suc i..<Suc n])) ?Q s1" if "loading cur I K Y as c U s1" for s1
    by (rule wp_chainI [OF wp_load_segment [OF rd fits that]])
      (use step.IH [of "laid (p_vaddr ?ph) (slice fc ?ph) U"] im in \<open>auto simp del: upt_Suc\<close>)
  then show ?case
    unfolding up load_segments.simps unfolding up [symmetric]
    by (intro wp_chainI [OF wp_read_phdr [OF rd step.prems(2) k pos]]) (auto simp: ty simp del: upt_Suc)
qed

lemma wp_load_all:
  assumes rd: "reads_file F v fc cur I" and k: "local_block K (xe_ph E) PHDR_SIZE" and pf: "program_file fc n"
    and ld: "loading cur I K Y as c U s"
  shows "wp (load_segments F E v (header_of fc) [0..<Suc n])
    (\<lambda>r s'. r = Inr () \<and> loading cur I K Y as c (filled_image fc [1..<Suc n] U) s') s"
proof -
  have up: "[0..<Suc n] = 0 # [1..<Suc n]" by (simp add: upt_conv_Cons)
  have pos: "unat (phdr_position (header_of fc) 0) + 32 \<le> length fc" "skipped_type (p_type (segment_header fc 0))"
    using pf by (auto simp: program_file_def)
  show ?thesis
    unfolding up load_segments.simps
    by (intro wp_chainI [OF wp_read_phdr [OF rd ld k pos(1)]])
      (use pos(2) wp_load_loop [OF rd k pf, of 1] in \<open>auto simp del: upt_Suc\<close>)
qed


definition completed :: "pte \<Rightarrow> pte" where
  "completed x = x\<lparr>final_privilege := temp_privilege x\<rparr>"

lemma complete_each_from:
  "i \<le> length (page_table as) \<Longrightarrow> complete_each [i..<length (page_table as)] as =
    Some (as\<lparr>page_table := take i (page_table as) @ map completed (drop i (page_table as))\<rparr>)"
proof (induction "length (page_table as) - i" arbitrary: i as)
  case 0
  then show ?case by simp
next
  case (Suc k)
  then have i: "i < length (page_table as)" by simp
  let ?as = "as\<lparr>page_table := (page_table as)[i := completed (page_table as ! i)]\<rparr>"
  have up: "[i..<length (page_table as)] = i # [Suc i..<length (page_table as)]"
    and dr: "drop i (page_table as) = page_table as ! i # drop (Suc i) (page_table as)"
    using i by (simp_all add: upt_conv_Cons Cons_nth_drop_Suc)
  have "complete_each [Suc i..<length (page_table ?as)] ?as =
      Some (?as\<lparr>page_table := take (Suc i) (page_table ?as) @ map completed (drop (Suc i) (page_table ?as))\<rparr>)"
    by (rule Suc.hyps(1)) (use Suc.hyps(2) i in simp_all)
  then show ?case unfolding up dr using i
    by (simp add: completed_def [symmetric] take_Suc_conv_app_nth take_update_swap list_update_append)
qed

lemma as_complete_load_all:
  "table_ok as \<Longrightarrow> as_complete_load as = Some (as\<lparr>page_table := map completed (page_table as)\<rparr>)"
  using complete_each_from [of 0 as] by (simp add: as_complete_load_def segments_def table_ok_def)

section \<open>A whole load\<close>

text \<open>The pages that a program asks for: those of its segments in the order of the headers, then those of the stack; and
  its address space when it has got them.\<close>

definition program_entries :: "u8 list \<Rightarrow> nat \<Rightarrow> pte list" where
  "program_entries fc n = map (\<lambda>i. segment_entry (segment_header fc i)) [1..<Suc n]"

definition program_pages :: "u8 list \<Rightarrow> nat \<Rightarrow> nat list" where
  "program_pages fc n = map (\<lambda>x. unat (as_npages x)) (program_entries fc n) @ [DUMBVM_STACKPAGES]"

definition program_space :: "u8 list \<Rightarrow> nat \<Rightarrow> nat list \<Rightarrow> nat \<Rightarrow> addrspace \<Rightarrow> bool" where
  "program_space fc n pas stack as \<longleftrightarrow> no_of_segments as = int n \<and> as_stackpbase as = of_nat stack \<and>
     page_table as = map2 (\<lambda>x pa. completed (x\<lparr>as_pbase := of_nat pa\<rparr>)) (program_entries fc n) pas"

text \<open>User memory after the load: in each segment what the file holds of it, and nothing else changed.\<close>

definition program_image :: "u8 list \<Rightarrow> nat \<Rightarrow> bytes \<Rightarrow> bytes \<Rightarrow> bool" where
  "program_image fc n U m \<longleftrightarrow>
     (\<forall>i \<in> {1..n}. \<forall>k < unat (file_size (segment_header fc i)).
        m (p_vaddr (segment_header fc i) + of_nat k) = fc ! (unat (p_offset (segment_header fc i)) + k)) \<and>
     (\<forall>a < USERSPACETOP. (\<forall>i \<in> {1..n}. unat a < unat (p_vaddr (segment_header fc i)) \<or>
          unat (p_vaddr (segment_header fc i)) + unat (file_size (segment_header fc i)) \<le> unat a) \<longrightarrow> m a = U a)"

lemma slice_length: "segment_fits fc ph \<Longrightarrow> length (slice fc ph) = unat (file_size ph)"
  by (auto simp: slice_def segment_fits_def)

lemma slice_bound: "segment_fits fc ph \<Longrightarrow> unat (p_vaddr ph) + length (slice fc ph) \<le> 2 ^ 32"
  using slice_length [of fc ph] less_imp_le_nat [OF unat_lt [of "p_vaddr ph"]]
  by (auto simp: segment_fits_def user_block_def)

lemma image_out:
  assumes "\<forall>i \<in> set is. segment_fits fc (segment_header fc i) \<and> (unat a < unat (p_vaddr (segment_header fc i)) \<or>
      unat (p_vaddr (segment_header fc i)) + unat (file_size (segment_header fc i)) \<le> unat a)"
  shows "filled_image fc is U a = U a"
  using assms
proof (induction "is" arbitrary: U)
  case (Cons i "is")
  let ?ph = "segment_header fc i"
  have fits: "segment_fits fc ?ph" using Cons.prems by simp
  have "laid (p_vaddr ?ph) (slice fc ?ph) U a = U a"
    by (rule laid_out [OF slice_bound [OF fits]]) (use Cons.prems slice_length [OF fits] in simp)
  then show ?case using Cons by (simp add: filled_image_def)
qed (simp add: filled_image_def)

lemma program_file_apart:
  "program_file fc n \<Longrightarrow> i \<in> {1..n} \<Longrightarrow> j \<in> {1..n} \<Longrightarrow> i \<noteq> j \<Longrightarrow>
    unat (p_vaddr (segment_header fc i)) + unat (file_size (segment_header fc i)) \<le> unat (p_vaddr (segment_header fc j)) \<or>
    unat (p_vaddr (segment_header fc j)) + unat (file_size (segment_header fc j)) \<le> unat (p_vaddr (segment_header fc i))"
  unfolding program_file_def by blast

lemma image_in:
  assumes pf: "program_file fc n" and i: "i \<in> {1..n}" and k: "k < unat (file_size (segment_header fc i))"
  shows "filled_image fc [1..<Suc n] U (p_vaddr (segment_header fc i) + of_nat k) = fc ! (unat (p_offset (segment_header fc i)) + k)"
proof -
  let ?ph = "segment_header fc i" and ?a = "p_vaddr (segment_header fc i) + of_nat k"
  have fits: "segment_fits fc (segment_header fc j)" if "j \<in> {1..n}" for j using pf that by (auto simp: program_file_def)
  have up: "[1..<Suc n] = [1..<i] @ i # [Suc i..<Suc n]"
  proof -
    have "[1..<Suc n] = [1..<i] @ [i..<Suc n]" using upt_add_eq_append [of 1 i "Suc n - i"] i by simp
    moreover have "[i..<Suc n] = i # [Suc i..<Suc n]" using i by (intro upt_conv_Cons) auto
    ultimately show ?thesis by simp
  qed
  have a: "unat ?a = unat (p_vaddr ?ph) + k"
    by (rule unat_add_small) (use slice_bound [OF fits [OF i]] slice_length [OF fits [OF i]] k in simp)
  have rest: "filled_image fc [Suc i..<Suc n] U' ?a = U' ?a" for U'
  proof (rule image_out, intro ballI conjI)
    fix j assume "j \<in> set [Suc i..<Suc n]"
    then have j: "j \<in> {1..n}" "i \<noteq> j" by auto
    show "segment_fits fc (segment_header fc j)" by (rule fits [OF j(1)])
    show "unat ?a < unat (p_vaddr (segment_header fc j)) \<or>
        unat (p_vaddr (segment_header fc j)) + unat (file_size (segment_header fc j)) \<le> unat ?a"
      using program_file_apart [OF pf i j] k unfolding a by linarith
  qed
  have "laid (p_vaddr ?ph) (slice fc ?ph) U' ?a = slice fc ?ph ! k" for U'
    by (rule laid_in) (use slice_length [OF fits [OF i]] k less_imp_le_nat [OF unat_lt [of "file_size ?ph"]] in simp_all)
  moreover have "slice fc ?ph ! k = fc ! (unat (p_offset ?ph) + k)"
    using k fits [OF i] by (simp add: slice_def segment_fits_def)
  ultimately show ?thesis using rest unfolding up by (simp add: filled_image_def)
qed

lemma program_image_filled:
  assumes "program_file fc n" and "\<forall>a < USERSPACETOP. m a = filled_image fc [1..<Suc n] U a"
  shows "program_image fc n U m"
  unfolding program_image_def
proof (intro conjI ballI allI impI)
  fix i k assume i: "i \<in> {1..n}" and k: "k < unat (file_size (segment_header fc i))"
  have fits: "segment_fits fc (segment_header fc i)" using assms(1) i by (auto simp: program_file_def)
  then have "user_block (p_vaddr (segment_header fc i)) (file_size (segment_header fc i))"
    using k by (auto simp: segment_fits_def)
  then have "unat (p_vaddr (segment_header fc i) + of_nat k) < 2 ^ 31"
    using k by (subst unat_add_small) (auto simp: user_block_def)
  then have "p_vaddr (segment_header fc i) + of_nat k < USERSPACETOP" by (simp add: word_less_nat_alt)
  then show "m (p_vaddr (segment_header fc i) + of_nat k) = fc ! (unat (p_offset (segment_header fc i)) + k)"
    using assms image_in [OF assms(1) i k] by simp
next
  fix a assume a: "a < USERSPACETOP" and out: "\<forall>i \<in> {1..n}. unat a < unat (p_vaddr (segment_header fc i)) \<or>
    unat (p_vaddr (segment_header fc i)) + unat (file_size (segment_header fc i)) \<le> unat a"
  have "filled_image fc [1..<Suc n] U a = U a"
    by (rule image_out) (use out assms(1) in \<open>auto simp: program_file_def\<close>)
  then show "m a = U a" using assms(2) a by simp
qed


lemma wp_read_ehdr:
  assumes rd: "reads_file F v fc cur I" and ld: "loading cur I K Y as c U s" and k: "local_block K (xe_eh E) EHDR_SIZE"
    and "52 \<le> length fc"
  shows "wp (read_struct F v (xe_eh E) EHDR_SIZE 0)
    (\<lambda>r s'. r = Inr () \<and> loading cur I K Y as c U s' \<and> ehdr_at (xe_eh E) (kernel_bytes s') = header_of fc) s"
proof (rule wp_read_struct [OF rd ld k])
  fix s'
  assume l: "loading cur I K Y as c U s'"
    and b: "\<And>k. k < unat EHDR_SIZE \<Longrightarrow> kernel_bytes s' (xe_eh E + of_nat k) = fc ! (unat (0 :: 64 word) + k)"
  have at: "kernel_bytes s' (xe_eh E + of_nat k) = fc ! unat (of_nat k :: u32)" if "k < 52" for k
    using b [of k] that by (simp add: unat_of_nat_small)
  have w: "word_at (xe_eh E + of_nat q) (kernel_bytes s') = word_at (of_nat q) (\<lambda>a. fc ! unat a)" if "q + 4 \<le> 52" for q
  proof (rule word_at_shift)
    fix k :: nat assume "k < 4"
    then show "kernel_bytes s' (xe_eh E + of_nat q + of_nat k) = fc ! unat (of_nat q + of_nat k :: u32)"
      using at [of "q + k"] that by (simp add: add.assoc)
  qed
  have h: "half_at (xe_eh E + of_nat q) (kernel_bytes s') = half_at (of_nat q) (\<lambda>a. fc ! unat a)" if "q + 2 \<le> 52" for q
    using at [of q] at [of "Suc q"] that by (simp add: half_at_def ac_simps)
  have e: "map (\<lambda>i. kernel_bytes s' (xe_eh E + of_nat i)) [0..<16] = map (\<lambda>i. fc ! unat (0 + of_nat i :: u32)) [0..<16]"
    by (rule map_cong) (use at in auto)
  have "ehdr_at (xe_eh E) (kernel_bytes s') = header_of fc"
    unfolding header_of_def ehdr_at_def e
    using w [of 20] w [of 24] w [of 28] w [of 32] w [of 36] h [of 16] h [of 18] h [of 40] h [of 42] h [of 44] h [of 46]
      h [of 48] h [of 50] by simp
  then show "Inr () = (Inr () :: errno + unit) \<and> loading cur I K Y as c U s' \<and> ehdr_at (xe_eh E) (kernel_bytes s') = header_of fc"
    using l by simp
qed (use assms(4) in simp)

lemma part_table_end: "part_table fc n T (Suc n) = program_entries fc n"
  by (simp add: part_table_def program_entries_def)

lemma length_program_entries [simp]: "length (program_entries fc n) = n"
  by (simp add: program_entries_def)

lemma kernel_untouched:
  assumes "program_file fc n" and "USERSPACETOP \<le> a"
  shows "filled_image fc [1..<Suc n] U a = U a"
proof (rule image_out, intro ballI conjI)
  fix i assume "i \<in> set [1..<Suc n]"
  then show fits: "segment_fits fc (segment_header fc i)" using assms(1) by (auto simp: program_file_def)
  let ?ph = "segment_header fc i"
  have "2 ^ 31 \<le> unat a" using assms(2) by (simp add: word_le_nat_alt)
  then show "unat a < unat (p_vaddr ?ph) \<or> unat (p_vaddr ?ph) + unat (file_size ?ph) \<le> unat a"
    using fits by (auto simp: segment_fits_def user_block_def)
qed

lemma load_elf_run:
  assumes rd: "reads_file F v fc cur I" and ld: "loading cur I K Y as c U s" and pf: "program_file fc n"
    and eh: "local_block K (xe_eh E) EHDR_SIZE" and ph: "local_block K (xe_ph E) PHDR_SIZE"
    and room: "n < length (xe_table E (table_bytes (header_of fc)))"
    and p: "kseg0_ok (xe_prot E)" and M: "memory_size c \<le> 131072"
    and mem: "alloc_all getppages (program_pages fc n) c = (c', pas @ [stack])" "\<forall>pa \<in> set (pas @ [stack]). (of_nat pa :: u32) \<noteq> 0"
    and K: "{a. a < USERSPACETOP} \<subseteq> K" and out: "outside K (PADDR_TO_KVADDR (of_nat stack)) (DUMBVM_STACKPAGES * 4096)"
  shows "wp (load_elf F E v) (\<lambda>r s'. r = Inr (e_entry (header_of fc)) \<and>
    (\<exists>as' U'. loading cur I K Y as' c' U' s' \<and> program_space fc n pas stack as' \<and> program_image fc n U (kernel_bytes s') \<and>
       (\<forall>a \<in> K. USERSPACETOP \<le> a \<longrightarrow> kernel_bytes s' a = U a))) s"
    (is "wp _ ?Q s")
proof -
  let ?h = "header_of fc" and ?T = "xe_table E (table_bytes (header_of fc))"
  let ?as0 = "as\<lparr>no_of_segments := int n\<rparr>"
  let ?as1 = "?as0\<lparr>page_table := part_table fc n ?T (Suc n)\<rparr>"
  have n: "unat (e_phnum ?h) = Suc n" "executable_header ?h" "52 \<le> length fc" using pf by (simp_all add: program_file_def)
  have mk: "make_table E ?h as = Some (?as0\<lparr>page_table := take n ?T\<rparr>)" by (simp add: make_table_def Let_def n)
  have inv: "\<forall>vf u. I vf \<longrightarrow> I (vf\<lparr>user := u\<rparr>)" using rd by (simp add: reads_file_def)
  have tab: "table_ok ?as1" by (simp add: table_ok_def part_table_end)
  have len: "length pas = n"
    using list_all2_lengthD [OF conjunct2 [OF alloc_all_bound [OF mem(1)]]] by (simp add: program_pages_def)
  then have g: "pages_given c c' ?as1 pas stack"
    using mem by (simp add: pages_given_def page_counts_def part_table_end program_pages_def)
  have last: "wp (step_as as_complete_load) (\<lambda>r s'. r = Inr () \<and> (\<exists>as' U'. loading cur I K Y as' c' U' s' \<and>
      program_space fc n pas stack as' \<and> program_image fc n U (kernel_bytes s') \<and>
      (\<forall>a \<in> K. USERSPACETOP \<le> a \<longrightarrow> kernel_bytes s' a = U a))) s4"
    if l: "loading cur I K Y (with_pages ?as1 pas stack) c' (filled_image fc [1..<Suc n] U) s4" for s4
  proof -
    let ?as2 = "with_pages ?as1 pas stack"
    let ?as3 = "?as2\<lparr>page_table := map completed (page_table ?as2)\<rparr>"
    have "table_ok ?as2" using len by (simp add: table_ok_def with_pages_def part_table_end)
    then have c3: "as_complete_load ?as2 = Some ?as3" by (rule as_complete_load_all)
    have "program_space fc n pas stack ?as3"
      by (simp add: program_space_def with_pages_def part_table_end comp_def split_def)
    moreover have "program_image fc n U (kernel_bytes s') \<and> (\<forall>a \<in> K. USERSPACETOP \<le> a \<longrightarrow> kernel_bytes s' a = U a)"
      if l: "loading cur I K Y ?as3 c' (filled_image fc [1..<Suc n] U) s'" for s'
    proof (intro conjI ballI impI)
      have in_K: "\<forall>a \<in> K. kernel_bytes s' a = filled_image fc [1..<Suc n] U a" using l by (simp add: loading_def)
      then show "program_image fc n U (kernel_bytes s')" by (intro program_image_filled [OF pf]) (use K in auto)
      fix a assume "a \<in> K" "USERSPACETOP \<le> a"
      then show "kernel_bytes s' a = U a" using in_K kernel_untouched [OF pf] by simp
    qed
    ultimately show ?thesis by (intro wp_mono [OF loading_step [where f = as_complete_load, OF l c3]]) blast
  qed
  have rest: "wp (chain (prepare_load E) (\<lambda>_. chain (load_segments F E v ?h [0..<Suc n]) (\<lambda>_.
      chain (step_as as_complete_load) (\<lambda>_. succeed (e_entry ?h))))) ?Q s2"
    if "loading cur I K Y ?as1 c U s2" for s2
  proof (rule wp_chainI [OF wp_prepare_load [OF p tab M inv that g out]])
    fix x s3
    assume "Inr x = (Inr () :: errno + unit) \<and> loading cur I K Y (with_pages ?as1 pas stack) c' U s3"
    then have l3: "loading cur I K Y (with_pages ?as1 pas stack) c' U s3" by simp
    show "wp (chain (load_segments F E v ?h [0..<Suc n]) (\<lambda>_. chain (step_as as_complete_load) (\<lambda>_. succeed (e_entry ?h)))) ?Q s3"
    proof (rule wp_chainI [OF wp_load_all [OF rd ph pf l3]])
      fix y s4
      assume "Inr y = (Inr () :: errno + unit) \<and>
        loading cur I K Y (with_pages ?as1 pas stack) c' (filled_image fc [1..<Suc n] U) s4"
      then have l4: "loading cur I K Y (with_pages ?as1 pas stack) c' (filled_image fc [1..<Suc n] U) s4" by simp
      show "wp (chain (step_as as_complete_load) (\<lambda>_. succeed (e_entry ?h))) ?Q s4"
        by (rule wp_chainI [OF last [OF l4]]) (auto simp: wp_simps)
    qed simp
  qed simp
  show ?thesis
    unfolding load_elf_def
  proof (rule wp_chainI [OF wp_read_ehdr [OF rd ld eh n(3)]])
    fix x s1
    assume "Inr x = (Inr () :: errno + unit) \<and> loading cur I K Y as c U s1 \<and> ehdr_at (xe_eh E) (kernel_bytes s1) = ?h"
    then have l1: "loading cur I K Y as c U s1" and h: "ehdr_at (xe_eh E) (kernel_bytes s1) = ?h" by simp_all
    have "wp (chain (step_as (make_table E ?h)) (\<lambda>_. chain (define_segments F E v ?h [0..<Suc n]) (\<lambda>_.
        chain (prepare_load E) (\<lambda>_. chain (load_segments F E v ?h [0..<Suc n]) (\<lambda>_.
        chain (step_as as_complete_load) (\<lambda>_. succeed (e_entry ?h))))))) ?Q s1"
    proof (rule wp_chainI [OF loading_step [where f = "make_table E ?h", OF l1 mk]])
      fix y s2
      assume "Inr y = (Inr () :: errno + unit) \<and> loading cur I K Y (?as0\<lparr>page_table := take n ?T\<rparr>) c U s2"
      then have l2: "loading cur I K Y (?as0\<lparr>page_table := take n ?T\<rparr>) c U s2" by simp
      show "wp (chain (define_segments F E v ?h [0..<Suc n]) (\<lambda>_.
        chain (prepare_load E) (\<lambda>_. chain (load_segments F E v ?h [0..<Suc n]) (\<lambda>_.
        chain (step_as as_complete_load) (\<lambda>_. succeed (e_entry ?h)))))) ?Q s2"
        by (rule wp_chainI [OF wp_define_all [OF rd ph pf refl _ _ _ _ _ l2]]) (use rest room in \<open>simp_all del: upt_Suc\<close>)
    qed simp
    then show "wp (chain (gets (\<lambda>s. ehdr_at (xe_eh E) (kernel_bytes s))) (\<lambda>eh.
       if \<not> executable_header eh then fail ENOEXEC
       else
         chain (step_as (make_table E eh)) (\<lambda>_. chain (define_segments F E v eh [0..<unat (e_phnum eh)]) (\<lambda>_.
         chain (prepare_load E) (\<lambda>_. chain (load_segments F E v eh [0..<unat (e_phnum eh)]) (\<lambda>_.
         chain (step_as as_complete_load) (\<lambda>_. succeed (e_entry eh)))))))) ?Q s1"
      unfolding wp_def chain_gets h using n by (simp del: upt_Suc)
  qed simp
qed


section \<open>The table that is one entry short\<close>

lemma chain_assoc: "chain (chain f g) h = chain f (\<lambda>x. chain (g x) h)"
  by (auto simp: chain_def handle_def fail_def fun_eq_iff split: option.splits sum.splits)

lemma chain_if: "chain (if c then f else g) h = (if c then chain f h else chain g h)"
  by simp

lemma chain_fail: "chain (fail e) g = fail e"
  by (simp add: chain_def handle_def fail_def fun_eq_iff)

lemma define_segments_append:
  "define_segments F E v eh (xs @ ys) = chain (define_segments F E v eh xs) (\<lambda>_. define_segments F E v eh ys)"
proof (induction xs)
  case (Cons i xs)
  then show ?case by (simp add: chain_assoc chain_if chain_fail cong: if_cong)
qed (simp add: chain_succeed)

lemma load_elf_overrun:
  assumes rd: "reads_file F v fc cur I" and ld: "loading cur I K Y as c U s" and pf: "program_file fc n"
    and eh: "local_block K (xe_eh E) EHDR_SIZE" and ph: "local_block K (xe_ph E) PHDR_SIZE"
    and room: "n = length (xe_table E (table_bytes (header_of fc)))" and n: "1 \<le> n"
  shows "load_elf F E v s = None"
proof -
  let ?h = "header_of fc" and ?T = "xe_table E (table_bytes (header_of fc))"
  let ?as0 = "as\<lparr>no_of_segments := int n\<rparr>"
  let ?as1 = "?as0\<lparr>page_table := part_table fc n ?T n\<rparr>"
  have h: "unat (e_phnum ?h) = Suc n" "executable_header ?h" "52 \<le> length fc" using pf by (simp_all add: program_file_def)
  have mk: "make_table E ?h as = Some (?as0\<lparr>page_table := take n ?T\<rparr>)" by (simp add: make_table_def Let_def h)
  obtain s1 where s1: "read_struct F v (xe_eh E) EHDR_SIZE 0 s = Some (Inr (), s1)" "loading cur I K Y as c U s1"
    "ehdr_at (xe_eh E) (kernel_bytes s1) = ?h"
    using wpD [OF wp_read_ehdr [OF rd ld eh h(3)]] by blast
  obtain s2 where s2: "step_as (make_table E ?h) s1 = Some (Inr (), s2)" "loading cur I K Y (?as0\<lparr>page_table := take n ?T\<rparr>) c U s2"
    using wpD [OF loading_step [where f = "make_table E ?h", OF s1(2) mk]] by blast
  have "wp (define_segments F E v ?h [0..<n]) (\<lambda>r s'. r = Inr () \<and> loading cur I K Y ?as1 c U s') s2"
    by (rule wp_define_all [OF rd ph pf refl _ n _ _ _ s2(2)]) (use room in simp_all)
  from wpD [OF this] obtain s3 where s3: "define_segments F E v ?h [0..<n] s2 = Some (Inr (), s3)" "loading cur I K Y ?as1 c U s3"
    by blast
  have "length (part_table fc n ?T n) = n" by (rule length_part) (use room n in simp_all)
  then have "clear_entry E ?h n ?as1 = None" using room by (simp add: clear_entry_def)
  then have "step_as (clear_entry E ?h n) s3 = None"
    using s3(2) by (simp add: step_as_def chain_def handle_def get_as_def loading_def panic_def)
  then have "define_segments F E v ?h [n] s3 = None" by (simp add: chain_def handle_def)
  then have "define_segments F E v ?h [0..<Suc n] s2 = None"
    by (simp add: define_segments_append chain_def handle_def s3(1))
  then have stop: "chain (define_segments F E v ?h [0..<Suc n]) g s2 = None" for g :: "unit \<Rightarrow> ('a psys, u32) op"
    by (simp add: chain_def handle_def)
  have r1: "chain (read_struct F v (xe_eh E) EHDR_SIZE 0) g s = g () s1" for g :: "unit \<Rightarrow> ('a psys, u32) op"
    by (rule chain_Inr) (rule s1(1))
  have r2: "chain (step_as (make_table E ?h)) g s1 = g () s2" for g :: "unit \<Rightarrow> ('a psys, u32) op"
    by (rule chain_Inr) (rule s2(1))
  show ?thesis
    unfolding load_elf_def r1 chain_gets s1(3) h(1) if_not_P [OF iffD2 [OF not_not h(2)]] r2 by (rule stop)
qed

end
