(* ===== verification/Exec_Run.thy ===== *)
theory Exec_Run
  imports Exec_Facts Kmalloc
begin

text \<open>
  The whole of \<open>sys_execv\<close>: from the arguments in the memory of the old program to the registers and the memory of
  the new one, and what is left when the file turns out not to be a program.
\<close>

section \<open>Counting and copying the arguments\<close>

definition user_args :: "prot \<Rightarrow> bytes \<Rightarrow> u32 \<Rightarrow> u8 list list \<Rightarrow> bool" where
  "user_args p m args ss \<longleftrightarrow> args \<noteq> 0 \<and> unat args + 4 * (length ss + 1) \<le> 2 ^ 31 \<and>
     raw_word p (args + 4 * of_nat (length ss)) m = Some 0 \<and>
     (\<forall>i < length ss. \<exists>a. raw_word p (args + 4 * of_nat i) m = Some a \<and> a \<noteq> 0 \<and> cstr m a (ss ! i) \<and>
        unat a + length (ss ! i) < 2 ^ 31 \<and> (\<forall>k \<le> length (ss ! i). can_read p (a + of_nat k)))"

text \<open>The copies: somewhere in the kernel, apart from one another and from \<^verbatim>\<open>arg_pointers\<close>, with room for the block
  on the stack.\<close>

definition arg_copy :: "exec_env \<Rightarrow> u8 list list \<Rightarrow> nat \<Rightarrow> u32" where
  "arg_copy E ss i = xe_copy E i (of_nat (length (ss ! i)) + 1)"

definition apart :: "u32 \<Rightarrow> nat \<Rightarrow> u32 \<Rightarrow> nat \<Rightarrow> bool" where
  "apart a n b k \<longleftrightarrow> unat a + n \<le> unat b \<or> unat b + k \<le> unat a"

definition args_fit :: "exec_env \<Rightarrow> u8 list list \<Rightarrow> bool" where
  "args_fit E ss \<longleftrightarrow> xe_argv E \<noteq> 0 \<and> below ss 0 + 4 * (length ss + 1) + 8 \<le> DUMBVM_STACKPAGES * 4096 \<and>
     xe_ptrs E AND 3 = 0 \<and> 2 ^ 31 \<le> unat (xe_ptrs E) \<and> unat (xe_ptrs E) + 4 * (length ss + 1) \<le> 2 ^ 32 \<and>
     (\<forall>i < length ss. 2 ^ 31 \<le> unat (arg_copy E ss i) \<and> unat (arg_copy E ss i) + length (ss ! i) + 1 \<le> 2 ^ 32 \<and>
        apart (arg_copy E ss i) (length (ss ! i) + 1) (xe_ptrs E) (4 * (length ss + 1)) \<and>
        (\<forall>j < length ss. i \<noteq> j \<longrightarrow>
           apart (arg_copy E ss i) (length (ss ! i) + 1) (arg_copy E ss j) (length (ss ! j) + 1)))"

lemma raw_word_cong:
  assumes "\<And>a. unat a < 2 ^ 31 \<Longrightarrow> m' a = m a" and "unat a + 4 \<le> 2 ^ 31"
  shows "raw_word p a m' = raw_word p a m"
proof -
  have "word_at a m' = word_at a m"
  proof (rule word_at_cong)
    fix k :: nat assume "k < 4"
    then have "unat (a + of_nat k) = unat a + k" using assms(2) by (intro unat_add_small) simp
    then show "m' (a + of_nat k) = m (a + of_nat k)" using assms \<open>k < 4\<close> by simp
  qed
  then show ?thesis by (simp add: raw_word_def)
qed

lemma arg_slot: "user_args p m args ss \<Longrightarrow> i \<le> length ss \<Longrightarrow> unat (args + 4 * of_nat i) + 4 \<le> 2 ^ 31"
proof -
  assume u: "user_args p m args ss" and i: "i \<le> length ss"
  have "unat (args + of_nat (4 * i)) = unat args + 4 * i"
    by (rule unat_add_small) (use u i in \<open>simp add: user_args_def\<close>)
  then show ?thesis using u i by (simp add: user_args_def)
qed

lemma user_args_cong:
  assumes u: "user_args p m args ss" and e: "\<And>a. unat a < 2 ^ 31 \<Longrightarrow> m' a = m a"
  shows "user_args p m' args ss"
proof -
  have w: "raw_word p (args + 4 * of_nat i) m' = raw_word p (args + 4 * of_nat i) m" if "i \<le> length ss" for i
    by (rule raw_word_cong [OF e arg_slot [OF u that]])
  have c: "cstr m' a s" if "cstr m a s" "unat a + length s < 2 ^ 31" for a s
  proof (rule cstr_cong [OF that(1)])
    fix k assume "k \<le> length s"
    then have "unat (a + of_nat k) = unat a + k" using that(2) by (intro unat_add_small) simp
    then show "m' (a + of_nat k) = m (a + of_nat k)" using that(2) \<open>k \<le> length s\<close> by (intro e) simp
  qed
  have "\<exists>a. raw_word p (args + 4 * of_nat i) m' = Some a \<and> a \<noteq> 0 \<and> cstr m' a (ss ! i) \<and>
      unat a + length (ss ! i) < 2 ^ 31 \<and> (\<forall>k \<le> length (ss ! i). can_read p (a + of_nat k))" if i: "i < length ss" for i
  proof -
    obtain a where "raw_word p (args + 4 * of_nat i) m = Some a" "a \<noteq> 0" "cstr m a (ss ! i)"
      "unat a + length (ss ! i) < 2 ^ 31" "\<forall>k \<le> length (ss ! i). can_read p (a + of_nat k)"
      using u i by (auto simp: user_args_def)
    then show ?thesis using c w [of i] i by simp
  qed
  then show ?thesis using u w [of "length ss"] by (simp add: user_args_def)
qed

lemma count_args_run:
  assumes "user_args p m args ss"
  shows "i \<le> length ss \<Longrightarrow> count_args p args m i = Some (length ss)"
proof (induction i rule: inc_induct)
  case base
  then show ?case using assms by (simp add: count_args.simps user_args_def)
next
  case (step i)
  then obtain a where "raw_word p (args + 4 * of_nat i) m = Some a" "a \<noteq> 0" using assms by (auto simp: user_args_def)
  then show ?case using step.IH by (simp add: count_args.simps)
qed

lemma raw_strlen_cstr:
  assumes "cstr m a s" and "\<forall>k \<le> length s. can_read p (a + of_nat k)" and "length s < 2 ^ 32"
  shows "raw_strlen p a m = Some (of_nat (length s))"
  using strlen_cstr [OF assms(1)] assms(2) unat_of_nat_small [OF assms(3)] by (auto simp: raw_strlen_def list_all_iff)

lemma copy_step:
  fixes s :: "'a psys"
  assumes fit: "args_fit E ss" and p: "kseg0_ok (xe_prot E)" and u: "user_args (xe_prot E) (kernel_bytes s) args ss"
    and i: "i < length ss" and cl: "clean s"
  shows "\<exists>m'. copy_args E args (i # is) s =
      chain (copy_args E args is) (\<lambda>rest. succeed (arg_copy E ss i # rest)) (set_kernel_bytes m' s) \<and>
    cstr m' (arg_copy E ss i) (ss ! i) \<and>
    (\<forall>b. unat b < unat (arg_copy E ss i) \<or> unat (arg_copy E ss i) + (length (ss ! i) + 1) \<le> unat b \<longrightarrow> m' b = kernel_bytes s b)"
proof -
  let ?P = "xe_prot E" and ?m = "kernel_bytes s" and ?n = "length (ss ! i)" and ?c = "arg_copy E ss i"
  obtain a where a: "raw_word ?P (args + 4 * of_nat i) ?m = Some a" "cstr ?m a (ss ! i)" "unat a + ?n < 2 ^ 31"
    "\<forall>k \<le> ?n. can_read ?P (a + of_nat k)"
    using u i by (auto simp: user_args_def)
  have c: "2 ^ 31 \<le> unat ?c" "unat ?c + (?n + 1) \<le> 2 ^ 32" using fit i by (auto simp: args_fit_def)
  have len: "raw_strlen ?P a ?m = Some (of_nat ?n)" by (rule raw_strlen_cstr [OF a(2,4)]) (use a(3) in simp)
  have n: "unat (of_nat (?n + 1) :: u32) = ?n + 1" by (rule unat_of_nat_small) (use a(3) in simp)
  let ?m' = "moved ?c a (of_nat (?n + 1)) ?m"
  have "copyinstr ?P a ?c (of_nat (?n + 1)) m = (Inr (?n + 1), m\<lparr>bytes_of := ?m'\<rparr>)"
    if m: "bytes_of m = ?m" "\<not> badfault m" for m
    unfolding m(1) [symmetric]
  proof (rule copyinstr_string)
    show "\<forall>k \<le> ?n. can_read ?P (a + of_nat k) \<and> can_write ?P (?c + of_nat k)"
    proof (intro allI impI conjI)
      fix k assume k: "k \<le> ?n"
      show "can_read ?P (a + of_nat k)" using a(4) k by simp
      have "unat (?c + of_nat k) = unat ?c + k" by (rule unat_add_small) (use c k in simp)
      then show "can_write ?P (?c + of_nat k)" using p c by (simp add: kseg0_ok_def)
    qed
    show "kernel_block ?c (of_nat (?n + 1))" using c n by (simp add: kernel_block_def no_wrap_def)
  qed (use a n m in \<open>simp_all add: cstr_def\<close>)
  then have run: "on_files (on_vfs (on_user (copyinstr ?P a ?c (of_nat (?n + 1))))) s = Some (Inr (?n + 1), set_kernel_bytes ?m' s)"
    using cl by (intro user_copy) (simp add: clean_def kernel_bytes_def)
  have r: "handle (on_files (on_vfs (on_user (copyinstr ?P a ?c (of_nat (?n + 1)))))) g s = g (Inr (?n + 1)) (set_kernel_bytes ?m' s)"
    for g :: "errno + nat \<Rightarrow> ('a psys, u32 list) op"
    by (rule handle_at) (rule run)
  have cc: "xe_copy E i (of_nat ?n + 1) = ?c" and n1: "(of_nat ?n + 1 :: u32) = of_nat (?n + 1)"
    by (simp_all add: arg_copy_def)
  have argv: "xe_argv E \<noteq> 0" using fit by (simp add: args_fit_def)
  have en: "chain (ensure (\<lambda>_. xe_argv E \<noteq> 0)) g s = g () s" for g :: "unit \<Rightarrow> ('a psys, u32 list) op"
    by (rule chain_Inr) (simp add: ensure_def argv)
  have "copy_args E args (i # is) s = chain (copy_args E args is) (\<lambda>rest. succeed (?c # rest)) (set_kernel_bytes ?m' s)"
    by (simp only: copy_args.simps chain_gets a(1) len need_some_Some chain_succeed cc en) (simp only: n1 r)
  moreover have "cstr ?m' ?c (ss ! i)" by (rule moved_cstr [OF a(2)]) 
  moreover have "?m' b = ?m b" if "unat b < unat ?c \<or> unat ?c + (?n + 1) \<le> unat b" for b
    by (rule moved_out) (use c a that in simp_all)
  ultimately show ?thesis by blast
qed


lemma copy_args_run:
  fixes s :: "'a psys"
  assumes fit: "args_fit E ss" and p: "kseg0_ok (xe_prot E)"
  shows "k \<le> length ss \<Longrightarrow> user_args (xe_prot E) (kernel_bytes s) args ss \<Longrightarrow> clean s \<Longrightarrow>
    \<forall>j < k. cstr (kernel_bytes s) (arg_copy E ss j) (ss ! j) \<Longrightarrow>
    \<exists>m'. copy_args E args [k..<length ss] s = Some (Inr (map (arg_copy E ss) [k..<length ss]), set_kernel_bytes m' s) \<and>
      (\<forall>j < length ss. cstr m' (arg_copy E ss j) (ss ! j))"
proof (induction k arbitrary: s rule: inc_induct)
  case base
  have "set_kernel_bytes (kernel_bytes s) s = s" by (simp add: set_kernel_bytes_def kernel_bytes_def Let_def)
  then show ?case using base by (intro exI [of _ "kernel_bytes s"]) (simp add: succeed_def)
next
  case (step i)
  have up: "[i..<length ss] = i # [Suc i..<length ss]" using step.hyps by (intro upt_conv_Cons) simp
  have c: "2 ^ 31 \<le> unat (arg_copy E ss j) \<and> unat (arg_copy E ss j) + (length (ss ! j) + 1) \<le> 2 ^ 32" if "j < length ss" for j
    using fit that by (auto simp: args_fit_def)
  obtain m1 where m1: "copy_args E args (i # [Suc i..<length ss]) s =
      chain (copy_args E args [Suc i..<length ss]) (\<lambda>rest. succeed (arg_copy E ss i # rest)) (set_kernel_bytes m1 s)"
    "cstr m1 (arg_copy E ss i) (ss ! i)"
    "\<And>b. unat b < unat (arg_copy E ss i) \<or> unat (arg_copy E ss i) + (length (ss ! i) + 1) \<le> unat b \<Longrightarrow> m1 b = kernel_bytes s b"
    using copy_step [OF fit p step.prems(1) step.hyps(2) step.prems(2)] by blast
  let ?s1 = "set_kernel_bytes m1 s"
  have "user_args (xe_prot E) (kernel_bytes ?s1) args ss"
    by (rule user_args_cong [OF step.prems(1)]) (use m1(3) c [OF step.hyps(2)] in simp)
  moreover have "cstr m1 (arg_copy E ss j) (ss ! j)" if j: "j < i" for j
  proof (rule cstr_cong)
    show "cstr (kernel_bytes s) (arg_copy E ss j) (ss ! j)" using step.prems(3) j by simp
    fix k assume k: "k \<le> length (ss ! j)"
    have "unat (arg_copy E ss j + of_nat k) = unat (arg_copy E ss j) + k"
      by (rule unat_add_small) (use c [of j] j step.hyps(2) k in simp)
    moreover have "apart (arg_copy E ss i) (length (ss ! i) + 1) (arg_copy E ss j) (length (ss ! j) + 1)"
      using fit j step.hyps(2) by (simp add: args_fit_def)
    ultimately show "m1 (arg_copy E ss j + of_nat k) = kernel_bytes s (arg_copy E ss j + of_nat k)"
      using k by (intro m1(3)) (auto simp: apart_def)
  qed
  ultimately obtain m' where m': "copy_args E args [Suc i..<length ss] ?s1 =
      Some (Inr (map (arg_copy E ss) [Suc i..<length ss]), set_kernel_bytes m' ?s1)"
    "\<forall>j < length ss. cstr m' (arg_copy E ss j) (ss ! j)"
    using step.IH [of ?s1] step.prems(2) m1(2) by (auto simp: less_Suc_eq)
  have "copy_args E args [i..<length ss] s = Some (Inr (map (arg_copy E ss) [i..<length ss]), set_kernel_bytes m' s)"
    unfolding up m1(1) by (simp add: chain_def handle_def m'(1) succeed_def)
  then show ?case using m'(2) by blast
qed

section \<open>Running a program\<close>

text \<open>The file of a program: it can be read, and closing it does not stop the kernel or change memory.\<close>

definition program_source :: "'f fsops \<Rightarrow> nat \<Rightarrow> u8 list \<Rightarrow> nat \<Rightarrow> ('f vfs \<Rightarrow> bool) \<Rightarrow> bool" where
  "program_source F v fc cur I \<longleftrightarrow> reads_file F v fc cur I \<and>
     (\<forall>vf. I vf \<longrightarrow> (\<exists>r vf'. vfs_close F v vf = Some (r, vf') \<and> user vf' = user vf))"

text \<open>The addresses that a load leaves alone: those of the user, which it writes as the program says, and the copies of
  the arguments. The local variables and the page of the stack lie elsewhere.\<close>

definition kept :: "exec_env \<Rightarrow> u8 list list \<Rightarrow> u32 set" where
  "kept E ss = {a. a < USERSPACETOP} \<union>
     {a. \<exists>i < length ss. unat (arg_copy E ss i) \<le> unat a \<and> unat a < unat (arg_copy E ss i) + length (ss ! i) + 1}"

definition exec_room :: "exec_env \<Rightarrow> u8 list \<Rightarrow> nat \<Rightarrow> u8 list list \<Rightarrow> nat \<Rightarrow> bool" where
  "exec_room E fc n ss stack \<longleftrightarrow> n < length (xe_table E (table_bytes (header_of fc))) \<and> args_fit E ss \<and>
     kseg0_ok (xe_prot E) \<and>
     (\<forall>a. USERSTACK - 73728 \<le> a \<longrightarrow> can_read (xe_new_prot E) a \<and> can_write (xe_new_prot E) a) \<and>
     local_block (kept E ss) (xe_eh E) EHDR_SIZE \<and> local_block (kept E ss) (xe_ph E) PHDR_SIZE \<and>
     outside (kept E ss) (PADDR_TO_KVADDR (of_nat stack)) (DUMBVM_STACKPAGES * 4096)"

definition enough_pages :: "u8 list \<Rightarrow> nat \<Rightarrow> cmap \<Rightarrow> cmap \<Rightarrow> nat list \<Rightarrow> nat \<Rightarrow> bool" where
  "enough_pages fc n c c' pas stack \<longleftrightarrow> memory_size c \<le> 131072 \<and>
     alloc_all getppages (program_pages fc n) c = (c', pas @ [stack]) \<and>
     (\<forall>pa \<in> set (pas @ [stack]). (of_nat pa :: u32) \<noteq> 0)"

lemma block_ok_copies:
  assumes "args_fit E ss" and "\<forall>a. USERSTACK - 73728 \<le> a \<longrightarrow> can_read (xe_new_prot E) a \<and> can_write (xe_new_prot E) a"
    and "\<forall>j < length ss. cstr m (arg_copy E ss j) (ss ! j)"
  shows "block_ok E (map (arg_copy E ss) [0..<length ss]) ss m"
  using assms by (auto simp: block_ok_def args_fit_def apart_def)

text \<open>The new address space put in the place of the old one.\<close>

lemma enter_new_space:
  fixes s :: "'f psys"
  assumes "curproc s = Some cur" and "procs s cur \<noteq> None"
    and inv: "\<forall>vf u. I vf \<longrightarrow> I (vf\<lparr>user := u\<rparr>)" and "I (vfs_of (files s))" and "clean s"
  shows "\<exists>s2. (\<forall>g :: unit \<Rightarrow> ('f psys, 'b) op. chain (put_as (Some as)) (\<lambda>_. chain (enter_space E) g) s = g () s2) \<and>
    loading cur I K (sync s) as (frames s) (\<lambda>a. if a < USERSPACETOP then xe_pages E a else kernel_bytes s a) s2"
proof -
  obtain pr where pr: "procs s cur = Some pr" using assms(2) by blast
  let ?m = "\<lambda>a. if a < USERSPACETOP then xe_pages E a else kernel_bytes s a"
  let ?s1 = "s\<lparr>procs := (procs s)(cur \<mapsto> pr\<lparr>p_addrspace := Some as\<rparr>)\<rparr>"
  let ?s2 = "set_kernel_bytes ?m ?s1"
  have put: "put_as (Some as) s = Some (Inr (), ?s1)"
    using assms(1) pr by (simp add: put_as_def proc_setas_def upd_proc_def)
  have k1: "kernel_bytes ?s1 = kernel_bytes s" by (simp add: kernel_bytes_def)
  have step: "chain (put_as (Some as)) g s = g () ?s1" for g :: "unit \<Rightarrow> ('f psys, 'b) op"
    by (rule chain_Inr) (rule put)
  have "chain (put_as (Some as)) (\<lambda>_. chain (enter_space E) g) s = g () ?s2" for g :: "unit \<Rightarrow> ('f psys, 'b) op"
    unfolding step by (simp only: enter_space_def chain_modify k1)
  moreover have "curproc ?s2 = Some cur" "proc_getas ?s2 = Some as" "sync ?s2 = sync s" "frames ?s2 = frames s"
    "vfs_of (files ?s2) = (vfs_of (files s))\<lparr>user := (user (vfs_of (files s)))\<lparr>bytes_of := ?m\<rparr>\<rparr>"
    using assms(1) by (simp_all add: set_kernel_bytes_def Let_def curproc_def proc_getas_def)
  moreover have "clean ?s2" using assms(5) by (simp add: clean_def set_kernel_bytes_def Let_def)
  ultimately show ?thesis using inv assms(4) by (intro exI [of _ ?s2]) (auto simp: loading_def)
qed


text \<open>The load and the close: either the load fails, or the program is there.\<close>

lemma load_and_close_run:
  assumes src: "program_source F v fc cur I" and pf: "program_file fc n" and room: "exec_room E fc n ss stack"
    and mem: "enough_pages fc n c c' pas stack" and ld: "loading cur I (kept E ss) Y as c U s"
  shows "\<exists>as' s'. load_and_close F E v s = Some (Inr (e_entry (header_of fc)), s') \<and> clean s' \<and> sync s' = Y \<and>
    proc_getas s' = Some as' \<and> frames s' = c' \<and> program_space fc n pas stack as' \<and>
    program_image fc n U (kernel_bytes s') \<and>
    (\<forall>j < length ss. cstr U (arg_copy E ss j) (ss ! j) \<longrightarrow> cstr (kernel_bytes s') (arg_copy E ss j) (ss ! j))"
proof -
  have rd: "reads_file F v fc cur I" using src by (simp add: program_source_def)
  have "wp (load_elf F E v) (\<lambda>r s'. r = Inr (e_entry (header_of fc)) \<and>
    (\<exists>as' U'. loading cur I (kept E ss) Y as' c' U' s' \<and> program_space fc n pas stack as' \<and>
       program_image fc n U (kernel_bytes s') \<and>
       (\<forall>a \<in> kept E ss. USERSPACETOP \<le> a \<longrightarrow> kernel_bytes s' a = U a))) s"
    by (rule load_elf_run [OF rd ld pf]) (use room mem in \<open>auto simp: exec_room_def enough_pages_def kept_def\<close>)
  then obtain s1 as' U' where s1: "load_elf F E v s = Some (Inr (e_entry (header_of fc)), s1)"
    "loading cur I (kept E ss) Y as' c' U' s1" "program_space fc n pas stack as'" "program_image fc n U (kernel_bytes s1)"
    "\<forall>a \<in> kept E ss. USERSPACETOP \<le> a \<longrightarrow> kernel_bytes s1 a = U a"
    by (auto simp: wp_def split: option.splits)
  obtain r vf' where vf': "vfs_close F v (vfs_of (files s1)) = Some (r, vf')" "user vf' = user (vfs_of (files s1))"
    using src s1(2) by (auto simp: program_source_def loading_def)
  let ?s' = "s1\<lparr>files := (files s1)\<lparr>vfs_of := vf'\<rparr>\<rparr>"
  have close: "on_files (on_vfs (vfs_close F v)) s1 = Some (r, ?s')" by (simp add: on_files_def on_vfs_def vf'(1))
  have "load_and_close F E v s = Some (Inr (e_entry (header_of fc)), ?s')"
    unfolding load_and_close_def by (simp add: handle_def s1(1) close give_def)
  moreover have "proc_getas ?s' = proc_getas s1" by (simp add: proc_getas_def curproc_def)
  moreover have "kernel_bytes ?s' = kernel_bytes s1" "clean ?s' = clean s1" using vf'(2) by (simp_all add: kernel_bytes_def clean_def)
  moreover have "cstr (kernel_bytes s1) (arg_copy E ss j) (ss ! j)"
    if j: "j < length ss" "cstr U (arg_copy E ss j) (ss ! j)" for j
  proof (rule cstr_cong [OF j(2)])
    fix k assume k: "k \<le> length (ss ! j)"
    have c: "2 ^ 31 \<le> unat (arg_copy E ss j)" "unat (arg_copy E ss j) + length (ss ! j) + 1 \<le> 2 ^ 32"
      using room j(1) by (auto simp: exec_room_def args_fit_def)
    have a: "unat (arg_copy E ss j + of_nat k) = unat (arg_copy E ss j) + k" by (rule unat_add_small) (use c k in simp)
    then have "arg_copy E ss j + of_nat k \<in> kept E ss" using j(1) k by (auto simp: kept_def)
    moreover have "USERSPACETOP \<le> arg_copy E ss j + of_nat k" using a c by (simp add: word_le_nat_alt)
    ultimately show "kernel_bytes s1 (arg_copy E ss j + of_nat k) = U (arg_copy E ss j + of_nat k)" using s1(5) by blast
  qed
  ultimately show ?thesis using s1(2-4) by (auto simp: loading_def)
qed

lemma execv_run:
  fixes s :: "'f psys"
  assumes old: "user_args (xe_prot E) (kernel_bytes s0) args ss" "open_program F E progname s0 = Some (Inr v, s)"
    and args: "user_args (xe_prot E) (kernel_bytes s) args ss"
    and src: "program_source F v fc cur I" "I (vfs_of (files s))" and pf: "program_file fc n"
    and room: "exec_room E fc n ss stack" and mem: "enough_pages fc n (frames s) c' pas stack"
    and cur: "curproc s = Some cur" "procs s cur \<noteq> None" "at_spl0 s" "clean s" and as: "xe_as E = Some as0"
  shows "\<exists>tf s' as' m. sys_execv F E progname args s0 = Some (Inr tf, s') \<and>
    tf_epc tf = e_entry (header_of fc) \<and> tf_a0 tf = of_nat (length ss) \<and> tf_a1 tf = tf_sp tf \<and>
    argument_block ss (tf_sp tf) (kernel_bytes s') \<and>
    program_image fc n (xe_pages E) m \<and> below_stack m (kernel_bytes s') \<and>
    proc_getas s' = Some as' \<and> program_space fc n pas stack as' \<and> frames s' = c'"
proof -
  let ?as = "as0\<lparr>as_stackpbase := 0\<rparr>" and ?copies = "map (arg_copy E ss) [0..<length ss]"
  have fit: "args_fit E ss" "kseg0_ok (xe_prot E)"
    "\<forall>a. USERSTACK - 73728 \<le> a \<longrightarrow> can_read (xe_new_prot E) a \<and> can_write (xe_new_prot E) a"
    using room by (simp_all add: exec_room_def)
  have argc: "(if args = 0 then Some 0 else count_args (xe_prot E) args (kernel_bytes s0) 0) = Some (length ss)"
    using count_args_run [OF old(1), of 0] old(1) by (simp add: user_args_def)
  obtain m1 where m1: "copy_args E args [0..<length ss] s = Some (Inr ?copies, set_kernel_bytes m1 s)"
    "\<forall>j < length ss. cstr m1 (arg_copy E ss j) (ss ! j)"
    using copy_args_run [OF fit(1,2), of 0 s args] args cur(4) by auto
  let ?s1 = "set_kernel_bytes m1 s"
  let ?U = "\<lambda>a. if a < USERSPACETOP then xe_pages E a else m1 a"
  have inv: "\<forall>vf u. I vf \<longrightarrow> I (vf\<lparr>user := u\<rparr>)" using src(1) by (simp add: program_source_def reads_file_def)
  have s1: "curproc ?s1 = Some cur" "procs ?s1 cur \<noteq> None" "I (vfs_of (files ?s1))" "clean ?s1" "sync ?s1 = sync s"
    "frames ?s1 = frames s" "kernel_bytes ?s1 = m1"
    using cur src(2) inv by (simp_all add: set_kernel_bytes_def Let_def curproc_def clean_def kernel_bytes_def)
  obtain s2 where s2: "\<And>g :: unit \<Rightarrow> ('f psys, trapframe) op.
      chain (put_as (Some ?as)) (\<lambda>_. chain (enter_space E) g) ?s1 = g () s2"
    "loading cur I (kept E ss) (sync s) ?as (frames s) ?U s2"
    using enter_new_space [OF s1(1,2) inv s1(3,4), of ?as E "kept E ss"] unfolding s1(5-7) by blast
  obtain as' s3 where s3: "load_and_close F E v s2 = Some (Inr (e_entry (header_of fc)), s3)" "clean s3" "sync s3 = sync s"
    "proc_getas s3 = Some as'" "frames s3 = c'" "program_space fc n pas stack as'" "program_image fc n ?U (kernel_bytes s3)"
    "\<forall>j < length ss. cstr ?U (arg_copy E ss j) (ss ! j) \<longrightarrow> cstr (kernel_bytes s3) (arg_copy E ss j) (ss ! j)"
    using load_and_close_run [OF src(1) pf room mem s2(2)] by blast
  have "cstr ?U (arg_copy E ss j) (ss ! j)" if j: "j < length ss" for j
  proof (rule cstr_cong)
    show "cstr m1 (arg_copy E ss j) (ss ! j)" using m1(2) j by simp
    fix k assume k: "k \<le> length (ss ! j)"
    have c: "2 ^ 31 \<le> unat (arg_copy E ss j)" "unat (arg_copy E ss j) + length (ss ! j) + 1 \<le> 2 ^ 32"
      using fit(1) j by (auto simp: args_fit_def)
    have "unat (arg_copy E ss j + of_nat k) = unat (arg_copy E ss j) + k" by (rule unat_add_small) (use c k in simp)
    then show "?U (arg_copy E ss j + of_nat k) = m1 (arg_copy E ss j + of_nat k)"
      using c by (simp add: word_less_nat_alt)
  qed
  then have "block_ok E ?copies ss (kernel_bytes s3)" using s3(8) by (intro block_ok_copies [OF fit(1,3)]) blast
  from push_block_run [OF this s3(2)] obtain sp m4 where m4:
    "push_block E ?copies (length ss) USERSTACK s3 = Some (Inr sp, set_kernel_bytes m4 s3)"
    "argument_block ss sp m4" "below_stack (kernel_bytes s3) m4" by blast
  let ?s4 = "set_kernel_bytes m4 s3"
  let ?s' = "on_view (\<lambda>_. (view (base (sync s)))\<lparr>irq_on := False\<rparr>) ?s4"
  have sy4: "sync ?s4 = sync s" using s3(3) by (simp add: set_kernel_bytes_def Let_def)
  have st: "define_stack s3 = Some (Inr USERSTACK, s3)"
    using s3(4,6) mem by (auto simp: define_stack_def chain_def handle_def get_as_def as_define_stack_def program_space_def
        enough_pages_def kassert_def succeed_def)
  have "spl0 (view (base (sync s))) = Some (0, view (base (sync s)))"
    using cur(3) by (simp add: at_spl0_def spl0_def splx_def)
  then have go: "go_to_user (of_nat (length ss)) sp sp sp (e_entry (header_of fc)) ?s4 =
      Some (Inr \<lparr>tf_vaddr = 0, tf_status = 0xff00 OR 4 OR 8, tf_cause = 0, tf_v0 = 0, tf_v1 = 0, tf_a0 = of_nat (length ss),
            tf_a1 = sp, tf_a2 = sp, tf_a3 = 0, tf_sp = sp, tf_epc = e_entry (header_of fc), tf_others = []\<rparr>, ?s')"
    unfolding go_to_user_def enter_new_process_def mips_usermode_def sy4 by simp
  have open': "chain (open_program F E progname) g s0 = g v s" for g :: "nat \<Rightarrow> ('f psys, trapframe) op"
    by (rule chain_Inr) (rule old(2))
  have copy': "chain (copy_args E args [0..<length ss]) g s = g ?copies ?s1" for g :: "u32 list \<Rightarrow> ('f psys, trapframe) op"
    by (rule chain_Inr) (rule m1(1))
  have load': "chain (load_and_close F E v) g s2 = g (e_entry (header_of fc)) s3" for g :: "u32 \<Rightarrow> ('f psys, trapframe) op"
    by (rule chain_Inr) (rule s3(1))
  have st': "chain define_stack g s3 = g USERSTACK s3" for g :: "u32 \<Rightarrow> ('f psys, trapframe) op"
    by (rule chain_Inr) (rule st)
  have push': "chain (push_block E ?copies (length ss) USERSTACK) g s3 = g sp ?s4" for g :: "u32 \<Rightarrow> ('f psys, trapframe) op"
    by (rule chain_Inr) (rule m4(1))
  have "sys_execv F E progname args s0 =
      Some (Inr \<lparr>tf_vaddr = 0, tf_status = 0xff00 OR 4 OR 8, tf_cause = 0, tf_v0 = 0, tf_v1 = 0, tf_a0 = of_nat (length ss),
            tf_a1 = sp, tf_a2 = sp, tf_a3 = 0, tf_sp = sp, tf_epc = e_entry (header_of fc), tf_others = []\<rparr>, ?s')"
    unfolding sys_execv_def chain_gets argc need_some_Some chain_succeed Let_def as_create_def as option.map
      open' copy' s2(1) load' st' push' by (rule go)
  moreover have "program_image fc n (xe_pages E) (kernel_bytes s3)"
    using s3(7) by (simp add: program_image_def)
  moreover have "kernel_bytes ?s' = m4" "proc_getas ?s' = proc_getas s3" "frames ?s' = frames s3"
    by (simp_all add: on_view_def kernel_bytes_def proc_getas_def curproc_def set_kernel_bytes_def Let_def)
  ultimately show ?thesis using m4(2,3) s3(4-6) by (intro exI conjI) (assumption | simp)+
qed


section \<open>A file that is no program\<close>

lemma refused_load:
  assumes src: "program_source F v fc cur I" and "52 \<le> length fc" and bad: "\<not> executable_header (header_of fc)"
    and eh: "local_block K (xe_eh E) EHDR_SIZE" and ld: "loading cur I K Y as c U s"
  shows "\<exists>s'. load_and_close F E v s = Some (Inl ENOEXEC, s') \<and> proc_getas s' = Some as \<and> frames s' = c \<and>
    (\<forall>a \<in> K. kernel_bytes s' a = U a)"
proof -
  have rd: "reads_file F v fc cur I" using src by (simp add: program_source_def)
  have "wp (load_elf F E v) (\<lambda>r s'. r = Inl ENOEXEC \<and> loading cur I K Y as c U s') s"
    unfolding load_elf_def
  proof (rule wp_chainI [OF wp_read_ehdr [OF rd ld eh assms(2)]])
    fix x s1
    assume "Inr x = (Inr () :: errno + unit) \<and> loading cur I K Y as c U s1 \<and> ehdr_at (xe_eh E) (kernel_bytes s1) = header_of fc"
    then show "wp (chain (gets (\<lambda>s. ehdr_at (xe_eh E) (kernel_bytes s))) (\<lambda>eh.
       if \<not> executable_header eh then fail ENOEXEC
       else
         chain (step_as (make_table E eh)) (\<lambda>_. chain (define_segments F E v eh [0..<unat (e_phnum eh)]) (\<lambda>_.
         chain (prepare_load E) (\<lambda>_. chain (load_segments F E v eh [0..<unat (e_phnum eh)]) (\<lambda>_.
         chain (step_as as_complete_load) (\<lambda>_. succeed (e_entry eh))))))))
       (\<lambda>r s'. r = Inl ENOEXEC \<and> loading cur I K Y as c U s') s1"
      using bad unfolding wp_def chain_gets by (simp add: fail_def)
  qed simp
  then obtain s1 where s1: "load_elf F E v s = Some (Inl ENOEXEC, s1)" "loading cur I K Y as c U s1"
    by (auto simp: wp_def split: option.splits)
  obtain r vf' where vf': "vfs_close F v (vfs_of (files s1)) = Some (r, vf')" "user vf' = user (vfs_of (files s1))"
    using src s1(2) by (auto simp: program_source_def loading_def)
  let ?s' = "s1\<lparr>files := (files s1)\<lparr>vfs_of := vf'\<rparr>\<rparr>"
  have "on_files (on_vfs (vfs_close F v)) s1 = Some (r, ?s')" by (simp add: on_files_def on_vfs_def vf'(1))
  then have "load_and_close F E v s = Some (Inl ENOEXEC, ?s')"
    unfolding load_and_close_def by (simp add: handle_def s1(1) give_def)
  moreover have "proc_getas ?s' = proc_getas s1" "kernel_bytes ?s' = kernel_bytes s1"
    using vf'(2) by (simp_all add: proc_getas_def curproc_def kernel_bytes_def)
  ultimately show ?thesis using s1(2) by (auto simp: loading_def)
qed

lemma execv_refused:
  fixes s :: "'f psys"
  assumes old: "user_args (xe_prot E) (kernel_bytes s0) args ss" "open_program F E progname s0 = Some (Inr v, s)"
    and args: "user_args (xe_prot E) (kernel_bytes s) args ss"
    and src: "program_source F v fc cur I" "I (vfs_of (files s))" and bad: "52 \<le> length fc" "\<not> executable_header (header_of fc)"
    and fit: "args_fit E ss" "kseg0_ok (xe_prot E)" and eh: "kernel_block (xe_eh E) EHDR_SIZE"
    and cur: "curproc s = Some cur" "procs s cur \<noteq> None" "clean s" and as: "xe_as E = Some as0"
  shows "\<exists>s'. sys_execv F E progname args s0 = Some (Inl ENOEXEC, s') \<and>
    proc_getas s' = Some (as0\<lparr>as_stackpbase := 0\<rparr>) \<and> (\<forall>a < USERSPACETOP. kernel_bytes s' a = xe_pages E a)"
proof -
  let ?as = "as0\<lparr>as_stackpbase := 0\<rparr>" and ?K = "{a. a < USERSPACETOP} :: u32 set" and ?copies = "map (arg_copy E ss) [0..<length ss]"
  have argc: "(if args = 0 then Some 0 else count_args (xe_prot E) args (kernel_bytes s0) 0) = Some (length ss)"
    using count_args_run [OF old(1), of 0] old(1) by (simp add: user_args_def)
  obtain m1 where m1: "copy_args E args [0..<length ss] s = Some (Inr ?copies, set_kernel_bytes m1 s)"
    using copy_args_run [OF fit, of 0 s args] args cur(3) by auto
  let ?s1 = "set_kernel_bytes m1 s"
  have inv: "\<forall>vf u. I vf \<longrightarrow> I (vf\<lparr>user := u\<rparr>)" using src(1) by (simp add: program_source_def reads_file_def)
  have s1: "curproc ?s1 = Some cur" "procs ?s1 cur \<noteq> None" "I (vfs_of (files ?s1))" "clean ?s1"
    using cur src(2) inv by (simp_all add: set_kernel_bytes_def Let_def curproc_def clean_def)
  obtain s2 where s2: "\<And>g :: unit \<Rightarrow> ('f psys, trapframe) op.
      chain (put_as (Some ?as)) (\<lambda>_. chain (enter_space E) g) ?s1 = g () s2"
    "loading cur I ?K (sync ?s1) ?as (frames ?s1) (\<lambda>a. if a < USERSPACETOP then xe_pages E a else kernel_bytes ?s1 a) s2"
    using enter_new_space [OF s1(1,2) inv s1(3,4), of ?as E ?K] by blast
  have "local_block ?K (xe_eh E) EHDR_SIZE"
    using eh by (auto simp: local_block_def outside_def kernel_block_def word_less_nat_alt)
  from refused_load [OF src(1) bad this s2(2)] obtain s3 where s3: "load_and_close F E v s2 = Some (Inl ENOEXEC, s3)"
    "proc_getas s3 = Some ?as" "\<forall>a \<in> ?K. kernel_bytes s3 a = (if a < USERSPACETOP then xe_pages E a else kernel_bytes ?s1 a)"
    by blast
  have open': "chain (open_program F E progname) g s0 = g v s" for g :: "nat \<Rightarrow> ('f psys, trapframe) op"
    by (rule chain_Inr) (rule old(2))
  have copy': "chain (copy_args E args [0..<length ss]) g s = g ?copies ?s1" for g :: "u32 list \<Rightarrow> ('f psys, trapframe) op"
    by (rule chain_Inr) (rule m1)
  have load': "chain (load_and_close F E v) g s2 = Some (Inl ENOEXEC, s3)" for g :: "u32 \<Rightarrow> ('f psys, trapframe) op"
    by (rule chain_Inl) (rule s3(1))
  have "sys_execv F E progname args s0 = Some (Inl ENOEXEC, s3)"
    unfolding sys_execv_def chain_gets argc need_some_Some chain_succeed Let_def as_create_def as option.map
      open' copy' s2(1) by (rule load')
  then show ?thesis using s3(2,3) by auto
qed


section \<open>What \<open>sys_execv\<close> promises\<close>


text \<open>C17: The old program is given up before the new one is known to be one. When the file turns out to be no executable,
  \<open>sys_execv\<close> returns \<^verbatim>\<open>ENOEXEC\<close> to a program that is no longer there: the address space of the process is the new one,
  without segments or stack, and user memory holds what its pages held.\<close>

theorem execv_failure_loses_program:
  fixes s :: "'f psys"
  assumes "user_args (xe_prot E) (kernel_bytes s0) args ss" and "open_program F E progname s0 = Some (Inr v, s)"
    and "user_args (xe_prot E) (kernel_bytes s) args ss"
    and "program_source F v fc cur I" and "I (vfs_of (files s))" and "52 \<le> length fc" and "\<not> executable_header (header_of fc)"
    and "args_fit E ss" and "kseg0_ok (xe_prot E)" and "kernel_block (xe_eh E) EHDR_SIZE"
    and "curproc s = Some cur" and "procs s cur \<noteq> None" and "clean s" and "xe_as E = Some as0"
  shows "\<exists>s'. sys_execv F E progname args s0 = Some (Inl ENOEXEC, s') \<and>
    proc_getas s' = Some (as0\<lparr>as_stackpbase := 0\<rparr>) \<and> (\<forall>a < USERSPACETOP. kernel_bytes s' a = xe_pages E a)"
  by (rule execv_refused [OF assms])

text \<open>C18: The table of the segments is one entry short. \<^verbatim>\<open>load_elf\<close> asks \<^verbatim>\<open>kmalloc\<close> for one entry less than the file has
  program headers, and clears one for each. With 2, 4, 7, 13, 26, 52 or 103 headers the block that \<^verbatim>\<open>kmalloc\<close> rounds
  this up to has no room for the last, and the store goes to memory that belongs to somebody else, whatever the rest of
  the file says.\<close>

theorem load_elf_table_overrun:
  assumes "reads_file F v fc cur I" and "loading cur I K Y as c U s" and "program_file fc n"
    and "local_block K (xe_eh E) EHDR_SIZE" and "local_block K (xe_ph E) PHDR_SIZE"
    and "blocktype (unat (table_bytes (header_of fc))) = Some b"
    and "length (xe_table E (table_bytes (header_of fc))) = sizes ! b div 20" and "n \<in> {1, 3, 6, 12, 25, 51, 102}"
  shows "load_elf F E v s = None"
proof (rule load_elf_overrun [OF assms(1-5)])
  have "unat (e_phnum (header_of fc)) = Suc n" using assms(3) by (simp add: program_file_def)
  then have "table_bytes (header_of fc) = of_nat (20 * n)" by (simp add: table_bytes_def)
  then have "unat (table_bytes (header_of fc)) = 20 * n"
    using assms(8) unat_of_nat_small [of "20 * n"] by auto
  then have "blocktype (20 * n) = Some b" using assms(6) by simp
  then have "sizes ! b div 20 = n"
    using assms(8) by (auto simp: blocktype_def find_from.simps sizes_def)
  then show "n = length (xe_table E (table_bytes (header_of fc)))" using assms(7) by simp
  show "1 \<le> n" using assms(8) by auto
qed

section \<open>An example\<close>

text \<open>A file of 120 bytes: the header, a \<^verbatim>\<open>PT_MIPS_REGINFO\<close> header, one segment of four bytes at 0x400000. It is read from the null
  device, whose reads the example replaces. The old program has its arguments at 0x1000, the one string at 0x1100
  and the name at 0x1200.\<close>

definition sample_program :: "u8 list" where
  "sample_program = [0x7f, 0x45, 0x4c, 0x46, 1, 2, 1, 0, 0, 0, 0, 0, 0, 0, 0, 0, 0, 2, 0, 8, 0, 0, 0, 1, 0, 0x40, 0, 0, 0, 0, 0, 52,
     0, 0, 0, 0, 0, 0, 0, 0, 0, 52, 0, 32, 0, 2, 0, 0, 0, 0, 0, 0] @
    [0x70, 0, 0, 0, 0, 0, 0, 0, 0, 0, 0, 0, 0, 0, 0, 0, 0, 0, 0, 0, 0, 0, 0, 0, 0, 0, 0, 0, 0, 0, 0, 0] @
    [0, 0, 0, 1, 0, 0, 0, 116, 0, 0x40, 0, 0, 0, 0, 0, 0, 0, 0, 0, 4, 0, 0, 0, 4, 0, 0, 0, 5, 0, 0, 0, 0] @ [8, 0, 0, 13]"

lemmas read_sample = sample_program_def header_of_def segment_header_def ehdr_at_def phdr_at_def half_at_def word_at_def

lemma sample_header:
  "executable_header (header_of sample_program)" "e_phnum (header_of sample_program) = 2"
  "e_phoff (header_of sample_program) = 52" "e_phentsize (header_of sample_program) = 32"
  "e_entry (header_of sample_program) = 0x400000"
  by (simp_all add: read_sample executable_header_def upt_rec)

lemma sample_positions:
  "phdr_position (header_of sample_program) 0 = 52" "phdr_position (header_of sample_program) 1 = 84"
  by (simp_all add: phdr_position_def sample_header)

lemma sample_segments:
  "segment_header sample_program 0 = \<lparr>p_type = PT_MIPS_REGINFO, p_offset = 0, p_vaddr = 0, p_paddr = 0, p_filesz = 0, p_memsz = 0, p_flags = 0, p_align = 0\<rparr>"
  "segment_header sample_program 1 = \<lparr>p_type = PT_LOAD, p_offset = 116, p_vaddr = 0x400000, p_paddr = 0, p_filesz = 4, p_memsz = 4, p_flags = 5, p_align = 0\<rparr>"
  by (simp_all only: segment_header_def sample_positions) (simp_all add: sample_program_def phdr_at_def word_at_def)

lemma sample_program_ok: "program_file sample_program 1"
  using sample_header sample_positions sample_segments
  by (auto simp: program_file_def le_Suc_eq segment_fits_def skipped_type_def user_block_def file_size_def)
    (simp_all add: sample_program_def)

definition serve :: "u8 list \<Rightarrow> 'f fsops" where
  "serve fc = null_kernel\<lparr>vop_read := (\<lambda>v u vf. Some (Inr (u\<lparr>uio_resid := 0\<rparr>), vf\<lparr>user := (user vf)\<lparr>bytes_of :=
     laid (iov_base (hd (uio_iov u))) (take (unat (uio_resid u)) (drop (unat (uio_offset u)) fc)) (bytes_of (user vf))\<rparr>\<rparr>))\<rparr>"

definition served :: "'f vfs \<Rightarrow> bool" where
  "served vf \<longleftrightarrow> vnodes vf 1 \<noteq> None \<and> 1 < refcount vf 1"

lemma serve_source: "program_source (serve fc :: 'f fsops) 1 fc cur served"
proof -
  have "reads_file (serve fc :: 'f fsops) 1 fc cur served"
    by (auto simp: reads_file_def serve_def served_def refcount_def vop_def vnode_check_def chain_def handle_def ensure_def)
  moreover have "\<exists>r vf'. vfs_close (serve fc :: 'f fsops) 1 vf = Some (r, vf') \<and> user vf' = user vf" if "served vf" for vf :: "'f vfs"
    using that by (simp add: served_def vfs_close_def vnode_decref_def chain_def handle_def ensure_def gets_def modify_def upd_vnode_def)
  ultimately show ?thesis by (simp add: program_source_def)
qed

definition sample_user :: bytes where
  "sample_user = (\<lambda>_. 0)(0x1002 := 0x11, 0x1100 := 97, 0x1200 := 110, 0x1201 := 117, 0x1202 := 108, 0x1203 := 108, 0x1204 := 58)"

definition sample_exec :: exec_env where
  "sample_exec = \<lparr>xe_prot = \<lparr>can_read = \<lambda>_. True, can_write = \<lambda>_. True\<rparr>, xe_new_prot = \<lparr>can_read = \<lambda>_. True, can_write = \<lambda>_. True\<rparr>,
     xe_eh = 0x80100000, xe_ph = 0x80100100, xe_table = (\<lambda>_. replicate 3 zero_entry), xe_as = Some sample_as,
     xe_name = (\<lambda>_. Some 0x80100200), xe_argv = 0x80100300, xe_copy = (\<lambda>i n. 0x80100400), xe_ptrs = 0x80100500,
     xe_pages = (\<lambda>_. 0)\<rparr>"

definition sample_frames :: cmap where
  "sample_frames = \<lparr>coremap = replicate 24 empty_node, used = 2, coremap_size = 1, coremap_addr = 8192\<rparr>"

lemma scan_all_free:
  "k \<le> n \<Longrightarrow> i + (n - k) < length cm \<Longrightarrow> \<forall>j. i \<le> j \<and> j < length cm \<longrightarrow> is_free (cm ! j) \<Longrightarrow>
    alloc_scan cm n i k = Some (i + (n - k))"
proof (induction "n - k" arbitrary: i k)
  case 0
  then show ?case using alloc_scan.simps [of cm n i k] by simp
next
  case (Suc d)
  then have "alloc_scan cm n (Suc i) (Suc k) = Some (Suc i + (n - Suc k))" by (intro Suc.hyps(1)) auto
  moreover have "is_free (cm ! i)" "i < length cm" "\<not> n \<le> k" using Suc by auto
  ultimately show ?case using Suc.hyps(2) by (simp add: alloc_scan.simps [of cm n i k])
qed

lemma sample_pages: "\<exists>c'. enough_pages sample_program 1 sample_frames c' [12288] 16384"
proof -
  let ?taken = "\<lparr>is_reserved = False, is_free = False, chunk_size = 1\<rparr>"
  let ?c1 = "sample_frames\<lparr>coremap := (coremap sample_frames)[2 := ?taken]\<rparr>"
  have "alloc_scan (coremap sample_frames) 1 2 0 = Some (2 + (1 - 0))"
    by (rule scan_all_free) (auto simp: sample_frames_def empty_node_def)
  then have a: "getppages 1 sample_frames = (?c1, 12288)"
    by (simp add: getppages_def coremap_allocate_def take_chunk_def sample_frames_def empty_node_def)
  have "alloc_scan (coremap ?c1) 18 3 0 = Some (3 + (18 - 0))"
    by (rule scan_all_free) (auto simp: sample_frames_def empty_node_def)
  then have "alloc_scan (coremap ?c1) 18 2 0 = Some 21"
    by (subst alloc_scan.simps) (simp add: sample_frames_def empty_node_def)
  then have b: "snd (getppages 18 ?c1) = 16384"
    by (simp add: getppages_def coremap_allocate_def sample_frames_def)
  obtain c' where c': "getppages 18 ?c1 = (c', 16384)" using b by (cases "getppages 18 ?c1") simp
  have "program_pages sample_program 1 = [1, 18]"
    by (simp add: program_pages_def program_entries_def segment_entry_def sample_segments [simplified])
  then show ?thesis using a c' by (auto simp: enough_pages_def memory_size_def sample_frames_def)
qed

lemma sample_room: "exec_room sample_exec sample_program 1 [[97]] 16384"
proof -
  have c: "arg_copy sample_exec [[97]] i = 0x80100400" for i by (simp add: arg_copy_def sample_exec_def)
  have "args_fit sample_exec [[97]]"
    unfolding args_fit_def c by (simp add: sample_exec_def below_def apart_def)
  moreover have "local_block (kept sample_exec [[97]]) (xe_eh sample_exec) EHDR_SIZE"
    "local_block (kept sample_exec [[97]]) (xe_ph sample_exec) PHDR_SIZE"
    "outside (kept sample_exec [[97]]) (PADDR_TO_KVADDR (of_nat 16384)) (DUMBVM_STACKPAGES * 4096)"
    unfolding kept_def c
    by (auto simp: local_block_def outside_def kernel_block_def no_wrap_def sample_exec_def word_less_nat_alt PADDR_TO_KVADDR_def)
  ultimately show ?thesis by (simp add: exec_room_def sample_exec_def kseg0_ok_def)
qed

lemma sample_args:
  assumes "\<And>a. unat a < 2 ^ 31 \<Longrightarrow> m a = sample_user a"
  shows "user_args (xe_prot sample_exec) m 0x1000 [[97]]"
proof (rule user_args_cong [OF _ assms])
  show "user_args (xe_prot sample_exec) sample_user 0x1000 [[97]]"
    by (simp add: user_args_def raw_word_def sample_exec_def word_at_def sample_user_def cstr_def kassert_def)
qed


definition sample_caller :: "unit psys" where
  "sample_caller = (sample_psys sample_heap sample_heap pid_initialize)\<lparr>files := sample_kfs\<lparr>vfs_of := (vfs_of sample_kfs)
     \<lparr>user := \<lparr>bytes_of = sample_user, badfault = False\<rparr>\<rparr>\<rparr>, frames := sample_frames\<rparr>"


lemmas run_open = vfs_open_def serve_def null_kernel_def dev_layer_def wp_simps vfs_lookup_def locked_def sample_kfs_def
  vfs_biglock_acquire_def vfs_biglock_release_def getdevice_def first_colon_slash_def
  find_from.simps vfs_getroot_def vfs_biglock_do_i_hold_def sample_vfs_def null_knowndev_def give_vnode_def
  vnode_incref_def upd_vnode_def skip_slashes_def vop_def vnode_check_def refcount_def
  wp_by_ops isdev_def dev_eachopen_def wp_with_dev_iff null_driver_def nullopen_def

lemma sample_opened_1: "wp (vfs_open (serve fc) ''null:'' O_RDONLY 0) (\<lambda>r vf'. r = Inr 1) ((vfs_of sample_kfs)\<lparr>user := u\<rparr>)"
  by (simp add: run_open)

lemma sample_opened_2: "wp (vfs_open (serve fc) ''null:'' O_RDONLY 0) (\<lambda>r vf'. user vf' = u) ((vfs_of sample_kfs)\<lparr>user := u\<rparr>)"
  by (simp add: run_open)

lemma sample_opened_3: "wp (vfs_open (serve fc) ''null:'' O_RDONLY 0)
    (\<lambda>r vf'. vnodes vf' 1 = Some \<lparr>vn_refcount = 3, vn_fs = None, vn_isdev = True, vn_data = Some 7\<rparr>) ((vfs_of sample_kfs)\<lparr>user := u\<rparr>)"
  by (simp add: run_open)

lemma sample_opened: "wp (vfs_open (serve fc) ''null:'' O_RDONLY 0) (\<lambda>r vf'. r = Inr 1 \<and> served vf' \<and> user vf' = u)
    ((vfs_of sample_kfs)\<lparr>user := u\<rparr>)"
  using wp_conj [OF sample_opened_1 wp_conj [OF sample_opened_2 sample_opened_3], of fc u]
  by (rule wp_mono) (auto simp: served_def refcount_def)

lemma sample_open:
  "\<exists>s. open_program (serve fc) sample_exec 0x1200 sample_caller = Some (Inr 1, s) \<and> served (vfs_of (files s)) \<and> clean s \<and>
     procs s = procs sample_caller \<and> sync s = sync sample_caller \<and> frames s = frames sample_caller \<and>
     (\<forall>a. unat a < 2 ^ 31 \<longrightarrow> kernel_bytes s a = sample_user a)"
proof -
  let ?P = "xe_prot sample_exec" and ?m = "moved 0x80100200 0x1200 6 sample_user" and ?z = "0x80100200 :: u32"
  have k: "kernel_bytes sample_caller = sample_user" by (simp add: sample_caller_def kernel_bytes_def)
  have c: "cstr sample_user 0x1200 [110, 117, 108, 108, 58]"
    by (simp add: cstr_def sample_user_def All_less_Suc)
  have len: "raw_strlen ?P 0x1200 sample_user = Some 5" "strlen sample_user 0x1200 = Some 5"
    using raw_strlen_cstr [OF c, of ?P] strlen_cstr [OF c] by (simp_all add: sample_exec_def)
  have "apart_from ?z 0x1200 6" unfolding apart_from_def
  proof (intro allI impI notI)
    fix i j :: nat assume ij: "i < 6" "j < 6" and e: "(0x1200 :: u32) + of_nat i = ?z + of_nat j"
    have "unat ((0x1200 :: u32) + of_nat i) = 0x1200 + i" "unat (?z + of_nat j) = unat ?z + j"
      using ij by (simp_all add: unat_add_small)
    then show False using e ij by simp
  qed
  then have dup: "kstrdup (xe_name sample_exec) 0x1200 sample_user = Some (Some ?z, ?m)"
    using strcpy_cstr [OF c, of ?z] len(2) by (simp add: kstrdup_def sample_exec_def eval_nat_numeral)
  have nm: "name_of ?z 5 ?m = ''null:''"
    by (simp add: name_of_def sample_user_def upt_rec moved_def char_of_def bit_0)
  let ?s1 = "set_kernel_bytes ?m sample_caller"
  obtain vf' where vf': "vfs_open (serve fc) ''null:'' O_RDONLY 0 (vfs_of (files ?s1)) = Some (Inr 1, vf')" "served vf'"
    "user vf' = user (vfs_of (files ?s1))"
    using sample_opened [of fc "user (vfs_of (files ?s1))"]
    by (auto simp: wp_def set_kernel_bytes_def Let_def sample_caller_def split: option.splits)
  let ?s = "?s1\<lparr>files := (files ?s1)\<lparr>vfs_of := vf'\<rparr>\<rparr>"
  have "open_program (serve fc) sample_exec 0x1200 sample_caller = Some (Inr 1, ?s)"
    by (simp add: open_program_def chain_gets k len(1) dup chain_succeed chain_modify nm on_files_def on_vfs_def vf'(1))
  moreover have "kernel_bytes ?s = ?m" "clean ?s" using vf'(3)
    by (simp_all add: kernel_bytes_def clean_def set_kernel_bytes_def Let_def sample_caller_def)
  moreover have "?m a = sample_user a" if "unat a < 2 ^ 31" for a
    using moved_out [where d = "0x80100200" and n = 6 and a = a and src = "0x1200" and m = sample_user] that by simp
  ultimately show ?thesis using vf'(2) by (intro exI [of _ ?s]) (simp add: set_kernel_bytes_def Let_def)
qed


lemma sample_caller_process:
  "curproc sample_caller = Some 0" "procs sample_caller 0 \<noteq> None" "at_spl0 sample_caller" "frames sample_caller = sample_frames"
  by (simp_all add: sample_caller_def sample_psys_def sample_sys_def sample_thread_def curproc_def at_spl0_def)


definition sample_script :: "u8 list" where
  "sample_script = replicate 52 35"

theorem execv_failure_loses_program_witness:
  "\<exists>s'. sys_execv (serve sample_script) sample_exec 0x1200 0x1000 sample_caller = Some (Inl ENOEXEC, s') \<and>
     proc_getas s' = Some (sample_as\<lparr>as_stackpbase := 0\<rparr>) \<and> kernel_bytes s' 0x1100 = 0"
proof -
  obtain s where s: "open_program (serve sample_script) sample_exec 0x1200 sample_caller = Some (Inr 1, s)"
    "served (vfs_of (files s))" "clean s" "procs s = procs sample_caller" "sync s = sync sample_caller"
    "\<And>a. unat a < 2 ^ 31 \<Longrightarrow> kernel_bytes s a = sample_user a"
    using sample_open by blast
  have cur: "curproc s = Some 0" "procs s 0 \<noteq> None"
    using sample_caller_process s(4,5) by (simp_all add: curproc_def)
  have a: "user_args (xe_prot sample_exec) (kernel_bytes sample_caller) 0x1000 [[97]]"
    by (rule sample_args) (simp add: sample_caller_def kernel_bytes_def)
  have b: "user_args (xe_prot sample_exec) (kernel_bytes s) 0x1000 [[97]]" by (rule sample_args [OF s(6)])
  have fc: "52 \<le> length sample_script" "\<not> executable_header (header_of sample_script)"
    by (simp_all add: sample_script_def executable_header_def header_of_def ehdr_at_def)
  have E: "xe_as sample_exec = Some sample_as" "kernel_block (xe_eh sample_exec) EHDR_SIZE" "xe_pages sample_exec a = 0" for a
    by (simp_all add: sample_exec_def kernel_block_def no_wrap_def)
  have fit: "args_fit sample_exec [[97]]" "kseg0_ok (xe_prot sample_exec)" using sample_room by (simp_all add: exec_room_def)
  show ?thesis
    using execv_failure_loses_program [OF a s(1) b serve_source s(2) fc fit E(2) cur s(3) E(1)] E(3) by auto
qed


definition tight_exec :: exec_env where
  "tight_exec = sample_exec\<lparr>xe_table := (\<lambda>n. if n = 20 then replicate 1 zero_entry else replicate 3 zero_entry)\<rparr>"

definition sample_loader :: "unit psys" where
  "sample_loader = sample_caller\<lparr>procs := [0 \<mapsto> (sample_proc 0)\<lparr>p_addrspace := Some sample_as\<rparr>]\<rparr>"

theorem load_elf_table_overrun_witness:
  "load_elf (serve sample_program) tight_exec 1 sample_loader = None"
proof (rule load_elf_table_overrun)
  show "reads_file (serve sample_program :: unit fsops) 1 sample_program 0 served"
    by (rule conjunct1 [OF serve_source [unfolded program_source_def]])
  have "curproc sample_loader = curproc sample_caller" by (simp add: sample_loader_def curproc_def)
  then show "loading 0 served {} (sync sample_loader) sample_as (frames sample_loader) (\<lambda>_. 0) sample_loader"
    using sample_caller_process
    by (simp add: loading_def proc_getas_def) (simp add: sample_loader_def sample_caller_def sample_kfs_def served_def refcount_def clean_def)
  show "program_file sample_program 1" by (rule sample_program_ok)
  show "local_block {} (xe_eh tight_exec) EHDR_SIZE" "local_block {} (xe_ph tight_exec) PHDR_SIZE"
    by (simp_all add: tight_exec_def sample_exec_def local_block_def kernel_block_def no_wrap_def outside_def)
  have t: "table_bytes (header_of sample_program) = 20" by (simp add: table_bytes_def sample_header)
  show "blocktype (unat (table_bytes (header_of sample_program))) = Some 1"
    unfolding t by (simp add: blocktype_def find_from.simps sizes_def)
  show "length (xe_table tight_exec (table_bytes (header_of sample_program))) = sizes ! 1 div 20"
    unfolding t by (simp add: tight_exec_def sizes_def)
qed simp

end
