(* ===== verification/Semfs.thy ===== *)
theory Semfs
  imports Sfs_Volume
begin

text \<open>
  The file system of semaphores for user programs: \<^verbatim>\<open>fs/semfs/semfs_obj.c\<close>, \<^verbatim>\<open>semfs_vnops.c\<close> and
  \<^verbatim>\<open>semfs_fsops.c\<close>. Its private state in the VFS holds the structures of each kind by address. An entry of the
  tables of semaphores and of directory entries may be \<^verbatim>\<open>NULL\<close>, which is None.

  A function of the file system holds the locks of the structures it works on, so it is one step here, up to a
  \<^verbatim>\<open>cv_wait\<close>, and the locks are left out; the threads that sleep on the condition variable of a semaphore
  are part of it, first come first. Memory given to \<^verbatim>\<open>kfree\<close> is no longer there.
\<close>

section \<open>State\<close>

record semfs_sem =
  sems_cv :: "nat list"
  sems_count :: u32
  sems_hasvnode :: bool
  sems_linked :: bool

record semfs_direntry =
  semd_name :: string
  semd_semnum :: u32

record semfs_vnode =
  semv_semfs :: nat
  semv_semnum :: u32

record semfs =
  semfs_vnodes :: "nat karray"
  semfs_sems :: "nat option karray"
  semfs_dents :: "nat option karray"

record semfs_sys =
  semfss :: "nat \<Rightarrow> semfs option"
  semsems :: "nat \<Rightarrow> semfs_sem option"
  semdents :: "nat \<Rightarrow> semfs_direntry option"
  semvs :: "nat \<Rightarrow> semfs_vnode option"

type_synonym semst = "semfs_sys vfs"

abbreviation (input) SEMFS_ROOTDIR :: u32 where "SEMFS_ROOTDIR \<equiv> 0xffffffff"

text \<open>The allocator: addresses for the structures, and whether an array can grow. Then the running thread, what a
  result that is not set holds, where the name of a directory entry lies and which memory may be touched.\<close>

record semfs_env =
  sm_sem :: "semst \<Rightarrow> nat option"
  sm_dent :: "semst \<Rightarrow> nat option"
  sm_vnode :: "semst \<Rightarrow> nat option"
  sm_grow :: "semst \<Rightarrow> bool"
  sm_self :: nat
  sm_junk :: nat
  sm_name :: "nat \<Rightarrow> u32"
  sm_prot :: prot
  sm_curas :: "nat option"

definition on_semfs :: "(semfs_sys \<Rightarrow> semfs_sys) \<Rightarrow> semst \<Rightarrow> semst" where
  "on_semfs f s = s\<lparr>fsdata := f (fsdata s)\<rparr>"

definition the_semfs :: "nat \<Rightarrow> (semst, semfs) op" where
  "the_semfs fs = (\<lambda>s. map_option (\<lambda>x. (Inr x, s)) (semfss (fsdata s) fs))"

definition the_sem :: "nat \<Rightarrow> (semst, semfs_sem) op" where
  "the_sem k = (\<lambda>s. map_option (\<lambda>x. (Inr x, s)) (semsems (fsdata s) k))"

definition the_dent :: "nat \<Rightarrow> (semst, semfs_direntry) op" where
  "the_dent k = (\<lambda>s. map_option (\<lambda>x. (Inr x, s)) (semdents (fsdata s) k))"

definition the_semv :: "nat \<Rightarrow> (semst, semfs_vnode) op" where
  "the_semv v = (\<lambda>s. map_option (\<lambda>x. (Inr x, s)) (semvs (fsdata s) v))"

definition set_semfs :: "nat \<Rightarrow> semfs option \<Rightarrow> (semst, unit) op" where
  "set_semfs fs x = modify (on_semfs (\<lambda>y. y\<lparr>semfss := (semfss y)(fs := x)\<rparr>))"

definition set_sem :: "nat \<Rightarrow> semfs_sem option \<Rightarrow> (semst, unit) op" where
  "set_sem k x = modify (on_semfs (\<lambda>y. y\<lparr>semsems := (semsems y)(k := x)\<rparr>))"

definition set_dent :: "nat \<Rightarrow> semfs_direntry option \<Rightarrow> (semst, unit) op" where
  "set_dent k x = modify (on_semfs (\<lambda>y. y\<lparr>semdents := (semdents y)(k := x)\<rparr>))"

definition set_semv :: "nat \<Rightarrow> semfs_vnode option \<Rightarrow> (semst, unit) op" where
  "set_semv v x = modify (on_semfs (\<lambda>y. y\<lparr>semvs := (semvs y)(v := x)\<rparr>))"

text \<open>A step that may stop the kernel; an element of an array; a slot of a table that is set.\<close>

definition need :: "'a option \<Rightarrow> ('s, 'a) op" where
  "need r = (case r of None \<Rightarrow> panic | Some x \<Rightarrow> succeed x)"

definition elem_of :: "'a karray \<Rightarrow> nat \<Rightarrow> ('s, 'a) op" where
  "elem_of a i = need (Option.bind (array_get a i) id)"

definition set_sems_slot :: "nat \<Rightarrow> nat \<Rightarrow> nat option \<Rightarrow> (semst, unit) op" where
  "set_sems_slot fs i x =
     chain (the_semfs fs) (\<lambda>f.
     chain (need (array_set (semfs_sems f) i x)) (\<lambda>a. set_semfs fs (Some (f\<lparr>semfs_sems := a\<rparr>))))"

definition set_dents_slot :: "nat \<Rightarrow> nat \<Rightarrow> nat option \<Rightarrow> (semst, unit) op" where
  "set_dents_slot fs i x =
     chain (the_semfs fs) (\<lambda>f.
     chain (need (array_set (semfs_dents f) i x)) (\<lambda>a. set_semfs fs (Some (f\<lparr>semfs_dents := a\<rparr>))))"

section \<open>Objects: \<^verbatim>\<open>semfs_obj.c\<close>\<close>

definition semfs_sem_create :: "semfs_env \<Rightarrow> string \<Rightarrow> (semst, nat option) op" where
  "semfs_sem_create E name =
     chain (gets (sm_sem E)) (\<lambda>new.
     case new of
       None \<Rightarrow> succeed None
     | Some k \<Rightarrow>
         chain (set_sem k (Some \<lparr>sems_cv = [], sems_count = 0, sems_hasvnode = False, sems_linked = False\<rparr>))
           (\<lambda>_. succeed (Some k)))"

text \<open>\<^verbatim>\<open>cv_destroy\<close> fails its assertion when there are sleepers.\<close>

definition semfs_sem_destroy :: "nat \<Rightarrow> (semst, unit) op" where
  "semfs_sem_destroy k =
     chain (the_sem k) (\<lambda>sem.
     chain (ensure (\<lambda>_. sems_cv sem = [])) (\<lambda>_. set_sem k None))"

text \<open>The loop over the slots: the first that is free.\<close>

primrec free_slot :: "nat option karray \<Rightarrow> nat list \<Rightarrow> ('s, nat option) op" where
  "free_slot a [] = succeed None"
| "free_slot a (i # is) = chain (elem_of a i) (\<lambda>x. if x = None then succeed (Some i) else free_slot a is)"

definition semfs_sem_insert :: "semfs_env \<Rightarrow> nat \<Rightarrow> nat \<Rightarrow> (semst, u32) op" where
  "semfs_sem_insert E fs k =
     chain (the_semfs fs) (\<lambda>f.
     if array_num (semfs_sems f) = unat SEMFS_ROOTDIR then fail ENOSPC
     else
       chain (free_slot (semfs_sems f) [0..<array_num (semfs_sems f)]) (\<lambda>r.
       case r of
         Some i \<Rightarrow> chain (set_sems_slot fs i (Some k)) (\<lambda>_. succeed (of_nat i))
       | None \<Rightarrow>
           chain (gets (sm_grow E)) (\<lambda>mem.
           chain (need (array_add mem (semfs_sems f) (Some k))) (\<lambda>r.
           case r of
             Inl e \<Rightarrow> fail e
           | Inr (a, i) \<Rightarrow> chain (set_semfs fs (Some (f\<lparr>semfs_sems := a\<rparr>))) (\<lambda>_. succeed (of_nat i))))))"

definition semfs_direntry_create :: "semfs_env \<Rightarrow> string \<Rightarrow> u32 \<Rightarrow> (semst, nat option) op" where
  "semfs_direntry_create E name semnum =
     chain (gets (sm_dent E)) (\<lambda>new.
     case new of
       None \<Rightarrow> succeed None
     | Some k \<Rightarrow> chain (set_dent k (Some \<lparr>semd_name = name, semd_semnum = semnum\<rparr>)) (\<lambda>_. succeed (Some k)))"

definition semfs_direntry_destroy :: "nat \<Rightarrow> (semst, unit) op" where
  "semfs_direntry_destroy k = chain (the_dent k) (\<lambda>_. set_dent k None)"

section \<open>Vnodes: \<^verbatim>\<open>semfs_vnops.c\<close>\<close>

definition semfs_vnode_create :: "semfs_env \<Rightarrow> nat \<Rightarrow> u32 \<Rightarrow> (semst, nat option) op" where
  "semfs_vnode_create E fs semnum =
     chain (gets (sm_vnode E)) (\<lambda>new.
     case new of
       None \<Rightarrow> succeed None
     | Some v \<Rightarrow>
         chain (vnode_init v (Some fs) False (Some v)) (\<lambda>_.
         chain (set_semv v (Some \<lparr>semv_semfs = fs, semv_semnum = semnum\<rparr>)) (\<lambda>_. succeed (Some v))))"

definition semfs_vnode_destroy :: "nat \<Rightarrow> (semst, unit) op" where
  "semfs_vnode_destroy v =
     chain (vnode_cleanup v) (\<lambda>_.
     chain (set_semv v None) (\<lambda>_. modify (\<lambda>s. s\<lparr>vnodes := (vnodes s)(v := None)\<rparr>)))"

primrec find_semv :: "nat karray \<Rightarrow> u32 \<Rightarrow> nat list \<Rightarrow> (semst, nat option) op" where
  "find_semv a semnum [] = succeed None"
| "find_semv a semnum (i # is) =
     chain (elem_of a i) (\<lambda>v.
     chain (the_semv v) (\<lambda>semv.
     if semv_semnum semv = semnum then succeed (Some v) else find_semv a semnum is))"

definition semfs_getvnode :: "semfs_env \<Rightarrow> nat \<Rightarrow> u32 \<Rightarrow> (semst, nat) op" where
  "semfs_getvnode E fs semnum =
     chain (the_semfs fs) (\<lambda>f.
     chain (find_semv (semfs_vnodes f) semnum [0..<array_num (semfs_vnodes f)]) (\<lambda>r.
     case r of
       Some v \<Rightarrow> chain (vnode_incref v) (\<lambda>_. succeed v)
     | None \<Rightarrow>
         chain (semfs_vnode_create E fs semnum) (\<lambda>new.
         case new of
           None \<Rightarrow> fail ENOMEM
         | Some v \<Rightarrow>
             chain (gets (sm_grow E)) (\<lambda>mem.
             chain (need (array_add mem (semfs_vnodes f) v)) (\<lambda>r.
             case r of
               Inl _ \<Rightarrow> chain (semfs_vnode_destroy v) (\<lambda>_. fail ENOMEM)
             | Inr (a, _) \<Rightarrow>
                 chain (set_semfs fs (Some (f\<lparr>semfs_vnodes := a\<rparr>))) (\<lambda>_.
                 if semnum = SEMFS_ROOTDIR then succeed v
                 else
                   chain (elem_of (semfs_sems f) (unat semnum)) (\<lambda>k.
                   chain (need k) (\<lambda>k.
                   chain (the_sem k) (\<lambda>sem.
                   chain (ensure (\<lambda>_. \<not> sems_hasvnode sem)) (\<lambda>_.
                   chain (set_sem k (Some (sem\<lparr>sems_hasvnode := True\<rparr>))) (\<lambda>_. succeed v)))))))))))"

text \<open>The slot of a vnode in the table; a vnode that is not there is no error.\<close>

primrec semv_slot :: "nat karray \<Rightarrow> nat \<Rightarrow> nat list \<Rightarrow> ('s, nat option) op" where
  "semv_slot a v [] = succeed None"
| "semv_slot a v (i # is) = chain (elem_of a i) (\<lambda>w. if w = v then succeed (Some i) else semv_slot a v is)"

definition drop_hasvnode :: "nat \<Rightarrow> u32 \<Rightarrow> (semst, unit) op" where
  "drop_hasvnode fs semnum =
     chain (the_semfs fs) (\<lambda>f.
     chain (elem_of (semfs_sems f) (unat semnum)) (\<lambda>k.
     chain (need k) (\<lambda>k.
     chain (the_sem k) (\<lambda>sem.
     chain (ensure (\<lambda>_. sems_hasvnode sem)) (\<lambda>_.
     chain (set_sem k (Some (sem\<lparr>sems_hasvnode := False\<rparr>))) (\<lambda>_.
     if \<not> sems_linked sem then
       chain (set_sems_slot fs (unat semnum) None) (\<lambda>_. semfs_sem_destroy k)
     else succeed ()))))))"

definition semfs_reclaim :: "nat \<Rightarrow> (semst, unit) op" where
  "semfs_reclaim v =
     chain (the_semv v) (\<lambda>semv.
     chain (gets (\<lambda>s. refcount s v)) (\<lambda>n.
     if n > 1 then
       chain (modify (upd_vnode v (\<lambda>x. x\<lparr>vn_refcount := vn_refcount x - 1\<rparr>))) (\<lambda>_. fail EBUSY)
     else
       chain (the_semfs (semv_semfs semv)) (\<lambda>f.
       chain (semv_slot (semfs_vnodes f) v [0..<array_num (semfs_vnodes f)]) (\<lambda>ix.
       chain (case ix of
           None \<Rightarrow> succeed ()
         | Some i \<Rightarrow>
             chain (need (array_remove (semfs_vnodes f) i)) (\<lambda>a. set_semfs (semv_semfs semv) (Some (f\<lparr>semfs_vnodes := a\<rparr>)))) (\<lambda>_.
       chain (if semv_semnum semv \<noteq> SEMFS_ROOTDIR then drop_hasvnode (semv_semfs semv) (semv_semnum semv) else succeed ())
         (\<lambda>_. semfs_vnode_destroy v))))))"

section \<open>Semaphores\<close>

definition semfs_eachopen :: "nat \<Rightarrow> u32 \<Rightarrow> (semst, unit) op" where
  "semfs_eachopen v openflags =
     chain (the_semv v) (\<lambda>semv.
     if semv_semnum semv = SEMFS_ROOTDIR \<and> openflags AND O_ACCMODE \<noteq> O_RDONLY then fail EISDIR
     else if semv_semnum semv = SEMFS_ROOTDIR \<and> openflags AND O_APPEND \<noteq> 0 then fail EISDIR
     else succeed ())"

definition semfs_gettype :: "nat \<Rightarrow> (semst, u32) op" where
  "semfs_gettype v = chain (the_semv v) (\<lambda>semv. succeed (if semv_semnum semv = SEMFS_ROOTDIR then S_IFDIR else S_IFREG))"

definition semfs_isseekable :: "nat \<Rightarrow> semst \<Rightarrow> bool" where
  "semfs_isseekable v s = (case semvs (fsdata s) v of None \<Rightarrow> True | Some semv \<Rightarrow> semv_semnum semv = SEMFS_ROOTDIR)"

definition semfs_fsync :: "nat \<Rightarrow> (semst, unit) op" where
  "semfs_fsync v = succeed ()"

definition semfs_getsembynum :: "nat \<Rightarrow> u32 \<Rightarrow> (semst, nat) op" where
  "semfs_getsembynum fs semnum =
     chain (the_semfs fs) (\<lambda>f. chain (elem_of (semfs_sems f) (unat semnum)) need)"

definition semfs_getsem :: "nat \<Rightarrow> (semst, nat) op" where
  "semfs_getsem v = chain (the_semv v) (\<lambda>semv. semfs_getsembynum (semv_semfs semv) (semv_semnum semv))"

text \<open>The sleepers that stay asleep.\<close>

definition semfs_wakeup :: "semfs_sem \<Rightarrow> u32 \<Rightarrow> semfs_sem" where
  "semfs_wakeup sem newcount =
     (if sems_count sem > 0 \<or> newcount = 0 then sem
      else if newcount = 1 then sem\<lparr>sems_cv := tl (sems_cv sem)\<rparr>
      else sem\<lparr>sems_cv := []\<rparr>)"

text \<open>Of \<^verbatim>\<open>struct stat\<close> the size.\<close>

definition semfs_semstat :: "nat \<Rightarrow> (semst, 64 word) op" where
  "semfs_semstat v = chain (semfs_getsem v) (\<lambda>k. chain (the_sem k) (\<lambda>sem. succeed (ucast (sems_count sem))))"

text \<open>P. The loop comes round again only after it has slept: when a residue is left the count is used up.\<close>

definition semfs_consume :: "semfs_sem \<Rightarrow> u32 \<Rightarrow> semfs_sem \<times> u32" where
  "semfs_consume sem resid =
     (let consume = (if resid > sems_count sem then sems_count sem else resid) in
      (sem\<lparr>sems_count := sems_count sem - consume\<rparr>, resid - consume))"

lemma semfs_consume_empty: "snd (semfs_consume sem resid) \<noteq> 0 \<Longrightarrow> sems_count (fst (semfs_consume sem resid)) = 0"
  by (simp add: semfs_consume_def Let_def split: if_splits)

text \<open>From the head of the loop to its end or to the sleep; the result says whether it sleeps. A thread that is
  woken runs it again.\<close>

definition semfs_read_loop :: "nat \<Rightarrow> nat \<Rightarrow> uio \<Rightarrow> (semst, uio \<times> bool) op" where
  "semfs_read_loop self k u =
     (if uio_resid u = 0 then succeed (u, False)
      else
        chain (the_sem k) (\<lambda>sem.
        case semfs_consume sem (uio_resid u) of (sem, resid) \<Rightarrow>
          if resid = 0 then chain (set_sem k (Some sem)) (\<lambda>_. succeed (u\<lparr>uio_resid := resid\<rparr>, False))
          else chain (set_sem k (Some (sem\<lparr>sems_cv := sems_cv sem @ [self]\<rparr>))) (\<lambda>_. succeed (u\<lparr>uio_resid := resid\<rparr>, True))))"

definition semfs_read :: "nat \<Rightarrow> nat \<Rightarrow> uio \<Rightarrow> (semst, uio \<times> bool) op" where
  "semfs_read self v u = chain (semfs_getsem v) (\<lambda>k. semfs_read_loop self k u)"

text \<open>V.\<close>

definition semfs_write :: "nat \<Rightarrow> uio \<Rightarrow> (semst, uio) op" where
  "semfs_write v u =
     chain (semfs_getsem v) (\<lambda>k.
     if uio_resid u = 0 then succeed u
     else
       chain (the_sem k) (\<lambda>sem.
       let newcount = sems_count sem + uio_resid u in
       if newcount < sems_count sem then fail EFBIG
       else
         chain (set_sem k (Some ((semfs_wakeup sem newcount)\<lparr>sems_count := newcount\<rparr>))) (\<lambda>_. succeed (u\<lparr>uio_resid := 0\<rparr>))))"

definition semfs_truncate :: "nat \<Rightarrow> 64 word \<Rightarrow> (semst, unit) op" where
  "semfs_truncate v len =
     (if sint len < 0 then fail EINVAL
      else if sint len > sint (ucast (- 1 :: u32) :: 64 word) then fail EFBIG
      else
        let newcount = ucast len in
        chain (semfs_getsem v) (\<lambda>k.
        chain (the_sem k) (\<lambda>sem. set_sem k (Some ((semfs_wakeup sem newcount)\<lparr>sems_count := newcount\<rparr>)))))"

section \<open>The directory\<close>

definition semfs_getdirentry :: "semfs_env \<Rightarrow> nat \<Rightarrow> uio \<Rightarrow> (semst, uio) op" where
  "semfs_getdirentry E v u =
     chain (the_semv v) (\<lambda>semv.
     chain (ensure (\<lambda>_. sint (uio_offset u) \<ge> 0)) (\<lambda>_.
     chain (the_semfs (semv_semfs semv)) (\<lambda>f.
     let pos = unat (ucast (uio_offset u) :: u32) in
     if pos \<ge> array_num (semfs_dents f) then succeed u
     else
       chain (elem_of (semfs_dents f) pos) (\<lambda>k.
       chain (need k) (\<lambda>k.
       chain (the_dent k) (\<lambda>dent.
       (\<lambda>s. do {
          let m = (user s)\<lparr>bytes_of := put_block (sm_name E k) (name_bytes (semd_name dent)) (bytes_of (user s))\<rparr>;
          (r, u, m) \<leftarrow> uiomove (sm_prot E) (sm_curas E) (sm_name E k) (of_nat (length (semd_name dent))) u m;
          Some (map_sum id (\<lambda>_. u) r, s\<lparr>user := m\<rparr>)
        })))))))"

definition semfs_dirstat :: "nat \<Rightarrow> (semst, 64 word) op" where
  "semfs_dirstat v =
     chain (the_semv v) (\<lambda>semv. chain (the_semfs (semv_semfs semv)) (\<lambda>f. succeed (of_nat (array_num (semfs_dents f)))))"

definition semfs_namefile :: "nat \<Rightarrow> uio \<Rightarrow> (semst, uio) op" where
  "semfs_namefile v u = succeed u"

text \<open>The loop over the entries: the one with the name, by slot and address, and before it the first free slot.\<close>

primrec scan_dents :: "nat option karray \<Rightarrow> string \<Rightarrow> nat list \<Rightarrow> nat option \<Rightarrow>
    (semst, (nat \<times> nat) option \<times> nat option) op" where
  "scan_dents a name [] spare = succeed (None, spare)"
| "scan_dents a name (i # is) spare =
     chain (elem_of a i) (\<lambda>x.
     case x of
       None \<Rightarrow> scan_dents a name is (if spare = None then Some i else spare)
     | Some k \<Rightarrow>
         chain (the_dent k) (\<lambda>dent.
         if semd_name dent = name then succeed (Some (i, k), spare) else scan_dents a name is spare))"

definition dot_name :: "string \<Rightarrow> bool" where
  "dot_name name \<longleftrightarrow> name = ''.'' \<or> name = ''..''"

text \<open>The labels at the end of \<^verbatim>\<open>semfs_creat\<close>, from the last back; \<open>r\<close> is \<^verbatim>\<open>result\<close>, with what \<^verbatim>\<open>*resultvn\<close> holds if
  it is 0.\<close>

definition fail_uncreate :: "nat \<Rightarrow> errno + nat \<Rightarrow> (semst, nat) op" where
  "fail_uncreate k r = chain (semfs_sem_destroy k) (\<lambda>_. give r)"

definition fail_uninsert :: "nat \<Rightarrow> nat \<Rightarrow> u32 \<Rightarrow> errno + nat \<Rightarrow> (semst, nat) op" where
  "fail_uninsert fs k semnum r = chain (set_sems_slot fs (unat semnum) None) (\<lambda>_. fail_uncreate k r)"

definition fail_undent :: "nat \<Rightarrow> nat \<Rightarrow> u32 \<Rightarrow> nat \<Rightarrow> errno + nat \<Rightarrow> (semst, nat) op" where
  "fail_undent fs k semnum dent r = chain (semfs_direntry_destroy dent) (\<lambda>_. fail_uninsert fs k semnum r)"

definition link_sem :: "semfs_env \<Rightarrow> nat \<Rightarrow> nat \<Rightarrow> u32 \<Rightarrow> nat \<Rightarrow> nat \<Rightarrow> (semst, nat) op" where
  "link_sem E fs k semnum dent slot =
     handle (semfs_getvnode E fs semnum) (\<lambda>r.
     case r of
       Inl e \<Rightarrow> chain (set_dents_slot fs slot None) (\<lambda>_. fail_undent fs k semnum dent (Inl e))
     | Inr w \<Rightarrow>
         chain (the_sem k) (\<lambda>sem.
         chain (set_sem k (Some (sem\<lparr>sems_linked := True\<rparr>))) (\<lambda>_. succeed w)))"

definition make_sem :: "semfs_env \<Rightarrow> nat \<Rightarrow> string \<Rightarrow> nat option \<Rightarrow> (semst, nat) op" where
  "make_sem E fs name spare =
     chain (semfs_sem_create E name) (\<lambda>new.
     case new of
       None \<Rightarrow> fail ENOMEM
     | Some k \<Rightarrow>
         handle (semfs_sem_insert E fs k) (\<lambda>r.
         case r of
           Inl e \<Rightarrow> fail_uncreate k (Inl e)
         | Inr semnum \<Rightarrow>
             chain (semfs_direntry_create E name semnum) (\<lambda>new.
             case new of
               None \<Rightarrow> fail_uninsert fs k semnum (Inr (sm_junk E))
             | Some dent \<Rightarrow>
                 (case spare of
                    Some slot \<Rightarrow>
                      chain (set_dents_slot fs slot (Some dent)) (\<lambda>_. link_sem E fs k semnum dent slot)
                  | None \<Rightarrow>
                      chain (the_semfs fs) (\<lambda>f.
                      chain (gets (sm_grow E)) (\<lambda>mem.
                      chain (need (array_add mem (semfs_dents f) (Some dent))) (\<lambda>r.
                      case r of
                        Inl e \<Rightarrow> fail_undent fs k semnum dent (Inl e)
                      | Inr (a, slot) \<Rightarrow>
                          chain (set_semfs fs (Some (f\<lparr>semfs_dents := a\<rparr>))) (\<lambda>_. link_sem E fs k semnum dent slot))))))))"

definition semfs_creat :: "semfs_env \<Rightarrow> nat \<Rightarrow> string \<Rightarrow> bool \<Rightarrow> u32 \<Rightarrow> (semst, nat) op" where
  "semfs_creat E v name excl mode =
     (if dot_name name then fail EEXIST
      else
        chain (the_semv v) (\<lambda>semv.
        let fs = semv_semfs semv in
        chain (the_semfs fs) (\<lambda>f.
        chain (scan_dents (semfs_dents f) name [0..<array_num (semfs_dents f)] None) (\<lambda>(found, spare).
        case found of
          Some (_, k) \<Rightarrow>
            if excl then fail EEXIST
            else chain (the_dent k) (\<lambda>dent. semfs_getvnode E fs (semd_semnum dent))
        | None \<Rightarrow> make_sem E fs name spare))))"

definition semfs_remove :: "nat \<Rightarrow> string \<Rightarrow> (semst, unit) op" where
  "semfs_remove v name =
     (if dot_name name then fail EINVAL
      else
        chain (the_semv v) (\<lambda>semv.
        let fs = semv_semfs semv in
        chain (the_semfs fs) (\<lambda>f.
        chain (scan_dents (semfs_dents f) name [0..<array_num (semfs_dents f)] None) (\<lambda>(found, _).
        case found of
          None \<Rightarrow> fail ENOENT
        | Some (i, d) \<Rightarrow>
            chain (the_dent d) (\<lambda>dent.
            chain (semfs_getsembynum fs (semd_semnum dent)) (\<lambda>k.
            chain (the_sem k) (\<lambda>sem.
            chain (ensure (\<lambda>_. sems_linked sem)) (\<lambda>_.
            chain (set_sem k (Some (sem\<lparr>sems_linked := False\<rparr>))) (\<lambda>_.
            chain (if \<not> sems_hasvnode sem then
                     chain (set_sems_slot fs (unat (semd_semnum dent)) None) (\<lambda>_. semfs_sem_destroy k)
                   else succeed ()) (\<lambda>_.
            chain (set_dents_slot fs i None) (\<lambda>_. semfs_direntry_destroy d)))))))))))"

definition semfs_lookup :: "semfs_env \<Rightarrow> nat \<Rightarrow> string \<Rightarrow> (semst, nat) op" where
  "semfs_lookup E v path =
     (if dot_name path then chain (vnode_incref v) (\<lambda>_. succeed v)
      else
        chain (the_semv v) (\<lambda>semv.
        let fs = semv_semfs semv in
        chain (the_semfs fs) (\<lambda>f.
        chain (scan_dents (semfs_dents f) path [0..<array_num (semfs_dents f)] None) (\<lambda>(found, _).
        case found of
          None \<Rightarrow> fail ENOENT
        | Some (_, k) \<Rightarrow> chain (the_dent k) (\<lambda>dent. semfs_getvnode E fs (semd_semnum dent))))))"

definition semfs_lookparent :: "nat \<Rightarrow> string \<Rightarrow> nat \<Rightarrow> (semst, nat \<times> string) op" where
  "semfs_lookparent v path bufmax =
     (if length path + 1 > bufmax then fail ENAMETOOLONG
      else chain (vnode_incref v) (\<lambda>_. succeed (v, path)))"

section \<open>The tables and \<^verbatim>\<open>semfs_fsops.c\<close>\<close>

definition vopfail_link_nosys :: "nat \<Rightarrow> string \<Rightarrow> nat \<Rightarrow> ('f vfs, unit) op" where
  "vopfail_link_nosys dir name file = fail ENOSYS"

definition vopfail_rename_nosys :: "nat \<Rightarrow> string \<Rightarrow> nat \<Rightarrow> string \<Rightarrow> ('f vfs, unit) op" where
  "vopfail_rename_nosys fromdir fromname todir toname = fail ENOSYS"

definition semfs_sync :: "nat \<Rightarrow> (semst, unit) op" where
  "semfs_sync fs = succeed ()"

definition semfs_getvolname :: "nat \<Rightarrow> semst \<Rightarrow> string option" where
  "semfs_getvolname fs s = Some ''sem''"

definition semfs_getroot :: "semfs_env \<Rightarrow> nat \<Rightarrow> (semst, nat) op" where
  "semfs_getroot E fs = semfs_getvnode E fs SEMFS_ROOTDIR"

primrec destroy_sems :: "nat option karray \<Rightarrow> nat list \<Rightarrow> (semst, unit) op" where
  "destroy_sems a [] = succeed ()"
| "destroy_sems a (i # is) =
     chain (elem_of a i) (\<lambda>k. chain (need k) (\<lambda>k. chain (semfs_sem_destroy k) (\<lambda>_. destroy_sems a is)))"

primrec destroy_dents :: "nat option karray \<Rightarrow> nat list \<Rightarrow> (semst, unit) op" where
  "destroy_dents a [] = succeed ()"
| "destroy_dents a (i # is) =
     chain (elem_of a i) (\<lambda>k. chain (need k) (\<lambda>k. chain (semfs_direntry_destroy k) (\<lambda>_. destroy_dents a is)))"

definition semfs_destroy :: "nat \<Rightarrow> (semst, unit) op" where
  "semfs_destroy fs =
     chain (the_semfs fs) (\<lambda>f.
     chain (destroy_sems (semfs_sems f) [0..<array_num (semfs_sems f)]) (\<lambda>_.
     chain (destroy_dents (semfs_dents f) [0..<array_num (semfs_dents f)]) (\<lambda>_.
     chain (need (array_destroy (semfs_vnodes f))) (\<lambda>_. set_semfs fs None))))"

definition semfs_unmount :: "nat \<Rightarrow> (semst, unit) op" where
  "semfs_unmount fs =
     chain (the_semfs fs) (\<lambda>f.
     if array_num (semfs_vnodes f) > 0 then fail EBUSY else semfs_destroy fs)"

text \<open>\<open>new\<close> is the address of the structure and \<open>m\<close> says which of the three arrays are allocated; the locks are.\<close>

definition semfs_create :: "nat option \<Rightarrow> bool \<times> bool \<times> bool \<Rightarrow> (semst, nat option) op" where
  "semfs_create new m =
     (case new of
        None \<Rightarrow> succeed None
      | Some fs \<Rightarrow>
          (case (array_create (fst m), array_create (fst (snd m)), array_create (snd (snd m))) of
             (Some v, Some a, Some d) \<Rightarrow>
               chain (set_semfs fs (Some \<lparr>semfs_vnodes = v, semfs_sems = a, semfs_dents = d\<rparr>)) (\<lambda>_. succeed (Some fs))
           | _ \<Rightarrow> succeed None))"

definition semfs_bootstrap :: "semfs_sys fsops \<Rightarrow> bool list \<Rightarrow> nat \<Rightarrow> nat option \<Rightarrow> bool \<times> bool \<times> bool \<Rightarrow> (semst, unit) op" where
  "semfs_bootstrap F mem v new m =
     chain (semfs_create new m) (\<lambda>r.
     case r of
       None \<Rightarrow> panic
     | Some fs \<Rightarrow> handle (vfs_addfs F mem v ''sem'' fs) (\<lambda>r. case r of Inl _ \<Rightarrow> panic | Inr _ \<Rightarrow> succeed ()))"

text \<open>As the VFS calls them. A read that goes to sleep does not return here.\<close>

definition by_kind :: "nat \<Rightarrow> (semst, 'a) op \<Rightarrow> (semst, 'a) op \<Rightarrow> (semst, 'a) op" where
  "by_kind v f g = chain (the_semv v) (\<lambda>semv. if semv_semnum semv = SEMFS_ROOTDIR then g else f)"

definition finished :: "uio \<times> bool \<Rightarrow> (semst, uio) op" where
  "finished x = (case x of (u, asleep) \<Rightarrow> if asleep then panic else succeed u)"

definition semfs_ops :: "semfs_env \<Rightarrow> semfs_sys fsops" where
  "semfs_ops E = \<lparr>
     vop_eachopen = semfs_eachopen,
     vop_reclaim = semfs_reclaim,
     vop_read = (\<lambda>v u. by_kind v (chain (semfs_read (sm_self E) v u) finished) (vopfail_uio_isdir v u)),
     vop_readlink = (\<lambda>v u. by_kind v (vopfail_uio_inval v u) (vopfail_uio_isdir v u)),
     vop_write = (\<lambda>v u. by_kind v (semfs_write v u) (vopfail_uio_isdir v u)),
     vop_stat = (\<lambda>v. by_kind v (semfs_semstat v) (semfs_dirstat v)),
     vop_gettype = semfs_gettype,
     vop_isseekable = semfs_isseekable,
     vop_truncate = (\<lambda>v n. by_kind v (semfs_truncate v n) (vopfail_truncate_isdir v n)),
     vop_namefile = (\<lambda>v u. by_kind v (vopfail_uio_notdir v u) (semfs_namefile v u)),
     vop_creat = (\<lambda>v nm x m. by_kind v (vopfail_creat_notdir v nm x m) (semfs_creat E v nm x m)),
     vop_symlink = (\<lambda>v nm c. by_kind v (vopfail_symlink_notdir v nm c) (vopfail_symlink_nosys v nm c)),
     vop_mkdir = (\<lambda>v nm m. by_kind v (vopfail_mkdir_notdir v nm m) (vopfail_mkdir_nosys v nm m)),
     vop_link = (\<lambda>v nm w. by_kind v (vopfail_link_notdir v nm w) (vopfail_link_nosys v nm w)),
     vop_remove = (\<lambda>v nm. by_kind v (vopfail_string_notdir v nm) (semfs_remove v nm)),
     vop_rmdir = (\<lambda>v nm. by_kind v (vopfail_string_notdir v nm) (vopfail_string_nosys v nm)),
     vop_rename = (\<lambda>v nm w nm'. by_kind v (vopfail_rename_notdir v nm w nm') (vopfail_rename_nosys v nm w nm')),
     vop_lookup = (\<lambda>v p. by_kind v (vopfail_lookup_notdir v p) (semfs_lookup E v p)),
     vop_lookparent = (\<lambda>v p n. by_kind v (vopfail_lookparent_notdir v p n) (semfs_lookparent v p n)),
     fsop_sync = semfs_sync, fsop_unmount = semfs_unmount, fsop_getvolname = semfs_getvolname,
     fsop_getroot = semfs_getroot E\<rparr>"

end
