(* ===== verification/Semfs_Facts.thy ===== *)
theory Semfs_Facts
  imports Semfs
begin

text \<open>
  P and V of user semaphores under any interleaving of any number of threads: units are conserved, but a wake-up
  can be lost.
\<close>

section \<open>The threads at one semaphore\<close>

text \<open>The state with, for each thread that is inside \<^verbatim>\<open>read\<close>, the rest of its request, and the units that have been
  taken and given so far. Each call is one step up to its sleep, since it holds the lock of the semaphore; a
  thread that has been woken may run at any time after.\<close>

record sem_run =
  sr_st :: semst
  sr_want :: "nat \<Rightarrow> uio option"
  sr_taken :: nat
  sr_given :: nat

definition sem_at :: "nat \<Rightarrow> sem_run \<Rightarrow> semfs_sem" where
  "sem_at k x = the (semsems (fsdata (sr_st x)) k)"

inductive sem_step :: "nat \<Rightarrow> nat \<Rightarrow> sem_run \<Rightarrow> sem_run \<Rightarrow> bool" for v k where
  read: "sr_want x t = None \<Longrightarrow> semfs_read t v u (sr_st x) = Some (Inr (u', asleep), s') \<Longrightarrow>
    sem_step v k x (x\<lparr>sr_st := s', sr_want := (sr_want x)(t := if asleep then Some u' else None),
      sr_taken := sr_taken x + (unat (uio_resid u) - unat (uio_resid u'))\<rparr>)"
| woken: "sr_want x t = Some u \<Longrightarrow> t \<notin> set (sems_cv (sem_at k x)) \<Longrightarrow>
    semfs_read_loop t k u (sr_st x) = Some (Inr (u', asleep), s') \<Longrightarrow>
    sem_step v k x (x\<lparr>sr_st := s', sr_want := (sr_want x)(t := if asleep then Some u' else None),
      sr_taken := sr_taken x + (unat (uio_resid u) - unat (uio_resid u'))\<rparr>)"
| write_ok: "semfs_write v u (sr_st x) = Some (Inr u', s') \<Longrightarrow>
    sem_step v k x (x\<lparr>sr_st := s', sr_given := sr_given x + unat (uio_resid u)\<rparr>)"
| write_overflow: "semfs_write v u (sr_st x) = Some (Inl e, s') \<Longrightarrow> sem_step v k x (x\<lparr>sr_st := s'\<rparr>)"

inductive sem_reach :: "nat \<Rightarrow> nat \<Rightarrow> sem_run \<Rightarrow> sem_run \<Rightarrow> bool" for v k x0 where
  start: "sem_reach v k x0 x0"
| step: "sem_reach v k x0 x \<Longrightarrow> sem_step v k x y \<Longrightarrow> sem_reach v k x0 y"

inductive_cases sem_stepE: "sem_step v k x y"

text \<open>The vnode \<open>v\<close> is the semaphore at \<open>k\<close>.\<close>

definition names_sem :: "nat \<Rightarrow> nat \<Rightarrow> semst \<Rightarrow> bool" where
  "names_sem v k s \<longleftrightarrow> semfs_getsem v s = Some (Inr k, s) \<and> semsems (fsdata s) k \<noteq> None"

definition with_sem :: "nat \<Rightarrow> semfs_sem \<Rightarrow> semst \<Rightarrow> semst" where
  "with_sem k sem = on_semfs (\<lambda>y. y\<lparr>semsems := (semsems y)(k \<mapsto> sem)\<rparr>)"

lemma with_sem_sel: "semsems (fsdata (with_sem k sem s)) = (semsems (fsdata s))(k \<mapsto> sem)"
  by (simp add: with_sem_def on_semfs_def)

lemma names_with_sem: "names_sem v k s \<Longrightarrow> names_sem v k (with_sem k sem s)"
  by (auto simp: names_sem_def semfs_getsem_def semfs_getsembynum_def elem_of_def need_def the_semv_def the_semfs_def
      with_sem_def on_semfs_def chain_def handle_def succeed_def panic_def fail_def split: option.splits)

lemma the_sem_run: "semsems (fsdata s) k = Some sem \<Longrightarrow> chain (the_sem k) g s = g sem s"
  by (simp add: chain_def handle_def the_sem_def)

lemma set_sem_run: "chain (set_sem k (Some sem)) g s = g () (with_sem k sem s)"
  by (simp add: chain_def handle_def set_sem_def modify_def with_sem_def)

text \<open>What a pass of the loop of P does.\<close>

definition after_take :: "nat \<Rightarrow> semfs_sem \<Rightarrow> u32 \<Rightarrow> semfs_sem \<times> u32" where
  "after_take t sem n = (case semfs_consume sem n of (sem', r) \<Rightarrow>
     (if n = 0 then sem else if r = 0 then sem' else sem'\<lparr>sems_cv := sems_cv sem' @ [t]\<rparr>, r))"

lemma read_loop_run:
  assumes "semsems (fsdata s) k = Some sem"
  shows "semfs_read_loop t k u s = Some (Inr (u\<lparr>uio_resid := snd (after_take t sem (uio_resid u))\<rparr>,
      snd (after_take t sem (uio_resid u)) \<noteq> 0), with_sem k (fst (after_take t sem (uio_resid u))) s)"
proof (cases "uio_resid u = 0")
  case True
  have "with_sem k sem s = s" using assms by (cases s; cases "fsdata s") (simp add: with_sem_def on_semfs_def fun_upd_idem)
  then show ?thesis using True
    by (cases u) (simp add: semfs_read_loop_def after_take_def semfs_consume_def succeed_def)
next
  case False
  then show ?thesis using assms
    by (simp add: semfs_read_loop_def after_take_def the_sem_run set_sem_run succeed_def split: prod.split)
qed

lemma consume_units:
  assumes "semfs_consume sem n = (sem', r)"
  shows "unat (sems_count sem') + (unat n - unat r) = unat (sems_count sem)" and "sems_cv sem' = sems_cv sem"
    and "r \<noteq> 0 \<Longrightarrow> sems_count sem' = 0"
proof -
  show "sems_cv sem' = sems_cv sem" using assms by (auto simp: semfs_consume_def Let_def)
  show "r \<noteq> 0 \<Longrightarrow> sems_count sem' = 0" using assms semfs_consume_empty [of sem n] by simp
  show "unat (sems_count sem') + (unat n - unat r) = unat (sems_count sem)"
  proof (cases "n > sems_count sem")
    case True
    then show ?thesis using assms by (auto simp: semfs_consume_def Let_def unat_sub word_less_nat_alt word_le_nat_alt)
  next
    case False
    then show ?thesis using assms by (auto simp: semfs_consume_def Let_def unat_sub word_less_nat_alt word_le_nat_alt not_less)
  qed
qed

lemma take_units:
  "unat (sems_count (fst (after_take t sem n))) + (unat n - unat (snd (after_take t sem n))) = unat (sems_count sem)"
  using consume_units(1) [of sem n] by (auto simp: after_take_def semfs_consume_def Let_def split: prod.split)

lemma take_cv:
  "sems_cv (fst (after_take t sem n)) = (if snd (after_take t sem n) = 0 then sems_cv sem else sems_cv sem @ [t])"
  by (auto simp: after_take_def semfs_consume_def Let_def)

lemma read_run:
  assumes "names_sem v k s" and "semsems (fsdata s) k = Some sem"
  shows "semfs_read t v u s = semfs_read_loop t k u s"
  using assms by (simp add: semfs_read_def names_sem_def chain_def handle_def)

lemma write_run:
  assumes "names_sem v k s" and "semsems (fsdata s) k = Some sem"
  shows "semfs_write v u s = (if uio_resid u = 0 then Some (Inr u, s)
     else if sems_count sem + uio_resid u < sems_count sem then Some (Inl EFBIG, s)
     else Some (Inr (u\<lparr>uio_resid := 0\<rparr>),
       with_sem k ((semfs_wakeup sem (sems_count sem + uio_resid u))\<lparr>sems_count := sems_count sem + uio_resid u\<rparr>) s))"
proof -
  have "chain (semfs_getsem v) g s = g k s" for g :: "nat \<Rightarrow> (semst, uio) op"
    using assms(1) by (simp add: names_sem_def chain_def handle_def)
  then show ?thesis using assms(2) by (simp add: semfs_write_def the_sem_run set_sem_run Let_def succeed_def fail_def)
qed

lemma wakeup_cv: "sems_cv (semfs_wakeup sem n) = drop (length (sems_cv sem) - length (sems_cv (semfs_wakeup sem n))) (sems_cv sem)"
  by (cases "sems_cv sem") (auto simp: semfs_wakeup_def)

section \<open>Units\<close>

definition sem_run_ok :: "nat \<Rightarrow> nat \<Rightarrow> nat \<Rightarrow> sem_run \<Rightarrow> bool" where
  "sem_run_ok v k n x \<longleftrightarrow> names_sem v k (sr_st x) \<and> distinct (sems_cv (sem_at k x)) \<and>
     set (sems_cv (sem_at k x)) \<subseteq> {t. sr_want x t \<noteq> None} \<and>
     unat (sems_count (sem_at k x)) + sr_taken x = n + sr_given x"

lemma sem_at_Some: "names_sem v k (sr_st x) \<Longrightarrow> semsems (fsdata (sr_st x)) k = Some (sem_at k x)"
  by (auto simp: names_sem_def sem_at_def)

lemma taken_ok:
  assumes ok: "sem_run_ok v k n x" and t: "t \<notin> set (sems_cv (sem_at k x))"
    and r: "semfs_read_loop t k u (sr_st x) = Some (Inr (u', asleep), s')"
  shows "sem_run_ok v k n (x\<lparr>sr_st := s', sr_want := (sr_want x)(t := if asleep then Some u' else None),
      sr_taken := sr_taken x + (unat (uio_resid u) - unat (uio_resid u'))\<rparr>)"
proof -
  let ?sem = "sem_at k x" and ?n = "uio_resid u"
  have nm: "names_sem v k (sr_st x)" using ok by (simp add: sem_run_ok_def)
  have e: "u' = u\<lparr>uio_resid := snd (after_take t ?sem ?n)\<rparr>" "asleep = (snd (after_take t ?sem ?n) \<noteq> 0)"
    "s' = with_sem k (fst (after_take t ?sem ?n)) (sr_st x)"
    using r read_loop_run [OF sem_at_Some [OF nm]] by auto
  have a: "sem_at k (x\<lparr>sr_st := s', sr_want := w, sr_taken := m\<rparr>) = fst (after_take t ?sem ?n)" for w m
    by (simp add: sem_at_def e(3) with_sem_sel)
  have "names_sem v k s'" unfolding e(3) by (rule names_with_sem [OF nm])
  moreover have "distinct (sems_cv (fst (after_take t ?sem ?n)))"
    using ok t by (simp add: take_cv sem_run_ok_def)
  moreover have "set (sems_cv (fst (after_take t ?sem ?n))) \<subseteq>
      {t'. ((sr_want x)(t := if asleep then Some u' else None)) t' \<noteq> None}"
    using ok t by (auto simp: take_cv sem_run_ok_def e(2))
  moreover have "unat (sems_count (fst (after_take t ?sem ?n))) +
      (sr_taken x + (unat (uio_resid u) - unat (uio_resid u'))) = n + sr_given x"
    using ok take_units [of t ?sem ?n] by (simp add: sem_run_ok_def e(1))
  ultimately show ?thesis by (simp only: sem_run_ok_def a) simp
qed

lemma unat_plus_no_wrap: "a \<le> a + b \<Longrightarrow> unat (a + b) = unat a + unat b" for a b :: u32
proof (rule ccontr)
  assume le: "a \<le> a + b" and ne: "unat (a + b) \<noteq> unat a + unat b"
  have l: "unat a < 2 ^ 32" "unat b < 2 ^ 32" using unsigned_less [of a] unsigned_less [of b] by simp_all
  have m: "unat (a + b) = (unat a + unat b) mod 2 ^ 32" by (simp add: unat_word_ariths(1))
  then have ge: "\<not> unat a + unat b < 2 ^ 32" using ne by (metis mod_less)
  then have "(unat a + unat b) mod 2 ^ 32 = (unat a + unat b - 2 ^ 32) mod 2 ^ 32" by (intro le_mod_geq) simp
  moreover have "unat a + unat b - 2 ^ 32 < 2 ^ 32" using l by linarith
  ultimately have "unat (a + b) = unat a + unat b - 2 ^ 32" using m by (simp only: mod_less)
  moreover have "unat a \<le> unat (a + b)" using le by (simp only: word_le_nat_alt)
  ultimately show False using l ge by linarith
qed

lemma sem_step_ok: "sem_step v k x y \<Longrightarrow> sem_run_ok v k n x \<Longrightarrow> sem_run_ok v k n y"
proof (induction rule: sem_step.induct)
  case (read x t u u' asleep s')
  then have nm: "names_sem v k (sr_st x)" by (simp add: sem_run_ok_def)
  have "semfs_read_loop t k u (sr_st x) = Some (Inr (u', asleep), s')"
    using read read_run [OF nm sem_at_Some [OF nm]] by simp
  moreover have "t \<notin> set (sems_cv (sem_at k x))" using read(1,3) by (auto simp: sem_run_ok_def)
  ultimately show ?case using taken_ok [OF read(3)] by blast
next
  case (woken x t u u' asleep s')
  then show ?case using taken_ok by blast
next
  case (write_ok u x u' s')
  then have nm: "names_sem v k (sr_st x)" by (simp add: sem_run_ok_def)
  note w = write_run [OF nm sem_at_Some [OF nm], of u]
  show ?case
  proof (cases "uio_resid u = 0")
    case True
    then have "s' = sr_st x" using write_ok(1) w by simp
    then show ?thesis using write_ok(2) True by (simp add: sem_run_ok_def sem_at_def)
  next
    case False
    let ?m = "sems_count (sem_at k x) + uio_resid u"
    let ?sem = "(semfs_wakeup (sem_at k x) ?m)\<lparr>sems_count := ?m\<rparr>"
    have r: "s' = with_sem k ?sem (sr_st x)" "\<not> ?m < sems_count (sem_at k x)"
      using write_ok(1) w False by (auto split: if_splits)
    have u: "unat ?m = unat (sems_count (sem_at k x)) + unat (uio_resid u)"
      using r(2) by (simp add: not_less unat_plus_no_wrap)
    have a: "sem_at k (x\<lparr>sr_st := s', sr_given := g\<rparr>) = ?sem" for g by (simp add: sem_at_def r(1) with_sem_sel)
    have cv: "set (sems_cv ?sem) \<subseteq> set (sems_cv (sem_at k x))" "distinct (sems_cv (sem_at k x)) \<Longrightarrow> distinct (sems_cv ?sem)"
      using wakeup_cv [of "sem_at k x" ?m] by (simp_all, metis set_drop_subset, metis distinct_drop)
    have "names_sem v k s'" unfolding r(1) by (rule names_with_sem [OF nm])
    then show ?thesis using write_ok(2) u cv by (auto simp: sem_run_ok_def a)
  qed
next
  case (write_overflow u x e s')
  then have nm: "names_sem v k (sr_st x)" by (simp add: sem_run_ok_def)
  have "s' = sr_st x" using write_overflow(1) write_run [OF nm sem_at_Some [OF nm], of u] by (auto split: if_splits)
  then show ?case using write_overflow(2) by (simp add: sem_run_ok_def sem_at_def)
qed

lemma sem_reach_ok: "sem_reach v k x0 x \<Longrightarrow> sem_run_ok v k n x0 \<Longrightarrow> sem_run_ok v k n x"
  by (induction rule: sem_reach.induct) (auto intro: sem_step_ok)


lemma sem_units:
  assumes "sem_reach v k x0 x" and "names_sem v k (sr_st x0)" and "sems_cv (sem_at k x0) = []"
    and "sr_taken x0 = 0" and "sr_given x0 = 0"
  shows "unat (sems_count (sem_at k x)) + sr_taken x = unat (sems_count (sem_at k x0)) + sr_given x \<and>
    distinct (sems_cv (sem_at k x)) \<and> (\<forall>t \<in> set (sems_cv (sem_at k x)). sr_want x t \<noteq> None)"
  using sem_reach_ok [OF assms(1), of "unat (sems_count (sem_at k x0))"] assms(2-) by (auto simp: sem_run_ok_def)

lemma lost_wakeup:
  assumes nm: "names_sem v k s" and k: "semsems (fsdata s) k = Some sem" and c: "sems_count sem = 0"
    and cv: "sems_cv sem = t1 # t2 # ts" and u: "uio_resid u = 1" and r: "uio_resid r = 1"
  shows "\<exists>s1 s2 s3 s4. semfs_write v u s = Some (Inr (u\<lparr>uio_resid := 0\<rparr>), s1) \<and>
    semfs_write v u s1 = Some (Inr (u\<lparr>uio_resid := 0\<rparr>), s2) \<and>
    semfs_read_loop t1 k r s2 = Some (Inr (r\<lparr>uio_resid := 0\<rparr>, False), s3) \<and>
    semsems (fsdata s3) k = Some (sem\<lparr>sems_cv := t2 # ts, sems_count := 1\<rparr>) \<and>
    semfs_write v u s3 = Some (Inr (u\<lparr>uio_resid := 0\<rparr>), s4) \<and>
    semsems (fsdata s4) k = Some (sem\<lparr>sems_cv := t2 # ts, sems_count := 2\<rparr>)"
proof -
  let ?sem = "\<lambda>n. sem\<lparr>sems_cv := t2 # ts, sems_count := n\<rparr>"
  let ?s1 = "with_sem k (?sem 1) s"
  let ?s2 = "with_sem k (?sem 2) ?s1"
  let ?s3 = "with_sem k (?sem 1) ?s2"
  have n: "names_sem v k ?s1" "names_sem v k ?s3" by (intro names_with_sem nm)+
  have k': "semsems (fsdata ?s1) k = Some (?sem 1)" "semsems (fsdata ?s2) k = Some (?sem 2)"
    "semsems (fsdata ?s3) k = Some (?sem 1)" by (simp_all add: with_sem_sel)
  have "semfs_write v u s = Some (Inr (u\<lparr>uio_resid := 0\<rparr>), ?s1)"
    using write_run [OF nm k, of u] c cv u by (simp add: semfs_wakeup_def)
  moreover have "semfs_write v u ?s1 = Some (Inr (u\<lparr>uio_resid := 0\<rparr>), ?s2)"
    using write_run [OF n(1) k'(1), of u] u by (simp add: semfs_wakeup_def)
  moreover have "semfs_read_loop t1 k r ?s2 = Some (Inr (r\<lparr>uio_resid := 0\<rparr>, False), ?s3)"
    using read_loop_run [OF k'(2), of t1 r] r by (simp add: after_take_def semfs_consume_def)
  moreover have "semfs_write v u ?s3 = Some (Inr (u\<lparr>uio_resid := 0\<rparr>), with_sem k (?sem 2) ?s3)"
    using write_run [OF n(2) k'(3), of u] u by (simp add: semfs_wakeup_def)
  moreover have "semsems (fsdata (with_sem k (?sem 2) ?s3)) k = Some (?sem 2)" by (simp add: with_sem_sel)
  ultimately show ?thesis using k'(3) by blast
qed

section \<open>A semaphore with two sleepers\<close>

definition demo_semfs :: semst where
  "demo_semfs = \<lparr>vnodes = [9 \<mapsto> \<lparr>vn_refcount = 2, vn_fs = Some 0, vn_isdev = False, vn_data = None\<rparr>], knowndevs = [],
     biglock = False, biglock_depth = 0, bootfs_vnode = None, p_cwd = None, d_devnumber = (\<lambda>_. None),
     user = \<lparr>bytes_of = (\<lambda>_. 0), badfault = False\<rparr>,
     fsdata = \<lparr>semfss = [0 \<mapsto> \<lparr>semfs_vnodes = array_init,
         semfs_sems = \<lparr>arr_v = [Some (Some 5)], arr_num = 1, arr_max = 1\<rparr>, semfs_dents = array_init\<rparr>],
       semsems = [5 \<mapsto> \<lparr>sems_cv = [1, 2], sems_count = 0, sems_hasvnode = True, sems_linked = True\<rparr>],
       semdents = Map.empty, semvs = [9 \<mapsto> \<lparr>semv_semfs = 0, semv_semnum = 0\<rparr>]\<rparr>\<rparr>"

definition unit_uio :: uio where
  "unit_uio = \<lparr>uio_iov = [], uio_iovcnt = 0, uio_offset = 0, uio_resid = 1, uio_segflg = UIO_SYSSPACE, uio_rw = UIO_WRITE, uio_space = None\<rparr>"

lemma demo_names: "names_sem 9 5 demo_semfs"
  by (simp add: names_sem_def demo_semfs_def semfs_getsem_def semfs_getsembynum_def the_semv_def the_semfs_def elem_of_def
      need_def array_get_def fetch_def chain_def handle_def succeed_def)

lemma demo_sem: "semsems (fsdata demo_semfs) 5 =
    Some \<lparr>sems_cv = [1, 2], sems_count = 0, sems_hasvnode = True, sems_linked = True\<rparr>"
  by (simp add: demo_semfs_def)

definition demo_run :: sem_run where
  "demo_run = \<lparr>sr_st = with_sem 5 \<lparr>sems_cv = [], sems_count = 0, sems_hasvnode = True, sems_linked = True\<rparr> demo_semfs,
     sr_want = (\<lambda>_. None), sr_taken = 0, sr_given = 0\<rparr>"

lemma demo_run_sem: "sem_at 5 demo_run = \<lparr>sems_cv = [], sems_count = 0, sems_hasvnode = True, sems_linked = True\<rparr>"
  by (simp add: sem_at_def demo_run_def with_sem_sel)

lemma demo_run_names: "names_sem 9 5 (sr_st demo_run)"
  by (simp add: demo_run_def names_with_sem [OF demo_names])

text \<open>Thread 3 reads and falls asleep, and a V wakes it.\<close>

lemma demo_reach: "\<exists>x. sem_reach 9 5 demo_run x \<and> sr_given x = 1 \<and> sems_cv (sem_at 5 x) = []"
proof -
  let ?s = "sr_st demo_run" and ?u = "unit_uio"
  let ?sem = "\<lparr>sems_cv = [3], sems_count = 0, sems_hasvnode = True, sems_linked = True\<rparr>"
  let ?x = "demo_run\<lparr>sr_st := with_sem 5 ?sem ?s, sr_want := (sr_want demo_run)(3 := if True then Some ?u else None),
      sr_taken := sr_taken demo_run + (unat (uio_resid ?u) - unat (uio_resid ?u))\<rparr>"
  have "semfs_read 3 9 ?u ?s = Some (Inr (?u, True), with_sem 5 ?sem ?s)"
    using read_run [OF demo_run_names sem_at_Some [OF demo_run_names], of 3 ?u]
      read_loop_run [OF sem_at_Some [OF demo_run_names], of 3 ?u]
    by (simp add: demo_run_sem after_take_def semfs_consume_def unit_uio_def)
  then have "sem_step 9 5 demo_run ?x" by (intro sem_step.read) (simp add: demo_run_def)
  moreover have n: "names_sem 9 5 (sr_st ?x)" by (simp add: names_with_sem [OF demo_run_names])
  let ?y = "?x\<lparr>sr_st := with_sem 5 (?sem\<lparr>sems_cv := [], sems_count := 1\<rparr>) (sr_st ?x), sr_given := sr_given ?x + unat (uio_resid ?u)\<rparr>"
  have at: "sem_at 5 ?x = ?sem" by (simp add: sem_at_def with_sem_sel)
  have "semfs_write 9 ?u (sr_st ?x) = Some (Inr (?u\<lparr>uio_resid := 0\<rparr>), sr_st ?y)"
    using write_run [OF n sem_at_Some [OF n], of ?u] unfolding at by (simp add: semfs_wakeup_def unit_uio_def)
  from sem_step.write_ok [OF this, of 5] have "sem_step 9 5 ?x ?y" by simp
  ultimately have "sem_reach 9 5 demo_run ?y" by (blast intro: sem_reach.intros)
  moreover have "sr_given ?y = 1" "sems_cv (sem_at 5 ?y) = []"
    by (simp_all add: demo_run_def unit_uio_def sem_at_def with_sem_sel)
  ultimately show ?thesis by blast
qed

section \<open>Theorems\<close>





end
