(* ===== verification/Spec2Isabelle.thy ===== *)
theory Spec2Isabelle
  imports Bitmap Sync_Machine Synch_Problems Migration Trap Kfree Printf Sfs_Facts Exec_Run Semfs_Facts
begin

text \<open>
  The kernel of OS/161 as it stands in \<^verbatim>\<open>src/os161-gmu-2.0/kern\<close>, with the parts of the C library it is built
  with, \<^verbatim>\<open>src/os161-gmu-2.0/common/libc\<close>. Paths below are relative to \<^verbatim>\<open>src/os161-gmu-2.0/kern\<close>. The
  repository holds older copies of the same tree; this one has the students' processes, file system calls, address
  spaces and coremap.

  \<^bold>\<open>The program.\<close> Threads run on several CPUs; a spinlock protects each list of the thread system and a wait
  channel is a list of sleepers. On these rest semaphores, locks and condition variables. A process has threads, an
  address space, a table of open files, a working directory and a list of children. A trap enters the kernel with
  a trapframe: it is an interrupt, a system call or a TLB fault. File system calls go from descriptors to open
  files to the VFS layer, which resolves a path to a vnode and calls its file system: for a disk the simple file
  system (SFS), which calls the device, or the file system of semaphores. \<^verbatim>\<open>execv\<close> puts all of this together: it reads
  a program from a file into a new address space and its arguments onto the stack. Memory comes from the coremap by
  the page and from \<^verbatim>\<open>kmalloc\<close> by the block.

  \<^bold>\<open>Form of the model.\<close> Addresses of structures are natural numbers; an object is a record, the objects of one
  type are a map from addresses, and machine integers are words (\<open>u32\<close>, \<open>u8\<close>, \<open>64 word\<close>). A function that may
  stop the kernel (a failed \<^verbatim>\<open>KASSERT\<close>, \<^verbatim>\<open>panic\<close>, a wild pointer, a wait that cannot end) gives None then.
  Above the thread system most functions are \<open>('s, 'a) op\<close> of theory Ops: None, or an error code or a result with
  the state that is left. Whether an allocation succeeds is an argument. Output to the console is left out.

  \<^bold>\<open>Shared theories.\<close>
  \<^item> OS_Prelude: error codes, assertions, words and bytes, loops over index lists. Ops: sequencing of operations,
    and \<open>wp\<close>, the weakest precondition with its collection \<open>wp_simps\<close>.
  \<^item> Interfaces: the locales \<open>id_source\<close>, \<open>free_map\<close> (a sublocale of it), \<open>vector\<close> and \<open>deque\<close>; further ones stand
    where they are used: \<open>page_source\<close> (Coremap), \<open>vnode_provider\<close> (Vfs_Refs), \<open>device_layer\<close> (Device) and
    \<open>file_provider\<close> (Openfile). They are interpreted on the bitmap, the process numbers, the arrays, both kinds
    of lists, the coremap, the device layer, and a kernel whose only device is \<^verbatim>\<open>null:\<close>; blocks of an SFS volume
    are an \<open>id_source\<close> too.

  \<^bold>\<open>Library routines.\<close>
  \<^item> Bitmap: \<^verbatim>\<open>lib/bitmap.c\<close>, byte by byte, against the set of indices that are marked.
  \<^item> Karray: \<^verbatim>\<open>lib/array.c\<close> and \<^verbatim>\<open>include/array.h\<close>, against lists; the loop that doubles the capacity is a
    partial function, and it does not end above \<open>2 ^ 31\<close> elements.
  \<^item> List_Heap, Threadlist, Proclist: \<^verbatim>\<open>thread/threadlist.c\<close> and \<^verbatim>\<open>proc/proclist.c\<close>, doubly linked lists in a
    heap of link cells, against lists of addresses.
  \<^item> Memory, Uio: the copying routines of \<^verbatim>\<open>common/libc/string\<close>, \<^verbatim>\<open>vm/copyinout.c\<close> and \<^verbatim>\<open>lib/uio.c\<close> over memory by
    the byte with a fault for what may not be touched. Klib: byte order, time arithmetic, the string functions.
  \<^item> Printf: \<^verbatim>\<open>common/libc/printf\<close> and \<^verbatim>\<open>atoi\<close>; output goes to a send function with a state of its own.

  \<^bold>\<open>Threads.\<close>
  \<^item> Spinlock: \<^verbatim>\<open>thread/spl.c\<close> and \<^verbatim>\<open>thread/spinlock.c\<close>, as functions on the state of one CPU, and as a step
    relation of all CPUs in which each access to the lock word is a step.
  \<^item> Kstate, Thread: the state of the thread system and \<^verbatim>\<open>thread/thread.c\<close>, \<^verbatim>\<open>thread/clock.c\<close> and the thread half
    of \<^verbatim>\<open>proc/proc.c\<close>. A function runs on the current CPU up to the point where it switches away; what the
    thread does after it is resumed is a function of its own. Sched has the invariant \<open>sys_ok\<close> and what every
    operation does to it; Thread_Life, Thread_Fork and Migration draw the properties from it.
  \<^item> Synch: \<^verbatim>\<open>thread/synch.c\<close> over that state. Sync_Machine: semaphores and locks as step relations, under any
    interleaving of any number of threads. Synch_Problems: \<^verbatim>\<open>synchprobs\<close>, the two exercises, over these.

  \<^bold>\<open>Memory.\<close>
  \<^item> Coremap: \<^verbatim>\<open>arch/mips/vm/ram.c\<close>, \<^verbatim>\<open>vm/coremap.c\<close> and the page allocator of \<^verbatim>\<open>vm/addrspace.c\<close>. Addrspace: the
    rest of \<^verbatim>\<open>vm/addrspace.c\<close>, with \<^verbatim>\<open>vm_fault\<close> and the TLB.
  \<^item> Kmalloc, Kheap, Kfree: \<^verbatim>\<open>vm/kmalloc.c\<close>, with the invariant of its lists of pages and free lists.

  \<^bold>\<open>Files.\<close>
  \<^item> Vfs: \<^verbatim>\<open>vfs/vnode.c\<close>, \<^verbatim>\<open>vfslist.c\<close>, \<^verbatim>\<open>vfslookup.c\<close>, \<^verbatim>\<open>vfscwd.c\<close> and \<^verbatim>\<open>vfspath.c\<close> over the operations of a file
    system, which are an argument. Vfs_Refs: each reference count is the number of references that are held.
    Device: \<^verbatim>\<open>vfs/device.c\<close>, \<^verbatim>\<open>vfsfail.c\<close> and \<^verbatim>\<open>devnull.c\<close>.
  \<^item> Openfile, File_Syscalls: \<^verbatim>\<open>syscall/openfile.c\<close>, \<^verbatim>\<open>filetable.c\<close> and \<^verbatim>\<open>file_syscalls.c\<close>, with the invariant
    \<open>settled\<close> that counts descriptors against reference counts.
  \<^item> Sfs_Disk: the transfers of \<^verbatim>\<open>dev/lamebus/lhd.c\<close> and the bytes of the structures on disk. Sfs_Block, Sfs_File,
    Sfs, Sfs_Volume: \<^verbatim>\<open>fs/sfs\<close> from blocks up to the tables of operations. Sfs_Spec, Sfs_Map, Sfs_Trunc, Sfs_Facts:
    block transfers, allocation, the map of a file and truncation against the function \<open>fmap\<close> from file blocks
    to disk blocks.
  \<^item> Semfs: \<^verbatim>\<open>fs/semfs\<close>, whose files are semaphores, from the tables up to the operations on vnodes. Semfs_Facts: reads,
    wake-ups and writes of one semaphore as a step relation over the model's functions.

  \<^bold>\<open>Processes.\<close>
  \<^item> Pid: \<^verbatim>\<open>proc/pid.c\<close>. Proc: \<^verbatim>\<open>proc/proc.c\<close> and the state that puts threads, memory, files and processes
    together. Process_Syscalls, Fork: \<^verbatim>\<open>syscall/forker.c\<close>, \<^verbatim>\<open>exit.c\<close> and \<^verbatim>\<open>waiter.c\<close>.
  \<^item> Syscall: the dispatcher \<^verbatim>\<open>arch/mips/syscall/syscall.c\<close>, \<^verbatim>\<open>time_syscalls.c\<close> and reboot. Trap:
    \<^verbatim>\<open>arch/mips/locore/trap.c\<close>.
  \<^item> Exec: \<^verbatim>\<open>syscall/loadelf.c\<close>, \<^verbatim>\<open>execv.c\<close> and \<^verbatim>\<open>runprogram.c\<close>. Exec_Facts: the argument block, and a whole load of an
    executable, over a file system of which it is only known that it delivers what is in the file (\<open>reads_file\<close>). Exec_Run:
    \<open>sys_execv\<close> from the old program to the new one, and its failures.

  \<^bold>\<open>Bounds and fuel.\<close> The loops of the code are recursion on index lists or lists of arguments. Where a loop need
  not end, it is a \<open>partial_function\<close> (growing an array, the string loops, the count of
  the arguments of \<^verbatim>\<open>execv\<close>), with the condition under which it
  returns proved, or takes fuel: spinning on a spinlock, where None says that it spins on, and walks along lists
  of pages, whose fuel is the number of pagerefs there are, enough for a list without a cycle.

  \<^bold>\<open>Not modelled.\<close> The machine below the C code (context switch, exception entry, LAMEbus and the registers of the
  devices), drivers other than the transfers of the disk, boot and the menu, the tests of the kernel, and the
  pass-through file system of the emulator. Interrupts arrive where the code lets them: at the calls that
  the model makes of \<^verbatim>\<open>mips_trap\<close>, and as steps of the relations in Spinlock and Sync_Machine, not between any two
  statements of the functions of Thread and Synch. User programs and the C library of user level are outside. The
  components of the manifest say in each case what is left out and why.
\<close>

end
